(* ===== verification/Prelude.thy ===== *)
theory Prelude
  imports Main "HOL-Library.Word"
begin

text \<open>
  What the components share: the machine integer types of \<^verbatim>\<open>types.h\<close>, the outcome of a kernel
  routine (a value, a kernel panic, or an access that C leaves undefined), the table scan that the
  kernel writes as a \<^verbatim>\<open>for\<close> loop over an array, and the lemmas about lists and words that the
  component proofs use. The collection \<open>kres_simps\<close> unfolds sequencing of outcomes, and
  \<open>word_bounds\<close> moves comparisons of machine words to the natural numbers.
\<close>

unbundle bit_operations_syntax

named_theorems kres_simps \<open>sequencing of kernel outcomes\<close>
named_theorems word_bounds \<open>words read as natural numbers\<close>

section \<open>Machine integers\<close>

type_synonym uchar = "8 word"
type_synonym ushort = "16 word"
type_synonym uint = "32 word"

section \<open>Outcomes of kernel code\<close>

text \<open>
  \<open>Panic\<close> is a call of \<^verbatim>\<open>panic\<close> (\<^verbatim>\<open>console.c\<close>), which never returns. \<open>Undefined\<close> is a
  memory access outside the object it names: C gives it no meaning, so the model stops there
  instead of inventing one. \<open>Waits\<close> is a call that has to sleep before it can go on, in a routine
  that the model runs for one process at a time; routines whose sleeping matters are cut at the sleep.
\<close>

datatype kerror = Panic string | Undefined string | Waits string

type_synonym 'a kres = "kerror + 'a"

definition kbind :: "'a kres \<Rightarrow> ('a \<Rightarrow> 'b kres) \<Rightarrow> 'b kres" where
  "kbind m f = (case m of Inl e \<Rightarrow> Inl e | Inr x \<Rightarrow> f x)"

lemma kbind_Inl [simp, kres_simps]: "kbind (Inl e) f = Inl e"
  by (simp add: kbind_def)

lemma kbind_Inr [simp, kres_simps]: "kbind (Inr x) f = f x"
  by (simp add: kbind_def)

lemma kbind_eq_Inr [kres_simps]: "kbind m f = Inr y \<longleftrightarrow> (\<exists>x. m = Inr x \<and> f x = Inr y)"
  by (cases m) auto

lemma kbind_eq_Inl [kres_simps]:
  "kbind m f = Inl e \<longleftrightarrow> m = Inl e \<or> (\<exists>x. m = Inr x \<and> f x = Inl e)"
  by (cases m) auto

lemma kbind_assoc: "kbind (kbind m f) g = kbind m (\<lambda>x. kbind (f x) g)"
  by (cases m) auto

lemma kbind_cong [fundef_cong]:
  "m = m' \<Longrightarrow> (\<And>x. m' = Inr x \<Longrightarrow> f x = f' x) \<Longrightarrow> kbind m f = kbind m' f'"
  by (cases m') auto

section \<open>Scanning a table\<close>

text \<open>
  \<^verbatim>\<open>for (p = table; p < &table[N]; p++) if (P(p)) return p;\<close> stops at the first entry that
  satisfies the condition: its index, or \<open>None\<close> where the loop runs off the end.
\<close>

fun first_index :: "('a \<Rightarrow> bool) \<Rightarrow> 'a list \<Rightarrow> nat option" where
  "first_index P [] = None"
| "first_index P (x # xs) = (if P x then Some 0 else map_option Suc (first_index P xs))"

lemma first_index_None [simp]: "first_index P xs = None \<longleftrightarrow> (\<forall>x \<in> set xs. \<not> P x)"
  by (induction xs) auto

lemma first_index_SomeD:
  "first_index P xs = Some i \<Longrightarrow> i < length xs \<and> P (xs ! i) \<and> (\<forall>j < i. \<not> P (xs ! j))"
proof (induction xs arbitrary: i)
  case (Cons x xs)
  show ?case
  proof (cases "P x")
    case True
    with Cons.prems show ?thesis by simp
  next
    case False
    with Cons.prems obtain k where k: "first_index P xs = Some k" "i = Suc k" by auto
    from Cons.IH [OF k(1)] False k(2) show ?thesis by (auto simp: nth_Cons' less_Suc_eq_0_disj)
  qed
qed simp

lemma first_index_eq_Some:
  "first_index P xs = Some i \<longleftrightarrow> i < length xs \<and> P (xs ! i) \<and> (\<forall>j < i. \<not> P (xs ! j))"
proof
  assume i: "i < length xs \<and> P (xs ! i) \<and> (\<forall>j < i. \<not> P (xs ! j))"
  then have "first_index P xs \<noteq> None" by (auto intro: nth_mem)
  then obtain k where k: "first_index P xs = Some k" by blast
  from first_index_SomeD [OF k] i have "k = i" by (meson linorder_neqE_nat)
  with k show "first_index P xs = Some i" by simp
qed (rule first_index_SomeD)

lemma first_index_less [dest]: "first_index P xs = Some i \<Longrightarrow> i < length xs"
  by (simp add: first_index_eq_Some)

lemma first_index_holds: "first_index P xs = Some i \<Longrightarrow> P (xs ! i)"
  by (simp add: first_index_eq_Some)

lemma first_index_ex: "x \<in> set xs \<Longrightarrow> P x \<Longrightarrow> \<exists>i. first_index P xs = Some i"
  by (cases "first_index P xs") auto

text \<open>An index that is the only one to satisfy the condition is the one the scan finds.\<close>

lemma first_index_unique:
  "i < length xs \<Longrightarrow> P (xs ! i) \<Longrightarrow> (\<And>j. j < length xs \<Longrightarrow> P (xs ! j) \<Longrightarrow> j = i) \<Longrightarrow>
   first_index P xs = Some i"
  unfolding first_index_eq_Some by (metis dual_order.strict_trans nat_neq_iff)

section \<open>Counting table entries\<close>

definition count_if :: "('a \<Rightarrow> bool) \<Rightarrow> 'a list \<Rightarrow> nat" where
  "count_if P xs = length (filter P xs)"

lemma count_if_le [simp]: "count_if P xs \<le> length xs"
  by (simp add: count_if_def)

lemma count_if_update:
  assumes "i < length xs"
  shows "int (count_if P (xs[i := x])) =
    int (count_if P xs) - (if P (xs ! i) then 1 else 0) + (if P x then 1 else 0)"
proof -
  have split: "count_if P (ys @ y # zs) =
      count_if P ys + (if P y then 1 else 0) + count_if P zs" for ys y zs
    by (simp add: count_if_def)
  have "count_if P xs = count_if P (take i xs @ xs ! i # drop (Suc i) xs)"
    using assms by (simp add: id_take_nth_drop [symmetric])
  moreover have "count_if P (xs[i := x]) = count_if P (take i xs @ x # drop (Suc i) xs)"
    using assms by (simp add: upd_conv_take_nth_drop)
  ultimately show ?thesis by (simp only: split) simp
qed

lemma count_if_full: "count_if P xs = length xs \<longleftrightarrow> (\<forall>x \<in> set xs. P x)"
  unfolding count_if_def
  by (metis filter_True length_filter_less nat_neq_iff)

lemma count_if_zero: "count_if P xs = 0 \<longleftrightarrow> (\<forall>x \<in> set xs. \<not> P x)"
  by (simp add: count_if_def filter_empty_conv)

section \<open>Words read as natural numbers\<close>

lemma unat_of_nat_small [word_bounds]:
  "n < 2 ^ 32 \<Longrightarrow> unat (of_nat n :: uint) = n"
  by (simp add: unat_of_nat)

lemma unat_add_small [word_bounds]:
  "unat (a :: uint) + unat b < 2 ^ 32 \<Longrightarrow> unat (a + b) = unat a + unat b"
  by (simp add: unat_word_ariths)

lemma unat_sub_small [word_bounds]: "b \<le> (a :: uint) \<Longrightarrow> unat (a - b) = unat a - unat b"
  by (rule unat_sub)

lemma uint_less_pow [simp]: "unat (a :: uint) < 4294967296"
  using unsigned_less [of a] by simp

lemma nat_less_4: "(k :: nat) < 4 \<longleftrightarrow> k = 0 \<or> k = 1 \<or> k = 2 \<or> k = 3"
  by auto

lemma unat_pos_iff: "0 < unat (x :: uint) \<longleftrightarrow> x \<noteq> 0"
  by (metis gr0I less_numeral_extra(3) unat_0 unat_eq_zero)

end
