(* ===== verification/CString.thy ===== *)
theory CString
  imports Prelude
begin

text \<open>
  The memory and string routines of \<^verbatim>\<open>string.c\<close> (with the two store loops of \<^verbatim>\<open>x86.h\<close> they
  use), on a byte-addressed memory of 32-bit addresses. Pointer arithmetic is word arithmetic, so a
  range that runs past the top of memory wraps as it does on the machine. The lemmas give each
  routine its meaning as a write of a list of bytes: \<open>memmove\<close> copies overlapping ranges
  correctly, \<open>memset\<close> fills a range whichever store width it picks, \<open>strncpy\<close> and
  \<open>safestrcpy\<close> write what their contracts say, \<open>strncmp\<close> decides equality of prefixes.
\<close>

type_synonym memory = "uint \<Rightarrow> uchar"

section \<open>Definitions\<close>

fun stosb :: "memory \<Rightarrow> uint \<Rightarrow> uchar \<Rightarrow> nat \<Rightarrow> memory" where
  "stosb m addr data 0 = m"
| "stosb m addr data (Suc cnt) = stosb (m(addr := data)) (addr + 1) data cnt"

definition store32 :: "memory \<Rightarrow> uint \<Rightarrow> uint \<Rightarrow> memory" where
  "store32 m a x = m(a := ucast x, a + 1 := ucast (drop_bit 8 x),
     a + 2 := ucast (drop_bit 16 x), a + 3 := ucast (drop_bit 24 x))"

definition load32 :: "memory \<Rightarrow> uint \<Rightarrow> uint" where
  "load32 m a = ucast (m a) OR push_bit 8 (ucast (m (a + 1))) OR
     push_bit 16 (ucast (m (a + 2))) OR push_bit 24 (ucast (m (a + 3)))"

fun stosl :: "memory \<Rightarrow> uint \<Rightarrow> uint \<Rightarrow> nat \<Rightarrow> memory" where
  "stosl m addr data 0 = m"
| "stosl m addr data (Suc cnt) = stosl (store32 m addr data) (addr + 4) data cnt"

definition memset :: "memory \<Rightarrow> uint \<Rightarrow> uint \<Rightarrow> uint \<Rightarrow> memory" where
  "memset m dst c n =
     (if dst mod 4 = 0 \<and> n mod 4 = 0 then
        let c = c AND 0xFF
        in stosl m dst (push_bit 24 c OR push_bit 16 c OR push_bit 8 c OR c) (unat (n div 4))
      else stosb m dst (ucast c) (unat n))"

fun memcmp_loop :: "memory \<Rightarrow> uint \<Rightarrow> uint \<Rightarrow> nat \<Rightarrow> int" where
  "memcmp_loop m s1 s2 0 = 0"
| "memcmp_loop m s1 s2 (Suc n) =
     (if m s1 \<noteq> m s2 then int (unat (m s1)) - int (unat (m s2))
      else memcmp_loop m (s1 + 1) (s2 + 1) n)"

definition memcmp :: "memory \<Rightarrow> uint \<Rightarrow> uint \<Rightarrow> uint \<Rightarrow> int" where
  "memcmp m v1 v2 n = memcmp_loop m v1 v2 (unat n)"

fun memmove_down :: "memory \<Rightarrow> uint \<Rightarrow> uint \<Rightarrow> nat \<Rightarrow> memory" where
  "memmove_down m d s 0 = m"
| "memmove_down m d s (Suc n) = memmove_down (m(d - 1 := m (s - 1))) (d - 1) (s - 1) n"

fun memmove_up :: "memory \<Rightarrow> uint \<Rightarrow> uint \<Rightarrow> nat \<Rightarrow> memory" where
  "memmove_up m d s 0 = m"
| "memmove_up m d s (Suc n) = memmove_up (m(d := m s)) (d + 1) (s + 1) n"

definition memmove :: "memory \<Rightarrow> uint \<Rightarrow> uint \<Rightarrow> uint \<Rightarrow> memory" where
  "memmove m dst src n =
     (if src < dst \<and> src + n > dst then memmove_down m (dst + n) (src + n) (unat n)
      else memmove_up m dst src (unat n))"

definition memcpy :: "memory \<Rightarrow> uint \<Rightarrow> uint \<Rightarrow> uint \<Rightarrow> memory" where
  "memcpy m dst src n = memmove m dst src n"

fun strncmp_loop :: "memory \<Rightarrow> uint \<Rightarrow> uint \<Rightarrow> nat \<Rightarrow> int" where
  "strncmp_loop m p q 0 = 0"
| "strncmp_loop m p q (Suc n) =
     (if m p \<noteq> 0 \<and> m p = m q then strncmp_loop m (p + 1) (q + 1) n
      else int (unat (m p)) - int (unat (m q)))"

definition strncmp :: "memory \<Rightarrow> uint \<Rightarrow> uint \<Rightarrow> uint \<Rightarrow> int" where
  "strncmp m p q n = strncmp_loop m p q (unat n)"

text \<open>The first loop of \<open>strncpy\<close>, with the place where it stopped and what is left of \<open>n\<close>.\<close>

fun strncpy_loop :: "memory \<Rightarrow> uint \<Rightarrow> uint \<Rightarrow> nat \<Rightarrow> memory \<times> uint \<times> nat" where
  "strncpy_loop m s t 0 = (m, s, 0)"
| "strncpy_loop m s t (Suc n) =
     (let c = m t; m' = m(s := c)
      in if c \<noteq> 0 then strncpy_loop m' (s + 1) (t + 1) n else (m', s + 1, n))"

definition strncpy :: "memory \<Rightarrow> uint \<Rightarrow> uint \<Rightarrow> int \<Rightarrow> memory" where
  "strncpy m s t n = (case strncpy_loop m s t (nat n) of (m', s', k) \<Rightarrow> stosb m' s' 0 k)"

definition safestrcpy :: "memory \<Rightarrow> uint \<Rightarrow> uint \<Rightarrow> int \<Rightarrow> memory" where
  "safestrcpy m s t n =
     (if n \<le> 0 then m
      else case strncpy_loop m s t (nat (n - 1)) of (m', s', k) \<Rightarrow> m'(s' := 0))"

partial_function (option) strlen_loop :: "memory \<Rightarrow> uint \<Rightarrow> nat \<Rightarrow> nat option" where
  "strlen_loop m s n = (if m (s + of_nat n) = 0 then Some n else strlen_loop m s (Suc n))"

definition strlen :: "memory \<Rightarrow> uint \<Rightarrow> nat option" where
  "strlen m s = strlen_loop m s 0"

section \<open>Writing and reading lists of bytes\<close>

text \<open>Bytes written upwards from an address, and the strings that memory holds.\<close>

fun mem_write :: "memory \<Rightarrow> uint \<Rightarrow> uchar list \<Rightarrow> memory" where
  "mem_write m a [] = m"
| "mem_write m a (x # xs) = mem_write (m(a := x)) (a + 1) xs"

definition mem_read :: "memory \<Rightarrow> uint \<Rightarrow> nat \<Rightarrow> uchar list" where
  "mem_read m a n = map (\<lambda>k. m (a + of_nat k)) [0..<n]"

text \<open>A NUL-terminated string at \<open>p\<close>: its bytes, none of them zero, then a zero byte.\<close>

definition cstr :: "memory \<Rightarrow> uint \<Rightarrow> uchar list \<Rightarrow> bool" where
  "cstr m p xs \<longleftrightarrow> 0 \<notin> set xs \<and> (\<forall>i < length xs. m (p + of_nat i) = xs ! i) \<and>
     m (p + of_nat (length xs)) = 0"

text \<open>What \<open>strncpy\<close> leaves in its destination: at most \<open>n\<close> bytes, padded with zeros.\<close>

definition strncpy_bytes :: "nat \<Rightarrow> uchar list \<Rightarrow> uchar list" where
  "strncpy_bytes n xs = take n xs @ replicate (n - length xs) 0"

lemma length_strncpy_bytes [simp]: "length (strncpy_bytes n xs) = n"
  by (simp add: strncpy_bytes_def)

lemma unat_minus_1: "(b :: uint) \<noteq> a \<Longrightarrow> unat (b - (a + 1)) = unat (b - a) - 1"
  using unat_minus_one [of "b - a"] by (simp add: diff_diff_eq)

lemma unat_minus_one_word [simp]: "unat (- 1 :: uint) = 4294967295"
  by (simp add: unsigned_minus_1_eq_mask mask_eq_exp_minus_1)

lemma mem_write_apply:
  "length xs \<le> 2 ^ 32 \<Longrightarrow>
   mem_write m a xs b = (if unat (b - a) < length xs then xs ! unat (b - a) else m b)"
proof (induction xs arbitrary: m a)
  case (Cons x xs)
  show ?case
  proof (cases "b = a")
    case True
    with Cons.prems Cons.IH [of "m(a := x)" "a + 1"] show ?thesis
      by (simp del: fun_upd_apply) simp
  next
    case False
    then have "unat (b - a) \<noteq> 0" by (simp add: unat_eq_zero)
    with False Cons show ?thesis by (auto simp: unat_minus_1 nth_Cons')
  qed
qed simp

lemma stosb_write: "stosb m a c n = mem_write m a (replicate n c)"
  by (induction n arbitrary: m a) auto

lemma store32_write:
  "store32 m a x =
   mem_write m a [ucast x, ucast (drop_bit 8 x), ucast (drop_bit 16 x), ucast (drop_bit 24 x)]"
  by (simp add: store32_def add.assoc)

lemma mem_write_append: "mem_write m a (xs @ ys) = mem_write (mem_write m a xs) (a + of_nat (length xs)) ys"
  by (induction xs arbitrary: m a) (auto simp: add.assoc)


lemma bytes_join:
  "ucast (ucast x :: uchar) OR push_bit 8 (ucast (ucast (drop_bit 8 x) :: uchar)) OR
   push_bit 16 (ucast (ucast (drop_bit 16 x) :: uchar)) OR
   push_bit 24 (ucast (ucast (drop_bit 24 x) :: uchar)) = (x :: uint)"
proof (rule bit_word_eqI)
  fix n
  assume "n < LENGTH(32)"
  then consider "n < 8" | "8 \<le> n" "n < 16" | "16 \<le> n" "n < 24" | "24 \<le> n" "n < 32"
    by fastforce
  then show "bit ((ucast (ucast x :: uchar) :: uint) OR push_bit 8 (ucast (ucast (drop_bit 8 x) :: uchar)) OR
     push_bit 16 (ucast (ucast (drop_bit 16 x) :: uchar)) OR
     push_bit 24 (ucast (ucast (drop_bit 24 x) :: uchar))) n = bit x n"
    by cases (auto simp: bit_simps)
qed

lemma load32_store32_same [simp]: "load32 (store32 m a x) a = x"
  by (simp add: load32_def store32_def bytes_join)

lemma store32_apply:
  "store32 m a x b =
   (if unat (b - a) < 4 then ucast (drop_bit (8 * unat (b - a)) x) else m b)"
  unfolding store32_write
  by (subst mem_write_apply) (auto simp: nat_less_4)

lemma low_byte: "(c :: uint) AND 0xFF = take_bit 8 c"
  by (simp add: take_bit_eq_mask mask_eq_exp_minus_1)

lemma repeated_byte:
  fixes c :: uint
  assumes "d = take_bit 8 c"
  shows "ucast (push_bit 24 d OR push_bit 16 d OR push_bit 8 d OR d) = (ucast c :: uchar)"
    and "ucast (drop_bit 8 (push_bit 24 d OR push_bit 16 d OR push_bit 8 d OR d)) = (ucast c :: uchar)"
    and "ucast (drop_bit 16 (push_bit 24 d OR push_bit 16 d OR push_bit 8 d OR d)) = (ucast c :: uchar)"
    and "ucast (drop_bit 24 (push_bit 24 d OR push_bit 16 d OR push_bit 8 d OR d)) = (ucast c :: uchar)"
  unfolding assms by (rule bit_word_eqI; auto simp: bit_simps)+

lemma stosl_write:
  fixes c :: uint
  assumes d: "d = take_bit 8 c"
  shows "stosl m a (push_bit 24 d OR push_bit 16 d OR push_bit 8 d OR d) k =
    mem_write m a (replicate (4 * k) (ucast c))"
proof (induction k arbitrary: m a)
  case (Suc k)
  have word: "store32 m a (push_bit 24 d OR push_bit 16 d OR push_bit 8 d OR d) =
      mem_write m a [ucast c, ucast c, ucast c, ucast c]"
    unfolding store32_write repeated_byte [OF d] ..
  have "replicate (4 * Suc k) (ucast c :: uchar) =
      [ucast c, ucast c, ucast c, ucast c] @ replicate (4 * k) (ucast c)"
    by (simp add: numeral_eq_Suc)
  moreover have "of_nat (length [ucast c :: uchar, ucast c, ucast c, ucast c]) = (4 :: uint)"
    by simp
  ultimately show ?case
    by (simp only: stosl.simps word Suc.IH mem_write_append)
qed simp

section \<open>What the routines do\<close>

text \<open>Whichever store loop \<open>memset\<close> picks, it fills exactly the \<open>n\<close> bytes from \<open>dst\<close>.\<close>

lemma memset_write: "memset m dst c n = mem_write m dst (replicate (unat n) (ucast c))"
proof (cases "dst mod 4 = 0 \<and> n mod 4 = 0")
  case True
  then have "unat (n mod 4) = 0" by simp
  then have "unat n mod 4 = 0" by (simp add: unat_mod_distrib)
  then have "4 * unat (n div 4) = unat n" by (simp add: unat_div_distrib) presburger
  with True show ?thesis
    by (simp add: memset_def Let_def low_byte stosl_write)
next
  case False
  then show ?thesis by (simp only: memset_def False if_False stosb_write)
qed

lemma memset_apply:
  "memset m dst c n b = (if unat (b - dst) < unat n then ucast c else m b)"
  by (auto simp: memset_write mem_write_apply less_imp_le)

text \<open>The two copy loops of \<open>memmove\<close>, each on the ranges it is chosen for.\<close>

lemma memmove_up_apply:
  assumes "d \<le> s \<or> unat s + n \<le> unat d" "unat s + n \<le> 2 ^ 32" "unat d + n \<le> 2 ^ 32"
  shows "memmove_up m d s n b = (if unat (b - d) < n then m (s + (b - d)) else m b)"
  using assms
proof (induction n arbitrary: m d s)
  case (Suc n)
  show ?case
  proof (cases "n = 0")
    case True
    then show ?thesis by (auto simp: unat_eq_zero)
  next
    case False
    have d1: "unat (d + 1) = Suc (unat d)" and s1: "unat (s + 1) = Suc (unat s)"
      using Suc.prems False by (simp_all add: unat_word_ariths)
    have IH: "memmove_up (m(d := m s)) (d + 1) (s + 1) n b =
        (if unat (b - (d + 1)) < n then (m(d := m s)) (s + 1 + (b - (d + 1))) else (m(d := m s)) b)"
      using Suc.prems d1 s1 by (intro Suc.IH) (auto simp: word_le_nat_alt)
    show ?thesis
    proof (cases "b = d")
      case True
      then show ?thesis using IH Suc.prems by simp
    next
      case False
      then have pos: "0 < unat (b - d)" by (simp add: unat_pos_iff)
      have "s + (b - d) \<noteq> d" if "unat (b - d) < Suc n"
      proof
        assume "s + (b - d) = d"
        then have "unat (s + (b - d)) = unat d" by (rule arg_cong)
        moreover have "unat (s + (b - d)) = unat s + unat (b - d)"
          using that Suc.prems by (intro unat_add_small) simp
        ultimately show False using that Suc.prems(1) pos unfolding word_le_nat_alt by linarith
      qed
      with IH False pos show ?thesis by (auto simp: unat_minus_1)
    qed
  qed
qed simp

lemma memmove_down_apply:
  assumes "s \<le> d" "unat s + n \<le> 2 ^ 32" "unat d + n \<le> 2 ^ 32"
  shows "memmove_down m (d + of_nat n) (s + of_nat n) n b =
    (if unat (b - d) < n then m (s + (b - d)) else m b)"
  using assms
proof (induction n arbitrary: m)
  case (Suc n)
  let ?m = "m(d + of_nat n := m (s + of_nat n))"
  have n: "unat (of_nat n :: uint) = n" using Suc.prems by (intro unat_of_nat_small) simp
  have IH: "memmove_down ?m (d + of_nat n) (s + of_nat n) n b =
      (if unat (b - d) < n then ?m (s + (b - d)) else ?m b)"
    using Suc.prems by (intro Suc.IH) auto
  have ends: "d + of_nat (Suc n) - 1 = d + of_nat n" "s + of_nat (Suc n) - 1 = s + of_nat n"
    by (simp_all add: algebra_simps)
  have low: "s + (b - d) \<noteq> d + of_nat n" if "unat (b - d) < n"
  proof
    assume "s + (b - d) = d + of_nat n"
    then have "unat (s + (b - d)) = unat (d + of_nat n)" by (rule arg_cong)
    moreover have "unat (s + (b - d)) = unat s + unat (b - d)"
      using that Suc.prems by (intro unat_add_small) simp
    moreover have "unat (d + of_nat n) = unat d + n"
      using n Suc.prems by (subst unat_add_small) auto
    ultimately show False using that Suc.prems(1) unfolding word_le_nat_alt by linarith
  qed
  have top: "b = d + of_nat n \<longleftrightarrow> unat (b - d) = n"
  proof
    assume "unat (b - d) = n"
    then have "b - d = of_nat n" by (metis word_unat_eq_iff n)
    then show "b = d + of_nat n" by (simp add: algebra_simps)
  qed (simp add: n)
  show ?case
    unfolding memmove_down.simps ends IH using low top by (auto simp: less_Suc_eq)
qed simp

text \<open>
  \<open>memmove\<close> leaves in the destination what the source held before the call, also where the two
  ranges overlap, and changes nothing else.
\<close>

lemma memmove_apply:
  assumes "unat src + unat n < 2 ^ 32" "unat dst + unat n < 2 ^ 32"
  shows "memmove m dst src n b = (if unat (b - dst) < unat n then m (src + (b - dst)) else m b)"
proof (cases "src < dst \<and> src + n > dst")
  case True
  moreover have "memmove_down m (dst + of_nat (unat n)) (src + of_nat (unat n)) (unat n) b =
      (if unat (b - dst) < unat n then m (src + (b - dst)) else m b)"
    using True assms by (intro memmove_down_apply) auto
  ultimately show ?thesis by (simp add: memmove_def)
next
  case False
  have "unat (src + n) = unat src + unat n" using assms by (intro unat_add_small) simp
  with False have "dst \<le> src \<or> unat src + unat n \<le> unat dst"
    by (auto simp: word_le_nat_alt word_less_nat_alt)
  with assms have "memmove_up m dst src (unat n) b =
      (if unat (b - dst) < unat n then m (src + (b - dst)) else m b)"
    by (intro memmove_up_apply) auto
  with False show ?thesis unfolding memmove_def by presburger
qed

text \<open>\<open>memcmp\<close> is zero exactly on equal ranges.\<close>

lemma memcmp_loop_zero:
  "memcmp_loop m s1 s2 n = 0 \<longleftrightarrow> (\<forall>k < n. m (s1 + of_nat k) = m (s2 + of_nat k))"
proof (induction n arbitrary: s1 s2)
  case (Suc n)
  have "(\<forall>k < Suc n. m (s1 + of_nat k) = m (s2 + of_nat k)) \<longleftrightarrow>
      m s1 = m s2 \<and> (\<forall>k < n. m (s1 + 1 + of_nat k) = m (s2 + 1 + of_nat k))"
    by (auto simp: less_Suc_eq_0_disj add.assoc)
  then show ?case using Suc.IH by (auto simp: word_uint_eq_iff)
qed simp

lemma memcmp_zero: "memcmp m v1 v2 n = 0 \<longleftrightarrow> mem_read m v1 (unat n) = mem_read m v2 (unat n)"
  by (auto simp: memcmp_def memcmp_loop_zero mem_read_def)

lemma cstr_Nil [simp]: "cstr m p [] \<longleftrightarrow> m p = 0"
  by (simp add: cstr_def)

lemma cstr_Cons [simp]: "cstr m p (x # xs) \<longleftrightarrow> x \<noteq> 0 \<and> m p = x \<and> cstr m (p + 1) xs"
  unfolding cstr_def by (auto simp: less_Suc_eq_0_disj add.assoc)

text \<open>\<open>strncmp\<close> compares two strings up to \<open>n\<close> bytes.\<close>

lemma strncmp_loop_zero:
  "cstr m p xs \<Longrightarrow> cstr m q ys \<Longrightarrow> strncmp_loop m p q n = 0 \<longleftrightarrow> take n xs = take n ys"
proof (induction n arbitrary: p q xs ys)
  case (Suc n)
  then show ?case
    by (cases xs; cases ys) (auto simp: uint_0_iff dest: word_uint_eq_iff [THEN iffD2])
qed simp

lemma strncmp_zero:
  "cstr m p xs \<Longrightarrow> cstr m q ys \<Longrightarrow> strncmp m p q n = 0 \<longleftrightarrow> take (unat n) xs = take (unat n) ys"
  unfolding strncmp_def by (rule strncmp_loop_zero)

text \<open>\<open>strlen\<close> returns on every string, and returns its length.\<close>

lemma strlen_loop_cstr:
  "cstr m s xs \<Longrightarrow> k \<le> length xs \<Longrightarrow> strlen_loop m s (length xs - k) = Some (length xs)"
proof (induction k)
  case 0
  then show ?case by (subst strlen_loop.simps) (simp add: cstr_def)
next
  case (Suc k)
  then have i: "length xs - Suc k < length xs" and "Suc (length xs - Suc k) = length xs - k"
    by auto
  moreover have "m (s + of_nat (length xs - Suc k)) \<noteq> 0"
    using Suc.prems(1) i unfolding cstr_def by (metis nth_mem)
  ultimately show ?case using Suc by (subst strlen_loop.simps) simp
qed

lemma strlen_cstr: "cstr m s xs \<Longrightarrow> strlen m s = Some (length xs)"
  using strlen_loop_cstr [of m s xs "length xs"] by (simp add: strlen_def)

lemma cstr_update:
  "(\<And>i. i \<le> length xs \<Longrightarrow> p + of_nat i \<noteq> a) \<Longrightarrow> cstr (m(a := c)) p xs \<longleftrightarrow> cstr m p xs"
  unfolding cstr_def by (auto simp: less_imp_le)

text \<open>
  The copy loop that \<open>strncpy\<close> and \<open>safestrcpy\<close> share, from a string none of whose bytes lie in
  the destination: it stops after the NUL it copied, or after \<open>n\<close> bytes.
\<close>

lemma strncpy_loop_write:
  assumes "cstr m t xs" "\<And>i. i \<le> length xs \<Longrightarrow> n \<le> unat (t + of_nat i - s)"
  shows "strncpy_loop m s t n =
    (if length xs < n
     then (mem_write m s (xs @ [0]), s + of_nat (Suc (length xs)), n - Suc (length xs))
     else (mem_write m s (take n xs), s + of_nat n, 0))"
  using assms
proof (induction n arbitrary: m s t xs)
  case (Suc n)
  show ?case
  proof (cases xs)
    case Nil
    with Suc.prems show ?thesis by simp
  next
    case (Cons x ys)
    let ?m = "m(s := x)"
    have far: "n \<le> unat (t + 1 + of_nat i - (s + 1))" and off: "t + 1 + of_nat i \<noteq> s"
      if "i \<le> length ys" for i
    proof -
      have "Suc n \<le> unat (t + of_nat (Suc i) - s)"
        using Suc.prems(2) [of "Suc i"] that Cons by simp
      then show "t + 1 + of_nat i \<noteq> s" by (auto simp: add.assoc)
      have "Suc n \<le> unat (t + of_nat i - s)"
        using Suc.prems(2) [of i] that Cons by simp
      then show "n \<le> unat (t + 1 + of_nat i - (s + 1))" by (simp add: algebra_simps)
    qed
    have "cstr ?m (t + 1) ys" using Suc.prems(1) Cons off by (simp add: cstr_update)
    then have "strncpy_loop ?m (s + 1) (t + 1) n =
      (if length ys < n
       then (mem_write ?m (s + 1) (ys @ [0]), s + 1 + of_nat (Suc (length ys)), n - Suc (length ys))
       else (mem_write ?m (s + 1) (take n ys), s + 1 + of_nat n, 0))"
      using far by (rule Suc.IH)
    with Suc.prems(1) Cons show ?thesis by (simp add: Let_def add.assoc)
  qed
qed simp

lemma strncpy_write:
  assumes "cstr m t xs" "\<And>i. i \<le> length xs \<Longrightarrow> nat n \<le> unat (t + of_nat i - s)"
  shows "strncpy m s t n = mem_write m s (strncpy_bytes (nat n) xs)"
proof (cases "length xs < nat n")
  case True
  then have "strncpy_bytes (nat n) xs = (xs @ [0]) @ replicate (nat n - Suc (length xs)) 0"
    unfolding strncpy_bytes_def by (simp add: Suc_diff_Suc flip: replicate_Suc)
  with True strncpy_loop_write [OF assms] show ?thesis
    by (simp add: strncpy_def stosb_write mem_write_append del: append_assoc)
next
  case False
  with strncpy_loop_write [OF assms] show ?thesis
    by (simp add: strncpy_def strncpy_bytes_def stosb_write)
qed

lemma safestrcpy_write:
  assumes "cstr m t xs" "0 < n" "\<And>i. i \<le> length xs \<Longrightarrow> nat n \<le> unat (t + of_nat i - s)"
  shows "safestrcpy m s t n =
    mem_write m s (take (nat n - 1) xs @ (if length xs < nat n - 1 then [0, 0] else [0]))"
proof -
  have "strncpy_loop m s t (nat (n - 1)) =
    (if length xs < nat (n - 1)
     then (mem_write m s (xs @ [0]), s + of_nat (Suc (length xs)), nat (n - 1) - Suc (length xs))
     else (mem_write m s (take (nat (n - 1)) xs), s + of_nat (nat (n - 1)), 0))"
    by (rule strncpy_loop_write [OF assms(1)]) (meson assms(3) nat_mono le_trans diff_le_self
      le_diff_eq zle_diff1_eq less_imp_le order_trans add_increasing2 zero_le_one order_refl)
  moreover have "nat (n - 1) = nat n - 1" using assms(2) by simp
  ultimately show ?thesis using assms(2)
    by (auto simp: safestrcpy_def mem_write_append min_def add.assoc)
qed

section \<open>The same routines on strings\<close>

text \<open>
  Kernel code that passes whole strings around is modelled on the strings themselves (the bytes
  before the NUL). These are the routines on them, with the lemmas that say so.
\<close>

fun strncmp_str :: "uchar list \<Rightarrow> uchar list \<Rightarrow> nat \<Rightarrow> int" where
  "strncmp_str p q 0 = 0"
| "strncmp_str [] [] (Suc n) = 0"
| "strncmp_str [] (y # q) (Suc n) = - int (unat y)"
| "strncmp_str (x # p) [] (Suc n) = int (unat x)"
| "strncmp_str (x # p) (y # q) (Suc n) =
     (if x = y then strncmp_str p q n else int (unat x) - int (unat y))"

lemma strncmp_loop_str:
  "cstr m p xs \<Longrightarrow> cstr m q ys \<Longrightarrow> strncmp_loop m p q n = strncmp_str xs ys n"
proof (induction n arbitrary: p q xs ys)
  case (Suc n)
  then show ?case by (cases xs; cases ys) auto
qed simp

lemma strncmp_str:
  "cstr m p xs \<Longrightarrow> cstr m q ys \<Longrightarrow> strncmp m p q n = strncmp_str xs ys (unat n)"
  by (simp add: strncmp_def strncmp_loop_str)

lemma strncmp_str_zero:
  "0 \<notin> set xs \<Longrightarrow> 0 \<notin> set ys \<Longrightarrow> strncmp_str xs ys n = 0 \<longleftrightarrow> take n xs = take n ys"
  by (induction xs ys n rule: strncmp_str.induct)
    (auto simp: uint_0_iff dest: word_uint_eq_iff [THEN iffD2])

definition cbytes :: "string \<Rightarrow> uchar list" where
  "cbytes s = map of_char s"

section \<open>Properties\<close>

text \<open>
  \<open>memmove\<close> copies correctly for every pair of ranges inside the address space, overlapping or
  not: afterwards the destination holds the bytes the source held before the call, and no other byte
  of memory has changed.
\<close>

theorem memmove_copies:
  assumes "unat src + unat n < 2 ^ 32" "unat dst + unat n < 2 ^ 32"
  shows "mem_read (memmove m dst src n) dst (unat n) = mem_read m src (unat n) \<and>
    (\<forall>b. unat (b - dst) \<ge> unat n \<longrightarrow> memmove m dst src n b = m b)"
proof -
  have "unat (of_nat i :: uint) < unat n" if "i < unat n" for i
    using that unat_of_nat_small [of i] less_trans [OF that uint_less_pow] by simp
  then show ?thesis using assms by (auto simp: mem_read_def memmove_apply)
qed

theorem memmove_copies_witness:
  "mem_read (memmove (\<lambda>a. ucast a) 0x102 0x100 4) 0x102 4 = [0, 1, 2, 3] \<and>
   memmove (\<lambda>a. ucast a) 0x102 0x100 4 0x101 = 1"
proof -
  have "mem_read (\<lambda>a. ucast a) 0x100 4 = [0, 1, 2, 3]"
    by (simp add: mem_read_def upt_conv_Cons)
  then show ?thesis using memmove_copies [of "0x100" 4 "0x102" "\<lambda>a. ucast a"] by simp
qed

text \<open>
  The bounded string routines agree with what they are documented to do, on NUL-terminated strings
  in memory: \<open>strlen\<close> returns and returns the length, \<open>strncmp\<close> returns zero exactly when the strings
  agree on their first \<open>n\<close> characters, and \<open>strncpy\<close> out of a source it does not overlap writes the
  string cut or NUL-padded to exactly \<open>n\<close> bytes and nothing else.
\<close>

theorem string_routines:
  assumes "cstr m t xs" "cstr m q ys" "\<And>i. i \<le> length xs \<Longrightarrow> nat k \<le> unat (t + of_nat i - d)"
  shows "strlen m t = Some (length xs) \<and>
    (strncmp m t q n = 0 \<longleftrightarrow> take (unat n) xs = take (unat n) ys) \<and>
    strncpy m d t k = mem_write m d (take (nat k) xs @ replicate (nat k - length xs) 0)"
  using strlen_cstr [OF assms(1)] strncmp_zero [OF assms(1,2)] strncpy_write [OF assms(1,3)]
  by (simp add: strncpy_bytes_def)

theorem string_routines_witness:
  "let m = (\<lambda>a. 0)(0x100 := 72, 0x101 := 105) in
   strlen m 0x100 = Some 2 \<and> strncmp m 0x100 0x100 5 = 0 \<and>
   strncpy m 0x200 0x100 4 = mem_write m 0x200 [72, 105, 0, 0]"
proof -
  let ?m = "(\<lambda>a. 0)(0x100 := 72, 0x101 := 105) :: memory"
  have c: "cstr ?m 0x100 [72, 105]" by simp
  have "nat 4 \<le> unat (0x100 + of_nat i - 0x200 :: uint)" if "i \<le> length [72, 105 :: uchar]" for i
  proof -
    from that have "i = 0 \<or> i = 1 \<or> i = 2" by auto
    then show ?thesis by auto
  qed
  from string_routines [OF c c this, of 5] show ?thesis
    by (simp add: Let_def numeral_2_eq_2)
qed

end
