(* ===== verification/Spinlock.thy ===== *)
theory Spinlock
  imports CString
begin

text \<open>
  \<^verbatim>\<open>spinlock.c\<close>. The state is the machine: one record per CPU with the fields of
  \<^verbatim>\<open>struct cpu\<close> that the file uses (\<open>ncli\<close>, \<open>intena\<close>) and the interrupt flag of its
  \<^verbatim>\<open>eflags\<close>, and one \<^verbatim>\<open>struct spinlock\<close> per lock. The routines are cut at the points where
  another CPU can interleave (the atomic \<^verbatim>\<open>xchg\<close> and the store that opens the lock), and the
  relation \<open>lock_step\<close> interleaves those pieces over any number of CPUs. The lemmas show mutual
  exclusion, that interrupts stay off while a lock is held, and when the routines panic.

  The second part is the view that the other components take of their locks: the set of locks this
  CPU holds. A locale states what they rely on, and the machine's routines provide it.
\<close>

datatype slock = BufLock nat | InodeLock nat

datatype lockname =
  KmemLock | PtableLock | StableLock | FtableLock | IcacheLock | BcacheLock | LogLock | ConsLock |
  TicksLock | IdeLock | PipeLock nat | SleepLk slock

section \<open>The machine\<close>

record spinlock =
  locked :: uint
  lk_name :: string
  lk_cpu :: "nat option"
  lk_pcs :: "uint list"

record cpu =
  ncli :: int
  intena :: bool
  fl_if :: bool

record machine =
  cpus :: "cpu list"
  locks :: "lockname \<Rightarrow> spinlock"

definition upd_cpu :: "nat \<Rightarrow> (cpu \<Rightarrow> cpu) \<Rightarrow> machine \<Rightarrow> machine" where
  "upd_cpu c f m = m\<lparr>cpus := (cpus m)[c := f (cpus m ! c)]\<rparr>"

definition upd_lock :: "lockname \<Rightarrow> (spinlock \<Rightarrow> spinlock) \<Rightarrow> machine \<Rightarrow> machine" where
  "upd_lock lk f m = m\<lparr>locks := (locks m)(lk := f (locks m lk))\<rparr>"

section \<open>The routines\<close>

definition initlock :: "lockname \<Rightarrow> string \<Rightarrow> machine \<Rightarrow> machine" where
  "initlock lk nm m = upd_lock lk (\<lambda>l. l\<lparr>lk_name := nm, locked := 0, lk_cpu := None\<rparr>) m"

definition pushcli :: "nat \<Rightarrow> machine \<Rightarrow> machine" where
  "pushcli c m =
     (let eflags = fl_if (cpus m ! c)
      in upd_cpu c (\<lambda>p. p\<lparr>fl_if := False, intena := (if ncli p = 0 then eflags else intena p),
           ncli := ncli p + 1\<rparr>) m)"

definition popcli :: "nat \<Rightarrow> machine \<Rightarrow> machine kres" where
  "popcli c m =
     (if fl_if (cpus m ! c) then Inl (Panic ''popcli - interruptible'')
      else let m1 = upd_cpu c (\<lambda>p. p\<lparr>ncli := ncli p - 1\<rparr>) m; p = cpus m1 ! c
        in if ncli p < 0 then Inl (Panic ''popcli'')
           else if ncli p = 0 \<and> intena p then Inr (upd_cpu c (\<lambda>p. p\<lparr>fl_if := True\<rparr>) m1)
           else Inr m1)"

definition holding :: "nat \<Rightarrow> lockname \<Rightarrow> machine \<Rightarrow> (bool \<times> machine) kres" where
  "holding c lk m =
     (let m1 = pushcli c m;
          r = (locked (locks m1 lk) \<noteq> 0 \<and> lk_cpu (locks m1 lk) = Some c)
      in kbind (popcli c m1) (\<lambda>m2. Inr (r, m2)))"

text \<open>\<open>acquire\<close>: disable interrupts and check, then one turn of the spin, then the debug record.\<close>

definition acquire_begin :: "nat \<Rightarrow> lockname \<Rightarrow> machine \<Rightarrow> machine kres" where
  "acquire_begin c lk m =
     kbind (holding c lk (pushcli c m)) (\<lambda>(r, m1). if r then Inl (Panic ''acquire'') else Inr m1)"

definition xchg :: "lockname \<Rightarrow> uint \<Rightarrow> machine \<Rightarrow> uint \<times> machine" where
  "xchg lk new m = (locked (locks m lk), upd_lock lk (\<lambda>l. l\<lparr>locked := new\<rparr>) m)"

definition acquire_end :: "nat \<Rightarrow> lockname \<Rightarrow> uint list \<Rightarrow> machine \<Rightarrow> machine" where
  "acquire_end c lk pcs m = upd_lock lk (\<lambda>l. l\<lparr>lk_cpu := Some c, lk_pcs := pcs\<rparr>) m"

text \<open>\<open>release\<close>: check and clear the record, then open the lock and restore interrupts.\<close>

definition release_begin :: "nat \<Rightarrow> lockname \<Rightarrow> machine \<Rightarrow> machine kres" where
  "release_begin c lk m =
     kbind (holding c lk m) (\<lambda>(r, m1).
       if \<not> r then Inl (Panic ''release'')
       else Inr (upd_lock lk (\<lambda>l. l\<lparr>lk_pcs := (lk_pcs l)[0 := 0], lk_cpu := None\<rparr>) m1))"

definition release_end :: "nat \<Rightarrow> lockname \<Rightarrow> machine \<Rightarrow> machine kres" where
  "release_end c lk m = popcli c (upd_lock lk (\<lambda>l. l\<lparr>locked := 0\<rparr>) m)"

text \<open>The whole routines, on a lock that no other CPU contends for.\<close>

definition acquire :: "nat \<Rightarrow> lockname \<Rightarrow> uint list \<Rightarrow> machine \<Rightarrow> machine kres" where
  "acquire c lk pcs m =
     kbind (acquire_begin c lk m) (\<lambda>m1. Inr (acquire_end c lk pcs (snd (xchg lk 1 m1))))"

definition release :: "nat \<Rightarrow> lockname \<Rightarrow> machine \<Rightarrow> machine kres" where
  "release c lk m = kbind (release_begin c lk m) (release_end c lk)"

text \<open>The call stack recorded for debugging: ten saved program counters along the frame pointers.\<close>

definition KERNBASE :: uint where
  "KERNBASE = 0x80000000"

fun callerpcs :: "memory \<Rightarrow> uint \<Rightarrow> nat \<Rightarrow> uint list" where
  "callerpcs m ebp 0 = []"
| "callerpcs m ebp (Suc i) =
     (if ebp = 0 \<or> ebp < KERNBASE \<or> ebp = 0xffffffff then replicate (Suc i) 0
      else load32 m (ebp + 4) # callerpcs m (load32 m ebp) i)"

definition getcallerpcs :: "memory \<Rightarrow> uint \<Rightarrow> uint list" where
  "getcallerpcs m v = callerpcs m (v - 8) 10"

section \<open>Interleaving CPUs\<close>

text \<open>
  Where each CPU is in the locking code, and, as a ghost, the locks whose critical section it is
  in. A spinning CPU repeats its \<^verbatim>\<open>xchg\<close>. While it holds no lock a CPU may enable or disable
  interrupts (\<^verbatim>\<open>sti\<close>, \<^verbatim>\<open>cli\<close>).
\<close>

datatype lockpc = Run | Spin lockname | Recording lockname | Opening lockname

record locksys =
  mach :: machine
  pc :: "nat \<Rightarrow> lockpc"
  crit :: "nat \<Rightarrow> lockname list"

definition ncpu :: "locksys \<Rightarrow> nat" where
  "ncpu s = length (cpus (mach s))"

inductive lock_step :: "locksys \<Rightarrow> locksys \<Rightarrow> bool" where
  begin_acquire: "\<lbrakk>c < ncpu s; pc s c = Run; acquire_begin c lk (mach s) = Inr m\<rbrakk> \<Longrightarrow>
     lock_step s (s\<lparr>mach := m, pc := (pc s)(c := Spin lk)\<rparr>)"
| spin_again: "\<lbrakk>c < ncpu s; pc s c = Spin lk; xchg lk 1 (mach s) = (old, m); old \<noteq> 0\<rbrakk> \<Longrightarrow>
     lock_step s (s\<lparr>mach := m\<rparr>)"
| spin_done: "\<lbrakk>c < ncpu s; pc s c = Spin lk; xchg lk 1 (mach s) = (old, m); old = 0\<rbrakk> \<Longrightarrow>
     lock_step s (s\<lparr>mach := m, pc := (pc s)(c := Recording lk)\<rparr>)"
| end_acquire: "\<lbrakk>c < ncpu s; pc s c = Recording lk\<rbrakk> \<Longrightarrow>
     lock_step s (s\<lparr>mach := acquire_end c lk pcs (mach s), pc := (pc s)(c := Run),
       crit := (crit s)(c := lk # crit s c)\<rparr>)"
| begin_release: "\<lbrakk>c < ncpu s; pc s c = Run; release_begin c lk (mach s) = Inr m\<rbrakk> \<Longrightarrow>
     lock_step s (s\<lparr>mach := m, pc := (pc s)(c := Opening lk),
       crit := (crit s)(c := remove1 lk (crit s c))\<rparr>)"
| end_release: "\<lbrakk>c < ncpu s; pc s c = Opening lk; release_end c lk (mach s) = Inr m\<rbrakk> \<Longrightarrow>
     lock_step s (s\<lparr>mach := m, pc := (pc s)(c := Run)\<rparr>)"
| set_if: "\<lbrakk>c < ncpu s; pc s c = Run; ncli (cpus (mach s) ! c) = 0\<rbrakk> \<Longrightarrow>
     lock_step s (s\<lparr>mach := upd_cpu c (\<lambda>p. p\<lparr>fl_if := b\<rparr>) (mach s)\<rparr>)"

definition lock_init :: "locksys \<Rightarrow> bool" where
  "lock_init s \<longleftrightarrow> (\<forall>lk. locked (locks (mach s) lk) = 0 \<and> lk_cpu (locks (mach s) lk) = None) \<and>
     (\<forall>c. pc s c = Run \<and> crit s c = []) \<and> (\<forall>c < ncpu s. ncli (cpus (mach s) ! c) = 0)"

inductive lock_reachable :: "locksys \<Rightarrow> bool" where
  start: "lock_init s \<Longrightarrow> lock_reachable s"
| step: "lock_reachable s \<Longrightarrow> lock_step s t \<Longrightarrow> lock_reachable t"

text \<open>A CPU has a lock from the exchange that takes it to the store that opens it.\<close>

definition has :: "locksys \<Rightarrow> nat \<Rightarrow> lockname \<Rightarrow> bool" where
  "has s c lk \<longleftrightarrow> lk \<in> set (crit s c) \<or> pc s c = Recording lk \<or> pc s c = Opening lk"

text \<open>
  The invariant has three parts: a lock word is set exactly while some CPU has the lock, and only
  one has it; the recorded owner is the CPU in the critical section; a CPU that is locking or holds
  locks counts them in \<open>ncli\<close> and has its interrupts off.
\<close>

definition lock_excl :: "locksys \<Rightarrow> bool" where
  "lock_excl s \<longleftrightarrow> (\<forall>lk. locked (locks (mach s) lk) \<noteq> 0 \<longleftrightarrow> (\<exists>c. has s c lk)) \<and>
     (\<forall>lk c d. has s c lk \<longrightarrow> has s d lk \<longrightarrow> c = d)"

definition lock_rec :: "locksys \<Rightarrow> bool" where
  "lock_rec s \<longleftrightarrow> (\<forall>lk c. lk_cpu (locks (mach s) lk) = Some c \<longleftrightarrow> lk \<in> set (crit s c)) \<and>
     (\<forall>c. distinct (crit s c)) \<and>
     (\<forall>c lk. pc s c = Recording lk \<or> pc s c = Opening lk \<longrightarrow> lk \<notin> set (crit s c))"

definition lock_cli :: "locksys \<Rightarrow> bool" where
  "lock_cli s \<longleftrightarrow> (\<forall>c < ncpu s. ncli (cpus (mach s) ! c) =
        int (length (crit s c)) + (if pc s c = Run then 0 else 1) \<and>
        (0 < ncli (cpus (mach s) ! c) \<longrightarrow> \<not> fl_if (cpus (mach s) ! c)))"

definition lock_inv :: "locksys \<Rightarrow> bool" where
  "lock_inv s \<longleftrightarrow> lock_excl s \<and> lock_rec s \<and> lock_cli s"

lemma cpus_upd_cpu [simp]: "cpus (upd_cpu c f m) = (cpus m)[c := f (cpus m ! c)]"
  "locks (upd_cpu c f m) = locks m"
  by (simp_all add: upd_cpu_def)

lemma upd_lock_simps [simp]: "cpus (upd_lock lk f m) = cpus m"
  "locks (upd_lock lk f m) = (locks m)(lk := f (locks m lk))"
  by (simp_all add: upd_lock_def)

text \<open>\<open>holding\<close> leaves locks and CPUs as they were once interrupts are off.\<close>

lemma cpu_if_off [simp]: "\<not> fl_if p \<Longrightarrow> p\<lparr>fl_if := False\<rparr> = p"
  by (cases p) simp

lemma holding_off:
  assumes "c < length (cpus m)" "\<not> fl_if (cpus m ! c)" "0 < ncli (cpus m ! c)"
  shows "holding c lk m = Inr (locked (locks m lk) \<noteq> 0 \<and> lk_cpu (locks m lk) = Some c, m)"
  using assms by (simp add: holding_def pushcli_def popcli_def Let_def upd_cpu_def)

lemma holding_result: "holding c lk m = Inr (r, m') \<Longrightarrow>
   r = (locked (locks m lk) \<noteq> 0 \<and> lk_cpu (locks m lk) = Some c)"
  by (auto simp: holding_def pushcli_def Let_def kres_simps)

lemma holding_returns:
  "c < length (cpus m) \<Longrightarrow> 0 \<le> ncli (cpus m ! c) \<Longrightarrow> \<exists>r m'. holding c lk m = Inr (r, m')"
  by (auto simp: holding_def pushcli_def popcli_def Let_def)

lemma acquire_begin_eq:
  assumes "c < length (cpus m)" "0 \<le> ncli (cpus m ! c)"
  shows "acquire_begin c lk m =
    (if locked (locks m lk) \<noteq> 0 \<and> lk_cpu (locks m lk) = Some c then Inl (Panic ''acquire'')
     else Inr (pushcli c m))"
proof -
  have "holding c lk (pushcli c m) =
      Inr (locked (locks m lk) \<noteq> 0 \<and> lk_cpu (locks m lk) = Some c, pushcli c m)"
    using assms by (subst holding_off) (auto simp: pushcli_def Let_def)
  then show ?thesis by (simp add: acquire_begin_def)
qed

lemma release_begin_eq:
  assumes "c < length (cpus m)" "\<not> fl_if (cpus m ! c)" "0 < ncli (cpus m ! c)"
  shows "release_begin c lk m =
    (if locked (locks m lk) \<noteq> 0 \<and> lk_cpu (locks m lk) = Some c
     then Inr (upd_lock lk (\<lambda>l. l\<lparr>lk_pcs := (lk_pcs l)[0 := 0], lk_cpu := None\<rparr>) m)
     else Inl (Panic ''release''))"
  using assms by (auto simp: release_begin_def holding_off)

lemma release_begin_held:
  "release_begin c lk m = Inr m' \<Longrightarrow> locked (locks m lk) \<noteq> 0 \<and> lk_cpu (locks m lk) = Some c"
  by (auto simp: release_begin_def kres_simps dest: holding_result split: if_splits)

lemma release_end_eq:
  assumes "c < length (cpus m)" "\<not> fl_if (cpus m ! c)" "0 < ncli (cpus m ! c)"
  shows "\<exists>m'. release_end c lk m = Inr m' \<and>
    locks m' = (locks m)(lk := (locks m lk)\<lparr>locked := 0\<rparr>) \<and>
    cpus m' = (cpus m)[c := (cpus m ! c)\<lparr>ncli := ncli (cpus m ! c) - 1,
      fl_if := (ncli (cpus m ! c) = 1 \<and> intena (cpus m ! c))\<rparr>]"
  using assms by (auto simp: release_end_def popcli_def Let_def)

text \<open>How a step changes who has which lock.\<close>

lemma has_mach [simp]: "has (s\<lparr>mach := m\<rparr>) = has s"
  by (simp add: has_def fun_eq_iff)

lemma has_spin:
  "pc s c = Run \<Longrightarrow> has (s\<lparr>mach := m, pc := (pc s)(c := Spin lk)\<rparr>) = has s"
  by (auto simp: has_def fun_eq_iff)

lemma has_take:
  "pc s c = Spin lk \<Longrightarrow> has (s\<lparr>mach := m, pc := (pc s)(c := Recording lk)\<rparr>) d k \<longleftrightarrow>
   has s d k \<or> d = c \<and> k = lk"
  by (auto simp: has_def)

lemma has_end_acquire:
  "pc s c = Recording lk \<Longrightarrow>
   has (s\<lparr>mach := m, pc := (pc s)(c := Run), crit := (crit s)(c := lk # crit s c)\<rparr>) = has s"
  by (auto simp: has_def fun_eq_iff)

lemma has_begin_release:
  "pc s c = Run \<Longrightarrow> lk \<in> set (crit s c) \<Longrightarrow> distinct (crit s c) \<Longrightarrow>
   has (s\<lparr>mach := m, pc := (pc s)(c := Opening lk), crit := (crit s)(c := remove1 lk (crit s c))\<rparr>) = has s"
  by (auto simp: has_def fun_eq_iff)

lemma has_end_release:
  "pc s c = Opening lk \<Longrightarrow> lk \<notin> set (crit s c) \<Longrightarrow>
   has (s\<lparr>mach := m, pc := (pc s)(c := Run)\<rparr>) d k \<longleftrightarrow> has s d k \<and> \<not> (d = c \<and> k = lk)"
  by (auto simp: has_def)

lemmas lock_inv_defs = lock_inv_def lock_excl_def lock_rec_def lock_cli_def

text \<open>Each step keeps the invariant; one lemma per kind of step.\<close>

lemma inv_begin_acquire:
  assumes inv: "lock_inv s" and c: "c < ncpu s" "pc s c = Run"
    and m: "acquire_begin c lk (mach s) = Inr m"
  shows "lock_inv (s\<lparr>mach := m, pc := (pc s)(c := Spin lk)\<rparr>)"
proof -
  have "0 \<le> ncli (cpus (mach s) ! c)" using inv c by (auto simp: lock_inv_def lock_cli_def)
  then have m: "m = pushcli c (mach s)"
    using m c by (simp add: acquire_begin_eq ncpu_def split: if_splits)
  have same: "locks m = locks (mach s)" by (simp add: m pushcli_def Let_def)
  have "lock_excl (s\<lparr>mach := m, pc := (pc s)(c := Spin lk)\<rparr>)"
    using inv c same by (simp add: lock_inv_def lock_excl_def has_spin)
  moreover have "lock_rec (s\<lparr>mach := m, pc := (pc s)(c := Spin lk)\<rparr>)"
    using inv c same by (auto simp: lock_inv_def lock_rec_def)
  moreover have "lock_cli (s\<lparr>mach := m, pc := (pc s)(c := Spin lk)\<rparr>)"
    using inv c by (auto simp: lock_inv_def lock_cli_def m pushcli_def Let_def ncpu_def nth_list_update)
  ultimately show ?thesis by (simp add: lock_inv_def)
qed

lemma inv_spin_again:
  "lock_inv s \<Longrightarrow> locked (locks (mach s) lk) \<noteq> 0 \<Longrightarrow>
   lock_inv (s\<lparr>mach := upd_lock lk (\<lambda>l. l\<lparr>locked := 1\<rparr>) (mach s)\<rparr>)"
  by (auto simp: lock_inv_defs ncpu_def)

lemma inv_spin_done:
  assumes inv: "lock_inv s" and c: "c < ncpu s" "pc s c = Spin lk"
    and free: "locked (locks (mach s) lk) = 0"
  shows "lock_inv (s\<lparr>mach := upd_lock lk (\<lambda>l. l\<lparr>locked := 1\<rparr>) (mach s),
    pc := (pc s)(c := Recording lk)\<rparr>)" (is "lock_inv ?t")
proof -
  have none: "\<not> has s d lk" for d using inv free by (auto simp: lock_inv_def lock_excl_def)
  have "lock_excl ?t" using inv none by (auto simp: lock_inv_def lock_excl_def has_take [OF c(2)])
  moreover have "lock_rec ?t" using inv none [of c] by (auto simp: lock_inv_def lock_rec_def has_def)
  moreover have "lock_cli ?t" using inv c by (auto simp: lock_inv_def lock_cli_def ncpu_def)
  ultimately show ?thesis by (simp add: lock_inv_def)
qed

lemma inv_end_acquire:
  assumes inv: "lock_inv s" and c: "c < ncpu s" "pc s c = Recording lk"
  shows "lock_inv (s\<lparr>mach := acquire_end c lk pcs (mach s), pc := (pc s)(c := Run),
       crit := (crit s)(c := lk # crit s c)\<rparr>)" (is "lock_inv ?t")
proof -
  have only: "has s d lk \<Longrightarrow> d = c" for d
    using inv c by (auto simp: lock_inv_def lock_excl_def has_def)
  have "lock_excl ?t"
    using inv c by (auto simp: lock_inv_def lock_excl_def has_end_acquire acquire_end_def)
  moreover have "lock_rec ?t"
    using inv c only by (auto simp: lock_inv_def lock_rec_def has_def acquire_end_def)
  moreover have "lock_cli ?t"
    using inv c by (auto simp: lock_inv_def lock_cli_def ncpu_def acquire_end_def)
  ultimately show ?thesis by (simp add: lock_inv_def)
qed

lemma inv_begin_release:
  assumes inv: "lock_inv s" and c: "c < ncpu s" "pc s c = Run"
    and m: "release_begin c lk (mach s) = Inr m"
  shows "lock_inv (s\<lparr>mach := m, pc := (pc s)(c := Opening lk),
       crit := (crit s)(c := remove1 lk (crit s c))\<rparr>)" (is "lock_inv ?t")
proof -
  have lk: "lk \<in> set (crit s c)" "distinct (crit s c)"
    using release_begin_held [OF m] inv by (auto simp: lock_inv_def lock_rec_def)
  then have pos: "0 < length (crit s c)" by (cases "crit s c") auto
  moreover have "length (remove1 lk (crit s c)) = length (crit s c) - 1"
    using lk by (simp add: length_remove1)
  ultimately have fewer: "int (length (crit s c)) = int (length (remove1 lk (crit s c))) + 1"
    by linarith
  from pos inv c have off: "0 < ncli (cpus (mach s) ! c)" "\<not> fl_if (cpus (mach s) ! c)"
    by (auto simp: lock_inv_def lock_cli_def)
  with m c release_begin_held [OF m]
  have m: "m = upd_lock lk (\<lambda>l. l\<lparr>lk_pcs := (lk_pcs l)[0 := 0], lk_cpu := None\<rparr>) (mach s)"
    by (simp add: release_begin_eq ncpu_def)
  have only: "has s d lk \<Longrightarrow> d = c" for d
    using inv lk by (auto simp: lock_inv_def lock_excl_def has_def)
  have "lock_excl ?t"
    using inv c lk by (auto simp: lock_inv_def lock_excl_def has_begin_release m)
  moreover have "lock_rec ?t"
    using inv c lk only by (auto simp: lock_inv_def lock_rec_def has_def m)
  moreover have "lock_cli ?t"
    using inv c lk fewer off by (auto simp: lock_inv_def lock_cli_def ncpu_def m)
  ultimately show ?thesis by (simp add: lock_inv_def)
qed

lemma inv_end_release:
  assumes inv: "lock_inv s" and c: "c < ncpu s" "pc s c = Opening lk"
    and m: "release_end c lk (mach s) = Inr m"
  shows "lock_inv (s\<lparr>mach := m, pc := (pc s)(c := Run)\<rparr>)" (is "lock_inv ?t")
proof -
  have off: "0 < ncli (cpus (mach s) ! c)" "\<not> fl_if (cpus (mach s) ! c)"
    using inv c by (auto simp: lock_inv_def lock_cli_def)
  have lk: "lk \<notin> set (crit s c)" using inv c by (auto simp: lock_inv_def lock_rec_def)
  have only: "has s d lk \<Longrightarrow> d = c" for d
    using inv c by (auto simp: lock_inv_def lock_excl_def has_def)
  have mm: "locks m = (locks (mach s))(lk := (locks (mach s) lk)\<lparr>locked := 0\<rparr>)"
    "cpus m = (cpus (mach s))[c := (cpus (mach s) ! c)\<lparr>ncli := ncli (cpus (mach s) ! c) - 1,
      fl_if := (ncli (cpus (mach s) ! c) = 1 \<and> intena (cpus (mach s) ! c))\<rparr>]"
    using release_end_eq [of c "mach s" lk] off c m by (auto simp: ncpu_def)
  have "lock_excl ?t"
    using inv only by (auto simp: lock_inv_def lock_excl_def has_end_release [OF c(2) lk] mm)
  moreover have "lock_rec ?t" using inv by (auto simp: lock_inv_def lock_rec_def mm)
  moreover have "lock_cli ?t"
    using inv c off by (auto simp: lock_inv_def lock_cli_def ncpu_def mm nth_list_update)
  ultimately show ?thesis by (simp add: lock_inv_def)
qed

lemma lock_step_inv: "lock_step s t \<Longrightarrow> lock_inv s \<Longrightarrow> lock_inv t"
proof (induction rule: lock_step.induct)
  case (set_if c s b)
  then show ?case
    by (auto simp: lock_inv_defs ncpu_def nth_list_update)
qed (auto simp: xchg_def inv_begin_acquire inv_spin_again inv_spin_done inv_end_acquire
  inv_begin_release inv_end_release)

lemma lock_reachable_inv: "lock_reachable s \<Longrightarrow> lock_inv s"
proof (induction rule: lock_reachable.induct)
  case (start s)
  then show ?case by (simp add: lock_inv_defs lock_init_def has_def)
next
  case (step s t)
  then show ?case by (blast intro: lock_step_inv)
qed

text \<open>
  C2. Spin locks give mutual exclusion on any number of CPUs: in every state that the interleaved
  locking code can reach, a lock that one CPU is inside of is inside no other CPU, that CPU has its
  interrupts off, an attempt to take the lock again panics, and its own release does not.
\<close>

theorem spinlock_mutual_exclusion:
  assumes "lock_reachable s" "c < ncpu s" "lk \<in> set (crit s c)"
  shows "(\<forall>d. lk \<in> set (crit s d) \<longrightarrow> d = c) \<and> \<not> fl_if (cpus (mach s) ! c) \<and>
    acquire_begin c lk (mach s) = Inl (Panic ''acquire'') \<and>
    (\<exists>m. release_begin c lk (mach s) = Inr m)"
proof -
  have inv: "lock_excl s" "lock_rec s" "lock_cli s"
    using lock_reachable_inv [OF assms(1)] by (simp_all add: lock_inv_def)
  have rec: "lk_cpu (locks (mach s) lk) = Some c" using inv(2) assms(3) by (simp add: lock_rec_def)
  have set: "locked (locks (mach s) lk) \<noteq> 0"
    using inv(1) assms(3) unfolding lock_excl_def has_def by blast
  have pos: "0 < length (crit s c)" using assms(3) by (cases "crit s c") auto
  with inv(3) assms(2) have off: "0 < ncli (cpus (mach s) ! c)" "\<not> fl_if (cpus (mach s) ! c)"
    by (auto simp: lock_cli_def)
  have "\<forall>d. lk \<in> set (crit s d) \<longrightarrow> d = c"
    using inv(1) assms(3) unfolding lock_excl_def has_def by blast
  with rec set off assms(2) show ?thesis
    by (simp add: acquire_begin_eq release_begin_eq ncpu_def)
qed

theorem spinlock_mutual_exclusion_witness:
  "\<exists>s. lock_reachable s \<and> 1 < ncpu s \<and> KmemLock \<in> set (crit s 1) \<and> 0 \<notin> {d. KmemLock \<in> set (crit s d)} \<and>
     \<not> fl_if (cpus (mach s) ! 1)"
proof -
  define s0 where "s0 = \<lparr>mach = \<lparr>cpus = [\<lparr>ncli = 0, intena = False, fl_if = True\<rparr>,
      \<lparr>ncli = 0, intena = False, fl_if = True\<rparr>],
    locks = (\<lambda>_. \<lparr>locked = 0, lk_name = [], lk_cpu = None, lk_pcs = []\<rparr>)\<rparr>,
    pc = (\<lambda>_. Run), crit = (\<lambda>_. [])\<rparr>"
  define s1 where "s1 = s0\<lparr>mach := pushcli 1 (mach s0), pc := (pc s0)(1 := Spin KmemLock)\<rparr>"
  define s2 where "s2 = s1\<lparr>mach := snd (xchg KmemLock 1 (mach s1)), pc := (pc s1)(1 := Recording KmemLock)\<rparr>"
  define s3 where "s3 = s2\<lparr>mach := acquire_end 1 KmemLock [] (mach s2), pc := (pc s2)(1 := Run),
     crit := (crit s2)(1 := KmemLock # crit s2 1)\<rparr>"
  have 0: "lock_reachable s0"
    by (rule lock_reachable.start) (auto simp: lock_init_def s0_def ncpu_def less_Suc_eq)
  have "lock_step s0 s1" unfolding s1_def
    by (rule lock_step.begin_acquire) (auto simp: s0_def ncpu_def acquire_begin_eq)
  with 0 have 1: "lock_reachable s1" by (rule lock_reachable.step)
  have "lock_step s1 s2" unfolding s2_def
    by (rule lock_step.spin_done) (auto simp: s1_def s0_def ncpu_def pushcli_def xchg_def)
  with 1 have 2: "lock_reachable s2" by (rule lock_reachable.step)
  have "lock_step s2 s3" unfolding s3_def
    by (rule lock_step.end_acquire) (auto simp: s2_def s1_def s0_def ncpu_def pushcli_def xchg_def)
  with 2 have 3: "lock_reachable s3" by (rule lock_reachable.step)
  have c: "1 < ncpu s3"
    by (simp add: s3_def s2_def s1_def s0_def ncpu_def pushcli_def xchg_def acquire_end_def)
  have k: "KmemLock \<in> set (crit s3 1)" by (simp add: s3_def)
  note excl = spinlock_mutual_exclusion [OF 3 c k]
  then have "0 \<notin> {d. KmemLock \<in> set (crit s3 d)}" by (metis mem_Collect_eq zero_neq_one)
  with 3 c k excl show ?thesis by (intro exI [of _ s3]) blast
qed

section \<open>Locks as the other components see them\<close>

text \<open>
  What a component relies on: taking a lock it holds panics, taking a free one adds it to what it
  holds, and giving one up removes it.
\<close>

locale lock_iface =
  fixes acq rel :: "lockname \<Rightarrow> 's \<Rightarrow> 's kres"
    and holds :: "'s \<Rightarrow> lockname set"
    and ok :: "'s \<Rightarrow> bool"
  assumes acq_free: "ok s \<Longrightarrow> lk \<notin> holds s \<Longrightarrow>
      \<exists>s'. acq lk s = Inr s' \<and> ok s' \<and> holds s' = insert lk (holds s)"
    and acq_held: "ok s \<Longrightarrow> lk \<in> holds s \<Longrightarrow> acq lk s = Inl (Panic ''acquire'')"
    and rel_held: "ok s \<Longrightarrow> lk \<in> holds s \<Longrightarrow>
      \<exists>s'. rel lk s = Inr s' \<and> ok s' \<and> holds s' = holds s - {lk}"
    and rel_free: "ok s \<Longrightarrow> lk \<notin> holds s \<Longrightarrow> rel lk s = Inl (Panic ''release'')"
begin

text \<open>A critical section opens and closes, and leaves the other locks alone.\<close>

lemma critical_section:
  assumes "ok s" "lk \<notin> holds s"
  shows "\<exists>s'. kbind (acq lk s) (rel lk) = Inr s' \<and> ok s' \<and> holds s' = holds s"
proof -
  obtain s1 where "acq lk s = Inr s1" "ok s1" "holds s1 = insert lk (holds s)"
    using acq_free [OF assms] by blast
  moreover obtain s2 where "rel lk s1 = Inr s2" "ok s2" "holds s2 = holds s1 - {lk}"
    using rel_held [of s1 lk] calculation by auto
  ultimately show ?thesis using assms(2) by auto
qed

lemma acquire_twice:
  assumes "ok s" shows "kbind (acq lk s) (acq lk) = Inl (Panic ''acquire'')"
proof (cases "lk \<in> holds s")
  case False
  then obtain s1 where "acq lk s = Inr s1" "ok s1" "holds s1 = insert lk (holds s)"
    using acq_free assms by blast
  then show ?thesis by (simp add: acq_held)
qed (simp add: acq_held assms)

end

text \<open>The machine provides this to a CPU whose locks no other CPU holds.\<close>

definition cpu_holds :: "nat \<Rightarrow> machine \<Rightarrow> lockname set" where
  "cpu_holds c m = {lk. locked (locks m lk) \<noteq> 0 \<and> lk_cpu (locks m lk) = Some c}"

definition cpu_ok :: "nat \<Rightarrow> machine \<Rightarrow> bool" where
  "cpu_ok c m \<longleftrightarrow> c < length (cpus m) \<and> finite (cpu_holds c m) \<and>
     int (card (cpu_holds c m)) \<le> ncli (cpus m ! c) \<and>
     (0 < ncli (cpus m ! c) \<longrightarrow> \<not> fl_if (cpus m ! c))"

lemma cpu_holds_upd:
  "cpu_holds c (upd_lock lk f m) =
   (if locked (f (locks m lk)) \<noteq> 0 \<and> lk_cpu (f (locks m lk)) = Some c
    then insert lk (cpu_holds c m) else cpu_holds c m - {lk})"
  by (auto simp: cpu_holds_def)

lemma cpu_ok_pos: "cpu_ok c m \<Longrightarrow> lk \<in> cpu_holds c m \<Longrightarrow> 0 < ncli (cpus m ! c)"
  unfolding cpu_ok_def by (metis card_gt_0_iff empty_iff of_nat_0_less_iff order_less_le_trans)

interpretation machine_locks: lock_iface "\<lambda>lk. acquire c lk pcs" "release c" "cpu_holds c" "cpu_ok c"
  for c pcs
proof unfold_locales
  fix m lk
  assume ok: "cpu_ok c m"
  then have c: "c < length (cpus m)" "0 \<le> ncli (cpus m ! c)" by (auto simp: cpu_ok_def)
  show "acquire c lk pcs m = Inl (Panic ''acquire'')" if "lk \<in> cpu_holds c m"
    using that c by (simp add: acquire_def acquire_begin_eq cpu_holds_def)
  show "\<exists>m'. acquire c lk pcs m = Inr m' \<and> cpu_ok c m' \<and> cpu_holds c m' = insert lk (cpu_holds c m)"
    if "lk \<notin> cpu_holds c m"
  proof -
    define m' where "m' = acquire_end c lk pcs (snd (xchg lk 1 (pushcli c m)))"
    have "acquire c lk pcs m = Inr m'"
      using that c by (auto simp: acquire_def acquire_begin_eq cpu_holds_def m'_def)
    moreover have h: "cpu_holds c m' = insert lk (cpu_holds c m)"
      by (auto simp: m'_def acquire_end_def xchg_def pushcli_def Let_def cpu_holds_def)
    moreover have "cpu_ok c m'" using ok that
      by (auto simp: cpu_ok_def h, auto simp: m'_def acquire_end_def xchg_def pushcli_def Let_def)
    ultimately show ?thesis by blast
  qed
  show "\<exists>m'. release c lk m = Inr m' \<and> cpu_ok c m' \<and> cpu_holds c m' = cpu_holds c m - {lk}"
    if lk: "lk \<in> cpu_holds c m"
  proof -
    have off: "0 < ncli (cpus m ! c)" "\<not> fl_if (cpus m ! c)"
      using ok cpu_ok_pos [OF ok lk] by (auto simp: cpu_ok_def)
    define m1 where "m1 = upd_lock lk (\<lambda>l. l\<lparr>lk_pcs := (lk_pcs l)[0 := 0], lk_cpu := None\<rparr>) m"
    have "release_begin c lk m = Inr m1"
      using lk off c by (simp add: release_begin_eq cpu_holds_def m1_def)
    moreover obtain m2 where m2: "release_end c lk m1 = Inr m2"
      "locks m2 = (locks m1)(lk := (locks m1 lk)\<lparr>locked := 0\<rparr>)"
      "cpus m2 = (cpus m1)[c := (cpus m1 ! c)\<lparr>ncli := ncli (cpus m1 ! c) - 1,
        fl_if := (ncli (cpus m1 ! c) = 1 \<and> intena (cpus m1 ! c))\<rparr>]"
      using release_end_eq [of c m1 lk] off c by (auto simp: m1_def)
    ultimately have "release c lk m = Inr m2" by (simp add: release_def)
    moreover have h: "cpu_holds c m2 = cpu_holds c m - {lk}"
      using m2(2) by (auto simp: cpu_holds_def m1_def)
    moreover have "cpu_ok c m2" using ok off c lk m2(3)
      by (auto simp: cpu_ok_def h m1_def card_gt_0_iff Suc_le_eq of_nat_diff)
    ultimately show ?thesis by blast
  qed
  show "release c lk m = Inl (Panic ''release'')" if "lk \<notin> cpu_holds c m"
  proof -
    obtain r m1 where h: "holding c lk m = Inr (r, m1)"
      using c holding_returns by blast
    with that holding_result [OF h] show ?thesis
      by (simp add: release_def release_begin_def cpu_holds_def)
  qed
qed

text \<open>
  The other components keep the set of locks their CPU holds, the machine's \<open>cpu_holds\<close>; spinning
  on a lock that another CPU holds is waiting, which the model leaves to the interleaving above.
\<close>

record ksync =
  held :: "lockname set"

definition acquire_lock :: "lockname \<Rightarrow> 'a ksync_scheme \<Rightarrow> 'a ksync_scheme kres" where
  "acquire_lock lk s =
     (if lk \<in> held s then Inl (Panic ''acquire'') else Inr (s\<lparr>held := insert lk (held s)\<rparr>))"

definition release_lock :: "lockname \<Rightarrow> 'a ksync_scheme \<Rightarrow> 'a ksync_scheme kres" where
  "release_lock lk s =
     (if lk \<notin> held s then Inl (Panic ''release'') else Inr (s\<lparr>held := held s - {lk}\<rparr>))"

interpretation held_locks: lock_iface acquire_lock release_lock held "\<lambda>_. True"
  by unfold_locales (auto simp: acquire_lock_def release_lock_def)

end
