(* ===== verification/Proc.thy ===== *)
theory Proc
  imports Spinlock
begin

text \<open>
  The process table of \<^verbatim>\<open>proc.c\<close> and \<^verbatim>\<open>proc.h\<close>: \<^verbatim>\<open>struct proc\<close> with every field but the
  saved context, the table with its lock, and the routines that suspend and wake processes
  (\<^verbatim>\<open>sleep\<close>, \<^verbatim>\<open>wakeup\<close>, \<^verbatim>\<open>sched\<close>, \<^verbatim>\<open>yield\<close>, one turn of \<^verbatim>\<open>scheduler\<close>). A routine that
  gives up the CPU is cut at the context switch. The records of the other components extend
  \<open>kproc\<close>, so these routines run on their states unchanged.
\<close>

section \<open>Data\<close>

datatype page_state = NOT_USED | USED

record page_t =
  pg_state :: page_state
  pg_pgdir :: uint
  pg_vAddr :: uint

datatype procstate = UNUSED | EMBRYO | SLEEPING | RUNNABLE | RUNNING | ZOMBIE

text \<open>Addresses that processes sleep on: the objects whose address the code passes.\<close>

datatype chan = NoChan | ProcChan nat | SockChan nat | PipeRead nat | PipeWrite nat | LogChan |
  TicksChan | InputChan | SleepLockChan slock | BufChan nat

record trapframe =
  tf_edi :: uint
  tf_esi :: uint
  tf_ebp :: uint
  tf_oesp :: uint
  tf_ebx :: uint
  tf_edx :: uint
  tf_ecx :: uint
  tf_eax :: uint
  tf_gs :: ushort
  tf_fs :: ushort
  tf_es :: ushort
  tf_ds :: ushort
  tf_trapno :: uint
  tf_err :: uint
  tf_eip :: uint
  tf_cs :: ushort
  tf_eflags :: uint
  tf_esp :: uint
  tf_ss :: ushort

definition zero_tf :: trapframe where
  "zero_tf = \<lparr>tf_edi = 0, tf_esi = 0, tf_ebp = 0, tf_oesp = 0, tf_ebx = 0, tf_edx = 0, tf_ecx = 0,
     tf_eax = 0, tf_gs = 0, tf_fs = 0, tf_es = 0, tf_ds = 0, tf_trapno = 0, tf_err = 0, tf_eip = 0,
     tf_cs = 0, tf_eflags = 0, tf_esp = 0, tf_ss = 0\<rparr>"

record proc =
  sz :: uint
  pgdir :: uint
  kstack :: uint
  pstate :: procstate
  pid :: int
  parent :: "nat option"
  tf :: trapframe
  pchan :: chan
  killed :: bool
  ofile :: "nat option list"
  cwd :: "nat option"
  pname :: string
  swapFile :: "nat option"
  file_manager :: "page_t list"
  ram_manager :: "page_t list"
  page_mem_count :: uint
  paged_out_count :: uint
  page_fault_count :: uint
  fifoIndexStart :: uint
  fifoIndexNext :: uint

definition NPROC :: nat where "NPROC = 64"
definition NOFILE :: nat where "NOFILE = 16"
definition MAX_PSYC_PAGES :: nat where "MAX_PSYC_PAGES = 15"
definition MAX_TOTAL_PAGES :: nat where "MAX_TOTAL_PAGES = 30"
definition MAX_FILE_PAGES :: nat where "MAX_FILE_PAGES = MAX_TOTAL_PAGES - MAX_PSYC_PAGES"

record kproc = ksync +
  ptable :: "proc list"
  curproc :: "nat option"
  nextpid :: int
  initproc :: "nat option"

definition upd_proc :: "nat \<Rightarrow> (proc \<Rightarrow> proc) \<Rightarrow> 'a kproc_scheme \<Rightarrow> 'a kproc_scheme" where
  "upd_proc i f s = s\<lparr>ptable := (ptable s)[i := f (ptable s ! i)]\<rparr>"

section \<open>Waking and sleeping\<close>

definition wakeup1 :: "chan \<Rightarrow> 'a kproc_scheme \<Rightarrow> 'a kproc_scheme" where
  "wakeup1 ch s = s\<lparr>ptable := map (\<lambda>p. if pstate p = SLEEPING \<and> pchan p = ch
     then p\<lparr>pstate := RUNNABLE\<rparr> else p) (ptable s)\<rparr>"

definition wakeup :: "chan \<Rightarrow> 'a kproc_scheme \<Rightarrow> 'a kproc_scheme kres" where
  "wakeup ch s =
     kbind (acquire_lock PtableLock s) (\<lambda>s1. release_lock PtableLock (wakeup1 ch s1))"

text \<open>
  The checks of \<open>sched\<close> before the switch. \<open>ncli\<close> of the CPU is the number of locks it holds, and
  interrupts are off while one is held.
\<close>

definition sched :: "'a kproc_scheme \<Rightarrow> 'a kproc_scheme kres" where
  "sched s =
     (if PtableLock \<notin> held s then Inl (Panic ''sched ptable.lock'')
      else if card (held s) \<noteq> 1 then Inl (Panic ''sched locks'')
      else case curproc s of
        None \<Rightarrow> Inl (Undefined ''sched: no process'')
      | Some p \<Rightarrow>
          if pstate (ptable s ! p) = RUNNING then Inl (Panic ''sched running'')
          else Inr s)"

text \<open>\<open>sleep\<close> up to the switch, and after the process runs again.\<close>

definition sleep_begin :: "chan \<Rightarrow> lockname \<Rightarrow> 'a kproc_scheme \<Rightarrow> 'a kproc_scheme kres" where
  "sleep_begin ch lk s =
     (case curproc s of
        None \<Rightarrow> Inl (Panic ''sleep'')
      | Some p \<Rightarrow>
          kbind (if lk \<noteq> PtableLock then kbind (acquire_lock PtableLock s) (release_lock lk)
                 else Inr s)
            (\<lambda>s1. sched (upd_proc p (\<lambda>q. q\<lparr>pchan := ch, pstate := SLEEPING\<rparr>) s1)))"

definition sleep_end :: "lockname \<Rightarrow> 'a kproc_scheme \<Rightarrow> 'a kproc_scheme kres" where
  "sleep_end lk s =
     (case curproc s of
        None \<Rightarrow> Inl (Undefined ''sleep: no process'')
      | Some p \<Rightarrow>
          let s1 = upd_proc p (\<lambda>q. q\<lparr>pchan := NoChan\<rparr>) s
          in if lk \<noteq> PtableLock then kbind (release_lock PtableLock s1) (acquire_lock lk)
             else Inr s1)"

text \<open>
  One turn of the scheduler's inner loop: back in the scheduler the CPU has no process and the
  table lock is released at the end of the round; a runnable process is entered with it held.
\<close>

definition scheduler_leave :: "'a kproc_scheme \<Rightarrow> 'a kproc_scheme kres" where
  "scheduler_leave s = release_lock PtableLock (s\<lparr>curproc := None\<rparr>)"

definition scheduler_enter :: "nat \<Rightarrow> 'a kproc_scheme \<Rightarrow> 'a kproc_scheme kres" where
  "scheduler_enter p s =
     kbind (acquire_lock PtableLock s) (\<lambda>s1.
       if pstate (ptable s1 ! p) \<noteq> RUNNABLE then release_lock PtableLock s1
       else Inr (upd_proc p (\<lambda>q. q\<lparr>pstate := RUNNING\<rparr>) (s1\<lparr>curproc := Some p\<rparr>)))"

definition yield_begin :: "'a kproc_scheme \<Rightarrow> 'a kproc_scheme kres" where
  "yield_begin s =
     kbind (acquire_lock PtableLock s) (\<lambda>s1.
       case curproc s1 of
         None \<Rightarrow> Inl (Undefined ''yield: no process'')
       | Some p \<Rightarrow> sched (upd_proc p (\<lambda>q. q\<lparr>pstate := RUNNABLE\<rparr>) s1))"

definition yield_end :: "'a kproc_scheme \<Rightarrow> 'a kproc_scheme kres" where
  "yield_end s = release_lock PtableLock s"

text \<open>The argument is a pointer that may be null: \<open>None\<close>.\<close>

definition is_shell_or_init :: "proc option \<Rightarrow> bool" where
  "is_shell_or_init p \<longleftrightarrow> (case p of None \<Rightarrow> False | Some q \<Rightarrow> pid q \<le> 2)"

section \<open>Lemmas\<close>

lemma upd_proc_simps [simp]:
  "held (upd_proc i f s) = held s" "curproc (upd_proc i f s) = curproc s"
  "ptable (upd_proc i f s) = (ptable s)[i := f (ptable s ! i)]"
  "kproc.more (upd_proc i f s) = kproc.more s"
  by (simp_all add: upd_proc_def)

lemma wakeup1_simps [simp]:
  "held (wakeup1 ch s) = held s" "curproc (wakeup1 ch s) = curproc s"
  "length (ptable (wakeup1 ch s)) = length (ptable s)"
  "kproc.more (wakeup1 ch s) = kproc.more s"
  by (simp_all add: wakeup1_def)

lemma wakeup_ok:
  "PtableLock \<notin> held s \<Longrightarrow> wakeup ch s = Inr (wakeup1 ch s)"
  by (simp add: wakeup_def acquire_lock_def release_lock_def wakeup1_def)

text \<open>Waking while holding the table lock is the self-deadlock that \<open>acquire\<close> reports.\<close>

lemma wakeup_held: "PtableLock \<in> held s \<Longrightarrow> wakeup ch s = Inl (Panic ''acquire'')"
  by (simp add: wakeup_def acquire_lock_def)

lemma sleep_begin_ok:
  assumes "curproc s = Some p" "held s = {lk}" "lk \<noteq> PtableLock" "p < length (ptable s)"
  shows "sleep_begin ch lk s = Inr (upd_proc p (\<lambda>q. q\<lparr>pchan := ch, pstate := SLEEPING\<rparr>)
    (s\<lparr>held := {PtableLock}\<rparr>))"
  using assms
  by (simp add: sleep_begin_def acquire_lock_def release_lock_def sched_def insert_Diff_if)

lemma sleep_end_ok:
  assumes "curproc s = Some p" "held s = {PtableLock}" "lk \<noteq> PtableLock"
  shows "sleep_end lk s = Inr ((upd_proc p (\<lambda>q. q\<lparr>pchan := NoChan\<rparr>) s)\<lparr>held := {lk}\<rparr>)"
  using assms by (simp add: sleep_end_def acquire_lock_def release_lock_def Let_def)

end
