(* ===== verification/Sock.thy ===== *)
theory Sock
  imports Proc
begin

text \<open>
  The socket layer: \<^verbatim>\<open>sock.c\<close>, \<^verbatim>\<open>sock.h\<close>, the error codes of \<^verbatim>\<open>signalcodes.h\<close> and the system
  calls of \<^verbatim>\<open>syssock.c\<close>. The state extends the process table by the socket table and its two
  counters; a socket pointer is an index into the table, \<open>None\<close> for \<^verbatim>\<open>NULL\<close>. A call that
  sleeps ends with the point it sleeps at, and the rest of its body is its \<open>resume\<close> part. The lemmas
  give the table invariant (the counter is the number of open sockets, open ports are in range and
  pairwise distinct), its preservation by every call, and what each call does on every branch.
\<close>

section \<open>Data\<close>

datatype sockstate = CLOSED | OPENED | LISTENING | CONNECTED

record sock =
  sid :: int
  sstate :: sockstate
  owner :: "nat option"
  recvbuffer :: "uchar list"
  hasfullbuffer :: bool
  lPort :: int
  rPort :: int

definition NPORT :: int where "NPORT = 128"
definition NSOCK :: nat where "NSOCK = 32"
definition SBUFFSIZE :: nat where "SBUFFSIZE = 128"
definition INV_PORT :: int where "INV_PORT = -1"

definition E_MISSING_ARG :: int where "E_MISSING_ARG = -1"
definition E_NOTFOUND :: int where "E_NOTFOUND = -1025"
definition E_ACCESS_DENIED :: int where "E_ACCESS_DENIED = -1026"
definition E_WRONG_STATE :: int where "E_WRONG_STATE = -1027"
definition E_FAIL :: int where "E_FAIL = -1028"
definition E_INVALID_ARG :: int where "E_INVALID_ARG = -1029"
definition E_CONNECTION_RESET_BY_REMOTE :: int where "E_CONNECTION_RESET_BY_REMOTE = -1030"

record ksock = kproc +
  stable :: "sock list"
  countSock :: int
  nextsid :: int

text \<open>A call returns a code (and, for \<open>recv\<close>, the bytes it wrote to the caller) or sleeps.\<close>

datatype sock_wait = InListen | InSend nat nat "uchar list" int | InRecv nat nat int

datatype sock_out = Return int "uchar list" | Sleeps sock_wait

definition upd_sock :: "nat \<Rightarrow> (sock \<Rightarrow> sock) \<Rightarrow> 'a ksock_scheme \<Rightarrow> 'a ksock_scheme" where
  "upd_sock i f s = s\<lparr>stable := (stable s)[i := f (stable s ! i)]\<rparr>"

section \<open>Helper functions\<close>

definition sinit :: "'a ksock_scheme \<Rightarrow> 'a ksock_scheme" where
  "sinit s = s\<lparr>countSock := 0, nextsid := 0\<rparr>"

definition inv_port :: "int \<Rightarrow> bool" where
  "inv_port port \<longleftrightarrow> port < 0 \<or> port \<ge> NPORT"

definition getsock :: "int \<Rightarrow> 'a ksock_scheme \<Rightarrow> nat option" where
  "getsock port s =
     (if port \<ge> 0 \<and> port < NPORT
      then first_index (\<lambda>k. sstate k \<noteq> CLOSED \<and> lPort k = port) (stable s) else None)"

text \<open>\<^verbatim>\<open>strncpy(socket->recvbuffer, buff, 1)\<close> writes one byte.\<close>

definition setsockvalue :: "nat option \<Rightarrow> int \<Rightarrow> sockstate \<Rightarrow> nat option \<Rightarrow> int \<Rightarrow> int \<Rightarrow> bool \<Rightarrow>
    uchar list \<Rightarrow> bool \<Rightarrow> 'a ksock_scheme \<Rightarrow> 'a ksock_scheme" where
  "setsockvalue socket i st own lp rp full buff overWriteToDef s =
     (case socket of
        None \<Rightarrow> s
      | Some k \<Rightarrow>
          upd_sock k (\<lambda>x.
            if overWriteToDef then
              x\<lparr>owner := own, sstate := st, lPort := lp, rPort := rp, hasfullbuffer := full,
                sid := i, recvbuffer := strncpy_bytes 1 buff @ drop 1 (recvbuffer x)\<rparr>
            else
              x\<lparr>owner := (if own \<noteq> None then own else owner x),
                sstate := (if st \<noteq> CLOSED then st else sstate x),
                lPort := (if lp \<noteq> INV_PORT then lp else lPort x),
                rPort := (if rp \<noteq> INV_PORT then rp else rPort x),
                hasfullbuffer := (if full \<noteq> False then full else hasfullbuffer x),
                sid := (if i \<noteq> -1 then i else sid x),
                recvbuffer := (if strncmp_str buff [] 1 \<noteq> 0
                  then strncpy_bytes 1 buff @ drop 1 (recvbuffer x) else recvbuffer x)\<rparr>) s)"

definition resetsock :: "nat option \<Rightarrow> 'a ksock_scheme \<Rightarrow> 'a ksock_scheme" where
  "resetsock socket s = setsockvalue socket (-1) CLOSED None INV_PORT INV_PORT False [] True s"

definition allocsock :: "int \<Rightarrow> 'a ksock_scheme \<Rightarrow> nat option \<times> 'a ksock_scheme" where
  "allocsock lport s =
     (if lport < 0 \<or> lport \<ge> NPORT \<or> getsock lport s \<noteq> None then (None, s)
      else case first_index (\<lambda>k. sstate k = CLOSED) (stable s) of
        None \<Rightarrow> (None, s)
      | Some i \<Rightarrow>
          let s1 = setsockvalue (Some i) (nextsid s) OPENED (curproc s) lport INV_PORT False [] True s
          in (Some i, s1\<lparr>countSock := countSock s1 + 1, nextsid := nextsid s1 + 1\<rparr>))"

fun getfreeport_from :: "nat \<Rightarrow> 'a ksock_scheme \<Rightarrow> int" where
  "getfreeport_from 0 s = INV_PORT"
| "getfreeport_from (Suc p) s =
     (if getsock (int (Suc p)) s = None then int (Suc p) else getfreeport_from p s)"

definition getfreeport :: "'a ksock_scheme \<Rightarrow> int" where
  "getfreeport s = getfreeport_from (nat (NPORT - 1)) s"

definition removesock :: "nat option \<Rightarrow> 'a ksock_scheme \<Rightarrow> (bool \<times> 'a ksock_scheme) kres" where
  "removesock socket s =
     (case socket of
        None \<Rightarrow> Inr (False, s)
      | Some i \<Rightarrow>
          kbind (wakeup (SockChan i) s) (\<lambda>s1.
            let s2 = resetsock (Some i) s1
            in Inr (True, s2\<lparr>countSock := countSock s2 - 1\<rparr>)))"

definition retsockfunc :: "int \<Rightarrow> 'a ksock_scheme \<Rightarrow> (sock_out \<times> 'a ksock_scheme) kres" where
  "retsockfunc code s = kbind (release_lock StableLock s) (\<lambda>s1. Inr (Return code [], s1))"

definition getprocsock :: "nat \<Rightarrow> 'a ksock_scheme \<Rightarrow> nat option" where
  "getprocsock process s =
     first_index (\<lambda>k. sstate k \<noteq> CLOSED \<and> owner k = Some process) (stable s)"

section \<open>The calls\<close>

definition listen :: "int \<Rightarrow> 'a ksock_scheme \<Rightarrow> (sock_out \<times> 'a ksock_scheme) kres" where
  "listen lport s =
     (if inv_port lport then Inr (Return E_INVALID_ARG [], s)
      else kbind (acquire_lock StableLock s) (\<lambda>s1.
        if countSock s1 = int NSOCK then retsockfunc E_FAIL s1
        else case allocsock lport s1 of
          (None, s2) \<Rightarrow> retsockfunc E_ACCESS_DENIED s2
        | (Some i, s2) \<Rightarrow>
            kbind (sleep_begin (SockChan i) StableLock
                (upd_sock i (\<lambda>k. k\<lparr>sstate := LISTENING\<rparr>) s2))
              (\<lambda>s3. Inr (Sleeps InListen, s3))))"

definition listen_resume :: "'a ksock_scheme \<Rightarrow> (sock_out \<times> 'a ksock_scheme) kres" where
  "listen_resume s = kbind (sleep_end StableLock s) (retsockfunc 0)"

definition connect :: "int \<Rightarrow> uchar list \<Rightarrow> 'a ksock_scheme \<Rightarrow> (sock_out \<times> 'a ksock_scheme) kres"
  where
  "connect rport host s =
     (if inv_port rport then Inr (Return E_INVALID_ARG [], s)
      else if strncmp_str host (cbytes ''localhost'') (length host) \<noteq> 0 \<and>
              strncmp_str host (cbytes ''127.0.0.1'') (length host) \<noteq> 0
      then Inr (Return E_INVALID_ARG [], s)
      else kbind (acquire_lock StableLock s) (\<lambda>s1.
        let remote = getsock rport s1; lport = getfreeport s1
        in if lport = INV_PORT then retsockfunc E_FAIL s1
           else case remote of
             None \<Rightarrow> retsockfunc E_NOTFOUND s1
           | Some r \<Rightarrow>
               if sstate (stable s1 ! r) \<noteq> LISTENING then retsockfunc E_WRONG_STATE s1
               else case allocsock lport s1 of
                 (None, s2) \<Rightarrow> retsockfunc E_FAIL s2
               | (Some l, s2) \<Rightarrow>
                   let s3 = upd_sock l (\<lambda>k. k\<lparr>sstate := CONNECTED\<rparr>)
                              (upd_sock r (\<lambda>k. k\<lparr>sstate := CONNECTED\<rparr>) s2);
                       s4 = upd_sock l (\<lambda>k. k\<lparr>rPort := lPort (stable s3 ! r)\<rparr>) s3;
                       s5 = upd_sock r (\<lambda>k. k\<lparr>rPort := lPort (stable s4 ! l)\<rparr>) s4;
                       s6 = upd_sock r (\<lambda>k. k\<lparr>hasfullbuffer := False\<rparr>)
                              (upd_sock l (\<lambda>k. k\<lparr>hasfullbuffer := False\<rparr>) s5)
                   in kbind (wakeup (SockChan r) s6) (retsockfunc lport)))"

text \<open>
  The tail of \<open>send\<close>, run at once or after the sleep. The copy writes \<open>n\<close> bytes into a buffer of
  \<open>SBUFFSIZE\<close>: past its end it would overwrite the rest of the table.
\<close>

definition send_tail :: "nat \<Rightarrow> nat \<Rightarrow> uchar list \<Rightarrow> int \<Rightarrow> 'a ksock_scheme \<Rightarrow>
    (sock_out \<times> 'a ksock_scheme) kres" where
  "send_tail local remote data n s =
     (if getsock (rPort (stable s ! local)) s = None
      then kbind (removesock (Some local) s) (\<lambda>(_, s1). retsockfunc E_CONNECTION_RESET_BY_REMOTE s1)
      else if nat n > SBUFFSIZE then Inl (Undefined ''send: recvbuffer overflow'')
      else let s1 = upd_sock remote (\<lambda>k. k\<lparr>recvbuffer :=
                 strncpy_bytes (nat n) data @ drop (nat n) (recvbuffer k), hasfullbuffer := True\<rparr>) s
        in kbind (wakeup (SockChan local) s1) (retsockfunc 0))"

definition send :: "int \<Rightarrow> uchar list \<Rightarrow> int \<Rightarrow> 'a ksock_scheme \<Rightarrow> (sock_out \<times> 'a ksock_scheme) kres"
  where
  "send lport data n s =
     (if inv_port lport then Inr (Return E_INVALID_ARG [], s)
      else kbind (acquire_lock StableLock s) (\<lambda>s1.
        case getsock lport s1 of
          None \<Rightarrow> retsockfunc E_NOTFOUND s1
        | Some l \<Rightarrow>
            if owner (stable s1 ! l) \<noteq> curproc s1 then retsockfunc E_ACCESS_DENIED s1
            else if sstate (stable s1 ! l) \<noteq> CONNECTED then retsockfunc E_WRONG_STATE s1
            else case getsock (rPort (stable s1 ! l)) s1 of
              None \<Rightarrow> retsockfunc E_NOTFOUND s1
            | Some r \<Rightarrow>
                if sstate (stable s1 ! r) \<noteq> CONNECTED then retsockfunc E_WRONG_STATE s1
                else if hasfullbuffer (stable s1 ! r)
                then kbind (sleep_begin (SockChan r) StableLock s1)
                  (\<lambda>s2. Inr (Sleeps (InSend l r data n), s2))
                else send_tail l r data n s1))"

definition send_resume :: "nat \<Rightarrow> nat \<Rightarrow> uchar list \<Rightarrow> int \<Rightarrow> 'a ksock_scheme \<Rightarrow>
    (sock_out \<times> 'a ksock_scheme) kres" where
  "send_resume local remote data n s = kbind (sleep_end StableLock s) (send_tail local remote data n)"

text \<open>
  The tail of \<open>recv\<close>: the copy reads the buffer up to its NUL, at most \<open>n\<close> bytes; a buffer without a
  NUL is read past its end when \<open>n\<close> exceeds it.
\<close>

definition recv_tail :: "nat \<Rightarrow> int \<Rightarrow> 'a ksock_scheme \<Rightarrow> (sock_out \<times> 'a ksock_scheme) kres" where
  "recv_tail local n s =
     (let buf = recvbuffer (stable s ! local)
      in if 0 \<notin> set buf \<and> nat n > SBUFFSIZE then Inl (Undefined ''recv: recvbuffer overread'')
         else let data = strncpy_bytes (nat n) (takeWhile (\<lambda>b. b \<noteq> 0) buf);
                s1 = upd_sock local (\<lambda>k. k\<lparr>recvbuffer := (recvbuffer k)[0 := 0],
                       hasfullbuffer := False\<rparr>) s
           in kbind (wakeup (SockChan local) s1) (\<lambda>s2.
                if getsock (rPort (stable s2 ! local)) s2 = None
                then kbind (removesock (Some local) s2) (\<lambda>(_, s3).
                  kbind (retsockfunc E_CONNECTION_RESET_BY_REMOTE s3)
                    (\<lambda>(_, s4). Inr (Return E_CONNECTION_RESET_BY_REMOTE data, s4)))
                else kbind (retsockfunc 0 s2) (\<lambda>(_, s3). Inr (Return 0 data, s3))))"

definition recv :: "int \<Rightarrow> int \<Rightarrow> 'a ksock_scheme \<Rightarrow> (sock_out \<times> 'a ksock_scheme) kres" where
  "recv lport n s =
     (if inv_port lport then Inr (Return E_INVALID_ARG [], s)
      else kbind (acquire_lock StableLock s) (\<lambda>s1.
        case getsock lport s1 of
          None \<Rightarrow> retsockfunc E_NOTFOUND s1
        | Some l \<Rightarrow>
            if owner (stable s1 ! l) \<noteq> curproc s1 then retsockfunc E_ACCESS_DENIED s1
            else if sstate (stable s1 ! l) \<noteq> CONNECTED then retsockfunc E_WRONG_STATE s1
            else case getsock (rPort (stable s1 ! l)) s1 of
              None \<Rightarrow> retsockfunc E_NOTFOUND s1
            | Some r \<Rightarrow>
                if sstate (stable s1 ! r) \<noteq> CONNECTED then retsockfunc E_WRONG_STATE s1
                else if \<not> hasfullbuffer (stable s1 ! l)
                then kbind (sleep_begin (SockChan r) StableLock s1)
                  (\<lambda>s2. Inr (Sleeps (InRecv l r n), s2))
                else recv_tail l n s1))"

definition recv_resume :: "nat \<Rightarrow> int \<Rightarrow> 'a ksock_scheme \<Rightarrow> (sock_out \<times> 'a ksock_scheme) kres" where
  "recv_resume local n s = kbind (sleep_end StableLock s) (recv_tail local n)"

definition disconnect :: "int \<Rightarrow> 'a ksock_scheme \<Rightarrow> (sock_out \<times> 'a ksock_scheme) kres" where
  "disconnect lport s =
     (if inv_port lport then Inr (Return E_INVALID_ARG [], s)
      else kbind (acquire_lock StableLock s) (\<lambda>s1.
        case getsock lport s1 of
          None \<Rightarrow> retsockfunc E_NOTFOUND s1
        | Some l \<Rightarrow>
            if owner (stable s1 ! l) \<noteq> curproc s1 then retsockfunc E_ACCESS_DENIED s1
            else kbind (removesock (Some l) s1) (\<lambda>(_, s2). retsockfunc 0 s2)))"

text \<open>The resumed part of whatever call a process sleeps in.\<close>

fun sock_resume :: "sock_wait \<Rightarrow> 'a ksock_scheme \<Rightarrow> (sock_out \<times> 'a ksock_scheme) kres" where
  "sock_resume InListen s = listen_resume s"
| "sock_resume (InSend l r data n) s = send_resume l r data n s"
| "sock_resume (InRecv l r n) s = recv_resume l n s"

section \<open>The table invariant\<close>

abbreviation in_use :: "sock \<Rightarrow> bool" where
  "in_use k \<equiv> sstate k \<noteq> CLOSED"

text \<open>
  The counter is the number of open sockets, open sockets have ports in range and no two share one,
  and every receive buffer keeps its size.
\<close>

definition sock_ok :: "sock list \<Rightarrow> int \<Rightarrow> bool" where
  "sock_ok t c \<longleftrightarrow> length t = NSOCK \<and> (\<forall>k \<in> set t. length (recvbuffer k) = SBUFFSIZE) \<and>
     (\<forall>i < NSOCK. in_use (t ! i) \<longrightarrow> 0 \<le> lPort (t ! i) \<and> lPort (t ! i) < NPORT) \<and>
     (\<forall>i < NSOCK. \<forall>j < NSOCK. in_use (t ! i) \<longrightarrow> in_use (t ! j) \<longrightarrow>
        lPort (t ! i) = lPort (t ! j) \<longrightarrow> i = j) \<and>
     c = int (count_if in_use t)"

definition sock_inv :: "'a ksock_scheme \<Rightarrow> bool" where
  "sock_inv s \<longleftrightarrow> sock_ok (stable s) (countSock s)"

lemma sock_okD:
  assumes "sock_ok t c"
  shows "length t = NSOCK"
    and "i < NSOCK \<Longrightarrow> length (recvbuffer (t ! i)) = SBUFFSIZE"
    and "i < NSOCK \<Longrightarrow> in_use (t ! i) \<Longrightarrow> 0 \<le> lPort (t ! i) \<and> lPort (t ! i) < NPORT"
    and "i < NSOCK \<Longrightarrow> j < NSOCK \<Longrightarrow> in_use (t ! i) \<Longrightarrow> in_use (t ! j) \<Longrightarrow>
      lPort (t ! i) = lPort (t ! j) \<Longrightarrow> i = j"
    and "c = int (count_if in_use t)"
  using assms unfolding sock_ok_def by (metis nth_mem)+

text \<open>One entry of the table changes: its use does not, it is opened, or it is closed.\<close>

lemma sock_ok_keep:
  assumes ok: "sock_ok t c" and i: "i < NSOCK"
    and x: "in_use x = in_use (t ! i)" "lPort x = lPort (t ! i)" "length (recvbuffer x) = SBUFFSIZE"
  shows "sock_ok (t[i := x]) c"
proof -
  have l: "length t = NSOCK" using ok by (rule sock_okD)
  have "int (count_if in_use (t[i := x])) = int (count_if in_use t)"
    using count_if_update [of i t in_use x] i l x by simp
  then show ?thesis using ok i l x unfolding sock_ok_def
    by (auto simp: nth_list_update dest!: set_update_subset_insert [THEN subsetD])
qed

lemma sock_ok_open:
  assumes ok: "sock_ok t c" and i: "i < NSOCK" "\<not> in_use (t ! i)"
    and x: "in_use x" "0 \<le> lPort x" "lPort x < NPORT" "length (recvbuffer x) = SBUFFSIZE"
    and new: "\<And>j. j < NSOCK \<Longrightarrow> in_use (t ! j) \<Longrightarrow> lPort (t ! j) \<noteq> lPort x"
  shows "sock_ok (t[i := x]) (c + 1)"
proof -
  have l: "length t = NSOCK" using ok by (rule sock_okD)
  have "int (count_if in_use (t[i := x])) = int (count_if in_use t) + 1"
    using count_if_update [of i t in_use x] i l x by simp
  moreover have "lPort x \<noteq> lPort (t ! j)" if "j < NSOCK" "in_use (t ! j)" for j
    using new [OF that] by simp
  ultimately show ?thesis using ok i l x new unfolding sock_ok_def
    by (auto simp: nth_list_update dest!: set_update_subset_insert [THEN subsetD])
qed

lemma sock_ok_close:
  assumes ok: "sock_ok t c" and i: "i < NSOCK" "in_use (t ! i)"
    and x: "\<not> in_use x" "length (recvbuffer x) = SBUFFSIZE"
  shows "sock_ok (t[i := x]) (c - 1)"
proof -
  have l: "length t = NSOCK" using ok by (rule sock_okD)
  have "int (count_if in_use (t[i := x])) = int (count_if in_use t) - 1"
    using count_if_update [of i t in_use x] i l x by simp
  then show ?thesis using ok i l x unfolding sock_ok_def
    by (auto simp: nth_list_update dest!: set_update_subset_insert [THEN subsetD])
qed

section \<open>Frames\<close>

lemma upd_sock_simps [simp]:
  "stable (upd_sock i f s) = (stable s)[i := f (stable s ! i)]"
  "countSock (upd_sock i f s) = countSock s" "nextsid (upd_sock i f s) = nextsid s"
  "held (upd_sock i f s) = held s" "curproc (upd_sock i f s) = curproc s"
  "ptable (upd_sock i f s) = ptable s"
  by (simp_all add: upd_sock_def)

lemma getsock_upd_sock_keep:
  "in_use (f (stable s ! i)) = in_use (stable s ! i) \<Longrightarrow> lPort (f (stable s ! i)) = lPort (stable s ! i) \<Longrightarrow>
   i < length (stable s) \<Longrightarrow> getsock p (upd_sock i f s) = getsock p s"
proof -
  have "first_index P (xs[i := y]) = first_index P xs" if "P y = P (xs ! i)" "i < length xs"
    for P and xs :: "sock list" and y
    using that by (induction xs arbitrary: i) (auto simp: nth_Cons' split: nat.splits)
  then show "in_use (f (stable s ! i)) = in_use (stable s ! i) \<Longrightarrow>
    lPort (f (stable s ! i)) = lPort (stable s ! i) \<Longrightarrow>
    i < length (stable s) \<Longrightarrow> getsock p (upd_sock i f s) = getsock p s"
    by (simp add: getsock_def)
qed

lemma acquire_lock_frame:
  assumes "acquire_lock lk s = Inr s'"
  shows "s' = s\<lparr>held := insert lk (held s)\<rparr>" "lk \<notin> held s"
  using assms by (auto simp: acquire_lock_def split: if_splits)

lemma retsockfunc_ok: "StableLock \<in> held s \<Longrightarrow>
   retsockfunc code s = Inr (Return code [], s\<lparr>held := held s - {StableLock}\<rparr>)"
  by (simp add: retsockfunc_def release_lock_def)

lemma wakeup1_sock [simp]:
  "stable (wakeup1 ch s) = stable s" "countSock (wakeup1 ch s) = countSock s"
  "nextsid (wakeup1 ch s) = nextsid s" "getsock p (wakeup1 ch s) = getsock p s"
  by (simp_all add: wakeup1_def getsock_def)

lemma upd_proc_sock [simp]:
  "stable (upd_proc i f s) = stable s" "countSock (upd_proc i f s) = countSock s"
  "nextsid (upd_proc i f s) = nextsid s"
  by (simp_all add: upd_proc_def)

lemma getsock_held [simp]: "getsock p (s\<lparr>held := h\<rparr>) = getsock p s"
  by (simp add: getsock_def)

lemma getsock_SomeD:
  "getsock p s = Some i \<Longrightarrow> i < length (stable s) \<and> in_use (stable s ! i) \<and> lPort (stable s ! i) = p"
  by (auto simp: getsock_def first_index_eq_Some split: if_splits)

lemma getsock_None:
  "getsock p s = None \<Longrightarrow> 0 \<le> p \<Longrightarrow> p < NPORT \<Longrightarrow> i < length (stable s) \<Longrightarrow>
   in_use (stable s ! i) \<Longrightarrow> lPort (stable s ! i) \<noteq> p"
  by (auto simp: getsock_def)

text \<open>On a good table \<open>getsock\<close> is the inverse of the port numbers.\<close>

lemma getsock_eq:
  assumes "sock_inv s" "i < NSOCK" "in_use (stable s ! i)"
  shows "getsock (lPort (stable s ! i)) s = Some i"
proof -
  have ok: "sock_ok (stable s) (countSock s)" using assms by (simp add: sock_inv_def)
  have "first_index (\<lambda>k. in_use k \<and> lPort k = lPort (stable s ! i)) (stable s) = Some i"
    using assms sock_okD [OF ok] by (intro first_index_unique) auto
  then show ?thesis using sock_okD(3) [OF ok] assms by (simp add: getsock_def)
qed

section \<open>Every call keeps the invariant\<close>

text \<open>
  Sockets of other processes stay theirs and stay open, whatever this process calls. A sleeping
  \<open>send\<close> or \<open>recv\<close> relies on its own socket in this way.
\<close>

definition others_kept :: "nat \<Rightarrow> sock list \<Rightarrow> sock list \<Rightarrow> bool" where
  "others_kept p t t' \<longleftrightarrow> (\<forall>i < NSOCK. in_use (t ! i) \<longrightarrow> owner (t ! i) \<noteq> Some p \<longrightarrow>
     in_use (t' ! i) \<and> owner (t' ! i) = owner (t ! i))"

fun wait_ok :: "nat \<Rightarrow> sock_wait \<Rightarrow> sock list \<Rightarrow> bool" where
  "wait_ok p InListen t = True"
| "wait_ok p (InSend l r data n) t =
     (l < NSOCK \<and> r < NSOCK \<and> in_use (t ! l) \<and> owner (t ! l) = Some p \<and> nat n \<le> SBUFFSIZE)"
| "wait_ok p (InRecv l r n) t =
     (l < NSOCK \<and> in_use (t ! l) \<and> owner (t ! l) = Some p \<and> nat n \<le> SBUFFSIZE)"

definition call_ok :: "nat \<Rightarrow> 'a ksock_scheme \<Rightarrow> (sock_out \<times> 'a ksock_scheme) kres \<Rightarrow> bool" where
  "call_ok p s r \<longleftrightarrow> (\<exists>out s'. r = Inr (out, s') \<and> sock_inv s' \<and> curproc s' = Some p \<and>
     length (ptable s') = length (ptable s) \<and> others_kept p (stable s) (stable s') \<and>
     (case out of Return _ _ \<Rightarrow> held s' = {}
      | Sleeps w \<Rightarrow> held s' = {PtableLock} \<and> wait_ok p w (stable s')))"

lemma others_kept_refl [simp]: "others_kept p t t"
  by (simp add: others_kept_def)

lemma others_kept_upd:
  "others_kept p t t' \<Longrightarrow> i < length t' \<Longrightarrow>
   \<not> in_use (t ! i) \<or> owner (t ! i) = Some p \<or>
     in_use x \<and> owner x = owner (t' ! i) \<and> in_use (t' ! i) \<Longrightarrow>
   others_kept p t (t'[i := x])"
  by (auto simp: others_kept_def nth_list_update)

lemma others_kept_own:
  "others_kept p t t' \<Longrightarrow> owner (t' ! l) = Some p \<Longrightarrow> others_kept p t (t'[l := x])"
  unfolding others_kept_def by (metis nth_list_update_neq)

lemma others_kept_own_l:
  "owner (t ! l) = Some p \<Longrightarrow> others_kept p (t[l := x]) t' \<Longrightarrow> in_use x = in_use (t ! l) \<Longrightarrow>
   owner x = owner (t ! l) \<Longrightarrow> l < length t \<Longrightarrow> others_kept p t t'"
  unfolding others_kept_def by (metis nth_list_update_neq)

lemma retsockfunc_call:
  assumes "sock_inv s'" "curproc s' = Some p" "held s' = {StableLock}"
    "length (ptable s') = length (ptable s)" "others_kept p (stable s) (stable s')"
  shows "call_ok p s (retsockfunc code s')"
  using assms by (simp add: call_ok_def retsockfunc_ok sock_inv_def)

lemma allocsock_Some:
  assumes "allocsock lport s = (Some i, s')"
  shows "i < length (stable s)" "\<not> in_use (stable s ! i)" "0 \<le> lport" "lport < NPORT"
    "getsock lport s = None" "held s' = held s" "curproc s' = curproc s" "ptable s' = ptable s"
    "countSock s' = countSock s + 1"
    "stable s' = (stable s)[i := (stable s ! i)\<lparr>owner := curproc s, sstate := OPENED,
       lPort := lport, rPort := INV_PORT, hasfullbuffer := False, sid := nextsid s,
       recvbuffer := 0 # drop 1 (recvbuffer (stable s ! i))\<rparr>]"
  using assms
  by (auto simp: allocsock_def setsockvalue_def strncpy_bytes_def Let_def first_index_eq_Some
      split: if_splits option.splits)

lemma allocsock_None: "allocsock lport s = (None, s') \<Longrightarrow> s' = s"
  by (auto simp: allocsock_def Let_def split: if_splits option.splits)

lemma allocsock_inv:
  assumes "sock_inv s" "allocsock lport s = (Some i, s')"
  shows "sock_inv s'" "i < NSOCK" "others_kept p (stable s) (stable s')"
proof -
  note a = allocsock_Some [OF assms(2)]
  have ok: "sock_ok (stable s) (countSock s)" using assms(1) by (simp add: sock_inv_def)
  show i: "i < NSOCK" using a(1) sock_okD(1) [OF ok] by simp
  show "sock_inv s'" unfolding sock_inv_def a(9) a(10)
    using a(2-5) i sock_okD(1) [OF ok] sock_okD(2) [OF ok i] getsock_None [OF a(5)]
    by (intro sock_ok_open [OF ok]) (auto simp: SBUFFSIZE_def)
  show "others_kept p (stable s) (stable s')"
    unfolding a(10) using a(1) a(2) by (intro others_kept_upd) auto
qed

definition closed_sock :: "sock \<Rightarrow> sock" where
  "closed_sock k = k\<lparr>owner := None, sstate := CLOSED, lPort := INV_PORT, rPort := INV_PORT,
     hasfullbuffer := False, sid := -1, recvbuffer := 0 # drop 1 (recvbuffer k)\<rparr>"

lemma closed_sock_closed [simp]: "sstate (closed_sock k) = CLOSED"
  by (simp add: closed_sock_def)

lemma removesock_ok:
  assumes "PtableLock \<notin> held s" "sock_inv s" "i < NSOCK" "in_use (stable s ! i)"
  shows "\<exists>s'. removesock (Some i) s = Inr (True, s') \<and> sock_inv s' \<and> held s' = held s \<and>
    curproc s' = curproc s \<and> length (ptable s') = length (ptable s) \<and>
    stable s' = (stable s)[i := closed_sock (stable s ! i)] \<and> countSock s' = countSock s - 1"
proof -
  define s' where "s' = (let s2 = resetsock (Some i) (wakeup1 (SockChan i) s)
    in s2\<lparr>countSock := countSock s2 - 1\<rparr>)"
  have eq: "stable s' = (stable s)[i := closed_sock (stable s ! i)]"
    "countSock s' = countSock s - 1"
    by (simp_all add: s'_def resetsock_def setsockvalue_def strncpy_bytes_def closed_sock_def Let_def)
  have ok: "sock_ok (stable s) (countSock s)" using assms(2) by (simp add: sock_inv_def)
  have "sock_inv s'" unfolding sock_inv_def eq
    using assms(3,4) sock_okD(2) [OF ok assms(3)]
    by (intro sock_ok_close [OF ok]) (auto simp: SBUFFSIZE_def closed_sock_def)
  moreover have "removesock (Some i) s = Inr (True, s')"
    using assms(1) by (simp add: removesock_def wakeup_ok s'_def Let_def)
  moreover have "held s' = held s" "curproc s' = curproc s" "length (ptable s') = length (ptable s)"
    by (simp_all add: s'_def resetsock_def setsockvalue_def Let_def)
  ultimately show ?thesis using eq by blast
qed

lemma acquire_stable: "held s = {} \<Longrightarrow> acquire_lock StableLock s = Inr (s\<lparr>held := {StableLock}\<rparr>)"
  by (simp add: acquire_lock_def)

lemma call_ok_return:
  "sock_inv s \<Longrightarrow> curproc s = Some p \<Longrightarrow> held s = {} \<Longrightarrow> call_ok p s (Inr (Return c d, s))"
  by (simp add: call_ok_def)

lemma listen_ok:
  assumes inv: "sock_inv s" and cur: "curproc s = Some p" "p < length (ptable s)" "held s = {}"
  shows "call_ok p s (listen lport s)"
proof (cases "inv_port lport")
  case True
  then show ?thesis using assms by (simp add: listen_def call_ok_return)
next
  case False
  let ?s1 = "s\<lparr>held := {StableLock}\<rparr>"
  have inv1: "sock_inv ?s1" using inv by (simp add: sock_inv_def)
  obtain r s2 where al: "allocsock lport ?s1 = (r, s2)" by (cases "allocsock lport ?s1")
  show ?thesis
  proof (cases r)
    case None
    with al have "s2 = ?s1" using allocsock_None by blast
    with False al None cur inv1 show ?thesis
      by (auto simp: listen_def acquire_stable intro!: retsockfunc_call)
  next
    case (Some i)
    note a = allocsock_Some [OF al [unfolded Some]]
    note ai = allocsock_inv [OF inv1 al [unfolded Some]]
    let ?s3 = "upd_sock i (\<lambda>k. k\<lparr>sstate := LISTENING\<rparr>) s2"
    have i: "i < length (stable s2)" using a(1) a(10) by simp
    have inv3: "sock_inv ?s3" unfolding sock_inv_def upd_sock_simps
      using ai(1,2) a(1) sock_okD(2) [of "stable s2" _ i] unfolding sock_inv_def
      by (intro sock_ok_keep) (auto simp: a(10))
    have sl: "sleep_begin (SockChan i) StableLock ?s3 = Inr (upd_proc p
        (\<lambda>q. q\<lparr>pchan := SockChan i, pstate := SLEEPING\<rparr>) (?s3\<lparr>held := {PtableLock}\<rparr>))"
      using cur a(6-8) by (intro sleep_begin_ok) auto
    have "others_kept p (stable s) (stable ?s3)"
      using ai(3) [of p] i a(1,2) by (auto intro!: others_kept_upd)
    with False al Some cur inv1 inv3 a(6-8) show ?thesis
      by (auto simp: listen_def acquire_stable sl call_ok_def sock_inv_def retsockfunc_ok)
  qed
qed

lemma sock_inv_upd_keep:
  assumes "sock_inv s" "i < NSOCK" "in_use (f (stable s ! i)) = in_use (stable s ! i)"
    "lPort (f (stable s ! i)) = lPort (stable s ! i)"
    "length (recvbuffer (f (stable s ! i))) = length (recvbuffer (stable s ! i))"
  shows "sock_inv (upd_sock i f s)"
  using assms sock_okD(2) [of "stable s" _ i] unfolding sock_inv_def upd_sock_simps
  by (metis sock_ok_keep)

lemma others_kept_upd_sock:
  assumes "others_kept p t (stable s)" "i < length (stable s)"
    "in_use (f (stable s ! i)) = in_use (stable s ! i)" "owner (f (stable s ! i)) = owner (stable s ! i)"
  shows "others_kept p t (stable (upd_sock i f s))"
  using assms by (auto simp: others_kept_def nth_list_update)

text \<open>The table \<open>connect\<close> leaves when it succeeds: both ends connected to each other.\<close>

definition linked :: "nat \<Rightarrow> nat \<Rightarrow> 'a ksock_scheme \<Rightarrow> 'a ksock_scheme" where
  "linked l r s =
     (let s3 = upd_sock l (\<lambda>k. k\<lparr>sstate := CONNECTED\<rparr>) (upd_sock r (\<lambda>k. k\<lparr>sstate := CONNECTED\<rparr>) s);
          s4 = upd_sock l (\<lambda>k. k\<lparr>rPort := lPort (stable s3 ! r)\<rparr>) s3;
          s5 = upd_sock r (\<lambda>k. k\<lparr>rPort := lPort (stable s4 ! l)\<rparr>) s4
      in upd_sock r (\<lambda>k. k\<lparr>hasfullbuffer := False\<rparr>) (upd_sock l (\<lambda>k. k\<lparr>hasfullbuffer := False\<rparr>) s5))"

lemma linked_table:
  assumes "l < length (stable s)" "r < length (stable s)" "l \<noteq> r"
  shows "stable (linked l r s) = (stable s)
    [l := (stable s ! l)\<lparr>sstate := CONNECTED, rPort := lPort (stable s ! r), hasfullbuffer := False\<rparr>,
     r := (stable s ! r)\<lparr>sstate := CONNECTED, rPort := lPort (stable s ! l), hasfullbuffer := False\<rparr>]"
  using assms by (simp add: linked_def Let_def list_update_swap [of l r])

lemma linked_frame [simp]:
  "held (linked l r s) = held s" "curproc (linked l r s) = curproc s"
  "ptable (linked l r s) = ptable s" "countSock (linked l r s) = countSock s"
  by (simp_all add: linked_def Let_def)

lemma linked_ok:
  assumes "sock_inv s" "l < NSOCK" "r < NSOCK" "l \<noteq> r" "in_use (stable s ! l)" "in_use (stable s ! r)"
    and "others_kept p t (stable s)"
  shows "sock_inv (linked l r s)" "others_kept p t (stable (linked l r s))"
proof -
  have ok: "sock_ok (stable s) (countSock s)" using assms(1) by (simp add: sock_inv_def)
  have len: "length (stable s) = NSOCK" using ok by (rule sock_okD)
  note tab = linked_table [of l s r, unfolded len, OF assms(2-4)]
  have "sock_ok ((stable s)[l := (stable s ! l)\<lparr>sstate := CONNECTED, rPort := lPort (stable s ! r),
      hasfullbuffer := False\<rparr>]) (countSock s)"
    using assms sock_okD(2) [OF ok] by (intro sock_ok_keep [OF ok]) auto
  from sock_ok_keep [OF this assms(3)] show "sock_inv (linked l r s)"
    unfolding sock_inv_def tab linked_frame using assms sock_okD(2) [OF ok] by auto
  show "others_kept p t (stable (linked l r s))" unfolding tab
    using assms len by (intro others_kept_upd) auto
qed

lemma getfreeport_range: "getfreeport_from n s = INV_PORT \<or>
   (0 < getfreeport_from n s \<and> getfreeport_from n s \<le> int n \<and> getsock (getfreeport_from n s) s = None)"
  by (induction n) auto

lemma connect_ok:
  assumes inv: "sock_inv s" and cur: "curproc s = Some p" "p < length (ptable s)" "held s = {}"
  shows "call_ok p s (connect rport host s)"
proof (cases "inv_port rport \<or> strncmp_str host (cbytes ''localhost'') (length host) \<noteq> 0 \<and>
    strncmp_str host (cbytes ''127.0.0.1'') (length host) \<noteq> 0")
  case True
  then show ?thesis using assms by (auto simp: connect_def call_ok_return)
next
  case False
  let ?s1 = "s\<lparr>held := {StableLock}\<rparr>"
  have inv1: "sock_inv ?s1" using inv by (simp add: sock_inv_def)
  have ret: "call_ok p s (retsockfunc code ?s1)" for code
    using inv1 cur by (intro retsockfunc_call) auto
  let ?lp = "getfreeport ?s1"
  obtain a s2 where al: "allocsock ?lp ?s1 = (a, s2)" by (cases "allocsock ?lp ?s1")
  show ?thesis
  proof (cases "?lp = INV_PORT \<or> getsock rport ?s1 = None \<or>
      sstate (stable s ! the (getsock rport ?s1)) \<noteq> LISTENING \<or> a = None")
    case True
    with False ret al allocsock_None [of ?lp ?s1 s2] show ?thesis using cur(3)
      by (auto simp: connect_def acquire_stable Let_def split: option.split)
  next
    case ok: False
    then obtain r l where r: "getsock rport ?s1 = Some r" and l: "a = Some l" by auto
    note a = allocsock_Some [OF al [unfolded l]]
    note ai = allocsock_inv [OF inv1 al [unfolded l]]
    have rr: "r < length (stable s)" "in_use (stable s ! r)" using getsock_SomeD [OF r] by auto
    then have "l \<noteq> r" using a(2) by auto
    have len: "length (stable s) = NSOCK" using inv sock_okD(1) by (auto simp: sock_inv_def)
    have use: "in_use (stable s2 ! l)" "in_use (stable s2 ! r)" "l < NSOCK" "r < NSOCK"
      using a rr \<open>l \<noteq> r\<close> len by auto
    have link: "sock_inv (linked l r s2)" "others_kept p (stable s) (stable (linked l r s2))"
      using linked_ok [OF ai(1) use(3,4) \<open>l \<noteq> r\<close> use(1,2), of p "stable s"] ai(3) [of p] by simp_all
    have "connect rport host s = kbind (wakeup (SockChan r) (linked l r s2)) (retsockfunc ?lp)"
      using False ok r l al cur(3) by (auto simp: connect_def acquire_stable linked_def Let_def)
    also have "\<dots> = retsockfunc ?lp (wakeup1 (SockChan r) (linked l r s2))"
      using a(6) by (simp add: wakeup_ok)
    finally show ?thesis
      using link a(6-8) cur by (simp, intro retsockfunc_call) (auto simp: sock_inv_def)
  qed
qed

lemma send_tail_ok:
  assumes inv: "sock_inv s'" and cur: "curproc s' = Some p" "held s' = {StableLock}"
    and len: "length (ptable s') = length (ptable s)" and kept: "others_kept p (stable s) (stable s')"
    and l: "l < NSOCK" "in_use (stable s' ! l)" "owner (stable s' ! l) = Some p"
    and r: "r < NSOCK" and n: "nat n \<le> SBUFFSIZE"
  shows "call_ok p s (send_tail l r data n s')"
proof (cases "getsock (rPort (stable s' ! l)) s' = None")
  case True
  obtain s2 where s2: "removesock (Some l) s' = Inr (True, s2)" "sock_inv s2" "held s2 = held s'"
    "curproc s2 = curproc s'" "length (ptable s2) = length (ptable s')"
    "stable s2 = (stable s')[l := closed_sock (stable s' ! l)]"
    using removesock_ok [of s' l] inv l cur by auto
  have "others_kept p (stable s) (stable s2)"
    unfolding s2(6) using kept l(3) by (rule others_kept_own)
  then have "call_ok p s (retsockfunc E_CONNECTION_RESET_BY_REMOTE s2)"
    using s2(2-5) cur len by (intro retsockfunc_call) simp_all
  with True s2(1) show ?thesis by (simp add: send_tail_def)
next
  case False
  let ?f = "\<lambda>k. k\<lparr>recvbuffer := strncpy_bytes (nat n) data @ drop (nat n) (recvbuffer k), hasfullbuffer := True\<rparr>"
  have tl: "length (stable s') = NSOCK" using inv sock_okD(1) by (auto simp: sock_inv_def)
  have bl: "length (recvbuffer (stable s' ! r)) = SBUFFSIZE"
    using inv r sock_okD(2) by (auto simp: sock_inv_def)
  have "sock_inv (upd_sock r ?f s')"
    using inv r n bl by (intro sock_inv_upd_keep) auto
  moreover have "others_kept p (stable s) (stable (upd_sock r ?f s'))"
    using kept r tl by (intro others_kept_upd_sock) auto
  ultimately have "call_ok p s (retsockfunc 0 (wakeup1 (SockChan l) (upd_sock r ?f s')))"
    using cur len by (intro retsockfunc_call) (simp_all add: sock_inv_def)
  moreover have "send_tail l r data n s' = retsockfunc 0 (wakeup1 (SockChan l) (upd_sock r ?f s'))"
    unfolding send_tail_def if_not_P [OF False] using n cur by (simp add: Let_def wakeup_ok)
  ultimately show ?thesis by simp
qed

lemma recv_tail_ok:
  assumes inv: "sock_inv s'" and cur: "curproc s' = Some p" "held s' = {StableLock}"
    and len: "length (ptable s') = length (ptable s)" and kept: "others_kept p (stable s) (stable s')"
    and l: "l < NSOCK" "in_use (stable s' ! l)" "owner (stable s' ! l) = Some p"
    and n: "nat n \<le> SBUFFSIZE"
  shows "call_ok p s (recv_tail l n s')"
proof -
  let ?f = "\<lambda>k. k\<lparr>recvbuffer := (recvbuffer k)[0 := 0], hasfullbuffer := False\<rparr>"
  let ?s1 = "wakeup1 (SockChan l) (upd_sock l ?f s')"
  have tl: "length (stable s') = NSOCK" using inv sock_okD(1) by (auto simp: sock_inv_def)
  have inv1: "sock_inv ?s1"
    using sock_inv_upd_keep [OF inv l(1), of ?f] by (simp add: sock_inv_def)
  have kept1: "others_kept p (stable s) (stable ?s1)"
    using others_kept_upd_sock [OF kept, of l ?f] l tl by simp
  have at: "stable ?s1 ! l = ?f (stable s' ! l)" using l tl by simp
  let ?data = "strncpy_bytes (nat n) (takeWhile (\<lambda>b. b \<noteq> 0) (recvbuffer (stable s' ! l)))"
  have eq: "recv_tail l n s' =
      (if getsock (rPort (stable ?s1 ! l)) ?s1 = None
       then kbind (removesock (Some l) ?s1) (\<lambda>(_, s3).
         kbind (retsockfunc E_CONNECTION_RESET_BY_REMOTE s3)
           (\<lambda>(_, s4). Inr (Return E_CONNECTION_RESET_BY_REMOTE ?data, s4)))
       else kbind (retsockfunc 0 ?s1) (\<lambda>(_, s3). Inr (Return 0 ?data, s3)))"
    using n cur unfolding recv_tail_def Let_def by (simp add: wakeup_ok not_less)
  show ?thesis
  proof (cases "getsock (rPort (stable ?s1 ! l)) ?s1 = None")
    case True
    obtain s2 where s2: "removesock (Some l) ?s1 = Inr (True, s2)" "sock_inv s2" "held s2 = {StableLock}"
      "curproc s2 = Some p" "length (ptable s2) = length (ptable s')"
      "stable s2 = (stable ?s1)[l := closed_sock (stable ?s1 ! l)]"
      using removesock_ok [of ?s1 l] inv1 l cur at by auto
    have "others_kept p (stable s) (stable s2)"
      unfolding s2(6) using kept1 at l(3) by (intro others_kept_own) auto
    with True s2 len show ?thesis unfolding eq
      by (simp add: retsockfunc_ok call_ok_def sock_inv_def)
  next
    case False
    then have "recv_tail l n s' = kbind (retsockfunc 0 ?s1) (\<lambda>(_, s3). Inr (Return 0 ?data, s3))"
      unfolding eq by (rule if_not_P)
    with inv1 kept1 cur len show ?thesis
      by (simp add: retsockfunc_ok call_ok_def sock_inv_def)
  qed
qed

lemma send_ok:
  assumes inv: "sock_inv s" and cur: "curproc s = Some p" "p < length (ptable s)" "held s = {}"
    and n: "nat n \<le> SBUFFSIZE"
  shows "call_ok p s (send lport data n s)"
proof (cases "inv_port lport")
  case True
  then show ?thesis using assms by (simp add: send_def call_ok_return)
next
  case False
  let ?s1 = "s\<lparr>held := {StableLock}\<rparr>"
  have inv1: "sock_inv ?s1" using inv by (simp add: sock_inv_def)
  have tl: "length (stable s) = NSOCK" using inv sock_okD(1) by (auto simp: sock_inv_def)
  have ret: "call_ok p s (retsockfunc code ?s1)" for code
    using inv1 cur by (intro retsockfunc_call) auto
  have sl: "call_ok p s (kbind (sleep_begin (SockChan r) StableLock ?s1)
      (\<lambda>s2. Inr (Sleeps (InSend l r data n), s2)))"
    if "l < NSOCK" "r < NSOCK" "in_use (stable s ! l)" "owner (stable s ! l) = Some p" for l r
    using cur inv that n by (simp add: sleep_begin_ok call_ok_def sock_inv_def)
  have tail: "call_ok p s (send_tail l r data n ?s1)"
    if "l < NSOCK" "r < NSOCK" "in_use (stable s ! l)" "owner (stable s ! l) = Some p" for l r
    using inv1 cur that n by (intro send_tail_ok) auto
  show ?thesis using False cur tl
    by (auto simp: send_def acquire_stable split: option.split dest!: getsock_SomeD
        intro: ret sl tail)
qed

lemma recv_ok:
  assumes inv: "sock_inv s" and cur: "curproc s = Some p" "p < length (ptable s)" "held s = {}"
    and n: "nat n \<le> SBUFFSIZE"
  shows "call_ok p s (recv lport n s)"
proof (cases "inv_port lport")
  case True
  then show ?thesis using assms by (simp add: recv_def call_ok_return)
next
  case False
  let ?s1 = "s\<lparr>held := {StableLock}\<rparr>"
  have inv1: "sock_inv ?s1" using inv by (simp add: sock_inv_def)
  have tl: "length (stable s) = NSOCK" using inv sock_okD(1) by (auto simp: sock_inv_def)
  have ret: "call_ok p s (retsockfunc code ?s1)" for code
    using inv1 cur by (intro retsockfunc_call) auto
  have sl: "call_ok p s (kbind (sleep_begin (SockChan r) StableLock ?s1)
      (\<lambda>s2. Inr (Sleeps (InRecv l r n), s2)))"
    if "l < NSOCK" "in_use (stable s ! l)" "owner (stable s ! l) = Some p" for l r
    using cur inv that n by (simp add: sleep_begin_ok call_ok_def sock_inv_def)
  have tail: "call_ok p s (recv_tail l n ?s1)"
    if "l < NSOCK" "in_use (stable s ! l)" "owner (stable s ! l) = Some p" for l
    using inv1 cur that n by (intro recv_tail_ok) auto
  show ?thesis using False cur tl
    by (auto simp: recv_def acquire_stable split: option.split dest!: getsock_SomeD
        intro: ret sl tail)
qed

lemma disconnect_ok:
  assumes inv: "sock_inv s" and cur: "curproc s = Some p" "p < length (ptable s)" "held s = {}"
  shows "call_ok p s (disconnect lport s)"
proof (cases "inv_port lport")
  case True
  then show ?thesis using assms by (simp add: disconnect_def call_ok_return)
next
  case False
  let ?s1 = "s\<lparr>held := {StableLock}\<rparr>"
  have inv1: "sock_inv ?s1" using inv by (simp add: sock_inv_def)
  have tl: "length (stable s) = NSOCK" using inv sock_okD(1) by (auto simp: sock_inv_def)
  have ret: "call_ok p s (retsockfunc code ?s1)" for code
    using inv1 cur by (intro retsockfunc_call) auto
  have rem: "call_ok p s (kbind (removesock (Some l) ?s1) (\<lambda>(_, s2). retsockfunc 0 s2))"
    if l: "l < NSOCK" "in_use (stable s ! l)" "owner (stable s ! l) = Some p" for l
  proof -
    obtain s2 where s2: "removesock (Some l) ?s1 = Inr (True, s2)" "sock_inv s2"
      "held s2 = {StableLock}" "curproc s2 = Some p" "length (ptable s2) = length (ptable s)"
      "stable s2 = (stable s)[l := closed_sock (stable s ! l)]"
      using removesock_ok [of ?s1 l] inv1 l cur by auto
    have "others_kept p (stable s) (stable s2)"
      unfolding s2(6) using l(3) by (intro others_kept_own) auto
    then have "call_ok p s (retsockfunc 0 s2)"
      using s2(2-5) by (intro retsockfunc_call) simp_all
    with s2(1) show ?thesis by simp
  qed
  show ?thesis using False cur tl
    by (auto simp: disconnect_def acquire_stable split: option.split dest!: getsock_SomeD
        intro: ret rem)
qed

lemma resume_ok:
  assumes inv: "sock_inv s" and cur: "curproc s = Some p" "held s = {PtableLock}"
    and w: "wait_ok p w (stable s)"
  shows "call_ok p s (sock_resume w s)"
proof -
  let ?s1 = "(upd_proc p (\<lambda>q. q\<lparr>pchan := NoChan\<rparr>) s)\<lparr>held := {StableLock}\<rparr>"
  have se: "sleep_end StableLock s = Inr ?s1" using cur by (simp add: sleep_end_ok)
  have inv1: "sock_inv ?s1" using inv by (simp add: sock_inv_def)
  show ?thesis
  proof (cases w)
    case InListen
    have "call_ok p s (retsockfunc 0 ?s1)"
      using inv1 cur by (intro retsockfunc_call) simp_all
    with InListen se show ?thesis by (simp add: listen_resume_def)
  next
    case (InSend l r data n)
    with w have "call_ok p s (send_tail l r data n ?s1)"
      using inv1 cur by (intro send_tail_ok) auto
    with InSend se show ?thesis by (simp add: send_resume_def)
  next
    case (InRecv l r n)
    with w have "call_ok p s (recv_tail l n ?s1)"
      using inv1 cur by (intro recv_tail_ok) auto
    with InRecv se show ?thesis by (simp add: recv_resume_def)
  qed
qed

section \<open>Closing the sockets of a process\<close>

text \<open>The loop of \<open>closeprocsocks\<close> ends because each turn closes an open socket.\<close>

lemma removesock_fewer:
  assumes "removesock (Some i) s = Inr (b, s')" "i < length (stable s)" "in_use (stable s ! i)"
  shows "count_if in_use (stable s') < count_if in_use (stable s)"
proof -
  have w: "stable s1 = stable s" if "wakeup ch s = Inr s1" for ch s1
    using that by (auto simp: wakeup_def acquire_lock_def release_lock_def split: if_splits)
  obtain s1 where s1: "wakeup (SockChan i) s = Inr s1"
    using assms(1) by (cases "wakeup (SockChan i) s") (auto simp: removesock_def)
  define x where "x = closed_sock (stable s ! i)"
  have x: "\<not> in_use x" "stable s' = (stable s)[i := x]"
    using assms(1) s1 w [OF s1]
    by (auto simp: removesock_def resetsock_def setsockvalue_def Let_def x_def closed_sock_def strncpy_bytes_def)
  then have "int (count_if in_use (stable s')) = int (count_if in_use (stable s)) - 1"
    using count_if_update [OF assms(2), of in_use x] assms(3) by simp
  then show ?thesis by linarith
qed

lemma getprocsock_SomeD:
  "getprocsock q s = Some i \<Longrightarrow>
   i < length (stable s) \<and> in_use (stable s ! i) \<and> owner (stable s ! i) = Some q"
  by (auto simp: getprocsock_def first_index_eq_Some)

function closeprocsocks_loop :: "nat \<Rightarrow> 'a ksock_scheme \<Rightarrow> 'a ksock_scheme kres" where
  "closeprocsocks_loop process s =
     (case getprocsock process s of
        None \<Rightarrow> Inr s
      | Some i \<Rightarrow> kbind (removesock (Some i) s) (\<lambda>(_, s1). closeprocsocks_loop process s1))"
  by pat_completeness auto
termination
  by (relation "measure (\<lambda>(_, s). count_if in_use (stable s))")
    (auto dest!: getprocsock_SomeD intro: removesock_fewer)

declare closeprocsocks_loop.simps [simp del]

definition closeprocsocks :: "nat option \<Rightarrow> 'a ksock_scheme \<Rightarrow> 'a ksock_scheme kres" where
  "closeprocsocks process s =
     (case process of
        None \<Rightarrow> Inr s
      | Some q \<Rightarrow> kbind (acquire_lock StableLock s) (\<lambda>s1.
          kbind (closeprocsocks_loop q s1) (release_lock StableLock)))"

lemma closeprocsocks_loop_ok:
  "sock_inv s \<Longrightarrow> PtableLock \<notin> held s \<Longrightarrow>
   \<exists>s'. closeprocsocks_loop q s = Inr s' \<and> sock_inv s' \<and> held s' = held s \<and> curproc s' = curproc s \<and>
     length (ptable s') = length (ptable s) \<and> others_kept q (stable s) (stable s') \<and>
     (\<forall>i < NSOCK. in_use (stable s' ! i) \<longrightarrow> owner (stable s' ! i) \<noteq> Some q)"
proof (induction q s rule: closeprocsocks_loop.induct)
  case (1 q s)
  have tl: "length (stable s) = NSOCK" using 1 sock_okD(1) by (auto simp: sock_inv_def)
  show ?case
  proof (cases "getprocsock q s")
    case None
    then have "\<forall>i < NSOCK. in_use (stable s ! i) \<longrightarrow> owner (stable s ! i) \<noteq> Some q"
      using tl by (auto simp: getprocsock_def)
    with None 1 show ?thesis by (subst closeprocsocks_loop.simps) simp
  next
    case (Some i)
    note i = getprocsock_SomeD [OF Some, unfolded tl]
    obtain s1 where s1: "removesock (Some i) s = Inr (True, s1)" "sock_inv s1" "held s1 = held s"
      "curproc s1 = curproc s" "length (ptable s1) = length (ptable s)"
      "stable s1 = (stable s)[i := closed_sock (stable s ! i)]"
      using removesock_ok [of s i] 1 i by auto
    obtain s' where s': "closeprocsocks_loop q s1 = Inr s'" "sock_inv s'" "held s' = held s1"
      "curproc s' = curproc s1" "length (ptable s') = length (ptable s1)"
      "others_kept q (stable s1) (stable s')"
      "\<forall>i < NSOCK. in_use (stable s' ! i) \<longrightarrow> owner (stable s' ! i) \<noteq> Some q"
      using 1(1) [OF Some s1(1) refl s1(2)] s1(3) 1(3) by auto
    have "others_kept q (stable s) (stable s')"
      using s'(6) i unfolding s1(6) others_kept_def by (metis nth_list_update_neq)
    with Some s1 s' show ?thesis by (subst closeprocsocks_loop.simps) simp
  qed
qed

section \<open>Processes calling the socket layer\<close>

text \<open>
  Any number of processes call in any order. A process runs a call to its return or to its sleep;
  a sleeping process that the table marks runnable is resumed. \<open>at\<close> says where each process
  sleeps. The byte counts are at most the buffer size, which is what \<open>sys_send\<close> passes.
\<close>

datatype sock_call = Listen int | Connect int "uchar list" | Send int "uchar list" int |
  Recv int int | Disconnect int | CloseAll

fun do_call :: "sock_call \<Rightarrow> ksock \<Rightarrow> (sock_out \<times> ksock) kres" where
  "do_call (Listen p) s = listen p s"
| "do_call (Connect p h) s = connect p h s"
| "do_call (Send p d n) s = send p d n s"
| "do_call (Recv p n) s = recv p n s"
| "do_call (Disconnect p) s = disconnect p s"
| "do_call CloseAll s = kbind (closeprocsocks (curproc s) s) (\<lambda>s1. Inr (Return 0 [], s1))"

fun call_bounded :: "sock_call \<Rightarrow> bool" where
  "call_bounded (Send p d n) = (nat n \<le> SBUFFSIZE)"
| "call_bounded (Recv p n) = (nat n \<le> SBUFFSIZE)"
| "call_bounded _ = True"

text \<open>What happens after a call: it returned to user mode, or the scheduler takes over.\<close>

fun after_call :: "nat \<Rightarrow> sock_out \<times> ksock \<Rightarrow> (nat \<Rightarrow> sock_wait option) \<Rightarrow>
    (ksock \<times> (nat \<Rightarrow> sock_wait option)) kres" where
  "after_call p (Return c d, s) at = Inr (s\<lparr>curproc := None\<rparr>, at(p := None))"
| "after_call p (Sleeps w, s) at = kbind (scheduler_leave s) (\<lambda>s1. Inr (s1, at(p := Some w)))"

inductive sock_step :: "ksock \<times> (nat \<Rightarrow> sock_wait option) \<Rightarrow>
    (ksock \<times> (nat \<Rightarrow> sock_wait option)) kres \<Rightarrow> bool" where
  call: "\<lbrakk>p < length (ptable s); at p = None; call_bounded c;
      r = kbind (do_call c (s\<lparr>curproc := Some p\<rparr>)) (\<lambda>x. after_call p x at)\<rbrakk> \<Longrightarrow>
    sock_step (s, at) r"
| resume: "\<lbrakk>p < length (ptable s); at p = Some w; pstate (ptable s ! p) = RUNNABLE;
      r = kbind (scheduler_enter p s) (\<lambda>s1. kbind (sock_resume w s1) (\<lambda>x. after_call p x at))\<rbrakk> \<Longrightarrow>
    sock_step (s, at) r"

inductive_cases sock_stepE: "sock_step (s, at) r"

text \<open>The socket table of a booted kernel is the zeroed one, after \<open>sinit\<close>.\<close>

definition zero_sock :: sock where
  "zero_sock = \<lparr>sid = 0, sstate = CLOSED, owner = None, recvbuffer = replicate SBUFFSIZE 0,
     hasfullbuffer = False, lPort = 0, rPort = 0\<rparr>"

lemma sinit_inv: "stable s = replicate NSOCK zero_sock \<Longrightarrow> sock_inv (sinit s)"
  by (auto simp: sock_inv_def sock_ok_def sinit_def zero_sock_def count_if_def)

inductive sock_reachable :: "ksock \<times> (nat \<Rightarrow> sock_wait option) \<Rightarrow> bool" where
  boot: "\<lbrakk>stable s = replicate NSOCK zero_sock; held s = {}\<rbrakk> \<Longrightarrow> sock_reachable (sinit s, \<lambda>_. None)"
| step: "\<lbrakk>sock_reachable x; sock_step x (Inr y)\<rbrakk> \<Longrightarrow> sock_reachable y"

definition sys_ok :: "ksock \<times> (nat \<Rightarrow> sock_wait option) \<Rightarrow> bool" where
  "sys_ok x \<longleftrightarrow> (case x of (s, at) \<Rightarrow> sock_inv s \<and> held s = {} \<and>
     (\<forall>p w. at p = Some w \<longrightarrow> wait_ok p w (stable s)))"

lemma wait_ok_kept:
  "wait_ok q w t \<Longrightarrow> others_kept p t t' \<Longrightarrow> q \<noteq> p \<Longrightarrow> wait_ok q w t'"
  by (cases w) (auto simp: others_kept_def)

lemma do_call_ok:
  assumes "sock_inv s" "curproc s = Some p" "p < length (ptable s)" "held s = {}" "call_bounded c"
  shows "call_ok p s (do_call c s)"
proof (cases c)
  case CloseAll
  let ?s1 = "s\<lparr>held := {StableLock}\<rparr>"
  have "sock_inv ?s1" using assms(1) by (simp add: sock_inv_def)
  from closeprocsocks_loop_ok [OF this, of p] assms
  obtain s' where s': "closeprocsocks_loop p ?s1 = Inr s'" "sock_inv s'" "held s' = {StableLock}"
    "curproc s' = Some p" "length (ptable s') = length (ptable s)" "others_kept p (stable s) (stable s')"
    by auto
  then show ?thesis using assms CloseAll
    by (simp add: closeprocsocks_def acquire_stable release_lock_def call_ok_def sock_inv_def)
qed (use assms listen_ok connect_ok send_ok recv_ok disconnect_ok in auto)

lemma after_call_ok:
  assumes r: "call_ok p s r" and w: "\<forall>q w. at q = Some w \<longrightarrow> wait_ok q w (stable s)"
  shows "\<exists>y. kbind r (\<lambda>x. after_call p x at) = Inr y \<and> sys_ok y"
proof -
  obtain out s' where o: "r = Inr (out, s')" "sock_inv s'" "others_kept p (stable s) (stable s')"
    and c: "case out of Return _ _ \<Rightarrow> held s' = {}
      | Sleeps w \<Rightarrow> held s' = {PtableLock} \<and> wait_ok p w (stable s')"
    using r unfolding call_ok_def by blast
  have kept: "wait_ok q w' (stable s')" if "at q = Some w'" "q \<noteq> p" for q w'
    using w that o(3) wait_ok_kept by blast
  show ?thesis
  proof (cases out)
    case (Return x d)
    with o c kept show ?thesis by (auto simp: sys_ok_def sock_inv_def)
  next
    case (Sleeps w')
    with o c kept show ?thesis
      by (auto simp: sys_ok_def sock_inv_def scheduler_leave_def release_lock_def)
  qed
qed

lemma sock_step_ok:
  assumes "sys_ok (s, at)" "sock_step (s, at) r"
  shows "\<exists>y. r = Inr y \<and> sys_ok y"
  using assms(2)
proof (cases rule: sock_step.cases)
  case (call p c)
  let ?s = "s\<lparr>curproc := Some p\<rparr>"
  have "call_ok p ?s (do_call c ?s)"
    using assms(1) call by (intro do_call_ok) (auto simp: sys_ok_def sock_inv_def)
  from after_call_ok [OF this, of at] assms(1) call show ?thesis by (auto simp: sys_ok_def)
next
  case (resume p w)
  let ?s = "upd_proc p (\<lambda>q. q\<lparr>pstate := RUNNING\<rparr>) (s\<lparr>held := {PtableLock}, curproc := Some p\<rparr>)"
  have e: "scheduler_enter p s = Inr ?s"
    using assms(1) resume by (auto simp: scheduler_enter_def acquire_lock_def sys_ok_def)
  have "call_ok p ?s (sock_resume w ?s)"
    using assms(1) resume by (intro resume_ok) (auto simp: sys_ok_def sock_inv_def)
  from after_call_ok [OF this, of at] assms(1) resume e show ?thesis by (auto simp: sys_ok_def)
qed

lemma sock_reachable_ok: "sock_reachable x \<Longrightarrow> sys_ok x"
proof (induction rule: sock_reachable.induct)
  case (boot s)
  then show ?case by (simp add: sys_ok_def sinit_inv) (simp add: sinit_def)
next
  case (step x y)
  then show ?case using sock_step_ok [of "fst x" "snd x" "Inr y"] by auto
qed

section \<open>What the calls do\<close>

text \<open>There are more ports than sockets, so a free port is always found.\<close>

lemma getfreeport_none:
  "getfreeport_from n s = INV_PORT \<Longrightarrow> k \<in> {1..n} \<Longrightarrow> getsock (int k) s \<noteq> None"
  by (induction n) (auto simp: INV_PORT_def le_Suc_eq split: if_splits)

lemma getfreeport_found:
  assumes "length (stable s) = NSOCK"
  shows "getfreeport s \<noteq> INV_PORT"
proof
  assume "getfreeport s = INV_PORT"
  then have none: "getsock (int k) s \<noteq> None" if "k \<in> {1..127}" for k
    using getfreeport_none [of 127 s k] that by (simp add: getfreeport_def NPORT_def)
  let ?f = "\<lambda>k. the (getsock (int k) s)"
  have at: "?f k < NSOCK" "lPort (stable s ! ?f k) = int k" if "k \<in> {1..127}" for k
    using getsock_SomeD [of "int k" s "?f k"] none [OF that] assms by auto
  have "inj_on ?f {1..127}" by (rule inj_onI) (metis at(2) of_nat_eq_iff)
  moreover have "?f ` {1..127} \<subseteq> {..<NSOCK}" using at(1) by auto
  ultimately have "card {1..127::nat} \<le> card {..<NSOCK}" by (rule card_inj_on_le) simp
  then show False by (simp add: NSOCK_def)
qed

lemma allocsock_free:
  assumes "sock_inv s" "countSock s < int NSOCK" "0 \<le> p" "p < NPORT" "getsock p s = None"
  shows "\<exists>i s'. allocsock p s = (Some i, s')"
proof -
  have ok: "sock_ok (stable s) (countSock s)" using assms(1) by (simp add: sock_inv_def)
  have "count_if in_use (stable s) \<noteq> length (stable s)"
    using assms(2) sock_okD(1,5) [OF ok] by simp
  then obtain k where "k \<in> set (stable s)" "sstate k = CLOSED" by (auto simp: count_if_full)
  then obtain i where "first_index (\<lambda>k. sstate k = CLOSED) (stable s) = Some i"
    using first_index_ex [of k "stable s" "\<lambda>k. sstate k = CLOSED"] by blast
  then show ?thesis using assms(3-5) by (simp add: allocsock_def Let_def)
qed

lemma connect_success:
  assumes inv: "sock_inv s" and st: "held s = {}" "countSock s < int NSOCK"
    and r: "r < NSOCK" "sstate (stable s ! r) = LISTENING"
    and host: "strncmp_str host (cbytes ''localhost'') (length host) = 0 \<or>
      strncmp_str host (cbytes ''127.0.0.1'') (length host) = 0"
  shows "\<exists>l lp s2. allocsock lp (s\<lparr>held := {StableLock}\<rparr>) = (Some l, s2) \<and> 0 < lp \<and> lp < NPORT \<and>
    l \<noteq> r \<and> connect (lPort (stable s ! r)) host s =
      Inr (Return lp [], (wakeup1 (SockChan r) (linked l r s2))\<lparr>held := {}\<rparr>)"
proof -
  let ?s1 = "s\<lparr>held := {StableLock}\<rparr>"
  let ?lp = "getfreeport ?s1"
  have ok: "sock_ok (stable s) (countSock s)" using inv by (simp add: sock_inv_def)
  have inv1: "sock_inv ?s1" using inv by (simp add: sock_inv_def)
  have use: "in_use (stable s ! r)" using r by simp
  have lp: "?lp \<noteq> INV_PORT" using sock_okD(1) [OF ok] by (intro getfreeport_found) simp
  then have lpr: "0 < ?lp" "?lp < NPORT" "getsock ?lp ?s1 = None"
    using getfreeport_range [of "nat (NPORT - 1)" ?s1] by (auto simp: getfreeport_def NPORT_def)
  obtain l s2 where al: "allocsock ?lp ?s1 = (Some l, s2)"
    using allocsock_free [OF inv1, of ?lp] lpr st by auto
  note a = allocsock_Some [OF al]
  have "l \<noteq> r" using a(2) use by auto
  have g: "getsock (lPort (stable s ! r)) ?s1 = Some r" using getsock_eq [OF inv r(1) use] by simp
  have np: "\<not> inv_port (lPort (stable s ! r))"
    using sock_okD(3) [OF ok r(1) use] by (simp add: inv_port_def)
  have "connect (lPort (stable s ! r)) host s =
      kbind (wakeup (SockChan r) (linked l r s2)) (retsockfunc ?lp)"
    using np host lp g al r st by (auto simp: connect_def acquire_stable linked_def Let_def)
  also have "\<dots> = Inr (Return ?lp [], (wakeup1 (SockChan r) (linked l r s2))\<lparr>held := {}\<rparr>)"
    using a(6) by (simp add: wakeup_ok retsockfunc_ok)
  finally show ?thesis using al lpr \<open>l \<noteq> r\<close> by blast
qed

text \<open>The connected pair a successful \<open>connect\<close> makes.\<close>

definition connected_pair :: "nat \<Rightarrow> nat \<Rightarrow> sock list \<Rightarrow> bool" where
  "connected_pair l r t \<longleftrightarrow> l < NSOCK \<and> r < NSOCK \<and> sstate (t ! l) = CONNECTED \<and> sstate (t ! r) = CONNECTED \<and>
     rPort (t ! l) = lPort (t ! r) \<and> rPort (t ! r) = lPort (t ! l)"

text \<open>
  \<open>connect\<close> to a port somebody listens on succeeds whenever the socket table has room: it returns
  the port of a socket \<open>l\<close> that was closed, \<open>l\<close> is now owned by the caller and connected to the
  listener in both directions, with both receive buffers marked empty, the listener keeps its owner
  and its port, no other socket changes, and every process asleep in \<open>listen\<close> on it is runnable.
\<close>

theorem connect_links:
  assumes "sock_inv s" "held s = {}" "countSock s < int NSOCK"
    and "r < NSOCK" "sstate (stable s ! r) = LISTENING"
    and "strncmp_str host (cbytes ''localhost'') (length host) = 0 \<or>
      strncmp_str host (cbytes ''127.0.0.1'') (length host) = 0"
  shows "\<exists>l s'. connect (lPort (stable s ! r)) host s = Inr (Return (lPort (stable s' ! l)) [], s') \<and>
    sock_inv s' \<and> connected_pair l r (stable s') \<and> l \<noteq> r \<and> \<not> in_use (stable s ! l) \<and>
    owner (stable s' ! l) = curproc s \<and> owner (stable s' ! r) = owner (stable s ! r) \<and>
    lPort (stable s' ! r) = lPort (stable s ! r) \<and>
    \<not> hasfullbuffer (stable s' ! l) \<and> \<not> hasfullbuffer (stable s' ! r) \<and>
    (\<forall>i. i \<noteq> l \<and> i \<noteq> r \<longrightarrow> stable s' ! i = stable s ! i) \<and>
    (\<forall>q \<in> set (ptable s'). pchan q = SockChan r \<longrightarrow> pstate q \<noteq> SLEEPING)"
proof -
  obtain l lp s2 where al: "allocsock lp (s\<lparr>held := {StableLock}\<rparr>) = (Some l, s2)" and "l \<noteq> r"
    and c: "connect (lPort (stable s ! r)) host s =
      Inr (Return lp [], (wakeup1 (SockChan r) (linked l r s2))\<lparr>held := {}\<rparr>)"
    using connect_success [OF assms] by blast
  note a = allocsock_Some [OF al]
  have "sock_inv (s\<lparr>held := {StableLock}\<rparr>)" using assms(1) by (simp add: sock_inv_def)
  note ai = allocsock_inv [OF this al]
  have len: "length (stable s) = NSOCK" using assms(1) sock_okD(1) by (auto simp: sock_inv_def)
  have "sock_inv (linked l r s2)"
    using ai assms(4,5) a(10) \<open>l \<noteq> r\<close> a(1) by (intro linked_ok(1) [where p = 0 and t = "stable s2"]) auto
  then have inv: "sock_inv ((wakeup1 (SockChan r) (linked l r s2))\<lparr>held := {}\<rparr>)"
    by (simp add: sock_inv_def)
  have tab: "stable (linked l r s2) = (stable s2)
    [l := (stable s2 ! l)\<lparr>sstate := CONNECTED, rPort := lPort (stable s2 ! r), hasfullbuffer := False\<rparr>,
     r := (stable s2 ! r)\<lparr>sstate := CONNECTED, rPort := lPort (stable s2 ! l), hasfullbuffer := False\<rparr>]"
    using a(1,10) assms(4) len \<open>l \<noteq> r\<close> by (intro linked_table) auto
  show ?thesis
    using c inv a(1,2) len assms(4) \<open>l \<noteq> r\<close>
    by (intro exI [of _ l] exI [of _ "(wakeup1 (SockChan r) (linked l r s2))\<lparr>held := {}\<rparr>"])
      (auto simp: tab a(10) connected_pair_def wakeup1_def)
qed

text \<open>A small kernel for the examples: two processes, the second listening on port 5.\<close>

definition zero_proc :: proc where
  "zero_proc = \<lparr>sz = 0, pgdir = 0, kstack = 0, pstate = UNUSED, pid = 0, parent = None,
     tf = zero_tf,
     pchan = NoChan, killed = False, ofile = replicate NOFILE None, cwd = None, pname = [],
     swapFile = None, file_manager = replicate MAX_FILE_PAGES \<lparr>pg_state = NOT_USED, pg_pgdir = 0, pg_vAddr = 0\<rparr>,
     ram_manager = replicate MAX_PSYC_PAGES \<lparr>pg_state = NOT_USED, pg_pgdir = 0, pg_vAddr = 0\<rparr>,
     page_mem_count = 0, paged_out_count = 0, page_fault_count = 0,
     fifoIndexStart = 0, fifoIndexNext = 0\<rparr>"

definition booted :: ksock where
  "booted = sinit \<lparr>held = {}, ptable = replicate NPROC zero_proc, curproc = None, nextpid = 1,
     initproc = None, stable = replicate NSOCK zero_sock, countSock = 0, nextsid = 0\<rparr>"

definition listening :: ksock where
  "listening = booted\<lparr>curproc := Some 0, countSock := 1, nextsid := 1,
     stable := (stable booted)[0 := zero_sock\<lparr>sstate := LISTENING, owner := Some 1, lPort := 5, rPort := -1\<rparr>]\<rparr>"

lemma listening_inv: "sock_inv listening"
proof -
  have "sock_ok (replicate NSOCK zero_sock) 0"
    by (auto simp: sock_ok_def zero_sock_def count_if_def)
  from sock_ok_open [OF this, of 0] show ?thesis
    by (simp add: listening_def booted_def sinit_def sock_inv_def NSOCK_def zero_sock_def NPORT_def)
qed

theorem connect_links_witness:
  "\<exists>l s'. connect 5 (cbytes ''localhost'') listening = Inr (Return (lPort (stable s' ! l)) [], s') \<and>
    connected_pair l 0 (stable s') \<and> owner (stable s' ! l) = Some 0 \<and> owner (stable s' ! 0) = Some 1"
proof -
  have "strncmp_str (cbytes ''localhost'') (cbytes ''localhost'') (length (cbytes ''localhost'')) = 0"
    by (rule strncmp_str_zero [THEN iffD2]) (simp_all add: cbytes_def)
  then show ?thesis
    using connect_links [OF listening_inv, of 0 "cbytes ''localhost''"]
    by (auto simp: listening_def booted_def sinit_def NSOCK_def)
qed

text \<open>
  C1. Whatever processes do, in whatever order: from boot on, every socket call and every resumed
  call ends without a panic and outside undefined behaviour, releases every lock it took, and leaves
  a table whose counter is the number of open sockets, whose open ports are in range and pairwise
  distinct and whose receive buffers keep their size. Byte counts are those up to the buffer size.
\<close>

theorem sock_calls_safe:
  assumes "sock_reachable (s, at)" "sock_step (s, at) r"
  shows "\<exists>s' at'. r = Inr (s', at') \<and> sock_inv s' \<and> held s' = {}"
  using sock_step_ok [OF sock_reachable_ok [OF assms(1)] assms(2)] by (auto simp: sys_ok_def)

theorem sock_calls_safe_witness:
  "\<exists>s' at'. kbind (do_call (Listen 5) (booted\<lparr>curproc := Some 0\<rparr>)) (\<lambda>x. after_call 0 x (\<lambda>_. None)) =
     Inr (s', at') \<and> sock_inv s' \<and> held s' = {}"
proof (rule sock_calls_safe)
  show "sock_reachable (booted, \<lambda>_. None)"
    unfolding booted_def by (rule sock_reachable.boot) simp_all
  show "sock_step (booted, \<lambda>_. None)
    (kbind (do_call (Listen 5) (booted\<lparr>curproc := Some 0\<rparr>)) (\<lambda>x. after_call 0 x (\<lambda>_. None)))"
    by (rule sock_step.call [where p = 0 and c = "Listen 5"])
      (simp_all add: booted_def sinit_def NPROC_def)
qed

lemma pairD:
  assumes "sock_inv s" "connected_pair l r (stable s)"
  shows "l < NSOCK" "r < NSOCK" "sstate (stable s ! l) = CONNECTED" "sstate (stable s ! r) = CONNECTED"
    "getsock (lPort (stable s ! l)) s = Some l" "getsock (rPort (stable s ! l)) s = Some r"
    "\<not> inv_port (lPort (stable s ! l))" "connected_pair r l (stable s)" "length (stable s) = NSOCK"
proof -
  show b: "l < NSOCK" "r < NSOCK" "sstate (stable s ! l) = CONNECTED" "sstate (stable s ! r) = CONNECTED"
    "connected_pair r l (stable s)"
    using assms(2) by (auto simp: connected_pair_def)
  show "getsock (lPort (stable s ! l)) s = Some l" "getsock (rPort (stable s ! l)) s = Some r"
    using assms b getsock_eq [of s] by (auto simp: connected_pair_def)
  have ok: "sock_ok (stable s) (countSock s)" using assms(1) by (simp add: sock_inv_def)
  show "\<not> inv_port (lPort (stable s ! l))" "length (stable s) = NSOCK"
    using sock_okD(1) [OF ok] sock_okD(3) [OF ok, of l] b by (auto simp: inv_port_def)
qed

text \<open>The receiving end after a \<open>send\<close> and after a \<open>recv\<close>.\<close>

definition filled :: "uchar list \<Rightarrow> int \<Rightarrow> sock \<Rightarrow> sock" where
  "filled data n k = k\<lparr>recvbuffer := strncpy_bytes (nat n) data @ drop (nat n) (recvbuffer k),
     hasfullbuffer := True\<rparr>"

definition emptied :: "sock \<Rightarrow> sock" where
  "emptied k = k\<lparr>recvbuffer := (recvbuffer k)[0 := 0], hasfullbuffer := False\<rparr>"

lemma send_direct:
  assumes inv: "sock_inv s" and h: "held s = {}" and pair: "connected_pair l r (stable s)"
    and own: "owner (stable s ! l) = curproc s" and full: "\<not> hasfullbuffer (stable s ! r)"
    and n: "nat n \<le> SBUFFSIZE"
  shows "\<exists>s1. send (lPort (stable s ! l)) data n s = Inr (Return 0 [], s1) \<and> sock_inv s1 \<and> held s1 = {} \<and>
    stable s1 = (stable s)[r := filled data n (stable s ! r)]"
proof -
  note p = pairD [OF inv pair]
  let ?s1 = "upd_sock r (filled data n) (s\<lparr>held := {StableLock}\<rparr>)"
  have "send (lPort (stable s ! l)) data n s = send_tail l r data n (s\<lparr>held := {StableLock}\<rparr>)"
    using p own full h by (simp add: send_def acquire_stable)
  also have "\<dots> = Inr (Return 0 [], (wakeup1 (SockChan l) ?s1)\<lparr>held := {}\<rparr>)"
    using p n by (simp add: send_tail_def wakeup_ok retsockfunc_ok filled_def Let_def cong: if_cong)
      (simp add: upd_sock_def filled_def)
  moreover have "sock_inv ?s1"
    using inv p n sock_okD(2) [of "stable s" "countSock s" r]
    by (intro sock_inv_upd_keep) (auto simp: filled_def sock_inv_def)
  ultimately show ?thesis by (simp add: sock_inv_def)
qed

lemma recv_direct:
  assumes inv: "sock_inv s" and h: "held s = {}" and pair: "connected_pair l r (stable s)"
    and own: "owner (stable s ! l) = curproc s" and full: "hasfullbuffer (stable s ! l)"
    and n: "nat n \<le> SBUFFSIZE"
  shows "\<exists>s1. recv (lPort (stable s ! l)) n s =
      Inr (Return 0 (strncpy_bytes (nat n) (takeWhile (\<lambda>b. b \<noteq> 0) (recvbuffer (stable s ! l)))), s1) \<and>
    sock_inv s1 \<and> held s1 = {} \<and> stable s1 = (stable s)[l := emptied (stable s ! l)]"
proof -
  note p = pairD [OF inv pair]
  let ?s1 = "upd_sock l emptied (s\<lparr>held := {StableLock}\<rparr>)"
  have g: "getsock x ?s1 = getsock x s" for x
    using p by (subst getsock_upd_sock_keep) (auto simp: emptied_def)
  have rp: "rPort (emptied (stable s ! l)) = rPort (stable s ! l)" by (simp add: emptied_def)
  have e: "(\<lambda>k. k\<lparr>recvbuffer := (recvbuffer k)[0 := 0], hasfullbuffer := False\<rparr>) = emptied"
    by (simp add: emptied_def fun_eq_iff)
  have "recv (lPort (stable s ! l)) n s = recv_tail l n (s\<lparr>held := {StableLock}\<rparr>)"
    using p own full h by (simp add: recv_def acquire_stable)
  also have "\<dots> = Inr (Return 0 (strncpy_bytes (nat n)
      (takeWhile (\<lambda>b. b \<noteq> 0) (recvbuffer (stable s ! l)))), (wakeup1 (SockChan l) ?s1)\<lparr>held := {}\<rparr>)"
    using p n unfolding recv_tail_def Let_def e
    by (simp add: wakeup_ok retsockfunc_ok g rp not_less)
  moreover have "sock_inv ?s1"
    using inv p by (intro sock_inv_upd_keep) (auto simp: emptied_def sock_inv_def)
  ultimately show ?thesis by (simp add: sock_inv_def)
qed

lemma takeWhile_filled:
  assumes "0 \<notin> set data" "length data < k \<or> k = length buf" "length data \<le> k"
  shows "takeWhile (\<lambda>b. b \<noteq> 0) (strncpy_bytes k data @ drop k buf) = data"
proof (cases "length data < k")
  case True
  then have "strncpy_bytes k data = data @ 0 # replicate (k - Suc (length data)) 0"
    by (simp add: strncpy_bytes_def Suc_diff_Suc flip: replicate_Suc)
  moreover have "takeWhile (\<lambda>b. b \<noteq> 0) (data @ 0 # ys) = data" for ys
    using assms(1) by (subst takeWhile_append2) auto
  ultimately show ?thesis by simp
next
  case False
  with assms have "strncpy_bytes k data @ drop k buf = data" by (simp add: strncpy_bytes_def)
  moreover have "takeWhile (\<lambda>b. b \<noteq> 0) data = data" using assms(1) by (auto simp: takeWhile_eq_all_conv)
  ultimately show ?thesis by simp
qed

text \<open>
  C32. A message sent over a connection arrives: on a connected pair whose receiving end is empty, a
  \<open>send\<close> of a string that leaves room for its terminator (or fills the whole buffer) returns 0 and
  marks the end full; the owner's \<open>recv\<close> then returns 0 with the string, cut or padded with NULs to
  the size it asked for, and leaves the end empty again.
\<close>

theorem send_recv_delivers:
  assumes inv: "sock_inv s" and h: "held s = {}" and pair: "connected_pair l r (stable s)" "l \<noteq> r"
    and own: "owner (stable s ! l) = Some p" "owner (stable s ! r) = Some q"
    and full: "\<not> hasfullbuffer (stable s ! r)"
    and d: "0 \<notin> set data" "length data < nat n \<or> nat n = SBUFFSIZE" "length data \<le> nat n"
    and n: "nat n \<le> SBUFFSIZE" "nat m \<le> SBUFFSIZE"
  shows "\<exists>s1 s2. send (lPort (stable s ! l)) data n (s\<lparr>curproc := Some p\<rparr>) = Inr (Return 0 [], s1) \<and>
    hasfullbuffer (stable s1 ! r) \<and>
    recv (lPort (stable s ! r)) m (s1\<lparr>curproc := Some q\<rparr>) =
      Inr (Return 0 (strncpy_bytes (nat m) data), s2) \<and>
    \<not> hasfullbuffer (stable s2 ! r) \<and> sock_inv s2 \<and> connected_pair l r (stable s2)"
proof -
  note pd = pairD [OF inv pair(1)]
  let ?s = "s\<lparr>curproc := Some p\<rparr>"
  have "sock_inv ?s" using inv by (simp add: sock_inv_def)
  from send_direct [OF this, of l r n data] h pair own full n obtain s1 where s1:
    "send (lPort (stable s ! l)) data n ?s = Inr (Return 0 [], s1)" "sock_inv s1" "held s1 = {}"
    "stable s1 = (stable s)[r := filled data n (stable s ! r)]" by auto
  let ?s1 = "s1\<lparr>curproc := Some q\<rparr>"
  have at: "stable s1 ! r = filled data n (stable s ! r)" "stable s1 ! l = stable s ! l"
    using s1(4) pd pair(2) by auto
  have pair1: "connected_pair r l (stable s1)"
    using pd(8) unfolding connected_pair_def at by (auto simp: filled_def)
  have "sock_inv ?s1" using s1(2) by (simp add: sock_inv_def)
  from recv_direct [OF this, of r l m] s1(3) pair1 own n obtain s2 where s2:
    "recv (lPort (stable s ! r)) m ?s1 = Inr (Return 0 (strncpy_bytes (nat m)
      (takeWhile (\<lambda>b. b \<noteq> 0) (recvbuffer (stable s1 ! r)))), s2)" "sock_inv s2"
    "stable s2 = (stable s1)[r := emptied (stable s1 ! r)]"
    unfolding at by (auto simp: filled_def at)
  have "length (recvbuffer (stable s ! r)) = SBUFFSIZE"
    using inv pd sock_okD(2) by (auto simp: sock_inv_def)
  then have "takeWhile (\<lambda>b. b \<noteq> 0) (recvbuffer (stable s1 ! r)) = data"
    using d by (simp add: at filled_def takeWhile_filled)
  moreover have "connected_pair l r (stable s2)" "\<not> hasfullbuffer (stable s2 ! r)"
    using pd pair1 pair(2) s1(4) unfolding s2(3) connected_pair_def at
    by (auto simp: emptied_def filled_def)
  ultimately show ?thesis using s1(1) s2 at by (auto simp: filled_def)
qed

text \<open>A connected pair for the example: what \<open>connect\<close> makes of the listening kernel.\<close>

definition paired :: ksock where
  "paired = listening\<lparr>countSock := 2, nextsid := 2, stable := (stable booted)
     [0 := zero_sock\<lparr>sstate := CONNECTED, owner := Some 1, lPort := 5, rPort := 127\<rparr>,
      1 := zero_sock\<lparr>sstate := CONNECTED, owner := Some 0, lPort := 127, rPort := 5, sid := 1\<rparr>]\<rparr>"

lemma paired_inv: "sock_inv paired"
proof -
  have "sock_ok (replicate NSOCK zero_sock) 0"
    by (auto simp: sock_ok_def zero_sock_def count_if_def)
  from sock_ok_open [OF this, of 0 "zero_sock\<lparr>sstate := CONNECTED, owner := Some 1, lPort := 5, rPort := 127\<rparr>"]
  have "sock_ok ((replicate NSOCK zero_sock)[0 := zero_sock\<lparr>sstate := CONNECTED, owner := Some 1,
      lPort := 5, rPort := 127\<rparr>]) 1"
    by (simp add: NSOCK_def zero_sock_def NPORT_def)
  from sock_ok_open [OF this, of 1] show ?thesis
    by (simp add: paired_def listening_def booted_def sinit_def sock_inv_def NSOCK_def zero_sock_def
        NPORT_def nth_list_update nth_Cons')
qed

theorem send_recv_delivers_witness:
  "\<exists>s1 s2. send 127 (cbytes ''hi'') 3 (paired\<lparr>curproc := Some 0\<rparr>) = Inr (Return 0 [], s1) \<and>
    recv 5 3 (s1\<lparr>curproc := Some 1\<rparr>) = Inr (Return 0 (cbytes ''hi'' @ [0]), s2)"
proof -
  have "strncpy_bytes 3 (cbytes ''hi'') = cbytes ''hi'' @ [0]" "0 \<notin> set (cbytes ''hi'')"
    "length (cbytes ''hi'') = 2"
    by (simp_all add: strncpy_bytes_def cbytes_def)
  moreover have "stable paired ! 0 = zero_sock\<lparr>sstate := CONNECTED, owner := Some 1, lPort := 5, rPort := 127\<rparr>"
    "stable paired ! 1 = zero_sock\<lparr>sstate := CONNECTED, owner := Some 0, lPort := 127, rPort := 5, sid := 1\<rparr>"
    "held paired = {}"
    by (simp_all add: paired_def listening_def booted_def sinit_def NSOCK_def)
  moreover from this have "connected_pair 1 0 (stable paired)"
    by (simp add: connected_pair_def NSOCK_def)
  ultimately show ?thesis
    using send_recv_delivers [OF paired_inv, of 1 0 0 1 "cbytes ''hi''" 3 3]
    by (auto simp: zero_sock_def SBUFFSIZE_def)
qed

text \<open>
  Closing the sockets of a process ends, and does exactly that: afterwards no open socket is owned
  by it, the open sockets of all other processes stay open and keep their owner, and the table
  invariant and the locks are as before.
\<close>

theorem closeprocsocks_closes:
  assumes "sock_inv s" "held s = {}"
  shows "\<exists>s'. closeprocsocks (Some q) s = Inr s' \<and> sock_inv s' \<and> held s' = {} \<and>
    (\<forall>i < NSOCK. in_use (stable s' ! i) \<longrightarrow> owner (stable s' ! i) \<noteq> Some q) \<and>
    (\<forall>i < NSOCK. in_use (stable s ! i) \<and> owner (stable s ! i) \<noteq> Some q \<longrightarrow>
       in_use (stable s' ! i) \<and> owner (stable s' ! i) = owner (stable s ! i))"
proof -
  let ?s1 = "s\<lparr>held := {StableLock}\<rparr>"
  have "sock_inv ?s1" using assms(1) by (simp add: sock_inv_def)
  from closeprocsocks_loop_ok [OF this, of q] obtain s' where
    "closeprocsocks_loop q ?s1 = Inr s'" "sock_inv s'" "held s' = {StableLock}"
    "others_kept q (stable s) (stable s')"
    "\<forall>i < NSOCK. in_use (stable s' ! i) \<longrightarrow> owner (stable s' ! i) \<noteq> Some q" by auto
  then show ?thesis using assms(2)
    by (intro exI [of _ "s'\<lparr>held := {}\<rparr>"])
      (simp add: closeprocsocks_def acquire_stable release_lock_def sock_inv_def others_kept_def)
qed

theorem closeprocsocks_closes_witness:
  "\<exists>s'. closeprocsocks (Some 1) paired = Inr s' \<and> sock_inv s' \<and>
    (in_use (stable s' ! 0) \<longrightarrow> owner (stable s' ! 0) \<noteq> Some 1) \<and> in_use (stable s' ! 1)"
proof -
  have "held paired = {}" "in_use (stable paired ! 1)" "owner (stable paired ! 1) = Some 0"
    by (simp_all add: paired_def listening_def booted_def sinit_def NSOCK_def)
  moreover have "0 < NSOCK" "1 < NSOCK" by (simp_all add: NSOCK_def)
  ultimately show ?thesis using closeprocsocks_closes [OF paired_inv, of 1] by fastforce
qed

end
