(* ===== verification/Kalloc.thy ===== *)
theory Kalloc
  imports Sock
begin

text \<open>
  The physical page allocator of \<^verbatim>\<open>kalloc.c\<close>, over the byte memory: the free list is threaded
  through the free pages themselves, as in the code, so the invariant says which memory the
  allocator owns. A locale states what clients of an allocator rely on and what follows from it;
  \<open>kalloc\<close> and \<open>kfree\<close> provide it. \<open>kend\<close> is the linker's symbol \<^verbatim>\<open>end\<close>.
\<close>

section \<open>Pages\<close>

definition PGSIZE :: uint where "PGSIZE = 4096"
definition EXTMEM :: uint where "EXTMEM = 0x100000"
definition PHYSTOP :: uint where "PHYSTOP = 0xE000000"

definition PGROUNDUP :: "uint \<Rightarrow> uint" where
  "PGROUNDUP a = (a + PGSIZE - 1) AND NOT (PGSIZE - 1)"

definition PGROUNDDOWN :: "uint \<Rightarrow> uint" where
  "PGROUNDDOWN a = a AND NOT (PGSIZE - 1)"

definition V2P :: "uint \<Rightarrow> uint" where "V2P a = a - KERNBASE"
definition P2V :: "uint \<Rightarrow> uint" where "P2V a = a + KERNBASE"

lemma V2P_P2V [simp]: "V2P (P2V a) = a" "P2V (V2P a) = a"
  by (simp_all add: V2P_def P2V_def)

section \<open>The allocator\<close>

record kmem = ksock +
  mem :: memory
  kend :: uint
  kmem_use_lock :: bool
  freelist :: uint
  numOfFreePages :: int

definition getTotalPages :: "'a kmem_scheme \<Rightarrow> uint" where
  "getTotalPages s = PGROUNDDOWN (PHYSTOP - V2P (kend s)) div PGSIZE"

definition getFreePages :: "'a kmem_scheme \<Rightarrow> int" where
  "getFreePages s = numOfFreePages s"

definition kmem_acquire :: "'a kmem_scheme \<Rightarrow> 'a kmem_scheme kres" where
  "kmem_acquire s = (if kmem_use_lock s then acquire_lock KmemLock s else Inr s)"

definition kmem_release :: "'a kmem_scheme \<Rightarrow> 'a kmem_scheme kres" where
  "kmem_release s = (if kmem_use_lock s then release_lock KmemLock s else Inr s)"

definition kfree :: "uint \<Rightarrow> 'a kmem_scheme \<Rightarrow> 'a kmem_scheme kres" where
  "kfree v s =
     (if v mod PGSIZE \<noteq> 0 \<or> v < kend s \<or> V2P v \<ge> PHYSTOP then Inl (Panic ''kfree'')
      else let s1 = s\<lparr>numOfFreePages := numOfFreePages s + 1\<rparr>;
               s2 = s1\<lparr>mem := memset (mem s1) v 1 PGSIZE\<rparr>
        in kbind (kmem_acquire s2) (\<lambda>s3.
             kmem_release (s3\<lparr>mem := store32 (mem s3) v (freelist s3), freelist := v\<rparr>)))"

definition kalloc :: "'a kmem_scheme \<Rightarrow> (uint \<times> 'a kmem_scheme) kres" where
  "kalloc s =
     kbind (kmem_acquire s) (\<lambda>s1.
       let s2 = s1\<lparr>numOfFreePages := numOfFreePages s1 - 1\<rparr>;
           r = freelist s2;
           s3 = (if r \<noteq> 0 then s2\<lparr>freelist := load32 (mem s2) r\<rparr> else s2)
       in kbind (kmem_release s3) (\<lambda>s4. Inr (r, s4)))"

text \<open>\<open>kfree\<close> refuses pages past \<open>PHYSTOP\<close>, so the loop of \<open>freerange\<close> stops before it can wrap.\<close>

lemma kfree_range: "kfree v s = Inr s' \<Longrightarrow> unat v + 4096 < 2 ^ 32"
proof -
  assume "kfree v s = Inr s'"
  then have "V2P v < PHYSTOP" by (auto simp: kfree_def not_le split: if_splits)
  then have "unat (V2P v) < 0xE000000" by (simp add: PHYSTOP_def word_less_nat_alt)
  moreover have "unat v = unat (V2P v + KERNBASE)" by (simp add: V2P_def)
  moreover have "unat (V2P v + KERNBASE) = unat (V2P v) + unat KERNBASE"
    using calculation by (intro unat_add_small) (simp add: KERNBASE_def)
  ultimately show ?thesis by (simp add: KERNBASE_def)
qed

function freerange_loop :: "uint \<Rightarrow> uint \<Rightarrow> 'a kmem_scheme \<Rightarrow> 'a kmem_scheme kres" where
  "freerange_loop p vend s =
     (if p + PGSIZE \<le> vend then kbind (kfree p s) (\<lambda>s1. freerange_loop (p + PGSIZE) vend s1) else Inr s)"
  by pat_completeness auto
termination
proof (relation "measure (\<lambda>(p, _, _). 2 ^ 32 - unat p)", goal_cases)
  case (2 p vend s s1)
  then have "unat (p + PGSIZE) = unat p + 4096" "unat p + 4096 < 2 ^ 32"
    using kfree_range [of p s s1] unat_add_small [of p PGSIZE] by (simp_all add: PGSIZE_def)
  then show ?case by simp
qed simp

declare freerange_loop.simps [simp del]

definition freerange :: "uint \<Rightarrow> uint \<Rightarrow> 'a kmem_scheme \<Rightarrow> 'a kmem_scheme kres" where
  "freerange vstart vend s = freerange_loop (PGROUNDUP vstart) vend s"

definition kinit1 :: "uint \<Rightarrow> uint \<Rightarrow> 'a kmem_scheme \<Rightarrow> 'a kmem_scheme kres" where
  "kinit1 vstart vend s = freerange vstart vend (s\<lparr>kmem_use_lock := False\<rparr>)"

definition kinit2 :: "uint \<Rightarrow> uint \<Rightarrow> 'a kmem_scheme \<Rightarrow> 'a kmem_scheme kres" where
  "kinit2 vstart vend s = kbind (freerange vstart vend s) (\<lambda>s1. Inr (s1\<lparr>kmem_use_lock := True\<rparr>))"

section \<open>The free list\<close>

text \<open>A chain of pages linked through their first words, ending in a null pointer.\<close>

fun chain :: "memory \<Rightarrow> uint \<Rightarrow> uint list \<Rightarrow> bool" where
  "chain m p [] = (p = 0)"
| "chain m p (x # xs) = (p = x \<and> x \<noteq> 0 \<and> chain m (load32 m x) xs)"

definition page_ok :: "uint \<Rightarrow> 'a kmem_scheme \<Rightarrow> bool" where
  "page_ok v s \<longleftrightarrow> v mod PGSIZE = 0 \<and> kend s \<le> v \<and> V2P v < PHYSTOP \<and> v \<noteq> 0"

definition kmem_inv :: "uint list \<Rightarrow> 'a kmem_scheme \<Rightarrow> bool" where
  "kmem_inv xs s \<longleftrightarrow> chain (mem s) (freelist s) xs \<and> distinct xs \<and> (\<forall>x \<in> set xs. page_ok x s)"

text \<open>The bytes of a page, and the fact that different pages share none.\<close>

abbreviation in_page :: "uint \<Rightarrow> uint \<Rightarrow> bool" where
  "in_page p b \<equiv> unat (b - p) < 4096"

lemma aligned_unat: "p mod PGSIZE = 0 \<longleftrightarrow> unat p mod 4096 = 0"
proof -
  have "unat (p mod 4096) = unat p mod 4096" by (simp add: unat_mod_distrib)
  then show ?thesis unfolding PGSIZE_def by (metis unat_0 unat_eq_zero)
qed

lemma page_base:
  assumes "p mod PGSIZE = 0" "in_page p b"
  shows "unat p = 4096 * (unat b div 4096)" "unat b = unat p + unat (b - p)"
proof -
  have al: "4096 dvd unat p" using assms(1) unfolding aligned_unat by (simp add: dvd_eq_mod_eq_0)
  then obtain k where k: "unat p = 4096 * k" by blast
  have "unat p < 4096 * 1048576" using uint_less_pow [of p] by simp
  then have "k < 1048576" unfolding k by simp
  then have "unat p + unat (b - p) < 2 ^ 32" using assms(2) k by simp
  then show b: "unat b = unat p + unat (b - p)" using unat_add_small [of p "b - p"] by simp
  show "unat p = 4096 * (unat b div 4096)" unfolding b k using assms(2) by simp
qed

lemma pages_disjoint:
  "p mod PGSIZE = 0 \<Longrightarrow> q mod PGSIZE = 0 \<Longrightarrow> in_page p b \<Longrightarrow> in_page q b \<Longrightarrow> p = q"
  by (metis page_base(1) word_unat_eq_iff)

lemma load32_cong:
  "m a = m' a \<Longrightarrow> m (a + 1) = m' (a + 1) \<Longrightarrow> m (a + 2) = m' (a + 2) \<Longrightarrow> m (a + 3) = m' (a + 3) \<Longrightarrow>
   load32 m a = load32 m' a"
  by (simp add: load32_def)

text \<open>Changes of memory outside the free pages do not touch the list.\<close>

lemma chain_cong:
  "(\<And>x b. x \<in> set xs \<Longrightarrow> in_page x b \<Longrightarrow> m b = m' b) \<Longrightarrow> chain m p xs = chain m' p xs"
proof (induction xs arbitrary: p)
  case (Cons x xs)
  have "load32 m x = load32 m' x" by (rule load32_cong; rule Cons.prems [of x]; simp)
  moreover have "chain m q xs = chain m' q xs" for q
    by (rule Cons.IH) (rule Cons.prems, auto)
  ultimately show ?case by simp
qed simp

section \<open>The interface\<close>

text \<open>
  What the rest of the kernel uses of a page allocator: the pages it has left, that allocation takes
  one of them and reports when there are none, and that freeing gives a page back.
\<close>

locale page_allocator =
  fixes alloc :: "'s \<Rightarrow> (uint \<times> 's) kres" and free :: "uint \<Rightarrow> 's \<Rightarrow> 's kres"
    and avail :: "uint list \<Rightarrow> 's \<Rightarrow> bool" and valid :: "uint \<Rightarrow> 's \<Rightarrow> bool"
  assumes alloc_some: "avail (x # xs) s \<Longrightarrow> \<exists>s'. alloc s = Inr (x, s') \<and> avail xs s' \<and> (\<forall>v. valid v s' = valid v s)"
    and alloc_none: "avail [] s \<Longrightarrow> \<exists>s'. alloc s = Inr (0, s') \<and> avail [] s'"
    and free_ok: "avail xs s \<Longrightarrow> valid v s \<Longrightarrow> v \<notin> set xs \<Longrightarrow> \<exists>s'. free v s = Inr s' \<and> avail (v # xs) s'"
    and avail_valid: "avail xs s \<Longrightarrow> v \<in> set xs \<Longrightarrow> valid v s \<and> v \<noteq> 0"
    and avail_distinct: "avail xs s \<Longrightarrow> distinct xs"
begin

fun alloc_n :: "nat \<Rightarrow> 's \<Rightarrow> (uint list \<times> 's) kres" where
  "alloc_n 0 s = Inr ([], s)"
| "alloc_n (Suc n) s = kbind (alloc s) (\<lambda>(p, s1). kbind (alloc_n n s1) (\<lambda>(ps, s2). Inr (p # ps, s2)))"

lemma alloc_n_ok:
  "avail xs s \<Longrightarrow> n \<le> length xs \<Longrightarrow> \<exists>s'. alloc_n n s = Inr (take n xs, s') \<and> avail (drop n xs) s'"
proof (induction n arbitrary: xs s)
  case (Suc n)
  then obtain x ys where xs: "xs = x # ys" by (cases xs) auto
  with alloc_some Suc.prems obtain s1 where "alloc s = Inr (x, s1)" "avail ys s1" by blast
  with Suc.IH [of ys s1] Suc.prems xs show ?case by auto
qed simp

lemma alloc_then_free:
  assumes "avail (x # xs) s"
  shows "\<exists>s'. kbind (alloc s) (\<lambda>(p, s1). free p s1) = Inr s' \<and> avail (x # xs) s'"
proof -
  obtain s1 where s1: "alloc s = Inr (x, s1)" "avail xs s1" "\<forall>v. valid v s1 = valid v s"
    using alloc_some assms by blast
  moreover have "valid x s1" "x \<notin> set xs" using s1(3) avail_valid [OF assms] avail_distinct [OF assms] by auto
  ultimately show ?thesis using free_ok by auto
qed

end

section \<open>\<open>kalloc\<close> and \<open>kfree\<close> provide it\<close>

definition kmem_ready :: "uint list \<Rightarrow> 'a kmem_scheme \<Rightarrow> bool" where
  "kmem_ready xs s \<longleftrightarrow> kmem_inv xs s \<and> KmemLock \<notin> held s"

lemma kalloc_eq:
  assumes "KmemLock \<notin> held s"
  shows "kalloc s = Inr (freelist s, s\<lparr>numOfFreePages := numOfFreePages s - 1,
    freelist := (if freelist s \<noteq> 0 then load32 (mem s) (freelist s) else freelist s)\<rparr>)"
  using assms
  by (auto simp: kalloc_def kmem_acquire_def kmem_release_def acquire_lock_def release_lock_def Let_def)

lemma kfree_eq:
  assumes "KmemLock \<notin> held s" "page_ok v s"
  shows "kfree v s = Inr (s\<lparr>numOfFreePages := numOfFreePages s + 1,
    mem := store32 (memset (mem s) v 1 PGSIZE) v (freelist s), freelist := v\<rparr>)"
  using assms
  by (auto simp: kfree_def page_ok_def kmem_acquire_def kmem_release_def acquire_lock_def
      release_lock_def Let_def)

lemma kfree_bad: "\<not> (v mod PGSIZE = 0 \<and> kend s \<le> v \<and> V2P v < PHYSTOP) \<Longrightarrow> kfree v s = Inl (Panic ''kfree'')"
  unfolding kfree_def by (rule if_P) (metis not_le)

lemma kfree_mem_outside:
  assumes "\<not> in_page v b"
  shows "store32 (memset m v 1 PGSIZE) v x b = m b"
  using assms by (auto simp: store32_apply memset_apply PGSIZE_def)

lemma kalloc_inv:
  assumes "kmem_inv (x # xs) s" "KmemLock \<notin> held s"
  shows "\<exists>s'. kalloc s = Inr (x, s') \<and> kmem_inv xs s' \<and> mem s' = mem s \<and> held s' = held s \<and>
    kend s' = kend s \<and> numOfFreePages s' = numOfFreePages s - 1"
  using assms by (simp add: kalloc_eq kmem_inv_def page_ok_def)

lemma kfree_inv:
  assumes inv: "kmem_inv xs s" and h: "KmemLock \<notin> held s" and v: "page_ok v s" "v \<notin> set xs"
  shows "\<exists>s'. kfree v s = Inr s' \<and> kmem_inv (v # xs) s' \<and> held s' = held s \<and> kend s' = kend s \<and>
    numOfFreePages s' = numOfFreePages s + 1 \<and> (\<forall>b. \<not> in_page v b \<longrightarrow> mem s' b = mem s b)"
proof -
  let ?m = "store32 (memset (mem s) v 1 PGSIZE) v (freelist s)"
  have "mem s b = ?m b" if "x \<in> set xs" "in_page x b" for x b
  proof -
    have "v mod PGSIZE = 0" "x mod PGSIZE = 0" "x \<noteq> v"
      using inv v that(1) unfolding kmem_inv_def page_ok_def by blast+
    then have "\<not> in_page v b" using pages_disjoint [of v x b] that(2) by auto
    then show ?thesis by (rule kfree_mem_outside [symmetric])
  qed
  then have "chain ?m (freelist s) xs"
    using inv chain_cong [of xs "mem s" ?m] by (auto simp: kmem_inv_def)
  moreover have "v \<noteq> 0" using v(1) by (simp add: page_ok_def)
  ultimately show ?thesis using assms unfolding kfree_eq [OF h v(1)] kmem_inv_def page_ok_def
    by (simp add: kfree_mem_outside)
qed

interpretation kmem: page_allocator kalloc kfree kmem_ready page_ok
proof unfold_locales
  show "\<exists>s'. kalloc s = Inr (x, s') \<and> kmem_ready xs s' \<and> (\<forall>v. page_ok v s' = page_ok v s)"
    if "kmem_ready (x # xs) s" for x xs and s :: "'a kmem_scheme"
    using that kalloc_inv [of x xs s] by (auto simp: kmem_ready_def page_ok_def)
  show "\<exists>s'. kalloc s = Inr (0, s') \<and> kmem_ready [] s'" if "kmem_ready [] s" for s :: "'a kmem_scheme"
    using that by (simp add: kmem_ready_def kalloc_eq kmem_inv_def)
  show "\<exists>s'. kfree v s = Inr s' \<and> kmem_ready (v # xs) s'"
    if "kmem_ready xs s" "page_ok v s" "v \<notin> set xs" for xs v and s :: "'a kmem_scheme"
    using that kfree_inv [of xs s v] by (auto simp: kmem_ready_def)
qed (auto simp: kmem_ready_def kmem_inv_def page_ok_def)

section \<open>Properties\<close>

text \<open>The pages from \<open>p\<close> on, in the order \<open>freerange\<close> frees them.\<close>

fun pages_from :: "uint \<Rightarrow> nat \<Rightarrow> uint list" where
  "pages_from p 0 = []"
| "pages_from p (Suc n) = p # pages_from (p + PGSIZE) n"

lemma unat_next_page: "unat p + 4096 < 2 ^ 32 \<Longrightarrow> unat (p + PGSIZE) = unat p + 4096"
  using unat_add_small [of p PGSIZE] by (simp add: PGSIZE_def)

lemma pages_from_ge:
  "unat p + 4096 * n < 2 ^ 32 \<Longrightarrow> q \<in> set (pages_from p n) \<Longrightarrow> unat p \<le> unat q"
proof (induction n arbitrary: p)
  case (Suc n)
  then show ?case using unat_next_page [of p] Suc.IH [of "p + PGSIZE"] by auto
qed simp

lemma freerange_loop_ok:
  assumes "kmem_ready xs s" "page_ok p s \<or> n = 0" "unat p + 4096 * n \<le> unat vend"
    "unat vend < unat p + 4096 * Suc n" "unat vend \<le> unat (P2V PHYSTOP)"
    "\<forall>q \<in> set xs. q \<notin> set (pages_from p n)" "p mod PGSIZE = 0" "unat p \<le> unat (P2V PHYSTOP)"
  shows "\<exists>s'. freerange_loop p vend s = Inr s' \<and> kmem_ready (rev (pages_from p n) @ xs) s' \<and>
    numOfFreePages s' = numOfFreePages s + int n"
  using assms
proof (induction n arbitrary: p xs s)
  case 0
  have P: "unat (P2V PHYSTOP) = 0x8E000000" by (simp add: P2V_def PHYSTOP_def KERNBASE_def)
  have "unat p + 4096 < 2 ^ 32" using 0 P by simp
  then have "\<not> p + PGSIZE \<le> vend" using 0 unat_next_page [of p] by (simp add: word_le_nat_alt)
  then show ?case using 0 by (simp add: freerange_loop.simps)
next
  case (Suc n)
  have P: "unat (P2V PHYSTOP) = 0x8E000000" by (simp add: P2V_def PHYSTOP_def KERNBASE_def)
  have nx: "unat (p + PGSIZE) = unat p + 4096" using Suc.prems(3,5) P by (intro unat_next_page) simp
  have le: "p + PGSIZE \<le> vend" using Suc.prems(3) nx by (simp add: word_le_nat_alt)
  have ok: "page_ok p s" using Suc.prems(2) by simp
  have inv: "kmem_inv xs s" "KmemLock \<notin> held s" using Suc.prems(1) by (auto simp: kmem_ready_def)
  have "p \<notin> set xs" using Suc.prems(6) by auto
  from kfree_inv [OF inv ok this] obtain s1 where s1: "kfree p s = Inr s1" "kmem_inv (p # xs) s1"
    "held s1 = held s" "kend s1 = kend s" "numOfFreePages s1 = numOfFreePages s + 1" by blast
  have al: "(p + PGSIZE) mod PGSIZE = 0"
    using Suc.prems(7) nx unfolding aligned_unat by simp
  have v2p: "unat (V2P (p + PGSIZE)) = unat p + 4096 - 0x80000000"
  proof -
    have "KERNBASE \<le> p" using ok by (auto simp: page_ok_def V2P_def PHYSTOP_def KERNBASE_def word_le_nat_alt word_less_nat_alt unat_sub_if_size word_size split: if_splits)
    then have "KERNBASE \<le> p + PGSIZE" using nx by (simp add: word_le_nat_alt)
    then show ?thesis using nx by (simp add: V2P_def unat_sub_small KERNBASE_def)
  qed
  have ok1: "page_ok (p + PGSIZE) s1 \<or> n = 0"
  proof (cases n)
    case (Suc k)
    have "unat (V2P (p + PGSIZE)) < unat PHYSTOP"
      using Suc.prems(3,5) P Suc v2p by (simp add: PHYSTOP_def)
    moreover have "unat (kend s) \<le> unat p" using ok by (simp add: page_ok_def word_le_nat_alt)
    ultimately show ?thesis using al nx s1(4) unat_pos_iff [of "p + PGSIZE"]
      by (simp add: page_ok_def word_le_nat_alt word_less_nat_alt)
  qed simp
  have "p \<notin> set (pages_from (p + PGSIZE) n)"
    using pages_from_ge [of "p + PGSIZE" n p] nx Suc.prems(3,5) P by auto
  then have dj: "\<forall>q \<in> set (p # xs). q \<notin> set (pages_from (p + PGSIZE) n)"
    using Suc.prems(6) by auto
  have "kmem_ready (p # xs) s1" using s1 inv by (simp add: kmem_ready_def)
  from Suc.IH [OF this ok1 _ _ Suc.prems(5) dj al] nx Suc.prems(3-5) s1(5)
  show ?case by (subst freerange_loop.simps) (simp add: le s1(1) add.assoc)
qed

text \<open>
  Freeing a range builds the free list: \<open>freerange\<close> over pages the allocator may own and does not
  have yet ends without a panic, and the list then holds exactly the old pages and every whole page of
  the range, each once; the count of free pages grows by their number.
\<close>

theorem freerange_builds:
  assumes "kmem_ready xs s" "p = PGROUNDUP vstart" "page_ok p s" "p \<le> vend" "vend \<le> P2V PHYSTOP"
    "n = (unat vend - unat p) div 4096" "set xs \<inter> set (pages_from p n) = {}"
  shows "\<exists>s'. freerange vstart vend s = Inr s' \<and> kmem_ready (rev (pages_from p n) @ xs) s' \<and>
    numOfFreePages s' = numOfFreePages s + int n"
proof -
  have "unat p \<le> unat vend" "unat vend \<le> unat (P2V PHYSTOP)" "p mod PGSIZE = 0"
    using assms(3-5) by (simp_all add: word_le_nat_alt page_ok_def)
  moreover have "unat p + 4096 * n \<le> unat vend" "unat vend < unat p + 4096 * Suc n"
    using calculation(1) unfolding assms(6) by (simp_all add: algebra_simps)
  ultimately show ?thesis
    using freerange_loop_ok [of xs s p n vend] assms by (auto simp: freerange_def)
qed

text \<open>An example: a kernel whose image ends at \<open>0x80400000\<close>, with no free page yet.\<close>

definition kmem0 :: kmem where
  "kmem0 = ksock.extend booted
     \<lparr>mem = (\<lambda>_. 0), kend = 0x80400000, kmem_use_lock = False, freelist = 0, numOfFreePages = 0\<rparr>"

lemma kmem0_ready: "kmem_ready [] kmem0"
  by (simp add: kmem_ready_def kmem_inv_def kmem0_def ksock.defs booted_def sinit_def)

theorem freerange_builds_witness:
  "\<exists>s'. freerange 0x80400001 0x80404000 kmem0 = Inr s' \<and>
    kmem_ready [0x80403000, 0x80402000, 0x80401000] s' \<and> numOfFreePages s' = 3"
proof -
  have pg: "0x80401000 = PGROUNDUP 0x80400001" by (simp add: PGROUNDUP_def PGSIZE_def)
  have list: "rev (pages_from 0x80401000 3) = [0x80403000, 0x80402000, 0x80401000]"
    by (simp add: PGSIZE_def numeral_3_eq_3)
  have ok: "page_ok 0x80401000 kmem0" and z: "numOfFreePages kmem0 = 0"
    by (simp_all add: page_ok_def kmem0_def ksock.defs PGSIZE_def V2P_def KERNBASE_def PHYSTOP_def)
  have le: "(0x80401000 :: uint) \<le> 0x80404000" "0x80404000 \<le> P2V PHYSTOP"
    by (simp_all add: P2V_def PHYSTOP_def KERNBASE_def)
  have n: "3 = (unat (0x80404000 :: uint) - unat (0x80401000 :: uint)) div 4096" by simp
  from freerange_builds [OF kmem0_ready pg ok le n] show ?thesis by (simp add: list z)
qed

text \<open>
  C29. \<open>kalloc\<close> hands out a non-null page of its range that is no longer on the list and touches no byte
  of memory, or null when the list is empty; freeing a page the allocator does not have and
  allocating again returns that page, restores list and count, and changes no byte outside it. No
  lock stays held.
\<close>

theorem kalloc_kfree_discipline:
  assumes "kmem_ready xs s"
  shows "(case xs of
      [] \<Rightarrow> (\<exists>s'. kalloc s = Inr (0, s') \<and> kmem_ready [] s' \<and> mem s' = mem s)
    | x # ys \<Rightarrow> (\<exists>s'. kalloc s = Inr (x, s') \<and> x \<noteq> 0 \<and> page_ok x s \<and> x \<notin> set ys \<and>
        kmem_ready ys s' \<and> mem s' = mem s)) \<and>
    (\<forall>v. page_ok v s \<and> v \<notin> set xs \<longrightarrow> (\<exists>s1 s2. kfree v s = Inr s1 \<and> kalloc s1 = Inr (v, s2) \<and>
      kmem_ready xs s2 \<and> numOfFreePages s2 = numOfFreePages s \<and>
      (\<forall>b. \<not> in_page v b \<longrightarrow> mem s2 b = mem s b)))"
proof (intro conjI allI impI)
  have inv: "kmem_inv xs s" "KmemLock \<notin> held s" using assms by (auto simp: kmem_ready_def)
  show "case xs of
      [] \<Rightarrow> (\<exists>s'. kalloc s = Inr (0, s') \<and> kmem_ready [] s' \<and> mem s' = mem s)
    | x # ys \<Rightarrow> (\<exists>s'. kalloc s = Inr (x, s') \<and> x \<noteq> 0 \<and> page_ok x s \<and> x \<notin> set ys \<and>
        kmem_ready ys s' \<and> mem s' = mem s)"
  proof (cases xs)
    case Nil
    with inv show ?thesis by (simp add: kalloc_eq kmem_ready_def kmem_inv_def)
  next
    case (Cons x ys)
    with inv kalloc_inv [of x ys s] show ?thesis
      by (auto simp: kmem_ready_def kmem_inv_def page_ok_def)
  qed
next
  fix v
  assume v: "page_ok v s \<and> v \<notin> set xs"
  obtain s1 where s1: "kfree v s = Inr s1" "kmem_inv (v # xs) s1" "KmemLock \<notin> held s1"
    "numOfFreePages s1 = numOfFreePages s + 1" "\<forall>b. \<not> in_page v b \<longrightarrow> mem s1 b = mem s b"
    using kfree_inv [of xs s v] assms v by (auto simp: kmem_ready_def)
  with kalloc_inv [OF s1(2,3)] show "\<exists>s1 s2. kfree v s = Inr s1 \<and> kalloc s1 = Inr (v, s2) \<and>
      kmem_ready xs s2 \<and> numOfFreePages s2 = numOfFreePages s \<and>
      (\<forall>b. \<not> in_page v b \<longrightarrow> mem s2 b = mem s b)"
    by (auto simp: kmem_ready_def)
qed

theorem kalloc_kfree_discipline_witness:
  "\<exists>s1 s2. kfree 0x80401000 kmem0 = Inr s1 \<and> kalloc s1 = Inr (0x80401000, s2) \<and> kmem_ready [] s2"
proof -
  have "page_ok 0x80401000 kmem0"
    by (simp add: page_ok_def kmem0_def ksock.defs PGSIZE_def V2P_def KERNBASE_def PHYSTOP_def)
  then show ?thesis using kalloc_kfree_discipline [OF kmem0_ready] by fastforce
qed

text \<open>
  The count of free pages goes wrong when memory runs out: a call of \<open>kalloc\<close> on the empty list
  returns null and still decrements the counter, so \<open>getFreePages\<close> is no longer the length of the
  list it had been.
\<close>

theorem kalloc_miscounts:
  assumes "kmem_ready [] s" "getFreePages s = 0"
  shows "\<exists>s'. kalloc s = Inr (0, s') \<and> kmem_ready [] s' \<and> getFreePages s' = -1"
  using assms by (simp add: kmem_ready_def kalloc_eq kmem_inv_def getFreePages_def)

theorem kalloc_miscounts_witness: "\<exists>s'. kalloc kmem0 = Inr (0, s') \<and> getFreePages s' = -1"
  using kalloc_miscounts [OF kmem0_ready]
  by (auto simp: getFreePages_def kmem0_def ksock.defs)

end
