(* ===== verification/Fifo.thy ===== *)
theory Fifo
  imports Proc
begin

text \<open>
  The bookkeeping of paged memory in \<^verbatim>\<open>vm.c\<close> and \<^verbatim>\<open>fs.c\<close>: the ring of resident pages that
  every process keeps in its \<^verbatim>\<open>ram_manager\<close> (head \<^verbatim>\<open>fifoIndexStart\<close>, tail
  \<^verbatim>\<open>fifoIndexNext\<close>, length \<^verbatim>\<open>page_mem_count\<close>) and the table of swap file slots. The
  operations are translated on the process record; an abstraction to lists shows that they implement
  a first-in first-out queue, through a locale that states the queue's contract.
\<close>

section \<open>Operations\<close>

definition NPSYC :: uint where "NPSYC = 15"

definition isFIFOfull :: "proc \<Rightarrow> bool" where
  "isFIFOfull p \<longleftrightarrow> page_mem_count p = NPSYC"

definition isFIFOEmpty :: "proc \<Rightarrow> bool" where
  "isFIFOEmpty p \<longleftrightarrow> page_mem_count p = 0"

definition nextFIFOFreePageIndex :: "proc \<Rightarrow> int" where
  "nextFIFOFreePageIndex p = (if \<not> isFIFOfull p then uint (fifoIndexNext p) else -1)"

definition nextFreePageIndexInRAM :: "proc \<Rightarrow> int" where
  "nextFreePageIndexInRAM p = nextFIFOFreePageIndex p"

definition updateFIFONextFreePageIndex :: "proc \<Rightarrow> proc" where
  "updateFIFONextFreePageIndex p =
     p\<lparr>fifoIndexNext := (fifoIndexStart p + page_mem_count p) mod NPSYC\<rparr>"

definition nextFIFOSwapPageIndex :: "proc \<Rightarrow> int" where
  "nextFIFOSwapPageIndex p = uint (fifoIndexStart p)"

definition nextSwapPageIndexInRAM :: "proc \<Rightarrow> int" where
  "nextSwapPageIndexInRAM p = nextFIFOSwapPageIndex p"

definition shiftFIFOIndex :: "proc \<Rightarrow> proc" where
  "shiftFIFOIndex p = (let p1 = p\<lparr>fifoIndexStart := (fifoIndexStart p + 1) mod NPSYC\<rparr>
     in p1\<lparr>fifoIndexNext := (fifoIndexNext p1 + 1) mod NPSYC\<rparr>)"

definition swapRamIndex :: "nat \<Rightarrow> nat \<Rightarrow> proc \<Rightarrow> proc" where
  "swapRamIndex i j p = (let temp = ram_manager p ! i;
       p1 = p\<lparr>ram_manager := (ram_manager p)[i := ram_manager p ! j]\<rparr>
     in p1\<lparr>ram_manager := (ram_manager p1)[j := temp]\<rparr>)"

text \<open>The index \<open>-1\<close> of a full ring would write in front of the array.\<close>

definition insertPageToRAM :: "uint \<Rightarrow> uint \<Rightarrow> proc \<Rightarrow> proc kres" where
  "insertPageToRAM pd vAddr p =
     (let index = nextFreePageIndexInRAM p
      in if index < 0 \<or> index \<ge> int MAX_PSYC_PAGES then Inl (Undefined ''ram_manager index'')
         else let p1 = p\<lparr>ram_manager := (ram_manager p)[nat index :=
                     \<lparr>pg_state = USED, pg_pgdir = pd, pg_vAddr = vAddr\<rparr>]\<rparr>;
                  p2 = p1\<lparr>page_mem_count := page_mem_count p1 + 1\<rparr>
           in Inr (updateFIFONextFreePageIndex p2))"

text \<open>The loop that closes the gap at \<open>from\<close>; it stops when \<open>nextIdx\<close> meets the tail.\<close>

partial_function (option) organize_loop :: "nat \<Rightarrow> nat \<Rightarrow> proc \<Rightarrow> proc option" where
  "organize_loop i nextIdx p =
     (if int nextIdx = uint (fifoIndexNext p) then Some p
      else
        let r = ram_manager p; n' = (nextIdx + 1) mod MAX_PSYC_PAGES
        in if pg_state (r ! i) = NOT_USED \<and> pg_state (r ! nextIdx) = USED
           then let r1 = r[i := r ! nextIdx]; r2 = r1[nextIdx := (r1 ! nextIdx)\<lparr>pg_state := NOT_USED\<rparr>]
             in organize_loop nextIdx n' (p\<lparr>ram_manager := r2\<rparr>)
           else if pg_state (r ! i) = USED then organize_loop nextIdx n' p
           else organize_loop i n' p)"

definition organizeFIFORAMqueue :: "int \<Rightarrow> proc \<Rightarrow> proc kres" where
  "organizeFIFORAMqueue from p =
     (if from < 0 then Inl (Panic ''called to organize queue with invalid args'')
      else case organize_loop (nat from) ((nat from + 1) mod MAX_PSYC_PAGES) p of
        None \<Rightarrow> Inl (Undefined ''organizeFIFORAMqueue does not end'')
      | Some p1 \<Rightarrow> Inr p1)"

definition deletePageFromRAM :: "nat \<Rightarrow> bool \<Rightarrow> proc \<Rightarrow> proc kres" where
  "deletePageFromRAM index reform p =
     (let p1 = p\<lparr>ram_manager := (ram_manager p)[index := (ram_manager p ! index)\<lparr>pg_state := NOT_USED\<rparr>]\<rparr>;
          p2 = p1\<lparr>page_mem_count := page_mem_count p1 - 1\<rparr>
      in if reform
         then kbind (organizeFIFORAMqueue (int index) p2) (\<lambda>p3. Inr (updateFIFONextFreePageIndex p3))
         else Inr p2)"

definition removePageFromRAM :: "uint \<Rightarrow> uint \<Rightarrow> proc \<Rightarrow> proc kres" where
  "removePageFromRAM vAddr pd p =
     (case first_index (\<lambda>g. pg_state g = USED \<and> pg_vAddr g = vAddr \<and> pg_pgdir g = pd) (ram_manager p) of
        None \<Rightarrow> Inr p
      | Some i \<Rightarrow> deletePageFromRAM i True p)"

definition nextFreePageIndexInFile :: "proc \<Rightarrow> int" where
  "nextFreePageIndexInFile p =
     (case first_index (\<lambda>g. pg_state g = NOT_USED) (file_manager p) of
        Some i \<Rightarrow> int i | None \<Rightarrow> -1)"

section \<open>The ring as a list\<close>

text \<open>The slot of the \<open>k\<close>-th oldest page, and the queue of resident pages, oldest first.\<close>

definition slot :: "proc \<Rightarrow> nat \<Rightarrow> nat" where
  "slot p k = (unat (fifoIndexStart p) + k) mod 15"

definition ramq :: "proc \<Rightarrow> page_t list" where
  "ramq p = map (\<lambda>k. ram_manager p ! slot p k) [0..<unat (page_mem_count p)]"

definition ring_ok :: "proc \<Rightarrow> bool" where
  "ring_ok p \<longleftrightarrow> length (ram_manager p) = 15 \<and> unat (fifoIndexStart p) < 15 \<and>
     unat (page_mem_count p) \<le> 15 \<and>
     unat (fifoIndexNext p) = slot p (unat (page_mem_count p)) \<and>
     (\<forall>k < 15. pg_state (ram_manager p ! slot p k) = USED \<longleftrightarrow> k < unat (page_mem_count p))"

lemma ring_okD:
  assumes "ring_ok p"
  shows "length (ram_manager p) = 15" "unat (fifoIndexStart p) < 15" "unat (page_mem_count p) \<le> 15"
    "unat (fifoIndexNext p) = slot p (unat (page_mem_count p))"
    "k < 15 \<Longrightarrow> pg_state (ram_manager p ! slot p k) = USED \<longleftrightarrow> k < unat (page_mem_count p)"
  using assms by (auto simp: ring_ok_def)

lemma slot_less [simp]: "slot p k < 15"
  by (simp add: slot_def)

lemma mod15_add_inj:
  fixes a :: nat
  assumes "j \<le> k" "k < 15" "(a + k) mod 15 = (a + j) mod 15"
  shows "j = k"
proof -
  have "15 dvd (a + k) - (a + j)" using assms mod_eq_dvd_iff_nat [of "a + j" "a + k" 15] by simp
  then show ?thesis using assms(1,2) by (auto dest: dvd_imp_le)
qed

lemma slot_inj: "j < 15 \<Longrightarrow> k < 15 \<Longrightarrow> slot p j = slot p k \<longleftrightarrow> j = k"
  unfolding slot_def using mod15_add_inj [of j k "unat (fifoIndexStart p)"]
    mod15_add_inj [of k j "unat (fifoIndexStart p)"] by (metis nat_le_linear)

lemma full_iff: "isFIFOfull p \<longleftrightarrow> unat (page_mem_count p) = 15"
  by (simp add: isFIFOfull_def NPSYC_def word_unat_eq_iff)

lemma length_ramq [simp]: "length (ramq p) = unat (page_mem_count p)"
  by (simp add: ramq_def)

lemma unat_ring_add:
  "unat (a :: uint) + unat b < 2 ^ 32 \<Longrightarrow> unat ((a + b) mod NPSYC) = (unat a + unat b) mod 15"
  by (simp add: unat_mod_distrib unat_add_small NPSYC_def)

lemma slot_wrap: "slot p (k + 15) = slot p k"
  unfolding slot_def by (metis add.assoc mod_add_self2)

lemma ramq_nth: "k < unat (page_mem_count p) \<Longrightarrow> ramq p ! k = ram_manager p ! slot p k"
  by (simp add: ramq_def)

lemma ramqI:
  assumes "unat (page_mem_count p) = length q"
    and "\<And>k. k < length q \<Longrightarrow> ram_manager p ! slot p k = q ! k"
  shows "ramq p = q"
  using assms by (intro nth_equalityI) (auto simp: ramq_nth)

lemma next_slot: "ring_ok p \<Longrightarrow> uint (fifoIndexNext p) = int (slot p (unat (page_mem_count p)))"
  using ring_okD(4) [of p] by (metis of_nat_unat)

text \<open>Insertion appends.\<close>

lemma insert_ring:
  assumes ok: "ring_ok p" and room: "unat (page_mem_count p) < 15"
  shows "\<exists>p'. insertPageToRAM pd va p = Inr p' \<and> ring_ok p' \<and>
    ramq p' = ramq p @ [\<lparr>pg_state = USED, pg_pgdir = pd, pg_vAddr = va\<rparr>] \<and> file_manager p' = file_manager p"
proof -
  let ?g = "\<lparr>pg_state = USED, pg_pgdir = pd, pg_vAddr = va\<rparr>"
  let ?n = "unat (page_mem_count p)"
  note d = ring_okD [OF ok]
  define p' where "p' = p\<lparr>ram_manager := (ram_manager p)[slot p ?n := ?g],
    page_mem_count := page_mem_count p + 1,
    fifoIndexNext := (fifoIndexStart p + (page_mem_count p + 1)) mod NPSYC\<rparr>"
  have "insertPageToRAM pd va p = Inr p'"
    using room d(4) next_slot [OF ok] slot_less [of p ?n]
    by (simp add: insertPageToRAM_def nextFreePageIndexInRAM_def nextFIFOFreePageIndex_def full_iff
        updateFIFONextFreePageIndex_def Let_def MAX_PSYC_PAGES_def p'_def not_le)
  moreover have cnt: "unat (page_mem_count p') = Suc ?n"
    using room by (simp add: p'_def unat_add_small)
  moreover have sl: "slot p' k = slot p k" for k by (simp add: p'_def slot_def)
  moreover have ram: "ram_manager p' ! slot p k = (if k = ?n then ?g else ram_manager p ! slot p k)" if "k < 15" for k
    using that d(1) room slot_inj [of k ?n p] by (auto simp: p'_def nth_list_update)
  moreover have "unat (fifoIndexNext p') = slot p' (Suc ?n)"
    using cnt d(2) room by (simp add: p'_def slot_def unat_ring_add)
  moreover have "ramq p' = ramq p @ [?g]"
    using cnt room by (intro ramqI) (auto simp: sl ram ramq_nth nth_append)
  moreover have "ring_ok p'" unfolding ring_ok_def cnt sl
    using d(1-3) room calculation(5) d(5) by (auto simp: ram sl) (auto simp: p'_def)
  ultimately show ?thesis by (auto simp: p'_def)
qed

text \<open>Evicting the head for a new page: the steps \<open>swap_out\<close> takes on the ring.\<close>

definition replaceOldest :: "uint \<Rightarrow> uint \<Rightarrow> proc \<Rightarrow> proc kres" where
  "replaceOldest pd vAddr p =
     kbind (deletePageFromRAM (nat (nextSwapPageIndexInRAM p)) False p) (\<lambda>p1.
       kbind (insertPageToRAM pd vAddr p1) (\<lambda>p2. Inr (shiftFIFOIndex p2)))"

lemma replace_ring:
  assumes ok: "ring_ok p" and full: "unat (page_mem_count p) = 15"
  shows "\<exists>p'. replaceOldest pd va p = Inr p' \<and> ring_ok p' \<and>
    ramq p' = tl (ramq p) @ [\<lparr>pg_state = USED, pg_pgdir = pd, pg_vAddr = va\<rparr>] \<and>
    file_manager p' = file_manager p"
proof -
  let ?g = "\<lparr>pg_state = USED, pg_pgdir = pd, pg_vAddr = va\<rparr>"
  note d = ring_okD [OF ok]
  let ?s = "unat (fifoIndexStart p)"
  have c: "page_mem_count p = NPSYC" using full by (simp add: NPSYC_def word_unat_eq_iff)
  have nx: "fifoIndexNext p = fifoIndexStart p"
    using d(2,4) full by (simp add: slot_def word_unat_eq_iff)
  have s0: "nat (uint (fifoIndexStart p)) = ?s" by simp
  define p' where "p' = p\<lparr>ram_manager := (ram_manager p)[?s := ?g],
    fifoIndexStart := (fifoIndexStart p + 1) mod NPSYC,
    fifoIndexNext := (fifoIndexStart p + 1) mod NPSYC\<rparr>"
  have m: "(fifoIndexStart p + NPSYC) mod NPSYC = fifoIndexStart p"
    using d(2) unat_ring_add [of "fifoIndexStart p" NPSYC]
    by (simp add: word_unat_eq_iff) (simp add: NPSYC_def)
  have lt: "uint (fifoIndexStart p) < 15" using d(2) by (metis of_nat_unat of_nat_less_iff of_nat_numeral)
  have "replaceOldest pd va p = Inr p'"
    using lt nx m s0
    by (simp add: replaceOldest_def nextSwapPageIndexInRAM_def nextFIFOSwapPageIndex_def
        deletePageFromRAM_def insertPageToRAM_def nextFreePageIndexInRAM_def nextFIFOFreePageIndex_def
        isFIFOfull_def updateFIFONextFreePageIndex_def shiftFIFOIndex_def Let_def c MAX_PSYC_PAGES_def
        not_le p'_def NPSYC_def)
  moreover have st: "unat (fifoIndexStart p') = (?s + 1) mod 15"
    using d(2) by (simp add: p'_def unat_ring_add)
  then have sl: "slot p' k = slot p (Suc k)" for k by (simp add: slot_def mod_simps)
  have ram: "ram_manager p' ! slot p k = (if k = 0 \<or> k = 15 then ?g else ram_manager p ! slot p k)" if "k \<le> 15" for k
  proof -
    have "slot p 0 = ?s" using d(2) by (simp add: slot_def)
    moreover have "slot p 15 = slot p 0" using slot_wrap [of p 0] by simp
    ultimately show ?thesis
      using that d(1,2) slot_inj [of k 0 p] by (cases "k = 15") (auto simp: p'_def nth_list_update)
  qed
  have cnt: "unat (page_mem_count p') = 15" using full by (simp add: p'_def)
  have "ramq p' = tl (ramq p) @ [?g]"
    using cnt full by (intro ramqI) (auto simp: sl ram ramq_nth nth_append nth_tl)
  moreover have "pg_state (ram_manager p' ! slot p' k) = USED" if "k < 15" for k
    using that full d(5) [of "Suc k"] by (auto simp: sl ram)
  then have "ring_ok p'" unfolding ring_ok_def cnt
    using d(1) st slot_wrap [of p' 0] by (auto simp: p'_def slot_def unat_ring_add d(2))
  ultimately show ?thesis by (auto simp: p'_def)
qed

text \<open>Closing the gap left by a deletion moves every younger page one slot down.\<close>

lemma organize_ring:
  assumes "length (ram_manager p) = 15" "j < n" "n \<le> 15" "unat (fifoIndexNext p) = slot p n"
    and "pg_state (ram_manager p ! slot p j) = NOT_USED"
    and "\<And>k. j < k \<Longrightarrow> k < n \<Longrightarrow> pg_state (ram_manager p ! slot p k) = USED"
  shows "\<exists>r. organize_loop (slot p j) (slot p (Suc j)) p = Some (p\<lparr>ram_manager := r\<rparr>) \<and> length r = 15 \<and>
    pg_state (r ! slot p (n - 1)) = NOT_USED \<and>
    (\<forall>k < 15. k \<noteq> n - 1 \<longrightarrow> r ! slot p k = ram_manager p ! slot p (if j \<le> k \<and> k < n then Suc k else k))"
  using assms
proof (induction "n - j" arbitrary: j p)
  case (Suc d)
  have nx: "uint (fifoIndexNext p) = int (slot p n)" using Suc.prems(4) by (metis of_nat_unat)
  show ?case
  proof (cases "Suc j = n")
    case True
    then have "organize_loop (slot p j) (slot p (Suc j)) p = Some (p\<lparr>ram_manager := ram_manager p\<rparr>)"
      by (subst organize_loop.simps) (simp add: nx)
    with True Suc.prems show ?thesis by (intro exI [of _ "ram_manager p"]) auto
  next
    case False
    with Suc.prems(2,3) have j: "Suc j < n" "Suc j < 15" by auto
    have "slot p (Suc j) \<noteq> slot p n"
      using j Suc.prems(3) slot_inj [of "Suc j" n p] slot_inj [of "Suc j" 0 p] slot_wrap [of p 0]
      by (cases "n = 15") auto
    then have neq: "int (slot p (Suc j)) \<noteq> uint (fifoIndexNext p)" by (simp add: nx)
    let ?r = "ram_manager p"
    let ?r2 = "?r[slot p j := ?r ! slot p (Suc j),
      slot p (Suc j) := (?r ! slot p (Suc j))\<lparr>pg_state := NOT_USED\<rparr>]"
    let ?p = "p\<lparr>ram_manager := ?r2\<rparr>"
    have sj: "slot p j \<noteq> slot p (Suc j)" using j slot_inj [of j "Suc j" p] by simp
    have nxt: "(slot p (Suc j) + 1) mod MAX_PSYC_PAGES = slot p (Suc (Suc j))"
      by (simp add: slot_def MAX_PSYC_PAGES_def mod_simps)
    have step: "organize_loop (slot p j) (slot p (Suc j)) p =
        organize_loop (slot p (Suc j)) (slot p (Suc (Suc j))) ?p"
      using neq Suc.prems(5) Suc.prems(6) [of "Suc j"] j sj nxt
      by (subst organize_loop.simps) (simp add: Let_def)
    have sl: "slot ?p k = slot p k" for k by (simp add: slot_def)
    have r2: "?r2 ! slot p k = (if k = j then ?r ! slot p (Suc j)
        else if k = Suc j then (?r ! slot p (Suc j))\<lparr>pg_state := NOT_USED\<rparr> else ?r ! slot p k)" if "k < 15" for k
      using that j sj Suc.prems(1) by (simp add: nth_list_update slot_inj)
    have d: "d = n - Suc j" using Suc.hyps(2) by simp
    obtain r where r: "organize_loop (slot p (Suc j)) (slot p (Suc (Suc j))) ?p =
        Some (p\<lparr>ram_manager := r\<rparr>)" "length r = 15" "pg_state (r ! slot p (n - 1)) = NOT_USED"
      "\<forall>k < 15. k \<noteq> n - 1 \<longrightarrow> r ! slot p k = ?r2 ! slot p (if Suc j \<le> k \<and> k < n then Suc k else k)"
      using Suc.hyps(1) [OF d, of ?p] Suc.prems j by (auto simp: sl r2)
    have "r ! slot p k = ?r ! slot p (if j \<le> k \<and> k < n then Suc k else k)" if "k < 15" "k \<noteq> n - 1" for k
      using r(4) that j Suc.prems(3) by (auto simp: r2)
    with r step show ?thesis by auto
  qed
qed simp

lemma delete_ring:
  assumes ok: "ring_ok p" and k: "k < unat (page_mem_count p)"
  shows "\<exists>p'. deletePageFromRAM (slot p k) True p = Inr p' \<and> ring_ok p' \<and>
    ramq p' = take k (ramq p) @ drop (Suc k) (ramq p) \<and> file_manager p' = file_manager p"
proof -
  let ?n = "unat (page_mem_count p)"
  let ?r = "ram_manager p"
  note d = ring_okD [OF ok]
  define p2 where "p2 = p\<lparr>ram_manager := ?r[slot p k := (?r ! slot p k)\<lparr>pg_state := NOT_USED\<rparr>],
    page_mem_count := page_mem_count p - 1\<rparr>"
  have sl2: "slot p2 i = slot p i" for i by (simp add: p2_def slot_def)
  have k15: "k < 15" using k d(3) by simp
  have r2: "ram_manager p2 ! slot p i = (if i = k then (?r ! slot p k)\<lparr>pg_state := NOT_USED\<rparr> else ?r ! slot p i)"
    if "i < 15" for i using that k15 d(1) by (simp add: p2_def nth_list_update slot_inj)
  have used: "pg_state (ram_manager p2 ! slot p2 i) = USED" if "k < i" "i < ?n" for i
    using that d(3) d(5) [of i] by (simp add: sl2 r2)
  have gap: "pg_state (ram_manager p2 ! slot p2 k) = NOT_USED" using k15 by (simp add: sl2 r2)
  have len: "length (ram_manager p2) = 15" and nx: "unat (fifoIndexNext p2) = slot p2 ?n"
    using d(1,4) by (simp_all add: sl2) (simp_all add: p2_def)
  obtain r where org: "organize_loop (slot p k) (slot p (Suc k)) p2 = Some (p2\<lparr>ram_manager := r\<rparr>)"
    and lr: "length r = 15" and last: "pg_state (r ! slot p (?n - 1)) = NOT_USED"
    and r: "\<forall>i < 15. i \<noteq> ?n - 1 \<longrightarrow> r ! slot p i = ram_manager p2 ! slot p (if k \<le> i \<and> i < ?n then Suc i else i)"
    using organize_ring [OF len k d(3) nx gap used] by (auto simp: sl2)
  define p' where "p' = updateFIFONextFreePageIndex (p2\<lparr>ram_manager := r\<rparr>)"
  have "(slot p k + 1) mod MAX_PSYC_PAGES = slot p (Suc k)"
    by (simp add: slot_def MAX_PSYC_PAGES_def mod_simps)
  then have "deletePageFromRAM (slot p k) True p = Inr p'"
    using org by (simp add: deletePageFromRAM_def organizeFIFORAMqueue_def p'_def p2_def Let_def)
  moreover have cnt: "unat (page_mem_count p') = ?n - 1"
  proof -
    have "1 \<le> page_mem_count p" using k by (simp add: word_le_nat_alt)
    then show ?thesis using unat_sub_small [of 1 "page_mem_count p"]
      by (simp add: p'_def p2_def updateFIFONextFreePageIndex_def)
  qed
  have sl: "slot p' i = slot p i" for i
    by (simp add: p'_def p2_def updateFIFONextFreePageIndex_def slot_def)
  have ram: "ram_manager p' = r" by (simp add: p'_def updateFIFONextFreePageIndex_def)
  have "ramq p' = take k (ramq p) @ drop (Suc k) (ramq p)"
  proof (rule ramqI)
    show "unat (page_mem_count p') = length (take k (ramq p) @ drop (Suc k) (ramq p))"
      using cnt k by simp
    show "ram_manager p' ! slot p' i = (take k (ramq p) @ drop (Suc k) (ramq p)) ! i"
      if "i < length (take k (ramq p) @ drop (Suc k) (ramq p))" for i
    proof -
      have i: "i < ?n - 1" "i < 15" "Suc i < 15 \<or> Suc i < ?n" using that k d(3) by auto
      then have "r ! slot p i = ?r ! slot p (if k \<le> i then Suc i else i)"
        using r d(3) by (auto simp: r2)
      then show ?thesis unfolding ram sl using i k by (auto simp: nth_append ramq_nth)
    qed
  qed
  moreover have "ring_ok p'"
  proof -
    have "unat (fifoIndexNext p') = slot p' (?n - 1)"
      using cnt d(2,3) unat_ring_add [of "fifoIndexStart p" "page_mem_count p'"]
      by (simp add: p'_def p2_def updateFIFONextFreePageIndex_def slot_def)
    moreover have "pg_state (r ! slot p i) = USED \<longleftrightarrow> i < ?n - 1" if "i < 15" for i
    proof (cases "i = ?n - 1")
      case False
      with r that have "r ! slot p i = ram_manager p2 ! slot p (if k \<le> i \<and> i < ?n then Suc i else i)" by blast
      with False that d(3) k show ?thesis using d(5) [of i] d(5) [of "Suc i"]
        by (cases "k \<le> i \<and> i < ?n") (auto simp: r2)
    qed (use last in simp)
    ultimately show ?thesis using lr d(2,3) unfolding ring_ok_def cnt ram sl
      by (auto simp: p'_def p2_def updateFIFONextFreePageIndex_def)
  qed
  ultimately show ?thesis by (auto simp: p'_def p2_def updateFIFONextFreePageIndex_def)
qed

lemma slot_surj:
  assumes "unat (fifoIndexStart p) < 15" "i < 15"
  shows "\<exists>k < 15. slot p k = i"
proof (intro exI conjI)
  show "(i + 15 - unat (fifoIndexStart p)) mod 15 < 15" by simp
  have "unat (fifoIndexStart p) + (i + 15 - unat (fifoIndexStart p)) = i + 15" using assms(1) by simp
  then show "slot p ((i + 15 - unat (fifoIndexStart p)) mod 15) = i"
    unfolding slot_def using assms(2) by (simp add: mod_simps)
qed

abbreviation is_page :: "uint \<Rightarrow> uint \<Rightarrow> page_t \<Rightarrow> bool" where
  "is_page va pd g \<equiv> pg_vAddr g = va \<and> pg_pgdir g = pd"

lemma filter_remove_nth:
  assumes "k < length xs" "P (xs ! k)" "\<And>i. i < length xs \<Longrightarrow> P (xs ! i) \<Longrightarrow> i = k"
  shows "filter (\<lambda>x. \<not> P x) xs = take k xs @ drop (Suc k) xs"
proof -
  have "filter (\<lambda>x. \<not> P x) (take k xs) = take k xs"
  proof (rule filter_True, rule ballI)
    fix x assume "x \<in> set (take k xs)"
    then obtain j where "j < k" "x = xs ! j" by (auto simp: in_set_conv_nth)
    then show "\<not> P x" using assms(1) assms(3) [of j] by auto
  qed
  moreover have "filter (\<lambda>x. \<not> P x) (drop (Suc k) xs) = drop (Suc k) xs"
  proof (rule filter_True, rule ballI)
    fix x assume "x \<in> set (drop (Suc k) xs)"
    then obtain j where "j < length xs - Suc k" "x = xs ! (Suc k + j)" by (auto simp: in_set_conv_nth)
    moreover from this have "Suc k + j < length xs" by simp
    ultimately show "\<not> P x" using assms(3) [of "Suc k + j"] by auto
  qed
  ultimately show ?thesis using id_take_nth_drop [OF assms(1)] assms(2)
    by (metis filter.simps(2) filter_append)
qed

lemma remove_ring:
  assumes ok: "ring_ok p" and dis: "distinct (map (\<lambda>g. (pg_vAddr g, pg_pgdir g)) (ramq p))"
  shows "\<exists>p'. removePageFromRAM va pd p = Inr p' \<and> ring_ok p' \<and>
    ramq p' = filter (\<lambda>g. \<not> is_page va pd g) (ramq p) \<and> file_manager p' = file_manager p"
proof (cases "first_index (\<lambda>g. pg_state g = USED \<and> is_page va pd g) (ram_manager p)")
  case None
  note d = ring_okD [OF ok]
  have "\<not> is_page va pd (ramq p ! k)" if "k < unat (page_mem_count p)" for k
  proof -
    have "k < 15" using that d(3) by simp
    moreover from this have "ram_manager p ! slot p k \<in> set (ram_manager p)" using d(1) by simp
    ultimately show ?thesis using None that d(5) [of k] by (auto simp: ramq_nth)
  qed
  then have "\<forall>g \<in> set (ramq p). \<not> is_page va pd g" by (metis in_set_conv_nth length_ramq)
  then have "filter (\<lambda>g. \<not> is_page va pd g) (ramq p) = ramq p" by (rule filter_True)
  moreover have "removePageFromRAM va pd p = Inr p" unfolding removePageFromRAM_def None by simp
  ultimately show ?thesis using ok by auto
next
  case (Some i)
  note d = ring_okD [OF ok]
  have i: "i < 15" "pg_state (ram_manager p ! i) = USED" "is_page va pd (ram_manager p ! i)"
    using first_index_SomeD [OF Some] d(1) by auto
  obtain k where k: "k < 15" "slot p k = i" using slot_surj [OF d(2) i(1)] by blast
  then have kn: "k < unat (page_mem_count p)" using d(5) i(2) by blast
  have uniq: "j = k" if "j < length (ramq p)" "is_page va pd (ramq p ! j)" for j
  proof -
    have "is_page va pd (ramq p ! k)" using kn i(3) k(2) by (simp add: ramq_nth)
    with that kn show ?thesis using nth_eq_iff_index_eq [OF dis, of j k] by simp
  qed
  have "is_page va pd (ramq p ! k)" "k < length (ramq p)" using kn i(3) k(2) by (simp_all add: ramq_nth)
  then have "filter (\<lambda>g. \<not> is_page va pd g) (ramq p) = take k (ramq p) @ drop (Suc k) (ramq p)"
    using uniq by (intro filter_remove_nth [where P = "is_page va pd"]) blast+
  moreover have "removePageFromRAM va pd p = deletePageFromRAM (slot p k) True p"
    unfolding removePageFromRAM_def Some k(2) by simp
  ultimately show ?thesis using delete_ring [OF ok kn] by auto
qed

section \<open>The interface\<close>

text \<open>
  What paging relies on: a bounded queue of resident pages to which a page is added, in which a page
  takes the place of the oldest, and from which a page is taken wherever it is.
\<close>

locale page_queue =
  fixes q :: "'s \<Rightarrow> page_t list" and inv :: "'s \<Rightarrow> bool" and cap :: nat
    and full :: "'s \<Rightarrow> bool" and ins rep :: "uint \<Rightarrow> uint \<Rightarrow> 's \<Rightarrow> 's kres"
  assumes full_law: "inv s \<Longrightarrow> full s \<longleftrightarrow> length (q s) = cap" and le_cap: "inv s \<Longrightarrow> length (q s) \<le> cap"
    and ins_law: "inv s \<Longrightarrow> length (q s) < cap \<Longrightarrow> \<exists>s'. ins pd va s = Inr s' \<and> inv s' \<and>
      q s' = q s @ [\<lparr>pg_state = USED, pg_pgdir = pd, pg_vAddr = va\<rparr>]"
    and rep_law: "inv s \<Longrightarrow> length (q s) = cap \<Longrightarrow> \<exists>s'. rep pd va s = Inr s' \<and> inv s' \<and>
      q s' = tl (q s) @ [\<lparr>pg_state = USED, pg_pgdir = pd, pg_vAddr = va\<rparr>]"
    and cap_pos: "0 < cap"
begin

definition admit :: "uint \<Rightarrow> uint \<Rightarrow> 's \<Rightarrow> 's kres" where
  "admit pd va s = (if \<not> full s then ins pd va s else rep pd va s)"

lemma admit_ok:
  assumes "inv s"
  shows "\<exists>s'. admit pd va s = Inr s' \<and> inv s' \<and> (let xs = q s @ [\<lparr>pg_state = USED, pg_pgdir = pd, pg_vAddr = va\<rparr>]
    in q s' = drop (length xs - cap) xs)"
proof (cases "full s")
  case True
  then have len: "length (q s) = cap" using full_law assms by blast
  then obtain s' where s': "rep pd va s = Inr s'" "inv s'"
    "q s' = tl (q s) @ [\<lparr>pg_state = USED, pg_pgdir = pd, pg_vAddr = va\<rparr>]"
    using rep_law assms by blast
  have "tl (q s) @ [x] = drop (Suc (length (q s)) - cap) (q s @ [x])" for x
    using len cap_pos by (simp add: drop_Suc)
  with True s' show ?thesis by (simp add: admit_def Let_def)
next
  case False
  then have "length (q s) < cap" using full_law le_cap assms by fastforce
  with ins_law [OF assms] False show ?thesis by (fastforce simp: admit_def Let_def)
qed

fun admit_all :: "uint \<Rightarrow> uint list \<Rightarrow> 's \<Rightarrow> 's kres" where
  "admit_all pd [] s = Inr s"
| "admit_all pd (va # vas) s = kbind (admit pd va s) (admit_all pd vas)"

lemma drop_window:
  "drop (length (drop (length xs - c) xs @ ys) - c) (drop (length xs - c) xs @ ys) =
   drop (length (xs @ ys) - c) (xs @ ys)"
  by (cases "length xs \<le> c") (auto simp: add.commute)

lemma admit_all_ok:
  assumes "inv s"
  shows "\<exists>s'. admit_all pd vas s = Inr s' \<and> inv s' \<and>
    (let xs = q s @ map (\<lambda>va. \<lparr>pg_state = USED, pg_pgdir = pd, pg_vAddr = va\<rparr>) vas
     in q s' = drop (length xs - cap) xs)"
  using assms
proof (induction vas arbitrary: s)
  case Nil
  then show ?case using le_cap [of s] by simp
next
  case (Cons va vas)
  let ?g = "\<lambda>va. \<lparr>pg_state = USED, pg_pgdir = pd, pg_vAddr = va\<rparr>"
  obtain s1 where s1: "admit pd va s = Inr s1" "inv s1"
    "q s1 = drop (length (q s @ [?g va]) - cap) (q s @ [?g va])"
    using admit_ok [OF Cons.prems, of pd va] by (auto simp: Let_def)
  obtain s' where s': "admit_all pd vas s1 = Inr s'" "inv s'"
    "q s' = drop (length (q s1 @ map ?g vas) - cap) (q s1 @ map ?g vas)"
    using Cons.IH [OF s1(2)] by (auto simp: Let_def)
  have "q s' = drop (length (q s @ map ?g (va # vas)) - cap) (q s @ map ?g (va # vas))"
    using s'(3) drop_window [of "q s @ [?g va]" cap "map ?g vas"] unfolding s1(3) by simp
  with s1 s' show ?case by (simp add: Let_def)
qed

end

interpretation ring: page_queue ramq ring_ok 15 isFIFOfull insertPageToRAM replaceOldest
proof unfold_locales
  fix p pd va
  assume ok: "ring_ok p"
  show "isFIFOfull p \<longleftrightarrow> length (ramq p) = 15" by (simp add: full_iff)
  show "length (ramq p) \<le> 15" using ring_okD(3) [OF ok] by simp
  show "\<exists>p'. insertPageToRAM pd va p = Inr p' \<and> ring_ok p' \<and>
      ramq p' = ramq p @ [\<lparr>pg_state = USED, pg_pgdir = pd, pg_vAddr = va\<rparr>]" if "length (ramq p) < 15"
    using insert_ring [OF ok] that by auto
  show "\<exists>p'. replaceOldest pd va p = Inr p' \<and> ring_ok p' \<and>
      ramq p' = tl (ramq p) @ [\<lparr>pg_state = USED, pg_pgdir = pd, pg_vAddr = va\<rparr>]" if "length (ramq p) = 15"
    using replace_ring [OF ok] that by auto
qed simp

section \<open>Properties\<close>

text \<open>
  C26. The ring of resident pages is a queue: with the wrap-around of head and tail hidden by the
  abstraction, insertion appends a page, deletion of any page (with the loop that closes the gap,
  which ends) removes exactly that page and keeps the order of the others, and the eviction steps of
  \<open>swap_out\<close> on a full ring drop the oldest page and append the new one; all keep the ring well formed.
\<close>

theorem ring_refines_queue:
  assumes "ring_ok p"
  shows "(length (ramq p) < 15 \<longrightarrow> (\<exists>p'. insertPageToRAM pd va p = Inr p' \<and> ring_ok p' \<and>
      ramq p' = ramq p @ [\<lparr>pg_state = USED, pg_pgdir = pd, pg_vAddr = va\<rparr>])) \<and>
    (k < length (ramq p) \<longrightarrow> (\<exists>p'. deletePageFromRAM (slot p k) True p = Inr p' \<and> ring_ok p' \<and>
      ramq p' = take k (ramq p) @ drop (Suc k) (ramq p))) \<and>
    (length (ramq p) = 15 \<longrightarrow>
      (\<exists>p'. kbind (deletePageFromRAM (nat (nextSwapPageIndexInRAM p)) False p) (\<lambda>p1.
          kbind (insertPageToRAM pd va p1) (\<lambda>p2. Inr (shiftFIFOIndex p2))) = Inr p' \<and> ring_ok p' \<and>
        ramq p' = tl (ramq p) @ [\<lparr>pg_state = USED, pg_pgdir = pd, pg_vAddr = va\<rparr>]))"
  using ring.ins_law [OF assms, of pd va] delete_ring [OF assms, of k]
    ring.rep_law [OF assms, of pd va] unfolding replaceOldest_def by auto

text \<open>A ring of three pages whose head is slot 13, so that it wraps.\<close>

definition page_at :: "uint \<Rightarrow> page_t" where
  "page_at va = \<lparr>pg_state = USED, pg_pgdir = 0x80400000, pg_vAddr = va\<rparr>"

definition wrapped :: proc where
  "wrapped = (\<lparr>sz = 0, pgdir = 0x80400000, kstack = 0, pstate = RUNNING, pid = 3, parent = None,
     tf = zero_tf, pchan = NoChan, killed = False, ofile = [], cwd = None, pname = [], swapFile = None,
     file_manager = replicate 15 \<lparr>pg_state = NOT_USED, pg_pgdir = 0, pg_vAddr = 0\<rparr>,
     ram_manager = (replicate 15 \<lparr>pg_state = NOT_USED, pg_pgdir = 0, pg_vAddr = 0\<rparr>)
       [13 := page_at 0x1000, 14 := page_at 0x2000, 0 := page_at 0x3000],
     page_mem_count = 3, paged_out_count = 0, page_fault_count = 0,
     fifoIndexStart = 13, fifoIndexNext = 1\<rparr>)"

lemma less_15: "(k :: nat) < 15 \<longleftrightarrow> k = 0 \<or> k = 1 \<or> k = 2 \<or> k = 3 \<or> k = 4 \<or> k = 5 \<or> k = 6 \<or> k = 7 \<or>
   k = 8 \<or> k = 9 \<or> k = 10 \<or> k = 11 \<or> k = 12 \<or> k = 13 \<or> k = 14"
  by presburger

lemma wrapped_ok: "ring_ok wrapped" and wrapped_q: "ramq wrapped = [page_at 0x1000, page_at 0x2000, page_at 0x3000]"
proof -
  show "ring_ok wrapped" unfolding ring_ok_def
    by (auto simp: wrapped_def slot_def less_15 page_at_def)
  show "ramq wrapped = [page_at 0x1000, page_at 0x2000, page_at 0x3000]"
    by (simp add: ramq_def wrapped_def slot_def upt_conv_Cons)
qed

theorem ring_refines_queue_witness:
  "\<exists>p'. deletePageFromRAM 14 True wrapped = Inr p' \<and> ring_ok p' \<and>
     ramq p' = [page_at 0x1000, page_at 0x3000]"
proof -
  have "slot wrapped 1 = 14" by (simp add: wrapped_def slot_def)
  then show ?thesis using ring_refines_queue [OF wrapped_ok, of 0 0 1] by (simp add: wrapped_q)
qed

text \<open>
  Which pages stay in memory when a process touches new ones: admitting pages one after the other
  the way \<open>allocuvm\<close> does (insert while there is room, else evict) never fails, and the resident pages
  are then the youngest fifteen of the old ones followed by the new ones, in that order.
\<close>

theorem eviction_is_fifo:
  assumes "ring_ok p" "xs = ramq p @ map (\<lambda>va. \<lparr>pg_state = USED, pg_pgdir = pd, pg_vAddr = va\<rparr>) vas"
  shows "\<exists>p'. foldl (\<lambda>r va. kbind r (\<lambda>p. if \<not> isFIFOfull p then insertPageToRAM pd va p
        else replaceOldest pd va p)) (Inr p) vas = Inr p' \<and>
    ring_ok p' \<and> ramq p' = drop (length xs - 15) xs"
proof -
  have fold: "foldl (\<lambda>r va. kbind r (\<lambda>p. if \<not> isFIFOfull p then insertPageToRAM pd va p
      else replaceOldest pd va p)) r vas = kbind r (ring.admit_all pd vas)" for r
  proof (induction vas arbitrary: r)
    case Nil
    then show ?case by (cases r) auto
  next
    case (Cons va vas)
    then show ?case by (simp add: ring.admit_def kbind_assoc)
  qed
  show ?thesis unfolding fold using ring.admit_all_ok [OF assms(1), of pd vas] assms(2)
    by (auto simp: Let_def)
qed

theorem eviction_is_fifo_witness:
  "\<exists>p'. foldl (\<lambda>r va. kbind r (\<lambda>p. if \<not> isFIFOfull p then insertPageToRAM 0x80400000 va p
        else replaceOldest 0x80400000 va p)) (Inr wrapped) (replicate 13 0x5000) = Inr p' \<and>
    ring_ok p' \<and> hd (ramq p') = page_at 0x2000"
  using eviction_is_fifo [OF wrapped_ok refl, of "0x80400000" "replicate 13 0x5000"]
  by (auto simp: wrapped_q)

text \<open>
  Freeing a page of a process takes it out of its ring: on a ring without duplicates
  \<open>removePageFromRAM\<close> ends, removes exactly the page with that address and page directory (none when
  it is not resident) and keeps the order of the rest.
\<close>

theorem removePageFromRAM_filters:
  assumes "ring_ok p" "distinct (map (\<lambda>g. (pg_vAddr g, pg_pgdir g)) (ramq p))"
  shows "\<exists>p'. removePageFromRAM va pd p = Inr p' \<and> ring_ok p' \<and>
    ramq p' = filter (\<lambda>g. \<not> (pg_vAddr g = va \<and> pg_pgdir g = pd)) (ramq p)"
  using remove_ring [OF assms] by blast

theorem removePageFromRAM_filters_witness:
  "\<exists>p'. removePageFromRAM 0x2000 0x80400000 wrapped = Inr p' \<and> ramq p' = [page_at 0x1000, page_at 0x3000]"
  using removePageFromRAM_filters [OF wrapped_ok, of "0x2000" "0x80400000"]
  by (auto simp: wrapped_q) (auto simp: page_at_def)

end
