(* ===== verification/Paging.thy ===== *)
theory Paging
  imports Kalloc Fifo
begin

text \<open>
  Page tables, from \<^verbatim>\<open>vm.c\<close> and \<^verbatim>\<open>mmu.h\<close>: the two-level tables lie in the byte memory, an
  entry is the word at its address, and a table page comes from \<open>kalloc\<close>. The lemmas show what
  mapping a page does to the translation of every address. \<open>kdata\<close> is the linker's symbol
  \<^verbatim>\<open>data\<close>, \<open>cr3\<close> the hardware register.
\<close>

section \<open>Entries\<close>

definition PTE_P :: uint where "PTE_P = 0x001"
definition PTE_W :: uint where "PTE_W = 0x002"
definition PTE_U :: uint where "PTE_U = 0x004"
definition PTE_PG :: uint where "PTE_PG = 0x200"

definition PDX :: "uint \<Rightarrow> uint" where "PDX va = drop_bit 22 va AND 0x3FF"
definition PTX :: "uint \<Rightarrow> uint" where "PTX va = drop_bit 12 va AND 0x3FF"
definition PGADDR :: "uint \<Rightarrow> uint \<Rightarrow> uint \<Rightarrow> uint" where
  "PGADDR d t o' = push_bit 22 d OR push_bit 12 t OR o'"
definition PTE_ADDR :: "uint \<Rightarrow> uint" where "PTE_ADDR pte = pte AND NOT 0xFFF"
definition PTE_FLAGS :: "uint \<Rightarrow> uint" where "PTE_FLAGS pte = pte AND 0xFFF"

lemmas pte_flags = PTE_P_def PTE_W_def PTE_U_def PTE_PG_def

record kvm = kmem +
  kdata :: uint
  kpgdir :: uint
  cr3 :: uint
  vm_buff :: "uchar list"
  swapdata :: "nat \<Rightarrow> uchar list"

definition poke :: "uint \<Rightarrow> uint \<Rightarrow> 'a kmem_scheme \<Rightarrow> 'a kmem_scheme" where
  "poke a x s = s\<lparr>mem := store32 (mem s) a x\<rparr>"

abbreviation peek :: "'a kmem_scheme \<Rightarrow> uint \<Rightarrow> uint" where
  "peek s a \<equiv> load32 (mem s) a"

section \<open>Walking and mapping\<close>

text \<open>The address of the entry for \<open>va\<close>, 0 when there is no table page and none can be made.\<close>

definition walkpgdir :: "uint \<Rightarrow> uint \<Rightarrow> bool \<Rightarrow> 'a kmem_scheme \<Rightarrow> (uint \<times> 'a kmem_scheme) kres" where
  "walkpgdir pd va alloc s =
     (let pde = pd + 4 * PDX va
      in if peek s pde AND PTE_P \<noteq> 0
         then Inr (P2V (PTE_ADDR (peek s pde)) + 4 * PTX va, s)
         else if \<not> alloc then Inr (0, s)
         else kbind (kalloc s) (\<lambda>(pgtab, s1).
           if pgtab = 0 then Inr (0, s1)
           else let s2 = s1\<lparr>mem := memset (mem s1) pgtab 0 PGSIZE\<rparr>
             in Inr (pgtab + 4 * PTX va, poke pde (V2P pgtab OR PTE_P OR PTE_W OR PTE_U) s2)))"

text \<open>
  The loop of \<open>mappages\<close> runs from the first page to the last one; \<open>n\<close> is the number of pages after
  the current one, so the test \<open>a == last\<close> of the code is \<open>n = 0\<close>.
\<close>

fun mappages_loop :: "nat \<Rightarrow> uint \<Rightarrow> uint \<Rightarrow> uint \<Rightarrow> uint \<Rightarrow> 'a kmem_scheme \<Rightarrow> (int \<times> 'a kmem_scheme) kres"
  where
  "mappages_loop n pd a pa perm s =
     kbind (walkpgdir pd a True s) (\<lambda>(pte, s1).
       if pte = 0 then Inr (-1, s1)
       else if peek s1 pte AND PTE_P \<noteq> 0 then Inl (Panic ''remap'')
       else let s2 = poke pte (pa OR perm OR PTE_P) s1
         in case n of
              0 \<Rightarrow> Inr (0, s2)
            | Suc m \<Rightarrow> mappages_loop m pd (a + PGSIZE) (pa + PGSIZE) perm s2)"

declare mappages_loop.simps [simp del]

definition mappages :: "uint \<Rightarrow> uint \<Rightarrow> uint \<Rightarrow> uint \<Rightarrow> uint \<Rightarrow> 'a kmem_scheme \<Rightarrow> (int \<times> 'a kmem_scheme) kres"
  where
  "mappages pd va len pa perm s =
     (let a = PGROUNDDOWN va; last = PGROUNDDOWN (va + len - 1)
      in mappages_loop (unat ((last - a) div PGSIZE)) pd a pa perm s)"

definition clearpteu :: "uint \<Rightarrow> uint \<Rightarrow> 'a kmem_scheme \<Rightarrow> 'a kmem_scheme kres" where
  "clearpteu pd uva s =
     kbind (walkpgdir pd uva False s) (\<lambda>(pte, s1).
       if pte = 0 then Inl (Panic ''clearpteu'')
       else Inr (poke pte (peek s1 pte AND NOT PTE_U) s1))"

text \<open>A null entry pointer is dereferenced without a test: address 0 is no kernel address.\<close>

definition uva2ka :: "uint \<Rightarrow> uint \<Rightarrow> 'a kmem_scheme \<Rightarrow> uint kres" where
  "uva2ka pd uva s =
     kbind (walkpgdir pd uva False s) (\<lambda>(pte, s1).
       if pte = 0 then Inl (Undefined ''uva2ka: null pte'')
       else if peek s1 pte AND PTE_P = 0 then Inr 0
       else if peek s1 pte AND PTE_U = 0 then Inr 0
       else Inr (P2V (PTE_ADDR (peek s1 pte))))"

text \<open>\<open>copyout\<close> from a kernel buffer with the given bytes; each turn goes to the end of a page.\<close>

function copyout :: "uint \<Rightarrow> uint \<Rightarrow> uchar list \<Rightarrow> 'a kmem_scheme \<Rightarrow> (int \<times> 'a kmem_scheme) kres" where
  "copyout pd va buf s =
     (if buf = [] then Inr (0, s)
      else let va0 = PGROUNDDOWN va
        in kbind (uva2ka pd va0 s) (\<lambda>pa0.
             if pa0 = 0 then Inr (-1, s)
             else let n = min (4096 - unat (va - va0)) (length buf)
               in copyout pd (va0 + PGSIZE) (drop n buf)
                    (s\<lparr>mem := mem_write (mem s) (pa0 + (va - va0)) (take n buf)\<rparr>)))"
  by pat_completeness auto

lemma page_offset: "va - PGROUNDDOWN va = va AND 0xFFF"
proof -
  have "va = (va AND NOT 0xFFF) OR (va AND 0xFFF)" by (simp add: bit_eq_iff bit_simps) blast
  also have "\<dots> = (va AND NOT 0xFFF) + (va AND 0xFFF)"
    by (rule disjunctive_add [symmetric]) (auto simp: bit_simps)
  finally show ?thesis by (simp add: PGROUNDDOWN_def PGSIZE_def algebra_simps)
qed

lemma page_offset_less: "unat (va - PGROUNDDOWN va) < 4096"
proof -
  have "va AND 0xFFF = take_bit 12 va" by (simp add: take_bit_eq_mask mask_eq_exp_minus_1)
  then show ?thesis unfolding page_offset
    by (simp add: unsigned_take_bit_eq) (simp add: take_bit_eq_mod)
qed

termination copyout
proof (relation "measure (\<lambda>(_, _, buf, _). length buf)", goal_cases)
  case (2 pd va buf s va0 pa0 n)
  then show ?case using page_offset_less [of va] by simp
qed simp

declare copyout.simps [simp del]

section \<open>Words in pages\<close>

lemma block4_base:
  assumes "unat a mod 4 = 0" "unat (c - a :: uint) < 4"
  shows "unat a = 4 * (unat c div 4)"
proof -
  obtain k where k: "unat a = 4 * k" using assms(1) by (metis mod_0_imp_dvd dvdE)
  have "unat a < 4 * 1073741824" using uint_less_pow [of a] by simp
  then have "k < 1073741824" unfolding k by simp
  then have "unat a + unat (c - a) < 2 ^ 32" using assms(2) k by simp
  then have "unat c = unat a + unat (c - a)" using unat_add_small [of a "c - a"] by simp
  then show ?thesis using assms(2) k by simp
qed

lemma load32_store32_other:
  assumes "unat a mod 4 = 0" "unat b mod 4 = 0" "a \<noteq> b"
  shows "load32 (store32 m a x) b = load32 m b"
proof -
  have "store32 m a x (b + k) = m (b + k)" if "unat k < 4" for k
  proof -
    obtain j where j: "unat b = 4 * j" using assms(2) by (metis mod_0_imp_dvd dvdE)
    have "unat b < 4 * 1073741824" using uint_less_pow [of b] by simp
    then have "j < 1073741824" unfolding j by simp
    then have "unat b + unat k < 2 ^ 32" using that j by simp
    then have "unat (b + k) = unat b + unat k" by (rule unat_add_small)
    then have "4 * (unat (b + k) div 4) = unat b" using that j by simp
    then have "\<not> unat (b + k - a) < 4" using block4_base [OF assms(1), of "b + k"] assms(3)
      by (auto simp: word_unat_eq_iff)
    then show ?thesis by (simp add: store32_apply)
  qed
  from this [of 0] this [of 1] this [of 2] this [of 3] show ?thesis
    by (intro load32_cong) simp_all
qed

text \<open>The word with index \<open>i\<close> of an aligned page.\<close>

lemma ent_unat:
  assumes "p mod PGSIZE = 0" "unat i < 1024"
  shows "unat (p + 4 * i) = unat p + 4 * unat i"
proof -
  obtain k where k: "unat p = 4096 * k" using assms(1) unfolding aligned_unat by (metis mod_0_imp_dvd dvdE)
  have "unat p < 4096 * 1048576" using uint_less_pow [of p] by simp
  then have "k < 1048576" unfolding k by simp
  have i: "unat (4 * i) = 4 * unat i"
    using assms(2) unat_mult_lem [of 4 i, THEN iffD1] by simp
  have "unat p + unat (4 * i) < 2 ^ 32" using i assms(2) k \<open>k < 1048576\<close> by simp
  then show ?thesis using unat_add_small [of p "4 * i"] i by simp
qed

lemma ent_in_page: "p mod PGSIZE = 0 \<Longrightarrow> unat i < 1024 \<Longrightarrow> in_page p (p + 4 * i)"
proof -
  assume a: "p mod PGSIZE = 0" "unat i < 1024"
  have "unat (4 * i) = 4 * unat i" using a(2) unat_mult_lem [of 4 i, THEN iffD1] by simp
  with a(2) show ?thesis by simp
qed

lemma ent_mod4: "p mod PGSIZE = 0 \<Longrightarrow> unat i < 1024 \<Longrightarrow> unat (p + 4 * i) mod 4 = 0"
proof -
  assume a: "p mod PGSIZE = 0" "unat i < 1024"
  obtain k where "unat p = 4096 * k" using a(1) unfolding aligned_unat by (metis mod_0_imp_dvd dvdE)
  then have "unat p + 4 * unat i = 4 * (1024 * k + unat i)" by simp
  then show ?thesis unfolding ent_unat [OF a] by simp
qed

lemma ent_inj:
  assumes "p mod PGSIZE = 0" "q mod PGSIZE = 0" "unat i < 1024" "unat j < 1024"
  shows "p + 4 * i = q + 4 * j \<longleftrightarrow> p = q \<and> i = j"
proof
  assume eq: "p + 4 * i = q + 4 * j"
  have "in_page p (p + 4 * i)" "in_page q (p + 4 * i)"
    using ent_in_page [OF assms(1,3)] ent_in_page [OF assms(2,4)] unfolding eq by simp_all
  then have pq: "p = q" by (rule pages_disjoint [OF assms(1,2)])
  moreover have "unat p + 4 * unat i = unat q + 4 * unat j"
    using eq ent_unat [OF assms(1,3)] ent_unat [OF assms(2,4)] by simp
  ultimately show "p = q \<and> i = j" by (simp add: word_unat_eq_iff)
qed simp

lemma take10: "(x :: uint) AND 0x3FF = take_bit 10 x"
  by (simp add: take_bit_eq_mask mask_eq_exp_minus_1)

lemma unat_drop: "unat (drop_bit n (x :: uint)) = unat x div 2 ^ n"
  by (simp add: unat_drop_bit_eq flip: drop_bit_eq_div)

lemma PDX_unat: "unat (PDX va) = unat va div 4194304"
proof -
  have "unat va div 4194304 < 1024" using uint_less_pow [of va] by (simp add: less_mult_imp_div_less)
  then show ?thesis unfolding PDX_def take10 unsigned_take_bit_eq unat_drop
    by (simp add: take_bit_eq_mod)
qed

lemma PTX_unat: "unat (PTX va) = unat va div 4096 mod 1024"
  unfolding PTX_def take10 unsigned_take_bit_eq unat_drop by (simp add: take_bit_eq_mod)

lemma index_less [simp]: "unat (PDX va) < 1024" "unat (PTX va) < 1024"
proof -
  show "unat (PDX va) < 1024" unfolding PDX_unat using uint_less_pow [of va] by (simp add: less_mult_imp_div_less)
  show "unat (PTX va) < 1024" unfolding PTX_unat by simp
qed

section \<open>Translation\<close>

text \<open>
  The page of the table for \<open>va\<close>, the entry's address, and the entry; an entry without a table is 0,
  which maps nothing.
\<close>

definition table_of :: "uint \<Rightarrow> uint \<Rightarrow> 'a kmem_scheme \<Rightarrow> uint option" where
  "table_of pd i s = (if peek s (pd + 4 * i) AND PTE_P \<noteq> 0 then Some (P2V (PTE_ADDR (peek s (pd + 4 * i)))) else None)"

definition pte_of :: "uint \<Rightarrow> uint \<Rightarrow> 'a kmem_scheme \<Rightarrow> uint" where
  "pte_of pd va s = (case table_of pd (PDX va) s of None \<Rightarrow> 0 | Some t \<Rightarrow> peek s (t + 4 * PTX va))"

text \<open>
  A well-formed directory, against the list of free pages: its table pages are different from each
  other, from the directory and from every free page.
\<close>

definition pt_wf :: "uint \<Rightarrow> uint list \<Rightarrow> 'a kmem_scheme \<Rightarrow> bool" where
  "pt_wf pd xs s \<longleftrightarrow> pd mod PGSIZE = 0 \<and> pd \<noteq> 0 \<and> pd \<notin> set xs \<and>
     (\<forall>i t. unat i < 1024 \<and> table_of pd i s = Some t \<longrightarrow> t \<noteq> pd \<and> t \<noteq> 0 \<and> t \<notin> set xs) \<and>
     (\<forall>i j t. unat i < 1024 \<and> unat j < 1024 \<and> table_of pd i s = Some t \<and> table_of pd j s = Some t \<longrightarrow> i = j)"

lemma PTE_ADDR_aligned: "PTE_ADDR x mod PGSIZE = 0"
proof -
  have "take_bit 12 (x AND NOT (mask 12)) = 0" by (simp add: bit_eq_iff bit_simps)
  then have "(x AND NOT 0xFFF) mod 4096 = 0" by (simp add: take_bit_eq_mod mask_eq_exp_minus_1)
  then show ?thesis by (simp add: PTE_ADDR_def PGSIZE_def)
qed

lemma P2V_aligned: "a mod PGSIZE = 0 \<Longrightarrow> P2V a mod PGSIZE = 0"
proof -
  assume "a mod PGSIZE = 0"
  then obtain k where k: "a = 4096 * k" unfolding PGSIZE_def by (metis mod_0_imp_dvd dvdE)
  have "P2V a = push_bit 12 (k + 0x80000)" by (simp add: k P2V_def KERNBASE_def push_bit_eq_mult algebra_simps)
  then have "take_bit 12 (P2V a) = 0" by (simp add: take_bit_push_bit)
  then show ?thesis by (simp add: take_bit_eq_mod PGSIZE_def)
qed

lemma table_aligned: "table_of pd i s = Some t \<Longrightarrow> t mod PGSIZE = 0"
  by (auto simp: table_of_def P2V_aligned PTE_ADDR_aligned split: if_splits)

lemma pt_wfD:
  assumes "pt_wf pd xs s"
  shows "pd mod PGSIZE = 0" "pd \<noteq> 0" "pd \<notin> set xs"
    "unat i < 1024 \<Longrightarrow> table_of pd i s = Some t \<Longrightarrow> t \<noteq> pd \<and> t \<noteq> 0 \<and> t \<notin> set xs"
    "unat i < 1024 \<Longrightarrow> unat j < 1024 \<Longrightarrow> table_of pd i s = Some t \<Longrightarrow> table_of pd j s = Some t \<Longrightarrow> i = j"
  using assms unfolding pt_wf_def by blast+

text \<open>Writing the word \<open>i\<close> of a page that is not free leaves the free list, and every other word.\<close>

lemma load_store_ent:
  assumes "p mod PGSIZE = 0" "q mod PGSIZE = 0" "unat i < 1024" "unat j < 1024"
  shows "load32 (store32 m (p + 4 * i) v) (q + 4 * j) = (if p = q \<and> i = j then v else load32 m (q + 4 * j))"
proof (cases "p = q \<and> i = j")
  case False
  then have "p + 4 * i \<noteq> q + 4 * j" using ent_inj [OF assms] by simp
  then show ?thesis
    using load32_store32_other [OF ent_mod4 [OF assms(1,3)] ent_mod4 [OF assms(2,4)]] False by auto
qed auto

lemma peek_poke_ent:
  assumes "p mod PGSIZE = 0" "q mod PGSIZE = 0" "unat i < 1024" "unat j < 1024"
  shows "peek (poke (p + 4 * i) v s) (q + 4 * j) = (if p = q \<and> i = j then v else peek s (q + 4 * j))"
  using load_store_ent [OF assms] by (simp add: poke_def)

lemma ent_bytes:
  assumes "p mod PGSIZE = 0" "unat i < 1024" "\<not> in_page p b"
  shows "\<not> unat (b - (p + 4 * i)) < 4"
proof
  assume lt: "unat (b - (p + 4 * i)) < 4"
  have i: "unat (4 * i) = 4 * unat i" using assms(2) unat_mult_lem [of 4 i, THEN iffD1] by simp
  have "unat (4 * i) + unat (b - (p + 4 * i)) < 2 ^ 32" using i lt assms(2) by simp
  then have "unat (4 * i + (b - (p + 4 * i))) = unat (4 * i) + unat (b - (p + 4 * i))"
    by (rule unat_add_small)
  moreover have "4 * i + (b - (p + 4 * i)) = b - p" by simp
  ultimately have "unat (b - p) < 4096" using lt i assms(2) by simp
  with assms(3) show False by simp
qed

lemma kmem_ready_outside:
  assumes "kmem_ready xs s" "\<And>x b. x \<in> set xs \<Longrightarrow> in_page x b \<Longrightarrow> m b = mem s b"
  shows "kmem_ready xs (s\<lparr>mem := m\<rparr>)"
  using assms chain_cong [of xs m "mem s" "freelist s"]
  by (simp add: kmem_ready_def kmem_inv_def page_ok_def)

lemma ready_aligned: "kmem_ready xs s \<Longrightarrow> x \<in> set xs \<Longrightarrow> x mod PGSIZE = 0 \<and> x \<noteq> 0"
  unfolding kmem_ready_def kmem_inv_def page_ok_def by blast

lemma poke_ready:
  assumes "kmem_ready xs s" "p mod PGSIZE = 0" "p \<notin> set xs" "unat i < 1024"
  shows "kmem_ready xs (poke (p + 4 * i) v s)"
  unfolding poke_def
proof (rule kmem_ready_outside [OF assms(1)])
  fix x b
  assume x: "x \<in> set xs" "in_page x b"
  have al: "x mod PGSIZE = 0" and "x \<noteq> p" using ready_aligned [OF assms(1) x(1)] assms(3) x(1) by auto
  then have "\<not> in_page p b" using pages_disjoint [OF al assms(2) x(2)] by blast
  then show "store32 (mem s) (p + 4 * i) v b = mem s b"
    using ent_bytes [OF assms(2,4)] by (simp add: store32_apply)
qed

text \<open>Writing an entry of a table page changes the entry of that page of addresses and no other.\<close>

abbreviation same_page :: "uint \<Rightarrow> uint \<Rightarrow> bool" where
  "same_page va vb \<equiv> PDX va = PDX vb \<and> PTX va = PTX vb"

lemma poke_entry:
  fixes v :: uint
  assumes wf: "pt_wf pd xs s" and rd: "kmem_ready xs s" and t: "table_of pd (PDX va) s = Some t"
  defines "s' \<equiv> poke (t + 4 * PTX va) v s"
  shows "kmem_ready xs s'" "pt_wf pd xs s'"
    "pte_of pd vb s' = (if same_page vb va then v else pte_of pd vb s)"
proof -
  note d = pt_wfD [OF wf]
  have tt: "t mod PGSIZE = 0" "t \<noteq> pd" "t \<notin> set xs" using d(4) [OF index_less(1) t] table_aligned [OF t] by auto
  show "kmem_ready xs s'" unfolding s'_def using rd tt by (intro poke_ready) auto
  have pk: "peek s' (q + 4 * j) = (if t = q \<and> PTX va = j then v else peek s (q + 4 * j))"
    if "q mod PGSIZE = 0" "unat j < 1024" for q j
    unfolding s'_def using that tt(1) by (intro peek_poke_ent) auto
  have tab: "table_of pd j s' = table_of pd j s" if "unat j < 1024" for j
    using that d(1) tt(2) by (simp add: table_of_def pk)
  show "pt_wf pd xs s'" using wf unfolding pt_wf_def by (simp add: tab cong: conj_cong)
  show "pte_of pd vb s' = (if same_page vb va then v else pte_of pd vb s)"
  proof (cases "table_of pd (PDX vb) s")
    case None
    then show ?thesis using t by (auto simp: pte_of_def tab)
  next
    case (Some u)
    have "u = t \<longleftrightarrow> PDX vb = PDX va" using d(5) [OF index_less(1) index_less(1)] Some t by auto
    then show ?thesis using Some table_aligned [OF Some] by (auto simp: pte_of_def tab pk)
  qed
qed

text \<open>A fresh table page: the entries of its range of addresses become 0, which they were.\<close>

lemma peek_memset_ent:
  assumes "x mod PGSIZE = 0" "q mod PGSIZE = 0" "unat j < 1024"
  shows "load32 (memset m x 0 PGSIZE) (q + 4 * j) = (if q = x then 0 else load32 m (q + 4 * j))"
proof -
  have in4: "in_page q (q + 4 * j + k)" if "unat k < 4" for k
  proof -
    have "\<not> \<not> in_page q (q + 4 * j + k)"
    proof
      assume "\<not> in_page q (q + 4 * j + k)"
      from ent_bytes [OF assms(2,3) this] that show False by simp
    qed
    then show ?thesis by blast
  qed
  have byte: "memset m x 0 PGSIZE (q + 4 * j + k) = (if q = x then 0 else m (q + 4 * j + k))" if "unat k < 4" for k
    using in4 [OF that] pages_disjoint [OF assms(2,1) in4 [OF that]] by (auto simp: memset_apply PGSIZE_def)
  have b: "memset m x 0 PGSIZE (q + 4 * j) = (if q = x then 0 else m (q + 4 * j))" using byte [of 0] by simp
  show ?thesis using b byte [of 1] byte [of 2] byte [of 3] by (simp add: load32_def)
qed

lemma V2P_entry:
  assumes "x mod PGSIZE = 0"
  shows "PTE_ADDR (V2P x OR PTE_P OR PTE_W OR PTE_U) = V2P x" "(V2P x OR PTE_P OR PTE_W OR PTE_U) AND PTE_P \<noteq> 0"
proof -
  have "P2V (V2P x + 0) mod PGSIZE = 0" using assms by simp
  obtain k where k: "x = 4096 * k" using assms unfolding PGSIZE_def by (metis mod_0_imp_dvd dvdE)
  have x: "V2P x = push_bit 12 (k - 0x80000)" by (simp add: k V2P_def KERNBASE_def push_bit_eq_mult algebra_simps)
  have "(7 :: uint) = mask 3" by (simp add: mask_eq_exp_minus_1)
  then have f: "PTE_P OR PTE_W OR PTE_U = mask 3" by (simp add: pte_flags)
  have m: "(0xFFF :: uint) = mask 12" by (simp add: mask_eq_exp_minus_1)
  show "PTE_ADDR (V2P x OR PTE_P OR PTE_W OR PTE_U) = V2P x"
    unfolding PTE_ADDR_def m x or.assoc f by (rule bit_word_eqI) (auto simp: bit_simps)
  have "bit ((V2P x OR PTE_P OR PTE_W OR PTE_U) AND PTE_P) 0" by (simp add: bit_simps PTE_P_def)
  then show "(V2P x OR PTE_P OR PTE_W OR PTE_U) AND PTE_P \<noteq> 0" by (metis bit_0_eq bot_apply bot_bool_def)
qed

lemma fresh_table:
  assumes wf: "pt_wf pd (x # xs) s" and rd: "kmem_ready xs s" and x: "x mod PGSIZE = 0" "x \<noteq> 0" "x \<notin> set xs"
    and none: "table_of pd (PDX va) s = None"
  defines "s' \<equiv> poke (pd + 4 * PDX va) (V2P x OR PTE_P OR PTE_W OR PTE_U) (s\<lparr>mem := memset (mem s) x 0 PGSIZE\<rparr>)"
  shows "kmem_ready xs s'" "pt_wf pd xs s'" "table_of pd (PDX va) s' = Some x" "pte_of pd vb s' = pte_of pd vb s"
proof -
  note d = pt_wfD [OF wf]
  have px: "pd \<noteq> x" "pd \<notin> set xs" using d(3) by auto
  have "kmem_ready xs (s\<lparr>mem := memset (mem s) x 0 PGSIZE\<rparr>)"
  proof (rule kmem_ready_outside [OF rd])
    fix y b
    assume y: "y \<in> set xs" "in_page y b"
    have "\<not> in_page x b" using pages_disjoint [of y x b] ready_aligned [OF rd y(1)] x y by auto
    then show "memset (mem s) x 0 PGSIZE b = mem s b" by (simp add: memset_apply PGSIZE_def)
  qed
  then show "kmem_ready xs s'" unfolding s'_def using d(1) px(2) by (intro poke_ready) auto
  have pk: "peek s' (q + 4 * j) = (if pd = q \<and> PDX va = j then V2P x OR PTE_P OR PTE_W OR PTE_U
      else if q = x then 0 else peek s (q + 4 * j))" if "q mod PGSIZE = 0" "unat j < 1024" for q j
    unfolding s'_def using that d(1) x(1) by (simp add: peek_poke_ent peek_memset_ent)
  have tab: "table_of pd j s' = (if j = PDX va then Some x else table_of pd j s)" if "unat j < 1024" for j
    using that d(1) px(1) V2P_entry [OF x(1)] by (simp add: table_of_def pk)
  then show "table_of pd (PDX va) s' = Some x" by simp
  show "pt_wf pd xs s'" unfolding pt_wf_def
  proof (intro conjI allI impI)
    show "pd mod PGSIZE = 0" "pd \<noteq> 0" "pd \<notin> set xs" using d px by auto
    show "t \<noteq> pd" "t \<noteq> 0" "t \<notin> set xs" if "unat i < 1024 \<and> table_of pd i s' = Some t" for i t
      using that d(4) [of i t] x px by (auto simp: tab split: if_splits)
    show "i = j" if "unat i < 1024 \<and> unat j < 1024 \<and> table_of pd i s' = Some t \<and> table_of pd j s' = Some t" for i j t
      using that d(4) [of i x] d(4) [of j x] d(5) [of i j t] by (auto simp: tab split: if_splits)
  qed
  show "pte_of pd vb s' = pte_of pd vb s"
  proof (cases "table_of pd (PDX vb) s")
    case None
    have "peek s' (x + 4 * PTX vb) = 0" using pk [OF x(1), of "PTX vb"] px by simp
    with None show ?thesis by (simp add: pte_of_def tab)
  next
    case (Some u)
    then have "PDX vb \<noteq> PDX va" using none by auto
    moreover have "u \<noteq> x" "u \<noteq> pd" using d(4) [OF index_less(1) Some] by auto
    ultimately show ?thesis using Some table_aligned [OF Some] by (auto simp: pte_of_def tab pk)
  qed
qed

lemma walk_alloc:
  assumes wf: "pt_wf pd xs s" and rd: "kmem_ready xs s"
  shows "\<exists>e s' ys. walkpgdir pd va True s = Inr (e, s') \<and> kmem_ready ys s' \<and> pt_wf pd ys s' \<and>
    (\<forall>vb. pte_of pd vb s' = pte_of pd vb s) \<and>
    (if e = 0 then xs = [] \<and> ys = [] else \<exists>t. table_of pd (PDX va) s' = Some t \<and> e = t + 4 * PTX va)"
proof (cases "table_of pd (PDX va) s")
  case (Some t)
  have "t mod PGSIZE = 0" "t \<noteq> 0" using table_aligned [OF Some] pt_wfD(4) [OF wf index_less(1) Some] by auto
  then have "t + 4 * PTX va \<noteq> 0" using ent_unat [of t "PTX va"] by (auto simp: word_unat_eq_iff)
  moreover have "walkpgdir pd va True s = Inr (t + 4 * PTX va, s)"
    using Some by (auto simp: walkpgdir_def table_of_def split: if_splits)
  ultimately show ?thesis using assms Some by auto
next
  case None
  then have np: "\<not> (peek s (pd + 4 * PDX va) AND PTE_P \<noteq> 0)" by (auto simp: table_of_def split: if_splits)
  show ?thesis
  proof (cases xs)
    case Nil
    obtain s1 where s1: "kalloc s = Inr (0, s1)" "kmem_ready [] s1" "mem s1 = mem s"
      using rd kalloc_eq [of s] unfolding Nil kmem_ready_def kmem_inv_def by auto
    have "pte_of pd vb s1 = pte_of pd vb s" "table_of pd i s1 = table_of pd i s" for vb i
      using s1(3) by (simp_all add: pte_of_def table_of_def)
    moreover from this have "pt_wf pd [] s1" using wf Nil by (simp add: pt_wf_def)
    moreover have "walkpgdir pd va True s = Inr (0, s1)" using np s1(1) by (simp add: walkpgdir_def)
    ultimately show ?thesis using s1(2) Nil by auto
  next
    case (Cons x ys)
    obtain s1 where s1: "kalloc s = Inr (x, s1)" "kmem_ready ys s1" "mem s1 = mem s"
      using kalloc_inv [of x ys s] rd unfolding Cons by (auto simp: kmem_ready_def)
    have x: "x mod PGSIZE = 0" "x \<noteq> 0" "x \<notin> set ys"
      using ready_aligned [OF rd, of x] rd unfolding Cons by (auto simp: kmem_ready_def kmem_inv_def)
    have same: "pte_of pd vb s1 = pte_of pd vb s" "table_of pd i s1 = table_of pd i s" for vb i
      using s1(3) by (simp_all add: pte_of_def table_of_def)
    have wf1: "pt_wf pd (x # ys) s1" using wf unfolding Cons pt_wf_def same .
    note fresh = fresh_table [OF wf1 s1(2) x, of va, unfolded same, OF None]
    have "x + 4 * PTX va \<noteq> 0" using ent_unat [of x "PTX va"] x by (auto simp: word_unat_eq_iff)
    moreover have "walkpgdir pd va True s = Inr (x + 4 * PTX va,
        poke (pd + 4 * PDX va) (V2P x OR PTE_P OR PTE_W OR PTE_U) (s1\<lparr>mem := memset (mem s1) x 0 PGSIZE\<rparr>))"
      using np s1(1) x(2) by (simp add: walkpgdir_def Let_def)
    ultimately show ?thesis using fresh by auto
  qed
qed

lemma same_page_iff: "same_page va vb \<longleftrightarrow> unat va div 4096 = unat vb div 4096"
proof -
  have "unat x div 4194304 = unat x div 4096 div 1024" for x :: uint by (simp add: div_mult2_eq [symmetric])
  then show ?thesis unfolding word_unat_eq_iff [where 'a = 32] PDX_unat PTX_unat
    by (metis div_mult_mod_eq)
qed

text \<open>What the addresses map to after \<open>k\<close> pages from \<open>a\<close> on have been mapped to those from \<open>pa\<close> on.\<close>

definition mapped :: "nat \<Rightarrow> uint \<Rightarrow> uint \<Rightarrow> uint \<Rightarrow> (uint \<Rightarrow> uint) \<Rightarrow> uint \<Rightarrow> uint" where
  "mapped k a pa perm old vb = (if unat a \<le> unat vb \<and> unat vb < unat a + 4096 * k
     then (pa + of_nat ((unat vb - unat a) div 4096) * PGSIZE) OR perm OR PTE_P else old vb)"

lemma mapped_Suc:
  assumes "a mod PGSIZE = 0" "unat (a + PGSIZE) = unat a + 4096"
  shows "mapped k (a + PGSIZE) (pa + PGSIZE) perm (\<lambda>vb. if same_page vb a then pa OR perm OR PTE_P else old vb) vb =
    mapped (Suc k) a pa perm old vb"
proof -
  obtain j where j: "unat a = 4096 * j" using assms(1) unfolding aligned_unat by (metis mod_0_imp_dvd dvdE)
  consider "unat vb < unat a" | "unat a \<le> unat vb" "unat vb < unat a + 4096" | "unat a + 4096 \<le> unat vb"
    by linarith
  then show ?thesis
  proof cases
    case 1
    then have "unat vb div 4096 \<noteq> unat a div 4096" unfolding j by (simp add: div_less_iff_less_mult less_mult_imp_div_less)
    with 1 show ?thesis by (simp add: mapped_def assms(2) same_page_iff)
  next
    case 2
    then have "unat vb div 4096 = unat a div 4096" "(unat vb - unat a) div 4096 = 0"
      unfolding j by (simp_all add: div_nat_eqI)
    with 2 show ?thesis by (simp add: mapped_def assms(2) same_page_iff)
  next
    case 3
    then obtain d where d: "unat vb = unat a + 4096 + d" using le_Suc_ex by blast
    have "unat vb div 4096 \<noteq> unat a div 4096" unfolding d j by simp
    moreover have "(unat vb - unat a) div 4096 = Suc ((unat vb - (unat a + 4096)) div 4096)"
      unfolding d by simp
    ultimately show ?thesis using 3 by (simp add: mapped_def assms(2) same_page_iff distrib_right add.assoc)
  qed
qed

lemma map_one:
  assumes "pt_wf pd xs s" "kmem_ready xs s" "pte_of pd a s AND PTE_P = 0"
  shows "\<exists>e s1 ys. walkpgdir pd a True s = Inr (e, s1) \<and>
    (if e = 0 then ys = [] \<and> kmem_ready ys s1 \<and> pt_wf pd ys s1 \<and> (\<forall>vb. pte_of pd vb s1 = pte_of pd vb s)
     else peek s1 e AND PTE_P = 0 \<and> kmem_ready ys (poke e v s1) \<and> pt_wf pd ys (poke e v s1) \<and>
       (\<forall>vb. pte_of pd vb (poke e v s1) = (if same_page vb a then v else pte_of pd vb s)))"
proof -
  obtain e s1 ys where w: "walkpgdir pd a True s = Inr (e, s1)" "kmem_ready ys s1" "pt_wf pd ys s1"
    "\<forall>vb. pte_of pd vb s1 = pte_of pd vb s"
    "if e = 0 then xs = [] \<and> ys = [] else \<exists>t. table_of pd (PDX a) s1 = Some t \<and> e = t + 4 * PTX a"
    using walk_alloc [OF assms(1,2), of a] by auto
  show ?thesis
  proof (cases "e = 0")
    case True
    with w show ?thesis by (intro exI [of _ e] exI [of _ s1] exI [of _ "[]"]) simp
  next
    case False
    with w(5) obtain t where t: "table_of pd (PDX a) s1 = Some t" "e = t + 4 * PTX a" by auto
    have "peek s1 e = pte_of pd a s1" using t by (simp add: pte_of_def)
    then have "peek s1 e AND PTE_P = 0" using w(4) assms(3) by simp
    with False w(1,4) poke_entry [OF w(3,2) t(1), where v = v] t(2) show ?thesis
      by (intro exI [of _ e] exI [of _ s1] exI [of _ ys]) simp
  qed
qed

lemma mapped_0 [simp]: "mapped 0 a pa perm old = old"
  by (auto simp: mapped_def fun_eq_iff)

lemma div4096_iff: "(x :: nat) div 4096 = j \<longleftrightarrow> 4096 * j \<le> x \<and> x < 4096 * j + 4096"
proof
  assume "x div 4096 = j"
  then have "4096 * j + x mod 4096 = x" using mult_div_mod_eq [of 4096 x] by simp
  moreover have "x mod 4096 < 4096" by simp
  ultimately show "4096 * j \<le> x \<and> x < 4096 * j + 4096" by linarith
qed (simp add: div_nat_eqI)

lemma mapped_1:
  assumes "a mod PGSIZE = 0"
  shows "mapped (Suc 0) a pa perm old vb = (if same_page vb a then pa OR perm OR PTE_P else old vb)"
proof -
  obtain j where j: "unat a = 4096 * j" using assms unfolding aligned_unat by (metis mod_0_imp_dvd dvdE)
  have "unat vb div 4096 = j \<longleftrightarrow> unat a \<le> unat vb \<and> unat vb < unat a + 4096"
    unfolding j by (rule div4096_iff)
  then have "same_page vb a \<longleftrightarrow> unat a \<le> unat vb \<and> unat vb < unat a + 4096"
    unfolding same_page_iff by (simp add: j)
  moreover have "(unat vb - unat a) div 4096 = 0" if "unat vb < unat a + 4096" using that by simp
  ultimately show ?thesis by (auto simp: mapped_def)
qed

lemma mappages_loop_ok:
  assumes "pt_wf pd xs s" "kmem_ready xs s" "a mod PGSIZE = 0" "unat a + 4096 * Suc n \<le> 2 ^ 32"
    "\<forall>vb. unat a \<le> unat vb \<and> unat vb < unat a + 4096 * Suc n \<longrightarrow> pte_of pd vb s AND PTE_P = 0"
  shows "\<exists>r s' ys k. mappages_loop n pd a pa perm s = Inr (r, s') \<and> kmem_ready ys s' \<and> pt_wf pd ys s' \<and>
    (r = 0 \<and> k = Suc n \<or> r = -1 \<and> k \<le> n \<and> ys = []) \<and>
    (\<forall>vb. pte_of pd vb s' = mapped k a pa perm (\<lambda>vb. pte_of pd vb s) vb)"
  using assms
proof (induction n arbitrary: a pa s xs)
  case 0
  have np: "pte_of pd a s AND PTE_P = 0" using "0.prems"(5) by simp
  obtain e s1 ys where w: "walkpgdir pd a True s = Inr (e, s1)"
    "if e = 0 then ys = [] \<and> kmem_ready ys s1 \<and> pt_wf pd ys s1 \<and> (\<forall>vb. pte_of pd vb s1 = pte_of pd vb s)
     else peek s1 e AND PTE_P = 0 \<and> kmem_ready ys (poke e (pa OR perm OR PTE_P) s1) \<and>
       pt_wf pd ys (poke e (pa OR perm OR PTE_P) s1) \<and>
       (\<forall>vb. pte_of pd vb (poke e (pa OR perm OR PTE_P) s1) =
         (if same_page vb a then pa OR perm OR PTE_P else pte_of pd vb s))"
    using map_one [OF "0.prems"(1,2) np] by blast
  show ?case
  proof (cases "e = 0")
    case True
    with w show ?thesis
      by (intro exI [of _ "-1"] exI [of _ s1] exI [of _ "[]"] exI [of _ 0]) (auto simp: mappages_loop.simps)
  next
    case False
    with w show ?thesis
      by (intro exI [of _ 0] exI [of _ "poke e (pa OR perm OR PTE_P) s1"] exI [of _ ys] exI [of _ "Suc 0"])
        (simp add: mappages_loop.simps mapped_1 [OF "0.prems"(3)])
  qed
next
  case (Suc n)
  have np: "pte_of pd a s AND PTE_P = 0" using Suc.prems(5) by simp
  let ?v = "pa OR perm OR PTE_P"
  obtain e s1 ys where w: "walkpgdir pd a True s = Inr (e, s1)"
    "if e = 0 then ys = [] \<and> kmem_ready ys s1 \<and> pt_wf pd ys s1 \<and> (\<forall>vb. pte_of pd vb s1 = pte_of pd vb s)
     else peek s1 e AND PTE_P = 0 \<and> kmem_ready ys (poke e ?v s1) \<and> pt_wf pd ys (poke e ?v s1) \<and>
       (\<forall>vb. pte_of pd vb (poke e ?v s1) = (if same_page vb a then ?v else pte_of pd vb s))"
    using map_one [OF Suc.prems(1,2) np] by blast
  show ?case
  proof (cases "e = 0")
    case True
    with w show ?thesis
      by (intro exI [of _ "-1"] exI [of _ s1] exI [of _ "[]"] exI [of _ 0]) (auto simp: mappages_loop.simps)
  next
    case False
    let ?s2 = "poke e ?v s1"
    from False w(2) have s2: "peek s1 e AND PTE_P = 0" "kmem_ready ys ?s2" "pt_wf pd ys ?s2"
      "\<forall>vb. pte_of pd vb ?s2 = (if same_page vb a then ?v else pte_of pd vb s)" by simp_all
    have nx: "unat (a + PGSIZE) = unat a + 4096" using Suc.prems(4) by (intro unat_next_page) simp
    have al: "(a + PGSIZE) mod PGSIZE = 0" using Suc.prems(3) nx unfolding aligned_unat by simp
    have fr: "\<forall>vb. unat (a + PGSIZE) \<le> unat vb \<and> unat vb < unat (a + PGSIZE) + 4096 * Suc n \<longrightarrow>
        pte_of pd vb ?s2 AND PTE_P = 0"
    proof (intro allI impI)
      fix vb :: uint
      assume vb: "unat (a + PGSIZE) \<le> unat vb \<and> unat vb < unat (a + PGSIZE) + 4096 * Suc n"
      obtain j where j: "unat a = 4096 * j" using Suc.prems(3) unfolding aligned_unat by (metis mod_0_imp_dvd dvdE)
      have "unat a div 4096 < unat vb div 4096" using vb nx j by (simp add: less_eq_div_iff_mult_less_eq Suc_le_eq [symmetric])
      then have "\<not> same_page vb a" by (simp add: same_page_iff)
      then show "pte_of pd vb ?s2 AND PTE_P = 0" using s2(4) Suc.prems(5) vb nx by auto
    qed
    have le: "unat (a + PGSIZE) + 4096 * Suc n \<le> 2 ^ 32" using Suc.prems(4) nx by simp
    obtain r s' zs k where IH: "mappages_loop n pd (a + PGSIZE) (pa + PGSIZE) perm ?s2 = Inr (r, s')"
      "kmem_ready zs s'" "pt_wf pd zs s'" "r = 0 \<and> k = Suc n \<or> r = -1 \<and> k \<le> n \<and> zs = []"
      "\<forall>vb. pte_of pd vb s' = mapped k (a + PGSIZE) (pa + PGSIZE) perm (\<lambda>vb. pte_of pd vb ?s2) vb"
      using Suc.IH [OF s2(3,2) al le fr, of "pa + PGSIZE"] by blast
    have old: "(\<lambda>vb. pte_of pd vb ?s2) = (\<lambda>vb. if same_page vb a then ?v else pte_of pd vb s)"
      using s2(4) by auto
    have "mappages_loop (Suc n) pd a pa perm s = Inr (r, s')"
      using w(1) False s2(1) IH(1) by (subst mappages_loop.simps) (simp add: Let_def)
    moreover have "pte_of pd vb s' = mapped (Suc k) a pa perm (\<lambda>vb. pte_of pd vb s) vb" for vb
      using IH(5) mapped_Suc [OF Suc.prems(3) nx] unfolding old by simp
    ultimately show ?thesis using IH(2-4)
      by (intro exI [of _ r] exI [of _ s'] exI [of _ zs] exI [of _ "Suc k"]) auto
  qed
qed

lemma PGROUNDDOWN_aligned: "PGROUNDDOWN x mod PGSIZE = 0"
  using PTE_ADDR_aligned [of x] by (simp add: PTE_ADDR_def PGROUNDDOWN_def PGSIZE_def)

lemma PGROUNDDOWN_unat: "unat (PGROUNDDOWN x) = 4096 * (unat x div 4096)"
  using page_base(1) [OF PGROUNDDOWN_aligned page_offset_less] .

lemma mapped_pages:
  assumes "unat a = 4096 * A"
  shows "mapped (Suc n) a pa perm old vb = (if A \<le> unat vb div 4096 \<and> unat vb div 4096 \<le> A + n
    then (pa + of_nat (unat vb div 4096 - A) * PGSIZE) OR perm OR PTE_P else old vb)"
proof -
  let ?q = "unat vb div 4096"
  have v: "4096 * ?q \<le> unat vb" "unat vb < 4096 * ?q + 4096" using div4096_iff [of "unat vb" ?q] by auto
  have "?q < A + Suc n \<longleftrightarrow> unat vb < (A + Suc n) * 4096" by (rule div_less_iff_less_mult) simp
  then have "unat vb < 4096 * A + 4096 * Suc n \<longleftrightarrow> ?q \<le> A + n" by (auto simp: algebra_simps)
  moreover have "4096 * A \<le> unat vb \<longleftrightarrow> A \<le> ?q" using v by linarith
  moreover have "(unat vb - 4096 * A) div 4096 = ?q - A" by simp
  ultimately show ?thesis unfolding mapped_def assms by simp
qed

lemma pages_count:
  assumes "0 < unat len" "unat va + unat len \<le> 2 ^ 32"
  shows "unat ((PGROUNDDOWN (va + len - 1) - PGROUNDDOWN va) div PGSIZE) = (unat va + unat len - 1) div 4096 - unat va div 4096"
proof -
  let ?a = "PGROUNDDOWN va" and ?l = "PGROUNDDOWN (va + len - 1)"
  have "1 \<le> len" using assms(1) by (simp add: word_le_nat_alt)
  then have l1: "unat (len - 1) = unat len - 1" by (simp add: unat_sub_small)
  have "unat va + unat (len - 1) < 2 ^ 32" using assms l1 by simp
  then have "unat (va + (len - 1)) = unat va + (unat len - 1)" using unat_add_small l1 by simp
  then have vl: "unat (va + len - 1) = unat va + unat len - 1" using assms(1) by (simp add: add_diff_eq)
  have "unat va div 4096 \<le> (unat va + unat len - 1) div 4096" using assms(1) by (intro div_le_mono) simp
  then have "?a \<le> ?l" by (simp add: word_le_nat_alt PGROUNDDOWN_unat vl)
  then have "unat (?l - ?a) = 4096 * ((unat va + unat len - 1) div 4096 - unat va div 4096)"
    using unat_sub_small [of ?a ?l] by (simp add: PGROUNDDOWN_unat vl diff_mult_distrib2)
  then show ?thesis by (simp add: unat_div_distrib PGSIZE_def)
qed

lemma pages_fit:
  assumes "0 < unat len" "unat va + unat len \<le> 2 ^ 32"
  shows "unat (PGROUNDDOWN va) + 4096 * Suc (unat ((PGROUNDDOWN (va + len - 1) - PGROUNDDOWN va) div PGSIZE)) \<le> 2 ^ 32"
proof -
  have "unat va div 4096 \<le> (unat va + unat len - 1) div 4096" using assms(1) by (intro div_le_mono) simp
  moreover have "unat va + unat len - 1 < 4096 * 1048576" using assms by simp
  then have "(unat va + unat len - 1) div 4096 < 1048576" by (intro less_mult_imp_div_less) (simp add: mult.commute)
  moreover have "4096 * A + 4096 * Suc (Z - A) \<le> 2 ^ 32" if "A \<le> Z" "Z < 1048576" for A Z :: nat using that by simp
  ultimately show ?thesis unfolding pages_count [OF assms] PGROUNDDOWN_unat by blast
qed

lemma mappages_ok:
  assumes "pt_wf pd xs s" "kmem_ready xs s" "0 < unat len" "unat va + unat len \<le> 2 ^ 32"
    and "A = unat va div 4096" "Z = (unat va + unat len - 1) div 4096"
    and "\<forall>vb. A \<le> unat vb div 4096 \<and> unat vb div 4096 \<le> Z \<longrightarrow> pte_of pd vb s AND PTE_P = 0"
  shows "\<exists>r s' ys. mappages pd va len pa perm s = Inr (r, s') \<and> kmem_ready ys s' \<and> pt_wf pd ys s' \<and>
    (r = 0 \<and> (\<forall>vb. pte_of pd vb s' = (if A \<le> unat vb div 4096 \<and> unat vb div 4096 \<le> Z
       then (pa + of_nat (unat vb div 4096 - A) * PGSIZE) OR perm OR PTE_P else pte_of pd vb s)) \<or>
     r = -1 \<and> ys = [])"
proof -
  let ?a = "PGROUNDDOWN va" and ?l = "PGROUNDDOWN (va + len - 1)"
  have AZ: "A \<le> Z" unfolding assms(5,6) using assms(3) by (intro div_le_mono) simp
  have ua: "unat ?a = 4096 * A" unfolding PGROUNDDOWN_unat assms(5) ..
  note n = pages_count [OF assms(3,4), folded assms(5,6)] and top = pages_fit [OF assms(3,4), folded assms(5,6), unfolded n]
  have fr: "\<forall>vb. unat ?a \<le> unat vb \<and> unat vb < unat ?a + 4096 * Suc (Z - A) \<longrightarrow> pte_of pd vb s AND PTE_P = 0"
  proof (intro allI impI)
    fix vb :: uint
    assume vb: "unat ?a \<le> unat vb \<and> unat vb < unat ?a + 4096 * Suc (Z - A)"
    have "A \<le> unat vb div 4096" using vb unfolding ua by (simp add: less_eq_div_iff_mult_less_eq mult.commute)
    moreover have "unat vb div 4096 < Suc Z"
      using vb AZ unfolding ua by (intro less_mult_imp_div_less) (simp add: algebra_simps)
    ultimately show "pte_of pd vb s AND PTE_P = 0" using assms(7) by simp
  qed
  from mappages_loop_ok [OF assms(1,2) PGROUNDDOWN_aligned top fr, of pa perm]
  obtain r s' ys k where "mappages_loop (Z - A) pd ?a pa perm s = Inr (r, s')" "kmem_ready ys s'" "pt_wf pd ys s'"
    "r = 0 \<and> k = Suc (Z - A) \<or> r = -1 \<and> k \<le> Z - A \<and> ys = []"
    "\<forall>vb. pte_of pd vb s' = mapped k ?a pa perm (\<lambda>vb. pte_of pd vb s) vb" by blast
  then show ?thesis using AZ mapped_pages [OF ua]
    by (intro exI [of _ r] exI [of _ s'] exI [of _ ys]) (auto simp: mappages_def Let_def n)
qed

section \<open>Properties\<close>

text \<open>
  C27. \<open>mappages\<close> over a well-formed directory and unmapped pages: it ends without a panic; when it
  returns 0, every page from the first to the last one touched maps to the next physical page with the
  given permissions and the present bit, and every other address translates exactly as before; it
  returns -1 only when the free list has run out. Directory and allocator stay well formed.
\<close>

theorem mappages_maps:
  assumes "pt_wf pd xs s" "kmem_ready xs s" "0 < unat len" "unat va + unat len \<le> 2 ^ 32"
    and "A = unat va div 4096" "Z = (unat va + unat len - 1) div 4096"
    and "\<forall>vb. A \<le> unat vb div 4096 \<and> unat vb div 4096 \<le> Z \<longrightarrow> pte_of pd vb s AND PTE_P = 0"
  shows "\<exists>r s' ys. mappages pd va len pa perm s = Inr (r, s') \<and> kmem_ready ys s' \<and> pt_wf pd ys s' \<and>
    (r = 0 \<and> (\<forall>vb. pte_of pd vb s' = (if A \<le> unat vb div 4096 \<and> unat vb div 4096 \<le> Z
       then (pa + of_nat (unat vb div 4096 - A) * PGSIZE) OR perm OR PTE_P else pte_of pd vb s)) \<or>
     r = -1 \<and> ys = [])"
  using mappages_ok [OF assms] .

text \<open>An example: zeroed memory with an empty directory and one free page.\<close>

definition pt0 :: kmem where
  "pt0 = kmem0\<lparr>freelist := 0x80402000, numOfFreePages := 1\<rparr>"

lemma pt0_ready: "kmem_ready [0x80402000] pt0"
  by (simp add: kmem_ready_def kmem_inv_def pt0_def kmem0_def ksock.defs booted_def sinit_def page_ok_def
      PGSIZE_def V2P_def KERNBASE_def PHYSTOP_def load32_def)

lemma pt0_table: "table_of 0x80401000 i pt0 = None"
  by (simp add: table_of_def pt0_def kmem0_def ksock.defs load32_def)

lemma pt0_wf: "pt_wf 0x80401000 [0x80402000] pt0"
  by (simp add: pt_wf_def pt0_table PGSIZE_def)

theorem mappages_maps_witness:
  "\<exists>r s' ys. mappages 0x80401000 0x1234 4096 0x405000 PTE_W pt0 = Inr (r, s') \<and> pt_wf 0x80401000 ys s' \<and>
    (r = 0 \<and> pte_of 0x80401000 0x2345 s' = (0x405000 + of_nat 1 * PGSIZE) OR PTE_W OR PTE_P \<or> r = -1)"
proof -
  have z: "\<forall>vb. 1 \<le> unat vb div 4096 \<and> unat vb div 4096 \<le> 2 \<longrightarrow> pte_of 0x80401000 vb pt0 AND PTE_P = 0"
    by (simp add: pte_of_def pt0_table)
  have e: "0 < unat (4096 :: uint)" "unat (0x1234 :: uint) + unat (4096 :: uint) \<le> 2 ^ 32"
    "1 = unat (0x1234 :: uint) div 4096" "2 = (unat (0x1234 :: uint) + unat (4096 :: uint) - 1) div 4096"
    by simp_all
  have v: "1 \<le> unat (0x2345 :: uint) div 4096 \<and> unat (0x2345 :: uint) div 4096 \<le> 2"
    "unat (0x2345 :: uint) div 4096 - 1 = 1" by simp_all
  obtain r s' ys where m: "mappages 0x80401000 0x1234 4096 0x405000 PTE_W pt0 = Inr (r, s')" "pt_wf 0x80401000 ys s'"
    "r = 0 \<and> (\<forall>vb. pte_of 0x80401000 vb s' = (if 1 \<le> unat vb div 4096 \<and> unat vb div 4096 \<le> 2
       then (0x405000 + of_nat (unat vb div 4096 - 1) * PGSIZE) OR PTE_W OR PTE_P
       else pte_of 0x80401000 vb pt0)) \<or> r = -1 \<and> ys = []"
    using mappages_maps [OF pt0_wf pt0_ready e z, of "0x405000" PTE_W] by blast
  from m(3) show ?thesis
  proof
    assume r: "r = 0 \<and> (\<forall>vb. pte_of 0x80401000 vb s' = (if 1 \<le> unat vb div 4096 \<and> unat vb div 4096 \<le> 2
       then (0x405000 + of_nat (unat vb div 4096 - 1) * PGSIZE) OR PTE_W OR PTE_P
       else pte_of 0x80401000 vb pt0))"
    from this [THEN conjunct2, THEN spec, of "0x2345"]
    have "pte_of 0x80401000 0x2345 s' = (0x405000 + of_nat 1 * PGSIZE) OR PTE_W OR PTE_P"
      unfolding if_P [OF v(1)] v(2) .
    with r m show ?thesis by blast
  qed (use m in blast)
qed

end
