(* ===== verification/Swap.thy ===== *)
theory Swap
  imports Paging
begin

text \<open>
  User memory and paging to the swap file: the rest of \<^verbatim>\<open>vm.c\<close> and the swap routines of
  \<^verbatim>\<open>fs.c\<close>. The swap file of process \<open>i\<close> is its contents, \<open>swapdata s i\<close>, read and written with
  the range checks of \<^verbatim>\<open>readi\<close> and \<^verbatim>\<open>writei\<close>. The kernel reaches user memory through the
  page table in \<open>cr3\<close>, as the hardware does. The lemmas relate the page table entry, the file table
  and the file contents before and after a page goes out and comes back.
\<close>

section \<open>Files as contents\<close>

definition BSIZE :: nat where "BSIZE = 512"
definition NDIRECT :: nat where "NDIRECT = 12"
definition NINDIRECT :: nat where "NINDIRECT = 128"
definition MAXFILE :: nat where "MAXFILE = NDIRECT + NINDIRECT"

text \<open>
  Reading stops at the end of the file and fails beyond it; writing may append but leaves no hole and
  keeps to the largest file. Offsets are 32-bit, so an offset of \<open>-PGSIZE\<close> is beyond every file.
\<close>

definition content_read :: "uint \<Rightarrow> nat \<Rightarrow> uchar list \<Rightarrow> uchar list option" where
  "content_read off n c = (if unat off > length c \<or> unat off + n \<ge> 2 ^ 32 then None else Some (take n (drop (unat off) c)))"

definition content_writable :: "uint \<Rightarrow> nat \<Rightarrow> uchar list \<Rightarrow> bool" where
  "content_writable off n c \<longleftrightarrow> unat off \<le> length c \<and> unat off + n < 2 ^ 32 \<and> unat off + n \<le> MAXFILE * BSIZE"

definition content_write :: "uint \<Rightarrow> uchar list \<Rightarrow> uchar list \<Rightarrow> uchar list" where
  "content_write off d c = take (unat off) c @ d @ drop (unat off + length d) c"

section \<open>Processes and address spaces\<close>

definition on_proc :: "nat \<Rightarrow> (proc \<Rightarrow> proc kres) \<Rightarrow> 'a kproc_scheme \<Rightarrow> 'a kproc_scheme kres" where
  "on_proc p f s = kbind (f (ptable s ! p)) (\<lambda>q. Inr (upd_proc p (\<lambda>_. q) s))"

definition lcr3 :: "uint \<Rightarrow> 'a kvm_scheme \<Rightarrow> 'a kvm_scheme" where
  "lcr3 a s = s\<lparr>cr3 := a\<rparr>"

text \<open>The kernel address behind a virtual address, \<open>None\<close> where the access faults.\<close>

definition user_ka :: "uint \<Rightarrow> 'a kvm_scheme \<Rightarrow> uint option" where
  "user_ka va s =
     (if va \<ge> KERNBASE then Some va
      else let e = pte_of (P2V (cr3 s)) va s
        in if e AND PTE_P = 0 then None else Some (P2V (PTE_ADDR e) + (va AND 0xFFF)))"

definition switchkvm :: "'a kvm_scheme \<Rightarrow> 'a kvm_scheme" where
  "switchkvm s = lcr3 (V2P (kpgdir s)) s"

text \<open>The checks of \<open>switchuvm\<close> and the address space it installs; the segment setup is hardware.\<close>

definition switchuvm :: "nat option \<Rightarrow> 'a kvm_scheme \<Rightarrow> 'a kvm_scheme kres" where
  "switchuvm p s =
     (case p of
        None \<Rightarrow> Inl (Panic ''switchuvm: no process'')
      | Some i \<Rightarrow>
          if kstack (ptable s ! i) = 0 then Inl (Panic ''switchuvm: no kstack'')
          else if pgdir (ptable s ! i) = 0 then Inl (Panic ''switchuvm: no pgdir'')
          else Inr (lcr3 (V2P (pgdir (ptable s ! i))) s))"

section \<open>The swap file\<close>

definition swap_write :: "nat \<Rightarrow> uchar list kres \<Rightarrow> uint \<Rightarrow> nat \<Rightarrow> 'a kvm_scheme \<Rightarrow> (int \<times> 'a kvm_scheme) kres" where
  "swap_write p buffer placeOnFile n s =
     (if swapFile (ptable s ! p) = None then Inl (Undefined ''swapFile is null'')
      else if \<not> content_writable placeOnFile n (swapdata s p) then Inr (-1, s)
      else kbind buffer (\<lambda>d. Inr (int n, s\<lparr>swapdata := (swapdata s)(p :=
             content_write placeOnFile d (swapdata s p))\<rparr>)))"

definition swap_read :: "nat \<Rightarrow> uint \<Rightarrow> nat \<Rightarrow> 'a kvm_scheme \<Rightarrow> (int \<times> uchar list) kres" where
  "swap_read p placeOnFile n s =
     (if swapFile (ptable s ! p) = None then Inl (Undefined ''swapFile is null'')
      else case content_read placeOnFile n (swapdata s p) of
             None \<Rightarrow> Inr (-1, [])
           | Some d \<Rightarrow> Inr (int (length d), d))"

text \<open>\<open>page_in\<close> returns what the read returned and the bytes it put into the buffer.\<close>

text \<open>
  Where \<open>page_out\<close> and \<open>write_user\<close> below touch a page of the process that is not present, the kernel
  itself faults, inside the handler of a fault or inside a system call; theory Fault shows from the
  handler's code that such a fault ends in its panic.
\<close>

definition page_in :: "nat \<Rightarrow> nat \<Rightarrow> uint \<Rightarrow> 'a kvm_scheme \<Rightarrow> (int \<times> uchar list \<times> 'a kvm_scheme) kres" where
  "page_in p ram_managerIndex vAddr s =
     (case first_index (\<lambda>g. pg_vAddr g = vAddr) (file_manager (ptable s ! p)) of
        None \<Rightarrow> Inr (-1, [], s)
      | Some i \<Rightarrow>
          kbind (swap_read p (of_nat i * PGSIZE) 4096 s) (\<lambda>(ret, d).
            if ret = -1 then Inr (-1, [], s)
            else Inr (ret, d, upd_proc p (\<lambda>q.
              q\<lparr>ram_manager := (ram_manager q)[ram_managerIndex := file_manager q ! i],
                file_manager := (file_manager q)[i := (file_manager q ! i)\<lparr>pg_state := NOT_USED\<rparr>],
                paged_out_count := paged_out_count q - 1\<rparr>) s)))"

definition page_out :: "nat \<Rightarrow> uint \<Rightarrow> uint \<Rightarrow> 'a kvm_scheme \<Rightarrow> (int \<times> 'a kvm_scheme) kres" where
  "page_out p vAddr pd s =
     (let index = nextFreePageIndexInFile (ptable s ! p);
          bytes = (case user_ka vAddr s of None \<Rightarrow> Inl (Panic ''trap'')
                   | Some ka \<Rightarrow> Inr (mem_read (mem s) ka 4096))
      in kbind (swap_write p bytes (PGSIZE * of_int index) 4096 s) (\<lambda>(ret, s1).
           if ret = -1 then Inr (-1, s1)
           else Inr (index, upd_proc p (\<lambda>q.
             q\<lparr>file_manager := (file_manager q)[nat index := \<lparr>pg_state = USED, pg_pgdir = pd, pg_vAddr = vAddr\<rparr>],
               paged_out_count := paged_out_count q + 1\<rparr>) s1)))"

text \<open>
  \<open>clone_file\<close>, one slot after the other. The pages pass through a buffer; the slots of the child
  are marked used.
\<close>

definition clone_slot :: "nat \<Rightarrow> nat \<Rightarrow> nat \<Rightarrow> 'a kvm_scheme \<Rightarrow> 'a kvm_scheme kres" where
  "clone_slot src dest i s =
     (if pg_state (file_manager (ptable s ! src) ! i) = USED then
        kbind (swap_read src (PGSIZE * of_nat i) 4096 s) (\<lambda>(ret, d).
          if ret \<noteq> 4096 then Inl (Panic ''clone_file: error in reading from file'')
          else kbind (swap_write dest (Inr d) (PGSIZE * of_nat i) 4096 s) (\<lambda>(ret', s1).
            if ret' \<noteq> 4096 then Inl (Panic ''clone_file: error in writing to file'')
            else Inr (upd_proc dest (\<lambda>q. q\<lparr>file_manager :=
                   (file_manager q)[i := (file_manager q ! i)\<lparr>pg_state := USED\<rparr>]\<rparr>) s1)))
      else Inr s)"

fun clone_slots :: "nat \<Rightarrow> nat \<Rightarrow> nat list \<Rightarrow> 'a kvm_scheme \<Rightarrow> 'a kvm_scheme kres" where
  "clone_slots src dest [] s = Inr s"
| "clone_slots src dest (i # is) s = kbind (clone_slot src dest i s) (clone_slots src dest is)"

definition clone_file :: "nat \<Rightarrow> nat \<Rightarrow> 'a kvm_scheme \<Rightarrow> 'a kvm_scheme kres" where
  "clone_file src dest s =
     (if is_shell_or_init (Some (ptable s ! src)) then Inr s
      else clone_slots src dest [0..<MAX_FILE_PAGES] s)"

section \<open>Page table entries of swapped pages\<close>

text \<open>\<open>getPhysicalAddress\<close> repeats the walk as a delay; a walk that allocates nothing has no effect.\<close>

definition getPhysicalAddress :: "uint \<Rightarrow> uint \<Rightarrow> 'a kmem_scheme \<Rightarrow> uint kres" where
  "getPhysicalAddress vAddr pd s =
     kbind (walkpgdir pd vAddr False s) (\<lambda>(pte, s1).
       Inr (if pte = 0 then 0xFFFFFFFF else PTE_ADDR (peek s1 pte)))"

definition pte_out :: "uint \<Rightarrow> uint" where
  "pte_out e = (let e1 = e OR PTE_PG; e2 = e1 AND NOT PTE_P in e2 AND PTE_FLAGS e2)"

definition pte_in :: "uint \<Rightarrow> uint \<Rightarrow> uint" where
  "pte_in pa e = ((e OR PTE_P OR PTE_W OR PTE_U) AND NOT PTE_PG) OR pa"

definition update_pageOUT_pte_flags :: "nat \<Rightarrow> uint \<Rightarrow> uint \<Rightarrow> 'a kvm_scheme \<Rightarrow> 'a kvm_scheme kres" where
  "update_pageOUT_pte_flags p vAddr pd s =
     kbind (walkpgdir pd vAddr False s) (\<lambda>(pte, s1).
       if pte = 0 then Inl (Panic ''update_pageOUT_pte_flags: pte does NOT exist in pgdir'')
       else Inr (lcr3 (V2P (pgdir (ptable s1 ! p))) (poke pte (pte_out (peek s1 pte)) s1)))"

definition update_pageIN_pte_flags :: "nat \<Rightarrow> uint \<Rightarrow> uint \<Rightarrow> uint \<Rightarrow> 'a kvm_scheme \<Rightarrow> 'a kvm_scheme kres" where
  "update_pageIN_pte_flags p vAddr pagePAddr pd s =
     kbind (walkpgdir pd vAddr False s) (\<lambda>(pte, s1).
       if pte = 0 then Inl (Panic ''update_pageIN_pte_flags: pte does NOT exist in pgdir'')
       else if peek s1 pte AND PTE_P \<noteq> 0
       then Inl (Panic ''update_pageIN_pte_flags: page is already in memory!'')
       else Inr (lcr3 (V2P (pgdir (ptable s1 ! p))) (poke pte (pte_in pagePAddr (peek s1 pte)) s1)))"

definition isPageInSwapFile :: "nat \<Rightarrow> uint \<Rightarrow> 'a kvm_scheme \<Rightarrow> bool kres" where
  "isPageInSwapFile p vAddr s =
     kbind (walkpgdir (pgdir (ptable s ! p)) vAddr False s) (\<lambda>(pte, s1).
       if pte = 0 then Inl (Undefined ''isPageInSwapFile: null pte'')
       else Inr (peek s1 pte AND PTE_PG \<noteq> 0))"

section \<open>Swapping\<close>

definition swap_out :: "nat \<Rightarrow> uint \<Rightarrow> uint \<Rightarrow> 'a kvm_scheme \<Rightarrow> 'a kvm_scheme kres" where
  "swap_out p pd vAddr s =
     (let page_index = nat (nextSwapPageIndexInRAM (ptable s ! p));
          swappedPage = ram_manager (ptable s ! p) ! page_index
      in kbind (getPhysicalAddress (pg_vAddr swappedPage) (pg_pgdir swappedPage) s) (\<lambda>page_phys_addr.
         kbind (page_out p (pg_vAddr swappedPage) (pg_pgdir swappedPage) s) (\<lambda>(_, s1).
         kbind (kfree (P2V page_phys_addr) s1) (\<lambda>s2.
         kbind (update_pageOUT_pte_flags p (pg_vAddr swappedPage) (pg_pgdir swappedPage) s2) (\<lambda>s3.
         kbind (on_proc p (deletePageFromRAM page_index False) s3) (\<lambda>s4.
         kbind (on_proc p (insertPageToRAM pd vAddr) s4) (\<lambda>s5.
           on_proc p (\<lambda>q. Inr (shiftFIFOIndex q)) s5)))))))"

text \<open>The copy into memory of a page that was read: short reads leave the rest as it was.\<close>

definition write_user :: "uint \<Rightarrow> uchar list \<Rightarrow> 'a kvm_scheme \<Rightarrow> 'a kvm_scheme kres" where
  "write_user va d s =
     (if d = [] then Inr s
      else case user_ka va s of
        None \<Rightarrow> Inl (Panic ''trap'')
      | Some ka \<Rightarrow> Inr (s\<lparr>mem := mem_write (mem s) ka d\<rparr>))"

definition swap_in :: "nat \<Rightarrow> uint \<Rightarrow> 'a kvm_scheme \<Rightarrow> (int \<times> 'a kvm_scheme) kres" where
  "swap_in p addr s0 =
     (let s = upd_proc p (\<lambda>q. q\<lparr>page_fault_count := page_fault_count q + 1\<rparr>) s0;
          vAddr = PGROUNDDOWN addr
      in kbind (kalloc s) (\<lambda>(page, s1).
         if page = 0 then Inl (Undefined ''swap_in: kalloc returned null'')
         else let s2 = lcr3 (V2P (pgdir (ptable s1 ! p))) (s1\<lparr>mem := memset (mem s1) page 0 PGSIZE\<rparr>);
                  avail = nextFreePageIndexInRAM (ptable s1 ! p)
           in if avail \<ge> 0 then
                kbind (update_pageIN_pte_flags p vAddr (V2P page) (pgdir (ptable s2 ! p)) s2) (\<lambda>s3.
                kbind (page_in p (nat avail) vAddr s3) (\<lambda>(_, d, s4).
                kbind (write_user vAddr d s4) (\<lambda>s5. Inr (1, s5))))
              else
                let out_index = nat (nextSwapPageIndexInRAM (ptable s2 ! p));
                    outPage = ram_manager (ptable s2 ! p) ! out_index
                in kbind (update_pageIN_pte_flags p vAddr (V2P page) (pgdir (ptable s2 ! p)) s2) (\<lambda>s3.
                   kbind (page_in p out_index vAddr s3) (\<lambda>(_, d, s4).
                   let s5 = s4\<lparr>vm_buff := d @ drop (length d) (vm_buff s4)\<rparr>
                   in kbind (getPhysicalAddress (pg_vAddr outPage) (pg_pgdir outPage) s5) (\<lambda>outPagePAddr.
                   let s6 = s5\<lparr>mem := mem_write (mem s5) page (vm_buff s5)\<rparr>
                   in kbind (page_out p (pg_vAddr outPage) (pg_pgdir outPage) s6) (\<lambda>(_, s7).
                   kbind (update_pageOUT_pte_flags p (pg_vAddr outPage) (pg_pgdir outPage) s7) (\<lambda>s8.
                   kbind (kfree (P2V outPagePAddr) s8) (\<lambda>s9.
                   kbind (on_proc p (\<lambda>q. Inr (shiftFIFOIndex q)) s9) (\<lambda>s10. Inr (1, s10)))))))))) "

section \<open>Growing, shrinking and copying user memory\<close>

text \<open>
  The loops below run over the pages from \<open>a\<close> to an end below \<open>KERNBASE\<close>; \<open>n\<close> is an upper bound of
  the turns left. \<open>deallocuvm\<close> skips to the next directory entry where a table is missing.
\<close>

definition pages_between :: "uint \<Rightarrow> uint \<Rightarrow> nat" where
  "pages_between a b = (unat b - unat a + 4095) div 4096"

fun deallocuvm_loop :: "nat \<Rightarrow> uint \<Rightarrow> nat \<Rightarrow> uint \<Rightarrow> uint \<Rightarrow> 'a kvm_scheme \<Rightarrow> 'a kvm_scheme kres" where
  "deallocuvm_loop n pd p a oldsz s =
     (if \<not> a < oldsz then Inr s
      else case n of
        0 \<Rightarrow> Inl (Undefined ''deallocuvm: the loop wraps around'')
      | Suc m \<Rightarrow>
          kbind (walkpgdir pd a False s) (\<lambda>(pte, s1).
            if pte = 0 then deallocuvm_loop m pd p (PGADDR (PDX a + 1) 0 0 - PGSIZE + PGSIZE) oldsz s1
            else if peek s1 pte AND PTE_P \<noteq> 0 then
              let pa = PTE_ADDR (peek s1 pte)
              in if pa = 0 then Inl (Panic ''kfree'')
                 else kbind (kfree (P2V pa) s1) (\<lambda>s2.
                   kbind (if \<not> is_shell_or_init (Some (ptable s2 ! p))
                          then on_proc p (removePageFromRAM a pd) s2 else Inr s2) (\<lambda>s3.
                     deallocuvm_loop m pd p (a + PGSIZE) oldsz (poke pte 0 s3)))
            else deallocuvm_loop m pd p (a + PGSIZE) oldsz s1))"

declare deallocuvm_loop.simps [simp del]

definition deallocuvm :: "uint \<Rightarrow> uint \<Rightarrow> uint \<Rightarrow> 'a kvm_scheme \<Rightarrow> (uint \<times> 'a kvm_scheme) kres" where
  "deallocuvm pd oldsz newsz s =
     (case curproc s of
        None \<Rightarrow> Inr (oldsz, s)
      | Some p \<Rightarrow>
          if newsz \<ge> oldsz then Inr (oldsz, s)
          else kbind (deallocuvm_loop (pages_between (PGROUNDUP newsz) oldsz) pd p (PGROUNDUP newsz) oldsz s)
            (\<lambda>s1. Inr (newsz, s1)))"

fun freevm_tables :: "uint \<Rightarrow> uint list \<Rightarrow> 'a kvm_scheme \<Rightarrow> 'a kvm_scheme kres" where
  "freevm_tables pd [] s = Inr s"
| "freevm_tables pd (i # is) s =
     (if peek s (pd + 4 * i) AND PTE_P \<noteq> 0
      then kbind (kfree (P2V (PTE_ADDR (peek s (pd + 4 * i)))) s) (freevm_tables pd is)
      else freevm_tables pd is s)"

definition freevm :: "uint \<Rightarrow> 'a kvm_scheme \<Rightarrow> 'a kvm_scheme kres" where
  "freevm pd s =
     (if pd = 0 then Inl (Panic ''freevm: no pgdir'')
      else kbind (deallocuvm pd KERNBASE 0 s) (\<lambda>(_, s1).
        kbind (freevm_tables pd (map of_nat [0..<1024]) s1) (kfree pd)))"

definition KERNLINK :: uint where "KERNLINK = KERNBASE + EXTMEM"
definition DEVSPACE :: uint where "DEVSPACE = 0xFE000000"

definition kmap :: "'a kvm_scheme \<Rightarrow> (uint \<times> uint \<times> uint \<times> uint) list" where
  "kmap s = [(KERNBASE, 0, EXTMEM, PTE_W), (KERNLINK, V2P KERNLINK, V2P (kdata s), 0),
     (kdata s, V2P (kdata s), PHYSTOP, PTE_W), (DEVSPACE, DEVSPACE, 0, PTE_W)]"

fun map_kernel :: "uint \<Rightarrow> (uint \<times> uint \<times> uint \<times> uint) list \<Rightarrow> 'a kvm_scheme \<Rightarrow> (uint \<times> 'a kvm_scheme) kres" where
  "map_kernel pd [] s = Inr (pd, s)"
| "map_kernel pd ((virt, phys_start, phys_end, perm) # ks) s =
     kbind (mappages pd virt (phys_end - phys_start) phys_start perm s) (\<lambda>(r, s1).
       if r < 0 then kbind (freevm pd s1) (\<lambda>s2. Inr (0, s2)) else map_kernel pd ks s1)"

definition setupkvm :: "'a kvm_scheme \<Rightarrow> (uint \<times> 'a kvm_scheme) kres" where
  "setupkvm s =
     kbind (kalloc s) (\<lambda>(pd, s1).
       if pd = 0 then Inr (0, s1)
       else let s2 = s1\<lparr>mem := memset (mem s1) pd 0 PGSIZE\<rparr>
         in if P2V PHYSTOP > DEVSPACE then Inl (Panic ''PHYSTOP too high'')
            else map_kernel pd (kmap s2) s2)"

definition kvmalloc :: "'a kvm_scheme \<Rightarrow> 'a kvm_scheme kres" where
  "kvmalloc s = kbind (setupkvm s) (\<lambda>(pd, s1). Inr (switchkvm (s1\<lparr>kpgdir := pd\<rparr>)))"

definition inituvm :: "uint \<Rightarrow> uchar list \<Rightarrow> 'a kvm_scheme \<Rightarrow> 'a kvm_scheme kres" where
  "inituvm pd init s =
     (if length init \<ge> 4096 then Inl (Panic ''inituvm: more than a page'')
      else kbind (kalloc s) (\<lambda>(page, s1).
        if page = 0 then Inl (Undefined ''inituvm: kalloc returned null'')
        else kbind (mappages pd 0 PGSIZE (V2P page) (PTE_W OR PTE_U) (s1\<lparr>mem := memset (mem s1) page 0 PGSIZE\<rparr>))
          (\<lambda>(_, s2). Inr (s2\<lparr>mem := mem_write (mem s2) page init\<rparr>))))"

fun allocuvm_loop :: "nat \<Rightarrow> uint \<Rightarrow> nat option \<Rightarrow> uint \<Rightarrow> uint \<Rightarrow> uint \<Rightarrow> 'a kvm_scheme \<Rightarrow>
    (uint \<times> 'a kvm_scheme) kres" where
  "allocuvm_loop 0 pd p a oldsz newsz s = Inr (newsz, s)"
| "allocuvm_loop (Suc n) pd p a oldsz newsz s =
     kbind (kalloc s) (\<lambda>(page, s1).
       if page = 0 then kbind (deallocuvm pd newsz oldsz s1) (\<lambda>(_, s2). Inr (0, s2))
       else kbind (mappages pd a PGSIZE (V2P page) (PTE_W OR PTE_U) (s1\<lparr>mem := memset (mem s1) page 0 PGSIZE\<rparr>))
         (\<lambda>(r, s2).
           if r < 0 then kbind (deallocuvm pd newsz oldsz s2) (\<lambda>(_, s3).
             kbind (kfree page s3) (\<lambda>s4. Inr (0, s4)))
           else kbind (case p of
                 None \<Rightarrow> Inr s2
               | Some i \<Rightarrow>
                   if is_shell_or_init (Some (ptable s2 ! i)) then Inr s2
                   else if \<not> isFIFOfull (ptable s2 ! i) then on_proc i (insertPageToRAM pd a) s2
                   else swap_out i pd a s2)
             (\<lambda>s3. allocuvm_loop n pd p (a + PGSIZE) oldsz newsz s3)))"

definition allocuvm :: "uint \<Rightarrow> uint \<Rightarrow> uint \<Rightarrow> 'a kvm_scheme \<Rightarrow> (uint \<times> 'a kvm_scheme) kres" where
  "allocuvm pd oldsz newsz s =
     (if newsz \<ge> KERNBASE then Inr (0, s)
      else if newsz < oldsz then Inr (oldsz, s)
      else let big = unat (PGROUNDUP newsz div PGSIZE) > MAX_TOTAL_PAGES
        in if big \<and> \<not> is_shell_or_init (map_option ((!) (ptable s)) (curproc s)) then Inr (0, s)
           else allocuvm_loop (pages_between (PGROUNDUP oldsz) newsz) pd (curproc s) (PGROUNDUP oldsz) oldsz newsz s)"

text \<open>
  The loop of \<open>copyuvm\<close> over the pages below \<open>sz\<close>. A swapped page is marked in the child's directory,
  where a missing table makes \<open>update_pageOUT_pte_flags\<close> panic.
\<close>

fun copyuvm_loop :: "nat \<Rightarrow> uint \<Rightarrow> uint \<Rightarrow> nat \<Rightarrow> uint \<Rightarrow> 'a kvm_scheme \<Rightarrow> (uint \<times> 'a kvm_scheme) kres" where
  "copyuvm_loop 0 pd d p i s = Inr (d, s)"
| "copyuvm_loop (Suc n) pd d p i s =
     kbind (walkpgdir pd i False s) (\<lambda>(pte, s1).
       if pte = 0 then Inl (Panic ''copyuvm: pte should exist'')
       else if peek s1 pte AND PTE_PG \<noteq> 0
       then kbind (update_pageOUT_pte_flags p i d s1) (copyuvm_loop n pd d p (i + PGSIZE))
       else if peek s1 pte AND PTE_P = 0 then Inl (Panic ''copyuvm: page not present'')
       else let pa = PTE_ADDR (peek s1 pte); flags = PTE_FLAGS (peek s1 pte)
         in kbind (kalloc s1) (\<lambda>(page, s2).
              if page = 0 then kbind (freevm d s2) (\<lambda>s3. Inr (0, s3))
              else kbind (mappages d i PGSIZE (V2P page) flags
                    (s2\<lparr>mem := memmove (mem s2) page (P2V pa) PGSIZE\<rparr>)) (\<lambda>(r, s3).
                if r < 0 then kbind (freevm d s3) (\<lambda>s4. Inr (0, s4))
                else copyuvm_loop n pd d p (i + PGSIZE) s3)))"

definition copyuvm :: "uint \<Rightarrow> uint \<Rightarrow> 'a kvm_scheme \<Rightarrow> (uint \<times> 'a kvm_scheme) kres" where
  "copyuvm pd len s =
     (case curproc s of
        None \<Rightarrow> Inr (0, s)
      | Some p \<Rightarrow>
          kbind (setupkvm s) (\<lambda>(d, s1).
            if d = 0 then Inr (0, s1) else copyuvm_loop (pages_between 0 len) pd d p 0 s1))"

section \<open>Lemmas\<close>

lemma walk_noalloc:
  "walkpgdir pd va False s = Inr (case table_of pd (PDX va) s of None \<Rightarrow> 0 | Some t \<Rightarrow> t + 4 * PTX va, s)"
  by (simp add: walkpgdir_def table_of_def Let_def)

lemma entry_nonzero:
  assumes "pt_wf pd xs s" "table_of pd (PDX va) s = Some t"
  shows "t + 4 * PTX va \<noteq> 0"
proof -
  have "t mod PGSIZE = 0" "t \<noteq> 0" using table_aligned [OF assms(2)] pt_wfD(4) [OF assms(1) index_less(1) assms(2)] by auto
  then show ?thesis using ent_unat [of t "PTX va"] by (auto simp: word_unat_eq_iff)
qed

lemma kvm_frame [simp]:
  "mem (lcr3 a s) = mem s" "table_of pd i (lcr3 a s) = table_of pd i s" "pte_of pd va (lcr3 a s) = pte_of pd va s"
  "kmem_ready xs (lcr3 a s) = kmem_ready xs s" "pt_wf pd xs (lcr3 a s) = pt_wf pd xs s"
  "ptable (lcr3 a s) = ptable s" "curproc (lcr3 a s) = curproc s"
  by (simp_all add: lcr3_def table_of_def pte_of_def kmem_ready_def kmem_inv_def page_ok_def pt_wf_def)

lemma poke_frame [simp]: "ptable (poke a v s) = ptable s" "held (poke a v s) = held s"
  "curproc (poke a v s) = curproc s"
  by (simp_all add: poke_def)

text \<open>The bits of an entry that goes out and comes back.\<close>

lemma bit_512: "bit (512 :: uint) n \<longleftrightarrow> n = 9" "bit (512 :: int) n \<longleftrightarrow> n = 9"
proof -
  have "bit ((2 :: uint) ^ 9) n \<longleftrightarrow> n = 9" "bit ((2 :: int) ^ 9) n \<longleftrightarrow> n = 9" unfolding bit_exp_iff by auto
  then show "bit (512 :: uint) n \<longleftrightarrow> n = 9" "bit (512 :: int) n \<longleftrightarrow> n = 9" by simp_all
qed

lemma pte_out_bits: "bit (pte_out e) n \<longleftrightarrow> n < 12 \<and> n \<noteq> 0 \<and> (bit e n \<or> n = 9)"
proof -
  have m: "(0xFFF :: uint) = mask 12" "PTE_PG = 512" "PTE_P = 1"
    by (simp_all add: mask_eq_exp_minus_1 PTE_PG_def PTE_P_def)
  show ?thesis unfolding pte_out_def PTE_FLAGS_def Let_def m
    by (cases "n < 32") (auto simp: bit_simps bit_1_iff bit_512 dest: bit_imp_le_length)
qed

lemma pte_in_bits:
  "n < 32 \<Longrightarrow> bit (pte_in pa e) n \<longleftrightarrow> ((bit e n \<or> n < 3) \<and> n \<noteq> 9) \<or> bit pa n"
proof -
  assume n: "n < 32"
  have m: "PTE_PG = 512" "PTE_P OR PTE_W OR PTE_U = mask 3"
    by (simp_all add: mask_eq_exp_minus_1 pte_flags)
  show ?thesis unfolding pte_in_def or.assoc m using n by (auto simp: bit_simps bit_1_iff bit_512)
qed

lemma aligned_bits: "(pa :: uint) mod PGSIZE = 0 \<Longrightarrow> n < 12 \<Longrightarrow> \<not> bit pa n"
proof -
  assume a: "pa mod PGSIZE = 0" "n < 12"
  then have "take_bit 12 pa = 0" by (simp add: take_bit_eq_mod PGSIZE_def)
  then have "\<not> bit (take_bit 12 pa) n" by simp
  with a(2) show ?thesis by (simp add: bit_take_bit_iff)
qed

lemma and_bit_0: "((e :: uint) AND PTE_P \<noteq> 0) = bit e 0" "(e AND PTE_W \<noteq> 0) = bit e 1"
  "(e AND PTE_U \<noteq> 0) = bit e 2" "(e AND PTE_PG \<noteq> 0) = bit e 9"
proof -
  show "(e AND PTE_P \<noteq> 0) = bit e 0" "(e AND PTE_W \<noteq> 0) = bit e 1"
    "(e AND PTE_U \<noteq> 0) = bit e 2" "(e AND PTE_PG \<noteq> 0) = bit e 9"
    using and_exp_eq_0_iff_not_bit [of e 0] and_exp_eq_0_iff_not_bit [of e 1]
      and_exp_eq_0_iff_not_bit [of e 2] and_exp_eq_0_iff_not_bit [of e 9] by (simp_all add: pte_flags)
qed

lemma pte_round_trip:
  assumes "pa mod PGSIZE = 0"
  shows "PTE_ADDR (pte_in pa (pte_out e)) = pa"
    "PTE_FLAGS (pte_in pa (pte_out e)) = ((PTE_FLAGS e AND NOT PTE_PG) OR PTE_P OR PTE_W OR PTE_U)"
proof -
  have m: "(0xFFF :: uint) = mask 12" "PTE_PG = 512" "PTE_P OR PTE_W OR PTE_U = mask 3"
    by (simp_all add: mask_eq_exp_minus_1 pte_flags)
  show "PTE_ADDR (pte_in pa (pte_out e)) = pa" unfolding PTE_ADDR_def m
    by (rule bit_word_eqI) (use aligned_bits [OF assms] in \<open>auto simp: bit_simps pte_in_bits pte_out_bits\<close>)
  show "PTE_FLAGS (pte_in pa (pte_out e)) = ((PTE_FLAGS e AND NOT PTE_PG) OR PTE_P OR PTE_W OR PTE_U)"
    unfolding PTE_FLAGS_def or.assoc m
    by (rule bit_word_eqI)
      (use aligned_bits [OF assms] in \<open>auto simp: bit_simps bit_1_iff bit_512 pte_in_bits pte_out_bits\<close>)
qed

section \<open>Properties\<close>

text \<open>
  A page that goes out and comes back is mapped again: on a well-formed directory, marking the
  entry of a present page as swapped out clears its present bit, and marking it as swapped in at a
  physical page maps exactly that page, present, writable and accessible to the user, keeps the other
  flag bits and clears the swap bit; no other address translates differently at any point.
\<close>

theorem swapped_entry_returns:
  assumes wf: "pt_wf pd xs s" and rd: "kmem_ready xs s" and t: "table_of pd (PDX va) s \<noteq> None"
    and pa: "pa mod PGSIZE = 0"
  shows "\<exists>s1 s2. update_pageOUT_pte_flags p va pd s = Inr s1 \<and>
      pte_of pd va s1 AND PTE_P = 0 \<and> pte_of pd va s1 AND PTE_PG \<noteq> 0 \<and>
      update_pageIN_pte_flags p va pa pd s1 = Inr s2 \<and> PTE_ADDR (pte_of pd va s2) = pa \<and>
      PTE_FLAGS (pte_of pd va s2) = ((PTE_FLAGS (pte_of pd va s) AND NOT PTE_PG) OR PTE_P OR PTE_W OR PTE_U) \<and>
      pt_wf pd xs s2 \<and> kmem_ready xs s2 \<and>
      (\<forall>vb. \<not> same_page vb va \<longrightarrow> pte_of pd vb s1 = pte_of pd vb s \<and> pte_of pd vb s2 = pte_of pd vb s)"
proof -
  obtain u where u: "table_of pd (PDX va) s = Some u" using t by blast
  let ?e = "u + 4 * PTX va"
  define s1 where "s1 = lcr3 (V2P (pgdir (ptable s ! p))) (poke ?e (pte_out (peek s ?e)) s)"
  have pe: "peek s ?e = pte_of pd va s" using u by (simp add: pte_of_def)
  note k1 = poke_entry [OF wf rd u, where v = "pte_out (peek s ?e)"]
  have out: "update_pageOUT_pte_flags p va pd s = Inr s1"
    using entry_nonzero [OF wf u] u by (simp add: update_pageOUT_pte_flags_def walk_noalloc s1_def)
  have w1: "pt_wf pd xs s1" "kmem_ready xs s1"
    and p1: "pte_of pd vb s1 = (if same_page vb va then pte_out (pte_of pd va s) else pte_of pd vb s)" for vb
    using k1 by (simp_all add: s1_def pe)
  have u1: "table_of pd (PDX va) s1 = Some u"
  proof -
    have "u \<noteq> pd" "u mod PGSIZE = 0" using pt_wfD(4) [OF wf index_less(1) u] table_aligned [OF u] by auto
    then have "peek s1 (pd + 4 * PDX va) = peek s (pd + 4 * PDX va)"
      unfolding s1_def using peek_poke_ent [of u pd "PTX va" "PDX va"] pt_wfD(1) [OF wf] by simp
    then show ?thesis using u unfolding table_of_def by (simp only:)
  qed
  have pe1: "peek s1 ?e = pte_out (pte_of pd va s)" using p1 [of va] u1 by (simp add: pte_of_def)
  have np: "pte_out (pte_of pd va s) AND PTE_P = 0" "pte_out (pte_of pd va s) AND PTE_PG \<noteq> 0"
    using and_bit_0(1,4) [of "pte_out (pte_of pd va s)"] by (auto simp: pte_out_bits)
  define s2 where "s2 = lcr3 (V2P (pgdir (ptable s1 ! p))) (poke ?e (pte_in pa (peek s1 ?e)) s1)"
  note k2 = poke_entry [OF w1 u1, where v = "pte_in pa (peek s1 ?e)"]
  have "update_pageIN_pte_flags p va pa pd s1 = Inr s2"
    using entry_nonzero [OF w1(1) u1] u1 np(1) pe1
    by (simp add: update_pageIN_pte_flags_def walk_noalloc s2_def)
  moreover have "pte_of pd vb s2 = (if same_page vb va then pte_in pa (pte_out (pte_of pd va s)) else pte_of pd vb s)" for vb
    using k2(3) [of vb] p1 by (simp add: s2_def pe1)
  moreover have "pt_wf pd xs s2" "kmem_ready xs s2" using k2 by (simp_all add: s2_def)
  ultimately show ?thesis using out np p1 pte_round_trip [OF pa] by auto
qed

text \<open>
  An example: directory \<open>0x80401000\<close> with one table at \<open>0x80403000\<close>, whose entry 1 maps the page at
  \<open>0x80404000\<close>; process 1 runs in it and has a swap file.
\<close>

definition vm0 :: kvm where
  "vm0 = kmem.extend (pt0\<lparr>mem := store32 (store32 (\<lambda>_. 0) 0x80401000 0x403007) (0x80403000 + 4 * 1) 0x404007,
       ptable := (ptable pt0)[1 := zero_proc\<lparr>swapFile := Some 0, pid := 3, pgdir := 0x80401000\<rparr>],
       curproc := Some 1\<rparr>)
     \<lparr>kdata = 0x80110000, kpgdir = 0, cr3 = 0x401000, vm_buff = replicate 4096 0, swapdata = (\<lambda>_. [])\<rparr>"

lemma vm0_peek:
  assumes "p mod PGSIZE = 0" "unat i < 1024"
  shows "peek vm0 (p + 4 * i) = (if p = 0x80403000 \<and> i = 1 then 0x404007
    else if p = 0x80401000 \<and> i = 0 then 0x403007 else 0)"
proof -
  have z: "load32 (\<lambda>_. 0) a = 0" for a by (simp add: load32_def)
  have al: "(0x80401000 :: uint) mod PGSIZE = 0" "(0x80403000 :: uint) mod PGSIZE = 0"
    and u: "unat (0 :: uint) < 1024" "unat (1 :: uint) < 1024"
    by (simp_all add: PGSIZE_def)
  have v: "mem vm0 = store32 (store32 (\<lambda>_. 0) (0x80401000 + 4 * 0) 0x403007) (0x80403000 + 4 * 1) 0x404007"
    by (simp add: vm0_def kmem.defs)
  show ?thesis unfolding v load_store_ent [OF al(2) assms(1) u(2) assms(2)]
      load_store_ent [OF al(1) assms(1) u(1) assms(2)] z by auto
qed

lemma vm0_table:
  assumes "unat i < 1024"
  shows "table_of 0x80401000 i vm0 = (if i = 0 then Some 0x80403000 else None)"
proof -
  have "peek vm0 (0x80401000 + 4 * i) = (if i = 0 then 0x403007 else 0)"
    using vm0_peek [OF _ assms, of "0x80401000"] by (simp add: PGSIZE_def)
  then show ?thesis unfolding table_of_def by (simp only:) (simp add: PTE_P_def PTE_ADDR_def P2V_def KERNBASE_def)
qed

lemma vm0_wf: "pt_wf 0x80401000 [0x80402000] vm0"
  unfolding pt_wf_def by (auto simp: vm0_table PGSIZE_def split: if_splits)

lemma vm0_ready: "kmem_ready [0x80402000] vm0"
proof -
  have "peek vm0 0x80402000 = 0" using vm0_peek [of "0x80402000" 0] by (simp add: PGSIZE_def)
  then show ?thesis
    by (simp add: kmem_ready_def kmem_inv_def page_ok_def)
      (simp add: vm0_def kmem.defs pt0_def kmem0_def ksock.defs booted_def sinit_def PGSIZE_def V2P_def
        KERNBASE_def PHYSTOP_def)
qed

theorem swapped_entry_returns_witness:
  "\<exists>s1 s2. update_pageOUT_pte_flags 1 0x1000 0x80401000 vm0 = Inr s1 \<and>
     update_pageIN_pte_flags 1 0x1000 0x405000 0x80401000 s1 = Inr s2 \<and>
     PTE_ADDR (pte_of 0x80401000 0x1000 s2) = 0x405000"
proof -
  have "PDX 0x1000 = 0" by (simp add: PDX_def)
  then have "table_of 0x80401000 (PDX 0x1000) vm0 \<noteq> None" using vm0_table [of 0] by simp
  moreover have "(0x405000 :: uint) mod PGSIZE = 0" by (simp add: PGSIZE_def)
  ultimately show ?thesis using swapped_entry_returns [OF vm0_wf vm0_ready, of "0x1000" "0x405000" 1] by auto
qed

text \<open>
  C28. What is written to the swap file is what comes back: when a present page goes out through a free
  slot of the file table and no other slot holds its address, the slot it got is the first free one,
  and \<open>page_in\<close> for its address then returns the 4096 bytes the page had, puts the page into the given
  slot of the resident table, frees the file slot and restores the count of swapped pages.
\<close>

theorem page_out_in_round_trip:
  assumes "p < length (ptable s)" "q = ptable s ! p" "swapFile q \<noteq> None" "length (file_manager q) = MAX_FILE_PAGES"
    and i: "first_index (\<lambda>g. pg_state g = NOT_USED) (file_manager q) = Some i"
    and fresh: "\<forall>j < MAX_FILE_PAGES. j \<noteq> i \<longrightarrow> pg_vAddr (file_manager q ! j) \<noteq> va"
    and len: "4096 * i \<le> length (swapdata s p)" and ka: "user_ka va s = Some ka"
    and r: "r < length (ram_manager q)"
  shows "\<exists>s1 s2. page_out p va pd s = Inr (int i, s1) \<and>
    page_in p r va s1 = Inr (4096, mem_read (mem s) ka 4096, s2) \<and>
    pg_state (file_manager (ptable s2 ! p) ! i) = NOT_USED \<and>
    paged_out_count (ptable s2 ! p) = paged_out_count q \<and>
    ram_manager (ptable s2 ! p) ! r = \<lparr>pg_state = USED, pg_pgdir = pd, pg_vAddr = va\<rparr> \<and>
    mem s2 = mem s"
proof -
  let ?d = "mem_read (mem s) ka 4096"
  let ?g = "\<lparr>pg_state = USED, pg_pgdir = pd, pg_vAddr = va\<rparr>"
  have i15: "i < 15" using first_index_SomeD [OF i] assms(4) by (simp add: MAX_FILE_PAGES_def MAX_TOTAL_PAGES_def MAX_PSYC_PAGES_def)
  have im: "i < MAX_FILE_PAGES" using first_index_SomeD [OF i] assms(4) by simp
  have ld: "length ?d = 4096" by (simp add: mem_read_def)
  have off: "unat (PGSIZE * of_nat i) = 4096 * i" "PGSIZE * of_int (int i) = PGSIZE * of_nat i"
  proof -
    have "unat (of_nat i :: uint) = i" using i15 by (simp add: unat_of_nat_small)
    then show "unat (PGSIZE * of_nat i) = 4096 * i"
      using unat_mult_lem [of PGSIZE "of_nat i", THEN iffD1] i15 by (simp add: PGSIZE_def)
  qed simp
  let ?c = "content_write (PGSIZE * of_nat i) ?d (swapdata s p)"
  define s1 where "s1 = upd_proc p (\<lambda>q. q\<lparr>file_manager := (file_manager q)[i := ?g],
    paged_out_count := paged_out_count q + 1\<rparr>) (s\<lparr>swapdata := (swapdata s)(p := ?c)\<rparr>)"
  have wr: "content_writable (PGSIZE * of_nat i) 4096 (swapdata s p)"
    using len off(1) i15 by (simp add: content_writable_def MAXFILE_def NDIRECT_def NINDIRECT_def BSIZE_def)
  have out: "page_out p va pd s = Inr (int i, s1)"
    using wr ka assms(2,3) i
    by (simp add: page_out_def nextFreePageIndexInFile_def swap_write_def s1_def Let_def)
  have fm: "file_manager (ptable s1 ! p) = (file_manager q)[i := ?g]"
    using assms(1,2) by (simp add: s1_def)
  have find: "first_index (\<lambda>g. pg_vAddr g = va) (file_manager (ptable s1 ! p)) = Some i"
    unfolding fm using fresh im assms(4) by (intro first_index_unique) (auto simp: nth_list_update split: if_splits)
  have rd: "content_read (of_nat i * PGSIZE) 4096 (swapdata s1 p) = Some ?d"
    using off(1) len ld i15
    by (simp add: content_read_def content_write_def s1_def mult.commute upd_proc_def)
  have sf: "swapFile (ptable s1 ! p) \<noteq> None" using assms(1-3) by (simp add: s1_def)
  define s2 where "s2 = upd_proc p (\<lambda>q. q\<lparr>ram_manager := (ram_manager q)[r := file_manager q ! i],
      file_manager := (file_manager q)[i := (file_manager q ! i)\<lparr>pg_state := NOT_USED\<rparr>],
      paged_out_count := paged_out_count q - 1\<rparr>) s1"
  have "page_in p r va s1 = Inr (4096, ?d, s2)"
    using find rd sf ld by (simp add: page_in_def swap_read_def s2_def)
  moreover have "ptable s2 ! p = (ptable s1 ! p)\<lparr>ram_manager := (ram_manager (ptable s1 ! p))[r := ?g],
      file_manager := (file_manager (ptable s1 ! p))[i := ?g\<lparr>pg_state := NOT_USED\<rparr>],
      paged_out_count := paged_out_count (ptable s1 ! p) - 1\<rparr>"
    using assms(1,4) i15 fm by (simp add: s2_def s1_def MAX_FILE_PAGES_def MAX_TOTAL_PAGES_def MAX_PSYC_PAGES_def)
  moreover have "mem s2 = mem s" by (simp add: s2_def s1_def upd_proc_def)
  ultimately show ?thesis using out assms i15 fm
    by (simp add: s1_def MAX_FILE_PAGES_def MAX_TOTAL_PAGES_def MAX_PSYC_PAGES_def)
qed

lemma vm0_ka: "user_ka 0x1000 vm0 = Some 0x80404000"
proof -
  have "pte_of 0x80401000 0x1000 vm0 = 0x404007"
    using vm0_peek [of "0x80403000" 1] vm0_table [of 0] by (simp add: pte_of_def PDX_def PTX_def PGSIZE_def)
  moreover have "P2V (cr3 vm0) = 0x80401000" by (simp add: vm0_def kmem.defs P2V_def KERNBASE_def)
  ultimately show ?thesis by (simp add: user_ka_def KERNBASE_def PTE_P_def PTE_ADDR_def P2V_def)
qed

lemma vm0_proc: "ptable vm0 ! 1 = zero_proc\<lparr>swapFile := Some 0, pid := 3, pgdir := 0x80401000\<rparr>" "1 < length (ptable vm0)"
  by (simp_all add: vm0_def kmem.defs pt0_def kmem0_def ksock.defs booted_def sinit_def NPROC_def)

theorem page_out_in_round_trip_witness:
  "\<exists>s1 s2. page_out 1 0x1000 0x80401000 vm0 = Inr (0, s1) \<and>
    page_in 1 0 0x1000 s1 = Inr (4096, mem_read (mem vm0) 0x80404000 4096, s2)"
proof -
  define q where "q = ptable vm0 ! 1"
  have q: "swapFile q \<noteq> None" "file_manager q = replicate MAX_FILE_PAGES \<lparr>pg_state = NOT_USED, pg_pgdir = 0, pg_vAddr = 0\<rparr>"
    "length (file_manager q) = MAX_FILE_PAGES" "0 < length (ram_manager q)"
    unfolding q_def vm0_proc(1) by (simp_all add: zero_proc_def MAX_PSYC_PAGES_def)
  have "first_index (\<lambda>g. pg_state g = NOT_USED) (file_manager q) = Some 0"
    unfolding q(2) by (simp add: first_index_eq_Some MAX_FILE_PAGES_def MAX_TOTAL_PAGES_def MAX_PSYC_PAGES_def)
  moreover have "\<forall>j < MAX_FILE_PAGES. j \<noteq> 0 \<longrightarrow> pg_vAddr (file_manager q ! j) \<noteq> 0x1000" unfolding q(2) by simp
  ultimately show ?thesis
    using page_out_in_round_trip [OF vm0_proc(2) q_def q(1) q(3) _ _ _ vm0_ka q(4), of 0 "0x80401000"] by auto
qed

text \<open>Shrinking ends: below \<open>KERNBASE\<close> every turn of the loop moves up by at least a page.\<close>

definition loops_forever :: "'b kres \<Rightarrow> bool" where
  "loops_forever r \<longleftrightarrow> r = Inl (Undefined ''deallocuvm: the loop wraps around'')"

lemma loops_forever_kbind:
  "loops_forever (kbind m f) \<Longrightarrow> loops_forever m \<or> (\<exists>x. m = Inr x \<and> loops_forever (f x))"
  by (cases m) (auto simp: loops_forever_def)

lemma not_forever [simp]: "\<not> loops_forever (Inr x)" "\<not> loops_forever (Inl (Panic e))"
  "\<not> loops_forever (kfree v s)" "\<not> loops_forever (on_proc p (removePageFromRAM a pd) t)"
proof -
  show "\<not> loops_forever (Inr x)" "\<not> loops_forever (Inl (Panic e))" by (simp_all add: loops_forever_def)
  show "\<not> loops_forever (kfree v s)"
    by (auto simp: loops_forever_def kfree_def kmem_acquire_def kmem_release_def acquire_lock_def
        release_lock_def Let_def kres_simps)
  show "\<not> loops_forever (on_proc p (removePageFromRAM a pd) t)"
    by (auto simp: loops_forever_def on_proc_def removePageFromRAM_def deletePageFromRAM_def
        organizeFIFORAMqueue_def Let_def kres_simps split: option.splits if_splits)
qed

lemma next_directory:
  assumes "a mod PGSIZE = 0" "a < KERNBASE"
  shows "unat a + 4096 \<le> unat (PGADDR (PDX a + 1) 0 0 - PGSIZE + PGSIZE)"
    "(PGADDR (PDX a + 1) 0 0 - PGSIZE + PGSIZE) mod PGSIZE = 0"
proof -
  obtain k where k: "unat a = 4096 * k" using assms(1) unfolding aligned_unat by (metis mod_0_imp_dvd dvdE)
  let ?d = "unat a div 4194304"
  have "unat a < 0x80000000" using assms(2) by (simp add: KERNBASE_def word_less_nat_alt)
  then have d: "?d < 512" by (simp add: less_mult_imp_div_less)
  have "unat (PDX a + 1) = ?d + 1" using unat_add_small [of "PDX a" 1] d by (simp add: PDX_unat)
  then have u: "unat (PGADDR (PDX a + 1) 0 0) = 4194304 * (?d + 1)"
    using d unat_mult_lem [of "0x400000" "PDX a + 1", THEN iffD1]
    by (simp add: PGADDR_def push_bit_eq_mult mult.commute)
  have "unat a < 4194304 * (?d + 1)" using div_mult_mod_eq [of "unat a" 4194304] mod_less_divisor [of 4194304 "unat a"]
    by (simp add: algebra_simps)
  then have "4096 * k < 4096 * (1024 * (?d + 1))" unfolding k by simp
  then have "k < 1024 * (?d + 1)" by (simp only: mult_less_cancel1)
  then have "4096 * k + 4096 \<le> 4194304 * (?d + 1)" by simp
  then show "unat a + 4096 \<le> unat (PGADDR (PDX a + 1) 0 0 - PGSIZE + PGSIZE)" unfolding k [symmetric] by (simp add: u)
  show "(PGADDR (PDX a + 1) 0 0 - PGSIZE + PGSIZE) mod PGSIZE = 0"
  proof -
    have "unat (PGADDR (PDX a + 1) 0 0) = 4096 * (1024 * (?d + 1))" unfolding u by simp
    then show ?thesis unfolding aligned_unat by (metis diff_add_cancel mod_mult_self1_is_0)
  qed
qed

lemma deallocuvm_loop_ends:
  fixes s :: "'a kvm_scheme"
  assumes "a mod PGSIZE = 0" "oldsz \<le> KERNBASE" "unat oldsz \<le> unat a + 4096 * n"
  shows "\<not> loops_forever (deallocuvm_loop n pd p a oldsz s)"
  using assms
proof (induction n arbitrary: a s)
  case 0
  then have "\<not> a < oldsz" by (simp add: word_less_nat_alt)
  then show ?case by (simp add: deallocuvm_loop.simps)
next
  case (Suc n)
  show ?case
  proof (cases "a < oldsz")
    case True
    with Suc.prems(2) have lt: "a < KERNBASE" by simp
    then have "unat a + 4096 < 2 ^ 32" by (simp add: KERNBASE_def word_less_nat_alt)
    then have nx: "unat (a + PGSIZE) = unat a + 4096" by (rule unat_next_page)
    have al: "(a + PGSIZE) mod PGSIZE = 0" using Suc.prems(1) nx unfolding aligned_unat by simp
    have up: "\<not> loops_forever (deallocuvm_loop n pd p b oldsz s')"
      if "b mod PGSIZE = 0" "unat a + 4096 \<le> unat b" for b and s' :: "'a kvm_scheme"
      by (rule Suc.IH [OF that(1) Suc.prems(2)]) (use that(2) Suc.prems(3) in simp)
    note next1 = up [OF al nx [symmetric, THEN eq_refl]]
    note nextd = up [OF next_directory(2,1) [OF Suc.prems(1) lt]]
    show ?thesis
    proof
      assume "loops_forever (deallocuvm_loop (Suc n) pd p a oldsz s)"
      then show False using True next1 nextd
        by (subst (asm) deallocuvm_loop.simps)
          (auto simp: walk_noalloc Let_def split: if_splits dest!: loops_forever_kbind)
    qed
  next
    case False
    then show ?thesis by (subst deallocuvm_loop.simps) simp
  qed
qed

lemma PGROUNDUP_aligned: "PGROUNDUP x mod PGSIZE = 0"
  using PGROUNDDOWN_aligned [of "x + PGSIZE - 1"] by (simp add: PGROUNDUP_def PGROUNDDOWN_def)

text \<open>
  C36. Releasing user memory ends: for a size up to \<open>KERNBASE\<close>, which is what \<open>freevm\<close>, \<open>growproc\<close> and
  \<open>exec\<close> pass, the loop of \<open>deallocuvm\<close>, which skips a whole directory entry where no page table
  exists, stops within the number of pages of the range.
\<close>

theorem deallocuvm_ends:
  assumes "oldsz \<le> KERNBASE"
  shows "deallocuvm pd oldsz newsz s \<noteq> Inl (Undefined ''deallocuvm: the loop wraps around'')"
proof
  assume "deallocuvm pd oldsz newsz s = Inl (Undefined ''deallocuvm: the loop wraps around'')"
  then have "loops_forever (deallocuvm pd oldsz newsz s)" by (simp add: loops_forever_def)
  then obtain p where "loops_forever (deallocuvm_loop (pages_between (PGROUNDUP newsz) oldsz) pd p (PGROUNDUP newsz) oldsz s)"
    by (auto simp: deallocuvm_def split: option.splits if_splits dest!: loops_forever_kbind)
  moreover have "unat oldsz \<le> unat (PGROUNDUP newsz) + 4096 * pages_between (PGROUNDUP newsz) oldsz"
  proof -
    let ?k = "unat oldsz - unat (PGROUNDUP newsz)"
    have "?k \<le> 4096 * ((?k + 4095) div 4096)"
      using div_mult_mod_eq [of "?k + 4095" 4096] mod_less_divisor [of 4096 "?k + 4095"] by linarith
    then show ?thesis by (simp add: pages_between_def)
  qed
  ultimately show False using deallocuvm_loop_ends [OF PGROUNDUP_aligned assms] by blast
qed

theorem deallocuvm_ends_witness:
  "deallocuvm 0x80401000 0x3000 0x1000 vm0 \<noteq> Inl (Undefined ''deallocuvm: the loop wraps around'')"
  by (rule deallocuvm_ends) (simp add: KERNBASE_def)

end
