(* ===== verification/Pipe.thy ===== *)
theory Pipe
  imports Swap
begin

text \<open>
  Pipes, from \<^verbatim>\<open>pipe.c\<close>: a ring of \<^verbatim>\<open>PIPESIZE\<close> bytes with free-running 32-bit counters, a
  writer that sleeps while it is full and a reader that sleeps while it is empty. A call that sleeps
  ends with the point it sleeps at; its resume part runs the rest. The abstraction of a pipe is the
  list of bytes in it, and every interleaving of calls delivers the bytes in order. (\<^verbatim>\<open>pipealloc\<close>
  is with the file table.) A pipe is named by the address of its page.
\<close>

section \<open>Definitions\<close>

definition PIPESIZE :: uint where "PIPESIZE = 512"

record pipe =
  pdata :: "uchar list"
  nread :: uint
  nwrite :: uint
  readopen :: bool
  writeopen :: bool

record kpipe = kvm +
  pipes :: "nat \<Rightarrow> pipe"

definition upd_pipe :: "nat \<Rightarrow> (pipe \<Rightarrow> pipe) \<Rightarrow> 'a kpipe_scheme \<Rightarrow> 'a kpipe_scheme" where
  "upd_pipe i f s = s\<lparr>pipes := (pipes s)(i := f (pipes s i))\<rparr>"

definition myproc_killed :: "'a kproc_scheme \<Rightarrow> bool kres" where
  "myproc_killed s = (case curproc s of None \<Rightarrow> Inl (Undefined ''no process'')
     | Some p \<Rightarrow> Inr (killed (ptable s ! p)))"

definition pipeclose :: "nat \<Rightarrow> bool \<Rightarrow> 'a kpipe_scheme \<Rightarrow> 'a kpipe_scheme kres" where
  "pipeclose i writable s =
     kbind (acquire_lock (PipeLock i) s) (\<lambda>s1.
       kbind (if writable
              then wakeup (PipeRead i) (upd_pipe i (\<lambda>p. p\<lparr>writeopen := False\<rparr>) s1)
              else wakeup (PipeWrite i) (upd_pipe i (\<lambda>p. p\<lparr>readopen := False\<rparr>) s1)) (\<lambda>s2.
         if \<not> readopen (pipes s2 i) \<and> \<not> writeopen (pipes s2 i)
         then kbind (release_lock (PipeLock i) s2) (kfree (of_nat i))
         else release_lock (PipeLock i) s2))"

text \<open>
  What a call comes to: a return code with the bytes it has not written (or the bytes it read), or a
  sleep with what it needs to go on.
\<close>

datatype pipe_out = WReturn int "uchar list" | WSleeps "uchar list" int | RReturn int "uchar list" | RSleeps int

fun pipewrite_loop :: "nat \<Rightarrow> uchar list \<Rightarrow> int \<Rightarrow> 'a kpipe_scheme \<Rightarrow> (pipe_out \<times> 'a kpipe_scheme) kres" where
  "pipewrite_loop i [] n s =
     kbind (wakeup (PipeRead i) s) (\<lambda>s1.
       kbind (release_lock (PipeLock i) s1) (\<lambda>s2. Inr (WReturn n [], s2)))"
| "pipewrite_loop i (b # bs) n s =
     (let p = pipes s i
      in if nwrite p = nread p + PIPESIZE then
           kbind (myproc_killed s) (\<lambda>k.
             if \<not> readopen p \<or> k
             then kbind (release_lock (PipeLock i) s) (\<lambda>s1. Inr (WReturn (-1) (b # bs), s1))
             else kbind (wakeup (PipeRead i) s) (\<lambda>s1.
               kbind (sleep_begin (PipeWrite i) (PipeLock i) s1) (\<lambda>s2. Inr (WSleeps (b # bs) n, s2))))
         else pipewrite_loop i bs n (upd_pipe i (\<lambda>p.
                p\<lparr>pdata := (pdata p)[unat (nwrite p mod PIPESIZE) := b], nwrite := nwrite p + 1\<rparr>) s))"

definition pipewrite :: "nat \<Rightarrow> uchar list \<Rightarrow> 'a kpipe_scheme \<Rightarrow> (pipe_out \<times> 'a kpipe_scheme) kres" where
  "pipewrite i addr s =
     kbind (acquire_lock (PipeLock i) s) (pipewrite_loop i addr (int (length addr)))"

definition pipewrite_resume :: "nat \<Rightarrow> uchar list \<Rightarrow> int \<Rightarrow> 'a kpipe_scheme \<Rightarrow> (pipe_out \<times> 'a kpipe_scheme) kres" where
  "pipewrite_resume i rest n s = kbind (sleep_end (PipeLock i) s) (pipewrite_loop i rest n)"

fun piperead_copy :: "nat \<Rightarrow> pipe \<Rightarrow> uchar list \<times> pipe" where
  "piperead_copy 0 p = ([], p)"
| "piperead_copy (Suc n) p =
     (if nread p = nwrite p then ([], p)
      else let b = pdata p ! unat (nread p mod PIPESIZE); r = piperead_copy n (p\<lparr>nread := nread p + 1\<rparr>)
        in (b # fst r, snd r))"

definition piperead_body :: "nat \<Rightarrow> int \<Rightarrow> 'a kpipe_scheme \<Rightarrow> (pipe_out \<times> 'a kpipe_scheme) kres" where
  "piperead_body i n s =
     (if nread (pipes s i) = nwrite (pipes s i) \<and> writeopen (pipes s i) then
        kbind (myproc_killed s) (\<lambda>k.
          if k then kbind (release_lock (PipeLock i) s) (\<lambda>s1. Inr (RReturn (-1) [], s1))
          else kbind (sleep_begin (PipeRead i) (PipeLock i) s) (\<lambda>s1. Inr (RSleeps n, s1)))
      else
        let r = piperead_copy (nat n) (pipes s i)
        in kbind (wakeup (PipeWrite i) (upd_pipe i (\<lambda>_. snd r) s)) (\<lambda>s1.
             kbind (release_lock (PipeLock i) s1) (\<lambda>s2. Inr (RReturn (int (length (fst r))) (fst r), s2))))"

definition piperead :: "nat \<Rightarrow> int \<Rightarrow> 'a kpipe_scheme \<Rightarrow> (pipe_out \<times> 'a kpipe_scheme) kres" where
  "piperead i n s = kbind (acquire_lock (PipeLock i) s) (piperead_body i n)"

definition piperead_resume :: "nat \<Rightarrow> int \<Rightarrow> 'a kpipe_scheme \<Rightarrow> (pipe_out \<times> 'a kpipe_scheme) kres" where
  "piperead_resume i n s = kbind (sleep_end (PipeLock i) s) (piperead_body i n)"

section \<open>The bytes in a pipe\<close>

definition fill :: "pipe \<Rightarrow> nat" where
  "fill p = unat (nwrite p - nread p)"

definition pipeq :: "pipe \<Rightarrow> uchar list" where
  "pipeq p = map (\<lambda>k. pdata p ! (unat (nread p + of_nat k) mod 512)) [0..<fill p]"

definition pipe_ok :: "pipe \<Rightarrow> bool" where
  "pipe_ok p \<longleftrightarrow> length (pdata p) = 512 \<and> fill p \<le> 512"

lemma length_pipeq [simp]: "length (pipeq p) = fill p"
  by (simp add: pipeq_def)

lemma unat_mod_pipe: "unat (x mod PIPESIZE) = unat x mod 512"
  by (simp add: unat_mod_distrib PIPESIZE_def)

text \<open>The counters wrap at a multiple of the size, so the position is theirs modulo the size.\<close>

lemma unat_add_mod512: "unat (x + of_nat k :: uint) mod 512 = (unat x + k) mod 512"
proof -
  have "unat (x + of_nat k :: uint) = (unat x + k) mod 2 ^ 32"
    by (simp add: unat_word_ariths unat_of_nat mod_simps)
  moreover have "(512 :: nat) dvd 2 ^ 32" by simp
  ultimately show ?thesis by (simp only: mod_mod_cancel)
qed

lemma pipeq_nth: "k < fill p \<Longrightarrow> pipeq p ! k = pdata p ! ((unat (nread p) + k) mod 512)"
  by (simp add: pipeq_def unat_add_mod512)

lemma full_iff_fill: "pipe_ok p \<Longrightarrow> nwrite p = nread p + PIPESIZE \<longleftrightarrow> fill p = 512"
proof -
  have "nwrite p = nread p + PIPESIZE \<longleftrightarrow> nwrite p - nread p = PIPESIZE" by (simp add: algebra_simps)
  also have "\<dots> \<longleftrightarrow> fill p = 512" by (simp add: fill_def PIPESIZE_def word_unat_eq_iff)
  finally show ?thesis .
qed

lemma empty_iff_fill: "nread p = nwrite p \<longleftrightarrow> fill p = 0"
  by (auto simp: fill_def unat_eq_zero)

lemma put_ok:
  fixes b :: uchar
  assumes ok: "pipe_ok p" and room: "fill p < 512"
  defines "p' \<equiv> p\<lparr>pdata := (pdata p)[unat (nwrite p mod PIPESIZE) := b], nwrite := nwrite p + 1\<rparr>"
  shows "pipe_ok p'" "pipeq p' = pipeq p @ [b]"
proof -
  have "nwrite p' - nread p' = (nwrite p - nread p) + 1" by (simp add: p'_def)
  then have f: "fill p' = Suc (fill p)"
    using room unat_add_small [of "nwrite p - nread p" 1] by (simp add: fill_def)
  have "nwrite p = nread p + of_nat (fill p)" by (simp add: fill_def)
  then have pos: "unat (nwrite p mod PIPESIZE) = (unat (nread p) + fill p) mod 512"
    unfolding unat_mod_pipe using unat_add_mod512 [of "nread p" "fill p"] by simp
  show "pipe_ok p'" using ok room f by (simp add: pipe_ok_def p'_def)
  show "pipeq p' = pipeq p @ [b]"
  proof (rule nth_equalityI)
    show "length (pipeq p') = length (pipeq p @ [b])" using f by simp
    fix k assume "k < length (pipeq p')"
    then have k: "k < Suc (fill p)" using f by simp
    have "(unat (nread p) + k) mod 512 = (unat (nread p) + fill p) mod 512 \<longleftrightarrow> k = fill p"
    proof
      assume "(unat (nread p) + k) mod 512 = (unat (nread p) + fill p) mod 512"
      then have "512 dvd (unat (nread p) + fill p) - (unat (nread p) + k)"
        using mod_eq_dvd_iff_nat [of "unat (nread p) + k" "unat (nread p) + fill p" 512] k by simp
      then show "k = fill p" using k room by (auto dest: dvd_imp_le)
    qed simp
    then show "pipeq p' ! k = (pipeq p @ [b]) ! k"
      using k f ok by (auto simp: pipeq_nth nth_append p'_def pos nth_list_update pipe_ok_def)
  qed
qed

lemma get_ok:
  assumes ok: "pipe_ok p" and some: "fill p \<noteq> 0"
  defines "p' \<equiv> p\<lparr>nread := nread p + 1\<rparr>"
  shows "pipe_ok p'" "pipeq p = pdata p ! unat (nread p mod PIPESIZE) # pipeq p'"
proof -
  have "nwrite p - nread p \<noteq> 0" using some by (simp add: fill_def unat_eq_zero)
  then have "1 \<le> nwrite p - nread p" by (simp add: word_le_nat_alt Suc_le_eq unat_gt_0)
  then have "unat (nwrite p - nread p - 1) = unat (nwrite p - nread p) - 1"
    using unat_sub_small [of 1 "nwrite p - nread p"] by simp
  then have f: "fill p' = fill p - 1" by (simp add: fill_def p'_def diff_diff_eq)
  show "pipe_ok p'" using ok f by (auto simp: pipe_ok_def p'_def)
  show "pipeq p = pdata p ! unat (nread p mod PIPESIZE) # pipeq p'"
  proof (rule nth_equalityI)
    show "length (pipeq p) = length (pdata p ! unat (nread p mod PIPESIZE) # pipeq p')" using f some by simp
    fix k assume k: "k < length (pipeq p)"
    have "unat (nread p + 1) mod 512 = (unat (nread p) + 1) mod 512"
      using unat_add_mod512 [of "nread p" 1] by simp
    then have "(unat (nread p + 1) + j) mod 512 = (unat (nread p) + Suc j) mod 512" for j
      by (metis add_Suc_shift mod_add_left_eq Suc_eq_plus1)
    then show "pipeq p ! k = (pdata p ! unat (nread p mod PIPESIZE) # pipeq p') ! k"
      using k f by (cases k) (simp_all add: pipeq_nth unat_mod_pipe p'_def)
  qed
qed

section \<open>The interface\<close>

text \<open>A bounded first-in first-out channel of bytes, which the ring provides.\<close>

locale byte_channel =
  fixes contents :: "'c \<Rightarrow> uchar list" and ok :: "'c \<Rightarrow> bool" and cap :: nat
    and put :: "uchar \<Rightarrow> 'c \<Rightarrow> 'c" and get :: "'c \<Rightarrow> uchar \<times> 'c"
  assumes put_law: "ok c \<Longrightarrow> length (contents c) < cap \<Longrightarrow>
      ok (put b c) \<and> contents (put b c) = contents c @ [b]"
    and get_law: "ok c \<Longrightarrow> contents c \<noteq> [] \<Longrightarrow>
      ok (snd (get c)) \<and> contents c = fst (get c) # contents (snd (get c))"
begin

lemma puts: "ok c \<Longrightarrow> length (contents c) + length bs \<le> cap \<Longrightarrow>
  ok (fold put bs c) \<and> contents (fold put bs c) = contents c @ bs"
proof (induction bs arbitrary: c)
  case (Cons b bs)
  then have "ok (put b c) \<and> contents (put b c) = contents c @ [b]" by (intro put_law) auto
  with Cons.IH [of "put b c"] Cons.prems show ?case by simp
qed simp

fun gets :: "nat \<Rightarrow> 'c \<Rightarrow> uchar list \<times> 'c" where
  "gets 0 c = ([], c)"
| "gets (Suc n) c = (if contents c = [] then ([], c)
     else let r = gets n (snd (get c)) in (fst (get c) # fst r, snd r))"

lemma gets_ok: "ok c \<Longrightarrow> ok (snd (gets n c)) \<and> contents c = fst (gets n c) @ contents (snd (gets n c)) \<and>
  fst (gets n c) = take n (contents c)"
proof (induction n arbitrary: c)
  case (Suc n)
  show ?case
  proof (cases "contents c = []")
    case False
    with get_law Suc.prems have g: "ok (snd (get c))" "contents c = fst (get c) # contents (snd (get c))" by blast+
    let ?r = "gets n (snd (get c))"
    have eq: "gets (Suc n) c = (fst (get c) # fst ?r, snd ?r)" using False by (simp add: Let_def)
    have "take (Suc n) (contents c) = fst (get c) # take n (contents (snd (get c)))" by (metis g(2) take_Suc_Cons)
    with Suc.IH [OF g(1)] g(2) show ?thesis unfolding eq by (metis append_Cons fst_conv snd_conv)
  qed (use Suc.prems in simp)
qed simp

end

definition pipe_put :: "uchar \<Rightarrow> pipe \<Rightarrow> pipe" where
  "pipe_put b p = p\<lparr>pdata := (pdata p)[unat (nwrite p mod PIPESIZE) := b], nwrite := nwrite p + 1\<rparr>"

definition pipe_get :: "pipe \<Rightarrow> uchar \<times> pipe" where
  "pipe_get p = (pdata p ! unat (nread p mod PIPESIZE), p\<lparr>nread := nread p + 1\<rparr>)"

interpretation ring: byte_channel pipeq pipe_ok 512 pipe_put pipe_get
proof unfold_locales
  fix p b
  assume ok: "pipe_ok p"
  show "pipe_ok (pipe_put b p) \<and> pipeq (pipe_put b p) = pipeq p @ [b]" if "length (pipeq p) < 512"
    using put_ok [OF ok, of b] that by (simp add: pipe_put_def)
  show "pipe_ok (snd (pipe_get p)) \<and> pipeq p = fst (pipe_get p) # pipeq (snd (pipe_get p))" if "pipeq p \<noteq> []"
    using get_ok [OF ok] that by (simp add: pipe_get_def flip: length_0_conv)
qed

lemma piperead_copy_gets: "piperead_copy n p = ring.gets n p"
  by (induction n arbitrary: p)
    (simp_all add: empty_iff_fill pipe_get_def case_prod_beta Let_def flip: length_0_conv)

lemma piperead_copy_ok:
  assumes "pipe_ok p"
  shows "pipe_ok (snd (piperead_copy n p))" "fst (piperead_copy n p) = take n (pipeq p)"
    "pipeq (snd (piperead_copy n p)) = drop n (pipeq p)"
proof -
  note g = ring.gets_ok [OF assms, of n, folded piperead_copy_gets]
  show "pipe_ok (snd (piperead_copy n p))" "fst (piperead_copy n p) = take n (pipeq p)" using g by blast+
  then show "pipeq (snd (piperead_copy n p)) = drop n (pipeq p)"
    using g by (metis append_take_drop_id same_append_eq)
qed

section \<open>What the calls do to a pipe\<close>

lemma lock_pipes:
  "acquire_lock lk s = Inr s' \<Longrightarrow> pipes s' = pipes s" "release_lock lk s = Inr s' \<Longrightarrow> pipes s' = pipes s"
  "wakeup ch s = Inr s' \<Longrightarrow> pipes s' = pipes s"
  by (auto simp: acquire_lock_def release_lock_def wakeup_def wakeup1_def split: if_splits)

lemma upd_proc_pipes [simp]: "pipes (upd_proc p f s) = pipes s"
  by (simp add: upd_proc_def)

lemma sched_same: "sched s = Inr s' \<Longrightarrow> s' = s"
  by (auto simp: sched_def split: if_splits option.splits)

lemma sleep_pipes:
  "sleep_begin ch lk s = Inr s' \<Longrightarrow> pipes s' = pipes s" "sleep_end lk s = Inr s' \<Longrightarrow> pipes s' = pipes s"
proof -
  assume b: "sleep_begin ch lk s = Inr s'"
  then show "pipes s' = pipes s"
    by (auto simp: sleep_begin_def kres_simps split: option.splits if_splits dest!: sched_same lock_pipes)
next
  assume "sleep_end lk s = Inr s'"
  then show "pipes s' = pipes s"
    by (auto simp: sleep_end_def kres_simps Let_def split: option.splits if_splits dest!: lock_pipes)
qed

lemma upd_pipe_simps [simp]: "pipes (upd_pipe i f s) = (pipes s)(i := f (pipes s i))"
  by (simp add: upd_pipe_def)

fun unwritten :: "pipe_out \<Rightarrow> uchar list" where
  "unwritten (WReturn c rest) = rest"
| "unwritten (WSleeps rest n) = rest"
| "unwritten _ = []"

lemma pipewrite_loop_pipe:
  "pipewrite_loop i bs n s = Inr (out, s') \<Longrightarrow> pipe_ok (pipes s i) \<Longrightarrow>
   pipe_ok (pipes s' i) \<and> (\<exists>w. bs = w @ unwritten out \<and> pipeq (pipes s' i) = pipeq (pipes s i) @ w)"
proof (induction i bs n s rule: pipewrite_loop.induct)
  case (1 i n s)
  then show ?case by (auto simp: kres_simps dest!: lock_pipes)
next
  case (2 i b bs n s)
  show ?case
  proof (cases "nwrite (pipes s i) = nread (pipes s i) + PIPESIZE")
    case True
    with 2(2,3) show ?thesis
      by (auto simp: kres_simps split: if_splits dest!: lock_pipes sleep_pipes)
  next
    case False
    let ?s = "upd_pipe i (pipe_put b) s"
    have eq: "pipewrite_loop i (b # bs) n s = pipewrite_loop i bs n ?s"
      using False by (simp add: pipe_put_def [abs_def] Let_def)
    have "fill (pipes s i) < 512" using False full_iff_fill [OF 2(3)] 2(3) by (auto simp: pipe_ok_def)
    then have p: "pipe_ok (pipes ?s i)" "pipeq (pipes ?s i) = pipeq (pipes s i) @ [b]"
      using ring.put_law [OF 2(3), of b] by simp_all
    from 2(1) [OF refl False] 2(2) eq p(1) obtain w where
      "pipe_ok (pipes s' i)" "bs = w @ unwritten out" "pipeq (pipes s' i) = pipeq (pipes ?s i) @ w"
      by (auto simp: pipe_put_def [abs_def])
    then show ?thesis using p by (intro conjI exI [of _ "b # w"]) auto
  qed
qed

lemma piperead_body_pipe:
  assumes "piperead_body i n s = Inr (out, s')" "pipe_ok (pipes s i)"
  shows "pipe_ok (pipes s' i) \<and> (case out of
      RReturn c d \<Rightarrow> pipeq (pipes s i) = d @ pipeq (pipes s' i)
    | _ \<Rightarrow> pipes s' i = pipes s i)"
proof (cases "nread (pipes s i) = nwrite (pipes s i) \<and> writeopen (pipes s i)")
  case True
  with assms show ?thesis
    by (auto simp: piperead_body_def kres_simps split: if_splits dest!: lock_pipes sleep_pipes)
next
  case False
  note c = piperead_copy_ok [OF assms(2), of "nat n"]
  have "out = RReturn (int (length (fst (piperead_copy (nat n) (pipes s i))))) (fst (piperead_copy (nat n) (pipes s i)))"
    "pipes s' i = snd (piperead_copy (nat n) (pipes s i))"
    using False assms(1) unfolding piperead_body_def if_not_P [OF False] Let_def
    by (auto simp: kres_simps dest!: lock_pipes)
  with c show ?thesis by simp
qed

section \<open>Every interleaving\<close>

text \<open>
  The life of pipe \<open>i\<close>: calls to write and read it, resumed calls, closing, and anything else the
  kernel does in between. The lists collect the bytes accepted from writers and given to readers.
\<close>

inductive pipe_trace :: "nat \<Rightarrow> kpipe \<Rightarrow> uchar list \<Rightarrow> uchar list \<Rightarrow> bool" for i where
  fresh: "nread (pipes s i) = 0 \<Longrightarrow> nwrite (pipes s i) = 0 \<Longrightarrow> length (pdata (pipes s i)) = 512 \<Longrightarrow>
    pipe_trace i s [] []"
| other: "pipe_trace i s w r \<Longrightarrow> pipes s' i = pipes s i \<Longrightarrow> pipe_trace i s' w r"
| writes: "pipe_trace i s w r \<Longrightarrow> pipewrite i bs s = Inr (out, s') \<Longrightarrow> bs = d @ unwritten out \<Longrightarrow>
    pipe_trace i s' (w @ d) r"
| write_on: "pipe_trace i s w r \<Longrightarrow> pipewrite_resume i bs n s = Inr (out, s') \<Longrightarrow> bs = d @ unwritten out \<Longrightarrow>
    pipe_trace i s' (w @ d) r"
| reads: "pipe_trace i s w r \<Longrightarrow> piperead i n s = Inr (RReturn c d, s') \<Longrightarrow> pipe_trace i s' w (r @ d)"
| read_sleep: "pipe_trace i s w r \<Longrightarrow> piperead i n s = Inr (RSleeps m, s') \<Longrightarrow> pipe_trace i s' w r"
| read_on: "pipe_trace i s w r \<Longrightarrow> piperead_resume i n s = Inr (RReturn c d, s') \<Longrightarrow> pipe_trace i s' w (r @ d)"
| read_again: "pipe_trace i s w r \<Longrightarrow> piperead_resume i n s = Inr (RSleeps m, s') \<Longrightarrow> pipe_trace i s' w r"

lemma write_trace:
  assumes "pipewrite_loop i bs n s1 = Inr (out, s')" "pipes s1 = pipes s" "bs = d @ unwritten out"
    "pipe_ok (pipes s i)"
  shows "pipe_ok (pipes s' i) \<and> pipeq (pipes s' i) = pipeq (pipes s i) @ d"
  using pipewrite_loop_pipe [OF assms(1)] assms by auto

text \<open>
  C18. A pipe delivers: in every interleaving of writers and readers, whether their calls run through,
  sleep and are resumed, or fail, with the 32-bit counters wrapping around, the bytes accepted from
  the writers are, in order, the bytes given to the readers followed by the bytes now in the pipe, of
  which there are never more than 512.
\<close>

theorem pipe_is_fifo:
  assumes "pipe_trace i s w r"
  shows "w = r @ pipeq (pipes s i) \<and> length (pipeq (pipes s i)) \<le> 512"
proof -
  have "pipe_ok (pipes s i) \<and> w = r @ pipeq (pipes s i)"
    using assms
  proof induction
    case (fresh s)
    then show ?case by (simp add: pipe_ok_def fill_def pipeq_def)
  next
    case (writes s w r bs out s' d)
    then obtain s1 where "pipewrite_loop i bs (int (length bs)) s1 = Inr (out, s')" "pipes s1 = pipes s"
      by (auto simp: pipewrite_def kres_simps dest!: lock_pipes)
    from write_trace [OF this writes.hyps(3)] writes.IH show ?case by simp
  next
    case (write_on s w r bs n out s' d)
    then obtain s1 where "pipewrite_loop i bs n s1 = Inr (out, s')" "pipes s1 = pipes s"
      by (auto simp: pipewrite_resume_def kres_simps dest!: sleep_pipes)
    from write_trace [OF this write_on.hyps(3)] write_on.IH show ?case by simp
  next
    case (reads s w r n c d s')
    then show ?case
      by (auto simp: piperead_def kres_simps dest!: lock_pipes piperead_body_pipe)
  next
    case (read_sleep s w r n m s')
    then show ?case
      by (auto simp: piperead_def kres_simps dest!: lock_pipes piperead_body_pipe)
  next
    case (read_on s w r n c d s')
    then show ?case
      by (auto simp: piperead_resume_def kres_simps dest!: sleep_pipes piperead_body_pipe)
  next
    case (read_again s w r n m s')
    then show ?case
      by (auto simp: piperead_resume_def kres_simps dest!: sleep_pipes piperead_body_pipe)
  qed simp
  then show ?thesis by (simp add: pipe_ok_def)
qed

text \<open>Calls that need not wait return at once and leave no lock held.\<close>

lemma pipewrite_loop_room:
  "pipe_ok (pipes s i) \<Longrightarrow> fill (pipes s i) + length bs \<le> 512 \<Longrightarrow> held s = {PipeLock i} \<Longrightarrow>
   \<exists>s'. pipewrite_loop i bs n s = Inr (WReturn n [], s') \<and> held s' = {} \<and> pipe_ok (pipes s' i) \<and>
     pipeq (pipes s' i) = pipeq (pipes s i) @ bs"
proof (induction bs arbitrary: s)
  case Nil
  let ?s = "(wakeup1 (PipeRead i) s)\<lparr>held := {}\<rparr>"
  have "pipewrite_loop i [] n s = Inr (WReturn n [], ?s)"
    using Nil by (simp add: wakeup_ok release_lock_def)
  moreover have "pipes ?s = pipes s" by (simp add: wakeup1_def)
  ultimately show ?case using Nil by (intro exI [of _ ?s]) simp
next
  case (Cons b bs)
  let ?s = "upd_pipe i (pipe_put b) s"
  have lt: "fill (pipes s i) < 512" using Cons.prems by simp
  then have "\<not> nwrite (pipes s i) = nread (pipes s i) + PIPESIZE" using full_iff_fill [OF Cons.prems(1)] by simp
  then have eq: "pipewrite_loop i (b # bs) n s = pipewrite_loop i bs n ?s"
    by (simp add: pipe_put_def [abs_def] Let_def)
  have p: "pipe_ok (pipes ?s i)" "pipeq (pipes ?s i) = pipeq (pipes s i) @ [b]"
    using ring.put_law [OF Cons.prems(1), of b] lt by simp_all
  moreover from p(2) have "fill (pipes ?s i) = Suc (fill (pipes s i))" using length_pipeq [of "pipes ?s i"] by simp
  ultimately show ?case using Cons.IH [of ?s] Cons.prems unfolding eq by (auto simp: upd_pipe_def)
qed

lemma pipewrite_room:
  assumes "pipe_ok (pipes s i)" "fill (pipes s i) + length bs \<le> 512" "held s = {}"
  shows "\<exists>s1. pipewrite i bs s = Inr (WReturn (int (length bs)) [], s1) \<and> held s1 = {} \<and> pipe_ok (pipes s1 i) \<and>
    pipeq (pipes s1 i) = pipeq (pipes s i) @ bs"
proof -
  let ?s = "s\<lparr>held := {PipeLock i}\<rparr>"
  have "pipewrite i bs s = pipewrite_loop i bs (int (length bs)) ?s"
    using assms(3) by (simp add: pipewrite_def acquire_lock_def)
  moreover have "pipes ?s = pipes s" by simp
  ultimately show ?thesis using pipewrite_loop_room [of ?s i bs "int (length bs)"] assms by simp
qed

lemma piperead_some:
  assumes "pipe_ok (pipes s i)" "fill (pipes s i) \<noteq> 0" "held s = {}"
  shows "\<exists>s'. piperead i n s = Inr (RReturn (int (length (take (nat n) (pipeq (pipes s i))))) (take (nat n) (pipeq (pipes s i))), s') \<and>
    held s' = {} \<and> pipeq (pipes s' i) = drop (nat n) (pipeq (pipes s i))"
proof -
  let ?s = "s\<lparr>held := {PipeLock i}\<rparr>"
  let ?r = "piperead_copy (nat n) (pipes s i)"
  note c = piperead_copy_ok [OF assms(1), of "nat n"]
  have "\<not> (nread (pipes ?s i) = nwrite (pipes ?s i) \<and> writeopen (pipes ?s i))"
    using assms(2) empty_iff_fill [of "pipes s i"] by simp
  then have "piperead_body i n ?s = Inr (RReturn (int (length (fst ?r))) (fst ?r),
      (wakeup1 (PipeWrite i) (upd_pipe i (\<lambda>_. snd ?r) ?s))\<lparr>held := {}\<rparr>)"
    unfolding piperead_body_def by (simp add: if_not_P Let_def wakeup_ok release_lock_def upd_pipe_def)
  then show ?thesis using assms(3) c by (simp add: piperead_def acquire_lock_def wakeup1_def)
qed

text \<open>
  What is written can be read: on a pipe with room for the data \<open>pipewrite\<close> returns its length at
  once, and a \<open>piperead\<close> that follows returns at once with the oldest bytes of what was in the pipe
  and what was written, as many as it asks for, and leaves the rest; no lock stays held.
\<close>

theorem pipe_write_then_read:
  assumes "pipe_ok (pipes s i)" "held s = {}" "bs \<noteq> []" "length (pipeq (pipes s i)) + length bs \<le> 512"
    and "q = pipeq (pipes s i) @ bs"
  shows "\<exists>s1 s2. pipewrite i bs s = Inr (WReturn (int (length bs)) [], s1) \<and> held s1 = {} \<and>
    piperead i n s1 = Inr (RReturn (int (length (take (nat n) q))) (take (nat n) q), s2) \<and> held s2 = {} \<and>
    pipeq (pipes s2 i) = drop (nat n) q"
proof -
  obtain s1 where s1: "pipewrite i bs s = Inr (WReturn (int (length bs)) [], s1)" "held s1 = {}"
    "pipe_ok (pipes s1 i)" "pipeq (pipes s1 i) = q"
    using pipewrite_room [of s i bs] assms by auto
  have "fill (pipes s1 i) \<noteq> 0" using s1(4) assms(3,5) by (metis append_is_Nil_conv length_0_conv length_pipeq)
  with piperead_some [OF s1(3) _ s1(2), of n] s1 show ?thesis by auto
qed

definition pipe0 :: kpipe where
  "pipe0 = kvm.extend vm0 \<lparr>pipes = (\<lambda>_. \<lparr>pdata = replicate 512 0, nread = 0xFFFFFFFF, nwrite = 0xFFFFFFFF,
     readopen = True, writeopen = True\<rparr>)\<rparr>"

lemma pipe0_ok: "pipe_ok (pipes pipe0 i)" "held pipe0 = {}" "pipeq (pipes pipe0 i) = []"
  by (simp_all add: pipe0_def kvm.defs pipe_ok_def fill_def pipeq_def)
    (simp_all add: vm0_def kmem.defs pt0_def kmem0_def ksock.defs booted_def sinit_def)

theorem pipe_write_then_read_witness:
  "\<exists>s1 s2. pipewrite 0 [1, 2, 3] pipe0 = Inr (WReturn 3 [], s1) \<and>
    piperead 0 2 s1 = Inr (RReturn 2 [1, 2], s2) \<and> pipeq (pipes s2 0) = [3]"
  using pipe_write_then_read [OF pipe0_ok(1,2), of "[1, 2, 3]" 0 _ 2] by (auto simp: pipe0_ok)

definition pipe1 :: kpipe where
  "pipe1 = pipe0\<lparr>pipes := (\<lambda>_. \<lparr>pdata = replicate 512 0, nread = 0, nwrite = 0, readopen = True, writeopen = True\<rparr>)\<rparr>"

theorem pipe_is_fifo_witness:
  "\<exists>s1 s2. pipewrite 0 [1, 2, 3] pipe1 = Inr (WReturn 3 [], s1) \<and>
    piperead 0 2 s1 = Inr (RReturn 2 [1, 2], s2) \<and> [1, 2, 3] = [1, 2] @ pipeq (pipes s2 0)"
proof -
  have ok: "pipe_ok (pipes pipe1 0)" "held pipe1 = {}" "pipeq (pipes pipe1 0) = []"
    using pipe0_ok(2) by (simp_all add: pipe1_def pipe_ok_def fill_def pipeq_def)
  obtain s1 where w: "pipewrite 0 [1, 2, 3] pipe1 = Inr (WReturn 3 [], s1)" "held s1 = {}"
    "pipe_ok (pipes s1 0)" "pipeq (pipes s1 0) = [1, 2, 3]"
    using pipewrite_room [of pipe1 0 "[1, 2, 3]"] ok length_pipeq [of "pipes pipe1 0"] by auto
  have "fill (pipes s1 0) \<noteq> 0" using w(4) length_pipeq [of "pipes s1 0"] by auto
  then obtain s2 where r: "piperead 0 2 s1 = Inr (RReturn 2 [1, 2], s2)"
    using piperead_some [OF w(3) _ w(2), of 2] w(4) by auto
  have "pipe_trace 0 pipe1 [] []" by (rule pipe_trace.fresh) (simp_all add: pipe1_def)
  from pipe_trace.writes [OF this w(1), of "[1, 2, 3]"] have "pipe_trace 0 s1 [1, 2, 3] []" by simp
  from pipe_trace.reads [OF this r] have "pipe_trace 0 s2 [1, 2, 3] [1, 2]" by simp
  from pipe_is_fifo [OF this] w(1) r show ?thesis by blast
qed

end
