(* ===== verification/Ulib.thy ===== *)
theory Ulib
  imports CString
begin

text \<open>
  The user library: \<^verbatim>\<open>ulib.c\<close> and \<^verbatim>\<open>printf.c\<close>, and the word counter \<^verbatim>\<open>wc.c\<close> that uses
  them. String routines work on the byte memory; their loops stop only at a NUL, so they are partial
  and the lemmas show that they return. Output is the list of bytes written. The lemmas relate the
  number printer to the number reader and the counter to a specification on the whole text.
\<close>

section \<open>String routines\<close>

partial_function (option) strcpy_loop :: "memory \<Rightarrow> uint \<Rightarrow> uint \<Rightarrow> memory option" where
  "strcpy_loop m s t =
     (let m' = m(s := m t) in if m t \<noteq> 0 then strcpy_loop m' (s + 1) (t + 1) else Some m')"

definition strcpy :: "memory \<Rightarrow> uint \<Rightarrow> uint \<Rightarrow> memory option" where
  "strcpy m s t = strcpy_loop m s t"

partial_function (option) strcmp :: "memory \<Rightarrow> uint \<Rightarrow> uint \<Rightarrow> int option" where
  "strcmp m p q =
     (if m p \<noteq> 0 \<and> m p = m q then strcmp m (p + 1) (q + 1)
      else Some (int (unat (m p)) - int (unat (m q))))"

definition ustrlen :: "memory \<Rightarrow> uint \<Rightarrow> nat option" where
  "ustrlen m s = strlen_loop m s 0"

definition umemset :: "memory \<Rightarrow> uint \<Rightarrow> uint \<Rightarrow> uint \<Rightarrow> memory" where
  "umemset m dst c n = stosb m dst (ucast c) (unat n)"

partial_function (option) strchr :: "memory \<Rightarrow> uint \<Rightarrow> uchar \<Rightarrow> uint option" where
  "strchr m s c = (if m s = 0 then Some 0 else if m s = c then Some s else strchr m (s + 1) c)"

definition umemmove :: "memory \<Rightarrow> uint \<Rightarrow> uint \<Rightarrow> int \<Rightarrow> memory" where
  "umemmove m vdst vsrc n = memmove_up m vdst vsrc (nat n)"

text \<open>\<open>gets\<close> on the bytes that \<open>read\<close> will deliver: what it stores, and what stays unread.\<close>

fun gets_loop :: "uchar list \<Rightarrow> nat \<Rightarrow> uchar list \<times> uchar list" where
  "gets_loop inp 0 = ([], inp)"
| "gets_loop [] (Suc k) = ([], [])"
| "gets_loop (c # inp) (Suc k) =
     (if c = 10 \<or> c = 13 then ([c], inp) else let r = gets_loop inp k in (c # fst r, snd r))"

definition gets :: "uchar list \<Rightarrow> int \<Rightarrow> uchar list \<times> uchar list" where
  "gets inp n = gets_loop inp (nat (n - 1))"

text \<open>The result of \<open>atoi\<close> is a 32-bit integer and wraps.\<close>

fun atoi_loop :: "uchar list \<Rightarrow> uint \<Rightarrow> uint" where
  "atoi_loop [] n = n"
| "atoi_loop (c # s) n = (if 48 \<le> c \<and> c \<le> 57 then atoi_loop s (n * 10 + ucast c - 48) else n)"

definition atoi :: "uchar list \<Rightarrow> uint" where
  "atoi s = atoi_loop s 0"

section \<open>Printing\<close>

definition digit :: "uint \<Rightarrow> uchar" where
  "digit d = (if d < 10 then 48 + ucast d else 55 + ucast d)"

text \<open>
  The digits in the order the loop stores them, least significant first. The callers pass base 10 or
  16; the first line only keeps the definition total.
\<close>

function print_digits :: "uint \<Rightarrow> uint \<Rightarrow> uchar list" where
  "print_digits b x =
     (if b < 2 then [] else digit (x mod b) # (if x div b \<noteq> 0 then print_digits b (x div b) else []))"
  by pat_completeness auto
termination
proof (relation "measure (\<lambda>(b, x). unat x)", goal_cases)
  case (2 b x)
  have "x \<noteq> 0" using 2(2) by auto
  then have "unat x div unat b < unat x"
    using 2(1) by (intro div_less_dividend) (auto simp: word_less_nat_alt unat_gt_0)
  then show ?case by (simp add: unat_div_distrib)
qed simp

declare print_digits.simps [simp del]

definition printint :: "uint \<Rightarrow> uint \<Rightarrow> bool \<Rightarrow> uchar list" where
  "printint xx b sign =
     (let neg = (sign \<and> xx <s 0); x = (if neg then - xx else xx);
          buf = print_digits b x @ (if neg then [45] else [])
      in rev buf)"

text \<open>
  The format interpreter, with the memory the pointers point into and the words passed after the
  format; a directive without an argument reads beyond them.
\<close>

definition string_at :: "memory \<Rightarrow> uint \<Rightarrow> uchar list kres" where
  "string_at m a = (if a = 0 then Inr (cbytes ''(null)'')
     else case strlen m a of None \<Rightarrow> Inl (Undefined ''unterminated string'') | Some n \<Rightarrow> Inr (mem_read m a n))"

fun printf_loop :: "memory \<Rightarrow> uchar list \<Rightarrow> bool \<Rightarrow> uint list \<Rightarrow> uchar list kres" where
  "printf_loop m [] st ap = Inr []"
| "printf_loop m (c # fmt) st ap =
     (let out = (\<lambda>d ap'. kbind (printf_loop m fmt False ap') (\<lambda>r. Inr (d @ r)))
      in if \<not> st then
           (if c = 37 then printf_loop m fmt True ap else out [c] ap)
         else if c = 100 then
           (case ap of [] \<Rightarrow> Inl (Undefined ''printf: argument'') | a # ap' \<Rightarrow> out (printint a 10 True) ap')
         else if c = 120 \<or> c = 112 then
           (case ap of [] \<Rightarrow> Inl (Undefined ''printf: argument'') | a # ap' \<Rightarrow> out (printint a 16 False) ap')
         else if c = 115 then
           (case ap of [] \<Rightarrow> Inl (Undefined ''printf: argument'')
            | a # ap' \<Rightarrow> kbind (string_at m a) (\<lambda>d. out d ap'))
         else if c = 99 then
           (case ap of [] \<Rightarrow> Inl (Undefined ''printf: argument'') | a # ap' \<Rightarrow> out [ucast a] ap')
         else if c = 37 then out [37] ap
         else out [37, c] ap)"

definition printf :: "memory \<Rightarrow> uchar list \<Rightarrow> uint list \<Rightarrow> uchar list kres" where
  "printf m fmt ap = printf_loop m fmt False ap"

section \<open>Counting words\<close>

definition is_space :: "uchar \<Rightarrow> bool" where
  "is_space c \<longleftrightarrow> c \<in> {32, 13, 9, 10, 11}"

record wc_state =
  wc_l :: nat
  wc_w :: nat
  wc_c :: nat
  wc_inword :: bool

definition wc_byte :: "wc_state \<Rightarrow> uchar \<Rightarrow> wc_state" where
  "wc_byte s b =
     (let s1 = s\<lparr>wc_c := wc_c s + 1\<rparr>;
          s2 = (if b = 10 then s1\<lparr>wc_l := wc_l s1 + 1\<rparr> else s1)
      in if is_space b then s2\<lparr>wc_inword := False\<rparr>
         else if \<not> wc_inword s2 then s2\<lparr>wc_w := wc_w s2 + 1, wc_inword := True\<rparr>
         else s2)"

text \<open>\<open>wc\<close> on the chunks the reads return.\<close>

definition wc :: "uchar list list \<Rightarrow> wc_state" where
  "wc chunks = foldl (foldl wc_byte) \<lparr>wc_l = 0, wc_w = 0, wc_c = 0, wc_inword = False\<rparr> chunks"

section \<open>Lemmas\<close>

lemma ucast_digit:
  assumes "(d :: uint) < 10"
  shows "ucast (digit d) = (d + 48 :: uint)" "48 \<le> digit d" "digit d \<le> 57"
proof -
  have d: "unat d < 10" using assms by (simp add: word_less_nat_alt)
  have u: "unat (ucast d :: uchar) = unat d" using d by (simp add: unsigned_ucast_eq take_bit_eq_mod)
  have "unat (48 + ucast d :: uchar) = 48 + unat d" using d u by (simp add: unat_word_ariths)
  then have dg: "unat (digit d) = 48 + unat d" using assms by (simp add: digit_def)
  have "unat (ucast (digit d) :: uint) = 48 + unat d" using dg d by (simp add: unsigned_ucast_eq take_bit_eq_mod)
  moreover have "unat (d + 48) = 48 + unat d" using d unat_add_small [of d 48] by simp
  ultimately show "ucast (digit d) = (d + 48 :: uint)" by (simp add: word_unat_eq_iff)
  show "48 \<le> digit d" "digit d \<le> 57" using dg d by (simp_all add: word_le_nat_alt)
qed

lemma mod10_less: "(x :: uint) mod 10 < 10"
  by (simp add: word_less_nat_alt unat_mod_distrib)

lemma div_mod10: "(x :: uint) div 10 * 10 + x mod 10 = x"
  by (simp add: word_mod_div_equality)

lemma print_digits_last: "x div 10 = 0 \<Longrightarrow> print_digits 10 x = [digit (x mod 10)]"
  and print_digits_more: "x div 10 \<noteq> 0 \<Longrightarrow> print_digits 10 x = digit (x mod 10) # print_digits 10 (x div 10)"
  by (subst print_digits.simps, simp)+

lemma digits_only: "\<forall>c \<in> set (print_digits 10 x). 48 \<le> c \<and> c \<le> 57"
proof (induction "unat x" arbitrary: x rule: less_induct)
  case less
  show ?case
  proof (cases "x div 10 = 0")
    case True
    then show ?thesis using ucast_digit(2,3) [OF mod10_less] by (simp add: print_digits_last)
  next
    case False
    then have "x \<noteq> 0" by auto
    then have "unat (x div 10) < unat x" by (simp add: unat_div_distrib unat_gt_0 div_less_dividend)
    with less False show ?thesis using ucast_digit(2,3) [OF mod10_less] by (simp add: print_digits_more)
  qed
qed

lemma atoi_loop_snoc:
  "\<forall>c \<in> set s. 48 \<le> c \<and> c \<le> 57 \<Longrightarrow> 48 \<le> d \<Longrightarrow> d \<le> 57 \<Longrightarrow>
   atoi_loop (s @ [d]) n = atoi_loop s n * 10 + ucast d - 48"
  by (induction s arbitrary: n) auto

lemma atoi_digits: "atoi (rev (print_digits 10 x)) = x"
proof (induction "unat x" arbitrary: x rule: less_induct)
  case less
  note dg = ucast_digit [OF mod10_less [of x]]
  show ?case
  proof (cases "x div 10 = 0")
    case True
    then have "x mod 10 = x" using div_mod10 [of x] by simp
    then show ?thesis using True dg by (simp add: atoi_def print_digits_last)
  next
    case False
    then have "x \<noteq> 0" by auto
    then have "unat (x div 10) < unat x" by (simp add: unat_div_distrib unat_gt_0 div_less_dividend)
    from less [OF this] have IH: "atoi_loop (rev (print_digits 10 (x div 10))) 0 = x div 10" by (simp add: atoi_def)
    have all: "\<forall>c \<in> set (rev (print_digits 10 (x div 10))). 48 \<le> c \<and> c \<le> 57" using digits_only by simp
    have "print_digits 10 x = digit (x mod 10) # print_digits 10 (x div 10)"
      using False by (rule print_digits_more)
    then have "atoi (rev (print_digits 10 x)) = x div 10 * 10 + (x mod 10 + 48) - 48"
      unfolding atoi_def using atoi_loop_snoc [OF all dg(2,3), of 0] IH dg(1) by simp
    then show ?thesis using div_mod10 [of x] by (simp add: add.assoc [symmetric])
  qed
qed

lemma digits_length: "unat x < 10 ^ Suc k \<Longrightarrow> length (print_digits 10 x) \<le> Suc k"
proof (induction k arbitrary: x)
  case 0
  then have "x div 10 = 0" by (simp add: word_unat_eq_iff unat_div_distrib)
  then show ?case by (simp add: print_digits_last)
next
  case (Suc k)
  have "unat (x div 10) < 10 ^ Suc k"
    using Suc.prems by (simp add: unat_div_distrib div_less_iff_less_mult mult.commute)
  with Suc.IH [of "x div 10"] show ?case
    by (cases "x div 10 = 0") (simp_all add: print_digits_last print_digits_more)
qed

section \<open>Properties\<close>

text \<open>
  C39. Numbers survive printing: for every 32-bit integer, also the most negative one, \<open>printint\<close> in
  base 10 writes an optional minus sign, exactly when the number is negative, and decimal digits that
  \<open>atoi\<close> reads back as the magnitude; it never stores more than 11 characters in its buffer of 16.
\<close>

theorem printint_atoi:
  shows "\<exists>ds. printint xx 10 True = (if xx <s 0 then 45 # ds else ds) \<and>
    atoi ds = (if xx <s 0 then - xx else xx) \<and> (\<forall>c \<in> set ds. 48 \<le> c \<and> c \<le> 57) \<and>
    length (printint xx 10 True) \<le> 11"
proof -
  let ?x = "if xx <s 0 then - xx else xx"
  have len: "length (print_digits 10 ?x) \<le> 10"
    using digits_length [of ?x 9] less_trans [OF uint_less_pow [of ?x], of "10 ^ 10"] by simp
  have "printint xx 10 True = (if xx <s 0 then 45 # rev (print_digits 10 ?x) else rev (print_digits 10 ?x))"
    by (simp add: printint_def Let_def)
  moreover have "\<forall>c \<in> set (rev (print_digits 10 ?x)). 48 \<le> c \<and> c \<le> 57" using digits_only by simp
  ultimately show ?thesis using len atoi_digits [of ?x]
    by (cases "xx <s 0") (intro exI [of _ "rev (print_digits 10 ?x)"]; simp)+
qed

theorem printint_atoi_witness: "\<exists>ds. printint (-7) 10 True = 45 # ds \<and> atoi ds = 7"
proof -
  have "(-7 :: uint) <s 0" by (simp add: word_sless_alt)
  then show ?thesis using printint_atoi [of "-7"] by auto
qed

definition word_start :: "uchar list \<Rightarrow> nat \<Rightarrow> bool" where
  "word_start t i \<longleftrightarrow> \<not> is_space (t ! i) \<and> (i = 0 \<or> is_space (t ! (i - 1)))"

lemma wc_fold:
  assumes "s = foldl wc_byte \<lparr>wc_l = 0, wc_w = 0, wc_c = 0, wc_inword = False\<rparr> t"
  shows "wc_c s = length t \<and> wc_l s = length (filter (\<lambda>b. b = 10) t) \<and>
    wc_w s = card {i. i < length t \<and> word_start t i} \<and> (wc_inword s \<longleftrightarrow> t \<noteq> [] \<and> \<not> is_space (last t))"
  using assms
proof (induction t arbitrary: s rule: rev_induct)
  case (snoc b t)
  let ?S = "\<lambda>t. {i. i < length t \<and> word_start t i}"
  define s0 where "s0 = foldl wc_byte \<lparr>wc_l = 0, wc_w = 0, wc_c = 0, wc_inword = False\<rparr> t"
  note IH = snoc.IH [OF s0_def]
  have s: "s = wc_byte s0 b" using snoc.prems by (simp add: s0_def)
  have old: "word_start (t @ [b]) i = word_start t i" if "i < length t" for i
    using that by (auto simp: word_start_def nth_append)
  have new: "word_start (t @ [b]) (length t) \<longleftrightarrow> \<not> is_space b \<and> \<not> wc_inword s0"
    using IH by (cases "t = []") (auto simp: word_start_def nth_append last_conv_nth)
  have "?S (t @ [b]) = ?S t \<union> (if word_start (t @ [b]) (length t) then {length t} else {})"
    using old by (auto simp: less_Suc_eq)
  then have "card (?S (t @ [b])) = card (?S t) + (if \<not> is_space b \<and> \<not> wc_inword s0 then 1 else 0)"
    unfolding new by simp
  with IH show ?case by (auto simp: s wc_byte_def Let_def)
qed simp

text \<open>
  \<open>wc\<close> counts lines, words and characters of the text, however the reads cut it: the characters
  are its length, the lines its newlines, the words its positions that hold a non-space and are first
  or follow a space.
\<close>

theorem wc_counts:
  "wc_c (wc chunks) = length (concat chunks) \<and>
   wc_l (wc chunks) = length (filter (\<lambda>b. b = 10) (concat chunks)) \<and>
   wc_w (wc chunks) = card {i. i < length (concat chunks) \<and> \<not> is_space (concat chunks ! i) \<and>
     (i = 0 \<or> is_space (concat chunks ! (i - 1)))}"
proof -
  have "foldl (foldl f) a xs = foldl f a (concat xs)" for f :: "'x \<Rightarrow> 'y \<Rightarrow> 'x" and a xs
    by (induction xs arbitrary: a) auto
  then have "wc chunks = foldl wc_byte \<lparr>wc_l = 0, wc_w = 0, wc_c = 0, wc_inword = False\<rparr> (concat chunks)"
    by (simp add: wc_def)
  from wc_fold [OF this] show ?thesis by (simp add: word_start_def)
qed

lemma strcmp_cstr:
  "cstr m p xs \<Longrightarrow> cstr m q ys \<Longrightarrow> \<exists>r. strcmp m p q = Some r \<and> (r = 0 \<longleftrightarrow> xs = ys)"
proof (induction xs arbitrary: p q ys)
  case Nil
  then show ?case by (cases ys; subst strcmp.simps) (auto simp: uint_0_iff)
next
  case (Cons x xs)
  show ?case
  proof (cases ys)
    case Nil
    then show ?thesis using Cons.prems by (subst strcmp.simps) (simp add: uint_0_iff)
  next
    case (Cons y zs)
    show ?thesis
    proof (cases "x = y")
      case True
      with Cons Cons.prems have "strcmp m p q = strcmp m (p + 1) (q + 1)" by (subst strcmp.simps) simp
      then show ?thesis using Cons.IH [of "p + 1" "q + 1" zs] Cons.prems Cons True by auto
    next
      case False
      then show ?thesis using Cons Cons.prems by (subst strcmp.simps) (auto simp: word_uint_eq_iff)
    qed
  qed
qed

lemma strcpy_loop_cstr:
  "cstr m t xs \<Longrightarrow> (\<And>i. i \<le> length xs \<Longrightarrow> length xs < unat (t + of_nat i - s)) \<Longrightarrow> length xs < 2 ^ 32 \<Longrightarrow>
   strcpy_loop m s t = Some (mem_write m s (xs @ [0]))"
proof (induction xs arbitrary: m s t)
  case Nil
  then show ?case by (subst strcpy_loop.simps) (simp add: Let_def)
next
  case (Cons x xs)
  have away: "t + of_nat i \<noteq> s" if "i \<le> length (x # xs)" for i
    using Cons.prems(2) [OF that] by auto
  have c: "cstr (m(s := x)) (t + 1) xs"
  proof -
    have "t + 1 + of_nat i \<noteq> s" if "i \<le> length xs" for i
      using away [of "Suc i"] that by (simp add: add.assoc)
    then show ?thesis using Cons.prems(1) by (subst cstr_update) auto
  qed
  have far: "length xs < unat (t + 1 + of_nat i - (s + 1))" if "i \<le> length xs" for i
  proof -
    have "t + 1 + of_nat i - (s + 1) = t + of_nat i - s" by simp
    moreover have "length (x # xs) < unat (t + of_nat i - s)" using Cons.prems(2) [of i] that by simp
    ultimately show ?thesis by (metis Suc_lessD length_Cons)
  qed
  have "strcpy_loop m s t = strcpy_loop (m(s := x)) (s + 1) (t + 1)"
    using Cons.prems(1) by (subst strcpy_loop.simps) (simp add: Let_def)
  also have "\<dots> = Some (mem_write (m(s := x)) (s + 1) (xs @ [0]))"
    using Cons.prems(3) by (intro Cons.IH [OF c far]) auto
  finally show ?case by simp
qed

text \<open>
  The unbounded string routines return on NUL-terminated strings and do what they should:
  \<open>strcmp\<close> returns zero exactly on equal strings, and \<open>strcpy\<close> to a destination that the source does
  not reach writes the string with its terminator and nothing else.
\<close>

theorem user_string_routines:
  assumes "cstr m t xs" "cstr m q ys" "length xs < 2 ^ 32"
    and "\<And>i. i \<le> length xs \<Longrightarrow> length xs < unat (t + of_nat i - s)"
  shows "(\<exists>r. strcmp m t q = Some r \<and> (r = 0 \<longleftrightarrow> xs = ys)) \<and> strcpy m s t = Some (mem_write m s (xs @ [0]))"
  using strcmp_cstr [OF assms(1,2)] strcpy_loop_cstr [OF assms(1,4,3)] by (simp add: strcpy_def)

theorem user_string_routines_witness:
  "let m = (\<lambda>a. 0)(0x100 := 72, 0x101 := 105) in
   strcpy m 0x200 0x100 = Some (mem_write m 0x200 [72, 105, 0])"
proof -
  let ?m = "(\<lambda>a. 0)(0x100 := 72, 0x101 := 105) :: memory"
  have c: "cstr ?m 0x100 [72, 105]" by simp
  have l: "length [72, 105 :: uchar] < 2 ^ 32" by simp
  have "length [72, 105 :: uchar] < unat (0x100 + of_nat i - 0x200 :: uint)" if "i \<le> length [72, 105 :: uchar]" for i
  proof -
    from that have "i = 0 \<or> i = 1 \<or> i = 2" by auto
    then show ?thesis by auto
  qed
  from user_string_routines [OF c c l this] show ?thesis by (simp add: Let_def)
qed

fun escape :: "uchar list \<Rightarrow> uchar list" where
  "escape [] = []"
| "escape (c # t) = (if c = 37 then 37 # 37 # escape t else c # escape t)"

text \<open>
  \<open>printf\<close> prints text as it is: a text whose percent signs are doubled prints as the text, with
  any arguments left over for the directives that follow.
\<close>

theorem printf_escaped:
  "printf m (escape t @ fmt) ap = kbind (printf m fmt ap) (\<lambda>r. Inr (t @ r))"
proof -
  have "printf_loop m (escape t @ fmt) False ap = kbind (printf_loop m fmt False ap) (\<lambda>r. Inr (t @ r))"
  proof (induction t)
    case Nil
    then show ?case by (cases "printf_loop m fmt False ap") auto
  next
    case (Cons c t)
    then show ?case by (simp add: kbind_assoc Let_def)
  qed
  then show ?thesis by (simp add: printf_def)
qed

end
