(* ===== verification/Console.thy ===== *)
theory Console
  imports Pipe Ulib
begin

text \<open>
  The console driver, \<^verbatim>\<open>console.c\<close>: formatted kernel output, the text screen with its cursor, the
  line editor run by the keyboard interrupt, and reading and writing the console. Output goes to the
  serial line (a list of bytes) and to the screen (an array of 16-bit cells). The line editor keeps
  three free-running counters into a ring of 128 bytes; the lemmas show that the ring is a queue of
  finished input followed by the line being edited.
\<close>

section \<open>State\<close>

record input_t =
  ibuf :: "uchar list"
  ir :: uint
  iw :: uint
  ie :: uint

record kcons = kpipe +
  cons_locking :: bool
  panicked :: bool
  uart :: "uchar list"
  crt :: "ushort list"
  crt_pos :: int
  input :: input_t

section \<open>Output\<close>

text \<open>The screen. \<open>BACKSPACE\<close> is a character code of its own; the cell at the cursor is blanked.\<close>

definition BACKSPACE :: int where "BACKSPACE = 0x100"

definition cga_place :: "int \<Rightarrow> int \<Rightarrow> ushort list \<Rightarrow> int \<times> ushort list" where
  "cga_place c pos cells =
     (if c = 10 then (pos + (80 - pos mod 80), cells)
      else if c = BACKSPACE then (if pos > 0 then pos - 1 else pos, cells)
      else (pos + 1, cells[nat pos := (of_int c AND 0xff) OR 0x0700]))"

definition cga_scroll :: "int \<Rightarrow> ushort list \<Rightarrow> int \<times> ushort list" where
  "cga_scroll pos cells =
     (if pos div 80 \<ge> 24
      then let p = pos - 80; moved = take (23 * 80) (drop 80 cells) @ drop (23 * 80) cells
        in (p, take (nat p) moved @ replicate (24 * 80 - nat p) 0 @ drop (24 * 80) moved)
      else (pos, cells))"

definition cgaputc :: "int \<Rightarrow> 'a kcons_scheme \<Rightarrow> 'a kcons_scheme kres" where
  "cgaputc c s =
     (let r = cga_place c (crt_pos s) (crt s)
      in if fst r < 0 \<or> fst r > 25 * 80 then Inl (Panic ''pos under/overflow'')
         else let r2 = cga_scroll (fst r) (snd r)
           in Inr (s\<lparr>crt_pos := fst r2, crt := (snd r2)[nat (fst r2) := 32 OR 0x0700]\<rparr>))"

definition consputc :: "int \<Rightarrow> 'a kcons_scheme \<Rightarrow> 'a kcons_scheme kres" where
  "consputc c s =
     (if panicked s then Inl (Undefined ''frozen after a panic'')
      else cgaputc c (s\<lparr>uart := uart s @ (if c = BACKSPACE then [8, 32, 8] else [of_int c])\<rparr>))"

fun consputs :: "uchar list \<Rightarrow> 'a kcons_scheme \<Rightarrow> 'a kcons_scheme kres" where
  "consputs [] s = Inr s"
| "consputs (b # bs) s = kbind (consputc (uint b) s) (consputs bs)"

text \<open>The kernel's number printer differs from the user's in the case of its digits.\<close>

definition kdigit :: "uint \<Rightarrow> uchar" where
  "kdigit d = (if d < 10 then 48 + ucast d else 87 + ucast d)"

function kprint_digits :: "uint \<Rightarrow> uint \<Rightarrow> uchar list" where
  "kprint_digits b x =
     (if b < 2 then [] else kdigit (x mod b) # (if x div b \<noteq> 0 then kprint_digits b (x div b) else []))"
  by pat_completeness auto
termination
proof (relation "measure (\<lambda>(b, x). unat x)", goal_cases)
  case (2 b x)
  have "x \<noteq> 0" using 2(2) by auto
  then have "unat x div unat b < unat x"
    using 2(1) by (intro div_less_dividend) (auto simp: word_less_nat_alt unat_gt_0)
  then show ?case by (simp add: unat_div_distrib)
qed simp

declare kprint_digits.simps [simp del]

definition kprintint :: "uint \<Rightarrow> uint \<Rightarrow> bool \<Rightarrow> uchar list" where
  "kprintint xx b sign =
     (let neg = (sign \<and> xx <s 0); x = (if neg then - xx else xx)
      in rev (kprint_digits b x @ (if neg then [45] else [])))"

text \<open>The bytes of a formatted message; a format that ends in a percent sign stops there.\<close>

fun cformat :: "memory \<Rightarrow> uchar list \<Rightarrow> uint list \<Rightarrow> uchar list kres" where
  "cformat m [] argp = Inr []"
| "cformat m [c] argp = (if c = 37 then Inr [] else Inr [c])"
| "cformat m (c # d # fmt) argp =
     (let out = (\<lambda>x argp'. kbind (cformat m fmt argp') (\<lambda>r. Inr (x @ r)))
      in if c \<noteq> 37 then kbind (cformat m (d # fmt) argp) (\<lambda>r. Inr (c # r))
         else if d = 100 then
           (case argp of [] \<Rightarrow> Inl (Undefined ''cprintf: argument'') | a # as \<Rightarrow> out (kprintint a 10 True) as)
         else if d = 120 \<or> d = 112 then
           (case argp of [] \<Rightarrow> Inl (Undefined ''cprintf: argument'') | a # as \<Rightarrow> out (kprintint a 16 False) as)
         else if d = 115 then
           (case argp of [] \<Rightarrow> Inl (Undefined ''cprintf: argument'')
            | a # as \<Rightarrow> kbind (string_at m a) (\<lambda>x. out x as))
         else if d = 37 then out [37] argp
         else out [37, d] argp)"

definition cprintf :: "uchar list option \<Rightarrow> uint list \<Rightarrow> 'a kcons_scheme \<Rightarrow> 'a kcons_scheme kres" where
  "cprintf fmt argp s =
     (let locking = cons_locking s
      in kbind (if locking then acquire_lock ConsLock s else Inr s) (\<lambda>s1.
         case fmt of
           None \<Rightarrow> Inl (Panic ''null fmt'')
         | Some f \<Rightarrow> kbind (cformat (mem s1) f argp) (\<lambda>bs.
             kbind (consputs bs s1) (\<lambda>s2. if locking then release_lock ConsLock s2 else Inr s2))))"

section \<open>The line editor\<close>

definition INPUT_BUF :: uint where "INPUT_BUF = 128"

definition set_input :: "(input_t \<Rightarrow> input_t) \<Rightarrow> 'a kcons_scheme \<Rightarrow> 'a kcons_scheme" where
  "set_input f s = s\<lparr>input := f (input s)\<rparr>"

text \<open>The loop of control-U; each turn takes back one character of the line.\<close>

function kill_line :: "'a kcons_scheme \<Rightarrow> 'a kcons_scheme kres" where
  "kill_line s =
     (let i = input s
      in if ie i \<noteq> iw i \<and> ibuf i ! unat ((ie i - 1) mod INPUT_BUF) \<noteq> 10
         then kbind (consputc BACKSPACE (set_input (\<lambda>i. i\<lparr>ie := ie i - 1\<rparr>) s)) kill_line
         else Inr s)"
  by pat_completeness auto

lemma consputc_input: "consputc c s = Inr s' \<Longrightarrow> input s' = input s"
  by (auto simp: consputc_def cgaputc_def Let_def split: if_splits)

termination kill_line
proof (relation "measure (\<lambda>s. unat (ie (input s) - iw (input s)))", goal_cases)
  case (2 s i s')
  then have "input s' = (input s)\<lparr>ie := ie (input s) - 1\<rparr>" by (auto dest!: consputc_input simp: set_input_def)
  moreover have "ie (input s) - iw (input s) \<noteq> 0" using 2 by simp
  then have "1 \<le> ie (input s) - iw (input s)" by (simp add: word_le_nat_alt Suc_le_eq unat_gt_0)
  then have "unat (ie (input s) - iw (input s) - 1) < unat (ie (input s) - iw (input s))"
    using unat_sub_small [of 1 "ie (input s) - iw (input s)"] by (simp add: word_le_nat_alt)
  ultimately show ?case by (simp add: diff_right_commute)
qed simp

declare kill_line.simps [simp del]

text \<open>One character of input; the flag says that a process listing was asked for.\<close>

definition console_char :: "int \<Rightarrow> bool \<times> 'a kcons_scheme \<Rightarrow> (bool \<times> 'a kcons_scheme) kres" where
  "console_char c x =
     (case x of (dump, s) \<Rightarrow>
       let i = input s
       in if c = 16 then Inr (True, s)
          else if c = 21 then kbind (kill_line s) (\<lambda>s1. Inr (dump, s1))
          else if c = 8 \<or> c = 0x7f then
            (if ie i \<noteq> iw i
             then kbind (consputc BACKSPACE (set_input (\<lambda>i. i\<lparr>ie := ie i - 1\<rparr>) s)) (\<lambda>s1. Inr (dump, s1))
             else Inr (dump, s))
          else if c \<noteq> 0 \<and> ie i - ir i < INPUT_BUF then
            (let c' = (if c = 13 then 10 else c);
                 s1 = set_input (\<lambda>i. i\<lparr>ibuf := (ibuf i)[unat (ie i mod INPUT_BUF) := of_int c'], ie := ie i + 1\<rparr>) s
             in kbind (consputc c' s1) (\<lambda>s2.
                  if c' = 10 \<or> c' = 4 \<or> ie (input s2) = ir (input s2) + INPUT_BUF
                  then kbind (wakeup InputChan (set_input (\<lambda>i. i\<lparr>iw := ie i\<rparr>) s2)) (\<lambda>s3. Inr (dump, s3))
                  else Inr (dump, s2)))
          else Inr (dump, s))"

fun console_chars :: "int list \<Rightarrow> bool \<times> 'a kcons_scheme \<Rightarrow> (bool \<times> 'a kcons_scheme) kres" where
  "console_chars [] x = Inr x"
| "console_chars (c # cs) x = kbind (console_char c x) (console_chars cs)"

text \<open>
  \<open>consoleintr\<close> on the characters \<open>getc\<close> delivers before it returns a negative number; the listing of
  processes is output only, so the result just says whether it is due.
\<close>

definition consoleintr :: "int list \<Rightarrow> 'a kcons_scheme \<Rightarrow> (bool \<times> 'a kcons_scheme) kres" where
  "consoleintr cs s =
     kbind (acquire_lock ConsLock s) (\<lambda>s1.
       kbind (console_chars cs (False, s1)) (\<lambda>(dump, s2).
         kbind (release_lock ConsLock s2) (\<lambda>s3. Inr (dump, s3))))"

section \<open>Reading and writing\<close>

text \<open>
  The loop of \<open>consoleread\<close> with \<open>n\<close> bytes still wanted of \<open>target\<close>; the bytes copied so far are the
  accumulator. It returns, or sleeps until a line is there.
\<close>

datatype cons_out = CReturn int "uchar list" | CSleeps nat "uchar list"

fun consoleread_loop :: "nat \<Rightarrow> nat \<Rightarrow> uchar list \<Rightarrow> 'a kcons_scheme \<Rightarrow> (cons_out \<times> 'a kcons_scheme) kres" where
  "consoleread_loop 0 target acc s =
     kbind (release_lock ConsLock s) (\<lambda>s1. Inr (CReturn (int target) acc, s1))"
| "consoleread_loop (Suc n) target acc s =
     (let i = input s
      in if ir i = iw i then
           kbind (myproc_killed s) (\<lambda>k.
             if k then kbind (release_lock ConsLock s) (\<lambda>s1. Inr (CReturn (-1) acc, s1))
             else kbind (sleep_begin InputChan ConsLock s) (\<lambda>s1. Inr (CSleeps (Suc n) acc, s1)))
         else
           let c = ibuf i ! unat (ir i mod INPUT_BUF); s1 = set_input (\<lambda>i. i\<lparr>ir := ir i + 1\<rparr>) s
           in if c = 4 then
                (let s2 = (if Suc n < target then set_input (\<lambda>i. i\<lparr>ir := ir i - 1\<rparr>) s1 else s1)
                 in kbind (release_lock ConsLock s2) (\<lambda>s3. Inr (CReturn (int target - int (Suc n)) acc, s3)))
              else if c = 10 then
                kbind (release_lock ConsLock s1) (\<lambda>s2. Inr (CReturn (int target - int n) (acc @ [c]), s2))
              else consoleread_loop n target (acc @ [c]) s1)"

definition consoleread :: "nat \<Rightarrow> 'a kcons_scheme \<Rightarrow> (cons_out \<times> 'a kcons_scheme) kres" where
  "consoleread n s = kbind (acquire_lock ConsLock s) (consoleread_loop n n [])"

definition consoleread_resume :: "nat \<Rightarrow> nat \<Rightarrow> uchar list \<Rightarrow> 'a kcons_scheme \<Rightarrow> (cons_out \<times> 'a kcons_scheme) kres" where
  "consoleread_resume n target acc s = kbind (sleep_end ConsLock s) (consoleread_loop n target acc)"

definition consolewrite :: "uchar list \<Rightarrow> 'a kcons_scheme \<Rightarrow> (int \<times> 'a kcons_scheme) kres" where
  "consolewrite buf s =
     kbind (acquire_lock ConsLock s) (\<lambda>s1.
       kbind (consputs buf s1) (\<lambda>s2.
         kbind (release_lock ConsLock s2) (\<lambda>s3. Inr (int (length buf), s3))))"

definition consoleinit :: "'a kcons_scheme \<Rightarrow> 'a kcons_scheme" where
  "consoleinit s = s\<lparr>cons_locking := True\<rparr>"

section \<open>The screen\<close>

definition screen_ok :: "'a kcons_scheme \<Rightarrow> bool" where
  "screen_ok s \<longleftrightarrow> length (crt s) = 2000 \<and> 0 \<le> crt_pos s \<and> crt_pos s < 1920"

lemma cga_place_range:
  assumes "0 \<le> pos" "pos < 1920" "cga_place c pos cells = (p, cells')"
  shows "0 \<le> p" "p \<le> 1920" "length cells' = length cells"
proof -
  have "pos mod 80 < 80" "0 \<le> pos mod 80" by simp_all
  moreover have "pos + (80 - pos mod 80) = 80 * (pos div 80 + 1)" by presburger
  moreover have "pos div 80 < 24" using assms(1,2) by presburger
  ultimately show "0 \<le> p" "p \<le> 1920" "length cells' = length cells"
    using assms by (auto simp: cga_place_def split: if_splits)
qed

lemma cgaputc_ok:
  assumes "screen_ok s"
  shows "\<exists>p t. cgaputc c s = Inr (s\<lparr>crt_pos := p, crt := t\<rparr>) \<and> length t = 2000 \<and> 0 \<le> p \<and> p < 1920"
proof -
  obtain p1 t1 where r: "cga_place c (crt_pos s) (crt s) = (p1, t1)" by fastforce
  have p1: "0 \<le> p1" "p1 \<le> 1920" "length t1 = 2000"
    using cga_place_range [OF _ _ r] assms by (auto simp: screen_ok_def)
  have "0 \<le> fst (cga_scroll p1 t1) \<and> fst (cga_scroll p1 t1) < 1920 \<and> length (snd (cga_scroll p1 t1)) = 2000"
  proof (cases "p1 div 80 \<ge> 24")
    case True
    then have "p1 = 1920" using p1(2) by linarith
    then show ?thesis using p1(3) by (simp add: cga_scroll_def)
  next
    case False
    then have "p1 < 1920" by linarith
    with False p1 show ?thesis by (simp add: cga_scroll_def)
  qed
  with p1 r show ?thesis
    by (intro exI [of _ "fst (cga_scroll p1 t1)"]
        exI [of _ "(snd (cga_scroll p1 t1))[nat (fst (cga_scroll p1 t1)) := 32 OR 0x0700]"])
      (simp add: cgaputc_def Let_def)
qed

lemma consputc_ok:
  assumes "screen_ok s" "\<not> panicked s"
  shows "\<exists>s'. consputc c s = Inr s' \<and> screen_ok s' \<and> \<not> panicked s' \<and> input s' = input s \<and> held s' = held s \<and>
    kcons.more s' = kcons.more s"
proof -
  have "screen_ok (s\<lparr>uart := u\<rparr>)" for u using assms(1) by (simp add: screen_ok_def)
  from cgaputc_ok [OF this, of c] show ?thesis using assms(2) by (fastforce simp: consputc_def screen_ok_def)
qed

section \<open>The edited line as a list\<close>

text \<open>The bytes at positions \<open>a, a + 1, \<dots>\<close> of the ring; finished input, and the line being edited.\<close>

definition seg :: "uchar list \<Rightarrow> nat \<Rightarrow> nat \<Rightarrow> uchar list" where
  "seg buf a n = map (\<lambda>k. buf ! ((a + k) mod 128)) [0..<n]"

definition ndone :: "input_t \<Rightarrow> nat" where "ndone i = unat (iw i - ir i)"
definition nline :: "input_t \<Rightarrow> nat" where "nline i = unat (ie i - iw i)"

definition done_of :: "input_t \<Rightarrow> uchar list" where
  "done_of i = seg (ibuf i) (unat (ir i)) (ndone i)"

definition line_of :: "input_t \<Rightarrow> uchar list" where
  "line_of i = seg (ibuf i) (unat (ir i) + ndone i) (nline i)"

definition editor_ok :: "input_t \<Rightarrow> bool" where
  "editor_ok i \<longleftrightarrow> length (ibuf i) = 128 \<and> ndone i + nline i \<le> 128 \<and> 10 \<notin> set (line_of i)"

lemma length_seg [simp]: "length (seg buf a n) = n"
  by (simp add: seg_def)

lemma seg_nth [simp]: "k < n \<Longrightarrow> seg buf a n ! k = buf ! ((a + k) mod 128)"
  by (simp add: seg_def)

lemma seg_0 [simp]: "seg buf a 0 = []"
  by (simp add: seg_def)

lemma seg_Suc: "seg buf a (Suc n) = seg buf a n @ [buf ! ((a + n) mod 128)]"
  by (simp add: seg_def)

lemma seg_add: "seg buf a (m + n) = seg buf a m @ seg buf (a + m) n"
  by (induction n) (simp_all add: seg_Suc add.assoc)

lemma seg_upd:
  assumes "a + m \<le> n" "n < 128"
  shows "seg (buf[(r + n) mod 128 := b]) (r + a) m = seg buf (r + a) m"
proof (rule nth_equalityI)
  fix k assume "k < length (seg (buf[(r + n) mod 128 := b]) (r + a) m)"
  then have k: "k < m" by simp
  have "(r + (a + k)) mod 128 \<noteq> (r + n) mod 128"
  proof
    assume "(r + (a + k)) mod 128 = (r + n) mod 128"
    then have "128 dvd (r + n) - (r + (a + k))"
      using mod_eq_dvd_iff_nat [of "r + (a + k)" "r + n" 128] k assms by simp
    then show False using k assms by (auto dest: dvd_imp_le)
  qed
  then show "seg (buf[(r + n) mod 128 := b]) (r + a) m ! k = seg buf (r + a) m ! k"
    using k by (simp add: add.assoc)
qed simp

lemma unat_add_mod128: "unat (x + of_nat k :: uint) mod 128 = (unat x + k) mod 128"
proof -
  have "unat (x + of_nat k :: uint) = (unat x + k) mod 2 ^ 32"
    by (simp add: unat_word_ariths unat_of_nat mod_simps)
  moreover have "(128 :: nat) dvd 2 ^ 32" by simp
  ultimately show ?thesis by (simp only: mod_mod_cancel)
qed

lemma unat_mod_input: "unat (x mod INPUT_BUF) = unat x mod 128"
  by (simp add: unat_mod_distrib INPUT_BUF_def)

lemma edit_pos:
  assumes "editor_ok i"
  shows "unat (ie i mod INPUT_BUF) = (unat (ir i) + (ndone i + nline i)) mod 128"
    and "unat (ie i - ir i) = ndone i + nline i"
proof -
  have e: "ie i = ir i + of_nat (ndone i + nline i)" by (simp add: ndone_def nline_def)
  show "unat (ie i mod INPUT_BUF) = (unat (ir i) + (ndone i + nline i)) mod 128"
    unfolding unat_mod_input using unat_add_mod128 [of "ir i" "ndone i + nline i"] e by simp
  have "unat (iw i - ir i) + unat (ie i - iw i) < 2 ^ 32"
    using assms by (simp add: editor_ok_def ndone_def nline_def)
  from unat_add_small [OF this] show "unat (ie i - ir i) = ndone i + nline i" by (simp add: ndone_def nline_def)
qed

text \<open>What one character does to finished input and line.\<close>

definition edit :: "int \<Rightarrow> uchar list \<times> uchar list \<Rightarrow> uchar list \<times> uchar list" where
  "edit c x = (case x of (d, l) \<Rightarrow>
     if c = 16 then (d, l)
     else if c = 21 then (d, [])
     else if c = 8 \<or> c = 0x7f then (d, butlast l)
     else if c \<noteq> 0 \<and> length d + length l < 128 then
       let c' = (if c = 13 then 10 else c); l' = l @ [of_int c']
       in if c' = 10 \<or> c' = 4 \<or> length d + length l' = 128 then (d @ l', []) else (d, l')
     else (d, l))"

text \<open>Taking back the last character of the line.\<close>

lemma erase_ok:
  assumes ok: "editor_ok i" and ne: "ie i \<noteq> iw i"
  defines "i' \<equiv> i\<lparr>ie := ie i - 1\<rparr>"
  shows "editor_ok i'" "done_of i' = done_of i" "line_of i' = butlast (line_of i)" "nline i = Suc (nline i')"
    "ibuf i ! unat ((ie i - 1) mod INPUT_BUF) = last (line_of i)"
proof -
  have "ie i - iw i \<noteq> 0" using ne by simp
  then have "1 \<le> ie i - iw i" by (simp add: word_le_nat_alt Suc_le_eq unat_gt_0)
  then have "unat (ie i - iw i - 1) = unat (ie i - iw i) - 1" "unat (ie i - iw i) \<noteq> 0"
    using unat_sub_small [of 1 "ie i - iw i"] ne by (simp_all add: unat_eq_zero)
  then show n: "nline i = Suc (nline i')" by (simp add: nline_def i'_def diff_right_commute)
  have f: "ibuf i' = ibuf i" "ir i' = ir i" "ndone i' = ndone i" by (simp_all add: i'_def ndone_def)
  have l: "line_of i = line_of i' @ [ibuf i ! ((unat (ir i) + ndone i + nline i') mod 128)]"
    unfolding line_of_def n f by (rule seg_Suc)
  show "line_of i' = butlast (line_of i)" "done_of i' = done_of i" using l f by (simp_all add: done_of_def)
  show ok': "editor_ok i'" using ok n l f by (simp add: editor_ok_def)
  have "ie i - 1 = ie i'" by (simp add: i'_def)
  then show "ibuf i ! unat ((ie i - 1) mod INPUT_BUF) = last (line_of i)"
    using edit_pos(1) [OF ok'] l f by (simp add: add.assoc)
qed

lemma kill_line_ok:
  assumes "screen_ok s" "\<not> panicked s" "editor_ok (input s)"
  shows "\<exists>s'. kill_line s = Inr s' \<and> screen_ok s' \<and> \<not> panicked s' \<and> editor_ok (input s') \<and> held s' = held s \<and>
    done_of (input s') = done_of (input s) \<and> line_of (input s') = []"
  using assms
proof (induction "nline (input s)" arbitrary: s)
  case 0
  then have "ie (input s) = iw (input s)" by (simp add: nline_def unat_eq_zero)
  then show ?case using 0 by (subst kill_line.simps) (simp add: Let_def line_of_def nline_def)
next
  case (Suc n)
  let ?s = "set_input (\<lambda>i. i\<lparr>ie := ie i - 1\<rparr>) s"
  have ne: "ie (input s) \<noteq> iw (input s)" using Suc.hyps(2) by (auto simp: nline_def)
  note er = erase_ok [OF Suc.prems(3) ne]
  have "line_of (input s) \<noteq> []" using Suc.hyps(2) by (auto simp: line_of_def simp flip: length_0_conv)
  then have "last (line_of (input s)) \<noteq> 10" using Suc.prems(3) by (metis editor_ok_def last_in_set)
  then have step: "kill_line s = kbind (consputc BACKSPACE ?s) kill_line"
    using ne er(5) by (subst kill_line.simps) (simp add: Let_def)
  have "screen_ok ?s" "\<not> panicked ?s" using Suc.prems by (simp_all add: screen_ok_def set_input_def)
  from consputc_ok [OF this, of BACKSPACE] obtain s1 where s1: "consputc BACKSPACE ?s = Inr s1" "screen_ok s1"
    "\<not> panicked s1" "input s1 = input ?s" "held s1 = held ?s" by blast
  have i1: "input s1 = (input s)\<lparr>ie := ie (input s) - 1\<rparr>" using s1(4) by (simp add: set_input_def)
  have "n = nline (input s1)" using er(4) Suc.hyps(2) i1 by simp
  from Suc.hyps(1) [OF this s1(2,3)] er i1 s1 step show ?case by (auto simp: set_input_def)
qed

text \<open>Storing a character, and finishing the line.\<close>

lemma store_ok:
  fixes b :: uchar
  assumes ok: "editor_ok i" and room: "ndone i + nline i < 128"
  defines "i' \<equiv> i\<lparr>ibuf := (ibuf i)[unat (ie i mod INPUT_BUF) := b], ie := ie i + 1\<rparr>"
  shows "done_of i' = done_of i" "line_of i' = line_of i @ [b]" "ndone i' = ndone i" "nline i' = Suc (nline i)"
    "length (ibuf i') = 128"
proof -
  let ?r = "unat (ir i)" and ?n = "ndone i + nline i"
  have len: "length (ibuf i) = 128" using ok by (simp add: editor_ok_def)
  have b: "ibuf i' = (ibuf i)[(?r + ?n) mod 128 := b]" "ir i' = ir i" using edit_pos(1) [OF ok] by (simp_all add: i'_def)
  show nd: "ndone i' = ndone i" by (simp add: ndone_def i'_def)
  have "unat (ie i - iw i) + unat (1 :: uint) < 2 ^ 32" using room by (simp add: nline_def)
  from unat_add_small [OF this] have "unat (ie i - iw i + 1) = Suc (nline i)" by (simp add: nline_def)
  moreover have "ie i' - iw i' = ie i - iw i + 1" by (simp add: i'_def)
  ultimately show nl: "nline i' = Suc (nline i)" unfolding nline_def by simp
  show "length (ibuf i') = 128" using len b by simp
  show "done_of i' = done_of i" unfolding done_of_def nd b using seg_upd [of 0 "ndone i" ?n "ibuf i" ?r b] room by simp
  have "seg (ibuf i') (?r + ndone i) (nline i) = line_of i"
    unfolding b line_of_def using seg_upd [of "ndone i" "nline i" ?n "ibuf i" ?r b] room by simp
  then show "line_of i' = line_of i @ [b]" unfolding line_of_def nd nl b(2) seg_Suc
    using b(1) len by (simp add: line_of_def add.assoc)
qed

lemma finish_ok:
  assumes "length (ibuf i) = 128" "ndone i + nline i \<le> 128"
  shows "editor_ok (i\<lparr>iw := ie i\<rparr>)" "done_of (i\<lparr>iw := ie i\<rparr>) = done_of i @ line_of i" "line_of (i\<lparr>iw := ie i\<rparr>) = []"
proof -
  let ?i = "i\<lparr>iw := ie i\<rparr>"
  have "unat (iw i - ir i) + unat (ie i - iw i) < 2 ^ 32" using assms by (simp add: ndone_def nline_def)
  from unat_add_small [OF this] have nd: "ndone ?i = ndone i + nline i" by (simp add: ndone_def nline_def)
  have nl: "nline ?i = 0" by (simp add: nline_def)
  show "done_of ?i = done_of i @ line_of i" unfolding done_of_def nd line_of_def using seg_add by simp
  show "line_of ?i = []" by (simp add: line_of_def nl)
  then show "editor_ok ?i" using assms nd nl by (simp add: editor_ok_def)
qed

definition cons_ok :: "'a kcons_scheme \<Rightarrow> bool" where
  "cons_ok s \<longleftrightarrow> screen_ok s \<and> \<not> panicked s \<and> editor_ok (input s) \<and> PtableLock \<notin> held s"

lemma console_char_ok:
  assumes ok: "cons_ok s" and c: "0 \<le> c" "c < 256"
  shows "\<exists>d' s'. console_char c (d, s) = Inr (d', s') \<and> cons_ok s' \<and> held s' = held s \<and>
    (done_of (input s'), line_of (input s')) = edit c (done_of (input s), line_of (input s))"
proof -
  have k: "screen_ok s" "\<not> panicked s" "editor_ok (input s)" "PtableLock \<notin> held s" using ok by (auto simp: cons_ok_def)
  let ?i = "input s"
  have len: "length (done_of ?i) = ndone ?i" "length (line_of ?i) = nline ?i" by (simp_all add: done_of_def line_of_def)
  consider "c = 16" | "c = 21" | "c = 8 \<or> c = 0x7f"
    | (stop) "c \<notin> {16, 21, 8, 0x7f}" "c = 0 \<or> \<not> ndone ?i + nline ?i < 128"
    | (char) "c \<notin> {16, 21, 8, 0x7f}" "c \<noteq> 0" "ndone ?i + nline ?i < 128" by auto
  then show ?thesis
  proof cases
    case 1
    then show ?thesis using ok by (auto simp: console_char_def edit_def Let_def)
  next
    case 2
    then show ?thesis using kill_line_ok [OF k(1-3)] k(4) by (auto simp: console_char_def edit_def cons_ok_def Let_def)
  next
    case 3
    show ?thesis
    proof (cases "ie ?i = iw ?i")
      case True
      then have "line_of ?i = []" by (simp add: line_of_def nline_def)
      with 3 True ok show ?thesis by (auto simp: console_char_def edit_def Let_def)
    next
      case False
      note er = erase_ok [OF k(3) False]
      let ?s = "set_input (\<lambda>i. i\<lparr>ie := ie i - 1\<rparr>) s"
      have "screen_ok ?s" "\<not> panicked ?s" using k by (simp_all add: screen_ok_def set_input_def)
      from consputc_ok [OF this, of BACKSPACE] obtain s1 where s1: "consputc BACKSPACE ?s = Inr s1" "screen_ok s1"
        "\<not> panicked s1" "input s1 = input ?s" "held s1 = held ?s" by blast
      have i1: "input s1 = ?i\<lparr>ie := ie ?i - 1\<rparr>" "held s1 = held s" using s1(4,5) by (simp_all add: set_input_def)
      have "console_char c (d, s) = Inr (d, s1)" using 3 False s1(1) by (auto simp: console_char_def Let_def)
      moreover have "cons_ok s1" using s1(2,3) i1 er(1) k(4) by (simp add: cons_ok_def)
      moreover have "edit c (done_of ?i, line_of ?i) = (done_of ?i, butlast (line_of ?i))"
        using 3 by (auto simp: edit_def)
      ultimately show ?thesis using i1 er by (intro exI [of _ d] exI [of _ s1]) simp
    qed
  next
    case stop
    have "\<not> (c \<noteq> 0 \<and> ie ?i - ir ?i < INPUT_BUF)"
      using stop(2) edit_pos(2) [OF k(3)] by (auto simp: word_less_nat_alt INPUT_BUF_def)
    with stop ok len show ?thesis by (auto simp: console_char_def edit_def Let_def)
  next
    case char
    have lt: "ie ?i - ir ?i < INPUT_BUF"
      using char(3) edit_pos(2) [OF k(3)] by (simp add: word_less_nat_alt INPUT_BUF_def)
    define c' where "c' = (if c = 13 then 10 else c)"
    define i1 where "i1 = ?i\<lparr>ibuf := (ibuf ?i)[unat (ie ?i mod INPUT_BUF) := of_int c'], ie := ie ?i + 1\<rparr>"
    note st = store_ok [OF k(3) char(3), where b = "of_int c'", folded i1_def]
    let ?s = "s\<lparr>input := i1\<rparr>"
    have "screen_ok ?s" "\<not> panicked ?s" using k by (simp_all add: screen_ok_def)
    from consputc_ok [OF this, of c'] obtain s2 where s2: "consputc c' ?s = Inr s2" "screen_ok s2"
      "\<not> panicked s2" "input s2 = i1" "held s2 = held s" by auto
    have full: "ie i1 = ir i1 + INPUT_BUF \<longleftrightarrow> ndone ?i + nline i1 = 128"
    proof -
      have "unat (iw i1 - ir i1) + unat (ie i1 - iw i1) < 2 ^ 32" using st(3,4) char(3) by (simp add: ndone_def nline_def)
      from unat_add_small [OF this] have "unat (ie i1 - ir i1) = ndone i1 + nline i1" by (simp add: ndone_def nline_def)
      moreover have "ie i1 = ir i1 + INPUT_BUF \<longleftrightarrow> ie i1 - ir i1 = INPUT_BUF" by (simp add: algebra_simps)
      ultimately show ?thesis using st(3) by (simp add: word_unat_eq_iff INPUT_BUF_def)
    qed
    have cc: "console_char c (d, s) = (if c' = 10 \<or> c' = 4 \<or> ie i1 = ir i1 + INPUT_BUF
        then kbind (wakeup InputChan (set_input (\<lambda>i. i\<lparr>iw := ie i\<rparr>) s2)) (\<lambda>s3. Inr (d, s3)) else Inr (d, s2))"
      using char lt s2(1,4) by (simp add: console_char_def Let_def set_input_def i1_def c'_def)
    have ed: "edit c (done_of ?i, line_of ?i) = (if c' = 10 \<or> c' = 4 \<or> ndone ?i + nline i1 = 128
        then (done_of ?i @ line_of i1, []) else (done_of ?i, line_of i1))"
      using char len st(2,4) by (simp add: edit_def Let_def c'_def)
    have n1: "ndone i1 + nline i1 \<le> 128" using st(3,4) char(3) by simp
    show ?thesis
    proof (cases "c' = 10 \<or> c' = 4 \<or> ndone ?i + nline i1 = 128")
      case True
      let ?s3 = "wakeup1 InputChan (s2\<lparr>input := i1\<lparr>iw := ie i1\<rparr>\<rparr>)"
      have "console_char c (d, s) = Inr (d, ?s3)"
        using True s2(4,5) k(4) unfolding cc full by (simp add: set_input_def wakeup_ok)
      moreover have "input ?s3 = i1\<lparr>iw := ie i1\<rparr>" "screen_ok ?s3" "\<not> panicked ?s3" "held ?s3 = held s"
        using s2 by (simp_all add: wakeup1_def screen_ok_def)
      ultimately show ?thesis using finish_ok [OF st(5) n1] st(1) k(4) True
        unfolding ed by (auto simp: cons_ok_def)
    next
      case False
      have "of_int c' \<noteq> (10 :: uchar)"
      proof
        assume "of_int c' = (10 :: uchar)"
        then have "uint (of_int c' :: uchar) = 10" by simp
        then have "c' mod 256 = 10" by (simp add: uint_word_of_int)
        with c False show False by (auto simp: c'_def split: if_splits)
      qed
      then have "editor_ok i1" using st n1 k(3) by (auto simp: editor_ok_def)
      with False s2 st k(4) show ?thesis unfolding cc ed full by (auto simp: cons_ok_def)
    qed
  qed
qed

lemma console_chars_ok:
  assumes "cons_ok s" "\<forall>c \<in> set cs. 0 \<le> c \<and> c < 256"
  shows "\<exists>d' s'. console_chars cs (d, s) = Inr (d', s') \<and> cons_ok s' \<and> held s' = held s \<and>
    (done_of (input s'), line_of (input s')) = fold edit cs (done_of (input s), line_of (input s))"
  using assms
proof (induction cs arbitrary: d s)
  case (Cons c cs)
  obtain d1 s1 where s1: "console_char c (d, s) = Inr (d1, s1)" "cons_ok s1" "held s1 = held s"
    "(done_of (input s1), line_of (input s1)) = edit c (done_of (input s), line_of (input s))"
    using console_char_ok [OF Cons.prems(1), of c d] Cons.prems(2) by auto
  from Cons.IH [OF s1(2), of d1] Cons.prems(2) s1 show ?case by auto
qed simp

text \<open>Taking one finished byte out of the ring.\<close>

lemma take_ok:
  assumes ok: "editor_ok i" and d: "done_of i = b # bs"
  defines "i' \<equiv> i\<lparr>ir := ir i + 1\<rparr>"
  shows "ir i \<noteq> iw i" "ibuf i ! unat (ir i mod INPUT_BUF) = b" "done_of i' = bs" "line_of i' = line_of i" "editor_ok i'"
proof -
  let ?r = "unat (ir i)"
  have len: "ndone i = Suc (length bs)" using arg_cong [OF d, of length] by (simp add: done_of_def)
  then show "ir i \<noteq> iw i" by (auto simp: ndone_def)
  have mod: "unat (ir i mod INPUT_BUF) = ?r mod 128" by (simp add: INPUT_BUF_def unat_mod_distrib)
  have split: "done_of i = seg (ibuf i) ?r 1 @ seg (ibuf i) (?r + 1) (length bs)"
    unfolding done_of_def len using seg_add [of "ibuf i" ?r 1 "length bs"] by simp
  have one: "seg (ibuf i) ?r 1 = [ibuf i ! (?r mod 128)]" by (simp add: seg_def)
  show "ibuf i ! unat (ir i mod INPUT_BUF) = b" using d split one mod by simp
  have wrap: "seg (ibuf i) (unat (ir i + 1) + k) n = seg (ibuf i) (?r + 1 + k) n" for k n
  proof -
    have "(unat (ir i + 1) + k + j) mod 128 = (?r + 1 + k + j) mod 128" for j
    proof -
      have "unat (ir i + 1) = (?r + 1) mod 2 ^ 32" by (simp add: unat_word_ariths)
      moreover have "(?r + 1) mod 2 ^ 32 mod 128 = (?r + 1) mod (128 :: nat)" by (simp add: mod_mod_cancel)
      ultimately have "unat (ir i + 1) mod 128 = (?r + 1) mod 128" by simp
      then have "(unat (ir i + 1) + (k + j)) mod 128 = (?r + 1 + (k + j)) mod 128" by (rule mod_add_cong) simp
      then show ?thesis by (simp add: add.assoc)
    qed
    then show ?thesis by (simp add: seg_def)
  qed
  have "unat (iw i - ir i) = Suc (length bs)" using len by (simp add: ndone_def)
  moreover from this have "1 \<le> iw i - ir i" by (simp add: word_le_nat_alt)
  ultimately have "unat (iw i - ir i - 1) = length bs" using unat_sub_small [of 1 "iw i - ir i"] by (simp add: word_le_nat_alt)
  moreover have "iw i' - ir i' = iw i - ir i - 1" by (simp add: i'_def algebra_simps)
  ultimately have nd: "ndone i' = length bs" unfolding ndone_def by simp
  have nl: "nline i' = nline i" by (simp add: nline_def i'_def)
  have f: "ibuf i' = ibuf i" "ir i' = ir i + 1" by (simp_all add: i'_def)
  show "done_of i' = bs" unfolding done_of_def nd f using d split one wrap [of 0] by simp
  have "seg (ibuf i) (unat (ir i + 1) + length bs) (nline i) = seg (ibuf i) (?r + ndone i) (nline i)"
    unfolding wrap len by simp
  then show l: "line_of i' = line_of i" unfolding line_of_def nd nl f by simp
  show "editor_ok i'" using ok nd nl len f(1) l by (simp add: editor_ok_def)
qed

lemma consoleread_loop_line:
  assumes "editor_ok (input s)" "done_of (input s) = l @ 10 # rest" "10 \<notin> set l" "4 \<notin> set l" "length l < n"
    "ConsLock \<in> held s"
  shows "\<exists>s'. consoleread_loop n target acc s = Inr (CReturn (int target - int (n - Suc (length l))) (acc @ l @ [10]), s') \<and>
    editor_ok (input s') \<and> done_of (input s') = rest \<and> line_of (input s') = line_of (input s) \<and>
    s' = s\<lparr>input := input s', held := held s - {ConsLock}\<rparr>"
  using assms
proof (induction l arbitrary: n acc s)
  case Nil
  then obtain m where n: "n = Suc m" by (cases n) auto
  note t = take_ok [OF Nil.prems(1), of 10 rest]
  let ?s = "s\<lparr>input := (input s)\<lparr>ir := ir (input s) + 1\<rparr>, held := held s - {ConsLock}\<rparr>"
  have "consoleread_loop n target acc s = Inr (CReturn (int target - int m) (acc @ [10]), ?s)"
    using Nil.prems t(1,2) by (simp add: n Let_def set_input_def release_lock_def)
  then show ?case using Nil.prems t(3-5) by (intro exI [of _ ?s]) (simp add: n)
next
  case (Cons b l)
  then obtain m where n: "n = Suc m" by (cases n) auto
  have d: "done_of (input s) = b # l @ 10 # rest" using Cons.prems(2) by simp
  note t = take_ok [OF Cons.prems(1) d]
  let ?s = "s\<lparr>input := (input s)\<lparr>ir := ir (input s) + 1\<rparr>\<rparr>"
  have "consoleread_loop n target acc s = consoleread_loop m target (acc @ [b]) ?s"
    using Cons.prems t(1,2) by (auto simp: n Let_def set_input_def)
  moreover obtain s' where s': "consoleread_loop m target (acc @ [b]) ?s =
      Inr (CReturn (int target - int (m - Suc (length l))) ((acc @ [b]) @ l @ [10]), s')"
    "editor_ok (input s')" "done_of (input s') = rest" "line_of (input s') = line_of (input ?s)"
    "s' = ?s\<lparr>input := input s', held := held ?s - {ConsLock}\<rparr>"
    using Cons.IH [of ?s m "acc @ [b]"] t(3,5) Cons.prems n by auto
  ultimately show ?case using t(4) n by (intro exI [of _ s']) simp
qed

lemma consoleread_line:
  assumes "editor_ok (input s)" "done_of (input s) = l @ 10 # rest" "10 \<notin> set l" "4 \<notin> set l" "length l < n"
    "ConsLock \<notin> held s"
  shows "\<exists>s'. consoleread n s = Inr (CReturn (int (length l) + 1) (l @ [10]), s') \<and> editor_ok (input s') \<and>
    done_of (input s') = rest \<and> line_of (input s') = line_of (input s) \<and> s' = s\<lparr>input := input s'\<rparr>"
proof -
  let ?s = "s\<lparr>held := insert ConsLock (held s)\<rparr>"
  obtain s' where s': "consoleread_loop n n [] ?s = Inr (CReturn (int n - int (n - Suc (length l))) ([] @ l @ [10]), s')"
    "editor_ok (input s')" "done_of (input s') = rest" "line_of (input s') = line_of (input ?s)"
    "s' = ?s\<lparr>input := input s', held := held ?s - {ConsLock}\<rparr>"
    using consoleread_loop_line [of ?s l rest n n "[]"] assms by auto
  have "s' = s\<lparr>input := input s'\<rparr>" using assms(6) by (subst s'(5)) simp
  then show ?thesis using s' assms(5,6) by (intro exI [of _ s']) (simp add: consoleread_def acquire_lock_def of_nat_diff)
qed

lemma consoleintr_ok:
  assumes "cons_ok s" "\<forall>c \<in> set cs. 0 \<le> c \<and> c < 256" "ConsLock \<notin> held s"
  shows "\<exists>dump s'. consoleintr cs s = Inr (dump, s') \<and> cons_ok s' \<and> held s' = held s \<and>
    (done_of (input s'), line_of (input s')) = fold edit cs (done_of (input s), line_of (input s))"
proof -
  let ?s = "s\<lparr>held := insert ConsLock (held s)\<rparr>"
  have "cons_ok ?s" using assms(1) by (simp add: cons_ok_def screen_ok_def)
  from console_chars_ok [OF this assms(2), of False] obtain d s1 where s1: "console_chars cs (False, ?s) = Inr (d, s1)"
    "cons_ok s1" "held s1 = insert ConsLock (held s)"
    "(done_of (input s1), line_of (input s1)) = fold edit cs (done_of (input s), line_of (input s))" by auto
  let ?t = "s1\<lparr>held := held s\<rparr>"
  have "cons_ok ?t" using s1(2,3) by (simp add: cons_ok_def screen_ok_def)
  moreover have "consoleintr cs s = Inr (d, ?t)"
    using assms(3) s1(1,3) by (simp add: consoleintr_def acquire_lock_def release_lock_def)
  ultimately show ?thesis using s1(4) by (intro exI [of _ d] exI [of _ ?t]) simp
qed

text \<open>Typing plain characters onto an empty line, and finishing it.\<close>

definition plain :: "uchar \<Rightarrow> bool" where
  "plain b \<longleftrightarrow> 32 \<le> b \<and> b \<noteq> 127"

lemma edit_plain:
  assumes "plain b" "length d + length l < 127"
  shows "edit (uint b) (d, l) = (d, l @ [b])"
proof -
  have "32 \<le> uint b" using assms(1) by (simp add: plain_def word_le_def)
  moreover have "uint b \<noteq> 127" using assms(1) by (auto simp: plain_def word_uint_eq_iff)
  ultimately show ?thesis using assms(2) by (simp add: edit_def Let_def)
qed

lemma fold_edit_plain:
  assumes "\<forall>b \<in> set bs. plain b" "length d + length l + length bs < 128"
  shows "fold edit (map uint bs) (d, l) = (d, l @ bs)"
  using assms by (induction bs arbitrary: l) (simp_all add: edit_plain)

section \<open>Properties\<close>

text \<open>
  C30. The keyboard interrupt handler refines the line editor: on any sequence of character codes it
  ends without a panic, keeps the screen and the input ring well formed and the locks as they were,
  and leaves in the ring exactly the finished input and the current line that the abstract editor
  \<open>edit\<close> computes (erase, kill, carriage return as newline, end of file, and a full ring that
  finishes the line), also when the 32-bit counters wrap.
\<close>

theorem consoleintr_refines_editor:
  assumes "cons_ok s" "\<forall>c \<in> set cs. 0 \<le> c \<and> c < 256" "ConsLock \<notin> held s"
  shows "\<exists>dump s'. consoleintr cs s = Inr (dump, s') \<and> cons_ok s' \<and> held s' = held s \<and>
    (done_of (input s'), line_of (input s')) = fold edit cs (done_of (input s), line_of (input s))"
  using consoleintr_ok [OF assms] .

definition cons0 :: kcons where
  "cons0 = kpipe.extend pipe0 \<lparr>cons_locking = True, panicked = False, uart = [], crt = replicate 2000 0x720,
     crt_pos = 1900, input = \<lparr>ibuf = replicate 128 0, ir = 0xFFFFFFFE, iw = 0xFFFFFFFE, ie = 0xFFFFFFFE\<rparr>\<rparr>"

lemma cons0_ok: "cons_ok cons0" "held cons0 = {}" "done_of (input cons0) = []" "line_of (input cons0) = []"
  using pipe0_ok(2) by (simp_all add: cons0_def kpipe.defs cons_ok_def screen_ok_def editor_ok_def ndone_def nline_def
    done_of_def line_of_def)

theorem consoleintr_refines_editor_witness:
  "\<exists>dump s'. consoleintr [104, 106, 8, 105, 13] cons0 = Inr (dump, s') \<and> done_of (input s') = [104, 105, 10]"
proof -
  have "fold edit [104, 106, 8, 105, 13] ([], []) = ([104, 105, 10], [])" by (simp add: edit_def Let_def)
  with consoleintr_refines_editor [of cons0 "[104, 106, 8, 105, 13]"] cons0_ok show ?thesis by auto
qed

text \<open>
  C31. A line typed is the line read: after the interrupt handler has taken printable characters and a
  carriage return on an empty ring, a read of enough bytes returns these characters and a newline,
  with their number, without sleeping, and empties the ring.
\<close>

theorem typed_line_is_read:
  assumes "cons_ok s" "ConsLock \<notin> held s" "done_of (input s) = []" "line_of (input s) = []"
    "\<forall>b \<in> set l. plain b" "length l < 127" "length l < n"
  shows "\<exists>dump s1 s2. consoleintr (map uint l @ [13]) s = Inr (dump, s1) \<and>
    consoleread n s1 = Inr (CReturn (int (length l) + 1) (l @ [10]), s2) \<and>
    cons_ok s2 \<and> held s2 = held s \<and> done_of (input s2) = [] \<and> line_of (input s2) = []"
proof -
  have "0 \<le> uint b \<and> uint b < 256" for b :: uchar using uint_lt2p [of b] by simp
  then have "\<forall>c \<in> set (map uint l @ [13]). 0 \<le> c \<and> c < 256" by auto
  from consoleintr_ok [OF assms(1) this assms(2)] obtain dump s1 where
    s1: "consoleintr (map uint l @ [13]) s = Inr (dump, s1)" "cons_ok s1" "held s1 = held s"
    "(done_of (input s1), line_of (input s1)) = fold edit (map uint l @ [13]) ([], [])"
    using assms(3,4) by auto
  have "fold edit (map uint l @ [13]) ([], []) = (l @ [10], [])"
    using fold_edit_plain [of l "[]" "[]"] assms(5,6) by (simp add: edit_def Let_def)
  with s1(4) have d: "done_of (input s1) = l @ 10 # []" "line_of (input s1) = []" by simp_all
  have no: "10 \<notin> set l" "4 \<notin> set l" using assms(5) by (auto simp: plain_def word_le_nat_alt)
  have "editor_ok (input s1)" using s1(2) by (simp add: cons_ok_def)
  from consoleread_line [OF this d(1) no assms(7)] s1(3) assms(2) obtain s2 where
    s2: "consoleread n s1 = Inr (CReturn (int (length l) + 1) (l @ [10]), s2)" "editor_ok (input s2)"
    "done_of (input s2) = []" "line_of (input s2) = line_of (input s1)" "s2 = s1\<lparr>input := input s2\<rparr>" by auto
  have h: "held s2 = held s" "screen_ok s2 = screen_ok s1" "panicked s2 = panicked s1"
    using s1(3) by (subst s2(5); simp add: screen_ok_def)+
  have "cons_ok s2" using s1(2,3) s2(2) h by (simp add: cons_ok_def)
  then show ?thesis using s1(1) s2 d(2) h(1) by auto
qed

theorem typed_line_is_read_witness:
  "\<exists>dump s1 s2. consoleintr (map uint [108, 115 :: uchar] @ [13]) cons0 = Inr (dump, s1) \<and>
    consoleread 100 s1 = Inr (CReturn 3 [108, 115, 10], s2) \<and> done_of (input s2) = []"
  using typed_line_is_read [of cons0 "[108, 115]" 100] cons0_ok by (auto simp: plain_def)

end
