(* ===== verification/Sleeplock.thy ===== *)
theory Sleeplock
  imports Console
begin

text \<open>
  Sleep locks, \<^verbatim>\<open>sleeplock.c\<close>: long-term locks held by processes, each a flag and the holder's process
  identifier guarded by a spin lock. The locks live in the buffers and inodes they protect; the model
  keeps them in one store, by the name of the object. \<open>acquiresleep\<close> is cut where the process sleeps.
  The lemmas show mutual exclusion over every interleaving of the processes that use one lock, and
  that a process whose turn it is gets in. The layers above run for one process at a time: a lock
  that another process holds is the outcome \<open>Waits\<close>.
\<close>

section \<open>State and operations\<close>

record sleeplock =
  sl_locked :: uint
  sl_pid :: int

record ksleep = kcons +
  sleeplocks :: "slock \<Rightarrow> sleeplock"

definition initsleeplock :: "slock \<Rightarrow> 'a ksleep_scheme \<Rightarrow> 'a ksleep_scheme" where
  "initsleeplock lk s = s\<lparr>sleeplocks := (sleeplocks s)(lk := \<lparr>sl_locked = 0, sl_pid = 0\<rparr>)\<rparr>"

definition mypid :: "'a ksleep_scheme \<Rightarrow> int kres" where
  "mypid s = (case curproc s of None \<Rightarrow> Inl (Undefined ''myproc'') | Some p \<Rightarrow> Inr (pid (ptable s ! p)))"

text \<open>The loop of \<open>acquiresleep\<close> with the spin lock held: it sleeps (\<open>False\<close>), or takes the lock.\<close>

definition acquiresleep_loop :: "slock \<Rightarrow> 'a ksleep_scheme \<Rightarrow> (bool \<times> 'a ksleep_scheme) kres" where
  "acquiresleep_loop lk s =
     (if sl_locked (sleeplocks s lk) \<noteq> 0
      then kbind (sleep_begin (SleepLockChan lk) (SleepLk lk) s) (\<lambda>s1. Inr (False, s1))
      else kbind (mypid s) (\<lambda>i.
        kbind (release_lock (SleepLk lk) (s\<lparr>sleeplocks := (sleeplocks s)(lk := \<lparr>sl_locked = 1, sl_pid = i\<rparr>)\<rparr>))
          (\<lambda>s1. Inr (True, s1))))"

definition acquiresleep_begin :: "slock \<Rightarrow> 'a ksleep_scheme \<Rightarrow> (bool \<times> 'a ksleep_scheme) kres" where
  "acquiresleep_begin lk s = kbind (acquire_lock (SleepLk lk) s) (acquiresleep_loop lk)"

definition acquiresleep_resume :: "slock \<Rightarrow> 'a ksleep_scheme \<Rightarrow> (bool \<times> 'a ksleep_scheme) kres" where
  "acquiresleep_resume lk s = kbind (sleep_end (SleepLk lk) s) (acquiresleep_loop lk)"

definition releasesleep :: "slock \<Rightarrow> 'a ksleep_scheme \<Rightarrow> 'a ksleep_scheme kres" where
  "releasesleep lk s =
     kbind (acquire_lock (SleepLk lk) s) (\<lambda>s1.
       kbind (wakeup (SleepLockChan lk) (s1\<lparr>sleeplocks := (sleeplocks s1)(lk := \<lparr>sl_locked = 0, sl_pid = 0\<rparr>)\<rparr>))
         (release_lock (SleepLk lk)))"

definition holdingsleep :: "slock \<Rightarrow> 'a ksleep_scheme \<Rightarrow> (bool \<times> 'a ksleep_scheme) kres" where
  "holdingsleep lk s =
     kbind (acquire_lock (SleepLk lk) s) (\<lambda>s1.
       kbind (if sl_locked (sleeplocks s1 lk) = 0 then Inr False
              else kbind (mypid s1) (\<lambda>i. Inr (sl_pid (sleeplocks s1 lk) = i))) (\<lambda>r.
         kbind (release_lock (SleepLk lk) s1) (\<lambda>s2. Inr (r, s2))))"

text \<open>\<open>acquiresleep\<close> for a process that runs alone.\<close>

definition acquiresleep :: "slock \<Rightarrow> 'a ksleep_scheme \<Rightarrow> 'a ksleep_scheme kres" where
  "acquiresleep lk s =
     kbind (acquiresleep_begin lk s) (\<lambda>(got, s1). if got then Inr s1 else Inl (Waits ''sleep lock''))"

section \<open>Mutual exclusion\<close>

text \<open>
  The processes that use one lock, interleaved: a running process with no lock may call
  \<open>acquiresleep\<close>; one that sleeps in it and was woken is run again by the scheduler; the process in
  its critical section may release. \<open>waiting\<close> and \<open>inside\<close> say where each process is, and the flag
  whether a process is on the CPU, which it leaves when it sleeps or is preempted by the timer.
\<close>

record slsys =
  kst :: ksleep
  waiting :: "nat set"
  inside :: "nat set"

inductive sl_step :: "slock \<Rightarrow> slsys \<Rightarrow> slsys \<Rightarrow> bool" for lk where
  Call: "curproc (kst x) = Some p \<Longrightarrow> p \<notin> waiting x \<Longrightarrow> p \<notin> inside x \<Longrightarrow> held (kst x) = {} \<Longrightarrow>
    acquiresleep_begin lk (kst x) = Inr (got, s) \<Longrightarrow>
    sl_step lk x (if got then \<lparr>kst = s, waiting = waiting x, inside = insert p (inside x)\<rparr>
      else \<lparr>kst = s, waiting = insert p (waiting x), inside = inside x\<rparr>)"
| Resume: "curproc (kst x) = Some p \<Longrightarrow> p \<in> waiting x \<Longrightarrow> pstate (ptable (kst x) ! p) = RUNNING \<Longrightarrow>
    held (kst x) = {PtableLock} \<Longrightarrow>
    acquiresleep_resume lk (kst x) = Inr (got, s) \<Longrightarrow>
    sl_step lk x (if got then \<lparr>kst = s, waiting = waiting x - {p}, inside = insert p (inside x)\<rparr>
      else \<lparr>kst = s, waiting = waiting x, inside = inside x\<rparr>)"
| Release: "curproc (kst x) = Some p \<Longrightarrow> p \<in> inside x \<Longrightarrow> held (kst x) = {} \<Longrightarrow>
    releasesleep lk (kst x) = Inr s \<Longrightarrow> sl_step lk x (x\<lparr>kst := s, inside := inside x - {p}\<rparr>)"
| Leave: "curproc (kst x) = Some p \<Longrightarrow> pstate (ptable (kst x) ! p) \<noteq> RUNNING \<Longrightarrow> held (kst x) = {PtableLock} \<Longrightarrow>
    scheduler_leave (kst x) = Inr s \<Longrightarrow> sl_step lk x (x\<lparr>kst := s\<rparr>)"
| Preempt: "held (kst x) = {} \<Longrightarrow> yield_begin (kst x) = Inr s \<Longrightarrow> sl_step lk x (x\<lparr>kst := s\<rparr>)"
| Enter: "curproc (kst x) = None \<Longrightarrow> p < length (ptable (kst x)) \<Longrightarrow> scheduler_enter p (kst x) = Inr s \<Longrightarrow>
    sl_step lk x (x\<lparr>kst := s\<rparr>)"
| Return: "curproc (kst x) = Some p \<Longrightarrow> p \<notin> waiting x \<Longrightarrow> held (kst x) = {PtableLock} \<Longrightarrow>
    pstate (ptable (kst x) ! p) = RUNNING \<Longrightarrow> yield_end (kst x) = Inr s \<Longrightarrow> sl_step lk x (x\<lparr>kst := s\<rparr>)"

inductive_cases sl_stepE: "sl_step lk x y"

definition sl_ok :: "slock \<Rightarrow> slsys \<Rightarrow> bool" where
  "sl_ok lk x \<longleftrightarrow>
     (let s = kst x; l = sleeplocks s lk
      in waiting x \<union> inside x \<subseteq> {..<length (ptable s)} \<and> waiting x \<inter> inside x = {} \<and>
         (\<forall>p q. p \<in> inside x \<longrightarrow> q \<in> inside x \<longrightarrow> p = q) \<and>
         (sl_locked l \<noteq> 0 \<longleftrightarrow> inside x \<noteq> {}) \<and>
         (\<forall>p \<in> inside x. sl_pid l = pid (ptable s ! p)) \<and>
         (\<forall>p \<in> waiting x. pstate (ptable s ! p) = SLEEPING \<longrightarrow> pchan (ptable s ! p) = SleepLockChan lk \<and> sl_locked l \<noteq> 0) \<and>
         (\<forall>p. curproc s = Some p \<longrightarrow> p < length (ptable s)))"

text \<open>What the pieces do to the lock and to the process table.\<close>

lemma acquiresleep_loop_cases:
  assumes "acquiresleep_loop lk s = Inr (got, s')" "curproc s = Some p" "held s = {SleepLk lk}" "p < length (ptable s)"
  shows "if got then sl_locked (sleeplocks s lk) = 0 \<and> held s' = {} \<and> curproc s' = Some p \<and> ptable s' = ptable s \<and>
      sleeplocks s' = (sleeplocks s)(lk := \<lparr>sl_locked = 1, sl_pid = pid (ptable s ! p)\<rparr>)
    else sl_locked (sleeplocks s lk) \<noteq> 0 \<and> held s' = {PtableLock} \<and> curproc s' = Some p \<and> sleeplocks s' = sleeplocks s \<and>
      ptable s' = (ptable s)[p := (ptable s ! p)\<lparr>pchan := SleepLockChan lk, pstate := SLEEPING\<rparr>]"
proof (cases "sl_locked (sleeplocks s lk) = 0")
  case True
  then have "acquiresleep_loop lk s = Inr (True, s\<lparr>held := {}, sleeplocks := (sleeplocks s)(lk :=
      \<lparr>sl_locked = 1, sl_pid = pid (ptable s ! p)\<rparr>)\<rparr>)"
    using assms(2,3) by (simp add: acquiresleep_loop_def mypid_def release_lock_def)
  with assms(1) have "got" "s' = s\<lparr>held := {}, sleeplocks := (sleeplocks s)(lk :=
      \<lparr>sl_locked = 1, sl_pid = pid (ptable s ! p)\<rparr>)\<rparr>" by simp_all
  then show ?thesis using True assms(2) by simp
next
  case False
  then have "acquiresleep_loop lk s = Inr (False, s\<lparr>held := {PtableLock},
      ptable := (ptable s)[p := (ptable s ! p)\<lparr>pchan := SleepLockChan lk, pstate := SLEEPING\<rparr>]\<rparr>)"
    using assms by (simp add: acquiresleep_loop_def sleep_begin_ok upd_proc_def)
  with assms(1) have "\<not> got" "s' = s\<lparr>held := {PtableLock},
      ptable := (ptable s)[p := (ptable s ! p)\<lparr>pchan := SleepLockChan lk, pstate := SLEEPING\<rparr>]\<rparr>" by simp_all
  then show ?thesis using False assms(2) by simp
qed

lemma releasesleep_ok:
  assumes "SleepLk lk \<notin> held s" "PtableLock \<notin> held s"
  shows "releasesleep lk s = Inr (wakeup1 (SleepLockChan lk) (s\<lparr>sleeplocks := (sleeplocks s)(lk := \<lparr>sl_locked = 0, sl_pid = 0\<rparr>)\<rparr>))"
  using assms by (simp add: releasesleep_def acquire_lock_def release_lock_def wakeup_ok wakeup1_def)

lemma acquiresleep_ok:
  assumes "sl_locked (sleeplocks s lk) = 0" "SleepLk lk \<notin> held s" "curproc s = Some p"
  shows "acquiresleep lk s = Inr (s\<lparr>sleeplocks := (sleeplocks s)(lk := \<lparr>sl_locked = 1, sl_pid = pid (ptable s ! p)\<rparr>)\<rparr>)"
  using assms by (simp add: acquiresleep_def acquiresleep_begin_def acquiresleep_loop_def acquire_lock_def release_lock_def mypid_def)

lemma holdingsleep_ok:
  assumes "SleepLk lk \<notin> held s" "curproc s = Some p"
  shows "holdingsleep lk s =
    Inr (sl_locked (sleeplocks s lk) \<noteq> 0 \<and> sl_pid (sleeplocks s lk) = pid (ptable s ! p), s)"
  using assms by (simp add: holdingsleep_def acquire_lock_def release_lock_def mypid_def)

lemma sl_ok_acquire:
  assumes ok: "sl_ok lk x" and cur: "curproc s = Some p" and h: "held s = {SleepLk lk}"
    and out: "p \<notin> inside x" and st: "sleeplocks s = sleeplocks (kst x)"
    and pt: "length (ptable s) = length (ptable (kst x))" "p < length (ptable s)"
      "\<And>q. q \<noteq> p \<Longrightarrow> ptable s ! q = ptable (kst x) ! q"
    and r: "acquiresleep_loop lk s = Inr (got, s')"
  shows "sl_ok lk (if got then \<lparr>kst = s', waiting = waiting x - {p}, inside = insert p (inside x)\<rparr>
    else \<lparr>kst = s', waiting = insert p (waiting x), inside = inside x\<rparr>)"
proof -
  note c = acquiresleep_loop_cases [OF r cur h pt(2)]
  note k = ok [unfolded sl_ok_def Let_def]
  show ?thesis
  proof (cases got)
    case True
    with c st have f: "sl_locked (sleeplocks (kst x) lk) = 0" "curproc s' = Some p" "ptable s' = ptable s"
      "sleeplocks s' lk = \<lparr>sl_locked = 1, sl_pid = pid (ptable s ! p)\<rparr>" by simp_all
    then have "inside x = {}" using k by auto
    with True f pt k show ?thesis by (auto simp: sl_ok_def Let_def)
  next
    case False
    with c st have f: "sl_locked (sleeplocks (kst x) lk) \<noteq> 0" "curproc s' = Some p" "sleeplocks s' = sleeplocks (kst x)"
      "ptable s' = (ptable s)[p := (ptable s ! p)\<lparr>pchan := SleepLockChan lk, pstate := SLEEPING\<rparr>]" by simp_all
    with False pt k out show ?thesis by (auto simp: sl_ok_def Let_def nth_list_update)
  qed
qed

lemma sl_ok_procs:
  assumes "sl_ok lk x" "sleeplocks s lk = sleeplocks (kst x) lk" "length (ptable s) = length (ptable (kst x))"
    "\<And>q. pid (ptable s ! q) = pid (ptable (kst x) ! q)"
    "\<And>q. pstate (ptable s ! q) = SLEEPING \<Longrightarrow> ptable s ! q = ptable (kst x) ! q"
    "\<And>p. curproc s = Some p \<Longrightarrow> p < length (ptable s)"
  shows "sl_ok lk (x\<lparr>kst := s\<rparr>)"
  using assms by (auto simp: sl_ok_def Let_def)

lemma sl_step_ok: "sl_step lk x y \<Longrightarrow> sl_ok lk x \<Longrightarrow> sl_ok lk y"
proof (induction rule: sl_step.induct)
  case (Call x p got s)
  let ?s = "(kst x)\<lparr>held := {SleepLk lk}\<rparr>"
  have "acquiresleep_loop lk ?s = Inr (got, s)" using Call by (simp add: acquiresleep_begin_def acquire_lock_def)
  from sl_ok_acquire [OF Call.prems _ _ _ _ _ _ _ this, of p] Call show ?case
    by (auto simp: sl_ok_def Let_def split: if_splits)
next
  case (Resume x p got s)
  let ?s = "(upd_proc p (\<lambda>q. q\<lparr>pchan := NoChan\<rparr>) (kst x))\<lparr>held := {SleepLk lk}\<rparr>"
  have "acquiresleep_loop lk ?s = Inr (got, s)"
    using Resume by (simp add: acquiresleep_resume_def sleep_end_ok)
  moreover have "p \<notin> inside x" "p < length (ptable (kst x))"
    using Resume.prems Resume.hyps(1,2) by (auto simp: sl_ok_def Let_def)
  ultimately have "sl_ok lk (if got then \<lparr>kst = s, waiting = waiting x - {p}, inside = insert p (inside x)\<rparr>
      else \<lparr>kst = s, waiting = insert p (waiting x), inside = inside x\<rparr>)"
    using Resume.hyps(1) by (intro sl_ok_acquire [OF Resume.prems, where s = ?s]) (simp_all add: upd_proc_def)
  then show ?case using Resume.hyps(2) by (simp add: insert_absorb split: if_splits)
next
  case (Release x p s)
  have s: "s = wakeup1 (SleepLockChan lk) ((kst x)\<lparr>sleeplocks := (sleeplocks (kst x))(lk := \<lparr>sl_locked = 0, sl_pid = 0\<rparr>)\<rparr>)"
    using Release by (simp add: releasesleep_ok)
  then have f: "sleeplocks s lk = \<lparr>sl_locked = 0, sl_pid = 0\<rparr>" "length (ptable s) = length (ptable (kst x))"
    "curproc s = curproc (kst x)" by (simp_all add: wakeup1_def)
  have awake: "pstate (ptable s ! q) \<noteq> SLEEPING" if "q \<in> waiting x" for q
  proof -
    have "q < length (ptable (kst x))" "pstate (ptable (kst x) ! q) = SLEEPING \<Longrightarrow> pchan (ptable (kst x) ! q) = SleepLockChan lk"
      using Release.prems that by (auto simp: sl_ok_def Let_def)
    then show ?thesis using s by (auto simp: wakeup1_def)
  qed
  have "inside x = {p}" using Release.prems Release.hyps(2) by (auto simp: sl_ok_def Let_def)
  with f awake Release.prems show ?case by (auto simp: sl_ok_def Let_def)
next
  case (Leave x p s)
  then have "s = (kst x)\<lparr>curproc := None, held := {}\<rparr>" by (simp add: scheduler_leave_def release_lock_def)
  then show ?case by (intro sl_ok_procs [OF Leave.prems]) simp_all
next
  case (Preempt x s)
  then obtain p where p: "curproc (kst x) = Some p"
    by (auto simp: yield_begin_def acquire_lock_def split: option.splits)
  with Preempt.prems have pl: "p < length (ptable (kst x))" by (simp add: sl_ok_def Let_def)
  with Preempt p have "s = upd_proc p (\<lambda>q. q\<lparr>pstate := RUNNABLE\<rparr>) ((kst x)\<lparr>held := {PtableLock}\<rparr>)"
    by (simp add: yield_begin_def acquire_lock_def sched_def)
  then show ?case using p pl by (intro sl_ok_procs [OF Preempt.prems]) (auto simp: nth_list_update upd_proc_def split: if_splits)
next
  case (Enter x p s)
  show ?case
  proof (cases "pstate (ptable (kst x) ! p) = RUNNABLE")
    case True
    with Enter have "s = upd_proc p (\<lambda>q. q\<lparr>pstate := RUNNING\<rparr>) ((kst x)\<lparr>held := insert PtableLock (held (kst x)), curproc := Some p\<rparr>)"
      by (auto simp: scheduler_enter_def acquire_lock_def split: if_splits)
    then show ?thesis using Enter.hyps(2)
      by (intro sl_ok_procs [OF Enter.prems]) (auto simp: nth_list_update upd_proc_def split: if_splits)
  next
    case False
    with Enter have "s = (kst x)\<lparr>held := held (kst x)\<rparr>"
      by (auto simp: scheduler_enter_def acquire_lock_def release_lock_def split: if_splits)
    then show ?thesis using Enter.prems by simp
  qed
next
  case (Return x p s)
  then have "s = (kst x)\<lparr>held := {}\<rparr>" by (simp add: yield_end_def release_lock_def)
  moreover have "p < length (ptable (kst x))" using Return.prems Return.hyps(1) by (simp add: sl_ok_def Let_def)
  ultimately show ?case using Return.hyps(1) by (intro sl_ok_procs [OF Return.prems]) auto
qed

lemma sl_reach_ok: "(sl_step lk)\<^sup>*\<^sup>* x y \<Longrightarrow> sl_ok lk x \<Longrightarrow> sl_ok lk y"
  by (induction rule: rtranclp_induct) (auto intro: sl_step_ok)

section \<open>Properties\<close>

text \<open>
  C17. Sleep locks exclude and wake: in every state that processes reach by calling \<open>acquiresleep\<close>,
  sleeping in it, being preempted, woken and scheduled again, and calling \<open>releasesleep\<close>, at most one
  process is in its critical section, the lock is marked taken exactly then and records that process,
  and no process that waits for the lock is asleep while the lock is free (no wakeup is lost).
\<close>

theorem sleeplock_excludes_and_wakes:
  assumes "(sl_step lk)\<^sup>*\<^sup>* x y" "waiting x = {}" "inside x = {}" "sl_locked (sleeplocks (kst x) lk) = 0"
    "\<forall>p. curproc (kst x) = Some p \<longrightarrow> p < length (ptable (kst x))"
  shows "(inside y = {} \<and> sl_locked (sleeplocks (kst y) lk) = 0 \<or>
      (\<exists>p. inside y = {p} \<and> sl_locked (sleeplocks (kst y) lk) \<noteq> 0 \<and>
        sl_pid (sleeplocks (kst y) lk) = pid (ptable (kst y) ! p))) \<and>
    (sl_locked (sleeplocks (kst y) lk) = 0 \<longrightarrow> (\<forall>p \<in> waiting y. pstate (ptable (kst y) ! p) \<noteq> SLEEPING))"
proof -
  have "sl_ok lk x" using assms(2-) by (auto simp: sl_ok_def Let_def)
  from sl_reach_ok [OF assms(1) this] have ok: "sl_ok lk y" .
  then have "p \<in> inside y \<Longrightarrow> inside y = {p}" for p by (auto simp: sl_ok_def Let_def)
  then consider "inside y = {}" | p where "inside y = {p}" by blast
  then show ?thesis using ok by cases (auto simp: sl_ok_def Let_def)
qed

definition sl0 :: ksleep where
  "sl0 = kcons.extend cons0 \<lparr>sleeplocks = (\<lambda>_. \<lparr>sl_locked = 0, sl_pid = 0\<rparr>)\<rparr>"

lemma sl0_simps: "held sl0 = {}" "curproc sl0 = curproc cons0" "ptable sl0 = ptable cons0"
  "sleeplocks sl0 = (\<lambda>_. \<lparr>sl_locked = 0, sl_pid = 0\<rparr>)" "cons_ok sl0"
  using cons0_ok by (simp_all add: sl0_def kcons.defs cons_ok_def screen_ok_def)

lemma cons0_procs: "curproc cons0 = Some 1"
  "ptable cons0 = (ptable booted)[1 := zero_proc\<lparr>swapFile := Some 0, pid := 3, pgdir := 2151682048\<rparr>]"
  by (simp_all add: cons0_def kpipe.defs pipe0_def kvm.defs vm0_def kmem.defs pt0_def kmem0_def ksock.defs)

lemma sl0_proc [simp]: "curproc sl0 = Some 1" "length (ptable sl0) = 64" "pid (ptable sl0 ! 1) = 3"
  by (simp_all add: sl0_simps cons0_procs booted_def sinit_def NPROC_def)

theorem sleeplock_excludes_and_wakes_witness:
  "\<exists>y. sl_step (InodeLock 7) \<lparr>kst = sl0, waiting = {}, inside = {}\<rparr> y \<and> inside y = {1} \<and>
     sl_pid (sleeplocks (kst y) (InodeLock 7)) = 3"
proof -
  let ?lk = "InodeLock 7" and ?x = "\<lparr>kst = sl0, waiting = {}, inside = {}\<rparr>"
  let ?s = "sl0\<lparr>sleeplocks := (sleeplocks sl0)(?lk := \<lparr>sl_locked = 1, sl_pid = 3\<rparr>)\<rparr>"
  have "acquiresleep_begin ?lk sl0 = Inr (True, ?s)"
    by (simp add: acquiresleep_begin_def acquiresleep_loop_def acquire_lock_def release_lock_def mypid_def sl0_simps(1,4)
      del: One_nat_def)
  from sl_step.Call [of ?x 1 ?lk True ?s] this have st: "sl_step ?lk ?x \<lparr>kst = ?s, waiting = {}, inside = {1}\<rparr>"
    by (simp add: sl0_simps(1))
  have "(sl_step ?lk)\<^sup>*\<^sup>* ?x \<lparr>kst = ?s, waiting = {}, inside = {1}\<rparr>" using st by (rule r_into_rtranclp)
  from sleeplock_excludes_and_wakes [OF this] have "sl_pid (sleeplocks ?s ?lk) = pid (ptable ?s ! 1)"
    by (simp add: sl0_simps(4) del: One_nat_def)
  with st show ?thesis by (intro exI [of _ "\<lparr>kst = ?s, waiting = {}, inside = {1}\<rparr>"]) (simp del: One_nat_def)
qed

end
