(* ===== verification/Bytes.thy ===== *)
theory Bytes
  imports CString
begin

text \<open>
  Disk blocks as lists of bytes, with the fields of the structures that the code casts onto them: 16-
  and 32-bit little-endian integers at a byte offset. The lemmas are the laws of such fields: what was
  stored is read back, and fields that do not overlap do not disturb each other.
\<close>

definition get16 :: "uchar list \<Rightarrow> nat \<Rightarrow> ushort" where
  "get16 d k = ucast (d ! k) OR push_bit 8 (ucast (d ! (k + 1)))"

definition put16 :: "uchar list \<Rightarrow> nat \<Rightarrow> ushort \<Rightarrow> uchar list" where
  "put16 d k x = d[k := ucast x, k + 1 := ucast (drop_bit 8 x)]"

definition get32 :: "uchar list \<Rightarrow> nat \<Rightarrow> uint" where
  "get32 d k = ucast (d ! k) OR push_bit 8 (ucast (d ! (k + 1))) OR
     push_bit 16 (ucast (d ! (k + 2))) OR push_bit 24 (ucast (d ! (k + 3)))"

definition put32 :: "uchar list \<Rightarrow> nat \<Rightarrow> uint \<Rightarrow> uchar list" where
  "put32 d k x = d[k := ucast x, k + 1 := ucast (drop_bit 8 x), k + 2 := ucast (drop_bit 16 x),
     k + 3 := ucast (drop_bit 24 x)]"

text \<open>\<open>memmove\<close> into part of a block.\<close>

definition put_bytes :: "uchar list \<Rightarrow> nat \<Rightarrow> uchar list \<Rightarrow> uchar list" where
  "put_bytes d k xs = take k d @ xs @ drop (k + length xs) d"

lemma length_put [simp]: "length (put16 d k x) = length d" "length (put32 d k y) = length d"
  by (simp_all add: put16_def put32_def)

lemma length_put_bytes [simp]: "k + length xs \<le> length d \<Longrightarrow> length (put_bytes d k xs) = length d"
  by (simp add: put_bytes_def)

lemma bytes_join16: "ucast (ucast x :: uchar) OR push_bit 8 (ucast (ucast (drop_bit 8 x) :: uchar)) = (x :: ushort)"
proof (rule bit_word_eqI)
  fix n
  assume "n < LENGTH(16)"
  then consider "n < 8" | "8 \<le> n" "n < 16" by fastforce
  then show "bit ((ucast (ucast x :: uchar) :: ushort) OR push_bit 8 (ucast (ucast (drop_bit 8 x) :: uchar))) n = bit x n"
    by cases (auto simp: bit_simps)
qed

lemma get16_put16 [simp]: "k + 2 \<le> length d \<Longrightarrow> get16 (put16 d k x) k = x"
  by (simp add: get16_def put16_def nth_list_update bytes_join16)

lemma get32_put32 [simp]: "k + 4 \<le> length d \<Longrightarrow> get32 (put32 d k x) k = x"
  by (simp add: get32_def put32_def nth_list_update bytes_join)

lemma put16_nth_other: "i < k \<or> k + 2 \<le> i \<Longrightarrow> put16 d k x ! i = d ! i"
  by (auto simp: put16_def nth_list_update)

lemma put32_nth_other: "i < k \<or> k + 4 \<le> i \<Longrightarrow> put32 d k x ! i = d ! i"
  by (auto simp: put32_def nth_list_update)

lemma put_bytes_nth:
  "i < length d \<Longrightarrow> k + length xs \<le> length d \<Longrightarrow>
   put_bytes d k xs ! i = (if k \<le> i \<and> i < k + length xs then xs ! (i - k) else d ! i)"
  by (auto simp: put_bytes_def nth_append min_def)

lemma get32_cong: "(\<And>i. k \<le> i \<Longrightarrow> i < k + 4 \<Longrightarrow> d ! i = e ! i) \<Longrightarrow> get32 d k = get32 e k"
  by (simp add: get32_def)

lemma get16_cong: "(\<And>i. k \<le> i \<Longrightarrow> i < k + 2 \<Longrightarrow> d ! i = e ! i) \<Longrightarrow> get16 d k = get16 e k"
  by (simp add: get16_def)

lemma get32_put_other [simp]:
  "j + 4 \<le> k \<or> k + 4 \<le> j \<Longrightarrow> get32 (put32 d k x) j = get32 d j"
  "j + 4 \<le> k \<or> k + 2 \<le> j \<Longrightarrow> get32 (put16 d k y) j = get32 d j"
  by (rule get32_cong; rule put32_nth_other put16_nth_other; linarith)+

lemma get16_put_other [simp]:
  "j + 2 \<le> k \<or> k + 4 \<le> j \<Longrightarrow> get16 (put32 d k x) j = get16 d j"
  "j + 2 \<le> k \<or> k + 2 \<le> j \<Longrightarrow> get16 (put16 d k y) j = get16 d j"
  by (rule get16_cong; rule put32_nth_other put16_nth_other; linarith)+

text \<open>An array of 32-bit words inside a block.\<close>

fun put_words :: "uchar list \<Rightarrow> nat \<Rightarrow> uint list \<Rightarrow> uchar list" where
  "put_words d k [] = d"
| "put_words d k (x # xs) = put_words (put32 d k x) (k + 4) xs"

definition get_words :: "uchar list \<Rightarrow> nat \<Rightarrow> nat \<Rightarrow> uint list" where
  "get_words d k n = map (\<lambda>i. get32 d (k + 4 * i)) [0..<n]"

lemma length_put_words [simp]: "length (put_words d k xs) = length d"
  by (induction d k xs rule: put_words.induct) simp_all

lemma put_words_nth_other: "i < k \<or> k + 4 * length xs \<le> i \<Longrightarrow> put_words d k xs ! i = d ! i"
  by (induction d k xs rule: put_words.induct) (auto simp: put32_nth_other)

lemma get_put_words: "k + 4 * length xs \<le> length d \<Longrightarrow> i < length xs \<Longrightarrow> get32 (put_words d k xs) (k + 4 * i) = xs ! i"
proof (induction d k xs arbitrary: i rule: put_words.induct)
  case (2 d k x xs)
  show ?case
  proof (cases i)
    case 0
    have "get32 (put_words (put32 d k x) (k + 4) xs) k = get32 (put32 d k x) k"
      by (rule get32_cong, rule put_words_nth_other) simp
    with 0 2 show ?thesis by simp
  next
    case (Suc j)
    with 2 show ?thesis by (simp add: add.assoc)
  qed
qed simp

lemma get_words_put_words: "k + 4 * length xs \<le> length d \<Longrightarrow> get_words (put_words d k xs) k (length xs) = xs"
  by (rule nth_equalityI) (simp_all add: get_words_def get_put_words)

lemma get32_put_words_other: "j + 4 \<le> k \<or> k + 4 * length xs \<le> j \<Longrightarrow> get32 (put_words d k xs) j = get32 d j"
  by (rule get32_cong, rule put_words_nth_other) linarith

lemma get16_put_words_other: "j + 2 \<le> k \<or> k + 4 * length xs \<le> j \<Longrightarrow> get16 (put_words d k xs) j = get16 d j"
  by (rule get16_cong, rule put_words_nth_other) linarith

end
