(* ===== verification/Bio.thy ===== *)
theory Bio
  imports Sleeplock Bytes
begin

text \<open>
  The buffer cache, \<^verbatim>\<open>bio.c\<close> and \<^verbatim>\<open>buf.h\<close>, over the memory disk of \<^verbatim>\<open>memide.c\<close>. Buffers are linked
  through \<^verbatim>\<open>prev\<close> and \<^verbatim>\<open>next\<close> in the order of their use; a pointer is an index into the array, and the
  index after the last buffer is the list head. The state keeps the history of disk writes, from which
  the log's theory reads the disk contents that a crash leaves. The lemmas show that the links form
  one doubly linked list of all buffers, that the cache holds every block at most once, and that
  through \<open>bread\<close>, \<open>bwrite\<close> and \<open>brelse\<close> the cache and the disk behave as one array of blocks.
\<close>

section \<open>State\<close>

definition NBUF :: nat where "NBUF = 30"
definition B_VALID :: uint where "B_VALID = 2"
definition B_DIRTY :: uint where "B_DIRTY = 4"

record buf =
  bflags :: uint
  bdev :: uint
  blockno :: uint
  brefcnt :: uint
  bprev :: nat
  bnext :: nat
  bdata :: "uchar list"

text \<open>The array \<^verbatim>\<open>bcache.buf\<close> with \<^verbatim>\<open>bcache.head\<close> as its last entry, and the disk.\<close>

record kbio = ksleep +
  bcache :: "buf list"
  disk :: "uchar list list"
  disk_writes :: "(nat \<times> uchar list) list"

abbreviation bhead :: nat where "bhead \<equiv> NBUF"

abbreviation bufat :: "'a kbio_scheme \<Rightarrow> nat \<Rightarrow> buf" where "bufat s i \<equiv> bcache s ! i"

definition upd_buf :: "nat \<Rightarrow> (buf \<Rightarrow> buf) \<Rightarrow> 'a kbio_scheme \<Rightarrow> 'a kbio_scheme" where
  "upd_buf i f s = s\<lparr>bcache := (bcache s)[i := f (bcache s ! i)]\<rparr>"

section \<open>The memory disk\<close>

definition disksize :: "'a kbio_scheme \<Rightarrow> nat" where "disksize s = length (disk s)"

definition iderw :: "nat \<Rightarrow> 'a kbio_scheme \<Rightarrow> 'a kbio_scheme kres" where
  "iderw b s =
     kbind (holdingsleep (BufLock b) s) (\<lambda>(h, s1).
       if \<not> h then Inl (Panic ''iderw: buf not locked'')
       else if bflags (bufat s1 b) AND (B_VALID OR B_DIRTY) = B_VALID then Inl (Panic ''iderw: nothing to do'')
       else if bdev (bufat s1 b) \<noteq> 1 then Inl (Panic ''iderw: request not for disk 1'')
       else if unat (blockno (bufat s1 b)) \<ge> disksize s1 then Inl (Panic ''iderw: block out of range'')
       else let p = unat (blockno (bufat s1 b))
         in if bflags (bufat s1 b) AND B_DIRTY \<noteq> 0
            then Inr (upd_buf b (\<lambda>x. x\<lparr>bflags := (bflags x AND NOT B_DIRTY) OR B_VALID\<rparr>)
              (s1\<lparr>disk := (disk s1)[p := bdata (bufat s1 b)], disk_writes := disk_writes s1 @ [(p, bdata (bufat s1 b))]\<rparr>))
            else Inr (upd_buf b (\<lambda>x. x\<lparr>bdata := disk s1 ! p, bflags := bflags x OR B_VALID\<rparr>) s1))"

section \<open>The cache\<close>

text \<open>Linking a buffer in behind the head, as \<open>binit\<close> and \<open>brelse\<close> do it.\<close>

definition link_front :: "nat \<Rightarrow> 'a kbio_scheme \<Rightarrow> 'a kbio_scheme" where
  "link_front b s =
     (let s1 = upd_buf b (\<lambda>x. x\<lparr>bnext := bnext (bufat s bhead), bprev := bhead\<rparr>) s;
          s2 = upd_buf (bnext (bufat s1 bhead)) (\<lambda>x. x\<lparr>bprev := b\<rparr>) s1
      in upd_buf bhead (\<lambda>x. x\<lparr>bnext := b\<rparr>) s2)"

definition unlink_buf :: "nat \<Rightarrow> 'a kbio_scheme \<Rightarrow> 'a kbio_scheme" where
  "unlink_buf b s =
     (let s1 = upd_buf (bnext (bufat s b)) (\<lambda>x. x\<lparr>bprev := bprev (bufat s b)\<rparr>) s
      in upd_buf (bprev (bufat s1 b)) (\<lambda>x. x\<lparr>bnext := bnext (bufat s1 b)\<rparr>) s1)"

fun binit_loop :: "nat list \<Rightarrow> 'a kbio_scheme \<Rightarrow> 'a kbio_scheme" where
  "binit_loop [] s = s"
| "binit_loop (b # bs) s = binit_loop bs (link_front b (initsleeplock (BufLock b) s))"

definition binit :: "'a kbio_scheme \<Rightarrow> 'a kbio_scheme" where
  "binit s = binit_loop [0..<NBUF] (upd_buf bhead (\<lambda>x. x\<lparr>bprev := bhead, bnext := bhead\<rparr>) s)"

text \<open>
  A loop over the list along \<open>nxt\<close> from buffer \<open>b\<close> until the head. The bound is the number of entries
  of the array, which no loop over a well-formed list exceeds.
\<close>

fun scan :: "nat \<Rightarrow> (nat \<Rightarrow> bool) \<Rightarrow> (nat \<Rightarrow> nat) \<Rightarrow> nat \<Rightarrow> nat option kres" where
  "scan 0 P nxt b = Inl (Undefined ''bcache list'')"
| "scan (Suc k) P nxt b = (if b = bhead then Inr None else if P b then Inr (Some b) else scan k P nxt (nxt b))"

definition bget :: "uint \<Rightarrow> uint \<Rightarrow> 'a kbio_scheme \<Rightarrow> (nat \<times> 'a kbio_scheme) kres" where
  "bget dev bno s =
     kbind (acquire_lock BcacheLock s) (\<lambda>s1.
       kbind (scan (length (bcache s1)) (\<lambda>i. bdev (bufat s1 i) = dev \<and> blockno (bufat s1 i) = bno)
         (\<lambda>i. bnext (bufat s1 i)) (bnext (bufat s1 bhead))) (\<lambda>r.
         case r of
           Some b \<Rightarrow>
             kbind (release_lock BcacheLock (upd_buf b (\<lambda>x. x\<lparr>brefcnt := brefcnt x + 1\<rparr>) s1)) (\<lambda>s2.
               kbind (acquiresleep (BufLock b) s2) (\<lambda>s3. Inr (b, s3)))
         | None \<Rightarrow>
             kbind (scan (length (bcache s1)) (\<lambda>i. brefcnt (bufat s1 i) = 0 \<and> bflags (bufat s1 i) AND B_DIRTY = 0)
               (\<lambda>i. bprev (bufat s1 i)) (bprev (bufat s1 bhead))) (\<lambda>r.
               case r of
                 None \<Rightarrow> Inl (Panic ''bget: no buffers'')
               | Some b \<Rightarrow>
                   kbind (release_lock BcacheLock
                     (upd_buf b (\<lambda>x. x\<lparr>bdev := dev, blockno := bno, bflags := 0, brefcnt := 1\<rparr>) s1)) (\<lambda>s2.
                     kbind (acquiresleep (BufLock b) s2) (\<lambda>s3. Inr (b, s3))))))"

definition bread :: "uint \<Rightarrow> uint \<Rightarrow> 'a kbio_scheme \<Rightarrow> (nat \<times> 'a kbio_scheme) kres" where
  "bread dev bno s =
     kbind (bget dev bno s) (\<lambda>(b, s1).
       if bflags (bufat s1 b) AND B_VALID = 0 then kbind (iderw b s1) (\<lambda>s2. Inr (b, s2)) else Inr (b, s1))"

definition bwrite :: "nat \<Rightarrow> 'a kbio_scheme \<Rightarrow> 'a kbio_scheme kres" where
  "bwrite b s =
     kbind (holdingsleep (BufLock b) s) (\<lambda>(h, s1).
       if \<not> h then Inl (Panic ''bwrite'')
       else iderw b (upd_buf b (\<lambda>x. x\<lparr>bflags := bflags x OR B_DIRTY\<rparr>) s1))"

definition brelse :: "nat \<Rightarrow> 'a kbio_scheme \<Rightarrow> 'a kbio_scheme kres" where
  "brelse b s =
     kbind (holdingsleep (BufLock b) s) (\<lambda>(h, s1).
       if \<not> h then Inl (Panic ''brelse'')
       else kbind (releasesleep (BufLock b) s1) (\<lambda>s2.
         kbind (acquire_lock BcacheLock s2) (\<lambda>s3.
           let s4 = upd_buf b (\<lambda>x. x\<lparr>brefcnt := brefcnt x - 1\<rparr>) s3
           in release_lock BcacheLock (if brefcnt (bufat s4 b) = 0 then link_front b (unlink_buf b s4) else s4))))"

text \<open>A client's change of the data of a buffer it holds.\<close>

definition set_bdata :: "nat \<Rightarrow> uchar list \<Rightarrow> 'a kbio_scheme \<Rightarrow> 'a kbio_scheme" where
  "set_bdata b d s = upd_buf b (\<lambda>x. x\<lparr>bdata := d\<rparr>) s"

section \<open>Doubly linked lists\<close>

fun dpath :: "(nat \<Rightarrow> nat) \<Rightarrow> (nat \<Rightarrow> nat) \<Rightarrow> nat \<Rightarrow> nat list \<Rightarrow> nat \<Rightarrow> bool" where
  "dpath nx pv p [] q \<longleftrightarrow> nx p = q \<and> pv q = p"
| "dpath nx pv p (x # xs) q \<longleftrightarrow> nx p = x \<and> pv x = p \<and> dpath nx pv x xs q"

lemma dpath_append: "dpath nx pv p (xs @ y # ys) q \<longleftrightarrow> dpath nx pv p xs y \<and> dpath nx pv y ys q"
  by (induction xs arbitrary: p) auto

lemma dpath_cong:
  "(\<And>i. i \<in> set (p # xs) \<Longrightarrow> nx' i = nx i) \<Longrightarrow> (\<And>i. i \<in> set (xs @ [q]) \<Longrightarrow> pv' i = pv i) \<Longrightarrow>
   dpath nx' pv' p xs q = dpath nx pv p xs q"
  by (induction xs arbitrary: p) auto

lemma dpath_rev: "dpath nx pv p xs q \<longleftrightarrow> dpath pv nx q (rev xs) p"
proof (induction xs arbitrary: p)
  case (Cons x xs)
  have "dpath pv nx q (rev xs @ [x]) p \<longleftrightarrow> dpath pv nx q (rev xs) x \<and> dpath pv nx x [] p"
    using dpath_append [of pv nx q "rev xs" x "[]" p] by simp
  with Cons.IH show ?case by auto
qed auto

lemma dpath_first: "dpath nx pv p xs q \<Longrightarrow> nx p = hd (xs @ [q])"
  by (cases xs) auto

lemma dpath_last: "dpath nx pv p xs q \<Longrightarrow> pv q = last (p # xs)"
  by (induction xs arbitrary: p) auto

text \<open>Taking a node out, and putting one in behind the head.\<close>

lemma dpath_unlink:
  assumes "dpath nx pv h (xs @ b # ys) h" "distinct (h # xs @ b # ys)"
  shows "dpath (nx(pv b := nx b)) (pv(nx b := pv b)) h (xs @ ys) h"
proof -
  have l: "dpath nx pv h xs b" and r: "dpath nx pv b ys h" using assms(1) by (simp_all add: dpath_append)
  have pb: "pv b = last (h # xs)" using dpath_last [OF l] by simp
  have nb: "nx b = hd (ys @ [h])" using dpath_first [OF r] by simp
  have main: "dpath (nx(pv b := nx b)) (pv(nx b := pv b)) p (zs @ ys) h"
    if "dpath nx pv p zs b" "last (p # zs) = pv b" "distinct (zs @ ys)" "p \<notin> set zs"
      "set (p # zs) \<inter> set ys = {}" "b \<notin> set (p # zs @ ys)" "h \<notin> set zs" "h \<notin> set ys" for p zs
    using that
  proof (induction zs arbitrary: p)
    case Nil
    then have pp: "pv b = p" by simp
    show ?case
    proof (cases ys)
      case Nil
      with nb pp show ?thesis by simp
    next
      case (Cons y ys')
      have "dpath (nx(p := nx b)) (pv(nx b := p)) y ys' h = dpath nx pv y ys' h"
        using Nil.prems Cons nb by (intro dpath_cong) auto
      with Cons nb pp r show ?thesis by (simp add: fun_upd_def)
    qed
  next
    case (Cons z zs)
    have "last (p # z # zs) \<noteq> p" using Cons.prems(4) by (auto simp: last_ConsR)
    then have "p \<noteq> pv b" using Cons.prems(2) by metis
    moreover have "z \<noteq> nx b" using nb Cons.prems(5,7) by (cases ys) auto
    moreover have "dpath (nx(pv b := nx b)) (pv(nx b := pv b)) z (zs @ ys) h" using Cons.prems by (intro Cons.IH) auto
    ultimately show ?case using Cons.prems(1) by (auto simp: fun_upd_def)
  qed
  show ?thesis using assms(2) l pb by (intro main) auto
qed

lemma dpath_link:
  assumes "dpath nx pv h xs h" "distinct (h # xs)" "b \<notin> set (h # xs)"
  shows "dpath (nx(b := nx h, h := b)) (pv(b := h, nx h := b)) h (b # xs) h"
proof (cases xs)
  case Nil
  with assms show ?thesis by auto
next
  case (Cons x ys)
  have "dpath (nx(b := nx h, h := b)) (pv(b := h, nx h := b)) x ys h = dpath nx pv x ys h"
    using assms Cons by (intro dpath_cong) auto
  with assms Cons show ?thesis by (auto simp: fun_upd_def)
qed

lemma scan_dpath:
  assumes "dpath nx pv p xs bhead" "bhead \<notin> set xs" "length xs < k"
  shows "scan k P nx (nx p) = Inr (find P xs)"
  using assms
proof (induction xs arbitrary: p k)
  case Nil
  then show ?case by (cases k) auto
next
  case (Cons x xs)
  then show ?case by (cases k) auto
qed

section \<open>The invariant\<close>

definition valid :: "buf \<Rightarrow> bool" where "valid b \<longleftrightarrow> bit (bflags b) 1"
definition dirty :: "buf \<Rightarrow> bool" where "dirty b \<longleftrightarrow> bit (bflags b) 2"

lemma flag_tests:
  "x AND B_VALID = 0 \<longleftrightarrow> \<not> bit x 1" "x AND B_DIRTY = 0 \<longleftrightarrow> \<not> bit x 2"
  "x AND (B_VALID OR B_DIRTY) = B_VALID \<longleftrightarrow> bit x 1 \<and> \<not> bit x 2"
proof -
  show v: "x AND B_VALID = 0 \<longleftrightarrow> \<not> bit x 1" for x
    using and_exp_eq_0_iff_not_bit [of x 1] by (simp add: B_VALID_def)
  show d: "x AND B_DIRTY = 0 \<longleftrightarrow> \<not> bit x 2"
    using and_exp_eq_0_iff_not_bit [of x 2] by (simp add: B_DIRTY_def)
  have bv: "bit B_VALID k \<longleftrightarrow> k = 1" and bd: "bit B_DIRTY k \<longleftrightarrow> k = 2" for k
    using bit_exp_iff [where 'a = uint, of 1 k] bit_exp_iff [where 'a = uint, of 2 k]
    by (auto simp: B_VALID_def B_DIRTY_def)
  have b: "bit (B_VALID OR B_DIRTY) k \<longleftrightarrow> k = 1 \<or> k = 2" "bit B_VALID k \<longleftrightarrow> k = 1" for k
    by (simp_all only: bit_or_iff bv bd)
  show "x AND (B_VALID OR B_DIRTY) = B_VALID \<longleftrightarrow> bit x 1 \<and> \<not> bit x 2"
  proof
    assume e: "x AND (B_VALID OR B_DIRTY) = B_VALID"
    have "bit (x AND (B_VALID OR B_DIRTY)) k = bit B_VALID k" for k using e by simp
    from this [of 1] this [of 2] show "bit x 1 \<and> \<not> bit x 2" by (auto simp: bit_and_iff b)
  next
    assume "bit x 1 \<and> \<not> bit x 2"
    then show "x AND (B_VALID OR B_DIRTY) = B_VALID" by (intro bit_eqI) (auto simp: bit_and_iff b)
  qed
qed

lemma bit_flags [simp]:
  "bit (x OR B_VALID) 1" "bit (x OR B_VALID) 2 = bit x 2" "bit (x OR B_DIRTY) 1 = bit x 1" "bit (x OR B_DIRTY) 2"
  "bit (x AND NOT B_DIRTY) 1 = bit x 1" "\<not> bit (x AND NOT B_DIRTY) 2"
  "bit ((x AND NOT B_DIRTY) OR B_VALID) 1" "\<not> bit ((x AND NOT B_DIRTY) OR B_VALID) 2"
  using bit_exp_iff [where 'a = uint, of 1] bit_exp_iff [where 'a = uint, of 2]
  by (auto simp: B_VALID_def B_DIRTY_def bit_or_iff bit_and_iff bit_not_iff)

lemmas bit_flags_Suc [simp] = bit_flags [unfolded One_nat_def]

definition lru :: "'a kbio_scheme \<Rightarrow> nat list \<Rightarrow> bool" where
  "lru s l \<longleftrightarrow> dpath (\<lambda>i. bnext (bufat s i)) (\<lambda>i. bprev (bufat s i)) bhead l bhead \<and> distinct l \<and> set l = {..<NBUF}"

text \<open>\<open>H\<close> gives the buffers the running process holds and their blocks.\<close>

definition buf_ok :: "(nat \<Rightarrow> uint option) \<Rightarrow> 'a kbio_scheme \<Rightarrow> nat \<Rightarrow> bool" where
  "buf_ok H s i \<longleftrightarrow>
     (let b = bufat s i; l = sleeplocks s (BufLock i)
      in (dirty b \<longrightarrow> valid b) \<and>
         (valid b \<longleftrightarrow> bdev b = 1) \<and>
         (valid b \<longrightarrow> unat (blockno b) < disksize s \<and> length (bdata b) = 512 \<and>
           (\<not> dirty b \<longrightarrow> bdata b = disk s ! unat (blockno b))) \<and>
         (case H i of
            None \<Rightarrow> brefcnt b = 0 \<and> sl_locked l = 0
          | Some n \<Rightarrow> brefcnt b = 1 \<and> valid b \<and> blockno b = n \<and> sl_locked l \<noteq> 0 \<and> mypid s = Inr (sl_pid l)))"

definition cur_ok :: "'a kproc_scheme \<Rightarrow> bool" where
  "cur_ok s \<longleftrightarrow> (\<exists>p < length (ptable s). curproc s = Some p)"

definition bio_ok :: "(nat \<Rightarrow> uint option) \<Rightarrow> 'a kbio_scheme \<Rightarrow> bool" where
  "bio_ok H s \<longleftrightarrow> length (bcache s) = Suc NBUF \<and> (\<exists>l. lru s l) \<and> held s = {} \<and> cur_ok s \<and> dom H \<subseteq> {..<NBUF} \<and>
     (\<forall>d \<in> set (disk s). length d = 512) \<and> disksize s < 2 ^ 31 \<and> (\<forall>i < NBUF. buf_ok H s i) \<and>
     (\<forall>i < NBUF. \<forall>j < NBUF. valid (bufat s i) \<longrightarrow> valid (bufat s j) \<longrightarrow> blockno (bufat s i) = blockno (bufat s j) \<longrightarrow> i = j)"

text \<open>
  The part of the invariant that speaks of the cache and the disk alone. It holds already at boot, before
  there is a process; the invariant is this part together with a process that runs.
\<close>

definition cache_ok :: "(nat \<Rightarrow> uint option) \<Rightarrow> 'a kbio_scheme \<Rightarrow> bool" where
  "cache_ok H s \<longleftrightarrow> length (bcache s) = Suc NBUF \<and> (\<exists>l. lru s l) \<and> held s = {} \<and> dom H \<subseteq> {..<NBUF} \<and>
     (\<forall>d \<in> set (disk s). length d = 512) \<and> disksize s < 2 ^ 31 \<and> (\<forall>i < NBUF. buf_ok H s i) \<and>
     (\<forall>i < NBUF. \<forall>j < NBUF. valid (bufat s i) \<longrightarrow> valid (bufat s j) \<longrightarrow> blockno (bufat s i) = blockno (bufat s j) \<longrightarrow> i = j)"

lemma bio_ok_cache: "bio_ok H s \<longleftrightarrow> cache_ok H s \<and> cur_ok s"
  unfolding bio_ok_def cache_ok_def by blast

lemma cache_ok_dispatch:
  assumes "cache_ok Map.empty s" "p < length (ptable s)"
  shows "bio_ok Map.empty (s\<lparr>curproc := Some p\<rparr>)"
proof -
  have "buf_ok Map.empty (s\<lparr>curproc := Some p\<rparr>) i \<longleftrightarrow> buf_ok Map.empty s i" for i
    by (simp add: buf_ok_def disksize_def Let_def)
  then show ?thesis using assms by (simp add: bio_ok_def cache_ok_def cur_ok_def lru_def disksize_def)
qed

lemma bio_okD:
  assumes "bio_ok H s"
  shows "length (bcache s) = Suc NBUF" "\<exists>l. lru s l" "held s = {}" "cur_ok s" "dom H \<subseteq> {..<NBUF}"
    "\<forall>d \<in> set (disk s). length d = 512" "disksize s < 2 ^ 31" "\<And>i. i < NBUF \<Longrightarrow> buf_ok H s i"
    "\<And>i j. i < NBUF \<Longrightarrow> j < NBUF \<Longrightarrow> valid (bufat s i) \<Longrightarrow> valid (bufat s j) \<Longrightarrow>
      blockno (bufat s i) = blockno (bufat s j) \<Longrightarrow> i = j"
  using assms unfolding bio_ok_def by blast+

text \<open>The contents of a block as the kernel sees them, and the blocks whose contents are only in the cache.\<close>

definition blk :: "'a kbio_scheme \<Rightarrow> uint \<Rightarrow> uchar list" where
  "blk s n = (case find (\<lambda>i. valid (bufat s i) \<and> blockno (bufat s i) = n) [0..<NBUF] of
     Some i \<Rightarrow> bdata (bufat s i) | None \<Rightarrow> disk s ! unat n)"

definition dirty_blocks :: "'a kbio_scheme \<Rightarrow> uint set" where
  "dirty_blocks s = {n. \<exists>i < NBUF. dirty (bufat s i) \<and> blockno (bufat s i) = n}"

definition busy :: "'a kbio_scheme \<Rightarrow> nat set" where
  "busy s = {i. i < NBUF \<and> (brefcnt (bufat s i) \<noteq> 0 \<or> dirty (bufat s i))}"

lemma blk_cached:
  assumes "bio_ok H s" "i < NBUF" "valid (bufat s i)"
  shows "blk s (blockno (bufat s i)) = bdata (bufat s i)"
proof -
  have "find (\<lambda>j. valid (bufat s j) \<and> blockno (bufat s j) = blockno (bufat s i)) [0..<NBUF] = Some i"
  proof -
    have u: "j = i" if "j < NBUF" "valid (bufat s j)" "blockno (bufat s j) = blockno (bufat s i)" for j
      using assms that unfolding bio_ok_def by blast
    have "\<not> (valid (bufat s j) \<and> blockno (bufat s j) = blockno (bufat s i))" if "j < i" for j
      using u [of j] that assms(2) by auto
    then show ?thesis unfolding find_Some_iff using assms(2,3) by (intro exI [of _ i]) auto
  qed
  then show ?thesis by (simp add: blk_def)
qed

lemma blk_uncached: "(\<And>i. i < NBUF \<Longrightarrow> valid (bufat s i) \<Longrightarrow> blockno (bufat s i) \<noteq> n) \<Longrightarrow> blk s n = disk s ! unat n"
proof -
  assume "\<And>i. i < NBUF \<Longrightarrow> valid (bufat s i) \<Longrightarrow> blockno (bufat s i) \<noteq> n"
  then have "find (\<lambda>i. valid (bufat s i) \<and> blockno (bufat s i) = n) [0..<NBUF] = None" by (auto simp: find_None_iff)
  then show ?thesis by (simp add: blk_def)
qed

lemma blk_clean: "bio_ok H s \<Longrightarrow> n \<notin> dirty_blocks s \<Longrightarrow> blk s n = disk s ! unat n"
proof -
  assume ok: "bio_ok H s" and n: "n \<notin> dirty_blocks s"
  show ?thesis
  proof (cases "\<exists>i < NBUF. valid (bufat s i) \<and> blockno (bufat s i) = n")
    case True
    then obtain i where i: "i < NBUF" "valid (bufat s i)" "blockno (bufat s i) = n" by blast
    then have "\<not> dirty (bufat s i)" using n by (auto simp: dirty_blocks_def)
    with ok i have "bdata (bufat s i) = disk s ! unat n" by (auto simp: bio_ok_def buf_ok_def Let_def)
    with blk_cached [OF ok i(1,2)] i(3) show ?thesis by simp
  qed (intro blk_uncached, auto)
qed

lemma blk_length: "bio_ok H s \<Longrightarrow> unat n < disksize s \<Longrightarrow> length (blk s n) = 512"
proof (cases "\<exists>i < NBUF. valid (bufat s i) \<and> blockno (bufat s i) = n")
  case True
  assume ok: "bio_ok H s"
  from True obtain i where i: "i < NBUF" "valid (bufat s i)" "blockno (bufat s i) = n" by blast
  with ok have "length (bdata (bufat s i)) = 512" by (auto simp: bio_ok_def buf_ok_def Let_def)
  with blk_cached [OF ok i(1,2)] i(3) show ?thesis by simp
next
  case False
  assume "bio_ok H s" "unat n < disksize s"
  then have "length (disk s ! unat n) = 512" by (auto simp: bio_ok_def disksize_def)
  with False show ?thesis by (subst blk_uncached) auto
qed

lemma held_data:
  assumes "bio_ok H s" "H i = Some n"
  shows "bdata (bufat s i) = blk s n" "i < NBUF" "blockno (bufat s i) = n" "valid (bufat s i)" "unat n < disksize s"
proof -
  show i: "i < NBUF" using assms by (auto simp: bio_ok_def)
  with assms show b: "blockno (bufat s i) = n" and v: "valid (bufat s i)" by (auto simp: bio_ok_def buf_ok_def Let_def)
  show "bdata (bufat s i) = blk s n" using blk_cached [OF assms(1) i v] b by simp
  show "unat n < disksize s" using assms i v b by (auto simp: bio_ok_def buf_ok_def Let_def)
qed

section \<open>Changing one buffer\<close>

definition bcore :: "buf \<Rightarrow> uint \<times> uint \<times> uint \<times> uint \<times> uchar list" where
  "bcore b = (bflags b, bdev b, blockno b, brefcnt b, bdata b)"

lemma bcore_eq: "bcore b = bcore c \<longleftrightarrow> bflags b = bflags c \<and> bdev b = bdev c \<and> blockno b = blockno c \<and>
    brefcnt b = brefcnt c \<and> bdata b = bdata c"
  by (simp add: bcore_def)

lemma bcore_valid: "bcore b = bcore c \<Longrightarrow> valid b = valid c" "bcore b = bcore c \<Longrightarrow> dirty b = dirty c"
  by (simp_all add: bcore_def valid_def dirty_def)

text \<open>The common part of all operations: one buffer changes, the others keep all but their links.\<close>

definition changes :: "nat \<Rightarrow> 'a kbio_scheme \<Rightarrow> 'a kbio_scheme \<Rightarrow> bool" where
  "changes i s s' \<longleftrightarrow> length (bcache s') = length (bcache s) \<and> ((\<exists>l. lru s l) \<longrightarrow> (\<exists>l. lru s' l)) \<and> held s' = held s \<and>
     cur_ok s' = cur_ok s \<and> mypid s' = mypid s \<and> disksize s' = disksize s \<and>
     (\<forall>j. j < NBUF \<longrightarrow> j \<noteq> i \<longrightarrow> bcore (bufat s' j) = bcore (bufat s j) \<and> sleeplocks s' (BufLock j) = sleeplocks s (BufLock j))"

lemma changes_ok:
  assumes ok: "bio_ok H s" and i: "i < NBUF" and c: "changes i s s'"
    and d: "\<forall>d \<in> set (disk s'). length d = 512"
    and dd: "\<And>j. j < NBUF \<Longrightarrow> j \<noteq> i \<Longrightarrow> valid (bufat s j) \<Longrightarrow>
      disk s' ! unat (blockno (bufat s j)) = disk s ! unat (blockno (bufat s j))"
    and n: "buf_ok H' s' i" "\<And>j. j < NBUF \<Longrightarrow> j \<noteq> i \<Longrightarrow> valid (bufat s j) \<Longrightarrow> valid (bufat s' i) \<Longrightarrow>
      blockno (bufat s j) \<noteq> blockno (bufat s' i)"
    and H': "\<And>j. j \<noteq> i \<Longrightarrow> H' j = H j"
  shows "bio_ok H' s'"
proof -
  have o: "valid (bufat s' j) = valid (bufat s j)" "dirty (bufat s' j) = dirty (bufat s j)" "blockno (bufat s' j) = blockno (bufat s j)"
    "bdev (bufat s' j) = bdev (bufat s j)" "brefcnt (bufat s' j) = brefcnt (bufat s j)" "bdata (bufat s' j) = bdata (bufat s j)"
    "sleeplocks s' (BufLock j) = sleeplocks s (BufLock j)" if "j < NBUF" "j \<noteq> i" for j
    using c that bcore_valid [of "bufat s' j" "bufat s j"] by (auto simp: changes_def bcore_eq)
  have b: "buf_ok H' s' j" if "j < NBUF" for j
  proof (cases "j = i")
    case False
    have "buf_ok H s j" using ok that by (simp add: bio_ok_def)
    moreover have e: "mypid s' = mypid s" "disksize s' = disksize s" using c by (simp_all add: changes_def)
    ultimately show ?thesis unfolding buf_ok_def Let_def o [OF that False] H' [OF False] e
      using dd [OF that False] by (cases "valid (bufat s j)") simp_all
  qed (use n(1) in simp)
  have u: "\<forall>j < NBUF. \<forall>k < NBUF. valid (bufat s' j) \<longrightarrow> valid (bufat s' k) \<longrightarrow>
    blockno (bufat s' j) = blockno (bufat s' k) \<longrightarrow> j = k"
  proof (intro allI impI)
    fix j k
    assume that: "j < NBUF" "k < NBUF" "valid (bufat s' j)" "valid (bufat s' k)" "blockno (bufat s' j) = blockno (bufat s' k)"
    consider "j = i" "k = i" | "j = i" "k \<noteq> i" | "j \<noteq> i" "k = i" | "j \<noteq> i" "k \<noteq> i" by blast
    then show "j = k"
    proof cases
      case 4
      with ok that o [of j] o [of k] show ?thesis by (simp add: bio_ok_def)
    qed (use that n(2) [of j] n(2) [of k] o [of j] o [of k] in auto)
  qed
  have h: "dom H' \<subseteq> {..<NBUF}"
  proof
    fix j
    assume "j \<in> dom H'"
    then show "j \<in> {..<NBUF}" using bio_okD(5) [OF ok] i H' [of j] by (cases "j = i") (auto simp: domIff)
  qed
  have b': "\<forall>i < NBUF. buf_ok H' s' i" using b by simp
  have r: "length (bcache s') = Suc NBUF" "\<exists>l. lru s' l" "held s' = {}" "cur_ok s'" "disksize s' < 2 ^ 31"
    using bio_okD [OF ok] c by (simp_all add: changes_def)
  show ?thesis unfolding bio_ok_def by (intro conjI r h d b' u)
qed

lemma changes_blk:
  assumes ok: "bio_ok H s" "bio_ok H' s'" and i: "i < NBUF" and c: "changes i s s'"
  shows "blk s' m = (if valid (bufat s' i) \<and> blockno (bufat s' i) = m then bdata (bufat s' i)
    else if \<exists>j < NBUF. j \<noteq> i \<and> valid (bufat s j) \<and> blockno (bufat s j) = m then blk s m else disk s' ! unat m)"
proof -
  have o: "valid (bufat s' j) = valid (bufat s j)" "blockno (bufat s' j) = blockno (bufat s j)" "bdata (bufat s' j) = bdata (bufat s j)"
    if "j < NBUF" "j \<noteq> i" for j
    using c that bcore_valid [of "bufat s' j" "bufat s j"] by (auto simp: changes_def bcore_eq)
  consider "valid (bufat s' i)" "blockno (bufat s' i) = m"
    | j where "\<not> (valid (bufat s' i) \<and> blockno (bufat s' i) = m)" "j < NBUF" "j \<noteq> i" "valid (bufat s j)" "blockno (bufat s j) = m"
    | "\<not> (valid (bufat s' i) \<and> blockno (bufat s' i) = m)" "\<not> (\<exists>j < NBUF. j \<noteq> i \<and> valid (bufat s j) \<and> blockno (bufat s j) = m)"
    by blast
  then show ?thesis
  proof cases
    case 1
    with blk_cached [OF ok(2) i] show ?thesis by auto
  next
    case (2 j)
    have "blk s' m = bdata (bufat s' j)" using blk_cached [OF ok(2) 2(2)] 2 o [of j] by auto
    also have "\<dots> = blk s m" using blk_cached [OF ok(1) 2(2)] 2 o [of j] by auto
    finally show ?thesis using 2 by auto
  next
    case 3
    then have "blk s' m = disk s' ! unat m" using o by (intro blk_uncached) metis
    with 3 show ?thesis by auto
  qed
qed

section \<open>The operations\<close>

text \<open>What the operations leave alone: all but the cache, its locks, the disk, and sleepers that wake.\<close>

definition procs_same :: "proc list \<Rightarrow> proc list \<Rightarrow> bool" where
  "procs_same ps qs \<longleftrightarrow> list_all2 (\<lambda>p q. q = p \<or> pstate p = SLEEPING \<and> q = p\<lparr>pstate := RUNNABLE\<rparr>) ps qs"

definition bio_frame :: "'a kbio_scheme \<Rightarrow> 'a kbio_scheme \<Rightarrow> bool" where
  "bio_frame s s' \<longleftrightarrow> procs_same (ptable s) (ptable s') \<and> (\<forall>i. sleeplocks s' (InodeLock i) = sleeplocks s (InodeLock i)) \<and>
     s' = s\<lparr>ptable := ptable s', sleeplocks := sleeplocks s', bcache := bcache s', disk := disk s', disk_writes := disk_writes s'\<rparr>"

lemma procs_same_refl [simp]: "procs_same ps ps"
  by (simp add: procs_same_def list_all2_refl)

lemma procs_same_trans: "procs_same ps qs \<Longrightarrow> procs_same qs rs \<Longrightarrow> procs_same ps rs"
  unfolding procs_same_def by (rule list_all2_trans [rotated], assumption, assumption) auto

lemma procs_same_length: "procs_same ps qs \<Longrightarrow> length qs = length ps"
  by (auto simp: procs_same_def dest: list_all2_lengthD)

lemma procs_same_nth:
  assumes "procs_same ps qs" "i < length ps"
  shows "pid (qs ! i) = pid (ps ! i)" "cwd (qs ! i) = cwd (ps ! i)" "ofile (qs ! i) = ofile (ps ! i)"
proof -
  have "qs ! i = ps ! i \<or> qs ! i = (ps ! i)\<lparr>pstate := RUNNABLE\<rparr>"
    using assms by (auto simp: procs_same_def list_all2_conv_all_nth)
  then show "pid (qs ! i) = pid (ps ! i)" "cwd (qs ! i) = cwd (ps ! i)" "ofile (qs ! i) = ofile (ps ! i)" by auto
qed

lemma procs_same_wakeup: "procs_same (ptable s) (ptable (wakeup1 ch s))"
  by (auto simp: wakeup1_def procs_same_def list_all2_conv_all_nth)

lemma bio_frame_refl [simp]: "bio_frame s s"
  by (simp add: bio_frame_def)

lemma bio_frame_trans:
  assumes "bio_frame s t" "bio_frame t u"
  shows "bio_frame s u"
proof -
  obtain pt sl c d w where t: "t = s\<lparr>ptable := pt, sleeplocks := sl, bcache := c, disk := d, disk_writes := w\<rparr>"
    using assms(1) unfolding bio_frame_def by blast
  obtain pt' sl' c' d' w' where u: "u = t\<lparr>ptable := pt', sleeplocks := sl', bcache := c', disk := d', disk_writes := w'\<rparr>"
    using assms(2) unfolding bio_frame_def by blast
  have "u = s\<lparr>ptable := ptable u, sleeplocks := sleeplocks u, bcache := bcache u, disk := disk u, disk_writes := disk_writes u\<rparr>"
    unfolding u t by simp
  moreover have "procs_same (ptable s) (ptable u)" "\<And>i. sleeplocks u (InodeLock i) = sleeplocks s (InodeLock i)"
    using assms procs_same_trans unfolding bio_frame_def by (blast, simp)
  ultimately show ?thesis unfolding bio_frame_def by blast
qed

lemma bio_frame_mypid: "bio_frame s s' \<Longrightarrow> cur_ok s \<Longrightarrow> mypid s' = mypid s \<and> cur_ok s'"
proof -
  assume f: "bio_frame s s'" and c: "cur_ok s"
  obtain pt sl c d w where t: "s' = s\<lparr>ptable := pt, sleeplocks := sl, bcache := c, disk := d, disk_writes := w\<rparr>"
    using f unfolding bio_frame_def by blast
  have "procs_same (ptable s) pt" using f by (simp add: bio_frame_def t)
  with c procs_same_length [of "ptable s" pt] procs_same_nth(1) [of "ptable s" pt] show ?thesis by (auto simp: t mypid_def cur_ok_def)
qed

text \<open>The cache finds the buffer of a block, or the least recently used one that is free.\<close>

lemma scan_next:
  assumes "lru s l" "length (bcache s) = Suc NBUF"
  shows "scan (length (bcache s)) P (\<lambda>i. bnext (bufat s i)) (bnext (bufat s bhead)) = Inr (find P l)"
proof -
  have "length l = NBUF" using assms(1) distinct_card [of l] by (simp add: lru_def)
  then show ?thesis using assms scan_dpath [of "\<lambda>i. bnext (bufat s i)" "\<lambda>i. bprev (bufat s i)" bhead l "Suc NBUF" P]
    by (simp add: lru_def)
qed

lemma scan_prev:
  assumes "lru s l" "length (bcache s) = Suc NBUF"
  shows "scan (length (bcache s)) P (\<lambda>i. bprev (bufat s i)) (bprev (bufat s bhead)) = Inr (find P (rev l))"
proof -
  have "length l = NBUF" using assms(1) distinct_card [of l] by (simp add: lru_def)
  moreover have "dpath (\<lambda>i. bprev (bufat s i)) (\<lambda>i. bnext (bufat s i)) bhead (rev l) bhead"
    using assms(1) dpath_rev by (simp add: lru_def)
  ultimately show ?thesis using assms scan_dpath [of "\<lambda>i. bprev (bufat s i)" "\<lambda>i. bnext (bufat s i)" bhead "rev l" "Suc NBUF" P]
    by (simp add: lru_def)
qed

text \<open>Releasing moves a buffer to the front of the list.\<close>

lemma upd_buf_simps [simp]:
  "length (bcache (upd_buf i f s)) = length (bcache s)" "sleeplocks (upd_buf i f s) = sleeplocks s"
  "held (upd_buf i f s) = held s" "curproc (upd_buf i f s) = curproc s" "ptable (upd_buf i f s) = ptable s"
  "disk (upd_buf i f s) = disk s" "disk_writes (upd_buf i f s) = disk_writes s"
  by (simp_all add: upd_buf_def)

lemma upd_buf_nth: "i < length (bcache s) \<Longrightarrow> bufat (upd_buf i f s) j = (if j = i then f (bufat s i) else bufat s j)"
  by (simp add: upd_buf_def nth_list_update)

lemma link_front_dpath:
  assumes p: "dpath (\<lambda>i. bnext (bufat s i)) (\<lambda>i. bprev (bufat s i)) bhead xs bhead" and l: "length (bcache s) = Suc NBUF"
    and xs: "distinct xs" "set xs \<subseteq> {..<NBUF}" "b < NBUF" "b \<notin> set xs"
  shows "dpath (\<lambda>i. bnext (bufat (link_front b s) i)) (\<lambda>i. bprev (bufat (link_front b s) i)) bhead (b # xs) bhead"
proof -
  let ?n1 = "\<lambda>i. bnext (bufat s i)" and ?p1 = "\<lambda>i. bprev (bufat s i)"
  have "?n1 bhead = hd (xs @ [bhead])" using dpath_first [OF p] .
  then have "?n1 bhead \<in> set (xs @ [bhead])" by (metis hd_in_set append_is_Nil_conv list.discI)
  then have n1: "?n1 bhead \<le> NBUF" using xs(2) by auto
  have s2: "(\<lambda>i. bnext (bufat (link_front b s) i)) = ?n1(b := ?n1 bhead, bhead := b)"
    "(\<lambda>i. bprev (bufat (link_front b s) i)) = ?p1(b := bhead, ?n1 bhead := b)"
    using l n1 xs(3) by (auto simp: link_front_def Let_def upd_buf_nth less_Suc_eq_le fun_eq_iff)
  have "distinct (bhead # xs)" "b \<notin> set (bhead # xs)" using xs by auto
  then show ?thesis unfolding s2 by (rule dpath_link [OF p])
qed

lemma move_front:
  assumes "lru s (xs @ b # ys)" "length (bcache s) = Suc NBUF"
  shows "lru (link_front b (unlink_buf b s)) (b # xs @ ys)"
proof -
  let ?nx = "\<lambda>i. bnext (bufat s i)" and ?pv = "\<lambda>i. bprev (bufat s i)"
  let ?s1 = "unlink_buf b s" and ?s2 = "link_front b (unlink_buf b s)"
  have d: "dpath ?nx ?pv bhead (xs @ b # ys) bhead" and dist: "distinct (xs @ b # ys)" and set: "set (xs @ b # ys) = {..<NBUF}"
    using assms(1) by (simp_all add: lru_def)
  have h: "bhead \<notin> set (xs @ b # ys)" and b: "b < NBUF" using set by auto
  have nb: "?nx b \<le> NBUF" and pb: "?pv b \<le> NBUF" and ne: "?nx b \<noteq> b" "?pv b \<noteq> b"
  proof -
    have "?nx b = hd (ys @ [bhead])" "?pv b = last (bhead # xs)" using d dpath_first dpath_last by (metis dpath_append)+
    then have "?nx b \<in> set (ys @ [bhead])" "?pv b \<in> set (bhead # xs)" by (metis hd_in_set last_in_set append_is_Nil_conv list.discI)+
    moreover have "set ys \<subseteq> {..<NBUF}" "set xs \<subseteq> {..<NBUF}" using set by auto
    ultimately show "?nx b \<le> NBUF" "?pv b \<le> NBUF" "?nx b \<noteq> b" "?pv b \<noteq> b" using dist b by auto
  qed
  have s1: "(\<lambda>i. bnext (bufat ?s1 i)) = ?nx(?pv b := ?nx b)" "(\<lambda>i. bprev (bufat ?s1 i)) = ?pv(?nx b := ?pv b)"
    using assms(2) nb pb ne by (auto simp: unlink_buf_def Let_def upd_buf_nth less_Suc_eq_le fun_eq_iff)
  have p1: "dpath (\<lambda>i. bnext (bufat ?s1 i)) (\<lambda>i. bprev (bufat ?s1 i)) bhead (xs @ ys) bhead"
    unfolding s1 using dpath_unlink [OF d] dist h by simp
  have l1: "length (bcache ?s1) = Suc NBUF" using assms(2) by (simp add: unlink_buf_def Let_def)
  have "dpath (\<lambda>i. bnext (bufat ?s2 i)) (\<lambda>i. bprev (bufat ?s2 i)) bhead (b # xs @ ys) bhead"
    using set dist b h by (intro link_front_dpath [OF p1 l1]) auto
  with dist set show ?thesis by (auto simp: lru_def)
qed

lemma busy_card:
  assumes "bio_ok H s"
  shows "card (busy s) \<le> card (dom H) + card (dirty_blocks s)"
proof -
  let ?D = "{i. i < NBUF \<and> dirty (bufat s i)}"
  have "busy s \<subseteq> dom H \<union> ?D"
  proof
    fix i
    assume "i \<in> busy s"
    moreover from this have "buf_ok H s i" using bio_okD(8) [OF assms] by (simp add: busy_def)
    ultimately show "i \<in> dom H \<union> ?D" by (auto simp: busy_def buf_ok_def Let_def split: option.splits)
  qed
  moreover have "finite (dom H)" by (rule finite_subset [OF bio_okD(5) [OF assms]]) simp
  then have "finite (dom H \<union> ?D)" by simp
  ultimately have "card (busy s) \<le> card (dom H \<union> ?D)" by (rule card_mono [rotated])
  also have "\<dots> \<le> card (dom H) + card ?D" by (rule card_Un_le)
  also have "card ?D = card ((\<lambda>i. blockno (bufat s i)) ` ?D)"
  proof (rule card_image [symmetric], rule inj_onI)
    fix i j
    assume "i \<in> ?D" "j \<in> ?D" "blockno (bufat s i) = blockno (bufat s j)"
    moreover have "valid (bufat s k)" if "k \<in> ?D" for k
      using bio_okD(8) [OF assms, of k] that by (simp add: buf_ok_def Let_def)
    ultimately show "i = j" using bio_okD(9) [OF assms, of i j] by simp
  qed
  also have "(\<lambda>i. blockno (bufat s i)) ` ?D = dirty_blocks s" by (auto simp: dirty_blocks_def)
  finally show ?thesis by simp
qed

text \<open>Taking a buffer: the state after the lock is acquired.\<close>

definition taken :: "nat \<Rightarrow> (buf \<Rightarrow> buf) \<Rightarrow> 'a kbio_scheme \<Rightarrow> 'a kbio_scheme" where
  "taken i f s = (upd_buf i f s)\<lparr>sleeplocks := (sleeplocks s)(BufLock i :=
     \<lparr>sl_locked = 1, sl_pid = pid (ptable s ! the (curproc s))\<rparr>)\<rparr>"

lemma lru_links:
  "(\<And>i. bnext (bufat s' i) = bnext (bufat s i)) \<Longrightarrow> (\<And>i. bprev (bufat s' i) = bprev (bufat s i)) \<Longrightarrow> lru s' l = lru s l"
  by (simp add: lru_def)

lemma taken_changes:
  assumes "bio_ok H s" "i < NBUF" "\<And>x. bnext (f x) = bnext x" "\<And>x. bprev (f x) = bprev x"
  shows "changes i s (taken i f s)" "bio_frame s (taken i f s)" "disk (taken i f s) = disk s" "disk_writes (taken i f s) = disk_writes s"
    "bufat (taken i f s) i = f (bufat s i)" "mypid (taken i f s) = Inr (pid (ptable s ! the (curproc s)))"
proof -
  have l: "length (bcache s) = Suc NBUF" using bio_okD [OF assms(1)] by simp
  have nth: "bufat (taken i f s) j = (if j = i then f (bufat s i) else bufat s j)" for j
    using l assms(2) by (simp add: taken_def upd_buf_nth)
  show "bufat (taken i f s) i = f (bufat s i)" by (simp add: nth)
  have "lru (taken i f s) k = lru s k" for k using assms(3,4) by (intro lru_links) (simp_all add: nth)
  moreover have "mypid (taken i f s) = mypid s" by (cases "curproc s") (simp_all add: taken_def mypid_def)
  ultimately show "changes i s (taken i f s)" using nth by (simp add: changes_def) (simp add: taken_def cur_ok_def disksize_def)
  show "bio_frame s (taken i f s)" by (simp add: bio_frame_def taken_def upd_buf_def)
  show "disk (taken i f s) = disk s" "disk_writes (taken i f s) = disk_writes s" by (simp_all add: taken_def)
  show "mypid (taken i f s) = Inr (pid (ptable s ! the (curproc s)))"
    using bio_okD(4) [OF assms(1)] by (auto simp: taken_def mypid_def cur_ok_def)
qed

lemma taken_sleeplock [simp]: "sleeplocks (taken i f s) (BufLock i) = \<lparr>sl_locked = 1, sl_pid = pid (ptable s ! the (curproc s))\<rparr>"
  by (simp add: taken_def)

text \<open>\<open>bget\<close> when the block is cached, and when it is not.\<close>

lemma bget_take:
  assumes ok: "bio_ok H s" and i: "i < NBUF" "H i = None"
  shows "kbind (release_lock BcacheLock (upd_buf i f (s\<lparr>held := {BcacheLock}\<rparr>))) (\<lambda>s2.
     kbind (acquiresleep (BufLock i) s2) (\<lambda>s3. Inr (i, s3))) = Inr (i, taken i f s)"
proof -
  obtain p where p: "curproc s = Some p" using bio_okD(4) [OF ok] by (auto simp: cur_ok_def)
  have "sl_locked (sleeplocks s (BufLock i)) = 0" using bio_okD(8) [OF ok i(1)] i(2) by (simp add: buf_ok_def Let_def)
  moreover have "release_lock BcacheLock (upd_buf i f (s\<lparr>held := {BcacheLock}\<rparr>)) = Inr (upd_buf i f s)"
    using bio_okD(3) [OF ok] by (simp add: release_lock_def upd_buf_def)
  ultimately show ?thesis using p bio_okD(3) [OF ok] by (simp add: acquiresleep_ok taken_def)
qed

lemma bget_hit:
  assumes ok: "bio_ok H s" and i: "i < NBUF" "valid (bufat s i)" "blockno (bufat s i) = n" "H i = None"
  shows "bget 1 n s = Inr (i, taken i (\<lambda>x. x\<lparr>brefcnt := brefcnt x + 1\<rparr>) s)"
proof -
  obtain l where l: "lru s l" using bio_okD(2) [OF ok] by blast
  let ?P = "\<lambda>i. bdev (bufat s i) = 1 \<and> blockno (bufat s i) = n"
  have P: "?P j \<longleftrightarrow> j = i" if "j < NBUF" for j
    using bio_okD(8) [OF ok that] bio_okD(8) [OF ok i(1)] bio_okD(9) [OF ok that i(1)] i(2,3)
    by (auto simp: buf_ok_def Let_def)
  have "\<forall>j \<in> set l. ?P j = (j = i)" using P l by (auto simp: lru_def)
  then have "find ?P l = find (\<lambda>j. j = i) l" by (induction l) auto
  also have "\<dots> = Some i"
  proof -
    have "find (\<lambda>j. j = i) l \<noteq> None" using l i(1) by (simp add: find_None_iff lru_def)
    then obtain j where j: "find (\<lambda>j. j = i) l = Some j" by blast
    then have "j = i" by (auto simp: find_Some_iff)
    with j show ?thesis by simp
  qed
  finally have sc: "scan (length (bcache s)) ?P (\<lambda>i. bnext (bufat s i)) (bnext (bufat s bhead)) = Inr (Some i)"
    using scan_next [OF l bio_okD(1) [OF ok], of ?P] by simp
  show ?thesis using bget_take [OF ok i(1,4)] sc bio_okD(3) [OF ok]
    by (simp add: bget_def acquire_lock_def)
qed

lemma bget_miss:
  assumes ok: "bio_ok H s" and n: "\<And>i. i < NBUF \<Longrightarrow> valid (bufat s i) \<Longrightarrow> blockno (bufat s i) \<noteq> n"
    and room: "card (dom H) + card (dirty_blocks s) < NBUF"
  shows "\<exists>i < NBUF. H i = None \<and> \<not> dirty (bufat s i) \<and>
    bget 1 n s = Inr (i, taken i (\<lambda>x. x\<lparr>bdev := 1, blockno := n, bflags := 0, brefcnt := 1\<rparr>) s)"
proof -
  obtain l where l: "lru s l" using bio_okD(2) [OF ok] by blast
  let ?P = "\<lambda>i. bdev (bufat s i) = 1 \<and> blockno (bufat s i) = n"
  let ?Q = "\<lambda>i. brefcnt (bufat s i) = 0 \<and> bflags (bufat s i) AND B_DIRTY = 0"
  have "\<not> ?P j" if "j < NBUF" for j using bio_okD(8) [OF ok that] n [OF that] by (auto simp: buf_ok_def Let_def)
  then have "find ?P l = None" using l by (auto simp: find_None_iff lru_def)
  then have sc: "scan (length (bcache s)) ?P (\<lambda>i. bnext (bufat s i)) (bnext (bufat s bhead)) = Inr None"
    using scan_next [OF l bio_okD(1) [OF ok], of ?P] by simp
  have "card (busy s) < NBUF" using busy_card [OF ok] room by simp
  moreover have "busy s \<subseteq> {..<NBUF}" by (auto simp: busy_def)
  ultimately have "busy s \<noteq> {..<NBUF}" by auto
  then obtain k where k: "k < NBUF" "k \<notin> busy s" using \<open>busy s \<subseteq> {..<NBUF}\<close> by auto
  then have "?Q k" by (auto simp: busy_def dirty_def flag_tests)
  then have "find ?Q (rev l) \<noteq> None" using l k(1) by (auto simp: find_None_iff lru_def)
  then obtain i where i: "find ?Q (rev l) = Some i" by blast
  then have "i \<in> set (rev l)" "?Q i" unfolding find_Some_iff by (metis nth_mem)+
  then have i': "i < NBUF" "?Q i" using l by (auto simp: lru_def)
  then have H: "H i = None" using bio_okD(8) [OF ok i'(1)] by (auto simp: buf_ok_def Let_def split: option.splits)
  have sc': "scan (length (bcache s)) ?Q (\<lambda>i. bprev (bufat s i)) (bprev (bufat s bhead)) = Inr (Some i)"
    using scan_prev [OF l bio_okD(1) [OF ok], of ?Q] i by simp
  have "bget 1 n s = Inr (i, taken i (\<lambda>x. x\<lparr>bdev := 1, blockno := n, bflags := 0, brefcnt := 1\<rparr>) s)"
    using bget_take [OF ok i'(1) H] sc sc' bio_okD(3) [OF ok] by (simp add: bget_def acquire_lock_def)
  with i' H show ?thesis by (auto simp: dirty_def flag_tests)
qed

lemma iderw_read:
  assumes "sl_locked (sleeplocks s (BufLock i)) \<noteq> 0" "mypid s = Inr (sl_pid (sleeplocks s (BufLock i)))" "held s = {}"
    "\<not> valid (bufat s i)" "\<not> dirty (bufat s i)" "bdev (bufat s i) = 1" "unat (blockno (bufat s i)) < disksize s"
  shows "iderw i s = Inr (upd_buf i (\<lambda>x. x\<lparr>bdata := disk s ! unat (blockno (bufat s i)), bflags := bflags x OR B_VALID\<rparr>) s)"
proof -
  obtain p where "curproc s = Some p" using assms(2) by (auto simp: mypid_def split: option.splits)
  with assms show ?thesis by (simp add: iderw_def holdingsleep_ok mypid_def valid_def dirty_def flag_tests Let_def)
qed

lemma iderw_write:
  assumes "sl_locked (sleeplocks s (BufLock i)) \<noteq> 0" "mypid s = Inr (sl_pid (sleeplocks s (BufLock i)))" "held s = {}"
    "dirty (bufat s i)" "bdev (bufat s i) = 1" "unat (blockno (bufat s i)) < disksize s"
  shows "iderw i s = Inr (upd_buf i (\<lambda>x. x\<lparr>bflags := (bflags x AND NOT B_DIRTY) OR B_VALID\<rparr>)
    (s\<lparr>disk := (disk s)[unat (blockno (bufat s i)) := bdata (bufat s i)],
      disk_writes := disk_writes s @ [(unat (blockno (bufat s i)), bdata (bufat s i))]\<rparr>))"
proof -
  obtain p where "curproc s = Some p" using assms(2) by (auto simp: mypid_def split: option.splits)
  with assms show ?thesis by (simp add: iderw_def holdingsleep_ok mypid_def valid_def dirty_def flag_tests Let_def)
qed

lemma taken_twice: "upd_buf i g (taken i f s) = taken i (\<lambda>x. g (f x)) s" if "i < length (bcache s)"
  using that by (simp add: taken_def upd_buf_def)

text \<open>The effect of an operation on what its caller holds and on the blocks.\<close>

definition bio_keeps :: "'a kbio_scheme \<Rightarrow> 'a kbio_scheme \<Rightarrow> bool" where
  "bio_keeps s s' \<longleftrightarrow> blk s' = blk s \<and> disk s' = disk s \<and> disk_writes s' = disk_writes s \<and> dirty_blocks s' = dirty_blocks s \<and>
     bio_frame s s'"

lemma taken_keeps:
  assumes ok: "bio_ok H s" and i: "i < NBUF" "H i = None" and n: "unat n < disksize s"
    and new: "\<And>j. j < NBUF \<Longrightarrow> j \<noteq> i \<Longrightarrow> valid (bufat s j) \<Longrightarrow> blockno (bufat s j) \<noteq> n"
    and f: "\<And>x. bnext (f x) = bnext x" "\<And>x. bprev (f x) = bprev x"
    and b: "valid (f (bufat s i))" "bdev (f (bufat s i)) = 1" "blockno (f (bufat s i)) = n" "brefcnt (f (bufat s i)) = 1"
      "bdata (f (bufat s i)) = blk s n" "dirty (f (bufat s i)) = dirty (bufat s i)"
    and old: "dirty (bufat s i) \<Longrightarrow> blockno (bufat s i) = n" "\<not> dirty (bufat s i) \<Longrightarrow> blk s n = disk s ! unat n"
  shows "bio_ok (H(i \<mapsto> n)) (taken i f s) \<and> bio_keeps s (taken i f s)"
proof -
  note t = taken_changes [OF ok i(1) f]
  have bo: "buf_ok (H(i \<mapsto> n)) (taken i f s) i"
    using b n blk_length [OF ok n] old(2) t by (simp add: buf_ok_def Let_def disksize_def)
  have ok': "bio_ok (H(i \<mapsto> n)) (taken i f s)"
    using ok i t bo new b bio_okD(6) [OF ok] by (intro changes_ok [OF ok i(1) t(1)]) auto
  have o: "bcore (bufat (taken i f s) j) = bcore (bufat s j)" if "j < NBUF" "j \<noteq> i" for j
    using t(1) that by (simp add: changes_def)
  have "blk (taken i f s) m = blk s m" for m
  proof -
    have "blk s m = disk s ! unat m" if "m \<noteq> n" "\<not> (\<exists>j < NBUF. j \<noteq> i \<and> valid (bufat s j) \<and> blockno (bufat s j) = m)"
    proof (rule blk_clean [OF ok])
      show "m \<notin> dirty_blocks s"
      proof
        assume "m \<in> dirty_blocks s"
        then obtain j where j: "j < NBUF" "dirty (bufat s j)" "blockno (bufat s j) = m" by (auto simp: dirty_blocks_def)
        then have "valid (bufat s j)" using bio_okD(8) [OF ok j(1)] by (simp add: buf_ok_def Let_def)
        with j that old(1) show False by auto
      qed
    qed
    then show ?thesis unfolding changes_blk [OF ok ok' i(1) t(1)] using t(3,5) b by auto
  qed
  moreover have "dirty_blocks (taken i f s) = dirty_blocks s"
  proof -
    have "dirty (bufat (taken i f s) j) \<and> blockno (bufat (taken i f s) j) = m \<longleftrightarrow> dirty (bufat s j) \<and> blockno (bufat s j) = m"
      if "j < NBUF" for j m
    proof (cases "j = i")
      case True
      then show ?thesis using t(5) b(3,6) old(1) by auto
    next
      case False
      show ?thesis using o [OF that False] bcore_valid(2) [OF o [OF that False]] by (simp add: bcore_eq)
    qed
    then show ?thesis unfolding dirty_blocks_def by blast
  qed
  ultimately show ?thesis using ok' t(2-4) by (auto simp: bio_keeps_def)
qed

lemma bread_ok:
  assumes ok: "bio_ok H s" and n: "unat n < disksize s" "n \<notin> ran H"
    and room: "n \<in> dirty_blocks s \<or> card (dom H) + card (dirty_blocks s) < NBUF"
  shows "\<exists>i s'. bread 1 n s = Inr (i, s') \<and> H i = None \<and> bio_ok (H(i \<mapsto> n)) s' \<and> bio_keeps s s'"
proof (cases "\<exists>i < NBUF. valid (bufat s i) \<and> blockno (bufat s i) = n")
  case True
  then obtain i where i: "i < NBUF" "valid (bufat s i)" "blockno (bufat s i) = n" by blast
  let ?f = "\<lambda>x. x\<lparr>brefcnt := brefcnt x + 1\<rparr>"
  have H: "H i = None"
  proof (rule ccontr)
    assume "H i \<noteq> None"
    then have "H i = Some n" using held_data(3) [OF ok, of i] i(3) by auto
    with n(2) show False by (auto simp: ran_def)
  qed
  have "valid (?f (bufat s i))" using i(2) by (simp add: valid_def)
  then have "bread 1 n s = Inr (i, taken i ?f s)"
    using bget_hit [OF ok i H] taken_changes(5) [OF ok i(1), of ?f] by (simp add: bread_def flag_tests valid_def)
  moreover have "bio_ok (H(i \<mapsto> n)) (taken i ?f s) \<and> bio_keeps s (taken i ?f s)"
  proof (rule taken_keeps [OF ok i(1) H n(1)])
    show "blockno (bufat s j) \<noteq> n" if "j < NBUF" "j \<noteq> i" "valid (bufat s j)" for j
      using bio_okD(9) [OF ok that(1) i(1)] that i by auto
    show "bdata (?f (bufat s i)) = blk s n" using blk_cached [OF ok i(1,2)] i(3) by simp
    show "blk s n = disk s ! unat n" if "\<not> dirty (bufat s i)"
      using bio_okD(8) [OF ok i(1)] that i blk_cached [OF ok i(1,2)] by (simp add: buf_ok_def Let_def)
  qed (use i bio_okD(8) [OF ok i(1)] H in \<open>auto simp: valid_def dirty_def buf_ok_def Let_def\<close>)
  ultimately show ?thesis using H by blast
next
  case False
  then have no: "\<And>j. j < NBUF \<Longrightarrow> valid (bufat s j) \<Longrightarrow> blockno (bufat s j) \<noteq> n" by blast
  have nd: "n \<notin> dirty_blocks s"
  proof
    assume "n \<in> dirty_blocks s"
    then obtain j where j: "j < NBUF" "dirty (bufat s j)" "blockno (bufat s j) = n" by (auto simp: dirty_blocks_def)
    then have "valid (bufat s j)" using bio_okD(8) [OF ok j(1)] by (simp add: buf_ok_def Let_def)
    with no j show False by auto
  qed
  let ?f = "\<lambda>x. x\<lparr>bdev := 1, blockno := n, bflags := 0, brefcnt := 1\<rparr>"
  let ?g = "\<lambda>x. (?f x)\<lparr>bdata := disk s ! unat n, bflags := 0 OR B_VALID\<rparr>"
  obtain i where i: "i < NBUF" "H i = None" "\<not> dirty (bufat s i)" "bget 1 n s = Inr (i, taken i ?f s)"
    using bget_miss [OF ok no] room nd by blast
  note t = taken_changes [OF ok i(1), of ?f]
  have "iderw i (taken i ?f s) = Inr (upd_buf i (\<lambda>x. x\<lparr>bdata := disk s ! unat n, bflags := bflags x OR B_VALID\<rparr>) (taken i ?f s))"
    using t n bio_okD(3) [OF ok] by (subst iderw_read) (simp_all add: valid_def dirty_def disksize_def taken_def)
  also have "\<dots> = Inr (taken i ?g s)"
    using bio_okD(1) [OF ok] i(1) by (subst taken_twice) simp_all
  finally have "bread 1 n s = Inr (i, taken i ?g s)"
    using i(4) t(5) by (simp add: bread_def flag_tests)
  moreover have "bio_ok (H(i \<mapsto> n)) (taken i ?g s) \<and> bio_keeps s (taken i ?g s)"
  proof (rule taken_keeps [OF ok i(1,2) n(1)])
    show "bdata (?g (bufat s i)) = blk s n" using blk_uncached [of s n] no by simp
    show "dirty (?g (bufat s i)) = dirty (bufat s i)" using i(3) bit_flags(2) [of 0] by (simp add: dirty_def)
    show "valid (?g (bufat s i))" using bit_flags(1) [of 0] by (simp add: valid_def)
  qed (use i no blk_uncached [of s n] in auto)
  ultimately show ?thesis using i(2) by blast
qed

text \<open>Changing the data of a held buffer, then writing it to the disk or marking it dirty.\<close>

definition stored :: "nat \<Rightarrow> (buf \<Rightarrow> buf) \<Rightarrow> uchar list list \<Rightarrow> (nat \<times> uchar list) list \<Rightarrow> 'a kbio_scheme \<Rightarrow> 'a kbio_scheme" where
  "stored i f d w s = (upd_buf i f s)\<lparr>disk := d, disk_writes := w\<rparr>"

lemma stored_ok:
  assumes ok: "bio_ok H s" and i: "H i = Some n" and x: "length x = 512"
    and f: "bcore (f (bufat s i)) = (fl, 1, n, 1, x)" "bnext (f (bufat s i)) = bnext (bufat s i)" "bprev (f (bufat s i)) = bprev (bufat s i)"
      "bit fl 1"
    and d: "d = disk s \<and> bit fl 2 \<or> d = (disk s)[unat n := x]"
  shows "bio_ok H (stored i f d w s)" "blk (stored i f d w s) = (blk s)(n := x)" "bio_frame s (stored i f d w s)"
    "dirty_blocks (stored i f d w s) = (if bit fl 2 then insert n (dirty_blocks s) else dirty_blocks s - {n})"
proof -
  let ?s = "stored i f d w s"
  note h = held_data [OF ok i]
  have l: "length (bcache s) = Suc NBUF" using bio_okD(1) [OF ok] .
  have nth: "bufat ?s j = (if j = i then f (bufat s i) else bufat s j)" for j
    using l h(2) by (simp add: stored_def upd_buf_nth)
  have fi: "valid (f (bufat s i))" "dirty (f (bufat s i)) = bit fl 2" "blockno (f (bufat s i)) = n" "bdata (f (bufat s i)) = x"
    "bdev (f (bufat s i)) = 1" "brefcnt (f (bufat s i)) = 1"
    using f by (simp_all add: bcore_def valid_def dirty_def)
  have ds: "length d = length (disk s)" using d by auto
  have "lru ?s k = lru s k" for k using f(2,3) by (intro lru_links) (simp_all add: nth)
  moreover have mp: "mypid ?s = mypid s" by (cases "curproc s") (simp_all add: stored_def mypid_def)
  ultimately have c: "changes i s ?s"
    using nth ds by (simp add: changes_def) (simp add: stored_def cur_ok_def disksize_def)
  have o: "blockno (bufat s j) \<noteq> n" if "j < NBUF" "j \<noteq> i" "valid (bufat s j)" for j
    using bio_okD(9) [OF ok that(1) h(2)] that h(3,4) by auto
  have un: "unat n < length (disk s)" using h(5) by (simp add: disksize_def)
  have dk: "disk ?s = d" by (simp add: stored_def)
  have dd: "d ! unat m = disk s ! unat m" if "m \<noteq> n" for m
    using d that by (auto simp: nth_list_update word_unat_eq_iff)
  have bo: "buf_ok H ?s i"
    using bio_okD(8) [OF ok h(2)] fi x un ds d i mp by (auto simp: buf_ok_def Let_def nth dk disksize_def) (simp_all add: stored_def)
  have dl: "\<forall>y \<in> set (disk ?s). length y = 512" using d bio_okD(6) [OF ok] x by (auto simp: dk dest!: set_update_subset_insert [THEN subsetD])
  show ok': "bio_ok H ?s"
    using o bo dl fi dd by (intro changes_ok [OF ok h(2) c]) (simp_all add: nth dk)
  show "blk ?s = (blk s)(n := x)"
  proof
    fix m
    have "blk s m = disk s ! unat m" if "m \<noteq> n" "\<not> (\<exists>j < NBUF. j \<noteq> i \<and> valid (bufat s j) \<and> blockno (bufat s j) = m)"
      using that h(3) by (intro blk_uncached) auto
    then show "blk ?s m = ((blk s)(n := x)) m"
      unfolding changes_blk [OF ok ok' h(2) c] using fi dd by (auto simp: nth dk)
  qed
  show "bio_frame s ?s" by (simp add: bio_frame_def stored_def upd_buf_def)
  have "dirty (bufat ?s j) \<and> blockno (bufat ?s j) = m \<longleftrightarrow>
      (if j = i then bit fl 2 \<and> m = n else dirty (bufat s j) \<and> blockno (bufat s j) = m)" for j m
    using fi by (auto simp: nth)
  then have D: "dirty_blocks ?s = {m. bit fl 2 \<and> m = n \<or> (\<exists>j < NBUF. j \<noteq> i \<and> dirty (bufat s j) \<and> blockno (bufat s j) = m)}"
    using h(2) unfolding dirty_blocks_def by auto
  have vd: "valid (bufat s j)" if "j < NBUF" "dirty (bufat s j)" for j
    using bio_okD(8) [OF ok that(1)] that by (simp add: buf_ok_def Let_def)
  show "dirty_blocks ?s = (if bit fl 2 then insert n (dirty_blocks s) else dirty_blocks s - {n})"
    unfolding D using h(3) o vd by (auto simp: dirty_blocks_def)
qed

lemma held_lock:
  assumes "bio_ok H s" "H i = Some n"
  shows "sl_locked (sleeplocks s (BufLock i)) \<noteq> 0" "mypid s = Inr (sl_pid (sleeplocks s (BufLock i)))"
    "brefcnt (bufat s i) = 1" "bdev (bufat s i) = 1" "\<exists>p. curproc s = Some p"
  using bio_okD(8) [OF assms(1) held_data(2) [OF assms]] assms(2) bio_okD(4) [OF assms(1)]
  by (auto simp: buf_ok_def Let_def cur_ok_def)

lemma bwrite_ok:
  assumes ok: "bio_ok H s" and i: "H i = Some n" and x: "length x = 512"
  shows "\<exists>s'. bwrite i (set_bdata i x s) = Inr s' \<and> bio_ok H s' \<and> disk s' = (disk s)[unat n := x] \<and>
    disk_writes s' = disk_writes s @ [(unat n, x)] \<and> blk s' = (blk s)(n := x) \<and> dirty_blocks s' = dirty_blocks s - {n} \<and>
    bio_frame s s'"
proof -
  note h = held_data [OF ok i] held_lock [OF ok i]
  obtain p where p: "curproc s = Some p" using h by blast
  have l: "i < length (bcache s)" using bio_okD(1) [OF ok] h(2) by simp
  let ?f = "\<lambda>b. b\<lparr>bdata := x, bflags := ((bflags b OR B_DIRTY) AND NOT B_DIRTY) OR B_VALID\<rparr>"
  let ?s1 = "upd_buf i (\<lambda>b. b\<lparr>bflags := bflags b OR B_DIRTY\<rparr>) (set_bdata i x s)"
  have nth: "bufat ?s1 i = (bufat s i)\<lparr>bdata := x, bflags := bflags (bufat s i) OR B_DIRTY\<rparr>"
    using l by (simp add: set_bdata_def upd_buf_nth)
  have m: "mypid ?s1 = mypid s" by (cases "curproc s") (simp_all add: mypid_def set_bdata_def)
  have "bwrite i (set_bdata i x s) = iderw i ?s1"
    using p h bio_okD(3) [OF ok] by (simp add: bwrite_def holdingsleep_ok mypid_def set_bdata_def)
  also have "\<dots> = Inr (upd_buf i (\<lambda>b. b\<lparr>bflags := (bflags b AND NOT B_DIRTY) OR B_VALID\<rparr>)
      (?s1\<lparr>disk := (disk s)[unat n := x], disk_writes := disk_writes s @ [(unat n, x)]\<rparr>))"
    using h bio_okD(3) [OF ok] nth m by (subst iderw_write) (simp_all add: dirty_def set_bdata_def disksize_def)
  also have "\<dots> = Inr (stored i ?f ((disk s)[unat n := x]) (disk_writes s @ [(unat n, x)]) s)"
    using l by (simp add: stored_def upd_buf_def set_bdata_def)
  finally have e: "bwrite i (set_bdata i x s) = Inr (stored i ?f ((disk s)[unat n := x]) (disk_writes s @ [(unat n, x)]) s)" .
  have c: "bcore (?f (bufat s i)) = (((bflags (bufat s i) OR B_DIRTY) AND NOT B_DIRTY) OR B_VALID, 1, n, 1, x)"
    using h by (simp add: bcore_def)
  show ?thesis
    using e stored_ok [where f = ?f, OF ok i x c, where d = "(disk s)[unat n := x]" and w = "disk_writes s @ [(unat n, x)]"]
    by (simp add: stored_def)
qed

lemma mark_dirty_ok:
  assumes ok: "bio_ok H s" and i: "H i = Some n" and x: "length x = 512"
  defines "s' \<equiv> upd_buf i (\<lambda>b. b\<lparr>bflags := bflags b OR B_DIRTY\<rparr>) (set_bdata i x s)"
  shows "bio_ok H s'" "blk s' = (blk s)(n := x)" "dirty_blocks s' = insert n (dirty_blocks s)" "bio_frame s s'"
    "disk s' = disk s" "disk_writes s' = disk_writes s"
proof -
  note h = held_data [OF ok i] held_lock [OF ok i]
  have l: "i < length (bcache s)" using bio_okD(1) [OF ok] h(2) by simp
  let ?f = "\<lambda>b. b\<lparr>bdata := x, bflags := bflags b OR B_DIRTY\<rparr>"
  have e: "s' = stored i ?f (disk s) (disk_writes s) s"
    using l by (simp add: s'_def stored_def upd_buf_def set_bdata_def)
  have c: "bcore (?f (bufat s i)) = (bflags (bufat s i) OR B_DIRTY, 1, n, 1, x)" using h by (simp add: bcore_def)
  have v: "bit (bflags (bufat s i) OR B_DIRTY) 1" using h(4) by (simp add: valid_def)
  note st = stored_ok [where f = ?f, OF ok i x c _ _ v, where d = "disk s" and w = "disk_writes s"]
  show "bio_ok H s'" "blk s' = (blk s)(n := x)" "dirty_blocks s' = insert n (dirty_blocks s)" "bio_frame s s'"
    using st unfolding e by simp_all
  show "disk s' = disk s" "disk_writes s' = disk_writes s" by (simp_all add: e stored_def)
qed

text \<open>Releasing a buffer changes its count, its lock and the links only.\<close>

lemma upd_buf_core: "(\<And>x. bcore (f x) = bcore x) \<Longrightarrow> bcore (bufat (upd_buf i f s) j) = bcore (bufat s j)"
  by (cases "i < length (bcache s)", simp_all only: upd_buf_nth) (simp_all add: upd_buf_def list_update_beyond)

lemma upd_link_core:
  "bcore (bufat (upd_buf i (\<lambda>x. x\<lparr>bnext := a, bprev := c\<rparr>) s) j) = bcore (bufat s j)"
  "bcore (bufat (upd_buf i (\<lambda>x. x\<lparr>bnext := a\<rparr>) s) j) = bcore (bufat s j)"
  "bcore (bufat (upd_buf i (\<lambda>x. x\<lparr>bprev := c\<rparr>) s) j) = bcore (bufat s j)"
  by (rule upd_buf_core; simp add: bcore_def)+

lemma link_core: "bcore (bufat (link_front b s) j) = bcore (bufat s j)" "bcore (bufat (unlink_buf b s) j) = bcore (bufat s j)"
  by (simp_all add: link_front_def unlink_buf_def Let_def upd_link_core)

lemma link_simps [simp]:
  "sleeplocks (link_front b s) = sleeplocks s" "sleeplocks (unlink_buf b s) = sleeplocks s"
  "held (link_front b s) = held s" "held (unlink_buf b s) = held s"
  "curproc (link_front b s) = curproc s" "curproc (unlink_buf b s) = curproc s"
  "ptable (link_front b s) = ptable s" "ptable (unlink_buf b s) = ptable s"
  "disk (link_front b s) = disk s" "disk (unlink_buf b s) = disk s"
  "disk_writes (link_front b s) = disk_writes s" "disk_writes (unlink_buf b s) = disk_writes s"
  "length (bcache (link_front b s)) = length (bcache s)" "length (bcache (unlink_buf b s)) = length (bcache s)"
  by (simp_all add: link_front_def unlink_buf_def Let_def)

lemma link_state: "link_front b s = s\<lparr>bcache := bcache (link_front b s)\<rparr>" "unlink_buf b s = s\<lparr>bcache := bcache (unlink_buf b s)\<rparr>"
  by (simp_all add: link_front_def unlink_buf_def upd_buf_def Let_def)

lemma link_held:
  "link_front b (s\<lparr>held := h\<rparr>) = (link_front b s)\<lparr>held := h\<rparr>" "unlink_buf b (s\<lparr>held := h\<rparr>) = (unlink_buf b s)\<lparr>held := h\<rparr>"
  by (simp_all add: link_front_def unlink_buf_def upd_buf_def Let_def)

lemma relink_state: "\<exists>c. link_front b (unlink_buf b (upd_buf b f s)) = s\<lparr>bcache := c\<rparr>"
proof -
  obtain c where c: "upd_buf b f s = s\<lparr>bcache := c\<rparr>" by (simp add: upd_buf_def)
  obtain d where d: "unlink_buf b (upd_buf b f s) = (upd_buf b f s)\<lparr>bcache := d\<rparr>" using link_state(2) by blast
  obtain e where e: "link_front b (unlink_buf b (upd_buf b f s)) = (unlink_buf b (upd_buf b f s))\<lparr>bcache := e\<rparr>"
    using link_state(1) by blast
  have "link_front b (unlink_buf b (upd_buf b f s)) = s\<lparr>bcache := e\<rparr>" unfolding e unfolding d unfolding c by simp
  then show ?thesis by blast
qed

definition released :: "nat \<Rightarrow> 'a kbio_scheme \<Rightarrow> 'a kbio_scheme" where
  "released i s = link_front i (unlink_buf i (upd_buf i (\<lambda>x. x\<lparr>brefcnt := 0\<rparr>)
     (wakeup1 (SleepLockChan (BufLock i)) (s\<lparr>sleeplocks := (sleeplocks s)(BufLock i := \<lparr>sl_locked = 0, sl_pid = 0\<rparr>)\<rparr>))))"

lemma brelse_eq:
  assumes ok: "bio_ok H s" and i: "H i = Some n"
  shows "brelse i s = Inr (released i s)"
proof -
  note h = held_data [OF ok i] held_lock [OF ok i]
  obtain p where p: "curproc s = Some p" using h by blast
  have l: "i < length (bcache s)" using bio_okD(1) [OF ok] h(2) by simp
  let ?s = "wakeup1 (SleepLockChan (BufLock i)) (s\<lparr>sleeplocks := (sleeplocks s)(BufLock i := \<lparr>sl_locked = 0, sl_pid = 0\<rparr>)\<rparr>)"
  let ?t = "upd_buf i (\<lambda>x. x\<lparr>brefcnt := brefcnt x - 1\<rparr>) (?s\<lparr>held := {BcacheLock}\<rparr>)"
  have b: "bcache ?s = bcache s" "held ?s = {}" using bio_okD(3) [OF ok] by (simp_all add: wakeup1_def)
  have rs: "releasesleep (BufLock i) s = Inr ?s" using bio_okD(3) [OF ok] by (simp add: releasesleep_ok)
  have t: "?t = (upd_buf i (\<lambda>x. x\<lparr>brefcnt := 0\<rparr>) ?s)\<lparr>held := {BcacheLock}\<rparr>"
    using h by (simp add: upd_buf_def b)
  have "brefcnt (bufat ?t i) = 0" using l h by (simp add: t upd_buf_def b)
  then have "brelse i s = release_lock BcacheLock (link_front i (unlink_buf i ?t))"
    using p h bio_okD(3) [OF ok] rs by (simp add: brelse_def holdingsleep_ok mypid_def acquire_lock_def b(2) Let_def)
  also have "link_front i (unlink_buf i ?t) = (released i s)\<lparr>held := {BcacheLock}\<rparr>"
    unfolding t released_def by (simp only: link_held)
  finally show ?thesis using b(2) by (simp add: release_lock_def released_def)
qed

lemma brelse_ok:
  assumes ok: "bio_ok H s" and i: "H i = Some n"
  shows "brelse i s = Inr (released i s)" "bio_ok (H(i := None)) (released i s)" "bio_keeps s (released i s)"
proof -
  note h = held_data [OF ok i] held_lock [OF ok i]
  show "brelse i s = Inr (released i s)" by (rule brelse_eq [OF ok i])
  let ?w = "wakeup1 (SleepLockChan (BufLock i)) (s\<lparr>sleeplocks := (sleeplocks s)(BufLock i := \<lparr>sl_locked = 0, sl_pid = 0\<rparr>)\<rparr>)"
  let ?u = "upd_buf i (\<lambda>x. x\<lparr>brefcnt := 0\<rparr>) ?w"
  have w: "bcache ?w = bcache s" "disk ?w = disk s" "disk_writes ?w = disk_writes s" "held ?w = held s" "curproc ?w = curproc s"
    "sleeplocks ?w = (sleeplocks s)(BufLock i := \<lparr>sl_locked = 0, sl_pid = 0\<rparr>)"
    "ptable ?w = ptable (wakeup1 (SleepLockChan (BufLock i)) s)" by (simp_all add: wakeup1_def)
  have l: "length (bcache ?u) = Suc NBUF" using bio_okD(1) [OF ok] w(1) by simp
  have u: "bufat ?u j = (if j = i then (bufat s i)\<lparr>brefcnt := 0\<rparr> else bufat s j)" for j
    using l h(2) by (subst upd_buf_nth) (simp_all add: w(1))
  have core: "bcore (bufat (released i s) j) = bcore (if j = i then (bufat s i)\<lparr>brefcnt := 0\<rparr> else bufat s j)" for j
    unfolding released_def link_core u ..
  have f: "bio_frame s (released i s)"
    unfolding bio_frame_def
  proof (intro conjI allI)
    show "procs_same (ptable s) (ptable (released i s))" using procs_same_wakeup [of s] by (simp add: released_def w(7))
    show "sleeplocks (released i s) (InodeLock k) = sleeplocks s (InodeLock k)" for k by (simp add: released_def w(6))
    obtain c where c: "released i s = ?w\<lparr>bcache := c\<rparr>" using relink_state unfolding released_def by blast
    show "released i s = s\<lparr>ptable := ptable (released i s), sleeplocks := sleeplocks (released i s),
      bcache := bcache (released i s), disk := disk (released i s), disk_writes := disk_writes (released i s)\<rparr>"
      unfolding c by (simp add: wakeup1_def)
  qed
  obtain k where "lru s k" using bio_okD(2) [OF ok] by blast
  then obtain xs ys where k: "lru s (xs @ i # ys)"
    using h(2) by (metis lessThan_iff lru_def split_list)
  have "lru ?u (xs @ i # ys)" using k by (subst lru_links [where s = s]) (simp_all add: u)
  from move_front [OF this l] have "lru (released i s) (i # xs @ ys)" by (simp add: released_def)
  then have c: "changes i s (released i s)"
    using bio_frame_mypid [OF f bio_okD(4) [OF ok]] bio_okD(4) [OF ok] core l bio_okD(1) [OF ok]
    by (auto simp: changes_def disksize_def) (auto simp: released_def w)
  have d: "disk (released i s) = disk s" "disk_writes (released i s) = disk_writes s" by (simp_all add: released_def w)
  have ri: "bcore (bufat (released i s) i) = bcore ((bufat s i)\<lparr>brefcnt := 0\<rparr>)" using core by simp
  then have r: "valid (bufat (released i s) i)" "dirty (bufat (released i s) i) = dirty (bufat s i)" "bdev (bufat (released i s) i) = 1"
    "blockno (bufat (released i s) i) = n" "brefcnt (bufat (released i s) i) = 0" "bdata (bufat (released i s) i) = bdata (bufat s i)"
    using h bcore_valid [OF ri] by (auto simp: bcore_eq valid_def dirty_def)
  have sl: "sl_locked (sleeplocks (released i s) (BufLock i)) = 0" by (simp add: released_def w(6))
  have o: "blockno (bufat s j) \<noteq> n" if "j < NBUF" "j \<noteq> i" "valid (bufat s j)" for j
    using bio_okD(9) [OF ok that(1) h(2)] that h(3,4) by auto
  have bo: "buf_ok (H(i := None)) (released i s) i"
    using bio_okD(8) [OF ok h(2)] r sl h(3,4) by (simp add: buf_ok_def Let_def d disksize_def)
  show ok': "bio_ok (H(i := None)) (released i s)"
    using bo r o bio_okD(6) [OF ok] by (intro changes_ok [OF ok h(2) c]) (simp_all add: d)
  have "blk (released i s) m = blk s m" for m
  proof -
    have "blk s m = disk s ! unat m" if "m \<noteq> n" "\<not> (\<exists>j < NBUF. j \<noteq> i \<and> valid (bufat s j) \<and> blockno (bufat s j) = m)"
      using that h(3) by (intro blk_uncached) auto
    then show ?thesis unfolding changes_blk [OF ok ok' h(2) c] using r h(1) by (auto simp: d)
  qed
  moreover have "dirty (bufat (released i s) j) = dirty (bufat s j) \<and> blockno (bufat (released i s) j) = blockno (bufat s j)" for j
    using bcore_valid(2) [OF core [of j]] core [of j] by (auto simp: bcore_eq dirty_def)
  then have "dirty_blocks (released i s) = dirty_blocks s" by (simp add: dirty_blocks_def)
  ultimately show "bio_keeps s (released i s)" using f d by (auto simp: bio_keeps_def)
qed

section \<open>The interface\<close>

text \<open>
  What the log and the file system rely on: while a process holds a set of buffers, the blocks are one
  array \<open>view\<close>; reading gives a buffer with the block's contents, as long as the block is pinned in the cache
  or fewer than \<open>cap\<close> buffers are held or pinned; writing changes one block of the array and of the disk; releasing changes nothing.
\<close>

locale block_cache =
  fixes rd :: "uint \<Rightarrow> 's \<Rightarrow> (nat \<times> 's) kres"
    and wr :: "nat \<Rightarrow> uchar list \<Rightarrow> 's \<Rightarrow> 's kres"
    and rel :: "nat \<Rightarrow> 's \<Rightarrow> 's kres"
    and ok :: "(nat \<Rightarrow> uint option) \<Rightarrow> 's \<Rightarrow> bool"
    and contents :: "nat \<Rightarrow> 's \<Rightarrow> uchar list"
    and view :: "'s \<Rightarrow> uint \<Rightarrow> uchar list"
    and store :: "'s \<Rightarrow> uchar list list"
    and writes :: "'s \<Rightarrow> (nat \<times> uchar list) list"
    and pinned :: "'s \<Rightarrow> uint set"
    and same :: "'s \<Rightarrow> 's \<Rightarrow> bool"
    and cap :: nat
  assumes rd_ok: "ok H s \<Longrightarrow> unat n < length (store s) \<Longrightarrow> n \<notin> ran H \<Longrightarrow>
      n \<in> pinned s \<or> card (dom H) + card (pinned s) < cap \<Longrightarrow>
      \<exists>i s'. rd n s = Inr (i, s') \<and> H i = None \<and> ok (H(i \<mapsto> n)) s' \<and> view s' = view s \<and> store s' = store s \<and>
        writes s' = writes s \<and> pinned s' = pinned s \<and> same s s'"
    and wr_ok: "ok H s \<Longrightarrow> H i = Some n \<Longrightarrow> length x = 512 \<Longrightarrow>
      \<exists>s'. wr i x s = Inr s' \<and> ok H s' \<and> view s' = (view s)(n := x) \<and> store s' = (store s)[unat n := x] \<and>
        writes s' = writes s @ [(unat n, x)] \<and> pinned s' = pinned s - {n} \<and> same s s'"
    and rel_ok: "ok H s \<Longrightarrow> H i = Some n \<Longrightarrow>
      \<exists>s'. rel i s = Inr s' \<and> ok (H(i := None)) s' \<and> view s' = view s \<and> store s' = store s \<and>
        writes s' = writes s \<and> pinned s' = pinned s \<and> same s s'"
    and contents_ok: "ok H s \<Longrightarrow> H i = Some n \<Longrightarrow> contents i s = view s n"
    and view_length: "ok H s \<Longrightarrow> unat n < length (store s) \<Longrightarrow> length (view s n) = 512"
    and same_trans: "same s t \<Longrightarrow> same t u \<Longrightarrow> same s u"
begin

text \<open>Reading one block, changing it, writing it and releasing it.\<close>

lemma rmw:
  assumes "ok Map.empty s" "unat n < length (store s)" "card (pinned s) < cap" "length (f (view s n)) = 512"
  shows "\<exists>i s1 s2 s3. rd n s = Inr (i, s1) \<and> contents i s1 = view s n \<and> wr i (f (view s n)) s1 = Inr s2 \<and> rel i s2 = Inr s3 \<and>
    ok Map.empty s3 \<and> view s3 = (view s)(n := f (view s n)) \<and> store s3 = (store s)[unat n := f (view s n)] \<and>
    writes s3 = writes s @ [(unat n, f (view s n))] \<and> pinned s3 = pinned s - {n} \<and> same s s3"
proof -
  obtain i s1 where r: "rd n s = Inr (i, s1)" "ok [i \<mapsto> n] s1" "view s1 = view s" "store s1 = store s"
    "writes s1 = writes s" "pinned s1 = pinned s" "same s s1" using rd_ok [OF assms(1,2)] assms(3) by auto
  obtain s2 where w: "wr i (f (view s n)) s1 = Inr s2" "ok [i \<mapsto> n] s2" "view s2 = (view s)(n := f (view s n))"
    "store s2 = (store s)[unat n := f (view s n)]" "writes s2 = writes s @ [(unat n, f (view s n))]"
    "pinned s2 = pinned s - {n}" "same s1 s2" using wr_ok [OF r(2) _ assms(4), of i n] r by auto
  obtain s3 where e: "rel i s2 = Inr s3" "ok Map.empty s3" "view s3 = view s2" "store s3 = store s2" "writes s3 = writes s2"
    "pinned s3 = pinned s2" "same s2 s3" using rel_ok [OF w(2), of i n] by auto
  have "same s s3" by (rule same_trans [OF r(7) same_trans [OF w(7) e(7)]])
  then show ?thesis using e r w contents_ok [OF r(2), of i n]
    by (intro exI [of _ i] exI [of _ s1] exI [of _ s2] exI [of _ s3]) simp
qed

text \<open>
  Copying block \<open>a\<close> to block \<open>b\<close> and copying \<open>b\<close> to \<open>a\<close>, with both buffers held and released in the
  order the log does it.
\<close>

definition copy_snd :: "uint \<Rightarrow> uint \<Rightarrow> 's \<Rightarrow> 's kres" where
  "copy_snd a b s = kbind (rd a s) (\<lambda>(i, s1). kbind (rd b s1) (\<lambda>(j, s2).
     kbind (wr j (contents i s2) s2) (\<lambda>s3. kbind (rel i s3) (rel j))))"

definition copy_fst :: "uint \<Rightarrow> uint \<Rightarrow> 's \<Rightarrow> 's kres" where
  "copy_fst a b s = kbind (rd a s) (\<lambda>(i, s1). kbind (rd b s1) (\<lambda>(j, s2).
     kbind (wr i (contents j s2) s2) (\<lambda>s3. kbind (rel j s3) (rel i))))"

lemma copy_ok:
  assumes "ok Map.empty s" "unat a < length (store s)" "unat b < length (store s)" "a \<noteq> b" "card (pinned s) < cap"
    "b \<in> pinned s \<or> Suc (card (pinned s)) < cap"
  shows "\<exists>s'. copy_snd a b s = Inr s' \<and> ok Map.empty s' \<and> view s' = (view s)(b := view s a) \<and>
      store s' = (store s)[unat b := view s a] \<and> writes s' = writes s @ [(unat b, view s a)] \<and> pinned s' = pinned s - {b} \<and> same s s'"
    "\<exists>s'. copy_fst a b s = Inr s' \<and> ok Map.empty s' \<and> view s' = (view s)(a := view s b) \<and>
      store s' = (store s)[unat a := view s b] \<and> writes s' = writes s @ [(unat a, view s b)] \<and> pinned s' = pinned s - {a} \<and> same s s'"
proof -
  obtain i s1 where r: "rd a s = Inr (i, s1)" "ok [i \<mapsto> a] s1" "view s1 = view s" "store s1 = store s"
    "writes s1 = writes s" "pinned s1 = pinned s" "same s s1" using rd_ok [OF assms(1,2)] assms(5) by auto
  obtain j s2 where q: "rd b s1 = Inr (j, s2)" "j \<noteq> i" "ok [i \<mapsto> a, j \<mapsto> b] s2" "view s2 = view s" "store s2 = store s"
    "writes s2 = writes s" "pinned s2 = pinned s" "same s1 s2"
    using rd_ok [OF r(2), of b] assms(3-6) r by (auto split: if_splits)
  have len: "length (view s a) = 512" "length (view s b) = 512" using view_length [OF assms(1)] assms by auto
  have c: "contents i s2 = view s a" "contents j s2 = view s b" using contents_ok [OF q(3)] q(2,4) by auto
  have fin: "\<exists>s4 s5. rel x s3 = Inr s4 \<and> rel y s4 = Inr s5 \<and> ok Map.empty s5 \<and> view s5 = view s3 \<and> store s5 = store s3 \<and>
      writes s5 = writes s3 \<and> pinned s5 = pinned s3 \<and> same s s5"
    if o3: "ok [i \<mapsto> a, j \<mapsto> b] s3" "same s2 s3" and xy: "(x, y) = (i, j) \<or> (x, y) = (j, i)" for x y s3
  proof -
    obtain m where "[i \<mapsto> a, j \<mapsto> b] x = Some m" using xy q(2) by auto
    then obtain s4 where s4: "rel x s3 = Inr s4" "ok ([i \<mapsto> a, j \<mapsto> b](x := None)) s4" "view s4 = view s3" "store s4 = store s3"
      "writes s4 = writes s3" "pinned s4 = pinned s3" "same s3 s4" using rel_ok [OF o3(1)] by blast
    obtain k where k: "[i \<mapsto> a, j \<mapsto> b](x := None) = [y \<mapsto> k]" using xy q(2) by (auto simp: fun_eq_iff split: if_splits)
    then have o4: "ok [y \<mapsto> k] s4" using s4(2) by simp
    then obtain s5 where s5: "rel y s4 = Inr s5" "ok Map.empty s5" "view s5 = view s4" "store s5 = store s4"
      "writes s5 = writes s4" "pinned s5 = pinned s4" "same s4 s5" using rel_ok [OF o4, of y k] by auto
    have "same s s5"
      by (rule same_trans [OF r(7) same_trans [OF q(8) same_trans [OF o3(2) same_trans [OF s4(7) s5(7)]]]])
    then show ?thesis using s4 s5 by (intro exI [of _ s4] exI [of _ s5]) simp
  qed
  obtain s3 where w: "wr j (view s a) s2 = Inr s3" "ok [i \<mapsto> a, j \<mapsto> b] s3" "view s3 = (view s)(b := view s a)"
    "store s3 = (store s)[unat b := view s a]" "writes s3 = writes s @ [(unat b, view s a)]" "pinned s3 = pinned s - {b}" "same s2 s3"
    using wr_ok [OF q(3), of j b "view s a"] len q by auto
  from fin [OF w(2,7), of i j] w r(1) q(1) c show "\<exists>s'. copy_snd a b s = Inr s' \<and> ok Map.empty s' \<and> view s' = (view s)(b := view s a) \<and>
      store s' = (store s)[unat b := view s a] \<and> writes s' = writes s @ [(unat b, view s a)] \<and> pinned s' = pinned s - {b} \<and> same s s'"
    by (auto simp: copy_snd_def)
  obtain s3 where w: "wr i (view s b) s2 = Inr s3" "ok [i \<mapsto> a, j \<mapsto> b] s3" "view s3 = (view s)(a := view s b)"
    "store s3 = (store s)[unat a := view s b]" "writes s3 = writes s @ [(unat a, view s b)]" "pinned s3 = pinned s - {a}" "same s2 s3"
    using wr_ok [OF q(3), of i a "view s b"] len q by auto
  from fin [OF w(2,7), of j i] w r(1) q(1) c show "\<exists>s'. copy_fst a b s = Inr s' \<and> ok Map.empty s' \<and> view s' = (view s)(a := view s b) \<and>
      store s' = (store s)[unat a := view s b] \<and> writes s' = writes s @ [(unat a, view s b)] \<and> pinned s' = pinned s - {a} \<and> same s s'"
    by (auto simp: copy_fst_def)
qed

end

interpretation cache: block_cache "bread 1" "\<lambda>i x s. bwrite i (set_bdata i x s)" brelse bio_ok "\<lambda>i s. bdata (bufat s i)" blk disk
  disk_writes dirty_blocks bio_frame NBUF
proof (unfold_locales, goal_cases)
  case (1 H s n)
  then show ?case using bread_ok [of H s n] by (auto simp: bio_keeps_def disksize_def)
next
  case (2 H s i n x)
  then show ?case using bwrite_ok [of H s i n x] by auto
next
  case (3 H s i n)
  then show ?case using brelse_ok [of H s i n] by (auto simp: bio_keeps_def)
next
  case (4 H s i n)
  then show ?case by (rule held_data(1))
next
  case (5 H s n)
  then show ?case using blk_length [of H s n] by (simp add: disksize_def)
next
  case (6 s t u)
  then show ?case by (rule bio_frame_trans)
qed

section \<open>Initialisation\<close>

lemma binit_loop_ok:
  assumes "dpath (\<lambda>i. bnext (bufat s i)) (\<lambda>i. bprev (bufat s i)) bhead xs bhead" "length (bcache s) = Suc NBUF"
    "distinct (xs @ bs)" "set (xs @ bs) \<subseteq> {..<NBUF}"
  shows "dpath (\<lambda>i. bnext (bufat (binit_loop bs s) i)) (\<lambda>i. bprev (bufat (binit_loop bs s) i)) bhead (rev bs @ xs) bhead \<and>
    (\<forall>j. bcore (bufat (binit_loop bs s) j) = bcore (bufat s j)) \<and>
    (\<forall>j \<in> set bs. sl_locked (sleeplocks (binit_loop bs s) (BufLock j)) = 0) \<and>
    (\<forall>j. j \<notin> set bs \<longrightarrow> sleeplocks (binit_loop bs s) (BufLock j) = sleeplocks s (BufLock j)) \<and>
    binit_loop bs s = s\<lparr>bcache := bcache (binit_loop bs s), sleeplocks := sleeplocks (binit_loop bs s)\<rparr> \<and>
    length (bcache (binit_loop bs s)) = Suc NBUF"
  using assms
proof (induction bs arbitrary: s xs)
  case (Cons b bs)
  let ?i = "initsleeplock (BufLock b) s" let ?s = "link_front b ?i"
  have c: "bcache ?i = bcache s" by (simp add: initsleeplock_def)
  have "dpath (\<lambda>i. bnext (bufat ?s i)) (\<lambda>i. bprev (bufat ?s i)) bhead (b # xs) bhead"
    using Cons.prems by (intro link_front_dpath) (auto simp: c)
  from Cons.IH [OF this] Cons.prems(2-) have IH:
    "dpath (\<lambda>i. bnext (bufat (binit_loop bs ?s) i)) (\<lambda>i. bprev (bufat (binit_loop bs ?s) i)) bhead (rev bs @ b # xs) bhead"
    "\<And>j. bcore (bufat (binit_loop bs ?s) j) = bcore (bufat ?s j)"
    "\<And>j. j \<in> set bs \<Longrightarrow> sl_locked (sleeplocks (binit_loop bs ?s) (BufLock j)) = 0"
    "\<And>j. j \<notin> set bs \<Longrightarrow> sleeplocks (binit_loop bs ?s) (BufLock j) = sleeplocks ?s (BufLock j)"
    "binit_loop bs ?s = ?s\<lparr>bcache := bcache (binit_loop bs ?s), sleeplocks := sleeplocks (binit_loop bs ?s)\<rparr>"
    "length (bcache (binit_loop bs ?s)) = Suc NBUF" by (auto simp: c)
  have st: "binit_loop bs ?s = s\<lparr>bcache := bcache (binit_loop bs ?s), sleeplocks := sleeplocks (binit_loop bs ?s)\<rparr>"
    by (subst IH(5), subst link_state(1)) (simp add: initsleeplock_def)
  have core: "bcore (bufat (binit_loop bs ?s) j) = bcore (bufat s j)" for j unfolding IH(2) link_core c ..
  have lk: "sleeplocks ?i = (sleeplocks s)(BufLock b := \<lparr>sl_locked = 0, sl_pid = 0\<rparr>)" by (simp add: initsleeplock_def)
  show ?case unfolding binit_loop.simps
    using IH(1,3,4,6) st core Cons.prems(3) by (intro conjI allI ballI impI) (auto simp: lk)
qed simp

lemma binit_cache:
  assumes l: "length (bcache s) = Suc NBUF" and z: "\<forall>i < NBUF. bflags (bufat s i) = 0 \<and> bdev (bufat s i) = 0 \<and> brefcnt (bufat s i) = 0"
    and k: "held s = {}" and d: "\<forall>d \<in> set (disk s). length d = 512" "disksize s < 2 ^ 31"
  shows "cache_ok Map.empty (binit s)" "lru (binit s) (rev [0..<NBUF])" "blk (binit s) = (\<lambda>n. disk s ! unat n)" "dirty_blocks (binit s) = {}"
    "disk (binit s) = disk s" "disk_writes (binit s) = disk_writes s" "ptable (binit s) = ptable s" "curproc (binit s) = curproc s"
proof -
  let ?h = "upd_buf bhead (\<lambda>x. x\<lparr>bprev := bhead, bnext := bhead\<rparr>) s"
  have hl: "length (bcache ?h) = Suc NBUF" using l by simp
  have h0: "dpath (\<lambda>i. bnext (bufat ?h i)) (\<lambda>i. bprev (bufat ?h i)) bhead [] bhead" using l by (simp add: upd_buf_nth)
  have hc: "bufat ?h i = bufat s i" if "i < NBUF" for i using l that by (simp add: upd_buf_nth)
  have b: "binit s = binit_loop [0..<NBUF] ?h" by (simp add: binit_def)
  have ds: "distinct ([] @ [0..<NBUF])" "set ([] @ [0..<NBUF]) \<subseteq> {..<NBUF}" by auto
  note B = binit_loop_ok [OF h0 hl ds, folded b]
  have p: "dpath (\<lambda>i. bnext (bufat (binit s) i)) (\<lambda>i. bprev (bufat (binit s) i)) bhead (rev [0..<NBUF]) bhead"
    and core: "\<And>j. bcore (bufat (binit s) j) = bcore (bufat ?h j)"
    and lk: "\<And>j. j < NBUF \<Longrightarrow> sl_locked (sleeplocks (binit s) (BufLock j)) = 0"
    and st: "binit s = ?h\<lparr>bcache := bcache (binit s), sleeplocks := sleeplocks (binit s)\<rparr>"
    and len: "length (bcache (binit s)) = Suc NBUF" using B by auto
  show lr: "lru (binit s) (rev [0..<NBUF])" using p by (auto simp: lru_def)
  have f: "held (binit s) = {}" "disk (binit s) = disk s" "disk_writes (binit s) = disk_writes s" "ptable (binit s) = ptable s"
    "curproc (binit s) = curproc s" using k by (subst st, simp)+
  have c: "bflags (bufat (binit s) i) = 0" "bdev (bufat (binit s) i) = 0" "brefcnt (bufat (binit s) i) = 0" if "i < NBUF" for i
    using core [of i] hc [OF that] z that by (auto simp: bcore_eq)
  have v: "\<not> valid (bufat (binit s) i)" "\<not> dirty (bufat (binit s) i)" if "i < NBUF" for i
    using c [OF that] by (simp_all add: valid_def dirty_def)
  have "buf_ok Map.empty (binit s) i" if "i < NBUF" for i
    using v [OF that] c [OF that] lk [OF that] by (simp add: buf_ok_def Let_def)
  then show "cache_ok Map.empty (binit s)"
    unfolding cache_ok_def using len lr f d v by (auto simp: disksize_def)
  show "blk (binit s) = (\<lambda>n. disk s ! unat n)" using v f(2) by (intro ext) (subst blk_uncached, auto)
  show "dirty_blocks (binit s) = {}" using v by (auto simp: dirty_blocks_def)
  show "disk (binit s) = disk s" "disk_writes (binit s) = disk_writes s" "ptable (binit s) = ptable s" "curproc (binit s) = curproc s"
    using f by simp_all
qed

lemma binit_ok:
  assumes "length (bcache s) = Suc NBUF" "\<forall>i < NBUF. bflags (bufat s i) = 0 \<and> bdev (bufat s i) = 0 \<and> brefcnt (bufat s i) = 0"
    "held s = {}" "cur_ok s" "\<forall>d \<in> set (disk s). length d = 512" "disksize s < 2 ^ 31"
  shows "bio_ok Map.empty (binit s)" "lru (binit s) (rev [0..<NBUF])" "blk (binit s) = (\<lambda>n. disk s ! unat n)" "dirty_blocks (binit s) = {}"
    "disk (binit s) = disk s" "disk_writes (binit s) = disk_writes s"
proof -
  note b = binit_cache [OF assms(1-3,5,6)]
  show "bio_ok Map.empty (binit s)" using b(1,7,8) assms(4) by (simp add: bio_ok_cache cur_ok_def)
qed (rule binit_cache [OF assms(1-3,5,6)])+

section \<open>Properties\<close>

text \<open>
  C14. Initialisation establishes the cache's invariant, at boot, where \<^verbatim>\<open>main.c\<close> calls it and no process
  exists yet: from the zeroed array \<open>binit\<close> links all thirty buffers into one doubly linked list, each
  once, with free locks and no block cached or dirty; the blocks then are those of the disk, which is not
  written, and the process table is not touched. Whichever process runs first then finds the invariant
  that the operations of the cache need.
\<close>

theorem binit_establishes:
  assumes "length (bcache s) = Suc NBUF" "\<forall>i < NBUF. bflags (bufat s i) = 0 \<and> bdev (bufat s i) = 0 \<and> brefcnt (bufat s i) = 0"
    "held s = {}" "\<forall>d \<in> set (disk s). length d = 512" "disksize s < 2 ^ 31"
  shows "cache_ok Map.empty (binit s) \<and> lru (binit s) (rev [0..<NBUF]) \<and> blk (binit s) = (\<lambda>n. disk s ! unat n) \<and>
    dirty_blocks (binit s) = {} \<and> disk (binit s) = disk s \<and> disk_writes (binit s) = disk_writes s \<and>
    ptable (binit s) = ptable s \<and> curproc (binit s) = curproc s \<and>
    (\<forall>p < length (ptable s). bio_ok Map.empty ((binit s)\<lparr>curproc := Some p\<rparr>))"
  using binit_cache [OF assms] cache_ok_dispatch [of "binit s"] by simp

definition zero_block :: "uchar list" where "zero_block = replicate 512 0"

definition bio00 :: "kbio" where
  "bio00 = ksleep.extend sl0 \<lparr>bcache = replicate 31 \<lparr>bflags = 0, bdev = 0, blockno = 0, brefcnt = 0, bprev = 0, bnext = 0,
     bdata = zero_block\<rparr>, disk = replicate 100 zero_block, disk_writes = []\<rparr>"

lemma bio00_pre: "length (bcache bio00) = Suc NBUF"
  "\<forall>i < NBUF. bflags (bufat bio00 i) = 0 \<and> bdev (bufat bio00 i) = 0 \<and> brefcnt (bufat bio00 i) = 0"
  "held bio00 = {}" "cur_ok bio00" "\<forall>d \<in> set (disk bio00). length d = 512" "disksize bio00 < 2 ^ 31"
  using sl0_proc sl0_simps(1)
  by (simp_all add: bio00_def ksleep.defs NBUF_def cur_ok_def zero_block_def disksize_def)

text \<open>The state at boot: the same, with no process running and the table empty.\<close>

definition bio_boot :: "kbio" where
  "bio_boot = bio00\<lparr>curproc := None, ptable := replicate NPROC zero_proc\<rparr>"

theorem binit_establishes_witness:
  "curproc bio_boot = None \<and> cache_ok Map.empty (binit bio_boot) \<and> blk (binit bio_boot) 7 = replicate 512 0 \<and>
   bio_ok Map.empty ((binit bio_boot)\<lparr>curproc := Some 0\<rparr>)"
proof -
  have d: "disk bio_boot = replicate 100 zero_block" by (simp add: bio_boot_def bio00_def ksleep.defs)
  have p: "curproc bio_boot = None" "0 < length (ptable bio_boot)" by (simp_all add: bio_boot_def NPROC_def)
  have "length (bcache bio_boot) = Suc NBUF" "\<forall>i < NBUF. bflags (bufat bio_boot i) = 0 \<and> bdev (bufat bio_boot i) = 0 \<and> brefcnt (bufat bio_boot i) = 0"
    "held bio_boot = {}" "\<forall>d \<in> set (disk bio_boot). length d = 512" "disksize bio_boot < 2 ^ 31"
    using bio00_pre by (simp_all add: bio_boot_def disksize_def)
  from binit_establishes [OF this] p show ?thesis by (simp add: d zero_block_def)
qed

text \<open>
  C15. The cache and the disk are one array of blocks: with the invariant and fewer than thirty dirty
  blocks, \<open>bread\<close> of any block returns a buffer with its current contents, writing new contents with
  \<open>bwrite\<close> and releasing with \<open>brelse\<close> succeed, change exactly this block of the array and of the disk,
  and restore the invariant with no buffer held.
\<close>

theorem cache_is_block_array:
  assumes "bio_ok Map.empty s" "unat n < disksize s" "card (dirty_blocks s) < NBUF" "length x = 512"
  shows "\<exists>i s1 s2 s3. bread 1 n s = Inr (i, s1) \<and> bdata (bufat s1 i) = blk s n \<and> bwrite i (set_bdata i x s1) = Inr s2 \<and>
    brelse i s2 = Inr s3 \<and> bio_ok Map.empty s3 \<and> blk s3 = (blk s)(n := x) \<and> disk s3 = (disk s)[unat n := x] \<and>
    dirty_blocks s3 = dirty_blocks s - {n}"
proof -
  have "unat n < length (disk s)" using assms(2) by (simp add: disksize_def)
  from cache.rmw [OF assms(1) this assms(3), where f = "\<lambda>_. x"] assms(4) show ?thesis by blast
qed

theorem cache_is_block_array_witness:
  "\<exists>i s1 s2 s3. bread 1 7 (binit bio00) = Inr (i, s1) \<and> bwrite i (set_bdata i (replicate 512 1) s1) = Inr s2 \<and>
    brelse i s2 = Inr s3 \<and> blk s3 7 = replicate 512 1 \<and> blk s3 8 = replicate 512 0"
proof -
  note b = binit_ok [OF bio00_pre]
  have d: "disk bio00 = replicate 100 zero_block" by (simp add: bio00_def ksleep.defs)
  have "unat (7 :: uint) < disksize (binit bio00)" "card (dirty_blocks (binit bio00)) < NBUF" "length (replicate 512 (1 :: uchar)) = 512"
    using b(4,5) by (simp_all add: disksize_def d NBUF_def)
  from cache_is_block_array [OF b(1) this] obtain i s1 s2 s3 where
    "bread 1 7 (binit bio00) = Inr (i, s1)" "bwrite i (set_bdata i (replicate 512 1) s1) = Inr s2" "brelse i s2 = Inr s3"
    "blk s3 = (blk (binit bio00))(7 := replicate 512 1)" by auto
  then show ?thesis by (intro exI [of _ i] exI [of _ s1] exI [of _ s2] exI [of _ s3]) (simp add: b(3) d zero_block_def)
qed

lemma find_same: "\<forall>x \<in> set xs. P x = Q x \<Longrightarrow> find P xs = find Q xs"
  by (induction xs) auto

text \<open>
  C16. Buffers are recycled in the order of their last use: releasing a held buffer moves it to the front
  of the list and keeps the order of the others, and a block that is not cached gets the buffer nearest
  to the end of the list that is neither held nor dirty.
\<close>

theorem cache_is_lru:
  assumes "bio_ok H s" "lru s l"
  shows "(\<forall>i n. H i = Some n \<longrightarrow> (\<exists>s'. brelse i s = Inr s' \<and> lru s' (i # remove1 i l))) \<and>
    (\<forall>n i s'. (\<forall>j < NBUF. valid (bufat s j) \<longrightarrow> blockno (bufat s j) \<noteq> n) \<longrightarrow> bget 1 n s = Inr (i, s') \<longrightarrow>
      find (\<lambda>j. H j = None \<and> \<not> dirty (bufat s j)) (rev l) = Some i)"
proof (intro conjI allI impI)
  fix i n
  assume i: "H i = Some n"
  note h = held_data [OF assms(1) i]
  have "i \<in> set l" using assms(2) h(2) by (simp add: lru_def)
  then obtain xs ys where l: "l = xs @ i # ys" "i \<notin> set xs" by (meson split_list_first)
  let ?w = "wakeup1 (SleepLockChan (BufLock i)) (s\<lparr>sleeplocks := (sleeplocks s)(BufLock i := \<lparr>sl_locked = 0, sl_pid = 0\<rparr>)\<rparr>)"
  let ?u = "upd_buf i (\<lambda>x. x\<lparr>brefcnt := 0\<rparr>) ?w"
  have w: "bcache ?w = bcache s" by (simp add: wakeup1_def)
  have len: "length (bcache ?u) = Suc NBUF" using bio_okD(1) [OF assms(1)] w by simp
  have "lru ?u l" using assms(2) len h(2) by (subst lru_links [where s = s]) (simp_all add: upd_buf_nth w)
  from move_front [OF this [unfolded l] len] l have "lru (released i s) (i # remove1 i l)"
    by (simp add: released_def remove1_append)
  with brelse_eq [OF assms(1) i] show "\<exists>s'. brelse i s = Inr s' \<and> lru s' (i # remove1 i l)" by blast
next
  fix n i s'
  assume no: "\<forall>j < NBUF. valid (bufat s j) \<longrightarrow> blockno (bufat s j) \<noteq> n" and g: "bget 1 n s = Inr (i, s')"
  let ?P = "\<lambda>i. bdev (bufat s i) = 1 \<and> blockno (bufat s i) = n"
  let ?Q = "\<lambda>i. brefcnt (bufat s i) = 0 \<and> bflags (bufat s i) AND B_DIRTY = 0"
  have "\<not> ?P j" if "j < NBUF" for j using bio_okD(8) [OF assms(1) that] no that by (auto simp: buf_ok_def Let_def)
  then have "find ?P l = None" using assms(2) by (auto simp: find_None_iff lru_def)
  then have sc: "scan (length (bcache s)) ?P (\<lambda>i. bnext (bufat s i)) (bnext (bufat s bhead)) = Inr None"
    using scan_next [OF assms(2) bio_okD(1) [OF assms(1)], of ?P] by simp
  note sp = scan_prev [OF assms(2) bio_okD(1) [OF assms(1)], of ?Q]
  have "find ?Q (rev l) = Some i"
  proof (cases "find ?Q (rev l)")
    case None
    then show ?thesis using g sc sp bio_okD(3) [OF assms(1)] by (simp add: bget_def acquire_lock_def)
  next
    case (Some k)
    then show ?thesis using g sc sp bio_okD(3) [OF assms(1)] by (auto simp: bget_def acquire_lock_def kres_simps)
  qed
  moreover have "\<forall>j \<in> set (rev l). ?Q j = (H j = None \<and> \<not> dirty (bufat s j))"
  proof
    fix j
    assume "j \<in> set (rev l)"
    then have "j < NBUF" using assms(2) by (simp add: lru_def)
    from bio_okD(8) [OF assms(1) this] show "?Q j = (H j = None \<and> \<not> dirty (bufat s j))"
      by (auto simp: buf_ok_def Let_def dirty_def flag_tests split: option.splits)
  qed
  then have "find ?Q (rev l) = find (\<lambda>j. H j = None \<and> \<not> dirty (bufat s j)) (rev l)" by (rule find_same)
  ultimately show "find (\<lambda>j. H j = None \<and> \<not> dirty (bufat s j)) (rev l) = Some i" by simp
qed

theorem cache_is_lru_witness:
  "\<exists>i s1 s2 l. bread 1 7 (binit bio00) = Inr (i, s1) \<and> lru s1 l \<and> brelse i s1 = Inr s2 \<and> lru s2 (i # remove1 i l)"
proof -
  note b = binit_ok [OF bio00_pre]
  have d: "disk bio00 = replicate 100 zero_block" by (simp add: bio00_def ksleep.defs)
  have c: "unat (7 :: uint) < disksize (binit bio00)" "(7 :: uint) \<notin> ran Map.empty"
    "7 \<in> dirty_blocks (binit bio00) \<or> card (dom (Map.empty :: nat \<Rightarrow> uint option)) + card (dirty_blocks (binit bio00)) < NBUF"
    using b(4,5) by (simp_all add: disksize_def d NBUF_def)
  obtain i s1 where r: "bread 1 7 (binit bio00) = Inr (i, s1)" "bio_ok [i \<mapsto> 7] s1" using bread_ok [OF b(1) c] by auto
  obtain l where l: "lru s1 l" using bio_okD(2) [OF r(2)] by blast
  from cache_is_lru [OF r(2) l] have "\<exists>s'. brelse i s1 = Inr s' \<and> lru s' (i # remove1 i l)" by simp
  then show ?thesis using r(1) l by blast
qed

end
