(* ===== verification/Log.thy ===== *)
theory Log
  imports Bio
begin

text \<open>
  The log, \<^verbatim>\<open>log.c\<close>: system calls that write the disk run between \<open>begin_op\<close> and \<open>end_op\<close> and record
  the blocks they change with \<open>log_write\<close>; the last \<open>end_op\<close> commits them: it copies the blocks to the
  log area, writes the header (the commit point), installs the blocks at their home locations and
  clears the header. At boot \<open>initlog\<close> installs a committed transaction it finds.

  The lemmas follow the writes that reach the disk one by one: after a crash at any point the blocks
  that recovery leaves are those before the transaction or those after it, and recovery may itself be
  interrupted and repeated. \<open>begin_op\<close> is cut where the process sleeps.
\<close>

section \<open>State\<close>

definition MAXOPBLOCKS :: int where "MAXOPBLOCKS = 10"
definition LOGSIZE :: nat where "LOGSIZE = 30"

record logheader =
  lh_n :: int
  lh_block :: "uint list"

record klog = kbio +
  log_start :: uint
  log_size :: int
  log_outstanding :: int
  log_committing :: bool
  log_dev :: uint
  lh :: logheader

record superblock =
  sb_size :: uint
  sb_nblocks :: uint
  sb_ninodes :: uint
  sb_nlog :: uint
  sb_logstart :: uint
  sb_inodestart :: uint
  sb_bmapstart :: uint

definition superblock_of :: "uchar list \<Rightarrow> superblock" where
  "superblock_of d = \<lparr>sb_size = get32 d 0, sb_nblocks = get32 d 4, sb_ninodes = get32 d 8, sb_nlog = get32 d 12,
     sb_logstart = get32 d 16, sb_inodestart = get32 d 20, sb_bmapstart = get32 d 24\<rparr>"

definition readsb :: "uint \<Rightarrow> 'a kbio_scheme \<Rightarrow> (superblock \<times> 'a kbio_scheme) kres" where
  "readsb dev s = kbind (bread dev 1 s) (\<lambda>(bp, s1).
     kbind (brelse bp s1) (\<lambda>s2. Inr (superblock_of (bdata (bufat s1 bp)), s2)))"

section \<open>Commit and recovery\<close>

definition install_one :: "nat \<Rightarrow> 'a klog_scheme \<Rightarrow> 'a klog_scheme kres" where
  "install_one tail s =
     kbind (bread (log_dev s) (log_start s + of_nat tail + 1) s) (\<lambda>(lbuf, s1).
       kbind (bread (log_dev s1) (lh_block (lh s1) ! tail) s1) (\<lambda>(dbuf, s2).
         kbind (bwrite dbuf (set_bdata dbuf (bdata (bufat s2 lbuf)) s2)) (\<lambda>s3.
           kbind (brelse lbuf s3) (brelse dbuf))))"

fun install_loop :: "nat list \<Rightarrow> 'a klog_scheme \<Rightarrow> 'a klog_scheme kres" where
  "install_loop [] s = Inr s"
| "install_loop (t # ts) s = kbind (install_one t s) (install_loop ts)"

definition install_trans :: "'a klog_scheme \<Rightarrow> 'a klog_scheme kres" where
  "install_trans s = install_loop [0..<nat (lh_n (lh s))] s"

text \<open>A header that claims more blocks than the array holds would be copied beyond its end.\<close>

definition read_head :: "'a klog_scheme \<Rightarrow> 'a klog_scheme kres" where
  "read_head s =
     kbind (bread (log_dev s) (log_start s) s) (\<lambda>(b, s1).
       let d = bdata (bufat s1 b); n = sint (get32 d 0)
       in if n > int LOGSIZE then Inl (Undefined ''read_head: header too long'')
          else brelse b (s1\<lparr>lh := \<lparr>lh_n = n, lh_block = get_words d 4 (nat n) @ drop (nat n) (lh_block (lh s1))\<rparr>\<rparr>))"

definition head_data :: "logheader \<Rightarrow> uchar list \<Rightarrow> uchar list" where
  "head_data h d = put_words (put32 d 0 (word_of_int (lh_n h))) 4 (take (nat (lh_n h)) (lh_block h))"

definition write_head :: "'a klog_scheme \<Rightarrow> 'a klog_scheme kres" where
  "write_head s =
     kbind (bread (log_dev s) (log_start s) s) (\<lambda>(b, s1).
       kbind (bwrite b (set_bdata b (head_data (lh s1) (bdata (bufat s1 b))) s1)) (brelse b))"

definition clear_lh :: "'a klog_scheme \<Rightarrow> 'a klog_scheme" where
  "clear_lh s = s\<lparr>lh := (lh s)\<lparr>lh_n := 0\<rparr>\<rparr>"

definition recover_from_log :: "'a klog_scheme \<Rightarrow> 'a klog_scheme kres" where
  "recover_from_log s =
     kbind (read_head s) (\<lambda>s1. kbind (install_trans s1) (\<lambda>s2. write_head (clear_lh s2)))"

text \<open>The size check at the start of \<open>initlog\<close> is on constants, 124 bytes against 512.\<close>

definition initlog :: "uint \<Rightarrow> 'a klog_scheme \<Rightarrow> 'a klog_scheme kres" where
  "initlog dev s =
     (if 4 + 4 * LOGSIZE \<ge> BSIZE then Inl (Panic ''initlog: too big logheader'')
      else kbind (readsb dev s) (\<lambda>(sb, s1).
        recover_from_log (s1\<lparr>log_start := sb_logstart sb, log_size := sint (sb_nlog sb), log_dev := dev\<rparr>)))"

definition write_log_one :: "nat \<Rightarrow> 'a klog_scheme \<Rightarrow> 'a klog_scheme kres" where
  "write_log_one tail s =
     kbind (bread (log_dev s) (log_start s + of_nat tail + 1) s) (\<lambda>(b, s1).
       kbind (bread (log_dev s1) (lh_block (lh s1) ! tail) s1) (\<lambda>(from, s2).
         kbind (bwrite b (set_bdata b (bdata (bufat s2 from)) s2)) (\<lambda>s3.
           kbind (brelse from s3) (brelse b))))"

fun write_log_loop :: "nat list \<Rightarrow> 'a klog_scheme \<Rightarrow> 'a klog_scheme kres" where
  "write_log_loop [] s = Inr s"
| "write_log_loop (t # ts) s = kbind (write_log_one t s) (write_log_loop ts)"

definition write_log :: "'a klog_scheme \<Rightarrow> 'a klog_scheme kres" where
  "write_log s = write_log_loop [0..<nat (lh_n (lh s))] s"

definition commit :: "'a klog_scheme \<Rightarrow> 'a klog_scheme kres" where
  "commit s =
     (if lh_n (lh s) > 0
      then kbind (write_log s) (\<lambda>s1. kbind (write_head s1) (\<lambda>s2. kbind (install_trans s2) (\<lambda>s3. write_head (clear_lh s3))))
      else Inr s)"

section \<open>Transactions\<close>

text \<open>\<open>begin_op\<close> with the log's lock held: it sleeps (\<open>False\<close>), or admits the operation.\<close>

definition begin_op_loop :: "'a klog_scheme \<Rightarrow> (bool \<times> 'a klog_scheme) kres" where
  "begin_op_loop s =
     (if log_committing s \<or> lh_n (lh s) + (log_outstanding s + 1) * MAXOPBLOCKS > int LOGSIZE
      then kbind (sleep_begin LogChan LogLock s) (\<lambda>s1. Inr (False, s1))
      else kbind (release_lock LogLock (s\<lparr>log_outstanding := log_outstanding s + 1\<rparr>)) (\<lambda>s1. Inr (True, s1)))"

definition begin_op_begin :: "'a klog_scheme \<Rightarrow> (bool \<times> 'a klog_scheme) kres" where
  "begin_op_begin s = kbind (acquire_lock LogLock s) begin_op_loop"

definition begin_op_resume :: "'a klog_scheme \<Rightarrow> (bool \<times> 'a klog_scheme) kres" where
  "begin_op_resume s = kbind (sleep_end LogLock s) begin_op_loop"

definition begin_op :: "'a klog_scheme \<Rightarrow> 'a klog_scheme kres" where
  "begin_op s = kbind (begin_op_begin s) (\<lambda>(go, s1). if go then Inr s1 else Inl (Waits ''begin_op''))"

definition end_op :: "'a klog_scheme \<Rightarrow> 'a klog_scheme kres" where
  "end_op s =
     kbind (acquire_lock LogLock s) (\<lambda>s1.
       let s2 = s1\<lparr>log_outstanding := log_outstanding s1 - 1\<rparr>
       in if log_committing s2 then Inl (Panic ''log.committing'')
          else let do_commit = (log_outstanding s2 = 0)
            in kbind (if do_commit then Inr (s2\<lparr>log_committing := True\<rparr>) else wakeup LogChan s2) (\<lambda>s3.
              kbind (release_lock LogLock s3) (\<lambda>s4.
                if do_commit then
                  kbind (commit s4) (\<lambda>s5.
                    kbind (acquire_lock LogLock s5) (\<lambda>s6.
                      kbind (wakeup LogChan (s6\<lparr>log_committing := False\<rparr>)) (release_lock LogLock)))
                else Inr s4)))"

definition log_write :: "nat \<Rightarrow> 'a klog_scheme \<Rightarrow> 'a klog_scheme kres" where
  "log_write b s =
     (let n = lh_n (lh s)
      in if n \<ge> int LOGSIZE \<or> n \<ge> log_size s - 1 then Inl (Panic ''too big a transaction'')
         else if log_outstanding s < 1 then Inl (Panic ''log_write outside of trans'')
         else kbind (acquire_lock LogLock s) (\<lambda>s1.
           let i = (case first_index (\<lambda>x. x = blockno (bufat s1 b)) (take (nat n) (lh_block (lh s1))) of
                      None \<Rightarrow> nat n | Some i \<Rightarrow> i);
               h = (lh s1)\<lparr>lh_block := (lh_block (lh s1))[i := blockno (bufat s1 b)], lh_n := (if int i = n then n + 1 else n)\<rparr>
           in release_lock LogLock (upd_buf b (\<lambda>x. x\<lparr>bflags := bflags x OR B_DIRTY\<rparr>) (s1\<lparr>lh := h\<rparr>))))"

section \<open>Disk contents after a crash\<close>

definition apply_writes :: "(nat \<times> uchar list) list \<Rightarrow> uchar list list \<Rightarrow> uchar list list" where
  "apply_writes ws d = fold (\<lambda>(p, x) e. e[p := x]) ws d"

text \<open>
  The block that recovery will leave at a position: the logged copy when the header names it, else what
  is there. The header is the block at position \<open>st\<close>, the copies follow it.
\<close>

definition head_n :: "uchar list \<Rightarrow> nat" where "head_n h = nat (sint (get32 h 0))"
definition head_block :: "uchar list \<Rightarrow> nat \<Rightarrow> nat" where "head_block h i = unat (get32 h (4 + 4 * i))"

definition recovered :: "nat \<Rightarrow> uchar list list \<Rightarrow> nat \<Rightarrow> uchar list" where
  "recovered st d b = (case find (\<lambda>i. head_block (d ! st) i = b) [0..<head_n (d ! st)] of
     Some i \<Rightarrow> d ! (st + 1 + i) | None \<Rightarrow> d ! b)"

lemma apply_writes_simps [simp]:
  "apply_writes [] d = d" "apply_writes ((p, x) # ws) d = apply_writes ws (d[p := x])"
  "apply_writes (ws @ vs) d = apply_writes vs (apply_writes ws d)"
  by (simp_all add: apply_writes_def)

lemma length_apply_writes [simp]: "length (apply_writes ws d) = length d"
  by (induction ws arbitrary: d) auto

lemma apply_writes_other: "p \<notin> fst ` set ws \<Longrightarrow> apply_writes ws d ! p = d ! p"
  by (induction ws arbitrary: d) (auto simp: nth_list_update)

lemma apply_writes_same:
  "distinct (map fst ws) \<Longrightarrow> (p, x) \<in> set ws \<Longrightarrow> p < length d \<Longrightarrow> apply_writes ws d ! p = x"
proof (induction ws arbitrary: d)
  case (Cons w ws)
  obtain q y where w: "w = (q, y)" by fastforce
  show ?case
  proof (cases "p = q")
    case True
    then have "p \<notin> fst ` set ws" using Cons.prems w by auto
    moreover have "x = y" using Cons.prems True w \<open>p \<notin> fst ` set ws\<close> by (auto simp: image_iff)
    ultimately show ?thesis using Cons.prems(3) True by (simp add: w apply_writes_other)
  next
    case False
    with Cons w show ?thesis by auto
  qed
qed simp

lemma find_upt_unique:
  "i < n \<Longrightarrow> f i = b \<Longrightarrow> inj_on f {..<n} \<Longrightarrow> find (\<lambda>j. f j = b) [0..<n] = Some i"
  unfolding find_Some_iff by (intro exI [of _ i]) (auto simp: inj_on_def)

lemma recovered_none: "(\<And>i. i < head_n (d ! st) \<Longrightarrow> head_block (d ! st) i \<noteq> b) \<Longrightarrow> recovered st d b = d ! b"
proof -
  assume "\<And>i. i < head_n (d ! st) \<Longrightarrow> head_block (d ! st) i \<noteq> b"
  then have "find (\<lambda>i. head_block (d ! st) i = b) [0..<head_n (d ! st)] = None" by (auto simp: find_None_iff)
  then show ?thesis by (simp add: recovered_def)
qed

lemma recovered_some:
  "i < head_n (d ! st) \<Longrightarrow> inj_on (head_block (d ! st)) {..<head_n (d ! st)} \<Longrightarrow>
   recovered st d (head_block (d ! st) i) = d ! (st + 1 + i)"
  by (simp add: recovered_def find_upt_unique)

text \<open>The header that \<open>write_head\<close> writes.\<close>

lemma head_data_ok:
  assumes "length d = 512" "0 \<le> lh_n h" "lh_n h \<le> int LOGSIZE" "length (lh_block h) = LOGSIZE"
  shows "length (head_data h d) = 512" "head_n (head_data h d) = nat (lh_n h)" "sint (get32 (head_data h d) 0) = lh_n h"
    "\<And>i. i < nat (lh_n h) \<Longrightarrow> get32 (head_data h d) (4 + 4 * i) = lh_block h ! i"
proof -
  let ?d = "put32 d 0 (word_of_int (lh_n h))"
  show "length (head_data h d) = 512" using assms(1) by (simp add: head_data_def)
  have g: "get32 (head_data h d) 0 = word_of_int (lh_n h)"
    using assms(1) unfolding head_data_def by (subst get32_put_words_other) simp_all
  have "sint (word_of_int (lh_n h) :: uint) = lh_n h"
    using assms(2,3) by (simp add: sint_sbintrunc' signed_take_bit_int_eq_self LOGSIZE_def)
  then show "sint (get32 (head_data h d) 0) = lh_n h" using g by simp
  then show "head_n (head_data h d) = nat (lh_n h)" by (simp add: head_n_def)
  show "get32 (head_data h d) (4 + 4 * i) = lh_block h ! i" if "i < nat (lh_n h)" for i
    using assms that get_put_words [of 4 "take (nat (lh_n h)) (lh_block h)" ?d i]
    by (simp add: head_data_def LOGSIZE_def)
qed

section \<open>Invariants\<close>

text \<open>Waking other processes does not disturb the cache.\<close>

lemma bio_ok_procs:
  assumes ok: "bio_ok H s" and p: "procs_same (ptable s) pt"
  shows "bio_ok H (s\<lparr>ptable := pt\<rparr>)"
proof -
  let ?s = "s\<lparr>ptable := pt\<rparr>"
  obtain q where q: "curproc s = Some q" "q < length (ptable s)" using bio_okD(4) [OF ok] by (auto simp: cur_ok_def)
  have m: "mypid ?s = mypid s" using procs_same_nth(1) [OF p q(2)] q(1) by (simp add: mypid_def)
  have d: "lru ?s = lru s" "disksize ?s = disksize s" by (simp_all add: lru_def disksize_def fun_eq_iff)
  have c: "cur_ok ?s" using q procs_same_length [OF p] by (simp add: cur_ok_def)
  have "buf_ok H ?s = buf_ok H s" unfolding buf_ok_def m d by simp
  with ok d c show ?thesis by (simp add: bio_ok_def)
qed

text \<open>The cache's predicates read the cache's part of the state only.\<close>

lemma bio_cong:
  fixes s :: "'a kbio_scheme" and t :: "'b kbio_scheme"
  assumes "bcache t = bcache s" "sleeplocks t = sleeplocks s" "held t = held s" "curproc t = curproc s" "ptable t = ptable s" "disk t = disk s"
  shows "bio_ok H t = bio_ok H s" "blk t = blk s" "dirty_blocks t = dirty_blocks s"
proof -
  have m: "mypid t = mypid s" using assms by (cases "curproc s") (simp_all add: mypid_def)
  have d: "lru t = lru s" "cur_ok t = cur_ok s" "disksize t = disksize s"
    using assms by (simp_all add: lru_def cur_ok_def disksize_def fun_eq_iff)
  have "buf_ok H t = buf_ok H s" unfolding buf_ok_def assms m d ..
  with d show "bio_ok H t = bio_ok H s" using assms by (simp add: bio_ok_def)
  show "blk t = blk s" by (rule ext) (simp only: blk_def assms)
  show "dirty_blocks t = dirty_blocks s" by (simp only: dirty_blocks_def assms)
qed

definition logged :: "'a klog_scheme \<Rightarrow> uint list" where
  "logged s = take (nat (lh_n (lh s))) (lh_block (lh s))"

abbreviation lstart :: "'a klog_scheme \<Rightarrow> nat" where "lstart s \<equiv> unat (log_start s)"

definition in_log :: "'a klog_scheme \<Rightarrow> nat \<Rightarrow> bool" where
  "in_log s b \<longleftrightarrow> lstart s \<le> b \<and> b < lstart s + nat (log_size s)"

text \<open>The area and the header in memory; then what holds when no commit is under way.\<close>

definition log_area :: "'a klog_scheme \<Rightarrow> bool" where
  "log_area s \<longleftrightarrow> log_dev s = 1 \<and> 0 < log_size s \<and> lstart s + nat (log_size s) \<le> disksize s \<and> length (lh_block (lh s)) = LOGSIZE \<and>
     0 \<le> lh_n (lh s) \<and> lh_n (lh s) \<le> int LOGSIZE \<and> lh_n (lh s) < log_size s \<and> distinct (logged s) \<and>
     (\<forall>b \<in> set (logged s). unat b < disksize s \<and> \<not> in_log s (unat b))"

definition log_ok :: "'a klog_scheme \<Rightarrow> bool" where
  "log_ok s \<longleftrightarrow> bio_ok Map.empty s \<and> log_area s \<and> lh_n (lh s) < int NBUF \<and> dirty_blocks s = set (logged s) \<and>
     sint (get32 (disk s ! lstart s) 0) = 0"

lemma length_logged: "log_area s \<Longrightarrow> length (logged s) = nat (lh_n (lh s))"
  by (auto simp: log_area_def logged_def min_def)

lemma klog_frame:
  assumes "bio_frame (s :: 'a klog_scheme) s'"
  shows "lh s' = lh s" "log_start s' = log_start s" "log_size s' = log_size s" "log_dev s' = log_dev s"
    "log_outstanding s' = log_outstanding s" "log_committing s' = log_committing s" "klog.more s' = klog.more s"
    "logged s' = logged s" "in_log s' = in_log s"
proof -
  obtain pt sl c d w where s': "s' = s\<lparr>ptable := pt, sleeplocks := sl, bcache := c, disk := d, disk_writes := w\<rparr>"
    using assms unfolding bio_frame_def by blast
  show "lh s' = lh s" "log_start s' = log_start s" "log_size s' = log_size s" "log_dev s' = log_dev s"
    "log_outstanding s' = log_outstanding s" "log_committing s' = log_committing s" "klog.more s' = klog.more s"
    "logged s' = logged s" "in_log s' = in_log s"
    by (simp_all add: s' logged_def in_log_def fun_eq_iff)
qed

lemma clear_lh_frame: "bio_frame s t \<Longrightarrow> bio_frame (clear_lh s) (clear_lh t)"
proof -
  assume f: "bio_frame s t"
  then obtain pt sl c d w where t: "t = s\<lparr>ptable := pt, sleeplocks := sl, bcache := c, disk := d, disk_writes := w\<rparr>"
    unfolding bio_frame_def by blast
  with f show ?thesis by (simp add: bio_frame_def clear_lh_def)
qed

lemma log_pos:
  assumes "log_area s" "bio_ok H s" "t < nat (log_size s) - 1"
  shows "unat (log_start s + of_nat t + 1) = lstart s + 1 + t" "lstart s + 1 + t < disksize s" "in_log s (lstart s + 1 + t)"
proof -
  have b: "lstart s + nat (log_size s) \<le> disksize s" "disksize s < 2 ^ 31" using assms(1) bio_okD(7) [OF assms(2)] by (simp_all add: log_area_def)
  then have "unat (log_start s + of_nat t) = lstart s + t"
    using assms(3) by (subst unat_add_small) (simp_all add: unat_of_nat_small)
  then show "unat (log_start s + of_nat t + 1) = lstart s + 1 + t" using b assms(3) by (subst unat_add_small) simp_all
  show "lstart s + 1 + t < disksize s" "in_log s (lstart s + 1 + t)" using b assms(3) by (simp_all add: in_log_def)
qed

lemma logged_home:
  assumes "log_area s" "bio_ok H s" "t < length (logged s)"
  shows "unat (logged s ! t) < disksize s" "\<not> in_log s (unat (logged s ! t))"
    "\<And>u. u < length (logged s) \<Longrightarrow> logged s ! t \<noteq> log_start s + of_nat u + 1" "t < nat (log_size s) - 1"
proof -
  have size: "length (logged s) < nat (log_size s)" using assms(1) length_logged [OF assms(1)] by (simp add: log_area_def)
  have "logged s ! t \<in> set (logged s)" using assms(3) by simp
  then show h: "unat (logged s ! t) < disksize s" "\<not> in_log s (unat (logged s ! t))" using assms(1) by (simp_all add: log_area_def)
  show "logged s ! t \<noteq> log_start s + of_nat u + 1" if "u < length (logged s)" for u
    using log_pos [OF assms(1,2), of u] size that h(2) by auto
  show "t < nat (log_size s) - 1" using size assms(3) by simp
qed

lemma logged_inj: "log_area s \<Longrightarrow> inj_on (\<lambda>t. unat (logged s ! t)) {..<length (logged s)}"
proof (rule inj_onI)
  fix t u
  assume "log_area s" "t \<in> {..<length (logged s)}" "u \<in> {..<length (logged s)}" "unat (logged s ! t) = unat (logged s ! u)"
  then show "t = u" by (auto simp: log_area_def nth_eq_iff_index_eq dest!: word_unat_eq_iff [THEN iffD2])
qed

lemma distinct_home: "log_area s \<Longrightarrow> distinct (map (\<lambda>t. unat (logged s ! t)) [0..<length (logged s)])"
  using logged_inj [of s] by (simp add: distinct_map lessThan_atLeast0)

section \<open>The copying loops\<close>

text \<open>One turn of the loops is the cache's copy of a block, as the header does not change under way.\<close>

lemma bread_same:
  assumes "bio_ok Map.empty s" "unat n < disksize s" "card (dirty_blocks s) < NBUF" "bread 1 n s = Inr (i, s1)"
  shows "bio_frame s s1"
  using bread_ok [OF assms(1,2)] assms(3,4) by (auto simp: bio_keeps_def)

lemma one_is_copy:
  assumes "bio_ok Map.empty s" "log_area s" "t < length (logged s)" "card (dirty_blocks s) < NBUF"
  shows "install_one t s = cache.copy_snd (log_start s + of_nat t + 1) (logged s ! t) s"
    "write_log_one t s = cache.copy_fst (log_start s + of_nat t + 1) (logged s ! t) s"
proof -
  have t: "t < nat (log_size s) - 1" "log_dev s = 1" "logged s ! t = lh_block (lh s) ! t"
    using assms(2,3) length_logged [OF assms(2)] by (auto simp: log_area_def logged_def)
  then have "unat (log_start s + of_nat t + 1) < disksize s" using log_pos [OF assms(2,1) t(1)] by simp
  from bread_same [OF assms(1) this assms(4)] klog_frame(1,4)
  have f: "lh s1 = lh s \<and> log_dev s1 = log_dev s" if "bread 1 (log_start s + of_nat t + 1) s = Inr (i, s1)" for i s1
    using that by blast
  show "install_one t s = cache.copy_snd (log_start s + of_nat t + 1) (logged s ! t) s"
    unfolding install_one_def cache.copy_snd_def t(2,3) using f t(2) by (intro kbind_cong) (auto split: prod.splits)
  show "write_log_one t s = cache.copy_fst (log_start s + of_nat t + 1) (logged s ! t) s"
    unfolding write_log_one_def cache.copy_fst_def t(2,3) using f t(2) by (intro kbind_cong) (auto split: prod.splits)
qed

lemma log_copy:
  fixes s :: "'a klog_scheme"
  assumes ok: "bio_ok Map.empty s" "log_area s" "t < length (logged s)"
    and room: "card (dirty_blocks s) < NBUF" "logged s ! t \<in> dirty_blocks s \<or> Suc (card (dirty_blocks s)) < NBUF"
  defines "a \<equiv> log_start s + of_nat t + 1" and "b \<equiv> logged s ! t"
  shows "\<exists>s'. install_one t s = Inr s' \<and> bio_ok Map.empty s' \<and> blk s' = (blk s)(b := blk s a) \<and> disk s' = (disk s)[unat b := blk s a] \<and>
      disk_writes s' = disk_writes s @ [(unat b, blk s a)] \<and> dirty_blocks s' = dirty_blocks s - {b} \<and> bio_frame s s'"
    "\<exists>s'. write_log_one t s = Inr s' \<and> bio_ok Map.empty s' \<and> blk s' = (blk s)(a := blk s b) \<and> disk s' = (disk s)[unat a := blk s b] \<and>
      disk_writes s' = disk_writes s @ [(unat a, blk s b)] \<and> dirty_blocks s' = dirty_blocks s - {a} \<and> bio_frame s s'"
proof -
  have t: "t < nat (log_size s) - 1" using ok(2,3) length_logged [OF ok(2)] by (auto simp: log_area_def)
  note p = log_pos [OF ok(2,1) t, folded a_def]
  have bb: "unat b < disksize s" "\<not> in_log s (unat b)" using ok(2,3) by (auto simp: log_area_def b_def)
  have "a \<noteq> b" using p bb by auto
  then show "\<exists>s'. install_one t s = Inr s' \<and> bio_ok Map.empty s' \<and> blk s' = (blk s)(b := blk s a) \<and> disk s' = (disk s)[unat b := blk s a] \<and>
      disk_writes s' = disk_writes s @ [(unat b, blk s a)] \<and> dirty_blocks s' = dirty_blocks s - {b} \<and> bio_frame s s'"
    "\<exists>s'. write_log_one t s = Inr s' \<and> bio_ok Map.empty s' \<and> blk s' = (blk s)(a := blk s b) \<and> disk s' = (disk s)[unat a := blk s b] \<and>
      disk_writes s' = disk_writes s @ [(unat a, blk s b)] \<and> dirty_blocks s' = dirty_blocks s - {a} \<and> bio_frame s s'"
    unfolding one_is_copy [OF ok room(1), folded a_def b_def]
    using cache.copy_ok [OF ok(1), of a b] p bb room by (auto simp: disksize_def b_def)
qed

lemma log_area_frame: "bio_frame s s' \<Longrightarrow> length (disk s') = length (disk s) \<Longrightarrow> log_area s' = log_area s"
  using klog_frame [of s s'] by (simp add: log_area_def disksize_def)

text \<open>The writes of the two loops.\<close>

definition home_writes :: "nat list \<Rightarrow> 'a klog_scheme \<Rightarrow> (nat \<times> uchar list) list" where
  "home_writes ts s = map (\<lambda>t. (unat (logged s ! t), blk s (log_start s + of_nat t + 1))) ts"

definition copy_writes :: "nat list \<Rightarrow> 'a klog_scheme \<Rightarrow> (nat \<times> uchar list) list" where
  "copy_writes ts s = map (\<lambda>t. (lstart s + 1 + t, blk s (logged s ! t))) ts"

lemma install_loop_ok:
  fixes s :: "'a klog_scheme"
  assumes "bio_ok Map.empty s" "log_area s" "set ts \<subseteq> {..<length (logged s)}" "card (dirty_blocks s) < NBUF"
    "(\<forall>t \<in> set ts. logged s ! t \<in> dirty_blocks s) \<or> Suc (card (dirty_blocks s)) < NBUF" "distinct ts"
  shows "\<exists>s'. install_loop ts s = Inr s' \<and> bio_ok Map.empty s' \<and> bio_frame s s' \<and>
    disk_writes s' = disk_writes s @ home_writes ts s \<and> disk s' = apply_writes (home_writes ts s) (disk s) \<and>
    dirty_blocks s' = dirty_blocks s - (\<lambda>t. logged s ! t) ` set ts \<and>
    (\<forall>b. b \<notin> (\<lambda>t. logged s ! t) ` set ts \<longrightarrow> blk s' b = blk s b)"
  using assms
proof (induction ts arbitrary: s)
  case Nil
  then show ?case by (simp add: home_writes_def)
next
  case (Cons t ts)
  let ?a = "log_start s + of_nat t + 1" and ?b = "logged s ! t"
  have t: "t < length (logged s)" using Cons.prems(3) by simp
  obtain s1 where s1: "install_one t s = Inr s1" "bio_ok Map.empty s1" "blk s1 = (blk s)(?b := blk s ?a)"
    "disk s1 = (disk s)[unat ?b := blk s ?a]" "disk_writes s1 = disk_writes s @ [(unat ?b, blk s ?a)]"
    "dirty_blocks s1 = dirty_blocks s - {?b}" "bio_frame s s1"
    using log_copy(1) [OF Cons.prems(1,2) t Cons.prems(4)] Cons.prems(5) by auto
  note f = klog_frame [OF s1(7)]
  have area: "log_area s1" using log_area_frame [OF s1(7)] s1(4) Cons.prems(2) by simp
  have fin: "finite (dirty_blocks s)" by (simp add: dirty_blocks_def)
  have c: "card (dirty_blocks s1) \<le> card (dirty_blocks s)" unfolding s1(6) by (rule card_mono [OF fin]) auto
  have dist: "logged s ! u \<noteq> ?b" if "u \<in> set ts" for u
    using Cons.prems(2,3,6) that t by (auto simp: log_area_def nth_eq_iff_index_eq)
  have "(\<forall>t \<in> set ts. logged s1 ! t \<in> dirty_blocks s1) \<or> Suc (card (dirty_blocks s1)) < NBUF"
    using Cons.prems(5) c dist unfolding s1(6) f(8) by auto
  from Cons.IH [OF s1(2) area _ _ this] Cons.prems c f obtain s2 where s2: "install_loop ts s1 = Inr s2" "bio_ok Map.empty s2"
    "bio_frame s1 s2" "disk_writes s2 = disk_writes s1 @ home_writes ts s1" "disk s2 = apply_writes (home_writes ts s1) (disk s1)"
    "dirty_blocks s2 = dirty_blocks s1 - (\<lambda>t. logged s1 ! t) ` set ts"
    "\<forall>b. b \<notin> (\<lambda>t. logged s1 ! t) ` set ts \<longrightarrow> blk s2 b = blk s1 b" by auto
  have "log_start s + of_nat u + 1 \<noteq> ?b" if "u \<in> set ts" for u
    using logged_home(3) [OF Cons.prems(2,1) t, of u] that Cons.prems(3) by auto
  then have hw: "home_writes ts s1 = home_writes ts s" using s1(3) f by (simp add: home_writes_def)
  have "home_writes (t # ts) s = (unat ?b, blk s ?a) # home_writes ts s" by (simp add: home_writes_def)
  with s1 s2 hw f bio_frame_trans [OF s1(7) s2(3)] show ?case by (intro exI [of _ s2]) auto
qed

lemma write_log_loop_ok:
  fixes s :: "'a klog_scheme"
  assumes "bio_ok Map.empty s" "log_area s" "set ts \<subseteq> {..<length (logged s)}" "card (dirty_blocks s) < NBUF"
    "dirty_blocks s = set (logged s)" "distinct ts"
  shows "\<exists>s'. write_log_loop ts s = Inr s' \<and> bio_ok Map.empty s' \<and> bio_frame s s' \<and>
    disk_writes s' = disk_writes s @ copy_writes ts s \<and> disk s' = apply_writes (copy_writes ts s) (disk s) \<and>
    dirty_blocks s' = dirty_blocks s \<and> (\<forall>b. \<not> in_log s (unat b) \<longrightarrow> blk s' b = blk s b)"
  using assms
proof (induction ts arbitrary: s)
  case Nil
  then show ?case by (simp add: copy_writes_def)
next
  case (Cons t ts)
  let ?a = "log_start s + of_nat t + 1" and ?b = "logged s ! t"
  have t: "t < length (logged s)" using Cons.prems(3) by simp
  have tn: "t < nat (log_size s) - 1" using Cons.prems(2) t length_logged [OF Cons.prems(2)] by (auto simp: log_area_def)
  note p = log_pos [OF Cons.prems(2,1) tn]
  have an: "?a \<notin> dirty_blocks s" using p Cons.prems(2,5) by (auto simp: log_area_def)
  obtain s1 where s1: "write_log_one t s = Inr s1" "bio_ok Map.empty s1" "blk s1 = (blk s)(?a := blk s ?b)"
    "disk s1 = (disk s)[unat ?a := blk s ?b]" "disk_writes s1 = disk_writes s @ [(unat ?a, blk s ?b)]"
    "dirty_blocks s1 = dirty_blocks s" "bio_frame s s1"
    using log_copy(2) [OF Cons.prems(1,2) t Cons.prems(4)] Cons.prems(5) t an by auto
  note f = klog_frame [OF s1(7)]
  have area: "log_area s1" using log_area_frame [OF s1(7)] s1(4) Cons.prems(2) by simp
  from Cons.IH [OF s1(2) area] Cons.prems f s1(6) obtain s2 where s2: "write_log_loop ts s1 = Inr s2" "bio_ok Map.empty s2"
    "bio_frame s1 s2" "disk_writes s2 = disk_writes s1 @ copy_writes ts s1" "disk s2 = apply_writes (copy_writes ts s1) (disk s1)"
    "dirty_blocks s2 = dirty_blocks s1" "\<forall>b. \<not> in_log s1 (unat b) \<longrightarrow> blk s2 b = blk s1 b" by auto
  have "logged s ! u \<noteq> ?a" if "u \<in> set ts" for u
    using logged_home(3) [OF Cons.prems(2,1) _ t, of u] that Cons.prems(3) by auto
  then have cw: "copy_writes ts s1 = copy_writes ts s" using s1(3) f by (simp add: copy_writes_def)
  have "copy_writes (t # ts) s = (unat ?a, blk s ?b) # copy_writes ts s" using p by (simp add: copy_writes_def)
  with s1 s2 cw f p bio_frame_trans [OF s1(7) s2(3)] show ?case by (intro exI [of _ s2]) auto
qed

section \<open>Commit\<close>

lemma write_head_ok:
  fixes s :: "'a klog_scheme"
  assumes ok: "bio_ok Map.empty s" "log_area s" and room: "card (dirty_blocks s) < NBUF" and cl: "log_start s \<notin> dirty_blocks s"
  defines "h \<equiv> head_data (lh s) (disk s ! lstart s)"
  shows "\<exists>s'. write_head s = Inr s' \<and> bio_ok Map.empty s' \<and> bio_frame s s' \<and> disk_writes s' = disk_writes s @ [(lstart s, h)] \<and>
    disk s' = (disk s)[lstart s := h] \<and> dirty_blocks s' = dirty_blocks s \<and> blk s' = (blk s)(log_start s := h)"
proof -
  have b: "blk s (log_start s) = disk s ! lstart s" using blk_clean [OF ok(1) cl] .
  have l: "lstart s < length (disk s)" "log_dev s = 1" using ok(2) by (auto simp: log_area_def disksize_def)
  have len: "length (head_data (lh s) (blk s (log_start s))) = 512"
    using blk_length [OF ok(1), of "log_start s"] l ok(2) by (subst head_data_ok(1)) (auto simp: log_area_def disksize_def)
  from cache.rmw [where f = "head_data (lh s)", OF ok(1) l(1) room len] obtain i s1 s2 s3 where r: "bread 1 (log_start s) s = Inr (i, s1)"
    "bdata (bufat s1 i) = blk s (log_start s)" "bwrite i (set_bdata i (head_data (lh s) (blk s (log_start s))) s1) = Inr s2"
    "brelse i s2 = Inr s3" "bio_ok Map.empty s3" "blk s3 = (blk s)(log_start s := head_data (lh s) (blk s (log_start s)))"
    "disk s3 = (disk s)[lstart s := head_data (lh s) (blk s (log_start s))]"
    "disk_writes s3 = disk_writes s @ [(lstart s, head_data (lh s) (blk s (log_start s)))]"
    "dirty_blocks s3 = dirty_blocks s - {log_start s}" "bio_frame s s3" by blast
  have "lh s1 = lh s" using klog_frame(1) [OF bread_same [OF ok(1) _ room r(1)]] l by (simp add: disksize_def)
  then have "write_head s = Inr s3" using r(1-4) l(2) by (simp add: write_head_def)
  with r(5-) cl show ?thesis by (auto simp: h_def b)
qed

definition commit_head :: "'a klog_scheme \<Rightarrow> uchar list" where
  "commit_head s = head_data (lh s) (disk s ! lstart s)"

definition commit_writes :: "'a klog_scheme \<Rightarrow> (nat \<times> uchar list) list" where
  "commit_writes s = (let ts = [0..<length (logged s)] in
     copy_writes ts s @ [(lstart s, commit_head s)] @ map (\<lambda>t. (unat (logged s ! t), blk s (logged s ! t))) ts @
     [(lstart s, head_data ((lh s)\<lparr>lh_n := 0\<rparr>) (commit_head s))])"

lemma log_start_clean: "log_area s \<Longrightarrow> dirty_blocks s \<subseteq> set (logged s) \<Longrightarrow> log_start s \<notin> dirty_blocks s"
  by (auto simp: log_area_def in_log_def)

lemma copies_there:
  assumes "log_area s" "bio_ok H s" "t < length (logged s)" "length d = disksize s"
  shows "apply_writes (copy_writes [0..<length (logged s)] s) d ! (lstart s + 1 + t) = blk s (logged s ! t)"
  using assms log_pos(2) [OF assms(1,2)] logged_home(4) [OF assms(1-3)]
  by (intro apply_writes_same) (auto simp: copy_writes_def distinct_map inj_on_def o_def)

lemma copies_other: "b \<notin> {lstart s + 1..<lstart s + 1 + length (logged s)} \<Longrightarrow>
    apply_writes (copy_writes [0..<length (logged s)] s) d ! b = d ! b"
  by (intro apply_writes_other) (auto simp: copy_writes_def)

lemma commit_ok:
  fixes s :: "'a klog_scheme"
  assumes ok: "log_ok s" and n: "lh_n (lh s) > 0"
  shows "\<exists>s'. commit s = Inr s' \<and> bio_ok Map.empty s' \<and> bio_frame (clear_lh s) s' \<and>
    disk_writes s' = disk_writes s @ commit_writes s \<and> disk s' = apply_writes (commit_writes s) (disk s) \<and> dirty_blocks s' = {} \<and>
    (\<forall>b. \<not> in_log s (unat b) \<longrightarrow> blk s' b = blk s b)"
proof -
  let ?n = "length (logged s)" let ?ts = "[0..<?n]" let ?D = "disk s"
  have b: "bio_ok Map.empty s" and area: "log_area s" and dirty: "dirty_blocks s = set (logged s)" using ok by (simp_all add: log_ok_def)
  have len: "?n = nat (lh_n (lh s))" by (rule length_logged [OF area])
  have room: "card (dirty_blocks s) < NBUF"
    using ok n len card_length [of "logged s"] unfolding dirty by (auto simp: log_ok_def)
  have sub: "set ?ts \<subseteq> {..<?n}" by auto
  obtain s1 where s1: "write_log_loop ?ts s = Inr s1" "bio_ok Map.empty s1" "bio_frame s s1"
    "disk_writes s1 = disk_writes s @ copy_writes ?ts s" "disk s1 = apply_writes (copy_writes ?ts s) ?D"
    "dirty_blocks s1 = dirty_blocks s" "\<forall>b. \<not> in_log s (unat b) \<longrightarrow> blk s1 b = blk s b"
    using write_log_loop_ok [OF b area sub room dirty distinct_upt] by blast
  note f1 = klog_frame [OF s1(3)]
  have area1: "log_area s1" using log_area_frame [OF s1(3)] s1(5) area by simp
  have hd1: "disk s1 ! lstart s = ?D ! lstart s" unfolding s1(5) by (rule copies_other) simp
  have cl1: "log_start s1 \<notin> dirty_blocks s1" using log_start_clean [OF area1] s1(6) dirty f1 by simp
  obtain s2 where s2: "write_head s1 = Inr s2" "bio_ok Map.empty s2" "bio_frame s1 s2"
    "disk_writes s2 = disk_writes s1 @ [(lstart s, commit_head s)]" "disk s2 = (disk s1)[lstart s := commit_head s]"
    "dirty_blocks s2 = dirty_blocks s" "blk s2 = (blk s1)(log_start s := commit_head s)"
    using write_head_ok [OF s1(2) area1 _ cl1] s1(6) room f1 hd1 by (auto simp: commit_head_def)
  note f2 = klog_frame [OF s2(3)]
  have area2: "log_area s2" using log_area_frame [OF s2(3)] s2(5) area1 by simp
  have copied: "blk s2 (log_start s + of_nat t + 1) = blk s (logged s ! t)" if t: "t < ?n" for t
  proof -
    note p = log_pos [OF area b logged_home(4) [OF area b t]]
    have "log_start s + of_nat t + 1 \<notin> dirty_blocks s2"
      using logged_home(3) [OF area b _ t] unfolding s2(6) dirty by (auto simp: in_set_conv_nth)
    from blk_clean [OF s2(2) this] show ?thesis
      using copies_there [OF area b t, of ?D] by (simp add: p s2(5) s1(5) disksize_def)
  qed
  have hw: "home_writes ?ts s2 = map (\<lambda>t. (unat (logged s ! t), blk s (logged s ! t))) ?ts"
    using copied f1 f2 by (simp add: home_writes_def)
  have im: "(\<lambda>t. logged s ! t) ` set ?ts = set (logged s)" by (auto simp: in_set_conv_nth)
  have it: "install_trans s2 = install_loop ?ts s2" using len f1 f2 by (simp add: install_trans_def)
  obtain s3 where s3: "install_loop ?ts s2 = Inr s3" "bio_ok Map.empty s3" "bio_frame s2 s3"
    "disk_writes s3 = disk_writes s2 @ home_writes ?ts s2" "disk s3 = apply_writes (home_writes ?ts s2) (disk s2)"
    "dirty_blocks s3 = {}" "\<forall>b. b \<notin> set (logged s) \<longrightarrow> blk s3 b = blk s2 b"
    using install_loop_ok [OF s2(2) area2, of ?ts] sub s2(6) dirty room f1 f2 im by (auto simp: dirty)
  note f3 = klog_frame [OF s3(3)]
  let ?s3 = "clear_lh s3"
  have e3: "bio_ok Map.empty ?s3" "disk ?s3 = disk s3" "disk_writes ?s3 = disk_writes s3" "dirty_blocks ?s3 = {}" "blk ?s3 = blk s3"
    "log_start ?s3 = log_start s" "lh ?s3 = (lh s)\<lparr>lh_n := 0\<rparr>"
    using s3(2,6) f1 f2 f3 bio_cong [of ?s3 s3] by (simp_all add: clear_lh_def)
  have ds: "disksize s3 = disksize s" using s1(5) s2(5) s3(5) by (simp add: disksize_def)
  have area3: "log_area ?s3"
    using area f1 f2 f3 ds by (simp add: log_area_def clear_lh_def logged_def disksize_def)
  have hd3: "disk s3 ! lstart s = commit_head s"
  proof -
    have "lstart s \<notin> fst ` set (home_writes ?ts s2)"
      using logged_home(2) [OF area b] area unfolding hw by (auto simp: in_log_def log_area_def)
    moreover have "lstart s < length (disk s1)" using area s1(5) by (auto simp: log_area_def disksize_def)
    ultimately show ?thesis unfolding s3(5) by (simp add: apply_writes_other s2(5))
  qed
  have "card (dirty_blocks ?s3) < NBUF" by (simp add: e3(4) NBUF_def)
  from write_head_ok [OF e3(1) area3 this] e3 hd3 obtain s4 where s4: "write_head ?s3 = Inr s4" "bio_ok Map.empty s4" "bio_frame ?s3 s4"
    "disk_writes s4 = disk_writes s3 @ [(lstart s, head_data ((lh s)\<lparr>lh_n := 0\<rparr>) (commit_head s))]"
    "disk s4 = (disk s3)[lstart s := head_data ((lh s)\<lparr>lh_n := 0\<rparr>) (commit_head s)]"
    "dirty_blocks s4 = {}" "blk s4 = (blk s3)(log_start s := head_data ((lh s)\<lparr>lh_n := 0\<rparr>) (commit_head s))" by auto
  have c: "commit s = Inr s4" using n s1(1) s2(1) s3(1) s4(1) it len by (simp add: commit_def write_log_def)
  have w: "disk_writes s4 = disk_writes s @ commit_writes s" "disk s4 = apply_writes (commit_writes s) (disk s)"
    using s1(4,5) s2(4,5) s3(4,5) s4(4,5) hw by (simp_all add: commit_writes_def Let_def)
  have fr: "bio_frame (clear_lh s) s4"
  proof -
    have "bio_frame s s3" using s1(3) s2(3) s3(3) bio_frame_trans by blast
    then have "bio_frame (clear_lh s) ?s3" by (rule clear_lh_frame)
    then show ?thesis using s4(3) bio_frame_trans by blast
  qed
  have v: "blk s4 x = blk s x" if x: "\<not> in_log s (unat x)" for x
  proof (cases "x \<in> set (logged s)")
    case True
    then obtain t where t: "t < ?n" "logged s ! t = x" by (auto simp: in_set_conv_nth)
    have "x \<notin> dirty_blocks s4" by (simp add: s4(6))
    moreover have "unat x \<noteq> lstart s" using x area by (auto simp: in_log_def log_area_def)
    moreover have "apply_writes (home_writes ?ts s2) (disk s2) ! unat x = blk s x"
      using t logged_home(1) [OF area b t(1)] s1(5) s2(5) distinct_home [OF area]
      unfolding hw by (intro apply_writes_same) (auto simp: o_def disksize_def)
    ultimately show ?thesis using blk_clean [OF s4(2)] by (simp add: s4(5) s3(5))
  next
    case False
    have "x \<noteq> log_start s" using x area by (auto simp: in_log_def log_area_def)
    then show ?thesis using s4(7) s3(7) s2(7) s1(7) False x by simp
  qed
  show ?thesis using c s4(2,6) fr w v by blast
qed

section \<open>Crashes during commit\<close>

text \<open>A header that recovery can follow.\<close>

definition head_ok :: "'a klog_scheme \<Rightarrow> uchar list list \<Rightarrow> bool" where
  "head_ok s d \<longleftrightarrow> (let h = d ! lstart s; n = sint (get32 h 0)
     in 0 \<le> n \<and> n \<le> int LOGSIZE \<and> n < log_size s \<and> inj_on (head_block h) {..<nat n} \<and>
        (\<forall>i < nat n. head_block h i < length d \<and> \<not> in_log s (head_block h i)))"

definition crash_ok :: "'a klog_scheme \<Rightarrow> uchar list list \<Rightarrow> bool" where
  "crash_ok s d \<longleftrightarrow> head_ok s d \<and>
     ((\<forall>b < disksize s. \<not> in_log s b \<longrightarrow> recovered (lstart s) d b = disk s ! b) \<or>
      (\<forall>b < disksize s. \<not> in_log s b \<longrightarrow> recovered (lstart s) d b = blk s (of_nat b)))"

lemma empty_head:
  assumes "sint (get32 (d ! lstart s) 0) = 0" "0 < log_size s"
  shows "head_ok s d" "recovered (lstart s) d b = d ! b"
  using assms by (simp add: head_ok_def) (rule recovered_none, simp add: head_n_def assms)

lemma block_num: "bio_ok H s \<Longrightarrow> b < disksize s \<Longrightarrow> unat (of_nat b :: uint) = b"
  using bio_okD(7) [of H s] by (simp add: unat_of_nat_small)

lemma blk_unlogged:
  assumes "log_ok s" "b < disksize s" "\<And>t. t < length (logged s) \<Longrightarrow> unat (logged s ! t) \<noteq> b"
  shows "blk s (of_nat b) = disk s ! b"
proof -
  have "bio_ok Map.empty s" "dirty_blocks s = set (logged s)" using assms(1) by (simp_all add: log_ok_def)
  then have b: "bio_ok Map.empty s" and d: "dirty_blocks s = set (logged s)" .
  have "of_nat b \<notin> dirty_blocks s"
  proof
    assume "of_nat b \<in> dirty_blocks s"
    then obtain t where "t < length (logged s)" "logged s ! t = of_nat b" unfolding d by (auto simp: in_set_conv_nth)
    with assms(3) [of t] block_num [OF b assms(2)] show False by simp
  qed
  from blk_clean [OF b this] block_num [OF b assms(2)] show ?thesis by simp
qed

lemma head_of_commit:
  assumes "log_ok s"
  shows "sint (get32 (commit_head s) 0) = lh_n (lh s)" "\<And>i. i < length (logged s) \<Longrightarrow> head_block (commit_head s) i = unat (logged s ! i)"
    "head_n (commit_head s) = length (logged s)" "length (commit_head s) = 512"
    "sint (get32 (head_data ((lh s)\<lparr>lh_n := 0\<rparr>) (commit_head s)) 0) = 0"
proof -
  have a: "log_area s" and b: "bio_ok Map.empty s" using assms by (simp_all add: log_ok_def)
  have "length (disk s ! lstart s) = 512" using bio_okD(6) [OF b] a by (auto simp: log_area_def disksize_def)
  moreover have l: "0 \<le> lh_n (lh s)" "lh_n (lh s) \<le> int LOGSIZE" "length (lh_block (lh s)) = LOGSIZE" using a by (simp_all add: log_area_def)
  ultimately have h: "length (commit_head s) = 512" "sint (get32 (commit_head s) 0) = lh_n (lh s)"
    "head_n (commit_head s) = nat (lh_n (lh s))"
    "\<And>i. i < nat (lh_n (lh s)) \<Longrightarrow> get32 (commit_head s) (4 + 4 * i) = lh_block (lh s) ! i"
    unfolding commit_head_def by (simp_all add: head_data_ok)
  show "sint (get32 (commit_head s) 0) = lh_n (lh s)" "length (commit_head s) = 512" using h by simp_all
  show "head_n (commit_head s) = length (logged s)" using h length_logged [OF a] by simp
  show "head_block (commit_head s) i = unat (logged s ! i)" if "i < length (logged s)" for i
    using h(4) [of i] that length_logged [OF a] by (simp add: head_block_def logged_def)
  show "sint (get32 (head_data ((lh s)\<lparr>lh_n := 0\<rparr>) (commit_head s)) 0) = 0"
    using head_data_ok(3) [OF h(1), of "(lh s)\<lparr>lh_n := 0\<rparr>"] l by simp
qed

lemma crash_before:
  assumes ok: "log_ok s"
  shows "crash_ok s (apply_writes (take k (copy_writes [0..<length (logged s)] s)) (disk s))"
proof -
  let ?ws = "take k (copy_writes [0..<length (logged s)] s)" let ?d = "apply_writes ?ws (disk s)"
  have a: "log_area s" and b: "bio_ok Map.empty s" and z: "sint (get32 (disk s ! lstart s) 0) = 0" using ok by (simp_all add: log_ok_def)
  have pos: "p \<noteq> lstart s \<and> in_log s p" if "p \<in> fst ` set ?ws" for p
  proof -
    have "p \<in> fst ` set (copy_writes [0..<length (logged s)] s)" using that by (auto dest: in_set_takeD)
    then obtain t where "t < length (logged s)" "p = lstart s + 1 + t" by (auto simp: copy_writes_def)
    then show ?thesis using log_pos(3) [OF a b logged_home(4) [OF a b]] by simp
  qed
  have o: "?d ! p = disk s ! p" if "p = lstart s \<or> \<not> in_log s p" for p using pos that by (intro apply_writes_other) auto
  have "sint (get32 (?d ! lstart s) 0) = 0" using o z by simp
  moreover have "0 < log_size s" using a by (simp add: log_area_def)
  ultimately show ?thesis using empty_head [of ?d s] o by (simp add: crash_ok_def)
qed

lemma crash_after:
  fixes s :: "'a klog_scheme"
  assumes ok: "log_ok s" and j: "j \<le> length (logged s)"
  defines "C \<equiv> map (\<lambda>t. (unat (logged s ! t), blk s (logged s ! t))) [0..<length (logged s)]"
  defines "d \<equiv> apply_writes (take j C) ((apply_writes (copy_writes [0..<length (logged s)] s) (disk s))[lstart s := commit_head s])"
  shows "crash_ok s d" "\<And>b. b < disksize s \<Longrightarrow> \<not> in_log s b \<Longrightarrow> recovered (lstart s) d b = blk s (of_nat b)"
    "j = length (logged s) \<Longrightarrow> b < disksize s \<Longrightarrow> \<not> in_log s b \<Longrightarrow> d ! b = blk s (of_nat b)" "d ! lstart s = commit_head s"
proof -
  let ?n = "length (logged s)" let ?e = "apply_writes (copy_writes [0..<?n] s) (disk s)"
  have a: "log_area s" and b: "bio_ok Map.empty s" using ok by (simp_all add: log_ok_def)
  have st: "lstart s < disksize s" "in_log s (lstart s)" using a by (auto simp: log_area_def in_log_def)
  have ld: "length d = disksize s" by (simp add: d_def disksize_def)
  have C: "p \<in> fst ` set (take j C) \<Longrightarrow> \<exists>t < ?n. p = unat (logged s ! t)" for p
  proof -
    assume "p \<in> fst ` set (take j C)"
    then have "p \<in> fst ` set C" using set_take_subset [of j C] by blast
    then show ?thesis by (auto simp: C_def)
  qed
  have nl: "p \<notin> fst ` set (take j C)" if "in_log s p" for p
  proof
    assume "p \<in> fst ` set (take j C)"
    then obtain t where "t < ?n" "p = unat (logged s ! t)" using C by blast
    with logged_home(2) [OF a b] that show False by simp
  qed
  show hd: "d ! lstart s = commit_head s"
    unfolding d_def using nl [OF st(2)] st(1) by (simp add: apply_writes_other disksize_def)
  have cp: "d ! (lstart s + 1 + t) = blk s (logged s ! t)" if t: "t < ?n" for t
    using nl log_pos(3) [OF a b logged_home(4) [OF a b t]] copies_there [OF a b t, of "disk s"]
    unfolding d_def by (simp add: apply_writes_other disksize_def)
  have o: "d ! p = disk s ! p" if p: "p < disksize s" "\<not> in_log s p" "\<And>t. t < ?n \<Longrightarrow> unat (logged s ! t) \<noteq> p" for p
  proof -
    have "p \<notin> fst ` set (take j C)"
    proof
      assume "p \<in> fst ` set (take j C)"
      then obtain t where "t < ?n" "p = unat (logged s ! t)" using C by blast
      with p(3) [of t] show False by simp
    qed
    moreover have "?e ! p = disk s ! p"
      using p(2) a length_logged [OF a] by (intro copies_other) (auto simp: in_log_def log_area_def)
    moreover have "p \<noteq> lstart s" using p(2) st(2) by auto
    ultimately show ?thesis unfolding d_def by (simp add: apply_writes_other)
  qed
  note h = head_of_commit [OF ok]
  have inj: "inj_on (head_block (commit_head s)) {..<?n}"
    using logged_inj [OF a] h(2) by (simp add: inj_on_def)
  show rec: "recovered (lstart s) d p = blk s (of_nat p)" if p: "p < disksize s" "\<not> in_log s p" for p
  proof (cases "\<exists>t < ?n. unat (logged s ! t) = p")
    case True
    then obtain t where t: "t < ?n" "unat (logged s ! t) = p" by blast
    have "recovered (lstart s) d (head_block (d ! lstart s) t) = d ! (lstart s + 1 + t)"
      using inj t(1) h(3) by (intro recovered_some) (simp_all add: hd)
    moreover have "head_block (d ! lstart s) t = p" using h(2) [OF t(1)] t(2) by (simp add: hd)
    moreover have "logged s ! t = of_nat p" by (simp flip: t(2))
    ultimately show ?thesis using cp [OF t(1)] by simp
  next
    case False
    then have "recovered (lstart s) d p = d ! p" using h(2,3) by (intro recovered_none) (simp add: hd)
    then show ?thesis using o [OF p] blk_unlogged [OF ok p(1)] False by auto
  qed
  have "head_ok s d"
    using h(1-3) inj a logged_home(1,2) [OF a b] length_logged [OF a] ld
    by (auto simp: head_ok_def hd Let_def log_area_def)
  with rec show "crash_ok s d" by (simp add: crash_ok_def)
  show "d ! b = blk s (of_nat b)" if j: "j = ?n" and p: "b < disksize s" "\<not> in_log s b" for b
  proof (cases "\<exists>t < ?n. unat (logged s ! t) = b")
    case True
    then obtain t where t: "t < ?n" "unat (logged s ! t) = b" by blast
    have "take j C = C" by (simp add: j C_def)
    moreover have "apply_writes C (?e[lstart s := commit_head s]) ! b = blk s (logged s ! t)"
      using t p(1) distinct_home [OF a] by (intro apply_writes_same) (auto simp: C_def o_def disksize_def)
    moreover have "logged s ! t = of_nat b" by (simp flip: t(2))
    ultimately show ?thesis by (simp add: d_def)
  next
    case False
    then show ?thesis using o [OF p] blk_unlogged [OF ok p(1)] by auto
  qed
qed

lemma crash_any:
  assumes ok: "log_ok s"
  shows "crash_ok s (apply_writes (take k (commit_writes s)) (disk s))"
proof -
  let ?n = "length (logged s)" let ?A = "copy_writes [0..<?n] s"
  let ?C = "map (\<lambda>t. (unat (logged s ! t), blk s (logged s ! t))) [0..<?n]"
  let ?z = "head_data ((lh s)\<lparr>lh_n := 0\<rparr>) (commit_head s)"
  have W: "commit_writes s = ?A @ (lstart s, commit_head s) # ?C @ [(lstart s, ?z)]" by (simp add: commit_writes_def Let_def)
  have lA: "length ?A = ?n" by (simp add: copy_writes_def)
  consider "k \<le> ?n" | j where "k = ?n + Suc j" "j \<le> ?n" | j where "k = ?n + Suc (?n + Suc j)"
  proof -
    have "k \<le> ?n \<or> k = ?n + Suc (k - ?n - 1) \<and> k - ?n - 1 \<le> ?n \<or> k = ?n + Suc (?n + Suc (k - 2 * ?n - 2))" by linarith
    then show ?thesis using that by blast
  qed
  then show ?thesis
  proof cases
    case 1
    then have "take k (commit_writes s) = take k ?A" using lA by (simp add: W)
    then show ?thesis using crash_before [OF ok] by simp
  next
    case (2 j)
    then have "take k (commit_writes s) = ?A @ (lstart s, commit_head s) # take j ?C" using lA by (simp add: W)
    then show ?thesis using crash_after(1) [OF ok 2(2)] by simp
  next
    case (3 j)
    then have t: "take k (commit_writes s) = ?A @ (lstart s, commit_head s) # take ?n ?C @ [(lstart s, ?z)]" using lA by (simp add: W)
    let ?d = "apply_writes (take ?n ?C) ((apply_writes ?A (disk s))[lstart s := commit_head s])"
    have a: "log_area s" using ok by (simp add: log_ok_def)
    then have st: "lstart s < length ?d" "in_log s (lstart s)" "0 < log_size s" by (auto simp: log_area_def in_log_def disksize_def)
    have "sint (get32 ((?d[lstart s := ?z]) ! lstart s) 0) = 0" using st(1) head_of_commit(5) [OF ok] by simp
    from empty_head [OF this st(3)] have "head_ok s (?d[lstart s := ?z])"
      "recovered (lstart s) (?d[lstart s := ?z]) p = (?d[lstart s := ?z]) ! p" for p by simp_all
    moreover have "(?d[lstart s := ?z]) ! p = blk s (of_nat p)" if "p < disksize s" "\<not> in_log s p" for p
    proof -
      have "p \<noteq> lstart s" using that(2) st(2) by auto
      then show ?thesis using crash_after(3) [OF ok order.refl refl that] by simp
    qed
    ultimately have "crash_ok s (?d[lstart s := ?z])" by (simp add: crash_ok_def)
    then show ?thesis unfolding t by simp
  qed
qed

section \<open>Recovery\<close>

definition boot_ok :: "'a klog_scheme \<Rightarrow> bool" where
  "boot_ok s \<longleftrightarrow> bio_ok Map.empty s \<and> dirty_blocks s = {} \<and> log_dev s = 1 \<and> 0 < log_size s \<and>
     lstart s + nat (log_size s) \<le> disksize s \<and> length (lh_block (lh s)) = LOGSIZE \<and> head_ok s (disk s)"

definition recover_writes :: "'a klog_scheme \<Rightarrow> (nat \<times> uchar list) list" where
  "recover_writes s = (let h = disk s ! lstart s
     in map (\<lambda>i. (head_block h i, disk s ! (lstart s + 1 + i))) [0..<head_n h] @
        [(lstart s, head_data \<lparr>lh_n = 0, lh_block = []\<rparr> h)])"

lemma head_data_0: "lh_n h = 0 \<Longrightarrow> head_data h d = head_data \<lparr>lh_n = 0, lh_block = []\<rparr> d"
  by (simp add: head_data_def)

lemma read_head_ok:
  fixes s :: "'a klog_scheme"
  assumes ok: "boot_ok s"
  defines "h \<equiv> disk s ! lstart s"
  shows "\<exists>s'. read_head s = Inr s' \<and> bio_ok Map.empty s' \<and> log_area s' \<and> disk s' = disk s \<and> disk_writes s' = disk_writes s \<and>
    dirty_blocks s' = {} \<and> blk s' = blk s \<and> lh_n (lh s') = sint (get32 h 0) \<and> length (logged s') = head_n h \<and>
    (\<forall>i < head_n h. unat (logged s' ! i) = head_block h i) \<and> log_start s' = log_start s \<and> log_size s' = log_size s \<and> in_log s' = in_log s \<and>
    (\<exists>x. bio_frame (s\<lparr>lh := x\<rparr>) s')"
proof -
  have b: "bio_ok Map.empty s" and d: "dirty_blocks s = {}" and dev: "log_dev s = 1" and ho: "head_ok s (disk s)"
    and st: "lstart s < disksize s" using ok by (auto simp: boot_ok_def)
  let ?n = "sint (get32 h 0)"
  have n: "0 \<le> ?n" "?n \<le> int LOGSIZE" "?n < log_size s" using ho by (simp_all add: head_ok_def h_def Let_def)
  have "log_start s \<notin> ran Map.empty" "log_start s \<in> dirty_blocks s \<or> card (dom (Map.empty :: nat \<Rightarrow> uint option)) + card (dirty_blocks s) < NBUF"
    by (simp_all add: d NBUF_def)
  then obtain i s1 where s1: "bread 1 (log_start s) s = Inr (i, s1)" "bio_ok [i \<mapsto> log_start s] s1" "bio_keeps s s1"
    using bread_ok [OF b st] by blast
  have k: "blk s1 = blk s" "disk s1 = disk s" "disk_writes s1 = disk_writes s" "dirty_blocks s1 = {}" "bio_frame s s1"
    using s1(3) d by (simp_all add: bio_keeps_def)
  note f = klog_frame [OF k(5)]
  have data: "bdata (bufat s1 i) = h"
    using held_data(1) [OF s1(2), of i "log_start s"] blk_clean [OF b, of "log_start s"] k(1) d by (simp add: h_def)
  let ?x = "\<lparr>lh_n = ?n, lh_block = get_words h 4 (nat ?n) @ drop (nat ?n) (lh_block (lh s1))\<rparr>"
  let ?s1 = "s1\<lparr>lh := ?x\<rparr>"
  have c: "bio_ok [i \<mapsto> log_start s] ?s1" "blk ?s1 = blk s" "dirty_blocks ?s1 = {}"
    using bio_cong [of ?s1 s1] s1(2) k by simp_all
  have fs: "bio_frame (s\<lparr>lh := ?x\<rparr>) ?s1"
  proof -
    obtain pt sl c d w where "s1 = s\<lparr>ptable := pt, sleeplocks := sl, bcache := c, disk := d, disk_writes := w\<rparr>"
      using k(5) unfolding bio_frame_def by blast
    then show ?thesis using k(5) by (simp add: bio_frame_def)
  qed
  obtain s2 where s2: "brelse i ?s1 = Inr s2" "bio_ok Map.empty s2" "bio_keeps ?s1 s2"
    using brelse_ok [OF c(1), of i "log_start s"] by auto
  have k2: "blk s2 = blk s" "disk s2 = disk s" "disk_writes s2 = disk_writes s" "dirty_blocks s2 = {}" "bio_frame ?s1 s2"
    using s2(3) c k by (simp_all add: bio_keeps_def)
  note f2 = klog_frame [OF k2(5)]
  have r: "read_head s = Inr s2" using s1(1) s2(1) n(2) data dev by (simp add: read_head_def Let_def)
  have ll: "length (lh_block ?x) = LOGSIZE" using ok f n by (simp add: boot_ok_def get_words_def)
  have lg: "logged s2 = get_words h 4 (nat ?n)" using f2 by (simp add: logged_def get_words_def)
  have len: "length (logged s2) = head_n h" by (simp add: lg get_words_def head_n_def)
  have nth: "\<forall>j < head_n h. unat (logged s2 ! j) = head_block h j" by (simp add: lg get_words_def head_n_def head_block_def)
  have il: "in_log s2 = in_log s" using f f2 by (simp add: in_log_def fun_eq_iff)
  have inj: "inj_on (head_block h) {..<head_n h}" using ho by (simp add: head_ok_def h_def Let_def head_n_def)
  have "distinct (logged s2)"
    unfolding distinct_conv_nth len
  proof (intro allI impI notI)
    fix j k
    assume jk: "j < head_n h" "k < head_n h" "j \<noteq> k" "logged s2 ! j = logged s2 ! k"
    then have "head_block h j = head_block h k" using nth by metis
    with inj jk show False by (auto simp: inj_on_def)
  qed
  moreover have "unat x < disksize s \<and> \<not> in_log s (unat x)" if "x \<in> set (logged s2)" for x
    using that ho nth len by (auto simp: in_set_conv_nth head_ok_def h_def [symmetric] Let_def head_n_def disksize_def)
  ultimately have "log_area s2"
    using ok n ll il f f2 k2(2) by (simp add: log_area_def boot_ok_def disksize_def)
  then show ?thesis using r s2(2) k2 len nth f f2 il bio_frame_trans [OF fs k2(5)] by (intro exI [of _ s2]) auto
qed

lemma recover_ok:
  fixes s :: "'a klog_scheme"
  assumes ok: "boot_ok s"
  shows "\<exists>s'. recover_from_log s = Inr s' \<and> log_ok s' \<and> logged s' = [] \<and> disk_writes s' = disk_writes s @ recover_writes s \<and>
    disk s' = apply_writes (recover_writes s) (disk s) \<and> log_start s' = log_start s \<and> log_size s' = log_size s"
proof -
  let ?h = "disk s ! lstart s" let ?n = "head_n ?h"
  have b0: "bio_ok Map.empty s" and d0: "dirty_blocks s = {}" using ok by (simp_all add: boot_ok_def)
  obtain s1 where s1: "read_head s = Inr s1" "bio_ok Map.empty s1" "log_area s1" "disk s1 = disk s" "disk_writes s1 = disk_writes s"
    "dirty_blocks s1 = {}" "blk s1 = blk s" "lh_n (lh s1) = sint (get32 ?h 0)" "length (logged s1) = ?n"
    "\<forall>i < ?n. unat (logged s1 ! i) = head_block ?h i" "log_start s1 = log_start s" "log_size s1 = log_size s" "in_log s1 = in_log s"
    using read_head_ok [OF ok] by blast
  let ?ts = "[0..<?n]"
  have sub: "set ?ts \<subseteq> {..<length (logged s1)}" by (simp add: s1(9) lessThan_atLeast0)
  have room: "card (dirty_blocks s1) < NBUF" "Suc (card (dirty_blocks s1)) < NBUF" by (simp_all add: s1(6) NBUF_def)
  have hw: "home_writes ?ts s1 = map (\<lambda>i. (head_block ?h i, disk s ! (lstart s + 1 + i))) ?ts"
  proof -
    have "blk s1 (log_start s1 + of_nat t + 1) = disk s ! (lstart s + 1 + t)" if "t < ?n" for t
      using log_pos(1) [OF s1(3,2) logged_home(4) [OF s1(3,2)]] that s1(9,11) blk_clean [OF s1(2)] s1(4,6) by simp
    then show ?thesis using s1(10) by (simp add: home_writes_def)
  qed
  obtain s2 where s2: "install_loop ?ts s1 = Inr s2" "bio_ok Map.empty s2" "bio_frame s1 s2"
    "disk_writes s2 = disk_writes s @ home_writes ?ts s1" "disk s2 = apply_writes (home_writes ?ts s1) (disk s)" "dirty_blocks s2 = {}"
    using install_loop_ok [OF s1(2,3) sub room(1) disjI2 [OF room(2)] distinct_upt] s1(4-6) by auto
  note f2 = klog_frame [OF s2(3)]
  let ?s2 = "clear_lh s2"
  have it: "install_trans s1 = Inr s2" using s2(1) s1(8) by (simp add: install_trans_def head_n_def)
  have e: "bio_ok Map.empty ?s2" "disk ?s2 = disk s2" "disk_writes ?s2 = disk_writes s2" "dirty_blocks ?s2 = {}"
    "log_start ?s2 = log_start s" "log_size ?s2 = log_size s" "lh_n (lh ?s2) = 0" "length (lh_block (lh ?s2)) = LOGSIZE"
    using s2(2,6) f2 s1(11,12) bio_cong [of ?s2 s2] s1(3) by (simp_all add: clear_lh_def log_area_def)
  have area: "log_area ?s2" using s1(3) f2 s2(5) s1(4) by (simp add: log_area_def clear_lh_def logged_def disksize_def)
  have sl: "lstart s < length (disk s2)" using ok s2(5) by (auto simp: boot_ok_def disksize_def)
  have hd2: "disk s2 ! lstart s = ?h"
  proof -
    have "head_block ?h i \<noteq> lstart s" if "i < ?n" for i
      using ok that by (auto simp: boot_ok_def head_ok_def Let_def head_n_def in_log_def)
    then have "lstart s \<notin> fst ` set (home_writes ?ts s1)" unfolding hw by force
    then show ?thesis by (simp add: s2(5) apply_writes_other)
  qed
  let ?z = "head_data \<lparr>lh_n = 0, lh_block = []\<rparr> ?h"
  have "card (dirty_blocks ?s2) < NBUF" "log_start ?s2 \<notin> dirty_blocks ?s2" by (simp_all add: e(4) NBUF_def)
  from write_head_ok [OF e(1) area this] obtain s3 where s3: "write_head ?s2 = Inr s3" "bio_ok Map.empty s3" "bio_frame ?s2 s3"
    "disk_writes s3 = disk_writes s2 @ [(lstart s, ?z)]" "disk s3 = (disk s2)[lstart s := ?z]" "dirty_blocks s3 = {}"
    using e hd2 head_data_0 [OF e(7)] by auto
  note f3 = klog_frame [OF s3(3)]
  have r: "recover_from_log s = Inr s3" using s1(1) it s3(1) by (simp add: recover_from_log_def)
  have w: "disk_writes s3 = disk_writes s @ recover_writes s" "disk s3 = apply_writes (recover_writes s) (disk s)"
    using s2(4,5) s3(4,5) hw by (simp_all add: recover_writes_def Let_def)
  have "length ?h = 512" using bio_okD(6) [OF b0] ok by (auto simp: boot_ok_def disksize_def)
  then have "sint (get32 ?z 0) = 0"
    using head_data_ok(3) [of ?h "lh ?s2"] e(7,8) head_data_0 [OF e(7)] by (simp add: LOGSIZE_def)
  then have "sint (get32 (disk s3 ! lstart s3) 0) = 0" using s3(5) sl f3 e(5) by simp
  moreover have area3: "log_area s3" using log_area_frame [OF s3(3)] s3(5) area e(2) by simp
  moreover have l3: "logged s3 = []" using f3 e(7) by (simp add: logged_def)
  ultimately have "log_ok s3" using s3(2,6) f3 e(7) by (simp add: log_ok_def NBUF_def)
  then show ?thesis using r w l3 f3 e(5,6) by auto
qed

lemma recover_prefix:
  fixes s :: "'a klog_scheme" and k :: nat
  assumes ok: "boot_ok s"
  defines "d \<equiv> apply_writes (take k (recover_writes s)) (disk s)"
  shows "head_ok s d" "\<And>b. b < disksize s \<Longrightarrow> \<not> in_log s b \<Longrightarrow> recovered (lstart s) d b = recovered (lstart s) (disk s) b"
    "\<And>b. length (recover_writes s) \<le> k \<Longrightarrow> b < disksize s \<Longrightarrow> \<not> in_log s b \<Longrightarrow> d ! b = recovered (lstart s) (disk s) b"
proof -
  let ?h = "disk s ! lstart s" let ?n = "head_n ?h"
  let ?C = "map (\<lambda>i. (head_block ?h i, disk s ! (lstart s + 1 + i))) [0..<?n]" let ?z = "head_data \<lparr>lh_n = 0, lh_block = []\<rparr> ?h"
  have ho: "head_ok s (disk s)" and sz: "0 < log_size s" "lstart s + nat (log_size s) \<le> disksize s" using ok by (simp_all add: boot_ok_def)
  have hb: "head_block ?h i < disksize s" "\<not> in_log s (head_block ?h i)" if "i < ?n" for i
    using ho that by (simp_all add: head_ok_def Let_def head_n_def disksize_def)
  have inj: "inj_on (head_block ?h) {..<?n}" and nn: "int ?n < log_size s" using ho by (simp_all add: head_ok_def Let_def head_n_def)
  have st: "lstart s < disksize s" "in_log s (lstart s)" using sz by (auto simp: in_log_def)
  have pos: "in_log s (lstart s + 1 + i)" if "i < ?n" for i using that nn by (simp add: in_log_def)
  define e where "e j = apply_writes (take j ?C) (disk s)" for j
  have C: "\<exists>i < ?n. p = head_block ?h i" if "p \<in> fst ` set (take j ?C)" for p j
  proof -
    have "p \<in> fst ` set ?C" using that set_take_subset [of j ?C] by blast
    then show ?thesis by auto
  qed
  have el: "e j ! p = disk s ! p" if "in_log s p" for j p
  proof -
    have "p \<notin> fst ` set (take j ?C)"
    proof
      assume "p \<in> fst ` set (take j ?C)"
      then obtain i where "i < ?n" "p = head_block ?h i" using C by blast
      with hb that show False by simp
    qed
    then show ?thesis by (simp add: e_def apply_writes_other)
  qed
  have eo: "e j ! p = disk s ! p" if p: "\<And>i. i < ?n \<Longrightarrow> head_block ?h i \<noteq> p" for j p
  proof -
    have "p \<notin> fst ` set (take j ?C)"
    proof
      assume "p \<in> fst ` set (take j ?C)"
      then obtain i where "i < ?n" "p = head_block ?h i" using C by blast
      with p [of i] show False by simp
    qed
    then show ?thesis by (simp add: e_def apply_writes_other)
  qed
  have le: "length (e j) = disksize s" for j by (simp add: e_def disksize_def)
  have eh: "e j ! lstart s = ?h" for j using el st(2) by simp
  have he: "head_ok s (e j)" for j using ho le by (simp add: head_ok_def eh disksize_def)
  have re: "recovered (lstart s) (e j) p = recovered (lstart s) (disk s) p" for j p
  proof (cases "\<exists>i < ?n. head_block ?h i = p")
    case True
    then obtain i where i: "i < ?n" "p = head_block ?h i" by blast
    have "recovered (lstart s) (e j) p = e j ! (lstart s + 1 + i)" using recovered_some [of i "e j" "lstart s"] i inj by (simp add: eh)
    moreover have "recovered (lstart s) (disk s) p = disk s ! (lstart s + 1 + i)" using recovered_some [of i "disk s" "lstart s"] i inj by simp
    ultimately show ?thesis using el [OF pos [OF i(1)]] by simp
  next
    case False
    then have "recovered (lstart s) (e j) p = e j ! p" "recovered (lstart s) (disk s) p = disk s ! p"
      by (intro recovered_none; auto simp: eh)+
    then show ?thesis using eo False by auto
  qed
  have fin: "e ?n ! p = recovered (lstart s) (disk s) p" for p
  proof (cases "\<exists>i < ?n. head_block ?h i = p")
    case True
    then obtain i where i: "i < ?n" "p = head_block ?h i" by blast
    have "apply_writes ?C (disk s) ! p = disk s ! (lstart s + 1 + i)"
      using i inj hb(1) by (intro apply_writes_same) (auto simp: distinct_map o_def lessThan_atLeast0 disksize_def)
    then show ?thesis using recovered_some [of i "disk s" "lstart s"] i inj by (simp add: e_def)
  next
    case False
    then have "recovered (lstart s) (disk s) p = disk s ! p" by (intro recovered_none) auto
    then show ?thesis using eo False by auto
  qed
  have W: "recover_writes s = ?C @ [(lstart s, ?z)]" by (simp add: recover_writes_def Let_def)
  have "sint (get32 ?z 0) = 0"
  proof -
    have "length ?h = 512" using ok st(1) bio_okD(6) [of Map.empty s] by (auto simp: boot_ok_def disksize_def)
    then have "get32 ?z 0 = 0" by (simp add: head_data_def)
    then show ?thesis by simp
  qed
  then have z: "head_ok s ((e ?n)[lstart s := ?z])" "recovered (lstart s) ((e ?n)[lstart s := ?z]) p = (e ?n)[lstart s := ?z] ! p" for p
    using empty_head [of "(e ?n)[lstart s := ?z]" s] sz(1) st(1) le by simp_all
  have zo: "(e ?n)[lstart s := ?z] ! p = e ?n ! p" if "\<not> in_log s p" for p using that st(2) by (cases "p = lstart s") auto
  consider "k \<le> ?n" "d = e k" | "k > ?n" "d = (e ?n)[lstart s := ?z]"
  proof (cases "k \<le> ?n")
    case True
    then have "d = e k" by (simp add: d_def W e_def)
    with True that show ?thesis by blast
  next
    case False
    then have "d = (e ?n)[lstart s := ?z]" by (simp add: d_def W e_def)
    with False that show ?thesis by simp
  qed
  then show "head_ok s d" "\<And>b. b < disksize s \<Longrightarrow> \<not> in_log s b \<Longrightarrow> recovered (lstart s) d b = recovered (lstart s) (disk s) b"
    "\<And>b. length (recover_writes s) \<le> k \<Longrightarrow> b < disksize s \<Longrightarrow> \<not> in_log s b \<Longrightarrow> d ! b = recovered (lstart s) (disk s) b"
    using he re fin z zo by (cases; simp add: W)+
qed

section \<open>Transactions\<close>

text \<open>The same while the running process holds the buffers of \<open>H\<close>: the dirty blocks are the logged ones.\<close>

definition tx_ok :: "(nat \<Rightarrow> uint option) \<Rightarrow> 'a klog_scheme \<Rightarrow> bool" where
  "tx_ok H s \<longleftrightarrow> bio_ok H s \<and> log_area s \<and> lh_n (lh s) < int NBUF \<and> dirty_blocks s = set (logged s) \<and>
     sint (get32 (disk s ! lstart s) 0) = 0"

lemma log_ok_tx: "log_ok s = tx_ok Map.empty s"
  by (simp add: log_ok_def tx_ok_def)

definition log_frame :: "'a klog_scheme \<Rightarrow> 'a klog_scheme \<Rightarrow> bool" where
  "log_frame s s' \<longleftrightarrow> bio_frame (s\<lparr>lh := lh s'\<rparr>) s'"

lemma bio_frame_lh: "bio_frame s t \<Longrightarrow> bio_frame (s\<lparr>lh := h\<rparr>) (t\<lparr>lh := h\<rparr>)"
proof -
  assume f: "bio_frame s t"
  then obtain pt sl c d w where t: "t = s\<lparr>ptable := pt, sleeplocks := sl, bcache := c, disk := d, disk_writes := w\<rparr>"
    unfolding bio_frame_def by blast
  with f show ?thesis by (simp add: bio_frame_def)
qed

lemma bio_frame_committing: "bio_frame s t \<Longrightarrow> bio_frame (s\<lparr>log_committing := c\<rparr>) (t\<lparr>log_committing := c\<rparr>)"
proof -
  assume f: "bio_frame s t"
  then obtain pt sl b d w where t: "t = s\<lparr>ptable := pt, sleeplocks := sl, bcache := b, disk := d, disk_writes := w\<rparr>"
    unfolding bio_frame_def by blast
  with f show ?thesis by (simp add: bio_frame_def)
qed

lemma bio_frame_wakeup: "bio_frame s (wakeup1 ch s)"
  using procs_same_wakeup [of s ch] by (simp add: bio_frame_def) (simp add: wakeup1_def)

lemma log_frame_bio: "bio_frame s t \<Longrightarrow> log_frame s t"
  using klog_frame(1) [of s t] by (simp add: log_frame_def)

lemma log_frame_refl [simp]: "log_frame s s"
  by (simp add: log_frame_def)

lemma log_frame_trans: "log_frame s t \<Longrightarrow> log_frame t u \<Longrightarrow> log_frame s u"
  using bio_frame_lh [of "s\<lparr>lh := lh t\<rparr>" t "lh u"] bio_frame_trans by (fastforce simp: log_frame_def)

lemma log_frameD:
  assumes "log_frame s t"
  shows "log_start t = log_start s" "log_size t = log_size s" "log_dev t = log_dev s" "log_outstanding t = log_outstanding s"
    "log_committing t = log_committing s" "klog.more t = klog.more s" "in_log t = in_log s"
  using klog_frame [OF assms [unfolded log_frame_def]] by (simp_all add: in_log_def fun_eq_iff)

lemma tx_bread:
  assumes ok: "tx_ok H s" and n: "unat n < disksize s" "n \<notin> ran H" "n \<in> set (logged s) \<or> card (dom H) + length (logged s) < NBUF"
  shows "\<exists>i s'. bread 1 n s = Inr (i, s') \<and> H i = None \<and> tx_ok (H(i \<mapsto> n)) s' \<and> blk s' = blk s \<and> bdata (bufat s' i) = blk s n \<and>
    logged s' = logged s \<and> bio_frame s s' \<and> disk s' = disk s"
proof -
  have b: "bio_ok H s" and d: "dirty_blocks s = set (logged s)" using ok by (simp_all add: tx_ok_def)
  have "n \<in> dirty_blocks s \<or> card (dom H) + card (dirty_blocks s) < NBUF"
    using n(3) card_length [of "logged s"] unfolding d by auto
  then obtain i s' where r: "bread 1 n s = Inr (i, s')" "H i = None" "bio_ok (H(i \<mapsto> n)) s'" "bio_keeps s s'"
    using bread_ok [OF b n(1,2)] by blast
  have k: "blk s' = blk s" "disk s' = disk s" "dirty_blocks s' = dirty_blocks s" "bio_frame s s'" using r(4) by (simp_all add: bio_keeps_def)
  have "tx_ok (H(i \<mapsto> n)) s'"
    using ok r(3) k klog_frame [OF k(4)] log_area_frame [OF k(4)] by (simp add: tx_ok_def)
  moreover have "bdata (bufat s' i) = blk s n" using held_data(1) [OF r(3), of i n] k(1) by simp
  ultimately show ?thesis using r k klog_frame(8) [OF k(4)] by blast
qed

lemma tx_brelse:
  assumes ok: "tx_ok H s" and i: "H i = Some n"
  shows "\<exists>s'. brelse i s = Inr s' \<and> tx_ok (H(i := None)) s' \<and> blk s' = blk s \<and> logged s' = logged s \<and> bio_frame s s' \<and> disk s' = disk s"
proof -
  have b: "bio_ok H s" using ok by (simp add: tx_ok_def)
  note r = brelse_ok [OF b i]
  have k: "blk (released i s) = blk s" "disk (released i s) = disk s" "dirty_blocks (released i s) = dirty_blocks s" "bio_frame s (released i s)"
    using r(3) by (simp_all add: bio_keeps_def)
  have "tx_ok (H(i := None)) (released i s)"
    using ok r(2) k klog_frame [OF k(4)] log_area_frame [OF k(4)] by (simp add: tx_ok_def)
  then show ?thesis using r(1) k klog_frame(8) [OF k(4)] by blast
qed

text \<open>\<open>log_write\<close> of changed data: the block is recorded once, and pinned in the cache.\<close>

lemma log_write_ok:
  fixes s :: "'a klog_scheme"
  assumes ok: "tx_ok H s" and i: "H i = Some n" and x: "length x = 512" and n: "\<not> in_log s (unat n)"
    and room: "length (logged s) < 29" "int (length (logged s)) < log_size s - 1" "log_outstanding s \<ge> 1"
  shows "\<exists>s'. log_write i (set_bdata i x s) = Inr s' \<and> tx_ok H s' \<and> blk s' = (blk s)(n := x) \<and>
    logged s' = (if n \<in> set (logged s) then logged s else logged s @ [n]) \<and> log_frame s s' \<and> disk s' = disk s"
proof -
  have b: "bio_ok H s" and a: "log_area s" and d: "dirty_blocks s = set (logged s)" using ok by (simp_all add: tx_ok_def)
  note h = held_data [OF b i]
  let ?n = "nat (lh_n (lh s))" let ?bs = "lh_block (lh s)"
  have len: "length (logged s) = ?n" "0 \<le> lh_n (lh s)" "length ?bs = LOGSIZE" using length_logged [OF a] a by (simp_all add: log_area_def)
  define j where "j = (case first_index (\<lambda>y. y = n) (logged s) of None \<Rightarrow> ?n | Some j \<Rightarrow> j)"
  define hh where "hh = (lh s)\<lparr>lh_block := ?bs[j := n], lh_n := (if int j = lh_n (lh s) then lh_n (lh s) + 1 else lh_n (lh s))\<rparr>"
  let ?m = "upd_buf i (\<lambda>b. b\<lparr>bflags := bflags b OR B_DIRTY\<rparr>) (set_bdata i x s)"
  let ?s = "?m\<lparr>lh := hh\<rparr>"
  note m = mark_dirty_ok [OF b i x]
  have bn: "blockno (bufat (set_bdata i x s) i) = n" using h bio_okD(1) [OF b] by (simp add: set_bdata_def upd_buf_nth)
  have sb: "lh (set_bdata i x s) = lh s" "held (set_bdata i x s) = {}" "log_size (set_bdata i x s) = log_size s"
    "log_outstanding (set_bdata i x s) = log_outstanding s"
    using bio_okD(3) [OF b] by (simp_all add: set_bdata_def upd_buf_def)
  have e: "log_write i (set_bdata i x s) = Inr ?s"
    using room len ok bn sb bio_okD(3) [OF b]
    by (simp add: log_write_def acquire_lock_def release_lock_def Let_def tx_ok_def LOGSIZE_def upd_buf_def hh_def j_def logged_def set_bdata_def)
  have c: "bio_ok H ?s" "blk ?s = (blk s)(n := x)" "dirty_blocks ?s = insert n (dirty_blocks s)"
    using bio_cong [of ?s ?m] m by simp_all
  have lg: "logged ?s = (if n \<in> set (logged s) then logged s else logged s @ [n])"
  proof (cases "n \<in> set (logged s)")
    case True
    then obtain k where k: "first_index (\<lambda>y. y = n) (logged s) = Some k"
      using first_index_ex [of n "logged s" "\<lambda>y. y = n"] by auto
    then have kl: "k < ?n" "logged s ! k = n" using first_index_SomeD [OF k] len by auto
    have jk: "j = k" "int k \<noteq> lh_n (lh s)" using k kl(1) by (simp_all add: j_def)
    have "?bs ! k = n" using kl by (simp add: logged_def)
    then have "?bs[k := n] = ?bs" by (metis list_update_id)
    then have "logged ?s = logged s" using jk by (simp add: hh_def logged_def)
    then show ?thesis using True by simp
  next
    case False
    then have "first_index (\<lambda>y. y = n) (logged s) = None" by auto
    then have "j = ?n" unfolding j_def by (simp only: option.case)
    moreover have "take (Suc ?n) (?bs[?n := n]) = take ?n ?bs @ [n]"
      using room(1) len by (simp add: take_Suc_conv_app_nth LOGSIZE_def)
    ultimately show ?thesis using False len by (simp add: hh_def logged_def nat_add_distrib)
  qed
  have ln: "lh_n hh = int (length (logged ?s))" "length (lh_block hh) = LOGSIZE"
  proof -
    have "nat (lh_n hh) \<le> LOGSIZE" "0 \<le> lh_n hh" using room(1) len by (auto simp: hh_def LOGSIZE_def)
    then show "lh_n hh = int (length (logged ?s))" "length (lh_block hh) = LOGSIZE" using len by (auto simp: logged_def hh_def)
  qed
  have la: "length (logged ?s) \<le> Suc (length (logged s))" "distinct (logged ?s)" "set (logged ?s) = insert n (set (logged s))"
    using a unfolding lg by (auto simp: log_area_def)
  have ds: "disksize ?s = disksize s" "in_log ?s = in_log s" by (simp_all add: disksize_def in_log_def set_bdata_def upd_buf_def fun_eq_iff)
  have f: "log_start ?s = log_start s" "log_size ?s = log_size s" "log_dev ?s = log_dev s" "log_outstanding ?s = log_outstanding s"
    "log_committing ?s = log_committing s" "disk ?s = disk s" by (simp_all add: set_bdata_def upd_buf_def)
  have "log_area ?s" using a ln la room h(5) n unfolding log_area_def ds f by (simp add: LOGSIZE_def)
  moreover have "lh_n hh < int NBUF" using ln la(1) room(1) by (simp add: NBUF_def)
  ultimately have "tx_ok H ?s" using ok c la(3) d f by (simp add: tx_ok_def)
  moreover have "log_frame s ?s" using bio_frame_lh [OF m(4), of hh] by (simp add: log_frame_def)
  ultimately show ?thesis using e c(2) lg f(6) by blast
qed

text \<open>Opening and closing a transaction.\<close>

lemma begin_op_ok:
  assumes "log_ok s" "\<not> log_committing s" "log_outstanding s \<ge> 0" "lh_n (lh s) + (log_outstanding s + 1) * 10 \<le> 30"
  shows "begin_op s = Inr (s\<lparr>log_outstanding := log_outstanding s + 1\<rparr>)" "tx_ok Map.empty (s\<lparr>log_outstanding := log_outstanding s + 1\<rparr>)"
proof -
  let ?s = "s\<lparr>log_outstanding := log_outstanding s + 1\<rparr>"
  have b: "bio_ok Map.empty s" using assms(1) by (simp add: log_ok_def)
  show "begin_op s = Inr ?s"
    using assms(2,4) bio_okD(3) [OF b]
    by (simp add: begin_op_def begin_op_begin_def begin_op_loop_def acquire_lock_def release_lock_def MAXOPBLOCKS_def LOGSIZE_def)
  show "tx_ok Map.empty ?s"
    using assms bio_cong [of ?s s] b by (simp add: log_ok_def tx_ok_def log_area_def logged_def disksize_def in_log_def)
qed

text \<open>After a commit the log is empty and the home blocks hold what the kernel saw.\<close>

lemma commit_log_ok:
  fixes s :: "'a klog_scheme"
  assumes ok: "log_ok s"
  shows "\<exists>s' ws. commit s = Inr s' \<and> log_ok s' \<and> logged s' = [] \<and> disk_writes s' = disk_writes s @ ws \<and> disk s' = apply_writes ws (disk s) \<and>
    log_frame s s' \<and> (\<forall>k. crash_ok s (apply_writes (take k ws) (disk s))) \<and>
    (\<forall>b. \<not> in_log s (unat b) \<longrightarrow> blk s' b = blk s b) \<and>
    (\<forall>b < disksize s. \<not> in_log s b \<longrightarrow> disk s' ! b = blk s (of_nat b))"
proof (cases "lh_n (lh s) > 0")
  case False
  have a: "log_area s" and b: "bio_ok Map.empty s" using ok by (simp_all add: log_ok_def)
  then have "lh_n (lh s) = 0" using False by (simp add: log_area_def)
  then have l: "logged s = []" by (simp add: logged_def)
  have "commit s = Inr s" using False by (simp add: commit_def)
  moreover have "crash_ok s (disk s)" using crash_before [OF ok, of 0] by simp
  moreover have "disk s ! b = blk s (of_nat b)" if "b < disksize s" for b using blk_unlogged [OF ok that] l by simp
  ultimately show ?thesis using ok l by (intro exI [of _ s] exI [of _ "[]"]) simp
next
  case True
  obtain s' where s': "commit s = Inr s'" "bio_ok Map.empty s'" "bio_frame (clear_lh s) s'"
    "disk_writes s' = disk_writes s @ commit_writes s" "disk s' = apply_writes (commit_writes s) (disk s)" "dirty_blocks s' = {}"
    "\<forall>b. \<not> in_log s (unat b) \<longrightarrow> blk s' b = blk s b" using commit_ok [OF ok True] by blast
  note f = klog_frame [OF s'(3)]
  have a: "log_area s" and b: "bio_ok Map.empty s" using ok by (simp_all add: log_ok_def)
  have lh: "lh_n (lh s') = 0" "logged s' = []" using f by (simp_all add: clear_lh_def logged_def)
  have area: "log_area s'"
    using a f s'(5) lh by (simp add: log_area_def clear_lh_def disksize_def)
  have hz: "sint (get32 (disk s' ! lstart s') 0) = 0"
  proof -
    have "lstart s < length (disk s)" using a by (auto simp: log_area_def disksize_def)
    then show ?thesis using f head_of_commit(5) [OF ok] by (simp add: s'(5) clear_lh_def commit_writes_def Let_def)
  qed
  have "log_ok s'" using s'(2,6) area lh hz by (simp add: log_ok_def NBUF_def)
  moreover have "log_frame s s'"
  proof -
    have "clear_lh s = s\<lparr>lh := lh s'\<rparr>" using f(1) by (simp add: clear_lh_def)
    then show ?thesis using s'(3) by (simp add: log_frame_def)
  qed
  moreover have "disk s' ! p = blk s (of_nat p)" if p: "p < disksize s" "\<not> in_log s p" for p
  proof -
    have "blk s' (of_nat p) = disk s' ! p" using blk_clean [OF s'(2), of "of_nat p"] s'(6) block_num [OF b p(1)] by simp
    then show ?thesis using s'(7) p block_num [OF b p(1)] by simp
  qed
  ultimately show ?thesis using s' lh(2) crash_any [OF ok] by blast
qed

lemma end_op_ok:
  fixes s :: "'a klog_scheme"
  assumes ok: "tx_ok Map.empty s" and one: "log_outstanding s = 1" "\<not> log_committing s"
  shows "\<exists>s'. end_op s = Inr s' \<and> log_ok s' \<and> logged s' = [] \<and> log_outstanding s' = 0 \<and> \<not> log_committing s' \<and> disksize s' = disksize s \<and>
    log_frame (s\<lparr>log_outstanding := 0\<rparr>) s' \<and> (\<forall>b. \<not> in_log s (unat b) \<longrightarrow> blk s' b = blk s b) \<and>
    (\<forall>b < disksize s. \<not> in_log s b \<longrightarrow> disk s' ! b = blk s (of_nat b))"
proof -
  let ?s = "s\<lparr>log_outstanding := 0, log_committing := True\<rparr>"
  have b: "bio_ok Map.empty s" using ok by (simp add: tx_ok_def)
  have c: "bio_ok Map.empty ?s" "blk ?s = blk s" "dirty_blocks ?s = dirty_blocks s" using bio_cong [of ?s s] b by simp_all
  have "log_ok ?s" using ok c by (simp add: log_ok_def tx_ok_def log_area_def logged_def disksize_def in_log_def)
  from commit_log_ok [OF this] obtain s1 where s1: "commit ?s = Inr s1" "log_ok s1" "logged s1 = []" "log_frame ?s s1"
    "\<forall>b. \<not> in_log s (unat b) \<longrightarrow> blk s1 b = blk s b" "\<forall>b < disksize s. \<not> in_log s b \<longrightarrow> disk s1 ! b = blk s (of_nat b)"
    "disksize s1 = disksize s" using c(2) by (auto simp: in_log_def disksize_def)
  have b1: "bio_ok Map.empty s1" using s1(2) by (simp add: log_ok_def)
  have h: "held s = {}" "held s1 = {}" using bio_okD(3) [OF b] bio_okD(3) [OF b1] by simp_all
  let ?t = "wakeup1 LogChan (s1\<lparr>log_committing := False\<rparr>)"
  have "?s\<lparr>held := held s\<rparr> = ?s" "s1\<lparr>held := held s1\<rparr> = s1" by simp_all
  then have he: "?s\<lparr>held := {}\<rparr> = ?s" "s1\<lparr>held := {}\<rparr> = s1" by (simp_all only: h)
  have "commit (?s\<lparr>held := {}\<rparr>) = Inr s1" by (simp only: he s1(1))
  then have e: "end_op s = Inr ?t"
    using ok one h
    by (simp add: end_op_def acquire_lock_def release_lock_def Let_def tx_ok_def wakeup_ok) (simp add: wakeup1_def)
  have tp: "procs_same (ptable s1) (ptable ?t)" using procs_same_wakeup [of s1 LogChan] by (simp add: wakeup1_def)
  have sel: "bcache ?t = bcache s1" "sleeplocks ?t = sleeplocks s1" "held ?t = {}" "curproc ?t = curproc s1" "disk ?t = disk s1"
    "lh ?t = lh s1" "log_start ?t = log_start s1" "log_size ?t = log_size s1" "log_dev ?t = log_dev s1" "\<not> log_committing ?t"
    "log_outstanding ?t = log_outstanding s1" "disk_writes ?t = disk_writes s1" using h by (simp_all add: wakeup1_def)
  have bt: "bio_ok Map.empty ?t"
  proof -
    have "bio_ok Map.empty (s1\<lparr>ptable := ptable ?t\<rparr>)"
      using b1 tp by (rule bio_ok_procs)
    then show ?thesis using bio_cong(1) [of ?t "s1\<lparr>ptable := ptable ?t\<rparr>"] sel h by simp
  qed
  have blkt: "blk ?t = blk s1" "dirty_blocks ?t = dirty_blocks s1" using sel by (simp_all add: blk_def dirty_blocks_def fun_eq_iff cong: option.case_cong)
  have lt: "logged ?t = []" "in_log ?t = in_log s1" "disksize ?t = disksize s1" using s1(3) sel by (simp_all add: logged_def in_log_def disksize_def fun_eq_iff)
  have "log_ok ?t" using s1(2,3) bt blkt lt sel unfolding log_ok_def log_area_def by simp
  moreover have "log_outstanding ?t = 0" using log_frameD(4) [OF s1(4)] sel by simp
  moreover have "log_frame (s\<lparr>log_outstanding := 0\<rparr>) ?t"
  proof -
    have "?s\<lparr>log_committing := log_committing s\<rparr> = s\<lparr>log_outstanding := 0\<rparr>" by simp
    moreover have "\<not> log_committing s" by (rule one(2))
    ultimately have sc: "?s\<lparr>log_committing := False\<rparr> = s\<lparr>log_outstanding := 0\<rparr>" by simp
    have "bio_frame ((?s\<lparr>lh := lh s1\<rparr>)\<lparr>log_committing := False\<rparr>) (s1\<lparr>log_committing := False\<rparr>)"
      using s1(4) unfolding log_frame_def by (rule bio_frame_committing)
    moreover have "(?s\<lparr>lh := lh s1\<rparr>)\<lparr>log_committing := False\<rparr> = (?s\<lparr>log_committing := False\<rparr>)\<lparr>lh := lh s1\<rparr>" by simp
    ultimately have "bio_frame ((s\<lparr>log_outstanding := 0\<rparr>)\<lparr>lh := lh s1\<rparr>) (s1\<lparr>log_committing := False\<rparr>)" by (simp only: sc)
    moreover have "bio_frame (s1\<lparr>log_committing := False\<rparr>) ?t" by (rule bio_frame_wakeup)
    ultimately show ?thesis using bio_frame_trans sel(6) unfolding log_frame_def by metis
  qed
  ultimately show ?thesis using e lt(1,3) sel blkt s1(5-7) by (intro exI [of _ ?t]) simp
qed

section \<open>Properties\<close>

text \<open>The kernel after a reboot with a given disk: an empty cache, and the log located by the superblock.\<close>

definition rebooted :: "'a klog_scheme \<Rightarrow> uchar list list \<Rightarrow> 'b klog_scheme \<Rightarrow> bool" where
  "rebooted s d r \<longleftrightarrow> disk r = d \<and> bio_ok Map.empty r \<and> dirty_blocks r = {} \<and> log_dev r = 1 \<and> log_start r = log_start s \<and>
     log_size r = log_size s \<and> length (lh_block (lh r)) = LOGSIZE"

lemma rebooted_boot:
  assumes "log_area s \<or> boot_ok s" "head_ok s d" "length d = disksize s" "rebooted s d r"
  shows "boot_ok r" "in_log r = in_log s" "disksize r = disksize s"
proof -
  show i: "in_log r = in_log s" using assms(4) by (simp add: rebooted_def in_log_def fun_eq_iff)
  show "disksize r = disksize s" using assms(3,4) by (simp add: rebooted_def disksize_def)
  have "head_ok r d" using assms(2,4) i by (simp add: head_ok_def rebooted_def)
  then show "boot_ok r" using assms i by (auto simp: boot_ok_def rebooted_def log_area_def disksize_def)
qed

text \<open>
  C3. A commit survives a crash at any moment: from a state with any recorded transaction \<open>commit\<close>
  returns with every block outside the log on the disk as the kernel saw it; and if the machine stops
  after any number of the disk writes of the commit, recovery at the next boot succeeds and leaves
  either all blocks as they were on the disk before the commit or all blocks as the transaction made
  them.
\<close>

theorem commit_is_crash_safe:
  fixes s :: "'a klog_scheme"
  assumes "log_ok s"
  shows "\<exists>s' ws. commit s = Inr s' \<and> disk_writes s' = disk_writes s @ ws \<and> log_ok s' \<and>
    (\<forall>b < disksize s. \<not> in_log s b \<longrightarrow> disk s' ! b = blk s (of_nat b)) \<and>
    (\<forall>k (r :: 'a klog_scheme). rebooted s (apply_writes (take k ws) (disk s)) r \<longrightarrow>
      (\<exists>r'. recover_from_log r = Inr r' \<and>
        ((\<forall>b < disksize s. \<not> in_log s b \<longrightarrow> disk r' ! b = disk s ! b) \<or>
         (\<forall>b < disksize s. \<not> in_log s b \<longrightarrow> disk r' ! b = blk s (of_nat b)))))"
proof -
  have a: "log_area s" using assms by (simp add: log_ok_def)
  obtain s' ws where c: "commit s = Inr s'" "log_ok s'" "disk_writes s' = disk_writes s @ ws"
    "\<forall>k. crash_ok s (apply_writes (take k ws) (disk s))" "\<forall>b < disksize s. \<not> in_log s b \<longrightarrow> disk s' ! b = blk s (of_nat b)"
    using commit_log_ok [OF assms] by blast
  have "\<exists>r'. recover_from_log r = Inr r' \<and>
        ((\<forall>b < disksize s. \<not> in_log s b \<longrightarrow> disk r' ! b = disk s ! b) \<or>
         (\<forall>b < disksize s. \<not> in_log s b \<longrightarrow> disk r' ! b = blk s (of_nat b)))"
    if r: "rebooted s (apply_writes (take k ws) (disk s)) r" for k and r :: "'a klog_scheme"
  proof -
    let ?d = "apply_writes (take k ws) (disk s)"
    have co: "crash_ok s ?d" using c(4) by blast
    then have "head_ok s ?d" by (simp add: crash_ok_def)
    note b = rebooted_boot [OF disjI1 [OF a] this _ r]
    have bo: "boot_ok r" "in_log r = in_log s" "disksize r = disksize s" using b by (simp_all add: disksize_def)
    obtain r' where r': "recover_from_log r = Inr r'" "disk r' = apply_writes (recover_writes r) (disk r)" using recover_ok [OF bo(1)] by blast
    have "disk r' ! p = recovered (lstart s) ?d p" if "p < disksize s" "\<not> in_log s p" for p
      using recover_prefix(3) [OF bo(1), of "length (recover_writes r)" p] that bo r r'(2) by (simp add: rebooted_def)
    then show ?thesis using r'(1) co by (auto simp: crash_ok_def)
  qed
  with c show ?thesis by blast
qed

text \<open>
  C4. Recovery can be interrupted and repeated: from any disk whose log header is well formed
  \<open>recover_from_log\<close> returns with the logged copies installed and the log empty; and if the machine
  stops after any number of its disk writes, recovering again leaves the same blocks.
\<close>

theorem recovery_is_restartable:
  fixes s :: "'a klog_scheme"
  assumes "boot_ok s"
  shows "\<exists>s' ws. recover_from_log s = Inr s' \<and> disk_writes s' = disk_writes s @ ws \<and> log_ok s' \<and> logged s' = [] \<and>
    (\<forall>b < disksize s. \<not> in_log s b \<longrightarrow> disk s' ! b = recovered (lstart s) (disk s) b) \<and>
    (\<forall>k (r :: 'a klog_scheme). rebooted s (apply_writes (take k ws) (disk s)) r \<longrightarrow>
      (\<exists>r'. recover_from_log r = Inr r' \<and> (\<forall>b < disksize s. \<not> in_log s b \<longrightarrow> disk r' ! b = disk s' ! b)))"
proof -
  obtain s' where s': "recover_from_log s = Inr s'" "log_ok s'" "logged s' = []" "disk_writes s' = disk_writes s @ recover_writes s"
    "disk s' = apply_writes (recover_writes s) (disk s)" using recover_ok [OF assms] by blast
  have final: "disk s' ! b = recovered (lstart s) (disk s) b" if "b < disksize s" "\<not> in_log s b" for b
    using recover_prefix(3) [OF assms, of "length (recover_writes s)" b] that s'(5) by simp
  have "\<exists>r'. recover_from_log r = Inr r' \<and> (\<forall>b < disksize s. \<not> in_log s b \<longrightarrow> disk r' ! b = disk s' ! b)"
    if r: "rebooted s (apply_writes (take k (recover_writes s)) (disk s)) r" for k and r :: "'a klog_scheme"
  proof -
    note p = recover_prefix [OF assms, where k = k]
    note b = rebooted_boot [OF disjI2 [OF assms] p(1) _ r]
    have bo: "boot_ok r" "in_log r = in_log s" "disksize r = disksize s" using b by (simp_all add: disksize_def)
    obtain r' where r': "recover_from_log r = Inr r'" "disk r' = apply_writes (recover_writes r) (disk r)" using recover_ok [OF bo(1)] by blast
    have "disk r' ! q = disk s' ! q" if q: "q < disksize s" "\<not> in_log s q" for q
      using recover_prefix(3) [OF bo(1), of "length (recover_writes r)" q] q bo r r'(2) p(2) [OF q] final [OF q] by (simp add: rebooted_def)
    then show ?thesis using r'(1) by blast
  qed
  with s' final show ?thesis by blast
qed

definition log0 :: klog where
  "log0 = kbio.extend (binit bio00) \<lparr>log_start = 2, log_size = 30, log_outstanding = 0, log_committing = False, log_dev = 1,
     lh = \<lparr>lh_n = 0, lh_block = replicate 30 0\<rparr>\<rparr>"

lemma log0_sel: "disk log0 = replicate 100 zero_block" "log_start log0 = 2" "log_size log0 = 30" "lh log0 = \<lparr>lh_n = 0, lh_block = replicate 30 0\<rparr>"
  "log_dev log0 = 1" "log_outstanding log0 = 0" "\<not> log_committing log0" "bio_ok Map.empty log0" "dirty_blocks log0 = {}" "disksize log0 = 100"
proof -
  note b = binit_ok [OF bio00_pre]
  have d: "disk bio00 = replicate 100 zero_block" by (simp add: bio00_def ksleep.defs)
  then show k: "disk log0 = replicate 100 zero_block" using b(5) by (simp add: log0_def kbio.defs)
  show "log_start log0 = 2" "log_size log0 = 30" "lh log0 = \<lparr>lh_n = 0, lh_block = replicate 30 0\<rparr>" "log_dev log0 = 1"
    "log_outstanding log0 = 0" "\<not> log_committing log0" by (simp_all add: log0_def kbio.defs)
  show "bio_ok Map.empty log0" "dirty_blocks log0 = {}" using b(1,4) bio_cong [of log0 "binit bio00"] by (simp_all add: log0_def kbio.defs)
  show "disksize log0 = 100" by (simp add: disksize_def k)
qed

lemma zero_block_head: "get32 zero_block k = 0" if "k + 4 \<le> 512"
  using that by (simp add: zero_block_def get32_def)

lemma log0_ok: "log_ok log0" "boot_ok log0"
  using log0_sel by (simp_all add: log_ok_def log_area_def logged_def LOGSIZE_def NBUF_def zero_block_head boot_ok_def empty_head)

text \<open>A transaction that has changed one block.\<close>

lemma log1_ex: "\<exists>s :: klog. log_ok s \<and> logged s = [50] \<and> blk s 50 = replicate 512 1 \<and> disk s ! 50 = zero_block \<and> log_start s = 2 \<and> log_size s = 30"
proof -
  let ?s = "log0\<lparr>log_outstanding := 1\<rparr>"
  have t: "tx_ok Map.empty ?s" using begin_op_ok(2) [OF log0_ok(1)] log0_sel by simp
  have l: "logged ?s = []" "in_log ?s = in_log log0" using log0_sel by (simp_all add: logged_def in_log_def fun_eq_iff)
  have ds: "disksize ?s = 100" "disk ?s = disk log0" using log0_sel(10) by (simp_all add: disksize_def)
  have c: "unat (50 :: uint) < disksize ?s" "(50 :: uint) \<notin> ran Map.empty"
    "50 \<in> set (logged ?s) \<or> card (dom (Map.empty :: nat \<Rightarrow> uint option)) + length (logged ?s) < NBUF" by (simp_all add: ds l NBUF_def)
  obtain i s1 where s1: "tx_ok [i \<mapsto> 50] s1" "blk s1 = blk ?s" "logged s1 = []" "bio_frame ?s s1" "disk s1 = disk log0"
    using tx_bread [OF t c] l by auto
  note f1 = klog_frame [OF s1(4)]
  have "\<not> in_log s1 (unat (50 :: uint))" "int (length (logged s1)) < log_size s1 - 1" "log_outstanding s1 \<ge> 1"
    using f1 l(2) s1(3) log0_sel(2,3) by (simp_all add: in_log_def)
  then obtain s2 where s2: "tx_ok [i \<mapsto> 50] s2" "blk s2 = (blk s1)(50 := replicate 512 1)" "logged s2 = [50]" "log_frame s1 s2" "disk s2 = disk log0"
    using log_write_ok [OF s1(1), of i 50 "replicate 512 1"] s1(3,5) by auto
  obtain s3 where s3: "tx_ok Map.empty s3" "blk s3 = blk s2" "logged s3 = [50]" "bio_frame s2 s3" "disk s3 = disk log0"
    using tx_brelse [OF s2(1), of i 50] s2(3,5) by auto
  have "log_ok s3" using s3(1) by (simp add: tx_ok_def log_ok_def)
  moreover have "log_start s3 = 2" "log_size s3 = 30"
    using klog_frame(2,3) [OF s3(4)] log_frameD(1,2) [OF s2(4)] f1 log0_sel(2,3) by simp_all
  ultimately show ?thesis using s3 s2(2) log0_sel(1) by (intro exI [of _ s3]) simp
qed

theorem commit_is_crash_safe_witness:
  "\<exists>s s' :: klog. logged s = [50] \<and> commit s = Inr s' \<and> disk s ! 50 = zero_block \<and> disk s' ! 50 = replicate 512 1"
proof -
  obtain s :: klog where s: "log_ok s" "logged s = [50]" "blk s 50 = replicate 512 1" "disk s ! 50 = zero_block" "log_start s = 2" "log_size s = 30"
    using log1_ex by blast
  have "log_area s" using s(1) by (simp add: log_ok_def)
  then have "50 < disksize s" "\<not> in_log s 50" using s(2,5,6) by (simp_all add: log_area_def)
  with commit_is_crash_safe [OF s(1)] s show ?thesis by auto
qed

theorem recovery_is_restartable_witness:
  "\<exists>s'. recover_from_log log0 = Inr s' \<and> log_ok s' \<and> logged s' = [] \<and> disk s' ! 50 = recovered 2 (disk log0) 50"
  using recovery_is_restartable [OF log0_ok(2)] log0_sel by (auto simp: in_log_def)

end
