(* ===== verification/Inode.thy ===== *)
theory Inode
  imports Log
begin

text \<open>
  The block and inode layers of \<^verbatim>\<open>fs.c\<close> (with \<^verbatim>\<open>fs.h\<close> and \<^verbatim>\<open>struct inode\<close> of \<^verbatim>\<open>file.h\<close>): the free map,
  the inodes on disk and their cache, and reading and writing a file's contents. A pointer to a cached
  inode is its index in the table. A buffer that the caller passes is the list of bytes that go into or
  come out of it. The lemmas show what each operation does to the array of blocks inside a
  transaction, down to the contents of files.
\<close>

section \<open>State\<close>

definition T_DIR :: ushort where "T_DIR = 1"
definition T_FILE :: ushort where "T_FILE = 2"
definition T_DEV :: ushort where "T_DEV = 3"
definition CONSOLE :: int where "CONSOLE = 1"
definition NDEV :: int where "NDEV = 10"
definition NINODE :: nat where "NINODE = 50"
definition ROOTDEV :: uint where "ROOTDEV = 1"
definition ROOTINO :: uint where "ROOTINO = 1"
definition IPB :: nat where "IPB = 8"
definition BPB :: nat where "BPB = 4096"

text \<open>An inode as the disk has it, and in the cache. The 16-bit fields are signed in the code.\<close>

record dinode =
  itype :: ushort
  major :: ushort
  minor :: ushort
  nlink :: ushort
  isize :: uint
  addrs :: "uint list"

record inode =
  i_dev :: uint
  inum :: uint
  iref :: int
  ivalid :: bool
  idata :: dinode

record kfs = klog +
  icache :: "inode list"
  sb :: superblock

record stat =
  st_type :: ushort
  st_dev :: uint
  st_ino :: uint
  st_nlink :: ushort
  st_size :: uint

abbreviation inode_at :: "'a kfs_scheme \<Rightarrow> nat \<Rightarrow> inode" where "inode_at s i \<equiv> icache s ! i"
abbreviation din :: "'a kfs_scheme \<Rightarrow> nat \<Rightarrow> dinode" where "din s i \<equiv> idata (icache s ! i)"

definition upd_inode :: "nat \<Rightarrow> (inode \<Rightarrow> inode) \<Rightarrow> 'a kfs_scheme \<Rightarrow> 'a kfs_scheme" where
  "upd_inode i f s = s\<lparr>icache := (icache s)[i := f (icache s ! i)]\<rparr>"

abbreviation upd_din :: "nat \<Rightarrow> (dinode \<Rightarrow> dinode) \<Rightarrow> 'a kfs_scheme \<Rightarrow> 'a kfs_scheme" where
  "upd_din i f \<equiv> upd_inode i (\<lambda>x. x\<lparr>idata := f (idata x)\<rparr>)"

definition IBLOCK :: "uint \<Rightarrow> superblock \<Rightarrow> uint" where
  "IBLOCK i b = i div of_nat IPB + sb_inodestart b"

definition BBLOCK :: "uint \<Rightarrow> superblock \<Rightarrow> uint" where
  "BBLOCK n b = n div of_nat BPB + sb_bmapstart b"

section \<open>Blocks\<close>

definition bzero :: "uint \<Rightarrow> uint \<Rightarrow> 'a klog_scheme \<Rightarrow> 'a klog_scheme kres" where
  "bzero dev bno s =
     kbind (bread dev bno s) (\<lambda>(bp, s1).
       kbind (log_write bp (set_bdata bp (replicate BSIZE 0) s1)) (brelse bp))"

text \<open>
  One byte of the free map with a bit set or cleared; \<open>balloc\<close> looks for the first clear bit of a map
  block that stands for a block of the file system.
\<close>

definition map_set :: "nat \<Rightarrow> uchar list \<Rightarrow> uchar list" where
  "map_set bi d = d[bi div 8 := (d ! (bi div 8)) OR push_bit (bi mod 8) 1]"

definition map_clear :: "nat \<Rightarrow> uchar list \<Rightarrow> uchar list" where
  "map_clear bi d = d[bi div 8 := (d ! (bi div 8)) AND NOT (push_bit (bi mod 8) 1)]"

definition map_free :: "nat \<Rightarrow> uchar list \<Rightarrow> bool" where
  "map_free bi d \<longleftrightarrow> (d ! (bi div 8)) AND push_bit (bi mod 8) 1 = 0"

function balloc_loop :: "uint \<Rightarrow> nat \<Rightarrow> nat \<Rightarrow> 'a kfs_scheme \<Rightarrow> (uint \<times> 'a kfs_scheme) kres" where
  "balloc_loop dev n b s =
     (if b < n then
        kbind (bread dev (BBLOCK (of_nat b) (sb s)) s) (\<lambda>(bp, s1).
          case first_index (\<lambda>bi. map_free bi (bdata (bufat s1 bp))) [0..<min BPB (n - b)] of
            Some bi \<Rightarrow>
              kbind (log_write bp (set_bdata bp (map_set bi (bdata (bufat s1 bp))) s1)) (\<lambda>s2.
                kbind (brelse bp s2) (\<lambda>s3.
                  kbind (bzero dev (of_nat (b + bi)) s3) (\<lambda>s4. Inr (of_nat (b + bi), s4))))
          | None \<Rightarrow> kbind (brelse bp s1) (\<lambda>s2. balloc_loop dev n (b + BPB) s2))
      else Inl (Panic ''balloc: out of blocks''))"
  by pat_completeness auto
termination by (relation "measure (\<lambda>(_, n, b, _). n - b)") (auto simp: BPB_def)

definition balloc :: "uint \<Rightarrow> 'a kfs_scheme \<Rightarrow> (uint \<times> 'a kfs_scheme) kres" where
  "balloc dev s = balloc_loop dev (unat (sb_size (sb s))) 0 s"

definition bfree :: "uint \<Rightarrow> uint \<Rightarrow> 'a kfs_scheme \<Rightarrow> 'a kfs_scheme kres" where
  "bfree dev b s0 =
     kbind (readsb dev s0) (\<lambda>(x, s00). let s = s00\<lparr>sb := x\<rparr> in
       kbind (bread dev (BBLOCK b (sb s)) s) (\<lambda>(bp, s1).
         let bi = unat b mod BPB; d = bdata (bufat s1 bp)
         in if map_free bi d then Inl (Panic ''freeing free block'')
            else kbind (log_write bp (set_bdata bp (map_clear bi d) s1)) (brelse bp)))"

section \<open>Inodes\<close>

text \<open>The fields of the disk inode at offset \<open>k\<close> of a block.\<close>

definition get_dinode :: "uchar list \<Rightarrow> nat \<Rightarrow> dinode" where
  "get_dinode d k = \<lparr>itype = get16 d k, major = get16 d (k + 2), minor = get16 d (k + 4), nlink = get16 d (k + 6),
     isize = get32 d (k + 8), addrs = get_words d (k + 12) (NDIRECT + 1)\<rparr>"

definition put_dinode :: "uchar list \<Rightarrow> nat \<Rightarrow> dinode \<Rightarrow> uchar list" where
  "put_dinode d k i =
     put_words (put32 (put16 (put16 (put16 (put16 d k (itype i)) (k + 2) (major i)) (k + 4) (minor i)) (k + 6) (nlink i))
       (k + 8) (isize i)) (k + 12) (addrs i)"

definition dip_off :: "uint \<Rightarrow> nat" where
  "dip_off n = 64 * (unat n mod IPB)"

definition sb_format :: "uchar list" where
  "sb_format = map (of_nat \<circ> of_char)
     ''sb: size %d nblocks %d ninodes %d nlog %d logstart %d inodestart %d bmap start %d\<newline>''"

fun iinit_loop :: "nat list \<Rightarrow> 'a kfs_scheme \<Rightarrow> 'a kfs_scheme" where
  "iinit_loop [] s = s"
| "iinit_loop (i # is) s = iinit_loop is (initsleeplock (InodeLock i) s)"

definition iinit :: "uint \<Rightarrow> 'a kfs_scheme \<Rightarrow> 'a kfs_scheme kres" where
  "iinit dev s =
     kbind (readsb dev (iinit_loop [0..<NINODE] s)) (\<lambda>(x, s1).
       cprintf (Some sb_format) [sb_size x, sb_nblocks x, sb_ninodes x, sb_nlog x, sb_logstart x, sb_inodestart x, sb_bmapstart x]
         (s1\<lparr>sb := x\<rparr>))"

definition iget :: "uint \<Rightarrow> uint \<Rightarrow> 'a kfs_scheme \<Rightarrow> (nat \<times> 'a kfs_scheme) kres" where
  "iget dev n s =
     kbind (acquire_lock IcacheLock s) (\<lambda>s1.
       case first_index (\<lambda>x. iref x > 0 \<and> i_dev x = dev \<and> inum x = n) (icache s1) of
         Some i \<Rightarrow> kbind (release_lock IcacheLock (upd_inode i (\<lambda>x. x\<lparr>iref := iref x + 1\<rparr>) s1)) (\<lambda>s2. Inr (i, s2))
       | None \<Rightarrow>
           (case first_index (\<lambda>x. iref x = 0) (icache s1) of
              None \<Rightarrow> Inl (Panic ''iget: no inodes'')
            | Some i \<Rightarrow>
                kbind (release_lock IcacheLock (upd_inode i (\<lambda>x. x\<lparr>i_dev := dev, inum := n, iref := 1, ivalid := False\<rparr>) s1))
                  (\<lambda>s2. Inr (i, s2))))"

function ialloc_loop :: "uint \<Rightarrow> ushort \<Rightarrow> nat \<Rightarrow> nat \<Rightarrow> 'a kfs_scheme \<Rightarrow> (nat \<times> 'a kfs_scheme) kres" where
  "ialloc_loop dev type n i s =
     (if i < n then
        kbind (bread dev (IBLOCK (of_nat i) (sb s)) s) (\<lambda>(bp, s1).
          let k = dip_off (of_nat i); d = bdata (bufat s1 bp)
          in if get16 d k = 0 then
               kbind (log_write bp (set_bdata bp (put16 (put_bytes d k (replicate 64 0)) k type) s1)) (\<lambda>s2.
                 kbind (brelse bp s2) (iget dev (of_nat i)))
             else kbind (brelse bp s1) (\<lambda>s2. ialloc_loop dev type n (i + 1) s2))
      else Inl (Panic ''ialloc: no inodes''))"
  by pat_completeness auto
termination by (relation "measure (\<lambda>(_, _, n, i, _). n - i)") auto

definition ialloc :: "uint \<Rightarrow> ushort \<Rightarrow> 'a kfs_scheme \<Rightarrow> (nat \<times> 'a kfs_scheme) kres" where
  "ialloc dev type s = ialloc_loop dev type (unat (sb_ninodes (sb s))) 1 s"

definition iupdate :: "nat \<Rightarrow> 'a kfs_scheme \<Rightarrow> 'a kfs_scheme kres" where
  "iupdate ip s =
     kbind (bread (i_dev (inode_at s ip)) (IBLOCK (inum (inode_at s ip)) (sb s)) s) (\<lambda>(bp, s1).
       kbind (log_write bp (set_bdata bp
           (put_dinode (bdata (bufat s1 bp)) (dip_off (inum (inode_at s1 ip))) (din s1 ip)) s1))
         (brelse bp))"

definition idup :: "nat \<Rightarrow> 'a kfs_scheme \<Rightarrow> (nat \<times> 'a kfs_scheme) kres" where
  "idup ip s =
     kbind (acquire_lock IcacheLock s) (\<lambda>s1.
       kbind (release_lock IcacheLock (upd_inode ip (\<lambda>x. x\<lparr>iref := iref x + 1\<rparr>) s1)) (\<lambda>s2. Inr (ip, s2)))"

definition ilock :: "nat \<Rightarrow> 'a kfs_scheme \<Rightarrow> 'a kfs_scheme kres" where
  "ilock ip s =
     (if iref (inode_at s ip) < 1 then Inl (Panic ''ilock'')
      else kbind (acquiresleep (InodeLock ip) s) (\<lambda>s1.
        if ivalid (inode_at s1 ip) then Inr s1
        else kbind (bread (i_dev (inode_at s1 ip)) (IBLOCK (inum (inode_at s1 ip)) (sb s1)) s1) (\<lambda>(bp, s2).
          let s3 = upd_din ip (\<lambda>_. get_dinode (bdata (bufat s2 bp)) (dip_off (inum (inode_at s2 ip)))) s2
          in kbind (brelse bp s3) (\<lambda>s4.
               let s5 = upd_inode ip (\<lambda>x. x\<lparr>ivalid := True\<rparr>) s4
               in if itype (din s5 ip) = 0 then Inl (Panic ''ilock: no type'') else Inr s5))))"

definition iunlock :: "nat \<Rightarrow> 'a kfs_scheme \<Rightarrow> 'a kfs_scheme kres" where
  "iunlock ip s =
     kbind (holdingsleep (InodeLock ip) s) (\<lambda>(h, s1).
       if \<not> h \<or> iref (inode_at s1 ip) < 1 then Inl (Panic ''iunlock'') else releasesleep (InodeLock ip) s1)"

section \<open>Contents\<close>

text \<open>A block number in \<^verbatim>\<open>ip->addrs\<close>, allocated where there is none.\<close>

definition bmap_slot :: "nat \<Rightarrow> nat \<Rightarrow> 'a kfs_scheme \<Rightarrow> (uint \<times> 'a kfs_scheme) kres" where
  "bmap_slot ip j s =
     (if addrs (din s ip) ! j = 0 then
        kbind (balloc (i_dev (inode_at s ip)) s) (\<lambda>(a, s1).
          Inr (a, upd_din ip (\<lambda>d. d\<lparr>addrs := (addrs d)[j := a]\<rparr>) s1))
      else Inr (addrs (din s ip) ! j, s))"

text \<open>The same in the indirect block \<open>a\<close>.\<close>

definition bmap_ind :: "nat \<Rightarrow> uint \<Rightarrow> nat \<Rightarrow> 'a kfs_scheme \<Rightarrow> (uint \<times> 'a kfs_scheme) kres" where
  "bmap_ind ip a bn s1 =
     kbind (bread (i_dev (inode_at s1 ip)) a s1) (\<lambda>(bp, s2).
       let x = get32 (bdata (bufat s2 bp)) (4 * bn)
       in if x = 0 then
            kbind (balloc (i_dev (inode_at s2 ip)) s2) (\<lambda>(x, s3).
              kbind (log_write bp (set_bdata bp (put32 (bdata (bufat s3 bp)) (4 * bn) x) s3)) (\<lambda>s4.
                kbind (brelse bp s4) (\<lambda>s5. Inr (x, s5))))
          else kbind (brelse bp s2) (\<lambda>s3. Inr (x, s3)))"

definition bmap :: "nat \<Rightarrow> uint \<Rightarrow> 'a kfs_scheme \<Rightarrow> (uint \<times> 'a kfs_scheme) kres" where
  "bmap ip bn s =
     (if unat bn < NDIRECT then bmap_slot ip (unat bn) s
      else if unat bn - NDIRECT < NINDIRECT then kbind (bmap_slot ip NDIRECT s) (\<lambda>(a, s1). bmap_ind ip a (unat bn - NDIRECT) s1)
      else Inl (Panic ''bmap: out of range''))"

fun itrunc_direct :: "nat \<Rightarrow> nat list \<Rightarrow> 'a kfs_scheme \<Rightarrow> 'a kfs_scheme kres" where
  "itrunc_direct ip [] s = Inr s"
| "itrunc_direct ip (i # is) s =
     (let a = addrs (din s ip) ! i
      in if a \<noteq> 0 then
           kbind (bfree (i_dev (inode_at s ip)) a s) (\<lambda>s1.
             itrunc_direct ip is (upd_din ip (\<lambda>d. d\<lparr>addrs := (addrs d)[i := 0]\<rparr>) s1))
         else itrunc_direct ip is s)"

fun itrunc_indirect :: "nat \<Rightarrow> nat \<Rightarrow> nat list \<Rightarrow> 'a kfs_scheme \<Rightarrow> 'a kfs_scheme kres" where
  "itrunc_indirect ip bp [] s = Inr s"
| "itrunc_indirect ip bp (j # js) s =
     (let a = get32 (bdata (bufat s bp)) (4 * j)
      in if a \<noteq> 0 then kbind (bfree (i_dev (inode_at s ip)) a s) (itrunc_indirect ip bp js)
         else itrunc_indirect ip bp js s)"

definition itrunc :: "nat \<Rightarrow> 'a kfs_scheme \<Rightarrow> 'a kfs_scheme kres" where
  "itrunc ip s =
     kbind (itrunc_direct ip [0..<NDIRECT] s) (\<lambda>s1.
       kbind (let a = addrs (din s1 ip) ! NDIRECT
              in if a \<noteq> 0 then
                   kbind (bread (i_dev (inode_at s1 ip)) a s1) (\<lambda>(bp, s2).
                     kbind (itrunc_indirect ip bp [0..<NINDIRECT] s2) (\<lambda>s3.
                       kbind (brelse bp s3) (\<lambda>s4.
                         kbind (bfree (i_dev (inode_at s4 ip)) (addrs (din s4 ip) ! NDIRECT) s4) (\<lambda>s5.
                           Inr (upd_din ip (\<lambda>d. d\<lparr>addrs := (addrs d)[NDIRECT := 0]\<rparr>) s5)))))
                 else Inr s1) (\<lambda>s6.
         iupdate ip (upd_din ip (\<lambda>d. d\<lparr>isize := 0\<rparr>) s6)))"

definition iput :: "nat \<Rightarrow> 'a kfs_scheme \<Rightarrow> 'a kfs_scheme kres" where
  "iput ip s =
     kbind (acquiresleep (InodeLock ip) s) (\<lambda>s1.
       kbind (if ivalid (inode_at s1 ip) \<and> nlink (din s1 ip) = 0 then
                kbind (acquire_lock IcacheLock s1) (\<lambda>s2.
                  let r = iref (inode_at s2 ip)
                  in kbind (release_lock IcacheLock s2) (\<lambda>s3.
                       if r = 1 then
                         kbind (itrunc ip s3) (\<lambda>s4.
                           kbind (iupdate ip (upd_din ip (\<lambda>d. d\<lparr>itype := 0\<rparr>) s4)) (\<lambda>s5.
                             Inr (upd_inode ip (\<lambda>x. x\<lparr>ivalid := False\<rparr>) s5)))
                       else Inr s3))
              else Inr s1) (\<lambda>s6.
         kbind (releasesleep (InodeLock ip) s6) (\<lambda>s7.
           kbind (acquire_lock IcacheLock s7) (\<lambda>s8.
             release_lock IcacheLock (upd_inode ip (\<lambda>x. x\<lparr>iref := iref x - 1\<rparr>) s8)))))"

definition iunlockput :: "nat \<Rightarrow> 'a kfs_scheme \<Rightarrow> 'a kfs_scheme kres" where
  "iunlockput ip s = kbind (iunlock ip s) (iput ip)"

definition stati :: "nat \<Rightarrow> 'a kfs_scheme \<Rightarrow> stat" where
  "stati ip s = \<lparr>st_type = itype (din s ip), st_dev = i_dev (inode_at s ip), st_ino = inum (inode_at s ip),
     st_nlink = nlink (din s ip), st_size = isize (din s ip)\<rparr>"

text \<open>
  The console is the only device in \<^verbatim>\<open>devsw\<close>: \<open>consoleread\<close> and \<open>consolewrite\<close> release the inode while
  they work. A read that has to wait for a line is the outcome \<open>Waits\<close> here.
\<close>

definition console_dev_read :: "nat \<Rightarrow> nat \<Rightarrow> 'a kfs_scheme \<Rightarrow> (int \<times> uchar list \<times> 'a kfs_scheme) kres" where
  "console_dev_read ip n s =
     kbind (iunlock ip s) (\<lambda>s1.
       kbind (consoleread n s1) (\<lambda>(r, s2).
         case r of
           CReturn x bs \<Rightarrow> kbind (ilock ip s2) (\<lambda>s3. Inr (x, bs, s3))
         | CSleeps _ _ \<Rightarrow> Inl (Waits ''consoleread'')))"

definition console_dev_write :: "nat \<Rightarrow> uchar list \<Rightarrow> 'a kfs_scheme \<Rightarrow> (int \<times> 'a kfs_scheme) kres" where
  "console_dev_write ip src s =
     kbind (iunlock ip s) (\<lambda>s1.
       kbind (consolewrite src s1) (\<lambda>(x, s2).
         kbind (ilock ip s2) (\<lambda>s3. Inr (x, s3))))"

definition no_dev :: "dinode \<Rightarrow> bool" where
  "no_dev d \<longleftrightarrow> sint (major d) < 0 \<or> sint (major d) \<ge> NDEV \<or> sint (major d) \<noteq> CONSOLE"

text \<open>The loops of \<open>readi\<close> and \<open>writei\<close>; the number is how much is left.\<close>

function readi_loop :: "nat \<Rightarrow> uint \<Rightarrow> nat \<Rightarrow> 'a kfs_scheme \<Rightarrow> (uchar list \<times> 'a kfs_scheme) kres" where
  "readi_loop ip off n s =
     (if n = 0 then Inr ([], s)
      else kbind (bmap ip (off div of_nat BSIZE) s) (\<lambda>(a, s1).
        kbind (bread (i_dev (inode_at s1 ip)) a s1) (\<lambda>(bp, s2).
          let k = unat off mod BSIZE; m = min n (BSIZE - k); d = take m (drop k (bdata (bufat s2 bp)))
          in kbind (brelse bp s2) (\<lambda>s3.
               kbind (readi_loop ip (off + of_nat m) (n - m) s3) (\<lambda>(ds, s4). Inr (d @ ds, s4))))))"
  by pat_completeness auto
termination by (relation "measure (\<lambda>(_, _, n, _). n)") (auto simp: BSIZE_def)

definition readi :: "nat \<Rightarrow> uint \<Rightarrow> uint \<Rightarrow> 'a kfs_scheme \<Rightarrow> (int \<times> uchar list \<times> 'a kfs_scheme) kres" where
  "readi ip off n s =
     (let d = din s ip
      in if itype d = T_DEV then
           if no_dev d then Inr (-1, [], s) else console_dev_read ip (unat n) s
         else if off > isize d \<or> off + n < off then Inr (-1, [], s)
         else let n = (if off + n > isize d then isize d - off else n)
           in kbind (readi_loop ip off (unat n) s) (\<lambda>(bs, s1). Inr (sint n, bs, s1)))"

function writei_loop :: "nat \<Rightarrow> uint \<Rightarrow> uchar list \<Rightarrow> 'a kfs_scheme \<Rightarrow> (uint \<times> 'a kfs_scheme) kres" where
  "writei_loop ip off src s =
     (if src = [] then Inr (off, s)
      else kbind (bmap ip (off div of_nat BSIZE) s) (\<lambda>(a, s1).
        kbind (bread (i_dev (inode_at s1 ip)) a s1) (\<lambda>(bp, s2).
          let k = unat off mod BSIZE; m = min (length src) (BSIZE - k)
          in kbind (log_write bp (set_bdata bp (put_bytes (bdata (bufat s2 bp)) k (take m src)) s2)) (\<lambda>s3.
               kbind (brelse bp s3) (\<lambda>s4. writei_loop ip (off + of_nat m) (drop m src) s4)))))"
  by pat_completeness auto
termination by (relation "measure (\<lambda>(_, _, src, _). length src)") (auto simp: BSIZE_def)

definition writei :: "nat \<Rightarrow> uchar list \<Rightarrow> uint \<Rightarrow> 'a kfs_scheme \<Rightarrow> (int \<times> 'a kfs_scheme) kres" where
  "writei ip src off s =
     (let d = din s ip; n = of_nat (length src) :: uint
      in if itype d = T_DEV then
           if no_dev d then Inr (-1, s) else console_dev_write ip src s
         else if off > isize d \<or> off + n < off then Inr (-1, s)
         else if off + n > of_nat (MAXFILE * BSIZE) then Inr (-1, s)
         else kbind (writei_loop ip off src s) (\<lambda>(off', s1).
           if n > 0 \<and> off' > isize (din s1 ip) then
             kbind (iupdate ip (upd_din ip (\<lambda>d. d\<lparr>isize := off'\<rparr>) s1)) (\<lambda>s2. Inr (sint n, s2))
           else Inr (sint n, s1)))"

declare balloc_loop.simps [simp del] ialloc_loop.simps [simp del] readi_loop.simps [simp del] writei_loop.simps [simp del]

end
