(* ===== verification/Balloc.thy ===== *)
theory Balloc
  imports Inode
begin

text \<open>
  What the block allocator of \<^verbatim>\<open>fs.c\<close> does to the array of blocks inside a transaction. The layout of the
  disk and the free map give the invariant; \<open>balloc\<close> hands out a free data block, zeroed, and \<open>bfree\<close>
  gives it back.
\<close>

section \<open>Steps of a transaction\<close>

text \<open>
  \<open>tx_step k B s s'\<close>: from \<open>s\<close> to \<open>s'\<close> the blocks became \<open>B\<close>, at most \<open>k\<close> more of them are in the log, and
  nothing else of the kernel changed but the buffer cache and sleepers that were woken.
\<close>

definition tx_step :: "nat \<Rightarrow> (uint \<Rightarrow> uchar list) \<Rightarrow> 'a klog_scheme \<Rightarrow> 'a klog_scheme \<Rightarrow> bool" where
  "tx_step k B s s' \<longleftrightarrow> blk s' = B \<and> length (logged s') \<le> length (logged s) + k \<and> log_frame s s' \<and> disk s' = disk s"

definition log_room :: "nat \<Rightarrow> 'a klog_scheme \<Rightarrow> bool" where
  "log_room k s \<longleftrightarrow> length (logged s) + k \<le> 28 \<and> int (length (logged s) + k) < log_size s \<and> log_outstanding s \<ge> 1"

lemma tx_stepD:
  assumes "tx_step k B s s'"
  shows "blk s' = B" "log_frame s s'" "disk s' = disk s" "disksize s' = disksize s" "in_log s' = in_log s"
    "length (logged s') \<le> length (logged s) + k"
  using assms log_frameD(7) [of s s'] by (auto simp: tx_step_def disksize_def)

lemma tx_step_trans: "tx_step k B s t \<Longrightarrow> tx_step j C t u \<Longrightarrow> tx_step (k + j) C s u"
  using log_frame_trans [of s t u] by (auto simp: tx_step_def)

lemma tx_step_le: "tx_step k B s t \<Longrightarrow> k \<le> j \<Longrightarrow> tx_step j B s t"
  by (auto simp: tx_step_def)

lemma tx_step_refl: "blk s = B \<Longrightarrow> tx_step 0 B s s"
  by (simp add: tx_step_def)

lemma log_room_step: "log_room (k + j) s \<Longrightarrow> tx_step k B s t \<Longrightarrow> log_room j t"
  using log_frameD(2,4) [of s t] by (auto simp: tx_step_def log_room_def)

lemma log_room_same: "log_room j s \<Longrightarrow> tx_step 0 B s t \<Longrightarrow> log_room j t"
  using log_room_step [of 0 j s B t] by simp

lemma log_room_le: "log_room k s \<Longrightarrow> j \<le> k \<Longrightarrow> log_room j s"
  by (auto simp: log_room_def)

lemma log_room_len: "log_room k s \<Longrightarrow> length (logged s) \<le> 28"
  by (simp add: log_room_def)

lemma kfs_frame:
  fixes s s' :: "'a kfs_scheme"
  assumes "log_frame s s'"
  shows "icache s' = icache s" "sb s' = sb s" "sleeplocks s' (InodeLock i) = sleeplocks s (InodeLock i)" "curproc s' = curproc s"
    "procs_same (ptable s) (ptable s')" "held s' = held s"
proof -
  have e: "s' = s\<lparr>lh := lh s', ptable := ptable s', sleeplocks := sleeplocks s', bcache := bcache s', disk := disk s', disk_writes := disk_writes s'\<rparr>"
    and p: "procs_same (ptable s) (ptable s')" "\<forall>i. sleeplocks s' (InodeLock i) = sleeplocks s (InodeLock i)"
    using assms by (simp_all add: log_frame_def bio_frame_def)
  show "icache s' = icache s" "sb s' = sb s" "curproc s' = curproc s" "held s' = held s"
    using arg_cong [OF e, of icache] arg_cong [OF e, of sb] arg_cong [OF e, of curproc] arg_cong [OF e, of held] by simp_all
  show "sleeplocks s' (InodeLock i) = sleeplocks s (InodeLock i)" "procs_same (ptable s) (ptable s')"
    using p by simp_all
qed

text \<open>Reading a block, and the update of one block that \<open>bzero\<close>, \<open>bfree\<close> and \<open>iupdate\<close> make.\<close>

lemma bread_step:
  assumes "tx_ok H s" "unat n < disksize s" "n \<notin> ran H" "card (dom H) \<le> 1" "length (logged s) \<le> 28"
  shows "\<exists>i s'. bread 1 n s = Inr (i, s') \<and> H i = None \<and> tx_ok (H(i \<mapsto> n)) s' \<and> tx_step 0 (blk s) s s' \<and> bdata (bufat s' i) = blk s n"
proof -
  have "card (dom H) + length (logged s) < NBUF" using assms(4,5) by (simp add: NBUF_def)
  then show ?thesis using tx_bread [OF assms(1-3)] log_frame_bio by (fastforce simp: tx_step_def)
qed

lemma brelse_step:
  assumes "tx_ok H s" "H i = Some n"
  shows "\<exists>s'. brelse i s = Inr s' \<and> tx_ok (H(i := None)) s' \<and> tx_step 0 (blk s) s s'"
  using tx_brelse [OF assms] log_frame_bio by (fastforce simp: tx_step_def)

lemma log_write_step:
  assumes "tx_ok H s" "H i = Some n" "length x = 512" "\<not> in_log s (unat n)" "log_room 1 s"
  shows "\<exists>s'. log_write i (set_bdata i x s) = Inr s' \<and> tx_ok H s' \<and> tx_step 1 ((blk s)(n := x)) s s'"
proof -
  have r: "length (logged s) < 29" "int (length (logged s)) < log_size s - 1" "log_outstanding s \<ge> 1" using assms(5) by (simp_all add: log_room_def)
  obtain s' where s': "log_write i (set_bdata i x s) = Inr s'" "tx_ok H s'" "blk s' = (blk s)(n := x)"
    "logged s' = (if n \<in> set (logged s) then logged s else logged s @ [n])" "log_frame s s'" "disk s' = disk s"
    using log_write_ok [OF assms(1-4) r] by blast
  have "length (logged s') \<le> length (logged s) + 1" by (simp add: s'(4))
  with s' show ?thesis by (auto simp: tx_step_def)
qed

lemma rmw_step:
  assumes "tx_ok H s" "unat n < disksize s" "n \<notin> ran H" "card (dom H) \<le> 1" "log_room 1 s" "\<not> in_log s (unat n)" "length x = 512"
  shows "\<exists>i s1 s'. bread 1 n s = Inr (i, s1) \<and> bdata (bufat s1 i) = blk s n \<and> tx_step 0 (blk s) s s1 \<and>
    kbind (log_write i (set_bdata i x s1)) (brelse i) = Inr s' \<and> tx_ok H s' \<and> tx_step 1 ((blk s)(n := x)) s s'"
proof -
  obtain i s1 where s1: "bread 1 n s = Inr (i, s1)" "H i = None" "tx_ok (H(i \<mapsto> n)) s1" "tx_step 0 (blk s) s s1" "bdata (bufat s1 i) = blk s n"
    using bread_step [OF assms(1-4) log_room_len [OF assms(5)]] by blast
  have r: "log_room 1 s1" "\<not> in_log s1 (unat n)" using assms(5,6) log_room_step [OF _ s1(4), of 1] tx_stepD [OF s1(4)] by simp_all
  obtain s2 where s2: "log_write i (set_bdata i x s1) = Inr s2" "tx_ok (H(i \<mapsto> n)) s2" "tx_step 1 ((blk s1)(n := x)) s1 s2"
    using log_write_step [OF s1(3) _ assms(7) r(2,1), of i] by auto
  obtain s3 where s3: "brelse i s2 = Inr s3" "tx_ok H s3" "tx_step 0 (blk s2) s2 s3"
    using brelse_step [OF s2(2), of i n] s1(2) by (auto simp: fun_upd_idem)
  have "tx_step 1 ((blk s)(n := x)) s s3"
    using tx_step_trans [OF tx_step_trans [OF s1(4) s2(3)] s3(3)] tx_stepD(1) [OF s1(4)] tx_stepD(1) [OF s2(3)] by simp
  with s1 s2 s3 show ?thesis by auto
qed

lemma bzero_step:
  assumes "tx_ok H s" "unat n < disksize s" "n \<notin> ran H" "card (dom H) \<le> 1" "log_room 1 s" "\<not> in_log s (unat n)"
  shows "\<exists>s'. bzero 1 n s = Inr s' \<and> tx_ok H s' \<and> tx_step 1 ((blk s)(n := replicate 512 0)) s s'"
  using rmw_step [OF assms, of "replicate 512 0"] by (auto simp: bzero_def BSIZE_def)

section \<open>The free map\<close>

lemma map_free_bit: "map_free bi d \<longleftrightarrow> \<not> bit (d ! (bi div 8)) (bi mod 8)"
  unfolding map_free_def by (subst and_exp_eq_0_iff_not_bit [symmetric]) (simp add: push_bit_eq_mult)

lemma bit_one_byte: "bit (2 ^ k :: uchar) j \<longleftrightarrow> j = k \<and> k < 8"
  by (auto simp: bit_exp_iff)

lemma mod_div_eq: "(i :: nat) div 8 = j div 8 \<Longrightarrow> i mod 8 = j mod 8 \<Longrightarrow> i = j"
  by (metis div_mult_mod_eq)

lemma map_free_set: "bi div 8 < length d \<Longrightarrow> map_free c (map_set bi d) \<longleftrightarrow> c \<noteq> bi \<and> map_free c d"
  using mod_div_eq [of c bi] by (auto simp: map_free_bit map_set_def nth_list_update bit_or_iff bit_one_byte)

lemma map_free_clear: "bi div 8 < length d \<Longrightarrow> map_free c (map_clear bi d) \<longleftrightarrow> c = bi \<or> map_free c d"
  using mod_div_eq [of c bi] by (auto simp: map_free_bit map_clear_def nth_list_update bit_and_iff bit_not_iff bit_one_byte)

lemma length_map [simp]: "length (map_set bi d) = length d" "length (map_clear bi d) = length d"
  by (simp_all add: map_set_def map_clear_def)

section \<open>The layout of the disk\<close>

abbreviation istart :: "'a kfs_scheme \<Rightarrow> nat" where "istart s \<equiv> unat (sb_inodestart (sb s))"
abbreviation mstart :: "'a kfs_scheme \<Rightarrow> nat" where "mstart s \<equiv> unat (sb_bmapstart (sb s))"
abbreviation fsize :: "'a kfs_scheme \<Rightarrow> nat" where "fsize s \<equiv> unat (sb_size (sb s))"
abbreviation ninodes :: "'a kfs_scheme \<Rightarrow> nat" where "ninodes s \<equiv> unat (sb_ninodes (sb s))"

definition dstart :: "'a kfs_scheme \<Rightarrow> nat" where
  "dstart s = mstart s + fsize s div BPB + 1"

text \<open>Boot block, super block, log, inodes, free map and data follow each other.\<close>

definition geom :: "'a kfs_scheme \<Rightarrow> bool" where
  "geom s \<longleftrightarrow> superblock_of (blk s 1) = sb s \<and> 1 < lstart s \<and> lstart s + nat (log_size s) \<le> istart s \<and>
     istart s + ninodes s div IPB + 1 \<le> mstart s \<and> dstart s \<le> fsize s \<and> fsize s \<le> disksize s"

definition mapblock :: "'a kfs_scheme \<Rightarrow> nat \<Rightarrow> uint" where
  "mapblock s b = of_nat (mstart s + b div BPB)"

definition used :: "'a kfs_scheme \<Rightarrow> nat \<Rightarrow> bool" where
  "used s b \<longleftrightarrow> \<not> map_free (b mod BPB) (blk s (mapblock s b))"

definition fs_ok :: "'a kfs_scheme \<Rightarrow> bool" where
  "fs_ok s \<longleftrightarrow> geom s \<and> (\<forall>b < dstart s. used s b)"

text \<open>A block outside the areas that the file system keeps for itself.\<close>

definition data_block :: "'a kfs_scheme \<Rightarrow> uint \<Rightarrow> bool" where
  "data_block s n \<longleftrightarrow> dstart s \<le> unat n \<and> unat n < fsize s"

definition is_map :: "'a kfs_scheme \<Rightarrow> uint \<Rightarrow> bool" where
  "is_map s n \<longleftrightarrow> mstart s \<le> unat n \<and> unat n < dstart s"

lemma mapblock_ok:
  assumes "geom s" "disksize s < 2 ^ 31" "b < fsize s"
  shows "unat (mapblock s b) = mstart s + b div BPB" "is_map s (mapblock s b)" "unat (mapblock s b) < disksize s"
    "\<not> in_log s (unat (mapblock s b))" "BBLOCK (of_nat b) (sb s) = mapblock s b"
proof -
  have le: "b div BPB \<le> fsize s div BPB" using assms(3) by (simp add: div_le_mono)
  have lt: "mstart s + b div BPB < disksize s" using assms(1) le by (simp add: geom_def dstart_def)
  then show u: "unat (mapblock s b) = mstart s + b div BPB" using assms(2) unfolding mapblock_def by (subst unat_of_nat_small) simp_all
  show "is_map s (mapblock s b)" "unat (mapblock s b) < disksize s" "\<not> in_log s (unat (mapblock s b))"
    using le lt assms(1) by (auto simp: is_map_def u dstart_def geom_def in_log_def)
  have b: "b < 2 ^ 32" using assms by (simp add: geom_def)
  have "(of_nat b :: uint) div of_nat BPB = of_nat (b div BPB)"
    unfolding word_unat_eq_iff using b by (simp add: unat_div BPB_def unat_of_nat_small)
  then show "BBLOCK (of_nat b) (sb s) = mapblock s b" by (simp add: BBLOCK_def mapblock_def add.commute)
qed

text \<open>The effect of allocating block \<open>b\<close>.\<close>

definition allocates :: "nat \<Rightarrow> 'a kfs_scheme \<Rightarrow> 'a kfs_scheme \<Rightarrow> bool" where
  "allocates b s s' \<longleftrightarrow> fs_ok s' \<and> dstart s \<le> b \<and> b < fsize s \<and> \<not> used s b \<and>
     (\<forall>c < fsize s. used s' c \<longleftrightarrow> used s c \<or> c = b) \<and>
     (\<forall>n. \<not> is_map s n \<longrightarrow> blk s' n = (if n = of_nat b then replicate 512 0 else blk s n))"

lemma mapblock_eq:
  assumes "geom s" "disksize s < 2 ^ 31" "b < fsize s" "c < fsize s"
  shows "mapblock s b = mapblock s c \<longleftrightarrow> b div BPB = c div BPB"
  using mapblock_ok(1) [OF assms(1-3)] mapblock_ok(1) [OF assms(1,2,4)] by (auto simp: word_unat_eq_iff)

lemma geom_step:
  assumes "tx_step k B s s'" "geom s" "B 1 = blk s 1"
  shows "geom s'"
  using assms tx_stepD [OF assms(1)] kfs_frame(2) [of s s'] log_frameD [of s s'] by (simp add: geom_def dstart_def)

lemma used_map_set:
  assumes "geom s" "bio_ok H s" "b < fsize s" "c < fsize s" "sb s' = sb s" "blk s' (mapblock s c) = ((blk s)(mapblock s b := f (blk s (mapblock s b)))) (mapblock s c)"
    and f: "\<And>d. length d = 512 \<Longrightarrow> map_free (c mod BPB) (f d) \<longleftrightarrow> (if c mod BPB = b mod BPB then v else map_free (c mod BPB) d)"
  shows "used s' c \<longleftrightarrow> (if c = b then \<not> v else used s c)"
proof -
  have d: "disksize s < 2 ^ 31" by (rule bio_okD(7) [OF assms(2)])
  have l: "length (blk s (mapblock s b)) = 512" by (rule blk_length [OF assms(2) mapblock_ok(3) [OF assms(1) d assms(3)]])
  have m: "mapblock s' c = mapblock s c" using assms(5) by (simp add: mapblock_def)
  have "c = b \<longleftrightarrow> c div BPB = b div BPB \<and> c mod BPB = b mod BPB" by (metis div_mult_mod_eq)
  then show ?thesis
    using f [of "blk s (mapblock s b)"] l mapblock_eq [OF assms(1) d assms(4,3)] assms(6) by (auto simp: used_def m)
qed

lemma allocates_intro:
  assumes ok: "fs_ok s" "bio_ok H s" and b: "b < fsize s" "\<not> used s b"
    and st: "tx_step k ((blk s)(mapblock s b := map_set (b mod BPB) (blk s (mapblock s b)), of_nat b := replicate 512 0)) s s'"
  shows "allocates b s s'"
proof -
  have g: "geom s" and d: "disksize s < 2 ^ 31" using ok bio_okD(7) [OF ok(2)] by (simp_all add: fs_ok_def)
  note sb = kfs_frame(2) [OF tx_stepD(2) [OF st]] and mb = mapblock_ok [OF g d b(1)]
  have db: "dstart s \<le> b" using ok(1) b(2) by (auto simp: fs_ok_def not_less [symmetric])
  have ub: "unat (of_nat b :: uint) = b" using b(1) by (simp add: unat_of_nat_small order.strict_trans [OF _ uint_less_pow])
  have gg: "unat (1 :: uint) < mstart s" using g by (simp add: geom_def)
  have one: "mapblock s b \<noteq> 1" "of_nat b \<noteq> (1 :: uint)"
    using mb(2) gg db ub by (auto simp: is_map_def dstart_def dest!: arg_cong [of _ _ unat] simp del: unat_1)
  have nb: "mapblock s c \<noteq> of_nat b" if "c < fsize s" for c
    using mapblock_ok(2) [OF g d that] db ub by (auto simp: is_map_def)
  have "(b mod BPB) div 8 < 512" by (simp add: BPB_def less_mult_imp_div_less)
  then have f: "map_free (c mod BPB) (map_set (b mod BPB) d) \<longleftrightarrow> (if c mod BPB = b mod BPB then False else map_free (c mod BPB) d)"
    if "length d = 512" for c d using that by (simp add: map_free_set)
  have u: "used s' c \<longleftrightarrow> used s c \<or> c = b" if c: "c < fsize s" for c
  proof -
    have "used s' c \<longleftrightarrow> (if c = b then \<not> False else used s c)"
      by (rule used_map_set [OF g ok(2) b(1) c sb]) (use tx_stepD(1) [OF st] nb [OF c] f in auto)
    then show ?thesis by auto
  qed
  have ds: "dstart s' = dstart s" using sb by (simp add: dstart_def)
  have "geom s'" using geom_step [OF st g] one by simp
  moreover have "used s' c" if "c < dstart s" for c
    using that u [of c] ok(1) g by (auto simp: fs_ok_def geom_def)
  ultimately have "fs_ok s'" by (simp add: fs_ok_def ds)
  moreover have "blk s' n = (if n = of_nat b then replicate 512 0 else blk s n)" if "\<not> is_map s n" for n
    using that mb(2) tx_stepD(1) [OF st] by auto
  ultimately show ?thesis using db b u by (simp add: allocates_def)
qed

text \<open>The blocks of the buffers that a caller holds while it allocates.\<close>

definition held_ok :: "(nat \<Rightarrow> uint option) \<Rightarrow> 'a kfs_scheme \<Rightarrow> bool" where
  "held_ok H s \<longleftrightarrow> card (dom H) \<le> 1 \<and> (\<forall>n \<in> ran H. data_block s n \<and> used s (unat n))"

lemma held_ok_empty [simp]: "held_ok Map.empty s"
  by (simp add: held_ok_def)

lemma fs_same:
  assumes "tx_step 0 (blk s) s s'"
  shows "sb s' = sb s" "used s' = used s" "geom s' = geom s" "fs_ok s' = fs_ok s" "data_block s' = data_block s" "is_map s' = is_map s"
    "mapblock s' = mapblock s" "held_ok H s' = held_ok H s" "allocates b s' = allocates b s" "dstart s' = dstart s"
proof -
  note t = tx_stepD [OF assms] log_frameD [OF tx_stepD(2) [OF assms]]
  show sb: "sb s' = sb s" by (rule kfs_frame(2) [OF t(2)])
  then show d: "data_block s' = data_block s" "is_map s' = is_map s" "mapblock s' = mapblock s" "dstart s' = dstart s"
    by (simp_all add: data_block_def is_map_def mapblock_def dstart_def fun_eq_iff)
  then show u: "used s' = used s" using t(1) by (simp add: used_def fun_eq_iff)
  show g: "geom s' = geom s" using t sb d(4) by (simp add: geom_def)
  show "fs_ok s' = fs_ok s" "held_ok H s' = held_ok H s" "allocates b s' = allocates b s"
    using sb d u g t(1) by (simp_all add: fs_ok_def held_ok_def allocates_def fun_eq_iff)
qed

lemma in_map_block: "b0 mod BPB = 0 \<Longrightarrow> k < BPB \<Longrightarrow> (b0 + k) div BPB = b0 div BPB \<and> (b0 + k) mod BPB = k"
  by (auto simp: div_add1_eq mod_add_eq [symmetric])

text \<open>A free block found in the map: it is marked and zeroed.\<close>

lemma balloc_found:
  fixes s :: "'a kfs_scheme"
  assumes tx: "tx_ok H s" and ok: "fs_ok s" "held_ok H s" and r: "log_room 2 s" and b: "b < fsize s" "\<not> used s b"
    and s1: "bread 1 (mapblock s b) s = Inr (i, s1)"
  shows "\<exists>s2 s3 s4. log_write i (set_bdata i (map_set (b mod BPB) (blk s (mapblock s b))) s1) = Inr s2 \<and> brelse i s2 = Inr s3 \<and>
    bzero 1 (of_nat b) s3 = Inr s4 \<and> tx_ok H s4 \<and> allocates b s s4 \<and> (\<exists>B. tx_step 2 B s s4)"
proof -
  have bo: "bio_ok H s" using tx by (simp add: tx_ok_def)
  have g: "geom s" and d: "disksize s < 2 ^ 31" using ok bio_okD(7) [OF bo] by (simp_all add: fs_ok_def)
  note mb = mapblock_ok [OF g d b(1)]
  let ?x = "map_set (b mod BPB) (blk s (mapblock s b))"
  have nr: "mapblock s b \<notin> ran H" "card (dom H) \<le> 1" using ok(2) mb(2) by (auto simp: held_ok_def is_map_def data_block_def)
  have l: "length ?x = 512" using blk_length [OF bo mb(3)] by simp
  obtain s2 s3 where s3: "log_write i (set_bdata i ?x s1) = Inr s2" "brelse i s2 = Inr s3" "tx_ok H s3"
    "tx_step 1 ((blk s)(mapblock s b := ?x)) s s3"
    using rmw_step [OF tx mb(3) nr log_room_le [OF r] mb(4) l] s1 by (auto simp: kbind_eq_Inr)
  have ub: "unat (of_nat b :: uint) = b" using b(1) by (simp add: unat_of_nat_small order.strict_trans [OF _ uint_less_pow])
  have db: "dstart s \<le> b" using ok(1) b(2) by (meson fs_ok_def not_le_imp_less)
  have c: "unat (of_nat b :: uint) < disksize s3" "of_nat b \<notin> ran H" "\<not> in_log s3 (unat (of_nat b :: uint))"
    using b g ok(2) db tx_stepD [OF s3(4)] by (auto simp: ub geom_def held_ok_def dstart_def in_log_def)
  have "log_room 1 s3" using log_room_step [OF _ s3(4), of 1] r by (simp add: numeral_2_eq_2)
  from bzero_step [OF s3(3) c(1,2) nr(2) this c(3)] obtain s4 where s4: "bzero 1 (of_nat b) s3 = Inr s4" "tx_ok H s4"
    "tx_step 1 ((blk s3)(of_nat b := replicate 512 0)) s3 s4" by blast
  have st: "tx_step 2 ((blk s)(mapblock s b := ?x, of_nat b := replicate 512 0)) s s4"
    using tx_step_trans [OF s3(4) s4(3)] tx_stepD(1) [OF s3(4)] by (simp add: numeral_2_eq_2)
  with s3(1,2) s4(1,2) allocates_intro [OF ok(1) bo b st] show ?thesis by blast
qed

lemma balloc_loop_ok:
  fixes s :: "'a kfs_scheme"
  assumes "tx_ok H s" "fs_ok s" "held_ok H s" "log_room 2 s" "b0 mod BPB = 0" "\<exists>b \<ge> b0. b < fsize s \<and> \<not> used s b"
  shows "\<exists>b s'. balloc_loop 1 (fsize s) b0 s = Inr (of_nat b, s') \<and> tx_ok H s' \<and> allocates b s s' \<and>
    (\<exists>B. tx_step 2 B s s')"
  using assms
proof (induction "fsize s - b0" arbitrary: b0 s rule: less_induct)
  case less
  have bo: "bio_ok H s" using less.prems(1) by (simp add: tx_ok_def)
  have g: "geom s" and d: "disksize s < 2 ^ 31" using less.prems(2) bio_okD(7) [OF bo] by (simp_all add: fs_ok_def)
  obtain bf where bf: "b0 \<le> bf" "bf < fsize s" "\<not> used s bf" using less.prems(6) by blast
  then have b0: "b0 < fsize s" by simp
  note mb = mapblock_ok [OF g d b0]
  have nr: "mapblock s b0 \<notin> ran H" "card (dom H) \<le> 1"
    using less.prems(3) mb(2) by (auto simp: held_ok_def is_map_def data_block_def)
  obtain i s1 where s1: "bread 1 (mapblock s b0) s = Inr (i, s1)" "H i = None" "tx_ok (H(i \<mapsto> mapblock s b0)) s1"
    "tx_step 0 (blk s) s s1" "bdata (bufat s1 i) = blk s (mapblock s b0)"
    using bread_step [OF less.prems(1) mb(3) nr log_room_len [OF less.prems(4)]] by blast
  let ?d = "blk s (mapblock s b0)"
  show ?case
  proof (cases "first_index (\<lambda>bi. map_free bi ?d) [0..<min BPB (fsize s - b0)]")
    case (Some bi)
    then have bi: "bi < BPB" "b0 + bi < fsize s" "map_free bi ?d" by (auto simp: first_index_eq_Some)
    note md = in_map_block [OF less.prems(5) bi(1)]
    have m: "mapblock s (b0 + bi) = mapblock s b0" by (simp add: mapblock_def md)
    then have "\<not> used s (b0 + bi)" using bi(3) md by (simp add: used_def)
    from balloc_found [OF less.prems(1-4) bi(2) this] s1(1) obtain s2 s3 s4 where
      r: "log_write i (set_bdata i (map_set bi ?d) s1) = Inr s2" "brelse i s2 = Inr s3" "bzero 1 (of_nat (b0 + bi)) s3 = Inr s4"
        "tx_ok H s4" "allocates (b0 + bi) s s4" "\<exists>B. tx_step 2 B s s4"
      unfolding m conjunct2 [OF md] by blast
    have "balloc_loop 1 (fsize s) b0 s = Inr (of_nat (b0 + bi), s4)"
      using b0 s1(1,5) mb(5) Some r(1-3) by (simp add: balloc_loop.simps [of _ _ b0] del: of_nat_add)
    with r(4-6) show ?thesis by blast
  next
    case None
    obtain s2 where s2: "brelse i s1 = Inr s2" "tx_ok H s2" "tx_step 0 (blk s1) s1 s2"
      using brelse_step [OF s1(3), of i] s1(2) by (auto simp: fun_upd_idem)
    have st: "tx_step 0 (blk s) s s2" using tx_step_trans [OF s1(4) s2(3)] tx_stepD(1) [OF s1(4)] by simp
    note e = fs_same [OF st]
    have nb: "b0 + BPB \<le> bf"
    proof (rule ccontr)
      assume "\<not> b0 + BPB \<le> bf"
      then have k: "bf - b0 < BPB" using bf(1) by simp
      then have "map_free (bf - b0) ?d" using in_map_block [OF less.prems(5) k] bf(1,3) by (simp add: used_def mapblock_def)
      with None k bf show False by auto
    qed
    have "\<exists>b s'. balloc_loop 1 (fsize s2) (b0 + BPB) s2 = Inr (of_nat b, s') \<and> tx_ok H s' \<and> allocates b s2 s' \<and> (\<exists>B. tx_step 2 B s2 s')"
    proof (rule less.hyps)
      show "fsize s2 - (b0 + BPB) < fsize s - b0" using b0 e(1) by (simp add: BPB_def)
      show "tx_ok H s2" "fs_ok s2" "held_ok H s2" "log_room 2 s2" "(b0 + BPB) mod BPB = 0"
        using s2(2) less.prems e log_room_same [OF less.prems(4) st] by simp_all
      show "\<exists>b \<ge> b0 + BPB. b < fsize s2 \<and> \<not> used s2 b" using nb bf e by auto
    qed
    then obtain b s' where r: "balloc_loop 1 (fsize s) (b0 + BPB) s2 = Inr (of_nat b, s')" "tx_ok H s'" "allocates b s s'"
      "\<exists>B. tx_step 2 B s2 s'" using e by auto
    have "balloc_loop 1 (fsize s) b0 s = Inr (of_nat b, s')"
      using b0 s1(1,5) mb(5) None s2(1) r(1) by (simp add: balloc_loop.simps [of _ _ b0] del: first_index_None)
    moreover have "\<exists>B. tx_step 2 B s s'" using r(4) tx_step_trans [OF st] by force
    ultimately show ?thesis using r(2,3) by blast
  qed
qed

lemma balloc_ok:
  fixes s :: "'a kfs_scheme"
  assumes "tx_ok H s" "fs_ok s" "held_ok H s" "log_room 2 s" "\<exists>b < fsize s. \<not> used s b"
  shows "\<exists>b s'. balloc 1 s = Inr (of_nat b, s') \<and> tx_ok H s' \<and> allocates b s s' \<and> (\<exists>B. tx_step 2 B s s')"
  using balloc_loop_ok [OF assms(1-4), of 0] assms(5) by (simp add: balloc_def)

section \<open>Freeing a block\<close>

definition frees :: "nat \<Rightarrow> 'a kfs_scheme \<Rightarrow> 'a kfs_scheme \<Rightarrow> bool" where
  "frees b s s' \<longleftrightarrow> fs_ok s' \<and> (\<forall>c < fsize s. used s' c \<longleftrightarrow> used s c \<and> c \<noteq> b) \<and> (\<forall>n. \<not> is_map s n \<longrightarrow> blk s' n = blk s n)"

lemma readsb_ok:
  fixes s :: "'a kfs_scheme"
  assumes "tx_ok H s" "fs_ok s" "held_ok H s" "log_room k s"
  shows "\<exists>s'. readsb 1 s = Inr (sb s, s') \<and> s'\<lparr>sb := sb s\<rparr> = s' \<and> tx_ok H s' \<and> tx_step 0 (blk s) s s'"
proof -
  have g: "geom s" using assms(2) by (simp add: fs_ok_def)
  then have c: "unat (1 :: uint) < disksize s" "1 \<notin> ran H" "card (dom H) \<le> 1"
    using assms(3) by (auto simp: geom_def held_ok_def data_block_def dstart_def)
  obtain i s1 where s1: "bread 1 1 s = Inr (i, s1)" "H i = None" "tx_ok (H(i \<mapsto> 1)) s1" "tx_step 0 (blk s) s s1" "bdata (bufat s1 i) = blk s 1"
    using bread_step [OF assms(1) c log_room_len [OF assms(4)]] by blast
  obtain s2 where s2: "brelse i s1 = Inr s2" "tx_ok H s2" "tx_step 0 (blk s1) s1 s2"
    using brelse_step [OF s1(3), of i] s1(2) by (auto simp: fun_upd_idem)
  have st: "tx_step 0 (blk s) s s2" using tx_step_trans [OF s1(4) s2(3)] tx_stepD(1) [OF s1(4)] by simp
  have "s2\<lparr>sb := sb s2\<rparr> = s2" by simp
  then have "s2\<lparr>sb := sb s\<rparr> = s2" by (simp only: fs_same(1) [OF st])
  with s1 s2 st g show ?thesis by (auto simp: readsb_def geom_def)
qed

lemma frees_intro:
  assumes ok: "fs_ok s" "bio_ok H s" and b: "dstart s \<le> b" "b < fsize s"
    and st: "tx_step k ((blk s)(mapblock s b := map_clear (b mod BPB) (blk s (mapblock s b)))) s s'"
  shows "frees b s s'"
proof -
  have g: "geom s" and d: "disksize s < 2 ^ 31" using ok bio_okD(7) [OF ok(2)] by (simp_all add: fs_ok_def)
  note sb = kfs_frame(2) [OF tx_stepD(2) [OF st]] and mb = mapblock_ok [OF g d b(2)]
  have "unat (1 :: uint) < mstart s" using g by (simp add: geom_def)
  then have one: "mapblock s b \<noteq> 1" using mb(2) by (auto simp: is_map_def)
  have "(b mod BPB) div 8 < 512" by (simp add: BPB_def less_mult_imp_div_less)
  then have f: "map_free (c mod BPB) (map_clear (b mod BPB) d) \<longleftrightarrow> (if c mod BPB = b mod BPB then True else map_free (c mod BPB) d)"
    if "length d = 512" for c d using that by (simp add: map_free_clear)
  have u: "used s' c \<longleftrightarrow> used s c \<and> c \<noteq> b" if c: "c < fsize s" for c
  proof -
    have "used s' c \<longleftrightarrow> (if c = b then \<not> True else used s c)"
      by (rule used_map_set [OF g ok(2) b(2) c sb]) (use tx_stepD(1) [OF st] f in auto)
    then show ?thesis by auto
  qed
  have ds: "dstart s' = dstart s" using sb by (simp add: dstart_def)
  have "geom s'" using geom_step [OF st g] one by simp
  moreover have "used s' c" if "c < dstart s" for c
    using that u [of c] ok(1) g b by (auto simp: fs_ok_def geom_def)
  ultimately have "fs_ok s'" by (simp add: fs_ok_def ds)
  then show ?thesis using u mb(2) tx_stepD(1) [OF st] by (auto simp: frees_def)
qed

lemma bfree_ok:
  fixes s :: "'a kfs_scheme"
  assumes tx: "tx_ok H s" and ok: "fs_ok s" "held_ok H s" and r: "log_room 1 s" and b: "data_block s b" "used s (unat b)"
  shows "\<exists>s'. bfree 1 b s = Inr s' \<and> tx_ok H s' \<and> frees (unat b) s s' \<and>
    tx_step 1 ((blk s)(mapblock s (unat b) := map_clear (unat b mod BPB) (blk s (mapblock s (unat b))))) s s'"
proof -
  obtain s0 where s0: "readsb 1 s = Inr (sb s, s0)" "s0\<lparr>sb := sb s\<rparr> = s0" "tx_ok H s0" "tx_step 0 (blk s) s s0"
    using readsb_ok [OF tx ok r] by blast
  note e = fs_same [OF s0(4)]
  have bo: "bio_ok H s0" using s0(3) by (simp add: tx_ok_def)
  have o: "fs_ok s0" "held_ok H s0" and g: "geom s0" and d: "disksize s0 < 2 ^ 31" and b': "dstart s0 \<le> unat b" "unat b < fsize s0"
    using ok b e bio_okD(7) [OF bo] by (simp_all add: fs_ok_def data_block_def)
  note mb = mapblock_ok [OF g d b'(2)]
  let ?x = "map_clear (unat b mod BPB) (blk s0 (mapblock s0 (unat b)))"
  have l: "length ?x = 512" using blk_length [OF bo mb(3)] by simp
  have nr: "mapblock s0 (unat b) \<notin> ran H" "card (dom H) \<le> 1" using o(2) mb(2) by (auto simp: held_ok_def is_map_def data_block_def)
  obtain i s1 s2 where s2: "bread 1 (mapblock s0 (unat b)) s0 = Inr (i, s1)" "bdata (bufat s1 i) = blk s0 (mapblock s0 (unat b))"
    "kbind (log_write i (set_bdata i ?x s1)) (brelse i) = Inr s2" "tx_ok H s2" "tx_step 1 ((blk s0)(mapblock s0 (unat b) := ?x)) s0 s2"
    using rmw_step [OF s0(3) mb(3) nr log_room_same [OF r s0(4)] mb(4) l] by blast
  have bb: "BBLOCK b (sb s0) = mapblock s0 (unat b)" using mb(5) by simp
  have nf: "\<not> map_free (unat b mod BPB) (blk s0 (mapblock s0 (unat b)))" using b(2) e(2) by (simp add: used_def [symmetric])
  have "bfree 1 b s = Inr s2" unfolding bfree_def s0(1) kbind_Inr prod.case Let_def s0(2) bb using s2(1-3) nf by simp
  moreover have "frees (unat b) s s2" using frees_intro [OF o(1) bo b' s2(5)] e tx_stepD(1) [OF s0(4)] by (simp add: frees_def)
  moreover have "tx_step 1 ((blk s0)(mapblock s0 (unat b) := ?x)) s s2" using tx_step_trans [OF s0(4) s2(5)] by simp
  ultimately show ?thesis using s2(4) e tx_stepD(1) [OF s0(4)] by simp
qed

end
