(* ===== verification/Content.thy ===== *)
theory Content
  imports Balloc
begin

text \<open>
  The contents of a file. An inode's block list and its indirect block give the blocks of the file; its
  bytes are those of the blocks one after the other. The lemmas show that \<open>bmap\<close> extends the block list
  without disturbing other files, that \<open>readi\<close> returns the bytes of the contents, and that \<open>writei\<close>
  replaces them as an abstract file would.
\<close>

section \<open>States that differ in the inode cache\<close>

lemma icache_upd [simp]:
  "blk (s\<lparr>icache := c\<rparr>) = blk s" "logged (s\<lparr>icache := c\<rparr>) = logged s" "tx_ok H (s\<lparr>icache := c\<rparr>) = tx_ok H s"
  "in_log (s\<lparr>icache := c\<rparr>) = in_log s" "disksize (s\<lparr>icache := c\<rparr>) = disksize s" "log_room k (s\<lparr>icache := c\<rparr>) = log_room k s"
  "dstart (s\<lparr>icache := c\<rparr>) = dstart s" "geom (s\<lparr>icache := c\<rparr>) = geom s" "used (s\<lparr>icache := c\<rparr>) = used s"
  "fs_ok (s\<lparr>icache := c\<rparr>) = fs_ok s" "data_block (s\<lparr>icache := c\<rparr>) = data_block s" "is_map (s\<lparr>icache := c\<rparr>) = is_map s"
  "held_ok H (s\<lparr>icache := c\<rparr>) = held_ok H s"
proof -
  let ?s = "s\<lparr>icache := c\<rparr>"
  have b: "bio_ok H ?s = bio_ok H s" "blk ?s = blk s" "dirty_blocks ?s = dirty_blocks s" for H by (rule bio_cong; simp)+
  show "blk ?s = blk s" by (rule b)
  show l: "logged ?s = logged s" "in_log ?s = in_log s" "disksize ?s = disksize s" "dstart ?s = dstart s"
    by (simp_all add: logged_def in_log_def disksize_def dstart_def fun_eq_iff)
  then show "tx_ok H ?s = tx_ok H s" "log_room k ?s = log_room k s" by (simp_all add: tx_ok_def log_area_def log_room_def b)
  show g: "geom ?s = geom s" using l b by (simp add: geom_def)
  show u: "used ?s = used s" by (simp add: used_def mapblock_def b fun_eq_iff)
  show "fs_ok ?s = fs_ok s" using g u l by (simp add: fs_ok_def)
  show d: "data_block ?s = data_block s" "is_map ?s = is_map s" using l by (simp_all add: data_block_def is_map_def fun_eq_iff)
  then show "held_ok H ?s = held_ok H s" using u by (simp add: held_ok_def)
qed

lemma log_frame_icache:
  fixes s t :: "'a kfs_scheme"
  assumes "log_frame s t"
  shows "log_frame (s\<lparr>icache := c\<rparr>) (t\<lparr>icache := c\<rparr>)"
proof -
  have "bio_frame (s\<lparr>lh := lh t\<rparr>) t" using assms by (simp add: log_frame_def)
  then obtain pt sl b d w where t: "t = (s\<lparr>lh := lh t\<rparr>)\<lparr>ptable := pt, sleeplocks := sl, bcache := b, disk := d, disk_writes := w\<rparr>"
    and p: "procs_same (ptable s) pt" "\<forall>i. sl (InodeLock i) = sleeplocks s (InodeLock i)"
    unfolding bio_frame_def by fastforce
  define h where "h = lh t"
  have t': "t = s\<lparr>lh := h, ptable := pt, sleeplocks := sl, bcache := b, disk := d, disk_writes := w\<rparr>" using t by (simp only: h_def)
  show ?thesis using p unfolding t' by (simp add: log_frame_def bio_frame_def)
qed

lemma tx_step_after: "tx_step 0 B s t \<Longrightarrow> tx_step j C t u \<Longrightarrow> tx_step j C s u"
  using tx_step_trans [of 0 B s t j C u] by (simp only: add_0)

text \<open>A step of a transaction that may also change the inode cache.\<close>

definition fs_step :: "nat \<Rightarrow> 'a kfs_scheme \<Rightarrow> 'a kfs_scheme \<Rightarrow> bool" where
  "fs_step k s s' \<longleftrightarrow> log_frame (s\<lparr>icache := icache s'\<rparr>) s' \<and> length (logged s') \<le> length (logged s) + k \<and> disk s' = disk s"

lemma fs_step_tx: "tx_step k B s s' \<Longrightarrow> fs_step k s s'"
  using log_frame_icache [of s s' "icache s'"] by (simp add: tx_step_def fs_step_def)

lemma fs_step_trans:
  assumes "fs_step k s t" "fs_step j t u"
  shows "fs_step (k + j) s u"
proof -
  have "log_frame (s\<lparr>icache := icache u\<rparr>) (t\<lparr>icache := icache u\<rparr>)"
    using log_frame_icache [of "s\<lparr>icache := icache t\<rparr>" t "icache u"] assms(1) by (simp add: fs_step_def)
  then show ?thesis using assms log_frame_trans by (fastforce simp: fs_step_def)
qed

lemma fs_step_icache: "fs_step 0 s (s\<lparr>icache := c\<rparr>)"
  by (simp add: fs_step_def)

lemma fs_step_le: "fs_step k s t \<Longrightarrow> k \<le> j \<Longrightarrow> fs_step j s t"
  by (auto simp: fs_step_def)

lemma fs_stepD:
  assumes "fs_step k s s'"
  shows "sb s' = sb s" "disk s' = disk s" "disksize s' = disksize s" "in_log s' = in_log s" "log_size s' = log_size s" "log_start s' = log_start s"
    "log_outstanding s' = log_outstanding s" "log_committing s' = log_committing s" "dstart s' = dstart s" "data_block s' = data_block s" "is_map s' = is_map s"
    "mapblock s' = mapblock s"
proof -
  have f: "log_frame (s\<lparr>icache := icache s'\<rparr>) s'" using assms by (simp add: fs_step_def)
  show "disk s' = disk s" "disksize s' = disksize s" using assms by (simp_all add: fs_step_def disksize_def)
  show s: "sb s' = sb s" using kfs_frame(2) [OF f] by simp
  show "in_log s' = in_log s" "log_size s' = log_size s" "log_start s' = log_start s" "log_outstanding s' = log_outstanding s"
    "log_committing s' = log_committing s" using log_frameD [OF f] by (simp_all add: in_log_def fun_eq_iff)
  from s show "dstart s' = dstart s" "data_block s' = data_block s" "is_map s' = is_map s" "mapblock s' = mapblock s"
    by (simp_all add: dstart_def data_block_def is_map_def mapblock_def fun_eq_iff)
qed

lemma log_room_fs_step: "log_room (k + j) s \<Longrightarrow> fs_step k s t \<Longrightarrow> log_room j t"
  using fs_stepD(5,7) [of k s t] by (auto simp: fs_step_def log_room_def)

section \<open>The blocks of a file\<close>

definition nb :: "(uint \<Rightarrow> uchar list) \<Rightarrow> uint list \<Rightarrow> nat \<Rightarrow> uint" where
  "nb B A k = (if k < NDIRECT then A ! k else if A ! NDIRECT = 0 then 0 else get32 (B (A ! NDIRECT)) (4 * (k - NDIRECT)))"

definition own :: "(uint \<Rightarrow> uchar list) \<Rightarrow> uint list \<Rightarrow> uint set" where
  "own B A = {n. n \<noteq> 0 \<and> (n = A ! NDIRECT \<or> (\<exists>k < MAXFILE. n = nb B A k))}"

definition map_ok :: "'a kfs_scheme \<Rightarrow> uint list \<Rightarrow> bool" where
  "map_ok s A \<longleftrightarrow> length A = 13 \<and> (\<forall>n \<in> own (blk s) A. data_block s n \<and> used s (unat n)) \<and>
     (\<forall>j < MAXFILE. \<forall>k < MAXFILE. nb (blk s) A j = nb (blk s) A k \<longrightarrow> nb (blk s) A j \<noteq> 0 \<longrightarrow> j = k) \<and>
     (\<forall>k < MAXFILE. nb (blk s) A k \<noteq> 0 \<longrightarrow> nb (blk s) A k \<noteq> A ! NDIRECT)"

definition nfree :: "'a kfs_scheme \<Rightarrow> nat" where
  "nfree s = card {b. b < fsize s \<and> \<not> used s b}"

lemma nfree_pos: "0 < nfree s \<Longrightarrow> \<exists>b < fsize s. \<not> used s b"
  by (auto simp: nfree_def card_gt_0_iff)

lemma nfree_alloc:
  assumes "allocates b s s'" "sb s' = sb s"
  shows "nfree s = Suc (nfree s')"
proof -
  have "{c. c < fsize s \<and> \<not> used s c} = insert b {c. c < fsize s' \<and> \<not> used s' c}" "b \<notin> {c. c < fsize s' \<and> \<not> used s' c}"
    using assms by (auto simp: allocates_def)
  then show ?thesis by (simp add: nfree_def)
qed

text \<open>
  \<open>extends k ip s s'\<close>: the block list of inode \<open>ip\<close> grew. No block of the file moved, no used data block but
  the file's own indirect block changed, nor did the blocks before the free map.
\<close>

definition extends :: "nat \<Rightarrow> nat \<Rightarrow> 'a kfs_scheme \<Rightarrow> 'a kfs_scheme \<Rightarrow> bool" where
  "extends k ip s s' \<longleftrightarrow> fs_step k s s' \<and> fs_ok s' \<and> length (icache s') = length (icache s) \<and>
     (\<forall>j. j \<noteq> ip \<longrightarrow> icache s' ! j = icache s ! j) \<and>
     inode_at s' ip = (inode_at s ip)\<lparr>idata := (din s ip)\<lparr>addrs := addrs (din s' ip)\<rparr>\<rparr> \<and>
     map_ok s' (addrs (din s' ip)) \<and>
     (\<forall>b < fsize s. used s b \<longrightarrow> used s' b) \<and>
     (\<forall>k < MAXFILE. nb (blk s) (addrs (din s ip)) k \<noteq> 0 \<longrightarrow> nb (blk s') (addrs (din s' ip)) k = nb (blk s) (addrs (din s ip)) k) \<and>
     (addrs (din s ip) ! NDIRECT \<noteq> 0 \<longrightarrow> addrs (din s' ip) ! NDIRECT = addrs (din s ip) ! NDIRECT) \<and>
     (\<forall>n. data_block s n \<longrightarrow> used s (unat n) \<longrightarrow> n \<noteq> addrs (din s ip) ! NDIRECT \<longrightarrow> blk s' n = blk s n) \<and>
     (\<forall>n. unat n < mstart s \<longrightarrow> blk s' n = blk s n) \<and>
     own (blk s') (addrs (din s' ip)) \<subseteq> own (blk s) (addrs (din s ip)) \<union> {n. \<not> used s (unat n)}"

lemma extends_refl:
  assumes "fs_ok s" "map_ok s (addrs (din s ip))"
  shows "extends 0 ip s s"
  using assms by (simp add: extends_def fs_step_def)

lemma own_ind: "A ! NDIRECT \<noteq> 0 \<Longrightarrow> A ! NDIRECT \<in> own B A"
  by (simp add: own_def)

lemma own_nb: "k < MAXFILE \<Longrightarrow> nb B A k \<noteq> 0 \<Longrightarrow> nb B A k \<in> own B A"
  by (auto simp: own_def)

lemma extendsD:
  assumes "extends k ip s s'"
  shows "fs_step k s s'" "fs_ok s'" "length (icache s') = length (icache s)" "\<And>j. j \<noteq> ip \<Longrightarrow> icache s' ! j = icache s ! j"
    "inode_at s' ip = (inode_at s ip)\<lparr>idata := (din s ip)\<lparr>addrs := addrs (din s' ip)\<rparr>\<rparr>" "map_ok s' (addrs (din s' ip))"
    "\<And>b. b < fsize s \<Longrightarrow> used s b \<Longrightarrow> used s' b"
    "\<And>k. k < MAXFILE \<Longrightarrow> nb (blk s) (addrs (din s ip)) k \<noteq> 0 \<Longrightarrow> nb (blk s') (addrs (din s' ip)) k = nb (blk s) (addrs (din s ip)) k"
    "addrs (din s ip) ! NDIRECT \<noteq> 0 \<Longrightarrow> addrs (din s' ip) ! NDIRECT = addrs (din s ip) ! NDIRECT"
    "\<And>n. data_block s n \<Longrightarrow> used s (unat n) \<Longrightarrow> n \<noteq> addrs (din s ip) ! NDIRECT \<Longrightarrow> blk s' n = blk s n"
    "\<And>n. unat n < mstart s \<Longrightarrow> blk s' n = blk s n"
    "own (blk s') (addrs (din s' ip)) \<subseteq> own (blk s) (addrs (din s ip)) \<union> {n. \<not> used s (unat n)}"
  using assms unfolding extends_def by blast+

lemma map_okD:
  assumes "map_ok s A"
  shows "length A = 13" "\<And>n. n \<in> own (blk s) A \<Longrightarrow> data_block s n" "\<And>n. n \<in> own (blk s) A \<Longrightarrow> used s (unat n)"
    "\<And>j k. j < MAXFILE \<Longrightarrow> k < MAXFILE \<Longrightarrow> nb (blk s) A j = nb (blk s) A k \<Longrightarrow> nb (blk s) A j \<noteq> 0 \<Longrightarrow> j = k"
    "\<And>k. k < MAXFILE \<Longrightarrow> nb (blk s) A k \<noteq> 0 \<Longrightarrow> nb (blk s) A k \<noteq> A ! NDIRECT"
  using assms unfolding map_ok_def by blast+

lemma data_block_nz: "data_block s n \<Longrightarrow> n \<noteq> 0"
  by (auto simp: data_block_def dstart_def)

lemma extends_own:
  assumes a: "extends k ip s t" and n: "data_block s n" "used s (unat n)" "n \<noteq> addrs (din s ip) ! NDIRECT"
  shows "n \<noteq> addrs (din t ip) ! NDIRECT"
proof
  let ?A = "\<lambda>s. addrs (din s ip)"
  assume e: "n = ?A t ! NDIRECT"
  have n0: "n \<noteq> 0" using n(1) by (rule data_block_nz)
  then have "?A s ! NDIRECT = 0" using extendsD(9) [OF a] n(3) e by argo
  have "n \<in> own (blk t) (?A t)" using own_ind [of "?A t"] e n0 by simp
  then have "n \<in> own (blk s) (?A s)" using extendsD(12) [OF a] n(2) by blast
  then obtain j where j: "j < MAXFILE" "n = nb (blk s) (?A s) j" using n(3) unfolding own_def by blast
  then have "nb (blk t) (?A t) j = n" using extendsD(8) [OF a j(1)] n0 by simp
  then show False using map_okD(5) [OF extendsD(6) [OF a] j(1)] n0 e by argo
qed

lemma extends_trans:
  assumes a: "extends k ip s t" and b: "extends j ip t u"
  shows "extends (k + j) ip s u"
proof -
  let ?A = "\<lambda>s. addrs (din s ip)"
  note a' = extendsD [OF a] and b' = extendsD [OF b]
  note st = fs_stepD [OF a'(1)] fs_stepD [OF b'(1)]
  have d: "fsize t = fsize s" "data_block t = data_block s" "mstart t = mstart s" using st by simp_all
  have keep: "blk u n = blk s n" if n: "data_block s n" "used s (unat n)" "n \<noteq> ?A s ! NDIRECT" for n
  proof -
    have "used t (unat n)" using a'(7) n by (simp add: data_block_def)
    then show ?thesis using b'(10) [of n] a'(10) [OF n] extends_own [OF a n] n(1) d(2) by simp
  qed
  have o: "own (blk u) (?A u) \<subseteq> own (blk s) (?A s) \<union> {n. \<not> used s (unat n)}"
  proof
    fix n
    assume n: "n \<in> own (blk u) (?A u)"
    then have "unat n < fsize s" using map_okD(2) [OF b'(6) n] st d by (simp add: data_block_def)
    then show "n \<in> own (blk s) (?A s) \<union> {n. \<not> used s (unat n)}" using a'(7,12) b'(12) n by blast
  qed
  have "inode_at u ip = ((inode_at s ip)\<lparr>idata := (din s ip)\<lparr>addrs := ?A t\<rparr>\<rparr>)\<lparr>idata := ((din s ip)\<lparr>addrs := ?A t\<rparr>)\<lparr>addrs := ?A u\<rparr>\<rparr>"
    using b'(5) a'(5) by (metis inode.select_convs(5) inode.surjective inode.update_convs(5))
  then have i: "inode_at u ip = (inode_at s ip)\<lparr>idata := (din s ip)\<lparr>addrs := ?A u\<rparr>\<rparr>" by simp
  have nbk: "nb (blk u) (?A u) m = nb (blk s) (?A s) m" if "m < MAXFILE" "nb (blk s) (?A s) m \<noteq> 0" for m
    using that a'(8) b'(8) by simp
  show ?thesis
    unfolding extends_def
    using fs_step_trans [OF a'(1) b'(1)] a'(3,4,7,9,11) b'(2,3,4,6,7,9,11) d nbk i o keep by simp
qed

text \<open>What allocating a block does to the blocks of files.\<close>

lemma alloc_new:
  assumes "allocates b s s'"
  shows "unat (of_nat b :: uint) = b" "(of_nat b :: uint) \<noteq> 0" "data_block s (of_nat b)" "blk s' (of_nat b) = replicate 512 0"
    "\<And>n. unat n < mstart s \<Longrightarrow> blk s' n = blk s n" "\<And>c. c < fsize s \<Longrightarrow> used s' c \<longleftrightarrow> used s c \<or> c = b" "\<not> used s b"
    "\<And>n. data_block s n \<Longrightarrow> used s (unat n) \<Longrightarrow> n \<noteq> of_nat b \<and> blk s' n = blk s n"
proof -
  have b: "dstart s \<le> b" "b < fsize s" and nu: "\<not> used s b" using assms by (simp_all add: allocates_def)
  have k: "blk s' n = (if n = of_nat b then replicate 512 0 else blk s n)" if "\<not> is_map s n" for n
    using assms that unfolding allocates_def by blast
  have "b < 2 ^ 32" using less_trans [OF b(2) uint_less_pow] by simp
  then show u: "unat (of_nat b :: uint) = b" by (rule unat_of_nat_small)
  then show "(of_nat b :: uint) \<noteq> 0" using b by (auto simp: dstart_def)
  show "data_block s (of_nat b)" using b u by (simp add: data_block_def)
  show "blk s' (of_nat b) = replicate 512 0" using k [of "of_nat b"] b u by (simp add: is_map_def)
  show "blk s' n = blk s n" if "unat n < mstart s" for n
    using k [of n] that b u by (auto simp: is_map_def dstart_def)
  show "used s' c \<longleftrightarrow> used s c \<or> c = b" if "c < fsize s" for c using assms that unfolding allocates_def by blast
  show "n \<noteq> of_nat b \<and> blk s' n = blk s n" if "data_block s n" "used s (unat n)" for n
    using k [of n] that u nu by (auto simp: is_map_def data_block_def)
  show "\<not> used s b" by (rule nu)
qed

text \<open>A block list that got one new block, the rest as before.\<close>

lemma map_ok_grows:
  assumes m: "map_ok s A" and al: "allocates b s s1" and len: "length A' = 13"
    and same: "\<And>n. data_block s' n = data_block s n" "\<And>c. c < fsize s \<Longrightarrow> used s' c \<longleftrightarrow> used s1 c"
    and d: "\<And>k. k < MAXFILE \<Longrightarrow> nb (blk s') A' k = (if k = j then of_nat b else nb (blk s) A k)" "j < MAXFILE \<Longrightarrow> nb (blk s) A j = 0"
    and i: "A' ! NDIRECT = (if j < MAXFILE then A ! NDIRECT else of_nat b)" "\<not> j < MAXFILE \<Longrightarrow> A ! NDIRECT = 0"
  shows "map_ok s' A'" "own (blk s') A' \<subseteq> own (blk s) A \<union> {n. \<not> used s (unat n)}"
proof -
  note a = alloc_new [OF al]
  let ?b = "of_nat b :: uint"
  have bo: "?b \<notin> own (blk s) A" using map_okD(3) [OF m, of ?b] a(1,7) by auto
  have o: "own (blk s') A' \<subseteq> insert ?b (own (blk s) A)"
  proof
    fix n
    assume "n \<in> own (blk s') A'"
    then have n: "n \<noteq> 0" "n = A' ! NDIRECT \<or> (\<exists>k < MAXFILE. n = nb (blk s') A' k)" by (auto simp: own_def)
    then show "n \<in> insert ?b (own (blk s) A)"
      using d(1) i(1) own_ind [of A "blk s"] own_nb [of _ "blk s" A] by (auto split: if_splits)
  qed
  then show "own (blk s') A' \<subseteq> own (blk s) A \<union> {n. \<not> used s (unat n)}" using a(1,7) by auto
  have ud: "data_block s' n \<and> used s' (unat n)" if "n \<in> own (blk s') A'" for n
  proof (cases "n = ?b")
    case True
    have "b < fsize s" using a(1,3) by (simp add: data_block_def)
    then show ?thesis using True a(1,3,6) same by simp
  next
    case False
    then have "n \<in> own (blk s) A" using that o by blast
    then have "data_block s n" "used s (unat n)" using map_okD(2,3) [OF m] by blast+
    then show ?thesis using a(6) same by (simp add: data_block_def)
  qed
  have nbo: "nb (blk s) A k \<noteq> ?b" if "k < MAXFILE" for k using own_nb [OF that, of "blk s" A] bo a(2) by auto
  have indo: "A ! NDIRECT \<noteq> ?b" using own_ind [of A "blk s"] bo a(2) by auto
  have inj: "p = q" if pq: "p < MAXFILE" "q < MAXFILE" "nb (blk s') A' p = nb (blk s') A' q" "nb (blk s') A' p \<noteq> 0" for p q
    using pq d(1) [OF pq(1)] d(1) [OF pq(2)] nbo [OF pq(1)] nbo [OF pq(2)] map_okD(4) [OF m pq(1,2)] by (auto split: if_splits)
  have ind: "nb (blk s') A' k \<noteq> A' ! NDIRECT" if k: "k < MAXFILE" "nb (blk s') A' k \<noteq> 0" for k
    using k d(1) [OF k(1)] i indo nbo [OF k(1)] map_okD(5) [OF m k(1)] by (auto split: if_splits)
  show "map_ok s' A'" using len ud inj ind by (auto simp: map_ok_def)
qed

text \<open>The inode that a call works on.\<close>

definition ino_at :: "nat \<Rightarrow> 'a kfs_scheme \<Rightarrow> bool" where
  "ino_at ip s \<longleftrightarrow> ip < length (icache s) \<and> i_dev (inode_at s ip) = 1"

lemma nb_slot:
  assumes m: "map_ok s A" and al: "allocates b s s1" and j: "j \<le> NDIRECT" "A ! j = 0" and k: "k < MAXFILE"
  shows "nb (blk s1) (A[j := of_nat b]) k = (if k = j \<and> j < NDIRECT then of_nat b else nb (blk s) A k)"
proof (cases "k < NDIRECT")
  case True
  then show ?thesis using map_okD(1) [OF m] by (auto simp: nb_def nth_list_update NDIRECT_def)
next
  case False
  have l: "length A = 13" by (rule map_okD(1) [OF m])
  show ?thesis
  proof (cases "j = NDIRECT")
    case True
    have "4 * (k - NDIRECT) + 4 \<le> 512" using k by (simp add: MAXFILE_def NDIRECT_def NINDIRECT_def)
    then have "get32 (replicate 512 0) (4 * (k - NDIRECT)) = 0" using zero_block_head by (simp add: zero_block_def)
    then show ?thesis using False True j(2) l alloc_new(4) [OF al] by (simp add: nb_def NDIRECT_def)
  next
    case jn: False
    have "blk s1 (A ! NDIRECT) = blk s (A ! NDIRECT)" if "A ! NDIRECT \<noteq> 0"
      using alloc_new(8) [OF al] map_okD(2,3) [OF m own_ind [OF that]] by blast
    then show ?thesis using False jn j(1) by (auto simp: nb_def)
  qed
qed

lemma bmap_slot_ok:
  fixes s :: "'a kfs_scheme"
  assumes tx: "tx_ok Map.empty s" "fs_ok s" "log_room 2 s" and ip: "ino_at ip s" and m: "map_ok s (addrs (din s ip))"
    and j: "j \<le> NDIRECT" and free: "addrs (din s ip) ! j = 0 \<Longrightarrow> 0 < nfree s"
  shows "\<exists>s'. bmap_slot ip j s = Inr (addrs (din s' ip) ! j, s') \<and> tx_ok Map.empty s' \<and> extends 2 ip s s' \<and> addrs (din s' ip) ! j \<noteq> 0 \<and>
    (nfree s' + (if addrs (din s ip) ! j = 0 then 1 else 0) = nfree s)"
proof (cases "addrs (din s ip) ! j = 0")
  case False
  have "extends 2 ip s s" using extends_refl [OF tx(2) m] by (auto simp: extends_def fs_step_def)
  then show ?thesis using False tx(1) by (intro exI [of _ s]) (simp add: bmap_slot_def)
next
  case True
  let ?A = "addrs (din s ip)"
  obtain b s1 B where s1: "balloc 1 s = Inr (of_nat b, s1)" "tx_ok Map.empty s1" "allocates b s s1" "tx_step 2 B s s1"
    using balloc_ok [OF tx(1,2) held_ok_empty tx(3) nfree_pos [OF free [OF True]]] by blast
  note a = alloc_new [OF s1(3)]
  have ic: "icache s1 = icache s" "sb s1 = sb s" using kfs_frame [OF tx_stepD(2) [OF s1(4)]] by blast+
  define s' where "s' = upd_din ip (\<lambda>d. d\<lparr>addrs := (addrs d)[j := of_nat b]\<rparr>) s1"
  have ips: "ip < length (icache s)" "i_dev (inode_at s ip) = 1" using ip by (simp_all add: ino_at_def)
  have in': "inode_at s' ip = (inode_at s ip)\<lparr>idata := (din s ip)\<lparr>addrs := ?A[j := of_nat b]\<rparr>\<rparr>" "length (icache s') = length (icache s)"
    "\<And>i. i \<noteq> ip \<Longrightarrow> icache s' ! i = icache s ! i" using ips(1) ic by (simp_all add: s'_def upd_inode_def)
  have bs: "blk s' = blk s1" "used s' = used s1" "fs_ok s'" "tx_ok Map.empty s'"
    using s1(2,3) by (simp_all add: s'_def upd_inode_def allocates_def)
  have st: "fs_step 2 s s'" using fs_step_trans [OF fs_step_tx [OF s1(4)] fs_step_icache] by (simp add: s'_def upd_inode_def)
  note sd = fs_stepD [OF st]
  have l: "length ?A = 13" by (rule map_okD(1) [OF m])
  let ?j = "if j < NDIRECT then j else MAXFILE"
  have nbs: "nb (blk s') (?A[j := of_nat b]) k = (if k = ?j then of_nat b else nb (blk s) ?A k)" if "k < MAXFILE" for k
  proof -
    have e: "nb (blk s1) (?A[j := of_nat b]) k = (if k = j \<and> j < NDIRECT then of_nat b else nb (blk s) ?A k)"
      by (rule nb_slot [OF m s1(3) j True that])
    have "k = ?j \<longleftrightarrow> k = j \<and> j < NDIRECT" using that by simp
    then show ?thesis by (simp only: bs(1) e)
  qed
  have j0: "nb (blk s) ?A ?j = 0" if "?j < MAXFILE" using that True by (auto simp: nb_def split: if_splits)
  have ji: "?A[j := of_nat b] ! NDIRECT = (if ?j < MAXFILE then ?A ! NDIRECT else of_nat b)"
    using j l by (auto simp: MAXFILE_def NDIRECT_def NINDIRECT_def nth_list_update)
  have jm: "\<not> ?j < MAXFILE \<Longrightarrow> ?A ! NDIRECT = 0" using j True by (auto simp: MAXFILE_def split: if_splits)
  have len: "length (?A[j := of_nat b]) = 13" and same: "\<And>n. data_block s' n = data_block s n" "\<And>c. c < fsize s \<Longrightarrow> used s' c \<longleftrightarrow> used s1 c"
    using l sd(10) bs(2) by simp_all
  note mk = map_ok_grows [OF m s1(3) len same nbs j0 ji jm]
  have nf: "nfree s = Suc (nfree s')" using nfree_alloc [OF s1(3) ic(2)] sd(1) ic(2) bs(2) by (simp add: nfree_def)
  have "extends 2 ip s s'" unfolding extends_def
    using st bs(3) in' mk nf a(5,6,8) bs(1,2) nbs j0 True j l
    by (auto simp: nth_list_update_neq)
  moreover have "bmap_slot ip j s = Inr (of_nat b, s')" using True s1(1) ips(2) by (simp add: bmap_slot_def s'_def)
  ultimately show ?thesis using bs(4) in'(1) a(2) l j nf True by (intro exI [of _ s']) (simp add: NDIRECT_def)
qed

text \<open>Blocks outside the free map and the super block do not matter to the map.\<close>

lemma other_write_ok:
  assumes st: "tx_step k ((blk s)(n := x)) s s'" and ok: "fs_ok s" "bio_ok H s" and n: "\<not> is_map s n" "n \<noteq> 1"
  shows "\<And>b. b < fsize s \<Longrightarrow> used s' b = used s b" "fs_ok s'" "nfree s' = nfree s"
proof -
  have g: "geom s" and d: "disksize s < 2 ^ 31" using ok bio_okD(7) [OF ok(2)] by (simp_all add: fs_ok_def)
  note sd = fs_stepD [OF fs_step_tx [OF st]]
  show u: "used s' b = used s b" if "b < fsize s" for b
  proof -
    have "mapblock s b \<noteq> n" using mapblock_ok(2) [OF g d that] n(1) by blast
    then show ?thesis using tx_stepD(1) [OF st] sd(12) by (simp add: used_def)
  qed
  have "geom s'" using geom_step [OF st g] n(2) by simp
  moreover have "used s' b" if "b < dstart s" for b
    using that ok(1) g u [of b] by (simp add: fs_ok_def geom_def)
  ultimately show "fs_ok s'" using sd(9) by (simp add: fs_ok_def)
  show "nfree s' = nfree s" using u sd(1) by (auto simp: nfree_def intro!: arg_cong [of _ _ card])
qed

lemma extends_same:
  assumes "tx_step 0 (blk s) s s'" "fs_ok s" "map_ok s (addrs (din s ip))"
  shows "extends 0 ip s s'" "map_ok s' A = map_ok s A" "nfree s' = nfree s" "icache s' = icache s" "ino_at ip s' = ino_at ip s"
proof -
  note e = fs_same [OF assms(1)] and t = tx_stepD [OF assms(1)]
  show i: "icache s' = icache s" by (rule kfs_frame(1) [OF t(2)])
  show m: "map_ok s' A = map_ok s A" for A using e t(1) by (simp add: map_ok_def)
  show "nfree s' = nfree s" "ino_at ip s' = ino_at ip s" using e i by (simp_all add: nfree_def ino_at_def)
  show "extends 0 ip s s'" using assms e t(1) i m fs_step_tx [OF assms(1)] by (simp add: extends_def)
qed

lemma ind_block:
  assumes "fs_ok s" "bio_ok H s" "map_ok s A" "A ! NDIRECT \<noteq> 0"
  shows "data_block s (A ! NDIRECT)" "used s (unat (A ! NDIRECT))" "unat (A ! NDIRECT) < disksize s" "\<not> in_log s (unat (A ! NDIRECT))"
    "\<not> is_map s (A ! NDIRECT)" "A ! NDIRECT \<noteq> 1" "length (blk s (A ! NDIRECT)) = 512"
proof -
  show d: "data_block s (A ! NDIRECT)" "used s (unat (A ! NDIRECT))" using map_okD(2,3) [OF assms(3) own_ind [OF assms(4)]] by blast+
  have g: "geom s" using assms(1) by (simp add: fs_ok_def)
  then show l: "unat (A ! NDIRECT) < disksize s" "\<not> in_log s (unat (A ! NDIRECT))" "\<not> is_map s (A ! NDIRECT)" "A ! NDIRECT \<noteq> 1"
    using d(1) by (auto simp: geom_def data_block_def dstart_def in_log_def is_map_def)
  show "length (blk s (A ! NDIRECT)) = 512" by (rule blk_length [OF assms(2) l(1)])
qed

lemma nb_ind_write:
  assumes "A ! NDIRECT \<noteq> 0" "length d = 512" "m < NINDIRECT" "k < MAXFILE" "B' (A ! NDIRECT) = put32 d (4 * m) x" "B (A ! NDIRECT) = d"
  shows "nb B' A k = (if k = NDIRECT + m then x else nb B A k)"
proof (cases "k < NDIRECT")
  case True
  then show ?thesis by (simp add: nb_def)
next
  case False
  have "4 * m + 4 \<le> length d" using assms by (simp add: NINDIRECT_def)
  moreover have "4 * (k - NDIRECT) + 4 \<le> 4 * m \<or> 4 * m + 4 \<le> 4 * (k - NDIRECT)" if "k - NDIRECT \<noteq> m" using that by linarith
  ultimately show ?thesis using False assms by (auto simp: nb_def)
qed

text \<open>A zero entry of the indirect block is filled.\<close>

lemma bmap_ind_alloc:
  fixes s :: "'a kfs_scheme"
  assumes tx: "tx_ok Map.empty s" "fs_ok s" "log_room 3 s" and ip: "ino_at ip s" and mo: "map_ok s (addrs (din s ip))"
    and a: "addrs (din s ip) ! NDIRECT \<noteq> 0" and m: "m < NINDIRECT" and z: "nb (blk s) (addrs (din s ip)) (NDIRECT + m) = 0"
    and free: "0 < nfree s"
  shows "\<exists>s' x. bmap_ind ip (addrs (din s ip) ! NDIRECT) m s = Inr (x, s') \<and> tx_ok Map.empty s' \<and> extends 3 ip s s' \<and>
    icache s' = icache s \<and> nb (blk s') (addrs (din s ip)) (NDIRECT + m) = x \<and> x \<noteq> 0 \<and> nfree s = Suc (nfree s')"
proof -
  let ?A = "addrs (din s ip)" let ?n = "?A ! NDIRECT" let ?k = "NDIRECT + m"
  have bo: "bio_ok Map.empty s" using tx(1) by (simp add: tx_ok_def)
  note ib = ind_block [OF tx(2) bo mo a]
  have dev: "i_dev (inode_at s ip) = 1" using ip by (simp add: ino_at_def)
  obtain i s2 where s2: "bread 1 ?n s = Inr (i, s2)" "tx_ok [i \<mapsto> ?n] s2" "tx_step 0 (blk s) s s2" "bdata (bufat s2 i) = blk s ?n"
    using bread_step [OF tx(1) ib(3) _ _ log_room_len [OF tx(3)]] by auto
  note e2 = fs_same [OF s2(3)] extends_same [OF s2(3) tx(2) mo]
  have h: "held_ok [i \<mapsto> ?n] s2" using ib(1,2) e2 by (simp add: held_ok_def)
  have r2: "log_room 3 s2" by (rule log_room_same [OF tx(3) s2(3)])
  obtain b s3 B where s3: "balloc 1 s2 = Inr (of_nat b, s3)" "tx_ok [i \<mapsto> ?n] s3" "allocates b s2 s3" "tx_step 2 B s2 s3"
    using balloc_ok [OF s2(2) _ h log_room_le [OF r2] nfree_pos] e2(4,13) tx(2) free by fastforce
  have al: "allocates b s s3" using s3(3) e2(9) by simp
  note an = alloc_new [OF al]
  have n3: "blk s3 ?n = blk s ?n" "?n \<noteq> of_nat b" using an(8) ib by blast+
  note d3 = fs_stepD [OF fs_step_tx [OF s3(4)]]
  have b3: "bio_ok [i \<mapsto> ?n] s3" using s3(2) by (simp add: tx_ok_def)
  have bd: "bdata (bufat s3 i) = blk s ?n" using held_data(1) [OF b3, of i ?n] n3(1) by simp
  let ?x = "put32 (blk s ?n) (4 * m) (of_nat b)"
  have st3: "tx_step 2 B s s3" by (rule tx_step_after [OF s2(3) s3(4)])
  obtain s4 where s4: "log_write i (set_bdata i ?x s3) = Inr s4" "tx_ok [i \<mapsto> ?n] s4" "tx_step 1 ((blk s3)(?n := ?x)) s3 s4"
    using log_write_step [OF s3(2), of i ?n ?x] ib tx_stepD(5) [OF st3] log_room_step [of 2 1, OF _ st3] tx(3) by auto
  obtain s5 where s5: "brelse i s4 = Inr s5" "tx_ok Map.empty s5" "tx_step 0 (blk s4) s4 s5"
    using brelse_step [OF s4(2), of i ?n] by auto
  have st35: "tx_step 1 ((blk s3)(?n := ?x)) s3 s5" using tx_step_trans [OF s4(3) s5(3)] tx_stepD(1) [OF s4(3)] by simp
  have st: "tx_step 3 ((blk s3)(?n := ?x)) s s5" using tx_step_trans [OF st3 st35] by simp
  have f3: "fs_ok s3" using al by (simp add: allocates_def)
  have m3: "\<not> is_map s3 ?n" "?n \<noteq> 1" using ib d3(11) e2(6) by simp_all
  note w = other_write_ok [OF st35 f3 b3 m3]
  note d5 = fs_stepD [OF fs_step_tx [OF st]]
  have ic: "icache s5 = icache s" by (rule kfs_frame(1) [OF tx_stepD(2) [OF st]])
  have b5: "blk s5 = (blk s3)(?n := ?x)" by (rule tx_stepD(1) [OF st])
  have us: "used s5 c \<longleftrightarrow> used s3 c" if "c < fsize s" for c using w(1) that d3(1) e2(1) by simp
  have nbs: "nb (blk s5) ?A k = (if k = ?k then of_nat b else nb (blk s) ?A k)" if "k < MAXFILE" for k
    by (rule nb_ind_write [OF a ib(7) m that]) (simp_all add: b5)
  have km: "?k < MAXFILE" using m by (simp add: MAXFILE_def)
  have same: "\<And>n. data_block s5 n = data_block s n" and ai: "?A ! NDIRECT = (if ?k < MAXFILE then ?A ! NDIRECT else of_nat b)"
    using d5(10) km by simp_all
  have g: "map_ok s5 ?A" "own (blk s5) ?A \<subseteq> own (blk s) ?A \<union> {n. \<not> used s (unat n)}"
    using map_ok_grows [OF mo al map_okD(1) [OF mo] same us nbs z ai] km by blast+
  have u5: "used s b \<Longrightarrow> used s5 b" if "b < fsize s" for b using us an(6) that by simp
  have k5: "blk s5 n = blk s n" if "data_block s n" "used s (unat n)" "n \<noteq> ?n" for n using an(8) that b5 by simp
  have l5: "blk s5 n = blk s n" if "unat n < mstart s" for n
  proof -
    have "n \<noteq> ?n" using that ib(1) by (auto simp: data_block_def dstart_def)
    then show ?thesis using an(5) [OF that] b5 by simp
  qed
  have ex: "extends 3 ip s s5" unfolding extends_def
    using fs_step_tx [OF st] w(2) ic g u5 k5 l5 nbs z by auto
  have nf: "nfree s = Suc (nfree s5)" using nfree_alloc [OF al] w(3) d3(1) e2(1) by simp
  have z': "get32 (blk s ?n) (4 * m) = 0" using z a by (simp add: nb_def)
  have dev2: "i_dev (inode_at s2 ip) = 1" using dev e2(14) by simp
  have "bmap_ind ip ?n m s = Inr (of_nat b, s5)"
    using s2(1,4) s3(1) s4(1) s5(1) bd dev dev2 z' by (simp add: bmap_ind_def)
  then show ?thesis using s5(2) ex ic nbs [OF km] an(2) nf by (intro exI [of _ s5] exI [of _ "of_nat b"]) simp
qed

lemma unat_block_no: "k < MAXFILE \<Longrightarrow> unat (of_nat k :: uint) = k"
  by (rule unat_of_nat_small) (simp add: MAXFILE_def NDIRECT_def NINDIRECT_def)

text \<open>A block that the file has.\<close>

lemma bmap_mapped:
  fixes s :: "'a kfs_scheme"
  assumes tx: "tx_ok Map.empty s" "fs_ok s" "length (logged s) \<le> 28" and ip: "ino_at ip s" and mo: "map_ok s (addrs (din s ip))"
    and k: "k < MAXFILE" "nb (blk s) (addrs (din s ip)) k \<noteq> 0"
  shows "\<exists>s'. bmap ip (of_nat k) s = Inr (nb (blk s) (addrs (din s ip)) k, s') \<and> tx_ok Map.empty s' \<and> tx_step 0 (blk s) s s'"
proof (cases "k < NDIRECT")
  case True
  then show ?thesis using k unat_block_no [OF k(1)] tx(1)
    by (intro exI [of _ s]) (simp add: bmap_def bmap_slot_def nb_def tx_step_def)
next
  case False
  let ?A = "addrs (din s ip)" let ?n = "?A ! NDIRECT"
  have a: "?n \<noteq> 0" and x: "get32 (blk s ?n) (4 * (k - NDIRECT)) \<noteq> 0" using k(2) False by (auto simp: nb_def split: if_splits)
  have bo: "bio_ok Map.empty s" using tx(1) by (simp add: tx_ok_def)
  note ib = ind_block [OF tx(2) bo mo a]
  have dev: "i_dev (inode_at s ip) = 1" using ip by (simp add: ino_at_def)
  obtain i s2 where s2: "bread 1 ?n s = Inr (i, s2)" "tx_ok [i \<mapsto> ?n] s2" "tx_step 0 (blk s) s s2" "bdata (bufat s2 i) = blk s ?n"
    using bread_step [OF tx(1) ib(3) _ _ tx(3)] by auto
  obtain s3 where s3: "brelse i s2 = Inr s3" "tx_ok Map.empty s3" "tx_step 0 (blk s2) s2 s3"
    using brelse_step [OF s2(2), of i ?n] by auto
  have st: "tx_step 0 (blk s) s s3" using tx_step_after [OF s2(3) s3(3)] tx_stepD(1) [OF s2(3)] by simp
  have "bmap_ind ip ?n (k - NDIRECT) s = Inr (nb (blk s) ?A k, s3)"
    using s2(1,4) s3(1) dev x a False by (simp add: bmap_ind_def nb_def)
  then have "bmap ip (of_nat k) s = Inr (nb (blk s) ?A k, s3)"
    using False k(1) unat_block_no [OF k(1)] a by (simp add: bmap_def bmap_slot_def MAXFILE_def)
  with s3(2) st show ?thesis by blast
qed

text \<open>Room for new blocks; the indirect block, once allocated, needs none.\<close>

definition avail :: "nat \<Rightarrow> 'a kfs_scheme \<Rightarrow> nat" where
  "avail ip s = nfree s + (if addrs (din s ip) ! NDIRECT \<noteq> 0 then 1 else 0)"

lemma extends_le: "extends k ip s t \<Longrightarrow> k \<le> j \<Longrightarrow> extends j ip s t"
  using fs_step_le [of k s t j] by (simp add: extends_def)

lemma extends_fields:
  assumes "extends k ip s t"
  shows "i_dev (inode_at t ip) = i_dev (inode_at s ip)" "inum (inode_at t ip) = inum (inode_at s ip)"
    "isize (din t ip) = isize (din s ip)" "itype (din t ip) = itype (din s ip)"
  using arg_cong [OF extendsD(5) [OF assms], of i_dev] arg_cong [OF extendsD(5) [OF assms], of inum]
    arg_cong [OF extendsD(5) [OF assms], of "\<lambda>i. isize (idata i)"] arg_cong [OF extendsD(5) [OF assms], of "\<lambda>i. itype (idata i)"]
  by simp_all

lemma extends_ino: "extends k ip s t \<Longrightarrow> ino_at ip t = ino_at ip s"
  using extendsD(3) [of k ip s t] extends_fields(1) [of k ip s t] by (simp add: ino_at_def)

lemma bmap_ok:
  fixes s :: "'a kfs_scheme"
  assumes tx: "tx_ok Map.empty s" "fs_ok s" "log_room 5 s" and ip: "ino_at ip s" and mo: "map_ok s (addrs (din s ip))"
    and k: "k < MAXFILE" and av: "2 \<le> avail ip s"
  shows "\<exists>s'. bmap ip (of_nat k) s = Inr (nb (blk s') (addrs (din s' ip)) k, s') \<and> tx_ok Map.empty s' \<and> extends 5 ip s s' \<and>
    nb (blk s') (addrs (din s' ip)) k \<noteq> 0 \<and> avail ip s \<le> avail ip s' + 1"
proof -
  let ?A = "\<lambda>s. addrs (din s ip)"
  have r2: "log_room 2 s" by (rule log_room_le [OF tx(3)]) simp
  show ?thesis
  proof (cases "k < NDIRECT")
    case True
    then have "k \<le> NDIRECT" by simp
    moreover have "0 < nfree s" using av by (simp add: avail_def split: if_splits)
    ultimately obtain s' where s': "bmap_slot ip k s = Inr (?A s' ! k, s')" "tx_ok Map.empty s'" "extends 2 ip s s'" "?A s' ! k \<noteq> 0"
      "nfree s' + (if ?A s ! k = 0 then 1 else 0) = nfree s" using bmap_slot_ok [OF tx(1,2) r2 ip mo] by blast
    have "avail ip s \<le> avail ip s' + 1" using s'(5) extendsD(9) [OF s'(3)] by (simp add: avail_def split: if_splits)
    then show ?thesis using s' True unat_block_no [OF k] extends_le [OF s'(3), of 5] by (intro exI [of _ s']) (simp add: bmap_def nb_def)
  next
    case False
    have "0 < nfree s" if "?A s ! NDIRECT = 0" using av that by (simp add: avail_def)
    then obtain s1 where s1: "bmap_slot ip NDIRECT s = Inr (?A s1 ! NDIRECT, s1)" "tx_ok Map.empty s1" "extends 2 ip s s1" "?A s1 ! NDIRECT \<noteq> 0"
      "nfree s1 + (if ?A s ! NDIRECT = 0 then 1 else 0) = nfree s" using bmap_slot_ok [OF tx(1,2) r2 ip mo, of NDIRECT] by blast
    note e1 = extendsD [OF s1(3)]
    let ?m = "k - NDIRECT"
    have m: "?m < NINDIRECT" "NDIRECT + ?m = k" using k False by (simp_all add: MAXFILE_def)
    have av1: "avail ip s1 = avail ip s" "0 < nfree s1" using s1(4,5) av by (auto simp: avail_def split: if_splits)
    have r1: "log_room 3 s1" using log_room_fs_step [OF _ e1(1), of 3] tx(3) by simp
    have ip1: "ino_at ip s1" using extends_ino [OF s1(3)] ip by simp
    have b: "bmap ip (of_nat k) s = bmap_ind ip (?A s1 ! NDIRECT) ?m s1"
      using s1(1) False unat_block_no [OF k] m by (simp add: bmap_def)
    show ?thesis
    proof (cases "nb (blk s1) (?A s1) k = 0")
      case True
      obtain s' x where s': "bmap_ind ip (?A s1 ! NDIRECT) ?m s1 = Inr (x, s')" "tx_ok Map.empty s'" "extends 3 ip s1 s'"
        "icache s' = icache s1" "nb (blk s') (?A s1) (NDIRECT + ?m) = x" "x \<noteq> 0" "nfree s1 = Suc (nfree s')"
        using bmap_ind_alloc [OF s1(2) e1(2) r1 ip1 e1(6) s1(4) m(1) _ av1(2)] True m(2) by auto
      have "avail ip s \<le> avail ip s' + 1" using av1(1) s'(4,7) by (simp add: avail_def)
      then show ?thesis using b s' m(2) extends_trans [OF s1(3) s'(3)] by (intro exI [of _ s']) simp
    next
      case nz: False
      obtain s' where s': "bmap ip (of_nat k) s1 = Inr (nb (blk s1) (?A s1) k, s')" "tx_ok Map.empty s'" "tx_step 0 (blk s1) s1 s'"
        using bmap_mapped [OF s1(2) e1(2) log_room_len [OF r1] ip1 e1(6) k nz] by blast
      note es = extends_same [OF s'(3) e1(2,6)]
      have "bmap_ind ip (?A s1 ! NDIRECT) ?m s1 = Inr (nb (blk s1) (?A s1) k, s')"
        using s'(1) False unat_block_no [OF k] m s1(4) by (simp add: bmap_def bmap_slot_def)
      then show ?thesis using b s'(2) nz es(3,4) tx_stepD(1) [OF s'(3)] av1(1) extends_le [OF extends_trans [OF s1(3) es(1)], of 5]
        by (intro exI [of _ s']) (simp add: avail_def)
    qed
  qed
qed

section \<open>Reading\<close>

definition byte :: "(uint \<Rightarrow> uchar list) \<Rightarrow> uint list \<Rightarrow> nat \<Rightarrow> uchar" where
  "byte B A i = B (nb B A (i div BSIZE)) ! (i mod BSIZE)"

text \<open>The contents of the file of a cached inode, and what makes the inode a well-formed file.\<close>

definition fdata :: "'a kfs_scheme \<Rightarrow> nat \<Rightarrow> uchar list" where
  "fdata s ip = map (byte (blk s) (addrs (din s ip))) [0..<unat (isize (din s ip))]"

definition file_ok :: "nat \<Rightarrow> 'a kfs_scheme \<Rightarrow> bool" where
  "file_ok ip s \<longleftrightarrow> ino_at ip s \<and> map_ok s (addrs (din s ip)) \<and> itype (din s ip) \<noteq> T_DEV \<and> unat (isize (din s ip)) \<le> MAXFILE * BSIZE \<and>
     (\<forall>k. BSIZE * k < unat (isize (din s ip)) \<longrightarrow> nb (blk s) (addrs (din s ip)) k \<noteq> 0)"

lemma length_fdata [simp]: "length (fdata s ip) = unat (isize (din s ip))"
  by (simp add: fdata_def)

lemma off_word:
  assumes "i < 2 ^ 31"
  shows "unat (of_nat i :: uint) = i" "(of_nat i :: uint) div of_nat BSIZE = of_nat (i div BSIZE)"
proof -
  show u: "unat (of_nat i :: uint) = i" by (rule unat_of_nat_small) (use assms in simp)
  have "unat (of_nat (i div BSIZE) :: uint) = i div BSIZE"
    by (rule unat_of_nat_small) (use assms in \<open>simp add: BSIZE_def\<close>)
  then show "(of_nat i :: uint) div of_nat BSIZE = of_nat (i div BSIZE)"
    unfolding word_unat_eq_iff using u by (simp add: unat_div BSIZE_def)
qed

lemma own_block:
  assumes "fs_ok s" "bio_ok H s" "map_ok s A" "n \<in> own (blk s) A"
  shows "data_block s n" "used s (unat n)" "unat n < disksize s" "\<not> in_log s (unat n)" "\<not> is_map s n" "n \<noteq> 1" "length (blk s n) = 512"
proof -
  show d: "data_block s n" "used s (unat n)" using map_okD(2,3) [OF assms(3,4)] by blast+
  have g: "geom s" using assms(1) by (simp add: fs_ok_def)
  then show l: "unat n < disksize s" "\<not> in_log s (unat n)" "\<not> is_map s n" "n \<noteq> 1"
    using d(1) by (auto simp: geom_def data_block_def dstart_def in_log_def is_map_def)
  show "length (blk s n) = 512" by (rule blk_length [OF assms(2) l(1)])
qed

lemma in_block: "i mod BSIZE + j < 512 \<Longrightarrow> (i + j) div BSIZE = i div BSIZE \<and> (i + j) mod BSIZE = i mod BSIZE + j"
proof -
  assume a: "i mod BSIZE + j < 512"
  have "(i + j) mod BSIZE = (i mod BSIZE + j mod BSIZE) mod BSIZE" by (rule mod_add_eq [symmetric])
  moreover have "(i + j) div BSIZE = i div BSIZE + j div BSIZE + (i mod BSIZE + j mod BSIZE) div BSIZE" by (rule div_add1_eq)
  ultimately show ?thesis using a by (simp add: BSIZE_def)
qed

lemma block_slice:
  assumes "length (B (nb B A (i div BSIZE))) = 512" "m \<le> BSIZE - i mod BSIZE"
  shows "take m (drop (i mod BSIZE) (B (nb B A (i div BSIZE)))) = map (byte B A) [i..<i + m]"
proof (rule nth_equalityI)
  have o: "i mod BSIZE < 512" by (simp add: BSIZE_def)
  show "length (take m (drop (i mod BSIZE) (B (nb B A (i div BSIZE))))) = length (map (byte B A) [i..<i + m])"
    using assms o by (simp add: BSIZE_def)
  fix j
  assume "j < length (take m (drop (i mod BSIZE) (B (nb B A (i div BSIZE)))))"
  then have j: "j < m" "i mod BSIZE + j < 512" using assms by auto
  note in_block [OF j(2)]
  with j assms(1) show "take m (drop (i mod BSIZE) (B (nb B A (i div BSIZE)))) ! j = map (byte B A) [i..<i + m] ! j"
    by (simp add: byte_def)
qed

lemma readi_loop_ok:
  fixes s :: "'a kfs_scheme"
  assumes "tx_ok Map.empty s" "fs_ok s" "length (logged s) \<le> 28" "ino_at ip s" "map_ok s (addrs (din s ip))" "i + n \<le> MAXFILE * BSIZE"
    "\<And>k. k * BSIZE < i + n \<Longrightarrow> nb (blk s) (addrs (din s ip)) k \<noteq> 0"
  shows "\<exists>s'. readi_loop ip (of_nat i) n s = Inr (map (byte (blk s) (addrs (din s ip))) [i..<i + n], s') \<and> tx_ok Map.empty s' \<and> tx_step 0 (blk s) s s'"
  using assms
proof (induction n arbitrary: i s rule: less_induct)
  case (less n)
  show ?case
  proof (cases "n = 0")
    case True
    then show ?thesis using less.prems(1) by (intro exI [of _ s]) (simp add: readi_loop.simps [of ip _ 0] tx_step_def)
  next
    case False
    let ?A = "addrs (din s ip)" let ?k = "i div BSIZE" let ?m = "min n (BSIZE - i mod BSIZE)"
    have i: "i < MAXFILE * BSIZE" using less.prems(6) False by simp
    then have k: "?k < MAXFILE" "i < 2 ^ 31" by (simp_all add: less_mult_imp_div_less MAXFILE_def NDIRECT_def NINDIRECT_def BSIZE_def)
    note ow = off_word [OF k(2)]
    have "?k * BSIZE < i + n" using div_mult_mod_eq [of i BSIZE] False by linarith
    then have nz: "nb (blk s) ?A ?k \<noteq> 0" by (rule less.prems(7))
    have bo: "bio_ok Map.empty s" using less.prems(1) by (simp add: tx_ok_def)
    note ob = own_block [OF less.prems(2) bo less.prems(5) own_nb [OF k(1) nz]]
    obtain s1 where s1: "bmap ip (of_nat ?k) s = Inr (nb (blk s) ?A ?k, s1)" "tx_ok Map.empty s1" "tx_step 0 (blk s) s s1"
      using bmap_mapped [OF less.prems(1-5) k(1) nz] by blast
    note t1 = tx_stepD [OF s1(3)] extends_same [OF s1(3) less.prems(2,5)]
    have dev: "i_dev (inode_at s1 ip) = 1" using less.prems(4) t1(11) by (simp add: ino_at_def)
    have l1: "length (logged s1) \<le> 28" "unat (nb (blk s) ?A ?k) < disksize s1" using t1(4,6) less.prems(3) ob(3) by simp_all
    obtain b s2 where s2: "bread 1 (nb (blk s) ?A ?k) s1 = Inr (b, s2)" "tx_ok [b \<mapsto> nb (blk s) ?A ?k] s2" "tx_step 0 (blk s1) s1 s2"
      "bdata (bufat s2 b) = blk s1 (nb (blk s) ?A ?k)" using bread_step [OF s1(2) l1(2) _ _ l1(1)] by auto
    obtain s3 where s3: "brelse b s2 = Inr s3" "tx_ok Map.empty s3" "tx_step 0 (blk s2) s2 s3" using brelse_step [OF s2(2), of b] by auto
    have st: "tx_step 0 (blk s) s s3"
      using tx_step_after [OF s1(3) tx_step_after [OF s2(3) s3(3)]] tx_stepD(1) [OF s2(3)] t1(1) by simp
    note t3 = tx_stepD [OF st] extends_same [OF st less.prems(2,5)]
    have m: "0 < ?m" "?m \<le> n" using False by (simp_all add: BSIZE_def)
    have l3: "length (logged s3) \<le> 28" "ino_at ip s3" "map_ok s3 (addrs (din s3 ip))" "fs_ok s3"
      using t3 less.prems(2-5) extendsD(2) [OF t3(7)] by simp_all
    have "\<exists>s'. readi_loop ip (of_nat (i + ?m)) (n - ?m) s3 = Inr (map (byte (blk s3) (addrs (din s3 ip))) [i + ?m..<i + ?m + (n - ?m)], s') \<and>
        tx_ok Map.empty s' \<and> tx_step 0 (blk s3) s3 s'"
      by (rule less.IH) (use m l3 s3(2) less.prems(6,7) t3(1,10) in simp_all)
    then obtain s4 where s4: "readi_loop ip (of_nat i + of_nat ?m) (n - ?m) s3 = Inr (map (byte (blk s) ?A) [i + ?m..<i + n], s4)"
      "tx_ok Map.empty s4" "tx_step 0 (blk s3) s3 s4" using t3(1,10) m(2) by (auto simp: of_nat_add)
    have sl: "take ?m (drop (i mod BSIZE) (bdata (bufat s2 b))) = map (byte (blk s) ?A) [i..<i + ?m]"
      using block_slice [of "blk s" ?A i ?m] ob(7) s2(4) t1(1) by simp
    have "[i..<i + n] = [i..<i + ?m] @ [i + ?m..<i + n]" using upt_add_eq_append [of i "i + ?m" "n - ?m"] m by simp
    then have "readi_loop ip (of_nat i) n s = Inr (map (byte (blk s) ?A) [i..<i + n], s4)"
      using False ow s1(1) dev s2(1) s3(1) s4(1) sl by (simp add: readi_loop.simps [of ip _ n] Let_def del: upt_Suc)
    then show ?thesis using s4(2) tx_step_after [OF st s4(3)] t3(1) by auto
  qed
qed

lemma file_okD:
  assumes "file_ok ip s"
  shows "ino_at ip s" "map_ok s (addrs (din s ip))" "itype (din s ip) \<noteq> T_DEV" "unat (isize (din s ip)) \<le> 71680"
    "\<And>k. BSIZE * k < unat (isize (din s ip)) \<Longrightarrow> nb (blk s) (addrs (din s ip)) k \<noteq> 0"
  using assms by (auto simp: file_ok_def MAXFILE_def NDIRECT_def NINDIRECT_def BSIZE_def)

lemma sint_small:
  assumes "unat (m :: uint) < 2 ^ 31"
  shows "sint m = int (unat m)"
proof -
  have "int (unat m) < 2 ^ 31" using assms by (simp only: of_nat_less_numeral_power_cancel_iff)
  then have "uint m < 2 ^ 31" by simp
  moreover have "- (2 ^ 31) \<le> uint m" by (rule order.trans [of _ 0]) simp_all
  ultimately have "signed_take_bit 31 (uint m) = uint m" by (intro signed_take_bit_int_eq_self) simp_all
  then show ?thesis by (simp add: sint_uint)
qed

lemma readi_ok:
  fixes s :: "'a kfs_scheme"
  assumes tx: "tx_ok Map.empty s" "fs_ok s" "length (logged s) \<le> 28" and f: "file_ok ip s"
    and off: "off \<le> isize (din s ip)" "unat off + unat n < 2 ^ 32"
  shows "\<exists>s'. readi ip off n s = Inr (int (length (take (unat n) (drop (unat off) (fdata s ip)))), take (unat n) (drop (unat off) (fdata s ip)), s') \<and>
    tx_ok Map.empty s' \<and> tx_step 0 (blk s) s s'"
proof -
  note fd = file_okD [OF f]
  let ?sz = "isize (din s ip)"
  have u: "unat (off + n) = unat off + unat n" by (rule unat_add_small [OF off(2)])
  then have nw: "\<not> off + n < off" by (simp add: word_less_nat_alt)
  have ol: "unat off \<le> unat ?sz" using off(1) by (simp add: word_le_nat_alt)
  define m where "m = (if off + n > ?sz then ?sz - off else n)"
  have m: "unat m = min (unat n) (unat ?sz - unat off)"
    using u ol unat_sub_small [OF off(1)] by (simp add: m_def word_less_nat_alt)
  have sz: "unat off + unat m \<le> unat ?sz" using m ol by simp
  obtain s' where s': "readi_loop ip (of_nat (unat off)) (unat m) s = Inr (map (byte (blk s) (addrs (din s ip))) [unat off..<unat off + unat m], s')"
    "tx_ok Map.empty s'" "tx_step 0 (blk s) s s'"
    using readi_loop_ok [OF tx fd(1,2), of "unat off" "unat m"] sz fd(4,5)
    by (auto simp: MAXFILE_def NDIRECT_def NINDIRECT_def BSIZE_def mult.commute)
  have e: "map (byte (blk s) (addrs (din s ip))) [unat off..<unat off + unat m] = take (unat n) (drop (unat off) (fdata s ip))"
    using m sz by (intro nth_equalityI) (auto simp: fdata_def)
  have "unat m < 2 ^ 31" using sz fd(4) by simp
  then have "sint m = int (unat m)" by (rule sint_small)
  moreover have "length (take (unat n) (drop (unat off) (fdata s ip))) = unat m" using m by simp
  ultimately have "readi ip off n s = Inr (int (length (take (unat n) (drop (unat off) (fdata s ip)))), take (unat n) (drop (unat off) (fdata s ip)), s')"
    using s'(1) e nw leD [OF off(1)] fd(3) by (simp add: readi_def Let_def m_def [symmetric] del: length_take length_drop not_less linorder_not_less)
  with s'(2,3) show ?thesis by blast
qed

section \<open>Writing\<close>

text \<open>
  \<open>evolves k ip s s'\<close>: the blocks of inode \<open>ip\<close> were extended or overwritten. Used blocks of others and the
  blocks before the free map are as they were.
\<close>

definition evolves :: "nat \<Rightarrow> nat \<Rightarrow> 'a kfs_scheme \<Rightarrow> 'a kfs_scheme \<Rightarrow> bool" where
  "evolves k ip s s' \<longleftrightarrow> fs_step k s s' \<and> fs_ok s' \<and> length (icache s') = length (icache s) \<and>
     (\<forall>j. j \<noteq> ip \<longrightarrow> icache s' ! j = icache s ! j) \<and>
     inode_at s' ip = (inode_at s ip)\<lparr>idata := (din s ip)\<lparr>addrs := addrs (din s' ip)\<rparr>\<rparr> \<and>
     map_ok s' (addrs (din s' ip)) \<and>
     (\<forall>b < fsize s. used s b \<longrightarrow> used s' b) \<and>
     (\<forall>k < MAXFILE. nb (blk s) (addrs (din s ip)) k \<noteq> 0 \<longrightarrow> nb (blk s') (addrs (din s' ip)) k = nb (blk s) (addrs (din s ip)) k) \<and>
     (\<forall>n. data_block s n \<longrightarrow> used s (unat n) \<longrightarrow> n \<notin> own (blk s) (addrs (din s ip)) \<longrightarrow> blk s' n = blk s n) \<and>
     (\<forall>n. unat n < mstart s \<longrightarrow> blk s' n = blk s n) \<and>
     own (blk s') (addrs (din s' ip)) \<subseteq> own (blk s) (addrs (din s ip)) \<union> {n. \<not> used s (unat n)}"

lemma evolvesD:
  assumes "evolves k ip s s'"
  shows "fs_step k s s'" "fs_ok s'" "length (icache s') = length (icache s)" "\<And>j. j \<noteq> ip \<Longrightarrow> icache s' ! j = icache s ! j"
    "inode_at s' ip = (inode_at s ip)\<lparr>idata := (din s ip)\<lparr>addrs := addrs (din s' ip)\<rparr>\<rparr>" "map_ok s' (addrs (din s' ip))"
    "\<And>b. b < fsize s \<Longrightarrow> used s b \<Longrightarrow> used s' b"
    "\<And>k. k < MAXFILE \<Longrightarrow> nb (blk s) (addrs (din s ip)) k \<noteq> 0 \<Longrightarrow> nb (blk s') (addrs (din s' ip)) k = nb (blk s) (addrs (din s ip)) k"
    "\<And>n. data_block s n \<Longrightarrow> used s (unat n) \<Longrightarrow> n \<notin> own (blk s) (addrs (din s ip)) \<Longrightarrow> blk s' n = blk s n"
    "\<And>n. unat n < mstart s \<Longrightarrow> blk s' n = blk s n"
    "own (blk s') (addrs (din s' ip)) \<subseteq> own (blk s) (addrs (din s ip)) \<union> {n. \<not> used s (unat n)}"
  using assms unfolding evolves_def by blast+

lemma evolves_le: "evolves k ip s t \<Longrightarrow> k \<le> j \<Longrightarrow> evolves j ip s t"
  using fs_step_le [of k s t j] by (simp add: evolves_def)

lemma evolves_extends: "extends k ip s t \<Longrightarrow> evolves k ip s t"
proof -
  assume a: "extends k ip s t"
  have "blk t n = blk s n" if n: "data_block s n" "used s (unat n)" "n \<notin> own (blk s) (addrs (din s ip))" for n
    using extendsD(10) [OF a n(1,2)] n(3) own_ind [of "addrs (din s ip)" "blk s"] data_block_nz [OF n(1)] by metis
  then show ?thesis unfolding evolves_def using extendsD [OF a] by blast
qed

lemma evolves_trans:
  assumes a: "evolves k ip s t" and b: "evolves j ip t u"
  shows "evolves (k + j) ip s u"
proof -
  let ?A = "\<lambda>s. addrs (din s ip)"
  note a' = evolvesD [OF a] and b' = evolvesD [OF b]
  note st = fs_stepD [OF a'(1)] fs_stepD [OF b'(1)]
  have d: "fsize t = fsize s" "data_block t = data_block s" "mstart t = mstart s" using st by simp_all
  have keep: "blk u n = blk s n" if n: "data_block s n" "used s (unat n)" "n \<notin> own (blk s) (?A s)" for n
  proof -
    have "used t (unat n)" "n \<notin> own (blk t) (?A t)" using a'(7,11) n by (auto simp: data_block_def)
    then show ?thesis using b'(9) [of n] a'(9) [OF n] n(1) d(2) by simp
  qed
  have o: "own (blk u) (?A u) \<subseteq> own (blk s) (?A s) \<union> {n. \<not> used s (unat n)}"
  proof
    fix n
    assume n: "n \<in> own (blk u) (?A u)"
    then have "unat n < fsize s" using map_okD(2) [OF b'(6) n] st d by (simp add: data_block_def)
    then show "n \<in> own (blk s) (?A s) \<union> {n. \<not> used s (unat n)}" using a'(7,11) b'(11) n by blast
  qed
  have "inode_at u ip = ((inode_at s ip)\<lparr>idata := (din s ip)\<lparr>addrs := ?A t\<rparr>\<rparr>)\<lparr>idata := ((din s ip)\<lparr>addrs := ?A t\<rparr>)\<lparr>addrs := ?A u\<rparr>\<rparr>"
    using b'(5) a'(5) by (metis inode.select_convs(5) inode.surjective inode.update_convs(5))
  then have i: "inode_at u ip = (inode_at s ip)\<lparr>idata := (din s ip)\<lparr>addrs := ?A u\<rparr>\<rparr>" by simp
  have nbk: "nb (blk u) (?A u) m = nb (blk s) (?A s) m" if "m < MAXFILE" "nb (blk s) (?A s) m \<noteq> 0" for m
    using that a'(8) b'(8) by simp
  show ?thesis
    unfolding evolves_def
    using fs_step_trans [OF a'(1) b'(1)] a'(3,4,7,10) b'(2,3,4,6,7,10) d nbk i o keep by simp
qed

text \<open>Data written into a block of the file.\<close>

lemma evolves_write:
  assumes st: "tx_step k ((blk s)(a := x)) s s'" and ok: "fs_ok s" "bio_ok H s" and m: "map_ok s (addrs (din s ip))"
    and a: "j < MAXFILE" "a = nb (blk s) (addrs (din s ip)) j" "a \<noteq> 0"
  shows "evolves k ip s s'" "icache s' = icache s" "nb (blk s') (addrs (din s ip)) = nb (blk s) (addrs (din s ip))" "nfree s' = nfree s"
proof -
  let ?A = "addrs (din s ip)"
  have ao: "a \<in> own (blk s) ?A" using own_nb [OF a(1)] a(2,3) by simp
  note ob = own_block [OF ok m ao]
  note w = other_write_ok [OF st ok ob(5,6)]
  have b: "blk s' = (blk s)(a := x)" by (rule tx_stepD(1) [OF st])
  have ai: "a \<noteq> ?A ! NDIRECT" using map_okD(5) [OF m a(1)] a(2,3) by simp
  show ic: "icache s' = icache s" by (rule kfs_frame(1) [OF tx_stepD(2) [OF st]])
  show n: "nb (blk s') ?A = nb (blk s) ?A" using ai by (simp add: nb_def b fun_eq_iff)
  then have o: "own (blk s') ?A = own (blk s) ?A" by (simp add: own_def)
  note sd = fs_stepD [OF fs_step_tx [OF st]]
  have mo: "map_ok s' ?A" using m n o w(1) sd(10) by (simp add: map_ok_def data_block_def)
  have lo: "n \<noteq> a" if "unat n < mstart s" for n using that ob(1) by (auto simp: data_block_def dstart_def)
  show "evolves k ip s s'" unfolding evolves_def
    using fs_step_tx [OF st] w ic mo n o b ao lo by auto
  show "nfree s' = nfree s" by (rule w)
qed

lemma block_of: "x < MAXFILE * BSIZE \<Longrightarrow> x div BSIZE < MAXFILE"
  by (simp add: less_mult_imp_div_less)

lemma block_start: "x < n \<Longrightarrow> BSIZE * (x div BSIZE) < n"
  by (rule le_less_trans [OF times_div_less_eq_dividend])

lemma byte_extends:
  assumes a: "extends k ip s t" and m: "map_ok s (addrs (din s ip))" and x: "x < MAXFILE * BSIZE"
    and nz: "nb (blk s) (addrs (din s ip)) (x div BSIZE) \<noteq> 0"
  shows "byte (blk t) (addrs (din t ip)) x = byte (blk s) (addrs (din s ip)) x"
proof -
  let ?n = "nb (blk s) (addrs (din s ip)) (x div BSIZE)"
  have o: "?n \<in> own (blk s) (addrs (din s ip))" by (rule own_nb [OF block_of [OF x] nz])
  have "blk t ?n = blk s ?n"
    by (rule extendsD(10) [OF a map_okD(2,3) [OF m o] map_okD(5) [OF m block_of [OF x] nz]])
  then show ?thesis using extendsD(8) [OF a block_of [OF x] nz] by (simp add: byte_def)
qed

lemma byte_write:
  assumes m: "map_ok s A" and x: "x < MAXFILE * BSIZE" "nb (blk s) A (x div BSIZE) \<noteq> 0" and j: "j < MAXFILE" "nb (blk s) A j \<noteq> 0"
    and b: "blk s' = (blk s)(nb (blk s) A j := d)" "nb (blk s') A = nb (blk s) A"
  shows "byte (blk s') A x = (if x div BSIZE = j then d ! (x mod BSIZE) else byte (blk s) A x)"
  using map_okD(4) [OF m block_of [OF x(1)] j(1) _ x(2)] b by (auto simp: byte_def)

text \<open>The number of blocks that a transfer touches.\<close>

definition touched :: "nat \<Rightarrow> nat \<Rightarrow> nat" where
  "touched i n = (if n = 0 then 0 else (i mod BSIZE + n + 511) div BSIZE)"

lemma touched_step:
  assumes "0 < n"
  shows "touched i n = Suc (touched (i + min n (BSIZE - i mod BSIZE)) (n - min n (BSIZE - i mod BSIZE)))"
proof -
  let ?o = "i mod BSIZE"
  have o: "?o < 512" by (simp add: BSIZE_def)
  show ?thesis
  proof (cases "n \<le> 512 - ?o")
    case True
    have "(?o + n + 511) div BSIZE = 1" unfolding BSIZE_def
      by (rule div_nat_eqI) (use True assms o in \<open>simp_all add: BSIZE_def\<close>)
    then show ?thesis using True assms by (simp add: touched_def BSIZE_def)
  next
    case False
    have i: "(i + (512 - ?o)) mod BSIZE = 0"
    proof -
      have "i + (512 - ?o) = 512 + 512 * (i div 512)" using mult_div_mod_eq [of 512 i] o unfolding BSIZE_def by linarith
      then show ?thesis by (simp add: BSIZE_def)
    qed
    have "?o + n + 511 = (n - (512 - ?o) + 511) + 512" using False o by simp
    then have "(?o + n + 511) div BSIZE = Suc ((n - (512 - ?o) + 511) div BSIZE)" by (simp only: BSIZE_def) simp
    moreover have "512 < n + i mod 512" using False by (simp add: BSIZE_def)
    ultimately show ?thesis using False i assms by (simp add: touched_def BSIZE_def)
  qed
qed

lemma put_bytes_block:
  assumes "length d = 512" "k + length xs \<le> 512" "y < 512"
  shows "put_bytes d k xs ! y = (if k \<le> y \<and> y < k + length xs then xs ! (y - k) else d ! y)"
  using put_bytes_nth [of y d k xs] assms by simp

text \<open>One block of \<open>writei\<close>: \<open>src\<close> goes into the file at \<open>i\<close> and ends in the same block.\<close>

lemma write_block_ok:
  fixes s :: "'a kfs_scheme"
  assumes tx: "tx_ok Map.empty s" "fs_ok s" "log_room 6 s" and ip: "ino_at ip s" and mo: "map_ok s (addrs (din s ip))"
    and i: "i < MAXFILE * BSIZE" "i mod BSIZE + length src \<le> BSIZE" and av: "2 \<le> avail ip s"
  shows "\<exists>a s1 b s2 s3 s4. bmap ip (of_nat (i div BSIZE)) s = Inr (a, s1) \<and> bread (i_dev (inode_at s1 ip)) a s1 = Inr (b, s2) \<and>
    log_write b (set_bdata b (put_bytes (bdata (bufat s2 b)) (i mod BSIZE) src) s2) = Inr s3 \<and> brelse b s3 = Inr s4 \<and>
    tx_ok Map.empty s4 \<and> evolves 6 ip s s4 \<and> avail ip s \<le> avail ip s4 + 1 \<and>
    nb (blk s4) (addrs (din s4 ip)) (i div BSIZE) \<noteq> 0 \<and>
    (\<forall>x. i \<le> x \<and> x < i + length src \<longrightarrow> byte (blk s4) (addrs (din s4 ip)) x = src ! (x - i)) \<and>
    (\<forall>x < MAXFILE * BSIZE. (x < i \<or> i + length src \<le> x) \<longrightarrow> nb (blk s) (addrs (din s ip)) (x div BSIZE) \<noteq> 0 \<longrightarrow>
      byte (blk s4) (addrs (din s4 ip)) x = byte (blk s) (addrs (din s ip)) x)"
proof -
  let ?k = "i div BSIZE" let ?A = "\<lambda>s. addrs (din s ip)"
  have k: "?k < MAXFILE" by (rule block_of [OF i(1)])
  have i2: "i mod BSIZE + length src \<le> 512" using i(2) by (simp only: BSIZE_def)
  obtain s1 where s1: "bmap ip (of_nat ?k) s = Inr (nb (blk s1) (?A s1) ?k, s1)" "tx_ok Map.empty s1" "extends 5 ip s s1"
    "nb (blk s1) (?A s1) ?k \<noteq> 0" "avail ip s \<le> avail ip s1 + 1" using bmap_ok [OF tx(1,2) log_room_le [OF tx(3)] ip mo k av] by auto
  note e1 = extendsD [OF s1(3)]
  let ?a = "nb (blk s1) (?A s1) ?k"
  have bo: "bio_ok Map.empty s1" using s1(2) by (simp add: tx_ok_def)
  note ob = own_block [OF e1(2) bo e1(6) own_nb [OF k s1(4)]]
  have dev: "i_dev (inode_at s1 ip) = 1" using extends_fields(1) [OF s1(3)] ip by (simp add: ino_at_def)
  have r1: "log_room 1 s1" using log_room_fs_step [OF _ e1(1), of 1] tx(3) by simp
  let ?x = "put_bytes (blk s1 ?a) (i mod BSIZE) src"
  have lx: "length ?x = 512" using i(2) ob(7) by (simp add: BSIZE_def)
  obtain b s2 s3 s4 where s4: "bread 1 ?a s1 = Inr (b, s2)" "bdata (bufat s2 b) = blk s1 ?a" "log_write b (set_bdata b ?x s2) = Inr s3"
    "brelse b s3 = Inr s4" "tx_ok Map.empty s4" "tx_step 1 ((blk s1)(?a := ?x)) s1 s4"
    using rmw_step [OF s1(2) ob(3) _ _ r1 ob(4) lx] by (auto simp: kbind_eq_Inr)
  have b1: "bio_ok Map.empty s1" using s1(2) by (simp add: tx_ok_def)
  note ew = evolves_write [OF s4(6) e1(2) b1 e1(6) k refl s1(4)]
  have A4: "?A s4 = ?A s1" using ew(2) by simp
  have nb4: "nb (blk s4) (?A s1) = nb (blk s1) (?A s1)" by (rule ew(3))
  note bw = byte_write [OF e1(6) _ _ k s1(4) tx_stepD(1) [OF s4(6)] nb4]
  have new: "byte (blk s4) (?A s4) x = src ! (x - i)" if x: "i \<le> x" "x < i + length src" for x
  proof -
    have lt: "i mod BSIZE + (x - i) < 512" and jl: "x - i < length src" using x i2 by linarith+
    from in_block [OF lt] x have x': "x div BSIZE = ?k" "x mod BSIZE = i mod BSIZE + (x - i)" by simp_all
    have "x < MAXFILE * BSIZE" using k unfolding x'(1) [symmetric] by (metis div_less_iff_less_mult BSIZE_def zero_less_numeral)
    then have "byte (blk s4) (?A s4) x = ?x ! (x mod BSIZE)" using bw [of x] s1(4) x'(1) A4 by simp
    also have "\<dots> = src ! (x - i)"
      unfolding x'(2) put_bytes_block [OF ob(7) i2 lt] using jl by simp
    finally show ?thesis .
  qed
  have old: "byte (blk s4) (?A s4) x = byte (blk s) (?A s) x"
    if x: "x < MAXFILE * BSIZE" "x < i \<or> i + length src \<le> x" "nb (blk s) (?A s) (x div BSIZE) \<noteq> 0" for x
  proof -
    have nz: "nb (blk s1) (?A s1) (x div BSIZE) \<noteq> 0" using e1(8) [OF block_of [OF x(1)] x(3)] x(3) by simp
    have be: "byte (blk s1) (?A s1) x = byte (blk s) (?A s) x" by (rule byte_extends [OF s1(3) mo x(1,3)])
    show ?thesis
    proof (cases "x div BSIZE = ?k")
      case False
      then show ?thesis using bw [OF x(1) nz] be A4 by simp
    next
      case True
      have xl: "x mod BSIZE < 512" by (simp add: BSIZE_def)
      have "i div BSIZE * BSIZE + x mod BSIZE = x" using div_mult_mod_eq [of x BSIZE] True by simp
      then have "\<not> (i mod BSIZE \<le> x mod BSIZE \<and> x mod BSIZE < i mod BSIZE + length src)"
        using x(2) div_mult_mod_eq [of i BSIZE] by linarith
      then have "?x ! (x mod BSIZE) = blk s1 ?a ! (x mod BSIZE)"
        unfolding put_bytes_block [OF ob(7) i2 xl] by (simp only: if_False)
      then show ?thesis using bw [OF x(1) nz] be A4 True by (simp add: byte_def)
    qed
  qed
  have "evolves 6 ip s s4" using evolves_trans [OF evolves_extends [OF s1(3)] ew(1)] by simp
  moreover have "avail ip s \<le> avail ip s4 + 1" using s1(5) ew(2,4) by (simp add: avail_def)
  moreover have "nb (blk s4) (?A s4) ?k \<noteq> 0" using nb4 A4 s1(4) by simp
  ultimately show ?thesis
    using s1(1) s4(1-5) dev new old by (intro exI [of _ ?a] exI [of _ s1] exI [of _ b] exI [of _ s2] exI [of _ s3] exI [of _ s4]) simp
qed

lemma evolves_fields:
  assumes "evolves k ip s t"
  shows "i_dev (inode_at t ip) = i_dev (inode_at s ip)" "inum (inode_at t ip) = inum (inode_at s ip)"
    "isize (din t ip) = isize (din s ip)" "itype (din t ip) = itype (din s ip)" "ino_at ip t = ino_at ip s"
proof -
  note e = evolvesD(5) [OF assms]
  show "i_dev (inode_at t ip) = i_dev (inode_at s ip)" "inum (inode_at t ip) = inum (inode_at s ip)"
    "isize (din t ip) = isize (din s ip)" "itype (din t ip) = itype (din s ip)"
    using arg_cong [OF e, of i_dev] arg_cong [OF e, of inum] arg_cong [OF e, of "\<lambda>i. isize (idata i)"]
      arg_cong [OF e, of "\<lambda>i. itype (idata i)"] by simp_all
  then show "ino_at ip t = ino_at ip s" using evolvesD(3) [OF assms] by (simp add: ino_at_def)
qed

lemma writei_loop_ok:
  fixes s :: "'a kfs_scheme"
  assumes "tx_ok Map.empty s" "fs_ok s" "ino_at ip s" "map_ok s (addrs (din s ip))" "i + length src \<le> MAXFILE * BSIZE"
    "log_room (6 * touched i (length src)) s" "touched i (length src) < avail ip s"
  shows "\<exists>s'. writei_loop ip (of_nat i) src s = Inr (of_nat (i + length src), s') \<and> tx_ok Map.empty s' \<and>
    evolves (6 * touched i (length src)) ip s s' \<and> avail ip s \<le> avail ip s' + touched i (length src) \<and>
    (\<forall>x. i \<le> x \<and> x < i + length src \<longrightarrow> nb (blk s') (addrs (din s' ip)) (x div BSIZE) \<noteq> 0 \<and> byte (blk s') (addrs (din s' ip)) x = src ! (x - i)) \<and>
    (\<forall>x < MAXFILE * BSIZE. (x < i \<or> i + length src \<le> x) \<longrightarrow> nb (blk s) (addrs (din s ip)) (x div BSIZE) \<noteq> 0 \<longrightarrow>
      byte (blk s') (addrs (din s' ip)) x = byte (blk s) (addrs (din s ip)) x)"
  using assms
proof (induction "length src" arbitrary: src i s rule: less_induct)
  case less
  let ?A = "\<lambda>s. addrs (din s ip)"
  show ?case
  proof (cases "src = []")
    case True
    have "evolves 0 ip s s" by (rule evolves_extends [OF extends_refl [OF less.prems(2,4)]])
    then show ?thesis using True less.prems(1) by (intro exI [of _ s]) (auto simp: writei_loop.simps [of ip _ "[]"] touched_def)
  next
    case False
    define m where "m = min (length src) (BSIZE - i mod BSIZE)"
    have m: "0 < m" "m \<le> length src" "i mod BSIZE + m \<le> BSIZE" using False by (simp_all add: m_def BSIZE_def)
    have t: "touched i (length src) = Suc (touched (i + m) (length src - m))" using touched_step [of "length src" i] False by (simp add: m_def)
    have i: "i < MAXFILE * BSIZE" using less.prems(5) False by (cases src) simp_all
    then have ow: "i < 2 ^ 31" by (simp add: MAXFILE_def NDIRECT_def NINDIRECT_def BSIZE_def)
    note ow = off_word [OF ow]
    have r6: "log_room 6 s" "2 \<le> avail ip s" using less.prems(6,7) t by (auto intro: log_room_le)
    have lm: "length (take m src) = m" using m by simp
    obtain a s1 b s2 s3 s4 where w: "bmap ip (of_nat (i div BSIZE)) s = Inr (a, s1)" "bread (i_dev (inode_at s1 ip)) a s1 = Inr (b, s2)"
      "log_write b (set_bdata b (put_bytes (bdata (bufat s2 b)) (i mod BSIZE) (take m src)) s2) = Inr s3" "brelse b s3 = Inr s4"
      "tx_ok Map.empty s4" "evolves 6 ip s s4" "avail ip s \<le> avail ip s4 + 1" "nb (blk s4) (?A s4) (i div BSIZE) \<noteq> 0"
      "\<forall>x. i \<le> x \<and> x < i + m \<longrightarrow> byte (blk s4) (?A s4) x = take m src ! (x - i)"
      "\<forall>x < MAXFILE * BSIZE. (x < i \<or> i + m \<le> x) \<longrightarrow> nb (blk s) (?A s) (x div BSIZE) \<noteq> 0 \<longrightarrow> byte (blk s4) (?A s4) x = byte (blk s) (?A s) x"
      using write_block_ok [OF less.prems(1,2) r6(1) less.prems(3,4) i, of "take m src"] m(3) r6(2) unfolding lm by blast
    note e4 = evolvesD [OF w(6)] and f4 = evolves_fields [OF w(6)]
    have r4: "log_room (6 * touched (i + m) (length src - m)) s4"
      using log_room_fs_step [OF _ e4(1), of "6 * touched (i + m) (length src - m)"] less.prems(6) t by simp
    have c: "length (drop m src) < length src" "ino_at ip s4" "i + m + length (drop m src) \<le> MAXFILE * BSIZE"
      "touched (i + m) (length (drop m src)) < avail ip s4" using m less.prems(3,5,7) f4(5) t w(7) by simp_all
    obtain s' where s': "writei_loop ip (of_nat (i + m)) (drop m src) s4 = Inr (of_nat (i + m + length (drop m src)), s')" "tx_ok Map.empty s'"
      "evolves (6 * touched (i + m) (length (drop m src))) ip s4 s'" "avail ip s4 \<le> avail ip s' + touched (i + m) (length (drop m src))"
      "\<forall>x. i + m \<le> x \<and> x < i + m + length (drop m src) \<longrightarrow> nb (blk s') (?A s') (x div BSIZE) \<noteq> 0 \<and> byte (blk s') (?A s') x = drop m src ! (x - (i + m))"
      "\<forall>x < MAXFILE * BSIZE. (x < i + m \<or> i + m + length (drop m src) \<le> x) \<longrightarrow> nb (blk s4) (?A s4) (x div BSIZE) \<noteq> 0 \<longrightarrow>
        byte (blk s') (?A s') x = byte (blk s4) (?A s4) x"
      using less.hyps [OF c(1) w(5) e4(2) c(2) e4(6) c(3) _ c(4)] r4 by auto
    have e: "i + m + length (drop m src) = i + length src" using m by simp
    note ev = evolvesD [OF s'(3)]
    have "writei_loop ip (of_nat i) src s = Inr (of_nat (i + length src), s')"
      using s'(1) False ow w(1-4) unfolding e
      by (simp add: writei_loop.simps [of ip _ src] Let_def m_def [symmetric])
    moreover have "evolves (6 * touched i (length src)) ip s s'" using evolves_trans [OF w(6) s'(3)] t by simp
    moreover have "avail ip s \<le> avail ip s' + touched i (length src)" using w(7) s'(4) t by simp
    moreover have "nb (blk s') (?A s') (x div BSIZE) \<noteq> 0 \<and> byte (blk s') (?A s') x = src ! (x - i)" if x: "i \<le> x" "x < i + length src" for x
    proof (cases "x < i + m")
      case True
      have "i mod BSIZE + (x - i) < 512" using x True m(3) by (simp add: BSIZE_def)
      from in_block [OF this] x(1) have xd: "x div BSIZE = i div BSIZE" by simp
      have xm: "x < MAXFILE * BSIZE" using x less.prems(5) by linarith
      have nz: "nb (blk s4) (?A s4) (x div BSIZE) \<noteq> 0" using w(8) xd by simp
      then show ?thesis using s'(6) w(9) x True xm ev(8) [OF block_of [OF xm] nz] by simp
    next
      case False
      then show ?thesis using s'(5) x m(2) by (simp add: e)
    qed
    moreover have "byte (blk s') (?A s') x = byte (blk s) (?A s) x"
      if x: "x < MAXFILE * BSIZE" "x < i \<or> i + length src \<le> x" "nb (blk s) (?A s) (x div BSIZE) \<noteq> 0" for x
    proof -
      have "nb (blk s4) (?A s4) (x div BSIZE) \<noteq> 0" using e4(8) [OF block_of [OF x(1)] x(3)] x(3) by simp
      moreover have "x < i \<or> i + m \<le> x" "x < i + m \<or> i + length src \<le> x" using x(2) m(2) by linarith+
      ultimately have "byte (blk s') (?A s') x = byte (blk s4) (?A s4) x" "byte (blk s4) (?A s4) x = byte (blk s) (?A s) x"
        using s'(6) w(10) x(1,3) unfolding e by blast+
      then show ?thesis by simp
    qed
    ultimately show ?thesis using s'(2) by blast
  qed
qed

section \<open>Inodes on disk\<close>

lemma get_put_dinode:
  assumes "length (addrs i) = 13" "k + 64 \<le> length d"
  shows "get_dinode (put_dinode d k i) k = i"
proof -
  let ?e = "put32 (put16 (put16 (put16 (put16 d k (itype i)) (k + 2) (major i)) (k + 4) (minor i)) (k + 6) (nlink i)) (k + 8) (isize i)"
  have w: "get_words (put_words ?e (k + 12) (addrs i)) (k + 12) (length (addrs i)) = addrs i"
    using assms by (intro get_words_put_words) simp
  show ?thesis using assms w by (simp add: get_dinode_def put_dinode_def get16_put_words_other get32_put_words_other NDIRECT_def)
qed

lemma put_dinode_nth: "j < k \<or> k + 64 \<le> j \<Longrightarrow> length (addrs i) = 13 \<Longrightarrow> put_dinode d k i ! j = d ! j"
  by (auto simp: put_dinode_def put_words_nth_other put32_nth_other put16_nth_other)

lemma length_put_dinode [simp]: "length (put_dinode d k i) = length d"
  by (simp add: put_dinode_def)

lemma get_dinode_cong:
  assumes "\<And>i. k \<le> i \<Longrightarrow> i < k + 64 \<Longrightarrow> d ! i = e ! i"
  shows "get_dinode d k = get_dinode e k"
proof -
  have "get_words d (k + 12) (NDIRECT + 1) = get_words e (k + 12) (NDIRECT + 1)"
    unfolding get_words_def by (rule map_cong [OF refl], rule get32_cong, rule assms) (auto simp: NDIRECT_def)
  moreover have g: "get16 d (k + j) = get16 e (k + j)" if "j \<le> 62" for j using that by (intro get16_cong assms) simp_all
  moreover have "get32 d (k + 8) = get32 e (k + 8)" by (intro get32_cong assms) simp_all
  ultimately show ?thesis unfolding get_dinode_def using g [of 0] g [of 2] g [of 4] g [of 6] by simp
qed

text \<open>The disk inode with a number, as the kernel sees it.\<close>

definition dino :: "'a kfs_scheme \<Rightarrow> uint \<Rightarrow> dinode" where
  "dino s n = get_dinode (blk s (IBLOCK n (sb s))) (dip_off n)"

lemma iblock_ok:
  assumes "geom s" "disksize s < 2 ^ 31" "unat n < ninodes s"
  shows "unat (IBLOCK n (sb s)) = istart s + unat n div IPB" "unat (IBLOCK n (sb s)) < mstart s" "unat (IBLOCK n (sb s)) < disksize s"
    "\<not> in_log s (unat (IBLOCK n (sb s)))" "\<not> is_map s (IBLOCK n (sb s))" "IBLOCK n (sb s) \<noteq> 1" "\<not> data_block s (IBLOCK n (sb s))" "dip_off n + 64 \<le> 512"
proof -
  have le: "unat n div IPB \<le> ninodes s div IPB" using assms(3) by (simp add: div_le_mono)
  have lt: "istart s + unat n div IPB < mstart s" using assms(1) le by (simp add: geom_def)
  have md: "mstart s < disksize s" using assms(1) by (simp add: geom_def dstart_def)
  have "unat (n div of_nat IPB) = unat n div IPB" by (simp add: unat_div IPB_def)
  then show u: "unat (IBLOCK n (sb s)) = istart s + unat n div IPB"
    unfolding IBLOCK_def using lt md assms(2) by (subst unat_add_small) simp_all
  show "unat (IBLOCK n (sb s)) < mstart s" "unat (IBLOCK n (sb s)) < disksize s" using u lt md by simp_all
  show "\<not> in_log s (unat (IBLOCK n (sb s)))" "\<not> is_map s (IBLOCK n (sb s))" "\<not> data_block s (IBLOCK n (sb s))"
    using u lt assms(1) by (auto simp: in_log_def is_map_def data_block_def dstart_def geom_def)
  have "unat (IBLOCK n (sb s)) \<noteq> unat (1 :: uint)" using u assms(1) by (simp add: geom_def)
  then show "IBLOCK n (sb s) \<noteq> 1" by metis
  have "unat n mod 8 < 8" by simp
  then show "dip_off n + 64 \<le> 512" by (simp add: dip_off_def IPB_def)
qed

lemma iupdate_ok:
  fixes s :: "'a kfs_scheme"
  assumes tx: "tx_ok Map.empty s" "fs_ok s" "log_room 1 s" and ip: "ino_at ip s" "unat (inum (inode_at s ip)) < ninodes s"
  shows "\<exists>s'. iupdate ip s = Inr s' \<and> tx_ok Map.empty s' \<and> tx_step 1 ((blk s)(IBLOCK (inum (inode_at s ip)) (sb s) :=
    put_dinode (blk s (IBLOCK (inum (inode_at s ip)) (sb s))) (dip_off (inum (inode_at s ip))) (din s ip))) s s'"
proof -
  have bo: "bio_ok Map.empty s" using tx(1) by (simp add: tx_ok_def)
  have g: "geom s" and d: "disksize s < 2 ^ 31" using tx(2) bio_okD(7) [OF bo] by (simp_all add: fs_ok_def)
  note ib = iblock_ok [OF g d ip(2)]
  let ?n = "IBLOCK (inum (inode_at s ip)) (sb s)"
  let ?x = "put_dinode (blk s ?n) (dip_off (inum (inode_at s ip))) (din s ip)"
  have lx: "length ?x = 512" using blk_length [OF bo ib(3)] by simp
  obtain b s1 s' where s': "bread 1 ?n s = Inr (b, s1)" "bdata (bufat s1 b) = blk s ?n" "tx_step 0 (blk s) s s1"
    "kbind (log_write b (set_bdata b ?x s1)) (brelse b) = Inr s'" "tx_ok Map.empty s'" "tx_step 1 ((blk s)(?n := ?x)) s s'"
    using rmw_step [OF tx(1) ib(3) _ _ tx(3) ib(4) lx] by auto
  have ic: "icache s1 = icache s" by (rule kfs_frame(1) [OF tx_stepD(2) [OF s'(3)]])
  have "iupdate ip s = Inr s'" using s' ic ip(1) by (simp add: iupdate_def ino_at_def)
  with s'(5,6) show ?thesis by blast
qed

text \<open>A write to an inode block leaves the contents of files alone.\<close>

lemma inode_write_keeps:
  assumes st: "tx_step k ((blk s)(n := x)) s s'" and ok: "fs_ok s" "bio_ok H s" and m: "map_ok s A"
    and n: "\<not> data_block s n" "\<not> is_map s n" "n \<noteq> 1"
  shows "map_ok s' A" "nb (blk s') A = nb (blk s) A" "own (blk s') A = own (blk s) A"
    "\<And>x. x < MAXFILE * BSIZE \<Longrightarrow> nb (blk s) A (x div BSIZE) \<noteq> 0 \<Longrightarrow> byte (blk s') A x = byte (blk s) A x"
proof -
  note w = other_write_ok [OF st ok n(2,3)] and sd = fs_stepD [OF fs_step_tx [OF st]]
  have b: "blk s' = (blk s)(n := x)" by (rule tx_stepD(1) [OF st])
  have no: "n \<notin> own (blk s) A" using map_okD(2) [OF m, of n] n(1) by blast
  have "n \<noteq> A ! NDIRECT \<or> A ! NDIRECT = 0" using no own_ind [of A "blk s"] by auto
  then show e: "nb (blk s') A = nb (blk s) A" by (auto simp: nb_def b fun_eq_iff)
  then show o: "own (blk s') A = own (blk s) A" by (simp add: own_def)
  show "map_ok s' A" using m e o w(1) sd(10) by (simp add: map_ok_def data_block_def)
  show "byte (blk s') A x = byte (blk s) A x" if "x < MAXFILE * BSIZE" "nb (blk s) A (x div BSIZE) \<noteq> 0" for x
    using own_nb [OF block_of [OF that(1)] that(2)] no e b by (auto simp: byte_def)
qed

lemma content_write_nth:
  assumes "unat off \<le> length c" "x < max (length c) (unat off + length d)"
  shows "content_write off d c ! x = (if unat off \<le> x \<and> x < unat off + length d then d ! (x - unat off) else c ! x)"
  using assms by (auto simp: content_write_def nth_append min_def)

lemma length_content_write: "unat off \<le> length c \<Longrightarrow> length (content_write off d c) = max (length c) (unat off + length d)"
  by (auto simp: content_write_def)

text \<open>The contents after the bytes of a range were written and the size adjusted.\<close>

lemma fdata_written:
  assumes off: "unat off \<le> unat (isize (din s ip))"
    and sz: "unat (isize (din s' ip)) = max (unat (isize (din s ip))) (unat off + length src)"
    and new: "\<And>x. unat off \<le> x \<Longrightarrow> x < unat off + length src \<Longrightarrow> byte (blk s') (addrs (din s' ip)) x = src ! (x - unat off)"
    and old: "\<And>x. x < unat (isize (din s ip)) \<Longrightarrow> x < unat off \<or> unat off + length src \<le> x \<Longrightarrow>
      byte (blk s') (addrs (din s' ip)) x = byte (blk s) (addrs (din s ip)) x"
  shows "fdata s' ip = content_write off src (fdata s ip)"
proof (rule nth_equalityI)
  show l: "length (fdata s' ip) = length (content_write off src (fdata s ip))" using off sz by (simp add: length_content_write)
  fix x
  assume x: "x < length (fdata s' ip)"
  then have "fdata s' ip ! x = byte (blk s') (addrs (din s' ip)) x" by (simp add: fdata_def)
  moreover have "content_write off src (fdata s ip) ! x = (if unat off \<le> x \<and> x < unat off + length src then src ! (x - unat off) else fdata s ip ! x)"
    using x off sz by (intro content_write_nth) simp_all
  ultimately show "fdata s' ip ! x = content_write off src (fdata s ip) ! x"
    using new [of x] old [of x] x sz off by (cases "unat off \<le> x \<and> x < unat off + length src") (auto simp: fdata_def)
qed

text \<open>
  What a write leaves of the rest of the file system: other cached inodes, the other inodes on disk, and
  every used block that is not the file's.
\<close>

definition others_kept :: "nat \<Rightarrow> 'a kfs_scheme \<Rightarrow> 'a kfs_scheme \<Rightarrow> bool" where
  "others_kept ip s s' \<longleftrightarrow> length (icache s') = length (icache s) \<and> (\<forall>j. j \<noteq> ip \<longrightarrow> icache s' ! j = icache s ! j) \<and>
     (\<forall>m. unat m < ninodes s \<longrightarrow> m \<noteq> inum (inode_at s ip) \<longrightarrow> dino s' m = dino s m) \<and>
     (\<forall>n. data_block s n \<longrightarrow> used s (unat n) \<longrightarrow> n \<notin> own (blk s) (addrs (din s ip)) \<longrightarrow>
       blk s' n = blk s n \<and> used s' (unat n) \<and> n \<notin> own (blk s') (addrs (din s' ip)))"

lemma dino_kept:
  assumes "sb s' = sb s" "\<And>n. unat n < mstart s \<Longrightarrow> blk s' n = blk s n" "geom s" "disksize s < 2 ^ 31" "unat m < ninodes s"
  shows "dino s' m = dino s m"
  using iblock_ok(2) [OF assms(3-5)] assms(1,2) by (simp add: dino_def)

lemma dino_write:
  assumes g: "geom s" "bio_ok H s" and n: "unat n < ninodes s" "unat m < ninodes s" and l: "length (addrs d) = 13"
    and s': "sb s' = sb s" "blk s' = (blk s)(IBLOCK n (sb s) := put_dinode (blk s (IBLOCK n (sb s))) (dip_off n) d)"
  shows "dino s' m = (if m = n then d else dino s m)"
proof -
  have ds: "disksize s < 2 ^ 31" by (rule bio_okD(7) [OF g(2)])
  note i = iblock_ok [OF g(1) ds n(1)] and j = iblock_ok [OF g(1) ds n(2)]
  have lb: "length (blk s (IBLOCK n (sb s))) = 512" by (rule blk_length [OF g(2) i(3)])
  show ?thesis
  proof (cases "m = n")
    case True
    then show ?thesis using s' get_put_dinode [OF l] lb i(8) by (simp add: dino_def)
  next
    case False
    then have ne: "unat m \<noteq> unat n" by (metis word_unat_eq_iff)
    show ?thesis
    proof (cases "IBLOCK m (sb s) = IBLOCK n (sb s)")
      case True
      then have "unat m div IPB = unat n div IPB" using i(1) j(1) by simp
      then have "unat m mod IPB \<noteq> unat n mod IPB" using ne by (metis div_mult_mod_eq)
      then have "dip_off m + 64 \<le> dip_off n \<or> dip_off n + 64 \<le> dip_off m" by (auto simp: dip_off_def)
      then have "get_dinode (put_dinode (blk s (IBLOCK n (sb s))) (dip_off n) d) (dip_off m) = get_dinode (blk s (IBLOCK n (sb s))) (dip_off m)"
        by (intro get_dinode_cong put_dinode_nth l) auto
      then show ?thesis using False True s' by (simp add: dino_def)
    next
      case ne: False
      then show ?thesis using False s' by (simp add: dino_def)
    qed
  qed
qed

lemma word_less_n: "length src \<le> 71680 \<Longrightarrow> unat (of_nat (length src) :: uint) = length src"
  by (rule unat_of_nat_small) simp

lemma writei_ok:
  fixes s :: "'a kfs_scheme"
  assumes tx: "tx_ok Map.empty s" "fs_ok s" and f: "file_ok ip s" and nu: "unat (inum (inode_at s ip)) < ninodes s"
    and off: "off \<le> isize (din s ip)" "unat off + length src \<le> 71680"
    and room: "log_room (6 * touched (unat off) (length src) + 1) s" "touched (unat off) (length src) < avail ip s"
  shows "\<exists>s'. writei ip src off s = Inr (int (length src), s') \<and> tx_ok Map.empty s' \<and> fs_ok s' \<and> file_ok ip s' \<and>
    fs_step (6 * touched (unat off) (length src) + 1) s s' \<and> fdata s' ip = content_write off src (fdata s ip) \<and> others_kept ip s s' \<and>
    avail ip s \<le> avail ip s' + touched (unat off) (length src) \<and>
    inode_at s' ip = (inode_at s ip)\<lparr>idata := (din s ip)\<lparr>addrs := addrs (din s' ip), isize := isize (din s' ip)\<rparr>\<rparr>"
proof -
  let ?A = "\<lambda>s. addrs (din s ip)" let ?t = "6 * touched (unat off) (length src)" let ?n = "of_nat (length src) :: uint"
  note fd = file_okD [OF f]
  have mx: "MAXFILE * BSIZE = 71680" by (simp add: MAXFILE_def NDIRECT_def NINDIRECT_def BSIZE_def)
  have un: "unat ?n = length src" by (rule word_less_n) (use off(2) in simp)
  have uo: "unat (off + ?n) = unat off + length src" using un off(2) by (subst unat_add_small) simp_all
  have c: "\<not> off + ?n < off" "\<not> off > isize (din s ip)" "\<not> off + ?n > of_nat (MAXFILE * BSIZE)"
    using uo off by (simp_all add: word_less_nat_alt word_le_nat_alt mx)
  have offn: "unat off \<le> unat (isize (din s ip))" using off(1) by (simp add: word_le_nat_alt)
  have ofo: "of_nat (unat off) = off" "of_nat (unat off + length src) = off + ?n" by simp_all
  obtain s1 where s1: "writei_loop ip off src s = Inr (off + ?n, s1)" "tx_ok Map.empty s1" "evolves ?t ip s s1"
    "\<forall>x. unat off \<le> x \<and> x < unat off + length src \<longrightarrow> nb (blk s1) (?A s1) (x div BSIZE) \<noteq> 0 \<and> byte (blk s1) (?A s1) x = src ! (x - unat off)"
    "\<forall>x < MAXFILE * BSIZE. (x < unat off \<or> unat off + length src \<le> x) \<longrightarrow> nb (blk s) (?A s) (x div BSIZE) \<noteq> 0 \<longrightarrow>
      byte (blk s1) (?A s1) x = byte (blk s) (?A s) x"
    "avail ip s \<le> avail ip s1 + touched (unat off) (length src)"
    using writei_loop_ok [OF tx fd(1,2), of "unat off" src] off(2) room log_room_le [OF room(1)] unfolding ofo mx by auto
  note e1 = evolvesD [OF s1(3)] and f1 = evolves_fields [OF s1(3)]
  have nz: "nb (blk s1) (?A s1) k \<noteq> 0" if k: "BSIZE * k < max (unat (isize (din s ip))) (unat off + length src)" for k
  proof (cases "BSIZE * k < unat (isize (din s ip))")
    case True
    then have "k < MAXFILE" using fd(4) by (simp add: BSIZE_def MAXFILE_def NDIRECT_def NINDIRECT_def)
    then show ?thesis using e1(8) [of k] fd(5) [OF True] by simp
  next
    case False
    then have "unat off \<le> BSIZE * k" "BSIZE * k < unat off + length src" using k offn by simp_all
    then show ?thesis using s1(4) [rule_format, of "BSIZE * k"] by (simp add: BSIZE_def)
  qed
  have fin: "file_ok ip s' \<and> fdata s' ip = content_write off src (fdata s ip)"
    if h: "ino_at ip s'" "map_ok s' (?A s1)" "?A s' = ?A s1" "nb (blk s') (?A s1) = nb (blk s1) (?A s1)" "itype (din s' ip) = itype (din s ip)"
      "unat (isize (din s' ip)) = max (unat (isize (din s ip))) (unat off + length src)"
      "\<And>x. x < MAXFILE * BSIZE \<Longrightarrow> nb (blk s1) (?A s1) (x div BSIZE) \<noteq> 0 \<Longrightarrow> byte (blk s') (?A s1) x = byte (blk s1) (?A s1) x" for s' :: "'a kfs_scheme"
  proof -
    have by': "byte (blk s') (?A s') x = byte (blk s1) (?A s1) x" if x: "x < max (unat (isize (din s ip))) (unat off + length src)" for x
    proof -
      have "x < MAXFILE * BSIZE" using x off(2) fd(4) by (simp add: mx)
      then show ?thesis using h(3) h(7) [OF _ nz [OF block_start [OF x]]] by simp
    qed
    have "file_ok ip s'" using h nz fd(3,4) off(2) by (simp add: file_ok_def mx)
    moreover have "fdata s' ip = content_write off src (fdata s ip)"
    proof (rule fdata_written [OF offn h(6)])
      show "byte (blk s') (?A s') x = src ! (x - unat off)" if "unat off \<le> x" "x < unat off + length src" for x
        using by' [of x] s1(4) that by simp
      show "byte (blk s') (?A s') x = byte (blk s) (?A s) x" if "x < unat (isize (din s ip))" "x < unat off \<or> unat off + length src \<le> x" for x
      proof -
        have "nb (blk s) (?A s) (x div BSIZE) \<noteq> 0" by (rule fd(5) [OF block_start [OF that(1)]])
        then show ?thesis using by' [of x] s1(5) that fd(4) by (simp add: mx)
      qed
    qed
    ultimately show ?thesis by blast
  qed
  have bo: "bio_ok Map.empty s" and bo1: "bio_ok Map.empty s1" using tx(1) s1(2) by (simp_all add: tx_ok_def)
  have g: "geom s" and ds: "disksize s < 2 ^ 31" using tx(2) bio_okD(7) [OF bo] by (simp_all add: fs_ok_def)
  note sd1 = fs_stepD [OF e1(1)]
  have dk: "dino s1 m = dino s m" if "unat m < ninodes s" for m by (rule dino_kept [OF sd1(1) e1(10) g ds that])
  have ret: "sint ?n = int (length src)" using sint_small [of ?n] un off(2) by simp
  show ?thesis
  proof (cases "?n > 0 \<and> off + ?n > isize (din s1 ip)")
    case False
    have mxs: "max (unat (isize (din s ip))) (unat off + length src) = unat (isize (din s ip))"
      using False f1(3) offn uo un by (auto simp: word_less_nat_alt)
    have "writei ip src off s = Inr (int (length src), s1)"
      using s1(1) c fd(3) False ret by (auto simp: writei_def Let_def)
    moreover have fo: "file_ok ip s1 \<and> fdata s1 ip = content_write off src (fdata s ip)"
      by (rule fin) (use e1(6) f1 fd(1) mxs in simp_all)
    moreover have "others_kept ip s s1" using e1(3,4,7,9,11) dk by (auto simp: others_kept_def data_block_def)
    moreover have "inode_at s1 ip = (inode_at s ip)\<lparr>idata := (din s ip)\<lparr>addrs := ?A s1, isize := isize (din s1 ip)\<rparr>\<rparr>"
      unfolding f1(3) by (rule trans [OF e1(5)]) simp
    ultimately show ?thesis using s1(2,6) e1(2) fs_step_le [OF e1(1), of "?t + 1", OF le_add1] conjunct1 [OF fo] conjunct2 [OF fo]
      by (intro exI [of _ s1] conjI)
  next
    case True
    define s2 where "s2 = upd_din ip (\<lambda>d. d\<lparr>isize := off + ?n\<rparr>) s1"
    have ipl: "ip < length (icache s1)" using fd(1) e1(3) by (simp add: ino_at_def)
    have i2: "inode_at s2 ip = (inode_at s1 ip)\<lparr>idata := (din s1 ip)\<lparr>isize := off + ?n\<rparr>\<rparr>" "length (icache s2) = length (icache s1)"
      "\<And>j. j \<noteq> ip \<Longrightarrow> icache s2 ! j = icache s1 ! j" using ipl by (simp_all add: s2_def upd_inode_def)
    have b2: "blk s2 = blk s1" "used s2 = used s1" "fs_ok s2" "tx_ok Map.empty s2" "sb s2 = sb s1" "data_block s2 = data_block s1" "is_map s2 = is_map s1"
      using s1(2) e1(2) by (simp_all add: s2_def upd_inode_def)
    have bo2: "bio_ok Map.empty s2" using b2(4) by (simp add: tx_ok_def)
    have st2: "fs_step ?t s s2" using fs_step_trans [OF e1(1) fs_step_icache] by (simp add: s2_def upd_inode_def)
    note sd2 = fs_stepD [OF st2]
    have r2: "log_room 1 s2" by (rule log_room_fs_step [OF room(1) st2])
    have ip2: "ino_at ip s2" "inum (inode_at s2 ip) = inum (inode_at s ip)" using i2 f1 fd(1) e1(3) by (simp_all add: ino_at_def)
    have nu2: "unat (inum (inode_at s2 ip)) < ninodes s2" using nu ip2(2) sd2(1) by simp
    let ?b = "IBLOCK (inum (inode_at s2 ip)) (sb s2)"
    obtain s3 where s3: "iupdate ip s2 = Inr s3" "tx_ok Map.empty s3"
      "tx_step 1 ((blk s2)(?b := put_dinode (blk s2 ?b) (dip_off (inum (inode_at s2 ip))) (din s2 ip))) s2 s3"
      using iupdate_ok [OF b2(4,3) r2 ip2(1) nu2] by blast
    have g2: "geom s2" and ds2: "disksize s2 < 2 ^ 31" using b2(3) ds sd2(3) by (simp_all add: fs_ok_def)
    note ib = iblock_ok [OF g2 ds2 nu2]
    have m2: "map_ok s2 (?A s1)" using e1(6) b2 by (simp add: map_ok_def)
    note k3 = inode_write_keeps [OF s3(3) b2(3) bo2 m2 ib(7,5,6)] and w3 = other_write_ok [OF s3(3) b2(3) bo2 ib(5,6)]
    have ic3: "icache s3 = icache s2" by (rule kfs_frame(1) [OF tx_stepD(2) [OF s3(3)]])
    note sd3 = fs_stepD [OF fs_step_tx [OF s3(3)]]
    have "writei ip src off s = Inr (int (length src), s3)"
      using s1(1) c fd(3) True ret s3(1) by (simp add: writei_def Let_def s2_def)
    moreover have fo: "file_ok ip s3 \<and> fdata s3 ip = content_write off src (fdata s ip)"
    proof (rule fin)
      show "unat (isize (din s3 ip)) = max (unat (isize (din s ip))) (unat off + length src)"
        using True f1(3) uo i2(1) ic3 by (simp add: word_less_nat_alt)
      show "ino_at ip s3" "map_ok s3 (?A s1)" "?A s3 = ?A s1" "nb (blk s3) (?A s1) = nb (blk s1) (?A s1)" "itype (din s3 ip) = itype (din s ip)"
        using ip2(1) k3(1,2) i2(1) ic3 b2(1) f1(4) by (simp_all add: ino_at_def)
      show "byte (blk s3) (?A s1) x = byte (blk s1) (?A s1) x" if "x < MAXFILE * BSIZE" "nb (blk s1) (?A s1) (x div BSIZE) \<noteq> 0" for x
        using k3(4) [OF that(1)] that(2) b2(1) by simp
    qed
    moreover have "others_kept ip s s3"
    proof -
      have "dino s3 m = dino s m" if m: "unat m < ninodes s" "m \<noteq> inum (inode_at s ip)" for m
      proof -
        have "length (addrs (din s2 ip)) = 13" using map_okD(1) [OF e1(6)] i2(1) by simp
        then have "dino s3 m = (if m = inum (inode_at s2 ip) then din s2 ip else dino s2 m)"
          using m(1) sd2(1) by (intro dino_write [OF g2 bo2 nu2 _ _ sd3(1) tx_stepD(1) [OF s3(3)]]) simp_all
        then show ?thesis using m ip2(2) dk [OF m(1)] b2(1,5) by (simp add: dino_def)
      qed
      moreover have "blk s3 n = blk s n \<and> used s3 (unat n) \<and> n \<notin> own (blk s3) (?A s3)"
        if n: "data_block s n" "used s (unat n)" "n \<notin> own (blk s) (?A s)" for n
      proof -
        have "n \<noteq> ?b" using ib(7) n(1) sd2(10) by auto
        moreover have "?A s3 = ?A s1" using i2(1) ic3 by simp
        then have "n \<notin> own (blk s3) (?A s3)" using e1(11) n(2,3) k3(3) b2(1) by auto
        ultimately show ?thesis using tx_stepD(1) [OF s3(3)] b2(1,2) e1(7) [of "unat n"] e1(9) [OF n] n(1,2) w3(1) [of "unat n"] sd2(1) by (simp add: data_block_def)
      qed
      ultimately show ?thesis using e1(3,4) i2(2,3) ic3 by (simp add: others_kept_def)
    qed
    moreover have "fs_step (?t + 1) s s3" by (rule fs_step_trans [OF st2 fs_step_tx [OF s3(3)]])
    moreover have "inode_at s3 ip = (inode_at s ip)\<lparr>idata := (din s ip)\<lparr>addrs := ?A s3, isize := isize (din s3 ip)\<rparr>\<rparr>"
    proof -
      define a where "a = ?A s1"
      have e: "inode_at s1 ip = (inode_at s ip)\<lparr>idata := (din s ip)\<lparr>addrs := a\<rparr>\<rparr>" using e1(5) by (simp only: a_def)
      have x: "inode_at s3 ip = (inode_at s ip)\<lparr>idata := (din s ip)\<lparr>addrs := a, isize := off + ?n\<rparr>\<rparr>" using i2(1) ic3 e by simp
      show ?thesis by (simp add: x)
    qed
    moreover have "avail ip s \<le> avail ip s3 + touched (unat off) (length src)"
    proof -
      have "nfree s2 = nfree s1" using b2(2,5) by (simp add: nfree_def)
      then have "avail ip s3 = avail ip s1" using w3(3) i2(1) ic3 by (simp add: avail_def)
      then show ?thesis using s1(6) by simp
    qed
    ultimately show ?thesis using s3(2) w3(2) conjunct1 [OF fo] conjunct2 [OF fo] by (intro exI [of _ s3] conjI)
  qed
qed

end
