(* ===== verification/Fsdisk.thy ===== *)
theory Fsdisk
  imports Content
begin

text \<open>
  A small formatted disk, laid out as \<^verbatim>\<open>mkfs.c\<close> lays it out, with a root directory and one empty file: the
  concrete state on which the properties of the file system are exercised.
\<close>

definition sb0 :: superblock where
  "sb0 = \<lparr>sb_size = 100, sb_nblocks = 64, sb_ninodes = 16, sb_nlog = 30, sb_logstart = 2, sb_inodestart = 32, sb_bmapstart = 35\<rparr>"

definition root0 :: dinode where
  "root0 = \<lparr>itype = T_DIR, major = 0, minor = 0, nlink = 1, isize = 32, addrs = 36 # replicate 12 0\<rparr>"

definition file0 :: dinode where
  "file0 = \<lparr>itype = T_FILE, major = 0, minor = 0, nlink = 1, isize = 0, addrs = replicate 13 0\<rparr>"

definition map0 :: "uchar list" where
  "map0 = zero_block[0 := 255, 1 := 255, 2 := 255, 3 := 255, 4 := 31]"

definition dir0 :: "uchar list" where
  "dir0 = zero_block[0 := 1, 2 := 46, 16 := 1, 18 := 46, 19 := 46]"

definition disk0 :: "uchar list list" where
  "disk0 = (replicate 100 zero_block)[1 := put_words zero_block 0 [100, 64, 16, 30, 2, 32, 35],
     32 := put_dinode (put_dinode zero_block 64 root0) 128 file0, 35 := map0, 36 := dir0]"

definition klog0 :: klog where
  "klog0 = kbio.extend (binit (bio00\<lparr>disk := disk0\<rparr>)) \<lparr>log_start = 2, log_size = 30, log_outstanding = 1, log_committing = False, log_dev = 1,
     lh = \<lparr>lh_n = 0, lh_block = replicate 30 0\<rparr>\<rparr>"

definition free_ino :: inode where
  "free_ino = \<lparr>i_dev = 0, inum = 0, iref = 0, ivalid = False, idata = file0\<rparr>"

text \<open>In a transaction, with the file in the inode cache.\<close>

definition fs0 :: kfs where
  "fs0 = klog.extend klog0 \<lparr>icache = \<lparr>i_dev = 1, inum = 2, iref = 1, ivalid = True, idata = file0\<rparr> # replicate 49 free_ino, sb = sb0\<rparr>"

lemma zero_block_length [simp]: "length zero_block = 512"
  by (simp add: zero_block_def)

lemma ball_update: "\<forall>d \<in> set xs. P d \<Longrightarrow> P x \<Longrightarrow> \<forall>d \<in> set (xs[i := x]). P d"
  using set_update_subset_insert [of xs i x] by blast

lemma disk0_ok: "length disk0 = 100" "\<forall>d \<in> set disk0. length d = 512"
  unfolding disk0_def by (simp, intro ball_update) (simp_all add: map0_def dir0_def)

lemma disk0_nth:
  "disk0 ! 1 = put_words zero_block 0 [100, 64, 16, 30, 2, 32, 35]" "disk0 ! 2 = zero_block"
  "disk0 ! 32 = put_dinode (put_dinode zero_block 64 root0) 128 file0" "disk0 ! 35 = map0" "disk0 ! 36 = dir0"
  by (simp_all add: disk0_def)

lemma klog0_sel:
  "bio_ok Map.empty klog0" "blk klog0 = (\<lambda>n. disk0 ! unat n)" "dirty_blocks klog0 = {}" "disk klog0 = disk0" "disksize klog0 = 100"
  "log_start klog0 = 2" "log_size klog0 = 30" "log_outstanding klog0 = 1" "log_dev klog0 = 1" "\<not> log_committing klog0" "logged klog0 = []"
  "lh klog0 = \<lparr>lh_n = 0, lh_block = replicate 30 0\<rparr>"
proof -
  let ?b = "bio00\<lparr>disk := disk0\<rparr>"
  have d: "disk ?b = disk0" "disksize ?b = 100" using disk0_ok(1) by (simp_all add: disksize_def)
  have c: "cur_ok ?b" "\<forall>i < NBUF. bflags (bufat ?b i) = 0 \<and> bdev (bufat ?b i) = 0 \<and> brefcnt (bufat ?b i) = 0" "held ?b = {}" "length (bcache ?b) = Suc NBUF"
    using bio00_pre by (simp_all add: cur_ok_def)
  note b = binit_ok [OF c(4,2,3,1), unfolded d, OF disk0_ok(2)]
  have e: "bio_ok Map.empty klog0 = bio_ok Map.empty (binit ?b)" "blk klog0 = blk (binit ?b)" "dirty_blocks klog0 = dirty_blocks (binit ?b)"
    by (rule bio_cong; simp add: klog0_def kbio.defs)+
  show "bio_ok Map.empty klog0" "blk klog0 = (\<lambda>n. disk0 ! unat n)" "dirty_blocks klog0 = {}" using e b by simp_all
  show "disk klog0 = disk0" "disksize klog0 = 100" using b(5) disk0_ok(1) by (simp_all add: klog0_def kbio.defs disksize_def)
  show "log_start klog0 = 2" "log_size klog0 = 30" "log_outstanding klog0 = 1" "log_dev klog0 = 1" "\<not> log_committing klog0" "logged klog0 = []"
    "lh klog0 = \<lparr>lh_n = 0, lh_block = replicate 30 0\<rparr>"
    by (simp_all add: klog0_def kbio.defs logged_def)
qed

lemma klog0_tx: "tx_ok Map.empty klog0"
  using klog0_sel disk0_nth(2) zero_block_head [of 0] by (simp add: tx_ok_def log_area_def LOGSIZE_def NBUF_def)

lemma fs0_sel:
  "tx_ok Map.empty fs0" "blk fs0 = (\<lambda>n. disk0 ! unat n)" "disksize fs0 = 100" "log_start fs0 = 2" "log_size fs0 = 30" "log_outstanding fs0 = 1"
  "\<not> log_committing fs0" "logged fs0 = []" "sb fs0 = sb0"
  "icache fs0 = \<lparr>i_dev = 1, inum = 2, iref = 1, ivalid = True, idata = file0\<rparr> # replicate 49 free_ino" "disk fs0 = disk0"
proof -
  have s: "disk fs0 = disk klog0" "log_start fs0 = log_start klog0" "log_size fs0 = log_size klog0" "log_outstanding fs0 = log_outstanding klog0"
    "log_committing fs0 = log_committing klog0" "lh fs0 = lh klog0" "log_dev fs0 = log_dev klog0" "sb fs0 = sb0"
    "icache fs0 = \<lparr>i_dev = 1, inum = 2, iref = 1, ivalid = True, idata = file0\<rparr> # replicate 49 free_ino"
    by (simp_all add: fs0_def klog.defs)
  have e: "bio_ok Map.empty fs0 = bio_ok Map.empty klog0" "blk fs0 = blk klog0" "dirty_blocks fs0 = dirty_blocks klog0"
    by (rule bio_cong; simp add: fs0_def klog.defs)+
  have l: "logged fs0 = logged klog0" "in_log fs0 = in_log klog0" "disksize fs0 = disksize klog0" using s by (simp_all add: logged_def in_log_def disksize_def fun_eq_iff)
  show "tx_ok Map.empty fs0" using klog0_tx s e l by (simp add: tx_ok_def log_area_def)
  show "blk fs0 = (\<lambda>n. disk0 ! unat n)" "disksize fs0 = 100" "log_start fs0 = 2" "log_size fs0 = 30" "log_outstanding fs0 = 1" "\<not> log_committing fs0"
    "logged fs0 = []" "sb fs0 = sb0" "disk fs0 = disk0" using s e l klog0_sel by simp_all
  show "icache fs0 = \<lparr>i_dev = 1, inum = 2, iref = 1, ivalid = True, idata = file0\<rparr> # replicate 49 free_ino" by (rule s)
qed

lemma map0_free: "b < 4096 \<Longrightarrow> map_free b map0 \<longleftrightarrow> 37 \<le> b"
proof -
  assume b: "b < 4096"
  have all: "(255 :: uchar) = -1" by simp
  have "(31 :: uchar) = mask 5" by (simp add: mask_eq_exp_minus_1)
  then have five: "bit (31 :: uchar) j \<longleftrightarrow> j < 5" for j by (simp only: bit_mask_iff) auto
  have n: "map0 ! k = (if k < 4 then 255 else if k = 4 then 31 else 0)" if "k < 512" for k
    using that by (auto simp: map0_def nth_list_update zero_block_def)
  have n: "map0 ! (b div 8) = (if b div 8 < 4 then 255 else if b div 8 = 4 then 31 else 0)" by (rule n) (use b in simp)
  have all: "bit (255 :: uchar) (b mod 8)" unfolding all by (simp add: bit_minus_1_iff)
  consider "b < 32" | "32 \<le> b" "b < 40" | "40 \<le> b" by linarith
  then show ?thesis
  proof cases
    case 1
    then have "map0 ! (b div 8) = 255" using n by simp
    then have "\<not> map_free b map0" unfolding map_free_bit using all by (simp only: simp_thms)
    then show ?thesis using 1 by simp
  next
    case 2
    then have d: "b div 8 = 4" by simp
    then have "map0 ! (b div 8) = 31" "b mod 8 = b - 32" using n div_mult_mod_eq [of b 8] by simp_all
    then have "map_free b map0 \<longleftrightarrow> \<not> b - 32 < 5" unfolding map_free_bit by (simp only: five)
    then show ?thesis using 2 by linarith
  next
    case 3
    then have "\<not> b div 8 < 4" "b div 8 \<noteq> 4" by auto
    then have "map0 ! (b div 8) = 0" using n by (simp only: if_False)
    then show ?thesis using 3 by (simp add: map_free_bit)
  qed
qed

lemma sb0_read: "superblock_of (disk0 ! 1) = sb0"
proof -
  let ?w = "[100, 64, 16, 30, 2, 32, 35] :: uint list"
  have "get32 (put_words zero_block 0 ?w) (0 + 4 * i) = ?w ! i" if "i < 7" for i using that by (intro get_put_words) simp_all
  from this [of 0] this [of 1] this [of 2] this [of 3] this [of 4] this [of 5] this [of 6]
  show ?thesis unfolding disk0_nth(1) by (simp add: superblock_of_def sb0_def)
qed

lemma fs0_used: "b < 100 \<Longrightarrow> used fs0 b \<longleftrightarrow> b < 37"
  using map0_free [of b] fs0_sel(2,9) disk0_nth(4) by (auto simp: used_def mapblock_def BPB_def sb0_def)

lemma fs0_ok: "fs_ok fs0"
proof -
  have d: "dstart fs0 = 36" by (simp add: dstart_def fs0_sel BPB_def sb0_def)
  have "geom fs0" using fs0_sel sb0_read by (simp add: geom_def d) (simp add: sb0_def IPB_def)
  then show ?thesis using fs0_used by (simp add: fs_ok_def d)
qed

lemma fs0_nfree: "nfree fs0 = 63"
proof -
  have "{b. b < fsize fs0 \<and> \<not> used fs0 b} = {37..<100}" using fs0_used by (auto simp: fs0_sel sb0_def)
  then show ?thesis by (simp add: nfree_def)
qed

lemma fs0_file: "file_ok 0 fs0" "fdata fs0 0 = []" "inum (inode_at fs0 0) = 2" "avail 0 fs0 = 63"
proof -
  have i: "icache fs0 ! 0 = \<lparr>i_dev = 1, inum = 2, iref = 1, ivalid = True, idata = file0\<rparr>" by (simp add: fs0_sel)
  have n: "nb B (addrs file0) k = 0" if "k < MAXFILE" for B k using that by (simp add: nb_def file0_def NDIRECT_def)
  have "own B (addrs file0) = {}" for B using n by (auto simp: own_def file0_def NDIRECT_def)
  then have "map_ok fs0 (addrs file0)" using n by (simp add: map_ok_def file0_def)
  then show "file_ok 0 fs0" using i by (simp add: file_ok_def ino_at_def fs0_sel T_DEV_def T_FILE_def file0_def)
  show "fdata fs0 0 = []" "inum (inode_at fs0 0) = 2" "avail 0 fs0 = 63" using i fs0_nfree by (simp_all add: fdata_def file0_def avail_def NDIRECT_def)
qed

section \<open>Properties\<close>

text \<open>
  C8. The block allocator: while the file system has a free block, \<open>balloc\<close> returns one from the data
  area, marks it and nothing else as used, fills it with zeros and changes no used block; \<open>bfree\<close> of it
  restores the free map. Both keep the layout and the free map well formed.
\<close>

theorem balloc_then_bfree:
  fixes s :: "'a kfs_scheme"
  assumes "tx_ok Map.empty s" "fs_ok s" "log_room 3 s" "\<exists>b < fsize s. \<not> used s b"
  shows "\<exists>b s' s''. balloc 1 s = Inr (of_nat b, s') \<and> dstart s \<le> b \<and> b < fsize s \<and> \<not> used s b \<and>
    (\<forall>c < fsize s. used s' c \<longleftrightarrow> used s c \<or> c = b) \<and> blk s' (of_nat b) = replicate 512 0 \<and>
    (\<forall>n. data_block s n \<longrightarrow> used s (unat n) \<longrightarrow> blk s' n = blk s n) \<and> fs_ok s' \<and>
    bfree 1 (of_nat b) s' = Inr s'' \<and> (\<forall>c < fsize s. used s'' c \<longleftrightarrow> used s c) \<and> fs_ok s''"
proof -
  obtain b s' B where b: "balloc 1 s = Inr (of_nat b, s')" "tx_ok Map.empty s'" "allocates b s s'" "tx_step 2 B s s'"
    using balloc_ok [OF assms(1,2) held_ok_empty log_room_le [OF assms(3)] assms(4)] by auto
  note a = alloc_new [OF b(3)] and sd = fs_stepD [OF fs_step_tx [OF b(4)]]
  have al: "fs_ok s'" "dstart s \<le> b" "b < fsize s" using b(3) by (simp_all add: allocates_def)
  have r: "log_room 1 s'" using log_room_step [of 2 1, OF _ b(4)] assms(3) by simp
  have "data_block s' (of_nat b)" "used s' (unat (of_nat b :: uint))" using a(1,3,6) al(3) sd(10) by simp_all
  from bfree_ok [OF b(2) al(1) held_ok_empty r this] obtain s'' where f: "bfree 1 (of_nat b) s' = Inr s''" "frees b s' s''" using a(1) by auto
  have "used s'' c \<longleftrightarrow> used s c" if "c < fsize s" for c using f(2) a(6) [OF that] a(7) that sd(1) by (auto simp: frees_def)
  then show ?thesis using b(1) al a f by (intro exI [of _ b] exI [of _ s'] exI [of _ s'']) (simp add: frees_def)
qed

theorem balloc_then_bfree_witness:
  "\<exists>b s' s''. balloc 1 fs0 = Inr (of_nat b, s') \<and> 37 \<le> b \<and> b < 100 \<and> bfree 1 (of_nat b) s' = Inr s'' \<and> \<not> used s'' b"
proof -
  have "log_room 3 fs0" by (simp add: log_room_def fs0_sel)
  moreover have "\<exists>b < fsize fs0. \<not> used fs0 b" using fs0_used [of 50] by (intro exI [of _ 50]) (simp add: fs0_sel sb0_def)
  ultimately obtain b s' s'' where "balloc 1 fs0 = Inr (of_nat b, s')" "b < fsize fs0" "\<not> used fs0 b" "bfree 1 (of_nat b) s' = Inr s''"
    "\<forall>c < fsize fs0. used s'' c \<longleftrightarrow> used fs0 c" using balloc_then_bfree [OF fs0_sel(1) fs0_ok] by blast
  then show ?thesis using fs0_used [of b] by (intro exI [of _ b] exI [of _ s'] exI [of _ s'']) (auto simp: fs0_sel sb0_def)
qed

lemma others_fdata:
  assumes o: "others_kept ip s s'" and j: "file_ok j s" "j \<noteq> ip"
    and dj: "own (blk s) (addrs (din s j)) \<inter> own (blk s) (addrs (din s ip)) = {}"
  shows "fdata s' j = fdata s j"
proof -
  note fd = file_okD [OF j(1)]
  let ?A = "addrs (din s j)"
  have ic: "din s' j = din s j" using o j(2) by (simp add: others_kept_def)
  have keep: "blk s' n = blk s n" if "n \<in> own (blk s) ?A" for n
    using o map_okD(2,3) [OF fd(2) that] that dj unfolding others_kept_def by blast
  have "nb (blk s') ?A k = nb (blk s) ?A k" for k using keep own_ind [of ?A "blk s"] by (simp add: nb_def)
  moreover have "nb (blk s) ?A (x div BSIZE) \<in> own (blk s) ?A" if "x < unat (isize (din s j))" for x
    using own_nb [of "x div BSIZE" "blk s" ?A] fd(5) [OF block_start [OF that]] that fd(4)
    by (simp add: MAXFILE_def NDIRECT_def NINDIRECT_def BSIZE_def)
  ultimately show ?thesis using keep by (simp add: fdata_def ic byte_def)
qed

text \<open>
  C5. Files hold what is written to them: inside a transaction with room in the log and on the disk,
  \<open>writei\<close> of any bytes at an offset up to the end of the file succeeds and changes the contents as the
  abstract write does, extending the file where it has to; \<open>readi\<close> then returns exactly the requested
  part of the new contents; other inodes and the contents of files with other blocks are unchanged.
\<close>

theorem writei_readi_refine_contents:
  fixes s :: "'a kfs_scheme"
  assumes "tx_ok Map.empty s" "fs_ok s" "file_ok ip s" "unat (inum (inode_at s ip)) < ninodes s"
    "off \<le> isize (din s ip)" "unat off + length src \<le> MAXFILE * BSIZE"
    "log_room (6 * touched (unat off) (length src) + 1) s" "touched (unat off) (length src) < avail ip s"
  shows "\<exists>s'. writei ip src off s = Inr (int (length src), s') \<and> fs_ok s' \<and> file_ok ip s' \<and>
    fdata s' ip = content_write off src (fdata s ip) \<and> others_kept ip s s' \<and>
    (\<forall>j. file_ok j s \<longrightarrow> j \<noteq> ip \<longrightarrow> own (blk s) (addrs (din s j)) \<inter> own (blk s) (addrs (din s ip)) = {} \<longrightarrow> fdata s' j = fdata s j) \<and>
    (\<forall>p n. p \<le> isize (din s' ip) \<longrightarrow> unat p + unat n < 2 ^ 32 \<longrightarrow>
      (\<exists>s''. readi ip p n s' = Inr (int (length (take (unat n) (drop (unat p) (fdata s' ip)))), take (unat n) (drop (unat p) (fdata s' ip)), s'')))"
proof -
  have mx: "MAXFILE * BSIZE = 71680" by (simp add: MAXFILE_def NDIRECT_def NINDIRECT_def BSIZE_def)
  obtain s' where s': "writei ip src off s = Inr (int (length src), s')" "tx_ok Map.empty s'" "fs_ok s'" "file_ok ip s'"
    "fs_step (6 * touched (unat off) (length src) + 1) s s'" "fdata s' ip = content_write off src (fdata s ip)" "others_kept ip s s'"
    using writei_ok [OF assms(1-5) assms(6) [unfolded mx] assms(7,8)] by blast
  have "length (logged s') \<le> 28" using s'(5) assms(7) by (simp add: fs_step_def log_room_def)
  then have "\<exists>s''. readi ip p n s' = Inr (int (length (take (unat n) (drop (unat p) (fdata s' ip)))), take (unat n) (drop (unat p) (fdata s' ip)), s'')"
    if "p \<le> isize (din s' ip)" "unat p + unat n < 2 ^ 32" for p n using readi_ok [OF s'(2,3) _ s'(4) that] by blast
  with s' others_fdata [OF s'(7)] show ?thesis by blast
qed

theorem writei_readi_refine_contents_witness:
  "\<exists>s' s''. writei 0 (replicate 1000 65) 0 fs0 = Inr (1000, s') \<and> fdata s' 0 = replicate 1000 65 \<and>
    readi 0 600 10 s' = Inr (10, replicate 10 65, s'')"
proof -
  have t: "touched (unat (0 :: uint)) (length (replicate 1000 (65 :: uchar))) = 2" by (simp add: touched_def BSIZE_def)
  have c: "unat (inum (inode_at fs0 0)) < ninodes fs0" "(0 :: uint) \<le> isize (din fs0 0)"
    "unat (0 :: uint) + length (replicate 1000 (65 :: uchar)) \<le> MAXFILE * BSIZE"
    using fs0_file(3) by (simp_all add: fs0_sel(9) sb0_def MAXFILE_def NDIRECT_def NINDIRECT_def BSIZE_def)
  have r: "log_room (6 * touched (unat (0 :: uint)) (length (replicate 1000 (65 :: uchar))) + 1) fs0"
    "touched (unat (0 :: uint)) (length (replicate 1000 (65 :: uchar))) < avail 0 fs0" unfolding t using fs0_file(4) by (simp_all add: log_room_def fs0_sel)
  obtain s' where s': "writei 0 (replicate 1000 65) 0 fs0 = Inr (int (length (replicate 1000 (65 :: uchar))), s')"
    "fdata s' 0 = content_write 0 (replicate 1000 65) (fdata fs0 0)"
    "\<forall>p n. p \<le> isize (din s' 0) \<longrightarrow> unat p + unat n < 2 ^ 32 \<longrightarrow>
      (\<exists>s''. readi 0 p n s' = Inr (int (length (take (unat n) (drop (unat p) (fdata s' 0)))), take (unat n) (drop (unat p) (fdata s' 0)), s''))"
    using writei_readi_refine_contents [OF fs0_sel(1) fs0_ok fs0_file(1) c r] by blast
  have f: "fdata s' 0 = replicate 1000 65" using s'(2) fs0_file(2) by (simp add: content_write_def)
  then have "unat (isize (din s' 0)) = 1000" using length_fdata [of s' 0] by simp
  then have "(600 :: uint) \<le> isize (din s' 0)" by (simp add: word_le_nat_alt)
  then obtain s'' where "readi 0 600 10 s' = Inr (10, replicate 10 65, s'')" using s'(3) [rule_format, of 600 10] f by auto
  with s'(1) f show ?thesis by auto
qed

end
