(* ===== verification/Dir.thy ===== *)
theory Dir
  imports Fsdisk
begin

text \<open>
  Directories and path names, the upper layers of \<^verbatim>\<open>fs.c\<close>. A C string is the list of its bytes before the
  terminator; a name of \<^verbatim>\<open>DIRSIZ\<close> bytes has none. The lemmas read a directory as the list of its entries:
  \<open>dirlookup\<close> finds the first entry with the name, \<open>dirlink\<close> adds one, and the path walk visits the
  elements between the slashes.
\<close>

section \<open>Directories\<close>

definition DIRSIZ :: nat where "DIRSIZ = 14"
definition DESIZE :: nat where "DESIZE = 16"

definition ch :: "uchar list \<Rightarrow> uchar" where
  "ch p = (case p of [] \<Rightarrow> 0 | c # _ \<Rightarrow> c)"

fun namecmp_loop :: "nat \<Rightarrow> uchar list \<Rightarrow> uchar list \<Rightarrow> int" where
  "namecmp_loop 0 p q = 0"
| "namecmp_loop (Suc n) p q =
     (if ch p \<noteq> 0 \<and> ch p = ch q then namecmp_loop n (tl p) (tl q) else int (unat (ch p)) - int (unat (ch q)))"

definition namecmp :: "uchar list \<Rightarrow> uchar list \<Rightarrow> int" where
  "namecmp s t = namecmp_loop DIRSIZ s t"

text \<open>The fields of a directory entry, and \<open>strncpy\<close> into its name.\<close>

definition de_inum :: "uchar list \<Rightarrow> ushort" where "de_inum de = get16 de 0"
definition de_name :: "uchar list \<Rightarrow> uchar list" where "de_name de = drop 2 de"

definition pad_name :: "uchar list \<Rightarrow> uchar list" where
  "pad_name name = take DIRSIZ (name @ replicate DIRSIZ 0)"

definition dirent :: "uchar list \<Rightarrow> ushort \<Rightarrow> uchar list" where
  "dirent name i = [ucast i, ucast (drop_bit 8 i)] @ pad_name name"

text \<open>The loops run over the size of the directory, which reading does not change.\<close>

function dirlookup_loop :: "nat \<Rightarrow> uchar list \<Rightarrow> nat \<Rightarrow> nat \<Rightarrow> 'a kfs_scheme \<Rightarrow> ((nat \<times> nat) option \<times> 'a kfs_scheme) kres" where
  "dirlookup_loop dp name len off s =
     (if off < len then
        kbind (readi dp (of_nat off) (of_nat DESIZE) s) (\<lambda>(r, de, s1).
          if r \<noteq> int DESIZE then Inl (Panic ''dirlookup read'')
          else if de_inum de \<noteq> 0 \<and> namecmp name (de_name de) = 0 then
            kbind (iget (i_dev (inode_at s1 dp)) (ucast (de_inum de)) s1) (\<lambda>(ip, s2). Inr (Some (ip, off), s2))
          else dirlookup_loop dp name len (off + DESIZE) s1)
      else Inr (None, s))"
  by pat_completeness auto
termination by (relation "measure (\<lambda>(_, _, len, off, _). len - off)") (auto simp: DESIZE_def)

definition dirlookup :: "nat \<Rightarrow> uchar list \<Rightarrow> 'a kfs_scheme \<Rightarrow> ((nat \<times> nat) option \<times> 'a kfs_scheme) kres" where
  "dirlookup dp name s =
     (if itype (din s dp) \<noteq> T_DIR then Inl (Panic ''dirlookup not DIR'')
      else dirlookup_loop dp name (unat (isize (din s dp))) 0 s)"

function dirlink_loop :: "nat \<Rightarrow> nat \<Rightarrow> nat \<Rightarrow> 'a kfs_scheme \<Rightarrow> (nat \<times> 'a kfs_scheme) kres" where
  "dirlink_loop dp len off s =
     (if off < len then
        kbind (readi dp (of_nat off) (of_nat DESIZE) s) (\<lambda>(r, de, s1).
          if r \<noteq> int DESIZE then Inl (Panic ''dirlink read'')
          else if de_inum de = 0 then Inr (off, s1)
          else dirlink_loop dp len (off + DESIZE) s1)
      else Inr (off, s))"
  by pat_completeness auto
termination by (relation "measure (\<lambda>(_, len, off, _). len - off)") (auto simp: DESIZE_def)

definition dirlink :: "nat \<Rightarrow> uchar list \<Rightarrow> uint \<Rightarrow> 'a kfs_scheme \<Rightarrow> (int \<times> 'a kfs_scheme) kres" where
  "dirlink dp name n s =
     kbind (dirlookup dp name s) (\<lambda>(r, s1).
       case r of
         Some (ip, _) \<Rightarrow> kbind (iput ip s1) (\<lambda>s2. Inr (-1, s2))
       | None \<Rightarrow>
           kbind (dirlink_loop dp (unat (isize (din s1 dp))) 0 s1) (\<lambda>(off, s2).
             kbind (writei dp (dirent name (ucast n)) (of_nat off) s2) (\<lambda>(w, s3).
               if w \<noteq> int DESIZE then Inl (Panic ''dirlink'') else Inr (0, s3))))"

section \<open>Paths\<close>

definition slash :: uchar where "slash = 47"

definition skipelem :: "uchar list \<Rightarrow> (uchar list \<times> uchar list) option" where
  "skipelem path =
     (let s = dropWhile (\<lambda>c. c = slash) path
      in if s = [] then None
         else let name = takeWhile (\<lambda>c. c \<noteq> slash) s; rest = dropWhile (\<lambda>c. c \<noteq> slash) s
           in Some (take DIRSIZ name, dropWhile (\<lambda>c. c = slash) rest))"

lemma skipelem_shorter: "skipelem path = Some (name, rest) \<Longrightarrow> length rest < length path"
proof -
  assume a: "skipelem path = Some (name, rest)"
  define s where "s = dropWhile (\<lambda>c. c = slash) path"
  have s: "s \<noteq> []" "rest = dropWhile (\<lambda>c. c = slash) (dropWhile (\<lambda>c. c \<noteq> slash) s)"
    using a by (auto simp: skipelem_def Let_def s_def split: if_splits)
  have "hd s \<noteq> slash" using s(1) hd_dropWhile [of "\<lambda>c. c = slash" path] by (simp add: s_def)
  then have "dropWhile (\<lambda>c. c \<noteq> slash) s = dropWhile (\<lambda>c. c \<noteq> slash) (tl s)" using s(1) by (cases s) auto
  then have "length rest \<le> length (tl s)" using s(2) by (metis length_dropWhile_le order.trans)
  moreover have "length s \<le> length path" by (simp add: s_def length_dropWhile_le)
  ultimately show ?thesis using s(1) by (cases s) auto
qed

function namex_loop :: "bool \<Rightarrow> uchar list \<Rightarrow> uchar list \<Rightarrow> nat \<Rightarrow> 'a kfs_scheme \<Rightarrow> ((nat option \<times> uchar list) \<times> 'a kfs_scheme) kres" where
  "namex_loop nameiparent path name ip s =
     (case skipelem path of
        None \<Rightarrow> if nameiparent then kbind (iput ip s) (\<lambda>s1. Inr ((None, name), s1)) else Inr ((Some ip, name), s)
      | Some (name, rest) \<Rightarrow>
          kbind (ilock ip s) (\<lambda>s1.
            if itype (din s1 ip) \<noteq> T_DIR then kbind (iunlockput ip s1) (\<lambda>s2. Inr ((None, name), s2))
            else if nameiparent \<and> rest = [] then kbind (iunlock ip s1) (\<lambda>s2. Inr ((Some ip, name), s2))
            else kbind (dirlookup ip name s1) (\<lambda>(r, s2).
              case r of
                None \<Rightarrow> kbind (iunlockput ip s2) (\<lambda>s3. Inr ((None, name), s3))
              | Some (nxt, _) \<Rightarrow> kbind (iunlockput ip s2) (\<lambda>s3. namex_loop nameiparent rest name nxt s3))))"
  by pat_completeness auto
termination by (relation "measure (\<lambda>(_, path, _). length path)") (auto simp: skipelem_shorter)

definition namex :: "uchar list \<Rightarrow> bool \<Rightarrow> 'a kfs_scheme \<Rightarrow> ((nat option \<times> uchar list) \<times> 'a kfs_scheme) kres" where
  "namex path nameiparent s =
     kbind (if ch path = slash then iget ROOTDEV ROOTINO s
            else case curproc s of
              None \<Rightarrow> Inl (Undefined ''myproc'')
            | Some p \<Rightarrow> (case cwd (ptable s ! p) of None \<Rightarrow> Inl (Undefined ''cwd'') | Some d \<Rightarrow> idup d s)) (\<lambda>(ip, s1).
       namex_loop nameiparent path [] ip s1)"

definition namei :: "uchar list \<Rightarrow> 'a kfs_scheme \<Rightarrow> (nat option \<times> 'a kfs_scheme) kres" where
  "namei path s = kbind (namex path False s) (\<lambda>((ip, _), s1). Inr (ip, s1))"

definition nameiparent :: "uchar list \<Rightarrow> 'a kfs_scheme \<Rightarrow> ((nat option \<times> uchar list) \<times> 'a kfs_scheme) kres" where
  "nameiparent path s = namex path True s"

declare dirlookup_loop.simps [simp del] dirlink_loop.simps [simp del] namex_loop.simps [simp del]

section \<open>The name of the swap file\<close>

text \<open>\<open>itoa\<close>: one loop moves to the end of the number, the other fills the digits in backwards.\<close>

fun itoa_end :: "nat \<Rightarrow> nat" where
  "itoa_end i = (if i div 10 = 0 then 1 else Suc (itoa_end (i div 10)))"

fun itoa_fill :: "nat \<Rightarrow> uchar list \<Rightarrow> uchar list" where
  "itoa_fill i b = (let b' = of_nat (48 + i mod 10) # b in if i div 10 = 0 then b' else itoa_fill (i div 10) b')"

declare itoa_end.simps [simp del] itoa_fill.simps [simp del]

definition itoa :: "int \<Rightarrow> uchar list" where
  "itoa i = (if i < 0 then 45 # itoa_fill (nat (- i)) [] else itoa_fill (nat i) [])"

definition DIGITS :: nat where "DIGITS = 14"

text \<open>\<^verbatim>\<open>char path[DIGITS]\<close> with \<^verbatim>\<open>"/.swap"\<close> and the process number: a longer text would be written past the array.\<close>

definition swap_path :: "int \<Rightarrow> uchar list kres" where
  "swap_path n =
     (let path = [47, 46, 115, 119, 97, 112] @ itoa n
      in if length path + 1 \<le> DIGITS then Inr path else Inl (Undefined ''swap file name''))"

section \<open>The elements of a path\<close>

text \<open>The pieces of a string between the slashes, empty ones included.\<close>

fun pieces :: "uchar list \<Rightarrow> uchar list list" where
  "pieces [] = [[]]"
| "pieces (c # cs) = (if c = slash then [] # pieces cs else (c # hd (pieces cs)) # tl (pieces cs))"

definition elements :: "uchar list \<Rightarrow> uchar list list" where
  "elements path = filter (\<lambda>w. w \<noteq> []) (pieces path)"

text \<open>What a walk along a path takes off it, call after call of \<open>skipelem\<close>.\<close>

function walk :: "uchar list \<Rightarrow> uchar list list" where
  "walk path = (case skipelem path of None \<Rightarrow> [] | Some (name, rest) \<Rightarrow> name # walk rest)"
  by pat_completeness auto
termination by (relation "measure length") (auto simp: skipelem_shorter)

declare walk.simps [simp del]

lemma pieces_ne [simp]: "pieces cs \<noteq> []"
  by (cases cs) auto

lemma elements_slash [simp]: "elements (slash # cs) = elements cs"
  by (simp add: elements_def)

lemma elements_drop: "elements (dropWhile (\<lambda>c. c = slash) cs) = elements cs"
  by (induction cs) auto

lemma pieces_hd: "hd (pieces cs) = takeWhile (\<lambda>c. c \<noteq> slash) cs"
  by (induction cs) auto

lemma pieces_split: "pieces cs = takeWhile (\<lambda>c. c \<noteq> slash) cs # tl (pieces cs)"
  using pieces_hd [of cs] list.collapse [OF pieces_ne [of cs]] by simp

lemma pieces_tl: "filter (\<lambda>w. w \<noteq> []) (tl (pieces cs)) = elements (dropWhile (\<lambda>c. c \<noteq> slash) cs)"
proof (induction cs)
  case Nil
  then show ?case by (simp add: elements_def)
next
  case (Cons c cs)
  then show ?case by (cases "c = slash") (simp_all add: elements_def)
qed

lemma walk_elements: "walk path = map (take DIRSIZ) (elements path)"
proof (induction path rule: walk.induct)
  case (1 path)
  let ?s = "dropWhile (\<lambda>c. c = slash) path"
  show ?case
  proof (cases "?s = []")
    case True
    then have "skipelem path = None" by (simp add: skipelem_def)
    moreover have "elements path = []" using elements_drop [of path] True by (simp add: elements_def)
    ultimately show ?thesis by (simp add: walk.simps [of path])
  next
    case False
    let ?e = "takeWhile (\<lambda>c. c \<noteq> slash) ?s" let ?r = "dropWhile (\<lambda>c. c = slash) (dropWhile (\<lambda>c. c \<noteq> slash) ?s)"
    have k: "skipelem path = Some (take DIRSIZ ?e, ?r)" unfolding skipelem_def Let_def using False by (simp only: if_False)
    have "hd ?s \<noteq> slash" using False hd_dropWhile [of "\<lambda>c. c = slash" path] by simp
    then have e: "?e \<noteq> []" using False by (cases ?s) auto
    have "elements path = elements ?s" by (rule elements_drop [symmetric])
    also have "\<dots> = filter (\<lambda>w. w \<noteq> []) (?e # tl (pieces ?s))" using pieces_split [of ?s] by (simp add: elements_def)
    also have "\<dots> = ?e # elements ?r" using e by (simp add: pieces_tl elements_drop)
    finally show ?thesis using 1 [OF k refl] k by (simp add: walk.simps [of path])
  qed
qed

text \<open>
  C12. Paths are taken apart at the slashes: calling \<open>skipelem\<close> again and again on any path gives exactly
  its non-empty parts between slashes, in order, each cut to the length of a directory name, and ends
  (repeated, leading and trailing slashes do not matter).
\<close>

theorem skipelem_splits_path: "walk path = map (take DIRSIZ) (filter (\<lambda>w. w \<noteq> []) (pieces path))"
  using walk_elements by (simp add: elements_def)

section \<open>Swap file names\<close>

definition digit_value :: "nat \<Rightarrow> uchar \<Rightarrow> nat" where
  "digit_value a c = a * 10 + (unat c - 48)"

lemma itoa_fill_value: "foldl digit_value 0 (itoa_fill i b) = foldl digit_value i b"
proof (induction i b rule: itoa_fill.induct)
  case (1 i b)
  have "unat (of_nat (48 + i mod 10) :: uchar) = 48 + i mod 10" by (subst unat_of_nat) simp
  then have d: "digit_value (i div 10) (of_nat (48 + i mod 10)) = i" by (simp add: digit_value_def)
  show ?case
  proof (cases "i div 10 = 0")
    case True
    then show ?thesis using d by (simp add: itoa_fill.simps [of i] Let_def del: of_nat_add)
  next
    case False
    then show ?thesis using 1 [OF refl False] d by (simp add: itoa_fill.simps [of i] Let_def del: of_nat_add)
  qed
qed

lemma itoa_fill_length: "length (itoa_fill i b) = itoa_end i + length b"
  by (induction i b rule: itoa_fill.induct) (subst itoa_fill.simps, subst itoa_end.simps, simp add: Let_def)

lemma itoa_end_bound: "itoa_end i \<le> Suc k \<longleftrightarrow> i < 10 ^ Suc k"
proof (induction k arbitrary: i)
  case 0
  have "0 < itoa_end j" for j by (subst itoa_end.simps) simp
  from this [of "i div 10"] show ?case by (subst itoa_end.simps) auto
next
  case (Suc k)
  have "itoa_end i \<le> Suc (Suc k) \<longleftrightarrow> i div 10 = 0 \<or> itoa_end (i div 10) \<le> Suc k" by (subst itoa_end.simps) simp
  also have "\<dots> \<longleftrightarrow> i div 10 < 10 ^ Suc k" using Suc.IH [of "i div 10"] by auto
  also have "\<dots> \<longleftrightarrow> i < 10 ^ Suc (Suc k)" by (simp add: div_less_iff_less_mult mult.commute)
  finally show ?case .
qed

lemma itoa_no_slash: "slash \<notin> set b \<Longrightarrow> slash \<notin> set (itoa_fill i b)"
proof (induction i b rule: itoa_fill.induct)
  case (1 i b)
  have u: "unat (of_nat (48 + i mod 10) :: uchar) = 48 + i mod 10" by (subst unat_of_nat) simp
  have "(of_nat (48 + i mod 10) :: uchar) \<noteq> slash"
  proof
    assume "(of_nat (48 + i mod 10) :: uchar) = slash"
    then have "unat (of_nat (48 + i mod 10) :: uchar) = 47" by (simp add: slash_def del: of_nat_add)
    with u show False by simp
  qed
  then have b': "slash \<notin> set (of_nat (48 + i mod 10) # b)" using 1(2) by auto
  show ?case
  proof (cases "i div 10 = 0")
    case True
    then show ?thesis using b' by (simp add: itoa_fill.simps [of i] Let_def del: of_nat_add)
  next
    case False
    then show ?thesis using 1(1) [OF refl False b'] by (simp add: itoa_fill.simps [of i] Let_def del: of_nat_add)
  qed
qed

lemma swap_path_fits:
  assumes "0 \<le> n" "n < 10 ^ 7"
  shows "swap_path n = Inr ([47, 46, 115, 119, 97, 112] @ itoa_fill (nat n) [])"
proof -
  have "nat n < 10 ^ 7" using assms by simp
  then have "itoa_end (nat n) \<le> 7" using itoa_end_bound [of "nat n" 6] by simp
  then show ?thesis using assms by (simp add: swap_path_def itoa_def itoa_fill_length DIGITS_def)
qed

text \<open>
  C13. Names of swap files: for every process number below ten million the path that \<open>createSwapFile\<close> and
  \<open>removeSwapFile\<close> build fits their array, names one entry of the root directory without being cut off,
  and differs from the path of every other such process; from ten million on the digits run past the
  end of the array.
\<close>

theorem swap_path_bounds:
  "(\<forall>n. 0 \<le> n \<and> n < 10 ^ 7 \<longrightarrow> (\<exists>p. swap_path n = Inr p \<and> length p < DIGITS \<and> skipelem p = Some (tl p, []))) \<and>
   (\<forall>m n. 0 \<le> m \<and> m < 10 ^ 7 \<and> 0 \<le> n \<and> n < 10 ^ 7 \<longrightarrow> swap_path m = swap_path n \<longrightarrow> m = n) \<and>
   (\<forall>n \<ge> 10 ^ 7. swap_path n = Inl (Undefined ''swap file name''))"
proof (intro conjI allI impI)
  fix n :: int
  assume n: "0 \<le> n \<and> n < 10 ^ 7"
  let ?d = "itoa_fill (nat n) []"
  have "nat n < 10 ^ 7" using n by (simp add: nat_less_iff)
  then have l: "length ?d \<le> 7" using itoa_end_bound [of "nat n" 6] by (simp add: itoa_fill_length)
  have "\<forall>c \<in> set ?d. c \<noteq> slash" using itoa_no_slash [of "[]" "nat n"] by auto
  then have t: "takeWhile (\<lambda>c. c \<noteq> 47) ?d = ?d" "dropWhile (\<lambda>c. c \<noteq> 47) ?d = []"
    unfolding slash_def by (simp_all only: takeWhile_eq_all_conv dropWhile_eq_Nil_conv)
  have "skipelem ([47, 46, 115, 119, 97, 112] @ ?d) = Some ([46, 115, 119, 97, 112] @ ?d, [])"
    using l by (simp add: skipelem_def slash_def DIRSIZ_def t del: dropWhile_eq_Nil_conv)
  then show "\<exists>p. swap_path n = Inr p \<and> length p < DIGITS \<and> skipelem p = Some (tl p, [])"
    using swap_path_fits [of n] n l by (intro exI [of _ "[47, 46, 115, 119, 97, 112] @ ?d"]) (simp add: DIGITS_def)
next
  fix m n :: int
  assume mn: "0 \<le> m \<and> m < 10 ^ 7 \<and> 0 \<le> n \<and> n < 10 ^ 7" and e: "swap_path m = swap_path n"
  have sm: "swap_path m = Inr ([47, 46, 115, 119, 97, 112] @ itoa_fill (nat m) [])"
    and sn: "swap_path n = Inr ([47, 46, 115, 119, 97, 112] @ itoa_fill (nat n) [])" using mn by (blast intro: swap_path_fits)+
  have d: "itoa_fill (nat m) [] = itoa_fill (nat n) []" using e unfolding sm sn by simp
  then have "foldl digit_value 0 (itoa_fill (nat m) []) = foldl digit_value 0 (itoa_fill (nat n) [])" by simp
  then have "nat m = nat n" unfolding itoa_fill_value by simp
  with mn show "m = n" by (simp add: eq_nat_nat_iff)
next
  fix n :: int
  assume n: "10 ^ 7 \<le> n"
  then have "\<not> itoa_end (nat n) \<le> 7" using itoa_end_bound [of "nat n" 6] by simp
  then show "swap_path n = Inl (Undefined ''swap file name'')" using n by (simp add: swap_path_def itoa_def itoa_fill_length DIGITS_def)
qed

theorem swap_path_bounds_witness:
  "(\<exists>p. swap_path 9999999 = Inr p \<and> length p < DIGITS) \<and> swap_path 3 \<noteq> swap_path 4 \<and> swap_path 10000000 = Inl (Undefined ''swap file name'')"
proof (intro conjI)
  note b = swap_path_bounds
  show "\<exists>p. swap_path 9999999 = Inr p \<and> length p < DIGITS" using b [THEN conjunct1, rule_format, of 9999999] by auto
  show "swap_path 3 \<noteq> swap_path 4" using b [THEN conjunct2, THEN conjunct1, rule_format, of 3 4] by auto
  show "swap_path 10000000 = Inl (Undefined ''swap file name'')" using b [THEN conjunct2, THEN conjunct2, rule_format, of 10000000] by simp
qed

section \<open>A directory as a list of entries\<close>

definition ents :: "uchar list \<Rightarrow> uchar list list" where
  "ents d = map (\<lambda>k. take DESIZE (drop (DESIZE * k) d)) [0..<length d div DESIZE]"

definition matches :: "uchar list \<Rightarrow> uchar list \<Rightarrow> bool" where
  "matches name de \<longleftrightarrow> de_inum de \<noteq> 0 \<and> namecmp name (de_name de) = 0"

definition dir_ok :: "nat \<Rightarrow> 'a kfs_scheme \<Rightarrow> bool" where
  "dir_ok dp s \<longleftrightarrow> file_ok dp s \<and> itype (din s dp) = T_DIR \<and> DESIZE dvd unat (isize (din s dp)) \<and>
     unat (inum (inode_at s dp)) < ninodes s"

lemma ents_length [simp]: "length (ents d) = length d div DESIZE"
  by (simp add: ents_def)

lemma ents_nth: "k < length d div DESIZE \<Longrightarrow> ents d ! k = take DESIZE (drop (DESIZE * k) d)"
  by (simp add: ents_def)

lemma file_ok_same:
  assumes "tx_step 0 (blk s) s s'" "file_ok ip s" "fs_ok s"
  shows "file_ok ip s'" "fdata s' ip = fdata s ip" "icache s' = icache s" "fs_ok s'" "dir_ok ip s' = dir_ok ip s"
proof -
  note fd = file_okD [OF assms(2)]
  note e = extends_same [OF assms(1,3) fd(2)] and b = tx_stepD(1) [OF assms(1)] and q = fs_same [OF assms(1)]
  show f: "file_ok ip s'" using assms(2) e(2,4,5) b by (simp add: file_ok_def)
  show "fdata s' ip = fdata s ip" "icache s' = icache s" "fs_ok s'" using e b q assms(3) by (simp_all add: fdata_def)
  show "dir_ok ip s' = dir_ok ip s" using f assms(2) e(4) q(1) by (simp add: dir_ok_def)
qed

text \<open>Reading the entry at a multiple of the entry size.\<close>

lemma read_entry:
  fixes s :: "'a kfs_scheme"
  assumes tx: "tx_ok Map.empty s" "fs_ok s" "length (logged s) \<le> 28" and d: "dir_ok dp s" and k: "k < length (ents (fdata s dp))"
  shows "\<exists>s'. readi dp (of_nat (DESIZE * k)) (of_nat DESIZE) s = Inr (int DESIZE, ents (fdata s dp) ! k, s') \<and>
    tx_ok Map.empty s' \<and> tx_step 0 (blk s) s s'"
proof -
  have f: "file_ok dp s" using d by (simp add: dir_ok_def)
  have kk: "DESIZE * k + DESIZE \<le> unat (isize (din s dp))"
    using k mult_le_mono2 [of "Suc k" "unat (isize (din s dp)) div DESIZE" DESIZE] times_div_less_eq_dividend [of DESIZE "unat (isize (din s dp))"]
    by (simp del: times_div_less_eq_dividend)
  then have "DESIZE * k < 2 ^ 31" using file_okD(4) [OF f] by simp
  then have u: "unat (of_nat (DESIZE * k) :: uint) = DESIZE * k" "unat (of_nat DESIZE :: uint) = DESIZE"
    by (simp_all add: off_word(1) DESIZE_def del: of_nat_mult)
  then have c: "of_nat (DESIZE * k) \<le> isize (din s dp)" "unat (of_nat (DESIZE * k) :: uint) + unat (of_nat DESIZE :: uint) < 2 ^ 32"
    using kk file_okD(4) [OF f] by (simp_all add: word_le_nat_alt DESIZE_def del: of_nat_mult)
  have "length (take DESIZE (drop (DESIZE * k) (fdata s dp))) = DESIZE" using kk by simp
  then show ?thesis using readi_ok [OF tx f c] k unfolding u by (simp add: ents_nth)
qed

lemma dirlookup_loop_ok:
  fixes s :: "'a kfs_scheme"
  assumes "tx_ok Map.empty s" "fs_ok s" "length (logged s) \<le> 28" "dir_ok dp s" "j \<le> length (ents (fdata s dp))" "\<forall>i < j. \<not> matches name (ents (fdata s dp) ! i)"
  shows "\<exists>s1. tx_ok Map.empty s1 \<and> tx_step 0 (blk s) s s1 \<and>
    dirlookup_loop dp name (unat (isize (din s dp))) (DESIZE * j) s = (case first_index (matches name) (ents (fdata s dp)) of
      None \<Rightarrow> Inr (None, s1)
    | Some k \<Rightarrow> kbind (iget 1 (ucast (de_inum (ents (fdata s dp) ! k))) s1) (\<lambda>(ip, s2). Inr (Some (ip, DESIZE * k), s2)))"
  using assms
proof (induction "length (ents (fdata s dp)) - j" arbitrary: j s)
  case 0
  then have j: "j = length (ents (fdata s dp))" by simp
  then have "first_index (matches name) (ents (fdata s dp)) = None" using 0(7) by (auto simp: in_set_conv_nth)
  moreover have "\<not> DESIZE * j < unat (isize (din s dp))" using j 0(5) by (simp add: dir_ok_def)
  ultimately show ?case using 0(2) by (intro exI [of _ s]) (simp add: dirlookup_loop.simps [of dp name _ "DESIZE * j"] tx_step_def del: first_index_None)
next
  case (Suc n)
  let ?E = "ents (fdata s dp)"
  have j: "j < length ?E" using Suc(2) by simp
  obtain s1 where s1: "readi dp (of_nat (DESIZE * j)) (of_nat DESIZE) s = Inr (int DESIZE, ?E ! j, s1)" "tx_ok Map.empty s1" "tx_step 0 (blk s) s s1"
    using read_entry [OF Suc(3-6) j] by blast
  have f: "file_ok dp s" "itype (din s dp) = T_DIR" using Suc(6) by (simp_all add: dir_ok_def)
  note e = file_ok_same [OF s1(3) f(1) Suc(4)]
  have dev: "i_dev (inode_at s1 dp) = 1" using file_okD(1) [OF e(1)] by (simp add: ino_at_def)
  have lt: "DESIZE * j < unat (isize (din s dp))" using j by (simp add: DESIZE_def)
  show ?case
  proof (cases "matches name (?E ! j)")
    case True
    then have "first_index (matches name) ?E = Some j" using j Suc(8) by (simp add: first_index_eq_Some)
    then show ?thesis using True s1 lt dev
      by (intro exI [of _ s1]) (simp add: dirlookup_loop.simps [of dp name _ "DESIZE * j"] matches_def del: of_nat_mult)
  next
    case False
    have "\<exists>s2. tx_ok Map.empty s2 \<and> tx_step 0 (blk s1) s1 s2 \<and>
      dirlookup_loop dp name (unat (isize (din s1 dp))) (DESIZE * Suc j) s1 = (case first_index (matches name) (ents (fdata s1 dp)) of
        None \<Rightarrow> Inr (None, s2)
      | Some k \<Rightarrow> kbind (iget 1 (ucast (de_inum (ents (fdata s1 dp) ! k))) s2) (\<lambda>(ip, s2). Inr (Some (ip, DESIZE * k), s2)))"
    proof (rule Suc.hyps(1))
      show "n = length (ents (fdata s1 dp)) - Suc j" using Suc(2) e(2) by simp
      show "tx_ok Map.empty s1" "fs_ok s1" "dir_ok dp s1" using s1(2) e(4,5) Suc(6) by simp_all
      show "length (logged s1) \<le> 28" using tx_stepD(6) [OF s1(3)] Suc(5) by simp
      show "Suc j \<le> length (ents (fdata s1 dp))" using j e(2) by simp
      show "\<forall>i < Suc j. \<not> matches name (ents (fdata s1 dp) ! i)" using Suc(8) False e(2) by (simp add: less_Suc_eq)
    qed
    moreover have m: "DESIZE * Suc j = DESIZE * j + DESIZE" by simp
    ultimately obtain s2 where s2: "tx_ok Map.empty s2" "tx_step 0 (blk s1) s1 s2"
      "dirlookup_loop dp name (unat (isize (din s dp))) (DESIZE * j + DESIZE) s1 = (case first_index (matches name) ?E of
        None \<Rightarrow> Inr (None, s2)
      | Some k \<Rightarrow> kbind (iget 1 (ucast (de_inum (?E ! k))) s2) (\<lambda>(ip, s2). Inr (Some (ip, DESIZE * k), s2)))"
      unfolding e(2,3) m by blast
    have "dirlookup_loop dp name (unat (isize (din s dp))) (DESIZE * j) s = dirlookup_loop dp name (unat (isize (din s dp))) (DESIZE * j + DESIZE) s1"
      using False s1(1) lt by (subst dirlookup_loop.simps) (auto simp: matches_def simp del: of_nat_mult)
    then show ?thesis using s2 tx_step_after [OF s1(3) s2(2)] tx_stepD(1) [OF s1(3)] by (intro exI [of _ s2]) simp
  qed
qed

lemma dirlookup_ok:
  fixes s :: "'a kfs_scheme"
  assumes "tx_ok Map.empty s" "fs_ok s" "length (logged s) \<le> 28" "dir_ok dp s"
  shows "\<exists>s1. tx_ok Map.empty s1 \<and> tx_step 0 (blk s) s s1 \<and>
    dirlookup dp name s = (case first_index (matches name) (ents (fdata s dp)) of
      None \<Rightarrow> Inr (None, s1)
    | Some k \<Rightarrow> kbind (iget 1 (ucast (de_inum (ents (fdata s dp) ! k))) s1) (\<lambda>(ip, s2). Inr (Some (ip, DESIZE * k), s2)))"
  using dirlookup_loop_ok [OF assms, of 0 name] assms(4) by (simp add: dirlookup_def dir_ok_def)

lemma dirlink_loop_ok:
  fixes s :: "'a kfs_scheme"
  assumes "tx_ok Map.empty s" "fs_ok s" "length (logged s) \<le> 28" "dir_ok dp s" "j \<le> length (ents (fdata s dp))"
    "\<forall>i < j. de_inum (ents (fdata s dp) ! i) \<noteq> 0"
  shows "\<exists>s1. tx_ok Map.empty s1 \<and> tx_step 0 (blk s) s s1 \<and>
    dirlink_loop dp (unat (isize (din s dp))) (DESIZE * j) s = Inr (DESIZE * (case first_index (\<lambda>e. de_inum e = 0) (ents (fdata s dp)) of
      None \<Rightarrow> length (ents (fdata s dp)) | Some k \<Rightarrow> k), s1)"
  using assms
proof (induction "length (ents (fdata s dp)) - j" arbitrary: j s)
  case 0
  then have j: "j = length (ents (fdata s dp))" by simp
  then have "first_index (\<lambda>e. de_inum e = 0) (ents (fdata s dp)) = None" using 0(7) by (auto simp: in_set_conv_nth)
  moreover have "DESIZE * j = unat (isize (din s dp))" using j 0(5) by (simp add: dir_ok_def)
  moreover from this have "dirlink_loop dp (unat (isize (din s dp))) (DESIZE * j) s = Inr (DESIZE * j, s)" by (simp add: dirlink_loop.simps)
  ultimately show ?case using 0(2) j by (intro exI [of _ s]) (simp add: tx_step_def del: first_index_None)
next
  case (Suc n)
  let ?E = "ents (fdata s dp)"
  have j: "j < length ?E" using Suc(2) by simp
  obtain s1 where s1: "readi dp (of_nat (DESIZE * j)) (of_nat DESIZE) s = Inr (int DESIZE, ?E ! j, s1)" "tx_ok Map.empty s1" "tx_step 0 (blk s) s s1"
    using read_entry [OF Suc(3-6) j] by blast
  have f: "file_ok dp s" using Suc(6) by (simp add: dir_ok_def)
  note e = file_ok_same [OF s1(3) f Suc(4)]
  have lt: "DESIZE * j < unat (isize (din s dp))" using j by (simp add: DESIZE_def)
  show ?case
  proof (cases "de_inum (?E ! j) = 0")
    case True
    then have "first_index (\<lambda>e. de_inum e = 0) ?E = Some j" using j Suc(8) by (simp add: first_index_eq_Some)
    then show ?thesis using True s1 lt
      by (intro exI [of _ s1]) (simp add: dirlink_loop.simps [of dp _ "DESIZE * j"] del: of_nat_mult)
  next
    case False
    have "\<exists>s2. tx_ok Map.empty s2 \<and> tx_step 0 (blk s1) s1 s2 \<and>
      dirlink_loop dp (unat (isize (din s1 dp))) (DESIZE * Suc j) s1 = Inr (DESIZE * (case first_index (\<lambda>e. de_inum e = 0) (ents (fdata s1 dp)) of
        None \<Rightarrow> length (ents (fdata s1 dp)) | Some k \<Rightarrow> k), s2)"
    proof (rule Suc.hyps(1))
      show "n = length (ents (fdata s1 dp)) - Suc j" using Suc(2) e(2) by simp
      show "tx_ok Map.empty s1" "fs_ok s1" "dir_ok dp s1" using s1(2) e(4,5) Suc(6) by simp_all
      show "length (logged s1) \<le> 28" using tx_stepD(6) [OF s1(3)] Suc(5) by simp
      show "Suc j \<le> length (ents (fdata s1 dp))" using j e(2) by simp
      show "\<forall>i < Suc j. de_inum (ents (fdata s1 dp) ! i) \<noteq> 0" using Suc(8) False e(2) by (simp add: less_Suc_eq)
    qed
    moreover have m: "DESIZE * Suc j = DESIZE * j + DESIZE" by simp
    ultimately obtain s2 where s2: "tx_ok Map.empty s2" "tx_step 0 (blk s1) s1 s2"
      "dirlink_loop dp (unat (isize (din s dp))) (DESIZE * j + DESIZE) s1 = Inr (DESIZE * (case first_index (\<lambda>e. de_inum e = 0) ?E of
        None \<Rightarrow> length ?E | Some k \<Rightarrow> k), s2)"
      unfolding e(2,3) m by blast
    have "dirlink_loop dp (unat (isize (din s dp))) (DESIZE * j) s = dirlink_loop dp (unat (isize (din s dp))) (DESIZE * j + DESIZE) s1"
      using False s1(1) lt by (subst dirlink_loop.simps) (simp del: of_nat_mult)
    then show ?thesis using s2 tx_step_after [OF s1(3) s2(2)] tx_stepD(1) [OF s1(3)] by (intro exI [of _ s2]) simp
  qed
qed

text \<open>The directory with an entry in its first free place, or behind the last one.\<close>

definition add_entry :: "uchar list \<Rightarrow> uchar list list \<Rightarrow> uchar list list" where
  "add_entry e es = (case first_index (\<lambda>e. de_inum e = 0) es of None \<Rightarrow> es @ [e] | Some k \<Rightarrow> es[k := e])"

lemma length_dirent [simp]: "length (dirent name n) = DESIZE"
  by (simp add: dirent_def pad_name_def DIRSIZ_def DESIZE_def)

lemma dirent_fields: "de_inum (dirent name n) = n" "de_name (dirent name n) = pad_name name"
  by (simp_all add: de_inum_def de_name_def dirent_def get16_def bytes_join16)

lemma namecmp_pad: "n \<le> m \<Longrightarrow> namecmp_loop n p (take n (p @ replicate m 0)) = 0"
proof (induction n arbitrary: p)
  case (Suc n)
  show ?case
  proof (cases p)
    case Nil
    then show ?thesis using Suc.prems by (cases m) (simp_all add: ch_def)
  next
    case (Cons c cs)
    then show ?thesis using Suc by (simp add: ch_def)
  qed
qed simp

lemma matches_dirent: "n \<noteq> 0 \<Longrightarrow> matches name (dirent name n)"
  using namecmp_pad [of DIRSIZ DIRSIZ name] by (simp add: matches_def dirent_fields namecmp_def pad_name_def)

text \<open>Looking a name up after an entry was added.\<close>

lemma find_append: "find P (xs @ ys) = (case find P xs of Some x \<Rightarrow> Some x | None \<Rightarrow> find P ys)"
  by (induction xs) auto

lemma find_add_entry:
  "\<not> matches nm e \<Longrightarrow> find (matches nm) (add_entry e es) = find (matches nm) es"
  "matches nm e \<Longrightarrow> find (matches nm) es = None \<Longrightarrow> find (matches nm) (add_entry e es) = Some e"
proof -
  consider "add_entry e es = es @ [e]" | xs y ys where "add_entry e es = xs @ e # ys" "es = xs @ y # ys" "\<not> matches nm y"
  proof (cases "first_index (\<lambda>e. de_inum e = 0) es")
    case None
    then show ?thesis using that(1) unfolding add_entry_def by (simp only: option.case)
  next
    case (Some k)
    then have k: "k < length es" "\<not> matches nm (es ! k)" by (auto simp: first_index_eq_Some matches_def)
    then show ?thesis using that(2) [of "take k es" "drop (Suc k) es" "es ! k"] Some
      by (simp add: add_entry_def upd_conv_take_nth_drop id_take_nth_drop [symmetric])
  qed
  note c = this
  show "find (matches nm) (add_entry e es) = find (matches nm) es" if "\<not> matches nm e"
    using c that by cases (auto simp: find_append split: option.splits)
  show "find (matches nm) (add_entry e es) = Some e" if "matches nm e" "find (matches nm) es = None"
    using c that by cases (auto simp: find_append split: option.splits)
qed

lemma find_first_index: "find P xs = map_option (\<lambda>k. xs ! k) (first_index P xs)"
  by (induction xs) (auto simp: option.map_comp comp_def)

lemma nth_slice: "DESIZE * j + b < length d \<Longrightarrow> b < DESIZE \<Longrightarrow> take DESIZE (drop (DESIZE * j) d) ! b = d ! (DESIZE * j + b)"
  by simp

lemma ents_content_write:
  assumes d: "DESIZE dvd length d" "length d \<le> 71680" and e: "length e = DESIZE" and k: "k \<le> length d div DESIZE"
  shows "ents (content_write (of_nat (DESIZE * k)) e d) = (if k < length d div DESIZE then (ents d)[k := e] else ents d @ [e])"
proof -
  let ?n = "length d div DESIZE"
  have kd: "DESIZE * k \<le> length d" using mult_le_mono2 [OF k, of DESIZE] d(1) by simp
  have u: "unat (of_nat (DESIZE * k) :: uint) = DESIZE * k" by (rule off_word(1)) (use kd d(2) in simp)
  have ld: "length d = DESIZE * ?n" using d(1) by simp
  let ?c = "content_write (of_nat (DESIZE * k)) e d" let ?m = "max ?n (Suc k)"
  have lc: "length ?c = DESIZE * ?m"
  proof -
    have "length ?c = max (length d) (DESIZE * k + DESIZE)" using length_content_write [of "of_nat (DESIZE * k)" d e] kd u e by simp
    also have "\<dots> = DESIZE * ?m" by (subst ld) (auto simp: max_def DESIZE_def)
    finally show ?thesis .
  qed
  have dz: "0 < DESIZE" by (simp add: DESIZE_def)
  have cn: "?c ! x = (if DESIZE * k \<le> x \<and> x < DESIZE * k + DESIZE then e ! (x - DESIZE * k) else d ! x)" if "x < length ?c" for x
    using content_write_nth [of "of_nat (DESIZE * k)" d x e] length_content_write [of "of_nat (DESIZE * k)" d e] kd that unfolding u e by simp
  have ent: "ents ?c ! j = (if j = k then e else ents d ! j)" if j: "j < ?m" for j
  proof (rule nth_equalityI)
    have jm: "DESIZE * j + DESIZE \<le> length ?c" using mult_le_mono2 [of "Suc j" ?m DESIZE] j unfolding lc by simp
    have l: "length (ents ?c ! j) = DESIZE" using jm j lc dz by (simp add: ents_nth)
    have jn: "j < ?n" "length (ents d ! j) = DESIZE" if "j \<noteq> k"
    proof -
      show "j < ?n" using that j k by simp
      then show "length (ents d ! j) = DESIZE" using mult_le_mono2 [of "Suc j" ?n DESIZE] ld by (simp add: ents_nth)
    qed
    show "length (ents ?c ! j) = length (if j = k then e else ents d ! j)" using l jn(2) e by simp
    fix b
    assume "b < length (ents ?c ! j)"
    then have b: "b < DESIZE" using l by simp
    have x: "DESIZE * j + b < length ?c" using b jm by simp
    have "ents ?c ! j ! b = ?c ! (DESIZE * j + b)" using j lc dz b x by (simp add: ents_nth)
    also have "\<dots> = (if j = k then e ! b else d ! (DESIZE * j + b))"
    proof (cases "j = k")
      case True
      then show ?thesis using cn [OF x] b by simp
    next
      case False
      have "\<not> (DESIZE * k \<le> DESIZE * j + b \<and> DESIZE * j + b < DESIZE * k + DESIZE)"
        using False b unfolding DESIZE_def by linarith
      then show ?thesis unfolding cn [OF x] using False by (simp only: if_False)
    qed
    also have "\<dots> = (if j = k then e else ents d ! j) ! b"
    proof (cases "j = k")
      case False
      have "DESIZE * j + b < length d" using jn(1) [OF False] b mult_le_mono2 [of "Suc j" ?n DESIZE] ld by simp
      then show ?thesis using False b jn(1) by (simp add: ents_nth)
    qed simp
    finally show "ents ?c ! j ! b = (if j = k then e else ents d ! j) ! b" .
  qed
  have len: "length (ents ?c) = ?m" using lc dz by simp
  show ?thesis
  proof (cases "k < ?n")
    case True
    then show ?thesis using ent len by (intro nth_equalityI) (auto simp: nth_list_update max_def)
  next
    case False
    then show ?thesis using ent len k by (intro nth_equalityI) (auto simp: nth_append max_def)
  qed
qed

lemma others_kept_same:
  assumes "tx_step 0 (blk s) s t" "others_kept ip t u"
  shows "others_kept ip s u"
proof -
  note q = fs_same [OF assms(1)] and b = tx_stepD(1) [OF assms(1)] and i = kfs_frame(1) [OF tx_stepD(2) [OF assms(1)]]
  have "dino t m = dino s m" for m using b q(1) by (simp add: dino_def)
  then show ?thesis using assms(2) q(1,2,5) b i by (simp add: others_kept_def)
qed

lemma touched_entry: "touched (DESIZE * k) DESIZE = 1"
proof -
  have m: "DESIZE * k mod BSIZE = 16 * (k mod 32)" unfolding DESIZE_def BSIZE_def using mult_mod_right [of 16 k 32] by simp
  have "k mod 32 < 32" by simp
  then have "16 * (k mod 32) + 16 + 511 < 1024" "512 \<le> 16 * (k mod 32) + 16 + 511" by linarith+
  then have "(16 * (k mod 32) + 16 + 511) div 512 = 1" by (intro div_nat_eqI) simp_all
  then show ?thesis unfolding touched_def m by (simp add: DESIZE_def BSIZE_def)
qed

lemma dirlink_ok:
  fixes s :: "'a kfs_scheme"
  assumes tx: "tx_ok Map.empty s" "fs_ok s" "log_room 7 s" "2 \<le> avail dp s" and d: "dir_ok dp s" "unat (isize (din s dp)) + DESIZE \<le> 71680"
    and none: "find (matches name) (ents (fdata s dp)) = None"
  shows "\<exists>s'. dirlink dp name n s = Inr (0, s') \<and> tx_ok Map.empty s' \<and> fs_ok s' \<and> dir_ok dp s' \<and> length (logged s') \<le> 28 \<and>
    ents (fdata s' dp) = add_entry (dirent name (ucast n)) (ents (fdata s dp)) \<and> others_kept dp s s'"
proof -
  let ?E = "ents (fdata s dp)" let ?e = "dirent name (ucast n)"
  have f: "file_ok dp s" "itype (din s dp) = T_DIR" using d(1) by (simp_all add: dir_ok_def)
  have fi: "first_index (matches name) ?E = None" using none by (simp add: find_first_index del: first_index_None)
  obtain s1 where s1: "tx_ok Map.empty s1" "tx_step 0 (blk s) s s1" "dirlookup dp name s = Inr (None, s1)"
    using dirlookup_ok [OF tx(1,2) log_room_len [OF tx(3)] d(1), of name] unfolding fi option.case by blast
  note e1 = file_ok_same [OF s1(2) f(1) tx(2)]
  define k where "k = (case first_index (\<lambda>e. de_inum e = 0) ?E of None \<Rightarrow> length ?E | Some k \<Rightarrow> k)"
  have kl: "k \<le> length ?E" unfolding k_def by (cases "first_index (\<lambda>e. de_inum e = 0) ?E") (auto simp del: first_index_None dest: first_index_less)
  have d1: "dir_ok dp s1" "length (logged s1) \<le> 28" using e1(5) d(1) log_room_len [OF log_room_same [OF tx(3) s1(2)]] by simp_all
  obtain s2 where s2: "tx_ok Map.empty s2" "tx_step 0 (blk s1) s1 s2" "dirlink_loop dp (unat (isize (din s1 dp))) 0 s1 = Inr (DESIZE * k, s2)"
    using dirlink_loop_ok [OF s1(1) e1(4) d1(2,1), of 0] unfolding e1(2) k_def [symmetric] by auto
  have st: "tx_step 0 (blk s) s s2" using tx_step_after [OF s1(2) s2(2)] tx_stepD(1) [OF s1(2)] by simp
  note e2 = file_ok_same [OF st f(1) tx(2)] and q2 = fs_same [OF st]
  have sz: "DESIZE dvd unat (isize (din s dp))" using d(1) by (simp add: dir_ok_def)
  have kd: "DESIZE * k \<le> unat (isize (din s dp))" using mult_le_mono2 [OF kl, of DESIZE] sz by simp
  have u: "unat (of_nat (DESIZE * k) :: uint) = DESIZE * k" by (rule off_word(1)) (use kd d(2) in simp)
  have t: "touched (unat (of_nat (DESIZE * k) :: uint)) (length ?e) = 1" unfolding u length_dirent by (rule touched_entry)
  have c: "unat (inum (inode_at s2 dp)) < ninodes s2" "of_nat (DESIZE * k) \<le> isize (din s2 dp)"
    "unat (of_nat (DESIZE * k) :: uint) + length ?e \<le> 71680"
    using d kd e2(3) q2(1) u by (simp_all add: dir_ok_def word_le_nat_alt del: of_nat_mult)
  have nf: "avail dp s2 = avail dp s" using extends_same(3,4) [OF st tx(2) file_okD(2) [OF f(1)]] by (simp add: avail_def)
  have r: "log_room (6 * touched (unat (of_nat (DESIZE * k) :: uint)) (length ?e) + 1) s2"
    "touched (unat (of_nat (DESIZE * k) :: uint)) (length ?e) < avail dp s2"
    unfolding t using log_room_same [OF tx(3) st] tx(4) nf by simp_all
  obtain s3 where s3: "writei dp ?e (of_nat (DESIZE * k)) s2 = Inr (int (length ?e), s3)" "tx_ok Map.empty s3" "fs_ok s3" "file_ok dp s3"
    "fs_step (6 * 1 + 1) s2 s3" "fdata s3 dp = content_write (of_nat (DESIZE * k)) ?e (fdata s2 dp)" "others_kept dp s2 s3"
    "inode_at s3 dp = (inode_at s2 dp)\<lparr>idata := (din s2 dp)\<lparr>addrs := addrs (din s3 dp), isize := isize (din s3 dp)\<rparr>\<rparr>"
    using writei_ok [OF s2(1) e2(4,1) c r] unfolding t by blast
  have "dirlink dp name n s = Inr (0, s3)" using s1(3) s2(3) s3(1) by (simp add: dirlink_def del: of_nat_mult)
  moreover have en: "ents (fdata s3 dp) = add_entry ?e ?E"
  proof -
    have "ents (fdata s3 dp) = (if k < length ?E then ?E[k := ?e] else ?E @ [?e])"
      unfolding s3(6) e2(2) ents_length using sz d(2) kl by (intro ents_content_write) simp_all
    then show ?thesis unfolding add_entry_def k_def
      by (cases "first_index (\<lambda>e. de_inum e = 0) ?E") (auto simp del: first_index_None dest: first_index_less)
  qed
  moreover have "length (logged s3) \<le> 28" using s3(5) log_room_same [OF tx(3) st] by (simp add: fs_step_def log_room_def)
  moreover have "dir_ok dp s3"
  proof -
    have "unat (isize (din s3 dp)) = length (fdata s3 dp)" by simp
    also have "\<dots> = max (unat (isize (din s dp))) (DESIZE * k + DESIZE)"
      unfolding s3(6) e2(2) using length_content_write [of "of_nat (DESIZE * k)" "fdata s dp" ?e] kd u by simp
    finally have "DESIZE dvd unat (isize (din s3 dp))" using sz by (simp add: max_def)
    moreover have "itype (din s3 dp) = T_DIR" "inum (inode_at s3 dp) = inum (inode_at s2 dp)"
      using arg_cong [OF s3(8), of "\<lambda>i. itype (idata i)"] arg_cong [OF s3(8), of inum] f(2) e2(3) by simp_all
    ultimately show ?thesis using s3(4) c(1) fs_stepD(1) [OF s3(5)] by (simp add: dir_ok_def)
  qed
  moreover have "others_kept dp s s3" by (rule others_kept_same [OF st s3(7)])
  ultimately show ?thesis using s3(2,3) by blast
qed

text \<open>
  C10. Directories behave as maps: linking a new name into a well-formed directory with room succeeds;
  looking the name up afterwards arrives at the inode that was linked, every name that differs in its
  first fourteen bytes finds the entry it found before, and no other file or inode changes.
\<close>

theorem dirlink_then_dirlookup:
  fixes s :: "'a kfs_scheme"
  assumes "tx_ok Map.empty s" "fs_ok s" "log_room 7 s" "2 \<le> avail dp s" "dir_ok dp s" "unat (isize (din s dp)) + DESIZE \<le> 71680"
    "find (matches name) (ents (fdata s dp)) = None" "(ucast n :: ushort) \<noteq> 0"
  shows "\<exists>s'. dirlink dp name n s = Inr (0, s') \<and> dir_ok dp s' \<and> others_kept dp s s' \<and>
    (\<exists>k s1. dirlookup dp name s' = kbind (iget 1 (ucast (ucast n :: ushort)) s1) (\<lambda>(ip, s2). Inr (Some (ip, DESIZE * k), s2))) \<and>
    (\<forall>nm. namecmp nm (pad_name name) \<noteq> 0 \<longrightarrow> find (matches nm) (ents (fdata s' dp)) = find (matches nm) (ents (fdata s dp)))"
proof -
  obtain s' where s': "dirlink dp name n s = Inr (0, s')" "tx_ok Map.empty s'" "fs_ok s'" "dir_ok dp s'" "length (logged s') \<le> 28"
    "ents (fdata s' dp) = add_entry (dirent name (ucast n)) (ents (fdata s dp))" "others_kept dp s s'"
    using dirlink_ok [OF assms(1-7)] by blast
  let ?E = "ents (fdata s' dp)"
  have "find (matches name) ?E = Some (dirent name (ucast n))"
    unfolding s'(6) by (rule find_add_entry(2) [OF matches_dirent [OF assms(8)] assms(7)])
  then obtain k where k: "first_index (matches name) ?E = Some k" "?E ! k = dirent name (ucast n)" by (auto simp: find_first_index)
  from dirlookup_ok [OF s'(2,3,5,4), of name] obtain s1 where
    "dirlookup dp name s' = kbind (iget 1 (ucast (ucast n :: ushort)) s1) (\<lambda>(ip, s2). Inr (Some (ip, DESIZE * k), s2))"
    unfolding k option.case dirent_fields by blast
  moreover have "find (matches nm) ?E = find (matches nm) (ents (fdata s dp))" if "namecmp nm (pad_name name) \<noteq> 0" for nm
    unfolding s'(6) by (rule find_add_entry(1)) (use that in \<open>simp add: matches_def dirent_fields\<close>)
  ultimately show ?thesis using s'(1,4,7) by blast
qed

text \<open>The root directory of the small disk.\<close>

definition fs1 :: kfs where
  "fs1 = fs0\<lparr>icache := \<lparr>i_dev = 1, inum = 1, iref = 1, ivalid = True, idata = root0\<rparr> # replicate 49 free_ino\<rparr>"

lemma fs1_root: "nb (blk fs1) (addrs root0) k = (if k = 0 then 36 else 0)" if "k < MAXFILE"
  using that by (auto simp: nb_def root0_def NDIRECT_def nth_Cons')

lemma fs1_dir: "dir_ok 0 fs1" "fdata fs1 0 = take 32 dir0"
proof -
  have b: "blk fs1 = (\<lambda>n. disk0 ! unat n)" "used fs1 = used fs0" "data_block fs1 = data_block fs0" "sb fs1 = sb0"
    by (simp_all add: fs1_def fs0_sel)
  have d: "dstart fs0 = 36" by (simp add: dstart_def fs0_sel BPB_def sb0_def)
  have i: "icache fs1 ! 0 = \<lparr>i_dev = 1, inum = 1, iref = 1, ivalid = True, idata = root0\<rparr>" by (simp add: fs1_def)
  have o36: "n = 36" if "n \<in> own (blk fs1) (addrs root0)" for n
    using that fs1_root by (auto simp: own_def split: if_splits) (auto simp: root0_def NDIRECT_def)
  have o: "data_block fs1 n \<and> used fs1 (unat n)" if "n \<in> own (blk fs1) (addrs root0)" for n
    unfolding o36 [OF that] using fs0_used [of 36] d b by (simp add: data_block_def fs0_sel sb0_def)
  have "map_ok fs1 (addrs root0)" unfolding map_ok_def
  proof (intro conjI ballI allI impI)
    show "length (addrs root0) = 13" by (simp add: root0_def)
    show "data_block fs1 n" "used fs1 (unat n)" if "n \<in> own (blk fs1) (addrs root0)" for n using o [OF that] by simp_all
    show "j = k" if "j < MAXFILE" "k < MAXFILE" "nb (blk fs1) (addrs root0) j = nb (blk fs1) (addrs root0) k" "nb (blk fs1) (addrs root0) j \<noteq> 0" for j k
      using that(3,4) unfolding fs1_root [OF that(1)] fs1_root [OF that(2)] by (simp split: if_splits)
    show "nb (blk fs1) (addrs root0) k \<noteq> addrs root0 ! NDIRECT" if "k < MAXFILE" "nb (blk fs1) (addrs root0) k \<noteq> 0" for k
      using that by (simp add: root0_def NDIRECT_def)
  qed
  then show "dir_ok 0 fs1"
    using i b fs1_root by (simp add: dir_ok_def file_ok_def ino_at_def fs1_def T_DIR_def T_DEV_def root0_def MAXFILE_def NDIRECT_def NINDIRECT_def BSIZE_def DESIZE_def sb0_def)
  have "byte (blk fs1) (addrs root0) x = dir0 ! x" if "x < 32" for x
    using that fs1_root [of 0] b(1) disk0_nth(5) by (simp add: byte_def BSIZE_def MAXFILE_def NDIRECT_def)
  then show "fdata fs1 0 = take 32 dir0" using i
    by (intro nth_equalityI) (simp_all add: fdata_def root0_def dir0_def)
qed

lemma root_names: "ents (take 32 dir0) = [[1, 0, 46] @ replicate 13 0, [1, 0, 46, 46] @ replicate 12 0]"
  by code_simp

lemma dot_names: "namecmp [97] (46 # xs) \<noteq> 0"
proof -
  have d: "DIRSIZ = Suc 13" by (simp add: DIRSIZ_def)
  show ?thesis unfolding namecmp_def d namecmp_loop.simps by (simp add: ch_def)
qed

theorem dirlink_then_dirlookup_witness:
  "\<exists>s' k s1. dirlink 0 [97] 2 fs1 = Inr (0, s') \<and>
    dirlookup 0 [97] s' = kbind (iget 1 (ucast (ucast (2 :: uint) :: ushort)) s1) (\<lambda>(ip, s2). Inr (Some (ip, DESIZE * k), s2))"
proof -
  have c: "tx_ok Map.empty fs1" "fs_ok fs1" "log_room 7 fs1" "2 \<le> avail 0 fs1" "unat (isize (din fs1 0)) + DESIZE \<le> 71680"
    using fs0_sel fs0_ok fs0_nfree by (simp_all add: fs1_def log_room_def avail_def nfree_def root0_def NDIRECT_def DESIZE_def)
  have n: "find (matches [97]) (ents (fdata fs1 0)) = None"
    unfolding fs1_dir(2) root_names by (simp add: matches_def de_name_def dot_names)
  have "(ucast (2 :: uint) :: ushort) \<noteq> 0" by simp
  from dirlink_then_dirlookup [OF c(1-4) fs1_dir(1) c(5) n this] show ?thesis by blast
qed

end
