(* ===== verification/File.thy ===== *)
theory File
  imports Dir
begin

text \<open>
  The file table of \<^verbatim>\<open>file.c\<close> with \<^verbatim>\<open>pipealloc\<close>: open files are counted entries of a table that
  stand for one end of a pipe or for an inode with an offset. A pointer to an open file is its index.
  Bytes that a call copies into its caller's buffer are part of its result; the bytes it takes from
  there are an argument that stands for the copy, which may fault. Calls that sleep in a pipe end with
  \<open>Waits\<close> here: their interleavings are the subject of the pipes.
\<close>

section \<open>The file table\<close>

datatype filetype = FD_NONE | FD_PIPE | FD_INODE

record file_t =
  ftype :: filetype
  fref :: int
  readable :: uchar
  writable :: uchar
  fpipe :: nat
  fip :: nat
  foff :: uint

definition NFILE :: nat where "NFILE = 100"

record kfile = kfs +
  ftable :: "file_t list"

abbreviation file_at :: "'a kfile_scheme \<Rightarrow> nat \<Rightarrow> file_t" where "file_at s f \<equiv> ftable s ! f"

definition upd_file :: "nat \<Rightarrow> (file_t \<Rightarrow> file_t) \<Rightarrow> 'a kfile_scheme \<Rightarrow> 'a kfile_scheme" where
  "upd_file f g s = s\<lparr>ftable := (ftable s)[f := g (ftable s ! f)]\<rparr>"

definition fileinit :: "'a kfile_scheme \<Rightarrow> 'a kfile_scheme" where
  "fileinit s = s\<lparr>held := held s - {FtableLock}\<rparr>"

definition filealloc :: "'a kfile_scheme \<Rightarrow> (nat option \<times> 'a kfile_scheme) kres" where
  "filealloc s =
     kbind (acquire_lock FtableLock s) (\<lambda>s1.
       case first_index (\<lambda>f. fref f = 0) (ftable s1) of
         Some i \<Rightarrow> kbind (release_lock FtableLock (upd_file i (\<lambda>f. f\<lparr>fref := 1\<rparr>) s1)) (\<lambda>s2. Inr (Some i, s2))
       | None \<Rightarrow> kbind (release_lock FtableLock s1) (\<lambda>s2. Inr (None, s2)))"

definition filedup :: "nat \<Rightarrow> 'a kfile_scheme \<Rightarrow> 'a kfile_scheme kres" where
  "filedup f s =
     kbind (acquire_lock FtableLock s) (\<lambda>s1.
       if fref (file_at s1 f) < 1 then Inl (Panic ''filedup'')
       else release_lock FtableLock (upd_file f (\<lambda>x. x\<lparr>fref := fref x + 1\<rparr>) s1))"

definition fileclose :: "nat \<Rightarrow> 'a kfile_scheme \<Rightarrow> 'a kfile_scheme kres" where
  "fileclose f s =
     kbind (acquire_lock FtableLock s) (\<lambda>s1.
       if fref (file_at s1 f) < 1 then Inl (Panic ''fileclose'')
       else let s2 = upd_file f (\<lambda>x. x\<lparr>fref := fref x - 1\<rparr>) s1
         in if fref (file_at s2 f) > 0 then release_lock FtableLock s2
            else let ff = file_at s2 f
              in kbind (release_lock FtableLock (upd_file f (\<lambda>x. x\<lparr>fref := 0, ftype := FD_NONE\<rparr>) s2)) (\<lambda>s3.
                   case ftype ff of
                     FD_PIPE \<Rightarrow> pipeclose (fpipe ff) (writable ff \<noteq> 0) s3
                   | FD_INODE \<Rightarrow> kbind (begin_op s3) (\<lambda>s4. kbind (iput (fip ff) s4) end_op)
                   | FD_NONE \<Rightarrow> Inr s3))"

definition filestat :: "nat \<Rightarrow> 'a kfile_scheme \<Rightarrow> (int \<times> stat option \<times> 'a kfile_scheme) kres" where
  "filestat f s =
     (if ftype (file_at s f) = FD_INODE then
        let ip = fip (file_at s f)
        in kbind (ilock ip s) (\<lambda>s1. kbind (iunlock ip s1) (\<lambda>s2. Inr (0, Some (stati ip s1), s2)))
      else Inr (-1, None, s))"

definition fileread :: "nat \<Rightarrow> int \<Rightarrow> 'a kfile_scheme \<Rightarrow> (int \<times> uchar list \<times> 'a kfile_scheme) kres" where
  "fileread f n s =
     (if readable (file_at s f) = 0 then Inr (-1, [], s)
      else case ftype (file_at s f) of
        FD_PIPE \<Rightarrow>
          kbind (piperead (fpipe (file_at s f)) n s) (\<lambda>(out, s1).
            case out of RReturn r bs \<Rightarrow> Inr (r, bs, s1) | _ \<Rightarrow> Inl (Waits ''piperead''))
      | FD_INODE \<Rightarrow>
          let ip = fip (file_at s f)
          in kbind (ilock ip s) (\<lambda>s1.
               kbind (readi ip (foff (file_at s1 f)) (of_int n) s1) (\<lambda>(r, bs, s2).
                 kbind (iunlock ip (if r > 0 then upd_file f (\<lambda>x. x\<lparr>foff := foff x + of_int r\<rparr>) s2 else s2))
                   (\<lambda>s3. Inr (r, bs, s3))))
      | FD_NONE \<Rightarrow> Inl (Panic ''fileread''))"

text \<open>
  One turn of the loop of \<open>filewrite\<close>: a chunk of at most \<open>WMAX\<close> bytes in a transaction of its own.
\<close>

definition WMAX :: nat where "WMAX = nat ((MAXOPBLOCKS - 1 - 1 - 2) div 2 * 512)"

definition filewrite_chunk :: "nat \<Rightarrow> uchar list \<Rightarrow> 'a kfile_scheme \<Rightarrow> (int \<times> 'a kfile_scheme) kres" where
  "filewrite_chunk f chunk s =
     (let ip = fip (file_at s f)
      in kbind (begin_op s) (\<lambda>s1.
           kbind (ilock ip s1) (\<lambda>s2.
             kbind (writei ip chunk (foff (file_at s2 f)) s2) (\<lambda>(r, s3).
               kbind (iunlock ip (if r > 0 then upd_file f (\<lambda>x. x\<lparr>foff := foff x + of_int r\<rparr>) s3 else s3)) (\<lambda>s4.
                 kbind (end_op s4) (\<lambda>s5. Inr (r, s5)))))))"

function filewrite_loop :: "nat \<Rightarrow> uchar list \<Rightarrow> nat \<Rightarrow> 'a kfile_scheme \<Rightarrow> (int \<times> 'a kfile_scheme) kres" where
  "filewrite_loop f src i s =
     (if i < length src then
        let chunk = take WMAX (drop i src)
        in kbind (filewrite_chunk f chunk s) (\<lambda>(r, s1).
             if r < 0 then Inr (-1, s1)
             else if r \<noteq> int (length chunk) then Inl (Panic ''short filewrite'')
             else filewrite_loop f src (i + length chunk) s1)
      else Inr (int (length src), s))"
  by pat_completeness auto
termination by (relation "measure (\<lambda>(_, src, i, _). length src - i)") (auto simp: WMAX_def MAXOPBLOCKS_def)

declare filewrite_loop.simps [simp del]

definition filewrite :: "nat \<Rightarrow> uchar list kres \<Rightarrow> 'a kfile_scheme \<Rightarrow> (int \<times> 'a kfile_scheme) kres" where
  "filewrite f addr s =
     (if writable (file_at s f) = 0 then Inr (-1, s)
      else case ftype (file_at s f) of
        FD_PIPE \<Rightarrow>
          kbind addr (\<lambda>src. kbind (pipewrite (fpipe (file_at s f)) src s) (\<lambda>(out, s1).
            case out of WReturn r _ \<Rightarrow> Inr (r, s1) | _ \<Rightarrow> Inl (Waits ''pipewrite'')))
      | FD_INODE \<Rightarrow> kbind addr (\<lambda>src. filewrite_loop f src 0 s)
      | FD_NONE \<Rightarrow> Inl (Panic ''filewrite''))"

text \<open>
  A new pipe lives in a page of its own: its ring holds whatever the page held behind the lock, which
  takes 52 bytes.
\<close>

definition fresh_pipe :: "uint \<Rightarrow> 'a kfile_scheme \<Rightarrow> 'a kfile_scheme" where
  "fresh_pipe a s = upd_pipe (unat a) (\<lambda>_. \<lparr>pdata = mem_read (mem s) (a + 52) 512, nread = 0, nwrite = 0,
     readopen = True, writeopen = True\<rparr>) (s\<lparr>held := held s - {PipeLock (unat a)}\<rparr>)"

definition pipealloc :: "'a kfile_scheme \<Rightarrow> ((nat \<times> nat) option \<times> 'a kfile_scheme) kres" where
  "pipealloc s =
     kbind (filealloc s) (\<lambda>(f0, s1).
       case f0 of
         None \<Rightarrow> Inr (None, s1)
       | Some a \<Rightarrow>
           kbind (filealloc s1) (\<lambda>(f1, s2).
             case f1 of
               None \<Rightarrow> kbind (fileclose a s2) (\<lambda>s3. Inr (None, s3))
             | Some b \<Rightarrow>
                 kbind (kalloc s2) (\<lambda>(p, s3).
                   if p = 0 then kbind (fileclose a s3) (\<lambda>s4. kbind (fileclose b s4) (\<lambda>s5. Inr (None, s5)))
                   else Inr (Some (a, b),
                     upd_file b (\<lambda>x. x\<lparr>ftype := FD_PIPE, readable := 0, writable := 1, fpipe := unat p\<rparr>)
                      (upd_file a (\<lambda>x. x\<lparr>ftype := FD_PIPE, readable := 1, writable := 0, fpipe := unat p\<rparr>)
                       (fresh_pipe p s3))))))"

end
