(* ===== verification/Fileio.thy ===== *)
theory Fileio
  imports File
begin

text \<open>
  Reading and writing open files, down to the committed blocks: \<open>filewrite\<close> splits a write into
  transactions, each of which is one abstract write of the contents, and \<open>fileread\<close> returns the part of
  the contents at the offset.
\<close>

section \<open>States with the same file system\<close>

text \<open>The same blocks outside the log, which is all that the file system looks at.\<close>

definition same_fs :: "'a kfs_scheme \<Rightarrow> 'a kfs_scheme \<Rightarrow> bool" where
  "same_fs s t \<longleftrightarrow> sb t = sb s \<and> icache t = icache s \<and> log_start t = log_start s \<and> log_size t = log_size s \<and> disksize t = disksize s \<and>
     (\<forall>b. \<not> in_log s (unat b) \<longrightarrow> blk t b = blk s b)"

lemma same_fs_refl [simp]: "same_fs s s"
  by (simp add: same_fs_def)

lemma same_fs_trans: "same_fs s t \<Longrightarrow> same_fs t u \<Longrightarrow> same_fs s u"
  by (simp add: same_fs_def in_log_def)

lemma same_fs_ok:
  assumes e: "same_fs s t" and ok: "fs_ok s" and d: "disksize s < 2 ^ 31"
  shows "fs_ok t" "\<And>b. b < fsize s \<Longrightarrow> used t b = used s b" "nfree t = nfree s" "data_block t = data_block s" "ninodes t = ninodes s"
    "\<And>n. data_block s n \<Longrightarrow> blk t n = blk s n" "\<And>m. unat m < ninodes s \<Longrightarrow> dino t m = dino s m"
proof -
  have f: "sb t = sb s" "log_start t = log_start s" "log_size t = log_size s" "disksize t = disksize s"
    "\<And>b. \<not> in_log s (unat b) \<Longrightarrow> blk t b = blk s b" using e by (simp_all add: same_fs_def)
  have g: "geom s" using ok by (simp add: fs_ok_def)
  have c: "dstart t = dstart s" "mapblock t = mapblock s" using f by (simp_all add: dstart_def mapblock_def fun_eq_iff)
  show db: "data_block t = data_block s" "ninodes t = ninodes s" using f c by (simp_all add: data_block_def fun_eq_iff)
  show u: "used t b = used s b" if "b < fsize s" for b
    using f(5) [OF mapblock_ok(4) [OF g d that]] c by (simp add: used_def)
  have "\<not> in_log s (unat (1 :: uint))" using g by (simp add: geom_def in_log_def)
  then have "geom t" using g f c by (simp add: geom_def)
  moreover have "dstart s \<le> fsize s" using g by (simp add: geom_def)
  ultimately show "fs_ok t" using ok u c by (simp add: fs_ok_def)
  show "nfree t = nfree s" using u f(1) by (simp add: nfree_def cong: conj_cong)
  show "blk t n = blk s n" if "data_block s n" for n
    using that g by (intro f(5)) (auto simp: data_block_def dstart_def geom_def in_log_def)
  show "dino t m = dino s m" if "unat m < ninodes s" for m
    using iblock_ok [OF g d that] f(1) f(5) [of "IBLOCK m (sb s)"] by (simp add: dino_def)
qed

lemma same_fs_file:
  assumes e: "same_fs s t" and ok: "fs_ok s" "disksize s < 2 ^ 31" and f: "file_ok ip s"
  shows "file_ok ip t" "fdata t ip = fdata s ip" "avail ip t = avail ip s" "own (blk t) (addrs (din t ip)) = own (blk s) (addrs (din s ip))"
proof -
  note q = same_fs_ok [OF e ok] and fd = file_okD [OF f]
  let ?A = "addrs (din s ip)"
  have ic: "icache t = icache s" and sbs: "sb t = sb s" using e by (simp_all add: same_fs_def)
  have keep: "blk t n = blk s n" if "n \<in> own (blk s) ?A" for n using q(6) map_okD(2) [OF fd(2) that] by simp
  have nbs: "nb (blk t) ?A = nb (blk s) ?A" using keep own_ind [of ?A "blk s"] by (auto simp: nb_def fun_eq_iff)
  then show ow: "own (blk t) (addrs (din t ip)) = own (blk s) ?A" using ic by (simp add: own_def)
  have "used t (unat n)" if "n \<in> own (blk s) ?A" for n using map_okD(2,3) [OF fd(2) that] q(2) by (simp add: data_block_def)
  then have "map_ok t ?A" using fd(2) nbs ow q(4) ic by (simp add: map_ok_def)
  then show "file_ok ip t" using f nbs ic by (simp add: file_ok_def ino_at_def)
  have "nb (blk s) ?A (x div BSIZE) \<in> own (blk s) ?A" if "x < unat (isize (din s ip))" for x
    using own_nb [of "x div BSIZE" "blk s" ?A] fd(5) [OF block_start [OF that]] that fd(4)
    by (simp add: MAXFILE_def NDIRECT_def NINDIRECT_def BSIZE_def)
  then show "fdata t ip = fdata s ip" using keep nbs ic by (simp add: fdata_def byte_def)
  show "avail ip t = avail ip s" using q(3) ic by (simp add: avail_def)
qed

section \<open>Locks of inodes\<close>

text \<open>The transaction does not look at inode locks, the file table or which sleepers have woken.\<close>

lemma tx_ok_locks:
  fixes s t :: "'a kfile_scheme"
  assumes ok: "tx_ok H s"
    and e: "bcache t = bcache s" "disk t = disk s" "held t = held s" "curproc t = curproc s" "lh t = lh s" "log_start t = log_start s"
      "log_size t = log_size s" "log_dev t = log_dev s" "procs_same (ptable s) (ptable t)"
      "\<And>i. sleeplocks t (BufLock i) = sleeplocks s (BufLock i)"
  shows "tx_ok H t" "blk t = blk s" "logged t = logged s" "disksize t = disksize s" "in_log t = in_log s" "mypid t = mypid s"
proof -
  have b: "bio_ok H s" using ok by (simp add: tx_ok_def)
  note d = bio_okD [OF b]
  have c: "cur_ok t" and m: "mypid t = mypid s"
    using d(4) e(4,9) procs_same_length [OF e(9)] procs_same_nth(1) [OF e(9)] by (auto simp: cur_ok_def mypid_def)
  then show "mypid t = mypid s" by simp
  show q: "disksize t = disksize s" "in_log t = in_log s" "logged t = logged s" "blk t = blk s"
    using e by (simp_all add: disksize_def in_log_def logged_def blk_def fun_eq_iff cong: option.case_cong)
  have dt: "dirty_blocks t = dirty_blocks s" using e by (simp add: dirty_blocks_def)
  have "buf_ok H t i = buf_ok H s i" for i unfolding buf_ok_def e(1,2) e(10) m q(1) ..
  moreover have "lru t l = lru s l" for l using e(1) by (simp add: lru_def)
  ultimately have "bio_ok H t" using b c e q(1) by (simp add: bio_ok_def)
  then show "tx_ok H t" using ok e q dt by (simp add: tx_ok_def log_area_def)
qed

lemma held_id: "held s = {} \<Longrightarrow> s\<lparr>held := {}\<rparr> = s"
  by (metis (no_types) ksync.surjective ksync.update_convs(1))

lemma ilock_valid:
  assumes "iref (inode_at s ip) \<ge> 1" "ivalid (inode_at s ip)" "held s = {}" "mypid s = Inr i" "sl_locked (sleeplocks s (InodeLock ip)) = 0"
  shows "ilock ip s = Inr (s\<lparr>sleeplocks := (sleeplocks s)(InodeLock ip := \<lparr>sl_locked = 1, sl_pid = i\<rparr>)\<rparr>)"
proof -
  obtain p where p: "curproc s = Some p" "pid (ptable s ! p) = i" using assms(4) by (auto simp: mypid_def split: option.splits)
  have "s\<lparr>held := {}\<rparr> = s" by (rule held_id [OF assms(3)])
  then have h: "s\<lparr>held := {}, sleeplocks := x\<rparr> = s\<lparr>sleeplocks := x\<rparr>" for x by (rule arg_cong)
  show ?thesis
    using assms p by (simp add: ilock_def acquiresleep_def acquiresleep_begin_def acquiresleep_loop_def acquire_lock_def release_lock_def mypid_def h)
qed

lemma iunlock_held:
  assumes "iref (inode_at s ip) \<ge> 1" "held s = {}" "mypid s = Inr i" "sleeplocks s (InodeLock ip) = \<lparr>sl_locked = 1, sl_pid = i\<rparr>"
  shows "iunlock ip s = Inr (wakeup1 (SleepLockChan (InodeLock ip)) (s\<lparr>sleeplocks := (sleeplocks s)(InodeLock ip := \<lparr>sl_locked = 0, sl_pid = 0\<rparr>)\<rparr>))"
proof -
  obtain p where p: "curproc s = Some p" "pid (ptable s ! p) = i" using assms(3) by (auto simp: mypid_def split: option.splits)
  let ?l = "SleepLk (InodeLock ip)" let ?c = "SleepLockChan (InodeLock ip)" let ?sl = "(sleeplocks s)(InodeLock ip := \<lparr>sl_locked = 0, sl_pid = 0\<rparr>)"
  have hs: "holdingsleep (InodeLock ip) s = Inr (True, s)" using assms p by (simp add: holdingsleep_ok)
  have "s\<lparr>held := {}\<rparr> = s" by (rule held_id [OF assms(2)])
  then have "wakeup1 ?c (s\<lparr>held := {}, sleeplocks := ?sl\<rparr>) = wakeup1 ?c (s\<lparr>sleeplocks := ?sl\<rparr>)" by (rule arg_cong)
  moreover have "(wakeup1 ?c (s\<lparr>held := {?l}, sleeplocks := ?sl\<rparr>))\<lparr>held := {}\<rparr> = wakeup1 ?c (s\<lparr>held := {}, sleeplocks := ?sl\<rparr>)"
    by (simp add: wakeup1_def)
  moreover have "wakeup ?c (s\<lparr>held := {?l}, sleeplocks := ?sl\<rparr>) = Inr (wakeup1 ?c (s\<lparr>held := {?l}, sleeplocks := ?sl\<rparr>))" by (simp add: wakeup_ok)
  moreover have "held (wakeup1 ?c (s\<lparr>held := {?l}, sleeplocks := ?sl\<rparr>)) = {?l}" by (simp add: wakeup1_def)
  ultimately show ?thesis using assms hs by (simp add: iunlock_def releasesleep_def acquire_lock_def release_lock_def)
qed

section \<open>Open files\<close>

lemma kfile_frame:
  fixes s s' :: "'a kfile_scheme"
  assumes "log_frame s s'"
  shows "ftable s' = ftable s"
proof -
  have e: "s' = s\<lparr>lh := lh s', ptable := ptable s', sleeplocks := sleeplocks s', bcache := bcache s', disk := disk s', disk_writes := disk_writes s'\<rparr>"
    using assms by (simp add: log_frame_def bio_frame_def)
  show ?thesis using arg_cong [OF e, of ftable] by simp
qed

lemma same_fs_others:
  assumes "same_fs s t" "fs_ok s" "disksize s < 2 ^ 31" "file_ok ip s"
  shows "others_kept ip s t"
proof -
  note q = same_fs_ok [OF assms(1-3)] and r = same_fs_file [OF assms]
  have "icache t = icache s" using assms(1) by (simp add: same_fs_def)
  then show ?thesis using q r(4) by (simp add: others_kept_def data_block_def)
qed

lemma others_kept_trans:
  assumes a: "others_kept ip s t" and b: "others_kept ip t u" and e: "sb t = sb s" "inum (inode_at t ip) = inum (inode_at s ip)"
  shows "others_kept ip s u"
proof -
  have d: "data_block t = data_block s" using e(1) by (simp add: data_block_def dstart_def fun_eq_iff)
  show ?thesis using a b e d unfolding others_kept_def by auto
qed

text \<open>No transaction is open and everything is on disk; an open file of a cached, unlocked inode.\<close>

definition idle :: "'a kfs_scheme \<Rightarrow> bool" where
  "idle s \<longleftrightarrow> log_ok s \<and> fs_ok s \<and> logged s = [] \<and> log_outstanding s = 0 \<and> \<not> log_committing s \<and> 27 \<le> log_size s"

definition cached :: "nat \<Rightarrow> 'a kfs_scheme \<Rightarrow> bool" where
  "cached ip s \<longleftrightarrow> file_ok ip s \<and> unat (inum (inode_at s ip)) < ninodes s \<and> iref (inode_at s ip) \<ge> 1 \<and> ivalid (inode_at s ip) \<and>
     sl_locked (sleeplocks s (InodeLock ip)) = 0"

definition opened :: "nat \<Rightarrow> nat \<Rightarrow> 'a kfile_scheme \<Rightarrow> bool" where
  "opened f ip s \<longleftrightarrow> f < length (ftable s) \<and> ftype (file_at s f) = FD_INODE \<and> fip (file_at s f) = ip \<and> cached ip s"

text \<open>With everything committed, the disk holds the contents.\<close>

lemma idle_disk:
  assumes "idle s"
  shows "blk s n = disk s ! unat n"
proof -
  have "dirty_blocks s = {}" "bio_ok Map.empty s" using assms by (simp_all add: idle_def log_ok_def)
  then show ?thesis using blk_clean [of Map.empty s n] by simp
qed

lemma touched_chunk: "n \<le> 1536 \<Longrightarrow> touched i n \<le> 4"
proof -
  assume n: "n \<le> 1536"
  have "i mod BSIZE \<le> 511" by (simp add: BSIZE_def)
  then have "i mod BSIZE + n + 511 \<le> 2559" using n by linarith
  then have "(i mod BSIZE + n + 511) div BSIZE \<le> 2559 div BSIZE" by (rule div_le_mono)
  then show ?thesis by (simp add: touched_def BSIZE_def)
qed

text \<open>Steps that only take and release locks of inodes, or change the file table.\<close>

definition lock_step :: "'a kfile_scheme \<Rightarrow> 'a kfile_scheme \<Rightarrow> bool" where
  "lock_step s t \<longleftrightarrow> tx_ok Map.empty t \<and> blk t = blk s \<and> logged t = logged s \<and> disk t = disk s \<and> sb t = sb s \<and> icache t = icache s \<and>
     log_start t = log_start s \<and> log_size t = log_size s \<and> log_outstanding t = log_outstanding s \<and> log_committing t = log_committing s \<and>
     mypid t = mypid s"

lemma lock_stepD:
  assumes "lock_step s t"
  shows "tx_ok Map.empty t" "same_fs s t" "logged t = logged s" "log_outstanding t = log_outstanding s" "log_committing t = log_committing s"
    "mypid t = mypid s" "icache t = icache s" "log_room k t = log_room k s" "disk t = disk s" "log_size t = log_size s"
  using assms by (simp_all add: lock_step_def same_fs_def disksize_def log_room_def)

lemma tx_held: "tx_ok H s \<Longrightarrow> held s = {}"
  using bio_okD(3) [of H s] by (simp add: tx_ok_def)

lemma tx_mypid: "tx_ok H s \<Longrightarrow> \<exists>i. mypid s = Inr i"
  using bio_okD(4) [of H s] by (auto simp: tx_ok_def cur_ok_def mypid_def)

lemma lock_step_intro:
  fixes s t :: "'a kfile_scheme"
  assumes "tx_ok Map.empty s" "bcache t = bcache s" "disk t = disk s" "held t = held s" "curproc t = curproc s" "lh t = lh s" "log_start t = log_start s"
      "log_size t = log_size s" "log_dev t = log_dev s" "procs_same (ptable s) (ptable t)"
      "\<And>i. sleeplocks t (BufLock i) = sleeplocks s (BufLock i)" "sb t = sb s" "icache t = icache s" "log_outstanding t = log_outstanding s"
      "log_committing t = log_committing s"
  shows "lock_step s t"
  using tx_ok_locks [OF assms(1-11)] assms(3,7,8,12-15) by (simp add: lock_step_def)

lemma ilock_step:
  fixes s :: "'a kfile_scheme"
  assumes "tx_ok Map.empty s" "cached ip s"
  shows "\<exists>t i. ilock ip s = Inr t \<and> lock_step s t \<and> ftable t = ftable s \<and> mypid t = Inr i \<and> sleeplocks t (InodeLock ip) = \<lparr>sl_locked = 1, sl_pid = i\<rparr>"
proof -
  obtain i where i: "mypid s = Inr i" using tx_mypid [OF assms(1)] by blast
  let ?t = "s\<lparr>sleeplocks := (sleeplocks s)(InodeLock ip := \<lparr>sl_locked = 1, sl_pid = i\<rparr>)\<rparr>"
  have "ilock ip s = Inr ?t" using assms(2) by (intro ilock_valid [OF _ _ tx_held [OF assms(1)] i]) (simp_all add: cached_def)
  moreover have st: "lock_step s ?t" by (rule lock_step_intro [OF assms(1)]) simp_all
  ultimately show ?thesis using lock_stepD(6) [OF st] i by (intro exI [of _ ?t] exI [of _ i]) simp
qed

lemma iunlock_step:
  fixes s :: "'a kfile_scheme"
  assumes "tx_ok Map.empty s" "iref (inode_at s ip) \<ge> 1" "mypid s = Inr i" "sleeplocks s (InodeLock ip) = \<lparr>sl_locked = 1, sl_pid = i\<rparr>"
  shows "\<exists>t. iunlock ip s = Inr t \<and> lock_step s t \<and> ftable t = ftable s \<and> sl_locked (sleeplocks t (InodeLock ip)) = 0"
proof -
  let ?u = "s\<lparr>sleeplocks := (sleeplocks s)(InodeLock ip := \<lparr>sl_locked = 0, sl_pid = 0\<rparr>)\<rparr>"
  let ?t = "wakeup1 (SleepLockChan (InodeLock ip)) ?u"
  have "iunlock ip s = Inr ?t" by (rule iunlock_held [OF assms(2) tx_held [OF assms(1)] assms(3,4)])
  moreover have "procs_same (ptable s) (ptable ?t)" using procs_same_wakeup [of ?u] by simp
  then have "lock_step s ?t" by (intro lock_step_intro [OF assms(1)]) (simp_all add: wakeup1_def)
  ultimately show ?thesis by (intro exI [of _ ?t]) (simp add: wakeup1_def)
qed

section \<open>Writing\<close>

lemma idleD:
  assumes "idle s"
  shows "tx_ok Map.empty s" "log_ok s" "fs_ok s" "logged s = []" "log_outstanding s = 0" "\<not> log_committing s" "27 \<le> log_size s"
    "disksize s < 2 ^ 31" "lh_n (lh s) = 0"
proof -
  show a: "log_ok s" "fs_ok s" "logged s = []" "log_outstanding s = 0" "\<not> log_committing s" "27 \<le> log_size s"
    using assms by (simp_all add: idle_def)
  show "tx_ok Map.empty s" using a(1) by (simp add: log_ok_tx)
  show "disksize s < 2 ^ 31" using a(1) bio_okD(7) [of Map.empty s] by (simp add: log_ok_def)
  have "log_area s" using a(1) by (simp add: log_ok_def)
  then show "lh_n (lh s) = 0" using length_logged [of s] a(3) by (simp add: log_area_def)
qed

lemma cached_same:
  assumes "same_fs s t" "fs_ok s" "disksize s < 2 ^ 31" "cached ip s" "sl_locked (sleeplocks t (InodeLock ip)) = 0"
  shows "cached ip t"
proof -
  have "sb t = sb s" "icache t = icache s" using assms(1) by (simp_all add: same_fs_def)
  then show ?thesis using assms same_fs_file(1) [OF assms(1-3)] by (simp add: cached_def)
qed

lemma op_begin:
  fixes s :: "'a kfile_scheme"
  assumes "idle s"
  shows "\<exists>t. begin_op s = Inr t \<and> tx_ok Map.empty t \<and> same_fs s t \<and> log_room 25 t \<and> log_outstanding t = 1 \<and> \<not> log_committing t \<and>
    ftable t = ftable s \<and> sleeplocks t = sleeplocks s \<and> blk t = blk s"
proof -
  note d = idleD [OF assms]
  let ?t = "s\<lparr>log_outstanding := log_outstanding s + 1\<rparr>"
  have b: "begin_op s = Inr ?t" "tx_ok Map.empty ?t" using begin_op_ok [OF d(2,6)] d(5,9) by simp_all
  have k: "blk ?t = blk s" by (rule bio_cong(2)) simp_all
  have "same_fs s ?t" using k by (simp add: same_fs_def disksize_def)
  moreover have "log_room 25 ?t" using d(5,7,9) by (simp add: log_room_def logged_def)
  ultimately show ?thesis using b d(5,6) k by (intro exI [of _ ?t]) simp
qed

lemma op_end:
  fixes s :: "'a kfile_scheme"
  assumes "tx_ok Map.empty s" "fs_ok s" "log_outstanding s = 1" "\<not> log_committing s" "27 \<le> log_size s"
  shows "\<exists>t. end_op s = Inr t \<and> idle t \<and> same_fs s t \<and> ftable t = ftable s \<and> (\<forall>i. sleeplocks t (InodeLock i) = sleeplocks s (InodeLock i))"
proof -
  obtain t where t: "end_op s = Inr t" "log_ok t" "logged t = []" "log_outstanding t = 0" "\<not> log_committing t" "disksize t = disksize s"
    "log_frame (s\<lparr>log_outstanding := 0\<rparr>) t" "\<forall>b. \<not> in_log s (unat b) \<longrightarrow> blk t b = blk s b"
    using end_op_ok [OF assms(1,3,4)] by blast
  note f = kfs_frame [OF t(7)] log_frameD [OF t(7)] kfile_frame [OF t(7)]
  have e: "same_fs s t" using f t(6,8) by (simp add: same_fs_def)
  have "disksize s < 2 ^ 31" using assms(1) bio_okD(7) [of Map.empty s] by (simp add: tx_ok_def)
  then have "fs_ok t" by (rule same_fs_ok(1) [OF e assms(2)])
  then have "idle t" using t f assms(5) by (simp add: idle_def)
  then show ?thesis using t(1) e f by (intro exI [of _ t]) simp
qed

lemma fs_step_file:
  fixes s t :: "'a kfile_scheme"
  assumes "fs_step k s t" "tx_ok Map.empty s"
  shows "ftable t = ftable s" "sleeplocks t (InodeLock i) = sleeplocks s (InodeLock i)" "mypid t = mypid s"
proof -
  have f: "log_frame (s\<lparr>icache := icache t\<rparr>) t" using assms(1) by (simp add: fs_step_def)
  show "ftable t = ftable s" "sleeplocks t (InodeLock i) = sleeplocks s (InodeLock i)" using kfile_frame [OF f] kfs_frame(3) [OF f] by simp_all
  have "cur_ok s" using assms(2) bio_okD(4) [of Map.empty s] by (simp add: tx_ok_def)
  then have "cur_ok (s\<lparr>icache := icache t, lh := lh t\<rparr>)" by (simp add: cur_ok_def)
  from bio_frame_mypid [OF f [unfolded log_frame_def] this] show "mypid t = mypid s" by (simp add: mypid_def cong: option.case_cong)
qed

text \<open>One chunk: a transaction of its own, after which the new contents are on disk.\<close>

lemma chunk_ok:
  fixes s :: "'a kfile_scheme"
  assumes ok: "idle s" "opened f ip s" and n: "0 < length chunk" "length chunk \<le> 1536"
    and off: "off = foff (file_at s f)" "off \<le> isize (din s ip)" "unat off + length chunk \<le> 71680"
    and av: "touched (unat off) (length chunk) < avail ip s"
  shows "\<exists>t. filewrite_chunk f chunk s = Inr (int (length chunk), t) \<and> idle t \<and> opened f ip t \<and>
    ftable t = (ftable s)[f := (file_at s f)\<lparr>foff := off + of_nat (length chunk)\<rparr>] \<and> fdata t ip = content_write off chunk (fdata s ip) \<and>
    others_kept ip s t \<and> sb t = sb s \<and> inum (inode_at t ip) = inum (inode_at s ip) \<and>
    avail ip s \<le> avail ip t + touched (unat off) (length chunk)"
proof -
  note d = idleD [OF ok(1)]
  have o: "f < length (ftable s)" "ftype (file_at s f) = FD_INODE" "fip (file_at s f) = ip" "cached ip s" using ok(2) by (simp_all add: opened_def)
  obtain s1 where s1: "begin_op s = Inr s1" "tx_ok Map.empty s1" "same_fs s s1" "log_room 25 s1" "log_outstanding s1 = 1" "\<not> log_committing s1"
    "ftable s1 = ftable s" "sleeplocks s1 = sleeplocks s" using op_begin [OF ok(1)] by blast
  have c1: "cached ip s1" using o(4) s1(8) by (intro cached_same [OF s1(3) d(3,8)]) (simp_all add: cached_def)
  obtain s2 i where s2: "ilock ip s1 = Inr s2" "lock_step s1 s2" "ftable s2 = ftable s1" "mypid s2 = Inr i"
    "sleeplocks s2 (InodeLock ip) = \<lparr>sl_locked = 1, sl_pid = i\<rparr>" using ilock_step [OF s1(2) c1] by blast
  note l2 = lock_stepD [OF s2(2)]
  have e2: "same_fs s s2" by (rule same_fs_trans [OF s1(3) l2(2)])
  note q2 = same_fs_ok [OF e2 d(3,8)] and f2 = same_fs_file [OF e2 d(3,8)]
  have fo: "file_ok ip s" "unat (inum (inode_at s ip)) < ninodes s" "iref (inode_at s ip) \<ge> 1" "ivalid (inode_at s ip)" using o(4) by (simp_all add: cached_def)
  have ic2: "icache s2 = icache s" and sb2: "sb s2 = sb s" and ls2: "log_size s2 = log_size s" using e2 by (simp_all add: same_fs_def)
  let ?t = "touched (unat off) (length chunk)"
  have t4: "?t \<le> 4" by (rule touched_chunk [OF n(2)])
  have r2: "log_room (6 * ?t + 1) s2" using log_room_le [OF s1(4), of "6 * ?t + 1"] t4 l2(8) by simp
  have w2: "unat (inum (inode_at s2 ip)) < ninodes s2" "off \<le> isize (din s2 ip)" "?t < avail ip s2"
    using fo ic2 sb2 off(2) av f2(3) [OF fo(1)] by simp_all
  obtain s3 where s3: "writei ip chunk off s2 = Inr (int (length chunk), s3)" "tx_ok Map.empty s3" "fs_ok s3" "file_ok ip s3"
    "fs_step (6 * ?t + 1) s2 s3" "fdata s3 ip = content_write off chunk (fdata s2 ip)" "others_kept ip s2 s3" "avail ip s2 \<le> avail ip s3 + ?t"
    "inode_at s3 ip = (inode_at s2 ip)\<lparr>idata := (din s2 ip)\<lparr>addrs := addrs (din s3 ip), isize := isize (din s3 ip)\<rparr>\<rparr>"
    using writei_ok [OF l2(1) q2(1) f2(1) [OF fo(1)] w2(1,2) off(3) r2 w2(3)] by blast
  note g3 = fs_step_file [OF s3(5) l2(1)] and sd3 = fs_stepD [OF s3(5)]
  have i3: "iref (inode_at s3 ip) = iref (inode_at s2 ip)" "ivalid (inode_at s3 ip) = ivalid (inode_at s2 ip)" "inum (inode_at s3 ip) = inum (inode_at s2 ip)"
    using arg_cong [OF s3(9), of iref] arg_cong [OF s3(9), of ivalid] arg_cong [OF s3(9), of inum] by simp_all
  let ?u = "upd_file f (\<lambda>x. x\<lparr>foff := foff x + of_int (int (length chunk))\<rparr>) s3"
  have u: "lock_step s3 ?u" by (rule lock_step_intro [OF s3(2)]) (simp_all add: upd_file_def)
  note lu = lock_stepD [OF u]
  have fu: "ftable ?u = (ftable s)[f := (file_at s f)\<lparr>foff := off + of_nat (length chunk)\<rparr>]"
    using g3(1) s2(3) s1(7) off(1) by (simp add: upd_file_def)
  have su: "sleeplocks ?u (InodeLock ip) = \<lparr>sl_locked = 1, sl_pid = i\<rparr>" "mypid ?u = Inr i" "iref (inode_at ?u ip) \<ge> 1"
    using g3(2,3) s2(4,5) lu(6) i3(1) ic2 fo(3) lu(7) by (simp_all add: upd_file_def)
  obtain s4 where s4: "iunlock ip ?u = Inr s4" "lock_step ?u s4" "ftable s4 = ftable ?u" "sl_locked (sleeplocks s4 (InodeLock ip)) = 0"
    using iunlock_step [OF lu(1) su(3,2,1)] by blast
  note l4 = lock_stepD [OF s4(2)]
  have e4: "same_fs s3 s4" by (rule same_fs_trans [OF lu(2) l4(2)])
  have d3: "disksize s3 < 2 ^ 31" using s3(2) bio_okD(7) [of Map.empty s3] by (simp add: tx_ok_def)
  note q4 = same_fs_ok [OF e4 s3(3) d3]
  have p4: "log_outstanding s4 = 1" "\<not> log_committing s4" "27 \<le> log_size s4"
    using l4 lu sd3 l2 s1(5,6) ls2 d(7) by simp_all
  obtain s5 where s5: "end_op s4 = Inr s5" "idle s5" "same_fs s4 s5" "ftable s5 = ftable s4"
    "\<forall>i. sleeplocks s5 (InodeLock i) = sleeplocks s4 (InodeLock i)" using op_end [OF l4(1) q4(1) p4] by blast
  have e5: "same_fs s3 s5" by (rule same_fs_trans [OF e4 s5(3)])
  note f5 = same_fs_file [OF e5 s3(3) d3 s3(4)]
  have ic5: "icache s5 = icache s3" and sb5: "sb s5 = sb s3" using e5 by (simp_all add: same_fs_def)
  have "filewrite_chunk f chunk s = Inr (int (length chunk), s5)"
    using s1(1) s2(1) s3(1) s4(1) s5(1) o(3) off(1) n(1) s2(3) s1(7) by (simp add: filewrite_chunk_def Let_def)
  moreover have "cached ip s5" using f5(1) fo i3 ic2 ic5 sb5 sd3(1) sb2 s4(4) s5(5) by (simp add: cached_def)
  then have "opened f ip s5" using o s5(4) s4(3) fu by (simp add: opened_def)
  moreover have "others_kept ip s s5"
  proof -
    have "others_kept ip s s2" by (rule same_fs_others [OF e2 d(3,8) fo(1)])
    then have "others_kept ip s s3" using others_kept_trans [OF _ s3(7)] sb2 ic2 by simp
    then show ?thesis using others_kept_trans [OF _ same_fs_others [OF e5 s3(3) d3 s3(4)]] sb2 ic2 sd3(1) i3(3) by simp
  qed
  moreover have "fdata s5 ip = content_write off chunk (fdata s ip)" using f5(2) s3(6) f2(2) [OF fo(1)] by simp
  moreover have "avail ip s \<le> avail ip s5 + ?t" using f5(3) s3(8) f2(3) [OF fo(1)] by simp
  ultimately show ?thesis using s5(2,4) s4(3) fu sb5 sd3(1) sb2 ic5 i3(3) ic2 by (intro exI [of _ s5]) simp
qed

text \<open>Two writes behind each other are one.\<close>

lemma content_write_append:
  assumes "unat o1 \<le> length c" "unat o2 = unat o1 + length d1"
  shows "content_write o2 d2 (content_write o1 d1 c) = content_write o1 (d1 @ d2) c"
  using assms by (simp add: content_write_def add.assoc add.commute add.left_commute)

text \<open>The blocks that a write of \<open>n\<close> bytes may need: four for each chunk.\<close>

definition wroom :: "nat \<Rightarrow> nat" where
  "wroom n = 4 * ((n + 1535) div 1536)"

lemma wroom_step: "n \<le> 1536 \<Longrightarrow> n \<le> m \<Longrightarrow> 0 < n \<Longrightarrow> (n < 1536 \<Longrightarrow> n = m) \<Longrightarrow> wroom (m - n) + 4 \<le> wroom m"
proof -
  assume a: "n \<le> 1536" "n \<le> m" "0 < n" "n < 1536 \<Longrightarrow> n = m"
  show ?thesis
  proof (cases "n < 1536")
    case True
    then have "m = n" using a(4) by simp
    moreover have "1536 div 1536 \<le> (n + 1535) div 1536" using a(3) by (intro div_le_mono) simp
    ultimately show ?thesis by (simp add: wroom_def)
  next
    case False
    then have n: "n = 1536" using a(1) by simp
    then have "m + 1535 = (m - n + 1535) + 1536" using a(2) by simp
    then have "(m + 1535) div 1536 = Suc ((m - n + 1535) div 1536)" by (simp only: div_add_self2)
    then show ?thesis unfolding wroom_def by linarith
  qed
qed

lemma drop_length_take: "drop (length (take k xs)) xs = drop k xs"
  by (cases "k \<le> length xs") simp_all

lemma filewrite_loop_ok:
  fixes s :: "'a kfile_scheme"
  assumes "idle s" "opened f ip s" "i \<le> length src" "off = foff (file_at s f)" "off \<le> isize (din s ip)"
    "unat off + (length src - i) \<le> 71680" "wroom (length src - i) < avail ip s"
  shows "\<exists>t. filewrite_loop f src i s = Inr (int (length src), t) \<and> idle t \<and> opened f ip t \<and>
    ftable t = (ftable s)[f := (file_at s f)\<lparr>foff := off + of_nat (length src - i)\<rparr>] \<and> fdata t ip = content_write off (drop i src) (fdata s ip) \<and>
    others_kept ip s t \<and> sb t = sb s"
  using assms
proof (induction "length src - i" arbitrary: i off s rule: less_induct)
  case less
  show ?case
  proof (cases "i < length src")
    case False
    then have i: "i = length src" using less.prems(3) by simp
    then have "filewrite_loop f src i s = Inr (int (length src), s)" by (subst filewrite_loop.simps) simp
    moreover have "others_kept ip s s"
      using less.prems(2) idleD(3,8) [OF less.prems(1)] by (intro same_fs_others) (simp_all add: opened_def cached_def)
    ultimately show ?thesis using less.prems i by (intro exI [of _ s]) (simp add: content_write_def)
  next
    case True
    let ?c = "take WMAX (drop i src)" let ?n = "length ?c" let ?t = "touched (unat off) ?n"
    have wm: "WMAX = 1536" by (simp add: WMAX_def MAXOPBLOCKS_def)
    have n: "0 < ?n" "?n \<le> 1536" "?n \<le> length src - i" "?n < 1536 \<Longrightarrow> ?n = length src - i" using True by (simp_all add: wm)
    have t: "?t \<le> 4" by (rule touched_chunk [OF n(2)])
    have w: "wroom (length src - i - ?n) + 4 \<le> wroom (length src - i)" by (rule wroom_step [OF n(2,3,1,4)])
    have ro: "unat off + ?n \<le> 71680" "?t < avail ip s" using less.prems(6,7) n(3) w t by linarith+
    obtain s1 where s1: "filewrite_chunk f ?c s = Inr (int ?n, s1)" "idle s1" "opened f ip s1"
      "ftable s1 = (ftable s)[f := (file_at s f)\<lparr>foff := off + of_nat ?n\<rparr>]" "fdata s1 ip = content_write off ?c (fdata s ip)"
      "others_kept ip s s1" "sb s1 = sb s" "inum (inode_at s1 ip) = inum (inode_at s ip)" "avail ip s \<le> avail ip s1 + ?t"
      using chunk_ok [OF less.prems(1,2) n(1,2) less.prems(4,5) ro] by blast
    have fl: "f < length (ftable s)" using less.prems(2) by (simp add: opened_def)
    let ?o = "off + of_nat ?n :: uint"
    have uo: "unat ?o = unat off + ?n" using less.prems(6) n(2,3) word_less_n [of ?c] by (subst unat_add_small) simp_all
    have sz: "unat off \<le> length (fdata s ip)" using less.prems(5) by (simp add: word_le_nat_alt)
    have "unat off + ?n \<le> length (fdata s1 ip)" unfolding s1(5) length_content_write [OF sz] by simp
    then have os: "?o \<le> isize (din s1 ip)" using uo by (simp add: word_le_nat_alt)
    have m: "length src - (i + ?n) < length src - i" "length src - (i + ?n) = length src - i - ?n" "i + ?n \<le> length src" using n True by linarith+
    have cf: "?o = foff (file_at s1 f)" unfolding s1(4) using fl by simp
    have c: "unat ?o + (length src - (i + ?n)) \<le> 71680" "wroom (length src - (i + ?n)) < avail ip s1"
      unfolding uo m(2) using s1(9) less.prems(6,7) n(3) w t by linarith+
    obtain t where t: "filewrite_loop f src (i + ?n) s1 = Inr (int (length src), t)" "idle t" "opened f ip t"
      "ftable t = (ftable s1)[f := (file_at s1 f)\<lparr>foff := ?o + of_nat (length src - (i + ?n))\<rparr>]"
      "fdata t ip = content_write ?o (drop (i + ?n) src) (fdata s1 ip)" "others_kept ip s1 t" "sb t = sb s1"
      using less.hyps [OF m(1) s1(2,3) m(3) cf os c] by blast
    have "filewrite_loop f src i s = Inr (int (length src), t)"
      using True s1(1) t(1) by (simp add: filewrite_loop.simps [of f src i] Let_def)
    moreover have "?c @ drop (i + ?n) src = drop i src"
    proof -
      have "drop (i + ?n) src = drop ?n (drop i src)" by (simp add: add.commute)
      also have "\<dots> = drop WMAX (drop i src)" by (rule drop_length_take)
      finally show ?thesis by (simp only: append_take_drop_id)
    qed
    then have "fdata t ip = content_write off (drop i src) (fdata s ip)"
      unfolding t(5) s1(5) content_write_append [OF sz uo] by simp
    moreover have fo: "?o + of_nat (length src - (i + ?n)) = off + of_nat (length src - i)"
    proof -
      have "length src - i = ?n + (length src - (i + ?n))" using m(2) n(3) by linarith
      then have "of_nat (length src - i) = (of_nat ?n + of_nat (length src - (i + ?n)) :: uint)" by (metis of_nat_add)
      then show ?thesis by (simp only: add.assoc)
    qed
    have "ftable t = (ftable s)[f := (file_at s f)\<lparr>foff := off + of_nat (length src - i)\<rparr>]"
      using t(4) [unfolded fo] fl unfolding s1(4) by simp
    moreover have "others_kept ip s t" by (rule others_kept_trans [OF s1(6) t(6) s1(7,8)])
    ultimately show ?thesis using t(2,3,7) s1(7) by (intro exI [of _ t]) simp
  qed
qed

text \<open>A write that starts behind the end of the file is refused and changes nothing.\<close>

lemma chunk_refused:
  fixes s :: "'a kfile_scheme"
  assumes ok: "idle s" "opened f ip s" and off: "isize (din s ip) < foff (file_at s f)"
  shows "\<exists>t. filewrite_chunk f chunk s = Inr (-1, t) \<and> idle t \<and> opened f ip t \<and> ftable t = ftable s \<and> same_fs s t"
proof -
  note d = idleD [OF ok(1)]
  have o: "f < length (ftable s)" "ftype (file_at s f) = FD_INODE" "fip (file_at s f) = ip" "cached ip s" using ok(2) by (simp_all add: opened_def)
  obtain s1 where s1: "begin_op s = Inr s1" "tx_ok Map.empty s1" "same_fs s s1" "log_outstanding s1 = 1" "\<not> log_committing s1"
    "ftable s1 = ftable s" "sleeplocks s1 = sleeplocks s" using op_begin [OF ok(1)] by blast
  have c1: "cached ip s1" using o(4) s1(7) by (intro cached_same [OF s1(3) d(3,8)]) (simp_all add: cached_def)
  obtain s2 i where s2: "ilock ip s1 = Inr s2" "lock_step s1 s2" "ftable s2 = ftable s1" "mypid s2 = Inr i"
    "sleeplocks s2 (InodeLock ip) = \<lparr>sl_locked = 1, sl_pid = i\<rparr>" using ilock_step [OF s1(2) c1] by blast
  note l2 = lock_stepD [OF s2(2)]
  have e2: "same_fs s s2" by (rule same_fs_trans [OF s1(3) l2(2)])
  have ic2: "icache s2 = icache s" "log_size s2 = log_size s" using e2 by (simp_all add: same_fs_def)
  have fo: "file_ok ip s" "iref (inode_at s ip) \<ge> 1" using o(4) by (simp_all add: cached_def)
  have w: "writei ip chunk (foff (file_at s f)) s2 = Inr (-1, s2)" using off ic2 file_okD(3) [OF fo(1)] by (simp add: writei_def Let_def)
  obtain s4 where s4: "iunlock ip s2 = Inr s4" "lock_step s2 s4" "ftable s4 = ftable s2" "sl_locked (sleeplocks s4 (InodeLock ip)) = 0"
    using iunlock_step [OF l2(1) _ s2(4,5)] fo(2) ic2 by auto
  note l4 = lock_stepD [OF s4(2)]
  have e4: "same_fs s s4" by (rule same_fs_trans [OF e2 l4(2)])
  have p4: "log_outstanding s4 = 1" "\<not> log_committing s4" "27 \<le> log_size s4" using l4 l2 s1(4,5) ic2(2) d(7) by simp_all
  obtain s5 where s5: "end_op s4 = Inr s5" "idle s5" "same_fs s4 s5" "ftable s5 = ftable s4"
    "\<forall>i. sleeplocks s5 (InodeLock i) = sleeplocks s4 (InodeLock i)" using op_end [OF l4(1) same_fs_ok(1) [OF e4 d(3,8)] p4] by blast
  have e5: "same_fs s s5" by (rule same_fs_trans [OF e4 s5(3)])
  have "filewrite_chunk f chunk s = Inr (-1, s5)"
    using s1(1) s2(1) s4(1) s5(1) o(3) w s2(3) s1(6) by (simp add: filewrite_chunk_def Let_def)
  moreover have "cached ip s5" using s4(4) s5(5) by (intro cached_same [OF e5 d(3,8) o(4)]) simp
  ultimately show ?thesis using o s5(2,4) s4(3) s2(3) s1(6) e5 by (intro exI [of _ s5]) (simp add: opened_def)
qed

section \<open>Reading\<close>

lemma same_fs_step:
  assumes "tx_step 0 (blk s) s t"
  shows "same_fs s t"
  using tx_stepD [OF assms] kfs_frame [OF tx_stepD(2) [OF assms]] log_frameD [OF tx_stepD(2) [OF assms]] by (simp add: same_fs_def)

lemma fileread_ok:
  fixes s :: "'a kfile_scheme"
  assumes ok: "idle s" "opened f ip s" "readable (file_at s f) \<noteq> 0" and n: "0 \<le> n" "n < 2 ^ 31"
    and off: "off = foff (file_at s f)" "off \<le> isize (din s ip)"
  defines "d \<equiv> take (nat n) (drop (unat off) (fdata s ip))"
  shows "\<exists>t. fileread f n s = Inr (int (length d), d, t) \<and> idle t \<and> opened f ip t \<and> same_fs s t \<and>
    ftable t = (ftable s)[f := (file_at s f)\<lparr>foff := off + of_nat (length d)\<rparr>]"
proof -
  note i0 = idleD [OF ok(1)]
  have o: "f < length (ftable s)" "ftype (file_at s f) = FD_INODE" "fip (file_at s f) = ip" "cached ip s" using ok(2) by (simp_all add: opened_def)
  have fo: "file_ok ip s" "iref (inode_at s ip) \<ge> 1" using o(4) by (simp_all add: cached_def)
  obtain s2 i where s2: "ilock ip s = Inr s2" "lock_step s s2" "ftable s2 = ftable s" "mypid s2 = Inr i"
    "sleeplocks s2 (InodeLock ip) = \<lparr>sl_locked = 1, sl_pid = i\<rparr>" using ilock_step [OF i0(1) o(4)] by blast
  note l2 = lock_stepD [OF s2(2)]
  note q2 = same_fs_ok [OF l2(2) i0(3,8)] and f2 = same_fs_file [OF l2(2) i0(3,8) fo(1)]
  have un: "unat (of_int n :: uint) = nat n" 
  proof -
    have "(of_int n :: uint) = of_nat (nat n)" using n(1) by simp
    then show ?thesis using n by (simp only:) (rule unat_of_nat_small, simp add: nat_less_iff)
  qed
  have rr: "off \<le> isize (din s2 ip)" "unat off + unat (of_int n :: uint) < 2 ^ 32" "length (logged s2) \<le> 28"
    using off l2(3,7) i0(4) un n(2) file_okD(4) [OF fo(1)] by (simp_all add: word_le_nat_alt)
  obtain s3 where s3: "readi ip off (of_int n) s2 = Inr (int (length d), d, s3)" "tx_ok Map.empty s3" "tx_step 0 (blk s2) s2 s3"
    using readi_ok [OF l2(1) q2(1) rr(3) f2(1) rr(1,2)] unfolding un f2(2) d_def by blast
  let ?u = "if int (length d) > 0 then upd_file f (\<lambda>x. x\<lparr>foff := foff x + of_int (int (length d))\<rparr>) s3 else s3"
  have u: "lock_step s3 ?u" by (rule lock_step_intro [OF s3(2)]) (simp_all add: upd_file_def)
  note lu = lock_stepD [OF u]
  note st3 = fs_step_tx [OF s3(3)] and g3 = fs_step_file [OF fs_step_tx [OF s3(3)] l2(1)] and sd3 = fs_stepD [OF fs_step_tx [OF s3(3)]]
  have fu: "ftable ?u = (ftable s)[f := (file_at s f)\<lparr>foff := off + of_nat (length d)\<rparr>]"
    using g3(1) s2(3) off(1) by (simp add: upd_file_def)
  have e3: "same_fs s s3" by (rule same_fs_trans [OF l2(2) same_fs_step [OF s3(3)]])
  have ic3: "icache s3 = icache s" using e3 by (simp add: same_fs_def)
  have su: "sleeplocks ?u (InodeLock ip) = \<lparr>sl_locked = 1, sl_pid = i\<rparr>" "mypid ?u = Inr i" "iref (inode_at ?u ip) \<ge> 1"
    using g3(2,3) s2(4,5) lu(6) ic3 fo(2) lu(7) by (simp_all add: upd_file_def)
  obtain s4 where s4: "iunlock ip ?u = Inr s4" "lock_step ?u s4" "ftable s4 = ftable ?u" "sl_locked (sleeplocks s4 (InodeLock ip)) = 0"
    using iunlock_step [OF lu(1) su(3,2,1)] by blast
  note l4 = lock_stepD [OF s4(2)]
  have e4: "same_fs s s4" by (rule same_fs_trans [OF e3 same_fs_trans [OF lu(2) l4(2)]])
  have "fileread f n s = Inr (int (length d), d, s4)"
    using ok(3) o(2,3) s2(1) s3(1) s4(1) off(1) s2(3) by (simp add: fileread_def Let_def)
  moreover have "logged s4 = []" using st3 l4(3) lu(3) l2(3) i0(4) by (simp add: fs_step_def)
  then have "idle s4" using l4 lu sd3 l2 i0 same_fs_ok(1) [OF e4 i0(3,8)] by (simp add: idle_def log_ok_tx)
  moreover have "cached ip s4" by (rule cached_same [OF e4 i0(3,8) o(4) s4(4)])
  then have "opened f ip s4" using o s4(3) fu by (simp add: opened_def)
  ultimately show ?thesis using e4 s4(3) fu by (intro exI [of _ s4]) simp
qed

section \<open>Properties\<close>

lemma filewrite_ok:
  fixes s :: "'a kfile_scheme"
  assumes "idle s" "opened f ip s" "writable (file_at s f) \<noteq> 0" "off = foff (file_at s f)" "off \<le> isize (din s ip)"
    "unat off + length src \<le> MAXFILE * BSIZE" "wroom (length src) < avail ip s"
  shows "\<exists>t. filewrite f (Inr src) s = Inr (int (length src), t) \<and> idle t \<and> opened f ip t \<and>
    ftable t = (ftable s)[f := (file_at s f)\<lparr>foff := off + of_nat (length src)\<rparr>] \<and> fdata t ip = content_write off src (fdata s ip) \<and>
    others_kept ip s t \<and> sb t = sb s"
proof -
  have mx: "MAXFILE * BSIZE = 71680" by (simp add: MAXFILE_def NDIRECT_def NINDIRECT_def BSIZE_def)
  have "ftype (file_at s f) = FD_INODE" using assms(2) by (simp add: opened_def)
  then have "filewrite f (Inr src) s = filewrite_loop f src 0 s" using assms(3) by (simp add: filewrite_def)
  then show ?thesis using filewrite_loop_ok [OF assms(1,2) _ assms(4,5), of 0 src] assms(6,7) by (simp add: mx)
qed

text \<open>
  C6. Files as processes see them: with no other operation under way, \<open>filewrite\<close> of any number of bytes to
  an open file, split into as many transactions as it takes, returns that number, changes the contents
  of the file exactly as one write at the offset does, advances the offset, leaves every block on disk
  and no transaction open, and changes no other file or inode; \<open>fileread\<close> returns the bytes at the offset,
  as many as there are up to the number asked for, and advances the offset by them.
\<close>

theorem open_file_refines_contents:
  fixes s :: "'a kfile_scheme"
  assumes "idle s" "opened f ip s" "off = foff (file_at s f)" "off \<le> isize (din s ip)"
  shows "(\<forall>src. writable (file_at s f) \<noteq> 0 \<longrightarrow> unat off + length src \<le> MAXFILE * BSIZE \<longrightarrow> wroom (length src) < avail ip s \<longrightarrow>
      (\<exists>t. filewrite f (Inr src) s = Inr (int (length src), t) \<and> idle t \<and> opened f ip t \<and>
        ftable t = (ftable s)[f := (file_at s f)\<lparr>foff := off + of_nat (length src)\<rparr>] \<and>
        fdata t ip = content_write off src (fdata s ip) \<and> (\<forall>b. blk t b = disk t ! unat b) \<and> others_kept ip s t)) \<and>
    (\<forall>n. readable (file_at s f) \<noteq> 0 \<longrightarrow> 0 \<le> n \<longrightarrow> n < 2 ^ 31 \<longrightarrow>
      (\<exists>t. fileread f n s = Inr (int (length (take (nat n) (drop (unat off) (fdata s ip)))), take (nat n) (drop (unat off) (fdata s ip)), t) \<and>
        idle t \<and> opened f ip t \<and> fdata t ip = fdata s ip \<and>
        ftable t = (ftable s)[f := (file_at s f)\<lparr>foff := off + of_nat (length (take (nat n) (drop (unat off) (fdata s ip))))\<rparr>]))"
proof (intro conjI allI impI)
  fix src :: "uchar list"
  assume w: "writable (file_at s f) \<noteq> 0" "unat off + length src \<le> MAXFILE * BSIZE" "wroom (length src) < avail ip s"
  from filewrite_ok [OF assms(1,2) w(1) assms(3,4) w(2,3)] idle_disk
  show "\<exists>t. filewrite f (Inr src) s = Inr (int (length src), t) \<and> idle t \<and> opened f ip t \<and>
    ftable t = (ftable s)[f := (file_at s f)\<lparr>foff := off + of_nat (length src)\<rparr>] \<and>
    fdata t ip = content_write off src (fdata s ip) \<and> (\<forall>b. blk t b = disk t ! unat b) \<and> others_kept ip s t" by blast
next
  fix n :: int
  assume r: "readable (file_at s f) \<noteq> 0" "0 \<le> n" "n < 2 ^ 31"
  let ?d = "take (nat n) (drop (unat off) (fdata s ip))"
  obtain t where t: "fileread f n s = Inr (int (length ?d), ?d, t)" "idle t" "opened f ip t" "same_fs s t"
    "ftable t = (ftable s)[f := (file_at s f)\<lparr>foff := off + of_nat (length ?d)\<rparr>]" using fileread_ok [OF assms(1,2) r assms(3,4)] by blast
  have "file_ok ip s" using assms(2) by (simp add: opened_def cached_def)
  from same_fs_file(2) [OF t(4) idleD(3,8) [OF assms(1)] this] t
  show "\<exists>t. fileread f n s = Inr (int (length ?d), ?d, t) \<and> idle t \<and> opened f ip t \<and> fdata t ip = fdata s ip \<and>
    ftable t = (ftable s)[f := (file_at s f)\<lparr>foff := off + of_nat (length ?d)\<rparr>]" by blast
qed

text \<open>The small disk with its file open for reading and writing.\<close>

definition ft0 :: "file_t list" where
  "ft0 = \<lparr>ftype = FD_INODE, fref = 1, readable = 1, writable = 1, fpipe = 0, fip = 0, foff = 0\<rparr> #
     replicate 99 \<lparr>ftype = FD_NONE, fref = 0, readable = 0, writable = 0, fpipe = 0, fip = 0, foff = 0\<rparr>"

definition file0s :: kfile where
  "file0s = kfs.extend (fs0\<lparr>log_outstanding := 0\<rparr>) \<lparr>ftable = ft0\<rparr>"

lemma file0s_idle: "idle file0s"
proof -
  have s: "disk file0s = disk fs0" "log_start file0s = log_start fs0" "log_size file0s = log_size fs0" "log_outstanding file0s = 0"
    "log_committing file0s = log_committing fs0" "lh file0s = lh fs0" "log_dev file0s = log_dev fs0" "sb file0s = sb fs0"
    by (simp_all add: file0s_def kfs.defs)
  have e: "bio_ok Map.empty file0s = bio_ok Map.empty fs0" "blk file0s = blk fs0" "dirty_blocks file0s = dirty_blocks fs0"
    by (rule bio_cong; simp add: file0s_def kfs.defs)+
  have l: "logged file0s = logged fs0" "in_log file0s = in_log fs0" "disksize file0s = disksize fs0"
    using s by (simp_all add: logged_def in_log_def disksize_def fun_eq_iff)
  have "tx_ok Map.empty file0s" using fs0_sel(1) s e l by (simp add: tx_ok_def log_area_def)
  moreover have "used file0s = used fs0" "dstart file0s = dstart fs0" using s e by (simp_all add: used_def mapblock_def dstart_def fun_eq_iff)
  then have "fs_ok file0s" using fs0_ok s e l by (simp add: fs_ok_def geom_def)
  ultimately show ?thesis using s l fs0_sel by (simp add: idle_def log_ok_tx)
qed

lemma binit_loop_inode: "sleeplocks (binit_loop is s) (InodeLock j) = sleeplocks s (InodeLock j)"
  by (induction "is" arbitrary: s) (simp_all add: link_front_def initsleeplock_def upd_buf_def Let_def)

lemma file0s_open: "opened 0 0 file0s" "fdata file0s 0 = []" "avail 0 file0s = 63" "file_at file0s 0 = hd ft0" "isize (din file0s 0) = 0"
proof -
  have s: "sb file0s = sb fs0" "icache file0s = icache fs0" "ftable file0s = ft0" "sleeplocks file0s = sleeplocks fs0"
    by (simp_all add: file0s_def kfs.defs)
  have k: "blk file0s = blk fs0" by (rule bio_cong; simp add: file0s_def kfs.defs)
  have u: "used file0s = used fs0" "data_block file0s = data_block fs0" using s k by (simp_all add: used_def mapblock_def data_block_def dstart_def fun_eq_iff)
  have "file_ok 0 file0s" using fs0_file(1) s k u by (simp add: file_ok_def ino_at_def map_ok_def)
  moreover have "sleeplocks fs0 (InodeLock 0) = sleeplocks bio00 (InodeLock 0)"
    by (simp add: fs0_def klog0_def klog.defs kbio.defs binit_def binit_loop_inode upd_buf_def)
  ultimately show "opened 0 0 file0s" using s fs0_sel(9,10) by (simp add: opened_def cached_def ft0_def sb0_def bio00_def ksleep.defs sl0_simps(4))
  show "fdata file0s 0 = []" using fs0_file(2) s k by (simp add: fdata_def)
  show "avail 0 file0s = 63" using fs0_file(4) s u by (simp add: avail_def nfree_def)
  show "file_at file0s 0 = hd ft0" "isize (din file0s 0) = 0" using s fs0_sel(10) by (simp_all add: ft0_def file0_def)
qed

theorem open_file_refines_contents_witness:
  "\<exists>t u. filewrite 0 (Inr (replicate 5000 65)) file0s = Inr (5000, t) \<and> fdata t 0 = replicate 5000 65 \<and> (\<forall>b. blk t b = disk t ! unat b) \<and>
    fileread 0 100 file0s = Inr (0, [], u)"
proof -
  have h: "(0 :: uint) = foff (file_at file0s 0)" "(0 :: uint) \<le> isize (din file0s 0)" "writable (file_at file0s 0) \<noteq> 0" "readable (file_at file0s 0) \<noteq> 0"
    using file0s_open(4) by (simp_all add: ft0_def)
  note r = open_file_refines_contents [OF file0s_idle file0s_open(1) h(1,2)]
  have "wroom (length (replicate 5000 (65 :: uchar))) < avail 0 file0s" by (simp add: wroom_def file0s_open(3))
  moreover have "unat (0 :: uint) + length (replicate 5000 (65 :: uchar)) \<le> MAXFILE * BSIZE"
    by (simp add: MAXFILE_def NDIRECT_def NINDIRECT_def BSIZE_def)
  ultimately obtain t where "filewrite 0 (Inr (replicate 5000 65)) file0s = Inr (int (length (replicate 5000 (65 :: uchar))), t)"
    "fdata t 0 = content_write 0 (replicate 5000 65) (fdata file0s 0)" "\<forall>b. blk t b = disk t ! unat b"
    using conjunct1 [OF r, rule_format, of "replicate 5000 65"] h(3) by blast
  moreover obtain u where "fileread 0 100 file0s = Inr (0, [], u)"
    using conjunct2 [OF r, rule_format, of 100] h(4) file0s_open(2) by auto
  ultimately show ?thesis using file0s_open(2) by (auto simp: content_write_def)
qed

end
