(* ===== verification/Fault.thy ===== *)
theory Fault
  imports Swap
begin

text \<open>
  Page faults, the part of \<^verbatim>\<open>trap.c\<close> that system calls depend on: the kernel reads arguments and paths
  of its caller through the caller's page table, and a page that is not present traps. The handler
  decides from the frame of the trap what happens; for a fault of the kernel itself that decision is
  derived here. Theory Syscall has the other traps.
\<close>

section \<open>The handler\<close>

definition T_PGFLT :: uint where "T_PGFLT = 14"

definition from_user :: "trapframe \<Rightarrow> bool" where
  "from_user f \<longleftrightarrow> tf_cs f AND 3 = 3"

text \<open>
  The case of a page fault at the address \<open>va\<close> (the register \<open>cr2\<close>): whether it was a soft one, of a page
  that the swap file has and \<open>swap_in\<close> brought back.
\<close>

definition trap_pgflt :: "trapframe \<Rightarrow> uint \<Rightarrow> 'a kvm_scheme \<Rightarrow> (bool \<times> 'a kvm_scheme) kres" where
  "trap_pgflt f va s =
     (case curproc s of
        None \<Rightarrow> Inr (False, s)
      | Some p \<Rightarrow>
          if is_shell_or_init (Some (ptable s ! p)) \<or> \<not> from_user f then Inr (False, s)
          else kbind (isPageInSwapFile p va s) (\<lambda>sw.
            if \<not> sw then Inr (False, s)
            else kbind (swap_in p va s) (\<lambda>(r, s1). Inr (r \<noteq> 0, s1))))"

text \<open>The test of the default case: a trap that only a mistake of the kernel explains.\<close>

definition trap_unexpected :: "trapframe \<Rightarrow> 'a kproc_scheme \<Rightarrow> bool" where
  "trap_unexpected f s \<longleftrightarrow> curproc s = None \<or> tf_cs f AND 3 = 0"

section \<open>Faults of the kernel\<close>

text \<open>
  The frame of a page fault in the kernel: the code segment is the kernel's (\<open>SEG_KCODE << 3\<close>), at
  privilege level 0; the other registers play no part in the handler. The handler returns after a soft
  fault; after a hard one the default case panics, or would go on to kill a process in user mode.
\<close>

definition kernel_frame :: trapframe where
  "kernel_frame = zero_tf\<lparr>tf_trapno := T_PGFLT, tf_cs := 8\<rparr>"

definition kernel_fault :: "uint \<Rightarrow> 'a kvm_scheme \<Rightarrow> 'a kvm_scheme kres" where
  "kernel_fault va s =
     kbind (trap_pgflt kernel_frame va s) (\<lambda>(soft, s1).
       if soft then Inr s1
       else if trap_unexpected kernel_frame s1 then Inl (Panic ''trap'')
       else Inl (Undefined ''kernel_fault: the frame is from user mode''))"

text \<open>
  An access of the kernel to a byte of the caller: where the page is missing the handler runs, and the
  instruction is tried again in the state it leaves.
\<close>

definition user_page :: "uint \<Rightarrow> 'a kvm_scheme \<Rightarrow> (uint \<times> 'a kvm_scheme) kres" where
  "user_page va s =
     (case user_ka va s of
        Some ka \<Rightarrow> Inr (ka, s)
      | None \<Rightarrow>
          kbind (kernel_fault va s) (\<lambda>s1.
            case user_ka va s1 of
              Some ka \<Rightarrow> Inr (ka, s1)
            | None \<Rightarrow> Inl (Undefined ''user_page: faults again'')))"

lemma kernel_frame_mode: "\<not> from_user kernel_frame" "tf_cs kernel_frame AND 3 = 0" "tf_trapno kernel_frame = T_PGFLT"
  by (simp_all add: from_user_def kernel_frame_def)

text \<open>The test for user mode keeps the handler from swapping in, and the same mode makes it panic.\<close>

lemma kernel_fault_panics: "kernel_fault va s = Inl (Panic ''trap'')"
  using kernel_frame_mode(1,2)
  by (cases "curproc s") (simp_all add: kernel_fault_def trap_pgflt_def trap_unexpected_def)

lemma user_page_eq: "user_page va s = (case user_ka va s of None \<Rightarrow> Inl (Panic ''trap'') | Some ka \<Rightarrow> Inr (ka, s))"
  by (simp add: user_page_def kernel_fault_panics split: option.split)

end
