(* ===== verification/Sysarg.thy ===== *)
theory Sysarg
  imports Fileio Fault
begin

text \<open>
  System call arguments, the first part of \<^verbatim>\<open>syscall.c\<close>: the kernel reads them from the stack of the
  caller through the page table in use. A page of the caller that is not present faults in the kernel;
  the access then goes through the page-fault handler of theory Fault, and is tried again if it returns. A failed check (a return of -1) is \<open>None\<close>; a string argument is its bytes.
\<close>

section \<open>User memory\<close>

text \<open>
  Reading a byte. The state the handler leaves is used for the access and not returned: by
  \<open>kernel_fault_panics\<close> the handler never returns here, so there is no such state to go on with.
\<close>

definition user_byte :: "uint \<Rightarrow> 'a kvm_scheme \<Rightarrow> uchar kres" where
  "user_byte va s = kbind (user_page va s) (\<lambda>(ka, s1). Inr (mem s1 ka))"

fun user_bytes :: "nat \<Rightarrow> uint \<Rightarrow> 'a kvm_scheme \<Rightarrow> uchar list kres" where
  "user_bytes 0 va s = Inr []"
| "user_bytes (Suc n) va s =
     kbind (user_byte va s) (\<lambda>b. kbind (user_bytes n (va + 1) s) (\<lambda>bs. Inr (b # bs)))"

fun put_user :: "uint \<Rightarrow> uchar list \<Rightarrow> 'a kvm_scheme \<Rightarrow> 'a kvm_scheme kres" where
  "put_user va [] s = Inr s"
| "put_user va (b # bs) s =
     kbind (user_page va s) (\<lambda>(ka, s1). put_user (va + 1) bs (s1\<lparr>mem := (mem s1)(ka := b)\<rparr>))"

lemma user_byte_eq: "user_byte va s = (case user_ka va s of None \<Rightarrow> Inl (Panic ''trap'') | Some ka \<Rightarrow> Inr (mem s ka))"
  by (simp add: user_byte_def user_page_eq split: option.split)

section \<open>Arguments\<close>

definition myproc :: "'a kproc_scheme \<Rightarrow> nat kres" where
  "myproc s = (case curproc s of None \<Rightarrow> Inl (Undefined ''myproc'') | Some p \<Rightarrow> Inr p)"

definition fetchint :: "uint \<Rightarrow> 'a kvm_scheme \<Rightarrow> uint option kres" where
  "fetchint addr s =
     kbind (myproc s) (\<lambda>p.
       let size = sz (ptable s ! p)
       in if addr \<ge> size \<or> addr + 4 > size then Inr None
          else kbind (user_bytes 4 addr s) (\<lambda>bs. Inr (Some (get32 bs 0))))"

fun fetchstr_loop :: "nat \<Rightarrow> uint \<Rightarrow> 'a kvm_scheme \<Rightarrow> uchar list option kres" where
  "fetchstr_loop 0 a s = Inr None"
| "fetchstr_loop (Suc n) a s =
     kbind (user_byte a s) (\<lambda>b.
       if b = 0 then Inr (Some [])
       else kbind (fetchstr_loop n (a + 1) s) (\<lambda>r. Inr (map_option ((#) b) r)))"

definition fetchstr :: "uint \<Rightarrow> 'a kvm_scheme \<Rightarrow> uchar list option kres" where
  "fetchstr addr s =
     kbind (myproc s) (\<lambda>p.
       let ep = sz (ptable s ! p)
       in if addr \<ge> ep then Inr None else fetchstr_loop (unat ep - unat addr) addr s)"

definition argint :: "int \<Rightarrow> 'a kvm_scheme \<Rightarrow> uint option kres" where
  "argint n s = kbind (myproc s) (\<lambda>p. fetchint (tf_esp (tf (ptable s ! p)) + 4 + 4 * of_int n) s)"

definition argptr :: "int \<Rightarrow> int \<Rightarrow> 'a kvm_scheme \<Rightarrow> uint option kres" where
  "argptr n len s =
     kbind (myproc s) (\<lambda>p.
       kbind (argint n s) (\<lambda>r.
         case r of
           None \<Rightarrow> Inr None
         | Some i \<Rightarrow>
             if len < 0 \<or> i \<ge> sz (ptable s ! p) \<or> i + of_int len > sz (ptable s ! p) then Inr None
             else Inr (Some i)))"

definition argstr :: "int \<Rightarrow> 'a kvm_scheme \<Rightarrow> uchar list option kres" where
  "argstr n s =
     kbind (argint n s) (\<lambda>r. case r of None \<Rightarrow> Inr None | Some addr \<Rightarrow> fetchstr addr s)"

text \<open>Sequencing of checks: a failed one gives up with the code the caller returns.\<close>

definition obind :: "'b option kres \<Rightarrow> 'c \<Rightarrow> ('b \<Rightarrow> 'c kres) \<Rightarrow> 'c kres" where
  "obind m d f = kbind m (\<lambda>r. case r of None \<Rightarrow> Inr d | Some x \<Rightarrow> f x)"

section \<open>Bounds\<close>

text \<open>The blocks of an address space: below \<open>KERNBASE\<close> the sums of the checks do not wrap around.\<close>

lemma sum_in_bounds:
  assumes "a < e" "unat e \<le> 0x80000000" "n < 0x80000000"
  shows "a + of_nat n \<le> (e :: uint) \<longleftrightarrow> unat a + n \<le> unat e"
proof -
  have "unat (of_nat n :: uint) = n" using assms(3) by (simp add: unat_of_nat_small)
  moreover have "unat a < unat e" using assms(1) by (simp add: word_less_nat_alt)
  ultimately have "unat (a + of_nat n) = unat a + n"
    using unat_add_lem [of a "of_nat n"] assms(2,3) by simp
  then show ?thesis by (simp add: word_le_nat_alt)
qed

lemma fetchint_Some:
  assumes "curproc s = Some p" "unat (sz (ptable s ! p)) \<le> 0x80000000"
  shows "fetchint a s = Inr (Some v) \<longleftrightarrow>
    unat a + 4 \<le> unat (sz (ptable s ! p)) \<and> (\<exists>bs. user_bytes 4 a s = Inr bs \<and> v = get32 bs 0)"
proof -
  have "\<not> (a \<ge> sz (ptable s ! p) \<or> a + 4 > sz (ptable s ! p)) \<longleftrightarrow> unat a + 4 \<le> unat (sz (ptable s ! p))"
    using sum_in_bounds [OF _ assms(2), of a 4] by (auto simp: not_le not_less word_less_nat_alt word_le_nat_alt)
  then show ?thesis using assms(1)
    by (cases "user_bytes 4 a s") (auto simp: fetchint_def myproc_def Let_def)
qed

lemma fetchstr_loop_Some:
  "fetchstr_loop n a s = Inr (Some bs) \<longleftrightarrow>
    length bs < n \<and> 0 \<notin> set bs \<and> user_bytes (Suc (length bs)) a s = Inr (bs @ [0])"
proof (induction n arbitrary: a bs)
  case (Suc n)
  show ?case
  proof (cases "user_byte a s")
    case (Inr b)
    show ?thesis
    proof (cases bs)
      case Nil
      then show ?thesis using Inr by (cases "fetchstr_loop n (a + 1) s") auto
    next
      case (Cons c cs)
      have "fetchstr_loop (Suc n) a s = Inr (Some bs) \<longleftrightarrow> b = c \<and> b \<noteq> 0 \<and> fetchstr_loop n (a + 1) s = Inr (Some cs)"
        using Inr Cons by (cases "fetchstr_loop n (a + 1) s") auto
      also have "\<dots> \<longleftrightarrow> b = c \<and> b \<noteq> 0 \<and> length cs < n \<and> 0 \<notin> set cs \<and>
          user_bytes (Suc (length cs)) (a + 1) s = Inr (cs @ [0])" using Suc.IH [of "a + 1" cs] by simp
      also have "\<dots> \<longleftrightarrow> length bs < Suc n \<and> 0 \<notin> set bs \<and> user_bytes (Suc (length bs)) a s = Inr (bs @ [0])"
        using Inr Cons by (cases "user_bytes (Suc (length cs)) (a + 1) s") (auto simp del: user_bytes.simps(2) simp: user_bytes.simps(2) [of "Suc (length cs)" a])
      finally show ?thesis .
    qed
  qed simp
qed simp

lemma fetchstr_Some:
  assumes "curproc s = Some p"
  shows "fetchstr a s = Inr (Some bs) \<longleftrightarrow> unat a + length bs < unat (sz (ptable s ! p)) \<and> 0 \<notin> set bs \<and>
    user_bytes (Suc (length bs)) a s = Inr (bs @ [0])"
  using assms by (auto simp: fetchstr_def myproc_def fetchstr_loop_Some word_le_nat_alt not_le Let_def simp del: user_bytes.simps)

lemma argptr_Some:
  assumes "curproc s = Some p" "unat (sz (ptable s ! p)) \<le> 0x80000000" "len < 2 ^ 31"
  shows "argptr n len s = Inr (Some a) \<longleftrightarrow> argint n s = Inr (Some a) \<and> 0 \<le> len \<and>
    a < sz (ptable s ! p) \<and> unat a + nat len \<le> unat (sz (ptable s ! p))"
proof -
  have "0 \<le> len \<Longrightarrow> a < sz (ptable s ! p) \<Longrightarrow>
      a + of_int len \<le> sz (ptable s ! p) \<longleftrightarrow> unat a + nat len \<le> unat (sz (ptable s ! p))"
    using sum_in_bounds [OF _ assms(2), of a "nat len"] assms(3) by simp
  then have "\<not> (len < 0 \<or> a \<ge> sz (ptable s ! p) \<or> a + of_int len > sz (ptable s ! p)) \<longleftrightarrow>
      0 \<le> len \<and> a < sz (ptable s ! p) \<and> unat a + nat len \<le> unat (sz (ptable s ! p))" unfolding not_le [symmetric] by blast
  then show ?thesis using assms(1)
    by (cases "argint n s") (auto simp: argptr_def myproc_def simp del: not_le not_less split: option.splits)
qed

lemma args_bounds:
  assumes "curproc s = Some p" "unat (sz (ptable s ! p)) \<le> 0x80000000"
  shows "argint n s = Inr (Some v) \<longleftrightarrow>
      (let a = tf_esp (tf (ptable s ! p)) + 4 + 4 * of_int n
       in unat a + 4 \<le> unat (sz (ptable s ! p)) \<and> (\<exists>bs. user_bytes 4 a s = Inr bs \<and> v = get32 bs 0))"
    and "len < 2 ^ 31 \<Longrightarrow> argptr n len s = Inr (Some a) \<longleftrightarrow> argint n s = Inr (Some a) \<and> 0 \<le> len \<and>
      a < sz (ptable s ! p) \<and> unat a + nat len \<le> unat (sz (ptable s ! p))"
    and "argstr n s = Inr (Some bs) \<longleftrightarrow>
      (\<exists>a. argint n s = Inr (Some a) \<and> unat a + length bs < unat (sz (ptable s ! p)) \<and> 0 \<notin> set bs \<and>
        user_bytes (Suc (length bs)) a s = Inr (bs @ [0]))"
proof -
  show "argint n s = Inr (Some v) \<longleftrightarrow>
      (let a = tf_esp (tf (ptable s ! p)) + 4 + 4 * of_int n
       in unat a + 4 \<le> unat (sz (ptable s ! p)) \<and> (\<exists>bs. user_bytes 4 a s = Inr bs \<and> v = get32 bs 0))"
    using assms(1) by (simp add: argint_def myproc_def fetchint_Some [OF assms] Let_def)
  show "argptr n len s = Inr (Some a) \<longleftrightarrow> argint n s = Inr (Some a) \<and> 0 \<le> len \<and>
      a < sz (ptable s ! p) \<and> unat a + nat len \<le> unat (sz (ptable s ! p))" if "len < 2 ^ 31"
    using argptr_Some [OF assms that] .
  show "argstr n s = Inr (Some bs) \<longleftrightarrow>
      (\<exists>a. argint n s = Inr (Some a) \<and> unat a + length bs < unat (sz (ptable s ! p)) \<and> 0 \<notin> set bs \<and>
        user_bytes (Suc (length bs)) a s = Inr (bs @ [0]))"
    by (cases "argint n s") (auto simp: argstr_def fetchstr_Some [OF assms(1)] split: option.splits)
qed

text \<open>
  C11. The checks on system call arguments, for a process whose size is below \<open>KERNBASE\<close>. An integer
  argument is the word at its place on the user stack, all of it inside the address space; a pointer is
  accepted exactly where the whole block that goes with it is inside, whatever the caller gave as
  length; a string is accepted exactly where its terminator comes before the end of the address space,
  and is then the bytes before the terminator.
\<close>

theorem arguments_stay_in_bounds:
  assumes "curproc s = Some p" "unat (sz (ptable s ! p)) \<le> 0x80000000"
  shows "(argint n s = Inr (Some v) \<longleftrightarrow>
      (let a = tf_esp (tf (ptable s ! p)) + 4 + 4 * of_int n
       in unat a + 4 \<le> unat (sz (ptable s ! p)) \<and> (\<exists>bs. user_bytes 4 a s = Inr bs \<and> v = get32 bs 0))) \<and>
    (len < 2 ^ 31 \<longrightarrow> (argptr n len s = Inr (Some a) \<longleftrightarrow> argint n s = Inr (Some a) \<and> 0 \<le> len \<and>
      a < sz (ptable s ! p) \<and> unat a + nat len \<le> unat (sz (ptable s ! p)))) \<and>
    (argstr n s = Inr (Some bs) \<longleftrightarrow>
      (\<exists>a. argint n s = Inr (Some a) \<and> unat a + length bs < unat (sz (ptable s ! p)) \<and> 0 \<notin> set bs \<and>
        user_bytes (Suc (length bs)) a s = Inr (bs @ [0])))"
  using args_bounds [OF assms] by blast

text \<open>
  An example: the caller's page at \<open>0x1000\<close> holds the stack, whose argument 0 points behind itself to
  the string \<open>a\<close> and whose argument 1 is \<open>0x2000\<close>, a page that has been swapped out.
\<close>

definition arg_mem :: memory where
  "arg_mem = (mem vm0)(0x80403008 := 0x06, 0x80403009 := 0x02, 0x80404000 := 8, 0x80404001 := 0x10,
     0x80404005 := 0x20, 0x80404008 := 97)"

definition arg_proc :: proc where
  "arg_proc = zero_proc\<lparr>pid := 3, pgdir := 0x80401000, sz := 0x3000, tf := zero_tf\<lparr>tf_esp := 0xFFC, tf_eax := 18\<rparr>\<rparr>"

definition arg0 :: kvm where
  "arg0 = vm0\<lparr>mem := arg_mem, ptable := (ptable vm0)[1 := arg_proc]\<rparr>"

lemma arg_proc_simps [simp]: "sz arg_proc = 0x3000" "tf_esp (tf arg_proc) = 0xFFC" "tf_eax (tf arg_proc) = 18"
  by (simp_all add: arg_proc_def)

lemma arg0_simps: "curproc arg0 = Some 1" "ptable arg0 ! 1 = arg_proc" "mem arg0 = arg_mem" "cr3 arg0 = 0x401000"
  using vm0_proc(2) by (simp_all add: arg0_def vm0_def kmem.defs)

lemma arg_mem_at: "arg_mem = (store32 (store32 (\<lambda>_. 0) 0x80401000 0x403007) (0x80403000 + 4 * 1) 0x404007)
  (0x80403008 := 0x06, 0x80403009 := 0x02, 0x80404000 := 8, 0x80404001 := 0x10, 0x80404005 := 0x20, 0x80404008 := 97)"
  by (simp add: arg_mem_def vm0_def kmem.defs)

lemma arg_pte:
  assumes "mem s = arg_mem" "cr3 s = 0x401000" "PDX a = 0"
  shows "PTX a = 1 \<Longrightarrow> pte_of (P2V (cr3 s)) a s = 0x404007" "PTX a = 2 \<Longrightarrow> pte_of (P2V (cr3 s)) a s = pte_out 0x404007"
proof -
  have pk: "peek s (0x80401000 + 4 * 0) = 0x403007" "peek s (0x80403000 + 4 * 1) = 0x404007" "peek s (0x80403000 + 4 * 2) = 0x206"
    unfolding assms(1) arg_mem_at load32_def store32_def by simp_all
  have c: "P2V (cr3 s) = 0x80401000" by (simp add: assms(2) P2V_def KERNBASE_def)
  have t: "table_of 0x80401000 0 s = Some 0x80403000"
    using pk(1) unfolding table_of_def by (simp only:) (simp add: PTE_P_def PTE_ADDR_def P2V_def KERNBASE_def)
  show "pte_of (P2V (cr3 s)) a s = 0x404007" if "PTX a = 1" unfolding pte_of_def c assms(3) t that option.case by (rule pk(2))
  have "pte_out 0x404007 = 0x206" by (simp add: pte_out_def PTE_PG_def PTE_P_def PTE_FLAGS_def)
  then show "pte_of (P2V (cr3 s)) a s = pte_out 0x404007" if "PTX a = 2" unfolding pte_of_def c assms(3) t that option.case
    using pk(3) by simp
qed

lemma arg_ka:
  assumes "mem s = arg_mem" "cr3 s = 0x401000" "k < 16"
  shows "user_ka (0x1000 + of_nat k) s = Some (0x80404000 + of_nat k)"
proof -
  have "k \<in> {0, 1, 2, 3, 4, 5, 6, 7, 8, 9, 10, 11, 12, 13, 14, 15}" using assms(3) by (simp, presburger)
  then have "PDX (0x1000 + of_nat k) = 0 \<and> PTX (0x1000 + of_nat k) = 1 \<and> \<not> 0x1000 + of_nat k \<ge> KERNBASE \<and>
      (0x1000 + of_nat k :: uint) AND 0xFFF = of_nat k"
    unfolding PDX_def PTX_def KERNBASE_def by (elim insertE emptyE) simp_all
  then have ix: "PDX (0x1000 + of_nat k) = 0" "PTX (0x1000 + of_nat k) = 1" "\<not> 0x1000 + of_nat k \<ge> KERNBASE"
      "(0x1000 + of_nat k :: uint) AND 0xFFF = of_nat k" by blast+
  show ?thesis unfolding user_ka_def arg_pte(1) [OF assms(1,2) ix(1,2)] Let_def using ix(3,4)
    by (simp only: if_False) (simp add: PTE_P_def PTE_ADDR_def P2V_def KERNBASE_def)
qed

lemma arg_bytes:
  assumes "mem s = arg_mem" "cr3 s = 0x401000"
  shows "user_bytes 4 0x1000 s = Inr [8, 0x10, 0, 0]" "user_bytes 4 0x1004 s = Inr [0, 0x20, 0, 0]"
    "user_bytes (Suc (Suc 0)) 0x1008 s = Inr [97, 0]"
proof -
  note k = arg_ka [OF assms]
  have "user_byte 0x1000 s = Inr 8" "user_byte 0x1001 s = Inr 0x10" "user_byte 0x1002 s = Inr 0" "user_byte 0x1003 s = Inr 0"
    "user_byte 0x1004 s = Inr 0" "user_byte 0x1005 s = Inr 0x20" "user_byte 0x1006 s = Inr 0" "user_byte 0x1007 s = Inr 0"
    "user_byte 0x1008 s = Inr 97" "user_byte 0x1009 s = Inr 0"
    using k [of 0] k [of 1] k [of 2] k [of 3] k [of 4] k [of 5] k [of 6] k [of 7] k [of 8] k [of 9]
    by (simp_all add: user_byte_eq assms(1) arg_mem_at store32_def)
  then show "user_bytes 4 0x1000 s = Inr [8, 0x10, 0, 0]" "user_bytes 4 0x1004 s = Inr [0, 0x20, 0, 0]"
    "user_bytes (Suc (Suc 0)) 0x1008 s = Inr [97, 0]"
    by (simp_all add: eval_nat_numeral)
qed

theorem arguments_stay_in_bounds_witness:
  "argint 0 arg0 = Inr (Some 0x1008) \<and> argptr 0 100 arg0 = Inr (Some 0x1008) \<and>
   argptr 0 0x1FF9 arg0 \<noteq> Inr (Some 0x1008) \<and> argstr 0 arg0 = Inr (Some [97])"
proof -
  have z: "unat (sz (ptable arg0 ! 1)) \<le> 0x80000000" unfolding arg0_simps by simp
  note t = arguments_stay_in_bounds [OF arg0_simps(1) z, of 0]
  note b = arg_bytes [OF arg0_simps(3,4)]
  have i: "argint 0 arg0 = Inr (Some 0x1008)"
    unfolding t [THEN conjunct1] using b(1) by (simp add: arg0_simps [simplified] Let_def get32_def)
  moreover have "argptr 0 100 arg0 = Inr (Some 0x1008)" "argptr 0 0x1FF9 arg0 \<noteq> Inr (Some 0x1008)"
    using i t [THEN conjunct2, THEN conjunct1, of 100 "0x1008"] t [THEN conjunct2, THEN conjunct1, of "0x1FF9" "0x1008"]
    by (simp_all add: arg0_simps [simplified])
  moreover have "argstr 0 arg0 = Inr (Some [97])" unfolding t [THEN conjunct2, THEN conjunct2]
    using i b(3) by (simp add: arg0_simps [simplified] del: user_bytes.simps)
  ultimately show ?thesis by blast
qed

end
