(* ===== verification/Sysfile.thy ===== *)
theory Sysfile
  imports Sysarg
begin

text \<open>
  The file system calls of \<^verbatim>\<open>sysfile.c\<close> and the creation and removal of swap files (\<^verbatim>\<open>fs.c\<close>). A call
  returns its code and the state after it. \<^verbatim>\<open>sys_exec\<close> is with the program loader.
\<close>

section \<open>Descriptors\<close>

definition argfd :: "int \<Rightarrow> 'a kfile_scheme \<Rightarrow> (nat \<times> nat) option kres" where
  "argfd n s =
     obind (argint n s) None (\<lambda>x.
       let fd = sint x
       in if fd < 0 \<or> fd \<ge> int NOFILE then Inr None
          else kbind (myproc s) (\<lambda>p.
            case ofile (ptable s ! p) ! nat fd of None \<Rightarrow> Inr None | Some f \<Rightarrow> Inr (Some (nat fd, f))))"

definition fdalloc :: "nat \<Rightarrow> 'a kfile_scheme \<Rightarrow> (nat option \<times> 'a kfile_scheme) kres" where
  "fdalloc f s =
     kbind (myproc s) (\<lambda>p.
       case first_index (\<lambda>x. x = None) (ofile (ptable s ! p)) of
         Some fd \<Rightarrow> Inr (Some fd, upd_proc p (\<lambda>q. q\<lparr>ofile := (ofile q)[fd := Some f]\<rparr>) s)
       | None \<Rightarrow> Inr (None, s))"

definition sys_dup :: "'a kfile_scheme \<Rightarrow> (int \<times> 'a kfile_scheme) kres" where
  "sys_dup s =
     obind (argfd 0 s) (-1, s) (\<lambda>(_, f).
       kbind (fdalloc f s) (\<lambda>(r, s1).
         case r of
           None \<Rightarrow> Inr (-1, s1)
         | Some fd \<Rightarrow> kbind (filedup f s1) (\<lambda>s2. Inr (int fd, s2))))"

definition sys_read :: "'a kfile_scheme \<Rightarrow> (int \<times> 'a kfile_scheme) kres" where
  "sys_read s =
     obind (argfd 0 s) (-1, s) (\<lambda>(_, f).
       obind (argint 2 s) (-1, s) (\<lambda>n.
         obind (argptr 1 (sint n) s) (-1, s) (\<lambda>p.
           kbind (fileread f (sint n) s) (\<lambda>(r, bs, s1). kbind (put_user p bs s1) (\<lambda>s2. Inr (r, s2))))))"

definition sys_write :: "'a kfile_scheme \<Rightarrow> (int \<times> 'a kfile_scheme) kres" where
  "sys_write s =
     obind (argfd 0 s) (-1, s) (\<lambda>(_, f).
       obind (argint 2 s) (-1, s) (\<lambda>n.
         obind (argptr 1 (sint n) s) (-1, s) (\<lambda>p. filewrite f (user_bytes (nat (sint n)) p s) s)))"

definition sys_close :: "'a kfile_scheme \<Rightarrow> (int \<times> 'a kfile_scheme) kres" where
  "sys_close s =
     obind (argfd 0 s) (-1, s) (\<lambda>(fd, f).
       kbind (myproc s) (\<lambda>p.
         kbind (fileclose f (upd_proc p (\<lambda>q. q\<lparr>ofile := (ofile q)[fd := None]\<rparr>) s)) (\<lambda>s1. Inr (0, s1))))"

text \<open>\<^verbatim>\<open>struct stat\<close> in memory: two bytes of padding follow the type and the link count.\<close>

definition stat_put :: "uint \<Rightarrow> stat \<Rightarrow> 'a kvm_scheme \<Rightarrow> 'a kvm_scheme kres" where
  "stat_put a st s =
     kbind (put_user a (put16 [0, 0] 0 (st_type st)) s) (\<lambda>s1.
       kbind (put_user (a + 4) (put32 [0, 0, 0, 0] 0 (st_dev st)) s1) (\<lambda>s2.
         kbind (put_user (a + 8) (put32 [0, 0, 0, 0] 0 (st_ino st)) s2) (\<lambda>s3.
           kbind (put_user (a + 12) (put16 [0, 0] 0 (st_nlink st)) s3) (\<lambda>s4.
             put_user (a + 16) (put32 [0, 0, 0, 0] 0 (st_size st)) s4))))"

definition STATSIZE :: int where "STATSIZE = 20"

definition sys_fstat :: "'a kfile_scheme \<Rightarrow> (int \<times> 'a kfile_scheme) kres" where
  "sys_fstat s =
     obind (argfd 0 s) (-1, s) (\<lambda>(_, f).
       obind (argptr 1 STATSIZE s) (-1, s) (\<lambda>a.
         kbind (filestat f s) (\<lambda>(r, st, s1).
           case st of None \<Rightarrow> Inr (r, s1) | Some x \<Rightarrow> kbind (stat_put a x s1) (\<lambda>s2. Inr (r, s2)))))"

section \<open>Links\<close>

text \<open>Giving up inside a transaction.\<close>

definition fail_op :: "'b \<Rightarrow> 'a klog_scheme \<Rightarrow> ('b \<times> 'a klog_scheme) kres" where
  "fail_op r s = kbind (end_op s) (\<lambda>s1. Inr (r, s1))"

definition link_bad :: "nat \<Rightarrow> 'a kfile_scheme \<Rightarrow> (int \<times> 'a kfile_scheme) kres" where
  "link_bad ip s =
     kbind (ilock ip s) (\<lambda>s1.
       kbind (iupdate ip (upd_din ip (\<lambda>d. d\<lparr>nlink := nlink d - 1\<rparr>) s1)) (\<lambda>s2.
         kbind (iunlockput ip s2) (fail_op (-1))))"

definition sys_link :: "'a kfile_scheme \<Rightarrow> (int \<times> 'a kfile_scheme) kres" where
  "sys_link s =
     obind (argstr 0 s) (-1, s) (\<lambda>old.
       obind (argstr 1 s) (-1, s) (\<lambda>new.
         kbind (begin_op s) (\<lambda>s1.
           kbind (namei old s1) (\<lambda>(r, s2).
             case r of
               None \<Rightarrow> fail_op (-1) s2
             | Some ip \<Rightarrow>
                 kbind (ilock ip s2) (\<lambda>s3.
                   if itype (din s3 ip) = T_DIR then kbind (iunlockput ip s3) (fail_op (-1))
                   else
                     kbind (iupdate ip (upd_din ip (\<lambda>d. d\<lparr>nlink := nlink d + 1\<rparr>) s3)) (\<lambda>s4.
                     kbind (iunlock ip s4) (\<lambda>s5.
                     kbind (nameiparent new s5) (\<lambda>((dp, name), s6).
                       case dp of
                         None \<Rightarrow> link_bad ip s6
                       | Some dp \<Rightarrow>
                           kbind (ilock dp s6) (\<lambda>s7.
                             kbind (if i_dev (inode_at s7 dp) \<noteq> i_dev (inode_at s7 ip) then Inr (-1, s7)
                                    else dirlink dp name (inum (inode_at s7 ip)) s7) (\<lambda>(w, s8).
                               if w < 0 then kbind (iunlockput dp s8) (link_bad ip)
                               else kbind (iunlockput dp s8) (\<lambda>s9.
                                 kbind (iput ip s9) (fail_op 0)))))))))))) "

function isdirempty_loop :: "nat \<Rightarrow> nat \<Rightarrow> nat \<Rightarrow> 'a kfs_scheme \<Rightarrow> (bool \<times> 'a kfs_scheme) kres" where
  "isdirempty_loop dp len off s =
     (if off < len then
        kbind (readi dp (of_nat off) (of_nat DESIZE) s) (\<lambda>(r, de, s1).
          if r \<noteq> int DESIZE then Inl (Panic ''isdirempty: readi'')
          else if de_inum de \<noteq> 0 then Inr (False, s1)
          else isdirempty_loop dp len (off + DESIZE) s1)
      else Inr (True, s))"
  by pat_completeness auto
termination by (relation "measure (\<lambda>(_, len, off, _). len - off)") (auto simp: DESIZE_def)

declare isdirempty_loop.simps [simp del]

definition isdirempty :: "nat \<Rightarrow> 'a kfs_scheme \<Rightarrow> (bool \<times> 'a kfs_scheme) kres" where
  "isdirempty dp s = isdirempty_loop dp (unat (isize (din s dp))) (2 * DESIZE) s"

text \<open>The part that \<open>sys_unlink\<close> and \<open>removeSwapFile\<close> share: the code is the same in both.\<close>

definition unlink_bad :: "nat \<Rightarrow> 'a kfs_scheme \<Rightarrow> (int \<times> 'a kfs_scheme) kres" where
  "unlink_bad dp s = kbind (iunlockput dp s) (fail_op (-1))"

definition unlink_entry :: "nat \<Rightarrow> nat \<Rightarrow> nat \<Rightarrow> 'a kfs_scheme \<Rightarrow> (int \<times> 'a kfs_scheme) kres" where
  "unlink_entry dp ip off s =
     kbind (writei dp (replicate DESIZE 0) (of_nat off) s) (\<lambda>(w, s1).
       if w \<noteq> int DESIZE then Inl (Panic ''unlink: writei'')
       else kbind (if itype (din s1 ip) = T_DIR then iupdate dp (upd_din dp (\<lambda>d. d\<lparr>nlink := nlink d - 1\<rparr>) s1)
                   else Inr s1) (\<lambda>s2.
         kbind (iunlockput dp s2) (\<lambda>s3.
           kbind (iupdate ip (upd_din ip (\<lambda>d. d\<lparr>nlink := nlink d - 1\<rparr>) s3)) (\<lambda>s4.
             kbind (iunlockput ip s4) (fail_op 0)))))"

definition unlink_path :: "uchar list \<Rightarrow> 'a kfs_scheme \<Rightarrow> (int \<times> 'a kfs_scheme) kres" where
  "unlink_path path s =
     kbind (begin_op s) (\<lambda>s1.
       kbind (nameiparent path s1) (\<lambda>((r, name), s2).
         case r of
           None \<Rightarrow> fail_op (-1) s2
         | Some dp \<Rightarrow>
             kbind (ilock dp s2) (\<lambda>s3.
               if namecmp name [46] = 0 \<or> namecmp name [46, 46] = 0 then unlink_bad dp s3
               else kbind (dirlookup dp name s3) (\<lambda>(e, s4).
                 case e of
                   None \<Rightarrow> unlink_bad dp s4
                 | Some (ip, off) \<Rightarrow>
                     kbind (ilock ip s4) (\<lambda>s5.
                       if sint (nlink (din s5 ip)) < 1 then Inl (Panic ''unlink: nlink < 1'')
                       else kbind (if itype (din s5 ip) = T_DIR then isdirempty ip s5 else Inr (True, s5)) (\<lambda>(empty, s6).
                         if \<not> empty then kbind (iunlockput ip s6) (unlink_bad dp)
                         else unlink_entry dp ip off s6))))))"

definition sys_unlink :: "'a kfile_scheme \<Rightarrow> (int \<times> 'a kfile_scheme) kres" where
  "sys_unlink s = obind (argstr 0 s) (-1, s) (\<lambda>path. unlink_path path s)"

section \<open>Creating and opening\<close>

text \<open>The entries for the directory itself and its parent.\<close>

definition create_dots :: "nat \<Rightarrow> nat \<Rightarrow> 'a kfs_scheme \<Rightarrow> 'a kfs_scheme kres" where
  "create_dots dp ip s =
     kbind (iupdate dp (upd_din dp (\<lambda>d. d\<lparr>nlink := nlink d + 1\<rparr>) s)) (\<lambda>s1.
       kbind (dirlink ip [46] (inum (inode_at s1 ip)) s1) (\<lambda>(r, s2).
         if r < 0 then Inl (Panic ''create dots'')
         else kbind (dirlink ip [46, 46] (inum (inode_at s2 dp)) s2) (\<lambda>(r', s3).
           if r' < 0 then Inl (Panic ''create dots'') else Inr s3)))"

definition create_new :: "nat \<Rightarrow> uchar list \<Rightarrow> ushort \<Rightarrow> ushort \<Rightarrow> ushort \<Rightarrow> 'a kfs_scheme \<Rightarrow> (nat \<times> 'a kfs_scheme) kres" where
  "create_new dp name type mj mn s =
     kbind (ialloc (i_dev (inode_at s dp)) type s) (\<lambda>(ip, s1).
       kbind (ilock ip s1) (\<lambda>s2.
         kbind (iupdate ip (upd_din ip (\<lambda>d. d\<lparr>major := mj, minor := mn, nlink := 1\<rparr>) s2)) (\<lambda>s3.
           kbind (if type = T_DIR then create_dots dp ip s3 else Inr s3) (\<lambda>s4.
             kbind (dirlink dp name (inum (inode_at s4 ip)) s4) (\<lambda>(r, s5).
               if r < 0 then Inl (Panic ''create: dirlink'')
               else kbind (iunlockput dp s5) (\<lambda>s6. Inr (ip, s6)))))))"

definition create :: "uchar list \<Rightarrow> ushort \<Rightarrow> ushort \<Rightarrow> ushort \<Rightarrow> 'a kfs_scheme \<Rightarrow> (nat option \<times> 'a kfs_scheme) kres" where
  "create path type mj mn s =
     kbind (nameiparent path s) (\<lambda>((r, name), s1).
       case r of
         None \<Rightarrow> Inr (None, s1)
       | Some dp \<Rightarrow>
           kbind (ilock dp s1) (\<lambda>s2.
             kbind (dirlookup dp name s2) (\<lambda>(e, s3).
               case e of
                 Some (ip, _) \<Rightarrow>
                   kbind (iunlockput dp s3) (\<lambda>s4.
                     kbind (ilock ip s4) (\<lambda>s5.
                       if type = T_FILE \<and> itype (din s5 ip) = T_FILE then Inr (Some ip, s5)
                       else kbind (iunlockput ip s5) (\<lambda>s6. Inr (None, s6))))
               | None \<Rightarrow> kbind (create_new dp name type mj mn s3) (\<lambda>(ip, s4). Inr (Some ip, s4)))))"

definition O_RDONLY :: uint where "O_RDONLY = 0"
definition O_WRONLY :: uint where "O_WRONLY = 1"
definition O_RDWR :: uint where "O_RDWR = 2"
definition O_CREATE :: uint where "O_CREATE = 0x200"

text \<open>The inode that \<open>sys_open\<close> opens, locked, inside the transaction; without one it is over.\<close>

definition open_inode :: "uchar list \<Rightarrow> uint \<Rightarrow> 'a kfs_scheme \<Rightarrow> (nat option \<times> 'a kfs_scheme) kres" where
  "open_inode path omode s =
     (if omode AND O_CREATE \<noteq> 0 then
        kbind (create path T_FILE 0 0 s) (\<lambda>(r, s1). case r of None \<Rightarrow> fail_op None s1 | Some ip \<Rightarrow> Inr (Some ip, s1))
      else
        kbind (namei path s) (\<lambda>(r, s1).
          case r of
            None \<Rightarrow> fail_op None s1
          | Some ip \<Rightarrow>
              kbind (ilock ip s1) (\<lambda>s2.
                if itype (din s2 ip) = T_DIR \<and> omode \<noteq> O_RDONLY then kbind (iunlockput ip s2) (fail_op None)
                else Inr (Some ip, s2))))"

definition open_file :: "nat \<Rightarrow> uint \<Rightarrow> file_t \<Rightarrow> file_t" where
  "open_file ip omode f = f\<lparr>ftype := FD_INODE, fip := ip, foff := 0,
     readable := (if omode AND O_WRONLY \<noteq> 0 then 0 else 1),
     writable := (if omode AND O_WRONLY \<noteq> 0 \<or> omode AND O_RDWR \<noteq> 0 then 1 else 0)\<rparr>"

definition sys_open :: "'a kfile_scheme \<Rightarrow> (int \<times> 'a kfile_scheme) kres" where
  "sys_open s =
     obind (argstr 0 s) (-1, s) (\<lambda>path.
       obind (argint 1 s) (-1, s) (\<lambda>omode.
         kbind (begin_op s) (\<lambda>s1.
           kbind (open_inode path omode s1) (\<lambda>(r, s2).
             case r of
               None \<Rightarrow> Inr (-1, s2)
             | Some ip \<Rightarrow>
                 kbind (filealloc s2) (\<lambda>(f, s3).
                   case f of
                     None \<Rightarrow> kbind (iunlockput ip s3) (fail_op (-1))
                   | Some f \<Rightarrow>
                       kbind (fdalloc f s3) (\<lambda>(fd, s4).
                         case fd of
                           None \<Rightarrow> kbind (fileclose f s4) (\<lambda>s5. kbind (iunlockput ip s5) (fail_op (-1)))
                         | Some fd \<Rightarrow>
                             kbind (iunlock ip s4) (\<lambda>s5.
                               kbind (end_op s5) (\<lambda>s6. Inr (int fd, upd_file f (open_file ip omode) s6)))))))))"

definition sys_mkdir :: "'a kfile_scheme \<Rightarrow> (int \<times> 'a kfile_scheme) kres" where
  "sys_mkdir s =
     kbind (begin_op s) (\<lambda>s1.
       kbind (argstr 0 s1) (\<lambda>a.
         case a of
           None \<Rightarrow> fail_op (-1) s1
         | Some path \<Rightarrow>
             kbind (create path T_DIR 0 0 s1) (\<lambda>(r, s2).
               case r of None \<Rightarrow> fail_op (-1) s2 | Some ip \<Rightarrow> kbind (iunlockput ip s2) (fail_op 0))))"

definition mknod_args :: "'a kvm_scheme \<Rightarrow> (uchar list \<times> uint \<times> uint) option kres" where
  "mknod_args s =
     obind (argstr 0 s) None (\<lambda>path.
       obind (argint 1 s) None (\<lambda>mj. obind (argint 2 s) None (\<lambda>mn. Inr (Some (path, mj, mn)))))"

definition sys_mknod :: "'a kfile_scheme \<Rightarrow> (int \<times> 'a kfile_scheme) kres" where
  "sys_mknod s =
     kbind (begin_op s) (\<lambda>s1.
       kbind (mknod_args s1) (\<lambda>a.
         case a of
           None \<Rightarrow> fail_op (-1) s1
         | Some (path, mj, mn) \<Rightarrow>
             kbind (create path T_DEV (ucast mj) (ucast mn) s1) (\<lambda>(r, s2).
               case r of None \<Rightarrow> fail_op (-1) s2 | Some ip \<Rightarrow> kbind (iunlockput ip s2) (fail_op 0))))"

definition iput_opt :: "nat option \<Rightarrow> 'a kfs_scheme \<Rightarrow> 'a kfs_scheme kres" where
  "iput_opt ip s = (case ip of None \<Rightarrow> Inl (Undefined ''iput: null'') | Some i \<Rightarrow> iput i s)"

definition sys_chdir :: "'a kfile_scheme \<Rightarrow> (int \<times> 'a kfile_scheme) kres" where
  "sys_chdir s =
     kbind (myproc s) (\<lambda>p.
       kbind (begin_op s) (\<lambda>s1.
         kbind (argstr 0 s1) (\<lambda>a.
           case a of
             None \<Rightarrow> fail_op (-1) s1
           | Some path \<Rightarrow>
               kbind (namei path s1) (\<lambda>(r, s2).
                 case r of
                   None \<Rightarrow> fail_op (-1) s2
                 | Some ip \<Rightarrow>
                     kbind (ilock ip s2) (\<lambda>s3.
                       if itype (din s3 ip) \<noteq> T_DIR then kbind (iunlockput ip s3) (fail_op (-1))
                       else kbind (iunlock ip s3) (\<lambda>s4.
                         kbind (iput_opt (cwd (ptable s4 ! p)) s4) (\<lambda>s5.
                           kbind (end_op s5) (\<lambda>s6. Inr (0, upd_proc p (\<lambda>q. q\<lparr>cwd := Some ip\<rparr>) s6)))))))))"

definition sys_pipe :: "'a kfile_scheme \<Rightarrow> (int \<times> 'a kfile_scheme) kres" where
  "sys_pipe s =
     obind (argptr 0 8 s) (-1, s) (\<lambda>fd.
       kbind (pipealloc s) (\<lambda>(r, s1).
         case r of
           None \<Rightarrow> Inr (-1, s1)
         | Some (rfile, wfile) \<Rightarrow>
             kbind (fdalloc rfile s1) (\<lambda>(fd0, s2).
               case fd0 of
                 None \<Rightarrow> kbind (fileclose rfile s2) (\<lambda>s3. kbind (fileclose wfile s3) (\<lambda>s4. Inr (-1, s4)))
               | Some d0 \<Rightarrow>
                   kbind (fdalloc wfile s2) (\<lambda>(fd1, s3).
                     case fd1 of
                       None \<Rightarrow>
                         kbind (myproc s3) (\<lambda>p.
                           kbind (fileclose rfile (upd_proc p (\<lambda>q. q\<lparr>ofile := (ofile q)[d0 := None]\<rparr>) s3)) (\<lambda>s4.
                             kbind (fileclose wfile s4) (\<lambda>s5. Inr (-1, s5))))
                     | Some d1 \<Rightarrow>
                         kbind (put_user fd (put32 [0, 0, 0, 0] 0 (of_nat d0)) s3) (\<lambda>s4.
                           kbind (put_user (fd + 4) (put32 [0, 0, 0, 0] 0 (of_nat d1)) s4) (\<lambda>s5. Inr (0, s5)))))))"

section \<open>Swap files\<close>

definition createSwapFile :: "nat \<Rightarrow> 'a kfile_scheme \<Rightarrow> (int \<times> 'a kfile_scheme) kres" where
  "createSwapFile p s =
     kbind (swap_path (pid (ptable s ! p))) (\<lambda>path.
       kbind (begin_op s) (\<lambda>s1.
         kbind (create path T_FILE 0 0 s1) (\<lambda>(r, s2).
           case r of
             None \<Rightarrow> Inl (Panic ''iunlock'')
           | Some ip \<Rightarrow>
               kbind (iunlock ip s2) (\<lambda>s3.
                 kbind (filealloc s3) (\<lambda>(f, s4).
                   case f of
                     None \<Rightarrow> Inl (Panic ''no slot for files on /store'')
                   | Some f \<Rightarrow>
                       kbind (end_op (upd_file f (\<lambda>x. x\<lparr>fip := ip, ftype := FD_INODE, foff := 0,
                           readable := ucast O_WRONLY, writable := ucast O_RDWR\<rparr>)
                         (upd_proc p (\<lambda>q. q\<lparr>swapFile := Some f\<rparr>) s4))) (\<lambda>s5. Inr (0, s5)))))))"

definition removeSwapFile :: "nat \<Rightarrow> 'a kfile_scheme \<Rightarrow> (int \<times> 'a kfile_scheme) kres" where
  "removeSwapFile p s =
     kbind (swap_path (pid (ptable s ! p))) (\<lambda>path.
       case swapFile (ptable s ! p) of
         None \<Rightarrow> Inr (-1, s)
       | Some f \<Rightarrow> kbind (fileclose f s) (unlink_path path))"

text \<open>
  The swap file as an open file: \<open>writeToSwapFile\<close> and
  \<^verbatim>\<open>readFromSwapFile\<close> down to the disk.
\<close>

definition writeToSwapFile :: "nat \<Rightarrow> uchar list kres \<Rightarrow> uint \<Rightarrow> 'a kfile_scheme \<Rightarrow> (int \<times> 'a kfile_scheme) kres" where
  "writeToSwapFile p buffer placeOnFile s =
     (case swapFile (ptable s ! p) of
        None \<Rightarrow> Inl (Undefined ''swapFile is null'')
      | Some f \<Rightarrow> filewrite f buffer (upd_file f (\<lambda>x. x\<lparr>foff := placeOnFile\<rparr>) s))"

definition readFromSwapFile :: "nat \<Rightarrow> uint \<Rightarrow> uint \<Rightarrow> 'a kfile_scheme \<Rightarrow> (int \<times> uchar list \<times> 'a kfile_scheme) kres" where
  "readFromSwapFile p placeOnFile len s =
     (case swapFile (ptable s ! p) of
        None \<Rightarrow> Inl (Undefined ''swapFile is null'')
      | Some f \<Rightarrow> fileread f (sint len) (upd_file f (\<lambda>x. x\<lparr>foff := placeOnFile\<rparr>) s))"

end
