(* ===== verification/Fork.thy ===== *)
theory Fork
  imports Sysfile
begin

text \<open>
  The life of processes, from \<^verbatim>\<open>proc.c\<close>: allocation, the first process, growing, \<^verbatim>\<open>fork\<close>, \<^verbatim>\<open>exit\<close>,
  \<^verbatim>\<open>wait\<close> and \<^verbatim>\<open>kill\<close>. \<open>exit\<close> ends at the switch to the scheduler, \<open>wait\<close> is cut at its sleep. The
  contents of a new swap file become the contents that the paging code sees.
\<close>

section \<open>Allocation\<close>

text \<open>What \<open>ticks\<close> of \<^verbatim>\<open>trap.c\<close> and \<open>first\<close> of \<open>forkret\<close> hold is part of the state.\<close>

record ksys = kfile +
  ticks :: uint
  first_fork :: bool

definition initSwapfile :: "proc \<Rightarrow> proc" where
  "initSwapfile p = (if is_shell_or_init (Some p) then p
     else p\<lparr>file_manager := map (\<lambda>g. g\<lparr>pg_state := NOT_USED\<rparr>) (file_manager p)\<rparr>)"

definition removeProcFiles :: "proc \<Rightarrow> proc" where
  "removeProcFiles p = p\<lparr>page_mem_count := 0, sz := 0,
     ram_manager := map (\<lambda>g. g\<lparr>pg_state := NOT_USED, pg_vAddr := 0xFFFFFFFF\<rparr>) (ram_manager p),
     file_manager := map (\<lambda>g. g\<lparr>pg_state := NOT_USED, pg_vAddr := 0xFFFFFFFF\<rparr>) (file_manager p),
     fifoIndexStart := 0, fifoIndexNext := 0\<rparr>"

definition getNumOfPagesInMem :: "proc \<Rightarrow> uint" where
  "getNumOfPagesInMem p = page_mem_count p"

definition getNumOfPagesInFile :: "proc \<Rightarrow> nat" where
  "getNumOfPagesInFile p = count_if (\<lambda>g. pg_state g = USED) (file_manager p)"

definition swap_contents :: "nat \<Rightarrow> 'a kfile_scheme \<Rightarrow> 'a kfile_scheme" where
  "swap_contents p s =
     (case swapFile (ptable s ! p) of
        None \<Rightarrow> s
      | Some f \<Rightarrow> s\<lparr>swapdata := (swapdata s)(p := fdata s (fip (file_at s f)))\<rparr>)"

definition alloc_fields :: "proc \<Rightarrow> proc" where
  "alloc_fields p = p\<lparr>page_fault_count := 0, paged_out_count := 0, page_mem_count := 0,
     fifoIndexStart := 0, fifoIndexNext := 0\<rparr>"

definition allocproc :: "'a kfile_scheme \<Rightarrow> (nat option \<times> 'a kfile_scheme) kres" where
  "allocproc s =
     kbind (acquire_lock PtableLock s) (\<lambda>s1.
       case first_index (\<lambda>p. pstate p = UNUSED) (ptable s1) of
         None \<Rightarrow> kbind (release_lock PtableLock s1) (\<lambda>s2. Inr (None, s2))
       | Some i \<Rightarrow>
           let s2 = upd_proc i (\<lambda>p. p\<lparr>pstate := EMBRYO, pid := nextpid s1\<rparr>) s1
           in kbind (release_lock PtableLock (s2\<lparr>nextpid := nextpid s2 + 1\<rparr>)) (\<lambda>s3.
                kbind (kalloc s3) (\<lambda>(k, s4).
                  if k = 0 then Inr (None, upd_proc i (\<lambda>p. p\<lparr>kstack := 0, pstate := UNUSED\<rparr>) s4)
                  else
                    let s5 = upd_proc i (\<lambda>p. alloc_fields (p\<lparr>kstack := k\<rparr>)) s4
                    in kbind (if is_shell_or_init (Some (ptable s5 ! i)) then Inr s5
                              else kbind (createSwapFile i s5) (\<lambda>(_, s6). Inr (swap_contents i s6))) (\<lambda>s7.
                         Inr (Some i, upd_proc i initSwapfile s7)))))"

text \<open>The first process runs the code that the build links into the kernel, an argument here.\<close>

definition user_tf :: "trapframe" where
  "user_tf = zero_tf\<lparr>tf_cs := 27, tf_ds := 35, tf_es := 35, tf_ss := 35, tf_eflags := 0x200, tf_esp := 4096, tf_eip := 0\<rparr>"

definition userinit :: "uchar list \<Rightarrow> 'a kfile_scheme \<Rightarrow> 'a kfile_scheme kres" where
  "userinit initcode s =
     kbind (allocproc s) (\<lambda>(r, s1).
       case r of
         None \<Rightarrow> Inl (Undefined ''userinit: null'')
       | Some p \<Rightarrow>
           kbind (setupkvm (s1\<lparr>initproc := Some p\<rparr>)) (\<lambda>(pd, s2).
             if pd = 0 then Inl (Panic ''userinit: out of memory?'')
             else kbind (inituvm pd initcode (upd_proc p (\<lambda>q. q\<lparr>pgdir := pd\<rparr>) s2)) (\<lambda>s3.
               kbind (namei [47] (upd_proc p (\<lambda>q. q\<lparr>sz := PGSIZE, tf := user_tf, pname := ''initcode''\<rparr>) s3)) (\<lambda>(d, s4).
                 kbind (acquire_lock PtableLock (upd_proc p (\<lambda>q. q\<lparr>cwd := d\<rparr>) s4)) (\<lambda>s5.
                   release_lock PtableLock (upd_proc p (\<lambda>q. q\<lparr>pstate := RUNNABLE\<rparr>) s5))))))"

definition growproc :: "int \<Rightarrow> 'a kvm_scheme \<Rightarrow> (int \<times> 'a kvm_scheme) kres" where
  "growproc n s =
     kbind (myproc s) (\<lambda>p.
       let size = sz (ptable s ! p); pd = pgdir (ptable s ! p);
           finish = (\<lambda>z s1. kbind (switchuvm (Some p) (upd_proc p (\<lambda>q. q\<lparr>sz := z\<rparr>) s1)) (\<lambda>s2. Inr (0, s2)))
       in if n > 0 then
            kbind (allocuvm pd size (size + of_int n) s) (\<lambda>(z, s1). if z = 0 then Inr (-1, s1) else finish z s1)
          else if n < 0 then
            kbind (deallocuvm pd size (size + of_int n) s) (\<lambda>(z, s1). if z = 0 then Inr (-1, s1) else finish z s1)
          else finish size s)"

section \<open>Fork\<close>

fun fork_files :: "nat \<Rightarrow> nat \<Rightarrow> nat list \<Rightarrow> 'a kfile_scheme \<Rightarrow> 'a kfile_scheme kres" where
  "fork_files p np [] s = Inr s"
| "fork_files p np (i # is) s =
     (case ofile (ptable s ! p) ! i of
        None \<Rightarrow> fork_files p np is s
      | Some f \<Rightarrow>
          kbind (filedup f s) (\<lambda>s1.
            fork_files p np is (upd_proc np (\<lambda>q. q\<lparr>ofile := (ofile q)[i := Some f]\<rparr>) s1)))"

definition fork_pages :: "nat \<Rightarrow> nat \<Rightarrow> 'a kvm_scheme \<Rightarrow> 'a kvm_scheme kres" where
  "fork_pages p np s =
     (if is_shell_or_init (Some (ptable s ! p)) then Inr s
      else kbind (clone_file p np s) (\<lambda>s1.
        let pd = pgdir (ptable s1 ! np)
        in Inr (upd_proc np (\<lambda>q. q\<lparr>ram_manager := map (\<lambda>g. g\<lparr>pg_pgdir := pd\<rparr>) (ram_manager (ptable s1 ! p)),
             file_manager := map (\<lambda>g. g\<lparr>pg_pgdir := pd\<rparr>) (file_manager (ptable s1 ! p))\<rparr>) s1)))"

definition idup_opt :: "nat option \<Rightarrow> 'a kfs_scheme \<Rightarrow> (nat \<times> 'a kfs_scheme) kres" where
  "idup_opt ip s = (case ip of None \<Rightarrow> Inl (Undefined ''idup: null'') | Some i \<Rightarrow> idup i s)"

definition fork :: "'a kfile_scheme \<Rightarrow> (int \<times> 'a kfile_scheme) kres" where
  "fork s =
     kbind (myproc s) (\<lambda>p.
       kbind (allocproc s) (\<lambda>(r, s1).
         case r of
           None \<Rightarrow> Inr (-1, s1)
         | Some np \<Rightarrow>
             kbind (copyuvm (pgdir (ptable s1 ! p)) (sz (ptable s1 ! p)) s1) (\<lambda>(pd, s2).
               if pd = 0 then
                 kbind (kfree (kstack (ptable s2 ! np)) (upd_proc np (\<lambda>q. q\<lparr>pgdir := 0\<rparr>) s2)) (\<lambda>s3.
                   Inr (-1, upd_proc np (\<lambda>q. q\<lparr>kstack := 0, pstate := UNUSED\<rparr>) s3))
               else
                 kbind (fork_pages p np (upd_proc np (\<lambda>q. q\<lparr>pgdir := pd, sz := sz (ptable s2 ! p)\<rparr>) s2)) (\<lambda>s3.
                 kbind (fork_files p np [0..<NOFILE]
                     (upd_proc np (\<lambda>q. q\<lparr>parent := Some p, tf := (tf (ptable s3 ! p))\<lparr>tf_eax := 0\<rparr>\<rparr>) s3)) (\<lambda>s4.
                 kbind (idup_opt (cwd (ptable s4 ! p)) s4) (\<lambda>(d, s5).
                 kbind (acquire_lock PtableLock
                     (upd_proc np (\<lambda>q. q\<lparr>cwd := Some d, pname := take 15 (pname (ptable s5 ! p))\<rparr>) s5)) (\<lambda>s6.
                 kbind (release_lock PtableLock (upd_proc np (\<lambda>q. q\<lparr>pstate := RUNNABLE\<rparr>) s6)) (\<lambda>s7.
                   Inr (pid (ptable s7 ! np), s7)))))))))"

definition forkret :: "'a ksys_scheme \<Rightarrow> 'a ksys_scheme kres" where
  "forkret s =
     kbind (release_lock PtableLock s) (\<lambda>s1.
       if first_fork s1 then kbind (iinit ROOTDEV (s1\<lparr>first_fork := False\<rparr>)) (initlog ROOTDEV) else Inr s1)"

section \<open>Exit, wait and kill\<close>

fun exit_files :: "nat \<Rightarrow> nat list \<Rightarrow> 'a kfile_scheme \<Rightarrow> 'a kfile_scheme kres" where
  "exit_files p [] s = Inr s"
| "exit_files p (fd # fds) s =
     (case ofile (ptable s ! p) ! fd of
        None \<Rightarrow> exit_files p fds s
      | Some f \<Rightarrow>
          kbind (fileclose f s) (\<lambda>s1.
            exit_files p fds (upd_proc p (\<lambda>q. q\<lparr>ofile := (ofile q)[fd := None]\<rparr>) s1)))"

definition proc_chan :: "nat option \<Rightarrow> chan" where
  "proc_chan p = (case p of None \<Rightarrow> NoChan | Some i \<Rightarrow> ProcChan i)"

fun exit_children :: "nat \<Rightarrow> nat list \<Rightarrow> 'a kproc_scheme \<Rightarrow> 'a kproc_scheme" where
  "exit_children p [] s = s"
| "exit_children p (i # is) s =
     (if parent (ptable s ! i) = Some p then
        let s1 = upd_proc i (\<lambda>q. q\<lparr>parent := initproc s\<rparr>) s
        in exit_children p is (if pstate (ptable s1 ! i) = ZOMBIE then wakeup1 (proc_chan (initproc s1)) s1 else s1)
      else exit_children p is s)"

definition exit_swap :: "nat \<Rightarrow> 'a kfile_scheme \<Rightarrow> 'a kfile_scheme kres" where
  "exit_swap p s =
     (if is_shell_or_init (Some (ptable s ! p)) then Inr s
      else kbind (removeSwapFile p s) (\<lambda>(r, s1).
        if r \<noteq> 0 then Inl (Panic ''exit: error deleting swap file'')
        else Inr (upd_proc p removeProcFiles s1)))"

definition exit_proc :: "'a kfile_scheme \<Rightarrow> 'a kfile_scheme kres" where
  "exit_proc s =
     kbind (myproc s) (\<lambda>p.
       if initproc s = Some p then Inl (Panic ''init exiting'')
       else kbind (exit_files p [0..<NOFILE] s) (\<lambda>s1.
         kbind (exit_swap p s1) (\<lambda>s2.
         kbind (begin_op s2) (\<lambda>s3.
         kbind (iput_opt (cwd (ptable s3 ! p)) s3) (\<lambda>s4.
         kbind (end_op s4) (\<lambda>s5.
         kbind (closeprocsocks (Some p) (upd_proc p (\<lambda>q. q\<lparr>cwd := None\<rparr>) s5)) (\<lambda>s6.
         kbind (acquire_lock PtableLock s6) (\<lambda>s7.
           let s8 = exit_children p [0..<NPROC] (wakeup1 (proc_chan (parent (ptable s7 ! p))) s7)
           in sched (upd_proc p (\<lambda>q. q\<lparr>pstate := ZOMBIE\<rparr>) s8)))))))))"

text \<open>A turn of \<open>wait\<close> with the table locked: the code to return, or \<open>None\<close> where it sleeps.\<close>

definition reap :: "nat \<Rightarrow> 'a kvm_scheme \<Rightarrow> (int \<times> 'a kvm_scheme) kres" where
  "reap i s =
     (let n = pid (ptable s ! i)
      in kbind (kfree (kstack (ptable s ! i)) s) (\<lambda>s1.
         kbind (freevm (pgdir (ptable s1 ! i)) (upd_proc i (\<lambda>q. q\<lparr>kstack := 0\<rparr>) s1)) (\<lambda>s2.
         kbind (release_lock PtableLock (upd_proc i (\<lambda>q. q\<lparr>pid := 0,
             ram_manager := map (\<lambda>g. g\<lparr>pg_state := NOT_USED\<rparr>) (ram_manager q),
             file_manager := map (\<lambda>g. g\<lparr>pg_state := NOT_USED\<rparr>) (file_manager q),
             parent := None, pname := [], killed := False, pstate := UNUSED\<rparr>) s2)) (\<lambda>s3. Inr (n, s3)))))"

definition wait_loop :: "'a kvm_scheme \<Rightarrow> (int option \<times> 'a kvm_scheme) kres" where
  "wait_loop s =
     kbind (myproc s) (\<lambda>p.
       case first_index (\<lambda>q. parent q = Some p \<and> pstate q = ZOMBIE) (ptable s) of
         Some i \<Rightarrow> kbind (reap i s) (\<lambda>(n, s1). Inr (Some n, s1))
       | None \<Rightarrow>
           if (\<forall>q \<in> set (ptable s). parent q \<noteq> Some p) \<or> killed (ptable s ! p)
           then kbind (release_lock PtableLock s) (\<lambda>s1. Inr (Some (-1), s1))
           else kbind (sleep_begin (ProcChan p) PtableLock s) (\<lambda>s1. Inr (None, s1)))"

definition wait_begin :: "'a kvm_scheme \<Rightarrow> (int option \<times> 'a kvm_scheme) kres" where
  "wait_begin s = kbind (acquire_lock PtableLock s) wait_loop"

definition wait_resume :: "'a kvm_scheme \<Rightarrow> (int option \<times> 'a kvm_scheme) kres" where
  "wait_resume s = kbind (sleep_end PtableLock s) wait_loop"

definition kill :: "int \<Rightarrow> 'a ksock_scheme \<Rightarrow> (int \<times> 'a ksock_scheme) kres" where
  "kill n s =
     kbind (acquire_lock PtableLock s) (\<lambda>s1.
       case first_index (\<lambda>q. pid q = n) (ptable s1) of
         None \<Rightarrow> kbind (release_lock PtableLock s1) (\<lambda>s2. Inr (-1, s2))
       | Some i \<Rightarrow>
           kbind (closeprocsocks (Some i) (upd_proc i (\<lambda>q. q\<lparr>killed := True\<rparr>) s1)) (\<lambda>s2.
             kbind (release_lock PtableLock (upd_proc i (\<lambda>q. if pstate q = SLEEPING then q\<lparr>pstate := RUNNABLE\<rparr> else q) s2))
               (\<lambda>s3. Inr (0, s3))))"

section \<open>Orphans\<close>

lemma upd_proc_parents [simp]: "initproc (upd_proc i f s) = initproc s" "initproc (wakeup1 c s) = initproc s"
  by (simp_all add: upd_proc_def wakeup1_def)

lemma exit_children_ok:
  assumes "distinct is" "set is \<subseteq> {..<length (ptable s)}"
  shows "length (ptable (exit_children p is s)) = length (ptable s) \<and>
    (\<forall>j < length (ptable s).
      ptable (exit_children p is s) ! j = (ptable s ! j)\<lparr>
        parent := (if j \<in> set is \<and> parent (ptable s ! j) = Some p then initproc s else parent (ptable s ! j)),
        pstate := (if pstate (ptable s ! j) = SLEEPING \<and> pchan (ptable s ! j) = proc_chan (initproc s) \<and>
              (\<exists>i \<in> set is. parent (ptable s ! i) = Some p \<and> pstate (ptable s ! i) = ZOMBIE)
            then RUNNABLE else pstate (ptable s ! j))\<rparr>)"
  using assms
proof (induction "is" arbitrary: s)
  case (Cons i "is")
  show ?case
  proof (cases "parent (ptable s ! i) = Some p")
    case False
    then show ?thesis using Cons.IH [of s] Cons.prems by auto
  next
    case True
    define s1 where "s1 = upd_proc i (\<lambda>q. q\<lparr>parent := initproc s\<rparr>) s"
    define s2 where "s2 = (if pstate (ptable s1 ! i) = ZOMBIE then wakeup1 (proc_chan (initproc s)) s1 else s1)"
    have e: "exit_children p (i # is) s = exit_children p is s2"
      using True by (simp add: s1_def s2_def Let_def)
    have i: "i < length (ptable s)" "i \<notin> set is" using Cons.prems by auto
    have l: "length (ptable s2) = length (ptable s)" "initproc s2 = initproc s"
      by (simp_all add: s2_def s1_def wakeup1_def)
    have t: "ptable s2 ! j = (ptable s ! j)\<lparr>parent := (if j = i then initproc s else parent (ptable s ! j)),
        pstate := (if pstate (ptable s ! j) = SLEEPING \<and> pchan (ptable s ! j) = proc_chan (initproc s) \<and>
            pstate (ptable s ! i) = ZOMBIE then RUNNABLE else pstate (ptable s ! j))\<rparr>" if "j < length (ptable s)" for j
      using that i(1) by (cases "j = i") (auto simp: s2_def s1_def wakeup1_def)
    have z: "(\<exists>k \<in> set is. parent (ptable s2 ! k) = Some p \<and> pstate (ptable s2 ! k) = ZOMBIE) \<longleftrightarrow>
        (\<exists>k \<in> set is. parent (ptable s ! k) = Some p \<and> pstate (ptable s ! k) = ZOMBIE)"
      using Cons.prems i(2) by (intro bex_cong refl) (auto simp: t subset_iff)
    define w where "w \<longleftrightarrow> (\<exists>k \<in> set is. parent (ptable s ! k) = Some p \<and> pstate (ptable s ! k) = ZOMBIE)"
    have "distinct is" "set is \<subseteq> {..<length (ptable s2)}" using Cons.prems l by auto
    note ih = Cons.IH [OF this, unfolded z l, folded w_def]
    have w: "(\<exists>k \<in> set (i # is). parent (ptable s ! k) = Some p \<and> pstate (ptable s ! k) = ZOMBIE) \<longleftrightarrow>
        pstate (ptable s ! i) = ZOMBIE \<or> w" using True by (auto simp: w_def)
    have "ptable (exit_children p is s2) ! j = (ptable s ! j)\<lparr>
        parent := (if j \<in> set (i # is) \<and> parent (ptable s ! j) = Some p then initproc s else parent (ptable s ! j)),
        pstate := (if pstate (ptable s ! j) = SLEEPING \<and> pchan (ptable s ! j) = proc_chan (initproc s) \<and>
            (pstate (ptable s ! i) = ZOMBIE \<or> w) then RUNNABLE else pstate (ptable s ! j))\<rparr>" if j: "j < length (ptable s)" for j
    proof -
      note m = ih [THEN conjunct2, rule_format, OF j] t [OF j]
      show ?thesis
      proof (cases "j = i")
        case True
        then show ?thesis using \<open>parent (ptable s ! i) = Some p\<close> i(2) unfolding m by auto
      next
        case False
        then show ?thesis unfolding m by auto
      qed
    qed
    then show ?thesis unfolding e w using ih by blast
  qed
qed simp

text \<open>
  C33. Orphans: of the whole table, exactly the children of the process that exits become children of the
  first process, and if one of them is already a zombie, the first process is woken where it sleeps in
  \<open>wait\<close>. Nothing else of the table changes.
\<close>

theorem exit_gives_children_to_init:
  assumes "length (ptable s) = NPROC" "j < NPROC"
  shows "ptable (exit_children p [0..<NPROC] s) ! j = (ptable s ! j)\<lparr>
    parent := (if parent (ptable s ! j) = Some p then initproc s else parent (ptable s ! j)),
    pstate := (if pstate (ptable s ! j) = SLEEPING \<and> pchan (ptable s ! j) = proc_chan (initproc s) \<and>
          (\<exists>i < NPROC. parent (ptable s ! i) = Some p \<and> pstate (ptable s ! i) = ZOMBIE)
        then RUNNABLE else pstate (ptable s ! j))\<rparr>"
  using exit_children_ok [of "[0..<NPROC]" s p] assms by (auto simp: atLeast0LessThan)

theorem exit_gives_children_to_init_witness:
  "let s = booted\<lparr>initproc := Some 0, ptable := (ptable booted)[0 := zero_proc\<lparr>pstate := SLEEPING, pchan := ProcChan 0\<rparr>,
     2 := zero_proc\<lparr>parent := Some 1, pstate := ZOMBIE\<rparr>]\<rparr>; s' = exit_children 1 [0..<NPROC] s
   in parent (ptable s' ! 2) = Some 0 \<and> pstate (ptable s' ! 0) = RUNNABLE"
proof -
  define s where "s = booted\<lparr>initproc := Some 0, ptable := (ptable booted)[0 := zero_proc\<lparr>pstate := SLEEPING, pchan := ProcChan 0\<rparr>,
     2 := zero_proc\<lparr>parent := Some 1, pstate := ZOMBIE\<rparr>]\<rparr>"
  have l: "length (ptable s) = NPROC" by (simp add: s_def booted_def sinit_def)
  have t: "ptable s ! 0 = zero_proc\<lparr>pstate := SLEEPING, pchan := ProcChan 0\<rparr>" "initproc s = Some 0"
    "ptable s ! 2 = zero_proc\<lparr>parent := Some 1, pstate := ZOMBIE\<rparr>"
    by (simp_all add: s_def booted_def sinit_def NPROC_def)
  have n: "0 < NPROC" "2 < NPROC" by (simp_all add: NPROC_def)
  have "\<exists>i < NPROC. parent (ptable s ! i) = Some 1 \<and> pstate (ptable s ! i) = ZOMBIE" using n(2) t(3) by (intro exI [of _ 2]) simp
  then show ?thesis unfolding s_def [symmetric] Let_def
    using exit_gives_children_to_init [OF l n(1), of 1] exit_gives_children_to_init [OF l n(2), of 1]
    by (simp add: t proc_chan_def)
qed

section \<open>Killing\<close>

lemma closeprocsocks_locked:
  assumes "PtableLock \<in> held s" "StableLock \<notin> held s"
  shows "closeprocsocks (Some i) s =
    (if \<exists>k \<in> set (stable s). sstate k \<noteq> CLOSED \<and> owner k = Some i then Inl (Panic ''acquire'') else Inr s)"
proof (cases "getprocsock i s")
  case None
  then have "getprocsock i (s\<lparr>held := insert StableLock (held s)\<rparr>) = None" by (simp add: getprocsock_def)
  moreover have "\<not> (\<exists>k \<in> set (stable s). sstate k \<noteq> CLOSED \<and> owner k = Some i)" using None by (auto simp: getprocsock_def)
  ultimately show ?thesis using assms
    by (subst closeprocsocks_def) (simp add: closeprocsocks_loop.simps acquire_lock_def release_lock_def)
next
  case (Some k)
  then have g: "getprocsock i (s\<lparr>held := insert StableLock (held s)\<rparr>) = Some k" by (simp add: getprocsock_def)
  have "\<exists>k \<in> set (stable s). sstate k \<noteq> CLOSED \<and> owner k = Some i"
    using getprocsock_SomeD [OF Some] nth_mem by auto
  then show ?thesis using g assms
    by (simp add: closeprocsocks_def closeprocsocks_loop.simps [of i] acquire_lock_def removesock_def wakeup_def)
qed

text \<open>
  C34. What \<open>kill\<close> comes to, for a caller that holds no lock. A number that no slot of the table has gives
  -1 and changes nothing; otherwise the first slot with the number is marked killed and woken if it
  sleeps, unless the process owns an open socket: then the kernel panics, because the wakeup of
  \<open>closeprocsocks\<close> takes the lock of the process table that \<open>kill\<close> holds.
\<close>

theorem kill_outcome:
  assumes "held s = {}"
  shows "kill n s =
    (case first_index (\<lambda>q. pid q = n) (ptable s) of
       None \<Rightarrow> Inr (-1, s)
     | Some i \<Rightarrow>
         if \<exists>k \<in> set (stable s). sstate k \<noteq> CLOSED \<and> owner k = Some i then Inl (Panic ''acquire'')
         else Inr (0, upd_proc i (\<lambda>q. q\<lparr>killed := True,
           pstate := (if pstate q = SLEEPING then RUNNABLE else pstate q)\<rparr>) s))"
proof (cases "first_index (\<lambda>q. pid q = n) (ptable s)")
  case None
  then show ?thesis using assms by (simp add: kill_def acquire_lock_def release_lock_def del: first_index_None)
next
  case (Some i)
  let ?s = "upd_proc i (\<lambda>q. q\<lparr>killed := True\<rparr>) (s\<lparr>held := {PtableLock}\<rparr>)"
  have i: "i < length (ptable s)" using Some by (rule first_index_less)
  have "PtableLock \<in> held ?s" "StableLock \<notin> held ?s" "stable ?s = stable s" by (simp_all add: upd_proc_def)
  note c = closeprocsocks_locked [OF this(1,2), unfolded this(3), of i]
  show ?thesis using Some assms i c
    by (auto simp: kill_def acquire_lock_def release_lock_def upd_proc_def)
qed

theorem kill_outcome_witness:
  "let s = listening\<lparr>ptable := (ptable listening)[1 := zero_proc\<lparr>pid := 3\<rparr>]\<rparr>
   in kill 3 s = Inl (Panic ''acquire'') \<and> kill 4 s = Inr (-1, s)"
proof -
  define s where "s = listening\<lparr>ptable := (ptable listening)[1 := zero_proc\<lparr>pid := 3\<rparr>]\<rparr>"
  have t: "ptable s = (replicate NPROC zero_proc)[1 := zero_proc\<lparr>pid := 3\<rparr>]"
    and k: "stable s ! 0 = zero_sock\<lparr>sstate := LISTENING, owner := Some 1, lPort := 5, rPort := -1\<rparr>" "0 < length (stable s)" "held s = {}"
    by (simp_all add: s_def listening_def booted_def sinit_def NSOCK_def)
  have "first_index (\<lambda>q. pid q = 3) (ptable s) = Some 1"
    unfolding t by (simp add: first_index_eq_Some NPROC_def zero_proc_def)
  moreover have "first_index (\<lambda>q. pid q = 4) (ptable s) = None"
    unfolding t by (auto simp: NPROC_def zero_proc_def in_set_conv_nth nth_list_update split: if_splits)
  moreover have "\<exists>k \<in> set (stable s). sstate k \<noteq> CLOSED \<and> owner k = Some 1"
    using nth_mem [OF k(2)] unfolding k(1) by (rule bexI [rotated]) simp
  ultimately show ?thesis unfolding s_def [symmetric] Let_def by (simp add: kill_outcome [OF k(3)] del: first_index_None)
qed

end
