(* ===== verification/Exec.thy ===== *)
theory Exec
  imports Fork
begin

text \<open>
  Loading programs: \<^verbatim>\<open>exec.c\<close>, \<^verbatim>\<open>loaduvm\<close> of \<^verbatim>\<open>vm.c\<close> and the argument vector of \<^verbatim>\<open>sys_exec\<close>. The
  fields of \<^verbatim>\<open>elf.h\<close> are read at their offsets. The arguments are the byte strings before their
  terminators.
\<close>

definition ELF_MAGIC :: uint where "ELF_MAGIC = 0x464C457F"
definition ELF_PROG_LOAD :: uint where "ELF_PROG_LOAD = 1"
definition ELFSIZE :: nat where "ELFSIZE = 52"
definition PHSIZE :: nat where "PHSIZE = 32"
definition MAXARG :: nat where "MAXARG = 32"

record elfhdr =
  e_magic :: uint
  e_entry :: uint
  e_phoff :: uint
  e_phnum :: ushort

record proghdr =
  ph_type :: uint
  ph_off :: uint
  ph_vaddr :: uint
  ph_filesz :: uint
  ph_memsz :: uint

definition elf_of :: "uchar list \<Rightarrow> elfhdr" where
  "elf_of d = \<lparr>e_magic = get32 d 0, e_entry = get32 d 24, e_phoff = get32 d 28, e_phnum = get16 d 44\<rparr>"

definition ph_of :: "uchar list \<Rightarrow> proghdr" where
  "ph_of d = \<lparr>ph_type = get32 d 0, ph_off = get32 d 4, ph_vaddr = get32 d 8, ph_filesz = get32 d 16, ph_memsz = get32 d 20\<rparr>"

section \<open>Loading a segment\<close>

text \<open>The offset in the segment stays below \<open>KERNBASE\<close>: \<open>allocuvm\<close> has made room for the segment.\<close>

function loaduvm_loop :: "uint \<Rightarrow> uint \<Rightarrow> nat \<Rightarrow> uint \<Rightarrow> nat \<Rightarrow> nat \<Rightarrow> 'a kfs_scheme \<Rightarrow> (int \<times> 'a kfs_scheme) kres" where
  "loaduvm_loop pd addr ip offset len i s =
     (if i < len then
        kbind (walkpgdir pd (addr + of_nat i) False s) (\<lambda>(pte, s1).
          if pte = 0 then Inl (Panic ''loaduvm: address should exist'')
          else let pa = PTE_ADDR (peek s1 pte); n = min (len - i) 4096
            in kbind (readi ip (offset + of_nat i) (of_nat n) s1) (\<lambda>(r, bs, s2).
                 let s3 = s2\<lparr>mem := mem_write (mem s2) (P2V pa) bs\<rparr>
                 in if r \<noteq> int n then Inr (-1, s3) else loaduvm_loop pd addr ip offset len (i + 4096) s3))
      else Inr (0, s))"
  by pat_completeness auto
termination by (relation "measure (\<lambda>(_, _, _, _, len, i, _). len - i)") auto

declare loaduvm_loop.simps [simp del]

definition loaduvm :: "uint \<Rightarrow> uint \<Rightarrow> nat \<Rightarrow> uint \<Rightarrow> uint \<Rightarrow> 'a kfs_scheme \<Rightarrow> (int \<times> 'a kfs_scheme) kres" where
  "loaduvm pd addr ip offset len s =
     (if addr mod PGSIZE \<noteq> 0 then Inl (Panic ''loaduvm: addr must be page aligned'')
      else loaduvm_loop pd addr ip offset (unat len) 0 s)"

section \<open>The program image\<close>

text \<open>One program header: the new size of the image, \<open>None\<close> where \<open>exec\<close> gives up.\<close>

definition exec_segment :: "uint \<Rightarrow> nat \<Rightarrow> uint \<Rightarrow> uint \<Rightarrow> 'a kfs_scheme \<Rightarrow> (uint option \<times> 'a kfs_scheme) kres" where
  "exec_segment pd ip off z0 s =
     kbind (readi ip off (of_nat PHSIZE) s) (\<lambda>(r, d, s1).
       if r \<noteq> int PHSIZE then Inr (None, s1)
       else let ph = ph_of d
         in if ph_type ph \<noteq> ELF_PROG_LOAD then Inr (Some z0, s1)
            else if ph_memsz ph < ph_filesz ph then Inr (None, s1)
            else if ph_vaddr ph + ph_memsz ph < ph_vaddr ph then Inr (None, s1)
            else kbind (allocuvm pd z0 (ph_vaddr ph + ph_memsz ph) s1) (\<lambda>(z, s2).
              if z = 0 then Inr (None, s2)
              else if ph_vaddr ph mod PGSIZE \<noteq> 0 then Inr (None, s2)
              else kbind (loaduvm pd (ph_vaddr ph) ip (ph_off ph) (ph_filesz ph) s2) (\<lambda>(w, s3).
                if w < 0 then Inr (None, s3) else Inr (Some z, s3))))"

fun exec_load :: "nat \<Rightarrow> uint \<Rightarrow> nat \<Rightarrow> uint \<Rightarrow> uint \<Rightarrow> 'a kfs_scheme \<Rightarrow> (uint option \<times> 'a kfs_scheme) kres" where
  "exec_load 0 pd ip off z0 s = Inr (Some z0, s)"
| "exec_load (Suc n) pd ip off z0 s =
     kbind (exec_segment pd ip off z0 s) (\<lambda>(r, s1).
       case r of None \<Rightarrow> Inr (None, s1) | Some z \<Rightarrow> exec_load n pd ip (off + of_nat PHSIZE) z s1)"

text \<open>The strings of the arguments, pushed one below the other; the addresses go into \<^verbatim>\<open>ustack\<close>.\<close>

fun exec_args :: "uint \<Rightarrow> nat \<Rightarrow> uchar list list \<Rightarrow> uint \<Rightarrow> uint list \<Rightarrow> 'a kmem_scheme \<Rightarrow>
    ((uint \<times> uint list) option \<times> 'a kmem_scheme) kres" where
  "exec_args pd argc [] sp us s = Inr (Some (sp, us), s)"
| "exec_args pd argc (a # as) sp us s =
     (if argc \<ge> MAXARG then Inr (None, s)
      else let sp1 = (sp - (of_nat (length a) + 1)) AND NOT 3
        in kbind (copyout pd sp1 (a @ [0]) s) (\<lambda>(r, s1).
             if r < 0 then Inr (None, s1) else exec_args pd (argc + 1) as sp1 (us @ [sp1]) s1))"

definition exec_stack :: "uint \<Rightarrow> uint \<Rightarrow> uint list \<Rightarrow> uint list" where
  "exec_stack sp argc us = [0xFFFFFFFF, argc, sp - (argc + 1) * 4] @ us @ [0]"

definition words_bytes :: "uint list \<Rightarrow> uchar list" where
  "words_bytes ws = put_words (replicate (4 * length ws) 0) 0 ws"

definition last_elem :: "uchar list \<Rightarrow> uchar list" where
  "last_elem path = foldl (\<lambda>l c. if c = slash then [] else l @ [c]) [] path"

definition exec_bad :: "uint \<Rightarrow> nat option \<Rightarrow> 'a kfs_scheme \<Rightarrow> (int \<times> 'a kfs_scheme) kres" where
  "exec_bad pd ip s =
     kbind (if pd \<noteq> 0 then freevm pd s else Inr s) (\<lambda>s1.
       case ip of None \<Rightarrow> Inr (-1, s1) | Some i \<Rightarrow> kbind (iunlockput i s1) (fail_op (-1)))"

text \<open>After the image is loaded: the stack, the arguments and the switch to the new address space.\<close>

definition exec_commit :: "nat \<Rightarrow> uint \<Rightarrow> uint \<Rightarrow> uint \<Rightarrow> uint \<Rightarrow> uchar list \<Rightarrow> 'a kfs_scheme \<Rightarrow> (int \<times> 'a kfs_scheme) kres" where
  "exec_commit p pd z0 entry sp path s =
     (let oldpgdir = pgdir (ptable s ! p)
      in kbind (switchuvm (Some p) (upd_proc p (\<lambda>q. q\<lparr>pname := map (\<lambda>b. char_of (unat b)) (take 15 (last_elem path)),
           pgdir := pd, sz := z0, tf := (tf q)\<lparr>tf_eip := entry, tf_esp := sp\<rparr>\<rparr>) s)) (\<lambda>s1.
           kbind (freevm oldpgdir s1) (\<lambda>s2. Inr (0, s2))))"

definition exec_image :: "nat \<Rightarrow> uint \<Rightarrow> uint \<Rightarrow> uint \<Rightarrow> uchar list \<Rightarrow> uchar list list \<Rightarrow> 'a kfs_scheme \<Rightarrow> (int \<times> 'a kfs_scheme) kres" where
  "exec_image p pd z0 entry path argv s =
     kbind (allocuvm pd (PGROUNDUP z0) (PGROUNDUP z0 + 2 * PGSIZE) s) (\<lambda>(z, s1).
       if z = 0 then exec_bad pd None s1
       else kbind (clearpteu pd (z - 2 * PGSIZE) s1) (\<lambda>s2.
         kbind (exec_args pd 0 argv z [] s2) (\<lambda>(r, s3).
           case r of
             None \<Rightarrow> exec_bad pd None s3
           | Some (sp, us) \<Rightarrow>
               let argc = of_nat (length argv); ustack = exec_stack sp argc us; sp1 = sp - (3 + argc + 1) * 4
               in kbind (copyout pd sp1 (words_bytes ustack) s3) (\<lambda>(w, s4).
                    if w < 0 then exec_bad pd None s4 else exec_commit p pd z entry sp1 path s4))))"

definition exec :: "uchar list \<Rightarrow> uchar list list \<Rightarrow> 'a kfs_scheme \<Rightarrow> (int \<times> 'a kfs_scheme) kres" where
  "exec path argv s =
     kbind (myproc s) (\<lambda>p.
       kbind (begin_op s) (\<lambda>s1.
         kbind (namei path s1) (\<lambda>(r, s2).
           case r of
             None \<Rightarrow> kbind (end_op s2) (\<lambda>s3. kbind (cprintf (Some (cbytes ''exec: fail\<newline>'')) [] s3) (\<lambda>s4. Inr (-1, s4)))
           | Some ip \<Rightarrow>
               kbind (ilock ip s2) (\<lambda>s3.
                 kbind (readi ip 0 (of_nat ELFSIZE) s3) (\<lambda>(n, d, s4).
                   if n \<noteq> int ELFSIZE \<or> e_magic (elf_of d) \<noteq> ELF_MAGIC then exec_bad 0 (Some ip) s4
                   else kbind (setupkvm s4) (\<lambda>(pd, s5).
                     if pd = 0 then exec_bad 0 (Some ip) s5
                     else kbind (exec_load (unat (e_phnum (elf_of d))) pd ip (e_phoff (elf_of d)) 0 s5) (\<lambda>(z, s6).
                       case z of
                         None \<Rightarrow> exec_bad pd (Some ip) s6
                       | Some z0 \<Rightarrow>
                           kbind (iunlockput ip s6) (\<lambda>s7.
                             kbind (end_op s7) (exec_image p pd z0 (e_entry (elf_of d)) path argv)))))))))"

section \<open>The argument vector\<close>

fun exec_argv :: "nat \<Rightarrow> uint \<Rightarrow> nat \<Rightarrow> 'a kvm_scheme \<Rightarrow> uchar list list option kres" where
  "exec_argv 0 uargv i s = Inr None"
| "exec_argv (Suc n) uargv i s =
     obind (fetchint (uargv + 4 * of_nat i) s) None (\<lambda>uarg.
       if uarg = 0 then Inr (Some [])
       else obind (fetchstr uarg s) None (\<lambda>a. obind (exec_argv n uargv (i + 1) s) None (\<lambda>as. Inr (Some (a # as)))))"

definition sys_exec :: "'a kfs_scheme \<Rightarrow> (int \<times> 'a kfs_scheme) kres" where
  "sys_exec s =
     obind (argstr 0 s) (-1, s) (\<lambda>path.
       obind (argint 1 s) (-1, s) (\<lambda>uargv.
         obind (exec_argv MAXARG uargv 0 s) (-1, s) (\<lambda>argv. exec path argv s)))"

end
