(* ===== verification/Syscall.thy ===== *)
theory Syscall
  imports Exec
begin

text \<open>
  The process and socket calls (\<^verbatim>\<open>sysproc.c\<close>, \<^verbatim>\<open>syssock.c\<close>), the dispatcher of \<^verbatim>\<open>syscall.c\<close> and the
  trap handler of \<^verbatim>\<open>trap.c\<close>. A call comes to a code, to the end of the process, or to a sleep. What the
  hardware gives a trap (the CPU, the faulting address, the characters typed) is an argument; the disk
  interrupt does nothing, as in \<^verbatim>\<open>memide.c\<close>. Call stacks in the process listing are an argument too.
\<close>

section \<open>Process calls\<close>

datatype sys_out = SysRet int | SysExits | SysSleeps

definition sysret :: "(int \<times> 's) kres \<Rightarrow> (sys_out \<times> 's) kres" where
  "sysret m = kbind m (\<lambda>(r, s). Inr (SysRet r, s))"

definition sys_fork :: "'a kfile_scheme \<Rightarrow> (sys_out \<times> 'a kfile_scheme) kres" where
  "sys_fork s = sysret (fork s)"

definition sys_exit :: "'a kfile_scheme \<Rightarrow> (sys_out \<times> 'a kfile_scheme) kres" where
  "sys_exit s = kbind (exit_proc s) (\<lambda>s1. Inr (SysExits, s1))"

definition sys_wait :: "'a kvm_scheme \<Rightarrow> (sys_out \<times> 'a kvm_scheme) kres" where
  "sys_wait s = kbind (wait_begin s) (\<lambda>(r, s1). case r of None \<Rightarrow> Inr (SysSleeps, s1) | Some n \<Rightarrow> Inr (SysRet n, s1))"

definition sys_kill :: "'a kvm_scheme \<Rightarrow> (int \<times> 'a kvm_scheme) kres" where
  "sys_kill s = obind (argint 0 s) (-1, s) (\<lambda>n. kill (sint n) s)"

definition sys_getpid :: "'a kvm_scheme \<Rightarrow> (int \<times> 'a kvm_scheme) kres" where
  "sys_getpid s = kbind (myproc s) (\<lambda>p. Inr (pid (ptable s ! p), s))"

definition sys_sbrk :: "'a kvm_scheme \<Rightarrow> (int \<times> 'a kvm_scheme) kres" where
  "sys_sbrk s =
     obind (argint 0 s) (-1, s) (\<lambda>n.
       kbind (myproc s) (\<lambda>p.
         let addr = sint (sz (ptable s ! p))
         in kbind (growproc (sint n) s) (\<lambda>(r, s1). if r < 0 then Inr (-1, s1) else Inr (addr, s1))))"

text \<open>The loop of \<open>sys_sleep\<close> with the tick lock held; the comparison is unsigned.\<close>

definition sleep_loop :: "uint \<Rightarrow> uint \<Rightarrow> 'a ksys_scheme \<Rightarrow> (sys_out \<times> 'a ksys_scheme) kres" where
  "sleep_loop ticks0 n s =
     (if ticks s - ticks0 < n then
        kbind (myproc s) (\<lambda>p.
          if killed (ptable s ! p) then kbind (release_lock TicksLock s) (\<lambda>s1. Inr (SysRet (-1), s1))
          else kbind (sleep_begin TicksChan TicksLock s) (\<lambda>s1. Inr (SysSleeps, s1)))
      else kbind (release_lock TicksLock s) (\<lambda>s1. Inr (SysRet 0, s1)))"

definition sys_sleep :: "'a ksys_scheme \<Rightarrow> (sys_out \<times> 'a ksys_scheme) kres" where
  "sys_sleep s =
     obind (argint 0 s) (SysRet (-1), s) (\<lambda>n.
       kbind (acquire_lock TicksLock s) (\<lambda>s1. sleep_loop (ticks s1) n s1))"

definition sys_sleep_resume :: "uint \<Rightarrow> uint \<Rightarrow> 'a ksys_scheme \<Rightarrow> (sys_out \<times> 'a ksys_scheme) kres" where
  "sys_sleep_resume ticks0 n s = kbind (sleep_end TicksLock s) (sleep_loop ticks0 n)"

definition sys_uptime :: "'a ksys_scheme \<Rightarrow> (int \<times> 'a ksys_scheme) kres" where
  "sys_uptime s =
     kbind (acquire_lock TicksLock s) (\<lambda>s1.
       let xticks = ticks s1 in kbind (release_lock TicksLock s1) (\<lambda>s2. Inr (sint xticks, s2)))"

definition sys_subangkar_shanto :: "'a kcons_scheme \<Rightarrow> (int \<times> 'a kcons_scheme) kres" where
  "sys_subangkar_shanto s =
     kbind (cprintf (Some (cbytes ''Subangkar Karmaker Shanto 23-04-1997\<newline>'')) [] s) (\<lambda>s1. Inr (1505015, s1))"

definition sys_getpages :: "'a kcons_scheme \<Rightarrow> (int \<times> 'a kcons_scheme) kres" where
  "sys_getpages s =
     kbind (myproc s) (\<lambda>p.
       kbind (cprintf (Some (cbytes '' #Pages in RAM : %d\<newline>'')) [page_mem_count (ptable s ! p)] s) (\<lambda>s1.
       kbind (cprintf (Some (cbytes '' #Pages in DISK: %d\<newline>'')) [paged_out_count (ptable s1 ! p)] s1) (\<lambda>s2.
       kbind (cprintf (Some (cbytes '' #Page Faults  : %d\<newline>'')) [page_fault_count (ptable s2 ! p)] s2) (\<lambda>s3.
         Inr (sint (PGROUNDUP (sz (ptable s3 ! p)) div 4096), s3)))))"

section \<open>Socket calls\<close>

text \<open>A socket call returns its code, with the bytes it wrote at the caller's buffer, or sleeps.\<close>

definition sockret :: "uint \<Rightarrow> (sock_out \<times> 'a kvm_scheme) kres \<Rightarrow> (sys_out \<times> 'a kvm_scheme) kres" where
  "sockret buf m =
     kbind m (\<lambda>(r, s).
       case r of Return c bs \<Rightarrow> kbind (put_user buf bs s) (\<lambda>s1. Inr (SysRet c, s1)) | Sleeps _ \<Rightarrow> Inr (SysSleeps, s))"

definition sys_listen :: "'a kvm_scheme \<Rightarrow> (sys_out \<times> 'a kvm_scheme) kres" where
  "sys_listen s = obind (argint 0 s) (SysRet E_MISSING_ARG, s) (\<lambda>port. sockret 0 (listen (sint port) s))"

definition sys_connect :: "'a kvm_scheme \<Rightarrow> (sys_out \<times> 'a kvm_scheme) kres" where
  "sys_connect s =
     obind (argint 0 s) (SysRet E_MISSING_ARG, s) (\<lambda>port.
       obind (argstr 1 s) (SysRet E_MISSING_ARG, s) (\<lambda>host. sockret 0 (connect (sint port) host s)))"

text \<open>The count comes from argument 0, the port, as the code has it.\<close>

definition sys_send :: "'a kvm_scheme \<Rightarrow> (sys_out \<times> 'a kvm_scheme) kres" where
  "sys_send s =
     obind (argint 0 s) (SysRet E_MISSING_ARG, s) (\<lambda>port.
       obind (argstr 1 s) (SysRet E_MISSING_ARG, s) (\<lambda>buf.
         obind (argint 0 s) (SysRet E_MISSING_ARG, s) (\<lambda>n. sockret 0 (send (sint port) buf (sint n) s))))"

definition sys_recv :: "'a kvm_scheme \<Rightarrow> (sys_out \<times> 'a kvm_scheme) kres" where
  "sys_recv s =
     obind (argint 0 s) (SysRet E_MISSING_ARG, s) (\<lambda>port.
       obind (argptr 1 4 s) (SysRet E_MISSING_ARG, s) (\<lambda>buf.
         obind (argint 2 s) (SysRet E_MISSING_ARG, s) (\<lambda>n. sockret buf (recv (sint port) (sint n) s))))"

definition sys_disconnect :: "'a kvm_scheme \<Rightarrow> (sys_out \<times> 'a kvm_scheme) kres" where
  "sys_disconnect s = obind (argint 0 s) (SysRet E_MISSING_ARG, s) (\<lambda>port. sockret 0 (disconnect (sint port) s))"

section \<open>Dispatch\<close>

text \<open>The table of handlers: \<open>None\<close> for a number that has none.\<close>

definition syscalls :: "int \<Rightarrow> ('a ksys_scheme \<Rightarrow> (sys_out \<times> 'a ksys_scheme) kres) option" where
  "syscalls num =
     (if num = 1 then Some sys_fork else if num = 2 then Some sys_exit else if num = 3 then Some sys_wait
      else if num = 4 then Some (\<lambda>s. sysret (sys_pipe s)) else if num = 5 then Some (\<lambda>s. sysret (sys_read s))
      else if num = 6 then Some (\<lambda>s. sysret (sys_kill s)) else if num = 7 then Some (\<lambda>s. sysret (sys_exec s))
      else if num = 8 then Some (\<lambda>s. sysret (sys_fstat s)) else if num = 9 then Some (\<lambda>s. sysret (sys_chdir s))
      else if num = 10 then Some (\<lambda>s. sysret (sys_dup s)) else if num = 11 then Some (\<lambda>s. sysret (sys_getpid s))
      else if num = 12 then Some (\<lambda>s. sysret (sys_sbrk s)) else if num = 13 then Some sys_sleep
      else if num = 14 then Some (\<lambda>s. sysret (sys_uptime s)) else if num = 15 then Some (\<lambda>s. sysret (sys_open s))
      else if num = 16 then Some (\<lambda>s. sysret (sys_write s)) else if num = 17 then Some (\<lambda>s. sysret (sys_mknod s))
      else if num = 18 then Some (\<lambda>s. sysret (sys_unlink s)) else if num = 19 then Some (\<lambda>s. sysret (sys_link s))
      else if num = 20 then Some (\<lambda>s. sysret (sys_mkdir s)) else if num = 21 then Some (\<lambda>s. sysret (sys_close s))
      else if num = 22 then Some sys_listen else if num = 23 then Some sys_connect else if num = 24 then Some sys_send
      else if num = 25 then Some sys_recv else if num = 26 then Some sys_disconnect
      else if num = 27 then Some (\<lambda>s. sysret (sys_subangkar_shanto s))
      else if num = 28 then Some (\<lambda>s. sysret (sys_getpages s)) else None)"

text \<open>Text that stands for itself in a format string.\<close>

definition escaped :: "uchar list \<Rightarrow> uchar list" where
  "escaped bs = concat (map (\<lambda>b. if b = 37 then [37, 37] else [b]) bs)"

definition set_eax :: "nat \<Rightarrow> int \<Rightarrow> 'a kproc_scheme \<Rightarrow> 'a kproc_scheme" where
  "set_eax p r s = upd_proc p (\<lambda>q. q\<lparr>tf := (tf q)\<lparr>tf_eax := of_int r\<rparr>\<rparr>) s"

definition syscall :: "'a ksys_scheme \<Rightarrow> (sys_out \<times> 'a ksys_scheme) kres" where
  "syscall s =
     kbind (myproc s) (\<lambda>p.
       let num = sint (tf_eax (tf (ptable s ! p)))
       in case syscalls num of
            Some h \<Rightarrow>
              kbind (h s) (\<lambda>(r, s1).
                case r of SysRet v \<Rightarrow> Inr (r, set_eax p v s1) | SysExits \<Rightarrow> Inr (r, s1) | SysSleeps \<Rightarrow> Inr (r, s1))
          | None \<Rightarrow>
              kbind (cprintf (Some (cbytes ''%d '' @ escaped (cbytes (pname (ptable s ! p))) @ cbytes '': unknown sys call %d\<newline>''))
                  [of_int (pid (ptable s ! p)), of_int num] s) (\<lambda>s1. Inr (SysRet (-1), set_eax p (-1) s1)))"

section \<open>The process listing\<close>

definition state_name :: "procstate \<Rightarrow> string" where
  "state_name st = (case st of UNUSED \<Rightarrow> ''unused'' | EMBRYO \<Rightarrow> ''embryo'' | SLEEPING \<Rightarrow> ''sleep '' | RUNNABLE \<Rightarrow> ''runble''
     | RUNNING \<Rightarrow> ''run   '' | ZOMBIE \<Rightarrow> ''zombie'')"

fun dump_pcs :: "uint list \<Rightarrow> 'a kcons_scheme \<Rightarrow> 'a kcons_scheme kres" where
  "dump_pcs [] s = Inr s"
| "dump_pcs (ra # callers) s = (if ra = 0 then Inr s else kbind (cprintf (Some (cbytes '' %p'')) [ra] s) (dump_pcs callers))"

definition dump_proc :: "uint list \<Rightarrow> proc \<Rightarrow> 'a kcons_scheme \<Rightarrow> 'a kcons_scheme kres" where
  "dump_proc callers p s =
     (if pstate p = UNUSED then Inr s
      else kbind (cprintf (Some (cbytes ''%d '' @ cbytes (state_name (pstate p)) @ cbytes '' %d %d %d %d '' @ escaped (cbytes (pname p))))
          [of_int (pid p), PGROUNDUP (sz p) div PGSIZE, of_nat (getNumOfPagesInFile p), page_fault_count p, paged_out_count p] s) (\<lambda>s1.
        kbind (if pstate p = SLEEPING then dump_pcs (take 10 callers) s1 else Inr s1) (cprintf (Some [10]) [])))"

fun dump_procs :: "(nat \<Rightarrow> uint list) \<Rightarrow> nat list \<Rightarrow> 'a kcons_scheme \<Rightarrow> 'a kcons_scheme kres" where
  "dump_procs stack [] s = Inr s"
| "dump_procs stack (i # is) s = kbind (dump_proc (stack i) (ptable s ! i) s) (dump_procs stack is)"

definition procdump :: "(nat \<Rightarrow> uint list) \<Rightarrow> 'a kcons_scheme \<Rightarrow> 'a kcons_scheme kres" where
  "procdump stack s =
     kbind (dump_procs stack [0..<NPROC] s) (\<lambda>s1.
       let free = of_int (getFreePages s1); total = getTotalPages s1
       in kbind (cprintf (Some (cbytes ''Used pages in the system: %d\<newline>'')) [total - free] s1) (\<lambda>s2.
          kbind (cprintf (Some (cbytes ''Free pages in the system: %d/%d'')) [free, total] s2) (cprintf (Some [10]) [])))"

section \<open>Traps\<close>

definition T_SYSCALL :: uint where "T_SYSCALL = 64"
definition T_IRQ0 :: uint where "T_IRQ0 = 32"

record trap_in =
  cpuid :: nat
  cr2 :: uint
  chars :: "int list"
  stacks :: "nat \<Rightarrow> uint list"

datatype trap_out = TReturns | TExits | TSleeps | TYields

definition trap_exit :: "'a kfile_scheme \<Rightarrow> (trap_out \<times> 'a kfile_scheme) kres" where
  "trap_exit s = kbind (exit_proc s) (\<lambda>s1. Inr (TExits, s1))"

definition trap_syscall :: "trapframe \<Rightarrow> 'a ksys_scheme \<Rightarrow> (trap_out \<times> 'a ksys_scheme) kres" where
  "trap_syscall f s =
     kbind (myproc s) (\<lambda>p.
       if killed (ptable s ! p) then trap_exit s
       else kbind (syscall (upd_proc p (\<lambda>q. q\<lparr>tf := f\<rparr>) s)) (\<lambda>(r, s1).
         case r of
           SysExits \<Rightarrow> Inr (TExits, s1)
         | SysSleeps \<Rightarrow> Inr (TSleeps, s1)
         | SysRet _ \<Rightarrow> if killed (ptable s1 ! p) then trap_exit s1 else Inr (TReturns, s1)))"

definition trap_chars :: "trap_in \<Rightarrow> 'a kcons_scheme \<Rightarrow> 'a kcons_scheme kres" where
  "trap_chars h s = kbind (consoleintr (chars h) s) (\<lambda>(dump, s1). if dump then procdump (stacks h) s1 else Inr s1)"

definition trap_timer :: "trap_in \<Rightarrow> 'a ksys_scheme \<Rightarrow> 'a ksys_scheme kres" where
  "trap_timer h s =
     (if cpuid h = 0 then
        kbind (acquire_lock TicksLock s) (\<lambda>s1.
          kbind (wakeup TicksChan (s1\<lparr>ticks := ticks s1 + 1\<rparr>)) (release_lock TicksLock))
      else Inr s)"

definition trap_default :: "trapframe \<Rightarrow> trap_in \<Rightarrow> 'a kcons_scheme \<Rightarrow> 'a kcons_scheme kres" where
  "trap_default f h s =
     (if trap_unexpected f s then Inl (Panic ''trap'')
      else kbind (myproc s) (\<lambda>p.
          kbind (cprintf (Some (cbytes ''pid %d '' @ escaped (cbytes (pname (ptable s ! p))) @
                 cbytes '': trap %d err %d on cpu %d eip 0x%x addr 0x%x--kill proc\<newline>''))
               [of_int (pid (ptable s ! p)), tf_trapno f, tf_err f, of_nat (cpuid h), tf_eip f, cr2 h] s) (\<lambda>s1.
            Inr (upd_proc p (\<lambda>q. q\<lparr>killed := True\<rparr>) s1))))"

definition trap_switch :: "trapframe \<Rightarrow> trap_in \<Rightarrow> 'a ksys_scheme \<Rightarrow> 'a ksys_scheme kres" where
  "trap_switch f h s =
     (let no = tf_trapno f
      in if no = T_IRQ0 then trap_timer h s
         else if no = T_IRQ0 + 14 \<or> no = T_IRQ0 + 15 then Inr s
         else if no = T_IRQ0 + 1 \<or> no = T_IRQ0 + 4 then trap_chars h s
         else if no = T_IRQ0 + 7 \<or> no = T_IRQ0 + 31 then
           cprintf (Some (cbytes ''cpu%d: spurious interrupt at %x:%x\<newline>'')) [of_nat (cpuid h), ucast (tf_cs f), tf_eip f] s
         else if no = T_PGFLT then
           kbind (trap_pgflt f (cr2 h) s) (\<lambda>(soft, s1). if soft then Inr s1 else trap_default f h s1)
         else trap_default f h s)"

definition killed_in_user :: "trapframe \<Rightarrow> 'a kproc_scheme \<Rightarrow> bool" where
  "killed_in_user f s = (case curproc s of None \<Rightarrow> False | Some p \<Rightarrow> killed (ptable s ! p) \<and> from_user f)"

definition trap :: "trapframe \<Rightarrow> trap_in \<Rightarrow> 'a ksys_scheme \<Rightarrow> (trap_out \<times> 'a ksys_scheme) kres" where
  "trap f h s =
     (if tf_trapno f = T_SYSCALL then trap_syscall f s
      else kbind (trap_switch f h s) (\<lambda>s1.
        if killed_in_user f s1 then trap_exit s1
        else case curproc s1 of
          None \<Rightarrow> Inr (TReturns, s1)
        | Some p \<Rightarrow>
            if pstate (ptable s1 ! p) = RUNNING \<and> tf_trapno f = T_IRQ0
            then kbind (yield_begin s1) (\<lambda>s2. Inr (TYields, s2))
            else Inr (TReturns, s1)))"

definition trap_resume :: "trapframe \<Rightarrow> 'a ksys_scheme \<Rightarrow> (trap_out \<times> 'a ksys_scheme) kres" where
  "trap_resume f s =
     kbind (yield_end s) (\<lambda>s1. if killed_in_user f s1 then trap_exit s1 else Inr (TReturns, s1))"

section \<open>Arguments in swapped-out pages\<close>

lemma argstr_swapped_out:
  assumes "curproc s = Some p" "argint n s = Inr (Some a)" "a < sz (ptable s ! p)" "a < KERNBASE"
    "pte_of (P2V (cr3 s)) a s = pte_out e"
  shows "argstr n s = Inl (Panic ''trap'')"
proof -
  have "pte_out e AND PTE_P = 0" using and_bit_0(1) [of "pte_out e"] by (simp add: pte_out_bits)
  then have b: "user_byte a s = Inl (Panic ''trap'')"
    using assms(4,5) by (simp add: user_byte_eq user_ka_def Let_def)
  have "0 < unat (sz (ptable s ! p)) - unat a" using assms(3) by (simp add: word_less_nat_alt)
  then obtain k where k: "unat (sz (ptable s ! p)) - unat a = Suc k" by (cases "unat (sz (ptable s ! p)) - unat a") auto
  have "fetchstr a s = Inl (Panic ''trap'')" using assms(1,3) b unfolding fetchstr_def myproc_def
    by (simp add: Let_def k not_le [symmetric])
  then show ?thesis using assms(2) by (simp add: argstr_def)
qed

text \<open>
  The trap that a fault of the kernel raises, in full: what theory Fault says of the handler, and then a
  return to the instruction that faulted.
\<close>

lemma trap_kernel_fault:
  "trap kernel_frame h s = kbind (kernel_fault (cr2 h) s) (\<lambda>s1. Inr (TReturns, s1))"
proof -
  have d: "trap_default kernel_frame h = (\<lambda>t. if trap_unexpected kernel_frame t then Inl (Panic ''trap'')
      else Inl (Undefined ''kernel_fault: the frame is from user mode''))"
    using kernel_frame_mode(2) by (auto simp: trap_default_def trap_unexpected_def)
  have "trap_switch kernel_frame h s = kernel_fault (cr2 h) s"
    unfolding trap_switch_def kernel_fault_def d kernel_frame_mode(3) by (simp add: T_PGFLT_def T_IRQ0_def)
  then show ?thesis using kernel_frame_mode(3)
    by (simp add: trap_def T_PGFLT_def T_SYSCALL_def kernel_fault_panics)
qed

text \<open>
  C35. A path in a page that the kernel itself has swapped out: \<open>exec\<close>, \<open>open\<close>, \<open>unlink\<close> and \<open>link\<close> bring
  the kernel down instead of the page in. The access to the path faults in the kernel, and that trap,
  whatever else the hardware reports, panics: the handler swaps in only on faults from user mode.
\<close>

theorem swapped_out_path_panics:
  assumes "curproc s = Some p" "sint (tf_eax (tf (ptable s ! p))) \<in> {7, 15, 18, 19}" "argint 0 s = Inr (Some a)"
    "a < sz (ptable s ! p)" "a < KERNBASE" "pte_of (P2V (cr3 s)) a s = pte_out e"
  shows "syscall s = Inl (Panic ''trap'') \<and> (\<forall>h. trap kernel_frame h s = Inl (Panic ''trap''))"
proof -
  have a: "argstr 0 s = Inl (Panic ''trap'')" using argstr_swapped_out [OF assms(1,3-6)] .
  have "sys_exec s = Inl (Panic ''trap'')" "sys_open s = Inl (Panic ''trap'')"
    "sys_unlink s = Inl (Panic ''trap'')" "sys_link s = Inl (Panic ''trap'')"
    by (simp_all add: sys_exec_def sys_open_def sys_unlink_def sys_link_def obind_def a)
  then have "syscall s = Inl (Panic ''trap'')"
    using assms(1,2) by (auto simp: syscall_def myproc_def Let_def syscalls_def sysret_def)
  then show ?thesis by (simp add: trap_kernel_fault kernel_fault_panics)
qed

definition arg_sys :: ksys where
  "arg_sys = kfile.extend (file0s\<lparr>mem := arg_mem, cr3 := 0x401000, curproc := Some 0,
     ptable := [arg_proc\<lparr>tf := zero_tf\<lparr>tf_esp := 0x1000, tf_eax := 18\<rparr>\<rparr>]\<rparr>) \<lparr>ticks = 0, first_fork = False\<rparr>"

lemma arg_sys_simps: "curproc arg_sys = Some 0" "ptable arg_sys ! 0 = arg_proc\<lparr>tf := zero_tf\<lparr>tf_esp := 0x1000, tf_eax := 18\<rparr>\<rparr>"
  "mem arg_sys = arg_mem" "cr3 arg_sys = 0x401000"
  by (simp_all add: arg_sys_def kfile.defs)

theorem swapped_out_path_panics_witness:
  "syscall arg_sys = Inl (Panic ''trap'') \<and> (\<forall>h. trap kernel_frame h arg_sys = Inl (Panic ''trap''))"
proof (rule swapped_out_path_panics [OF arg_sys_simps(1), where a = "0x2000" and e = "0x404007"])
  have z: "unat (sz (ptable arg_sys ! 0)) \<le> 0x80000000" unfolding arg_sys_simps by simp
  have "fetchint 0x1004 arg_sys = Inr (Some 0x2000)"
    unfolding fetchint_Some [OF arg_sys_simps(1) z] using arg_bytes(2) [OF arg_sys_simps(3,4)]
    by (simp add: arg_sys_simps get32_def)
  then show "argint 0 arg_sys = Inr (Some 0x2000)" by (simp add: argint_def myproc_def arg_sys_simps)
  show "pte_of (P2V (cr3 arg_sys)) 0x2000 arg_sys = pte_out 0x404007"
    by (rule arg_pte(2) [OF arg_sys_simps(3,4)]) (simp_all add: PDX_def PTX_def)
qed (simp_all add: arg_sys_simps KERNBASE_def)

end
