(* ===== verification/Copyuvm.thy ===== *)
theory Copyuvm
  imports Swap
begin

text \<open>
  Building the address space of a child: \<open>setupkvm\<close> and \<open>copyuvm\<close> of \<^verbatim>\<open>vm.c\<close>. While the kernel's
  mappings go into a fresh directory, pages of the parent stay as they are, the child has page tables
  for kernel addresses only, and with enough free pages nothing fails. What follows for a parent whose
  first page has been swapped out is the property at the end.
\<close>

section \<open>Pages that a directory under construction leaves alone\<close>

text \<open>The directory entries that have a table, and pages that are neither free nor part of the directory.\<close>

definition tables :: "uint \<Rightarrow> 'a kmem_scheme \<Rightarrow> uint set" where
  "tables d s = {i. unat i < 1024 \<and> table_of d i s \<noteq> None}"

definition apart :: "uint set \<Rightarrow> uint \<Rightarrow> uint list \<Rightarrow> 'a kmem_scheme \<Rightarrow> bool" where
  "apart F d xs s \<longleftrightarrow> (\<forall>q \<in> F. q mod PGSIZE = 0 \<and> q \<noteq> d \<and> q \<notin> set xs) \<and>
     (\<forall>i t. unat i < 1024 \<and> table_of d i s = Some t \<longrightarrow> t \<notin> F)"

definition kept :: "uint set \<Rightarrow> 'a kmem_scheme \<Rightarrow> 'a kmem_scheme \<Rightarrow> bool" where
  "kept F s s' \<longleftrightarrow> (\<forall>q \<in> F. \<forall>j. unat j < 1024 \<longrightarrow> peek s' (q + 4 * j) = peek s (q + 4 * j))"

text \<open>
  The invariant of the construction: a table is there for kernel addresses only (half of the 1024
  entries), so more than 512 pages that are free or already tables mean that the free list cannot run out.
\<close>

definition child_inv :: "uint set \<Rightarrow> uint \<Rightarrow> uint list \<Rightarrow> 'a kmem_scheme \<Rightarrow> bool" where
  "child_inv F d xs s \<longleftrightarrow> pt_wf d xs s \<and> kmem_ready xs s \<and> apart F d xs s \<and>
     (\<forall>i \<in> tables d s. 512 \<le> unat i) \<and> 512 < length xs + card (tables d s)"

lemma kept_refl [simp]: "kept F s s"
  by (simp add: kept_def)

lemma kept_trans: "kept F s t \<Longrightarrow> kept F t u \<Longrightarrow> kept F s u"
  by (simp add: kept_def)

lemma kernel_entries: "finite {i :: uint. 512 \<le> unat i \<and> unat i < 1024}" "card {i :: uint. 512 \<le> unat i \<and> unat i < 1024} = 512"
proof -
  have e: "unat ` {i :: uint. 512 \<le> unat i \<and> unat i < 1024} = {512..<1024}"
  proof (intro equalityI subsetI)
    fix n :: nat
    assume "n \<in> {512..<1024}"
    then have "unat (of_nat n :: uint) = n" "512 \<le> n" "n < 1024" by (simp_all add: unat_of_nat_small)
    then show "n \<in> unat ` {i :: uint. 512 \<le> unat i \<and> unat i < 1024}" by (intro image_eqI [of _ _ "of_nat n"]) simp_all
  qed auto
  have inj: "inj_on unat {i :: uint. 512 \<le> unat i \<and> unat i < 1024}" by (simp add: inj_on_def word_unat_eq_iff)
  show "finite {i :: uint. 512 \<le> unat i \<and> unat i < 1024}" by simp
  show "card {i :: uint. 512 \<le> unat i \<and> unat i < 1024} = 512" using card_image [OF inj] unfolding e by simp
qed

lemma tables_card:
  assumes "\<forall>i \<in> tables d s. 512 \<le> unat i"
  shows "card (tables d s) \<le> 512"
proof -
  have "tables d s \<subseteq> {i. 512 \<le> unat i \<and> unat i < 1024}" using assms by (auto simp: tables_def)
  from card_mono [OF kernel_entries(1) this] show ?thesis unfolding kernel_entries(2) .
qed

lemma child_inv_free: "child_inv F d xs s \<Longrightarrow> xs \<noteq> []"
  using tables_card [of d s] by (auto simp: child_inv_def)

lemma kernel_PDX: "KERNBASE \<le> va \<Longrightarrow> 512 \<le> unat (PDX va)"
  unfolding PDX_unat by (simp add: KERNBASE_def word_le_nat_alt)

section \<open>Mapping pages of the kernel\<close>

text \<open>A new table takes one page off the free list and adds one entry to the directory.\<close>

lemma walk_new_table:
  assumes inv: "child_inv F d xs s" and va: "KERNBASE \<le> va" and none: "table_of d (PDX va) s = None"
  shows "\<exists>x s' ys. walkpgdir d va True s = Inr (x + 4 * PTX va, s') \<and> x + 4 * PTX va \<noteq> 0 \<and>
    child_inv F d ys s' \<and> kept F s s' \<and> table_of d (PDX va) s' = Some x"
proof -
  have wf: "pt_wf d xs s" and rd: "kmem_ready xs s" and ap: "apart F d xs s" using inv by (auto simp: child_inv_def)
  obtain x ys where Cons: "xs = x # ys" using child_inv_free [OF inv] by (cases xs) auto
  obtain s1 where s1: "kalloc s = Inr (x, s1)" "kmem_ready ys s1" "mem s1 = mem s"
    using kalloc_inv [of x ys s] rd unfolding Cons by (auto simp: kmem_ready_def)
  have x: "x mod PGSIZE = 0" "x \<noteq> 0" "x \<notin> set ys"
    using ready_aligned [OF rd, of x] rd unfolding Cons by (auto simp: kmem_ready_def kmem_inv_def)
  have same: "table_of d i s1 = table_of d i s" for i using s1(3) by (simp add: table_of_def)
  have wf1: "pt_wf d (x # ys) s1" using wf unfolding Cons pt_wf_def same .
  let ?v = "V2P x OR PTE_P OR PTE_W OR PTE_U"
  let ?s = "poke (d + 4 * PDX va) ?v (s1\<lparr>mem := memset (mem s1) x 0 PGSIZE\<rparr>)"
  note fresh = fresh_table [OF wf1 s1(2) x none [folded same]]
  have dx: "d mod PGSIZE = 0" "d \<noteq> x" using pt_wfD(1,3) [OF wf] Cons by auto
  have pk: "peek ?s (q + 4 * j) = (if d = q \<and> PDX va = j then ?v else if q = x then 0 else peek s (q + 4 * j))"
    if "q mod PGSIZE = 0" "unat j < 1024" for q j
    using that dx(1) x(1) s1(3) by (simp add: peek_poke_ent peek_memset_ent)
  have tab: "table_of d j ?s = (if j = PDX va then Some x else table_of d j s)" if "unat j < 1024" for j
    using that dx V2P_entry [OF x(1)] by (simp add: table_of_def pk)
  have F: "q mod PGSIZE = 0" "q \<noteq> d" "q \<noteq> x" "q \<notin> set ys" if "q \<in> F" for q
    using ap that unfolding apart_def Cons by auto
  have "apart F d ys ?s" unfolding apart_def
  proof (intro conjI ballI allI impI)
    show "t \<notin> F" if "unat i < 1024 \<and> table_of d i ?s = Some t" for i t
      using that ap F(3) [of x] by (auto simp: tab apart_def split: if_splits)
  qed (use F in auto)
  moreover have "kept F s ?s" using F pk by (auto simp: kept_def)
  moreover have tb: "tables d ?s = insert (PDX va) (tables d s)" by (auto simp: tables_def tab)
  moreover have "PDX va \<notin> tables d s" using none by (simp add: tables_def)
  then have "card (tables d ?s) = Suc (card (tables d s))" unfolding tb by (simp add: tables_def)
  moreover have "walkpgdir d va True s = Inr (x + 4 * PTX va, ?s)"
    using none s1(1) x(2) by (auto simp: walkpgdir_def table_of_def Let_def split: if_splits)
  moreover have "x + 4 * PTX va \<noteq> 0" using ent_unat [of x "PTX va"] x by (auto simp: word_unat_eq_iff)
  ultimately show ?thesis using fresh(1-3) inv kernel_PDX [OF va]
    by (intro exI [of _ x] exI [of _ ?s] exI [of _ ys]) (simp add: child_inv_def Cons)
qed

lemma walk_child:
  assumes "child_inv F d xs s" "KERNBASE \<le> va"
  shows "\<exists>t s' ys. walkpgdir d va True s = Inr (t + 4 * PTX va, s') \<and> t + 4 * PTX va \<noteq> 0 \<and>
    child_inv F d ys s' \<and> kept F s s' \<and> table_of d (PDX va) s' = Some t"
proof (cases "table_of d (PDX va) s")
  case None
  then show ?thesis using walk_new_table [OF assms] by blast
next
  case (Some t)
  have "t mod PGSIZE = 0" "t \<noteq> 0"
    using table_aligned [OF Some] pt_wfD(4) [OF _ index_less(1) Some] assms(1) by (auto simp: child_inv_def)
  then have "t + 4 * PTX va \<noteq> 0" using ent_unat [of t "PTX va"] by (auto simp: word_unat_eq_iff)
  moreover have "walkpgdir d va True s = Inr (t + 4 * PTX va, s)"
    using Some by (auto simp: walkpgdir_def table_of_def split: if_splits)
  ultimately show ?thesis using assms Some by auto
qed

lemma poke_child:
  assumes inv: "child_inv F d xs s" and t: "table_of d (PDX va) s = Some t"
  shows "child_inv F d xs (poke (t + 4 * PTX va) v s)" "kept F s (poke (t + 4 * PTX va) v s)"
proof -
  have wf: "pt_wf d xs s" and rd: "kmem_ready xs s" and ap: "apart F d xs s" using inv by (auto simp: child_inv_def)
  have tt: "t mod PGSIZE = 0" "t \<noteq> d" "t \<notin> F"
    using pt_wfD(4) [OF wf index_less(1) t] table_aligned [OF t] ap index_less(1) [of va] t unfolding apart_def by blast+
  have pk: "peek (poke (t + 4 * PTX va) v s) (q + 4 * j) = (if t = q \<and> PTX va = j then v else peek s (q + 4 * j))"
    if "q mod PGSIZE = 0" "unat j < 1024" for q j
    using that tt(1) by (intro peek_poke_ent) auto
  have tab: "table_of d j (poke (t + 4 * PTX va) v s) = table_of d j s" if "unat j < 1024" for j
    using that pt_wfD(1) [OF wf] tt(2) by (simp add: table_of_def pk)
  have "tables d (poke (t + 4 * PTX va) v s) = tables d s" by (auto simp: tables_def tab)
  moreover have "apart F d xs (poke (t + 4 * PTX va) v s)" using ap by (auto simp: apart_def tab)
  ultimately show "child_inv F d xs (poke (t + 4 * PTX va) v s)"
    using inv poke_entry(1,2) [OF wf rd t] by (simp add: child_inv_def)
  have "t \<noteq> q" if "q \<in> F" for q using that tt(3) by auto
  then show "kept F s (poke (t + 4 * PTX va) v s)" using ap by (simp add: kept_def apart_def pk)
qed

lemma loop_child:
  assumes "child_inv F d xs s" "KERNBASE \<le> a" "unat a + 4096 * Suc n \<le> 2 ^ 32"
    "mappages_loop n d a pa perm s = Inr (r, s')"
  shows "r = 0 \<and> (\<exists>ys. child_inv F d ys s') \<and> kept F s s'"
  using assms
proof (induction n arbitrary: a pa s xs)
  case 0
  obtain t s1 ys where w: "walkpgdir d a True s = Inr (t + 4 * PTX a, s1)" "t + 4 * PTX a \<noteq> 0" "child_inv F d ys s1"
    "kept F s s1" "table_of d (PDX a) s1 = Some t" using walk_child [OF "0.prems"(1,2)] by blast
  have "r = 0" "s' = poke (t + 4 * PTX a) (pa OR perm OR PTE_P) s1"
    using "0.prems"(4) w(1,2) by (auto simp: mappages_loop.simps Let_def split: if_splits)
  then show ?case using poke_child [OF w(3,5)] kept_trans [OF w(4)] by blast
next
  case (Suc n)
  obtain t s1 ys where w: "walkpgdir d a True s = Inr (t + 4 * PTX a, s1)" "t + 4 * PTX a \<noteq> 0" "child_inv F d ys s1"
    "kept F s s1" "table_of d (PDX a) s1 = Some t" using walk_child [OF Suc.prems(1,2)] by blast
  let ?s = "poke (t + 4 * PTX a) (pa OR perm OR PTE_P) s1"
  have m: "mappages_loop n d (a + PGSIZE) (pa + PGSIZE) perm ?s = Inr (r, s')"
    using Suc.prems(4) w(1,2) by (subst (asm) mappages_loop.simps) (auto simp: Let_def split: if_splits)
  have nx: "unat (a + PGSIZE) = unat a + 4096" using Suc.prems(3) by (intro unat_next_page) simp
  then have "KERNBASE \<le> a + PGSIZE" "unat (a + PGSIZE) + 4096 * Suc n \<le> 2 ^ 32"
    using Suc.prems(2,3) by (simp_all add: word_le_nat_alt)
  from Suc.IH [OF poke_child(1) [OF w(3,5)] this m] show ?case
    using kept_trans [OF w(4) poke_child(2) [OF w(3,5)]] kept_trans by blast
qed

text \<open>No page from a given number on is mapped.\<close>

definition unmapped_from :: "nat \<Rightarrow> uint \<Rightarrow> 'a kmem_scheme \<Rightarrow> bool" where
  "unmapped_from A d s \<longleftrightarrow> (\<forall>vb. A \<le> unat vb div 4096 \<longrightarrow> pte_of d vb s AND PTE_P = 0)"

lemma mappages_child:
  assumes inv: "child_inv F d xs s" and fr: "unmapped_from A d s" and le: "A \<le> unat va div 4096"
    and k: "KERNBASE \<le> va" and len: "0 < unat len" "unat va + unat len \<le> 2 ^ 32"
  shows "\<exists>s' ys. mappages d va len pa perm s = Inr (0, s') \<and> child_inv F d ys s' \<and> kept F s s' \<and>
    unmapped_from (Suc ((unat va + unat len - 1) div 4096)) d s'"
proof -
  let ?A = "unat va div 4096" and ?Z = "(unat va + unat len - 1) div 4096"
  have un: "\<forall>vb. ?A \<le> unat vb div 4096 \<and> unat vb div 4096 \<le> ?Z \<longrightarrow> pte_of d vb s AND PTE_P = 0"
    using fr le by (auto simp: unmapped_from_def)
  have wf: "pt_wf d xs s" "kmem_ready xs s" using inv by (auto simp: child_inv_def)
  from mappages_ok [OF wf len refl refl un, of pa perm] obtain r s' ys where
    m: "mappages d va len pa perm s = Inr (r, s')" and
    r: "r = 0 \<and> (\<forall>vb. pte_of d vb s' = (if ?A \<le> unat vb div 4096 \<and> unat vb div 4096 \<le> ?Z
       then (pa + of_nat (unat vb div 4096 - ?A) * PGSIZE) OR perm OR PTE_P else pte_of d vb s)) \<or> r = -1 \<and> ys = []" by blast
  have loop: "r = 0 \<and> (\<exists>ys. child_inv F d ys s') \<and> kept F s s'"
  proof (rule loop_child [OF inv _ _ m [unfolded mappages_def Let_def]])
    show "KERNBASE \<le> PGROUNDDOWN va"
      using k div_le_mono [of "0x80000000" "unat va" 4096] by (simp add: word_le_nat_alt PGROUNDDOWN_unat KERNBASE_def)
    show "unat (PGROUNDDOWN va) + 4096 * Suc (unat ((PGROUNDDOWN (va + len - 1) - PGROUNDDOWN va) div PGSIZE)) \<le> 2 ^ 32"
      by (rule pages_fit [OF len])
  qed
  moreover have "unmapped_from (Suc ?Z) d s'"
    using r loop fr le div_le_mono [of "unat va" "unat va + unat len - 1" 4096] len(1) by (auto simp: unmapped_from_def)
  ultimately show ?thesis using m by blast
qed

section \<open>The fresh directory\<close>

lemma new_directory:
  assumes rd: "kmem_ready (x # ys) s" and F: "\<forall>q \<in> F. q mod PGSIZE = 0 \<and> q \<notin> set (x # ys)" and n: "512 < length ys"
  obtains s1 where "kalloc s = Inr (x, s1)" "x \<noteq> 0" "child_inv F x ys (s1\<lparr>mem := memset (mem s1) x 0 PGSIZE\<rparr>)"
    "kept F s (s1\<lparr>mem := memset (mem s1) x 0 PGSIZE\<rparr>)" "unmapped_from 0 x (s1\<lparr>mem := memset (mem s1) x 0 PGSIZE\<rparr>)"
proof -
  obtain s1 where s1: "kalloc s = Inr (x, s1)" "kmem_ready ys s1" "mem s1 = mem s"
    using kalloc_inv [of x ys s] rd by (auto simp: kmem_ready_def)
  have x: "x mod PGSIZE = 0" "x \<noteq> 0" "x \<notin> set ys"
    using ready_aligned [OF rd, of x] rd by (auto simp: kmem_ready_def kmem_inv_def)
  let ?s = "s1\<lparr>mem := memset (mem s1) x 0 PGSIZE\<rparr>"
  have pk: "peek ?s (q + 4 * j) = (if q = x then 0 else peek s (q + 4 * j))" if "q mod PGSIZE = 0" "unat j < 1024" for q j
    using peek_memset_ent [OF x(1) that, of "mem s1"] s1(3) by simp
  have tab: "table_of x j ?s = None" if "unat j < 1024" for j using pk [OF x(1) that] by (simp add: table_of_def)
  have "kmem_ready ys ?s"
  proof (rule kmem_ready_outside [OF s1(2)])
    fix y b
    assume y: "y \<in> set ys" "in_page y b"
    have "\<not> in_page x b" using pages_disjoint [of y x b] ready_aligned [OF s1(2) y(1)] x y by auto
    then show "memset (mem s1) x 0 PGSIZE b = mem s1 b" by (simp add: memset_apply PGSIZE_def)
  qed
  moreover have "pt_wf x ys ?s" unfolding pt_wf_def using x tab by auto
  moreover have "apart F x ys ?s" using F tab by (auto simp: apart_def)
  moreover have "tables x ?s = {}" using tab by (auto simp: tables_def)
  ultimately have "child_inv F x ys ?s" using n by (simp add: child_inv_def)
  moreover have "kept F s ?s" using F pk by (auto simp: kept_def)
  moreover have "unmapped_from 0 x ?s" using tab by (simp add: unmapped_from_def pte_of_def)
  ultimately show ?thesis using that [OF s1(1) x(2)] by blast
qed

lemma kvm_constants: "unat KERNBASE = 0x80000000" "unat KERNLINK = 0x80100000" "unat (P2V PHYSTOP) = 0x8E000000"
  "unat DEVSPACE = 0xFE000000" "unat EXTMEM = 0x100000" "unat (- DEVSPACE) = 0x2000000" "\<not> P2V PHYSTOP > DEVSPACE"
  by (simp_all add: KERNBASE_def KERNLINK_def EXTMEM_def PHYSTOP_def P2V_def DEVSPACE_def word_less_nat_alt)

text \<open>The four rows of \<open>kmap\<close> follow one another, for a \<open>data\<close> that the linker puts on a page boundary.\<close>

lemma map_kernel_child:
  assumes inv: "child_inv F d xs s" and fr: "unmapped_from 0 d s"
    and k: "kdata s mod PGSIZE = 0" "KERNLINK < kdata s" "kdata s < P2V PHYSTOP"
  shows "\<exists>s' ys. map_kernel d (kmap s) s = Inr (d, s') \<and> child_inv F d ys s' \<and> kept F s s'"
proof -
  note c = kvm_constants
  let ?e = "kdata s"
  have e: "0x80100000 < unat ?e" "unat ?e < 0x8E000000" using k(2,3) c by (simp_all add: word_less_nat_alt)
  obtain j where j: "unat ?e = 4096 * j" using k(1) unfolding aligned_unat by (metis mod_0_imp_dvd dvdE)
  have d1: "V2P ?e - V2P KERNLINK = ?e - KERNLINK" "PHYSTOP - V2P ?e = P2V PHYSTOP - ?e" by (simp_all add: V2P_def P2V_def)
  have u1: "unat (?e - KERNLINK) = unat ?e - 0x80100000" using unat_sub_small [of KERNLINK ?e] k(2) c by simp
  have u2: "unat (P2V PHYSTOP - ?e) = 0x8E000000 - unat ?e" using unat_sub_small [of ?e "P2V PHYSTOP"] k(3) c by simp
  obtain s1 y1 where m1: "mappages d KERNBASE (EXTMEM - 0) 0 PTE_W s = Inr (0, s1)" "child_inv F d y1 s1" "kept F s s1"
    "unmapped_from 0x80100 d s1"
    using mappages_child [OF inv fr, of KERNBASE "EXTMEM - 0" 0 PTE_W] c by auto
  obtain s2 y2 where m2: "mappages d KERNLINK (V2P ?e - V2P KERNLINK) (V2P KERNLINK) 0 s1 = Inr (0, s2)" "child_inv F d y2 s2"
    "kept F s1 s2" "unmapped_from (Suc ((unat ?e - 1) div 4096)) d s2"
    using mappages_child [OF m1(2,4), of KERNLINK "?e - KERNLINK" "V2P KERNLINK" 0] c e u1
    unfolding d1 by (auto simp: word_le_nat_alt)
  have "Suc ((unat ?e - 1) div 4096) \<le> unat ?e div 4096" using e(1) unfolding j by (cases j) auto
  then obtain s3 y3 where m3: "mappages d ?e (PHYSTOP - V2P ?e) (V2P ?e) PTE_W s2 = Inr (0, s3)" "child_inv F d y3 s3"
    "kept F s2 s3" "unmapped_from 0x8E000 d s3"
    using mappages_child [OF m2(2,4), of ?e "P2V PHYSTOP - ?e" "V2P ?e" PTE_W] c e u2
    unfolding d1 by (auto simp: word_le_nat_alt)
  obtain s4 y4 where m4: "mappages d DEVSPACE (0 - DEVSPACE) DEVSPACE PTE_W s3 = Inr (0, s4)" "child_inv F d y4 s4" "kept F s3 s4"
    using mappages_child [OF m3(2,4), of DEVSPACE "0 - DEVSPACE" DEVSPACE PTE_W] c by (auto simp: word_le_nat_alt)
  have "map_kernel d (kmap s) s = Inr (d, s4)" unfolding kmap_def by (simp add: m1(1) [simplified] m2(1) m3(1) m4(1) [simplified])
  then show ?thesis using m4(2) kept_trans [OF m1(3) kept_trans [OF m2(3) kept_trans [OF m3(3) m4(3)]]] by blast
qed

lemma setupkvm_child:
  assumes rd: "kmem_ready xs s" and n: "513 < length xs" and F: "\<forall>q \<in> F. q mod PGSIZE = 0 \<and> q \<notin> set xs"
    and k: "kdata s mod PGSIZE = 0" "KERNLINK < kdata s" "kdata s < P2V PHYSTOP"
  shows "\<exists>d s' ys. setupkvm s = Inr (d, s') \<and> d \<noteq> 0 \<and> child_inv F d ys s' \<and> kept F s s'"
proof -
  obtain x ys where xs: "xs = x # ys" using n by (cases xs) auto
  obtain s1 where s1: "kalloc s = Inr (x, s1)" "x \<noteq> 0" "child_inv F x ys (s1\<lparr>mem := memset (mem s1) x 0 PGSIZE\<rparr>)"
    "kept F s (s1\<lparr>mem := memset (mem s1) x 0 PGSIZE\<rparr>)" "unmapped_from 0 x (s1\<lparr>mem := memset (mem s1) x 0 PGSIZE\<rparr>)"
    using new_directory [of x ys s F] rd F n unfolding xs by auto
  have "KmemLock \<notin> held s" using rd by (simp add: kmem_ready_def)
  then have "kdata s1 = kdata s" using s1(1) by (auto simp: kalloc_eq)
  then have "kdata (s1\<lparr>mem := memset (mem s1) x 0 PGSIZE\<rparr>) = kdata s" by simp
  from map_kernel_child [OF s1(3,5), unfolded this, OF k] obtain s' zs where
    "map_kernel x (kmap (s1\<lparr>mem := memset (mem s1) x 0 PGSIZE\<rparr>)) (s1\<lparr>mem := memset (mem s1) x 0 PGSIZE\<rparr>) = Inr (x, s')"
    "child_inv F x zs s'" "kept F (s1\<lparr>mem := memset (mem s1) x 0 PGSIZE\<rparr>) s'" by blast
  then show ?thesis using s1(1,2) kept_trans [OF s1(4)] kvm_constants(7) by (auto simp: setupkvm_def Let_def)
qed

section \<open>A swapped-out first page\<close>

lemma copyuvm_turn_panics:
  assumes "table_of pd (PDX i) s = Some t" "t + 4 * PTX i \<noteq> 0" "pte_of pd i s AND PTE_PG \<noteq> 0"
    "table_of d (PDX i) s = None"
  shows "copyuvm_loop (Suc n) pd d p i s =
    Inl (Panic ''update_pageOUT_pte_flags: pte does NOT exist in pgdir'')"
  using assms by (simp add: walk_noalloc pte_of_def update_pageOUT_pte_flags_def)

text \<open>
  C40. Copying the address space of a process whose first page is in the swap file brings the kernel
  down. \<open>copyuvm\<close> succeeds in building the kernel's part of the child's directory, with all the free
  pages it needs (one for the directory and at most one for each of the 512 entries above \<open>KERNBASE\<close>), and
  without touching the parent's tables; its first turn then marks page 0 as swapped out in the child with
  \<open>update_pageOUT_pte_flags\<close>, which looks the entry up without allocating its table, and the child has no
  table below \<open>KERNBASE\<close> yet. Page 0 is the page that enters the queue of pages first, and so the first
  that is swapped out.
\<close>

theorem copyuvm_swapped_page_panics:
  assumes "curproc s = Some p" "kmem_ready xs s" "513 < length xs" "pt_wf pd xs s"
    "kdata s mod PGSIZE = 0" "KERNLINK < kdata s" "kdata s < P2V PHYSTOP"
    "pte_of pd 0 s AND PTE_PG \<noteq> 0" "0 < len"
  shows "copyuvm pd len s = Inl (Panic ''update_pageOUT_pte_flags: pte does NOT exist in pgdir'')"
proof -
  have ix: "PDX 0 = 0" "PTX 0 = 0" by (simp_all add: PDX_def PTX_def)
  obtain t where t: "table_of pd 0 s = Some t" using assms(8) by (auto simp: pte_of_def ix split: option.splits)
  have tt: "t mod PGSIZE = 0" "t \<noteq> 0" "t \<notin> set xs"
    using table_aligned [OF t] pt_wfD(4) [OF assms(4) _ t] by auto
  have F: "\<forall>q \<in> {pd, t}. q mod PGSIZE = 0 \<and> q \<notin> set xs" using tt pt_wfD(1,3) [OF assms(4)] by auto
  from setupkvm_child [OF assms(2,3) F assms(5-7)] obtain d s1 ys where
    d: "setupkvm s = Inr (d, s1)" "d \<noteq> 0" "child_inv {pd, t} d ys s1" "kept {pd, t} s s1" by blast
  have pk: "peek s1 (pd + 4 * 0) = peek s (pd + 4 * 0)" "peek s1 (t + 4 * 0) = peek s (t + 4 * 0)"
    using d(4) unfolding kept_def by (metis insertI1 insertI2 unat_0 zero_less_numeral)+
  have t1: "table_of pd 0 s1 = Some t" using t unfolding table_of_def pk(1) .
  have "pte_of pd 0 s1 AND PTE_PG \<noteq> 0" using assms(8) t t1 pk(2) by (simp add: pte_of_def ix)
  moreover have "table_of d (PDX 0) s1 = None"
  proof -
    have "0 \<notin> tables d s1" using d(3) by (auto simp: child_inv_def)
    then show ?thesis by (simp add: tables_def ix)
  qed
  moreover have "t + 4 * PTX 0 \<noteq> 0" using tt(2) by (simp add: ix)
  moreover obtain n where "pages_between 0 len = Suc n"
    using assms(9) by (cases "pages_between 0 len") (auto simp: pages_between_def word_less_nat_alt div_eq_0_iff)
  ultimately show ?thesis using assms(1) d(1,2) copyuvm_turn_panics [of pd 0 s1 t d n p] t1 by (simp add: copyuvm_def ix)
qed

text \<open>
  An example: the address space of process 1, its page 0 swapped out, and the 768 pages from
  \<open>0x80500000\<close> on handed to the allocator by \<open>freerange\<close>, which writes nothing below them.
\<close>

lemma kfree_frame:
  assumes "kfree p s = Inr s'" "KmemLock \<notin> held s" "unat b < unat p"
  shows "held s' = held s" "mem s' b = mem s b" "kmem.more s' = kmem.more s" "curproc s' = curproc s"
proof -
  have ok: "page_ok p s"
  proof -
    have "p mod PGSIZE = 0 \<and> kend s \<le> p \<and> V2P p < PHYSTOP" using kfree_bad [of p s] assms(1) by auto
    moreover have "\<not> V2P 0 < PHYSTOP" by (simp add: V2P_def PHYSTOP_def KERNBASE_def)
    ultimately show ?thesis by (auto simp: page_ok_def)
  qed
  note e = kfree_eq [OF assms(2) ok]
  have "p mod PGSIZE = 0" using ok by (simp add: page_ok_def)
  then have "\<not> in_page p b" using page_base(2) [of p b] assms(3) by linarith
  then show "mem s' b = mem s b" using e assms(1) by (auto simp: kfree_mem_outside)
  show "held s' = held s" "kmem.more s' = kmem.more s" "curproc s' = curproc s" using e assms(1) by auto
qed

lemma freerange_loop_frame:
  assumes "freerange_loop p vend s = Inr s'" "KmemLock \<notin> held s" "unat b < unat p"
  shows "mem s' b = mem s b \<and> kmem.more s' = kmem.more s \<and> curproc s' = curproc s"
  using assms
proof (induction p vend s rule: freerange_loop.induct)
  case (1 p vend s)
  show ?case
  proof (cases "p + PGSIZE \<le> vend")
    case True
    then obtain s1 where s1: "kfree p s = Inr s1" "freerange_loop (p + PGSIZE) vend s1 = Inr s'"
      using 1(2) by (subst (asm) freerange_loop.simps) (cases "kfree p s", auto)
    note f = kfree_frame [OF s1(1) 1(3,4)]
    have "unat b < unat (p + PGSIZE)" using 1(4) unat_next_page [OF kfree_range [OF s1(1)]] by simp
    from 1(1) [OF True s1 _ this] 1(3) f show ?thesis by simp
  next
    case False
    then show ?thesis using 1(2) by (subst (asm) freerange_loop.simps) simp
  qed
qed

definition vm_first_out :: kvm where
  "vm_first_out = poke (0x80403000 + 4 * 0) (pte_out 0x404007) vm0"

definition vm_forking :: kvm where
  "vm_forking = (case freerange 0x80500000 0x80800000 vm_first_out of Inr s \<Rightarrow> s | Inl _ \<Rightarrow> vm_first_out)"

lemma vm_first_out_simps: "curproc vm_first_out = Some 1" "kdata vm_first_out = 0x80110000" "held vm_first_out = held vm0"
  "page_ok q vm_first_out = page_ok q vm0" "kmem_ready [0x80402000] vm_first_out"
proof -
  show "curproc vm_first_out = Some 1" "kdata vm_first_out = 0x80110000" "held vm_first_out = held vm0"
    "page_ok q vm_first_out = page_ok q vm0"
    by (simp_all add: vm_first_out_def poke_def page_ok_def vm0_def kmem.defs)
  show "kmem_ready [0x80402000] vm_first_out"
    unfolding vm_first_out_def by (rule poke_ready [OF vm0_ready]) (simp_all add: PGSIZE_def)
qed

lemma vm_forking_ready: "freerange_loop 0x80500000 0x80800000 vm_first_out = Inr vm_forking \<and>
  kmem_ready (rev (pages_from 0x80500000 768) @ [0x80402000]) vm_forking"
proof -
  have r: "PGROUNDUP 0x80500000 = 0x80500000" by (simp add: PGROUNDUP_def PGSIZE_def)
  have ok: "page_ok 0x80500000 vm_first_out" unfolding vm_first_out_simps
    by (simp add: page_ok_def vm0_def kmem.defs pt0_def kmem0_def ksock.defs PGSIZE_def V2P_def KERNBASE_def PHYSTOP_def)
  have "\<forall>q \<in> set [0x80402000]. q \<notin> set (pages_from 0x80500000 768)"
    using pages_from_ge [of "0x80500000" 768 "0x80402000"] by auto
  from freerange_loop_ok [OF vm_first_out_simps(5) disjI1 [OF ok] _ _ _ this, of "0x80800000"]
  obtain s' where "freerange_loop 0x80500000 0x80800000 vm_first_out = Inr s'"
    "kmem_ready (rev (pages_from 0x80500000 768) @ [0x80402000]) s'"
    by (auto simp: kvm_constants PGSIZE_def)
  then show ?thesis by (simp add: vm_forking_def freerange_def r)
qed

lemma vm_forking_peek:
  assumes "q \<in> {0x80401000, 0x80403000}" "unat j < 1024"
  shows "peek vm_forking (q + 4 * j) = peek vm_first_out (q + 4 * j)"
proof -
  have q: "q mod PGSIZE = 0" "unat q \<le> 0x80403000" using assms(1) by (auto simp: PGSIZE_def)
  have u: "unat (q + 4 * j) \<le> 0x80403FFC" using ent_unat [OF q(1) assms(2)] q(2) assms(2) by simp
  have l: "KmemLock \<notin> held vm_first_out" using vm_first_out_simps(5) by (simp add: kmem_ready_def)
  have b: "mem vm_forking b = mem vm_first_out b" if "unat b < 0x80500000" for b
    using freerange_loop_frame [OF conjunct1 [OF vm_forking_ready] l, of b] that by simp
  have "unat (q + 4 * j + 1) < 0x80500000" "unat (q + 4 * j + 2) < 0x80500000" "unat (q + 4 * j + 3) < 0x80500000"
    using u unat_add_small [of "q + 4 * j" 1] unat_add_small [of "q + 4 * j" 2] unat_add_small [of "q + 4 * j" 3] by simp_all
  then show ?thesis using u by (intro load32_cong b) simp_all
qed

lemma vm_forking_tables:
  "unat i < 1024 \<Longrightarrow> table_of 0x80401000 i vm_forking = (if i = 0 then Some 0x80403000 else None)"
  "pte_of 0x80401000 0 vm_forking = pte_out 0x404007"
proof -
  have al: "(0x80401000 :: uint) mod PGSIZE = 0" "(0x80403000 :: uint) mod PGSIZE = 0" "unat (0 :: uint) < 1024"
    by (simp_all add: PGSIZE_def)
  have pk: "peek vm_forking (q + 4 * j) = (if 0x80403000 = q \<and> 0 = j then pte_out 0x404007 else peek vm0 (q + 4 * j))"
    if "q \<in> {0x80401000, 0x80403000}" "unat j < 1024" for q j
  proof -
    have "q mod PGSIZE = 0" using that(1) al(1,2) by (elim insertE emptyE) (simp_all only:)
    then show ?thesis unfolding vm_forking_peek [OF that] vm_first_out_def by (rule peek_poke_ent [OF al(2) _ al(3) that(2)])
  qed
  show t: "table_of 0x80401000 i vm_forking = (if i = 0 then Some 0x80403000 else None)" if "unat i < 1024" for i
  proof -
    have "peek vm_forking (0x80401000 + 4 * i) = peek vm0 (0x80401000 + 4 * i)" using pk [of "0x80401000" i] that by simp
    then show ?thesis using vm0_table [OF that] unfolding table_of_def by (simp only:)
  qed
  have ix: "PDX 0 = 0" "PTX 0 = 0" by (simp_all add: PDX_def PTX_def)
  show "pte_of 0x80401000 0 vm_forking = pte_out 0x404007"
    unfolding pte_of_def ix t [OF al(3)] using pk [of "0x80403000" 0] by simp
qed

lemma pages_from_length: "length (pages_from p n) = n"
  by (induction n arbitrary: p) auto

lemma kdata_more: "kmem.more s = kmem.more t \<Longrightarrow> kdata s = kdata t" for s t :: kvm
  by (cases s; cases t) simp

theorem copyuvm_swapped_page_panics_witness:
  "copyuvm 0x80401000 0x3000 vm_forking = Inl (Panic ''update_pageOUT_pte_flags: pte does NOT exist in pgdir'')"
proof (rule copyuvm_swapped_page_panics [OF _ conjunct2 [OF vm_forking_ready]])
  let ?xs = "rev (pages_from 0x80500000 768) @ [0x80402000]"
  have l: "KmemLock \<notin> held vm_first_out" using vm_first_out_simps(5) by (simp add: kmem_ready_def)
  have f: "kmem.more vm_forking = kmem.more vm_first_out \<and> curproc vm_forking = curproc vm_first_out"
    using freerange_loop_frame [OF conjunct1 [OF vm_forking_ready] l, of 0] by simp
  then show "curproc vm_forking = Some 1" using vm_first_out_simps(1) by simp
  have "kdata vm_forking = kdata vm_first_out" using f kdata_more by blast
  then have k: "kdata vm_forking = 0x80110000" using vm_first_out_simps(2) by simp
  show "kdata vm_forking mod PGSIZE = 0" "KERNLINK < kdata vm_forking" "kdata vm_forking < P2V PHYSTOP"
    unfolding k by (simp_all add: PGSIZE_def KERNLINK_def KERNBASE_def EXTMEM_def P2V_def PHYSTOP_def)
  show "513 < length ?xs" by (simp add: pages_from_length)
  have "0x80401000 \<notin> set ?xs" "0x80403000 \<notin> set ?xs"
    using pages_from_ge [of "0x80500000" 768 "0x80401000"] pages_from_ge [of "0x80500000" 768 "0x80403000"] by auto
  then show "pt_wf 0x80401000 ?xs vm_forking" unfolding pt_wf_def
    by (auto simp: vm_forking_tables(1) PGSIZE_def split: if_splits)
  show "pte_of 0x80401000 0 vm_forking AND PTE_PG \<noteq> 0" by (simp add: vm_forking_tables(2) and_bit_0 pte_out_bits)
qed simp

end
