(* ===== verification/Swapio.thy ===== *)
theory Swapio
  imports Sysfile
begin

text \<open>
  The paging code sees the swap file of a process as its contents (\<open>swap_write\<close> and \<open>swap_read\<close>). Here the
  routines of \<^verbatim>\<open>fs.c\<close>, which go through the file table, the log and the disk, are shown to implement that
  contract.
\<close>

lemma upd_off:
  fixes s :: "'a kfile_scheme" and off :: uint
  assumes "idle s" "opened f ip s"
  defines "t \<equiv> upd_file f (\<lambda>x. x\<lparr>foff := off\<rparr>) s"
  shows "idle t" "opened f ip t" "same_fs s t" "file_at t f = (file_at s f)\<lparr>foff := off\<rparr>" "fdata t ip = fdata s ip" "avail ip t = avail ip s"
proof -
  note d = idleD [OF assms(1)]
  have o: "f < length (ftable s)" "file_ok ip s" using assms(2) by (simp_all add: opened_def cached_def)
  have st: "lock_step s t" by (rule lock_step_intro [OF d(1)]) (simp_all add: t_def upd_file_def)
  note l = lock_stepD [OF st]
  show e: "same_fs s t" by (rule l(2))
  show "idle t" using l d same_fs_ok(1) [OF e d(3,8)] by (simp add: idle_def log_ok_tx)
  show "file_at t f = (file_at s f)\<lparr>foff := off\<rparr>" using o(1) by (simp add: t_def upd_file_def)
  moreover have "cached ip t" using assms(2) by (intro cached_same [OF e d(3,8)]) (simp_all add: opened_def cached_def t_def upd_file_def)
  ultimately show "opened f ip t" using assms(2) by (simp add: opened_def) (simp add: t_def upd_file_def)
  show "fdata t ip = fdata s ip" "avail ip t = avail ip s" using same_fs_file [OF e d(3,8) o(2)] by simp_all
qed

lemma filewrite_refused:
  fixes s :: "'a kfile_scheme"
  assumes "idle s" "opened f ip s" "writable (file_at s f) \<noteq> 0" "isize (din s ip) < foff (file_at s f)" "src \<noteq> []"
  shows "\<exists>t. filewrite f (Inr src) s = Inr (-1, t) \<and> idle t \<and> opened f ip t \<and> same_fs s t"
proof -
  obtain t where t: "filewrite_chunk f (take WMAX src) s = Inr (-1, t)" "idle t" "opened f ip t" "same_fs s t"
    using chunk_refused [OF assms(1,2,4)] by blast
  have "ftype (file_at s f) = FD_INODE" using assms(2) by (simp add: opened_def)
  then have "filewrite f (Inr src) s = Inr (-1, t)" using assms(3,5) t(1) by (simp add: filewrite_def filewrite_loop.simps [of f src 0])
  with t show ?thesis by blast
qed

lemma fileread_refused:
  fixes s :: "'a kfile_scheme"
  assumes "idle s" "opened f ip s" "readable (file_at s f) \<noteq> 0" "isize (din s ip) < foff (file_at s f)"
  shows "\<exists>t. fileread f n s = Inr (-1, [], t) \<and> idle t \<and> opened f ip t \<and> same_fs s t"
proof -
  note d = idleD [OF assms(1)]
  have o: "ftype (file_at s f) = FD_INODE" "fip (file_at s f) = ip" "cached ip s" "f < length (ftable s)" using assms(2) by (simp_all add: opened_def)
  obtain s2 i where s2: "ilock ip s = Inr s2" "lock_step s s2" "ftable s2 = ftable s" "mypid s2 = Inr i"
    "sleeplocks s2 (InodeLock ip) = \<lparr>sl_locked = 1, sl_pid = i\<rparr>" using ilock_step [OF d(1) o(3)] by blast
  note l2 = lock_stepD [OF s2(2)]
  have fo: "file_ok ip s" "iref (inode_at s ip) \<ge> 1" using o(3) by (simp_all add: cached_def)
  have r: "readi ip (foff (file_at s f)) (of_int n) s2 = Inr (-1, [], s2)"
    using assms(4) l2(7) file_okD(3) [OF fo(1)] by (simp add: readi_def Let_def)
  obtain s4 where s4: "iunlock ip s2 = Inr s4" "lock_step s2 s4" "ftable s4 = ftable s2" "sl_locked (sleeplocks s4 (InodeLock ip)) = 0"
    using iunlock_step [OF l2(1) _ s2(4,5)] fo(2) l2(7) by auto
  note l4 = lock_stepD [OF s4(2)]
  have e4: "same_fs s s4" by (rule same_fs_trans [OF l2(2) l4(2)])
  have "fileread f n s = Inr (-1, [], s4)" using assms(3) o s2(1,3) r s4(1) by (simp add: fileread_def Let_def)
  moreover have "idle s4" using l4 l2 d same_fs_ok(1) [OF e4 d(3,8)] by (simp add: idle_def log_ok_tx)
  moreover have "cached ip s4" by (rule cached_same [OF e4 d(3,8) o(3) s4(4)])
  then have "opened f ip s4" using o s4(3) s2(3) by (simp add: opened_def)
  ultimately show ?thesis using e4 by blast
qed

lemma swap_write_implemented:
  fixes s :: "'a kfile_scheme" and off :: uint
  assumes "idle s" "swapFile (ptable s ! p) = Some f" "opened f ip s" "writable (file_at s f) \<noteq> 0" "fdata s ip = swapdata s p"
    and d: "d \<noteq> []" "unat off + length d \<le> MAXFILE * BSIZE" "wroom (length d) < avail ip s"
  shows "\<exists>r t s'. writeToSwapFile p (Inr d) off s = Inr (r, t) \<and> swap_write p (Inr d) off (length d) s = Inr (r, s') \<and>
    fdata t ip = swapdata s' p \<and> idle t \<and> opened f ip t"
proof -
  let ?s = "upd_file f (\<lambda>x. x\<lparr>foff := off\<rparr>) s"
  note u = upd_off [OF assms(1,3), of off]
  have w: "writable (file_at ?s f) \<noteq> 0" "off = foff (file_at ?s f)" "wroom (length d) < avail ip ?s" using assms(4) u(4,6) d(3) by simp_all
  have sz: "isize (din ?s ip) = isize (din s ip)" "length (swapdata s p) = unat (isize (din s ip))"
    using assms(5) length_fdata [of s ip] by (simp_all add: upd_file_def)
  have mx: "MAXFILE * BSIZE = 71680" by (simp add: MAXFILE_def NDIRECT_def NINDIRECT_def BSIZE_def)
  have e: "writeToSwapFile p (Inr d) off s = filewrite f (Inr d) ?s" using assms(2) by (simp add: writeToSwapFile_def)
  show ?thesis
  proof (cases "off \<le> isize (din s ip)")
    case True
    then obtain t where t: "filewrite f (Inr d) ?s = Inr (int (length d), t)" "idle t" "opened f ip t" "fdata t ip = content_write off d (fdata ?s ip)"
      using filewrite_ok [OF u(1,2) w(1,2) _ d(2) w(3)] sz(1) by auto
    have "content_writable off (length d) (swapdata s p)" using True d(2) sz(2) by (simp add: content_writable_def word_le_nat_alt mx)
    then show ?thesis using e t u(5) assms(2,5) by (simp add: swap_write_def)
  next
    case False
    then have "isize (din ?s ip) < foff (file_at ?s f)" using w(2) sz(1) by simp
    from filewrite_refused [OF u(1,2) w(1) this d(1)] obtain t where t: "filewrite f (Inr d) ?s = Inr (-1, t)" "idle t" "opened f ip t" "same_fs ?s t"
      by blast
    have "fdata t ip = fdata s ip"
      using same_fs_file(2) [OF t(4) idleD(3,8) [OF u(1)]] u(2,5) by (simp add: opened_def cached_def)
    moreover have "\<not> content_writable off (length d) (swapdata s p)" using False sz(2) by (simp add: content_writable_def word_le_nat_alt)
    ultimately show ?thesis using e t assms(2,5) by (simp add: swap_write_def)
  qed
qed

lemma swap_read_implemented:
  fixes s :: "'a kfile_scheme" and off n :: uint
  assumes "idle s" "swapFile (ptable s ! p) = Some f" "opened f ip s" "readable (file_at s f) \<noteq> 0" "fdata s ip = swapdata s p"
    and n: "unat n < 2 ^ 31" "unat off + unat n < 2 ^ 32"
  shows "\<exists>r bs t. readFromSwapFile p off n s = Inr (r, bs, t) \<and> swap_read p off (unat n) s = Inr (r, bs) \<and>
    fdata t ip = swapdata s p \<and> idle t \<and> opened f ip t"
proof -
  let ?s = "upd_file f (\<lambda>x. x\<lparr>foff := off\<rparr>) s"
  note u = upd_off [OF assms(1,3), of off]
  have sn: "sint n = int (unat n)" by (rule sint_small [OF n(1)])
  have r: "readable (file_at ?s f) \<noteq> 0" "off = foff (file_at ?s f)" using assms(4) u(4) by simp_all
  have sz: "isize (din ?s ip) = isize (din s ip)" "length (swapdata s p) = unat (isize (din s ip))"
    using assms(5) length_fdata [of s ip] by (simp_all add: upd_file_def)
  have e: "readFromSwapFile p off n s = fileread f (sint n) ?s" using assms(2) by (simp add: readFromSwapFile_def)
  have keep: "fdata t ip = swapdata s p" if "same_fs ?s t" for t
    using same_fs_file(2) [OF that idleD(3,8) [OF u(1)]] u(2,5) assms(5) by (simp add: opened_def cached_def)
  show ?thesis
  proof (cases "off \<le> isize (din s ip)")
    case True
    have "int (unat n) < 2 ^ 31" using n(1) by (simp only: of_nat_less_numeral_power_cancel_iff)
    then have b: "0 \<le> sint n" "sint n < 2 ^ 31" "off \<le> isize (din ?s ip)" unfolding sn sz(1) using True by simp_all
    let ?d = "take (nat (sint n)) (drop (unat off) (fdata ?s ip))"
    obtain t where t: "fileread f (sint n) ?s = Inr (int (length ?d), ?d, t)" "idle t" "opened f ip t" "same_fs ?s t"
      using fileread_ok [OF u(1,2) r(1) b(1,2) r(2) b(3)] by blast
    have "content_read off (unat n) (swapdata s p) = Some ?d"
      using True n(2) sz(2) u(5) assms(5) sn by (simp add: content_read_def word_le_nat_alt)
    then show ?thesis using e t keep [OF t(4)] assms(2) by (simp add: swap_read_def)
  next
    case False
    then have "isize (din ?s ip) < foff (file_at ?s f)" using r(2) sz(1) by simp
    from fileread_refused [OF u(1,2) r(1) this] obtain t where t: "fileread f (sint n) ?s = Inr (-1, [], t)" "idle t" "opened f ip t" "same_fs ?s t"
      by blast
    have "content_read off (unat n) (swapdata s p) = None" using False sz(2) by (simp add: content_read_def word_le_nat_alt)
    then show ?thesis using e t keep [OF t(4)] assms(2) by (simp add: swap_read_def)
  qed
qed

text \<open>
  C7. The swap file of a process implements the contract that the paging code relies on: when the
  contents of the open file are what the paging code holds them to be, writing a page to any place that
  the largest file has room for and reading from any place return the same codes and bytes as the
  contract, refused ones included, and the contents stay in step.
\<close>

theorem swap_file_implements_contract:
  fixes s :: "'a kfile_scheme"
  assumes "idle s" "swapFile (ptable s ! p) = Some f" "opened f ip s" "readable (file_at s f) \<noteq> 0" "writable (file_at s f) \<noteq> 0"
    "fdata s ip = swapdata s p"
  shows "(\<forall>d off. d \<noteq> [] \<longrightarrow> unat off + length d \<le> MAXFILE * BSIZE \<longrightarrow> wroom (length d) < avail ip s \<longrightarrow>
      (\<exists>r t s'. writeToSwapFile p (Inr d) off s = Inr (r, t) \<and> swap_write p (Inr d) off (length d) s = Inr (r, s') \<and>
        fdata t ip = swapdata s' p \<and> idle t \<and> opened f ip t)) \<and>
    (\<forall>off n. unat n < 2 ^ 31 \<longrightarrow> unat off + unat n < 2 ^ 32 \<longrightarrow>
      (\<exists>r bs t. readFromSwapFile p off n s = Inr (r, bs, t) \<and> swap_read p off (unat n) s = Inr (r, bs) \<and>
        fdata t ip = swapdata s p \<and> idle t \<and> opened f ip t))"
  using swap_write_implemented [OF assms(1,2,3,5,6)] swap_read_implemented [OF assms(1,2,3,4,6)] by blast

text \<open>The small disk with its file as the swap file of process 3.\<close>

definition swap0 :: kfile where
  "swap0 = file0s\<lparr>swapdata := \<lambda>_. []\<rparr>"

lemma binit_loop_ptable: "ptable (binit_loop is s) = ptable s"
  by (induction "is" arbitrary: s) (simp_all add: link_front_def initsleeplock_def upd_buf_def Let_def)

lemma swap0_ok: "idle swap0" "opened 0 0 swap0" "fdata swap0 0 = []" "avail 0 swap0 = 63" "swapFile (ptable swap0 ! 1) = Some 0"
  "file_at swap0 0 = hd ft0"
proof -
  have l: "lock_step file0s swap0" by (rule lock_step_intro [OF idleD(1) [OF file0s_idle]]) (simp_all add: swap0_def)
  note ld = lock_stepD [OF l] and d = idleD [OF file0s_idle]
  show "idle swap0" using ld d same_fs_ok(1) [OF ld(2) d(3,8)] by (simp add: idle_def log_ok_tx)
  have fo: "file_ok 0 file0s" using file0s_open(1) by (simp add: opened_def cached_def)
  note f = same_fs_file [OF ld(2) d(3,8) fo]
  show "fdata swap0 0 = []" "avail 0 swap0 = 63" using f file0s_open(2,3) by simp_all
  have c: "cached 0 swap0" using file0s_open(1) by (intro cached_same [OF ld(2) d(3,8)]) (simp_all add: opened_def cached_def swap0_def)
  show "file_at swap0 0 = hd ft0" using file0s_open(4) by (simp add: swap0_def)
  then show "opened 0 0 swap0" using c file0s_open(1) by (simp add: opened_def) (simp add: swap0_def ft0_def)
  have "ptable swap0 = ptable bio00"
    by (simp add: swap0_def file0s_def fs0_def klog0_def kfs.defs klog.defs kbio.defs binit_def binit_loop_ptable upd_buf_def)
  then show "swapFile (ptable swap0 ! 1) = Some 0"
    by (simp add: bio00_def ksleep.defs sl0_simps cons0_procs booted_def sinit_def NPROC_def)
qed

theorem swap_file_implements_contract_witness:
  "\<exists>t u. writeToSwapFile 1 (Inr (replicate 4096 7)) 0 swap0 = Inr (4096, t) \<and> fdata t 0 = replicate 4096 7 \<and>
    writeToSwapFile 1 (Inr (replicate 4096 7)) 4096 swap0 = Inr (-1, u)"
proof -
  have h: "readable (file_at swap0 0) \<noteq> 0" "writable (file_at swap0 0) \<noteq> 0" "fdata swap0 0 = swapdata swap0 1"
    using swap0_ok(3,6) by (simp_all add: ft0_def swap0_def)
  note c = conjunct1 [OF swap_file_implements_contract [OF swap0_ok(1,5,2) h]]
  have r: "wroom (length (replicate 4096 (7 :: uchar))) < avail 0 swap0" "replicate 4096 (7 :: uchar) \<noteq> []"
    "unat (0 :: uint) + length (replicate 4096 (7 :: uchar)) \<le> MAXFILE * BSIZE" "unat (4096 :: uint) + length (replicate 4096 (7 :: uchar)) \<le> MAXFILE * BSIZE"
    using swap0_ok(4) by (simp_all add: wroom_def MAXFILE_def NDIRECT_def NINDIRECT_def BSIZE_def)
  obtain x t s' where t: "writeToSwapFile 1 (Inr (replicate 4096 7)) 0 swap0 = Inr (x, t)"
    "swap_write 1 (Inr (replicate 4096 7)) 0 (length (replicate 4096 (7 :: uchar))) swap0 = Inr (x, s')" "fdata t 0 = swapdata s' 1"
    using c [rule_format, OF r(2,3,1)] by blast
  obtain y u s'' where u: "writeToSwapFile 1 (Inr (replicate 4096 7)) 4096 swap0 = Inr (y, u)"
    "swap_write 1 (Inr (replicate 4096 7)) 4096 (length (replicate 4096 (7 :: uchar))) swap0 = Inr (y, s'')"
    using c [rule_format, OF r(2,4,1)] by blast
  have sd: "swapdata swap0 1 = []" by (simp add: swap0_def)
  have "x = 4096" "swapdata s' 1 = replicate 4096 7" "y = -1" using t(2) u(2) swap0_ok(5) sd
    by (auto simp: swap_write_def content_writable_def content_write_def MAXFILE_def NDIRECT_def NINDIRECT_def BSIZE_def split: if_splits)
  with t(1,3) u(1) show ?thesis by auto
qed

end
