(* ===== verification/Grep.thy ===== *)
theory Grep
  imports Ulib
begin

text \<open>
  The pattern matcher of \<^verbatim>\<open>grep.c\<close> and the loop that feeds it lines. The matcher's patterns and texts
  are C strings: byte lists whose end is the NUL the code tests for; the buffer that the loop reads into
  may hold zero bytes, and a line ends at the newline \<open>strchr\<close> finds before the first of them. A specification without
  backtracking says when a pattern matches, and the three mutually recursive routines decide it.
\<close>

section \<open>The matcher\<close>

function (sequential) matchhere :: "uchar list \<Rightarrow> uchar list \<Rightarrow> bool"
  and matchstar :: "uchar \<Rightarrow> uchar list \<Rightarrow> uchar list \<Rightarrow> bool" where
  "matchhere [] t = True"
| "matchhere (r # re) t =
     (case re of
        c # re' \<Rightarrow> if c = 42 then matchstar r re' t
          else (case t of [] \<Rightarrow> False | x # xs \<Rightarrow> if r = 46 \<or> r = x then matchhere re xs else False)
      | [] \<Rightarrow> if r = 36 then t = []
          else (case t of [] \<Rightarrow> False | x # xs \<Rightarrow> if r = 46 \<or> r = x then matchhere re xs else False))"
| "matchstar c re t =
     (if matchhere re t then True
      else case t of [] \<Rightarrow> False | x # xs \<Rightarrow> if x = c \<or> c = 46 then matchstar c re xs else False)"
  by pat_completeness auto
termination
  by (relation "measures [\<lambda>x. case x of Inl (re, t) \<Rightarrow> length re + length t | Inr (c, re, t) \<Rightarrow> length re + length t + 1]")
    auto

fun match_from :: "uchar list \<Rightarrow> uchar list \<Rightarrow> bool" where
  "match_from re t =
     (if matchhere re t then True else case t of [] \<Rightarrow> False | x # xs \<Rightarrow> match_from re xs)"

declare match_from.simps [simp del]

definition match :: "uchar list \<Rightarrow> uchar list \<Rightarrow> bool" where
  "match re t = (case re of r # re' \<Rightarrow> if r = 94 then matchhere re' t else match_from re t
     | [] \<Rightarrow> match_from re t)"

section \<open>The loop over the input\<close>

text \<open>
  The inner loop cuts the buffer at its newlines and writes the lines that match; it returns what it
  wrote and the rest after the last newline found. \<open>strchr\<close> looks no further than a zero byte, so neither
  does the loop; the rest is what the buffer holds, zero bytes included.
\<close>

definition strchr_newline :: "uchar list \<Rightarrow> nat option" where
  "strchr_newline p = first_index (\<lambda>c. c = 10) (takeWhile (\<lambda>c. c \<noteq> 0) p)"

lemma strchr_newline_SomeD:
  assumes "strchr_newline p = Some i"
  shows "i < length p \<and> p ! i = 10 \<and> (\<forall>j < i. p ! j \<noteq> 10 \<and> p ! j \<noteq> 0)"
proof -
  let ?q = "takeWhile (\<lambda>c. c \<noteq> 0) p"
  from first_index_SomeD [OF assms [unfolded strchr_newline_def]]
  have i: "i < length ?q" "?q ! i = 10" "\<forall>j < i. ?q ! j \<noteq> 10" by auto
  have e: "p ! j = ?q ! j" if "j < length ?q" for j using takeWhile_nth [OF that] by simp
  have nz: "?q ! j \<noteq> 0" if "j < length ?q" for j using nth_mem [OF that] set_takeWhileD by fast
  have "p ! j \<noteq> 10 \<and> p ! j \<noteq> 0" if "j < i" for j
    using i(3) that e [of j] nz [of j] less_trans [OF that i(1)] by simp
  moreover have "i < length p" using i(1) length_takeWhile_le [of "\<lambda>c. c \<noteq> 0" p] by linarith
  ultimately show ?thesis using i(2) e [OF i(1)] by simp
qed

lemma strchr_newline_None: "strchr_newline p = None \<longleftrightarrow> 10 \<notin> set (takeWhile (\<lambda>c. c \<noteq> 0) p)"
  by (auto simp: strchr_newline_def)

lemma strchr_newline_text: "0 \<notin> set p \<Longrightarrow> strchr_newline p = first_index (\<lambda>c. c = 10) p"
proof -
  assume "0 \<notin> set p"
  then have "takeWhile (\<lambda>c. c \<noteq> 0) p = p" by (auto simp: takeWhile_eq_all_conv)
  then show ?thesis unfolding strchr_newline_def by (rule arg_cong)
qed

function grep_lines :: "uchar list \<Rightarrow> uchar list \<Rightarrow> uchar list \<times> uchar list" where
  "grep_lines pattern p =
     (case strchr_newline p of
        None \<Rightarrow> ([], p)
      | Some i \<Rightarrow>
          let line = take i p; r = grep_lines pattern (drop (Suc i) p)
          in ((if match pattern line then line @ [10] else []) @ fst r, snd r))"
  by pat_completeness auto
termination
  by (relation "measure (\<lambda>(_, p). length p)") (auto dest: strchr_newline_SomeD)

declare grep_lines.simps [simp del]

text \<open>
  \<open>grep\<close> on the chunks that the reads return (each as long as the free part of the buffer of 1024
  bytes allows): the carried-over part of a line is dropped when the buffer has no newline.
\<close>

fun grep_loop :: "uchar list \<Rightarrow> uchar list \<Rightarrow> uchar list list \<Rightarrow> uchar list" where
  "grep_loop pattern carry [] = []"
| "grep_loop pattern carry (chunk # chunks) =
     (if chunk = [] then []
      else let buf = carry @ chunk; r = grep_lines pattern buf
        in fst r @ grep_loop pattern (if snd r = buf then [] else snd r) chunks)"

definition grep :: "uchar list \<Rightarrow> uchar list list \<Rightarrow> uchar list" where
  "grep pattern chunks = grep_loop pattern [] chunks"

section \<open>Specification\<close>

text \<open>
  When a pattern matches at the start of a text: a starred character stands for some number of
  characters it accepts, a final dollar for the end of the text, any other character for one.
\<close>

definition accepts :: "uchar \<Rightarrow> uchar \<Rightarrow> bool" where
  "accepts r x \<longleftrightarrow> r = 46 \<or> r = x"

fun prefix_match :: "uchar list \<Rightarrow> uchar list \<Rightarrow> bool" where
  "prefix_match [] t = True"
| "prefix_match (r # c # re) t =
     (if c = 42 then \<exists>k \<le> length t. (\<forall>x \<in> set (take k t). accepts r x) \<and> prefix_match re (drop k t)
      else t \<noteq> [] \<and> accepts r (hd t) \<and> prefix_match (c # re) (tl t))"
| "prefix_match [r] t = (if r = 36 then t = [] else t \<noteq> [] \<and> accepts r (hd t))"

lemma ex_le_Suc: "(\<exists>k \<le> Suc n. P k) \<longleftrightarrow> P 0 \<or> (\<exists>k \<le> n. P (Suc k))"
  by (metis Suc_le_mono le0 not0_implies_Suc)

lemma star_step:
  "(\<exists>k \<le> length t. (\<forall>x \<in> set (take k t). accepts c x) \<and> P (drop k t)) \<longleftrightarrow>
   P t \<or> (\<exists>x xs. t = x # xs \<and> accepts c x \<and>
     (\<exists>k \<le> length xs. (\<forall>x \<in> set (take k xs). accepts c x) \<and> P (drop k xs)))"
proof (cases t)
  case (Cons x xs)
  have "(\<exists>k \<le> length t. (\<forall>x \<in> set (take k t). accepts c x) \<and> P (drop k t)) \<longleftrightarrow>
    (\<forall>x \<in> set (take 0 t). accepts c x) \<and> P (drop 0 t) \<or>
    (\<exists>k \<le> length xs. (\<forall>x \<in> set (take (Suc k) t). accepts c x) \<and> P (drop (Suc k) t))"
    unfolding Cons using ex_le_Suc [of "length xs"] by simp
  then show ?thesis using Cons by auto
qed simp

lemma matcher_spec:
  "matchhere re t \<longleftrightarrow> prefix_match re t"
  "matchstar c re t \<longleftrightarrow>
     (\<exists>k \<le> length t. (\<forall>x \<in> set (take k t). accepts c x) \<and> prefix_match re (drop k t))"
proof (induction re t and c re t rule: matchhere_matchstar.induct)
  case (2 r re t)
  then show ?case by (cases re; cases t) (auto simp: accepts_def split: if_splits)
next
  case (3 c re t)
  then show ?case
    by (subst star_step) (cases t; auto simp: accepts_def simp del: matchhere.simps)
qed simp

lemma match_from_spec: "match_from re t \<longleftrightarrow> (\<exists>i \<le> length t. prefix_match re (drop i t))"
proof (induction t)
  case Nil
  then show ?case by (subst match_from.simps) (simp add: matcher_spec)
next
  case (Cons x xs)
  have "(\<exists>i \<le> length (x # xs). prefix_match re (drop i (x # xs))) \<longleftrightarrow>
    prefix_match re (x # xs) \<or> (\<exists>i \<le> length xs. prefix_match re (drop i xs))"
    using ex_le_Suc [of "length xs" "\<lambda>i. prefix_match re (drop i (x # xs))"] by simp
  with Cons show ?case by (subst match_from.simps) (simp add: matcher_spec)
qed

section \<open>Properties\<close>

text \<open>
  C37. The matcher decides the pattern language: \<open>match\<close> is true exactly when the pattern matches at
  some position of the text, or at its start when the pattern begins with a caret, where a starred
  character may stand for any number of characters; the search is total.
\<close>

theorem match_correct:
  "match re t \<longleftrightarrow> (if re \<noteq> [] \<and> hd re = 94 then prefix_match (tl re) t
     else \<exists>i \<le> length t. prefix_match re (drop i t))"
  by (cases re) (auto simp: match_def matcher_spec match_from_spec)

text \<open>The complete lines of a text, and what follows the last newline.\<close>

fun lines_of :: "uchar list \<Rightarrow> uchar list \<Rightarrow> uchar list list \<times> uchar list" where
  "lines_of acc [] = ([], acc)"
| "lines_of acc (c # t) = (if c = 10 then let r = lines_of [] t in (acc # fst r, snd r) else lines_of (acc @ [c]) t)"

lemma lines_of_no_newline: "10 \<notin> set p \<Longrightarrow> lines_of acc p = ([], acc @ p)"
  by (induction p arbitrary: acc) auto

lemma lines_of_line: "10 \<notin> set p \<Longrightarrow> lines_of acc (p @ 10 # t) = ((acc @ p) # fst (lines_of [] t), snd (lines_of [] t))"
  by (induction p arbitrary: acc) (auto simp: Let_def)

lemma lines_of_append:
  "lines_of acc (s @ t) = (fst (lines_of acc s) @ fst (lines_of (snd (lines_of acc s)) t), snd (lines_of (snd (lines_of acc s)) t))"
  by (induction acc s rule: lines_of.induct) (auto simp: Let_def)

definition show_matches :: "uchar list \<Rightarrow> uchar list list \<Rightarrow> uchar list" where
  "show_matches pattern ls = concat (map (\<lambda>l. l @ [10]) (filter (match pattern) ls))"

lemma grep_lines_spec:
  assumes "0 \<notin> set p"
  shows "fst (grep_lines pattern p) = show_matches pattern (fst (lines_of [] p)) \<and>
   snd (grep_lines pattern p) = snd (lines_of [] p)"
  using assms
proof (induction pattern p rule: grep_lines.induct)
  case (1 pattern p)
  note t = strchr_newline_text [OF 1(2)]
  show ?case
  proof (cases "strchr_newline p")
    case None
    then have "10 \<notin> set p" by (auto simp: t)
    moreover have "grep_lines pattern p = ([], p)" by (subst grep_lines.simps) (unfold None, simp)
    ultimately show ?thesis using lines_of_no_newline [of p "[]"] by (simp add: show_matches_def)
  next
    case (Some i)
    from strchr_newline_SomeD [OF Some] have i: "i < length p" "p ! i = 10" "\<forall>j < i. p ! j \<noteq> 10" by auto
    then have nl: "10 \<notin> set (take i p)" by (auto simp: in_set_conv_nth)
    have p: "p = take i p @ 10 # drop (Suc i) p" using i id_take_nth_drop [of i p] by simp
    have l: "lines_of [] p = (take i p # fst (lines_of [] (drop (Suc i) p)), snd (lines_of [] (drop (Suc i) p)))"
      by (subst p) (simp add: lines_of_line [OF nl])
    have "0 \<notin> set (drop (Suc i) p)" using 1(2) by (auto dest: in_set_dropD)
    from 1(1) [OF Some refl this] show ?thesis
      by (subst (1 2) grep_lines.simps) (simp add: Some l Let_def show_matches_def)
  qed
qed

lemma lines_of_rest_shorter: "10 \<in> set p \<Longrightarrow> length (snd (lines_of acc p)) < length acc + length p"
proof (induction acc p rule: lines_of.induct)
  case (2 acc c t)
  have "length (snd (lines_of a u)) \<le> length a + length u" for a u
    by (induction a u rule: lines_of.induct) (auto simp: Let_def)
  from this [of "[]" t] 2 show ?case by (auto simp: Let_def)
qed simp

lemma lines_of_rest_clean: "10 \<notin> set acc \<Longrightarrow> 10 \<notin> set (snd (lines_of acc p))"
  by (induction acc p rule: lines_of.induct) (auto simp: Let_def)

lemma lines_of_carry: "10 \<notin> set carry \<Longrightarrow> lines_of [] (carry @ t) = lines_of carry t"
  using lines_of_append [of "[]" carry t] lines_of_no_newline [of carry "[]"] by simp

lemma lines_of_rest_subset: "set (snd (lines_of acc p)) \<subseteq> set acc \<union> set p"
  by (induction acc p rule: lines_of.induct) (auto simp: Let_def)

lemma grep_loop_spec:
  assumes "10 \<notin> set carry" "0 \<notin> set carry" "\<forall>c \<in> set chunks. 10 \<in> set c \<and> 0 \<notin> set c"
  shows "grep_loop pattern carry chunks = show_matches pattern (fst (lines_of carry (concat chunks)))"
  using assms
proof (induction chunks arbitrary: carry)
  case Nil
  then show ?case by (simp add: show_matches_def)
next
  case (Cons c cs)
  let ?r = "lines_of carry c"
  have ne: "c \<noteq> []" "0 \<notin> set (carry @ c)" using Cons.prems by auto
  have g: "fst (grep_lines pattern (carry @ c)) = show_matches pattern (fst ?r)"
    "snd (grep_lines pattern (carry @ c)) = snd ?r"
    using grep_lines_spec [OF ne(2), of pattern] lines_of_carry [OF Cons.prems(1)] by simp_all
  have "length (snd ?r) < length (carry @ c)" using lines_of_rest_shorter [of c carry] Cons.prems(3) by simp
  then have "snd ?r \<noteq> carry @ c" by auto
  then have "grep_loop pattern carry (c # cs) = show_matches pattern (fst ?r) @ grep_loop pattern (snd ?r) cs"
    using ne(1) g by (simp add: Let_def)
  also have "grep_loop pattern (snd ?r) cs = show_matches pattern (fst (lines_of (snd ?r) (concat cs)))"
  proof (rule Cons.IH)
    show "10 \<notin> set (snd ?r)" by (rule lines_of_rest_clean [OF Cons.prems(1)])
    show "0 \<notin> set (snd ?r)" using lines_of_rest_subset [of carry c] ne(2) by auto
  qed (use Cons.prems(3) in simp)
  finally show ?case using lines_of_append [of carry c "concat cs"] by (simp add: show_matches_def)
qed

text \<open>
  C38. \<open>grep\<close> prints the lines that match, in order, wherever the reads cut the input, as long as the
  input is text (it has no zero byte, at which \<open>strchr\<close> would stop) and every read brings a newline: the
  output is exactly the complete lines of the input that the matcher accepts, each with its newline.
  (Text after the last newline is not searched.)
\<close>

theorem grep_prints_matches:
  assumes "\<forall>c \<in> set chunks. 10 \<in> set c \<and> 0 \<notin> set c"
  shows "grep pattern chunks =
    concat (map (\<lambda>l. l @ [10]) (filter (match pattern) (fst (lines_of [] (concat chunks)))))"
  using grep_loop_spec [OF _ _ assms, of "[]" pattern] by (simp add: grep_def show_matches_def)

theorem grep_prints_matches_witness:
  "grep [97] [[98, 10, 97], [99, 10]] = [97, 99, 10]"
proof -
  have "prefix_match [97] ([97, 99] :: uchar list)" by (simp add: accepts_def)
  then have m: "match [97] [97, 99]" unfolding match_correct by (auto intro!: exI [of _ 0])
  have "\<not> match [97] [98]" unfolding match_correct by (auto simp: accepts_def ex_le_Suc)
  with m grep_prints_matches [of "[[98, 10, 97], [99, 10]]" "[97]"] show ?thesis by (simp add: Let_def)
qed

text \<open>
  A read without a newline before its first zero byte loses data: \<open>grep\<close> forgets the chunk, and the
  line it began is searched from the second chunk on only.
\<close>

theorem grep_drops_partial_line:
  assumes "10 \<notin> set (takeWhile (\<lambda>c. c \<noteq> 0) c)" "c \<noteq> []"
  shows "grep pattern (c # chunks) = grep pattern chunks"
proof -
  have n: "strchr_newline c = None" using assms(1) by (simp add: strchr_newline_None)
  have "grep_lines pattern c = ([], c)" by (subst grep_lines.simps) (unfold n, simp)
  then show ?thesis using assms(2) by (simp add: grep_def Let_def)
qed

theorem grep_drops_partial_line_witness:
  "grep [97, 98] [[97], [98, 10]] = grep [97, 98] [[98, 10]] \<and> grep [98] [[97, 0, 98, 10]] = grep [98] []"
  using grep_drops_partial_line [of "[97]" "[97, 98]" "[[98, 10]]"] grep_drops_partial_line [of "[97, 0, 98, 10]" "[98]" "[]"]
  by simp

end
