(* ===== verification/Cake.thy ===== *)
theory Cake
  imports Prelude "HOL-Library.Sublist"
begin

text \<open>
  The cake factory of \<^verbatim>\<open>IPC/CakeFactory\<close>: two chefs put cakes into one bounded queue, a third moves each
  cake to the queue of its kind, two waiters sell. Threads are sequences of statements on the shared
  queue, the two counters, six semaphores and four mutexes; a step runs one statement of one thread, so
  that every interleaving of the program is a sequence of steps. A statement of \<^verbatim>\<open>sem_wait\<close> or
  \<^verbatim>\<open>pthread_mutex_lock\<close> that has to wait blocks. What the standard library leaves undefined (the front of
  an empty queue, unlocking a mutex of another thread) is an outcome of its own.
\<close>

section \<open>Shared state\<close>

type_synonym cake_t = string
type_synonym chef_t = string
type_synonym size_t = "64 word"

definition CAKE_CHOCOLATE :: cake_t where "CAKE_CHOCOLATE = ''Chocolate Cake''"
definition CAKE_VANILLA :: cake_t where "CAKE_VANILLA = ''Vanilla Cake''"
definition CHEF_X :: chef_t where "CHEF_X = ''Chef_X''"
definition CHEF_Y :: chef_t where "CHEF_Y = ''Chef_Y''"
definition CHEF_Z :: chef_t where "CHEF_Z = ''Chef_Z''"
definition WAITER_VANILLA :: string where "WAITER_VANILLA = ''Vanilla Waiter''"
definition WAITER_CHOCOLATE :: string where "WAITER_CHOCOLATE = ''Chocolate Waiter''"

definition MAX_NO_OF_PRODUCDED_CAKES :: nat where "MAX_NO_OF_PRODUCDED_CAKES = 5"
definition MAX_NO_OF_VANILLA_CAKES :: nat where "MAX_NO_OF_VANILLA_CAKES = 5"
definition MAX_NO_OF_CHOCOLATE_CAKES :: nat where "MAX_NO_OF_CHOCOLATE_CAKES = 5"

datatype kind = Vanilla | Chocolate
datatype sem_id = Q1_full | Q1_empty | Q_full kind | Q_empty kind
datatype mutex_id = Lock_console | Lock_Q1 | Lock_Q kind
datatype thread = ChefX | ChefY | ChefZ | WaiterChocolate | WaiterVanilla

text \<open>The local variables of the threads.\<close>

record frame =
  topCakeQ1 :: cake_t
  cake :: cake_t
  qSize :: size_t

datatype stmt =
    LockM mutex_id
  | UnlockM mutex_id
  | SemP sem_id
  | SemV sem_id
  | PushQ1 cake_t
  | SizeQ1
  | LookFront
  | TakeFront
  | PopQ1
  | Inc kind
  | Dec kind
  | Print "frame \<Rightarrow> string"
  | IfTop cake_t "stmt list" "stmt list"

record factory =
  q1 :: "cake_t list"
  nCakes :: "kind \<Rightarrow> size_t"
  sem :: "sem_id \<Rightarrow> nat"
  holder :: "mutex_id \<Rightarrow> thread option"
  frames :: "thread \<Rightarrow> frame"
  rest :: "thread \<Rightarrow> stmt list"
  out :: string
  timeoutPassed :: bool

section \<open>Statements\<close>

datatype outcome = Runs factory | Blocks | Undef string

definition set_frame :: "thread \<Rightarrow> (frame \<Rightarrow> frame) \<Rightarrow> factory \<Rightarrow> factory" where
  "set_frame t f s = s\<lparr>frames := (frames s)(t := f (frames s t))\<rparr>"

definition jump :: "thread \<Rightarrow> stmt list \<Rightarrow> factory \<Rightarrow> factory" where
  "jump t k s = s\<lparr>rest := (rest s)(t := k)\<rparr>"

fun run :: "thread \<Rightarrow> stmt \<Rightarrow> stmt list \<Rightarrow> factory \<Rightarrow> outcome" where
  "run t (LockM m) k s = (if holder s m = None then Runs (jump t k (s\<lparr>holder := (holder s)(m := Some t)\<rparr>)) else Blocks)"
| "run t (UnlockM m) k s = (if holder s m = Some t then Runs (jump t k (s\<lparr>holder := (holder s)(m := None)\<rparr>))
     else Undef ''unlock of a mutex of another thread'')"
| "run t (SemP x) k s = (if sem s x > 0 then Runs (jump t k (s\<lparr>sem := (sem s)(x := sem s x - 1)\<rparr>)) else Blocks)"
| "run t (SemV x) k s = Runs (jump t k (s\<lparr>sem := (sem s)(x := sem s x + 1)\<rparr>))"
| "run t (PushQ1 c) k s = Runs (jump t k (s\<lparr>q1 := q1 s @ [c]\<rparr>))"
| "run t SizeQ1 k s = Runs (jump t k (set_frame t (\<lambda>f. f\<lparr>qSize := of_nat (length (q1 s))\<rparr>) s))"
| "run t LookFront k s = (if q1 s = [] then Undef ''front of an empty queue''
     else Runs (jump t k (set_frame t (\<lambda>f. f\<lparr>topCakeQ1 := hd (q1 s)\<rparr>) s)))"
| "run t TakeFront k s = (if q1 s = [] then Undef ''front of an empty queue''
     else Runs (jump t k (set_frame t (\<lambda>f. f\<lparr>cake := hd (q1 s)\<rparr>) s)))"
| "run t PopQ1 k s = (if q1 s = [] then Undef ''pop of an empty queue'' else Runs (jump t k (s\<lparr>q1 := tl (q1 s)\<rparr>)))"
| "run t (Inc x) k s = (let n = nCakes s x + 1
     in Runs (jump t k (set_frame t (\<lambda>f. f\<lparr>qSize := n\<rparr>) (s\<lparr>nCakes := (nCakes s)(x := n)\<rparr>))))"
| "run t (Dec x) k s = (let n = nCakes s x - 1
     in Runs (jump t k (set_frame t (\<lambda>f. f\<lparr>qSize := n\<rparr>) (s\<lparr>nCakes := (nCakes s)(x := n)\<rparr>))))"
| "run t (Print msg) k s = Runs (jump t k (s\<lparr>out := out s @ msg (frames s t) @ ''\<newline>\<newline>''\<rparr>))"
| "run t (IfTop c a b) k s = Runs (jump t ((if topCakeQ1 (frames s t) = c then a else b) @ k) s)"

section \<open>The threads\<close>

function to_string :: "nat \<Rightarrow> string" where
  "to_string n = (if n < 10 then [char_of (48 + n)] else to_string (n div 10) @ [char_of (48 + n mod 10)])"
  by pat_completeness auto
termination by (relation "measure id") auto

declare to_string.simps [simp del]

definition count_msg :: "string \<Rightarrow> frame \<Rightarrow> string" where
  "count_msg txt f = txt @ to_string (unat (qSize f))"

definition printInConsole :: "(frame \<Rightarrow> string) \<Rightarrow> stmt list" where
  "printInConsole msg = [Print msg]"

definition printInConsoleWithLocking :: "(frame \<Rightarrow> string) \<Rightarrow> stmt list" where
  "printInConsoleWithLocking msg = [LockM Lock_console, Print msg, UnlockM Lock_console]"

definition put_msg :: "chef_t \<Rightarrow> cake_t \<Rightarrow> frame \<Rightarrow> string" where
  "put_msg chef c = count_msg (chef @ '' has just put a '' @ c @ '' in Queue1\<newline>#Cakes in Q1: '')"

definition putInQ1 :: "chef_t \<Rightarrow> cake_t \<Rightarrow> stmt list" where
  "putInQ1 chef c = [LockM Lock_Q1, PushQ1 c, SizeQ1, SemV Q1_full, LockM Lock_console, UnlockM Lock_Q1] @
     printInConsole (put_msg chef c) @ [UnlockM Lock_console]"

definition pop_msg :: "chef_t \<Rightarrow> frame \<Rightarrow> string" where
  "pop_msg chef f = count_msg (chef @ '' has just taken a '' @ cake f @ '' from Queue1\<newline>#Cakes in Q1: '') f"

definition popFromQ1 :: "chef_t \<Rightarrow> stmt list" where
  "popFromQ1 chef = [LockM Lock_Q1, TakeFront, PopQ1, SizeQ1, SemV Q1_empty, LockM Lock_console, UnlockM Lock_Q1] @
     printInConsole (pop_msg chef) @ [UnlockM Lock_console]"

definition look_msg :: "chef_t \<Rightarrow> frame \<Rightarrow> string" where
  "look_msg chef f = chef @ '' has checked and found '' @ topCakeQ1 f @ '' at top of Queue1\<newline>''"

definition lookIntoQ1 :: "chef_t \<Rightarrow> stmt list" where
  "lookIntoQ1 chef = [LockM Lock_Q1, LookFront, UnlockM Lock_Q1] @ printInConsoleWithLocking (look_msg chef)"

text \<open>One turn of the loop of each thread.\<close>

definition supply_waits :: "chef_t \<Rightarrow> cake_t \<Rightarrow> frame \<Rightarrow> string" where
  "supply_waits chef c _ = ''>> '' @ chef @ '' is waiting to put a '' @ c @ '' in Q1.....''"

definition supply_starts :: "chef_t \<Rightarrow> cake_t \<Rightarrow> frame \<Rightarrow> string" where
  "supply_starts chef c _ = ''>> '' @ chef @ '' has started supplying '' @ c @ '' in Q1.''"

definition vanillaChef :: "stmt list" where
  "vanillaChef = printInConsoleWithLocking (supply_waits CHEF_Y CAKE_VANILLA) @ [SemP Q1_empty] @
     printInConsoleWithLocking (supply_starts CHEF_Y CAKE_VANILLA) @ putInQ1 CHEF_Y CAKE_VANILLA"

definition chocolateChef :: "stmt list" where
  "chocolateChef = printInConsoleWithLocking (supply_waits CHEF_X CAKE_CHOCOLATE) @ [SemP Q1_empty] @
     printInConsoleWithLocking (supply_starts CHEF_X CAKE_CHOCOLATE) @ putInQ1 CHEF_X CAKE_CHOCOLATE"

definition kind_name :: "kind \<Rightarrow> string" where
  "kind_name x = (case x of Vanilla \<Rightarrow> ''Vanilla'' | Chocolate \<Rightarrow> ''Chocolate'')"

definition carry_waits :: "kind \<Rightarrow> frame \<Rightarrow> string" where
  "carry_waits x f = ''>> '' @ CHEF_Z @ '' is waiting to put a '' @ topCakeQ1 f @ '' in Queue_'' @ kind_name x @ ''.....''"

definition carry_starts :: "kind \<Rightarrow> frame \<Rightarrow> string" where
  "carry_starts x f = ''>> '' @ CHEF_Z @ '' has started supplying '' @ topCakeQ1 f @ '' in Queue_'' @ kind_name x @ ''.''"

definition carry_msg :: "kind \<Rightarrow> frame \<Rightarrow> string" where
  "carry_msg x f = count_msg (CHEF_Z @ '' has just put a '' @ cake f @ '' in Queue_'' @ kind_name x @
     ''\<newline>#Cakes in Q'' @ kind_name x @ '': '') f"

text \<open>The two branches of the carrier differ only in the kind.\<close>

definition carry :: "kind \<Rightarrow> stmt list" where
  "carry x = printInConsoleWithLocking (carry_waits x) @ [SemP (Q_empty x)] @
     printInConsoleWithLocking (carry_starts x) @ popFromQ1 CHEF_Z @
     [LockM (Lock_Q x), Inc x, UnlockM (Lock_Q x), LockM Lock_console, SemV (Q_full x)] @
     printInConsole (carry_msg x) @ [UnlockM Lock_console]"

definition take_waits :: "frame \<Rightarrow> string" where
  "take_waits _ = ''>> '' @ CHEF_Z @ '' is waiting to take a Cake From Q1.....''"

definition take_starts :: "frame \<Rightarrow> string" where
  "take_starts _ = ''>> '' @ CHEF_Z @ '' has started looking into Q1.''"

definition carrierChef :: "stmt list" where
  "carrierChef = printInConsoleWithLocking take_waits @ [SemP Q1_full] @ printInConsoleWithLocking take_starts @
     lookIntoQ1 CHEF_Z @
     [IfTop CAKE_VANILLA (carry Vanilla) [IfTop CAKE_CHOCOLATE (carry Chocolate) []]]"

definition sell_waits :: "string \<Rightarrow> cake_t \<Rightarrow> frame \<Rightarrow> string" where
  "sell_waits waiter c _ = ''>> '' @ waiter @ '' is waiting to take '' @ c @ ''.....''"

definition sell_starts :: "string \<Rightarrow> kind \<Rightarrow> frame \<Rightarrow> string" where
  "sell_starts waiter x _ = ''>> '' @ waiter @ '' has started selling  from Queue_'' @ kind_name x @ ''.''"

definition sell_msg :: "string \<Rightarrow> kind \<Rightarrow> frame \<Rightarrow> string" where
  "sell_msg waiter x = count_msg (waiter @ '' has just sold a cake from Queue_'' @ kind_name x @
     ''\<newline>#Cakes in Q'' @ kind_name x @ '': '')"

definition vanillaWaiter :: "stmt list" where
  "vanillaWaiter = printInConsoleWithLocking (sell_waits WAITER_VANILLA CAKE_VANILLA) @ [SemP (Q_full Vanilla)] @
     printInConsoleWithLocking (sell_starts WAITER_VANILLA Vanilla) @
     [LockM (Lock_Q Vanilla), Dec Vanilla, SemV (Q_empty Vanilla), LockM Lock_console, UnlockM (Lock_Q Vanilla)] @
     printInConsole (sell_msg WAITER_VANILLA Vanilla) @ [UnlockM Lock_console]"

definition chocolateWaiter :: "stmt list" where
  "chocolateWaiter = printInConsoleWithLocking (sell_waits WAITER_CHOCOLATE CAKE_CHOCOLATE) @ [SemP (Q_full Chocolate)] @
     printInConsoleWithLocking (sell_starts WAITER_CHOCOLATE Chocolate) @
     [LockM (Lock_Q Chocolate), Dec Chocolate, SemV (Q_empty Chocolate), LockM Lock_console, UnlockM (Lock_Q Chocolate)] @
     printInConsole (sell_msg WAITER_CHOCOLATE Chocolate) @ [UnlockM Lock_console]"

definition body :: "thread \<Rightarrow> stmt list" where
  "body t = (case t of ChefX \<Rightarrow> chocolateChef | ChefY \<Rightarrow> vanillaChef | ChefZ \<Rightarrow> carrierChef
     | WaiterChocolate \<Rightarrow> chocolateWaiter | WaiterVanilla \<Rightarrow> vanillaWaiter)"

definition greeting :: "thread \<Rightarrow> string" where
  "greeting t = (case t of ChefX \<Rightarrow> ''\<newline>>>> Chef X Started\<newline>'' | ChefY \<Rightarrow> ''\<newline>>>> Chef Y Started\<newline>''
     | ChefZ \<Rightarrow> ''\<newline>>>> Chef Z Started\<newline>'' | WaiterChocolate \<Rightarrow> ''\<newline>>>> Chocolate Waiter Started\<newline>''
     | WaiterVanilla \<Rightarrow> ''\<newline>>>> Vanilla Waiter Started\<newline>'')"

text \<open>A step of a thread; with nothing left of a turn it tests the flag and starts the next.\<close>

definition step :: "thread \<Rightarrow> factory \<Rightarrow> outcome" where
  "step t s =
     (case rest s t of
        [] \<Rightarrow> if timeoutPassed s then Blocks else Runs (jump t (body t) s)
      | x # k \<Rightarrow> run t x k s)"

text \<open>What \<open>initLocks\<close> leaves, with the threads created: each has its greeting to print.\<close>

definition initLocks :: "factory \<Rightarrow> factory" where
  "initLocks s = s\<lparr>sem := (\<lambda>x. case x of Q1_empty \<Rightarrow> MAX_NO_OF_PRODUCDED_CAKES | Q1_full \<Rightarrow> 0
     | Q_empty Vanilla \<Rightarrow> MAX_NO_OF_VANILLA_CAKES | Q_empty Chocolate \<Rightarrow> MAX_NO_OF_CHOCOLATE_CAKES
     | Q_full _ \<Rightarrow> 0), holder := (\<lambda>_. None)\<rparr>"

definition globals :: factory where
  "globals = \<lparr>q1 = [], nCakes = (\<lambda>_. 0), sem = (\<lambda>_. 0), holder = (\<lambda>_. None),
     frames = (\<lambda>_. \<lparr>topCakeQ1 = [], cake = [], qSize = 0\<rparr>), rest = (\<lambda>_. []), out = [], timeoutPassed = False\<rparr>"

definition started :: factory where
  "started = (initLocks globals)\<lparr>rest := (\<lambda>t. printInConsoleWithLocking (\<lambda>_. greeting t))\<rparr>"

inductive reachable :: "factory \<Rightarrow> bool" where
  start: "reachable started"
| step: "reachable s \<Longrightarrow> step t s = Runs s' \<Longrightarrow> reachable s'"

section \<open>Accounts\<close>

text \<open>
  Every semaphore goes with a quantity that the statements still to be run of all threads keep in
  balance: what a statement adds to the state it takes from the sum of the weights ahead. A test of the
  top cake has the weight of the branches behind it.
\<close>

fun w_empty :: "stmt \<Rightarrow> int" where
  "w_empty (PushQ1 c) = 1"
| "w_empty (SemP x) = (if x = Q1_empty then -1 else 0)"
| "w_empty (SemV x) = (if x = Q1_empty then 1 else 0)"
| "w_empty PopQ1 = -1"
| "w_empty _ = 0"

fun w_full :: "stmt \<Rightarrow> int" where
  "w_full (PushQ1 c) = -1"
| "w_full (SemV x) = (if x = Q1_full then 1 else 0)"
| "w_full (SemP x) = (if x = Q1_full then -1 else 0)"
| "w_full PopQ1 = 1"
| "w_full (IfTop c a b) = 1"
| "w_full _ = 0"

fun w_qempty :: "kind \<Rightarrow> stmt \<Rightarrow> int" where
  "w_qempty y (Inc x) = (if x = y then 1 else 0)"
| "w_qempty y (Dec x) = (if x = y then -1 else 0)"
| "w_qempty y (SemP x) = (if x = Q_empty y then -1 else 0)"
| "w_qempty y (SemV x) = (if x = Q_empty y then 1 else 0)"
| "w_qempty y _ = 0"

fun w_qfull :: "kind \<Rightarrow> stmt \<Rightarrow> int" where
  "w_qfull y (Inc x) = (if x = y then -1 else 0)"
| "w_qfull y (Dec x) = (if x = y then 1 else 0)"
| "w_qfull y (SemP x) = (if x = Q_full y then -1 else 0)"
| "w_qfull y (SemV x) = (if x = Q_full y then 1 else 0)"
| "w_qfull y _ = 0"

fun w_lock :: "mutex_id \<Rightarrow> stmt \<Rightarrow> int" where
  "w_lock m (LockM x) = (if x = m then -1 else 0)"
| "w_lock m (UnlockM x) = (if x = m then 1 else 0)"
| "w_lock m _ = 0"

definition ahead :: "(stmt \<Rightarrow> int) \<Rightarrow> stmt list \<Rightarrow> int" where
  "ahead w k = sum_list (map w k)"

lemma ahead_simps [simp]: "ahead w [] = 0" "ahead w (x # k) = w x + ahead w k" "ahead w (j @ k) = ahead w j + ahead w k"
  by (simp_all add: ahead_def)

definition total :: "(stmt \<Rightarrow> int) \<Rightarrow> (thread \<Rightarrow> stmt list) \<Rightarrow> int" where
  "total w r = ahead w (r ChefX) + ahead w (r ChefY) + ahead w (r ChefZ) + ahead w (r WaiterChocolate) + ahead w (r WaiterVanilla)"

lemma total_upd: "total w (r(t := k)) = total w r - ahead w (r t) + ahead w k"
  by (cases t) (simp_all add: total_def)

section \<open>The places of the threads\<close>

definition second_test :: "stmt list" where
  "second_test = [IfTop CAKE_CHOCOLATE (carry Chocolate) []]"

definition places :: "thread \<Rightarrow> stmt list list" where
  "places t = suffixes (body t) @ suffixes (printInConsoleWithLocking (\<lambda>_. greeting t)) @
     (if t = ChefZ then second_test # suffixes (carry Vanilla) @ suffixes (carry Chocolate) else [])"

lemmas thread_defs = body_def vanillaChef_def chocolateChef_def carrierChef_def vanillaWaiter_def chocolateWaiter_def
  putInQ1_def popFromQ1_def lookIntoQ1_def printInConsole_def printInConsoleWithLocking_def second_test_def

text \<open>What is owed at a place, for every account and by its first statement.\<close>

definition owed :: "thread \<Rightarrow> stmt list \<Rightarrow> bool" where
  "owed t k \<longleftrightarrow> 0 \<le> ahead w_empty k \<and> 0 \<le> ahead w_full k \<and> 0 \<le> ahead (w_qempty Vanilla) k \<and> 0 \<le> ahead (w_qempty Chocolate) k \<and>
     0 \<le> ahead (w_qfull Vanilla) k \<and> 0 \<le> ahead (w_qfull Chocolate) k"

definition owed_lock :: "mutex_id \<Rightarrow> stmt list \<Rightarrow> bool" where
  "owed_lock m k \<longleftrightarrow> 0 \<le> ahead (w_lock m) k \<and> ahead (w_lock m) k \<le> 1"

fun head_ok :: "thread \<Rightarrow> stmt list \<Rightarrow> bool" where
  "head_ok t [] = True"
| "head_ok t (x # k) =
     (case x of
        LockM m \<Rightarrow> ahead (w_lock m) (x # k) = 0
      | UnlockM m \<Rightarrow> ahead (w_lock m) (x # k) = 1
      | LookFront \<Rightarrow> t = ChefZ \<and> ahead w_full (x # k) = 1
      | TakeFront \<Rightarrow> t = ChefZ \<and> ahead w_full (x # k) = 1
      | PopQ1 \<Rightarrow> t = ChefZ \<and> ahead w_full (x # k) = 1
      | PushQ1 c \<Rightarrow> t \<noteq> ChefZ \<and> c \<in> {CAKE_VANILLA, CAKE_CHOCOLATE} \<and> ahead w_empty (x # k) = 1
      | Dec y \<Rightarrow> t \<noteq> ChefZ \<and> ahead (w_qfull y) (x # k) = 1
      | Inc y \<Rightarrow> t = ChefZ \<and> ahead (w_qempty y) (x # k) = 1
      | IfTop c a b \<Rightarrow> t = ChefZ
      | _ \<Rightarrow> True)"

lemma places_owed: "list_all (owed t) (places t)"
  by (cases t) (simp_all add: owed_def places_def thread_defs carry_def)

lemma mutex_exhaust: "m \<in> {Lock_console, Lock_Q1, Lock_Q Vanilla, Lock_Q Chocolate}"
  by (cases m) (auto intro: kind.exhaust)

lemma places_lock: "list_all (owed_lock m) (places t)"
  using mutex_exhaust [of m]
  by (elim insertE emptyE; cases t) (simp_all add: owed_lock_def places_def thread_defs carry_def)

lemma places_head: "list_all (head_ok t) (places t)"
  by (cases t) (simp_all add: places_def thread_defs carry_def)

lemma place_facts:
  assumes "k \<in> set (places t)"
  shows "owed t k" "owed_lock m k" "head_ok t k"
  using assms places_owed [of t] places_lock [of m t] places_head [of t] by (auto simp: list_all_iff)

lemma place_nonneg:
  assumes "k \<in> set (places t)"
  shows "0 \<le> ahead w_empty k" "0 \<le> ahead w_full k" "0 \<le> ahead (w_qempty y) k" "0 \<le> ahead (w_qfull y) k"
    "0 \<le> ahead (w_lock m) k" "ahead (w_lock m) k \<le> 1"
  using place_facts(1,2) [OF assms] by (cases y; auto simp: owed_def owed_lock_def)+

lemma total_bounds:
  assumes "\<And>t. r t \<in> set (places t)"
  shows "ahead w_empty (r t) \<le> total w_empty r" "ahead w_full (r t) \<le> total w_full r"
    "ahead (w_qempty y) (r t) \<le> total (w_qempty y) r" "ahead (w_qfull y) (r t) \<le> total (w_qfull y) r"
    "0 \<le> total w_empty r" "0 \<le> total w_full r" "0 \<le> total (w_qempty y) r" "0 \<le> total (w_qfull y) r"
proof -
  have g: "ahead w (r t) \<le> total w r \<and> 0 \<le> total w r" if "\<And>t. 0 \<le> ahead w (r t)" for w
    using that [of ChefX] that [of ChefY] that [of ChefZ] that [of WaiterChocolate] that [of WaiterVanilla]
    by (cases t) (simp_all add: total_def)
  show "ahead w_empty (r t) \<le> total w_empty r" "ahead w_full (r t) \<le> total w_full r"
    "ahead (w_qempty y) (r t) \<le> total (w_qempty y) r" "ahead (w_qfull y) (r t) \<le> total (w_qfull y) r"
    "0 \<le> total w_empty r" "0 \<le> total w_full r" "0 \<le> total (w_qempty y) r" "0 \<le> total (w_qfull y) r"
    using g place_nonneg [OF assms] by blast+
qed

lemma places_tl: "x # k \<in> set (places t) \<Longrightarrow> (\<And>c a b. x \<noteq> IfTop c a b) \<Longrightarrow> k \<in> set (places t)"
  by (auto simp: places_def second_test_def dest: suffix_ConsD)

lemma carry_net:
  "ahead w_empty (carry x) = 0" "ahead w_full (carry x) = 1" "ahead (w_qempty y) (carry x) = 0"
  "ahead (w_qfull y) (carry x) = 0" "ahead (w_lock m) (carry x) = 0"
  by (simp_all add: carry_def popFromQ1_def printInConsole_def printInConsoleWithLocking_def)

lemma body_net:
  "ahead w_empty (body t) = 0" "ahead w_full (body t) = 0" "ahead (w_qempty y) (body t) = 0"
  "ahead (w_qfull y) (body t) = 0" "ahead (w_lock m) (body t) = 0"
  by (cases t; simp add: thread_defs)+

section \<open>The invariant\<close>

definition cake_of :: "kind \<Rightarrow> cake_t" where
  "cake_of x = (case x of Vanilla \<Rightarrow> CAKE_VANILLA | Chocolate \<Rightarrow> CAKE_CHOCOLATE)"

text \<open>What the carrier knows of the cake it moves.\<close>

fun is_test :: "stmt \<Rightarrow> bool" where
  "is_test (IfTop c a b) = True"
| "is_test _ = False"

definition carrier_ok :: "factory \<Rightarrow> bool" where
  "carrier_ok s \<longleftrightarrow> (let k = rest s ChefZ; f = frames s ChefZ
     in ((\<exists>x \<in> set k. is_test x) \<and> LookFront \<notin> set k \<longrightarrow> topCakeQ1 f = hd (q1 s)) \<and>
        (k = second_test \<longrightarrow> topCakeQ1 f \<noteq> CAKE_VANILLA) \<and>
        (\<forall>x. Inc x \<in> set k \<and> PopQ1 \<in> set k \<longrightarrow> hd (q1 s) = cake_of x) \<and>
        (\<forall>x. Inc x \<in> set k \<and> TakeFront \<notin> set k \<longrightarrow> cake f = cake_of x))"

definition accounts_ok :: "factory \<Rightarrow> bool" where
  "accounts_ok s \<longleftrightarrow>
     int (sem s Q1_empty) + int (length (q1 s)) + total w_empty (rest s) = 5 \<and>
     int (length (q1 s)) = int (sem s Q1_full) + total w_full (rest s) \<and>
     (\<forall>x. int (unat (nCakes s x)) + int (sem s (Q_empty x)) + total (w_qempty x) (rest s) = 5 \<and>
        int (unat (nCakes s x)) = int (sem s (Q_full x)) + total (w_qfull x) (rest s))"

definition locks_ok :: "factory \<Rightarrow> bool" where
  "locks_ok s \<longleftrightarrow> (\<forall>m t. holder s m = Some t \<longleftrightarrow> ahead (w_lock m) (rest s t) = 1)"

definition factory_inv :: "factory \<Rightarrow> bool" where
  "factory_inv s \<longleftrightarrow> (\<forall>t. rest s t \<in> set (places t)) \<and> accounts_ok s \<and> locks_ok s \<and>
     set (q1 s) \<subseteq> {CAKE_VANILLA, CAKE_CHOCOLATE} \<and> carrier_ok s \<and> \<not> timeoutPassed s"

lemma run_frame:
  assumes "run t x k s = Runs s'" "\<not> is_test x"
  shows "rest s' = (rest s)(t := k)" "timeoutPassed s' = timeoutPassed s"
    "t' \<noteq> t \<Longrightarrow> frames s' t' = frames s t'"
    "x \<noteq> LookFront \<Longrightarrow> topCakeQ1 (frames s' t) = topCakeQ1 (frames s t)"
    "x \<noteq> TakeFront \<Longrightarrow> cake (frames s' t) = cake (frames s t)"
    "x \<noteq> PopQ1 \<Longrightarrow> (\<And>c. x \<noteq> PushQ1 c) \<Longrightarrow> q1 s' = q1 s"
  using assms by (cases x; auto simp: jump_def set_frame_def Let_def split: if_splits)+

lemma run_locks:
  assumes "run t x k s = Runs s'" "\<not> is_test x" "rest s t = x # k" "locks_ok s" "head_ok t (x # k)"
  shows "locks_ok s'"
proof -
  have r: "rest s' = (rest s)(t := k)" using run_frame [OF assms(1,2)] by simp
  have h: "holder s m = Some u \<longleftrightarrow> ahead (w_lock m) (rest s u) = 1" for m u using assms(4) by (simp add: locks_ok_def)
  show ?thesis
  proof (cases "\<exists>m. x = LockM m \<or> x = UnlockM m")
    case False
    then have "holder s' = holder s" "w_lock m x = 0" for m
      using assms(1,2) by (cases x; auto simp: jump_def set_frame_def Let_def split: if_splits)+
    then show ?thesis using h h [of _ t] assms(3) by (simp add: locks_ok_def r)
  next
    case True
    then obtain m where m: "x = LockM m \<or> x = UnlockM m" by blast
    have a: "ahead (w_lock m') (x # k) = w_lock m' x + ahead (w_lock m') k" for m' by simp
    have ht: "holder s m' = Some t \<longleftrightarrow> w_lock m' x + ahead (w_lock m') k = 1" for m' using h [of m' t] assms(3) by simp
    show ?thesis using m
    proof
      assume x: "x = LockM m"
      then have "holder s m = None" "holder s' = (holder s)(m := Some t)"
        using assms(1) by (auto simp: jump_def split: if_splits)
      moreover from this have "ahead (w_lock m) (rest s u) \<noteq> 1" for u using h [of m u] by simp
      moreover have "ahead (w_lock m) k = 1" using assms(5) x by simp
      ultimately show ?thesis using h ht x unfolding locks_ok_def r by (auto split: if_splits)
    next
      assume x: "x = UnlockM m"
      then have "holder s m = Some t" "holder s' = (holder s)(m := None)"
        using assms(1) by (auto simp: jump_def split: if_splits)
      moreover from this have "ahead (w_lock m) (rest s u) \<noteq> 1" if "u \<noteq> t" for u using h [of m u] that by simp
      moreover have "ahead (w_lock m) k = 0" using assms(5) x by simp
      ultimately show ?thesis using h ht x unfolding locks_ok_def r by (auto split: if_splits)
    qed
  qed
qed

lemma accountsD:
  assumes "accounts_ok s"
  shows "int (sem s Q1_empty) + int (length (q1 s)) + total w_empty (rest s) = 5"
    "int (length (q1 s)) = int (sem s Q1_full) + total w_full (rest s)"
    "int (unat (nCakes s x)) + int (sem s (Q_empty x)) + total (w_qempty x) (rest s) = 5"
    "int (unat (nCakes s x)) = int (sem s (Q_full x)) + total (w_qfull x) (rest s)"
  using assms unfolding accounts_ok_def by blast+

lemma accounts_jump:
  assumes "accounts_ok s" "ahead w_empty k = ahead w_empty (rest s t)" "ahead w_full k = ahead w_full (rest s t)"
    "\<And>x. ahead (w_qempty x) k = ahead (w_qempty x) (rest s t)" "\<And>x. ahead (w_qfull x) k = ahead (w_qfull x) (rest s t)"
  shows "accounts_ok (jump t k s)"
proof -
  have f: "q1 (jump t k s) = q1 s" "sem (jump t k s) = sem s" "nCakes (jump t k s) = nCakes s"
    "total w_empty (rest (jump t k s)) = total w_empty (rest s)" "total w_full (rest (jump t k s)) = total w_full (rest s)"
    "total (w_qempty x) (rest (jump t k s)) = total (w_qempty x) (rest s)"
    "total (w_qfull x) (rest (jump t k s)) = total (w_qfull x) (rest s)" for x
    using assms(2-5) by (simp_all add: jump_def total_upd)
  show ?thesis using assms(1) unfolding accounts_ok_def f .
qed

lemma run_accounts:
  assumes "run t x k s = Runs s'" "\<not> is_test x" "rest s t = x # k" "accounts_ok s" "\<And>t. rest s t \<in> set (places t)"
  shows "accounts_ok s'"
proof -
  have r: "total w (rest s') = total w (rest s) - w x" for w
    using run_frame(1) [OF assms(1,2)] assms(3) by (simp add: total_upd)
  have n: "unat (nCakes s y) \<le> 5" for y
    using accountsD(3) [OF assms(4), of y] total_bounds(7) [of "rest s" y, OF assms(5)] by linarith
  have e: "int (sem s' Q1_empty) + int (length (q1 s')) - w_empty x = int (sem s Q1_empty) + int (length (q1 s))"
    "int (length (q1 s')) - int (sem s' Q1_full) + w_full x = int (length (q1 s)) - int (sem s Q1_full)"
    using assms(1,2) by (cases x; cases "q1 s"; simp add: jump_def set_frame_def Let_def split: if_splits; fastforce)+
  have q: "int (unat (nCakes s' z)) + int (sem s' (Q_empty z)) - w_qempty z x = int (unat (nCakes s z)) + int (sem s (Q_empty z)) \<and>
    int (unat (nCakes s' z)) - int (sem s' (Q_full z)) + w_qfull z x = int (unat (nCakes s z)) - int (sem s (Q_full z))" for z
  proof (cases "\<exists>y. x = Inc y \<or> x = Dec y")
    case False
    then show ?thesis
      using assms(1,2) by (cases x; simp add: jump_def set_frame_def Let_def split: if_splits; fastforce)
  next
    case True
    then obtain y where y: "x = Inc y \<or> x = Dec y" by blast
    have s': "sem s' = sem s" "nCakes s' = (nCakes s)(y := if x = Inc y then nCakes s y + 1 else nCakes s y - 1)"
      using y assms(1) by (auto simp: jump_def set_frame_def Let_def)
    have "int (unat (nCakes s' y)) = int (unat (nCakes s y)) + (if x = Inc y then 1 else -1)"
    proof (cases "x = Inc y")
      case True
      have "unat (nCakes s y + 1) = unat (nCakes s y) + 1" using n [of y] unat_add_lem [of "nCakes s y" 1] by simp
      then show ?thesis using True s' by simp
    next
      case False
      then have d: "x = Dec y" using y by simp
      have "1 \<le> ahead (w_qfull y) (rest s t)" using place_facts(3) [OF assms(5), of t] assms(3) d by simp
      then have "0 < unat (nCakes s y)"
        using total_bounds(4) [of "rest s" y t, OF assms(5)] accountsD(4) [OF assms(4), of y] by linarith
      then have "unat (nCakes s y - 1) = unat (nCakes s y) - 1" by (simp add: unat_minus_one unat_gt_0)
      then show ?thesis using d s' \<open>0 < unat (nCakes s y)\<close> by simp
    qed
    then show ?thesis using y s' by (cases "z = y") (auto split: if_splits)
  qed
  note a = accountsD [OF assms(4)]
  show ?thesis unfolding accounts_ok_def r
  proof (intro conjI allI)
    show "int (sem s' Q1_empty) + int (length (q1 s')) + (total w_empty (rest s) - w_empty x) = 5" using a(1) e(1) by linarith
    show "int (length (q1 s')) = int (sem s' Q1_full) + (total w_full (rest s) - w_full x)" using a(2) e(2) by linarith
    show "int (unat (nCakes s' y)) + int (sem s' (Q_empty y)) + (total (w_qempty y) (rest s) - w_qempty y x) = 5" for y
      using a(3) [of y] q [of y] by linarith
    show "int (unat (nCakes s' y)) = int (sem s' (Q_full y)) + (total (w_qfull y) (rest s) - w_qfull y x)" for y
      using a(4) [of y] q [of y] by linarith
  qed
qed

text \<open>The places of the carrier, by what is ahead of it.\<close>

lemma test_place:
  assumes "IfTop c a b # k \<in> set (places t)"
  shows "t = ChefZ \<and> k = [] \<and> (c = CAKE_VANILLA \<and> a = carry Vanilla \<and> b = second_test \<or>
    IfTop c a b # k = second_test \<and> c = CAKE_CHOCOLATE \<and> a = carry Chocolate)"
  using assms by (cases t) (auto simp: places_def thread_defs carry_def)

fun carrier_place :: "stmt list \<Rightarrow> bool" where
  "carrier_place [] = True"
| "carrier_place (x # k) \<longleftrightarrow>
     (list_ex is_test (x # k) \<and> LookFront \<notin> set (x # k) \<or> Inc Vanilla \<in> set (x # k) \<and> PopQ1 \<in> set (x # k) \<or>
       Inc Chocolate \<in> set (x # k) \<and> PopQ1 \<in> set (x # k) \<longrightarrow> ahead w_full (x # k) = 1) \<and>
     (x = PopQ1 \<longrightarrow> PopQ1 \<notin> set k \<and> \<not> list_ex is_test k) \<and> (x = TakeFront \<longrightarrow> PopQ1 \<in> set k) \<and>
     k \<noteq> second_test"

lemma places_carrier: "list_all carrier_place (places ChefZ)"
  by (simp add: places_def thread_defs carry_def)

lemma carrier_placeD:
  assumes "k \<in> set (places ChefZ)"
  shows "(\<exists>x \<in> set k. is_test x) \<and> LookFront \<notin> set k \<or> Inc y \<in> set k \<and> PopQ1 \<in> set k \<Longrightarrow> ahead w_full k = 1"
    "k = PopQ1 # j \<Longrightarrow> PopQ1 \<notin> set j \<and> (\<forall>x \<in> set j. \<not> is_test x)" "k = TakeFront # j \<Longrightarrow> PopQ1 \<in> set j"
    "k = x # j \<Longrightarrow> j \<noteq> second_test"
proof -
  have c: "carrier_place k" using places_carrier assms by (simp add: list_all_iff)
  show "ahead w_full k = 1" if "(\<exists>x \<in> set k. is_test x) \<and> LookFront \<notin> set k \<or> Inc y \<in> set k \<and> PopQ1 \<in> set k"
  proof (cases k)
    case (Cons x j)
    show ?thesis using c that unfolding Cons carrier_place.simps list_ex_iff by (cases y) blast+
  qed (use that in simp)
  show "k = PopQ1 # j \<Longrightarrow> PopQ1 \<notin> set j \<and> (\<forall>x \<in> set j. \<not> is_test x)" "k = TakeFront # j \<Longrightarrow> PopQ1 \<in> set j"
    "k = x # j \<Longrightarrow> j \<noteq> second_test" using c by (auto simp: list_ex_iff)
qed

lemma carrier_moves:
  assumes "run t x k s = Runs s'" "\<not> is_test x" "rest s t = x # k" "factory_inv s"
  shows "carrier_ok s'"
proof -
  have inv: "rest s u \<in> set (places u)" "accounts_ok s" "carrier_ok s" for u using assms(4) by (auto simp: factory_inv_def)
  note head = place_facts(3) [OF inv(1), of t, unfolded assms(3)]
  show ?thesis
  proof (cases "t = ChefZ")
    case False
    have r: "rest s' ChefZ = rest s ChefZ" "frames s' ChefZ = frames s ChefZ"
      using run_frame(1,3) [OF assms(1,2)] False by auto
    have "x \<noteq> PopQ1" using head False by auto
    then have "hd (q1 s') = hd (q1 s)" if "q1 s \<noteq> []"
      using run_frame(6) [OF assms(1,2)] assms(1) that by (cases "\<exists>c. x = PushQ1 c") (auto simp: jump_def)
    moreover have "q1 s \<noteq> []" if "ahead w_full (rest s ChefZ) = 1"
      using accountsD(2) [OF inv(2)] total_bounds(2) [of "rest s" ChefZ, OF inv(1)] that by auto
    ultimately have h: "hd (q1 s') = hd (q1 s)" if "(\<exists>x \<in> set (rest s ChefZ). is_test x) \<and> LookFront \<notin> set (rest s ChefZ) \<or>
        Inc y \<in> set (rest s ChefZ) \<and> PopQ1 \<in> set (rest s ChefZ)" for y
      using carrier_placeD(1) [OF inv(1) that] by blast
    have "(\<exists>x \<in> set (rest s ChefZ). is_test x) \<and> LookFront \<notin> set (rest s ChefZ) \<Longrightarrow> hd (q1 s') = hd (q1 s)"
      "Inc y \<in> set (rest s ChefZ) \<and> PopQ1 \<in> set (rest s ChefZ) \<Longrightarrow> hd (q1 s') = hd (q1 s)" for y using h [of y] by blast+
    then show ?thesis using inv(3) unfolding carrier_ok_def r Let_def by (simp; metis)
  next
    case True
    have r: "rest s' ChefZ = k" "k \<noteq> second_test" using run_frame(1) [OF assms(1,2)] True
        carrier_placeD(4) [OF inv(1), of x k] assms(3) by auto
    have k: "rest s ChefZ = x # k" using assms(3) True by simp
    note c = inv(3) [unfolded carrier_ok_def k Let_def]
    have np: "x \<noteq> PushQ1 c" for c using head True by auto
    note f = run_frame(4-6) [OF assms(1,2), unfolded True]
    consider "x = LookFront" | "x = TakeFront" | "x = PopQ1" | "x \<notin> {LookFront, TakeFront, PopQ1}" by blast
    then show ?thesis
    proof cases
      case 1
      then have "topCakeQ1 (frames s' ChefZ) = hd (q1 s)"
        using assms(1) True by (auto simp: jump_def set_frame_def split: if_splits)
      then show ?thesis using c f r 1 np unfolding carrier_ok_def r Let_def by auto
    next
      case 2
      then have "cake (frames s' ChefZ) = hd (q1 s)"
        using assms(1) True by (auto simp: jump_def set_frame_def split: if_splits)
      moreover have "PopQ1 \<in> set k" using carrier_placeD(3) [OF inv(1)] k 2 by simp
      ultimately show ?thesis using c f r 2 np unfolding carrier_ok_def r Let_def by auto
    next
      case 3
      then show ?thesis using c f r np carrier_placeD(2) [OF inv(1), of k] k unfolding carrier_ok_def r Let_def by auto
    next
      case 4
      then show ?thesis using c f r np unfolding carrier_ok_def r Let_def by auto
    qed
  qed
qed

lemma test_moves:
  assumes "rest s t = IfTop c a b # k" "factory_inv s" "run t (IfTop c a b) k s = Runs s'"
  shows "factory_inv s'"
proof -
  have inv: "rest s u \<in> set (places u)" "accounts_ok s" "carrier_ok s" "locks_ok s" for u
    using assms(2) by (auto simp: factory_inv_def)
  have p: "t = ChefZ" "k = []" "c = CAKE_VANILLA \<and> a = carry Vanilla \<and> b = second_test \<or>
      [IfTop c a b] = second_test \<and> c = CAKE_CHOCOLATE \<and> a = carry Chocolate"
    using test_place [of c a b k t] inv(1) [of t] assms(1) by auto
  have z: "rest s ChefZ = [IfTop c a b]" using assms(1) p by simp
  have "q1 s \<noteq> []"
    using accountsD(2) [OF inv(2)] total_bounds(2) [of "rest s" ChefZ, OF inv(1)] z by auto
  then have "hd (q1 s) \<in> {CAKE_VANILLA, CAKE_CHOCOLATE}" using assms(2) by (cases "q1 s") (auto simp: factory_inv_def)
  moreover have top: "topCakeQ1 (frames s ChefZ) = hd (q1 s)" "[IfTop c a b] = second_test \<longrightarrow> hd (q1 s) \<noteq> CAKE_VANILLA"
  proof -
    note c = inv(3) [unfolded carrier_ok_def z Let_def]
    have *: "topCakeQ1 (frames s ChefZ) = hd (q1 s)" using c [THEN conjunct1] by simp
    show "topCakeQ1 (frames s ChefZ) = hd (q1 s)" by (rule *)
    show "[IfTop c a b] = second_test \<longrightarrow> hd (q1 s) \<noteq> CAKE_VANILLA"
    proof
      assume "[IfTop c a b] = second_test"
      then have "topCakeQ1 (frames s ChefZ) \<noteq> CAKE_VANILLA" using c by blast
      then show "hd (q1 s) \<noteq> CAKE_VANILLA" using * by simp
    qed
  qed
  ultimately consider x where "a = carry x" "s' = jump ChefZ (carry x) s" "hd (q1 s) = cake_of x"
    | "b = second_test" "s' = jump ChefZ second_test s" "hd (q1 s) \<noteq> CAKE_VANILLA"
    using assms(3) p by (cases "hd (q1 s) = c") (auto simp: cake_of_def split: kind.splits)
  then show ?thesis
  proof cases
    case 1
    have "carry x \<in> set (places ChefZ)" by (cases x) (auto simp: places_def)
    moreover have "accounts_ok s'" unfolding 1(2) using inv(2) by (rule accounts_jump) (simp_all add: z carry_net)
    moreover have "locks_ok s'" using inv(4) z by (auto simp: locks_ok_def 1 jump_def carry_net)
    moreover have "carrier_ok s'"
      by (auto simp: carrier_ok_def 1 jump_def) (auto simp: carry_def popFromQ1_def printInConsole_def printInConsoleWithLocking_def second_test_def 1)
    ultimately show ?thesis using assms(2) inv(1) by (auto simp: factory_inv_def 1 jump_def)
  next
    case 2
    have "second_test \<in> set (places ChefZ)" by (auto simp: places_def)
    moreover have "accounts_ok s'" unfolding 2(2) using inv(2) by (rule accounts_jump) (simp_all add: z second_test_def)
    moreover have "locks_ok s'" using inv(4) z by (auto simp: locks_ok_def 2 jump_def second_test_def)
    moreover have "carrier_ok s'" using top 2 by (auto simp: carrier_ok_def jump_def second_test_def)
    ultimately show ?thesis using assms(2) inv(1) by (auto simp: factory_inv_def 2 jump_def)
  qed
qed

lemma step_inv:
  assumes "factory_inv s" "step t s = Runs s'"
  shows "factory_inv s'"
proof -
  have inv: "rest s u \<in> set (places u)" "accounts_ok s" "carrier_ok s" "locks_ok s" "\<not> timeoutPassed s" for u
    using assms(1) by (auto simp: factory_inv_def)
  show ?thesis
  proof (cases "rest s t")
    case Nil
    then have s': "s' = jump t (body t) s" using assms(2) inv(5) by (simp add: step_def)
    have "body t \<in> set (places t)" by (auto simp: places_def)
    moreover have "accounts_ok s'" unfolding s' using inv(2) by (rule accounts_jump) (simp_all add: Nil body_net)
    moreover have "locks_ok s'" using inv(4) Nil by (auto simp: locks_ok_def s' jump_def body_net)
    moreover have "carrier_ok s'"
    proof (cases "t = ChefZ")
      case True
      then show ?thesis by (auto simp: carrier_ok_def s' jump_def) (auto simp: thread_defs)
    next
      case False
      then show ?thesis using inv(3) by (simp add: carrier_ok_def s' jump_def)
    qed
    ultimately show ?thesis using assms(1) by (auto simp: factory_inv_def s' jump_def)
  next
    case (Cons x k)
    then have run: "run t x k s = Runs s'" using assms(2) by (simp add: step_def)
    show ?thesis
    proof (cases "is_test x")
      case True
      then show ?thesis using test_moves [OF _ assms(1)] Cons run by (cases x) auto
    next
      case False
      then have nt: "x \<noteq> IfTop c a b" for c a b by auto
      have "k \<in> set (places t)" by (rule places_tl [OF inv(1) [of t, unfolded Cons] nt])
      moreover have "set (q1 s') \<subseteq> {CAKE_VANILLA, CAKE_CHOCOLATE}"
      proof -
        have "set (q1 s') \<subseteq> set (q1 s) \<union> (case x of PushQ1 c \<Rightarrow> {c} | _ \<Rightarrow> {})"
          using run by (cases x) (auto simp: jump_def set_frame_def Let_def split: if_splits dest: list.set_sel(2))
        then show ?thesis using assms(1) place_facts(3) [OF inv(1), of t] Cons by (cases x) (auto simp: factory_inv_def)
      qed
      ultimately show ?thesis
        using run_accounts [OF run False Cons inv(2) inv(1)] run_locks [OF run False Cons inv(4)] place_facts(3) [OF inv(1), of t]
          carrier_moves [OF run False Cons assms(1)] run_frame(1,2) [OF run False] inv(1,5) Cons
        by (auto simp: factory_inv_def)
    qed
  qed
qed

lemma started_inv: "factory_inv started"
proof -
  have "rest started t \<in> set (places t)" for t by (auto simp: started_def places_def)
  moreover have "accounts_ok started"
    by (auto simp: accounts_ok_def started_def initLocks_def globals_def total_def printInConsoleWithLocking_def
        MAX_NO_OF_PRODUCDED_CAKES_def MAX_NO_OF_VANILLA_CAKES_def MAX_NO_OF_CHOCOLATE_CAKES_def split: kind.splits)
  moreover have "locks_ok started" "carrier_ok started"
    by (auto simp: locks_ok_def carrier_ok_def started_def initLocks_def globals_def printInConsoleWithLocking_def second_test_def)
  ultimately show ?thesis by (auto simp: factory_inv_def started_def initLocks_def globals_def)
qed

lemma reachable_inv: "reachable s \<Longrightarrow> factory_inv s"
  by (induction rule: reachable.induct) (auto intro: started_inv step_inv)

lemma inv_defined:
  assumes "factory_inv s"
  shows "step t s \<noteq> Undef e"
proof (cases "rest s t")
  case (Cons x k)
  have inv: "rest s u \<in> set (places u)" "accounts_ok s" "locks_ok s" for u
    using assms by (auto simp: factory_inv_def)
  note head = place_facts(3) [OF inv(1), of t, unfolded Cons]
  have "q1 s \<noteq> []" if "x \<in> {LookFront, TakeFront, PopQ1}"
    using accountsD(2) [OF inv(2)] total_bounds(2) [of "rest s" t, OF inv(1)] that head Cons by auto
  moreover have "holder s m = Some t" if "x = UnlockM m" for m using inv(3) head Cons that by (simp add: locks_ok_def)
  ultimately show ?thesis using Cons by (cases x) (auto simp: step_def Let_def)
qed (use assms in \<open>simp add: step_def factory_inv_def\<close>)

fun inc_taken :: "stmt list \<Rightarrow> bool" where
  "inc_taken (Inc y # k) \<longleftrightarrow> TakeFront \<notin> set k"
| "inc_taken _ = True"

lemma places_inc: "list_all inc_taken (places ChefZ)"
  by (simp add: places_def thread_defs carry_def)

section \<open>Waiting\<close>

text \<open>The mutex that guards what a statement touches.\<close>

fun guard :: "stmt \<Rightarrow> mutex_id option" where
  "guard (PushQ1 c) = Some Lock_Q1"
| "guard SizeQ1 = Some Lock_Q1"
| "guard LookFront = Some Lock_Q1"
| "guard TakeFront = Some Lock_Q1"
| "guard PopQ1 = Some Lock_Q1"
| "guard (Inc x) = Some (Lock_Q x)"
| "guard (Dec x) = Some (Lock_Q x)"
| "guard (Print msg) = Some Lock_console"
| "guard _ = None"

fun guarded :: "stmt list \<Rightarrow> bool" where
  "guarded [] = True"
| "guarded (x # k) = (case guard x of None \<Rightarrow> True | Some m \<Rightarrow> ahead (w_lock m) (x # k) = 1)"

lemma places_guarded: "list_all guarded (places t)"
  by (cases t) (simp_all add: places_def thread_defs carry_def)

text \<open>
  Who waits for what: the holder of the console mutex for nothing, the holder of a queue's mutex at most
  for the console; and a thread that waits for a semaphore owes nothing on the accounts, except that the
  carrier has a cake to take.
\<close>

fun waits_ok :: "thread \<Rightarrow> stmt list \<Rightarrow> bool" where
  "waits_ok t [] = True"
| "waits_ok t (LockM m # k) \<longleftrightarrow> ahead (w_lock Lock_console) (LockM m # k) \<noteq> 1 \<and>
     (m \<noteq> Lock_console \<longrightarrow> ahead (w_lock Lock_Q1) (LockM m # k) \<noteq> 1 \<and> ahead (w_lock (Lock_Q Vanilla)) (LockM m # k) \<noteq> 1 \<and>
        ahead (w_lock (Lock_Q Chocolate)) (LockM m # k) \<noteq> 1)"
| "waits_ok t (SemP a # k) \<longleftrightarrow>
     ahead (w_lock Lock_console) (SemP a # k) = 0 \<and> ahead (w_lock Lock_Q1) (SemP a # k) = 0 \<and>
     ahead (w_lock (Lock_Q Vanilla)) (SemP a # k) = 0 \<and> ahead (w_lock (Lock_Q Chocolate)) (SemP a # k) = 0 \<and>
     ahead w_empty (SemP a # k) = 0 \<and>
     ahead w_full (SemP a # k) = (if a \<in> {Q_empty Vanilla, Q_empty Chocolate} then 1 else 0) \<and>
     ahead (w_qempty Vanilla) (SemP a # k) = 0 \<and> ahead (w_qempty Chocolate) (SemP a # k) = 0 \<and>
     ahead (w_qfull Vanilla) (SemP a # k) = 0 \<and> ahead (w_qfull Chocolate) (SemP a # k) = 0 \<and>
     (case t of ChefX \<Rightarrow> a = Q1_empty | ChefY \<Rightarrow> a = Q1_empty | ChefZ \<Rightarrow> a \<in> {Q1_full, Q_empty Vanilla, Q_empty Chocolate}
        | WaiterChocolate \<Rightarrow> a = Q_full Chocolate | WaiterVanilla \<Rightarrow> a = Q_full Vanilla)"
| "waits_ok t (_ # k) = True"

lemma places_waits: "list_all (waits_ok t) (places t)"
  by (cases t) (simp_all add: places_def thread_defs carry_def)

lemma blocks_head:
  assumes "step t s = Blocks" "\<not> timeoutPassed s"
  shows "(\<exists>m k u. rest s t = LockM m # k \<and> holder s m = Some u) \<or> (\<exists>a k. rest s t = SemP a # k \<and> sem s a = 0)"
proof (cases "rest s t")
  case (Cons x k)
  then show ?thesis using assms by (cases x) (auto simp: step_def Let_def split: if_splits)
qed (use assms in \<open>simp add: step_def\<close>)

lemma some_thread_runs:
  assumes "factory_inv s"
  shows "\<exists>t s'. step t s = Runs s'"
proof (rule ccontr)
  assume n: "\<nexists>t s'. step t s = Runs s'"
  have inv: "rest s u \<in> set (places u)" "accounts_ok s" "locks_ok s" "\<not> timeoutPassed s" for u
    using assms by (auto simp: factory_inv_def)
  have b: "step t s = Blocks" for t
    using n inv_defined [OF assms, of t] by (cases "step t s") auto
  have w: "waits_ok t (rest s t)" for t using places_waits [of t] inv(1) by (auto simp: list_all_iff)
  have h: "ahead (w_lock m) (rest s u) = 1" if "holder s m = Some u" for m u using inv(3) that by (simp add: locks_ok_def)
  note bh = blocks_head [OF b inv(4)]
  have console: "holder s Lock_console = None"
  proof (rule ccontr)
    assume "holder s Lock_console \<noteq> None"
    then obtain u where u: "holder s Lock_console = Some u" by auto
    show False using h [OF u] w [of u] bh [of u] by auto
  qed
  have q: "holder s m = None" for m
  proof (rule ccontr)
    assume "holder s m \<noteq> None"
    then obtain u where u: "holder s m = Some u" by auto
    then have m: "m \<noteq> Lock_console" using console by auto
    show False using bh [of u]
    proof (elim disjE exE conjE)
      fix m' k v assume r: "rest s u = LockM m' # k" "holder s m' = Some v"
      then have "m' \<noteq> Lock_console" using console by auto
      then show False using h [OF u] w [of u] mutex_exhaust [of m] m unfolding r(1) by auto
    next
      fix a k assume "rest s u = SemP a # k" "sem s a = 0"
      then show False using h [OF u] w [of u] mutex_exhaust [of m] by auto
    qed
  qed
  have sp: "\<exists>a k. rest s t = SemP a # k \<and> sem s a = 0" for t using bh [of t] q by auto
  obtain a k where z: "rest s ChefZ = SemP a # k" "sem s a = 0" using sp by blast
  have ah: "ahead w_empty (rest s t) = 0" "ahead (w_qempty x) (rest s t) = 0" "ahead (w_qfull x) (rest s t) = 0"
    "ahead w_full (rest s t) = (if t = ChefZ \<and> a \<noteq> Q1_full then 1 else 0)" for t x
  proof -
    obtain a' k' where r: "rest s t = SemP a' # k'" using sp by blast
    have az: "t = ChefZ \<Longrightarrow> a' = a" using z r by simp
    note wt = w [of t, unfolded r waits_ok.simps]
    show "ahead w_empty (rest s t) = 0" using wt unfolding r by blast
    show "ahead (w_qempty x) (rest s t) = 0" using wt unfolding r by (cases x) blast+
    show "ahead (w_qfull x) (rest s t) = 0" using wt unfolding r by (cases x) blast+
    have "ahead w_full (rest s t) = (if a' \<in> {Q_empty Vanilla, Q_empty Chocolate} then 1 else 0)" using wt unfolding r by blast
    moreover have "a' \<in> {Q_empty Vanilla, Q_empty Chocolate} \<longleftrightarrow> t = ChefZ \<and> a \<noteq> Q1_full" using wt az by (cases t) auto
    ultimately show "ahead w_full (rest s t) = (if t = ChefZ \<and> a \<noteq> Q1_full then 1 else 0)" by simp
  qed
  have tot: "total w_empty (rest s) = 0" "total (w_qempty x) (rest s) = 0" "total (w_qfull x) (rest s) = 0"
    "total w_full (rest s) = (if a = Q1_full then 0 else 1)" for x
    by (simp_all add: total_def ah)
  have "sem s Q1_empty = 0" using sp [of ChefX] w [of ChefX] by auto
  then have five: "length (q1 s) = 5" using accountsD(1) [OF inv(2)] tot(1) by linarith
  have "sem s (Q_full x) = 0" for x
    using sp [of WaiterVanilla] sp [of WaiterChocolate] w [of WaiterVanilla] w [of WaiterChocolate] by (cases x) auto
  then have none: "unat (nCakes s x) = 0" for x using accountsD(4) [OF inv(2), of x] tot(3) [of x] by (metis add.right_neutral of_nat_0 of_nat_eq_iff)
  show False
  proof (cases "a = Q1_full")
    case True
    then show False using accountsD(2) [OF inv(2)] tot(4) z(2) five by simp
  next
    case False
    then obtain x where "a = Q_empty x" using w [of ChefZ] z(1) by auto
    then show False using accountsD(3) [OF inv(2), of x] tot(2) [of x] none [of x] z(2) by simp
  qed
qed

lemma safe:
  assumes "reachable s"
  shows "step t s \<noteq> Undef e" and "length (q1 s) \<le> MAX_NO_OF_PRODUCDED_CAKES"
    and "unat (nCakes s Vanilla) \<le> MAX_NO_OF_VANILLA_CAKES" and "unat (nCakes s Chocolate) \<le> MAX_NO_OF_CHOCOLATE_CAKES"
    and "rest s t = x # k \<Longrightarrow> guard x = Some m \<Longrightarrow> holder s m = Some t"
    and "rest s ChefZ = Inc y # k \<Longrightarrow> cake (frames s ChefZ) = cake_of y"
proof -
  note i = reachable_inv [OF assms]
  have inv: "rest s u \<in> set (places u)" "accounts_ok s" "locks_ok s" "carrier_ok s" for u
    using i by (auto simp: factory_inv_def)
  note a = accountsD [OF inv(2)]
  note b = total_bounds [of "rest s", OF inv(1)]
  show "step t s \<noteq> Undef e" by (rule inv_defined [OF i])
  show "length (q1 s) \<le> MAX_NO_OF_PRODUCDED_CAKES" using a(1) b(5) by (simp add: MAX_NO_OF_PRODUCDED_CAKES_def)
  show "unat (nCakes s Vanilla) \<le> MAX_NO_OF_VANILLA_CAKES"
    using a(3) [of Vanilla] b(7) [of Vanilla] unfolding MAX_NO_OF_VANILLA_CAKES_def by linarith
  show "unat (nCakes s Chocolate) \<le> MAX_NO_OF_CHOCOLATE_CAKES"
    using a(3) [of Chocolate] b(7) [of Chocolate] unfolding MAX_NO_OF_CHOCOLATE_CAKES_def by linarith
  show "holder s m = Some t" if "rest s t = x # k" "guard x = Some m"
  proof -
    have "guarded (rest s t)" using places_guarded inv(1) by (auto simp: list_all_iff)
    then show ?thesis using inv(3) that by (simp add: locks_ok_def)
  qed
  show "cake (frames s ChefZ) = cake_of y" if r: "rest s ChefZ = Inc y # k"
  proof -
    have "TakeFront \<notin> set (Inc y # k)" using places_inc inv(1) [of ChefZ] r by (fastforce simp: list_all_iff)
    then show ?thesis using inv(4) r by (simp add: carrier_ok_def Let_def)
  qed
qed

text \<open>
  C19. The cake factory in every interleaving of its five threads. No thread ever takes the front of an
  empty queue or unlocks a mutex it does not hold; the common queue and both counters stay within their
  five places, so that the counters never wrap around; the queue, the counters and the console are
  touched only under their mutex; and the carrier counts every cake into the queue of its own kind.
\<close>

theorem factory_is_safe:
  assumes "reachable s"
  shows "(\<forall>t e. step t s \<noteq> Undef e) \<and> length (q1 s) \<le> MAX_NO_OF_PRODUCDED_CAKES \<and>
    unat (nCakes s Vanilla) \<le> MAX_NO_OF_VANILLA_CAKES \<and> unat (nCakes s Chocolate) \<le> MAX_NO_OF_CHOCOLATE_CAKES \<and>
    (\<forall>t x k m. rest s t = x # k \<and> guard x = Some m \<longrightarrow> holder s m = Some t) \<and>
    (\<forall>y k. rest s ChefZ = Inc y # k \<longrightarrow> cake (frames s ChefZ) = cake_of y)"
  using safe [OF assms] by blast

theorem factory_is_safe_witness:
  "(\<forall>e. step ChefX started \<noteq> Undef e) \<and> length (q1 started) \<le> MAX_NO_OF_PRODUCDED_CAKES \<and>
    (\<exists>s. step ChefX started = Runs s \<and> holder s Lock_console = Some ChefX)"
proof -
  have s: "step ChefX started = Runs (jump ChefX (tl (rest started ChefX)) (started\<lparr>holder := (holder started)(Lock_console := Some ChefX)\<rparr>))"
    (is "_ = Runs ?s") by (simp add: step_def started_def initLocks_def globals_def printInConsoleWithLocking_def)
  have "rest ?s ChefX = Print (\<lambda>_. greeting ChefX) # [UnlockM Lock_console]"
    by (simp add: jump_def started_def printInConsoleWithLocking_def)
  then have "holder ?s Lock_console = Some ChefX"
    using factory_is_safe [OF reachable.step [OF reachable.start s]] by (metis guard.simps(8))
  then show ?thesis using factory_is_safe [OF reachable.start] s by blast
qed

text \<open>
  C20. The cake factory never deadlocks: in every state that its threads can reach some thread can take a
  step. A thread that waits for a mutex waits for one that does not wait itself, and not all five can
  wait for a semaphore: with the common queue full the carrier is not waiting for a cake, and with a
  queue of one kind full its waiter is not waiting either.
\<close>

theorem factory_never_deadlocks:
  assumes "reachable s"
  shows "\<exists>t s'. step t s = Runs s' \<and> reachable s'"
  using some_thread_runs [OF reachable_inv [OF assms]] reachable.step [OF assms] by blast

theorem factory_never_deadlocks_witness: "\<exists>t s'. step t started = Runs s' \<and> reachable s'"
  by (rule factory_never_deadlocks [OF reachable.start])

end
