(* ===== verification/Sh.thy ===== *)
theory Sh
  imports Sysfile
begin

text \<open>
  The parser of the shell, \<^verbatim>\<open>sh.c\<close>. The command line is a text \<open>t\<close>, the bytes before the terminating
  NUL, and a pointer into it is an index; the pointer \<^verbatim>\<open>es\<close> is the length of the text. Commands keep the
  pointers to the start and the end of each word, as the code does, and \<open>nulterminate\<close> writes the
  terminators into the line when parsing is over. \<open>panic\<close> of the shell, which ends the process, is an
  error, with the rest of the line where it reports one. Memory for commands is taken to be there: the code does not check \<^verbatim>\<open>malloc\<close>.
\<close>

section \<open>Commands\<close>

definition MAXARGS :: nat where "MAXARGS = 10"

datatype 'w cmd =
    EXEC "'w list"
  | REDIR "'w cmd" 'w uint int
  | PIPE "'w cmd" "'w cmd"
  | LIST "'w cmd" "'w cmd"
  | BACK "'w cmd"

type_synonym span = "nat \<times> nat"

datatype sh_error = ShPanic string | Leftovers "uchar list" | NoFuel

type_synonym 'a sh = "sh_error + 'a"

definition sbind :: "'a sh \<Rightarrow> ('a \<Rightarrow> 'b sh) \<Rightarrow> 'b sh" where
  "sbind m f = (case m of Inl e \<Rightarrow> Inl e | Inr x \<Rightarrow> f x)"

lemma sbind_simps [simp]: "sbind (Inl e) f = Inl e" "sbind (Inr x) f = f x"
  by (simp_all add: sbind_def)

lemma sbind_eq_Inr: "sbind m f = Inr y \<longleftrightarrow> (\<exists>x. m = Inr x \<and> f x = Inr y)"
  by (cases m) auto

section \<open>Tokens\<close>

text \<open>The byte at an index: the NUL that ends the text at its length.\<close>

definition at :: "uchar list \<Rightarrow> nat \<Rightarrow> uchar" where
  "at t i = (if i < length t then t ! i else 0)"

definition whitespace :: "uchar list" where "whitespace = [32, 9, 13, 10, 11]"
definition symbols :: "uchar list" where "symbols = [60, 124, 62, 38, 59, 40, 41]"

text \<open>\<^verbatim>\<open>strchr\<close> as a test; the terminator itself is not found.\<close>

definition has :: "uchar list \<Rightarrow> uchar \<Rightarrow> bool" where
  "has cs c \<longleftrightarrow> c \<in> set cs"

function skip :: "uchar list \<Rightarrow> nat \<Rightarrow> nat" where
  "skip t s = (if s < length t \<and> has whitespace (at t s) then skip t (s + 1) else s)"
  by pat_completeness auto
termination by (relation "measure (\<lambda>(t, s). length t - s)") auto

function scan :: "uchar list \<Rightarrow> nat \<Rightarrow> nat" where
  "scan t s = (if s < length t \<and> \<not> has whitespace (at t s) \<and> \<not> has symbols (at t s) then scan t (s + 1) else s)"
  by pat_completeness auto
termination by (relation "measure (\<lambda>(t, s). length t - s)") auto

declare skip.simps [simp del] scan.simps [simp del]

record token =
  ret :: uchar
  q :: nat
  eq :: nat
  ps :: nat

definition gettoken :: "uchar list \<Rightarrow> nat \<Rightarrow> token" where
  "gettoken t s0 =
     (let s = skip t s0; c = at t s;
          (r, s1) =
            (if c = 0 then (0, s)
             else if c \<in> {124, 40, 41, 59, 38, 60} then (c, s + 1)
             else if c = 62 then (if at t (s + 1) = 62 then (43, s + 2) else (c, s + 1))
             else (97, scan t s))
      in \<lparr>ret = r, q = s, eq = s1, ps = skip t s1\<rparr>)"

definition peek_tok :: "uchar list \<Rightarrow> nat \<Rightarrow> uchar list \<Rightarrow> bool \<times> nat" where
  "peek_tok t s0 toks = (let s = skip t s0 in (at t s \<noteq> 0 \<and> has toks (at t s), s))"

text \<open>Pointers move forward and stay in the line.\<close>

lemma skip_bounds: "s \<le> length t \<Longrightarrow> s \<le> skip t s \<and> skip t s \<le> length t"
  by (induction t s rule: skip.induct) (subst (1 2) skip.simps, auto)

lemma skip_ge: "s \<le> skip t s"
  by (induction t s rule: skip.induct) (subst skip.simps, auto)

lemma skip_stop: "\<not> has whitespace (at t (skip t s)) \<or> length t \<le> skip t s"
  by (induction t s rule: skip.induct) (subst (1 2) skip.simps, auto)

lemma scan_bounds: "s \<le> length t \<Longrightarrow> s \<le> scan t s \<and> scan t s \<le> length t"
  by (induction t s rule: scan.induct) (subst (1 2) scan.simps, auto)

lemma at_nonzero: "at t s \<noteq> 0 \<Longrightarrow> s < length t"
  by (auto simp: at_def split: if_splits)

lemma scan_more: "at t s \<noteq> 0 \<Longrightarrow> \<not> has whitespace (at t s) \<Longrightarrow> \<not> has symbols (at t s) \<Longrightarrow> s < scan t s"
  using scan_bounds [of "s + 1" t] at_nonzero [of t s] by (subst scan.simps) auto

lemma gettoken_bounds:
  assumes "s \<le> length t"
  shows "s \<le> q (gettoken t s)" "q (gettoken t s) \<le> eq (gettoken t s)" "eq (gettoken t s) \<le> length t"
    "eq (gettoken t s) \<le> ps (gettoken t s)" "ps (gettoken t s) \<le> length t"
    "ret (gettoken t s) \<noteq> 0 \<Longrightarrow> s < ps (gettoken t s)"
proof -
  let ?s = "skip t s"
  have s: "s \<le> ?s" "?s \<le> length t" using skip_bounds [OF assms] by auto
  have nw: "\<not> has whitespace (at t ?s)" if "at t ?s \<noteq> 0" using skip_stop [of t s] at_nonzero [OF that] by auto
  define s1 where "s1 = eq (gettoken t s)"
  have q: "q (gettoken t s) = ?s" and p: "ps (gettoken t s) = skip t s1"
    by (simp_all add: gettoken_def Let_def s1_def split: prod.splits)
  have ns: "has symbols c \<longleftrightarrow> c \<in> {60, 124, 62, 38, 59, 40, 41}" for c by (auto simp: has_def symbols_def)
  have "?s \<le> s1 \<and> s1 \<le> length t \<and> (ret (gettoken t s) \<noteq> 0 \<longrightarrow> ?s < s1)"
  proof (cases "at t ?s = 0")
    case True
    then show ?thesis using s by (simp add: gettoken_def Let_def s1_def)
  next
    case False
    then have l: "?s < length t" by (rule at_nonzero)
    have "at t (?s + 1) = 62 \<Longrightarrow> ?s + 1 < length t" using at_nonzero [of t "?s + 1"] by auto
    moreover have "?s < scan t ?s \<and> scan t ?s \<le> length t" if "\<not> has symbols (at t ?s)"
      using scan_more [OF False nw [OF False] that] scan_bounds [OF s(2)] by auto
    ultimately show ?thesis using False l by (auto simp: gettoken_def Let_def s1_def ns)
  qed
  then show "s \<le> q (gettoken t s)" "q (gettoken t s) \<le> eq (gettoken t s)" "eq (gettoken t s) \<le> length t"
    "eq (gettoken t s) \<le> ps (gettoken t s)" "ps (gettoken t s) \<le> length t"
    "ret (gettoken t s) \<noteq> 0 \<Longrightarrow> s < ps (gettoken t s)"
    using s skip_bounds [of s1 t] unfolding q p by (auto simp: s1_def)
qed

lemma gettoken_ret: "at t (skip t s) \<noteq> 0 \<Longrightarrow> ret (gettoken t s) \<noteq> 0"
  by (auto simp: gettoken_def Let_def)

lemma peek_tokD:
  assumes "peek_tok t s toks = (b, s1)"
  shows "s \<le> s1" "s \<le> length t \<Longrightarrow> s1 \<le> length t" "b \<Longrightarrow> s1 < length t \<and> at t s1 \<in> set toks"
    "s1 = skip t s" "b \<longleftrightarrow> at t s1 \<noteq> 0 \<and> at t s1 \<in> set toks"
  using assms skip_ge [of s t] skip_bounds [of s t] at_nonzero [of t "skip t s"]
  by (auto simp: peek_tok_def Let_def has_def)

section \<open>Parsing\<close>

type_synonym redir = "span \<times> uint \<times> int"

definition span :: "token \<Rightarrow> span" where
  "span k = (q k, eq k)"

lemma redir_step:
  assumes "peek_tok t s [60, 62] = (True, s1)" "ret (gettoken t (ps (gettoken t s1))) = 97"
  shows "s < ps (gettoken t (ps (gettoken t s1)))" "ps (gettoken t (ps (gettoken t s1))) \<le> length t"
proof -
  have p: "s \<le> s1" "s1 \<le> length t" using peek_tokD [OF assms(1)] by auto
  note g = gettoken_bounds [OF p(2)]
  note h = gettoken_bounds [OF g(5)]
  show "ps (gettoken t (ps (gettoken t s1))) \<le> length t" by (rule h(5))
  show "s < ps (gettoken t (ps (gettoken t s1)))" using h(6) g(1,2,4) p(1) assms(2) by auto
qed

lemma redir_less:
  assumes "peek_tok t s [60, 62] = (True, s1)" "ret (gettoken t (ps (gettoken t s1))) = 97"
  shows "length t - ps (gettoken t (ps (gettoken t s1))) < length t - s"
  using redir_step [OF assms] by simp

text \<open>The redirections from here on; \<open>>>\<close> opens the file as \<open>>\<close> does.\<close>

function parseredirs :: "uchar list \<Rightarrow> nat \<Rightarrow> (redir list \<times> nat) sh" where
  "parseredirs t s =
     (let (b, s1) = peek_tok t s [60, 62]
      in if b then
           let tok = gettoken t s1; f = gettoken t (ps tok)
           in if ret f \<noteq> 97 then Inl (ShPanic ''missing file for redirection'')
              else let r = (if ret tok = 60 then (span f, O_RDONLY, 0) else (span f, O_WRONLY OR O_CREATE, 1))
                in sbind (parseredirs t (ps f)) (\<lambda>(rs, s2). Inr (r # rs, s2))
         else Inr ([], s1))"
  by pat_completeness auto

termination
  by (relation "measure (\<lambda>(t, s). length t - s)") (auto dest!: sym [of "(True, _)"] dest: redir_step simp: redir_less)

declare parseredirs.simps [simp del]

definition redirs :: "('w \<times> uint \<times> int) list \<Rightarrow> 'w cmd \<Rightarrow> 'w cmd" where
  "redirs rs c = foldl (\<lambda>c (f, mode, fd). REDIR c f mode fd) c rs"

text \<open>
  The loop of \<open>parseexec\<close>, with the number of arguments so far: the arguments and the redirections
  between them. The redirections wrap the one command that collects the arguments.
\<close>

function parseargs :: "uchar list \<Rightarrow> nat \<Rightarrow> nat \<Rightarrow> (span list \<times> redir list \<times> nat) sh" where
  "parseargs t argc s =
     (let (b, s1) = peek_tok t s [124, 41, 38, 59]
      in if b then Inr ([], [], s1)
         else let tok = gettoken t s1
           in if ret tok = 0 then Inr ([], [], ps tok)
              else if ret tok \<noteq> 97 then Inl (ShPanic ''syntax'')
              else if argc + 1 \<ge> MAXARGS then Inl (ShPanic ''too many args'')
              else sbind (parseredirs t (ps tok)) (\<lambda>(rs, s2).
                sbind (parseargs t (argc + 1) s2) (\<lambda>(as, rs', s3). Inr (span tok # as, rs @ rs', s3))))"
  by pat_completeness auto
termination
  by (relation "measure (\<lambda>(t, argc, s). MAXARGS - argc)") auto

declare parseargs.simps [simp del]

lemma tok_less:
  assumes "peek_tok t s toks = (True, s1)"
  shows "s < ps (gettoken t s1)" "ps (gettoken t s1) \<le> length t"
proof -
  have p: "s \<le> s1" "s1 \<le> length t" "s1 = skip t s" "at t s1 \<noteq> 0" using peek_tokD [OF assms] by auto
  have "skip t s1 = s1" using skip_stop [of t s] p at_nonzero [OF p(4)] by (subst skip.simps) auto
  then have "ret (gettoken t s1) \<noteq> 0" using gettoken_ret p(4) by simp
  then show "s < ps (gettoken t s1)" "ps (gettoken t s1) \<le> length t" using gettoken_bounds [OF p(2)] p(1) by auto
qed

text \<open>The loop over \<open>&\<close>: how many there are.\<close>

function backs :: "uchar list \<Rightarrow> nat \<Rightarrow> nat \<times> nat" where
  "backs t s =
     (let (b, s1) = peek_tok t s [38]
      in if b then (let (k, s2) = backs t (ps (gettoken t s1)) in (k + 1, s2)) else (0, s1))"
  by pat_completeness auto

termination
proof (relation "measure (\<lambda>(t, s). length t - s)")
  fix t :: "uchar list" and s x b s1
  assume "x = peek_tok t s [38]" "(b, s1) = x" b
  then have "peek_tok t s [38] = (True, s1)" by simp
  then show "((t, ps (gettoken t s1)), t, s) \<in> measure (\<lambda>(t, s). length t - s)" using tok_less by fastforce
qed simp

declare backs.simps [simp del]

text \<open>The descent; the number bounds its depth.\<close>

fun parseline :: "nat \<Rightarrow> uchar list \<Rightarrow> nat \<Rightarrow> (span cmd \<times> nat) sh"
and parsepipe :: "nat \<Rightarrow> uchar list \<Rightarrow> nat \<Rightarrow> (span cmd \<times> nat) sh"
and parseexec :: "nat \<Rightarrow> uchar list \<Rightarrow> nat \<Rightarrow> (span cmd \<times> nat) sh"
and parseblock :: "nat \<Rightarrow> uchar list \<Rightarrow> nat \<Rightarrow> (span cmd \<times> nat) sh" where
  "parseline 0 t s = Inl NoFuel"
| "parseline (Suc n) t s =
     sbind (parsepipe n t s) (\<lambda>(c, s1).
       let (k, s2) = backs t s1; c1 = (BACK ^^ k) c; (b, s3) = peek_tok t s2 [59]
       in if b then sbind (parseline n t (ps (gettoken t s3))) (\<lambda>(r, s4). Inr (LIST c1 r, s4))
          else Inr (c1, s3))"
| "parsepipe 0 t s = Inl NoFuel"
| "parsepipe (Suc n) t s =
     sbind (parseexec n t s) (\<lambda>(c, s1).
       let (b, s2) = peek_tok t s1 [124]
       in if b then sbind (parsepipe n t (ps (gettoken t s2))) (\<lambda>(r, s3). Inr (PIPE c r, s3))
          else Inr (c, s2))"
| "parseexec 0 t s = Inl NoFuel"
| "parseexec (Suc n) t s =
     (let (b, s1) = peek_tok t s [40]
      in if b then parseblock n t s1
         else sbind (parseredirs t s1) (\<lambda>(rs, s2).
           sbind (parseargs t 0 s2) (\<lambda>(as, rs', s3). Inr (redirs (rs @ rs') (EXEC as), s3))))"
| "parseblock 0 t s = Inl NoFuel"
| "parseblock (Suc n) t s =
     (let (b, s1) = peek_tok t s [40]
      in if \<not> b then Inl (ShPanic ''parseblock'')
         else sbind (parseline n t (ps (gettoken t s1))) (\<lambda>(c, s2).
           let (b', s3) = peek_tok t s2 [41]
           in if \<not> b' then Inl (ShPanic ''syntax - missing )'')
              else sbind (parseredirs t (ps (gettoken t s3))) (\<lambda>(rs, s4). Inr (redirs rs c, s4))))"

fun nulterminate :: "span cmd \<Rightarrow> uchar list \<Rightarrow> uchar list" where
  "nulterminate (EXEC as) b = foldl (\<lambda>b (_, e). b[e := 0]) b as"
| "nulterminate (REDIR c f mode fd) b = (nulterminate c b)[snd f := 0]"
| "nulterminate (PIPE l r) b = nulterminate r (nulterminate l b)"
| "nulterminate (LIST l r) b = nulterminate r (nulterminate l b)"
| "nulterminate (BACK c) b = nulterminate c b"

definition parsecmd :: "uchar list \<Rightarrow> (span cmd \<times> uchar list) sh" where
  "parsecmd t =
     sbind (parseline (4 * length t + 4) t 0) (\<lambda>(c, s).
       let (_, s1) = peek_tok t s []
       in if s1 \<noteq> length t then Inl (Leftovers (drop s1 t))
          else Inr (c, nulterminate c (t @ [0])))"

section \<open>What a parsed command is made of\<close>

definition wordchar :: "uchar \<Rightarrow> bool" where
  "wordchar c \<longleftrightarrow> \<not> has whitespace c \<and> \<not> has symbols c"

definition slice :: "uchar list \<Rightarrow> span \<Rightarrow> uchar list" where
  "slice t w = take (snd w - fst w) (drop (fst w) t)"

text \<open>The pointers of a word: around characters of words, up to one that is not.\<close>

definition word_span :: "uchar list \<Rightarrow> span \<Rightarrow> bool" where
  "word_span t w \<longleftrightarrow> fst w < snd w \<and> snd w \<le> length t \<and> (\<forall>i. fst w \<le> i \<and> i < snd w \<longrightarrow> wordchar (t ! i)) \<and>
     (snd w < length t \<longrightarrow> \<not> wordchar (t ! snd w))"

definition redir_mode :: "uint \<Rightarrow> int \<Rightarrow> bool" where
  "redir_mode mode fd \<longleftrightarrow> (mode, fd) \<in> {(O_RDONLY, 0), (O_WRONLY OR O_CREATE, 1)}"

primrec cmd_ok :: "('w \<Rightarrow> bool) \<Rightarrow> 'w cmd \<Rightarrow> bool" where
  "cmd_ok P (EXEC as) \<longleftrightarrow> length as < MAXARGS \<and> (\<forall>w \<in> set as. P w)"
| "cmd_ok P (REDIR c f mode fd) \<longleftrightarrow> cmd_ok P c \<and> P f \<and> redir_mode mode fd"
| "cmd_ok P (PIPE l r) \<longleftrightarrow> cmd_ok P l \<and> cmd_ok P r"
| "cmd_ok P (LIST l r) \<longleftrightarrow> cmd_ok P l \<and> cmd_ok P r"
| "cmd_ok P (BACK c) \<longleftrightarrow> cmd_ok P c"

lemma cmd_ok_words: "cmd_ok P c \<Longrightarrow> w \<in> set_cmd c \<Longrightarrow> P w"
  by (induction c) auto

lemma scan_word:
  "s \<le> length t \<Longrightarrow> (\<forall>i. s \<le> i \<and> i < scan t s \<longrightarrow> wordchar (t ! i)) \<and> (scan t s < length t \<longrightarrow> \<not> wordchar (t ! scan t s))"
proof (induction t s rule: scan.induct)
  case (1 t s)
  show ?case
  proof (cases "s < length t \<and> \<not> has whitespace (at t s) \<and> \<not> has symbols (at t s)")
    case True
    then have "scan t s = scan t (s + 1)" by (subst scan.simps) simp
    moreover have "wordchar (t ! s)" using True by (auto simp: wordchar_def at_def)
    ultimately show ?thesis using 1(1) [OF True] True by (metis Suc_eq_plus1 Suc_leI le_neq_implies_less)
  next
    case False
    then have "scan t s = s" by (subst scan.simps) auto
    then show ?thesis using False by (auto simp: wordchar_def at_def)
  qed
qed

lemma gettoken_word:
  assumes "s \<le> length t" "ret (gettoken t s) = 97"
  shows "word_span t (span (gettoken t s))"
proof -
  let ?s = "skip t s"
  have s: "?s \<le> length t" using skip_bounds [OF assms(1)] by simp
  have c: "at t ?s \<noteq> 0 \<and> at t ?s \<notin> {124, 40, 41, 59, 38, 60} \<and> at t ?s \<noteq> 62"
    using assms(2) by (auto simp: gettoken_def Let_def split: if_splits)
  then have g: "q (gettoken t s) = ?s" "eq (gettoken t s) = scan t ?s" by (simp_all add: gettoken_def Let_def)
  have "\<not> has whitespace (at t ?s)" using skip_stop [of t s] at_nonzero c by fastforce
  moreover have "\<not> has symbols (at t ?s)" using c by (simp add: has_def symbols_def)
  ultimately have "?s < scan t ?s" using scan_more c by blast
  then show ?thesis using scan_word [OF s] scan_bounds [OF s] by (simp add: word_span_def span_def g)
qed

definition redir_ok :: "uchar list \<Rightarrow> redir \<Rightarrow> bool" where
  "redir_ok t r \<longleftrightarrow> (case r of (f, mode, fd) \<Rightarrow> word_span t f \<and> redir_mode mode fd)"

lemma redirs_ok: "cmd_ok P c \<Longrightarrow> \<forall>(f, mode, fd) \<in> set rs. P f \<and> redir_mode mode fd \<Longrightarrow> cmd_ok P (redirs rs c)"
  unfolding redirs_def by (induction rs arbitrary: c) auto

lemma parseredirs_ok:
  "s \<le> length t \<Longrightarrow> parseredirs t s = Inr (rs, s') \<Longrightarrow> s \<le> s' \<and> s' \<le> length t \<and> (\<forall>r \<in> set rs. redir_ok t r)"
proof (induction t s arbitrary: rs s' rule: parseredirs.induct)
  case (1 t s)
  obtain b s1 where p: "peek_tok t s [60, 62] = (b, s1)" by (cases "peek_tok t s [60, 62]")
  note pd = peek_tokD [OF p]
  show ?case
  proof (cases b)
    case False
    then show ?thesis using 1(3) pd 1(2) by (subst (asm) parseredirs.simps) (auto simp: p)
  next
    case True
    let ?tok = "gettoken t s1" let ?f = "gettoken t (ps ?tok)"
    have s1: "s1 \<le> length t" using pd True by auto
    have f: "ret ?f = 97" using 1(3) True by (subst (asm) parseredirs.simps) (auto simp: p Let_def split: if_splits)
    obtain rs' where r: "parseredirs t (ps ?f) = Inr (rs', s')"
      "rs = (if ret ?tok = 60 then (span ?f, O_RDONLY, 0) else (span ?f, O_WRONLY OR O_CREATE, 1)) # rs'"
      using 1(3) True f by (subst (asm) parseredirs.simps) (auto simp: p Let_def sbind_eq_Inr)
    have lt: "s < ps ?f" "ps ?f \<le> length t" using redir_step [of t s s1] p True f by auto
    have "ps ?f \<le> s' \<and> s' \<le> length t \<and> (\<forall>r \<in> set rs'. redir_ok t r)"
      using 1(1) [OF p [symmetric] refl True refl refl] f lt(2) r(1) by auto
    moreover have "word_span t (span ?f)" using gettoken_word [OF _ f] gettoken_bounds [OF s1] by simp
    ultimately show ?thesis using lt r(2) by (auto simp: redir_ok_def redir_mode_def)
  qed
qed

lemma parseargs_ok:
  "s \<le> length t \<Longrightarrow> parseargs t argc s = Inr (as, rs, s') \<Longrightarrow> argc < MAXARGS \<Longrightarrow>
    s \<le> s' \<and> s' \<le> length t \<and> (\<forall>r \<in> set rs. redir_ok t r) \<and> (\<forall>w \<in> set as. word_span t w) \<and> argc + length as < MAXARGS"
proof (induction t argc s arbitrary: as rs s' rule: parseargs.induct)
  case (1 t argc s)
  obtain b s1 where p: "peek_tok t s [124, 41, 38, 59] = (b, s1)" by (cases "peek_tok t s [124, 41, 38, 59]")
  note pd = peek_tokD [OF p]
  let ?tok = "gettoken t s1"
  have s1: "s \<le> s1" "s1 \<le> length t" using pd 1(2) by auto
  note g = gettoken_bounds [OF s1(2)]
  show ?case
  proof (cases "b \<or> ret ?tok = 0")
    case True
    then show ?thesis using 1(3,4) s1 g by (subst (asm) parseargs.simps) (auto simp: p Let_def split: if_splits)
  next
    case False
    have f: "ret ?tok = 97" "\<not> argc + 1 \<ge> MAXARGS"
      using 1(3) False by (subst (asm) parseargs.simps; auto simp: p Let_def split: if_splits)+
    obtain rs1 s2 as2 rs2 where r: "parseredirs t (ps ?tok) = Inr (rs1, s2)" "parseargs t (argc + 1) s2 = Inr (as2, rs2, s')"
      "as = span ?tok # as2" "rs = rs1 @ rs2"
      using 1(3) False f by (subst (asm) parseargs.simps) (auto simp: p Let_def sbind_eq_Inr)
    note ro = parseredirs_ok [OF g(5) r(1)]
    have "s2 \<le> s' \<and> s' \<le> length t \<and> (\<forall>r \<in> set rs2. redir_ok t r) \<and> (\<forall>w \<in> set as2. word_span t w) \<and> argc + 1 + length as2 < MAXARGS"
      using 1(1) [OF p [symmetric] refl _ refl, of s2 as2 rs2 s'] False f r(2) ro by auto
    then show ?thesis using ro g s1 r(3,4) gettoken_word [OF s1(2) f(1)] by auto
  qed
qed

lemma backs_ok:
  "s \<le> length t \<Longrightarrow> backs t s = (k, s') \<Longrightarrow> s \<le> s' \<and> s' \<le> length t"
proof (induction t s arbitrary: k s' rule: backs.induct)
  case (1 t s)
  obtain b s1 where p: "peek_tok t s [38] = (b, s1)" by (cases "peek_tok t s [38]")
  show ?case
  proof (cases b)
    case False
    then show ?thesis using 1(2,3) peek_tokD [OF p] by (subst (asm) backs.simps) (auto simp: p)
  next
    case True
    note l = tok_less [OF p [unfolded eqTrueI [OF True]]]
    obtain k' where "backs t (ps (gettoken t s1)) = (k', s')"
      using 1(3) True by (subst (asm) backs.simps) (auto simp: p split: prod.splits)
    then show ?thesis using 1(1) [OF p [symmetric] refl True l(2)] l by auto
  qed
qed

lemma backs_cmd [simp]: "cmd_ok P ((BACK ^^ k) c) \<longleftrightarrow> cmd_ok P c"
  by (induction k) auto

definition good :: "uchar list \<Rightarrow> nat \<Rightarrow> (span cmd \<times> nat) sh \<Rightarrow> bool" where
  "good t s r \<longleftrightarrow> (\<forall>c s'. r = Inr (c, s') \<longrightarrow> s \<le> s' \<and> s' \<le> length t \<and> cmd_ok (word_span t) c)"

lemma goodD: "good t s r \<Longrightarrow> r = Inr (c, s') \<Longrightarrow> s \<le> s' \<and> s' \<le> length t \<and> cmd_ok (word_span t) c"
  by (simp add: good_def)

lemma good_Inl [simp]: "good t s (Inl e)" by (simp add: good_def)

lemma good_bind:
  assumes "good t s m" "\<And>c s1. s \<le> s1 \<Longrightarrow> s1 \<le> length t \<Longrightarrow> cmd_ok (word_span t) c \<Longrightarrow> good t s (f (c, s1))"
  shows "good t s (sbind m f)"
proof (cases m)
  case (Inr x)
  obtain c s1 where x: "x = (c, s1)" by (cases x)
  show ?thesis unfolding Inr x sbind_simps using goodD [OF assms(1) Inr [unfolded x]] assms(2) by blast
qed simp

lemma good_Inr: "s \<le> s' \<Longrightarrow> s' \<le> length t \<Longrightarrow> cmd_ok (word_span t) c \<Longrightarrow> good t s (Inr (c, s'))"
  by (simp add: good_def)

lemma good_mono: "good t s' r \<Longrightarrow> s \<le> s' \<Longrightarrow> good t s r"
  by (auto simp: good_def)

lemma good_redirs:
  assumes "s \<le> length t" "cmd_ok (word_span t) c"
  shows "good t s (sbind (parseredirs t s) (\<lambda>(rs, s4). Inr (redirs rs c, s4)))"
  using parseredirs_ok [OF assms(1)] assms(2)
  by (cases "parseredirs t s") (auto simp: redir_ok_def intro!: good_Inr redirs_ok)

lemma parse_good:
  "s \<le> length t \<Longrightarrow> good t s (parseline n t s)"
  "s \<le> length t \<Longrightarrow> good t s (parsepipe n t s)"
  "s \<le> length t \<Longrightarrow> good t s (parseexec n t s)"
  "s \<le> length t \<Longrightarrow> good t s (parseblock n t s)"
proof (induction n t s and n t s and n t s and n t s rule: parseline_parsepipe_parseexec_parseblock.induct)
  case (2 n t s)
  show ?case unfolding parseline.simps
  proof (rule good_bind [OF 2(1) [OF 2(3)]], goal_cases)
    case (1 c s1)
    obtain k s2 where k: "backs t s1 = (k, s2)" by (cases "backs t s1")
    obtain b s3 where p: "peek_tok t s2 [59] = (b, s3)" by (cases "peek_tok t s2 [59]")
    note l = backs_ok [OF 1(2) k]
    note pd = peek_tokD [OF p]
    show ?case
    proof (cases b)
      case False
      then show ?thesis using 1 l pd by (auto simp: k p intro!: good_Inr)
    next
      case True
      note tl = tok_less [OF p [unfolded eqTrueI [OF True]]]
      have "good t (ps (gettoken t s3)) (parseline n t (ps (gettoken t s3)))"
        by (rule 2(2) [OF refl k [symmetric] refl refl p [symmetric] True tl(2)])
      then have "good t s (parseline n t (ps (gettoken t s3)))" by (rule good_mono) (use tl l 1 in simp)
      then show ?thesis using 1 True by (auto simp: k p intro!: good_bind good_Inr)
    qed
  qed
next
  case (4 n t s)
  show ?case unfolding parsepipe.simps
  proof (rule good_bind [OF 4(1) [OF 4(3)]], goal_cases)
    case (1 c s1)
    obtain b s2 where p: "peek_tok t s1 [124] = (b, s2)" by (cases "peek_tok t s1 [124]")
    note pd = peek_tokD [OF p]
    show ?case
    proof (cases b)
      case False
      then show ?thesis using 1 pd by (auto simp: p intro!: good_Inr)
    next
      case True
      note tl = tok_less [OF p [unfolded eqTrueI [OF True]]]
      have "good t (ps (gettoken t s2)) (parsepipe n t (ps (gettoken t s2)))"
        by (rule 4(2) [OF refl p [symmetric] True tl(2)])
      then have "good t s (parsepipe n t (ps (gettoken t s2)))" by (rule good_mono) (use tl 1 in simp)
      then show ?thesis using 1 True by (auto simp: p intro!: good_bind good_Inr)
    qed
  qed
next
  case (6 n t s)
  obtain b s1 where p: "peek_tok t s [40] = (b, s1)" by (cases "peek_tok t s [40]")
  note pd = peek_tokD [OF p]
  show ?case
  proof (cases b)
    case True
    have s1: "s \<le> s1" "s1 \<le> length t" using pd 6(2) by auto
    have "good t s (parseblock n t s1)" by (rule good_mono [OF 6(1) [OF p [symmetric] refl True s1(2)] s1(1)])
    then show ?thesis using True by (simp add: p)
  next
    case False
    have s1: "s \<le> s1" "s1 \<le> length t" using pd 6(2) by auto
    show ?thesis
    proof (cases "parseredirs t s1")
      case (Inr r)
      obtain rs s2 where r: "r = (rs, s2)" by (cases r)
      note ro = parseredirs_ok [OF s1(2) Inr [unfolded r]]
      show ?thesis
      proof (cases "parseargs t 0 s2")
        case a: (Inr v)
        obtain as rs' s3 where v: "v = (as, rs', s3)" by (cases v)
        have ao: "s2 \<le> s3" "s3 \<le> length t" "\<forall>r \<in> set rs'. redir_ok t r" "cmd_ok (word_span t) (EXEC as)"
          using parseargs_ok [OF _ a [unfolded v]] ro by (auto simp: MAXARGS_def)
        have "cmd_ok (word_span t) (redirs (rs @ rs') (EXEC as))"
          using ao(3) ro by (intro redirs_ok ao(4)) (auto simp: redir_ok_def)
        then have "good t s (Inr (redirs (rs @ rs') (EXEC as), s3))" using ro s1 ao by (intro good_Inr) auto
        then show ?thesis using False by (simp add: p Inr r a v)
      qed (use False in \<open>simp add: p Inr r\<close>)
    qed (use False in \<open>simp add: p\<close>)
  qed
next
  case (8 n t s)
  obtain b s1 where p: "peek_tok t s [40] = (b, s1)" by (cases "peek_tok t s [40]")
  show ?case
  proof (cases b)
    case True
    note tl = tok_less [OF p [unfolded eqTrueI [OF True]]]
    have g: "good t s (parseline n t (ps (gettoken t s1)))"
      by (rule good_mono [OF 8(1) [OF p [symmetric] refl _ tl(2)]]) (use True tl in simp_all)
    show ?thesis using True
    proof (simp add: p, intro good_bind [OF g], goal_cases)
      case (1 c s2)
      obtain b' s3 where p': "peek_tok t s2 [41] = (b', s3)" by (cases "peek_tok t s2 [41]")
      show ?case
      proof (cases b')
        case True
        note tl' = tok_less [OF p' [unfolded eqTrueI [OF True]]]
        show ?thesis using good_mono [OF good_redirs [OF tl'(2) 1(5)], of s] tl' 1 True by (simp add: p')
      qed (simp add: p')
    qed
  qed (simp add: p)
qed simp_all

text \<open>The depth that \<open>parsecmd\<close> allows is enough for every line.\<close>

lemma sbind_NoFuel: "sbind m f = Inl NoFuel \<longleftrightarrow> m = Inl NoFuel \<or> (\<exists>x. m = Inr x \<and> f x = Inl NoFuel)"
  by (cases m) auto

lemma parseredirs_ends: "parseredirs t s \<noteq> Inl NoFuel"
proof (induction t s rule: parseredirs.induct)
  case (1 t s)
  show ?case using 1 by (subst parseredirs.simps) (auto simp: Let_def sbind_NoFuel split: prod.splits)
qed

lemma parseargs_ends: "parseargs t argc s \<noteq> Inl NoFuel"
proof (induction t argc s rule: parseargs.induct)
  case (1 t argc s)
  show ?case using 1 by (subst parseargs.simps) (auto simp: Let_def sbind_NoFuel parseredirs_ends split: prod.splits)
qed

lemma parse_ends:
  "s \<le> length t \<Longrightarrow> 4 * (length t - s) + 4 \<le> n \<Longrightarrow> parseline n t s \<noteq> Inl NoFuel"
  "s \<le> length t \<Longrightarrow> 4 * (length t - s) + 3 \<le> n \<Longrightarrow> parsepipe n t s \<noteq> Inl NoFuel"
  "s \<le> length t \<Longrightarrow> 4 * (length t - s) + 2 \<le> n \<Longrightarrow> parseexec n t s \<noteq> Inl NoFuel"
  "s \<le> length t \<Longrightarrow> 4 * (length t - s) + 1 \<le> n \<Longrightarrow> parseblock n t s \<noteq> Inl NoFuel"
proof (induction n t s and n t s and n t s and n t s rule: parseline_parsepipe_parseexec_parseblock.induct)
  case (2 n t s)
  have "parsepipe n t s \<noteq> Inl NoFuel" using 2(1,3,4) by simp
  moreover have "parseline n t (ps (gettoken t s3)) \<noteq> Inl NoFuel"
    if "parsepipe n t s = Inr (c, s1)" "backs t s1 = (k, s2)" "peek_tok t s2 [59] = (True, s3)" for c s1 k s2 s3
  proof -
    have "s \<le> s1" "s1 \<le> length t" using goodD [OF parse_good(2) [OF 2(3)] that(1)] by auto
    then have "s < ps (gettoken t s3)" "ps (gettoken t s3) \<le> length t"
      using backs_ok [OF _ that(2)] tok_less [OF that(3)] by auto
    then show ?thesis using 2(2) [OF refl that(2) [symmetric] refl refl that(3) [symmetric] TrueI] 2(4) by simp
  qed
  ultimately show ?case by (auto simp: sbind_NoFuel Let_def split: prod.splits if_splits)
next
  case (4 n t s)
  have "parseexec n t s \<noteq> Inl NoFuel" using 4(1,3,4) by simp
  moreover have "parsepipe n t (ps (gettoken t s2)) \<noteq> Inl NoFuel"
    if "parseexec n t s = Inr (c, s1)" "peek_tok t s1 [124] = (True, s2)" for c s1 s2
  proof -
    have "s \<le> s1" using goodD [OF parse_good(3) [OF 4(3)] that(1)] by auto
    then have "s < ps (gettoken t s2)" "ps (gettoken t s2) \<le> length t" using tok_less [OF that(2)] by auto
    then show ?thesis using 4(2) [OF refl that(2) [symmetric] TrueI] 4(4) by simp
  qed
  ultimately show ?case by (auto simp: sbind_NoFuel split: prod.splits if_splits)
next
  case (6 n t s)
  obtain b s1 where p: "peek_tok t s [40] = (b, s1)" by (cases "peek_tok t s [40]")
  have "parseblock n t s1 \<noteq> Inl NoFuel" if b
    using 6(1) [OF p [symmetric] refl that] 6(2,3) peek_tokD(1,2) [OF p] by simp
  then show ?case by (auto simp: p sbind_NoFuel parseredirs_ends parseargs_ends)
next
  case (8 n t s)
  obtain b s1 where p: "peek_tok t s [40] = (b, s1)" by (cases "peek_tok t s [40]")
  have "parseline n t (ps (gettoken t s1)) \<noteq> Inl NoFuel" if b
    using 8(1) [OF p [symmetric] refl] 8(2,3) tok_less [OF p [unfolded eqTrueI [OF that]]] that by simp
  then show ?case by (auto simp: p sbind_NoFuel parseredirs_ends split: prod.splits if_splits)
qed simp_all

section \<open>The strings of a parsed command\<close>

definition cstring :: "uchar list \<Rightarrow> nat \<Rightarrow> uchar list" where
  "cstring b i = takeWhile (\<lambda>c. c \<noteq> 0) (drop i b)"

lemma zeros_at:
  "length (foldl (\<lambda>b (_, e). b[e := 0]) b as) = length b \<and>
   (i < length b \<longrightarrow> foldl (\<lambda>b (_, e). b[e := 0]) b as ! i = (if i \<in> snd ` set as then 0 else b ! i))"
proof (induction as arbitrary: b)
  case (Cons a as)
  show ?case using Cons [of "b[snd a := 0]"] by (cases a) (auto simp: nth_list_update)
qed simp

lemma nulterminate_at:
  "length (nulterminate c b) = length b \<and>
   (i < length b \<longrightarrow> nulterminate c b ! i = (if i \<in> snd ` set_cmd c then 0 else b ! i))"
proof (induction c arbitrary: b)
  case (EXEC as)
  then show ?case using zeros_at [of b as] by simp
next
  case (REDIR c f mode fd)
  show ?case using REDIR [of b] by (cases "snd f = i") auto
next
  case (PIPE l r)
  show ?case using PIPE(1) [of b] PIPE(2) [of "nulterminate l b"] by auto
next
  case (LIST l r)
  show ?case using LIST(1) [of b] LIST(2) [of "nulterminate l b"] by auto
qed simp

lemma cstring_slice:
  assumes "fst w < snd w" "snd w < length b" "b ! snd w = 0" "\<forall>i. fst w \<le> i \<and> i < snd w \<longrightarrow> b ! i = t ! i \<and> t ! i \<noteq> 0"
    "snd w \<le> length t"
  shows "cstring b (fst w) = slice t w"
proof -
  have "cstring b (fst w) = take (snd w - fst w) (drop (fst w) b)"
    unfolding cstring_def using assms by (intro takeWhile_eq_take_P_nth) auto
  also have "\<dots> = slice t w" unfolding slice_def using assms by (intro nth_equalityI) auto
  finally show ?thesis .
qed

lemma parsed_strings:
  assumes "0 \<notin> set t" "cmd_ok (word_span t) c" "w \<in> set_cmd c"
  shows "cstring (nulterminate c (t @ [0])) (fst w) = slice t w"
proof -
  have sp: "word_span t v" if "v \<in> set_cmd c" for v using cmd_ok_words [OF assms(2) that] .
  note w = sp [OF assms(3), unfolded word_span_def]
  note n = nulterminate_at [of c "t @ [0]"]
  show ?thesis
  proof (rule cstring_slice)
    show "fst w < snd w" "snd w \<le> length t" "snd w < length (nulterminate c (t @ [0]))" using w n by auto
    show "nulterminate c (t @ [0]) ! snd w = 0" using n w assms(3) by auto
    have "i \<notin> snd ` set_cmd c" if "fst w \<le> i" "i < snd w" for i
    proof
      assume "i \<in> snd ` set_cmd c"
      then obtain v where "v \<in> set_cmd c" "i = snd v" by auto
      then show False using sp [of v] w that by (auto simp: word_span_def)
    qed
    moreover have "t ! i \<noteq> 0" if "i < length t" for i using assms(1) nth_mem [OF that] by metis
    ultimately show "\<forall>i. fst w \<le> i \<and> i < snd w \<longrightarrow> nulterminate c (t @ [0]) ! i = t ! i \<and> t ! i \<noteq> 0"
      using n w by (auto simp: nth_append)
  qed
qed

text \<open>
  C23. Every command line, whatever it contains: the parser comes to a command or to an error within the
  depth allowed. A command it returns has at most nine arguments to each program, its redirections open
  for reading on descriptor 0 or for writing on descriptor 1, each of its words lies in the line, is not
  empty and has no blank and no operator in it, and read as a string after the terminators have been
  written it is exactly that piece of the line: no terminator cuts into another word.
\<close>

theorem parsecmd_wellformed:
  assumes "0 \<notin> set t"
  shows "parsecmd t \<noteq> Inl NoFuel \<and>
    (\<forall>c b. parsecmd t = Inr (c, b) \<longrightarrow> cmd_ok (word_span t) c \<and> length b = length t + 1 \<and>
       (\<forall>w \<in> set_cmd c. cstring b (fst w) = slice t w))"
proof -
  have "parseline (4 * length t + 4) t 0 \<noteq> Inl NoFuel" by (rule parse_ends) simp_all
  then have "parsecmd t \<noteq> Inl NoFuel" by (auto simp: parsecmd_def sbind_NoFuel Let_def split: prod.splits)
  moreover have "cmd_ok (word_span t) c \<and> b = nulterminate c (t @ [0])" if r: "parsecmd t = Inr (c, b)" for c b
  proof -
    obtain c0 s0 where p: "parseline (4 * length t + 4) t 0 = Inr (c0, s0)"
      using r by (auto simp: parsecmd_def sbind_eq_Inr)
    obtain b1 s1 where "peek_tok t s0 [] = (b1, s1)" by (cases "peek_tok t s0 []")
    then have "c = c0 \<and> b = nulterminate c0 (t @ [0])" using r p by (auto simp: parsecmd_def split: if_splits)
    then show ?thesis using goodD [OF parse_good(1) p] by simp
  qed
  ultimately show ?thesis using parsed_strings [OF assms] nulterminate_at [of _ "t @ [0]"] by auto
qed

lemma parsecmd_example:
  "parsecmd [97, 62, 98] = Inr (REDIR (EXEC [(0, 1)]) (2, 3) (O_WRONLY OR O_CREATE) 1, [97, 0, 98, 0])"
  by code_simp

theorem parsecmd_wellformed_witness:
  "\<exists>c b. parsecmd [97, 62, 98] = Inr (c, b) \<and> cmd_ok (word_span [97, 62, 98]) c \<and> length b = 4 \<and>
    cstring b 0 = [97] \<and> cstring b 2 = [98]"
  using parsecmd_wellformed [of "[97, 62, 98]"] by (simp add: parsecmd_example slice_def)

section \<open>Printing\<close>

text \<open>
  A command of words as text, with parentheses only where the grammar needs them: level 0 is a program
  with its redirections, 1 a pipe, 2 a command with \<open>&\<close>, 3 a list.
\<close>

definition word_ok :: "uchar list \<Rightarrow> bool" where
  "word_ok w \<longleftrightarrow> w \<noteq> [] \<and> (\<forall>c \<in> set w. wordchar c \<and> c \<noteq> 0)"

definition paren :: "bool \<Rightarrow> uchar list \<Rightarrow> uchar list" where
  "paren b t = (if b then [40] @ t @ [41] else t)"

primrec show_cmd :: "uchar list cmd \<Rightarrow> nat \<Rightarrow> uchar list" where
  "show_cmd (EXEC ws) lev = concat (map (\<lambda>w. w @ [32]) ws)"
| "show_cmd (REDIR c f mode fd) lev = show_cmd c 0 @ (if fd = 0 then [60] else [62]) @ f"
| "show_cmd (PIPE l r) lev = paren (lev < 1) (show_cmd l 0 @ [124] @ show_cmd r 1)"
| "show_cmd (LIST l r) lev = paren (lev < 3) (show_cmd l 2 @ [59] @ show_cmd r 3)"
| "show_cmd (BACK c) lev = paren (lev < 2) (show_cmd c 2 @ [38])"

text \<open>Reading at a place of the line, by the text from there on.\<close>

definition unspaced :: "uchar list \<Rightarrow> bool" where
  "unspaced u \<longleftrightarrow> u = [] \<or> \<not> has whitespace (hd u)"

lemma at_drop: "at t s = (case drop s t of [] \<Rightarrow> 0 | c # u \<Rightarrow> c)"
  by (auto simp: at_def drop_Cons' Cons_nth_drop_Suc [symmetric] split: list.splits)

lemma in_range: "drop s t = c # u \<Longrightarrow> s < length t"
  by (metis drop_all list.distinct(1) not_le_imp_less)

lemma drop_more: "drop s t = u @ v \<Longrightarrow> drop (s + length u) t = v"
  by (metis add.commute append_eq_conv_conj drop_drop)

lemma skip_here: "unspaced (drop s t) \<Longrightarrow> skip t s = s"
  by (subst skip.simps) (auto simp: unspaced_def at_def hd_drop_conv_nth)

lemma skip_space: "drop s t = 32 # u \<Longrightarrow> unspaced u \<Longrightarrow> skip t s = s + 1"
proof -
  assume a: "drop s t = 32 # u" "unspaced u"
  have "has whitespace (at t s)" by (simp add: at_drop a has_def whitespace_def)
  moreover have "drop (s + 1) t = u" using drop_more [of s t "[32]" u] a by simp
  ultimately show ?thesis using skip_here [of "s + 1" t] a in_range [OF a(1)] by (subst skip.simps) simp
qed

lemma scan_here:
  "drop s t = w @ u \<Longrightarrow> \<forall>c \<in> set w. wordchar c \<Longrightarrow> u = [] \<or> \<not> wordchar (hd u) \<Longrightarrow> scan t s = s + length w"
proof (induction w arbitrary: s)
  case Nil
  then show ?case by (subst scan.simps) (auto simp: wordchar_def at_def hd_drop_conv_nth)
next
  case (Cons c w)
  have "drop (s + 1) t = w @ u" using drop_more [of s t "[c]" "w @ u"] Cons.prems by simp
  then have "scan t (s + 1) = s + 1 + length w" using Cons by simp
  moreover have "at t s = c" "wordchar c" using Cons.prems by (simp_all add: at_drop)
  ultimately show ?case using in_range [of s t c "w @ u"] Cons.prems by (subst scan.simps) (simp add: wordchar_def)
qed

lemma word_first: "word_ok w \<Longrightarrow> \<exists>c v. w = c # v \<and> c \<noteq> 0 \<and> c \<notin> {124, 40, 41, 59, 38, 60, 62} \<and> unspaced (w @ u)"
  by (cases w) (auto simp: word_ok_def wordchar_def has_def symbols_def unspaced_def)

lemma token_word:
  assumes "drop s t = w @ u" "word_ok w" "u = [] \<or> \<not> wordchar (hd u)"
  shows "gettoken t s = \<lparr>ret = 97, q = s, eq = s + length w, ps = skip t (s + length w)\<rparr>"
proof -
  obtain c v where c: "w = c # v" "c \<noteq> 0" "c \<notin> {124, 40, 41, 59, 38, 60, 62}" "unspaced (w @ u)"
    using word_first [OF assms(2)] by blast
  have "skip t s = s" using skip_here assms(1) c(4) by simp
  moreover have "at t s = c" using assms(1) c(1) by (simp add: at_drop)
  moreover have "scan t s = s + length w" using scan_here [OF assms(1) _ assms(3)] assms(2) by (simp add: word_ok_def)
  ultimately show ?thesis using c(2,3) by (simp add: gettoken_def Let_def)
qed

lemma token_symbol:
  assumes "drop s t = c # u" "c \<in> {124, 40, 41, 59, 38, 60, 62}" "unspaced u" "c = 62 \<longrightarrow> u = [] \<or> hd u \<noteq> 62"
  shows "gettoken t s = \<lparr>ret = c, q = s, eq = s + 1, ps = s + 1\<rparr>"
proof -
  have d: "drop (s + 1) t = u" using drop_more [of s t "[c]" u] assms(1) by simp
  have "unspaced (drop s t)" using assms(1,2) by (auto simp: unspaced_def has_def whitespace_def)
  then have "skip t s = s" "at t s = c" "skip t (s + 1) = s + 1"
    using skip_here [of s t] skip_here [of "s + 1" t] assms(1,3) d by (auto simp: at_drop)
  moreover have "c = 62 \<Longrightarrow> at t (s + 1) \<noteq> 62" using d assms(4) by (auto simp: at_drop split: list.splits)
  ultimately show ?thesis using assms(2) by (auto simp: gettoken_def Let_def)
qed

lemma peek_here:
  "unspaced (drop s t) \<Longrightarrow> peek_tok t s toks = (drop s t \<noteq> [] \<and> hd (drop s t) \<noteq> 0 \<and> hd (drop s t) \<in> set toks, s)"
  by (auto simp: peek_tok_def skip_here Let_def at_drop has_def split: list.splits)

lemma slice_word: "drop s t = w @ u \<Longrightarrow> slice t (s, s + length w) = w"
  by (simp add: slice_def)

section \<open>Parsing what was printed\<close>

type_synonym wredir = "uchar list \<times> uint \<times> int"

definition show_redirs :: "wredir list \<Rightarrow> uchar list" where
  "show_redirs rs = concat (map (\<lambda>(f, mode, fd). (if fd = 0 then [60] else [62]) @ f) rs)"

definition wredir_ok :: "wredir \<Rightarrow> bool" where
  "wredir_ok r \<longleftrightarrow> (case r of (f, mode, fd) \<Rightarrow> word_ok f \<and> redir_mode mode fd)"

definition read_redir :: "uchar list \<Rightarrow> redir \<Rightarrow> wredir" where
  "read_redir t r = (case r of (f, mode, fd) \<Rightarrow> (slice t f, mode, fd))"

definition stops :: "uchar set \<Rightarrow> uchar list \<Rightarrow> bool" where
  "stops cs u \<longleftrightarrow> u = [] \<or> hd u \<in> cs"

abbreviation exec_stop :: "uchar list \<Rightarrow> bool" where "exec_stop \<equiv> stops {124, 41, 38, 59}"

lemma stops_unspaced: "exec_stop u \<Longrightarrow> unspaced u \<and> (u = [] \<or> \<not> wordchar (hd u) \<and> hd u \<notin> {60, 62})"
  by (auto simp: stops_def unspaced_def wordchar_def has_def whitespace_def symbols_def)

lemma redirs_then:
  assumes "exec_stop u"
  shows "unspaced (show_redirs rs @ u)" "show_redirs rs @ u = [] \<or> \<not> wordchar (hd (show_redirs rs @ u))"
proof -
  have "unspaced (show_redirs rs @ u) \<and> (show_redirs rs @ u = [] \<or> \<not> wordchar (hd (show_redirs rs @ u)))"
  proof (cases rs)
    case Nil
    then show ?thesis using stops_unspaced [OF assms] by (auto simp: show_redirs_def)
  next
    case (Cons r rs')
    obtain f mode fd where "r = (f, mode, fd)" by (cases r)
    then have "show_redirs rs @ u = (if fd = 0 then 60 else 62) # f @ show_redirs rs' @ u" by (simp add: Cons show_redirs_def)
    then show ?thesis by (auto simp: unspaced_def wordchar_def has_def whitespace_def symbols_def)
  qed
  then show "unspaced (show_redirs rs @ u)" "show_redirs rs @ u = [] \<or> \<not> wordchar (hd (show_redirs rs @ u))" by auto
qed

lemma words_then:
  assumes "\<forall>w \<in> set ws. word_ok w" "unspaced u"
  shows "unspaced (concat (map (\<lambda>w. w @ [32]) ws) @ u)"
proof (cases ws)
  case (Cons w ws')
  then have "word_ok w" using assms(1) by simp
  then show ?thesis using word_first [of w "[32] @ concat (map (\<lambda>w. w @ [32]) ws') @ u"] by (auto simp: Cons)
qed (use assms in simp)

lemma parseredirs_none:
  assumes "unspaced (drop s t)" "drop s t = [] \<or> hd (drop s t) \<notin> {60, 62}"
  shows "parseredirs t s = Inr ([], s)"
  using assms by (subst parseredirs.simps) (auto simp: peek_here)

lemma parseredirs_show:
  "drop s t = show_redirs rs @ u \<Longrightarrow> \<forall>r \<in> set rs. wredir_ok r \<Longrightarrow> exec_stop u \<Longrightarrow>
   \<exists>rs'. parseredirs t s = Inr (rs', s + length (show_redirs rs)) \<and> map (read_redir t) rs' = rs"
proof (induction rs arbitrary: s)
  case Nil
  then show ?case using parseredirs_none [of s t] stops_unspaced [of u] by (auto simp: show_redirs_def)
next
  case (Cons r rs)
  obtain f mode fd where r: "r = (f, mode, fd)" by (cases r)
  have ok: "word_ok f" "redir_mode mode fd" using Cons.prems(2) by (auto simp: r wredir_ok_def)
  define c where "c = (if fd = 0 then 60 else 62 :: uchar)"
  let ?v = "show_redirs rs @ u"
  note v = redirs_then [OF Cons.prems(3), of rs]
  have d: "drop s t = c # f @ ?v" using Cons.prems(1) by (simp add: show_redirs_def r c_def)
  then have d1: "drop (s + 1) t = f @ ?v" using drop_more [of s t "[c]" "f @ ?v"] by simp
  then have d2: "drop (s + 1 + length f) t = ?v" using drop_more by blast
  have f: "unspaced (f @ ?v)" "hd (f @ ?v) \<noteq> 62" using word_first [OF ok(1)] by fastforce+
  have p: "peek_tok t s [60, 62] = (True, s)"
    using peek_here [of s t "[60, 62]"] d by (auto simp: c_def unspaced_def has_def whitespace_def)
  have g: "gettoken t s = \<lparr>ret = c, q = s, eq = s + 1, ps = s + 1\<rparr>"
    using token_symbol [OF d] f by (auto simp: c_def)
  have g': "gettoken t (s + 1) = \<lparr>ret = 97, q = s + 1, eq = s + 1 + length f, ps = s + 1 + length f\<rparr>"
    using token_word [OF d1 ok(1) v(2)] skip_here [of "s + 1 + length f" t] d2 v(1) by simp
  obtain rs' where ih: "parseredirs t (s + 1 + length f) = Inr (rs', s + 1 + length f + length (show_redirs rs))"
    "map (read_redir t) rs' = rs" using Cons.IH [OF d2] Cons.prems by auto
  let ?r = "if c = 60 then ((s + 1, s + 1 + length f), O_RDONLY, 0) else ((s + 1, s + 1 + length f), O_WRONLY OR O_CREATE, 1)"
  have "parseredirs t s = Inr (?r # rs', s + length (show_redirs (r # rs)))"
    by (subst parseredirs.simps) (simp add: p g g' [simplified] ih(1) [simplified] span_def show_redirs_def r Let_def)
  moreover have "read_redir t ?r = r"
    using ok(2) slice_word [OF d1] by (auto simp: read_redir_def r c_def redir_mode_def)
  ultimately show ?case using ih(2) by auto
qed

lemma parseargs_none:
  assumes "exec_stop (drop s t)"
  shows "parseargs t argc s = Inr ([], [], s)"
proof -
  note n = stops_unspaced [OF assms]
  have "peek_tok t s [124, 41, 38, 59] = (drop s t \<noteq> [], s)"
    using peek_here [of s t "[124, 41, 38, 59]"] n assms by (auto simp: stops_def)
  moreover have "gettoken t s = \<lparr>ret = 0, q = s, eq = s, ps = s\<rparr>" if "drop s t = []"
    using skip_here [of s t] n that by (simp add: gettoken_def at_drop)
  ultimately show ?thesis by (subst parseargs.simps) auto
qed

definition show_words :: "uchar list list \<Rightarrow> uchar list" where
  "show_words ws = concat (map (\<lambda>w. w @ [32]) ws)"

lemma parseargs_show:
  "drop s t = show_words ws @ show_redirs rs @ u \<Longrightarrow> \<forall>w \<in> set ws. word_ok w \<Longrightarrow>
   \<forall>r \<in> set rs. wredir_ok r \<Longrightarrow> exec_stop u \<Longrightarrow> argc + length ws < MAXARGS \<Longrightarrow> ws \<noteq> [] \<Longrightarrow>
   \<exists>as rs'. parseargs t argc s = Inr (as, rs', s + length (show_words ws @ show_redirs rs)) \<and>
     map (slice t) as = ws \<and> map (read_redir t) rs' = rs"
proof (induction ws arbitrary: s argc)
  case (Cons w ws)
  let ?v = "show_words ws @ show_redirs rs @ u"
  let ?s = "s + length w + 1"
  have w: "word_ok w" using Cons.prems by simp
  have d: "drop s t = w @ 32 # ?v" using Cons.prems(1) by (simp add: show_words_def)
  have d1: "drop (s + length w) t = 32 # ?v" using drop_more [OF d] .
  have d2: "drop ?s t = ?v" using drop_more [of "s + length w" t "[32]" ?v] d1 by simp
  have un: "unspaced ?v" unfolding show_words_def
    using Cons.prems redirs_then(1) [OF Cons.prems(4)] by (intro words_then) auto
  have nw: "32 # ?v = [] \<or> \<not> wordchar (hd (32 # ?v))" by (simp add: wordchar_def has_def whitespace_def)
  have g: "gettoken t s = \<lparr>ret = 97, q = s, eq = s + length w, ps = ?s\<rparr>"
    using token_word [OF d w nw] skip_space [OF d1 un] by simp
  have p: "peek_tok t s [124, 41, 38, 59] = (False, s)"
    using word_first [OF w, of "32 # ?v"] peek_here [of s t "[124, 41, 38, 59]"] by (auto simp: d)
  have arg: "\<not> argc + 1 \<ge> MAXARGS" using Cons.prems(5) by simp
  have sl: "slice t (s, s + length w) = w" using slice_word [OF d] .
  show ?case
  proof (cases "ws = []")
    case True
    have d3: "drop ?s t = show_redirs rs @ u" using d2 True by (simp add: show_words_def)
    obtain rs' where r: "parseredirs t ?s = Inr (rs', ?s + length (show_redirs rs))" "map (read_redir t) rs' = rs"
      using parseredirs_show [OF d3 Cons.prems(3,4)] by auto
    have "parseargs t (argc + 1) (?s + length (show_redirs rs)) = Inr ([], [], ?s + length (show_redirs rs))"
      using drop_more [OF d3] Cons.prems(4) by (intro parseargs_none) simp
    then have "parseargs t argc s = Inr ([(s, s + length w)], rs', s + length (show_words (w # ws) @ show_redirs rs))"
      using r(1) arg by (subst parseargs.simps) (simp add: p g span_def True show_words_def)
    then show ?thesis using r(2) sl True by auto
  next
    case False
    then obtain w' ws' where ws: "ws = w' # ws'" by (cases ws) auto
    then obtain c v where c: "w' = c # v" "c \<notin> {60, 62}" using word_first [of w' u] Cons.prems(2) by auto
    have r: "parseredirs t ?s = Inr ([], ?s)" using un d2 c by (intro parseredirs_none) (auto simp: ws show_words_def)
    obtain as rs' where ih: "parseargs t (argc + 1) ?s = Inr (as, rs', ?s + length (show_words ws @ show_redirs rs))"
      "map (slice t) as = ws" "map (read_redir t) rs' = rs"
      using Cons.IH [OF d2, of "argc + 1"] Cons.prems False by auto
    have "parseargs t argc s = Inr ((s, s + length w) # as, rs', s + length (show_words (w # ws) @ show_redirs rs))"
      using r ih(1) arg by (subst parseargs.simps) (simp add: p g span_def show_words_def)
    then show ?thesis using ih(2,3) sl by auto
  qed
qed simp

lemma backs_show:
  "drop s t = replicate k 38 @ u \<Longrightarrow> unspaced u \<Longrightarrow> u = [] \<or> hd u \<noteq> 38 \<Longrightarrow> backs t s = (k, s + k)"
proof (induction k arbitrary: s)
  case 0
  then show ?case by (subst backs.simps) (auto simp: peek_here)
next
  case (Suc k)
  have d: "drop s t = 38 # replicate k 38 @ u" using Suc.prems by simp
  have n: "unspaced (replicate k 38 @ u)" using Suc.prems by (cases k) (auto simp: unspaced_def has_def whitespace_def)
  have "drop (s + 1) t = replicate k 38 @ u" using drop_more [of s t "[38]"] d by simp
  then have "backs t (s + 1) = (k, s + 1 + k)" using Suc by simp
  moreover have "peek_tok t s [38] = (True, s)"
    using peek_here [of s t "[38]"] d by (auto simp: unspaced_def has_def whitespace_def)
  moreover have "gettoken t s = \<lparr>ret = 38, q = s, eq = s + 1, ps = s + 1\<rparr>" using token_symbol [OF d _ n] by simp
  ultimately show ?case by (subst backs.simps) simp
qed

lemma redirs_simps:
  "redirs [] c = c" "redirs ((f, mode, fd) # rs) c = redirs rs (REDIR c f mode fd)"
  "map_cmd (slice t) (redirs rs' c') = redirs (map (read_redir t) rs') (map_cmd (slice t) c')"
proof -
  show "map_cmd (slice t) (redirs rs' c') = redirs (map (read_redir t) rs') (map_cmd (slice t) c')"
    unfolding redirs_def by (induction rs' arbitrary: c') (auto simp: read_redir_def)
qed (simp_all add: redirs_def)

lemma map_backs: "map_cmd h ((BACK ^^ k) c) = (BACK ^^ k) (map_cmd h c)"
  by (induction k) auto

lemma unspaced_symbol: "c \<in> {124, 40, 41, 59, 38, 60, 62} \<Longrightarrow> unspaced (c # u)"
  by (auto simp: unspaced_def has_def whitespace_def)

lemma show_then:
  assumes "cmd_ok word_ok a" "unspaced u"
  shows "unspaced (show_cmd a lev @ u)"
  using assms
proof (induction a arbitrary: u lev)
  case (EXEC ws)
  then show ?case using words_then [of ws u] by simp
next
  case (REDIR c f mode fd)
  have "unspaced ((if fd = 0 then [60] else [62]) @ f @ u)" by (auto simp: unspaced_def has_def whitespace_def)
  then show ?case using REDIR by simp
next
  case (PIPE l r)
  then show ?case using PIPE(1) [of "[124] @ show_cmd r 1 @ u" 0] by (auto simp: paren_def unspaced_symbol)
next
  case (LIST l r)
  then show ?case using LIST(1) [of "[59] @ show_cmd r 3 @ u" 2] by (auto simp: paren_def unspaced_symbol)
next
  case (BACK c)
  then show ?case using BACK(1) [of "[38] @ u" 2] by (auto simp: paren_def unspaced_symbol)
qed

lemma peek_symbol:
  assumes "drop s t = c # u" "c \<in> {124, 40, 41, 59, 38, 60, 62}" "c \<in> set toks"
  shows "peek_tok t s toks = (True, s)"
proof -
  have "unspaced (drop s t)" unfolding assms(1) using assms(2) by (rule unspaced_symbol)
  then show ?thesis using peek_here [of s t toks] assms by auto
qed

text \<open>What each function of the descent makes of a printed command, with what may follow it.\<close>

definition reads_exec :: "uchar list \<Rightarrow> uchar list cmd \<Rightarrow> bool" where
  "reads_exec t a \<longleftrightarrow> (\<forall>s rs u n. drop s t = show_cmd a 0 @ show_redirs rs @ u \<longrightarrow> (\<forall>r \<in> set rs. wredir_ok r) \<longrightarrow> exec_stop u \<longrightarrow>
     4 * (length t - s) + 2 \<le> n \<longrightarrow>
     (\<exists>c. parseexec n t s = Inr (c, s + length (show_cmd a 0 @ show_redirs rs)) \<and> map_cmd (slice t) c = redirs rs a))"

definition reads_pipe :: "uchar list \<Rightarrow> uchar list cmd \<Rightarrow> bool" where
  "reads_pipe t a \<longleftrightarrow> (\<forall>s u n. drop s t = show_cmd a 1 @ u \<longrightarrow> stops {41, 38, 59} u \<longrightarrow> 4 * (length t - s) + 3 \<le> n \<longrightarrow>
     (\<exists>c. parsepipe n t s = Inr (c, s + length (show_cmd a 1)) \<and> map_cmd (slice t) c = a))"

definition reads_back :: "uchar list \<Rightarrow> uchar list cmd \<Rightarrow> bool" where
  "reads_back t a \<longleftrightarrow> (\<forall>s k u n. drop s t = show_cmd a 2 @ replicate k 38 @ u \<longrightarrow> stops {41, 59} u \<longrightarrow> 4 * (length t - s) + 3 \<le> n \<longrightarrow>
     (\<exists>c s1 j. parsepipe n t s = Inr (c, s1) \<and> backs t s1 = (j, s + length (show_cmd a 2) + k) \<and>
        (BACK ^^ j) (map_cmd (slice t) c) = (BACK ^^ k) a))"

definition reads_line :: "uchar list \<Rightarrow> uchar list cmd \<Rightarrow> bool" where
  "reads_line t a \<longleftrightarrow> (\<forall>s u n. drop s t = show_cmd a 3 @ u \<longrightarrow> stops {41} u \<longrightarrow> 4 * (length t - s) + 4 \<le> n \<longrightarrow>
     (\<exists>c. parseline n t s = Inr (c, s + length (show_cmd a 3)) \<and> map_cmd (slice t) c = a))"

lemma reads_pipeD:
  "reads_pipe t a \<Longrightarrow> drop s t = show_cmd a 1 @ u \<Longrightarrow> stops {41, 38, 59} u \<Longrightarrow> 4 * (length t - s) + 3 \<le> n \<Longrightarrow>
   \<exists>c. parsepipe n t s = Inr (c, s + length (show_cmd a 1)) \<and> map_cmd (slice t) c = a"
  unfolding reads_pipe_def by blast

lemma reads_backD:
  "reads_back t a \<Longrightarrow> drop s t = show_cmd a 2 @ replicate k 38 @ u \<Longrightarrow> stops {41, 59} u \<Longrightarrow> 4 * (length t - s) + 3 \<le> n \<Longrightarrow>
   \<exists>c s1 j. parsepipe n t s = Inr (c, s1) \<and> backs t s1 = (j, s + length (show_cmd a 2) + k) \<and>
     (BACK ^^ j) (map_cmd (slice t) c) = (BACK ^^ k) a"
  unfolding reads_back_def by blast

lemma reads_lineD:
  "reads_line t a \<Longrightarrow> drop s t = show_cmd a 3 @ u \<Longrightarrow> stops {41} u \<Longrightarrow> 4 * (length t - s) + 4 \<le> n \<Longrightarrow>
   \<exists>c. parseline n t s = Inr (c, s + length (show_cmd a 3)) \<and> map_cmd (slice t) c = a"
  unfolding reads_line_def by blast

lemma stops_mono: "stops A u \<Longrightarrow> A \<subseteq> B \<Longrightarrow> stops B u"
  by (auto simp: stops_def)

lemma read_EXEC:
  assumes "cmd_ok word_ok (EXEC ws)"
  shows "reads_exec t (EXEC ws)"
  unfolding reads_exec_def
proof (intro allI impI)
  fix s rs u n
  assume d: "drop s t = show_cmd (EXEC ws) 0 @ show_redirs rs @ u" and rs: "\<forall>r \<in> set rs. wredir_ok r"
    and u: "exec_stop u" and n: "4 * (length t - s) + 2 \<le> n"
  obtain n' where n': "n = Suc n'" using n by (cases n) auto
  have d: "drop s t = show_words ws @ show_redirs rs @ u" using d by (simp add: show_words_def)
  have ws: "\<forall>w \<in> set ws. word_ok w" "length ws < MAXARGS" using assms by auto
  have un: "unspaced (drop s t)" unfolding d show_words_def using ws redirs_then(1) [OF u] by (intro words_then) auto
  have "drop s t = [] \<or> hd (drop s t) \<noteq> 40"
  proof (cases ws)
    case Nil
    have "show_redirs rs @ u \<noteq> [] \<Longrightarrow> hd (show_redirs rs @ u) \<noteq> 40"
      using u by (cases rs) (auto simp: show_redirs_def stops_def split: if_splits)
    then show ?thesis using d Nil by (auto simp: show_words_def)
  next
    case (Cons w ws')
    then show ?thesis using word_first [of w u] ws d by (auto simp: show_words_def)
  qed
  then have p: "\<exists>b. peek_tok t s [40] = (b, s) \<and> \<not> b" using peek_here [OF un, of "[40]"] by auto
  show "\<exists>c. parseexec n t s = Inr (c, s + length (show_cmd (EXEC ws) 0 @ show_redirs rs)) \<and>
      map_cmd (slice t) c = redirs rs (EXEC ws)"
  proof (cases "ws = []")
    case True
    have d0: "drop s t = show_redirs rs @ u" using d True by (simp add: show_words_def)
    obtain rs' where r: "parseredirs t s = Inr (rs', s + length (show_redirs rs))" "map (read_redir t) rs' = rs"
      using parseredirs_show [OF d0 rs u] by auto
    have "parseargs t 0 (s + length (show_redirs rs)) = Inr ([], [], s + length (show_redirs rs))"
      using drop_more [OF d0] u by (intro parseargs_none) simp
    then have "parseexec n t s = Inr (redirs rs' (EXEC []), s + length (show_cmd (EXEC ws) 0 @ show_redirs rs))"
      using p r(1) True by (auto simp: n')
    then show ?thesis using r(2) True by (auto simp: redirs_simps)
  next
    case False
    obtain as rs' where a: "parseargs t 0 s = Inr (as, rs', s + length (show_words ws @ show_redirs rs))"
      "map (slice t) as = ws" "map (read_redir t) rs' = rs"
      using parseargs_show [OF d ws(1) rs u, of 0] ws(2) False by auto
    have "drop s t = [] \<or> hd (drop s t) \<notin> {60, 62}"
      using word_first [of "hd ws" u] ws(1) False d by (cases ws) (auto simp: show_words_def)
    then have "parseredirs t s = Inr ([], s)" using parseredirs_none [OF un] by simp
    then have "parseexec n t s = Inr (redirs rs' (EXEC as), s + length (show_cmd (EXEC ws) 0 @ show_redirs rs))"
      using p a(1) by (auto simp: n' show_words_def)
    then show ?thesis using a(2,3) by (auto simp: redirs_simps)
  qed
qed

lemma read_REDIR:
  assumes "reads_exec t c" "cmd_ok word_ok (REDIR c f mode fd)"
  shows "reads_exec t (REDIR c f mode fd)"
  unfolding reads_exec_def
proof (intro allI impI)
  fix s rs u n
  assume d: "drop s t = show_cmd (REDIR c f mode fd) 0 @ show_redirs rs @ u" and rs: "\<forall>r \<in> set rs. wredir_ok r"
    and u: "exec_stop u" and n: "4 * (length t - s) + 2 \<le> n"
  let ?rs = "(f, mode, fd) # rs"
  have e: "show_cmd (REDIR c f mode fd) 0 @ show_redirs rs = show_cmd c 0 @ show_redirs ?rs"
    by (simp add: show_redirs_def)
  have "\<forall>r \<in> set ?rs. wredir_ok r" using rs assms(2) by (auto simp: wredir_ok_def)
  moreover have "drop s t = show_cmd c 0 @ show_redirs ?rs @ u" using d e by (metis append.assoc)
  ultimately show "\<exists>c'. parseexec n t s = Inr (c', s + length (show_cmd (REDIR c f mode fd) 0 @ show_redirs rs)) \<and>
      map_cmd (slice t) c' = redirs rs (REDIR c f mode fd)"
    using assms(1) u n unfolding reads_exec_def e redirs_simps(2) [symmetric] by blast
qed

text \<open>A command in parentheses, with redirections behind it.\<close>

lemma read_block:
  assumes "reads_line t a" "cmd_ok word_ok a" "show_cmd a 0 = [40] @ show_cmd a 3 @ [41]"
  shows "reads_exec t a"
  unfolding reads_exec_def
proof (intro allI impI)
  fix s rs u n
  assume d: "drop s t = show_cmd a 0 @ show_redirs rs @ u" and rs: "\<forall>r \<in> set rs. wredir_ok r"
    and u: "exec_stop u" and n: "4 * (length t - s) + 2 \<le> n"
  let ?v = "show_redirs rs @ u"
  have d: "drop s t = 40 # show_cmd a 3 @ 41 # ?v" using d assms(3) by simp
  have l: "s < length t" using in_range [OF d] .
  obtain n' where n': "n = Suc (Suc n')" using n by (cases n; cases "n - 1") auto
  have d1: "drop (s + 1) t = show_cmd a 3 @ 41 # ?v" using drop_more [of s t "[40]"] d by simp
  let ?s = "s + 1 + length (show_cmd a 3)"
  have d2: "drop ?s t = 41 # ?v" using drop_more [OF d1] .
  have d3: "drop (?s + 1) t = ?v" using drop_more [of ?s t "[41]"] d2 by simp
  have p: "peek_tok t s [40] = (True, s)" using peek_symbol [OF d] by simp
  have "unspaced (show_cmd a 3 @ 41 # ?v)" using show_then [OF assms(2), of "41 # ?v" 3] unspaced_symbol [of 41] by simp
  then have g: "gettoken t s = \<lparr>ret = 40, q = s, eq = s + 1, ps = s + 1\<rparr>" using token_symbol [OF d] by simp
  have "stops {41} (41 # ?v)" "4 * (length t - (s + 1)) + 4 \<le> n'" using n n' l by (simp_all add: stops_def)
  then obtain c where c: "parseline n' t (s + 1) = Inr (c, ?s)" "map_cmd (slice t) c = a"
    using reads_lineD [OF assms(1) d1] by blast
  have p': "peek_tok t ?s [41] = (True, ?s)" using peek_symbol [OF d2] by simp
  have g': "gettoken t ?s = \<lparr>ret = 41, q = ?s, eq = ?s + 1, ps = ?s + 1\<rparr>"
    using token_symbol [OF d2] redirs_then(1) [OF u, of rs] by simp
  obtain rs' where r: "parseredirs t (?s + 1) = Inr (rs', ?s + 1 + length (show_redirs rs))" "map (read_redir t) rs' = rs"
    using parseredirs_show [OF d3 rs u] by auto
  have "parseexec n t s = Inr (redirs rs' c, s + length (show_cmd a 0 @ show_redirs rs))"
    using assms(3) by (simp add: n' p g c(1) [simplified] p' [simplified] g' [simplified] r(1) [simplified])
  then show "\<exists>c. parseexec n t s = Inr (c, s + length (show_cmd a 0 @ show_redirs rs)) \<and> map_cmd (slice t) c = redirs rs a"
    using c(2) r(2) by (auto simp: redirs_simps)
qed

lemma read_pipe_single:
  assumes "reads_exec t a" "show_cmd a 1 = show_cmd a 0"
  shows "reads_pipe t a"
  unfolding reads_pipe_def
proof (intro allI impI)
  fix s u n
  assume d: "drop s t = show_cmd a 1 @ u" and u: "stops {41, 38, 59} u" and n: "4 * (length t - s) + 3 \<le> n"
  obtain n' where n': "n = Suc n'" using n by (cases n) auto
  let ?s = "s + length (show_cmd a 1)"
  have eu: "exec_stop u" using stops_mono [OF u] by auto
  have "drop s t = show_cmd a 0 @ show_redirs [] @ u" using d assms(2) by (simp add: show_redirs_def)
  then obtain c where c: "parseexec n' t s = Inr (c, ?s)" "map_cmd (slice t) c = a"
    using assms eu n n' unfolding reads_exec_def by (fastforce simp: redirs_simps show_redirs_def)
  have "peek_tok t ?s [124] = (False, ?s)"
    using peek_here [of ?s t "[124]"] drop_more [OF d] stops_unspaced [OF eu] u by (auto simp: stops_def)
  then show "\<exists>c. parsepipe n t s = Inr (c, ?s) \<and> map_cmd (slice t) c = a" using c by (simp add: n')
qed

lemma read_PIPE:
  assumes "reads_exec t l" "reads_pipe t r" "cmd_ok word_ok r"
  shows "reads_pipe t (PIPE l r)"
  unfolding reads_pipe_def
proof (intro allI impI)
  fix s u n
  assume d: "drop s t = show_cmd (PIPE l r) 1 @ u" and u: "stops {41, 38, 59} u" and n: "4 * (length t - s) + 3 \<le> n"
  obtain n' where n': "n = Suc n'" using n by (cases n) auto
  let ?v = "124 # show_cmd r 1 @ u" let ?s = "s + length (show_cmd l 0)"
  have d: "drop s t = show_cmd l 0 @ show_redirs [] @ ?v" using d by (simp add: paren_def show_redirs_def)
  then obtain c where c: "parseexec n' t s = Inr (c, ?s)" "map_cmd (slice t) c = l"
    using assms(1) n n' unfolding reads_exec_def by (fastforce simp: redirs_simps show_redirs_def stops_def)
  have d1: "drop ?s t = ?v" using drop_more [of s t "show_cmd l 0" ?v] d by (simp add: show_redirs_def)
  have d2: "drop (?s + 1) t = show_cmd r 1 @ u" using drop_more [of ?s t "[124]"] d1 by simp
  have p: "peek_tok t ?s [124] = (True, ?s)" using peek_symbol [OF d1] by simp
  have "unspaced u" using stops_unspaced stops_mono [OF u, of "{124, 41, 38, 59}"] by auto
  then have "gettoken t ?s = \<lparr>ret = 124, q = ?s, eq = ?s + 1, ps = ?s + 1\<rparr>"
    using token_symbol [OF d1] show_then [OF assms(3)] by simp
  moreover have "4 * (length t - (?s + 1)) + 3 \<le> n'" using n n' in_range [OF d1] by linarith
  then obtain c' where "parsepipe n' t (?s + 1) = Inr (c', ?s + 1 + length (show_cmd r 1))" "map_cmd (slice t) c' = r"
    using reads_pipeD [OF assms(2) d2 u] by blast
  ultimately show "\<exists>c. parsepipe n t s = Inr (c, s + length (show_cmd (PIPE l r) 1)) \<and> map_cmd (slice t) c = PIPE l r"
    using c p by (simp add: n' paren_def)
qed

lemma read_back_single:
  assumes "reads_pipe t a" "show_cmd a 2 = show_cmd a 1"
  shows "reads_back t a"
  unfolding reads_back_def
proof (intro allI impI)
  fix s k u n
  assume d: "drop s t = show_cmd a 2 @ replicate k 38 @ u" and u: "stops {41, 59} u" and n: "4 * (length t - s) + 3 \<le> n"
  let ?s = "s + length (show_cmd a 2)"
  have "stops {41, 38, 59} (replicate k 38 @ u)" using u by (cases k) (auto simp: stops_def)
  then obtain c where c: "parsepipe n t s = Inr (c, ?s)" "map_cmd (slice t) c = a"
    using reads_pipeD [OF assms(1), of s "replicate k 38 @ u" n] d n assms(2) by auto
  have "unspaced u" using stops_unspaced stops_mono [OF u, of "{124, 41, 38, 59}"] by auto
  then have "backs t ?s = (k, ?s + k)" using backs_show [OF drop_more [OF d]] u by (auto simp: stops_def)
  then show "\<exists>c s1 j. parsepipe n t s = Inr (c, s1) \<and> backs t s1 = (j, ?s + k) \<and> (BACK ^^ j) (map_cmd (slice t) c) = (BACK ^^ k) a"
    using c by blast
qed

lemma read_BACK:
  assumes "reads_back t c"
  shows "reads_back t (BACK c)"
  unfolding reads_back_def
proof (intro allI impI)
  fix s k u n
  assume d: "drop s t = show_cmd (BACK c) 2 @ replicate k 38 @ u" and u: "stops {41, 59} u" and n: "4 * (length t - s) + 3 \<le> n"
  have "drop s t = show_cmd c 2 @ replicate (Suc k) 38 @ u" using d by (simp add: paren_def)
  from reads_backD [OF assms this u n]
  show "\<exists>c' s1 j. parsepipe n t s = Inr (c', s1) \<and> backs t s1 = (j, s + length (show_cmd (BACK c) 2) + k) \<and>
      (BACK ^^ j) (map_cmd (slice t) c') = (BACK ^^ k) (BACK c)"
    by (simp add: paren_def funpow_swap1)
qed

lemma read_line_single:
  assumes "reads_back t a" "show_cmd a 3 = show_cmd a 2"
  shows "reads_line t a"
  unfolding reads_line_def
proof (intro allI impI)
  fix s u n
  assume d: "drop s t = show_cmd a 3 @ u" and u: "stops {41} u" and n: "4 * (length t - s) + 4 \<le> n"
  obtain n' where n': "n = Suc n'" using n by (cases n) auto
  let ?s = "s + length (show_cmd a 3)"
  have "drop s t = show_cmd a 2 @ replicate 0 38 @ u" "stops {41, 59} u" using d assms(2) stops_mono [OF u] by auto
  then obtain c s1 j where c: "parsepipe n' t s = Inr (c, s1)" "backs t s1 = (j, ?s)" "(BACK ^^ j) (map_cmd (slice t) c) = a"
    using reads_backD [OF assms(1), of s 0 u n'] n n' assms(2) by auto
  have "unspaced u" using stops_unspaced stops_mono [OF u, of "{124, 41, 38, 59}"] by auto
  then have "peek_tok t ?s [59] = (False, ?s)" using peek_here [of ?s t "[59]"] drop_more [OF d] u by (auto simp: stops_def)
  then show "\<exists>c. parseline n t s = Inr (c, ?s) \<and> map_cmd (slice t) c = a" using c by (simp add: n' map_backs)
qed

lemma read_LIST:
  assumes "reads_back t l" "reads_line t r" "cmd_ok word_ok r"
  shows "reads_line t (LIST l r)"
  unfolding reads_line_def
proof (intro allI impI)
  fix s u n
  assume d: "drop s t = show_cmd (LIST l r) 3 @ u" and u: "stops {41} u" and n: "4 * (length t - s) + 4 \<le> n"
  obtain n' where n': "n = Suc n'" using n by (cases n) auto
  let ?v = "59 # show_cmd r 3 @ u" let ?s = "s + length (show_cmd l 2)"
  have d0: "drop s t = show_cmd l 2 @ replicate 0 38 @ ?v" using d by (simp add: paren_def)
  then obtain c s1 j where c: "parsepipe n' t s = Inr (c, s1)" "backs t s1 = (j, ?s)" "(BACK ^^ j) (map_cmd (slice t) c) = l"
    using reads_backD [OF assms(1), of s 0 ?v n'] n n' by (auto simp: stops_def)
  have d1: "drop ?s t = ?v" using drop_more [of s t "show_cmd l 2" ?v] d0 by simp
  have d2: "drop (?s + 1) t = show_cmd r 3 @ u" using drop_more [of ?s t "[59]"] d1 by simp
  have p: "peek_tok t ?s [59] = (True, ?s)" using peek_symbol [OF d1] by simp
  have "unspaced u" using stops_unspaced stops_mono [OF u, of "{124, 41, 38, 59}"] by auto
  then have "gettoken t ?s = \<lparr>ret = 59, q = ?s, eq = ?s + 1, ps = ?s + 1\<rparr>"
    using token_symbol [OF d1] show_then [OF assms(3)] by simp
  moreover have "4 * (length t - (?s + 1)) + 4 \<le> n'" using n n' in_range [OF d1] by linarith
  then obtain c' where "parseline n' t (?s + 1) = Inr (c', ?s + 1 + length (show_cmd r 3))" "map_cmd (slice t) c' = r"
    using reads_lineD [OF assms(2) d2 u] by blast
  ultimately show "\<exists>c. parseline n t s = Inr (c, s + length (show_cmd (LIST l r) 3)) \<and> map_cmd (slice t) c = LIST l r"
    using c p by (simp add: n' paren_def map_backs)
qed

lemma read_all: "cmd_ok word_ok a \<Longrightarrow> reads_exec t a \<and> reads_pipe t a \<and> reads_back t a \<and> reads_line t a"
proof (induction a)
  case (EXEC ws)
  have e: "reads_exec t (EXEC ws)" using read_EXEC EXEC by blast
  then have p: "reads_pipe t (EXEC ws)" by (rule read_pipe_single) simp
  then have b: "reads_back t (EXEC ws)" by (rule read_back_single) simp
  then have "reads_line t (EXEC ws)" by (rule read_line_single) simp
  then show ?case using e p b by blast
next
  case (REDIR c f mode fd)
  have e: "reads_exec t (REDIR c f mode fd)" using REDIR by (intro read_REDIR) auto
  then have p: "reads_pipe t (REDIR c f mode fd)" by (rule read_pipe_single) simp
  then have b: "reads_back t (REDIR c f mode fd)" by (rule read_back_single) simp
  then have "reads_line t (REDIR c f mode fd)" by (rule read_line_single) simp
  then show ?case using e p b by blast
next
  case (PIPE l r)
  have p: "reads_pipe t (PIPE l r)" using PIPE by (intro read_PIPE) auto
  then have b: "reads_back t (PIPE l r)" by (rule read_back_single) (simp add: paren_def)
  then have l: "reads_line t (PIPE l r)" by (rule read_line_single) (simp add: paren_def)
  then have "reads_exec t (PIPE l r)" using PIPE.prems by (rule read_block) (simp add: paren_def)
  then show ?case using p b l by blast
next
  case (LIST l r)
  have l: "reads_line t (LIST l r)" using LIST by (intro read_LIST) auto
  then have e: "reads_exec t (LIST l r)" using LIST.prems by (rule read_block) (simp add: paren_def)
  then have p: "reads_pipe t (LIST l r)" by (rule read_pipe_single) (simp add: paren_def)
  then have "reads_back t (LIST l r)" by (rule read_back_single) (simp add: paren_def)
  then show ?case using p e l by blast
next
  case (BACK c)
  have b: "reads_back t (BACK c)" using BACK by (intro read_BACK) auto
  then have l: "reads_line t (BACK c)" by (rule read_line_single) (simp add: paren_def)
  then have e: "reads_exec t (BACK c)" using BACK.prems by (rule read_block) (simp add: paren_def)
  then have "reads_pipe t (BACK c)" by (rule read_pipe_single) (simp add: paren_def)
  then show ?case using b l e by blast
qed

lemma show_nonzero: "cmd_ok word_ok a \<Longrightarrow> 0 \<notin> set (show_cmd a lev)"
  by (induction a arbitrary: lev) (auto simp: word_ok_def paren_def)

lemma parse_shown:
  assumes "cmd_ok word_ok a"
  shows "\<exists>c b. parsecmd (show_cmd a 3) = Inr (c, b) \<and> map_cmd (\<lambda>w. cstring b (fst w)) c = a"
proof -
  let ?t = "show_cmd a 3"
  have "reads_line ?t a" using read_all [OF assms] by blast
  then obtain c where c: "parseline (4 * length ?t + 4) ?t 0 = Inr (c, length ?t)" "map_cmd (slice ?t) c = a"
    using reads_lineD [of ?t a 0 "[]" "4 * length ?t + 4"] by (auto simp: stops_def)
  have "peek_tok ?t (length ?t) [] = (False, length ?t)" using peek_here [of "length ?t" ?t "[]"] by (simp add: unspaced_def)
  then have p: "parsecmd ?t = Inr (c, nulterminate c (?t @ [0]))" using c(1) by (simp add: parsecmd_def)
  have ok: "cmd_ok (word_span ?t) c" using goodD [OF parse_good(1) c(1)] by simp
  have "map_cmd (\<lambda>w. cstring (nulterminate c (?t @ [0])) (fst w)) c = map_cmd (slice ?t) c"
    using parsed_strings [OF show_nonzero [OF assms] ok] by (intro cmd.map_cong) auto
  then show ?thesis using p c(2) by auto
qed

text \<open>
  C22. The parser reads back every command: a command of at most nine words to each program, with its
  redirections, pipes, lists and background commands nested in any way, is written as text with
  parentheses only where precedence needs them (redirections bind closest, then \<open>|\<close> and \<open>&\<close>, \<open>;\<close> last,
  pipes and lists to the right), and parsing the text gives the same command, with the same strings in
  the line once the terminators are in place.
\<close>

theorem parse_of_printed:
  assumes "cmd_ok word_ok a"
  shows "\<exists>c b. parsecmd (show_cmd a 3) = Inr (c, b) \<and> map_cmd (\<lambda>w. cstring b (fst w)) c = a"
  using assms by (rule parse_shown)

text \<open>An example: a pipe in the background, then a command with a redirection.\<close>

definition demo :: "uchar list cmd" where
  "demo = LIST (BACK (PIPE (EXEC [[97]]) (EXEC [[98]]))) (REDIR (EXEC [[99], [100]]) [101] O_RDONLY 0)"

lemma demo_ok: "cmd_ok word_ok demo"
  by (simp add: demo_def MAXARGS_def word_ok_def wordchar_def has_def whitespace_def symbols_def redir_mode_def)

theorem parse_of_printed_witness:
  "\<exists>c b. parsecmd [97, 32, 124, 98, 32, 38, 59, 99, 32, 100, 32, 60, 101] = Inr (c, b) \<and>
    map_cmd (\<lambda>w. cstring b (fst w)) c =
      LIST (BACK (PIPE (EXEC [[97]]) (EXEC [[98]]))) (REDIR (EXEC [[99], [100]]) [101] O_RDONLY 0)"
  using parse_of_printed [OF demo_ok] by (simp add: demo_def paren_def)

end
