(* ===== verification/Shrun.thy ===== *)
theory Shrun
  imports Sh Ulib
begin

text \<open>
  Running commands, the other half of \<^verbatim>\<open>sh.c\<close>. What a process of the shell does is the sequence of its
  system calls, with what follows for each result; \<open>fork\<close> goes on with 0 in the child and with the
  number of the child in the parent. A reference meaning of commands on tables of descriptors says
  which programs run with which descriptors; the calls that \<open>runcmd\<close> makes are shown to have it.
\<close>

section \<open>The calls of a process\<close>

datatype act =
    AExit
  | AExec "uchar list" "uchar list list" act
  | AClose int act
  | AOpen "uchar list" uint "int \<Rightarrow> act"
  | ADup int act
  | APipe "int \<Rightarrow> int \<Rightarrow> int \<Rightarrow> act"
  | AFork "int \<Rightarrow> act"
  | AWait act
  | AChdir "uchar list" "int \<Rightarrow> act"
  | AWrite int "uchar list" act

definition sh_panic :: "string \<Rightarrow> act" where
  "sh_panic s = AWrite 2 (cbytes s @ [10]) AExit"

definition fork1 :: "(int \<Rightarrow> act) \<Rightarrow> act" where
  "fork1 k = AFork (\<lambda>pid. if pid = -1 then sh_panic ''fork'' else k pid)"

primrec runcmd :: "uchar list cmd \<Rightarrow> act" where
  "runcmd (EXEC argv) =
     (if argv = [] then AExit
      else AExec (hd argv) argv (AWrite 2 (cbytes ''exec '' @ hd argv @ cbytes '' failed\<newline>'') AExit))"
| "runcmd (REDIR c file_name mode fd) =
     AClose fd (AOpen file_name mode (\<lambda>r.
       if r < 0 then AWrite 2 (cbytes ''open '' @ file_name @ cbytes '' failed\<newline>'') AExit else runcmd c))"
| "runcmd (LIST l r) = fork1 (\<lambda>pid. if pid = 0 then runcmd l else AWait (runcmd r))"
| "runcmd (PIPE l r) =
     APipe (\<lambda>res p0 p1.
       if res < 0 then sh_panic ''pipe''
       else fork1 (\<lambda>pid.
         if pid = 0 then AClose 1 (ADup p1 (AClose p0 (AClose p1 (runcmd l))))
         else fork1 (\<lambda>pid'.
           if pid' = 0 then AClose 0 (ADup p0 (AClose p0 (AClose p1 (runcmd r))))
           else AClose p0 (AClose p1 (AWait (AWait AExit))))))"
| "runcmd (BACK c) = fork1 (\<lambda>pid. if pid = 0 then runcmd c else AExit)"

section \<open>Command lines\<close>

text \<open>What the child of the shell does with a line: \<open>runcmd(parsecmd(buf))\<close>.\<close>

definition run_line :: "uchar list \<Rightarrow> act" where
  "run_line t =
     (case parsecmd t of
        Inr (c, b) \<Rightarrow> runcmd (map_cmd (\<lambda>w. cstring b (fst w)) c)
      | Inl (ShPanic s) \<Rightarrow> sh_panic s
      | Inl (Leftovers u) \<Rightarrow> AWrite 2 (cbytes ''leftovers: '' @ u @ [10]) (sh_panic ''syntax'')
      | Inl NoFuel \<Rightarrow> AExit)"

text \<open>\<open>getcmd\<close> on the bytes still to be read: the string in the buffer, and the rest.\<close>

definition getcmd :: "uchar list \<Rightarrow> uchar list \<times> uchar list" where
  "getcmd inp = (let (line, rest) = gets inp 100 in (takeWhile (\<lambda>c. c \<noteq> 0) line, rest))"

lemma gets_shorter: "fst (gets_loop inp k) \<noteq> [] \<Longrightarrow> length (snd (gets_loop inp k)) < length inp"
proof -
  have "length (fst (gets_loop inp k)) + length (snd (gets_loop inp k)) = length inp"
    by (induction inp k rule: gets_loop.induct) (auto simp: Let_def)
  then show "fst (gets_loop inp k) \<noteq> [] \<Longrightarrow> ?thesis" by (cases "fst (gets_loop inp k)") auto
qed

lemma getcmd_shorter: "getcmd inp = (t, rest) \<Longrightarrow> t \<noteq> [] \<Longrightarrow> length rest < length inp"
  using gets_shorter [of inp 99] by (cases "fst (gets_loop inp 99) = []") (auto simp: getcmd_def gets_def split: prod.splits)

text \<open>The loop of \<open>main\<close> on all that will be typed.\<close>

function main_loop :: "uchar list \<Rightarrow> act" where
  "main_loop inp =
     AWrite 2 (cbytes ''$ '')
       (let (buf, rest) = getcmd inp
        in if buf = [] then AExit
           else if take 3 buf = [99, 100, 32] then
             (let dir = drop 3 (butlast buf)
              in AChdir dir (\<lambda>r. if r < 0 then AWrite 2 (cbytes ''cannot cd '' @ dir @ [10]) (main_loop rest) else main_loop rest))
           else fork1 (\<lambda>pid. if pid = 0 then run_line buf else AWait (main_loop rest)))"
  by pat_completeness auto
termination
  by (relation "measure length") (auto dest: getcmd_shorter [OF sym])

declare main_loop.simps [simp del]

section \<open>Descriptors\<close>

text \<open>
  A table of descriptors, and the calls on it where they succeed: a new descriptor is the lowest that is
  free. A pipe is named by the place in the command that makes it.
\<close>

datatype stream = Console | Opened "uchar list" uint | ReadEnd "nat list" | WriteEnd "nat list"

type_synonym fds = "int \<Rightarrow> stream option"

function lowest :: "nat \<Rightarrow> fds \<Rightarrow> int \<Rightarrow> int" where
  "lowest 0 T i = i"
| "lowest (Suc n) T i = (if T i = None then i else lowest n T (i + 1))"
  by pat_completeness auto
termination by (relation "measure (\<lambda>(n, _, _). n)") auto

definition lowest_free :: "fds \<Rightarrow> int" where
  "lowest_free T = lowest NOFILE T 0"

text \<open>The programs that run, in order, each with its arguments and descriptors.\<close>

type_synonym prog_run = "uchar list \<times> uchar list list \<times> fds"

primrec runs :: "act \<Rightarrow> fds \<Rightarrow> nat list \<Rightarrow> prog_run list" where
  "runs AExit T p = []"
| "runs (AExec path argv a) T p = [(path, argv, T)]"
| "runs (AClose fd a) T p = runs a (T(fd := None)) p"
| "runs (AOpen path mode k) T p =
     (let d = lowest_free T in runs (k d) (T(d \<mapsto> Opened path mode)) p)"
| "runs (ADup fd a) T p = runs a (T(lowest_free T := T fd)) p"
| "runs (APipe k) T p =
     (let d0 = lowest_free T; T1 = T(d0 \<mapsto> ReadEnd p); d1 = lowest_free T1
      in runs (k 0 d0 d1) (T1(d1 \<mapsto> WriteEnd p)) p)"
| "runs (AFork k) T p = runs (k 0) T (0 # p) @ runs (k 1) T (1 # p)"
| "runs (AWait a) T p = runs a T p"
| "runs (AChdir path k) T p = runs (k 0) T p"
| "runs (AWrite fd bs a) T p = runs a T p"

text \<open>What a command means: no descriptors but the three of the caller, replaced where it says so.\<close>

primrec meaning :: "uchar list cmd \<Rightarrow> fds \<Rightarrow> nat list \<Rightarrow> prog_run list" where
  "meaning (EXEC argv) T p = (if argv = [] then [] else [(hd argv, argv, T)])"
| "meaning (REDIR c f mode fd) T p = meaning c (T(fd \<mapsto> Opened f mode)) p"
| "meaning (LIST l r) T p = meaning l T (0 # p) @ meaning r T (1 # p)"
| "meaning (PIPE l r) T p = meaning l (T(1 \<mapsto> WriteEnd p)) (0 # p) @ meaning r (T(0 \<mapsto> ReadEnd p)) (0 # 1 # p)"
| "meaning (BACK c) T p = meaning c T (0 # p)"

text \<open>A table with the three standard descriptors and nothing else.\<close>

definition std :: "fds \<Rightarrow> bool" where
  "std T \<longleftrightarrow> (\<forall>i. T i \<noteq> None \<longleftrightarrow> i \<in> {0, 1, 2})"

lemma stdD: "std T \<Longrightarrow> T i = None \<longleftrightarrow> i \<notin> {0, 1, 2}"
  unfolding std_def by metis

lemma std_upd: "std T \<Longrightarrow> i \<in> {0, 1, 2} \<Longrightarrow> std (T(i \<mapsto> x))"
  by (auto simp: std_def)

lemma lowest_std:
  assumes "std T"
  shows "lowest_free (T(0 := None)) = 0" "lowest_free (T(1 := None)) = 1" "lowest_free T = 3"
    "lowest_free (T(3 \<mapsto> x)) = 4" "lowest_free (T(3 := a, 4 := b, 0 := None)) = 0" "lowest_free (T(3 := a, 4 := b, 1 := None)) = 1"
  using stdD [OF assms, of 0] stdD [OF assms, of 1] stdD [OF assms, of 2] stdD [OF assms, of 3] stdD [OF assms, of 4]
  by (simp_all add: lowest_free_def NOFILE_def eval_nat_numeral)

lemma std_pipe:
  assumes "std T"
  shows "T(3 := a, 4 := b, 1 := x, 3 := None, 4 := None) = T(1 := x)" "T(3 := a, 4 := b, 0 := x, 3 := None, 4 := None) = T(0 := x)"
    "T(1 := None, 1 := x) = T(1 := x)"
  using stdD [OF assms, of 3] stdD [OF assms, of 4] by (auto simp: fun_eq_iff)

lemma runs_runcmd: "std T \<Longrightarrow> cmd_ok (\<lambda>_. True) c \<Longrightarrow> runs (runcmd c) T p = meaning c T p"
proof (induction c arbitrary: T p)
  case (REDIR c f mode fd)
  then have fd: "fd = 0 \<or> fd = 1" by (auto simp: redir_mode_def)
  then have "std (T(fd \<mapsto> Opened f mode))" using std_upd [OF REDIR.prems(1)] by auto
  then have "runs (runcmd c) (T(fd \<mapsto> Opened f mode)) p = meaning c (T(fd \<mapsto> Opened f mode)) p" using REDIR by simp
  then show ?case using fd lowest_std(1,2) [OF REDIR.prems(1)] by (auto simp: Let_def)
next
  case (PIPE l r)
  note s = lowest_std [OF PIPE.prems(1)]
  have u: "std (T(1 \<mapsto> WriteEnd p))" "std (T(0 \<mapsto> ReadEnd p))" using std_upd [OF PIPE.prems(1)] by auto
  have "runs (runcmd l) (T(1 \<mapsto> WriteEnd p)) (0 # p) = meaning l (T(1 \<mapsto> WriteEnd p)) (0 # p)"
    "runs (runcmd r) (T(0 \<mapsto> ReadEnd p)) (0 # 1 # p) = meaning r (T(0 \<mapsto> ReadEnd p)) (0 # 1 # p)"
    using PIPE.IH(1) [OF u(1), of "0 # p"] PIPE.IH(2) [OF u(2), of "0 # 1 # p"] PIPE.prems(2) unfolding cmd_ok.simps by blast+
  then show ?case using s std_pipe [OF PIPE.prems(1)] by (simp add: Let_def fork1_def)
qed (auto simp: fork1_def)

text \<open>
  C21. The shell runs a command line as the command it writes says. For every command of at most nine words to
  each program, with redirections, pipes, lists and background commands nested in any way: given its text and
  the three standard descriptors, and calls that succeed, the calls of the shell start exactly the programs
  of the command, in order, each with its arguments and exactly the descriptors it should have. The
  writing end of a pipe is descriptor 1 of the left side, the reading end descriptor 0 of the right side,
  and no other descriptor of a pipe stays open in any program.
\<close>

theorem shell_runs_meaning:
  assumes "cmd_ok word_ok a" "std T"
  shows "runs (run_line (show_cmd a 3)) T p = meaning a T p"
proof -
  obtain c b where c: "parsecmd (show_cmd a 3) = Inr (c, b)" "map_cmd (\<lambda>w. cstring b (fst w)) c = a"
    using parse_shown [OF assms(1)] by auto
  have "cmd_ok (\<lambda>_. True) a" using assms(1) by (induction a) auto
  then show ?thesis using c runs_runcmd [OF assms(2)] by (simp add: run_line_def)
qed

theorem shell_runs_meaning_witness:
  "let T = (\<lambda>i. if i \<in> {0, 1, 2} then Some Console else None)
   in runs (run_line [97, 32, 124, 98, 32, 38, 59, 99, 32, 100, 32, 60, 101]) T [] =
     [([97], [[97]], T(1 \<mapsto> WriteEnd [0, 0])), ([98], [[98]], T(0 \<mapsto> ReadEnd [0, 0])),
      ([99], [[99], [100]], T(0 \<mapsto> Opened [101] O_RDONLY))]"
proof -
  have "std (\<lambda>i. if i \<in> {0, 1, 2} then Some Console else None)" by (auto simp: std_def)
  from shell_runs_meaning [OF demo_ok this, of "[]"] show ?thesis by (simp add: demo_def paren_def Let_def)
qed

end
