(* ===== verification/Umalloc.thy ===== *)
theory Umalloc
  imports CString
begin

text \<open>
  The memory allocator of user programs, \<^verbatim>\<open>umalloc.c\<close>. Free blocks lie in the byte memory of the process,
  each with a header of two words, the address of the next free block and its length in units of the
  header's eight bytes; the list is circular, runs upwards through memory and starts at the static
  header \<open>base\<close>, whose address is an argument. \<^verbatim>\<open>sbrk\<close> is a system call and an argument too. Following a
  link in memory may lead anywhere, so the loops are partial; on a sound heap they are shown to end.
  The lemmas show that \<open>malloc\<close> cuts the block it returns out of free or new memory and that \<open>free\<close> puts a
  block back, with the list ordered, disjoint and no two free blocks touching.
\<close>

section \<open>The allocator\<close>

record uheap =
  umem :: memory
  ubrk :: uint
  freep :: uint

definition hptr :: "memory \<Rightarrow> uint \<Rightarrow> uint" where "hptr m p = load32 m p"
definition hsize :: "memory \<Rightarrow> uint \<Rightarrow> uint" where "hsize m p = load32 m (p + 4)"

definition set_ptr :: "uint \<Rightarrow> uint \<Rightarrow> memory \<Rightarrow> memory" where "set_ptr p v m = store32 m p v"
definition set_size :: "uint \<Rightarrow> uint \<Rightarrow> memory \<Rightarrow> memory" where "set_size p v m = store32 m (p + 4) v"

partial_function (option) free_loop :: "memory \<Rightarrow> uint \<Rightarrow> uint \<Rightarrow> uint option" where
  "free_loop m bp p =
     (if bp > p \<and> bp < hptr m p then Some p
      else if p \<ge> hptr m p \<and> (bp > p \<or> bp < hptr m p) then Some p
      else free_loop m bp (hptr m p))"

definition join_next :: "uint \<Rightarrow> uint \<Rightarrow> memory \<Rightarrow> memory" where
  "join_next bp p m =
     (if bp + 8 * hsize m bp = hptr m p
      then let m1 = set_size bp (hsize m bp + hsize m (hptr m p)) m in set_ptr bp (hptr m1 (hptr m1 p)) m1
      else set_ptr bp (hptr m p) m)"

definition join_prev :: "uint \<Rightarrow> uint \<Rightarrow> memory \<Rightarrow> memory" where
  "join_prev bp p m =
     (if p + 8 * hsize m p = bp
      then let m1 = set_size p (hsize m p + hsize m bp) m in set_ptr p (hptr m1 bp) m1
      else set_ptr p bp m)"

definition free :: "uint \<Rightarrow> uheap \<Rightarrow> uheap option" where
  "free ap h =
     (let bp = ap - 8 in
      case free_loop (umem h) bp (freep h) of None \<Rightarrow> None
      | Some p \<Rightarrow> Some (h\<lparr>umem := join_prev bp p (join_next bp p (umem h)), freep := p\<rparr>))"

definition morecore :: "(uint \<Rightarrow> uheap \<Rightarrow> uint \<times> uheap) \<Rightarrow> uint \<Rightarrow> uheap \<Rightarrow> (uint \<times> uheap) option" where
  "morecore sbrk nu h =
     (let nu = (if nu < 4096 then 4096 else nu); r = sbrk (nu * 8) h; p = fst r; h1 = snd r
      in if p = - 1 then Some (0, h1)
         else case free (p + 8) (h1\<lparr>umem := set_size p nu (umem h1)\<rparr>) of None \<Rightarrow> None
           | Some h2 \<Rightarrow> Some (freep h2, h2))"

definition take_block :: "uint \<Rightarrow> uint \<Rightarrow> uint \<Rightarrow> uheap \<Rightarrow> uint \<times> uheap" where
  "take_block nunits prevp p h =
     (let m = umem h in
      if hsize m p = nunits then (p + 8, h\<lparr>umem := set_ptr prevp (hptr m p) m, freep := prevp\<rparr>)
      else let m1 = set_size p (hsize m p - nunits) m; q = p + 8 * hsize m1 p
        in (q + 8, h\<lparr>umem := set_size q nunits m1, freep := prevp\<rparr>))"

partial_function (option) malloc_loop ::
  "(uint \<Rightarrow> uheap \<Rightarrow> uint \<times> uheap) \<Rightarrow> uint \<Rightarrow> uint \<Rightarrow> uint \<Rightarrow> uheap \<Rightarrow> (uint \<times> uheap) option" where
  "malloc_loop sbrk nunits prevp p h =
     (if hsize (umem h) p \<ge> nunits then Some (take_block nunits prevp p h)
      else if p = freep h
      then case morecore sbrk nunits h of None \<Rightarrow> None
        | Some (q, h1) \<Rightarrow> if q = 0 then Some (0, h1) else malloc_loop sbrk nunits q (hptr (umem h1) q) h1
      else malloc_loop sbrk nunits p (hptr (umem h) p) h)"

definition malloc_units :: "uint \<Rightarrow> uint" where
  "malloc_units nbytes = (nbytes + 8 - 1) div 8 + 1"

definition malloc :: "(uint \<Rightarrow> uheap \<Rightarrow> uint \<times> uheap) \<Rightarrow> uint \<Rightarrow> uint \<Rightarrow> uheap \<Rightarrow> (uint \<times> uheap) option" where
  "malloc sbrk base nbytes h =
     (let nunits = malloc_units nbytes;
          h1 = (if freep h = 0 then h\<lparr>umem := set_size base 0 (set_ptr base base (umem h)), freep := base\<rparr> else h)
      in malloc_loop sbrk nunits (freep h1) (hptr (umem h1) (freep h1)) h1)"

section \<open>Headers in memory\<close>

text \<open>A header covers the eight bytes from its address on.\<close>

definition covers :: "nat \<Rightarrow> uint \<Rightarrow> uint \<Rightarrow> bool" where
  "covers k a x = (unat a \<le> unat x \<and> unat x < unat a + k)"

lemma store32_other:
  assumes "unat a + 4 \<le> 2 ^ 32" "\<not> covers 4 a x"
  shows "store32 m a v x = m x"
proof -
  have "\<not> unat (x - a) < 4"
  proof
    assume l: "unat (x - a) < 4"
    have "unat (x - a + a) = unat (x - a) + unat a" using l assms(1) by (intro unat_add_small) simp
    then have "unat x = unat (x - a) + unat a" by simp
    then show False using assms(2) l by (simp add: covers_def)
  qed
  then show ?thesis by (simp add: store32_apply)
qed

lemma load32_frame:
  assumes "unat a + 4 \<le> 2 ^ 32" "\<And>x. covers 4 a x \<Longrightarrow> m' x = m x"
  shows "load32 m' a = load32 m a"
proof -
  have "unat (a + of_nat k) = unat a + k" if "k < 4" for k :: nat
  proof -
    have "unat (of_nat k :: uint) = k" using that by (intro unat_of_nat_small) simp
    then show ?thesis using unat_add_small [of a "of_nat k"] that assms(1) by simp
  qed
  from this [of 0] this [of 1] this [of 2] this [of 3]
  have "covers 4 a a" "covers 4 a (a + 1)" "covers 4 a (a + 2)" "covers 4 a (a + 3)" by (simp_all add: covers_def)
  then show ?thesis using assms(2) by (simp add: load32_def)
qed

lemma unat_plus4: "unat (p :: uint) + 8 \<le> 2 ^ 31 \<Longrightarrow> unat (p + 4) = unat p + 4"
  using unat_add_small [of p 4] by simp

lemma header_other:
  assumes "unat p + 8 \<le> 2 ^ 31" "\<not> covers 8 p x"
  shows "set_ptr p v m x = m x" "set_size p v m x = m x"
  using assms unat_plus4 [of p] by (auto simp: set_ptr_def set_size_def covers_def intro!: store32_other)

lemma header_frame:
  assumes "unat p + 8 \<le> 2 ^ 31" "\<And>x. covers 8 p x \<Longrightarrow> m' x = m x"
  shows "hptr m' p = hptr m p" "hsize m' p = hsize m p"
  using assms unat_plus4 [of p] by (auto simp: hptr_def hsize_def covers_def intro!: load32_frame)

lemma header_same:
  assumes "unat p + 8 \<le> 2 ^ 31"
  shows "hptr (set_ptr p v m) p = v" "hsize (set_ptr p v m) p = hsize m p"
    "hptr (set_size p v m) p = hptr m p" "hsize (set_size p v m) p = v"
proof -
  show "hptr (set_ptr p v m) p = v" "hsize (set_size p v m) p = v" by (simp_all add: hptr_def hsize_def set_ptr_def set_size_def)
  show "hsize (set_ptr p v m) p = hsize m p" unfolding hsize_def set_ptr_def
    by (rule load32_frame) (use assms unat_plus4 [OF assms] in \<open>auto simp: covers_def intro!: store32_other\<close>)
  show "hptr (set_size p v m) p = hptr m p" unfolding hptr_def set_size_def
    by (rule load32_frame) (use assms unat_plus4 [OF assms] in \<open>auto simp: covers_def intro!: store32_other\<close>)
qed

definition apart :: "uint \<Rightarrow> uint \<Rightarrow> bool" where
  "apart p q = (unat p + 8 \<le> unat q \<or> unat q + 8 \<le> unat p)"

lemma apart_sym: "apart p q = apart q p"
  by (auto simp: apart_def)

lemma header_apart:
  assumes "unat p + 8 \<le> 2 ^ 31" "unat q + 8 \<le> 2 ^ 31" "apart p q"
  shows "hptr (set_ptr p v m) q = hptr m q" "hsize (set_ptr p v m) q = hsize m q"
    "hptr (set_size p v m) q = hptr m q" "hsize (set_size p v m) q = hsize m q"
  using assms by (auto simp: covers_def apart_def intro!: header_frame header_other)

section \<open>The free list\<close>

text \<open>
  Free blocks are pairs of the address of their header and their length in units. The links run from
  each block to the next and from the last to \<open>e\<close>.
\<close>

type_synonym block = "uint \<times> uint"

definition next_of :: "block list \<Rightarrow> uint \<Rightarrow> uint" where
  "next_of H e = (case H of [] \<Rightarrow> e | b # _ \<Rightarrow> fst b)"

fun links :: "memory \<Rightarrow> block list \<Rightarrow> uint \<Rightarrow> bool" where
  "links m [] e = True"
| "links m ((a, n) # H) e = (hptr m a = next_of H e \<and> hsize m a = n \<and> links m H e)"

lemma next_of_simps [simp]: "next_of [] e = e" "next_of (b # H) e = fst b"
  by (simp_all add: next_of_def)

lemma next_of_append [simp]: "next_of (H @ G) e = next_of H (next_of G e)"
  by (cases H) auto

lemma links_append: "links m (H @ G) e = (links m H (next_of G e) \<and> links m G e)"
  by (induction H) auto

lemma links_size: "links m H e \<Longrightarrow> (a, n) \<in> set H \<Longrightarrow> hsize m a = n"
  by (induction H) auto

lemma links_frame:
  "links m H e \<Longrightarrow> (\<And>b. b \<in> set H \<Longrightarrow> hptr m' (fst b) = hptr m (fst b) \<and> hsize m' (fst b) = hsize m (fst b)) \<Longrightarrow> links m' H e"
proof (induction H)
  case (Cons c H)
  have "links m' H e" using Cons by (cases c) auto
  then show ?case using Cons.prems(1) Cons.prems(2) [of c] by (cases c) simp
qed simp

definition below :: "block \<Rightarrow> block \<Rightarrow> bool" where
  "below b c = (unat (fst b) + 8 \<le> unat (fst c) \<and> unat (fst b) + 8 * unat (snd b) < unat (fst c))"

definition inside :: "nat \<Rightarrow> block \<Rightarrow> bool" where
  "inside hi b = (unat (fst b) + 8 \<le> hi \<and> unat (fst b) + 8 * unat (snd b) \<le> hi)"

definition extent :: "block \<Rightarrow> nat set" where
  "extent b = {unat (fst b) ..< unat (fst b) + 8 * unat (snd b)}"

definition free_area :: "block list \<Rightarrow> nat set" where
  "free_area F = (\<Union>b \<in> set F. extent b)"

definition list_ok :: "uint \<Rightarrow> nat \<Rightarrow> block list \<Rightarrow> bool" where
  "list_ok base hi F = (base \<noteq> 0 \<and> hi < 2 ^ 31 \<and> sorted_wrt below ((base, 0) # F) \<and>
     (\<forall>b \<in> set ((base, 0) # F). inside hi b) \<and> (\<forall>b \<in> set F. 0 < unat (snd b)))"

text \<open>The heap before the first call of \<open>malloc\<close> has no list yet.\<close>

definition heap_ok :: "uint \<Rightarrow> block list \<Rightarrow> uheap \<Rightarrow> bool" where
  "heap_ok base F h = (list_ok base (unat (ubrk h)) F \<and>
     (if freep h = 0 then F = []
      else freep h \<in> fst ` set ((base, 0) # F) \<and> links (umem h) ((base, 0) # F) base))"

definition same_outside :: "nat set \<Rightarrow> memory \<Rightarrow> memory \<Rightarrow> bool" where
  "same_outside S m m' = (\<forall>x. unat x \<notin> S \<longrightarrow> m' x = m x)"

lemma same_outside_refl: "same_outside S m m"
  by (simp add: same_outside_def)

lemma same_outside_trans: "same_outside S m m' \<Longrightarrow> same_outside S m' m'' \<Longrightarrow> same_outside S m m''"
  by (simp add: same_outside_def)

lemma same_outside_mono: "same_outside S m m' \<Longrightarrow> S \<subseteq> T \<Longrightarrow> same_outside T m m'"
  by (auto simp: same_outside_def)

lemma same_outside_header:
  assumes "unat p + 8 \<le> 2 ^ 31" "{unat p ..< unat p + 8} \<subseteq> S"
  shows "same_outside S m (set_ptr p v m)" "same_outside S m (set_size p v m)"
  unfolding same_outside_def using assms by (auto simp: covers_def intro!: header_other)

section \<open>Following the links\<close>

fun route :: "memory \<Rightarrow> uint \<Rightarrow> uint list \<Rightarrow> bool" where
  "route m p [] = True"
| "route m p (x # V) = (hptr m p = x \<and> route m x V)"

lemma route_append: "route m p (V @ W) = (route m p V \<and> route m (last (p # V)) W)"
  by (induction V arbitrary: p) auto

lemma links_route: "links m ((a, n) # H) e \<Longrightarrow> route m a (map fst H @ [e])"
proof (induction H arbitrary: a n)
  case (Cons b H)
  then show ?case by (cases b) auto
qed simp

text \<open>From any block the links lead once around through all blocks and back.\<close>

lemma ring_route:
  assumes "links m H b" "next_of H b = b" "f \<in> fst ` set H"
  obtains V where "route m f (V @ [f])" "set (V @ [f]) = fst ` set H" "f \<notin> set V \<or> \<not> distinct (map fst H)"
proof -
  from assms(3) obtain n where "(f, n) \<in> set H" by auto
  then obtain G1 G2 where H: "H = G1 @ (f, n) # G2" by (meson split_list)
  have up: "route m f (map fst G2 @ [b])" and l1: "links m G1 f"
    using assms(1) links_route [of m f n G2 b] by (simp_all add: H links_append)
  show thesis
  proof (cases G1)
    case Nil
    then have "f = b" using assms(2) H by simp
    with up Nil H show thesis by (intro that [of "map fst G2"]) auto
  next
    case (Cons c G)
    then have "fst c = b" using assms(2) H by simp
    then have "route m b (map fst G @ [f])" using l1 Cons links_route [of m b "snd c" G f] by (cases c) simp
    with up have "route m f ((map fst G2 @ b # map fst G) @ [f])"
      using route_append [of m f "map fst G2 @ [b]" "map fst G @ [f]"] by simp
    moreover have "set ((map fst G2 @ b # map fst G) @ [f]) = fst ` set H" using H Cons \<open>fst c = b\<close> by auto
    moreover have "f \<notin> set (map fst G2 @ b # map fst G) \<or> \<not> distinct (map fst H)" using H Cons \<open>fst c = b\<close> by auto
    ultimately show thesis by (rule that)
  qed
qed

section \<open>Freeing\<close>

definition stops :: "memory \<Rightarrow> uint \<Rightarrow> uint \<Rightarrow> bool" where
  "stops m a p = ((a > p \<and> a < hptr m p) \<or> (p \<ge> hptr m p \<and> (a > p \<or> a < hptr m p)))"

lemma free_loop_route:
  "route m q V \<Longrightarrow> t \<in> set (q # V) \<Longrightarrow> (\<And>x. x \<in> set (q # V) \<Longrightarrow> stops m a x = (x = t)) \<Longrightarrow> free_loop m a q = Some t"
proof (induction V arbitrary: q)
  case Nil
  then have "stops m a q" "q = t" by auto
  then show ?case by (subst free_loop.simps) (auto simp: stops_def)
next
  case (Cons x V)
  show ?case
  proof (cases "q = t")
    case True
    then have "stops m a q" using Cons.prems by auto
    then show ?thesis using True by (subst free_loop.simps) (auto simp: stops_def)
  next
    case False
    then have "\<not> stops m a q" "free_loop m a x = Some t" using Cons.prems Cons.IH [of x] by auto
    then show ?thesis using Cons.prems(1) by (subst free_loop.simps) (auto simp: stops_def)
  qed
qed

lemma below_less: "below b c \<Longrightarrow> fst b < fst c"
  by (simp add: below_def word_less_nat_alt)

lemma sorted_split:
  "sorted_wrt below (G1 @ b # G2) \<Longrightarrow> (\<forall>c \<in> set G1. fst c < fst b) \<and> (\<forall>c \<in> set G2. fst b < fst c)"
  by (auto simp: sorted_wrt_append below_less)

lemma stops_iff:
  assumes "links m H b" "next_of H b = b" "sorted_wrt below H" "H = H1 @ (p, k) # H2" "p < a" "\<forall>c \<in> set H2. a < fst c"
    "b < a" "x \<in> fst ` set H"
  shows "stops m a x = (x = p)"
proof -
  from assms(8) obtain j where "(x, j) \<in> set H" by auto
  then obtain G1 G2 where G: "H = G1 @ (x, j) # G2" by (meson split_list)
  then have n: "hptr m x = next_of G2 b" using assms(1) by (simp add: links_append)
  have sp: "\<forall>c \<in> set H1. fst c < p" "\<forall>c \<in> set H2. p < fst c" "\<forall>c \<in> set G1. fst c < x" "\<forall>c \<in> set G2. x < fst c"
    using sorted_split [of H1 "(p, k)" H2] sorted_split [of G1 "(x, j)" G2] assms(3,4) G by auto
  have z: "fst c \<le> p \<and> fst c < a \<or> p < fst c \<and> a < fst c" if "c \<in> set H" for c
    using that sp(1,2) assms(4,5,6) by fastforce
  have x: "x \<le> p \<and> x < a \<or> p < x \<and> a < x" using z [of "(x, j)"] G by simp
  have pH: "(p, k) \<in> set (G1 @ (x, j) # G2)" using G assms(4) by (metis in_set_conv_decomp)
  show ?thesis
  proof (cases G2)
    case Nil
    have "b \<le> x"
    proof (cases G1)
      case (Cons c G)
      then have "fst c = b" using assms(2) G by simp
      then show ?thesis using sp(3) Cons by auto
    qed (use assms(2) G in auto)
    moreover have "p \<le> x" using pH Nil sp(3) by auto
    ultimately show ?thesis using n Nil x assms(5,7) by (auto simp: stops_def)
  next
    case (Cons c G3)
    have c: "x < fst c" "fst c \<le> p \<and> fst c < a \<or> p < fst c \<and> a < fst c" using z [of c] sp(4) G Cons by auto
    have "p \<le> x \<or> fst c \<le> p"
    proof -
      have "sorted_wrt below (c # G3)" using assms(3) G Cons by (simp add: sorted_wrt_append)
      then show ?thesis using pH sp(3) Cons sorted_split [of "[]" c G3] by auto
    qed
    then show ?thesis using n Cons c x assms(5) by (auto simp: stops_def)
  qed
qed

text \<open>What becomes of a block put back before \<open>H2\<close>, and of the block before it.\<close>

definition join_up :: "block \<Rightarrow> block list \<Rightarrow> block list" where
  "join_up b H = (case H of [] \<Rightarrow> [b]
     | c # H' \<Rightarrow> if fst b + 8 * snd b = fst c then (fst b, snd b + snd c) # H' else b # H)"

definition join_down :: "block \<Rightarrow> block list \<Rightarrow> block list" where
  "join_down b H = (if fst b + 8 * snd b = fst (hd H) then (fst b, snd b + snd (hd H)) # tl H else b # H)"

definition low :: "uint \<Rightarrow> bool" where "low p = (unat p + 8 \<le> 2 ^ 31)"

lemma low_header:
  "low p \<Longrightarrow> hptr (set_ptr p v m) p = v" "low p \<Longrightarrow> hsize (set_ptr p v m) p = hsize m p"
  "low p \<Longrightarrow> hptr (set_size p v m) p = hptr m p" "low p \<Longrightarrow> hsize (set_size p v m) p = v"
  "low p \<Longrightarrow> low q \<Longrightarrow> apart p q \<Longrightarrow> hptr (set_ptr p v m) q = hptr m q"
  "low p \<Longrightarrow> low q \<Longrightarrow> apart p q \<Longrightarrow> hsize (set_ptr p v m) q = hsize m q"
  "low p \<Longrightarrow> low q \<Longrightarrow> apart p q \<Longrightarrow> hptr (set_size p v m) q = hptr m q"
  "low p \<Longrightarrow> low q \<Longrightarrow> apart p q \<Longrightarrow> hsize (set_size p v m) q = hsize m q"
  by (simp_all add: low_def header_same header_apart)

lemma join_next_frame:
  assumes "low a" "low q" "apart a q"
  shows "hptr (join_next a p m) q = hptr m q" "hsize (join_next a p m) q = hsize m q"
  using assms by (simp_all add: join_next_def Let_def low_header)

lemma join_prev_frame:
  assumes "low p" "low q" "apart p q"
  shows "hptr (join_prev a p m) q = hptr m q" "hsize (join_prev a p m) q = hsize m q"
  using assms by (simp_all add: join_prev_def Let_def low_header)

lemma join_next_links:
  assumes "links m H2 b" "hptr m p = next_of H2 b" "hsize m a = n" "a + 8 * n \<noteq> b" "low a" "low p" "apart a p"
    "\<And>c. c \<in> set H2 \<Longrightarrow> low (fst c) \<and> apart a (fst c)"
  shows "links (join_next a p m) (join_up (a, n) H2) b"
proof (cases H2)
  case Nil
  then show ?thesis using assms by (simp add: join_next_def join_up_def low_header)
next
  case (Cons c H3)
  have f2: "links (join_next a p m) H2 b"
    by (rule links_frame [OF assms(1)]) (use join_next_frame [OF assms(5)] assms(8) in blast)
  then have f: "links (join_next a p m) H3 b" "links (join_next a p m) H2 b" using Cons by (cases c, simp_all)
  have c: "hptr m (fst c) = next_of H3 b" "hsize m (fst c) = snd c" "low (fst c)" "apart a (fst c)"
    using assms(1) assms(8) [of c] Cons by (cases c, auto)+
  show ?thesis
  proof (cases "a + 8 * n = fst c")
    case True
    then show ?thesis using f(1) c assms(2,3,5,6,7) Cons by (simp add: join_up_def) (simp add: join_next_def low_header)
  next
    case False
    then show ?thesis using f(2) assms(2,3,5,6,7) Cons by (simp add: join_up_def) (simp add: join_next_def low_header)
  qed
qed

lemma join_prev_links:
  assumes "links m ((a, n) # H) b" "hsize m p = k" "low p" "low a" "apart p a"
    "\<And>c. c \<in> set H \<Longrightarrow> low (fst c) \<and> apart p (fst c)"
  shows "links (join_prev a p m) (join_down (p, k) ((a, n) # H)) b"
proof -
  have f: "links (join_prev a p m) H b" "links (join_prev a p m) ((a, n) # H) b"
  proof -
    show "links (join_prev a p m) ((a, n) # H) b"
      by (rule links_frame [OF assms(1)]) (use join_prev_frame [OF assms(3)] assms(4,5,6) in auto)
    then show "links (join_prev a p m) H b" by simp
  qed
  show ?thesis
  proof (cases "p + 8 * k = a")
    case True
    then show ?thesis using f(1) assms by (simp add: join_down_def) (simp add: join_prev_def low_header)
  next
    case False
    then show ?thesis using f(2) assms by (simp add: join_down_def) (simp add: join_prev_def low_header)
  qed
qed

definition put_back :: "block \<Rightarrow> block list \<Rightarrow> block list" where
  "put_back c H = (let L = takeWhile (\<lambda>x. fst x < fst c) H
     in butlast L @ join_down (last L) (join_up c (drop (length L) H)))"

text \<open>A list of blocks in order, with the units of all blocks but the first.\<close>

definition run_ok :: "nat \<Rightarrow> block list \<Rightarrow> bool" where
  "run_ok hi H = (sorted_wrt below H \<and> (\<forall>b \<in> set H. inside hi b))"

lemma unat_units:
  assumes "inside hi (a, n)" "hi < 2 ^ 31"
  shows "unat (a + 8 * n) = unat a + 8 * unat n"
proof -
  have "unat (8 :: uint) * unat n < 2 ^ 32" using assms by (simp add: inside_def)
  then have "unat (8 * n) = 8 * unat n" by (simp add: unat_word_ariths)
  then show ?thesis using assms unat_add_small [of a "8 * n"] by (simp add: inside_def)
qed

lemma unat_units_add:
  assumes "inside hi (a, n)" "inside hi (c, j)" "hi < 2 ^ 31"
  shows "unat (n + j) = unat n + unat j"
  using assms by (intro unat_add_small) (simp add: inside_def)

lemma below_weak: "below b c \<Longrightarrow> fst c \<le> fst d \<Longrightarrow> below b d"
  by (simp add: below_def word_le_nat_alt)

lemma below_trans: "below b c \<Longrightarrow> below c d \<Longrightarrow> below b d"
  by (simp add: below_def)

lemma join_up_ok:
  assumes "run_ok hi H" "hi < 2 ^ 31" "inside hi (a, n)" "0 < unat n" "\<And>c. c \<in> set H \<Longrightarrow> unat a + 8 * unat n \<le> unat (fst c)"
    "\<And>c. c \<in> set H \<Longrightarrow> 0 < unat (snd c)"
  obtains j G where "join_up (a, n) H = (a, j) # G" "run_ok hi ((a, j) # G)" "0 < unat j" "set G \<subseteq> set H"
    "free_area ((a, j) # G) = extent (a, n) \<union> free_area H" "unat n \<le> unat j"
proof (cases "H = [] \<or> a + 8 * n \<noteq> fst (hd H)")
  case True
  have "below (a, n) c" if "c \<in> set H" for c
  proof -
    from that True obtain d G where H: "H = d # G" "a + 8 * n \<noteq> fst d" by (cases H) auto
    then have "unat a + 8 * unat n < unat (fst d)"
      using unat_units [OF assms(3,2)] assms(5) [of d] by (metis list.set_intros(1) nat_less_le word_unat_eq_iff)
    then have "below (a, n) d" using assms(4) by (simp add: below_def)
    moreover have "c = d \<or> below d c" using assms(1) that H by (auto simp: run_ok_def)
    ultimately show ?thesis using below_trans by blast
  qed
  then show thesis using True assms(1,3,4)
    by (intro that [of n H]) (auto simp: join_up_def run_ok_def free_area_def split: list.splits)
next
  case False
  then obtain c k G where H: "H = (c, k) # G" "a + 8 * n = c" by (cases H) auto
  have i: "inside hi (c, k)" using assms(1) H by (simp add: run_ok_def)
  have e: "unat c = unat a + 8 * unat n" "unat (n + k) = unat n + unat k"
    using unat_units [OF assms(3,2)] H(2) unat_units_add [OF assms(3) i assms(2)] by simp_all
  have "below (a, n + k) d" if "d \<in> set G" for d
    using assms(1,4) H(1) e that by (auto simp: run_ok_def below_def)
  moreover have "extent (a, n + k) = extent (a, n) \<union> extent (c, k)" using e by (auto simp: extent_def)
  moreover have "inside hi (a, n + k)" using i e assms(4) by (simp add: inside_def)
  ultimately show thesis using H assms(1,4) e
    by (intro that [of "n + k" G]) (auto simp: join_up_def run_ok_def free_area_def)
qed

lemma join_down_ok:
  assumes "run_ok hi ((a, j) # G)" "hi < 2 ^ 31" "inside hi (p, k)" "unat p + 8 * unat k \<le> unat a" "unat p + 8 \<le> unat a" "0 < unat j"
  obtains i G' where "join_down (p, k) ((a, j) # G) = (p, i) # G'" "run_ok hi ((p, i) # G')" "unat k \<le> unat i" "set G' \<subseteq> set ((a, j) # G)"
    "free_area ((p, i) # G') = extent (p, k) \<union> free_area ((a, j) # G)" "k = 0 \<longrightarrow> i = 0"
    "\<exists>c \<in> set ((p, i) # G'). unat j \<le> unat (snd c)"
proof (cases "p + 8 * k = a")
  case False
  have "unat p + 8 * unat k < unat a" using False assms(4) unat_units [OF assms(3,2)] by (metis nat_less_le word_unat_eq_iff)
  then have "below (p, k) (a, j)" using assms(5) by (simp add: below_def)
  then have "below (p, k) d" if "d \<in> set ((a, j) # G)" for d
    using that assms(1) by (auto simp: run_ok_def intro: below_trans [of _ "(a, j)"])
  with False assms(1,3) show thesis by (intro that [of k "(a, j) # G"]) (auto simp: join_down_def run_ok_def free_area_def)
next
  case True
  have i: "inside hi (a, j)" using assms(1) by (simp add: run_ok_def)
  have e: "unat a = unat p + 8 * unat k" "unat (k + j) = unat k + unat j"
    using unat_units [OF assms(3,2)] True unat_units_add [OF assms(3) i assms(2)] by simp_all
  have "below (p, k + j) d" if "d \<in> set G" for d using assms(1,5) e that by (auto simp: run_ok_def below_def)
  moreover have "extent (p, k + j) = extent (p, k) \<union> extent (a, j)" using e by (auto simp: extent_def)
  moreover have "inside hi (p, k + j)" using i e assms(5) by (simp add: inside_def)
  moreover have "k \<noteq> 0" using e assms(5) by auto
  ultimately show thesis using True assms(1) e
    by (intro that [of "k + j" G]) (auto simp: join_down_def run_ok_def free_area_def)
qed

text \<open>A block that is neither free nor the header \<open>base\<close>.\<close>

definition standing :: "uint \<Rightarrow> nat \<Rightarrow> block list \<Rightarrow> block \<Rightarrow> bool" where
  "standing base hi F b = (inside hi b \<and> 0 < unat (snd b) \<and> unat base + 8 \<le> unat (fst b) \<and>
     (\<forall>c \<in> set F. unat (fst c) + 8 * unat (snd c) \<le> unat (fst b) \<or> unat (fst b) + 8 * unat (snd b) \<le> unat (fst c)))"

lemma list_split:
  assumes "list_ok base hi F" "standing base hi F (a, n)"
  obtains H1 p k H2 where "(base, 0) # F = H1 @ (p, k) # H2" "takeWhile (\<lambda>x. fst x < a) ((base, 0) # F) = H1 @ [(p, k)]"
    "\<forall>c \<in> set H1 \<union> {(p, k)}. unat (fst c) + 8 * unat (snd c) \<le> unat a \<and> unat (fst c) + 8 \<le> unat a"
    "\<forall>c \<in> set H2. unat a + 8 * unat n \<le> unat (fst c)" "H1 = [] \<longrightarrow> (p, k) = (base, 0)"
    "H1 \<noteq> [] \<longrightarrow> hd H1 = (base, 0) \<and> 0 < unat k"
proof -
  let ?H = "(base, 0) # F" and ?P = "\<lambda>x :: block. fst x < a"
  let ?L = "takeWhile ?P ?H" and ?R = "dropWhile ?P ?H"
  have s: "sorted_wrt below ?H" and pos: "\<And>c. c \<in> set F \<Longrightarrow> 0 < unat (snd c)" using assms(1) by (auto simp: list_ok_def)
  have b: "unat base + 8 \<le> unat a" "0 < unat n" and st: "\<And>c. c \<in> set F \<Longrightarrow> unat (fst c) + 8 * unat (snd c) \<le> unat a \<or> unat a + 8 * unat n \<le> unat (fst c)"
    using assms(2) by (auto simp: standing_def)
  then have "base < a" by (simp add: word_less_nat_alt)
  then have L: "?L = (base, 0) # takeWhile ?P F" "?L = butlast ?L @ [last ?L]" by simp_all
  obtain p k where l: "last ?L = (p, k)" by force
  have H: "?H = butlast ?L @ (p, k) # ?R" using L(2) l takeWhile_dropWhile_id [of ?P ?H] by (metis append.assoc append_Cons append_Nil)
  have lo: "unat (fst c) + 8 * unat (snd c) \<le> unat a \<and> unat (fst c) + 8 \<le> unat a" if "c \<in> set ?L" for c
  proof (cases "c = (base, 0)")
    case False
    have "c \<in> set ?H" "fst c < a" using set_takeWhileD [OF that] by blast+
    then have "c \<in> set F" "unat (fst c) < unat a" using False by (auto simp: word_less_nat_alt)
    with st [of c] pos [of c] b(2) show ?thesis by linarith
  qed (use b in simp)
  have up: "unat a + 8 * unat n \<le> unat (fst c)" if "c \<in> set ?R" for c
  proof -
    have "?R \<noteq> []" using that by (metis emptyE list.set(1))
    then obtain y R where R: "?R = y # R" by (meson neq_Nil_conv)
    then have "\<not> ?P y" using hd_dropWhile [of ?P ?H] by (metis list.distinct(1) list.sel(1))
    moreover have "sorted_wrt below (?L @ ?R)" using s by (simp only: takeWhile_dropWhile_id)
    then have "sorted_wrt below (y # R)" unfolding R by (simp only: sorted_wrt_append)
    moreover have "c = y \<or> c \<in> set R" using that unfolding R by simp
    ultimately have "a \<le> fst c" using below_less [of y c] by auto
    then have "unat a \<le> unat (fst c)" by (simp add: word_le_nat_alt)
    moreover have "c \<in> set F" using that \<open>base < a\<close> by (auto dest: set_dropWhileD)
    ultimately show ?thesis using st [of c] pos [of c] b(2) by linarith
  qed
  define H1 where "H1 = butlast ?L"
  have T: "?L = H1 @ [(p, k)]" using L(2) unfolding l H1_def .
  have lo': "\<forall>c \<in> set H1 \<union> {(p, k)}. unat (fst c) + 8 * unat (snd c) \<le> unat a \<and> unat (fst c) + 8 \<le> unat a"
    using lo unfolding T by auto
  have h: "H1 @ [(p, k)] = (base, 0) # takeWhile ?P F" using T L(1) by (rule trans [OF sym])
  have e: "H1 = [] \<longrightarrow> (p, k) = (base, 0)" using h by auto
  have f: "H1 \<noteq> [] \<longrightarrow> hd H1 = (base, 0) \<and> 0 < unat k"
  proof
    assume "H1 \<noteq> []"
    then obtain G where G: "H1 = (base, 0) # G" using h by (cases H1) auto
    then have t: "takeWhile ?P F = G @ [(p, k)]" using h by simp
    have "(p, k) \<in> set (takeWhile ?P F)" unfolding t by simp
    then have "(p, k) \<in> set F" by (rule set_takeWhileD [THEN conjunct1])
    with G pos [of "(p, k)"] show "hd H1 = (base, 0) \<and> 0 < unat k" by simp
  qed
  show thesis by (rule that [OF H [folded H1_def] T lo' _ e f]) (use up in blast)
qed

lemma put_back_ok:
  assumes "list_ok base hi F" "standing base hi F (a, n)"
  obtains F' H1 p k H2 where "put_back (a, n) ((base, 0) # F) = (base, 0) # F'" "list_ok base hi F'"
    "free_area F' = free_area F \<union> extent (a, n)" "(base, 0) # F = H1 @ (p, k) # H2"
    "(base, 0) # F' = H1 @ join_down (p, k) (join_up (a, n) H2)" "p \<in> fst ` set ((base, 0) # F')"
    "\<forall>c \<in> set H1 \<union> {(p, k)}. unat (fst c) + 8 \<le> unat a"
    "\<forall>c \<in> set H2. unat a + 8 * unat n \<le> unat (fst c)" "\<exists>c \<in> set F'. unat n \<le> unat (snd c)"
proof -
  obtain H1 p k H2 where H: "(base, 0) # F = H1 @ (p, k) # H2" and L: "takeWhile (\<lambda>x. fst x < a) ((base, 0) # F) = H1 @ [(p, k)]"
    and lo: "\<forall>c \<in> set H1 \<union> {(p, k)}. unat (fst c) + 8 * unat (snd c) \<le> unat a \<and> unat (fst c) + 8 \<le> unat a"
    and up: "\<forall>c \<in> set H2. unat a + 8 * unat n \<le> unat (fst c)"
    and e: "H1 = [] \<longrightarrow> (p, k) = (base, 0)" "H1 \<noteq> [] \<longrightarrow> hd H1 = (base, 0) \<and> 0 < unat k"
    using list_split [OF assms] by blast
  have ok: "hi < 2 ^ 31" "run_ok hi (H1 @ (p, k) # H2)" "\<And>c. c \<in> set F \<Longrightarrow> 0 < unat (snd c)" "base \<noteq> 0"
    using assms(1) H [symmetric] by (auto simp: list_ok_def run_ok_def)
  have F: "F = tl H1 @ (if H1 = [] then [] else [(p, k)]) @ H2" using H e by (cases H1) auto
  have r: "run_ok hi H2" "inside hi (p, k)" using ok(2) by (auto simp: run_ok_def sorted_wrt_append)
  have s: "inside hi (a, n)" "0 < unat n" using assms(2) by (simp_all add: standing_def)
  have "0 < unat (snd c)" if "c \<in> set H2" for c using that ok(3) F by simp
  then obtain j G where j: "join_up (a, n) H2 = (a, j) # G" "run_ok hi ((a, j) # G)" "0 < unat j" "set G \<subseteq> set H2"
    "free_area ((a, j) # G) = extent (a, n) \<union> free_area H2" "unat n \<le> unat j"
    using join_up_ok [OF r(1) ok(1) s] up by blast
  have pa: "unat p + 8 * unat k \<le> unat a" "unat p + 8 \<le> unat a" using lo by simp_all
  obtain i G' where i: "join_down (p, k) ((a, j) # G) = (p, i) # G'" "run_ok hi ((p, i) # G')" "unat k \<le> unat i" "set G' \<subseteq> set ((a, j) # G)"
    "free_area ((p, i) # G') = extent (p, k) \<union> free_area ((a, j) # G)" "k = 0 \<longrightarrow> i = 0"
    "\<exists>c \<in> set ((p, i) # G'). unat j \<le> unat (snd c)"
    by (rule join_down_ok [OF j(2) ok(1) r(2) pa j(3)])
  define F' where "F' = tl H1 @ (if H1 = [] then [] else [(p, i)]) @ G'"
  have F': "(base, 0) # F' = H1 @ (p, i) # G'" using e i(6) by (cases H1) (auto simp: F'_def)
  have b: "below c (p, i)" if "c \<in> set H1" for c using that ok(2) by (auto simp: run_ok_def sorted_wrt_append below_def)
  have "sorted_wrt below (H1 @ (p, i) # G')" using ok(2) i(2) b below_trans by (auto simp: run_ok_def sorted_wrt_append) blast
  moreover have "\<forall>c \<in> set (H1 @ (p, i) # G'). inside hi c" using ok(2) i(2) by (auto simp: run_ok_def)
  moreover have "\<forall>c \<in> set F'. 0 < unat (snd c)"
    using ok(3) F i(3,4) j(3,4) e(2) by (fastforce simp: F'_def split: if_splits)
  ultimately have "list_ok base hi F'" unfolding list_ok_def F' using ok(1,4) by blast
  moreover have "free_area ((base, 0) # F') = free_area ((base, 0) # F) \<union> extent (a, n)"
    unfolding F' H using i(5) j(5) by (auto simp: free_area_def)
  then have "free_area F' = free_area F \<union> extent (a, n)" by (simp add: free_area_def extent_def)
  moreover have "drop (length (takeWhile (\<lambda>x. fst x < a) ((base, 0) # F))) ((base, 0) # F) = H2" unfolding L unfolding H by simp
  then have "put_back (a, n) ((base, 0) # F) = H1 @ join_down (p, k) (join_up (a, n) H2)"
    using L by (simp add: put_back_def Let_def)
  moreover have "\<exists>c \<in> set ((base, 0) # F'). unat n \<le> unat (snd c)" 
  proof -
    from i(7) obtain c where "c \<in> set ((p, i) # G')" "unat j \<le> unat (snd c)" by blast
    then have "c \<in> set (H1 @ (p, i) # G')" "unat n \<le> unat (snd c)" using j(6) by auto
    then show ?thesis unfolding F' by blast
  qed
  then have "\<exists>c \<in> set F'. unat n \<le> unat (snd c)" using s(2) by auto
  ultimately show thesis using that [of F' H1 p k H2] H F' i(1) j(1) lo up by (simp add: image_iff)
qed

lemma header_in:
  assumes "list_ok base hi F" "c \<in> set ((base, 0) # F)"
  shows "low (fst c)" "{unat (fst c) ..< unat (fst c) + 8} \<subseteq> free_area F \<union> {unat base ..< unat base + 8}"
proof -
  show "low (fst c)" using assms by (auto simp: list_ok_def inside_def low_def)
  have "c = (base, 0) \<or> c \<in> set F \<and> 0 < unat (snd c)" using assms by (auto simp: list_ok_def)
  then show "{unat (fst c) ..< unat (fst c) + 8} \<subseteq> free_area F \<union> {unat base ..< unat base + 8}"
    by (fastforce simp: free_area_def extent_def)
qed

lemma same_outside_join:
  assumes "low a" "low p" "{unat a ..< unat a + 8} \<subseteq> S" "{unat p ..< unat p + 8} \<subseteq> S"
  shows "same_outside S m (join_prev a p (join_next a p m))"
proof -
  note h = same_outside_header [OF assms(1) [unfolded low_def] assms(3)] same_outside_header [OF assms(2) [unfolded low_def] assms(4)]
  note t = same_outside_trans [OF h(2,1)] same_outside_trans [OF h(4,3)]
  have "same_outside S m (join_next a p m)" using h(1) t(1) by (simp add: join_next_def Let_def)
  moreover have "same_outside S m' (join_prev a p m')" for m' using h(3) t(2) by (simp add: join_prev_def Let_def)
  ultimately show ?thesis using same_outside_trans by blast
qed

lemma join_up_shape: "\<exists>j G. join_up (a, n) H = (a, j) # G \<and> set G \<subseteq> set H"
  by (cases H) (auto simp: join_up_def)

lemma free_loop_finds:
  assumes "links m H base" "next_of H base = base" "f \<in> fst ` set H" "sorted_wrt below H" "H = H1 @ (p, k) # H2"
    "p < a" "\<forall>c \<in> set H2. a < fst c" "base < a"
  shows "free_loop m a f = Some p"
proof -
  obtain V where V: "route m f (V @ [f])" "set (V @ [f]) = fst ` set H" by (rule ring_route [OF assms(1-3)])
  have i: "set (f # V @ [f]) = fst ` set H" using V(2) by auto
  show ?thesis
  proof (rule free_loop_route [OF V(1)])
    have "(p, k) \<in> set H" using assms(5) by simp
    then show "p \<in> set (f # V @ [f])" unfolding i by (metis fst_conv imageI)
    show "\<And>x. x \<in> set (f # V @ [f]) \<Longrightarrow> stops m a x = (x = p)" unfolding i by (rule stops_iff [OF assms(1,2,4-8)])
  qed
qed

lemma joined_links:
  assumes "links m (H1 @ (p, k) # H2) base" "sorted_wrt below (H1 @ (p, k) # H2)" "hsize m a = n" "a + 8 * n \<noteq> base" "low a"
    "\<And>c. c \<in> set (H1 @ (p, k) # H2) \<Longrightarrow> low (fst c) \<and> apart a (fst c)"
  shows "links (join_prev a p (join_next a p m)) (H1 @ join_down (p, k) (join_up (a, n) H2)) base"
proof -
  let ?m1 = "join_next a p m" and ?m2 = "join_prev a p (join_next a p m)"
  have pp: "apart p (fst c)" if "c \<in> set H1 \<union> set H2" for c
    using that assms(2) by (auto simp: sorted_wrt_append below_def apart_def)
  have lk: "links m H1 p" "hptr m p = next_of H2 base" "hsize m p = k" "links m H2 base" using assms(1) by (simp_all add: links_append)
  have lp: "low p" "apart a p" "apart p a" using assms(6) [of "(p, k)"] apart_sym by simp_all
  obtain j G where j: "join_up (a, n) H2 = (a, j) # G" "set G \<subseteq> set H2" using join_up_shape by blast
  have "links ?m1 (join_up (a, n) H2) base"
    by (rule join_next_links [OF lk(4,2) assms(3,4,5) lp(1,2)]) (use assms(6) in simp)
  then have "links ?m2 (join_down (p, k) ((a, j) # G)) base"
  proof (intro join_prev_links [OF _ _ lp(1) assms(5) lp(3)])
    show "hsize ?m1 p = k" using join_next_frame(2) [OF assms(5) lp(1,2)] lk(3) by simp
    show "low (fst c) \<and> apart p (fst c)" if "c \<in> set G" for c using that j(2) assms(6) [of c] pp [of c] by auto
  qed (simp add: j(1))
  moreover have "links ?m2 H1 p"
  proof (rule links_frame [OF lk(1)])
    fix c assume "c \<in> set H1"
    then have l: "low (fst c)" "apart a (fst c)" "apart p (fst c)" using assms(6) [of c] pp [of c] by auto
    show "hptr ?m2 (fst c) = hptr m (fst c) \<and> hsize ?m2 (fst c) = hsize m (fst c)"
      using join_next_frame [OF assms(5) l(1,2)] join_prev_frame [OF lp(1) l(1,3)] by simp
  qed
  moreover have "next_of (join_down (p, k) ((a, j) # G)) base = p" by (simp add: join_down_def)
  ultimately show ?thesis unfolding j(1) by (simp add: links_append)
qed

lemma list_addresses_pos:
  assumes "list_ok base hi F" "c \<in> set ((base, 0) # F)"
  shows "fst c \<noteq> 0"
proof -
  have "0 < unat base" using assms(1) by (simp add: list_ok_def unat_pos_iff)
  moreover have "unat base \<le> unat (fst c)" using assms by (auto simp: list_ok_def below_def)
  ultimately show ?thesis by auto
qed

lemma free_ok:
  assumes "heap_ok base F h" "freep h \<noteq> 0" "standing base (unat (ubrk h)) F (a, n)" "hsize (umem h) a = n"
  obtains F' h' where "free (a + 8) h = Some h'" "heap_ok base F' h'" "freep h' \<noteq> 0" "ubrk h' = ubrk h"
    "(base, 0) # F' = put_back (a, n) ((base, 0) # F)" "free_area F' = free_area F \<union> extent (a, n)"
    "same_outside (free_area F \<union> extent (a, n) \<union> {unat base ..< unat base + 8}) (umem h) (umem h')"
    "\<exists>c \<in> set F'. unat n \<le> unat (snd c)"
proof -
  let ?m = "umem h" and ?H = "(base, 0) # F" and ?S = "free_area F \<union> extent (a, n) \<union> {unat base ..< unat base + 8}"
  have ok: "list_ok base (unat (ubrk h)) F" "freep h \<in> fst ` set ?H" "links ?m ?H base" using assms(1,2) by (simp_all add: heap_ok_def)
  obtain F' H1 p k H2 where p: "put_back (a, n) ?H = (base, 0) # F'" "list_ok base (unat (ubrk h)) F'"
    "free_area F' = free_area F \<union> extent (a, n)" "?H = H1 @ (p, k) # H2" "(base, 0) # F' = H1 @ join_down (p, k) (join_up (a, n) H2)"
    "p \<in> fst ` set ((base, 0) # F')" and lo: "\<forall>c \<in> set H1 \<union> {(p, k)}. unat (fst c) + 8 \<le> unat a"
    and up: "\<forall>c \<in> set H2. unat a + 8 * unat n \<le> unat (fst c)" and big: "\<exists>c \<in> set F'. unat n \<le> unat (snd c)"
    using put_back_ok [OF ok(1) assms(3)] by blast
  have st: "inside (unat (ubrk h)) (a, n)" "0 < unat n" "unat base + 8 \<le> unat a" "unat (ubrk h) < 2 ^ 31" "sorted_wrt below ?H" "base \<noteq> 0"
    using assms(3) ok(1) by (simp_all add: standing_def list_ok_def)
  have la: "low a" using st(1,4) by (simp add: inside_def low_def)
  have mem: "(p, k) \<in> set ?H" unfolding p(4) by simp
  have ap: "apart a (fst c)" if "c \<in> set ?H" for c
    using that lo up st(2) unfolding p(4) by (fastforce simp: apart_def)
  have "free_loop ?m a (freep h) = Some p"
    by (rule free_loop_finds [OF ok(3) _ ok(2) st(5) p(4)]) (use lo up st(2,3) in \<open>auto simp: word_less_nat_alt\<close>)
  then have f: "free (a + 8) h = Some (h\<lparr>umem := join_prev a p (join_next a p ?m), freep := p\<rparr>)" by (simp add: free_def Let_def)
  have "unat (a + 8 * n) \<noteq> unat base" using unat_units [OF st(1,4)] st(3) by linarith
  then have ne: "a + 8 * n \<noteq> base" by blast
  have lw: "low (fst c) \<and> apart a (fst c)" if "c \<in> set (H1 @ (p, k) # H2)" for c
    using header_in(1) [OF ok(1), of c] ap [of c] that unfolding p(4) by blast
  have "links (join_prev a p (join_next a p ?m)) ((base, 0) # F') base" unfolding p(5)
    by (rule joined_links [OF ok(3) [unfolded p(4)] st(5) [unfolded p(4)] assms(4) ne la lw])
  moreover obtain c where "c \<in> set ((base, 0) # F')" "p = fst c" using p(6) by (rule imageE)
  then have "p \<noteq> 0" using list_addresses_pos [OF p(2), of c] by simp
  moreover have "same_outside ?S ?m (join_prev a p (join_next a p ?m))"
    by (rule same_outside_join [OF la header_in(1) [OF ok(1) mem, simplified]]) (use st(2) header_in(2) [OF ok(1) mem] in \<open>auto simp: extent_def\<close>)
  ultimately show thesis using that [OF f, of F'] p big by (simp add: heap_ok_def)
qed

section \<open>Allocating\<close>

lemma standing_disjoint: "standing base hi F b \<Longrightarrow> extent b \<inter> free_area F = {}"
  by (fastforce simp: standing_def free_area_def extent_def)

text \<open>The tail of a free block is cut off; a block cut off whole leaves the list.\<close>

lemma cut_list:
  assumes "list_ok base hi F" "(base, 0) # F = H1 @ (q, j) # (p, k) # H3" "0 < nu" "nu \<le> k"
    and "a = p + 8 * (k - nu)" "X = (if k = nu then [] else [(p, k - nu)])"
  obtains F' where "(base, 0) # F' = H1 @ (q, j) # X @ H3" "list_ok base hi F'" "standing base hi F' (a, nu)"
    "free_area F = free_area F' \<union> extent (a, nu)" "unat p \<le> unat a"
proof -
  have ok: "base \<noteq> 0" "hi < 2 ^ 31" "sorted_wrt below (H1 @ (q, j) # (p, k) # H3)" "\<And>c. c \<in> set (H1 @ (q, j) # (p, k) # H3) \<Longrightarrow> inside hi c"
    "\<And>c. c \<in> set F \<Longrightarrow> 0 < unat (snd c)"
    using assms(1) unfolding list_ok_def assms(2) by auto
  have k: "unat (k - nu) = unat k - unat nu" "unat nu \<le> unat k" "0 < unat nu"
    using assms(3,4) by (simp_all add: unat_sub_small word_le_nat_alt word_less_nat_alt)
  have ip: "inside hi (p, k - nu)" "inside hi (p, k)" using ok(4) [of "(p, k)"] k by (auto simp: inside_def)
  have a: "unat a = unat p + 8 * (unat k - unat nu)" unfolding assms(5) using unat_units [OF ip(1) ok(2)] k(1) by simp
  have F: "F = tl (H1 @ [(q, j)]) @ (p, k) # H3" "hd (H1 @ [(q, j)]) = (base, 0)" using assms(2) by (cases H1; simp)+
  define F' where "F' = tl (H1 @ [(q, j)]) @ X @ H3"
  have F': "(base, 0) # F' = H1 @ (q, j) # X @ H3" using F(2) by (cases H1) (auto simp: F'_def)
  have pos: "0 < unat (snd c)" if "c \<in> set F'" for c
    using that ok(5) [of c] F(1) k assms(6) by (auto simp: F'_def unat_pos_iff split: if_splits)
  have "sorted_wrt below (H1 @ (q, j) # X @ H3)"
    using ok(3) k assms(6) by (auto simp: sorted_wrt_append below_def)
  moreover have "\<forall>c \<in> set (H1 @ (q, j) # X @ H3). inside hi c" using ok(4) ip(1) assms(6) by auto
  ultimately have l: "list_ok base hi F'" unfolding list_ok_def F' using ok(1,2) pos by blast
  have bp: "unat base + 8 \<le> unat p" using assms(1) F(1) by (simp add: list_ok_def below_def)
  have "standing base hi F' (a, nu)" unfolding standing_def
  proof (intro conjI ballI)
    show "inside hi (a, nu)" using ip(2) a k by (auto simp: inside_def)
    show "0 < unat (snd (a, nu))" "unat base + 8 \<le> unat (fst (a, nu))" using k bp a by simp_all
    fix c assume "c \<in> set F'"
    then have "c \<in> set H1 \<union> {(q, j)} \<or> c = (p, k - nu) \<or> c \<in> set H3" using assms(6) by (cases H1) (auto simp: F'_def split: if_splits)
    then have "below c (p, k) \<or> c = (p, k - nu) \<or> below (p, k) c" using ok(3) by (auto simp: sorted_wrt_append)
    then show "unat (fst c) + 8 * unat (snd c) \<le> unat (fst (a, nu)) \<or> unat (fst (a, nu)) + 8 * unat (snd (a, nu)) \<le> unat (fst c)"
      using a k by (auto simp: below_def)
  qed
  moreover have "extent (p, k) = extent (p, k - nu) \<union> extent (a, nu)" using a k by (auto simp: extent_def)
  then have "free_area F = free_area F' \<union> extent (a, nu)"
    unfolding F(1) F'_def using assms(6) k by (auto simp: free_area_def extent_def)
  ultimately show thesis using that [OF F' l] a by simp
qed

lemma sorted_apart: "sorted_wrt below (G1 @ (p, k) # G2) \<Longrightarrow> c \<in> set G1 \<union> set G2 \<Longrightarrow> apart p (fst c)"
  by (auto simp: sorted_wrt_append below_def apart_def)

lemma standing_apart:
  assumes "list_ok base hi F" "standing base hi F (a, n)" "c \<in> set ((base, 0) # F)"
  shows "apart a (fst c)"
proof (cases "c = (base, 0)")
  case False
  then have "0 < unat (snd c)" "unat (fst c) + 8 * unat (snd c) \<le> unat a \<or> unat a + 8 * unat n \<le> unat (fst c)" "0 < unat n"
    using assms by (auto simp: list_ok_def standing_def)
  then show ?thesis by (auto simp: apart_def)
qed (use assms(2) in \<open>simp add: standing_def apart_def\<close>)

lemma drop_links:
  assumes "links m (H1 @ (q, j) # (p, k) # H3) base" "sorted_wrt below (H1 @ (q, j) # (p, k) # H3)"
    "\<And>c. c \<in> set (H1 @ (q, j) # (p, k) # H3) \<Longrightarrow> low (fst c)"
  shows "links (set_ptr q (hptr m p) m) (H1 @ (q, j) # H3) base"
proof -
  have q: "low q" using assms(3) [of "(q, j)"] by simp
  have f: "hptr (set_ptr q v m) (fst c) = hptr m (fst c) \<and> hsize (set_ptr q v m) (fst c) = hsize m (fst c)" if "c \<in> set H1 \<union> set H3" for c v
    using that sorted_apart [OF assms(2), of c] assms(3) [of c] q by (auto simp: low_header)
  have "links (set_ptr q (hptr m p) m) H1 q" "links (set_ptr q (hptr m p) m) H3 base"
    by (rule links_frame [of m]; use assms(1) f in \<open>simp add: links_append\<close>)+
  then show ?thesis using assms(1) q by (simp add: links_append low_header)
qed

lemma shrink_links:
  assumes "links m (H1 @ (p, k) # H3) base" "sorted_wrt below (H1 @ (p, k) # H3)" "low a"
    "\<And>c. c \<in> set (H1 @ (p, i) # H3) \<Longrightarrow> low (fst c) \<and> apart a (fst c)"
  shows "links (set_size a nu (set_size p i m)) (H1 @ (p, i) # H3) base"
proof -
  let ?m = "set_size a nu (set_size p i m)"
  have p: "low p" "apart a p" using assms(4) [of "(p, i)"] by simp_all
  have f: "hptr ?m (fst c) = hptr m (fst c) \<and> hsize ?m (fst c) = hsize m (fst c)" if "c \<in> set H1 \<union> set H3" for c
    using that sorted_apart [OF assms(2), of c] assms(4) [of c] assms(3) p by (auto simp: low_header)
  have "links ?m H1 p" "links ?m H3 base"
    by (rule links_frame [of m]; use assms(1) f in \<open>simp add: links_append\<close>)+
  then show ?thesis using assms(1,3) p by (simp add: links_append low_header)
qed

lemma found_block:
  assumes "links m ((base, 0) # F) base" "q \<in> fst ` set ((base, 0) # F)" "hptr m q = p" "0 < nu" "nu \<le> hsize m p"
  obtains H1 j k H3 where "(base, 0) # F = H1 @ (q, j) # (p, k) # H3" "hsize m p = k" "nu \<le> k"
proof -
  obtain j where "(q, j) \<in> set ((base, 0) # F)" using assms(2) by force
  then obtain H1 G where G: "(base, 0) # F = H1 @ (q, j) # G" by (meson split_list)
  then have "hptr m q = next_of G base" using assms(1) by (simp add: links_append)
  moreover have "p \<noteq> base" using assms(1,4,5) by auto
  ultimately obtain k H3 where K: "G = (p, k) # H3" using assms(3) by (cases G) auto
  then have "hsize m p = k" using assms(1) unfolding G by (simp add: links_append)
  with G K assms(5) show thesis using that by simp
qed

lemma take_block_memory:
  assumes "links m (H1 @ (q, j) # (p, k) # H3) base" "sorted_wrt below (H1 @ (q, j) # (p, k) # H3)"
    "\<And>c. c \<in> set (H1 @ (q, j) # (p, k) # H3) \<Longrightarrow> low (fst c)" "umem h = m"
    "a = p + 8 * (k - nu)" "X = (if k = nu then [] else [(p, k - nu)])" "low a" "\<And>c. c \<in> set (H1 @ (q, j) # X @ H3) \<Longrightarrow> apart a (fst c)"
    "{unat q ..< unat q + 8} \<subseteq> S" "{unat p ..< unat p + 8} \<subseteq> S" "{unat a ..< unat a + 8} \<subseteq> S"
  obtains m' where "take_block nu q p h = (a + 8, h\<lparr>umem := m', freep := q\<rparr>)" "links m' (H1 @ (q, j) # X @ H3) base"
    "hsize m' a = nu" "same_outside S m m'"
proof -
  have k: "hsize m p = k" using assms(1) by (simp add: links_append)
  have lp: "low p" "low q" using assms(3) [of "(p, k)"] assms(3) [of "(q, j)"] by simp_all
  have pq: "apart q p" using assms(2) by (auto simp: sorted_wrt_append below_def apart_def)
  note S = same_outside_header [OF _ assms(9), folded low_def] same_outside_header [OF _ assms(10), folded low_def]
    same_outside_header [OF _ assms(11), folded low_def]
  show thesis
  proof (cases "k = nu")
    case True
    have "take_block nu q p h = (a + 8, h\<lparr>umem := set_ptr q (hptr m p) m, freep := q\<rparr>)"
      using True k assms(4,5) by (simp add: take_block_def Let_def)
    moreover have "links (set_ptr q (hptr m p) m) (H1 @ (q, j) # X @ H3) base" using drop_links [OF assms(1,2,3)] True assms(6) by simp
    moreover have "hsize (set_ptr q (hptr m p) m) a = nu" using lp pq k True assms(5) by (simp add: low_header)
    ultimately show thesis using that S(1) [OF lp(2)] by blast
  next
    case False
    let ?m = "set_size a nu (set_size p (k - nu) m)"
    have X: "X = [(p, k - nu)]" using False assms(6) by simp
    have "take_block nu q p h = (a + 8, h\<lparr>umem := ?m, freep := q\<rparr>)"
      using False k lp assms(4,5) by (simp add: take_block_def Let_def low_header)
    moreover have "low (fst c) \<and> apart a (fst c)" if "c \<in> set ((H1 @ [(q, j)]) @ (p, k - nu) # H3)" for c
      using that assms(3) [of c] lp assms(8) [of c] unfolding X by auto
    then have "links ?m (H1 @ (q, j) # X @ H3) base"
      using shrink_links [of m "H1 @ [(q, j)]" p k H3 base a "k - nu" nu] assms(1,2,7) X by simp
    moreover have "hsize ?m a = nu" using assms(7) by (simp add: low_header)
    moreover have "same_outside S m ?m" by (rule same_outside_trans [OF S(4) [OF lp(1)] S(6) [OF assms(7)]])
    ultimately show thesis using that by blast
  qed
qed

lemma take_block_ok:
  assumes "heap_ok base F h" "freep h \<noteq> 0" "q \<in> fst ` set ((base, 0) # F)" "hptr (umem h) q = p" "0 < nu" "nu \<le> hsize (umem h) p"
  obtains a F' h' where "take_block nu q p h = (a + 8, h')" "heap_ok base F' h'" "freep h' \<noteq> 0" "ubrk h' = ubrk h"
    "standing base (unat (ubrk h')) F' (a, nu)" "hsize (umem h') a = nu" "free_area F = free_area F' \<union> extent (a, nu)"
    "same_outside (free_area F \<union> {unat base ..< unat base + 8}) (umem h) (umem h')"
proof -
  let ?H = "(base, 0) # F" and ?S = "free_area F \<union> {unat base ..< unat base + 8}"
  have ok: "list_ok base (unat (ubrk h)) F" "links (umem h) ?H base" using assms(1,2) by (simp_all add: heap_ok_def)
  obtain H1 j k H3 where H: "?H = H1 @ (q, j) # (p, k) # H3" and k: "hsize (umem h) p = k" "nu \<le> k"
    by (rule found_block [OF ok(2) assms(3-6)])
  define a where "a = p + 8 * (k - nu)"
  define X where "X = (if k = nu then [] else [(p, k - nu)])"
  obtain F' where F': "(base, 0) # F' = H1 @ (q, j) # X @ H3" "list_ok base (unat (ubrk h)) F'" "standing base (unat (ubrk h)) F' (a, nu)"
    "free_area F = free_area F' \<union> extent (a, nu)" "unat p \<le> unat a"
    by (rule cut_list [OF ok(1) H assms(5) k(2) a_def X_def])
  have lo: "low (fst c)" if "c \<in> set (H1 @ (q, j) # (p, k) # H3)" for c using header_in(1) [OF ok(1), of c] that unfolding H .
  have so: "sorted_wrt below (H1 @ (q, j) # (p, k) # H3)" using ok(1) unfolding list_ok_def H by blast
  have la: "low a" using F'(2,3) by (simp add: standing_def inside_def list_ok_def low_def)
  have ap: "apart a (fst c)" if "c \<in> set (H1 @ (q, j) # X @ H3)" for c using standing_apart [OF F'(2,3), of c] that unfolding F'(1) .
  have hq: "{unat q ..< unat q + 8} \<subseteq> ?S" "{unat p ..< unat p + 8} \<subseteq> ?S"
    using header_in(2) [OF ok(1), of "(q, j)"] header_in(2) [OF ok(1), of "(p, k)"] unfolding H by simp_all
  have "{unat a ..< unat a + 8} \<subseteq> extent (a, nu)" using F'(3) by (auto simp: standing_def extent_def)
  then have ha: "{unat a ..< unat a + 8} \<subseteq> ?S" using F'(4) by blast
  obtain m' where m: "take_block nu q p h = (a + 8, h\<lparr>umem := m', freep := q\<rparr>)" "links m' (H1 @ (q, j) # X @ H3) base"
    "hsize m' a = nu" "same_outside ?S (umem h) m'"
    by (rule take_block_memory [OF ok(2) [unfolded H] so lo refl a_def X_def la ap hq ha])
  have "(q, j) \<in> set ((base, 0) # F')" unfolding F'(1) by simp
  then have "q \<in> fst ` set ((base, 0) # F')" "q \<noteq> 0" using list_addresses_pos [OF F'(2)] by force+
  then show thesis using that [OF m(1), of F'] m F' by (simp add: heap_ok_def)
qed

text \<open>
  What the allocator relies on of \<^verbatim>\<open>sbrk\<close>: a request for more memory is refused and changes nothing, or
  moves the end of the memory up below the kernel's part and returns the old end, with what was below
  it unchanged.
\<close>

definition sbrk_law :: "(uint \<Rightarrow> uheap \<Rightarrow> uint \<times> uheap) \<Rightarrow> bool" where
  "sbrk_law sbrk = (\<forall>n h. 0 < n \<longrightarrow> unat n < 2 ^ 31 \<longrightarrow> sbrk n h = (- 1, h) \<or>
     (\<exists>m. sbrk n h = (ubrk h, h\<lparr>umem := m, ubrk := ubrk h + n\<rparr>) \<and> unat (ubrk h) + unat n < 2 ^ 31 \<and>
       (\<forall>x < ubrk h. m x = umem h x)))"

lemma heap_grow:
  assumes "heap_ok base F h" "\<forall>x < ubrk h. m x = umem h x" "unat (ubrk h) \<le> unat b" "unat b < 2 ^ 31"
  shows "heap_ok base F (h\<lparr>umem := m, ubrk := b\<rparr>)"
proof -
  have l: "list_ok base (unat (ubrk h)) F" using assms(1) by (simp add: heap_ok_def)
  have i: "inside (unat (ubrk h)) c" if "c \<in> set ((base, 0) # F)" for c using that l by (auto simp: list_ok_def)
  have "list_ok base (unat b) F" using l assms(3,4) i by (fastforce simp: list_ok_def inside_def)
  moreover have "links m ((base, 0) # F) base" if "freep h \<noteq> 0"
  proof (rule links_frame [of "umem h"])
    show "links (umem h) ((base, 0) # F) base" using assms(1) that by (simp add: heap_ok_def)
    fix c assume "c \<in> set ((base, 0) # F)"
    note i = i [OF this]
    have "m x = umem h x" if "covers 8 (fst c) x" for x
      using that i assms(2) by (auto simp: covers_def inside_def word_less_nat_alt)
    then show "hptr m (fst c) = hptr (umem h) (fst c) \<and> hsize m (fst c) = hsize (umem h) (fst c)"
      using header_frame [of "fst c" m "umem h"] i assms(3,4) by (auto simp: inside_def)
  qed
  ultimately show ?thesis using assms(1) by (cases "freep h = 0") (simp_all add: heap_ok_def)
qed

lemma standing_end:
  assumes "list_ok base (unat b) F" "0 < unat n" "unat b + 8 * unat n \<le> hi"
  shows "standing base hi F (b, n)"
  using assms by (auto simp: standing_def list_ok_def inside_def)

definition core_units :: "uint \<Rightarrow> uint" where
  "core_units nu = (if nu < 4096 then 4096 else nu)"

lemma core_units:
  assumes "8 * unat nu < 2 ^ 31"
  shows "unat (core_units nu * 8) = 8 * unat (core_units nu)" "8 * unat (core_units nu) < 2 ^ 31" "nu \<le> core_units nu" "0 < unat (core_units nu)"
proof -
  show "8 * unat (core_units nu) < 2 ^ 31" using assms by (simp add: core_units_def)
  then have "unat (core_units nu) * unat (8 :: uint) < 2 ^ 32" by simp
  then show "unat (core_units nu * 8) = 8 * unat (core_units nu)" by (simp add: unat_word_ariths)
  show "nu \<le> core_units nu" by (simp add: core_units_def less_imp_le)
  show "0 < unat (core_units nu)" by (auto simp: core_units_def word_less_nat_alt)
qed

lemma morecore_ok:
  assumes "heap_ok base F h" "freep h \<noteq> 0" "sbrk_law sbrk" "8 * unat nu < 2 ^ 31"
  shows "morecore sbrk nu h = Some (0, h) \<and> sbrk (core_units nu * 8) h = (- 1, h) \<or>
    (\<exists>F' h'. morecore sbrk nu h = Some (freep h', h') \<and> heap_ok base F' h' \<and> freep h' \<noteq> 0 \<and> unat (ubrk h) \<le> unat (ubrk h') \<and>
      free_area F' = free_area F \<union> {unat (ubrk h) ..< unat (ubrk h')} \<and> (\<exists>c \<in> set F'. nu \<le> snd c) \<and>
      same_outside (free_area F \<union> {unat base ..< unat base + 8} \<union> {unat (ubrk h) ..}) (umem h) (umem h'))"
proof (cases "sbrk (core_units nu * 8) h = (- 1, h)")
  case True
  then show ?thesis by (simp add: morecore_def core_units_def Let_def)
next
  case False
  note u = core_units [OF assms(4)]
  let ?n = "core_units nu" and ?b = "ubrk h"
  have "0 < ?n * 8" "unat (?n * 8) < 2 ^ 31" using u by (simp_all add: word_less_nat_alt)
  with False assms(3) obtain m where m: "sbrk (?n * 8) h = (?b, h\<lparr>umem := m, ubrk := ?b + ?n * 8\<rparr>)"
    "unat ?b + 8 * unat ?n < 2 ^ 31" "\<forall>x < ?b. m x = umem h x"
    unfolding sbrk_law_def using u(1) by metis
  have b: "unat (?b + ?n * 8) = unat ?b + 8 * unat ?n" using unat_add_small [of ?b "?n * 8"] m(2) u(1) by simp
  let ?m1 = "set_size ?b ?n m" and ?B = "?b + ?n * 8"
  let ?h = "h\<lparr>umem := ?m1, ubrk := ?B\<rparr>"
  have lb: "low ?b" using m(2) u(4) by (simp add: low_def)
  have m1: "?m1 x = m x" if "\<not> covers 8 ?b x" for x using header_other(2) [of ?b x] that lb by (simp add: low_def)
  have "\<forall>x < ?b. ?m1 x = umem h x" using m1 m(3) by (auto simp: covers_def word_less_nat_alt)
  then have ok: "heap_ok base F ?h" by (rule heap_grow [OF assms(1)]) (use b m(2) in simp_all)
  have st: "standing base (unat (ubrk ?h)) F (?b, ?n)"
    by (rule standing_end) (use assms(1) b u(4) in \<open>simp_all add: heap_ok_def\<close>)
  have hs: "hsize (umem ?h) ?b = ?n" "freep ?h \<noteq> 0" using lb assms(2) by (simp_all add: low_header)
  obtain F' h' where f: "free (?b + 8) ?h = Some h'" "heap_ok base F' h'" "freep h' \<noteq> 0" "ubrk h' = ubrk ?h"
    "(base, 0) # F' = put_back (?b, ?n) ((base, 0) # F)" "free_area F' = free_area F \<union> extent (?b, ?n)"
    "same_outside (free_area F \<union> extent (?b, ?n) \<union> {unat base ..< unat base + 8}) (umem ?h) (umem h')"
    "\<exists>c \<in> set F'. unat ?n \<le> unat (snd c)"
    by (rule free_ok [OF ok hs(2) st hs(1)])
  let ?S = "free_area F \<union> {unat base ..< unat base + 8} \<union> {unat ?b ..}"
  have "same_outside ?S (umem h) ?m1" using m1 m(3) by (auto simp: same_outside_def covers_def word_less_nat_alt)
  moreover have "same_outside ?S ?m1 (umem h')" using f(7) by (auto simp: same_outside_def extent_def)
  ultimately have so: "same_outside ?S (umem h) (umem h')" by (rule same_outside_trans)
  have "?b \<noteq> - 1" using m(2) u(4) by auto
  moreover have "free (?b + 8) (h\<lparr>ubrk := ?B, umem := ?m1\<rparr>) = Some h'" using f(1) by (cases h) simp
  ultimately have mc: "morecore sbrk nu h = Some (freep h', h')"
    using m(1) by (simp add: morecore_def Let_def flip: core_units_def)
  have big: "\<exists>c \<in> set F'. nu \<le> snd c" using f(8) u(3) order.trans unfolding word_le_nat_alt by blast
  have "extent (?b, ?n) = {unat ?b ..< unat (ubrk h')}" "unat ?b \<le> unat (ubrk h')" using f(4) b by (simp_all add: extent_def)
  with mc f(2,3,6) so big show ?thesis by (intro disjI2 exI [of _ F'] exI [of _ h']) simp
qed

lemma malloc_scan:
  "route (umem h) q (x # V) \<Longrightarrow> last (x # V) = freep h \<Longrightarrow> freep h \<notin> set (butlast (x # V)) \<Longrightarrow>
   (\<exists>r p. r \<in> set (q # x # V) \<and> hptr (umem h) r = p \<and> nu \<le> hsize (umem h) p \<and>
     malloc_loop sbrk nu q x h = Some (take_block nu r p h)) \<or>
   (\<forall>y \<in> set (x # V). hsize (umem h) y < nu) \<and>
     malloc_loop sbrk nu q x h = (case morecore sbrk nu h of None \<Rightarrow> None
       | Some (r, h1) \<Rightarrow> if r = 0 then Some (0, h1) else malloc_loop sbrk nu r (hptr (umem h1) r) h1)"
proof (induction V arbitrary: q x)
  case Nil
  then show ?case by (subst (1 2) malloc_loop.simps) (auto simp: not_le)
next
  case (Cons y V)
  show ?case
  proof (cases "nu \<le> hsize (umem h) x")
    case True
    then have "malloc_loop sbrk nu q x h = Some (take_block nu q x h)" by (subst malloc_loop.simps) simp
    moreover have "hptr (umem h) q = x" using Cons.prems(1) by simp
    ultimately show ?thesis using True by auto
  next
    case False
    have "x \<noteq> freep h" "hptr (umem h) x = y" using Cons.prems by auto
    then have e: "malloc_loop sbrk nu q x h = malloc_loop sbrk nu x y h" using False by (subst malloc_loop.simps) simp
    show ?thesis using Cons.IH [of x y] Cons.prems False unfolding e by auto
  qed
qed

lemma sorted_distinct: "sorted_wrt below H \<Longrightarrow> distinct (map fst H)"
  by (induction H) (auto simp: below_def)

text \<open>One round of the search finds a block that is large enough, or there is none.\<close>

lemma malloc_round:
  assumes "heap_ok base F h" "freep h \<noteq> 0" "0 < nu"
  shows "(\<exists>r p. r \<in> fst ` set ((base, 0) # F) \<and> hptr (umem h) r = p \<and> nu \<le> hsize (umem h) p \<and>
      malloc_loop sbrk nu (freep h) (hptr (umem h) (freep h)) h = Some (take_block nu r p h)) \<or>
    (\<forall>c \<in> set F. snd c < nu) \<and>
      malloc_loop sbrk nu (freep h) (hptr (umem h) (freep h)) h = (case morecore sbrk nu h of None \<Rightarrow> None
        | Some (r, h1) \<Rightarrow> if r = 0 then Some (0, h1) else malloc_loop sbrk nu r (hptr (umem h1) r) h1)"
proof -
  let ?H = "(base, 0) # F"
  have l: "links (umem h) ?H base" "freep h \<in> fst ` set ?H" "distinct (map fst ?H)"
    using assms sorted_distinct [of ?H] by (simp_all add: heap_ok_def list_ok_def)
  obtain V where V: "route (umem h) (freep h) (V @ [freep h])" "set (V @ [freep h]) = fst ` set ?H" "freep h \<notin> set V"
    by (rule ring_route [OF l(1) _ l(2)]) (use l(3) in simp_all)
  obtain x W where W: "V @ [freep h] = x # W" by (cases V) auto
  have x: "hptr (umem h) (freep h) = x" using V(1) unfolding W by simp
  have last: "last (x # W) = freep h" "butlast (x # W) = V" unfolding W [symmetric] by simp_all
  have n: "hsize (umem h) (fst c) = snd c" if "c \<in> set F" for c using links_size [OF l(1), of "fst c" "snd c"] that by simp
  have s: "set (x # W) = fst ` set ?H" "set (freep h # x # W) = fst ` set ?H" using V(2) l(2) unfolding W by auto
  have big: "\<forall>c \<in> set F. snd c < nu" if "\<forall>y \<in> set (x # W). hsize (umem h) y < nu" using that n unfolding s(1) by auto
  show ?thesis
    using malloc_scan [OF V(1) [unfolded W], of nu sbrk] last V(3) big unfolding x s by blast
qed

text \<open>
  \<open>a\<close> points into the memory of the program behind a header that records \<open>nu\<close> units, none of which is
  free.
\<close>

definition allocated :: "uint \<Rightarrow> block list \<Rightarrow> uheap \<Rightarrow> uint \<Rightarrow> uint \<Rightarrow> bool" where
  "allocated base F h a nu = (a \<noteq> 0 \<and> standing base (unat (ubrk h)) F (a - 8, nu) \<and> hsize (umem h) (a - 8) = nu)"

lemma taken:
  assumes "heap_ok base F h" "freep h \<noteq> 0" "r \<in> fst ` set ((base, 0) # F)" "hptr (umem h) r = p" "0 < nu" "nu \<le> hsize (umem h) p"
  obtains a h' F' where "take_block nu r p h = (a, h')" "heap_ok base F' h'" "freep h' \<noteq> 0" "ubrk h' = ubrk h" "allocated base F' h' a nu"
    "free_area F = free_area F' \<union> extent (a - 8, nu)"
    "same_outside (free_area F \<union> {unat base ..< unat base + 8}) (umem h) (umem h')"
proof -
  obtain b F' h' where t: "take_block nu r p h = (b + 8, h')" "heap_ok base F' h'" "freep h' \<noteq> 0" "ubrk h' = ubrk h"
    "standing base (unat (ubrk h')) F' (b, nu)" "hsize (umem h') b = nu" "free_area F = free_area F' \<union> extent (b, nu)"
    "same_outside (free_area F \<union> {unat base ..< unat base + 8}) (umem h) (umem h')"
    by (rule take_block_ok [OF assms])
  have "unat b + 8 < 2 ^ 31" using t(2,5) by (simp add: heap_ok_def list_ok_def standing_def inside_def)
  then have "unat (b + 8) = unat b + 8" using unat_add_small [of b 8] by simp
  then have "b + 8 \<noteq> 0" by auto
  with t show thesis using that [of "b + 8" h' F'] by (simp add: allocated_def)
qed

text \<open>
  What a call of \<open>malloc\<close> for \<open>nu\<close> units does to the heap: it fails only where no free block is large
  enough and the system refuses more memory, with the free blocks as they were; otherwise the block it
  returns was free or is new, is not free any more, and everything else that was free or is new is.
  Only free memory, new memory and the static header are written.
\<close>

definition malloc_effect ::
  "(uint \<Rightarrow> uheap \<Rightarrow> uint \<times> uheap) \<Rightarrow> uint \<Rightarrow> uint \<Rightarrow> block list \<Rightarrow> uheap \<Rightarrow> uint \<Rightarrow> block list \<Rightarrow> uheap \<Rightarrow> bool" where
  "malloc_effect sbrk base nu F h a F' h' \<longleftrightarrow>
     heap_ok base F' h' \<and> freep h' \<noteq> 0 \<and> unat (ubrk h) \<le> unat (ubrk h') \<and>
     same_outside (free_area F \<union> {unat base ..< unat base + 8} \<union> {unat (ubrk h) ..}) (umem h) (umem h') \<and>
     (if a = 0 then F' = F \<and> ubrk h' = ubrk h \<and> (\<forall>c \<in> set F. snd c < nu) \<and> sbrk (core_units nu * 8) h' = (- 1, h')
      else allocated base F' h' a nu \<and> extent (a - 8, nu) \<inter> free_area F' = {} \<and>
        free_area F' \<union> extent (a - 8, nu) = free_area F \<union> {unat (ubrk h) ..< unat (ubrk h')})"

lemma allocated_effect:
  assumes "heap_ok base F' h'" "freep h' \<noteq> 0" "unat (ubrk h) \<le> unat (ubrk h')" "allocated base F' h' a nu"
    "same_outside (free_area F \<union> {unat base ..< unat base + 8} \<union> {unat (ubrk h) ..}) (umem h) (umem h')"
    "free_area F' \<union> extent (a - 8, nu) = free_area F \<union> {unat (ubrk h) ..< unat (ubrk h')}"
  shows "malloc_effect sbrk base nu F h a F' h'"
proof -
  have "extent (a - 8, nu) \<inter> free_area F' = {}" 
    using assms(4) by (intro standing_disjoint [of base "unat (ubrk h')"]) (simp add: allocated_def)
  then show ?thesis using assms by (simp add: malloc_effect_def) (simp add: allocated_def)
qed

lemma malloc_core:
  assumes "heap_ok base F h" "freep h \<noteq> 0" "sbrk_law sbrk" "0 < nu" "8 * unat nu < 2 ^ 31"
  shows "\<exists>a h' F'. malloc_loop sbrk nu (freep h) (hptr (umem h) (freep h)) h = Some (a, h') \<and> malloc_effect sbrk base nu F h a F' h'"
    (is "\<exists>a h' F'. ?loop = _ \<and> _")
proof -
  let ?S = "free_area F \<union> {unat base ..< unat base + 8} \<union> {unat (ubrk h) ..}"
  consider r p where "r \<in> fst ` set ((base, 0) # F)" "hptr (umem h) r = p" "nu \<le> hsize (umem h) p" "?loop = Some (take_block nu r p h)"
    | "\<forall>c \<in> set F. snd c < nu" "?loop = (case morecore sbrk nu h of None \<Rightarrow> None
        | Some (r, h1) \<Rightarrow> if r = 0 then Some (0, h1) else malloc_loop sbrk nu r (hptr (umem h1) r) h1)"
    using malloc_round [OF assms(1,2,4), of sbrk] by blast
  then show ?thesis
  proof cases
    case (1 r p)
    obtain a h' F' where t: "take_block nu r p h = (a, h')" "heap_ok base F' h'" "freep h' \<noteq> 0" "ubrk h' = ubrk h" "allocated base F' h' a nu"
      "free_area F = free_area F' \<union> extent (a - 8, nu)" "same_outside (free_area F \<union> {unat base ..< unat base + 8}) (umem h) (umem h')"
      by (rule taken [OF assms(1,2) 1(1,2) assms(4) 1(3)])
    then have "same_outside ?S (umem h) (umem h')" by (blast intro: same_outside_mono)
    then have "malloc_effect sbrk base nu F h a F' h'" using t by (intro allocated_effect) simp_all
    with t 1(4) show ?thesis by auto
  next
    case 2
    from morecore_ok [OF assms(1,2,3,5)] show ?thesis
    proof (elim disjE exE conjE)
      assume "morecore sbrk nu h = Some (0, h)" "sbrk (core_units nu * 8) h = (- 1, h)"
      then have "malloc_effect sbrk base nu F h 0 F h" "?loop = Some (0, h)" using 2 assms(1,2) by (simp_all add: malloc_effect_def same_outside_refl)
      then show ?thesis by blast
    next
      fix F1 h1
      assume m: "morecore sbrk nu h = Some (freep h1, h1)" and ok: "heap_ok base F1 h1" "freep h1 \<noteq> 0"
        and b: "unat (ubrk h) \<le> unat (ubrk h1)" and fa: "free_area F1 = free_area F \<union> {unat (ubrk h) ..< unat (ubrk h1)}"
        and big: "\<exists>c \<in> set F1. nu \<le> snd c" and so: "same_outside ?S (umem h) (umem h1)"
      from big have "\<not> (\<forall>c \<in> set F1. snd c < nu)" by (auto simp: not_less)
      then obtain r p where r: "r \<in> fst ` set ((base, 0) # F1)" "hptr (umem h1) r = p" "nu \<le> hsize (umem h1) p"
        "malloc_loop sbrk nu (freep h1) (hptr (umem h1) (freep h1)) h1 = Some (take_block nu r p h1)"
        using malloc_round [OF ok assms(4), of sbrk] by blast
      obtain a h' F' where t: "take_block nu r p h1 = (a, h')" "heap_ok base F' h'" "freep h' \<noteq> 0" "ubrk h' = ubrk h1" "allocated base F' h' a nu"
        "free_area F1 = free_area F' \<union> extent (a - 8, nu)" "same_outside (free_area F1 \<union> {unat base ..< unat base + 8}) (umem h1) (umem h')"
        by (rule taken [OF ok r(1,2) assms(4) r(3)])
      have "same_outside ?S (umem h1) (umem h')" using t(7) unfolding fa by (rule same_outside_mono) auto
      then have so': "same_outside ?S (umem h) (umem h')" by (rule same_outside_trans [OF so])
      have "?loop = Some (a, h')" using 2(2) m ok(2) r(4) t(1) by simp
      moreover have "malloc_effect sbrk base nu F h a F' h'" using t fa b so' by (intro allocated_effect) simp_all
      ultimately show ?thesis by blast
    qed
  qed
qed

lemma malloc_units:
  assumes "unat nbytes \<le> 2 ^ 31 - 16"
  shows "0 < malloc_units nbytes" "8 * unat (malloc_units nbytes) < 2 ^ 31" "unat nbytes + 8 \<le> 8 * unat (malloc_units nbytes)"
proof -
  have e: "nbytes + 8 - 1 = nbytes + 7" by simp
  have "unat (nbytes + 7) = unat nbytes + 7" using assms unat_add_small [of nbytes 7] by simp
  then have d: "unat ((nbytes + 7) div 8) = (unat nbytes + 7) div 8" by (simp add: unat_div)
  moreover have "(unat nbytes + 7) div 8 < 2 ^ 28" using assms by simp
  ultimately have u: "unat (malloc_units nbytes) = (unat nbytes + 7) div 8 + 1"
    unfolding malloc_units_def e using unat_add_small [of "(nbytes + 7) div 8" 1] by simp
  then show "0 < malloc_units nbytes" by (metis add_gr_0 unat_gt_0 zero_less_one word_neq_0_conv)
  have m: "(unat nbytes + 7) mod 8 < 8" "8 * ((unat nbytes + 7) div 8) + (unat nbytes + 7) mod 8 = unat nbytes + 7" by simp_all
  show "8 * unat (malloc_units nbytes) < 2 ^ 31" using u m(2) assms by simp
  show "unat nbytes + 8 \<le> 8 * unat (malloc_units nbytes)" using u m by simp
qed

text \<open>The first call makes a list of the static header alone.\<close>

definition first_heap :: "uint \<Rightarrow> uheap \<Rightarrow> uheap" where
  "first_heap base h = (if freep h = 0 then h\<lparr>umem := set_size base 0 (set_ptr base base (umem h)), freep := base\<rparr> else h)"

lemma first_heap_ok:
  assumes "heap_ok base F h"
  shows "heap_ok base F (first_heap base h)" "freep (first_heap base h) \<noteq> 0" "ubrk (first_heap base h) = ubrk h"
    "same_outside {unat base ..< unat base + 8} (umem h) (umem (first_heap base h))"
proof -
  have l: "base \<noteq> 0" "low base" using assms by (simp_all add: heap_ok_def list_ok_def inside_def low_def)
  show "heap_ok base F (first_heap base h)" "freep (first_heap base h) \<noteq> 0" "ubrk (first_heap base h) = ubrk h"
    using assms l by (cases "freep h = 0"; simp add: heap_ok_def first_heap_def low_header)+
  note S = same_outside_header [OF l(2) [unfolded low_def] order_refl]
  show "same_outside {unat base ..< unat base + 8} (umem h) (umem (first_heap base h))"
    using same_outside_trans [OF S] same_outside_refl by (simp add: first_heap_def)
qed

lemma malloc_ok:
  assumes "heap_ok base F h" "sbrk_law sbrk" "unat nbytes \<le> 2 ^ 31 - 16"
  shows "\<exists>a h' F'. malloc sbrk base nbytes h = Some (a, h') \<and> malloc_effect sbrk base (malloc_units nbytes) F h a F' h'"
proof -
  let ?h = "first_heap base h" and ?nu = "malloc_units nbytes"
  let ?S = "free_area F \<union> {unat base ..< unat base + 8} \<union> {unat (ubrk h) ..}"
  note u = malloc_units [OF assms(3)] and f = first_heap_ok [OF assms(1)]
  have e: "malloc sbrk base nbytes h = malloc_loop sbrk ?nu (freep ?h) (hptr (umem ?h) (freep ?h)) ?h"
    by (simp add: malloc_def Let_def flip: first_heap_def)
  obtain a h' F' where m: "malloc sbrk base nbytes h = Some (a, h')" "malloc_effect sbrk base ?nu F ?h a F' h'"
    using malloc_core [OF f(1,2) assms(2) u(1,2)] unfolding e by blast
  have "same_outside ?S (umem h) (umem ?h)" using f(4) by (rule same_outside_mono) auto
  then have "same_outside ?S (umem h) (umem h')" by (rule same_outside_trans) (use m(2) f(3) in \<open>simp add: malloc_effect_def\<close>)
  then have "malloc_effect sbrk base ?nu F h a F' h'" using m(2) f(3) by (simp add: malloc_effect_def)
  with m(1) show ?thesis by blast
qed

text \<open>
  C24. On a sound heap, for every size below two gigabytes, \<open>malloc\<close> returns. The block it returns has
  room for the bytes asked for behind a header with its length, lies in memory that was free or that the
  system just gave, and is cut out of the free list, which stays a circular list of disjoint blocks in
  the order of their addresses; nothing outside free and new memory changes but the static header. It
  returns null only where no free block is large enough and the system refuses more memory, and
  then every free block is kept.
\<close>

theorem malloc_gives_fresh_memory:
  assumes "heap_ok base F h" "sbrk_law sbrk" "unat nbytes \<le> 2 ^ 31 - 16"
  shows "\<exists>a h' F'. malloc sbrk base nbytes h = Some (a, h') \<and> malloc_effect sbrk base (malloc_units nbytes) F h a F' h' \<and>
    unat nbytes + 8 \<le> 8 * unat (malloc_units nbytes)"
  using malloc_ok [OF assms] malloc_units(3) [OF assms(3)] by blast

definition heap0 :: uheap where
  "heap0 = \<lparr>umem = (\<lambda>_. 0), ubrk = 0x4000, freep = 0\<rparr>"

definition sbrk0 :: "uint \<Rightarrow> uheap \<Rightarrow> uint \<times> uheap" where
  "sbrk0 n h = (if unat (ubrk h) + unat n < 2 ^ 20 then (ubrk h, h\<lparr>ubrk := ubrk h + n\<rparr>) else (- 1, h))"

lemma heap0_ok: "heap_ok 0x1000 [] heap0"
  by (simp add: heap_ok_def heap0_def list_ok_def inside_def)

lemma sbrk0_law: "sbrk_law sbrk0"
  unfolding sbrk_law_def sbrk0_def
  by (intro allI impI) (auto intro!: exI [of _ "umem _"])

theorem malloc_gives_fresh_memory_witness:
  "\<exists>a h' F'. malloc sbrk0 0x1000 100 heap0 = Some (a, h') \<and> malloc_effect sbrk0 0x1000 (malloc_units 100) [] heap0 a F' h' \<and> malloc_units 100 = 14"
proof -
  have "malloc_units 100 = 14" by (simp add: malloc_units_def)
  then show ?thesis using malloc_gives_fresh_memory [OF heap0_ok sbrk0_law, of 100] by auto
qed

text \<open>
  C25. Giving back a block that \<open>malloc\<close> handed out ends with the block in its place in the list, joined
  with the free block that ends where it begins and with the one that begins where it ends, so that no
  two free blocks touch; free memory is what it was and the block, and nothing else is written.
\<close>

theorem free_coalesces:
  assumes "heap_ok base F h" "freep h \<noteq> 0" "allocated base F h a n"
  shows "\<exists>h' F'. free a h = Some h' \<and> heap_ok base F' h' \<and> ubrk h' = ubrk h \<and>
    (base, 0) # F' = put_back (a - 8, n) ((base, 0) # F) \<and> free_area F' = free_area F \<union> extent (a - 8, n) \<and>
    same_outside (free_area F \<union> extent (a - 8, n) \<union> {unat base ..< unat base + 8}) (umem h) (umem h')"
proof -
  have "standing base (unat (ubrk h)) F (a - 8, n)" "hsize (umem h) (a - 8) = n" using assms(3) by (simp_all add: allocated_def)
  from free_ok [OF assms(1,2) this] show ?thesis by simp blast
qed

theorem free_coalesces_witness:
  "\<exists>a h1 h2 F. malloc sbrk0 0x1000 100 heap0 = Some (a, h1) \<and> a \<noteq> 0 \<and> free a h1 = Some h2 \<and> heap_ok 0x1000 F h2 \<and>
    free_area F = {0x4000 ..< unat (ubrk h2)}"
proof -
  obtain a h1 F1 where m: "malloc sbrk0 0x1000 100 heap0 = Some (a, h1)" "malloc_effect sbrk0 0x1000 (malloc_units 100) [] heap0 a F1 h1"
    using malloc_ok [OF heap0_ok sbrk0_law, of 100] by auto
  have u: "core_units (malloc_units 100) * 8 = 0x8000" by (simp add: malloc_units_def core_units_def)
  have "a \<noteq> 0"
  proof
    assume "a = 0"
    then have "sbrk0 0x8000 h1 = (- 1, h1)" "ubrk h1 = 0x4000" using m(2) u by (simp_all add: malloc_effect_def heap0_def)
    then show False by (simp add: sbrk0_def)
  qed
  then have e: "heap_ok 0x1000 F1 h1" "freep h1 \<noteq> 0" "allocated 0x1000 F1 h1 a (malloc_units 100)"
    "free_area F1 \<union> extent (a - 8, malloc_units 100) = {0x4000 ..< unat (ubrk h1)}"
    using m(2) by (simp_all add: malloc_effect_def heap0_def free_area_def)
  from free_coalesces [OF e(1-3)] e(4) m(1) \<open>a \<noteq> 0\<close> show ?thesis by auto
qed

end
