(* ===== verification/Mkfs.thy ===== *)
theory Mkfs
  imports Dir
begin

text \<open>
  The builder of the disk image, \<^verbatim>\<open>mkfs.c\<close>. The image is a list of blocks; the program's global variables
  are the next free inode and the next free block. A file of the host is the list of what the calls of
  \<^verbatim>\<open>read\<close> return, or \<open>None\<close> where it cannot be opened; seeking and writing the image succeed. An exit with
  an error and a failed assertion are \<open>Panic\<close> with a message. The messages on the screen are left out. The
  conversions to the byte order of the disk are in the fields of a block, which are little-endian. The
  lemmas show that the image holds the files that the program was given, in blocks of their own, and that
  it is laid out as the kernel expects.
\<close>

section \<open>The program\<close>

definition FSSIZE :: nat where "FSSIZE = 1000"
definition NINODES :: nat where "NINODES = 200"
definition nbitmap :: nat where "nbitmap = FSSIZE div (BSIZE * 8) + 1"
definition ninodeblocks :: nat where "ninodeblocks = NINODES div IPB + 1"
definition nlog :: nat where "nlog = LOGSIZE"
definition nmeta :: nat where "nmeta = 2 + nlog + ninodeblocks + nbitmap"
definition nblocks :: nat where "nblocks = FSSIZE - nmeta"

definition mksb :: superblock where
  "mksb = \<lparr>sb_size = of_nat FSSIZE, sb_nblocks = of_nat nblocks, sb_ninodes = of_nat NINODES, sb_nlog = of_nat nlog,
     sb_logstart = 2, sb_inodestart = of_nat (2 + nlog), sb_bmapstart = of_nat (2 + nlog + ninodeblocks)\<rparr>"

record mkfs =
  img :: "uchar list list"
  freeinode :: uint
  freeblock :: uint

definition wsect :: "uint \<Rightarrow> uchar list \<Rightarrow> mkfs \<Rightarrow> mkfs" where
  "wsect sec b s =
     (let n = unat sec; d = img s
      in s\<lparr>img := if n < length d then d[n := b] else d @ replicate (n - length d) zero_block @ [b]\<rparr>)"

definition rsect :: "uint \<Rightarrow> mkfs \<Rightarrow> uchar list kres" where
  "rsect sec s = (if unat sec < length (img s) then Inr (img s ! unat sec) else Inl (Panic ''read''))"

definition winode :: "uint \<Rightarrow> dinode \<Rightarrow> mkfs \<Rightarrow> mkfs kres" where
  "winode i d s =
     (let bn = IBLOCK i mksb
      in kbind (rsect bn s) (\<lambda>b. Inr (wsect bn (put_dinode b (dip_off i) d) s)))"

definition rinode :: "uint \<Rightarrow> mkfs \<Rightarrow> dinode kres" where
  "rinode i s = kbind (rsect (IBLOCK i mksb) s) (\<lambda>b. Inr (get_dinode b (dip_off i)))"

definition mk_ialloc :: "ushort \<Rightarrow> mkfs \<Rightarrow> (uint \<times> mkfs) kres" where
  "mk_ialloc t s =
     (let i = freeinode s; s1 = s\<lparr>freeinode := freeinode s + 1\<rparr>;
          d = \<lparr>itype = t, major = 0, minor = 0, nlink = 1, isize = 0, addrs = replicate (NDIRECT + 1) 0\<rparr>
      in kbind (winode i d s1) (\<lambda>s2. Inr (i, s2)))"

definition mk_balloc :: "nat \<Rightarrow> mkfs \<Rightarrow> mkfs kres" where
  "mk_balloc u s =
     (if u < BSIZE * 8 then Inr (wsect (sb_bmapstart mksb) (fold map_set [0..<u] zero_block) s) else Inl (Panic ''assert''))"

text \<open>The block of the file that \<open>iappend\<close> writes next, allocated where it is missing.\<close>

definition mk_bmap :: "nat \<Rightarrow> uint list \<Rightarrow> mkfs \<Rightarrow> (uint \<times> uint list \<times> mkfs) kres" where
  "mk_bmap fbn A s =
     (if fbn < NDIRECT then
        let (A1, s1) = (if A ! fbn = 0 then (A[fbn := freeblock s], s\<lparr>freeblock := freeblock s + 1\<rparr>) else (A, s))
        in Inr (A1 ! fbn, A1, s1)
      else
        let (A1, s1) = (if A ! NDIRECT = 0 then (A[NDIRECT := freeblock s], s\<lparr>freeblock := freeblock s + 1\<rparr>) else (A, s))
        in kbind (rsect (A1 ! NDIRECT) s1) (\<lambda>ind.
             let k = 4 * (fbn - NDIRECT);
                 (ind1, s2) = (if get32 ind k = 0
                   then let ind1 = put32 ind k (freeblock s1) in (ind1, wsect (A1 ! NDIRECT) ind1 (s1\<lparr>freeblock := freeblock s1 + 1\<rparr>))
                   else (ind, s1))
             in Inr (get32 ind1 k, A1, s2)))"

function iappend_loop :: "uint list \<Rightarrow> nat \<Rightarrow> uchar list \<Rightarrow> mkfs \<Rightarrow> (uint list \<times> nat \<times> mkfs) kres" where
  "iappend_loop A off xs s =
     (if xs = [] then Inr (A, off, s)
      else let fbn = off div BSIZE in
        if fbn \<ge> MAXFILE then Inl (Panic ''assert'')
        else kbind (mk_bmap fbn A s) (\<lambda>(x, A1, s1).
          let n1 = min (length xs) ((fbn + 1) * BSIZE - off) in
          kbind (rsect x s1) (\<lambda>b.
            iappend_loop A1 (off + n1) (drop n1 xs) (wsect x (put_bytes b (off - fbn * BSIZE) (take n1 xs)) s1))))"
  by pat_completeness auto
termination
proof (relation "measure (\<lambda>(_, _, xs, _). length xs)", goal_cases)
  case (2 A off xs s)
  have "off < (off div BSIZE + 1) * BSIZE" by (simp add: BSIZE_def)
  with 2 show ?case by auto
qed simp

declare iappend_loop.simps [simp del]

definition iappend :: "uint \<Rightarrow> uchar list \<Rightarrow> mkfs \<Rightarrow> mkfs kres" where
  "iappend i xs s =
     kbind (rinode i s) (\<lambda>d.
       kbind (iappend_loop (addrs d) (unat (isize d)) xs s) (\<lambda>(A, off, s1).
         winode i (d\<lparr>addrs := A, isize := of_nat off\<rparr>) s1))"

fun append_chunks :: "uint \<Rightarrow> uchar list list \<Rightarrow> mkfs \<Rightarrow> mkfs kres" where
  "append_chunks i [] s = Inr s"
| "append_chunks i (c # cs) s = (if c = [] then Inr s else kbind (iappend i c s) (append_chunks i cs))"

definition strip_name :: "uchar list \<Rightarrow> uchar list" where
  "strip_name name = (case name of [] \<Rightarrow> [] | c # cs \<Rightarrow> if c = 95 then cs else name)"

fun add_files :: "uint \<Rightarrow> (uchar list \<times> uchar list list option) list \<Rightarrow> mkfs \<Rightarrow> mkfs kres" where
  "add_files root [] s = Inr s"
| "add_files root ((name, f) # fs) s =
     (if slash \<in> set name then Inl (Panic ''assert'')
      else case f of None \<Rightarrow> Inl (Panic ''open'')
      | Some chunks \<Rightarrow>
          kbind (mk_ialloc T_FILE s) (\<lambda>(i, s1).
            kbind (iappend root (dirent (strip_name name) (ucast i)) s1) (\<lambda>s2.
              kbind (append_chunks i chunks s2) (add_files root fs))))"

definition mk_empty :: mkfs where
  "mk_empty = fold (\<lambda>i s. wsect (of_nat i) zero_block s) [0..<FSSIZE] \<lparr>img = [], freeinode = 1, freeblock = of_nat nmeta\<rparr>"

definition sb_block :: "uchar list" where
  "sb_block = put_words zero_block 0 [sb_size mksb, sb_nblocks mksb, sb_ninodes mksb, sb_nlog mksb, sb_logstart mksb,
     sb_inodestart mksb, sb_bmapstart mksb]"

definition fix_root :: "uint \<Rightarrow> mkfs \<Rightarrow> mkfs kres" where
  "fix_root root s =
     kbind (rinode root s) (\<lambda>d. winode root (d\<lparr>isize := (isize d div of_nat BSIZE + 1) * of_nat BSIZE\<rparr>) s)"

definition mkfs_main :: "(uchar list \<times> uchar list list option) list \<Rightarrow> mkfs kres" where
  "mkfs_main files =
     (let s0 = wsect 1 sb_block mk_empty in
      kbind (mk_ialloc T_DIR s0) (\<lambda>(root, s1).
        if root \<noteq> ROOTINO then Inl (Panic ''assert'')
        else kbind (iappend root (dirent [46] (ucast root)) s1) (\<lambda>s2.
          kbind (iappend root (dirent [46, 46] (ucast root)) s2) (\<lambda>s3.
            kbind (add_files root files s3) (\<lambda>s4.
              kbind (fix_root root s4) (\<lambda>s5. mk_balloc (unat (freeblock s5)) s5))))))"

section \<open>Blocks of the files\<close>

lemmas fs_consts = MAXFILE_def NDIRECT_def NINDIRECT_def BSIZE_def FSSIZE_def

text \<open>The block numbers that an inode with the addresses \<open>A\<close> holds: those of the contents, then the indirect block.\<close>

definition bslot :: "(uint \<Rightarrow> uchar list) \<Rightarrow> uint list \<Rightarrow> nat \<Rightarrow> uint" where
  "bslot B A k = (if k = MAXFILE then A ! NDIRECT else nb B A k)"

text \<open>The number of blocks that a file of a size holds.\<close>

definition blocks :: "nat \<Rightarrow> nat" where
  "blocks z = (z + BSIZE - 1) div BSIZE + (if NDIRECT * BSIZE < z then 1 else 0)"

definition cont :: "(uint \<Rightarrow> uchar list) \<Rightarrow> uint list \<Rightarrow> nat \<Rightarrow> uchar list" where
  "cont B A z = map (byte B A) [0..<z]"

text \<open>
  The inodes \<open>I\<close>, with addresses \<open>A\<close> and sizes \<open>Z\<close>, hold exactly the blocks they need, no two the same one, all
  between the start of the data and the next free block; from there on the image is empty.
\<close>

definition file_shape :: "(uint \<Rightarrow> uchar list) \<Rightarrow> uint \<Rightarrow> uint list \<Rightarrow> nat \<Rightarrow> bool" where
  "file_shape B fb A z \<longleftrightarrow> length A = 13 \<and> z \<le> MAXFILE * BSIZE \<and> (\<forall>k < MAXFILE. nb B A k \<noteq> 0 \<longleftrightarrow> BSIZE * k < z) \<and>
     (A ! NDIRECT \<noteq> 0 \<longleftrightarrow> NDIRECT * BSIZE < z) \<and> (\<forall>k \<le> MAXFILE. bslot B A k \<noteq> 0 \<longrightarrow> nmeta \<le> unat (bslot B A k) \<and> unat (bslot B A k) < unat fb)"

definition layout :: "uint set \<Rightarrow> (uint \<Rightarrow> uint list) \<Rightarrow> (uint \<Rightarrow> nat) \<Rightarrow> (uint \<Rightarrow> uchar list) \<Rightarrow> uint \<Rightarrow> bool" where
  "layout I A Z B fb \<longleftrightarrow> nmeta \<le> unat fb \<and> unat fb \<le> FSSIZE \<and> (\<forall>i \<in> I. file_shape B fb (A i) (Z i)) \<and>
     (\<forall>i \<in> I. \<forall>j \<in> I. \<forall>k \<le> MAXFILE. \<forall>l \<le> MAXFILE. bslot B (A i) k \<noteq> 0 \<longrightarrow> bslot B (A i) k = bslot B (A j) l \<longrightarrow> i = j \<and> k = l) \<and>
     (\<forall>n. unat fb \<le> unat n \<longrightarrow> unat n < FSSIZE \<longrightarrow> B n = zero_block) \<and> (\<forall>n. unat n < FSSIZE \<longrightarrow> length (B n) = BSIZE)"

lemma layoutD:
  assumes "layout I A Z B fb"
  shows "nmeta \<le> unat fb" "unat fb \<le> FSSIZE" "\<And>i. i \<in> I \<Longrightarrow> file_shape B fb (A i) (Z i)"
    "\<And>i j k l. i \<in> I \<Longrightarrow> j \<in> I \<Longrightarrow> k \<le> MAXFILE \<Longrightarrow> l \<le> MAXFILE \<Longrightarrow> bslot B (A i) k \<noteq> 0 \<Longrightarrow> bslot B (A i) k = bslot B (A j) l \<Longrightarrow> i = j \<and> k = l"
    "\<And>n. unat fb \<le> unat n \<Longrightarrow> unat n < FSSIZE \<Longrightarrow> B n = zero_block" "\<And>n. unat n < FSSIZE \<Longrightarrow> length (B n) = BSIZE"
  using assms unfolding layout_def by blast+

lemma file_shapeD:
  assumes "file_shape B fb A z"
  shows "length A = 13" "z \<le> MAXFILE * BSIZE" "\<And>k. k < MAXFILE \<Longrightarrow> nb B A k \<noteq> 0 \<longleftrightarrow> BSIZE * k < z" "A ! NDIRECT \<noteq> 0 \<longleftrightarrow> NDIRECT * BSIZE < z"
    "\<And>k. k \<le> MAXFILE \<Longrightarrow> bslot B A k \<noteq> 0 \<Longrightarrow> nmeta \<le> unat (bslot B A k) \<and> unat (bslot B A k) < unat fb"
  using assms unfolding file_shape_def by blast+

text \<open>Blocks of a file depend only on its indirect block.\<close>

lemma nb_same: "A ! NDIRECT = 0 \<or> B' (A ! NDIRECT) = B (A ! NDIRECT) \<Longrightarrow> nb B' A k = nb B A k"
  by (auto simp: nb_def)

lemma slot_same: "A ! NDIRECT = 0 \<or> B' (A ! NDIRECT) = B (A ! NDIRECT) \<Longrightarrow> bslot B' A k = bslot B A k"
  by (simp add: bslot_def nb_same)

text \<open>
  The state of the image after the block \<open>f\<close> of a file was found or allocated: the new addresses are \<open>A'\<close>,
  the block is \<open>x\<close>, and only the indirect block was written.
\<close>

definition mapped :: "(uint \<Rightarrow> uchar list) \<Rightarrow> uint \<Rightarrow> uint list \<Rightarrow> nat \<Rightarrow> uint \<Rightarrow> uint list \<Rightarrow> (uint \<Rightarrow> uchar list) \<Rightarrow> uint \<Rightarrow> bool" where
  "mapped B fb A f x A' B' fb' \<longleftrightarrow> length A' = 13 \<and> unat fb \<le> unat fb' \<and> unat fb' \<le> FSSIZE \<and> x \<noteq> 0 \<and>
     (\<forall>k < MAXFILE. nb B' A' k = (if k = f then x else nb B A k)) \<and> (nb B A f \<noteq> 0 \<longrightarrow> x = nb B A f) \<and>
     (nb B A f = 0 \<longrightarrow> unat fb \<le> unat x \<and> unat x < unat fb') \<and> (A ! NDIRECT \<noteq> 0 \<longrightarrow> A' ! NDIRECT = A ! NDIRECT) \<and>
     (A ! NDIRECT = 0 \<longrightarrow> A' ! NDIRECT \<noteq> 0 \<longrightarrow> unat fb \<le> unat (A' ! NDIRECT) \<and> unat (A' ! NDIRECT) < unat fb') \<and> x \<noteq> A' ! NDIRECT \<and>
     (\<forall>n. n \<noteq> A' ! NDIRECT \<longrightarrow> B' n = B n) \<and> (A' ! NDIRECT = 0 \<longrightarrow> B' = B) \<and> (\<forall>n. unat n < FSSIZE \<longrightarrow> length (B' n) = BSIZE)"

lemma mappedD:
  assumes "mapped B fb A f x A' B' fb'"
  shows "length A' = 13" "unat fb \<le> unat fb'" "unat fb' \<le> FSSIZE" "x \<noteq> 0" "\<And>k. k < MAXFILE \<Longrightarrow> nb B' A' k = (if k = f then x else nb B A k)"
    "nb B A f \<noteq> 0 \<Longrightarrow> x = nb B A f" "nb B A f = 0 \<Longrightarrow> unat fb \<le> unat x \<and> unat x < unat fb'" "A ! NDIRECT \<noteq> 0 \<Longrightarrow> A' ! NDIRECT = A ! NDIRECT"
    "A ! NDIRECT = 0 \<Longrightarrow> A' ! NDIRECT \<noteq> 0 \<Longrightarrow> unat fb \<le> unat (A' ! NDIRECT) \<and> unat (A' ! NDIRECT) < unat fb'" "x \<noteq> A' ! NDIRECT"
    "\<And>n. n \<noteq> A' ! NDIRECT \<Longrightarrow> B' n = B n" "A' ! NDIRECT = 0 \<Longrightarrow> B' = B" "\<And>n. unat n < FSSIZE \<Longrightarrow> length (B' n) = BSIZE"
  using assms unfolding mapped_def by blast+

text \<open>The blocks written, \<open>x\<close> and the indirect block, are the file's own or new.\<close>

lemma mapped_slot:
  assumes "mapped B fb A f x A' B' fb'" "f < MAXFILE" "k \<le> MAXFILE" "bslot B' A' k \<noteq> 0"
  shows "bslot B A k \<noteq> 0 \<and> bslot B' A' k = bslot B A k \<or> bslot B A k = 0 \<and> unat fb \<le> unat (bslot B' A' k) \<and> unat (bslot B' A' k) < unat fb'"
proof (cases "k = MAXFILE")
  case True
  then show ?thesis using assms(4) mappedD(8,9) [OF assms(1)] by (auto simp: bslot_def)
next
  case False
  then have "k < MAXFILE" using assms(3) by simp
  then show ?thesis using False assms(4) mappedD(5,6,7) [OF assms(1)] by (auto simp: bslot_def)
qed

lemma mapped_cross:
  assumes "layout I A Z B fb" "mapped B fb (A i) f x A' B' fb'" "f < MAXFILE" "i \<in> I" "j \<in> I" "j \<noteq> i" "k \<le> MAXFILE" "l \<le> MAXFILE"
    "bslot B (A j) k \<noteq> 0"
  shows "bslot B (A j) k \<noteq> bslot B' A' l"
proof
  assume e: "bslot B (A j) k = bslot B' A' l"
  then have n: "bslot B' A' l \<noteq> 0" using assms(9) by simp
  from mapped_slot [OF assms(2,3,8) n] show False
  proof
    assume "bslot B (A i) l \<noteq> 0 \<and> bslot B' A' l = bslot B (A i) l"
    then have "bslot B (A j) k = bslot B (A i) l" using e by simp
    then show False using layoutD(4) [OF assms(1,5,4,7,8,9)] assms(6) by blast
  qed (use e file_shapeD(5) [OF layoutD(3) [OF assms(1,5)] assms(7,9)] in auto)
qed

lemma mapped_other:
  assumes "layout I A Z B fb" "mapped B fb (A i) f x A' B' fb'" "f < MAXFILE" "i \<in> I" "j \<in> I" "j \<noteq> i" "k \<le> MAXFILE" "bslot B (A j) k \<noteq> 0"
  shows "bslot B (A j) k \<noteq> x \<and> bslot B (A j) k \<noteq> A' ! NDIRECT"
  using mapped_cross [OF assms(1-7) _ assms(8), of f] mapped_cross [OF assms(1-7) _ assms(8), of MAXFILE] assms(3) mappedD(5) [OF assms(2,3)]
  by (simp add: bslot_def)

lemma mapped_inj:
  assumes "layout I A Z B fb" "mapped B fb (A i) f x A' B' fb'" "f < MAXFILE" "i \<in> I" "k \<le> MAXFILE" "l \<le> MAXFILE"
    "bslot B' A' k \<noteq> 0" "bslot B' A' k = bslot B' A' l"
  shows "k = l"
proof -
  note m = mappedD [OF assms(2)] and k = mapped_slot [OF assms(2,3,5,7)]
  have l: "bslot B (A i) l \<noteq> 0 \<and> bslot B' A' l = bslot B (A i) l \<or> bslot B (A i) l = 0 \<and> unat fb \<le> unat (bslot B' A' l) \<and> unat (bslot B' A' l) < unat fb'"
    using mapped_slot [OF assms(2,3,6)] assms(7,8) by simp
  have lt: "unat (bslot B (A i) n) < unat fb" if "n \<le> MAXFILE" "bslot B (A i) n \<noteq> 0" for n
    using file_shapeD(5) [OF layoutD(3) [OF assms(1,4)] that] by blast
  have new: "n = f \<or> n = MAXFILE" if "n \<le> MAXFILE" "bslot B (A i) n = 0" "bslot B' A' n \<noteq> 0" for n
    using that m(5) [of n] by (auto simp: bslot_def split: if_splits)
  consider "bslot B (A i) k \<noteq> 0" "bslot B (A i) k = bslot B (A i) l" | "bslot B (A i) k = 0" "bslot B (A i) l = 0"
    using k l lt [OF assms(5)] lt [OF assms(6)] assms(8) by fastforce
  then show ?thesis
  proof cases
    case 1
    then show ?thesis using layoutD(4) [OF assms(1,4,4,5,6)] by blast
  next
    case 2
    then show ?thesis using new [OF assms(5)] new [OF assms(6)] assms(7,8) m(5) [OF assms(3)] m(10) assms(3) by (auto simp: bslot_def)
  qed
qed

lemma step_blocks:
  assumes "layout I A Z B fb" "i \<in> I" "mapped B fb (A i) f x A' B' fb'" "f < MAXFILE"
  shows "bslot (B'(x := d)) A' k = bslot B' A' k" "nb (B'(x := d)) A' k = nb B' A' k"
    "\<And>j. j \<in> I \<Longrightarrow> j \<noteq> i \<Longrightarrow> bslot (B'(x := d)) (A j) k = bslot B (A j) k \<and> nb (B'(x := d)) (A j) k = nb B (A j) k"
proof -
  note m = mappedD [OF assms(3)]
  show "bslot (B'(x := d)) A' k = bslot B' A' k" "nb (B'(x := d)) A' k = nb B' A' k" using m(10) by (auto intro!: slot_same nb_same)
  fix j assume j: "j \<in> I" "j \<noteq> i"
  have "A j ! NDIRECT = 0 \<or> (B'(x := d)) (A j ! NDIRECT) = B (A j ! NDIRECT)"
    using mapped_other [OF assms(1,3,4,2) j, of MAXFILE] m(11) by (auto simp: bslot_def)
  then show "bslot (B'(x := d)) (A j) k = bslot B (A j) k \<and> nb (B'(x := d)) (A j) k = nb B (A j) k" using slot_same nb_same by blast
qed

lemma step_shape:
  assumes "layout I A Z B fb" "i \<in> I" "mapped B fb (A i) f x A' B' fb'" "f < MAXFILE"
    "BSIZE * f \<le> Z i" "Z i < z" "z \<le> BSIZE * (f + 1)" "A' ! NDIRECT \<noteq> 0 \<longleftrightarrow> NDIRECT * BSIZE < z"
  shows "file_shape (B'(x := d)) fb' A' z"
proof -
  note m = mappedD [OF assms(3)] and sh = file_shapeD [OF layoutD(3) [OF assms(1,2)]] and st = step_blocks [OF assms(1-4)]
  have "nb B' A' k \<noteq> 0 \<longleftrightarrow> BSIZE * k < z" if "k < MAXFILE" for k
  proof (cases "k = f")
    case False
    then have "BSIZE * k < Z i \<longleftrightarrow> BSIZE * k < z"
      using assms(5,6,7) by (cases "k < f") (auto simp: BSIZE_def)
    then show ?thesis using sh(3) [OF that] m(5) [OF that] False by simp
  qed (use m(4,5) that assms(5,6) in simp)
  moreover have "nmeta \<le> unat (bslot B' A' k) \<and> unat (bslot B' A' k) < unat fb'" if "k \<le> MAXFILE" "bslot B' A' k \<noteq> 0" for k
    using mapped_slot [OF assms(3,4) that] sh(5) [OF that(1)] m(2) layoutD(1) [OF assms(1)] by fastforce
  moreover have "z \<le> MAXFILE * BSIZE" using assms(4,7) by (simp add: BSIZE_def)
  ultimately show ?thesis using m(1) assms(8) by (simp add: file_shape_def st(1,2))
qed

lemma layout_step:
  assumes "layout I A Z B fb" "i \<in> I" "mapped B fb (A i) f x A' B' fb'" "f < MAXFILE"
    "BSIZE * f \<le> Z i" "Z i < z" "z \<le> BSIZE * (f + 1)" "A' ! NDIRECT \<noteq> 0 \<longleftrightarrow> NDIRECT * BSIZE < z" "length d = BSIZE"
  shows "layout I (A(i := A')) (Z(i := z)) (B'(x := d)) fb'"
proof -
  note m = mappedD [OF assms(3)] and L = layoutD [OF assms(1)] and st = step_blocks [OF assms(1-4)]
  have fs: "file_shape (B'(x := d)) fb' ((A(i := A')) j) ((Z(i := z)) j)" if "j \<in> I" for j
  proof (cases "j = i")
    case True
    then show ?thesis using step_shape [OF assms(1-8)] by simp
  next
    case False
    have "file_shape (B'(x := d)) fb' (A j) (Z j) = file_shape B fb' (A j) (Z j)" by (simp add: file_shape_def st(3) [OF that False])
    moreover have "file_shape B fb' (A j) (Z j)" using L(3) [OF that] m(2) by (fastforce simp: file_shape_def)
    ultimately show ?thesis using False by simp
  qed
  have inj: "j1 = j2 \<and> k = l" if "j1 \<in> I" "j2 \<in> I" "k \<le> MAXFILE" "l \<le> MAXFILE" "bslot (B'(x := d)) ((A(i := A')) j1) k \<noteq> 0"
    "bslot (B'(x := d)) ((A(i := A')) j1) k = bslot (B'(x := d)) ((A(i := A')) j2) l" for j1 j2 k l
  proof -
    consider "j1 = i" "j2 = i" | "j1 = i" "j2 \<noteq> i" | "j1 \<noteq> i" "j2 = i" | "j1 \<noteq> i" "j2 \<noteq> i" by blast
    then show ?thesis
    proof cases
      case 1
      then have "bslot B' A' k \<noteq> 0" "bslot B' A' k = bslot B' A' l" using that(5,6) by (simp_all add: st(1))
      then show ?thesis using mapped_inj [OF assms(1,3,4,2) that(3,4)] 1 by blast
    next
      case 2
      then have "bslot B (A j2) l \<noteq> 0" "bslot B (A j2) l = bslot B' A' k" using that(5,6) st(3) [OF that(2)] by (simp_all add: st(1))
      then show ?thesis using mapped_cross [OF assms(1,3,4,2) that(2) 2(2) that(4,3)] by blast
    next
      case 3
      then have "bslot B (A j1) k \<noteq> 0" "bslot B (A j1) k = bslot B' A' l" using that(5,6) st(3) [OF that(1)] by (simp_all add: st(1))
      then show ?thesis using mapped_cross [OF assms(1,3,4,2) that(1) 3(1) that(3,4)] by blast
    next
      case 4
      then have "bslot B (A j1) k \<noteq> 0" "bslot B (A j1) k = bslot B (A j2) l" using that(5,6) st(3) [OF that(1)] st(3) [OF that(2)] by simp_all
      then show ?thesis using L(4) [OF that(1-4)] by blast
    qed
  qed
  have "(B'(x := d)) n = zero_block" if "unat fb' \<le> unat n" "unat n < FSSIZE" for n
  proof -
    note r = file_shapeD(5) [OF step_shape [OF assms(1-8)]]
    have "unat x < unat fb'" using r [of f d] m(4) m(5) [OF assms(4)] assms(4) by (simp add: st bslot_def)
    moreover have "A' ! NDIRECT \<noteq> 0 \<longrightarrow> unat (A' ! NDIRECT) < unat fb'" using r [of MAXFILE d] by (simp add: bslot_def)
    ultimately have "n \<noteq> x" "n \<noteq> A' ! NDIRECT \<or> A' ! NDIRECT = 0" using that(1) by auto
    then show ?thesis using L(5) [of n] that m(2,11,12) by auto
  qed
  moreover have "length ((B'(x := d)) n) = BSIZE" if "unat n < FSSIZE" for n using m(13) [OF that] assms(9) by simp
  ultimately show ?thesis unfolding layout_def using L(1,2) m(2,3) fs inj by fastforce
qed

text \<open>What appending to one file does to the contents of the files.\<close>

lemma cont_eqI: "(\<And>p. p < z \<Longrightarrow> byte B A p = byte B' A' p) \<Longrightarrow> cont B A z = cont B' A' z"
  by (simp add: cont_def)

lemma nb_in_file:
  assumes "file_shape B fb A z" "p < z"
  shows "p div BSIZE < MAXFILE" "nb B A (p div BSIZE) \<noteq> 0"
proof -
  have "z \<le> MAXFILE * BSIZE" using file_shapeD(2) [OF assms(1)] .
  then show k: "p div BSIZE < MAXFILE" using assms(2) by (simp add: less_mult_imp_div_less)
  have "BSIZE * (p div BSIZE) < z" using assms(2) by (simp add: BSIZE_def)
  then show "nb B A (p div BSIZE) \<noteq> 0" using file_shapeD(3) [OF assms(1) k] by simp
qed

lemma step_cont_other:
  assumes "layout I A Z B fb" "i \<in> I" "mapped B fb (A i) f x A' B' fb'" "f < MAXFILE" "j \<in> I" "j \<noteq> i"
  shows "cont (B'(x := d)) (A j) (Z j) = cont B (A j) (Z j)"
proof (rule cont_eqI)
  fix p assume p: "p < Z j"
  let ?k = "p div BSIZE"
  note n = nb_in_file [OF layoutD(3) [OF assms(1,5)] p]
  have "nb B (A j) ?k \<noteq> x \<and> nb B (A j) ?k \<noteq> A' ! NDIRECT"
    using mapped_other [OF assms(1,3,4,2,5,6), of ?k] n by (simp add: bslot_def)
  then have "(B'(x := d)) (nb B (A j) ?k) = B (nb B (A j) ?k)" using mappedD(11) [OF assms(3)] by auto
  then show "byte (B'(x := d)) (A j) p = byte B (A j) p" using step_blocks(3) [OF assms(1-6), of d ?k] by (simp add: byte_def)
qed

lemma step_byte:
  assumes "layout I A Z B fb" "i \<in> I" "mapped B fb (A i) f x A' B' fb'" "f < MAXFILE" "p < Z i \<or> p div BSIZE = f"
  shows "byte (B'(x := d)) A' p = (if p div BSIZE = f then d ! (p mod BSIZE) else B (nb B (A i) (p div BSIZE)) ! (p mod BSIZE))"
proof (cases "p div BSIZE = f")
  case True
  then show ?thesis using mappedD(5) [OF assms(3,4)] by (simp add: byte_def step_blocks(2) [OF assms(1-4)])
next
  case False
  let ?k = "p div BSIZE"
  note m = mappedD [OF assms(3)] and st = step_blocks(2) [OF assms(1-4)]
  have "p < Z i" using False assms(5) by blast
  note n = nb_in_file [OF layoutD(3) [OF assms(1,2)] this]
  have e: "nb B' A' ?k = nb B (A i) ?k" using m(5) [OF n(1)] False by simp
  have "bslot B' A' ?k \<noteq> 0" "?k \<le> MAXFILE" "?k \<noteq> MAXFILE" using n e by (simp_all add: bslot_def)
  note inj = mapped_inj [OF assms(1,3,4,2) this(2) _ this(1)]
  have "bslot B' A' ?k \<noteq> bslot B' A' f" "bslot B' A' ?k \<noteq> bslot B' A' MAXFILE"
    using inj [of f] inj [of MAXFILE] False \<open>?k \<noteq> MAXFILE\<close> assms(4) by auto
  then have "nb B' A' ?k \<noteq> x" "nb B' A' ?k \<noteq> A' ! NDIRECT" using m(5) [OF assms(4)] assms(4) n(1) by (auto simp: bslot_def)
  then show ?thesis using False m(11) e by (simp add: byte_def st)
qed

lemma step_cont_self:
  assumes "layout I A Z B fb" "i \<in> I" "mapped B fb (A i) f x A' B' fb'" "f < MAXFILE"
    "BSIZE * f \<le> Z i" "z \<le> BSIZE * (f + 1)" "d = put_bytes (B' x) (Z i - f * BSIZE) ys" "z = Z i + length ys" "unat x < FSSIZE"
  shows "cont (B'(x := d)) A' z = cont B (A i) (Z i) @ ys"
proof (rule nth_equalityI)
  show "length (cont (B'(x := d)) A' z) = length (cont B (A i) (Z i) @ ys)" using assms(8) by (simp add: cont_def)
  note m = mappedD [OF assms(3)]
  have dx: "length (B' x) = BSIZE" using m(13) [OF assms(9)] .
  have c: "Z i - f * BSIZE + length ys \<le> length (B' x)" using assms(5,6,8) dx by (simp add: BSIZE_def)
  fix p assume "p < length (cont (B'(x := d)) A' z)"
  then have p: "p < z" by (simp add: cont_def)
  let ?k = "p div BSIZE"
  have mp: "p mod BSIZE < BSIZE" "p = BSIZE * ?k + p mod BSIZE" by (simp_all add: BSIZE_def)
  note b = step_byte [OF assms(1-4), of p d]
  have "(cont (B'(x := d)) A' z) ! p = byte (B'(x := d)) A' p" using p by (simp add: cont_def)
  also have "\<dots> = (cont B (A i) (Z i) @ ys) ! p"
  proof (cases "p < Z i")
    case True
    note n = nb_in_file [OF layoutD(3) [OF assms(1,2)] True]
    have "d ! (p mod BSIZE) = B (nb B (A i) ?k) ! (p mod BSIZE)" if "?k = f"
    proof -
      have "x = nb B (A i) ?k" "B' x = B x" using m(6,10,11) n(2) that by auto
      moreover have "p mod BSIZE < Z i - f * BSIZE" using True mp(2) [unfolded that] mult.commute [of f BSIZE] by linarith
      ultimately show ?thesis using put_bytes_nth [OF _ c, of "p mod BSIZE"] dx mp(1) assms(7) by simp
    qed
    then show ?thesis using b True by (simp add: cont_def nth_append byte_def)
  next
    case False
    have k: "?k = f"
    proof (rule antisym)
      have "p < BSIZE * (f + 1)" using p assms(6) by simp
      then show "?k \<le> f" by (simp add: less_mult_imp_div_less mult.commute BSIZE_def)
      show "f \<le> ?k" using False assms(5) by (simp add: BSIZE_def)
    qed
    have "Z i - f * BSIZE \<le> p mod BSIZE" "p mod BSIZE < Z i - f * BSIZE + length ys" "p mod BSIZE - (Z i - f * BSIZE) = p - Z i"
      using mp(2) [unfolded k] mult.commute [of f BSIZE] False p assms(5,8) by linarith+
    then have "d ! (p mod BSIZE) = ys ! (p - Z i)"
      using put_bytes_nth [OF _ c, of "p mod BSIZE"] dx mp(1) assms(7) by (simp del: mult.commute)
    then show ?thesis using b k False by (simp add: cont_def nth_append)
  qed
  finally show "cont (B'(x := d)) A' z ! p = (cont B (A i) (Z i) @ ys) ! p" .
qed

section \<open>Blocks of the image\<close>

definition bk :: "mkfs \<Rightarrow> uint \<Rightarrow> uchar list" where
  "bk s n = img s ! unat n"

lemma wsect_ok:
  assumes "unat n < length (img s)"
  shows "bk (wsect n b s) = (bk s)(n := b)" "length (img (wsect n b s)) = length (img s)"
    "freeblock (wsect n b s) = freeblock s" "freeinode (wsect n b s) = freeinode s"
  using assms by (auto simp: bk_def wsect_def Let_def fun_eq_iff nth_list_update simp flip: word_unat_eq_iff)

lemma rsect_ok: "unat n < length (img s) \<Longrightarrow> rsect n s = Inr (bk s n)"
  by (simp add: rsect_def bk_def)

lemma bk_upd [simp]: "bk (s\<lparr>freeblock := f\<rparr>) = bk s" "bk (s\<lparr>freeinode := i\<rparr>) = bk s"
  by (simp_all add: bk_def fun_eq_iff)

lemma next_block:
  assumes "unat (fb :: uint) < FSSIZE"
  shows "unat (fb + 1) = unat fb + 1" "unat fb < unat (fb + 1)"
  using assms unat_add_small [of fb 1] by (simp_all add: FSSIZE_def)

lemma nmeta_val: "nmeta = 59"
  by (simp add: nmeta_def nlog_def LOGSIZE_def ninodeblocks_def nbitmap_def NINODES_def FSSIZE_def IPB_def BSIZE_def)

lemma blocks_step:
  "blocks (z + 1) = blocks z + (if BSIZE dvd z then 1 else 0) + (if z = NDIRECT * BSIZE then 1 else 0)"
proof -
  have "(z + 511) div 512 = z div 512 + (if 512 dvd z then 0 else 1)"
  proof (cases "512 dvd z")
    case False
    define q r where "q = z div 512" and "r = z mod 512"
    have "0 < r" "z = 512 * q + r" "r < 512" using False by (simp_all add: dvd_eq_mod_eq_0 q_def r_def)
    then have "(z + 511) div 512 = q + 1" by (intro div_nat_eqI) simp_all
    then have "(z + 511) div 512 = z div 512 + 1" by (simp only: q_def)
    then show ?thesis using False by simp
  qed auto
  then have "(z + 512) div 512 = (z + 511) div 512 + (if 512 dvd z then 1 else 0)" using div_add_self2 [of 512 z] by simp
  then show ?thesis by (auto simp: blocks_def BSIZE_def NDIRECT_def add.commute)
qed

lemma last_block: "BSIZE * (z div BSIZE) < z \<longleftrightarrow> \<not> BSIZE dvd z"
  by (metis dvd_mult_div_cancel dvd_triv_left div_times_less_eq_dividend le_neq_implies_less mult.commute nat_less_le)

text \<open>What \<open>mk_bmap\<close> does for the block at the end of a file of size \<open>z\<close>.\<close>

definition bmap_effect :: "nat \<Rightarrow> uint list \<Rightarrow> mkfs \<Rightarrow> nat \<Rightarrow> bool" where
  "bmap_effect z A s f \<longleftrightarrow> (\<exists>x A' s'. mk_bmap f A s = Inr (x, A', s') \<and> mapped (bk s) (freeblock s) A f x A' (bk s') (freeblock s') \<and>
     (A' ! NDIRECT \<noteq> 0 \<longleftrightarrow> NDIRECT * BSIZE < z + 1) \<and> unat (freeblock s') = unat (freeblock s) + (blocks (z + 1) - blocks z) \<and>
     length (img s') = FSSIZE \<and> freeinode s' = freeinode s \<and> (\<forall>n. unat n < nmeta \<longrightarrow> bk s' n = bk s n))"

lemma mk_bmap_direct:
  assumes "layout I A Z (bk s) (freeblock s)" "i \<in> I" "length (img s) = FSSIZE" "f = Z i div BSIZE" "f < NDIRECT"
    "unat (freeblock s) + (blocks (Z i + 1) - blocks (Z i)) \<le> FSSIZE"
  shows "bmap_effect (Z i) (A i) s f"
proof -
  note L = layoutD [OF assms(1)] and sh = file_shapeD [OF layoutD(3) [OF assms(1,2)]]
  have f: "f < MAXFILE" "nb (bk s) (A i) f = A i ! f" using assms(5) by (simp_all add: nb_def fs_consts)
  have z: "Z i < NDIRECT * BSIZE" using assms(4,5) by (auto simp: NDIRECT_def BSIZE_def)
  then have ind: "A i ! NDIRECT = 0" using sh(4) by auto
  have a0: "A i ! f = 0 \<longleftrightarrow> BSIZE dvd Z i"
    using sh(3) [OF f(1)] f(2) last_block [of "Z i"] assms(4) by auto
  have bl: "blocks (Z i + 1) - blocks (Z i) = (if BSIZE dvd Z i then 1 else 0)" using blocks_step [of "Z i"] z by auto
  show ?thesis
  proof (cases "A i ! f = 0")
    case True
    let ?fb = "freeblock s" and ?A = "(A i)[f := freeblock s]"
    have fb: "unat ?fb < FSSIZE" using assms(6) bl True a0 by simp
    have nz: "?fb \<noteq> 0" using L(1) nmeta_val by auto
    have e: "mk_bmap f (A i) s = Inr (?A ! f, ?A, s\<lparr>freeblock := ?fb + 1\<rparr>)" using True assms(5) by (simp add: mk_bmap_def)
    have l: "?A ! f = ?fb" "?A ! NDIRECT = 0" using assms(5) sh(1) ind by (simp_all add: NDIRECT_def)
    have "mapped (bk s) ?fb (A i) f ?fb ?A (bk s) (?fb + 1)"
      using sh(1) next_block [OF fb] fb nz l(2) True f ind L(6) assms(5) by (auto simp: mapped_def nb_def nth_list_update NDIRECT_def)
    then show ?thesis unfolding bmap_effect_def e using l z next_block [OF fb] bl True a0 assms(3) by simp
  next
    case False
    have e: "mk_bmap f (A i) s = Inr (A i ! f, A i, s)" using False assms(5) by (simp add: mk_bmap_def)
    have "mapped (bk s) (freeblock s) (A i) f (A i ! f) (A i) (bk s) (freeblock s)"
      using sh(1) L(2,6) False ind f by (auto simp: mapped_def)
    then show ?thesis unfolding bmap_effect_def e using ind z bl False a0 assms(3) by simp
  qed
qed

text \<open>A file that needs its indirect block: it has one or gets the next free block, which is empty.\<close>

lemma indirect_block:
  assumes "layout I A Z (bk s) (freeblock s)" "i \<in> I" "length (img s) = FSSIZE" "f = Z i div BSIZE" "NDIRECT \<le> f"
    "unat (freeblock s) + (blocks (Z i + 1) - blocks (Z i)) \<le> FSSIZE"
    "(A1, fb1) = (if A i ! NDIRECT = 0 then ((A i)[NDIRECT := freeblock s], freeblock s + 1) else (A i, freeblock s))"
  shows "length A1 = 13" "A1 ! NDIRECT \<noteq> 0" "unat (A1 ! NDIRECT) < unat fb1" "unat fb1 = unat (freeblock s) + (if Z i = NDIRECT * BSIZE then 1 else 0)"
    "A i ! NDIRECT \<noteq> 0 \<Longrightarrow> A1 ! NDIRECT = A i ! NDIRECT" "A i ! NDIRECT = 0 \<Longrightarrow> A1 ! NDIRECT = freeblock s"
    "\<And>k. k < MAXFILE \<Longrightarrow> nb (bk s) A1 k = nb (bk s) (A i) k" "nmeta \<le> unat (A1 ! NDIRECT)"
proof -
  note L = layoutD [OF assms(1)] and sh = file_shapeD [OF layoutD(3) [OF assms(1,2)]]
  have z: "NDIRECT * BSIZE \<le> Z i" using assms(4,5) by (simp add: NDIRECT_def BSIZE_def)
  have bl: "blocks (Z i + 1) - blocks (Z i) = (if BSIZE dvd Z i then 1 else 0) + (if Z i = NDIRECT * BSIZE then 1 else 0)"
    using blocks_step [of "Z i"] by simp
  have a: "A i ! NDIRECT = 0 \<longleftrightarrow> Z i = NDIRECT * BSIZE" using sh(4) z by auto
  have nz: "freeblock s \<noteq> 0" using L(1) nmeta_val by auto
  have fb: "unat (freeblock s) < FSSIZE" if "A i ! NDIRECT = 0" using assms(6) bl a that by simp
  have zb: "get32 (bk s (freeblock s)) (4 * k) = 0" if "A i ! NDIRECT = 0" "k < 128" for k
    using L(5) [of "freeblock s"] fb [OF that(1)] that(2) by (simp add: zero_block_head)
  show "length A1 = 13" using assms(7) sh(1) by (auto split: if_splits)
  show n: "A1 ! NDIRECT \<noteq> 0" using assms(7) sh(1) nz by (auto simp: NDIRECT_def split: if_splits)
  show "unat fb1 = unat (freeblock s) + (if Z i = NDIRECT * BSIZE then 1 else 0)"
    using assms(7) a next_block(1) [OF fb] by (auto split: if_splits)
  show "A i ! NDIRECT \<noteq> 0 \<Longrightarrow> A1 ! NDIRECT = A i ! NDIRECT" "A i ! NDIRECT = 0 \<Longrightarrow> A1 ! NDIRECT = freeblock s"
    using assms(7) sh(1) by (auto simp: NDIRECT_def)
  have o: "nmeta \<le> unat (A i ! NDIRECT) \<and> unat (A i ! NDIRECT) < unat (freeblock s)" if "A i ! NDIRECT \<noteq> 0"
    using sh(5) [of MAXFILE] that by (simp add: bslot_def)
  show "unat (A1 ! NDIRECT) < unat fb1" "nmeta \<le> unat (A1 ! NDIRECT)"
    using assms(7) sh(1) next_block(2) [OF fb] o L(1) by (auto simp: NDIRECT_def split: if_splits)
  show "nb (bk s) A1 k = nb (bk s) (A i) k" if "k < MAXFILE" for k
  proof (cases "A i ! NDIRECT = 0")
    case True
    then have "A1 = (A i)[NDIRECT := freeblock s]" using assms(7) by simp
    then show ?thesis using True sh(1) nz zb [of "k - NDIRECT"] that by (auto simp: nb_def fs_consts nth_list_update)
  qed (use assms(7) in simp)
qed

lemma mk_bmap_indirect:
  assumes "layout I A Z (bk s) (freeblock s)" "i \<in> I" "length (img s) = FSSIZE" "f = Z i div BSIZE" "NDIRECT \<le> f" "f < MAXFILE"
    "unat (freeblock s) + (blocks (Z i + 1) - blocks (Z i)) \<le> FSSIZE"
  shows "bmap_effect (Z i) (A i) s f"
proof -
  note L = layoutD [OF assms(1)] and sh = file_shapeD [OF layoutD(3) [OF assms(1,2)]]
  obtain A1 fb1 where A1: "(A1, fb1) = (if A i ! NDIRECT = 0 then ((A i)[NDIRECT := freeblock s], freeblock s + 1) else (A i, freeblock s))"
    by (metis surj_pair)
  note d = indirect_block [OF assms(1-5,7) A1]
  let ?B = "bk s" and ?k = "4 * (f - NDIRECT)" and ?s1 = "s\<lparr>freeblock := fb1\<rparr>"
  have bl: "blocks (Z i + 1) - blocks (Z i) = (if BSIZE dvd Z i then 1 else 0) + (if Z i = NDIRECT * BSIZE then 1 else 0)"
    using blocks_step [of "Z i"] by simp
  have z: "NDIRECT * BSIZE < Z i + 1" using assms(4,5) by (simp add: NDIRECT_def BSIZE_def)
  have fb1: "unat fb1 \<le> FSSIZE" using d(4) assms(7) bl by auto
  then have ib: "unat (A1 ! NDIRECT) < FSSIZE" using d(3) by simp
  have k: "?k + 4 \<le> 512" using assms(6) by (simp add: fs_consts)
  have c: "get32 (?B (A1 ! NDIRECT)) ?k = nb ?B (A i) f" using d(2) d(7) [OF assms(6)] assms(5) by (simp add: nb_def)
  have c0: "nb ?B (A i) f = 0 \<longleftrightarrow> BSIZE dvd Z i" using sh(3) [OF assms(6)] last_block [of "Z i"] assms(4) by auto
  have r: "rsect (A1 ! NDIRECT) ?s1 = Inr (?B (A1 ! NDIRECT))" using rsect_ok [of "A1 ! NDIRECT" ?s1] ib assms(3) by simp
  have e: "mk_bmap f (A i) s = (if nb ?B (A i) f = 0
    then Inr (fb1, A1, wsect (A1 ! NDIRECT) (put32 (?B (A1 ! NDIRECT)) ?k fb1) (s\<lparr>freeblock := fb1 + 1\<rparr>))
    else Inr (nb ?B (A i) f, A1, ?s1))"
    using assms(5) A1 r c k L(6) [OF ib] by (cases "A i ! NDIRECT = 0") (simp_all add: mk_bmap_def Let_def BSIZE_def)
  have nm: "bk s n = ((bk s)(A1 ! NDIRECT := v)) n" if "unat n < nmeta" for n v using that d(8) by auto
  show ?thesis
  proof (cases "nb ?B (A i) f = 0")
    case True
    let ?ind = "put32 (?B (A1 ! NDIRECT)) ?k fb1" and ?s2 = "s\<lparr>freeblock := fb1 + 1\<rparr>"
    note w = wsect_ok [of "A1 ! NDIRECT" ?s2 ?ind]
    have fb: "unat fb1 < FSSIZE" using d(4) assms(7) bl True c0 by auto
    have l: "length (?B (A1 ! NDIRECT)) = 512" using L(6) [OF ib] by (simp add: BSIZE_def)
    have e2: "mk_bmap f (A i) s = Inr (fb1, A1, wsect (A1 ! NDIRECT) ?ind ?s2)"
      unfolding e using True by simp
    have "nb (?B(A1 ! NDIRECT := ?ind)) A1 j = (if j = f then fb1 else nb ?B (A i) j)" if "j < MAXFILE" for j
    proof (cases "j < NDIRECT")
      case False
      then have "nb (?B(A1 ! NDIRECT := ?ind)) A1 j = get32 ?ind (4 * (j - NDIRECT))" using d(2) by (simp add: nb_def)
      moreover have "get32 (?B (A1 ! NDIRECT)) (4 * (j - NDIRECT)) = nb ?B (A i) j" using d(2) d(7) [OF that] False by (simp add: nb_def)
      moreover have "4 * (j - NDIRECT) + 4 \<le> ?k \<or> ?k + 4 \<le> 4 * (j - NDIRECT)" if "j \<noteq> f" using that False assms(5) by linarith
      ultimately show ?thesis using k l by (cases "j = f") simp_all
    qed (use d(7) [OF that] assms(5) in \<open>auto simp: nb_def\<close>)
    moreover have "length ((?B(A1 ! NDIRECT := ?ind)) n) = BSIZE" if "unat n < FSSIZE" for n using L(6) [OF that] l by (simp add: BSIZE_def)
    ultimately have "mapped ?B (freeblock s) (A i) f fb1 A1 (?B(A1 ! NDIRECT := ?ind)) (fb1 + 1)"
      unfolding mapped_def using d fb next_block [OF fb] True L(1) nmeta_val by auto
    then show ?thesis unfolding bmap_effect_def e2
      using w ib assms(3) d(2) z bl d(4) next_block [OF fb] True c0 nm by simp
  next
    case False
    have A: "A1 = A i" "fb1 = freeblock s" using A1 False assms(5) by (auto simp: nb_def split: if_splits)
    have e2: "mk_bmap f (A i) s = Inr (nb ?B (A i) f, A i, s)" unfolding e using False A by simp
    have "nb ?B (A i) f \<noteq> A i ! NDIRECT" using L(4) [OF assms(2,2), of f MAXFILE] False assms(6) by (auto simp: bslot_def)
    then have "mapped ?B (freeblock s) (A i) f (nb ?B (A i) f) (A i) ?B (freeblock s)" unfolding mapped_def using sh(1) L(2,6) False by auto
    moreover have "Z i \<noteq> NDIRECT * BSIZE" using False c0 by auto
    ultimately show ?thesis unfolding bmap_effect_def e2 using bl False c0 z d(2) A assms(3) by simp
  qed
qed

lemma mk_bmap_ok:
  assumes "layout I A Z (bk s) (freeblock s)" "i \<in> I" "length (img s) = FSSIZE" "f = Z i div BSIZE" "f < MAXFILE"
    "unat (freeblock s) + (blocks (Z i + 1) - blocks (Z i)) \<le> FSSIZE"
  shows "bmap_effect (Z i) (A i) s f"
  using mk_bmap_direct [OF assms(1-4) _ assms(6)] mk_bmap_indirect [OF assms(1-4) _ assms(5,6)] by (cases "f < NDIRECT") auto

section \<open>Appending\<close>

lemma blocks_mono: "y \<le> z \<Longrightarrow> blocks y \<le> blocks z"
proof -
  assume l: "y \<le> z"
  then have "(y + BSIZE - 1) div BSIZE \<le> (z + BSIZE - 1) div BSIZE" by (intro div_le_mono) simp
  then show ?thesis using l by (auto simp: blocks_def)
qed

lemma blocks_within:
  assumes "f = z div BSIZE" "0 < n" "z + n \<le> BSIZE * (f + 1)"
  shows "blocks (z + n) = blocks (z + 1)" "NDIRECT * BSIZE < z + n \<longleftrightarrow> NDIRECT * BSIZE < z + 1"
proof -
  have b: "BSIZE * f \<le> z" using assms(1) by (simp add: BSIZE_def)
  have e: "(z + k + BSIZE - 1) div BSIZE = f + 1" if "0 < k" "k \<le> n" for k
    using that b assms(3) by (intro div_nat_eqI) (simp_all add: BSIZE_def)
  show i: "NDIRECT * BSIZE < z + n \<longleftrightarrow> NDIRECT * BSIZE < z + 1"
    using b assms(2,3) by (cases "f < NDIRECT") (simp_all add: NDIRECT_def BSIZE_def)
  show "blocks (z + n) = blocks (z + 1)" using e [of n] e [of 1] assms(2) i by (simp add: blocks_def)
qed

text \<open>What \<open>xs\<close> appended to the file \<open>i\<close> makes of the image.\<close>

definition appended :: "uint set \<Rightarrow> (uint \<Rightarrow> uint list) \<Rightarrow> (uint \<Rightarrow> nat) \<Rightarrow> uint \<Rightarrow> uchar list \<Rightarrow> mkfs \<Rightarrow> uint list \<Rightarrow> mkfs \<Rightarrow> bool" where
  "appended I A Z i xs s A' s' \<longleftrightarrow> layout I (A(i := A')) (Z(i := Z i + length xs)) (bk s') (freeblock s') \<and>
     cont (bk s') A' (Z i + length xs) = cont (bk s) (A i) (Z i) @ xs \<and> (\<forall>j \<in> I. j \<noteq> i \<longrightarrow> cont (bk s') (A j) (Z j) = cont (bk s) (A j) (Z j)) \<and>
     unat (freeblock s') = unat (freeblock s) + (blocks (Z i + length xs) - blocks (Z i)) \<and> length (img s') = FSSIZE \<and>
     freeinode s' = freeinode s \<and> (\<forall>n. unat n < nmeta \<longrightarrow> bk s' n = bk s n)"

lemma appended_nil: "layout I A Z (bk s) (freeblock s) \<Longrightarrow> length (img s) = FSSIZE \<Longrightarrow> appended I A Z i [] s (A i) s"
  by (simp add: appended_def)

lemma appended_append:
  assumes "appended I A Z i xs s A1 s1" "appended I (A(i := A1)) (Z(i := Z i + length xs)) i ys s1 A2 s2"
  shows "appended I A Z i (xs @ ys) s A2 s2"
proof -
  have "blocks (Z i) \<le> blocks (Z i + length xs)" "blocks (Z i + length xs) \<le> blocks (Z i + length xs + length ys)" by (simp_all add: blocks_mono)
  then show ?thesis using assms by (simp add: appended_def add.assoc)
qed

lemma append_one:
  assumes "layout I A Z (bk s) (freeblock s)" "i \<in> I" "length (img s) = FSSIZE" "f = Z i div BSIZE" "f < MAXFILE" "ys \<noteq> []"
    "Z i + length ys \<le> BSIZE * (f + 1)" "unat (freeblock s) + (blocks (Z i + length ys) - blocks (Z i)) \<le> FSSIZE"
  obtains x A' s1 where "mk_bmap f (A i) s = Inr (x, A', s1)" "rsect x s1 = Inr (bk s1 x)"
    "appended I A Z i ys s A' (wsect x (put_bytes (bk s1 x) (Z i - f * BSIZE) ys) s1)"
proof -
  have ys: "0 < length ys" using assms(6) by simp
  note w = blocks_within [OF assms(4) ys assms(7)]
  obtain x A' s1 where x: "mk_bmap f (A i) s = Inr (x, A', s1)" and m: "mapped (bk s) (freeblock s) (A i) f x A' (bk s1) (freeblock s1)"
    and a: "A' ! NDIRECT \<noteq> 0 \<longleftrightarrow> NDIRECT * BSIZE < Z i + 1" and fb: "unat (freeblock s1) = unat (freeblock s) + (blocks (Z i + 1) - blocks (Z i))"
    and im: "length (img s1) = FSSIZE" "freeinode s1 = freeinode s" "\<forall>n. unat n < nmeta \<longrightarrow> bk s1 n = bk s n"
    using mk_bmap_ok [OF assms(1-5)] assms(8) unfolding w(1) bmap_effect_def by blast
  have z: "BSIZE * f \<le> Z i" using assms(4) by (simp add: BSIZE_def)
  have xr: "nmeta \<le> unat x \<and> unat x < unat (freeblock s1)"
  proof -
    note sh = file_shapeD(5) [OF layoutD(3) [OF assms(1,2)], of f] and M = mappedD [OF m]
    show ?thesis using sh M(2,6,7) layoutD(1) [OF assms(1)] assms(5) by (cases "nb (bk s) (A i) f = 0") (auto simp: bslot_def)
  qed
  then have xF: "unat x < FSSIZE" using mappedD(3) [OF m] by simp
  let ?d = "put_bytes (bk s1 x) (Z i - f * BSIZE) ys"
  have ld: "length ?d = BSIZE" using mappedD(13) [OF m xF] z assms(7) by (subst length_put_bytes) (simp_all add: BSIZE_def)
  have "\<And>n. unat n < nmeta \<Longrightarrow> (bk (wsect x ?d s1)) n = bk s n" using wsect_ok(1) [of x s1 ?d] xF im(1,3) xr by auto
  moreover note W = wsect_ok [of x s1 ?d, unfolded im(1), OF xF]
  moreover have "layout I (A(i := A')) (Z(i := Z i + length ys)) ((bk s1)(x := ?d)) (freeblock s1)"
    by (rule layout_step [OF assms(1,2) m assms(5) z _ assms(7) _ ld]) (use ys a w(2) in simp_all)
  moreover have "cont ((bk s1)(x := ?d)) A' (Z i + length ys) = cont (bk s) (A i) (Z i) @ ys"
    by (rule step_cont_self [OF assms(1,2) m assms(5) z assms(7) refl refl xF])
  moreover have "\<forall>j \<in> I. j \<noteq> i \<longrightarrow> cont ((bk s1)(x := ?d)) (A j) (Z j) = cont (bk s) (A j) (Z j)"
    using step_cont_other [OF assms(1,2) m assms(5)] by blast
  ultimately have "appended I A Z i ys s A' (wsect x ?d s1)" using fb w(1) im(2) by (simp add: appended_def)
  then show thesis using that [OF x] rsect_ok [of x s1] xF im(1) by simp
qed

lemma iappend_loop_ok:
  "layout I A Z (bk s) (freeblock s) \<Longrightarrow> i \<in> I \<Longrightarrow> length (img s) = FSSIZE \<Longrightarrow> Z i + length xs \<le> MAXFILE * BSIZE \<Longrightarrow>
   unat (freeblock s) + (blocks (Z i + length xs) - blocks (Z i)) \<le> FSSIZE \<Longrightarrow>
   \<exists>A' s'. iappend_loop (A i) (Z i) xs s = Inr (A', Z i + length xs, s') \<and> appended I A Z i xs s A' s'"
proof (induction "length xs" arbitrary: xs A Z s rule: less_induct)
  case less
  show ?case
  proof (cases "xs = []")
    case True
    then show ?thesis using appended_nil [OF less.prems(1,3)] by (simp add: iappend_loop.simps)
  next
    case False
    define f where "f = Z i div BSIZE"
    define n where "n = min (length xs) ((f + 1) * BSIZE - Z i)"
    define ys zs where "ys = take n xs" and "zs = drop n xs"
    have f: "f < MAXFILE" unfolding f_def using less.prems(4) False by (intro less_mult_imp_div_less) (cases xs; simp)
    have "Z i < (f + 1) * BSIZE" by (simp add: BSIZE_def f_def)
    then have n: "0 < n" "n \<le> length xs" "Z i + n \<le> BSIZE * (f + 1)" using False by (simp_all add: mult.commute n_def)
    have l: "length ys = n" "length zs = length xs - n" "ys \<noteq> []" "ys @ zs = xs" using n False by (auto simp: ys_def zs_def)
    have bm: "blocks (Z i + n) \<le> blocks (Z i + length xs)" "blocks (Z i) \<le> blocks (Z i + n)" using n(2) by (simp_all add: blocks_mono)
    have h: "Z i + length ys \<le> BSIZE * (f + 1)" "unat (freeblock s) + (blocks (Z i + length ys) - blocks (Z i)) \<le> FSSIZE"
      using n(3) less.prems(5) bm unfolding l(1) by linarith+
    obtain x A' s1 where x: "mk_bmap f (A i) s = Inr (x, A', s1)" "rsect x s1 = Inr (bk s1 x)"
      and a: "appended I A Z i ys s A' (wsect x (put_bytes (bk s1 x) (Z i - f * BSIZE) ys) s1)"
      by (rule append_one [OF less.prems(1-3) f_def f l(3) h])
    define t where "t = wsect x (put_bytes (bk s1 x) (Z i - f * BSIZE) ys) s1"
    have s: "layout I (A(i := A')) (Z(i := Z i + n)) (bk t) (freeblock t)" "length (img t) = FSSIZE"
      "unat (freeblock t) = unat (freeblock s) + (blocks (Z i + n) - blocks (Z i))" using a l(1) by (simp_all add: appended_def t_def)
    have zl: "length zs < length xs" "Z i + n + length zs = Z i + length xs" using n l(2) by simp_all
    have "unat (freeblock t) + (blocks (Z i + n + length zs) - blocks (Z i + n)) \<le> FSSIZE" unfolding zl(2) s(3) using less.prems(5) bm by linarith
    then obtain A2 s2 where i: "iappend_loop A' (Z i + n) zs t = Inr (A2, Z i + length xs, s2)"
      "appended I (A(i := A')) (Z(i := Z i + n)) i zs t A2 s2"
      using less.hyps [OF zl(1) s(1) less.prems(2) s(2)] zl(2) less.prems(4) by auto
    have "appended I A Z i (ys @ zs) s A2 s2" by (rule appended_append [OF a]) (use i(2) l(1) in \<open>simp add: t_def\<close>)
    moreover have "iappend_loop (A i) (Z i) xs s = iappend_loop A' (Z i + n) zs t"
      using False f x by (subst iappend_loop.simps) (simp add: Let_def f_def n_def ys_def zs_def t_def)
    moreover note i(1) l(4)
    ultimately show ?thesis by simp
  qed
qed

section \<open>Inodes of the image\<close>

definition ino :: "mkfs \<Rightarrow> uint \<Rightarrow> dinode" where
  "ino s i = get_dinode (bk s (IBLOCK i mksb)) (dip_off i)"

definition fsz :: "mkfs \<Rightarrow> uint \<Rightarrow> nat" where "fsz s i = unat (isize (ino s i))"

definition contents :: "mkfs \<Rightarrow> uint \<Rightarrow> uchar list" where
  "contents s i = cont (bk s) (addrs (ino s i)) (fsz s i)"

definition inos :: "mkfs \<Rightarrow> uint set" where
  "inos s = {i. i \<noteq> 0 \<and> i < freeinode s}"

lemma iblock:
  assumes "unat i < NINODES"
  shows "unat (IBLOCK i mksb) = unat i div 8 + 32" "unat (IBLOCK i mksb) < nmeta" "unat (IBLOCK i mksb) < FSSIZE"
proof -
  have s: "sb_inodestart mksb = 32" by (simp add: mksb_def nlog_def LOGSIZE_def)
  have d: "unat (i div 8) = unat i div 8" by (simp add: unat_div)
  have n: "unat i div 8 < 25" using assms by (simp add: NINODES_def)
  then show e: "unat (IBLOCK i mksb) = unat i div 8 + 32"
    using d unat_add_small [of "i div 8" 32] by (simp add: IBLOCK_def IPB_def s)
  show "unat (IBLOCK i mksb) < nmeta" "unat (IBLOCK i mksb) < FSSIZE" using e n nmeta_val by (simp_all add: FSSIZE_def)
qed

lemma dip_off_apart:
  assumes "unat i < NINODES" "unat j < NINODES" "IBLOCK i mksb = IBLOCK j mksb" "i \<noteq> j"
  shows "dip_off j + 64 \<le> dip_off i \<or> dip_off i + 64 \<le> dip_off j"
proof -
  have "unat i div 8 = unat j div 8" using iblock(1) [OF assms(1)] iblock(1) [OF assms(2)] assms(3) by simp
  moreover have "unat i \<noteq> unat j" using assms(4) by (simp add: word_unat_eq_iff)
  ultimately have "unat i mod 8 \<noteq> unat j mod 8" by (metis div_mult_mod_eq)
  then show ?thesis by (auto simp: dip_off_def IPB_def)
qed

lemma winode_ok:
  assumes "unat i < NINODES" "length (addrs d) = 13" "length (img s) = FSSIZE" "length (bk s (IBLOCK i mksb)) = BSIZE"
  obtains s' where "winode i d s = Inr s'" "bk s' = (bk s)(IBLOCK i mksb := put_dinode (bk s (IBLOCK i mksb)) (dip_off i) d)"
    "length (img s') = FSSIZE" "freeblock s' = freeblock s" "freeinode s' = freeinode s" "ino s' i = d"
    "\<forall>j. unat j < NINODES \<longrightarrow> j \<noteq> i \<longrightarrow> ino s' j = ino s j"
proof -
  let ?n = "IBLOCK i mksb"
  let ?b = "put_dinode (bk s ?n) (dip_off i) d"
  have l: "unat ?n < length (img s)" using iblock(3) [OF assms(1)] assms(3) by simp
  note w = wsect_ok [OF l, of ?b]
  have o: "dip_off k + 64 \<le> 512" for k by (simp add: dip_off_def IPB_def)
  have "winode i d s = Inr (wsect ?n ?b s)" using rsect_ok [OF l] by (simp add: winode_def Let_def)
  moreover have "ino (wsect ?n ?b s) i = d" unfolding ino_def w(1) using get_put_dinode [of d "dip_off i" "bk s ?n"] o assms(2,4) by (simp add: BSIZE_def)
  moreover have "ino (wsect ?n ?b s) j = ino s j" if "unat j < NINODES" "j \<noteq> i" for j
  proof (cases "IBLOCK j mksb = ?n")
    case True
    have "get_dinode ?b (dip_off j) = get_dinode (bk s ?n) (dip_off j)"
      by (rule get_dinode_cong) (use dip_off_apart [OF assms(1) that(1) True [symmetric] that(2) [symmetric]] assms(2) in \<open>auto intro!: put_dinode_nth\<close>)
    then show ?thesis using True by (simp add: ino_def w(1))
  qed (simp add: ino_def w(1))
  ultimately show thesis using that [of "wsect ?n ?b s"] w assms(3) by simp
qed

lemma layout_cong:
  assumes "layout I A Z B fb" "\<And>i. i \<in> I \<Longrightarrow> A' i = A i \<and> Z' i = Z i" "\<And>n. nmeta \<le> unat n \<Longrightarrow> B' n = B n"
    "\<And>n. unat n < FSSIZE \<Longrightarrow> length (B' n) = BSIZE"
  shows "layout I A' Z' B' fb" "\<And>i. i \<in> I \<Longrightarrow> cont B' (A' i) (Z' i) = cont B (A i) (Z i)"
proof -
  note L = layoutD [OF assms(1)]
  have ind: "A i ! NDIRECT = 0 \<or> B' (A i ! NDIRECT) = B (A i ! NDIRECT)" if "i \<in> I" for i
    using file_shapeD(5) [OF L(3) [OF that], of MAXFILE] assms(3) by (auto simp: bslot_def)
  have e: "bslot B' (A i) k = bslot B (A i) k" "nb B' (A i) k = nb B (A i) k" if "i \<in> I" for i k
    using slot_same [of "A i" B' B] nb_same [of "A i" B' B] ind [OF that] by blast+
  have "file_shape B' fb (A' i) (Z' i)" if "i \<in> I" for i using L(3) [OF that] assms(2) [OF that] by (simp add: file_shape_def e [OF that])
  then show "layout I A' Z' B' fb" unfolding layout_def using L assms by (simp add: e)
  show "cont B' (A' i) (Z' i) = cont B (A i) (Z i)" if "i \<in> I" for i
  proof -
    have "byte B' (A i) p = byte B (A i) p" if p: "p < Z i" for p
    proof -
      note n = nb_in_file [OF L(3) [OF \<open>i \<in> I\<close>] p]
      have "nmeta \<le> unat (nb B (A i) (p div BSIZE))"
        using file_shapeD(5) [OF L(3) [OF \<open>i \<in> I\<close>], of "p div BSIZE"] n by (simp add: bslot_def)
      then show ?thesis using assms(3) by (simp add: byte_def e(2) [OF \<open>i \<in> I\<close>])
    qed
    then show ?thesis using assms(2) [OF that] by (simp add: cont_def)
  qed
qed

text \<open>The image while it is built: the free map is not written yet, and the log is empty.\<close>

definition mk_ok :: "mkfs \<Rightarrow> bool" where
  "mk_ok s \<longleftrightarrow> length (img s) = FSSIZE \<and> unat (freeinode s) \<le> NINODES \<and>
     layout (inos s) (\<lambda>i. addrs (ino s i)) (fsz s) (bk s) (freeblock s) \<and> bk s 1 = sb_block \<and> bk s 2 = zero_block"

lemma mk_okD:
  assumes "mk_ok s"
  shows "length (img s) = FSSIZE" "unat (freeinode s) \<le> NINODES" "layout (inos s) (\<lambda>i. addrs (ino s i)) (fsz s) (bk s) (freeblock s)"
    "bk s 1 = sb_block" "bk s 2 = zero_block" "\<And>i. i \<in> inos s \<Longrightarrow> unat i < NINODES"
    "\<And>n. unat n < FSSIZE \<Longrightarrow> length (bk s n) = BSIZE" "unat (freeblock s) \<le> FSSIZE"
  using assms layoutD(2,6) by (auto simp: mk_ok_def inos_def word_less_nat_alt)

lemma small_block: "unat (n :: uint) < 32 \<Longrightarrow> unat i < NINODES \<Longrightarrow> n \<noteq> IBLOCK i mksb"
  using iblock(1) [of i] by auto

text \<open>Everything but the inode \<open>i\<close> and its blocks.\<close>

definition others_same :: "uint \<Rightarrow> mkfs \<Rightarrow> mkfs \<Rightarrow> bool" where
  "others_same i s s' \<longleftrightarrow> (\<forall>j. unat j < NINODES \<longrightarrow> j \<noteq> i \<longrightarrow> ino s' j = ino s j) \<and>
     (\<forall>j \<in> inos s. j \<noteq> i \<longrightarrow> contents s' j = contents s j)"

lemma iappend_ok:
  assumes "mk_ok s" "i \<in> inos s" "fsz s i + length xs \<le> MAXFILE * BSIZE"
    "unat (freeblock s) + (blocks (fsz s i + length xs) - blocks (fsz s i)) \<le> FSSIZE"
  obtains s' where "iappend i xs s = Inr s'" "mk_ok s'" "freeinode s' = freeinode s" "contents s' i = contents s i @ xs"
    "fsz s' i = fsz s i + length xs" "itype (ino s' i) = itype (ino s i)" "nlink (ino s' i) = nlink (ino s i)" "others_same i s s'"
    "unat (freeblock s') = unat (freeblock s) + (blocks (fsz s i + length xs) - blocks (fsz s i))"
proof -
  note k = mk_okD [OF assms(1)]
  let ?A = "\<lambda>i. addrs (ino s i)" and ?I = "inos s" and ?z = "fsz s i + length xs"
  have i: "unat i < NINODES" using k(6) [OF assms(2)] .
  obtain A' s1 where l: "iappend_loop (?A i) (fsz s i) xs s = Inr (A', ?z, s1)" and a: "appended ?I ?A (fsz s) i xs s A' s1"
    using iappend_loop_ok [OF k(3) assms(2) k(1) assms(3,4)] by blast
  have a: "layout ?I (?A(i := A')) ((fsz s)(i := ?z)) (bk s1) (freeblock s1)" "cont (bk s1) A' ?z = contents s i @ xs"
    "\<And>j. j \<in> ?I \<Longrightarrow> j \<noteq> i \<Longrightarrow> cont (bk s1) (?A j) (fsz s j) = contents s j"
    "unat (freeblock s1) = unat (freeblock s) + (blocks ?z - blocks (fsz s i))" "length (img s1) = FSSIZE" "freeinode s1 = freeinode s"
    "\<And>n. unat n < nmeta \<Longrightarrow> bk s1 n = bk s n" using a unfolding appended_def contents_def by blast+
  let ?d = "(ino s i)\<lparr>addrs := A', isize := of_nat ?z\<rparr>"
  have wl: "length (addrs ?d) = 13" "length (bk s1 (IBLOCK i mksb)) = BSIZE"
    using file_shapeD(1) [OF layoutD(3) [OF a(1) assms(2)]] layoutD(6) [OF a(1) iblock(3) [OF i]] by simp_all
  obtain s' where w: "winode i ?d s1 = Inr s'" "bk s' = (bk s1)(IBLOCK i mksb := put_dinode (bk s1 (IBLOCK i mksb)) (dip_off i) ?d)"
    "length (img s') = FSSIZE" "freeblock s' = freeblock s1" "freeinode s' = freeinode s1" "ino s' i = ?d"
    "\<forall>j. unat j < NINODES \<longrightarrow> j \<noteq> i \<longrightarrow> ino s' j = ino s1 j"
    by (rule winode_ok [OF i wl(1) a(5) wl(2)])
  have ino1: "ino s1 j = ino s j" if "unat j < NINODES" for j using a(7) [of "IBLOCK j mksb"] iblock(2) [OF that] by (simp add: ino_def)
  have r: "rinode i s = Inr (ino s i)" using rsect_ok [of "IBLOCK i mksb" s] iblock(3) [OF i] k(1) by (simp add: rinode_def ino_def)
  then have e: "iappend i xs s = Inr s'" using l w(1) by (simp add: iappend_def fsz_def)
  have "?z < 2 ^ 32" using assms(3) by (simp add: fs_consts)
  then have z: "fsz s' i = ?z" using w(6) unat_of_nat_small [of ?z] by (simp add: fsz_def)
  have I: "inos s' = ?I" using w(5) a(6) by (simp add: inos_def)
  have AZ: "addrs (ino s' j) = (?A(i := A')) j \<and> fsz s' j = ((fsz s)(i := ?z)) j" if "j \<in> ?I" for j
    using w(6) w(7) k(6) [OF that] ino1 [OF k(6) [OF that]] z by (cases "j = i") (simp_all add: fsz_def)
  have bb: "bk s' n = bk s1 n" if "nmeta \<le> unat n" for n using w(2) iblock(2) [OF i] that by auto
  have bl: "length (bk s' n) = BSIZE" if "unat n < FSSIZE" for n using w(2) layoutD(6) [OF a(1)] that iblock(3) [OF i] by simp
  have c: "layout ?I (\<lambda>j. addrs (ino s' j)) (fsz s') (bk s') (freeblock s1)"
    "\<And>j. j \<in> ?I \<Longrightarrow> contents s' j = cont (bk s1) ((?A(i := A')) j) (((fsz s)(i := ?z)) j)"
    using layout_cong [OF a(1), of "\<lambda>j. addrs (ino s' j)" "fsz s'" "bk s'"] AZ bb bl unfolding contents_def by blast+
  have low: "bk s' n = bk s n" if "unat n < 32" for n using w(2) a(7) [of n] small_block [OF that i] that nmeta_val by simp
  have "mk_ok s'" unfolding mk_ok_def using c(1) I w(3-5) a(6) k(2,4,5) low [of 1] low [of 2] by simp
  moreover have "contents s' i = contents s i @ xs" using c(2) [OF assms(2)] a(2) by simp
  moreover have "others_same i s s'" unfolding others_same_def using c(2) a(3) w(7) ino1 by simp
  ultimately show thesis using that [OF e] z w(4-6) a(4,6) by simp
qed

lemma layout_insert:
  assumes "layout I A Z B fb" "i \<notin> I" "A i = replicate 13 0" "Z i = 0"
  shows "layout (insert i I) A Z B fb"
proof -
  have n: "nb B (A i) k = 0" "bslot B (A i) k = 0" if "k \<le> MAXFILE" for k
    using assms(3) by (simp_all add: nb_def bslot_def fs_consts)
  have "file_shape B fb (A i) (Z i)" using assms(3,4) n by (simp add: file_shape_def fs_consts)
  then show ?thesis using assms(1) n unfolding layout_def by auto
qed

lemma mk_ialloc_ok:
  assumes "mk_ok s" "unat (freeinode s) < NINODES" "freeinode s \<noteq> 0"
  obtains s' where "mk_ialloc t s = Inr (freeinode s, s')" "mk_ok s'" "freeinode s' = freeinode s + 1" "freeblock s' = freeblock s"
    "contents s' (freeinode s) = []" "fsz s' (freeinode s) = 0" "itype (ino s' (freeinode s)) = t" "nlink (ino s' (freeinode s)) = 1"
    "others_same (freeinode s) s s'" "inos s' = insert (freeinode s) (inos s)"
proof -
  note k = mk_okD [OF assms(1)]
  let ?i = "freeinode s" and ?d = "\<lparr>itype = t, major = 0, minor = 0, nlink = 1, isize = 0, addrs = replicate (NDIRECT + 1) 0\<rparr>"
  have ni: "?i \<notin> inos s" by (simp add: inos_def)
  obtain s' where w: "winode ?i ?d (s\<lparr>freeinode := ?i + 1\<rparr>) = Inr s'"
    "bk s' = (bk s)(IBLOCK ?i mksb := put_dinode (bk s (IBLOCK ?i mksb)) (dip_off ?i) ?d)"
    "length (img s') = FSSIZE" "freeblock s' = freeblock s" "freeinode s' = ?i + 1" "ino s' ?i = ?d"
    "\<forall>j. unat j < NINODES \<longrightarrow> j \<noteq> ?i \<longrightarrow> ino s' j = ino (s\<lparr>freeinode := ?i + 1\<rparr>) j"
    by (rule winode_ok [of ?i ?d "s\<lparr>freeinode := ?i + 1\<rparr>"])
      (use assms(2) k(1) k(7) iblock(3) [OF assms(2)] in \<open>simp_all add: NDIRECT_def\<close>)
  have io: "ino s' j = ino s j" if "unat j < NINODES" "j \<noteq> ?i" for j using w(7) that by (simp add: ino_def)
  have u: "unat (?i + 1) = unat ?i + 1" using unat_add_small [of ?i 1] assms(2) by (simp add: NINODES_def)
  have I: "inos s' = insert ?i (inos s)" using w(5) u assms(3) by (auto simp: inos_def word_less_nat_alt word_unat_eq_iff)
  have AZ: "addrs (ino s' j) = addrs (ino s j) \<and> fsz s' j = fsz s j" if "j \<in> inos s" for j
  proof -
    have "j \<noteq> ?i" using that ni by blast
    then show ?thesis using io [OF k(6) [OF that]] by (simp add: fsz_def)
  qed
  have bb: "bk s' n = bk s n" if "nmeta \<le> unat n" for n using w(2) iblock(2) [OF assms(2)] that by auto
  have bl: "length (bk s' n) = BSIZE" if "unat n < FSSIZE" for n using w(2) k(7) that iblock(3) [OF assms(2)] by simp
  have c: "layout (inos s) (\<lambda>j. addrs (ino s' j)) (fsz s') (bk s') (freeblock s)" "\<And>j. j \<in> inos s \<Longrightarrow> contents s' j = contents s j"
    using layout_cong [OF k(3), of "\<lambda>j. addrs (ino s' j)" "fsz s'" "bk s'"] AZ bb bl unfolding contents_def by blast+
  have "layout (inos s') (\<lambda>i. addrs (ino s' i)) (fsz s') (bk s') (freeblock s')" unfolding I w(4)
    by (rule layout_insert [OF c(1) ni]) (simp_all add: w(6) fsz_def NDIRECT_def)
  moreover have low: "bk s' n = bk s n" if "unat n < 32" for n using w(2) small_block [OF that assms(2)] by simp
  ultimately have "mk_ok s'" unfolding mk_ok_def using w(3,5) u assms(2) k(4,5) low [of 1] low [of 2] by simp
  moreover have "others_same ?i s s'" unfolding others_same_def using c(2) io by simp
  moreover have "mk_ialloc t s = Inr (?i, s')" using w(1) by (simp add: mk_ialloc_def Let_def)
  ultimately show thesis using that [of s'] w(4-6) I by (simp add: contents_def fsz_def cont_def)
qed

section \<open>Adding files\<close>

definition grows :: "uint \<Rightarrow> uchar list \<Rightarrow> mkfs \<Rightarrow> mkfs \<Rightarrow> bool" where
  "grows i xs s s' \<longleftrightarrow> mk_ok s' \<and> freeinode s' = freeinode s \<and> contents s' i = contents s i @ xs \<and> fsz s' i = fsz s i + length xs \<and>
     itype (ino s' i) = itype (ino s i) \<and> nlink (ino s' i) = nlink (ino s i) \<and> others_same i s s' \<and>
     unat (freeblock s') = unat (freeblock s) + (blocks (fsz s i + length xs) - blocks (fsz s i))"

lemma grows_trans:
  assumes "grows i xs s t" "grows i ys t u"
  shows "grows i (xs @ ys) s u"
proof -
  have "blocks (fsz s i) \<le> blocks (fsz s i + length xs)" "blocks (fsz s i + length xs) \<le> blocks (fsz s i + length xs + length ys)"
    by (simp_all add: blocks_mono)
  moreover have "inos t = inos s" using assms(1) by (simp add: grows_def inos_def)
  ultimately show ?thesis using assms by (simp add: grows_def others_same_def add.assoc)
qed

lemma grows_nil: "mk_ok s \<Longrightarrow> grows i [] s s"
  by (simp add: grows_def others_same_def)

lemma iappend_grows:
  assumes "mk_ok s" "i \<in> inos s" "fsz s i + length xs \<le> MAXFILE * BSIZE"
    "unat (freeblock s) + (blocks (fsz s i + length xs) - blocks (fsz s i)) \<le> FSSIZE"
  obtains s' where "iappend i xs s = Inr s'" "grows i xs s s'"
  by (rule iappend_ok [OF assms]) (simp add: grows_def)

definition file_bytes :: "uchar list list \<Rightarrow> uchar list" where
  "file_bytes cs = concat (takeWhile (\<lambda>c. c \<noteq> []) cs)"

lemma append_chunks_ok:
  "mk_ok s \<Longrightarrow> i \<in> inos s \<Longrightarrow> fsz s i + length (file_bytes cs) \<le> MAXFILE * BSIZE \<Longrightarrow>
   unat (freeblock s) + (blocks (fsz s i + length (file_bytes cs)) - blocks (fsz s i)) \<le> FSSIZE \<Longrightarrow>
   \<exists>s'. append_chunks i cs s = Inr s' \<and> grows i (file_bytes cs) s s'"
proof (induction cs arbitrary: s)
  case Nil
  then show ?case using grows_nil by (simp add: file_bytes_def)
next
  case (Cons c cs)
  show ?case
  proof (cases "c = []")
    case True
    then show ?thesis using grows_nil [OF Cons.prems(1)] by (simp add: file_bytes_def)
  next
    case False
    then have f: "file_bytes (c # cs) = c @ file_bytes cs" by (simp add: file_bytes_def)
    have b: "blocks (fsz s i) \<le> blocks (fsz s i + length c)" "blocks (fsz s i + length c) \<le> blocks (fsz s i + length c + length (file_bytes cs))"
      by (simp_all add: blocks_mono)
    have h: "fsz s i + length c \<le> MAXFILE * BSIZE" "unat (freeblock s) + (blocks (fsz s i + length c) - blocks (fsz s i)) \<le> FSSIZE"
      using Cons.prems(3,4) b unfolding f by (simp_all add: add.assoc)
    obtain t where t: "iappend i c s = Inr t" "grows i c s t" by (rule iappend_grows [OF Cons.prems(1,2) h])
    then have g: "mk_ok t" "i \<in> inos t" "fsz t i = fsz s i + length c" "unat (freeblock t) = unat (freeblock s) + (blocks (fsz s i + length c) - blocks (fsz s i))"
      using Cons.prems(2) by (simp_all add: grows_def inos_def)
    have "\<exists>s'. append_chunks i cs t = Inr s' \<and> grows i (file_bytes cs) t s'"
      by (rule Cons.IH [OF g(1,2)]) (use Cons.prems(3,4) f g(3,4) b in \<open>simp_all add: add.assoc\<close>)
    then show ?thesis using False t grows_trans [OF t(2)] f by auto
  qed
qed

fun entries :: "uint \<Rightarrow> (uchar list \<times> uchar list list option) list \<Rightarrow> uchar list" where
  "entries i [] = []"
| "entries i ((name, f) # fs) = dirent (strip_name name) (ucast i) @ entries (i + 1) fs"

fun bytes_of :: "uchar list \<times> uchar list list option \<Rightarrow> uchar list" where
  "bytes_of (name, None) = []"
| "bytes_of (name, Some cs) = file_bytes cs"

definition good_file :: "uchar list \<times> uchar list list option \<Rightarrow> bool" where
  "good_file f \<longleftrightarrow> slash \<notin> set (fst f) \<and> snd f \<noteq> None \<and> length (bytes_of f) \<le> MAXFILE * BSIZE"

declare DESIZE_def [simp]

lemma length_entries [simp]: "length (entries i fs) = 16 * length fs"
  by (induction i fs rule: entries.induct) simp_all

text \<open>What a list of files adds to the image: their inodes in order, and their entries in the root directory.\<close>

definition added :: "(uchar list \<times> uchar list list option) list \<Rightarrow> mkfs \<Rightarrow> mkfs \<Rightarrow> bool" where
  "added fs s s' \<longleftrightarrow> mk_ok s' \<and> unat (freeinode s') = unat (freeinode s) + length fs \<and> contents s' 1 = contents s 1 @ entries (freeinode s) fs \<and>
     fsz s' 1 = fsz s 1 + 16 * length fs \<and> itype (ino s' 1) = itype (ino s 1) \<and>
     (\<forall>j \<in> inos s. j \<noteq> 1 \<longrightarrow> ino s' j = ino s j \<and> contents s' j = contents s j) \<and>
     (\<forall>k < length fs. let i = freeinode s + of_nat k in itype (ino s' i) = T_FILE \<and> nlink (ino s' i) = 1 \<and> contents s' i = bytes_of (fs ! k)) \<and>
     unat (freeblock s') = unat (freeblock s) + (blocks (fsz s 1 + 16 * length fs) - blocks (fsz s 1)) + (\<Sum>f \<leftarrow> fs. blocks (length (bytes_of f)))"

lemma add_one_file:
  assumes "mk_ok s" "1 \<in> inos s" "good_file (name, Some cs)" "unat (freeinode s) < NINODES" "fsz s 1 + 16 \<le> MAXFILE * BSIZE"
    "unat (freeblock s) + (blocks (fsz s 1 + 16) - blocks (fsz s 1)) + blocks (length (file_bytes cs)) \<le> FSSIZE"
  obtains s1 s2 s3 where "mk_ialloc T_FILE s = Inr (freeinode s, s1)" "iappend 1 (dirent (strip_name name) (ucast (freeinode s))) s1 = Inr s2"
    "append_chunks (freeinode s) cs s2 = Inr s3" "added [(name, Some cs)] s s3"
proof -
  let ?i = "freeinode s" and ?e = "dirent (strip_name name) (ucast (freeinode s))" and ?b = "file_bytes cs"
  have i: "?i \<noteq> 0" "?i \<noteq> 1" using assms(2) by (auto simp: inos_def)
  obtain s1 where s1: "mk_ialloc T_FILE s = Inr (?i, s1)" "mk_ok s1" "freeinode s1 = ?i + 1" "freeblock s1 = freeblock s"
    "contents s1 ?i = []" "fsz s1 ?i = 0" "itype (ino s1 ?i) = T_FILE" "nlink (ino s1 ?i) = 1" "others_same ?i s s1" "inos s1 = insert ?i (inos s)"
    by (rule mk_ialloc_ok [OF assms(1,4) i(1)])
  have o: "unat (1 :: uint) < NINODES" by (simp add: NINODES_def)
  have r1: "ino s1 1 = ino s 1" "fsz s1 1 = fsz s 1" "contents s1 1 = contents s 1" using s1(9) i(2) assms(2) o by (simp_all add: others_same_def fsz_def)
  obtain s2 where s2: "iappend 1 ?e s1 = Inr s2" "grows 1 ?e s1 s2"
    by (rule iappend_grows [OF s1(2), of 1 ?e]) (use assms(2,5,6) r1(2) s1(4,10) in simp_all)
  then have g2: "mk_ok s2" "freeinode s2 = ?i + 1" "contents s2 1 = contents s 1 @ ?e" "fsz s2 1 = fsz s 1 + 16" "itype (ino s2 1) = itype (ino s 1)" "others_same 1 s1 s2"
    "unat (freeblock s2) = unat (freeblock s) + (blocks (fsz s 1 + 16) - blocks (fsz s 1))" using r1 s1(3,4) by (simp_all add: grows_def)
  have in2: "inos s2 = insert ?i (inos s)" using g2(2) s1(3,10) by (simp add: inos_def)
  have r2: "ino s2 ?i = ino s1 ?i" "fsz s2 ?i = 0" "contents s2 ?i = []" using g2(6) i(2) s1(5,6,10) assms(4) by (simp_all add: others_same_def fsz_def)
  have "fsz s2 ?i + length ?b \<le> MAXFILE * BSIZE" "unat (freeblock s2) + (blocks (fsz s2 ?i + length ?b) - blocks (fsz s2 ?i)) \<le> FSSIZE"
    using assms(3,6) r2(2) g2(7) by (simp_all add: good_file_def)
  then obtain s3 where s3: "append_chunks ?i cs s2 = Inr s3" "grows ?i ?b s2 s3"
    using append_chunks_ok [OF g2(1), of ?i cs] in2 by blast
  then have g3: "mk_ok s3" "freeinode s3 = ?i + 1" "contents s3 ?i = ?b" "itype (ino s3 ?i) = T_FILE" "nlink (ino s3 ?i) = 1" "others_same ?i s2 s3"
    "unat (freeblock s3) = unat (freeblock s2) + (blocks (length ?b) - blocks 0)" using r2 g2(2) s1(7,8) by (simp_all add: grows_def)
  have keep: "ino s3 j = ino s j \<and> contents s3 j = contents s j" if "j \<in> inos s" "j \<noteq> 1" for j
  proof -
    have "j \<noteq> ?i" "unat j < NINODES" using that(1) mk_okD(6) [OF assms(1) that(1)] by (auto simp: inos_def)
    then show ?thesis using that s1(9,10) g2(6) g3(6) in2 by (simp add: others_same_def)
  qed
  have r3: "ino s3 1 = ino s2 1" "fsz s3 1 = fsz s2 1" "contents s3 1 = contents s2 1" using g3(6) i(2) in2 assms(2) o by (simp_all add: others_same_def fsz_def)
  have u: "unat (?i + 1) = unat ?i + 1" using unat_add_small [of ?i 1] assms(4) by (simp add: NINODES_def)
  have "blocks 0 = 0" by (simp add: blocks_def BSIZE_def)
  then have "added [(name, Some cs)] s s3"
    using g2 g3 r3 keep u by (simp add: added_def)
  then show thesis by (rule that [OF s1(1) s2(1) s3(1)])
qed

lemma added_cons:
  assumes "added [f] s t" "added fs t u" "1 \<in> inos s" "unat (freeinode s) < NINODES"
  shows "added (f # fs) s u"
proof -
  let ?i = "freeinode s"
  have i: "?i \<noteq> 0" "?i \<noteq> 1" using assms(3) by (auto simp: inos_def)
  have u: "unat (?i + 1) = unat ?i + 1" using unat_add_small [of ?i 1] assms(4) by (simp add: NINODES_def)
  have t: "freeinode t = ?i + 1" using assms(1) u by (simp add: added_def word_unat_eq_iff)
  have it: "?i \<in> inos t" "\<And>j. j \<in> inos s \<Longrightarrow> j \<in> inos t" using t u i by (auto simp: inos_def word_less_nat_alt)
  have new: "itype (ino u (?i + of_nat k)) = T_FILE \<and> nlink (ino u (?i + of_nat k)) = 1 \<and> contents u (?i + of_nat k) = bytes_of ((f # fs) ! k)"
    if "k < length (f # fs)" for k
  proof (cases k)
    case 0
    then show ?thesis using assms(1,2) it(1) i(2) by (simp add: added_def Let_def)
  next
    case (Suc n)
    have e: "?i + of_nat k = freeinode t + of_nat n" using t Suc by simp
    have "\<forall>k < length fs. itype (ino u (freeinode t + of_nat k)) = T_FILE \<and> nlink (ino u (freeinode t + of_nat k)) = 1 \<and>
      contents u (freeinode t + of_nat k) = bytes_of (fs ! k)" using assms(2) unfolding added_def Let_def by blast
    then show ?thesis unfolding e using Suc that by simp
  qed
  have keep: "ino u j = ino s j \<and> contents u j = contents s j" if "j \<in> inos s" "j \<noteq> 1" for j
    using assms(1,2) that it(2) [OF that(1)] by (simp add: added_def)
  have b: "blocks (fsz s 1) \<le> blocks (fsz s 1 + 16)" "blocks (fsz s 1 + 16) \<le> blocks (fsz s 1 + 16 + 16 * length fs)" by (simp_all add: blocks_mono)
  have e: "entries ?i (f # fs) = entries ?i [f] @ entries (freeinode t) fs" using t by (cases f) simp
  show ?thesis unfolding added_def e using assms(1,2) new keep b unfolding added_def Let_def by (simp add: algebra_simps)
qed

lemma add_files_ok:
  "mk_ok s \<Longrightarrow> 1 \<in> inos s \<Longrightarrow> \<forall>f \<in> set fs. good_file f \<Longrightarrow> unat (freeinode s) + length fs \<le> NINODES \<Longrightarrow> fsz s 1 + 16 * length fs \<le> MAXFILE * BSIZE \<Longrightarrow>
   unat (freeblock s) + (blocks (fsz s 1 + 16 * length fs) - blocks (fsz s 1)) + (\<Sum>f \<leftarrow> fs. blocks (length (bytes_of f))) \<le> FSSIZE \<Longrightarrow>
   \<exists>s'. add_files 1 fs s = Inr s' \<and> added fs s s'"
proof (induction fs arbitrary: s)
  case Nil
  then show ?case by (simp add: added_def)
next
  case (Cons f fs)
  obtain name cs where f: "f = (name, Some cs)" using Cons.prems(3) by (cases f) (auto simp: good_file_def)
  have b: "blocks (fsz s 1) \<le> blocks (fsz s 1 + 16)" "blocks (fsz s 1 + 16) \<le> blocks (fsz s 1 + 16 * length (f # fs))" by (simp_all add: blocks_mono)
  have h: "good_file (name, Some cs)" "unat (freeinode s) < NINODES" "fsz s 1 + 16 \<le> MAXFILE * BSIZE"
    "unat (freeblock s) + (blocks (fsz s 1 + 16) - blocks (fsz s 1)) + blocks (length (file_bytes cs)) \<le> FSSIZE"
    using Cons.prems(3-6) f b by simp_all
  obtain s1 s2 t where t: "mk_ialloc T_FILE s = Inr (freeinode s, s1)" "iappend 1 (dirent (strip_name name) (ucast (freeinode s))) s1 = Inr s2"
    "append_chunks (freeinode s) cs s2 = Inr t" "added [(name, Some cs)] s t"
    by (rule add_one_file [OF Cons.prems(1,2) h])
  then have a: "added [f] s t" "mk_ok t" "unat (freeinode t) = unat (freeinode s) + 1" "fsz t 1 = fsz s 1 + 16"
    "unat (freeblock t) = unat (freeblock s) + (blocks (fsz s 1 + 16) - blocks (fsz s 1)) + blocks (length (bytes_of f))"
    using f by (simp_all add: added_def)
  have in1: "1 \<in> inos t" using Cons.prems(2) a(3) by (simp add: inos_def word_less_nat_alt)
  have "\<exists>s'. add_files 1 fs t = Inr s' \<and> added fs t s'"
    by (rule Cons.IH [OF a(2) in1]) (use Cons.prems(3-6) a(3-5) b in \<open>simp_all add: algebra_simps\<close>)
  then obtain u where "add_files 1 fs t = Inr u" "added fs t u" by blast
  moreover have "add_files 1 (f # fs) s = add_files 1 fs t"
    using f t(1-3) h(1) by (simp add: good_file_def)
  ultimately show ?case using added_cons [OF a(1) _ Cons.prems(2) h(2)] by auto
qed

section \<open>The whole image\<close>

lemma mk_empty_img: "img mk_empty = replicate FSSIZE zero_block" "freeinode mk_empty = 1" "freeblock mk_empty = of_nat nmeta"
proof -
  let ?s = "\<lparr>img = [], freeinode = 1, freeblock = of_nat nmeta\<rparr>"
  have "fold (\<lambda>i s. wsect (of_nat i) zero_block s) [0..<n] ?s = ?s\<lparr>img := replicate n zero_block\<rparr>" if "n \<le> 1000" for n
    using that
  proof (induction n)
    case (Suc n)
    have "unat (of_nat n :: uint) = n" using Suc.prems by (intro unat_of_nat_small) simp
    then show ?case using Suc by (simp add: wsect_def Let_def replicate_append_same [symmetric])
  qed simp
  from this [of FSSIZE] show "img mk_empty = replicate FSSIZE zero_block" "freeinode mk_empty = 1" "freeblock mk_empty = of_nat nmeta"
    by (simp_all add: mk_empty_def FSSIZE_def)
qed

lemma start_ok:
  shows "mk_ok (wsect 1 sb_block mk_empty)" "freeinode (wsect 1 sb_block mk_empty) = 1" "freeblock (wsect 1 sb_block mk_empty) = of_nat nmeta"
proof -
  let ?s = "wsect 1 sb_block mk_empty"
  have l: "unat (1 :: uint) < length (img mk_empty)" by (simp add: mk_empty_img FSSIZE_def)
  note w = wsect_ok [OF l, of sb_block]
  have b: "bk mk_empty n = zero_block" if "unat n < FSSIZE" for n using that by (simp add: bk_def mk_empty_img)
  have lb: "length sb_block = 512" by (simp add: sb_block_def)
  have n: "unat (of_nat nmeta :: uint) = 59" by (simp add: nmeta_val)
  show f: "freeinode ?s = 1" "freeblock ?s = of_nat nmeta" using w(3,4) mk_empty_img by simp_all
  have "inos ?s = {}" using f by (auto simp: inos_def word_less_nat_alt unat_eq_zero)
  moreover have "layout {} A Z (bk ?s) (of_nat nmeta)" for A Z
    unfolding layout_def w(1) n using b lb by (auto simp: nmeta_val FSSIZE_def BSIZE_def)
  ultimately show "mk_ok ?s" unfolding mk_ok_def using w f b [of 2] by (simp add: mk_empty_img NINODES_def FSSIZE_def)
qed

lemma map_block:
  assumes "u \<le> 4096" "c < 4096"
  shows "map_free c (fold map_set [0..<u] zero_block) \<longleftrightarrow> u \<le> c"
  using assms(1)
proof (induction u)
  case 0
  have "zero_block ! (c div 8) = 0" using assms(2) by (simp add: zero_block_def)
  then show ?case by (simp add: map_free_def)
next
  case (Suc u)
  have l: "length (fold map_set [0..<n] zero_block) = 512" for n by (induction n) simp_all
  have "u div 8 < 512" using Suc.prems by simp
  then show ?case using Suc map_free_set [of u "fold map_set [0..<u] zero_block" c] l by auto
qed

lemma bmap_start: "unat (sb_bmapstart mksb) = 58" "sb_bmapstart mksb = 58"
  by (simp_all add: mksb_def nlog_def LOGSIZE_def ninodeblocks_def NINODES_def IPB_def)

lemma mk_finish_ok:
  assumes "mk_ok s" "1 \<in> inos s"
  obtains s' where "kbind (fix_root 1 s) (\<lambda>t. mk_balloc (unat (freeblock t)) t) = Inr s'" "length (img s') = FSSIZE" "freeblock s' = freeblock s" "freeinode s' = freeinode s"
    "bk s' 1 = sb_block" "bk s' 2 = zero_block" "bk s' 58 = fold map_set [0..<unat (freeblock s)] zero_block"
    "\<forall>n. nmeta \<le> unat n \<longrightarrow> bk s' n = bk s n" "ino s' 1 = (ino s 1)\<lparr>isize := (isize (ino s 1) div 512 + 1) * 512\<rparr>"
    "\<forall>j. unat j < NINODES \<longrightarrow> j \<noteq> 1 \<longrightarrow> ino s' j = ino s j" "\<forall>n. unat n < FSSIZE \<longrightarrow> length (bk s' n) = BSIZE"
proof -
  note k = mk_okD [OF assms(1)]
  let ?d = "(ino s 1)\<lparr>isize := (isize (ino s 1) div 512 + 1) * 512\<rparr>" and ?n = "IBLOCK 1 mksb"
  have o: "unat (1 :: uint) < NINODES" by (simp add: NINODES_def)
  have wl: "length (addrs ?d) = 13" "length (bk s ?n) = BSIZE"
    using file_shapeD(1) [OF layoutD(3) [OF k(3) assms(2)]] k(7) [OF iblock(3) [OF o]] by simp_all
  obtain t where t: "winode 1 ?d s = Inr t" "bk t = (bk s)(?n := put_dinode (bk s ?n) (dip_off 1) ?d)" "length (img t) = FSSIZE"
    "freeblock t = freeblock s" "freeinode t = freeinode s" "ino t 1 = ?d" "\<forall>j. unat j < NINODES \<longrightarrow> j \<noteq> 1 \<longrightarrow> ino t j = ino s j"
    by (rule winode_ok [OF o wl(1) k(1) wl(2)])
  have r: "rinode 1 s = Inr (ino s 1)" using rsect_ok [of ?n s] iblock(3) [OF o] k(1) by (simp add: rinode_def ino_def)
  then have f: "fix_root 1 s = Inr t" using t(1) by (simp add: fix_root_def BSIZE_def)
  let ?m = "fold map_set [0..<unat (freeblock s)] zero_block"
  have lm: "length (fold map_set xs zero_block) = 512" for xs by (induction xs rule: rev_induct) simp_all
  have u: "unat (58 :: uint) < length (img t)" using t(3) by (simp add: FSSIZE_def)
  note w = wsect_ok [OF u, of ?m]
  have "unat (freeblock t) < BSIZE * 8" using k(8) t(4) by (simp add: fs_consts)
  then have e: "kbind (fix_root 1 s) (\<lambda>t. mk_balloc (unat (freeblock t)) t) = Inr (wsect 58 ?m t)"
    using f t(4) bmap_start(2) by (simp add: mk_balloc_def)
  have ne: "IBLOCK j mksb \<noteq> 58" if "unat j < NINODES" for j
    using iblock(1) [OF that] that by (auto simp: NINODES_def)
  have i: "ino (wsect 58 ?m t) j = ino t j" if "unat j < NINODES" for j using ne [OF that] by (simp add: ino_def w(1))
  have b: "bk (wsect 58 ?m t) n = bk s n" if "n \<noteq> 58" "n \<noteq> ?n" for n using that by (simp add: w(1) t(2))
  have "bk (wsect 58 ?m t) n = bk s n" if "nmeta \<le> unat n" for n
  proof (rule b)
    show "n \<noteq> 58" using that nmeta_val by auto
    show "n \<noteq> ?n" using that iblock(2) [OF o] by auto
  qed
  moreover have "length (bk (wsect 58 ?m t) n) = BSIZE" if "unat n < FSSIZE" for n
    using k(7) [OF that] lm wl(2) by (simp add: w(1) t(2) BSIZE_def)
  moreover have "bk (wsect 58 ?m t) 1 = sb_block" "bk (wsect 58 ?m t) 2 = zero_block"
    using b [of 1] b [of 2] small_block [of 1 1] small_block [of 2 1] o k(4,5) by simp_all
  ultimately show thesis using that [OF e] w t i o by simp
qed

definition root_bytes :: "(uchar list \<times> uchar list list option) list \<Rightarrow> uchar list" where
  "root_bytes files = dirent [46] 1 @ dirent [46, 46] 1 @ entries 2 files"

lemma mk_root:
  obtains s1 s2 s3 where "mk_ialloc T_DIR (wsect 1 sb_block mk_empty) = Inr (1, s1)" "iappend 1 (dirent [46] 1) s1 = Inr s2" "iappend 1 (dirent [46, 46] 1) s2 = Inr s3"
    "mk_ok s3" "freeinode s3 = 2" "contents s3 1 = dirent [46] 1 @ dirent [46, 46] 1" "fsz s3 1 = 32" "itype (ino s3 1) = T_DIR" "unat (freeblock s3) = 60"
proof -
  let ?s = "wsect 1 sb_block mk_empty"
  note st = start_ok
  have b: "blocks 0 = 0" "blocks 16 = 1" "blocks 32 = 1" by (simp_all add: blocks_def BSIZE_def NDIRECT_def)
  obtain s1 where s1: "mk_ialloc T_DIR ?s = Inr (freeinode ?s, s1)" "mk_ok s1" "freeinode s1 = freeinode ?s + 1" "freeblock s1 = freeblock ?s"
    "contents s1 (freeinode ?s) = []" "fsz s1 (freeinode ?s) = 0" "itype (ino s1 (freeinode ?s)) = T_DIR" "nlink (ino s1 (freeinode ?s)) = 1"
    "others_same (freeinode ?s) ?s s1" "inos s1 = insert (freeinode ?s) (inos ?s)"
    by (rule mk_ialloc_ok [OF st(1)]) (simp_all add: st(2) NINODES_def)
  have f1: "unat (freeblock s1) = 59" "1 \<in> inos s1" "fsz s1 1 = 0" using s1(4,6,10) st(2,3) by (simp_all add: nmeta_val)
  obtain s2 where s2: "iappend 1 (dirent [46] 1) s1 = Inr s2" "grows 1 (dirent [46] 1) s1 s2"
    by (rule iappend_grows [OF s1(2) f1(2), of "dirent [46] 1"]) (simp_all add: f1 b fs_consts)
  then have f2: "mk_ok s2" "1 \<in> inos s2" "fsz s2 1 = 16" "unat (freeblock s2) = 60" using f1 b by (simp_all add: grows_def inos_def)
  obtain s3 where s3: "iappend 1 (dirent [46, 46] 1) s2 = Inr s3" "grows 1 (dirent [46, 46] 1) s2 s3"
    by (rule iappend_grows [OF f2(1,2), of "dirent [46, 46] 1"]) (simp_all add: f2 b fs_consts)
  have "grows 1 (dirent [46] 1 @ dirent [46, 46] 1) s1 s3" by (rule grows_trans [OF s2(2) s3(2)])
  then show thesis using that [of s1 s2 s3] s1 s2(1) s3(1) f1 b st(2) by (simp add: grows_def)
qed

lemma sb_read: "superblock_of sb_block = mksb"
proof -
  let ?w = "[sb_size mksb, sb_nblocks mksb, sb_ninodes mksb, sb_nlog mksb, sb_logstart mksb, sb_inodestart mksb, sb_bmapstart mksb]"
  have "get32 sb_block (0 + 4 * i) = ?w ! i" if "i < 7" for i
    unfolding sb_block_def using that by (intro get_put_words) simp_all
  from this [of 0] this [of 1] this [of 2] this [of 3] this [of 4] this [of 5] this [of 6]
  show ?thesis by (simp add: superblock_of_def)
qed

text \<open>The kernel finds the image laid out as its file system needs it.\<close>

lemma image_fs_ok:
  fixes s :: "'a kfs_scheme"
  assumes "blk s 1 = sb_block" "\<forall>b < FSSIZE. map_free b (blk s 58) \<longleftrightarrow> u \<le> b" "nmeta \<le> u" "sb s = mksb" "log_start s = 2" "log_size s = 30" "disksize s = FSSIZE"
  shows "fs_ok s"
proof -
  have v: "sb_inodestart mksb = 32" "sb_ninodes mksb = 200" "sb_size mksb = 1000"
    by (simp_all add: mksb_def nlog_def LOGSIZE_def NINODES_def FSSIZE_def)
  have d: "dstart s = 59" by (simp add: dstart_def assms(4) bmap_start v BPB_def)
  have "geom s" unfolding geom_def d using assms(1,5,6,7) sb_read v by (simp add: assms(4) bmap_start IPB_def FSSIZE_def)
  moreover have "used s b" if "b < 59" for b
    using assms(2,3) that nmeta_val by (simp add: used_def mapblock_def assms(4) bmap_start BPB_def FSSIZE_def)
  ultimately show ?thesis by (simp add: fs_ok_def d)
qed

lemma mkfs_files:
  assumes "\<forall>f \<in> set files. good_file f" "length files + 2 \<le> NINODES"
    "nmeta + blocks (16 * (length files + 2)) + (\<Sum>f \<leftarrow> files. blocks (length (bytes_of f))) \<le> FSSIZE"
  obtains t where "mkfs_main files = kbind (fix_root 1 t) (\<lambda>t. mk_balloc (unat (freeblock t)) t)" "mk_ok t" "unat (freeinode t) = length files + 2"
    "contents t 1 = root_bytes files" "fsz t 1 = 16 * (length files + 2)" "itype (ino t 1) = T_DIR"
    "\<forall>k < length files. itype (ino t (of_nat (k + 2))) = T_FILE \<and> nlink (ino t (of_nat (k + 2))) = 1 \<and> contents t (of_nat (k + 2)) = bytes_of (files ! k)"
proof -
  obtain s1 s2 s3 where r: "mk_ialloc T_DIR (wsect 1 sb_block mk_empty) = Inr (1, s1)" "iappend 1 (dirent [46] 1) s1 = Inr s2"
    "iappend 1 (dirent [46, 46] 1) s2 = Inr s3" "mk_ok s3" "freeinode s3 = 2" "contents s3 1 = dirent [46] 1 @ dirent [46, 46] 1" "fsz s3 1 = 32"
    "itype (ino s3 1) = T_DIR" "unat (freeblock s3) = 60" by (rule mk_root)
  let ?n = "length files"
  have b: "blocks 32 = 1" by (simp add: blocks_def BSIZE_def NDIRECT_def)
  have bl: "blocks 32 \<le> blocks (16 * (?n + 2))" by (rule blocks_mono) simp
  have e: "32 + 16 * ?n = 16 * (?n + 2)" by simp
  have o: "1 \<in> inos s3" using r(5) by (simp add: inos_def word_less_nat_alt)
  have h: "unat (freeinode s3) + ?n \<le> NINODES" "fsz s3 1 + 16 * ?n \<le> MAXFILE * BSIZE"
    using r(5,7) assms(2) by (simp_all add: NINODES_def fs_consts)
  have "unat (freeblock s3) + (blocks (fsz s3 1 + 16 * ?n) - blocks (fsz s3 1)) + (\<Sum>f \<leftarrow> files. blocks (length (bytes_of f))) \<le> FSSIZE"
    unfolding r(7,9) e b using assms(3) bl [unfolded b] nmeta_val by linarith
  then obtain t where t: "add_files 1 files s3 = Inr t" "added files s3 t" using add_files_ok [OF r(4) o assms(1) h] by blast
  have "mkfs_main files = kbind (fix_root 1 t) (\<lambda>t. mk_balloc (unat (freeblock t)) t)"
    using r(1-3) t(1) by (simp add: mkfs_main_def Let_def ROOTINO_def)
  moreover have "(2 :: uint) + of_nat k = of_nat (k + 2)" for k by simp
  ultimately show thesis using that [of t] t(2) r(5-8) by (simp add: added_def root_bytes_def Let_def)
qed

text \<open>What the last steps keep of the files, and the size that they give the root directory.\<close>

lemma finished_files:
  assumes "mk_ok t" "1 \<in> inos t" "freeblock s = freeblock t" "freeinode s = freeinode t" "\<forall>n. nmeta \<le> unat n \<longrightarrow> bk s n = bk t n"
    "\<forall>n. unat n < FSSIZE \<longrightarrow> length (bk s n) = BSIZE" "addrs (ino s 1) = addrs (ino t 1)" "\<forall>j. unat j < NINODES \<longrightarrow> j \<noteq> 1 \<longrightarrow> ino s j = ino t j"
  shows "layout (inos s) (\<lambda>i. addrs (ino s i)) ((fsz s)(1 := fsz t 1)) (bk s) (freeblock s)"
    "cont (bk s) (addrs (ino s 1)) (fsz t 1) = contents t 1" "\<And>i. i \<in> inos s \<Longrightarrow> i \<noteq> 1 \<Longrightarrow> contents s i = contents t i"
proof -
  note k = mk_okD [OF assms(1)]
  have I: "inos s = inos t" using assms(4) by (simp add: inos_def)
  have AZ: "addrs (ino s i) = addrs (ino t i) \<and> ((fsz s)(1 := fsz t 1)) i = fsz t i" if "i \<in> inos t" for i
    using assms(7,8) k(6) [OF that] by (cases "i = 1") (simp_all add: fsz_def)
  have c: "layout (inos t) (\<lambda>i. addrs (ino s i)) ((fsz s)(1 := fsz t 1)) (bk s) (freeblock t)"
    "\<And>i. i \<in> inos t \<Longrightarrow> cont (bk s) (addrs (ino s i)) (((fsz s)(1 := fsz t 1)) i) = contents t i"
    using layout_cong [OF k(3), of "\<lambda>i. addrs (ino s i)" "(fsz s)(1 := fsz t 1)" "bk s"] AZ assms(5,6) unfolding contents_def by blast+
  show "layout (inos s) (\<lambda>i. addrs (ino s i)) ((fsz s)(1 := fsz t 1)) (bk s) (freeblock s)" using c(1) I assms(3) by simp
  show "cont (bk s) (addrs (ino s 1)) (fsz t 1) = contents t 1" using c(2) [OF assms(2)] by simp
  show "contents s i = contents t i" if "i \<in> inos s" "i \<noteq> 1" for i using c(2) [of i] that I by (simp add: contents_def)
qed

lemma rounded_size:
  assumes "unat (z :: uint) \<le> 4096"
  shows "unat ((z div 512 + 1) * 512) = (unat z div BSIZE + 1) * BSIZE"
proof -
  have d: "unat (z div 512) = unat z div 512" by (simp add: unat_div)
  have "unat z div 512 \<le> 8" using assms by simp
  then have e: "unat (z div 512 + 1) = unat z div 512 + 1" using d unat_add_small [of "z div 512" 1] by simp
  have m: "unat (v * 512) = unat v * 512" if "unat v \<le> 9" for v :: uint using that by (simp add: unat_word_ariths)
  have "unat ((z div 512 + 1) * 512) = unat (z div 512 + 1) * 512" by (rule m) (use e \<open>unat z div 512 \<le> 8\<close> in simp)
  then show ?thesis unfolding e BSIZE_def .
qed

text \<open>
  C9. Given files that can be read, that are not too large and that fit on the disk together, the builder
  ends and the image is a file system with exactly these files: the free map marks the blocks below the
  next free one, the root directory holds its own two entries and one for each file in order, each file
  is an inode of its own with the bytes that were read, and all of them are in blocks of the data area that
  no other file uses. A kernel that starts on the image finds its file system invariant. The size of the
  root directory is rounded up to the next block, even where its entries fill their blocks: in exactly that case its last
  block is missing.
\<close>

theorem mkfs_builds_file_system:
  assumes "\<forall>f \<in> set files. good_file f" "length files + 2 \<le> NINODES"
    "nmeta + blocks (16 * (length files + 2)) + (\<Sum>f \<leftarrow> files. blocks (length (bytes_of f))) \<le> FSSIZE"
  shows "\<exists>s. mkfs_main files = Inr s \<and>
    layout (inos s) (\<lambda>i. addrs (ino s i)) ((fsz s)(1 := 16 * (length files + 2))) (bk s) (freeblock s) \<and>
    (\<forall>b < FSSIZE. map_free b (bk s 58) \<longleftrightarrow> unat (freeblock s) \<le> b) \<and> bk s 2 = zero_block \<and>
    itype (ino s 1) = T_DIR \<and> cont (bk s) (addrs (ino s 1)) (16 * (length files + 2)) = root_bytes files \<and>
    fsz s 1 = (16 * (length files + 2) div BSIZE + 1) * BSIZE \<and>
    (nb (bk s) (addrs (ino s 1)) (fsz s 1 div BSIZE - 1) = 0 \<longleftrightarrow> BSIZE dvd 16 * (length files + 2)) \<and>
    (\<forall>k < length files. itype (ino s (of_nat (k + 2))) = T_FILE \<and> nlink (ino s (of_nat (k + 2))) = 1 \<and>
       contents s (of_nat (k + 2)) = bytes_of (files ! k)) \<and>
    (\<forall>c :: 'a kfs_scheme. blk c = bk s \<longrightarrow> sb c = mksb \<longrightarrow> log_start c = 2 \<longrightarrow> log_size c = 30 \<longrightarrow> disksize c = FSSIZE \<longrightarrow> fs_ok c)"
proof -
  let ?n = "length files" and ?z = "16 * (length files + 2)"
  obtain t where m: "mkfs_main files = kbind (fix_root 1 t) (\<lambda>t. mk_balloc (unat (freeblock t)) t)" and ok: "mk_ok t" and n: "unat (freeinode t) = ?n + 2"
    and t: "contents t 1 = root_bytes files" "fsz t 1 = ?z" "itype (ino t 1) = T_DIR"
    "\<forall>k < ?n. itype (ino t (of_nat (k + 2))) = T_FILE \<and> nlink (ino t (of_nat (k + 2))) = 1 \<and> contents t (of_nat (k + 2)) = bytes_of (files ! k)"
    by (rule mkfs_files [OF assms])
  have o: "1 \<in> inos t" using n by (simp add: inos_def word_less_nat_alt)
  obtain s where f: "kbind (fix_root 1 t) (\<lambda>t. mk_balloc (unat (freeblock t)) t) = Inr s" "length (img s) = FSSIZE" "freeblock s = freeblock t" "freeinode s = freeinode t"
    "bk s 1 = sb_block" "bk s 2 = zero_block" "bk s 58 = fold map_set [0..<unat (freeblock t)] zero_block"
    "\<forall>n. nmeta \<le> unat n \<longrightarrow> bk s n = bk t n" "ino s 1 = (ino t 1)\<lparr>isize := (isize (ino t 1) div 512 + 1) * 512\<rparr>"
    "\<forall>j. unat j < NINODES \<longrightarrow> j \<noteq> 1 \<longrightarrow> ino s j = ino t j" "\<forall>n. unat n < FSSIZE \<longrightarrow> length (bk s n) = BSIZE"
    by (rule mk_finish_ok [OF ok o])
  have ad: "addrs (ino s 1) = addrs (ino t 1)" by (simp add: f(9))
  note L = finished_files [OF ok o f(3,4,8,11) ad f(10)]
  have map: "\<forall>b < FSSIZE. map_free b (bk s 58) \<longleftrightarrow> unat (freeblock s) \<le> b"
    using map_block [of "unat (freeblock t)"] mk_okD(8) [OF ok] f(3,7) by (simp add: FSSIZE_def)
  have z: "?z \<le> 3200" using assms(2) by (simp add: NINODES_def)
  have r: "fsz s 1 = (?z div BSIZE + 1) * BSIZE" using rounded_size [of "isize (ino t 1)"] t(2) z f(9) by (simp add: fsz_def)
  have "fsz s 1 div BSIZE - 1 = ?z div BSIZE" unfolding r by (simp add: BSIZE_def)
  moreover have "1 \<in> inos s" using o f(4) by (simp add: inos_def)
  note sh = file_shapeD(3) [OF layoutD(3) [OF L(1) this], of "?z div BSIZE"]
  have "?z div BSIZE < MAXFILE" using z by (intro less_mult_imp_div_less) (simp add: fs_consts)
  ultimately have gap: "nb (bk s) (addrs (ino s 1)) (fsz s 1 div BSIZE - 1) = 0 \<longleftrightarrow> BSIZE dvd ?z" using sh last_block [of ?z] t(2) by auto
  have files: "itype (ino s (of_nat (k + 2))) = T_FILE \<and> nlink (ino s (of_nat (k + 2))) = 1 \<and> contents s (of_nat (k + 2)) = bytes_of (files ! k)" if "k < ?n" for k
  proof -
    have u: "unat (of_nat (k + 2) :: uint) = k + 2" using that assms(2) by (intro unat_of_nat_small) (simp add: NINODES_def)
    then have "of_nat (k + 2) \<in> inos s" "(of_nat (k + 2) :: uint) \<noteq> 1" "unat (of_nat (k + 2) :: uint) < NINODES"
      using that n f(4) assms(2) by (auto simp: inos_def word_less_nat_alt word_unat_eq_iff simp del: of_nat_add)
    then show ?thesis using L(3) [of "of_nat (k + 2)"] f(10) t(4) that by (simp del: of_nat_add)
  qed
  have fs: "fs_ok c" if "blk c = bk s" "sb c = mksb" "log_start c = 2" "log_size c = 30" "disksize c = FSSIZE" for c :: "'a kfs_scheme"
    by (rule image_fs_ok [of c "unat (freeblock s)"]) (use that map f(5) layoutD(1) [OF L(1)] in simp_all)
  have "itype (ino s 1) = T_DIR" using f(9) t(3) by simp
  then show ?thesis using m f(1,6) L(1,2) map r gap files fs t(1,2) by (intro exI [of _ s]) simp
qed

theorem mkfs_builds_file_system_witness:
  "\<exists>s. mkfs_main [([95, 97], Some [[1, 2], [3]])] = Inr s \<and> contents s 2 = [1, 2, 3] \<and> fsz s 1 = 512"
proof -
  let ?f = "[([95, 97], Some [[1, 2], [3]])] :: (uchar list \<times> uchar list list option) list"
  have "\<forall>f \<in> set ?f. good_file f" by (simp add: good_file_def slash_def file_bytes_def fs_consts)
  moreover have "length ?f + 2 \<le> NINODES" "nmeta + blocks (16 * (length ?f + 2)) + (\<Sum>f \<leftarrow> ?f. blocks (length (bytes_of f))) \<le> FSSIZE"
    by (simp_all add: NINODES_def nmeta_val blocks_def file_bytes_def fs_consts)
  ultimately obtain s where "mkfs_main ?f = Inr s" "fsz s 1 = (16 * (length ?f + 2) div BSIZE + 1) * BSIZE"
    "\<forall>k < length ?f. itype (ino s (of_nat (k + 2))) = T_FILE \<and> nlink (ino s (of_nat (k + 2))) = 1 \<and> contents s (of_nat (k + 2)) = bytes_of (?f ! k)"
    using mkfs_builds_file_system by blast
  then show ?thesis by (auto simp: file_bytes_def BSIZE_def)
qed

end
