(* ===== verification/Spec2Isabelle.thy ===== *)
theory Spec2Isabelle
  imports Syscall Copyuvm Swapio Grep Cake Shrun Umalloc Mkfs
begin

text \<open>
  A verification development of the xv6 kernel with sockets and demand paging
  (\<^verbatim>\<open>src/xv6-Development/xv6\<close>), of its shell and some of its user programs, and of the threaded cake
  factory (\<^verbatim>\<open>src/IPC/CakeFactory\<close>). File names below are relative to those directories.

  \<^bold>\<open>The program and its model.\<close> The kernel is a stack of components, each of which extends the state of
  the ones below it. The model has the same shape: one record per component, each extending the one
  before, so that an operation of a lower component runs unchanged on the states of the higher ones.

  \<^item> \<open>ksync\<close>, \<open>Spinlock\<close>: the locks that the running code holds (\<^verbatim>\<open>spinlock.c\<close>);
  \<^item> \<open>kproc\<close>, \<open>Proc\<close>: the process table (\<^verbatim>\<open>proc.h\<close>, \<^verbatim>\<open>proc.c\<close>);
  \<^item> \<open>ksock\<close>, \<open>Sock\<close>: the socket table (\<^verbatim>\<open>sock.h\<close>, \<^verbatim>\<open>sock.c\<close>);
  \<^item> \<open>kmem\<close>, \<open>Kalloc\<close>: the byte memory and the free list in it (\<^verbatim>\<open>kalloc.c\<close>);
  \<^item> \<open>kvm\<close>, \<open>Paging\<close> and \<open>Swap\<close>: page tables in memory, the contents of the swap files (\<^verbatim>\<open>vm.c\<close>);
  \<^item> \<open>kpipe\<close>, \<open>Pipe\<close>: pipes (\<^verbatim>\<open>pipe.c\<close>);
  \<^item> \<open>kcons\<close>, \<open>Console\<close>: screen, serial line, input ring (\<^verbatim>\<open>console.c\<close>);
  \<^item> \<open>ksleep\<close>, \<open>Sleeplock\<close>: sleep locks (\<^verbatim>\<open>sleeplock.c\<close>);
  \<^item> \<open>kbio\<close>, \<open>Bio\<close>: the buffer cache and the memory disk (\<^verbatim>\<open>bio.c\<close>, \<^verbatim>\<open>memide.c\<close>);
  \<^item> \<open>klog\<close>, \<open>Log\<close>: the log (\<^verbatim>\<open>log.c\<close>);
  \<^item> \<open>kfs\<close>, \<open>Inode\<close> to \<open>Dir\<close>: superblock and inode cache (\<^verbatim>\<open>fs.c\<close>);
  \<^item> \<open>kfile\<close>, \<open>File\<close>: the table of open files (\<^verbatim>\<open>file.c\<close>);
  \<^item> \<open>ksys\<close>, \<open>Fork\<close>: the clock and the flag of the first \<^verbatim>\<open>forkret\<close> (\<^verbatim>\<open>proc.c\<close>, \<^verbatim>\<open>trap.c\<close>).

  A pointer into a table of the kernel is an index, \<open>None\<close> for a null pointer where the code tests for
  it; a pointer into memory is a 32-bit word, and page tables, the free list and user memory are bytes at
  such addresses. \<^verbatim>\<open>uint\<close>, \<^verbatim>\<open>ushort\<close> and \<^verbatim>\<open>uchar\<close> are words of 32, 16 and 8 bits and wrap as in the code;
  a signed \<^verbatim>\<open>int\<close> is an integer where its range is bounded by the code. A routine returns an outcome
  \<open>kres\<close>: a value, or the reason why it has none: \<open>Panic\<close> with the message of the kernel, \<open>Undefined\<close> for
  an access that C leaves undefined, \<open>Waits\<close> where it would have to wait for another process.

  \<^bold>\<open>Concurrency.\<close> Where the code can be interrupted by another CPU or gives up the CPU it is cut into
  pieces, and an inductive relation runs the pieces in every order: the instructions of a spin lock
  (\<open>lock_step\<close>), the calls on a sleep lock, the calls on a pipe, the calls on sockets, the statements of the
  threads of the cake factory. A call that sleeps has a part up to the sleep and a \<open>resume\<close> part that
  runs after the wakeup, with the kernel state that other calls left. The file system above the sleep
  locks runs for one process at a time; a lock that another process holds ends the call with \<open>Waits\<close>.

  \<^bold>\<open>The theories.\<close>

  \<^item> \<open>Prelude\<close>: integer types, outcomes, table scans, lemmas on lists and words.
  \<^item> \<open>CString\<close> (\<^verbatim>\<open>string.c\<close>, \<^verbatim>\<open>x86.h\<close>): byte memory; \<open>memmove\<close> copies overlapping ranges, \<open>memset\<close>,
    \<open>strncpy\<close>, \<open>safestrcpy\<close> and \<open>strncmp\<close> meet their contracts.
  \<^item> \<open>Bytes\<close>: 16- and 32-bit fields of disk blocks, read back and not disturbed by other fields.
  \<^item> \<open>Spinlock\<close>: mutual exclusion over any number of CPUs with interrupts off at the holder. The locale
    \<open>lock_iface\<close> is what users of locks rely on; the machine and the lock set of \<open>ksync\<close> provide it.
  \<^item> \<open>Proc\<close>, \<open>Fork\<close>: sleeping, waking, scheduling; creation, growth, \<open>fork\<close>, \<open>exit\<close>, \<open>wait\<close>, \<open>kill\<close>. Exit hands
    its children to the first process; every outcome of \<open>kill\<close>, with the panic on an owner of a socket.
  \<^item> \<open>Sock\<close>: the table invariant is kept by every call and resumed call from boot on, with no panic and
    no lock left held; what \<open>connect\<close> links and what \<open>send\<close> delivers to \<open>recv\<close>.
  \<^item> \<open>Kalloc\<close>: the free list in memory; the locale \<open>page_allocator\<close> states that pages are handed out once.
  \<^item> \<open>Fifo\<close>: the ring of resident pages refines a queue (locale \<open>page_queue\<close>).
  \<^item> \<open>Paging\<close>: \<open>mappages\<close> maps the range and nothing else. \<open>Swap\<close>: a page that goes out comes back with
    its contents and its entry; \<open>deallocuvm\<close> ends. \<open>Copyuvm\<close>: \<open>setupkvm\<close> leaves the pages of other address
    spaces alone and succeeds with enough free pages; copying an address space whose first page is
    swapped out panics.
  \<^item> \<open>Fault\<close> (\<^verbatim>\<open>trap.c\<close>): the page-fault case of the trap handler; on a fault of the kernel itself it panics.
  \<^item> \<open>Swapio\<close>: \<open>writeToSwapFile\<close> and \<open>readFromSwapFile\<close> on the file system implement the contract
    \<open>swap_write\<close> and \<open>swap_read\<close> that \<open>Swap\<close> uses for the contents of a swap file.
  \<^item> \<open>Pipe\<close>: a pipe is a first-in first-out channel in every interleaving (locale \<open>byte_channel\<close>).
  \<^item> \<open>Console\<close>: the interrupt handler refines a line editor; a typed line is what is read.
  \<^item> \<open>Sleeplock\<close>: exclusion, and no wakeup is lost.
  \<^item> \<open>Bio\<close>: the linked list of buffers is sound, recycles the least recently used one, and cache and
    disk are one array of blocks (locale \<open>block_cache\<close>).
  \<^item> \<open>Log\<close>: a crash at any disk write of a commit, or of recovery, leaves the transaction whole or absent.
  \<^item> \<open>Inode\<close>, \<open>Balloc\<close>, \<open>Content\<close>, \<open>Fsdisk\<close> (\<^verbatim>\<open>fs.c\<close>): operations on blocks and inodes; allocation of
    blocks; \<open>writei\<close> and \<open>readi\<close> refine writes and reads of an abstract file; a small formatted disk on
    which the properties are exercised.
  \<^item> \<open>Mkfs\<close> (\<^verbatim>\<open>mkfs.c\<close>): the image that the builder writes holds exactly the files it was given, in blocks of
    their own, and the invariant \<open>fs_ok\<close> of the kernel's file system holds on it.
  \<^item> \<open>Dir\<close>: entries, path walk, names of swap files. \<open>File\<close>, \<open>Fileio\<close>: open files refine contents with an
    offset, through transactions.
  \<^item> \<open>Sysarg\<close>, \<open>Sysfile\<close>, \<open>Exec\<close>, \<open>Syscall\<close> (\<^verbatim>\<open>syscall.c\<close>, \<^verbatim>\<open>sysfile.c\<close>, \<^verbatim>\<open>exec.c\<close>, \<^verbatim>\<open>sysproc.c\<close>,
    \<^verbatim>\<open>syssock.c\<close>, \<^verbatim>\<open>trap.c\<close>): arguments are accepted exactly inside the address space of the caller;
    every handler and the dispatcher; a path in a swapped-out page faults in the kernel and panics it.
  \<^item> \<open>Ulib\<close>, \<open>Grep\<close> (\<^verbatim>\<open>ulib.c\<close>, \<^verbatim>\<open>printf.c\<close>, \<^verbatim>\<open>wc.c\<close>, \<^verbatim>\<open>grep.c\<close>): user library, the word counter, the pattern
    matcher against an independent definition of its language.
  \<^item> \<open>Umalloc\<close> (\<^verbatim>\<open>umalloc.c\<close>): \<open>malloc\<close> cuts its block out of free or new memory and returns null only where the
    system refuses more; \<open>free\<close> puts a block back joined with its neighbours; the list in memory stays sound.
  \<^item> \<open>Sh\<close>, \<open>Shrun\<close> (\<^verbatim>\<open>sh.c\<close>): the parser accepts what is printed and gives well-formed commands with their
    words in the line; the system calls of \<open>runcmd\<close> start the programs of the command with the
    descriptors of a reference meaning.
  \<^item> \<open>Cake\<close> (\<^verbatim>\<open>CakeFactory.cpp\<close>): queue bounds, guarded data and absence of deadlock in every interleaving.

  \<^bold>\<open>Loops and bounds.\<close> Loops over tables are scans of lists; other loops have a measure, or are given a
  bound that is proved to be enough: the parser of the shell a depth of four times the length of the line
  plus four, \<open>deallocuvm\<close> the number of pages of the range. Loops of C strings stop only at a NUL and are
  partial; where they are used they are proved to return. The fresh directory of a child needs at most 513
  pages, itself and one table for each of the 512 entries above \<^verbatim>\<open>KERNBASE\<close>.

  \<^bold>\<open>Parameters.\<close> Addresses that the linker gives, the code of the first process, what the hardware hands to
  a trap, and the program counters of a call stack are arguments; so is the system call \<^verbatim>\<open>sbrk\<close> for the
  user allocator, with what the allocator relies on as the hypothesis \<open>sbrk_law\<close>, and so are the
  results of reading the files of the host for \<^verbatim>\<open>mkfs.c\<close>.

  \<^bold>\<open>Not modelled.\<close> Boot code, the context switch and trap entry are assembly; the drivers of timer, disk
  controller, serial port and interrupt controllers are port accesses, and setting up segments and the
  interrupt table (\<^verbatim>\<open>seginit\<close>, \<^verbatim>\<open>tvinit\<close>) loads registers. The other user
  programs are short drivers and tests of the system calls. Of the shell's \<^verbatim>\<open>main\<close> the loop that opens the
  console three times is left out.
\<close>

end
